(* ===== verification/Prelude.thy ===== *)
theory Prelude
  imports Main "HOL-Library.Word"
begin

text \<open>
  Shared vocabulary of the development: byte strings, results that may carry a JavaScript error
  message, big-endian integers, the text encodings of Node's \<open>Buffer\<close> (hex and base64), and the
  interface of a self-delimiting codec, which every wire format below provides.

  A \<open>Buffer\<close> is a list of 8-bit words. A JavaScript string is the list of the bytes of its
  UTF-8 form, so \<open>Buffer.from(s, "utf8")\<close> only changes the type. A thrown \<open>Error\<close> is \<open>Inl\<close> of
  its message (without interpolated values).
\<close>

section \<open>Results and collections\<close>

type_synonym byte = "8 word"
type_synonym bytes = "8 word list"
type_synonym 'a res = "string + 'a"

named_theorems codec_simps \<open>encoders and decoders applied to each other\<close>
named_theorems len_simps \<open>lengths of encodings\<close>

definition rbind :: "'e + 'a \<Rightarrow> ('a \<Rightarrow> 'e + 'b) \<Rightarrow> 'e + 'b" where
  "rbind r f = (case r of Inl e \<Rightarrow> Inl e | Inr x \<Rightarrow> f x)"

lemma rbind_simps [simp]: "rbind (Inl e) f = Inl e" "rbind (Inr x) f = f x"
  by (simp_all add: rbind_def)

lemma rbind_eq_Inr [simp]: "rbind r f = Inr y \<longleftrightarrow> (\<exists>x. r = Inr x \<and> f x = Inr y)"
  by (cases r) auto

lemma rbind_eq_Inl: "rbind r f = Inl e \<longleftrightarrow> r = Inl e \<or> (\<exists>x. r = Inr x \<and> f x = Inl e)"
  by (cases r) auto

lemma rbind_cong [fundef_cong]:
  "r = r' \<Longrightarrow> (\<And>x. r' = Inr x \<Longrightarrow> f x = g x) \<Longrightarrow> rbind r f = rbind r' g"
  by (cases r') auto

text \<open>A function that may throw, applied to each element in turn; the first error wins.\<close>

fun rmapM :: "('a \<Rightarrow> 'e + 'b) \<Rightarrow> 'a list \<Rightarrow> 'e + 'b list" where
  "rmapM f [] = Inr []"
| "rmapM f (x # xs) = rbind (f x) (\<lambda>y. rbind (rmapM f xs) (\<lambda>ys. Inr (y # ys)))"

lemma rmapM_cong [fundef_cong]:
  "xs = ys \<Longrightarrow> (\<And>x. x \<in> set ys \<Longrightarrow> f x = g x) \<Longrightarrow> rmapM f xs = rmapM g ys"
  by (induction ys arbitrary: xs) auto

lemma rmapM_Inr: "(\<And>x. x \<in> set xs \<Longrightarrow> f x = Inr (g x)) \<Longrightarrow> rmapM f xs = Inr (map g xs)"
  by (induction xs) auto

lemma rmapM_total: "(\<And>x. x \<in> set xs \<Longrightarrow> \<exists>y. f x = Inr y) \<Longrightarrow> \<exists>ys. rmapM f xs = Inr ys"
proof (induction xs)
  case (Cons x xs)
  then obtain y ys where "f x = Inr y" "rmapM f xs = Inr ys" by (meson list.set_intros)
  then show ?case by simp
qed simp

lemma rmapM_length: "rmapM f xs = Inr ys \<Longrightarrow> length ys = length xs"
  by (induction xs arbitrary: ys) auto

lemma rmapM_nth: "rmapM f xs = Inr ys \<Longrightarrow> i < length xs \<Longrightarrow> f (xs ! i) = Inr (ys ! i)"
  by (induction xs arbitrary: ys i) (auto simp: nth_Cons split: nat.splits)

section \<open>Bytes and big-endian integers\<close>

abbreviation byte_of :: "nat \<Rightarrow> byte" where
  "byte_of \<equiv> word_of_nat"

lemma unat_byte_of [simp]: "unat (byte_of n) = n mod 256"
  by (simp add: unat_of_nat)

lemma unat_byte_less [simp]: "unat (b :: byte) < 256"
  using unsigned_less [of b] by simp

lemma byte_of_unat_mod: "byte_of (n mod 256) = byte_of n"
  by (simp add: word_unat_eq_iff)

text \<open>\<open>writeUInt16BE\<close>, \<open>writeUInt32BE\<close> and \<open>writeBigUInt64BE\<close> are \<open>be\<close> at 2, 4 and 8 bytes;
  \<open>unbe\<close> is the matching read.\<close>

fun be :: "nat \<Rightarrow> nat \<Rightarrow> bytes" where
  "be 0 n = []"
| "be (Suc k) n = be k (n div 256) @ [byte_of n]"

definition unbe :: "bytes \<Rightarrow> nat" where
  "unbe bs = foldl (\<lambda>a b. a * 256 + unat b) 0 bs"

lemma length_be [simp, len_simps]: "length (be k n) = k"
  by (induction k arbitrary: n) auto

lemma unbe_Nil [simp]: "unbe [] = 0"
  by (simp add: unbe_def)

lemma unbe_snoc [simp]: "unbe (bs @ [b]) = unbe bs * 256 + unat b"
  by (simp add: unbe_def)

lemma unbe_be_mod: "unbe (be k n) = n mod 256 ^ k"
proof (induction k arbitrary: n)
  case (Suc k)
  have "n div 256 mod 256 ^ k * 256 + n mod 256 = n mod (256 * 256 ^ k)"
    by (simp add: mod_mult2_eq)
  with Suc.IH show ?case by simp
qed simp

lemma unbe_be [codec_simps]: "n < 256 ^ k \<Longrightarrow> unbe (be k n) = n"
  by (simp add: unbe_be_mod)

lemma unbe_less: "unbe bs < 256 ^ length bs"
proof (induction bs rule: rev_induct)
  case (snoc b bs)
  have "unbe bs * 256 + unat b < (unbe bs + 1) * 256"
    using unat_byte_less [of b] by simp
  also have "\<dots> \<le> 256 ^ length bs * 256"
    using snoc.IH by (intro mult_right_mono) auto
  finally show ?case by simp
qed simp

lemma be_unbe: "be (length bs) (unbe bs) = bs"
proof (induction bs rule: rev_induct)
  case (snoc b bs)
  have "unat (byte_of (unbe bs * 256 + unat b)) = unat b"
    by (simp only: unat_byte_of) simp
  then have "byte_of (unbe bs * 256 + unat b) = b"
    by (simp only: word_unat_eq_iff)
  moreover have "(unbe bs * 256 + unat b) div 256 = unbe bs"
    using unat_byte_less [of b] by simp
  ultimately show ?case using snoc.IH by simp
qed simp

lemma unbe_inj: "length xs = length ys \<Longrightarrow> unbe xs = unbe ys \<Longrightarrow> xs = ys"
  by (metis be_unbe)

section \<open>Strings and their bytes\<close>

definition utf8 :: "string \<Rightarrow> bytes" where
  "utf8 s = map (\<lambda>c. byte_of (of_char c)) s"

definition utf8_string :: "bytes \<Rightarrow> string" where
  "utf8_string bs = map (\<lambda>b. char_of (unat b)) bs"

lemma of_char_less [simp]: "of_char c < (256 :: nat)"
  by (metis char_of_eq_iff mod_less_divisor of_char_mod_256 zero_less_numeral)

lemma utf8_string_utf8 [simp, codec_simps]: "utf8_string (utf8 s) = s"
  by (simp add: utf8_def utf8_string_def comp_def)

lemma utf8_utf8_string [simp, codec_simps]: "utf8 (utf8_string bs) = bs"
  by (simp add: utf8_def utf8_string_def comp_def of_char_of)

lemma length_utf8 [simp, len_simps]: "length (utf8 s) = length s"
  by (simp add: utf8_def)

lemma utf8_append [simp]: "utf8 (s @ t) = utf8 s @ utf8 t"
  by (simp add: utf8_def)

lemma utf8_inj [simp]: "utf8 s = utf8 t \<longleftrightarrow> s = t"
  by (metis utf8_string_utf8)

section \<open>Hexadecimal: \<open>toString("hex")\<close> and \<open>Buffer.from(s, "hex")\<close>\<close>

definition hexdig :: "nat \<Rightarrow> char" where
  "hexdig n = char_of (if n < 10 then n + 48 else n + 87)"

definition hexval :: "char \<Rightarrow> nat option" where
  "hexval c = (let n = of_char c in
     if 48 \<le> n \<and> n \<le> 57 then Some (n - 48)
     else if 97 \<le> n \<and> n \<le> 102 then Some (n - 87)
     else if 65 \<le> n \<and> n \<le> 70 then Some (n - 55)
     else None)"

definition to_hex :: "bytes \<Rightarrow> string" where
  "to_hex bs = concat (map (\<lambda>b. [hexdig (unat b div 16), hexdig (unat b mod 16)]) bs)"

text \<open>Decoding stops at the first pair that is not two hex digits, as Node's does.\<close>

fun from_hex :: "string \<Rightarrow> bytes" where
  "from_hex (c # d # r) =
     (case (hexval c, hexval d) of
        (Some a, Some b) \<Rightarrow> byte_of (a * 16 + b) # from_hex r
      | _ \<Rightarrow> [])"
| "from_hex _ = []"

lemma hexval_hexdig: "n < 16 \<Longrightarrow> hexval (hexdig n) = Some n"
  by (auto simp: hexval_def hexdig_def Let_def)

lemma to_hex_Nil [simp]: "to_hex [] = []"
  by (simp add: to_hex_def)

lemma to_hex_Cons: "to_hex (b # bs) = hexdig (unat b div 16) # hexdig (unat b mod 16) # to_hex bs"
  by (simp add: to_hex_def)

lemma length_to_hex [simp, len_simps]: "length (to_hex bs) = 2 * length bs"
  by (induction bs) (auto simp: to_hex_Cons)

lemma from_hex_to_hex [simp, codec_simps]: "from_hex (to_hex bs) = bs"
proof (induction bs)
  case (Cons b bs)
  have "unat b div 16 < 16" by (rule less_mult_imp_div_less) simp
  moreover have "byte_of (unat b div 16 * 16 + unat b mod 16) = b"
    by (simp only: div_mult_mod_eq) simp
  ultimately show ?case
    using Cons.IH by (simp add: to_hex_Cons hexval_hexdig del: of_nat_add of_nat_mult)
qed simp

lemma to_hex_inj [simp]: "to_hex x = to_hex y \<longleftrightarrow> x = y"
  by (metis from_hex_to_hex)

section \<open>Base64: \<open>toString("base64")\<close> and \<open>Buffer.from(s, "base64")\<close>\<close>

definition b64_char :: "nat \<Rightarrow> char" where
  "b64_char n = char_of (if n < 26 then n + 65 else if n < 52 then n + 71
     else if n < 62 then n - 4 else if n = 62 then 43 else 47)"

text \<open>The decoder also takes the URL-safe alphabet, skips other characters and stops at \<open>=\<close>.\<close>

definition b64_val :: "char \<Rightarrow> nat option" where
  "b64_val c = (let n = of_char c in
     if 65 \<le> n \<and> n \<le> 90 then Some (n - 65)
     else if 97 \<le> n \<and> n \<le> 122 then Some (n - 71)
     else if 48 \<le> n \<and> n \<le> 57 then Some (n + 4)
     else if n = 43 \<or> n = 45 then Some 62
     else if n = 47 \<or> n = 95 then Some 63
     else None)"

fun b64_split :: "nat list \<Rightarrow> nat list" where
  "b64_split [] = []"
| "b64_split [a] = [a div 4, a mod 4 * 16]"
| "b64_split [a, b] = [a div 4, a mod 4 * 16 + b div 16, b mod 16 * 4]"
| "b64_split (a # b # c # r) =
     a div 4 # (a mod 4 * 16 + b div 16) # (b mod 16 * 4 + c div 64) # c mod 64 # b64_split r"

fun b64_join :: "nat list \<Rightarrow> nat list" where
  "b64_join (a # b # c # d # r) =
     (a * 4 + b div 16) # (b mod 16 * 16 + c div 4) # (c mod 4 * 64 + d) # b64_join r"
| "b64_join [a, b, c] = [a * 4 + b div 16, b mod 16 * 16 + c div 4]"
| "b64_join [a, b] = [a * 4 + b div 16]"
| "b64_join _ = []"

definition b64_pad :: "nat \<Rightarrow> string" where
  "b64_pad n = replicate ((3 - n mod 3) mod 3) (CHR ''='')"

definition to_base64 :: "bytes \<Rightarrow> string" where
  "to_base64 bs = map b64_char (b64_split (map unat bs)) @ b64_pad (length bs)"

definition from_base64 :: "string \<Rightarrow> bytes" where
  "from_base64 s = map byte_of (b64_join
     (List.map_filter b64_val (takeWhile (\<lambda>c. c \<noteq> CHR ''='') s)))"

lemma b64_val_char: "n < 64 \<Longrightarrow> b64_val (b64_char n) = Some n"
  by (auto simp: b64_val_def b64_char_def Let_def)

lemma b64_char_not_pad: "n < 64 \<Longrightarrow> b64_char n \<noteq> CHR ''=''"
proof
  assume "n < 64" "b64_char n = CHR ''=''"
  then have "b64_val (CHR ''='') = Some n" using b64_val_char by metis
  then show False by (simp add: b64_val_def)
qed

lemma b64_sextets:
  fixes a b c :: nat
  assumes "a < 256" "b < 256" "c < 256"
  shows "a div 4 < 64" "a mod 4 * 16 + b div 16 < 64" "b mod 16 * 4 + c div 64 < 64"
    "c mod 64 < 64" "a mod 4 * 16 < 64" "b mod 16 * 4 < 64"
proof -
  have *: "a mod 4 < 4" "b div 16 < 16" "b mod 16 < 16" "c div 64 < 4" using assms by simp_all
  show "a div 4 < 64" using assms(1) by simp
  show "a mod 4 * 16 + b div 16 < 64" using *(1,2) by linarith
  show "b mod 16 * 4 + c div 64 < 64" using *(3,4) by linarith
  show "c mod 64 < 64" by simp
  show "a mod 4 * 16 < 64" using *(1) by linarith
  show "b mod 16 * 4 < 64" using *(3) by linarith
qed

lemma b64_regroup:
  fixes a b c :: nat
  assumes "b < 256" "c < 256"
  shows "a div 4 * 4 + (a mod 4 * 16 + b div 16) div 16 = a"
    "(a mod 4 * 16 + b div 16) mod 16 * 16 + (b mod 16 * 4 + c div 64) div 4 = b"
    "(b mod 16 * 4 + c div 64) mod 4 * 64 + c mod 64 = c"
proof -
  have "b div 16 < 16" "c div 64 < 4" using assms by simp_all
  then have "(a mod 4 * 16 + b div 16) div 16 = a mod 4" "(a mod 4 * 16 + b div 16) mod 16 = b div 16"
    "(b mod 16 * 4 + c div 64) div 4 = b mod 16" "(b mod 16 * 4 + c div 64) mod 4 = c div 64"
    by simp_all
  then show "a div 4 * 4 + (a mod 4 * 16 + b div 16) div 16 = a"
    "(a mod 4 * 16 + b div 16) mod 16 * 16 + (b mod 16 * 4 + c div 64) div 4 = b"
    "(b mod 16 * 4 + c div 64) mod 4 * 64 + c mod 64 = c"
    by (simp_all only: div_mult_mod_eq)
qed

lemma b64_split_less: "list_all (\<lambda>a. a < 256) as \<Longrightarrow> list_all (\<lambda>n. n < 64) (b64_split as)"
proof (induction as rule: b64_split.induct)
  case (2 a)
  then show ?case using b64_sextets [of a 0 0] by simp
next
  case (3 a b)
  then show ?case using b64_sextets [of a b 0] by simp
next
  case (4 a b c r)
  then show ?case using b64_sextets [of a b c] by simp
qed simp

lemma b64_join_split: "list_all (\<lambda>a. a < 256) as \<Longrightarrow> b64_join (b64_split as) = as"
proof (induction as rule: b64_split.induct)
  case (2 a)
  then show ?case using b64_regroup(1) [of 0 0 a] by simp
next
  case (3 a b)
  then show ?case using b64_regroup(1,2) [of b 0 a] by simp
next
  case (4 a b c r)
  then show ?case using b64_regroup(1,2) [of b c a] b64_regroup(3) [of b c] by simp
qed simp

lemma b64_chars_back:
  "list_all (\<lambda>n. n < 64) ns \<Longrightarrow>
   List.map_filter b64_val (takeWhile (\<lambda>c. c \<noteq> CHR ''='') (map b64_char ns @ b64_pad k)) = ns"
proof (induction ns)
  case Nil
  show ?case by (cases "(3 - k mod 3) mod 3") (simp_all add: b64_pad_def List.map_filter_def)
next
  case (Cons n ns)
  then show ?case by (simp add: List.map_filter_def b64_val_char b64_char_not_pad)
qed

lemma from_base64_to_base64 [simp, codec_simps]: "from_base64 (to_base64 bs) = bs"
proof -
  have "list_all (\<lambda>a. a < 256) (map unat bs)" by (simp add: list_all_iff)
  then have "b64_join (List.map_filter b64_val (takeWhile (\<lambda>c. c \<noteq> CHR ''='')
      (map b64_char (b64_split (map unat bs)) @ b64_pad (length bs)))) = map unat bs"
    by (simp only: b64_chars_back b64_split_less b64_join_split)
  then show ?thesis
    by (simp add: to_base64_def from_base64_def comp_def)
qed

lemma to_base64_inj [simp]: "to_base64 x = to_base64 y \<longleftrightarrow> x = y"
  by (metis from_base64_to_base64)

section \<open>Self-delimiting codecs\<close>

text \<open>
  The receive loops of the program, \<open>while ((m = parser.parse())) ...\<close>, read items until the
  decoder asks for more bytes. The fuel is the number of bytes in the buffer: every item takes
  at least one.
\<close>

fun parse_loop :: "nat \<Rightarrow> (bytes \<Rightarrow> ('a \<times> bytes) option) \<Rightarrow> bytes \<Rightarrow> 'a list \<times> bytes" where
  "parse_loop 0 dec bs = ([], bs)"
| "parse_loop (Suc n) dec bs =
     (case dec bs of None \<Rightarrow> ([], bs)
      | Some (x, r) \<Rightarrow> (let (xs, r') = parse_loop n dec r in (x # xs, r')))"

locale prefix_codec =
  fixes enc :: "'a \<Rightarrow> bytes"
    and dec :: "bytes \<Rightarrow> ('a \<times> bytes) option"
    and ok :: "'a \<Rightarrow> bool"
  assumes dec_enc: "ok x \<Longrightarrow> dec (enc x @ r) = Some (x, r)"
    and dec_shrinks: "dec bs = Some (x, r) \<Longrightarrow> length r < length bs"
begin

lemma enc_nonempty:
  assumes "ok x"
  shows "enc x \<noteq> []"
proof
  assume "enc x = []"
  with dec_enc [OF assms, of "[]"] have "dec [] = Some (x, [])" by simp
  then show False by (auto dest: dec_shrinks)
qed

lemma enc_prefix_free:
  assumes "ok x" "ok y" "enc x @ r = enc y @ s"
  shows "x = y \<and> r = s"
proof -
  have "Some (x, r) = dec (enc x @ r)" by (rule dec_enc [OF assms(1), symmetric])
  also have "\<dots> = dec (enc y @ s)" by (rule arg_cong [OF assms(3)])
  also have "\<dots> = Some (y, s)" by (rule dec_enc [OF assms(2)])
  finally show ?thesis by simp
qed

lemma enc_inj: "ok x \<Longrightarrow> ok y \<Longrightarrow> enc x = enc y \<Longrightarrow> x = y"
  using enc_prefix_free by blast

lemma enc_stream_inj:
  "list_all ok xs \<Longrightarrow> list_all ok ys \<Longrightarrow> concat (map enc xs) = concat (map enc ys) \<Longrightarrow> xs = ys"
proof (induction xs arbitrary: ys)
  case Nil
  then show ?case by (cases ys) (simp_all add: enc_nonempty)
next
  case (Cons x xs)
  then have "ok x" "list_all ok xs" by simp_all
  from Cons.prems(3) enc_nonempty [OF \<open>ok x\<close>] obtain y ys' where ys: "ys = y # ys'"
    by (cases ys) simp_all
  then have "ok y" "list_all ok ys'" using Cons.prems(2) by simp_all
  have "enc x @ concat (map enc xs) = enc y @ concat (map enc ys')"
    using Cons.prems(3) ys by simp
  then have "x = y" "concat (map enc xs) = concat (map enc ys')"
    using enc_prefix_free [OF \<open>ok x\<close> \<open>ok y\<close>] by blast+
  with Cons.IH \<open>list_all ok xs\<close> \<open>list_all ok ys'\<close> ys show ?case by simp
qed

lemma parse_loop_stream:
  assumes "list_all ok xs" and "dec r = None" and "length xs \<le> n"
  shows "parse_loop n dec (concat (map enc xs) @ r) = (xs, r)"
  using assms
proof (induction xs arbitrary: n)
  case Nil
  then show ?case by (cases n) auto
next
  case (Cons x xs)
  then obtain m where "n = Suc m" "length xs \<le> m" by (cases n) auto
  with Cons show ?case by (simp add: dec_enc)
qed

lemma parse_loop_rest:
  "length bs \<le> n \<Longrightarrow> parse_loop n dec bs = (xs, r) \<Longrightarrow> dec [] = None \<Longrightarrow> dec r = None"
proof (induction n arbitrary: bs xs r)
  case (Suc n)
  show ?case
  proof (cases "dec bs")
    case (Some a)
    then obtain x r1 where a: "dec bs = Some (x, r1)" by (cases a) auto
    then have "length r1 \<le> n" using dec_shrinks [OF a] Suc.prems(1) by simp
    then show ?thesis using Suc a by (auto split: prod.splits)
  qed (use Suc.prems in auto)
qed auto

end

end
