(* ===== verification/Utf8.thy ===== *)
theory Utf8
  imports Prelude
begin

text \<open>
  \<open>buffer.toString("utf8")\<close>: bytes that are not well-formed UTF-8 come out as U+FFFD, one for each
  maximal ill-formed part (the WHATWG decoder, which Node follows). Strings are UTF-8 byte lists in
  this development, so the function maps bytes to bytes; it is the identity on well-formed text.
\<close>

definition replacement :: bytes where
  "replacement = [0xEF, 0xBF, 0xBD]"

text \<open>How many continuation bytes a lead byte asks for, and the range of the first one.\<close>

definition utf8_lead :: "byte \<Rightarrow> (nat \<times> byte \<times> byte) option" where
  "utf8_lead b =
     (if 0xC2 \<le> b \<and> b \<le> 0xDF then Some (1, 0x80, 0xBF)
      else if b = 0xE0 then Some (2, 0xA0, 0xBF)
      else if b = 0xED then Some (2, 0x80, 0x9F)
      else if 0xE1 \<le> b \<and> b \<le> 0xEF then Some (2, 0x80, 0xBF)
      else if b = 0xF0 then Some (3, 0x90, 0xBF)
      else if 0xF1 \<le> b \<and> b \<le> 0xF3 then Some (3, 0x80, 0xBF)
      else if b = 0xF4 then Some (3, 0x80, 0x8F)
      else None)"

text \<open>\<open>need\<close> continuation bytes are still expected after the bytes \<open>pend\<close>, the next one in \<open>lo..hi\<close>.\<close>

function (sequential) utf8_run :: "bytes \<Rightarrow> nat \<Rightarrow> byte \<Rightarrow> byte \<Rightarrow> bytes \<Rightarrow> bytes" where
  "utf8_run pend 0 lo hi [] = []"
| "utf8_run pend (Suc n) lo hi [] = replacement"
| "utf8_run pend 0 lo hi (b # bs) =
     (if b < 0x80 then b # utf8_run [] 0 0 0 bs
      else case utf8_lead b of
        None \<Rightarrow> replacement @ utf8_run [] 0 0 0 bs
      | Some (n, l, h) \<Rightarrow> utf8_run [b] n l h bs)"
| "utf8_run pend (Suc n) lo hi (b # bs) =
     (if lo \<le> b \<and> b \<le> hi then
        (if n = 0 then pend @ b # utf8_run [] 0 0 0 bs else utf8_run (pend @ [b]) n 0x80 0xBF bs)
      else replacement @ utf8_run [] 0 0 0 (b # bs))"
  by pat_completeness auto
termination
  by (relation "measures [\<lambda>(p, n, l, h, bs). length bs, \<lambda>(p, n, l, h, bs). n]") auto

definition utf8_clean :: "bytes \<Rightarrow> bytes" where
  "utf8_clean bs = utf8_run [] 0 0 0 bs"

definition utf8_text :: "bytes \<Rightarrow> string" where
  "utf8_text bs = utf8_string (utf8_clean bs)"

text \<open>A string as JavaScript holds it: its UTF-8 form is well-formed.\<close>

definition text_ok :: "string \<Rightarrow> bool" where
  "text_ok s \<longleftrightarrow> utf8_clean (utf8 s) = utf8 s"

section \<open>Cleaned text is clean\<close>

text \<open>\<open>seqs\<close>: concatenations of complete sequences, on which the decoder copies.\<close>

definition whole_seq :: "bytes \<Rightarrow> bool" where
  "whole_seq s \<longleftrightarrow> s \<noteq> [] \<and> (\<forall>r. utf8_run [] 0 0 0 (s @ r) = s @ utf8_run [] 0 0 0 r)"

definition clean_bytes :: "bytes \<Rightarrow> bool" where
  "clean_bytes s \<longleftrightarrow> (\<exists>ss. s = concat ss \<and> (\<forall>x \<in> set ss. whole_seq x))"

lemma clean_bytes_append: "clean_bytes s \<Longrightarrow> clean_bytes t \<Longrightarrow> clean_bytes (s @ t)"
  unfolding clean_bytes_def by (metis Un_iff concat_append set_append)

lemma clean_bytes_whole: "whole_seq s \<Longrightarrow> clean_bytes s"
  unfolding clean_bytes_def by (rule exI [of _ "[s]"]) simp

lemma clean_bytes_Nil: "clean_bytes []"
  unfolding clean_bytes_def by (rule exI [of _ "[]"]) simp

lemma clean_bytes_copied: "clean_bytes s \<Longrightarrow> utf8_run [] 0 0 0 (s @ r) = s @ utf8_run [] 0 0 0 r"
proof -
  have "\<forall>x \<in> set ss. whole_seq x \<Longrightarrow> utf8_run [] 0 0 0 (concat ss @ r) = concat ss @ utf8_run [] 0 0 0 r" for ss
    by (induction ss) (auto simp: whole_seq_def)
  then show "clean_bytes s \<Longrightarrow> utf8_run [] 0 0 0 (s @ r) = s @ utf8_run [] 0 0 0 r"
    by (auto simp: clean_bytes_def)
qed

lemma whole_ascii: "b < 0x80 \<Longrightarrow> whole_seq [b]"
  by (simp add: whole_seq_def)

lemma utf8_run_step:
  "lo \<le> b \<Longrightarrow> b \<le> hi \<Longrightarrow> utf8_run pend (Suc 0) lo hi (b # bs) = pend @ b # utf8_run [] 0 0 0 bs"
  "lo \<le> b \<Longrightarrow> b \<le> hi \<Longrightarrow>
     utf8_run pend (Suc (Suc n)) lo hi (b # bs) = utf8_run (pend @ [b]) (Suc n) 0x80 0xBF bs"
  by simp_all

lemma whole_replacement: "whole_seq replacement"
proof -
  have "utf8_run [] 0 0 0 (replacement @ r) = replacement @ utf8_run [] 0 0 0 r" for r
  proof -
    have "utf8_lead 0xEF = Some (Suc (Suc 0), 0x80, 0xBF)" by (simp add: utf8_lead_def)
    then have "utf8_run [] 0 0 0 (replacement @ r) = utf8_run [0xEF] (Suc (Suc 0)) 0x80 0xBF (0xBF # 0xBD # r)"
      unfolding replacement_def by (simp del: utf8_run.simps(4))
    also have "\<dots> = utf8_run ([0xEF] @ [0xBF]) (Suc 0) 0x80 0xBF (0xBD # r)"
      by (rule utf8_run_step) simp_all
    also have "\<dots> = ([0xEF] @ [0xBF]) @ 0xBD # utf8_run [] 0 0 0 r"
      by (rule utf8_run_step) simp_all
    finally show ?thesis by (simp add: replacement_def)
  qed
  then show ?thesis by (simp add: whole_seq_def replacement_def)
qed

text \<open>What has been read so far leads the decoder back to its present state.\<close>

definition in_seq :: "bytes \<Rightarrow> nat \<Rightarrow> byte \<Rightarrow> byte \<Rightarrow> bool" where
  "in_seq pend n lo hi \<longleftrightarrow> n = 0 \<or> pend \<noteq> [] \<and> (\<forall>r. utf8_run [] 0 0 0 (pend @ r) = utf8_run pend n lo hi r)"

lemma utf8_lead_pos: "utf8_lead b = Some (n, l, h) \<Longrightarrow> 0 < n \<and> \<not> b < 0x80"
  by (auto simp: utf8_lead_def not_less split: if_splits elim: order_trans [rotated])

lemma utf8_run_clean: "in_seq pend n lo hi \<Longrightarrow> clean_bytes (utf8_run pend n lo hi bs)"
proof (induction pend n lo hi bs rule: utf8_run.induct)
  case (1 pend lo hi)
  then show ?case by (simp add: clean_bytes_Nil)
next
  case (2 pend n lo hi)
  then show ?case by (simp add: clean_bytes_whole whole_replacement)
next
  case (3 pend lo hi b bs)
  have start: "in_seq [] 0 0 0" by (simp add: in_seq_def)
  show ?case
  proof (cases "b < 0x80")
    case True
    then show ?thesis
      using clean_bytes_append [OF clean_bytes_whole [OF whole_ascii [OF True]] "3.IH"(1) [OF True start]] by simp
  next
    case False
    show ?thesis
    proof (cases "utf8_lead b")
      case None
      then show ?thesis using False "3.IH"(2) [OF False None start]
        by (simp add: clean_bytes_append clean_bytes_whole whole_replacement)
    next
      case (Some a)
      obtain n l h where a: "a = (n, l, h)" by (cases a)
      have "utf8_run [] 0 0 0 ([b] @ r) = utf8_run [b] n l h r" for r
        using False Some a by simp
      then have "in_seq [b] n l h" by (simp only: in_seq_def) simp
      from "3.IH"(3) [OF False Some a [symmetric] refl this]
      have "clean_bytes (utf8_run [b] n l h bs)" .
      then show ?thesis using False Some a by simp
    qed
  qed
next
  case (4 pend n lo hi b bs)
  have start: "in_seq [] 0 0 0" by (simp add: in_seq_def)
  have pend: "pend \<noteq> []" "\<And>r. utf8_run [] 0 0 0 (pend @ r) = utf8_run pend (Suc n) lo hi r"
    using "4.prems" by (auto simp: in_seq_def)
  show ?case
  proof (cases "lo \<le> b \<and> b \<le> hi")
    case True
    show ?thesis
    proof (cases "n = 0")
      case n: True
      have "utf8_run [] 0 0 0 ((pend @ [b]) @ r) = (pend @ [b]) @ utf8_run [] 0 0 0 r" for r
        using pend(2) [of "b # r"] True n by simp
      then have "whole_seq (pend @ [b])" by (simp add: whole_seq_def)
      from clean_bytes_append [OF clean_bytes_whole [OF this] "4.IH"(1) [OF True n start]]
      show ?thesis using True n by simp
    next
      case False
      have "utf8_run [] 0 0 0 ((pend @ [b]) @ r) = utf8_run (pend @ [b]) n 0x80 0xBF r" for r
        using pend(2) [of "b # r"] True False by simp
      then have "in_seq (pend @ [b]) n 0x80 0xBF" by (simp only: in_seq_def) simp
      from "4.IH"(2) [OF True False this] True False show ?thesis by simp
    qed
  next
    case False
    from clean_bytes_append [OF clean_bytes_whole [OF whole_replacement] "4.IH"(3) [OF False start]]
    show ?thesis by (subst utf8_run.simps(4)) (simp only: False if_False)
  qed
qed

lemma utf8_clean_id: "clean_bytes s \<Longrightarrow> utf8_clean s = s"
  using clean_bytes_copied [of s "[]"] by (simp add: utf8_clean_def)

lemma utf8_clean_idem [simp]: "utf8_clean (utf8_clean bs) = utf8_clean bs"
  by (rule utf8_clean_id) (simp add: utf8_clean_def utf8_run_clean in_seq_def)

lemma text_ok_text [simp]: "text_ok (utf8_text bs)"
  by (simp add: text_ok_def utf8_text_def)

lemma utf8_text_utf8 [simp]: "text_ok s \<Longrightarrow> utf8_text (utf8 s) = s"
  by (simp add: text_ok_def utf8_text_def)

lemma utf8_clean_ascii: "\<forall>b \<in> set bs. b < 0x80 \<Longrightarrow> utf8_clean bs = bs"
proof -
  have "\<forall>b \<in> set bs. b < 0x80 \<Longrightarrow> utf8_run [] 0 0 0 bs = bs" by (induction bs) auto
  then show "\<forall>b \<in> set bs. b < 0x80 \<Longrightarrow> utf8_clean bs = bs" by (simp add: utf8_clean_def)
qed

lemma text_ok_ascii: "\<forall>c \<in> set s. of_char c < (128 :: nat) \<Longrightarrow> text_ok s"
  unfolding text_ok_def by (rule utf8_clean_ascii) (auto simp: utf8_def word_less_nat_alt)

lemma text_ok_Nil [simp]: "text_ok []"
  by (rule text_ok_ascii) simp

lemma text_ok_append: "text_ok s \<Longrightarrow> text_ok t \<Longrightarrow> text_ok (s @ t)"
proof -
  assume "text_ok s" "text_ok t"
  then have t: "utf8_clean (utf8 t) = utf8 t" and s: "utf8_clean (utf8 s) = utf8 s"
    by (simp_all add: text_ok_def)
  have "clean_bytes (utf8_clean (utf8 s))"
    by (simp add: utf8_clean_def utf8_run_clean in_seq_def)
  then have "clean_bytes (utf8 s)" by (simp only: s)
  with t show "text_ok (s @ t)" using clean_bytes_copied [of "utf8 s" "utf8 t"]
    by (simp add: text_ok_def utf8_clean_def)
qed

section \<open>Rewriting the ASCII characters of a text\<close>

text \<open>Escaping touches only ASCII characters, so it keeps a text well-formed.\<close>

definition ascii_subst :: "(byte \<Rightarrow> bytes) \<Rightarrow> bool" where
  "ascii_subst f \<longleftrightarrow> (\<forall>b. if b < 0x80 then f b \<noteq> [] \<and> (\<forall>x \<in> set (f b). x < 0x80) else f b = [b])"

lemma utf8_run_ascii: "\<forall>x \<in> set as. x < 0x80 \<Longrightarrow> utf8_run [] 0 0 0 (as @ bs) = as @ utf8_run [] 0 0 0 bs"
  by (induction as) simp_all

lemma ascii_subst_high: "ascii_subst f \<Longrightarrow> \<forall>x \<in> set xs. \<not> x < 0x80 \<Longrightarrow> concat (map f xs) = xs"
  by (induction xs) (simp_all add: ascii_subst_def)

lemma utf8_lead_low: "utf8_lead b = Some (n, l, h) \<Longrightarrow> 0x80 \<le> l"
  by (auto simp: utf8_lead_def split: if_splits)

lemma utf8_run_subst:
  assumes f: "ascii_subst f"
  shows "\<lbrakk>\<forall>x \<in> set pend. \<not> x < 0x80; n = 0 \<or> 0x80 \<le> lo\<rbrakk> \<Longrightarrow>
    utf8_run pend n lo hi (concat (map f bs)) = concat (map f (utf8_run pend n lo hi bs))"
proof (induction pend n lo hi bs rule: utf8_run.induct)
  case (1 pend lo hi)
  then show ?case by simp
next
  case (2 pend n lo hi)
  then show ?case using ascii_subst_high [OF f, of replacement] by (simp add: replacement_def)
next
  case (3 pend lo hi b bs)
  show ?case
  proof (cases "b < 0x80")
    case True
    then have "\<forall>x \<in> set (f b). x < 0x80" using f by (simp add: ascii_subst_def)
    moreover have "utf8_run pend 0 lo hi xs = utf8_run [] 0 0 0 xs" for xs by (cases xs) simp_all
    ultimately show ?thesis using True 3(1) [OF True] utf8_run_ascii [of "f b" "concat (map f bs)"] by simp
  next
    case False
    then have fb: "f b = [b]" using f by (simp add: ascii_subst_def)
    show ?thesis
    proof (cases "utf8_lead b")
      case None
      then show ?thesis using False fb 3(2) [OF False None] ascii_subst_high [OF f, of replacement]
        by (simp add: replacement_def)
    next
      case (Some a)
      obtain n l h where a: "a = (n, l, h)" by (cases a)
      have "utf8_run [b] n l h (concat (map f bs)) = concat (map f (utf8_run [b] n l h bs))"
        using 3(3) [OF False Some a [symmetric] refl] False Some a utf8_lead_low [of b n l h] by simp
      then show ?thesis using False fb Some a by simp
    qed
  qed
next
  case (4 pend n lo hi b bs)
  have lo: "0x80 \<le> lo" using "4.prems"(2) by simp
  show ?case
  proof (cases "lo \<le> b \<and> b \<le> hi")
    case True
    then have b: "\<not> b < 0x80" using lo by auto
    then have fb: "f b = [b]" using f by (simp add: ascii_subst_def)
    show ?thesis
    proof (cases "n = 0")
      case n: True
      have "concat (map f pend) = pend" by (rule ascii_subst_high [OF f "4.prems"(1)])
      then show ?thesis using True n fb 4(1) [OF True n] by simp
    next
      case False
      have "\<forall>x \<in> set (pend @ [b]). \<not> x < 0x80" using "4.prems"(1) b by simp
      with 4(2) [OF True False] show ?thesis using True False fb by simp
    qed
  next
    case False
    have run: "utf8_run pend (Suc n) lo hi (b # bs) = replacement @ utf8_run [] 0 0 0 (b # bs)"
      by (subst utf8_run.simps(4)) (simp only: False if_False)
    obtain c cs where c: "f b = c # cs" "c < 0x80 \<or> c = b"
      using f by (cases "f b") (auto simp: ascii_subst_def split: if_splits dest: spec [of _ b])
    then have "\<not> (lo \<le> c \<and> c \<le> hi)" using lo False by (auto dest: order_trans leD)
    then have "utf8_run pend (Suc n) lo hi (concat (map f (b # bs))) =
        replacement @ utf8_run [] 0 0 0 (concat (map f (b # bs)))"
      unfolding list.map concat.simps c(1) append_Cons by (subst utf8_run.simps(4)) (simp only: if_False)
    also have "\<dots> = replacement @ concat (map f (utf8_run [] 0 0 0 (b # bs)))"
      using 4(3) [OF False] by (simp del: utf8_run.simps)
    also have "\<dots> = concat (map f (replacement @ utf8_run [] 0 0 0 (b # bs)))"
      using ascii_subst_high [OF f, of replacement] by (simp add: replacement_def del: utf8_run.simps)
    finally show ?thesis unfolding run .
  qed
qed

lemma text_ok_subst:
  assumes g: "\<And>c. if of_char c < (128 :: nat) then g c \<noteq> [] \<and> (\<forall>x \<in> set (g c). of_char x < (128 :: nat)) else g c = [c]"
    and s: "text_ok s"
  shows "text_ok (concat (map g s))"
proof -
  define f where "f b = utf8 (g (char_of (unat b)))" for b :: byte
  have "ascii_subst f"
    unfolding ascii_subst_def
  proof
    fix b :: byte
    have "of_char (char_of (unat b) :: char) = unat b" by (simp add: of_char_of)
    then show "if b < 0x80 then f b \<noteq> [] \<and> (\<forall>x \<in> set (f b). x < 0x80) else f b = [b]"
      using g [of "char_of (unat b)"] by (auto simp: f_def utf8_def word_less_nat_alt split: if_splits)
  qed
  note run = utf8_run_subst [OF this]
  have "utf8 (concat (map g s)) = concat (map f (utf8 s))"
    by (simp add: f_def utf8_def map_concat comp_def)
  moreover have "utf8_clean (concat (map f (utf8 s))) = concat (map f (utf8_clean (utf8 s)))"
    unfolding utf8_clean_def by (rule run) simp_all
  ultimately show ?thesis using s by (simp add: text_ok_def)
qed

lemma text_ok_Cons: "of_char c < (128 :: nat) \<Longrightarrow> text_ok s \<Longrightarrow> text_ok (c # s)"
  using text_ok_append [of "[c]" s] text_ok_ascii [of "[c]"] by simp

lemma text_ok_concat: "(\<And>s. s \<in> set ss \<Longrightarrow> text_ok s) \<Longrightarrow> text_ok (concat ss)"
  by (induction ss) (simp_all add: text_ok_append)

end
