(* ===== verification/JsValue.thy ===== *)
theory JsValue
  imports Utf8 "HOL-Library.List_Lexorder" "HOL-Library.Char_ord"
begin

text \<open>
  JavaScript values, as far as the program builds, parses or decodes them, with the operators the
  code applies to values of unknown type: \<open>===\<close>, truthiness, property reads, \<open>String(x)\<close>,
  \<open>Number.isInteger\<close> and \<open>x & mask\<close>.

  Numbers are the integers (every number the program writes is one; a fraction in hostile JSON is
  outside the model and reads as a syntax error). \<open>VBig\<close> is a BigInt, \<open>VBytes\<close> a Buffer,
  \<open>VMap\<close> a Map with its entries in insertion order, \<open>VIndef\<close> the \<open>Indef\<close> wrapper of
  transport/bpv7/cbor.mjs, \<open>VUndef\<close> the value of a missing property.
\<close>

datatype jsval =
    VUndef
  | VNull
  | VBool bool
  | VNum int
  | VBig int
  | VStr string
  | VBytes bytes
  | VArr "jsval list"
  | VObj "(string \<times> jsval) list"
  | VMap "(jsval \<times> jsval) list"
  | VIndef "jsval list"

abbreviation MAX_SAFE_INTEGER :: int where
  "MAX_SAFE_INTEGER \<equiv> 9007199254740991"

text \<open>Primitives compare by value; arrays, objects, maps and buffers by identity.\<close>

fun is_prim :: "jsval \<Rightarrow> bool" where
  "is_prim (VBytes _) = False"
| "is_prim (VArr _) = False"
| "is_prim (VObj _) = False"
| "is_prim (VMap _) = False"
| "is_prim (VIndef _) = False"
| "is_prim _ = True"

definition strict_eq :: "jsval \<Rightarrow> jsval \<Rightarrow> bool" where
  "strict_eq a b \<longleftrightarrow> is_prim a \<and> a = b"

lemma strict_eq_str [simp]: "strict_eq v (VStr s) \<longleftrightarrow> v = VStr s" "strict_eq (VStr s) v \<longleftrightarrow> v = VStr s"
  by (auto simp: strict_eq_def)

lemma strict_eq_num [simp]: "strict_eq v (VNum n) \<longleftrightarrow> v = VNum n" "strict_eq (VNum n) v \<longleftrightarrow> v = VNum n"
  by (auto simp: strict_eq_def)

fun truthy :: "jsval \<Rightarrow> bool" where
  "truthy VUndef = False"
| "truthy VNull = False"
| "truthy (VBool b) = b"
| "truthy (VNum n) = (n \<noteq> 0)"
| "truthy (VBig n) = (n \<noteq> 0)"
| "truthy (VStr s) = (s \<noteq> [])"
| "truthy _ = True"

text \<open>\<open>r.k\<close> on an object; other values have none of the properties the program reads.\<close>

fun field :: "jsval \<Rightarrow> string \<Rightarrow> jsval" where
  "field (VObj kvs) k = (case map_of kvs k of Some v \<Rightarrow> v | None \<Rightarrow> VUndef)"
| "field _ k = VUndef"

text \<open>\<open>a ?? b\<close>.\<close>

definition nullish :: "jsval \<Rightarrow> jsval \<Rightarrow> jsval" where
  "nullish a b = (if a = VUndef \<or> a = VNull then b else a)"

text \<open>\<open>Number.isSafeInteger\<close>.\<close>

fun is_safe_int :: "jsval \<Rightarrow> bool" where
  "is_safe_int (VNum n) = (\<bar>n\<bar> \<le> MAX_SAFE_INTEGER)"
| "is_safe_int _ = False"

section \<open>Decimal text\<close>

definition digit_char :: "nat \<Rightarrow> char" where
  "digit_char d = char_of (48 + d)"

fun show_nat :: "nat \<Rightarrow> string" where
  "show_nat n = (if n < 10 then [digit_char n] else show_nat (n div 10) @ [digit_char (n mod 10)])"

declare show_nat.simps [simp del]

definition show_int :: "int \<Rightarrow> string" where
  "show_int n = (if n < 0 then CHR ''-'' # show_nat (nat (- n)) else show_nat (nat n))"

definition digit_val :: "char \<Rightarrow> nat option" where
  "digit_val c = (let n = of_char c in if 48 \<le> n \<and> n \<le> 57 then Some (n - 48) else None)"

definition is_digit :: "char \<Rightarrow> bool" where
  "is_digit c \<longleftrightarrow> digit_val c \<noteq> None"

definition read_nat :: "string \<Rightarrow> nat" where
  "read_nat s = foldl (\<lambda>a c. a * 10 + the (digit_val c)) 0 s"

lemma digit_val_digit_char: "d < 10 \<Longrightarrow> digit_val (digit_char d) = Some d"
  by (simp add: digit_val_def digit_char_def Let_def)

lemma read_nat_snoc [simp]: "read_nat (s @ [c]) = read_nat s * 10 + the (digit_val c)"
  by (simp add: read_nat_def)

lemma show_nat_small: "n < 10 \<Longrightarrow> show_nat n = [digit_char n]"
  by (simp add: show_nat.simps)

lemma show_nat_big: "\<not> n < 10 \<Longrightarrow> show_nat n = show_nat (n div 10) @ [digit_char (n mod 10)]"
  by (simp add: show_nat.simps [of n])

lemma is_digit_digit_char [simp]: "d < 10 \<Longrightarrow> is_digit (digit_char d)"
  by (simp add: is_digit_def digit_val_digit_char)

lemma show_nat_digits: "list_all is_digit (show_nat n)"
proof (induction n rule: show_nat.induct)
  case (1 n)
  then show ?case by (cases "n < 10") (simp_all add: show_nat_small show_nat_big)
qed

lemma show_nat_nonempty [simp]: "show_nat n \<noteq> []"
  by (cases "n < 10") (simp_all add: show_nat_small show_nat_big)

lemma read_show_nat [simp, codec_simps]: "read_nat (show_nat n) = n"
proof (induction n rule: show_nat.induct)
  case (1 n)
  show ?case
  proof (cases "n < 10")
    case True
    then show ?thesis by (simp add: show_nat_small read_nat_def digit_val_digit_char)
  next
    case False
    with 1 show ?thesis by (simp add: show_nat_big digit_val_digit_char)
  qed
qed

lemma show_nat_inj [simp]: "show_nat a = show_nat b \<longleftrightarrow> a = b"
  by (metis read_show_nat)

lemma show_nat_no_lead_zero: "n > 0 \<Longrightarrow> digit_val (hd (show_nat n)) \<noteq> Some 0"
proof (induction n rule: show_nat.induct)
  case (1 n)
  show ?case
  proof (cases "n < 10")
    case True
    with "1.prems" show ?thesis by (simp add: show_nat_small digit_val_digit_char)
  next
    case False
    then have "n div 10 > 0" by (simp add: div_greater_zero_iff)
    with 1 False show ?thesis by (simp add: show_nat_big)
  qed
qed

section \<open>\<open>String(x)\<close>\<close>

text \<open>Join with commas, as \<open>Array.prototype.join\<close>; \<open>null\<close> and \<open>undefined\<close> elements are empty.\<close>

fun join_commas :: "string list \<Rightarrow> string" where
  "join_commas [] = []"
| "join_commas [s] = s"
| "join_commas (s # t # r) = s @ CHR '','' # join_commas (t # r)"

fun js_String :: "jsval \<Rightarrow> string" where
  "js_String VUndef = ''undefined''"
| "js_String VNull = ''null''"
| "js_String (VBool b) = (if b then ''true'' else ''false'')"
| "js_String (VNum n) = show_int n"
| "js_String (VBig n) = show_int n"
| "js_String (VStr s) = s"
| "js_String (VBytes bs) = utf8_text bs"
| "js_String (VArr xs) =
     join_commas (map (\<lambda>v. if v = VUndef \<or> v = VNull then [] else js_String v) xs)"
| "js_String (VObj _) = ''[object Object]''"
| "js_String (VMap _) = ''[object Map]''"
| "js_String (VIndef _) = ''[object Object]''"

definition lower_char :: "char \<Rightarrow> char" where
  "lower_char c = (let n = of_char c :: nat in if 65 \<le> n \<and> n \<le> 90 then char_of (n + 32) else c)"

definition toLowerCase :: "string \<Rightarrow> string" where
  "toLowerCase s = map lower_char s"

lemma lower_hexdig: "n < 16 \<Longrightarrow> lower_char (hexdig n) = hexdig n"
  by (simp add: lower_char_def hexdig_def Let_def)

lemma toLowerCase_append [simp]: "toLowerCase (s @ t) = toLowerCase s @ toLowerCase t"
  by (simp add: toLowerCase_def)

lemma toLowerCase_to_hex [simp]: "toLowerCase (to_hex bs) = to_hex bs"
proof (induction bs)
  case (Cons b bs)
  have "unat b div 16 < 16" by (rule less_mult_imp_div_less) simp
  with Cons show ?case by (simp add: toLowerCase_def to_hex_Cons lower_hexdig)
qed (simp add: toLowerCase_def)

section \<open>Coercions\<close>

text \<open>
  \<open>Number(x)\<close> on the integers; \<open>None\<close> is NaN. A string is a decimal integer with an optional sign,
  or empty, between white space; other literals (fractions, exponents, radix prefixes) are outside
  the model and read as NaN.
\<close>

definition is_space :: "char \<Rightarrow> bool" where
  "is_space c \<longleftrightarrow> (let n = of_char c :: nat in n = 32 \<or> 9 \<le> n \<and> n \<le> 13)"

definition trim :: "string \<Rightarrow> string" where
  "trim s = rev (dropWhile is_space (rev (dropWhile is_space s)))"

definition digits_value :: "string \<Rightarrow> nat option" where
  "digits_value s = (if s \<noteq> [] \<and> list_all is_digit s then Some (read_nat s) else None)"

definition string_to_number :: "string \<Rightarrow> int option" where
  "string_to_number s =
     (case trim s of
        [] \<Rightarrow> Some 0
      | c # r \<Rightarrow>
          if c = CHR ''-'' then map_option (\<lambda>n. - int n) (digits_value r)
          else if c = CHR ''+'' then map_option int (digits_value r)
          else map_option int (digits_value (c # r)))"

definition to_prim :: "jsval \<Rightarrow> jsval" where
  "to_prim v = (if is_prim v then v else VStr (js_String v))"

definition js_Number :: "jsval \<Rightarrow> int option" where
  "js_Number v =
     (case to_prim v of
        VNull \<Rightarrow> Some 0
      | VBool b \<Rightarrow> Some (of_bool b)
      | VNum n \<Rightarrow> Some n
      | VBig n \<Rightarrow> Some n
      | VStr s \<Rightarrow> string_to_number s
      | _ \<Rightarrow> None)"

lemma js_Number_num [simp]: "js_Number (VNum n) = Some n" "js_Number VUndef = None"
  by (simp_all add: js_Number_def to_prim_def)

text \<open>\<open>a < b\<close>: two strings compare as text, anything else as numbers; NaN compares false.\<close>

definition js_less :: "jsval \<Rightarrow> jsval \<Rightarrow> bool" where
  "js_less a b =
     (case (to_prim a, to_prim b) of
        (VStr s, VStr t) \<Rightarrow> s < t
      | _ \<Rightarrow> (case (js_Number a, js_Number b) of (Some m, Some n) \<Rightarrow> m < n | _ \<Rightarrow> False))"

lemma js_less_num [simp]: "js_less (VNum m) (VNum n) \<longleftrightarrow> m < n"
  by (simp add: js_less_def to_prim_def)

text \<open>\<open>a >= b\<close> and \<open>a > b\<close> for a number \<open>a\<close>; not the negations of one another on NaN.\<close>

definition num_ge :: "int \<Rightarrow> jsval \<Rightarrow> bool" where
  "num_ge a v = (case js_Number v of None \<Rightarrow> False | Some n \<Rightarrow> a \<ge> n)"

definition num_gt :: "int \<Rightarrow> jsval \<Rightarrow> bool" where
  "num_gt a v = (case js_Number v of None \<Rightarrow> False | Some n \<Rightarrow> a > n)"

definition num_lt :: "int \<Rightarrow> jsval \<Rightarrow> bool" where
  "num_lt a v = (case js_Number v of None \<Rightarrow> False | Some n \<Rightarrow> a < n)"

lemma num_cmp [simp]: "num_ge a (VNum n) \<longleftrightarrow> a \<ge> n" "num_gt a (VNum n) \<longleftrightarrow> a > n"
    "num_lt a (VNum n) \<longleftrightarrow> a < n"
  by (simp_all add: num_ge_def num_gt_def num_lt_def)

text \<open>\<open>v + k\<close> for a number \<open>k\<close>: text is concatenated, NaN is \<open>VUndef\<close>, a BigInt throws.\<close>

definition js_add :: "jsval \<Rightarrow> int \<Rightarrow> jsval res" where
  "js_add v k =
     (case to_prim v of
        VStr s \<Rightarrow> Inr (VStr (s @ show_int k))
      | VBig n \<Rightarrow> Inl ''Cannot mix BigInt and other types''
      | _ \<Rightarrow> Inr (case js_Number v of None \<Rightarrow> VUndef | Some n \<Rightarrow> VNum (n + k)))"

lemma js_add_num [simp]: "js_add (VNum n) k = Inr (VNum (n + k))"
  by (simp add: js_add_def to_prim_def)

text \<open>\<open>Buffer.from(v)\<close> without an encoding for a value that is not a string; \<open>None\<close> where it throws.\<close>

definition to_uint8 :: "jsval \<Rightarrow> byte" where
  "to_uint8 v = (case js_Number v of None \<Rightarrow> 0 | Some n \<Rightarrow> word_of_int n)"

definition buffer_from_object :: "jsval \<Rightarrow> bytes option" where
  "buffer_from_object v =
     (case v of
        VBytes bs \<Rightarrow> Some bs
      | VArr xs \<Rightarrow> Some (map to_uint8 xs)
      | VObj kvs \<Rightarrow>
          if field v ''length'' \<noteq> VUndef then
            (case field v ''length'' of
               VNum n \<Rightarrow> Some (map (\<lambda>i. to_uint8 (field v (show_nat i))) [0..<nat n])
             | _ \<Rightarrow> Some [])
          else if field v ''type'' = VStr ''Buffer'' then
            (case field v ''data'' of VArr xs \<Rightarrow> Some (map to_uint8 xs) | _ \<Rightarrow> None)
          else None
      | _ \<Rightarrow> None)"

definition buffer_from_base64 :: "jsval \<Rightarrow> bytes option" where
  "buffer_from_base64 v = (case v of VStr s \<Rightarrow> Some (from_base64 s) | _ \<Rightarrow> buffer_from_object v)"

text \<open>\<open>{ ...kvs, k: v }\<close> and property assignment: an existing key keeps its place.\<close>

definition set_field :: "string \<Rightarrow> 'a \<Rightarrow> (string \<times> 'a) list \<Rightarrow> (string \<times> 'a) list" where
  "set_field k v kvs =
     (if k \<in> set (map fst kvs) then map (\<lambda>e. if fst e = k then (k, v) else e) kvs else kvs @ [(k, v)])"

lemma map_of_update_in_place: "map_of (map (\<lambda>e. if fst e = k then (k, v) else e) kvs) k' =
    (if k' = k then (if k \<in> set (map fst kvs) then Some v else None) else map_of kvs k')"
proof (induction kvs)
  case (Cons a kvs)
  then show ?case by (cases a) (force simp: image_iff)
qed simp

lemma map_of_set_field [simp]: "map_of (set_field k v kvs) k' = (if k' = k then Some v else map_of kvs k')"
  by (auto simp: set_field_def map_of_update_in_place map_add_def simp del: set_map split: option.splits)
    (simp add: map_of_eq_None_iff [symmetric])

lemma keys_set_field: "map fst (set_field k v kvs) =
    (if k \<in> set (map fst kvs) then map fst kvs else map fst kvs @ [k])"
  by (auto simp: set_field_def)

lemma distinct_set_field [simp]: "distinct (map fst kvs) \<Longrightarrow> distinct (map fst (set_field k v kvs))"
  unfolding keys_set_field by auto

lemma filter_set_field: "\<not> P k \<Longrightarrow> filter (\<lambda>e. P (fst e)) (set_field k v kvs) = filter (\<lambda>e. P (fst e)) kvs"
proof -
  assume "\<not> P k"
  then have "filter (\<lambda>e. P (fst e)) (map (\<lambda>e. if fst e = k then (k, v) else e) kvs) = filter (\<lambda>e. P (fst e)) kvs"
    by (induction kvs) auto
  with \<open>\<not> P k\<close> show ?thesis by (simp add: set_field_def)
qed

lemma list_all_set_field: "list_all (\<lambda>e. P (snd e)) kvs \<Longrightarrow> P v \<Longrightarrow> list_all (\<lambda>e. P (snd e)) (set_field k v kvs)"
  by (auto simp: set_field_def list_all_iff)

end
