(* ===== verification/Crypto.thy ===== *)
theory Crypto
  imports Prelude
begin

text \<open>
  The cryptographic primitives the program takes from \<open>node:crypto\<close> (OpenSSL): SHA-256, HMAC and
  Ed25519. They are a parameter of the model, one record passed to every definition that uses
  them, so each theorem holds for every choice of the primitives; what a theorem needs of them
  is a named hypothesis:

  \<^item> \<open>hash32\<close>: a digest has 32 bytes;
  \<^item> \<open>sig_correct\<close>: a signature made with a private key verifies under its public key,
    and neither the signature nor the key is empty.

  Unforgeability and collision resistance are not hypotheses: the theorems name the messages for
  which a signature was produced, or the two inputs that collide.

  Keys are the strings the program passes around: \<open>pub\<close> is the base64 SPKI form, \<open>priv\<close> the
  serialized private key (agent/lib/keys.mjs).
\<close>

record crypto =
  sha256 :: "bytes \<Rightarrow> bytes"
  hmac :: "nat \<Rightarrow> bytes \<Rightarrow> bytes \<Rightarrow> bytes"
  ed_sign :: "string \<Rightarrow> bytes \<Rightarrow> bytes"
  ed_verify :: "bytes \<Rightarrow> bytes \<Rightarrow> bytes \<Rightarrow> bool"
  ed_pub :: "string \<Rightarrow> bytes"

text \<open>
  \<open>ed_sign priv m\<close> is \<open>crypto.sign(null, m, priv)\<close>; \<open>ed_verify spki m sig\<close> is
  \<open>crypto.verify(null, m, createPublicKey(spki), sig)\<close>, with False where Node throws (every
  caller catches); \<open>ed_pub priv\<close> is the SPKI DER of the matching public key;
  \<open>hmac v key m\<close> is HMAC with the SHA variant \<open>v\<close>.
\<close>

record keypair =
  priv :: string
  pub :: string

definition keypair_ok :: "crypto \<Rightarrow> keypair \<Rightarrow> bool" where
  "keypair_ok C kp \<longleftrightarrow> pub kp = to_base64 (ed_pub C (priv kp))"

definition hash32 :: "crypto \<Rightarrow> bool" where
  "hash32 C \<longleftrightarrow> (\<forall>m. length (sha256 C m) = 32)"

definition sig_correct :: "crypto \<Rightarrow> bool" where
  "sig_correct C \<longleftrightarrow> (\<forall>k m. ed_verify C (ed_pub C k) m (ed_sign C k m) \<and>
     ed_pub C k \<noteq> [] \<and> ed_sign C k m \<noteq> [])"

lemma sig_correctD:
  assumes "sig_correct C"
  shows "ed_verify C (ed_pub C k) m (ed_sign C k m)" "ed_pub C k \<noteq> []" "ed_sign C k m \<noteq> []"
  using assms by (simp_all add: sig_correct_def)

text \<open>Two different inputs, one from each set, with the same digest.\<close>

definition collision :: "crypto \<Rightarrow> bytes set \<Rightarrow> bytes set \<Rightarrow> bool" where
  "collision C A B \<longleftrightarrow> (\<exists>x\<in>A. \<exists>y\<in>B. x \<noteq> y \<and> sha256 C x = sha256 C y)"

lemma collisionI: "x \<in> A \<Longrightarrow> y \<in> B \<Longrightarrow> x \<noteq> y \<Longrightarrow> sha256 C x = sha256 C y \<Longrightarrow> collision C A B"
  by (auto simp: collision_def)

lemma no_collisionD: "\<not> collision C A B \<Longrightarrow> x \<in> A \<Longrightarrow> y \<in> B \<Longrightarrow> sha256 C x = sha256 C y \<Longrightarrow> x = y"
  by (auto simp: collision_def)

lemma collision_mono: "collision C A B \<Longrightarrow> A \<subseteq> A' \<Longrightarrow> B \<subseteq> B' \<Longrightarrow> collision C A' B'"
  unfolding collision_def by blast

lemma hash32D [len_simps]: "hash32 C \<Longrightarrow> length (sha256 C m) = 32"
  by (simp add: hash32_def)

text \<open>
  A concrete instance for the witnesses, evaluated by the simplifier: the digest is the last 32
  bytes of the zero-padded input, a signature is the signer's key and the message.
\<close>

definition toy :: crypto where
  "toy = \<lparr>sha256 = (\<lambda>m. drop (length m) (replicate 32 0 @ m)),
     hmac = (\<lambda>v k m. k @ m),
     ed_sign = (\<lambda>k m. 0 # utf8 k @ m),
     ed_verify = (\<lambda>spki m s. s = spki @ m),
     ed_pub = (\<lambda>k. 0 # utf8 k)\<rparr>"

lemma toy_hash32 [simp]: "hash32 toy"
  by (auto simp: hash32_def toy_def)

lemma toy_sig_correct [simp]: "sig_correct toy"
  by (simp add: sig_correct_def toy_def)

definition toy_key :: "string \<Rightarrow> keypair" where
  "toy_key k = \<lparr>priv = k, pub = to_base64 (0 # utf8 k)\<rparr>"

lemma toy_key_ok [simp]: "keypair_ok toy (toy_key k)"
  by (simp add: keypair_ok_def toy_key_def toy_def)

end
