(* ===== verification/JsonParse.thy ===== *)
theory JsonParse
  imports Canonical "HOL-Library.Multiset"
begin

text \<open>
  \<open>JSON.parse\<close>, for the texts the program reads (no fractions, no exponents), and the proof that
  it inverts \<open>JSON.stringify\<close>. Consequences: canonical texts are injective, and the content
  address determines every content field of a record or exhibits a SHA-256 collision.
\<close>

section \<open>The parser\<close>

definition is_ws :: "char \<Rightarrow> bool" where
  "is_ws c \<longleftrightarrow> of_char c \<in> {32, 9, 10, 13 :: nat}"

definition skip_ws :: "string \<Rightarrow> string" where
  "skip_ws s = dropWhile is_ws s"

definition simple_esc :: "char \<Rightarrow> char option" where
  "simple_esc e = (if e = CHR 0x22 \<or> e = CHR 0x5C \<or> e = CHR ''/'' then Some e
     else if e = CHR ''b'' then Some (CHR 0x08) else if e = CHR ''f'' then Some (CHR 0x0C)
     else if e = CHR ''n'' then Some (CHR 0x0A) else if e = CHR ''r'' then Some (CHR 0x0D)
     else if e = CHR ''t'' then Some (CHR 0x09) else None)"

text \<open>The UTF-8 form of one UTF-16 code unit (surrogate pairs are not joined).\<close>

definition utf8_unit :: "nat \<Rightarrow> string" where
  "utf8_unit n = (if n < 128 then [char_of n]
     else if n < 2048 then [char_of (192 + n div 64), char_of (128 + n mod 64)]
     else [char_of (224 + n div 4096), char_of (128 + n div 64 mod 64), char_of (128 + n mod 64)])"

definition hex4 :: "char \<Rightarrow> char \<Rightarrow> char \<Rightarrow> char \<Rightarrow> nat option" where
  "hex4 a b c d = (case (hexval a, hexval b, hexval c, hexval d) of
     (Some w, Some x, Some y, Some z) \<Rightarrow> Some (w * 4096 + x * 256 + y * 16 + z) | _ \<Rightarrow> None)"

fun p_str :: "string \<Rightarrow> (string \<times> string) option" where
  "p_str [] = None"
| "p_str (c # r) =
     (if c = CHR 0x22 then Some ([], r)
      else if c = CHR 0x5C then
        (case r of
           [] \<Rightarrow> None
         | e # r1 \<Rightarrow>
             if e = CHR ''u'' then
               (case r1 of
                  h1 # h2 # h3 # h4 # r2 \<Rightarrow>
                    (case hex4 h1 h2 h3 h4 of None \<Rightarrow> None
                     | Some n \<Rightarrow> map_option (\<lambda>(t, u). (utf8_unit n @ t, u)) (p_str r2))
                | _ \<Rightarrow> None)
             else (case simple_esc e of None \<Rightarrow> None
                   | Some x \<Rightarrow> map_option (\<lambda>(t, u). (x # t, u)) (p_str r1)))
      else if of_char c < (32 :: nat) then None
      else map_option (\<lambda>(t, u). (c # t, u)) (p_str r))"

definition p_num :: "string \<Rightarrow> (nat \<times> string) option" where
  "p_num s = (let ds = takeWhile is_digit s; r = dropWhile is_digit s in
     if ds = [] \<or> (digit_val (hd ds) = Some 0 \<and> length ds > 1) then None
     else if r \<noteq> [] \<and> hd r \<in> set ''.eE'' then None
     else Some (read_nat ds, r))"

definition upsert :: "(string \<times> 'a) list \<Rightarrow> string \<times> 'a \<Rightarrow> (string \<times> 'a) list" where
  "upsert kvs kv = (if fst kv \<in> set (map fst kvs)
     then map (\<lambda>x. if fst x = fst kv then kv else x) kvs else kvs @ [kv])"

definition p_literal :: "string \<Rightarrow> (jsval \<times> string) option" where
  "p_literal s = (if take 4 s = ''null'' then Some (VNull, drop 4 s)
     else if take 4 s = ''true'' then Some (VBool True, drop 4 s)
     else if take 5 s = ''false'' then Some (VBool False, drop 5 s) else None)"

text \<open>The first argument is fuel; the length of the text is enough (\<open>json_parse_print\<close>).\<close>

fun p_val :: "nat \<Rightarrow> string \<Rightarrow> (jsval \<times> string) option"
  and p_elems :: "nat \<Rightarrow> string \<Rightarrow> (jsval list \<times> string) option"
  and p_members :: "nat \<Rightarrow> string \<Rightarrow> ((string \<times> jsval) list \<times> string) option" where
  "p_val 0 s = None"
| "p_val (Suc f) s = (case skip_ws s of
     [] \<Rightarrow> None
   | c # r \<Rightarrow>
       if c = CHR 0x22 then map_option (\<lambda>(t, u). (VStr t, u)) (p_str r)
       else if c = CHR ''['' then
         (if take 1 (skip_ws r) = '']'' then Some (VArr [], tl (skip_ws r))
          else map_option (\<lambda>(vs, u). (VArr vs, u)) (p_elems f r))
       else if c = CHR ''{'' then
         (if take 1 (skip_ws r) = ''}'' then Some (VObj [], tl (skip_ws r))
          else map_option (\<lambda>(ms, u). (VObj (foldl upsert [] ms), u)) (p_members f r))
       else if c = CHR ''-'' then map_option (\<lambda>(n, u). (VNum (- int n), u)) (p_num r)
       else if is_digit c then map_option (\<lambda>(n, u). (VNum (int n), u)) (p_num (c # r))
       else p_literal (c # r))"
| "p_elems 0 s = None"
| "p_elems (Suc f) s = (case p_val f s of
     None \<Rightarrow> None
   | Some (v, r) \<Rightarrow> (case skip_ws r of
       [] \<Rightarrow> None
     | c # u \<Rightarrow> if c = CHR '','' then map_option (\<lambda>(vs, w). (v # vs, w)) (p_elems f u)
                 else if c = CHR '']'' then Some ([v], u) else None))"
| "p_members 0 s = None"
| "p_members (Suc f) s = (case skip_ws s of
     [] \<Rightarrow> None
   | q # r \<Rightarrow> if q \<noteq> CHR 0x22 then None
       else (case p_str r of
         None \<Rightarrow> None
       | Some (k, r1) \<Rightarrow> (case skip_ws r1 of
           [] \<Rightarrow> None
         | d # r2 \<Rightarrow> if d \<noteq> CHR '':'' then None
             else (case p_val f r2 of
               None \<Rightarrow> None
             | Some (v, r3) \<Rightarrow> (case skip_ws r3 of
                 [] \<Rightarrow> None
               | c # u \<Rightarrow>
                   if c = CHR '','' then map_option (\<lambda>(ms, w). ((k, v) # ms, w)) (p_members f u)
                   else if c = CHR ''}'' then Some ([(k, v)], u) else None)))))"

definition json_parse :: "string \<Rightarrow> jsval res" where
  "json_parse s = (case p_val (length s) s of
     Some (v, r) \<Rightarrow> if skip_ws r = [] then Inr v else Inl ''Unexpected token''
   | None \<Rightarrow> Inl ''Unexpected token'')"

section \<open>Printing and parsing back\<close>

fun json_ok :: "jsval \<Rightarrow> bool" where
  "json_ok VNull = True"
| "json_ok (VBool _) = True"
| "json_ok (VNum n) = is_safe_int (VNum n)"
| "json_ok (VStr _) = True"
| "json_ok (VArr xs) = list_all json_ok xs"
| "json_ok (VObj kvs) = (list_all (\<lambda>kv. json_ok (snd kv)) kvs \<and> distinct (map fst kvs))"
| "json_ok _ = False"

fun jtext :: "jsval \<Rightarrow> string" where
  "jtext VNull = ''null''"
| "jtext (VBool b) = (if b then ''true'' else ''false'')"
| "jtext (VNum n) = show_int n"
| "jtext (VStr s) = quoted s"
| "jtext (VArr xs) = CHR ''['' # join_commas (map jtext xs) @ '']''"
| "jtext (VObj kvs) = CHR ''{'' # join_commas (map (\<lambda>kv. quoted (fst kv) @ CHR '':'' # jtext (snd kv)) kvs) @ ''}''"
| "jtext _ = []"

lemma stringify_jtext: "json_ok v \<Longrightarrow> stringify v = Inr (Some (jtext v))"
proof (induction v)
  case (VArr xs)
  then have "rmapM stringify xs = Inr (map (\<lambda>x. Some (jtext x)) xs)"
    by (intro rmapM_Inr) (auto simp: list_all_iff)
  then show ?case by (simp add: comp_def)
next
  case (VObj kvs)
  have "stringify (snd kv) = Inr (Some (jtext (snd kv)))" if "kv \<in> set kvs" for kv
    using VObj that by (cases kv) (auto simp: list_all_iff)
  then have "rmapM (\<lambda>kv. rbind (stringify (snd kv)) (\<lambda>t. Inr (member_text (fst kv) t))) kvs =
      Inr (map (\<lambda>kv. [quoted (fst kv) @ CHR '':'' # jtext (snd kv)]) kvs)"
    by (intro rmapM_Inr) (simp add: member_text_def)
  moreover have "concat (map (\<lambda>kv. [quoted (fst kv) @ CHR '':'' # jtext (snd kv)]) kvs) =
      map (\<lambda>kv. quoted (fst kv) @ CHR '':'' # jtext (snd kv)) kvs"
    by (induction kvs) auto
  ultimately show ?case by simp
qed auto

lemma hex4_control: "n < 32 \<Longrightarrow> hex4 (CHR ''0'') (CHR ''0'') (hexdig (n div 16)) (hexdig (n mod 16)) = Some n"
proof -
  assume "n < 32"
  then have "n div 16 < 16" by simp
  moreover have "hexval (CHR ''0'') = Some 0" by (simp add: hexval_def)
  ultimately show ?thesis by (simp add: hex4_def hexval_hexdig)
qed

lemma p_str_esc: "p_str (esc_char c @ r) = map_option (\<lambda>(t, u). (c # t, u)) (p_str r)"
proof -
  define n :: nat where "n = of_char c"
  then have c: "c = char_of n" and "n < 256" by simp_all
  have key: "c = d" if "of_char d = n" for d using that n_def by (metis of_char_eq_iff)
  consider "n \<in> {34, 92, 8, 12, 10, 13, 9}" | "n < 32" "n \<notin> {8, 12, 10, 13, 9}" | "n \<ge> 32" "n \<notin> {34, 92}"
    by force
  then show ?thesis
  proof cases
    case 1
    then have "c \<in> {CHR 0x22, CHR 0x5C, CHR 0x08, CHR 0x0C, CHR 0x0A, CHR 0x0D, CHR 0x09}"
      using key [of "CHR 0x22"] key [of "CHR 0x5C"] key [of "CHR 0x08"] key [of "CHR 0x0C"]
        key [of "CHR 0x0A"] key [of "CHR 0x0D"] key [of "CHR 0x09"] by auto
    then show ?thesis
      by (elim insertE) (simp_all add: esc_char_def Let_def simple_esc_def)
  next
    case 2
    then show ?thesis
      by (simp add: esc_char_def Let_def n_def [symmetric] hex4_control utf8_unit_def c)
  next
    case 3
    then have "c \<noteq> CHR 0x22" "c \<noteq> CHR 0x5C" using n_def by auto
    with 3 show ?thesis by (simp add: esc_char_def Let_def n_def [symmetric])
  qed
qed

lemma p_str_quoted [simp]: "p_str (esc_string s @ CHR 0x22 # r) = Some (s, r)"
  by (induction s) (simp_all add: esc_string_def p_str_esc)

lemma quoted_eq: "quoted s @ r = CHR 0x22 # esc_string s @ CHR 0x22 # r"
  by (simp add: quoted_def)

text \<open>What may follow a value: the end of the text, or a comma or a closing bracket.\<close>

definition stops :: "string \<Rightarrow> bool" where
  "stops r \<longleftrightarrow> r = [] \<or> hd r \<in> {CHR '','', CHR '']'', CHR ''}''}"

lemma stops_simps [simp]: "stops []" "stops (CHR '','' # r)" "stops (CHR '']'' # r)" "stops (CHR ''}'' # r)"
  by (simp_all add: stops_def)

lemma skip_ws_Cons [simp]: "\<not> is_ws c \<Longrightarrow> skip_ws (c # r) = c # r"
  by (simp add: skip_ws_def)

lemma not_ws_punct [simp]: "\<not> is_ws (CHR '','')" "\<not> is_ws (CHR '']'')" "\<not> is_ws (CHR ''}'')"
  "\<not> is_ws (CHR 0x22)" "\<not> is_ws (CHR '':'')" "\<not> is_ws (CHR ''['')" "\<not> is_ws (CHR ''{'')"
  "\<not> is_ws (CHR ''-'')" "\<not> is_ws (CHR ''n'')" "\<not> is_ws (CHR ''t'')" "\<not> is_ws (CHR ''f'')"
  by (simp_all add: is_ws_def)

lemma is_digit_iff: "is_digit c \<longleftrightarrow> 48 \<le> (of_char c :: nat) \<and> of_char c \<le> (57 :: nat)"
  by (simp add: is_digit_def digit_val_def Let_def)

lemma digit_not_special: "is_digit c \<Longrightarrow> \<not> is_ws c \<and> c \<notin> {CHR 0x22, CHR ''['', CHR ''{'', CHR ''-'', CHR '']'', CHR ''}''}"
  by (auto simp: is_digit_iff is_ws_def)

lemma stops_not_digit: "stops r \<Longrightarrow> takeWhile is_digit r = [] \<and> dropWhile is_digit r = r \<and> (r = [] \<or> hd r \<notin> set ''.eE'')"
  by (cases r) (auto simp: stops_def is_digit_iff)

lemma p_num_show: "stops r \<Longrightarrow> p_num (show_nat n @ r) = Some (n, r)"
proof -
  assume "stops r"
  have d: "\<forall>c\<in>set (show_nat n). is_digit c" using show_nat_digits [of n] by (simp add: list_all_iff)
  have "takeWhile is_digit (show_nat n @ r) = show_nat n" "dropWhile is_digit (show_nat n @ r) = r"
    using d stops_not_digit [OF \<open>stops r\<close>] by (simp_all add: takeWhile_append2 dropWhile_append2)
  moreover have "\<not> (digit_val (hd (show_nat n)) = Some 0 \<and> length (show_nat n) > 1)"
    using show_nat_no_lead_zero [of n] by (cases "n = 0") (auto simp: show_nat_small)
  ultimately show ?thesis
    using stops_not_digit [OF \<open>stops r\<close>] by (auto simp: p_num_def Let_def)
qed

lemma show_int_cases:
  obtains t where "show_int n = CHR ''-'' # t" "n < 0" "t = show_nat (nat (- n))"
  | c t where "show_int n = c # t" "n \<ge> 0" "is_digit c" "show_nat (nat n) = c # t"
proof (cases "n < 0")
  case True
  then have "show_int n = CHR ''-'' # show_nat (nat (- n))" by (simp add: show_int_def)
  with True show ?thesis by (intro that(1)) simp_all
next
  case False
  obtain c t where ct: "show_nat (nat n) = c # t" by (metis list.exhaust show_nat_nonempty)
  moreover have "is_digit c" using show_nat_digits [of "nat n"] ct by simp
  ultimately show ?thesis using False by (intro that(2) [of c t]) (simp_all add: show_int_def)
qed

definition starts_value :: "char \<Rightarrow> bool" where
  "starts_value c \<longleftrightarrow> \<not> is_ws c \<and> c \<noteq> CHR '']'' \<and> c \<noteq> CHR ''}''"

lemma digit_starts: "is_digit c \<Longrightarrow> starts_value c"
  using digit_not_special [of c] by (simp add: starts_value_def)

lemma jtext_starts: "json_ok v \<Longrightarrow> \<exists>c t. jtext v = c # t \<and> starts_value c"
proof (cases v)
  case (VNum n)
  show ?thesis
  proof (rule show_int_cases [of n])
    fix t assume "show_int n = CHR ''-'' # t"
    with VNum show ?thesis by (simp add: starts_value_def)
  next
    fix c t assume "show_int n = c # t" "is_digit c"
    with VNum show ?thesis by (simp add: digit_starts)
  qed
qed (simp_all add: starts_value_def quoted_def)

lemma jtext_first:
  assumes "json_ok v"
  obtains c t where "jtext v = c # t" "\<not> is_ws c" "c \<noteq> CHR '']''" "c \<noteq> CHR ''}''"
  using jtext_starts [OF assms] unfolding starts_value_def by blast

lemma jtext_skip [simp]: "json_ok v \<Longrightarrow> skip_ws (jtext v @ r) = jtext v @ r"
  by (rule jtext_first [of v]) auto

lemma jtext_nonempty: "json_ok v \<Longrightarrow> length (jtext v) \<ge> 1"
  by (rule jtext_first [of v]) auto

text \<open>Fuel: one unit per value, per element and per member.\<close>

fun need :: "jsval \<Rightarrow> nat" where
  "need (VArr xs) = Suc (sum_list (map (\<lambda>v. Suc (need v)) xs))"
| "need (VObj kvs) = Suc (sum_list (map (\<lambda>kv. Suc (need (snd kv))) kvs))"
| "need _ = 1"

lemma p_elems_text:
  assumes "\<And>v f r. v \<in> set xs \<Longrightarrow> need v \<le> f \<Longrightarrow> stops r \<Longrightarrow> p_val f (jtext v @ r) = Some (v, r)"
    and "xs \<noteq> []" and "sum_list (map (\<lambda>v. Suc (need v)) xs) \<le> f"
  shows "p_elems f (join_commas (map jtext xs) @ CHR '']'' # r) = Some (xs, r)"
  using assms
proof (induction xs arbitrary: f)
  case (Cons v xs)
  then obtain g where g: "f = Suc g" "need v \<le> g" "sum_list (map (\<lambda>v. Suc (need v)) xs) \<le> g"
    by (cases f) auto
  show ?case
  proof (cases xs)
    case Nil
    with g Cons.prems(1) [of v g "CHR '']'' # r"] show ?thesis by simp
  next
    case (Cons w ws)
    let ?rest = "join_commas (map jtext xs) @ CHR '']'' # r"
    have "p_val g (jtext v @ CHR '','' # ?rest) = Some (v, CHR '','' # ?rest)"
      using g(2) by (intro Cons.prems(1)) simp_all
    moreover have "p_elems g ?rest = Some (xs, r)"
      using Cons.IH [of g] Cons.prems(1) Cons g(3) by simp
    ultimately show ?thesis using g(1) Cons by simp
  qed
qed simp

lemma p_members_text:
  assumes "\<And>kv f r. kv \<in> set kvs \<Longrightarrow> need (snd kv) \<le> f \<Longrightarrow> stops r \<Longrightarrow>
      p_val f (jtext (snd kv) @ r) = Some (snd kv, r)"
    and "kvs \<noteq> []" and "sum_list (map (\<lambda>kv. Suc (need (snd kv))) kvs) \<le> f"
  shows "p_members f (join_commas (map (\<lambda>kv. quoted (fst kv) @ CHR '':'' # jtext (snd kv)) kvs) @ CHR ''}'' # r)
    = Some (kvs, r)"
  using assms
proof (induction kvs arbitrary: f)
  case (Cons kv kvs)
  then obtain g where g: "f = Suc g" "need (snd kv) \<le> g" "sum_list (map (\<lambda>kv. Suc (need (snd kv))) kvs) \<le> g"
    by (cases f) auto
  show ?case
  proof (cases kvs)
    case Nil
    with g Cons.prems(1) [of kv g "CHR ''}'' # r"] show ?thesis by (simp add: quoted_def)
  next
    case (Cons w ws)
    let ?rest = "join_commas (map (\<lambda>kv. quoted (fst kv) @ CHR '':'' # jtext (snd kv)) kvs) @ CHR ''}'' # r"
    have "p_val g (jtext (snd kv) @ CHR '','' # ?rest) = Some (snd kv, CHR '','' # ?rest)"
      using g(2) by (intro Cons.prems(1)) simp_all
    moreover have "p_members g ?rest = Some (kvs, r)"
      using Cons.IH [of g] Cons.prems(1) Cons g(3) by simp
    ultimately show ?thesis using g(1) Cons by (simp add: quoted_def)
  qed
qed simp

lemma upsert_new: "fst kv \<notin> set (map fst kvs) \<Longrightarrow> upsert kvs kv = kvs @ [kv]"
  by (simp add: upsert_def)

lemma foldl_upsert_distinct: "distinct (map fst (acc @ kvs)) \<Longrightarrow> foldl upsert acc kvs = acc @ kvs"
proof (induction kvs arbitrary: acc)
  case (Cons kv kvs)
  then have "fst kv \<notin> set (map fst acc)" by auto
  with Cons show ?case by (simp add: upsert_new)
qed simp

lemma take1_first: "json_ok v \<Longrightarrow> take 1 (skip_ws (jtext v @ r)) \<noteq> '']''"
  by (rule jtext_first [of v]) auto

lemma p_val_jtext:
  "json_ok v \<Longrightarrow> need v \<le> f \<Longrightarrow> stops r \<Longrightarrow> p_val f (jtext v @ r) = Some (v, r)"
proof (induction v arbitrary: f r)
  case VNull
  then show ?case by (cases f) (auto simp: p_literal_def is_digit_iff)
next
  case (VBool b)
  then show ?case by (cases f) (auto simp: p_literal_def is_digit_iff)
next
  case (VNum n)
  then obtain g where f: "f = Suc g" by (cases f) auto
  show ?case
  proof (rule show_int_cases [of n])
    fix t assume "show_int n = CHR ''-'' # t" "n < 0" "t = show_nat (nat (- n))"
    then show ?case using f VNum p_num_show [of r "nat (- n)"] by simp
  next
    fix c t assume a: "show_int n = c # t" "n \<ge> 0" "is_digit c" "show_nat (nat n) = c # t"
    then have "p_num (c # t @ r) = Some (nat n, r)" using p_num_show [of r "nat n"] VNum by simp
    then show ?case using f a(1,2,3) digit_not_special [OF a(3)] by simp
  qed
next
  case (VStr s)
  then obtain g where "f = Suc g" by (cases f) auto
  then show ?case by (simp add: quoted_def)
next
  case (VArr xs)
  then obtain g where f: "f = Suc g" by (cases f) auto
  show ?case
  proof (cases xs)
    case Nil
    with f show ?thesis by simp
  next
    case (Cons x ys)
    have "p_elems g (join_commas (map jtext xs) @ CHR '']'' # r) = Some (xs, r)"
      using VArr f Cons by (intro p_elems_text) (auto simp: list_all_iff)
    moreover have "take 1 (skip_ws (join_commas (map jtext xs) @ CHR '']'' # r)) \<noteq> '']''"
      using take1_first [of x] VArr.prems(1) Cons by (cases ys) simp_all
    ultimately show ?thesis using f by simp
  qed
next
  case (VObj kvs)
  then obtain g where f: "f = Suc g" by (cases f) auto
  show ?case
  proof (cases kvs)
    case Nil
    with f show ?thesis by simp
  next
    case (Cons x ys)
    have "p_val h (jtext (snd kv) @ s) = Some (snd kv, s)"
      if "kv \<in> set kvs" "need (snd kv) \<le> h" "stops s" for kv h s
      using VObj.IH [of kv "snd kv" h s] VObj.prems(1) that by (cases kv) (auto simp: list_all_iff)
    then have "p_members g (join_commas (map (\<lambda>kv. quoted (fst kv) @ CHR '':'' # jtext (snd kv)) kvs) @ CHR ''}'' # r)
        = Some (kvs, r)"
      using VObj.prems f Cons by (intro p_members_text) auto
    moreover have "foldl upsert [] kvs = kvs"
      using VObj.prems(1) foldl_upsert_distinct [of "[]" kvs] by simp
    moreover have "take 1 (skip_ws (join_commas (map (\<lambda>kv. quoted (fst kv) @ CHR '':'' # jtext (snd kv)) kvs) @
        CHR ''}'' # r)) \<noteq> ''}''"
      using Cons by (cases ys) (simp_all add: quoted_def)
    ultimately show ?thesis using f by simp
  qed
qed simp_all

lemma join_commas_length: "xs \<noteq> [] \<Longrightarrow> Suc (length (join_commas xs)) = sum_list (map (\<lambda>s. Suc (length s)) xs)"
  by (induction xs rule: join_commas.induct) auto

lemma sum_list_need: "(\<And>x. x \<in> set xs \<Longrightarrow> f x \<le> g x) \<Longrightarrow>
    sum_list (map (\<lambda>x. Suc (f x)) xs) \<le> sum_list (map (\<lambda>x. Suc (g x)) xs)" for f g :: "'a \<Rightarrow> nat"
  by (rule sum_list_mono) simp

lemma need_le_length: "json_ok v \<Longrightarrow> need v \<le> length (jtext v)"
proof (induction v)
  case (VNum n)
  then show ?case using jtext_nonempty [of "VNum n"] by simp
next
  case (VArr xs)
  have "sum_list (map (\<lambda>v. Suc (need v)) xs) \<le> sum_list (map (\<lambda>v. Suc (length (jtext v))) xs)"
    using VArr by (intro sum_list_need) (simp add: list_all_iff)
  moreover have "sum_list (map (\<lambda>v. Suc (length (jtext v))) xs) \<le> Suc (length (join_commas (map jtext xs)))"
    using join_commas_length [of "map jtext xs"] by (cases xs) (simp_all add: comp_def)
  ultimately show ?case by simp
next
  case (VObj kvs)
  let ?m = "\<lambda>kv. quoted (fst kv) @ CHR '':'' # jtext (snd kv)"
  have "need (snd kv) \<le> length (?m kv)" if "kv \<in> set kvs" for kv
    using VObj.IH [of kv "snd kv"] VObj.prems that by (cases kv) (fastforce simp: list_all_iff)
  then have "sum_list (map (\<lambda>kv. Suc (need (snd kv))) kvs) \<le> sum_list (map (\<lambda>kv. Suc (length (?m kv))) kvs)"
    by (rule sum_list_need)
  moreover have "sum_list (map (\<lambda>kv. Suc (length (?m kv))) kvs) \<le> Suc (length (join_commas (map ?m kvs)))"
    using join_commas_length [of "map ?m kvs"] by (cases kvs) (simp_all add: comp_def)
  ultimately show ?case by simp
qed (auto simp: quoted_def)

lemma json_parse_jtext: "json_ok v \<Longrightarrow> json_parse (jtext v) = Inr v"
  using p_val_jtext [of v "length (jtext v)" "[]"] need_le_length [of v]
  by (simp add: json_parse_def skip_ws_def)

lemma jtext_inj: "json_ok v \<Longrightarrow> json_ok w \<Longrightarrow> jtext v = jtext w \<Longrightarrow> v = w"
  using json_parse_jtext by (metis sum.inject(2))

section \<open>Sorted keys\<close>

lemma not_index_proto: "\<not> is_index_key proto_key"
  by (simp add: is_index_key_def proto_key_def is_digit_iff)

lemma mset_key_order: "mset (key_order kvs) = filter_mset (\<lambda>kv. fst kv \<noteq> proto_key) (mset kvs)"
proof -
  have "mset (key_order kvs) = filter_mset (\<lambda>kv. is_index_key (fst kv)) (mset kvs) +
      filter_mset (\<lambda>kv. \<not> is_index_key (fst kv) \<and> fst kv \<noteq> proto_key) (mset kvs)"
    by (simp add: key_order_def)
  also have "\<dots> = filter_mset (\<lambda>kv. fst kv \<noteq> proto_key) (mset kvs)"
    using not_index_proto by (induction kvs) auto
  finally show ?thesis .
qed

lemma set_key_order: "set (key_order kvs) = {kv \<in> set kvs. fst kv \<noteq> proto_key}"
  using arg_cong [OF mset_key_order [of kvs], of set_mset] by auto

lemma distinct_key_order: "distinct (map fst kvs) \<Longrightarrow> distinct (map fst (key_order kvs))"
proof -
  assume "distinct (map fst kvs)"
  then have "distinct (map fst (filter (\<lambda>kv. fst kv \<noteq> proto_key) kvs))"
    by (simp add: distinct_map_filter)
  moreover have "mset (map fst (key_order kvs)) = mset (map fst (filter (\<lambda>kv. fst kv \<noteq> proto_key) kvs))"
    by (simp add: mset_key_order)
  ultimately show ?thesis by (metis mset_eq_imp_distinct_iff)
qed

lemma key_order_perm:
  assumes "mset kvs = mset kvs'" and "distinct (map fst kvs)"
  shows "key_order kvs = key_order kvs'"
proof -
  have inj: "inj_on fst (set kvs)" using assms(2) by (simp add: distinct_map)
  have key: "sort_key f (filter P kvs) = sort_key f (filter P kvs')"
    if "inj_on f (set (filter P kvs))" for f :: "string \<times> 'a \<Rightarrow> 'b :: linorder" and P
  proof -
    have "mset (filter P kvs) = mset (filter P kvs')" using assms(1) by (simp only: mset_filter)
    then show ?thesis using that by (rule sort_key_eq_sort_key)
  qed
  have inj1: "inj_on (\<lambda>kv. read_nat (fst kv)) (set (filter (\<lambda>kv. is_index_key (fst kv)) kvs))"
  proof (rule inj_onI)
    fix x y assume *: "x \<in> set (filter (\<lambda>kv. is_index_key (fst kv)) kvs)"
      "y \<in> set (filter (\<lambda>kv. is_index_key (fst kv)) kvs)" "read_nat (fst x) = read_nat (fst y)"
    then have "fst x = fst y" by (auto simp: is_index_key_def)
    with * inj show "x = y" by (auto dest: inj_onD)
  qed
  have inj2: "inj_on fst (set (filter (\<lambda>kv. \<not> is_index_key (fst kv) \<and> fst kv \<noteq> proto_key) kvs))"
    using inj by (rule inj_on_subset) auto
  show ?thesis by (simp only: key_order_def key [OF inj1] key [OF inj2])
qed

lemma canonicalize_perm:
  assumes "mset kvs = mset kvs'" and "distinct (map fst kvs)"
  shows "canonicalize (VObj kvs) = canonicalize (VObj kvs')"
  using key_order_perm [OF assms] by (simp add: canonicalize_def sortKeysDeep_def)

lemma rmapM_entries:
  assumes "rmapM (\<lambda>kv. rbind (f (snd kv)) (\<lambda>y. Inr (fst kv, y))) kvs = Inr ys"
  shows "list_all2 (\<lambda>kv y. fst y = fst kv \<and> f (snd kv) = Inr (snd y)) kvs ys"
  using assms by (induction kvs arbitrary: ys) auto

lemma rmapM_entries_map_of:
  assumes "rmapM (\<lambda>kv. rbind (f (snd kv)) (\<lambda>y. Inr (fst kv, y))) kvs = Inr ys"
  shows "map fst ys = map fst kvs"
    and "rel_option (\<lambda>x y. f x = Inr y) (map_of kvs k) (map_of ys k)"
  using rmapM_entries [OF assms] by (induction rule: list_all2_induct) auto

lemma sort_keys_Obj: "sort_keys_from (Suc d) (VObj kvs) = Inr w \<longleftrightarrow>
    (\<exists>ys. w = VObj ys \<and> rmapM (\<lambda>kv. rbind (sort_keys_from d (snd kv)) (\<lambda>y. Inr (fst kv, y)))
      (key_order kvs) = Inr ys)"
  by auto

lemma sort_keys_Arr: "sort_keys_from (Suc d) (VArr xs) = Inr w \<longleftrightarrow>
    (\<exists>ys. w = VArr ys \<and> rmapM (sort_keys_from d) xs = Inr ys)"
  by auto

lemma sort_keys_json_ok: "json_ok v \<Longrightarrow> sort_keys_from d v = Inr w \<Longrightarrow> json_ok w"
proof (induction d arbitrary: v w)
  case (Suc d)
  show ?case
  proof (cases "is_prim v")
    case True
    with Suc.prems show ?thesis by (cases v) auto
  next
    case False
    with Suc.prems(1) consider (a) xs where "v = VArr xs" | (b) kvs where "v = VObj kvs"
      by (cases v) auto
    then show ?thesis
    proof cases
      case a
      obtain ys where ys: "w = VArr ys" "rmapM (sort_keys_from d) xs = Inr ys"
        using Suc.prems(2) unfolding a sort_keys_Arr by blast
      have "json_ok (ys ! i)" if "i < length ys" for i
      proof (rule Suc.IH)
        show "sort_keys_from d (xs ! i) = Inr (ys ! i)"
          using rmapM_nth [OF ys(2)] rmapM_length [OF ys(2)] that by simp
        show "json_ok (xs ! i)"
          using Suc.prems(1) rmapM_length [OF ys(2)] that unfolding a by (simp add: list_all_length)
      qed
      with ys(1) show ?thesis by (simp add: list_all_length)
    next
      case b
      obtain ys where ys: "w = VObj ys" "rmapM (\<lambda>kv. rbind (sort_keys_from d (snd kv))
          (\<lambda>y. Inr (fst kv, y))) (key_order kvs) = Inr ys"
        using Suc.prems(2) unfolding b sort_keys_Obj by blast
      note e = rmapM_entries [OF ys(2)]
      have "json_ok (snd (ys ! i))" if "i < length ys" for i
      proof (rule Suc.IH)
        show "sort_keys_from d (snd (key_order kvs ! i)) = Inr (snd (ys ! i))"
          using e that by (simp add: list_all2_conv_all_nth)
        have "i < length (key_order kvs)" using e that by (simp add: list_all2_conv_all_nth)
        then have "key_order kvs ! i \<in> set kvs" using nth_mem set_key_order by blast
        then show "json_ok (snd (key_order kvs ! i))"
          using Suc.prems(1) unfolding b by (auto simp: list_all_iff)
      qed
      moreover have "distinct (map fst ys)"
        using rmapM_entries_map_of(1) [OF ys(2)] distinct_key_order [of kvs] Suc.prems(1) b by simp
      ultimately show ?thesis using ys(1) by (simp add: list_all_length)
    qed
  qed
qed simp

lemma sortKeysDeep_json_ok: "json_ok v \<Longrightarrow> sortKeysDeep v = Inr w \<Longrightarrow> json_ok w"
  unfolding sortKeysDeep_def by (rule sort_keys_json_ok)

lemma canonicalize_jtext:
  assumes "json_ok v"
  shows "canonicalize v = rbind (sortKeysDeep v) (\<lambda>w. Inr (Some (jtext w)))"
  using sortKeysDeep_json_ok [OF assms] stringify_jtext
  by (cases "sortKeysDeep v") (auto simp: canonicalize_def)

lemma canonicalize_inj:
  assumes "json_ok v" "json_ok w" "canonicalize v = Inr t" "canonicalize w = Inr t"
  shows "sortKeysDeep v = sortKeysDeep w"
proof -
  obtain v' w' where *: "sortKeysDeep v = Inr v'" "sortKeysDeep w = Inr w'" "jtext v' = jtext w'"
    using assms(3,4) by (auto simp: canonicalize_jtext assms(1,2))
  have "json_ok v'" "json_ok w'"
    using * sortKeysDeep_json_ok assms(1,2) by blast+
  with * jtext_inj show ?thesis by simp
qed

lemma map_of_key_order:
  assumes "distinct (map fst kvs)" "k \<noteq> proto_key"
  shows "map_of (key_order kvs) k = map_of kvs k"
proof -
  have d: "distinct (map fst (key_order kvs))" using assms(1) by (rule distinct_key_order)
  have "map_of (key_order kvs) k = Some x \<longleftrightarrow> map_of kvs k = Some x" for x
    using assms(2) by (simp add: map_of_eq_Some_iff [OF d] map_of_eq_Some_iff [OF assms(1)] set_key_order)
  then show ?thesis by (metis not_None_eq)
qed

lemma sorted_prim: "sort_keys_from (Suc d) x = Inr y \<Longrightarrow> is_prim x \<Longrightarrow> y = x"
  by (cases x) auto

lemma sorted_not_prim: "sort_keys_from (Suc d) x = Inr y \<Longrightarrow> \<not> is_prim x \<Longrightarrow> \<not> is_prim y"
  by (cases x) auto

lemma is_prim_undef: "is_prim VUndef" by simp

lemma sortKeysDeep_fields:
  assumes "json_ok (VObj a)" "json_ok (VObj b)" and "sortKeysDeep (VObj a) = Inr w" "sortKeysDeep (VObj b) = Inr w"
    and "k \<noteq> proto_key" and "is_prim (field (VObj a) k)"
  shows "field (VObj b) k = field (VObj a) k"
proof -
  obtain n where n: "MAX_DEPTH = Suc n" by (simp add: MAX_DEPTH_def)
  let ?s = "\<lambda>kvs. rmapM (\<lambda>kv. rbind (sort_keys_from (Suc n) (snd kv)) (\<lambda>y. Inr (fst kv, y))) (key_order kvs)"
  obtain ys where ys: "?s a = Inr ys" "?s b = Inr ys"
    using assms(3,4) unfolding sortKeysDeep_def n sort_keys_Obj by auto
  have ra: "rel_option (\<lambda>x y. sort_keys_from (Suc n) x = Inr y) (map_of a k) (map_of ys k)"
    using rmapM_entries_map_of(2) [OF ys(1), of k] map_of_key_order [of a k] assms(1,5) by simp
  have rb: "rel_option (\<lambda>x y. sort_keys_from (Suc n) x = Inr y) (map_of b k) (map_of ys k)"
    using rmapM_entries_map_of(2) [OF ys(2), of k] map_of_key_order [of b k] assms(2,5) by simp
  show ?thesis
  proof (cases "map_of ys k")
    case None
    with ra rb show ?thesis by simp
  next
    case (Some y)
    with ra rb obtain x z where "map_of a k = Some x" "map_of b k = Some z"
      "sort_keys_from (Suc n) x = Inr y" "sort_keys_from (Suc n) z = Inr y"
      by (auto simp: option_rel_Some2)
    with assms(6) sorted_prim sorted_not_prim show ?thesis by (metis field.simps(1) option.case(2))
  qed
qed

section \<open>The content address determines the content\<close>

definition content_input :: "jsval \<Rightarrow> bytes set" where
  "content_input v = {utf8 t | t. canonicalize (pickContent v) = Inr (Some t)}"

lemma pickContent_json_ok: "json_ok (VObj kvs) \<Longrightarrow> json_ok (pickContent (VObj kvs))"
  by (auto simp: pickContent_def list_all_iff distinct_map_filter)

lemma field_pickContent:
  "k \<notin> set credential_fields \<Longrightarrow> k \<noteq> proto_key \<Longrightarrow> field (pickContent (VObj kvs)) k = field (VObj kvs) k"
proof -
  assume "k \<notin> set credential_fields" "k \<noteq> proto_key"
  then have "map_of (filter (\<lambda>kv. fst kv \<notin> set credential_fields \<and> fst kv \<noteq> proto_key) kvs) k = map_of kvs k"
    by (induction kvs) auto
  then show ?thesis by (simp add: pickContent_def)
qed

lemma contentId_Inr: "contentId C v = Inr i \<longleftrightarrow>
    (\<exists>t. canonicalize (pickContent v) = Inr (Some t) \<and> i = ''0x'' @ to_hex (sha256 C (utf8 t)))"
  by (auto simp: contentId_def sha256hex_def split: option.splits)

lemma contentId_binds:
  assumes "json_ok (VObj a)" "json_ok (VObj b)"
    and "contentId C (VObj a) = Inr i" "contentId C (VObj b) = Inr i"
    and "k \<notin> set credential_fields" "k \<noteq> proto_key" "is_prim (field (VObj a) k)"
  shows "field (VObj b) k = field (VObj a) k \<or> collision C (content_input (VObj a)) (content_input (VObj b))"
proof (rule disjCI)
  assume nc: "\<not> collision C (content_input (VObj a)) (content_input (VObj b))"
  obtain s t where st: "canonicalize (pickContent (VObj a)) = Inr (Some s)"
    "canonicalize (pickContent (VObj b)) = Inr (Some t)" "sha256 C (utf8 s) = sha256 C (utf8 t)"
    using assms(3,4) by (auto simp: contentId_Inr)
  have "utf8 s \<in> content_input (VObj a)" "utf8 t \<in> content_input (VObj b)"
    using st(1,2) unfolding content_input_def by blast+
  then have "utf8 s = utf8 t" using no_collisionD [OF nc] st(3) by blast
  then have "canonicalize (pickContent (VObj b)) = Inr (Some s)" unfolding st(2) by simp
  then have "sortKeysDeep (pickContent (VObj a)) = sortKeysDeep (pickContent (VObj b))"
    using canonicalize_inj [OF pickContent_json_ok [OF assms(1)] pickContent_json_ok [OF assms(2)] st(1)] by blast
  moreover obtain w where "sortKeysDeep (pickContent (VObj a)) = Inr w"
    using st(1) unfolding canonicalize_def by (auto simp: rbind_eq_Inr)
  ultimately have w: "sortKeysDeep (pickContent (VObj a)) = Inr w" "sortKeysDeep (pickContent (VObj b)) = Inr w"
    by simp_all
  have "is_prim (field (pickContent (VObj a)) k)"
    using assms(7) unfolding field_pickContent [OF assms(5,6)] .
  then have "field (pickContent (VObj b)) k = field (pickContent (VObj a)) k"
    using sortKeysDeep_fields [OF _ _ w [unfolded pickContent_def] assms(6)]
      pickContent_json_ok [OF assms(1)] pickContent_json_ok [OF assms(2)]
    unfolding pickContent_def by blast
  then show "field (VObj b) k = field (VObj a) k" unfolding field_pickContent [OF assms(5,6)] .
qed

end
