(* ===== verification/Receipt.thy ===== *)
theory Receipt
  imports JsonParse
begin

text \<open>
  agent/lib/keys.mjs and agent/lib/receipt.mjs: signed, content-addressed records (manifest,
  custody receipt, delivery receipt), the check of one record, the check of a custody chain against
  a pinned route, the audit of a chain with gaps, and the binding of a delivery to a payment.

  A record is a JavaScript object from an untrusted source, so it is a \<open>jsval\<close>; a result
  \<open>{ ok: true, ... }\<close> or \<open>{ ok: false, reason }\<close> is a \<open>verdict\<close>; a thrown error is \<open>Inl\<close>.
\<close>

datatype 'a verdict = Accept 'a | Refuse string

datatype 'a chain_verdict = ChainOk 'a | ChainBad string "nat option"

section \<open>Definitions\<close>

definition signClaim :: "crypto \<Rightarrow> string \<Rightarrow> jsval \<Rightarrow> string" where
  "signClaim C key claimId = to_base64 (ed_sign C key (utf8 (js_String claimId)))"

definition verifySig :: "crypto \<Rightarrow> jsval \<Rightarrow> jsval \<Rightarrow> jsval \<Rightarrow> bool" where
  "verifySig C pubB64 claimId sigB64 =
     (case (buffer_from_base64 pubB64, buffer_from_base64 sigB64) of
        (Some p, Some s) \<Rightarrow> ed_verify C p (utf8 (js_String claimId)) s
      | _ \<Rightarrow> False)"

definition signRecord :: "crypto \<Rightarrow> keypair \<Rightarrow> jsval \<Rightarrow> jsval res" where
  "signRecord C kp content = rbind (contentId C content) (\<lambda>i.
     Inr (VObj (set_field ''signerPub'' (VStr (pub kp))
           (set_field ''sig'' (VStr (signClaim C (priv kp) (VStr i)))
             (set_field ''claimId'' (VStr i) (own_props content))))))"

fun is_object :: "jsval \<Rightarrow> bool" where
  "is_object (VBytes _) = True"
| "is_object (VArr _) = True"
| "is_object (VObj _) = True"
| "is_object (VMap _) = True"
| "is_object (VIndef _) = True"
| "is_object _ = False"

definition verifyRecord :: "crypto \<Rightarrow> jsval \<Rightarrow> jsval verdict res" where
  "verifyRecord C rec =
     (if \<not> is_object rec then Inr (Refuse ''not_an_object'')
      else rbind (contentId C rec) (\<lambda>i. Inr (
        if toLowerCase i \<noteq> toLowerCase (js_String (field rec ''claimId'')) then Refuse ''claimId_mismatch''
        else if \<not> truthy (field rec ''signerPub'') \<or> \<not> truthy (field rec ''sig'') then Refuse ''missing_credential''
        else if \<not> verifySig C (field rec ''signerPub'') (field rec ''claimId'') (field rec ''sig'')
          then Refuse ''signature_invalid''
        else Accept (field rec ''signerPub''))))"

definition buildManifest :: "string \<Rightarrow> nat \<Rightarrow> string \<Rightarrow> jsval \<Rightarrow> jsval" where
  "buildManifest payloadId chunkCount rt meta =
     VObj [(''kind'', VStr ''manifest/1''), (''payloadId'', VStr payloadId),
           (''chunkCount'', VNum (int chunkCount)), (''root'', VStr rt),
           (''meta'', if truthy meta then meta else VObj [])]"

definition custody_content :: "jsval \<Rightarrow> jsval \<Rightarrow> jsval \<Rightarrow> string \<Rightarrow> jsval \<Rightarrow> jsval \<Rightarrow> jsval" where
  "custody_content payloadId bundleId prevHop thisHop receivedAt forwardedAt =
     VObj [(''kind'', VStr ''custody/1''), (''payloadId'', payloadId), (''bundleId'', bundleId),
           (''prevHop'', prevHop), (''thisHop'', VStr thisHop), (''receivedAt'', receivedAt),
           (''forwardedAt'', forwardedAt)]"

definition custodyReceipt ::
    "crypto \<Rightarrow> keypair \<Rightarrow> jsval \<Rightarrow> jsval \<Rightarrow> jsval \<Rightarrow> string \<Rightarrow> jsval \<Rightarrow> jsval \<Rightarrow> jsval res" where
  "custodyReceipt C kp payloadId bundleId prevHop thisHop receivedAt forwardedAt =
     signRecord C kp (custody_content payloadId bundleId prevHop thisHop receivedAt forwardedAt)"

text \<open>The pinned route: \<open>[{ eid, pub }]\<close>.\<close>

record hop =
  eid :: string
  hop_pub :: string

fun chain_from ::
    "crypto \<Rightarrow> string \<Rightarrow> nat \<Rightarrow> string option \<Rightarrow> (jsval \<times> hop) list \<Rightarrow> nat chain_verdict res" where
  "chain_from C bundleId i prevEid [] = Inr (ChainOk i)"
| "chain_from C bundleId i prevEid ((r, h) # rest) = rbind (verifyRecord C r) (\<lambda>v.
     case v of
       Refuse reason \<Rightarrow> Inr (ChainBad reason (Some i))
     | Accept signer \<Rightarrow>
         if \<not> strict_eq (field r ''bundleId'') (VStr bundleId) then Inr (ChainBad ''wrong_bundle'' (Some i))
         else if \<not> strict_eq (field r ''thisHop'') (VStr (eid h)) then Inr (ChainBad ''unexpected_hop'' (Some i))
         else if \<not> strict_eq signer (VStr (hop_pub h)) then Inr (ChainBad ''signer_not_pinned_hop_key'' (Some i))
         else (case prevEid of
             None \<Rightarrow> chain_from C bundleId (Suc i) (Some (eid h)) rest
           | Some p \<Rightarrow>
               if \<not> strict_eq (field r ''prevHop'') (VStr p) then Inr (ChainBad ''custody_chain_break'' (Some i))
               else chain_from C bundleId (Suc i) (Some (eid h)) rest))"

text \<open>After the two checks of line 46, \<open>prevEid = r.thisHop\<close> is the string \<open>hops[i].eid\<close>.\<close>

definition verifyCustodyChain ::
    "crypto \<Rightarrow> jsval list \<Rightarrow> string \<Rightarrow> hop list \<Rightarrow> nat chain_verdict res" where
  "verifyCustodyChain C receipts bundleId hops =
     (if receipts = [] then Inr (ChainBad ''empty_chain'' None)
      else if length receipts \<noteq> length hops then Inr (ChainBad ''wrong_hop_count'' None)
      else chain_from C bundleId 0 None (zip receipts hops))"

text \<open>The audit of a chain that crossed nodes that sign nothing.\<close>

record gap =
  afterHop :: jsval
  beforeHop :: jsval
  lastUnsigned :: jsval

record audit =
  complete :: bool
  custodied :: nat
  gaps :: "gap list"

text \<open>
  \<open>keys[k]\<close> on an object literal also finds what every object inherits; those values are truthy and
  equal to no key.
\<close>

definition inherited_keys :: "string list" where
  "inherited_keys = [''constructor'', ''__defineGetter__'', ''__defineSetter__'', ''hasOwnProperty'',
     ''__lookupGetter__'', ''__lookupSetter__'', ''isPrototypeOf'', ''propertyIsEnumerable'',
     ''toString'', ''valueOf'', ''__proto__'', ''toLocaleString'']"

definition is_pinned :: "(string \<times> string) list \<Rightarrow> jsval \<Rightarrow> bool" where
  "is_pinned keys who = (case map_of keys (js_String who) of
      Some p \<Rightarrow> p \<noteq> [] | None \<Rightarrow> js_String who \<in> set inherited_keys)"

definition signer_pinned :: "(string \<times> string) list \<Rightarrow> jsval \<Rightarrow> jsval \<Rightarrow> bool" where
  "signer_pinned keys who signer = (case map_of keys (js_String who) of
      Some p \<Rightarrow> strict_eq signer (VStr p) | None \<Rightarrow> False)"

fun audit_from :: "crypto \<Rightarrow> string \<Rightarrow> (string \<times> string) list \<Rightarrow> nat \<Rightarrow> jsval \<Rightarrow> gap list \<Rightarrow> jsval list \<Rightarrow>
    (jsval \<times> gap list) chain_verdict res" where
  "audit_from C bundleId keys i prevEid gs [] = Inr (ChainOk (prevEid, gs))"
| "audit_from C bundleId keys i prevEid gs (r # rs) = rbind (verifyRecord C r) (\<lambda>v.
     case v of
       Refuse reason \<Rightarrow> Inr (ChainBad reason (Some i))
     | Accept signer \<Rightarrow>
         if \<not> strict_eq (field r ''bundleId'') (VStr bundleId) then Inr (ChainBad ''wrong_bundle'' (Some i))
         else if \<not> is_pinned keys (field r ''thisHop'') then Inr (ChainBad ''custodian_not_pinned'' (Some i))
         else if \<not> signer_pinned keys (field r ''thisHop'') signer
           then Inr (ChainBad ''signer_not_pinned_hop_key'' (Some i))
         else audit_from C bundleId keys (Suc i) (field r ''thisHop'')
           (if prevEid \<noteq> VNull \<and> \<not> strict_eq (field r ''prevHop'') prevEid
            then gs @ [\<lparr>afterHop = prevEid, beforeHop = field r ''thisHop'', lastUnsigned = field r ''prevHop''\<rparr>]
            else gs) rs)"

definition auditCustodyChain :: "crypto \<Rightarrow> jsval list \<Rightarrow> string \<Rightarrow> (string \<times> string) list \<Rightarrow> jsval \<Rightarrow> jsval \<Rightarrow>
    audit chain_verdict res" where
  "auditCustodyChain C receipts bundleId keys origin lastNode =
     (if receipts = [] then Inr (ChainBad ''empty_chain'' None)
      else rbind (audit_from C bundleId keys 0 origin [] receipts) (\<lambda>v.
        case v of
          ChainBad reason h \<Rightarrow> Inr (ChainBad reason h)
        | ChainOk (prevEid, gs) \<Rightarrow>
            let gs' = (if lastNode \<noteq> VNull \<and> \<not> strict_eq lastNode prevEid
                       then gs @ [\<lparr>afterHop = prevEid, beforeHop = VNull, lastUnsigned = lastNode\<rparr>] else gs)
            in Inr (ChainOk \<lparr>complete = (gs' = []), custodied = length receipts, gaps = gs'\<rparr>)))"

section \<open>Delivery\<close>

record delivery =
  d_payloadId :: jsval
  d_root :: jsval
  d_rail :: jsval
  d_network :: jsval
  d_settlementRef :: jsval
  d_payTo :: jsval
  d_amountAtomic :: jsval

definition deliveryReceipt :: "crypto \<Rightarrow> keypair \<Rightarrow> delivery \<Rightarrow> jsval res" where
  "deliveryReceipt C kp d = signRecord C kp (VObj
     [(''kind'', VStr ''delivery/1''), (''payloadId'', d_payloadId d), (''root'', d_root d),
      (''rail'', d_rail d), (''network'', d_network d), (''settlementRef'', d_settlementRef d),
      (''payTo'', d_payTo d), (''amountAtomic'', d_amountAtomic d)])"

definition hexEq :: "jsval \<Rightarrow> jsval \<Rightarrow> bool" where
  "hexEq a b \<longleftrightarrow> toLowerCase (js_String a) = toLowerCase (js_String b)"

text \<open>\<open>Number(a) !== Number(b)\<close>: NaN differs from everything.\<close>

definition number_differs :: "jsval \<Rightarrow> jsval \<Rightarrow> bool" where
  "number_differs a b = (case (js_Number a, js_Number b) of (Some m, Some n) \<Rightarrow> m \<noteq> n | _ \<Rightarrow> True)"

definition bindDelivery :: "jsval \<Rightarrow> jsval \<Rightarrow> unit verdict" where
  "bindDelivery receipt expected =
     (if \<not> is_object expected \<or> \<not> truthy (field expected ''settlementRef'')
        then Refuse ''unbound: verifier must supply the settlementRef it paid''
      else if \<not> hexEq (field receipt ''settlementRef'') (field expected ''settlementRef'')
        then Refuse ''settlementRef_not_mine''
      else if field expected ''payTo'' \<noteq> VUndef \<and>
          js_String (field receipt ''payTo'') \<noteq> js_String (field expected ''payTo'') then Refuse ''payTo_mismatch''
      else if field expected ''amountAtomic'' \<noteq> VUndef \<and>
          number_differs (field receipt ''amountAtomic'') (field expected ''amountAtomic'') then Refuse ''amount_mismatch''
      else Accept ())"

section \<open>Signing never fails on a flat record\<close>

text \<open>The fields of the program's own records: strings, numbers, booleans, null or absent.\<close>

definition flat :: "(string \<times> jsval) list \<Rightarrow> bool" where
  "flat kvs \<longleftrightarrow> list_all (\<lambda>kv. is_prim (snd kv) \<and> (\<forall>n. snd kv \<noteq> VBig n)) kvs"

lemma sort_keys_prim: "is_prim v \<Longrightarrow> sort_keys_from (Suc d) v = Inr v"
  by (cases v) auto

lemma stringify_prim: "is_prim v \<Longrightarrow> (\<forall>n. v \<noteq> VBig n) \<Longrightarrow> \<exists>t. stringify v = Inr t"
  by (cases v) auto

lemma contentId_flat:
  assumes "flat kvs"
  shows "\<exists>i. contentId C (VObj kvs) = Inr i"
proof -
  let ?k = "filter (\<lambda>kv. fst kv \<notin> set credential_fields \<and> fst kv \<noteq> proto_key) kvs"
  obtain n where n: "MAX_DEPTH = Suc n" by (simp add: MAX_DEPTH_def)
  have prim: "is_prim (snd kv) \<and> (\<forall>n. snd kv \<noteq> VBig n)" if "kv \<in> set (key_order ?k)" for kv
    using that assms set_key_order [of ?k] by (auto simp: flat_def list_all_iff)
  then have "rmapM (\<lambda>kv. rbind (sort_keys_from (Suc n) (snd kv)) (\<lambda>y. Inr (fst kv, y))) (key_order ?k)
      = Inr (map id (key_order ?k))"
    by (intro rmapM_Inr) (simp add: sort_keys_prim del: sort_keys_from.simps)
  then have "sortKeysDeep (VObj ?k) = Inr (VObj (key_order ?k))"
    unfolding sortKeysDeep_def n sort_keys_Obj by simp
  then have canon: "canonicalize (pickContent (VObj kvs)) = stringify (VObj (key_order ?k))"
    by (simp only: canonicalize_def pickContent_def own_props.simps rbind_simps)
  obtain ss where "rmapM (\<lambda>kv. rbind (stringify (snd kv)) (\<lambda>t. Inr (member_text (fst kv) t)))
      (key_order ?k) = Inr ss"
  proof -
    have "\<exists>y. rbind (stringify (snd kv)) (\<lambda>t. Inr (member_text (fst kv) t)) = Inr y"
      if "kv \<in> set (key_order ?k)" for kv
      using prim [OF that] stringify_prim [of "snd kv"] by auto
    then have "\<exists>ys. rmapM (\<lambda>kv. rbind (stringify (snd kv)) (\<lambda>t. Inr (member_text (fst kv) t)))
        (key_order ?k) = Inr ys" by (rule rmapM_total)
    with that show thesis by blast
  qed
  then show ?thesis unfolding contentId_def canon by simp
qed

lemma signRecord_flat: "flat kvs \<Longrightarrow> \<exists>r. signRecord C kp (VObj kvs) = Inr r"
  using contentId_flat [of kvs C] by (auto simp: signRecord_def)

text \<open>The same for nested content, up to the depth limit of \<open>sortKeysDeep\<close>.\<close>

fun depth_le :: "nat \<Rightarrow> jsval \<Rightarrow> bool" where
  "depth_le d (VArr xs) = (case d of 0 \<Rightarrow> False | Suc e \<Rightarrow> list_all (depth_le e) xs)"
| "depth_le d (VObj kvs) = (case d of 0 \<Rightarrow> False | Suc e \<Rightarrow> list_all (\<lambda>kv. depth_le e (snd kv)) kvs)"
| "depth_le d _ = True"

lemma sort_keys_total: "json_ok v \<Longrightarrow> depth_le d v \<Longrightarrow> \<exists>w. sort_keys_from (Suc d) v = Inr w"
proof (induction d arbitrary: v)
  case 0
  then show ?case by (cases v) auto
next
  case (Suc d)
  show ?case
  proof (cases "is_prim v")
    case True
    then show ?thesis using sort_keys_prim by blast
  next
    case False
    with Suc.prems(1) consider (a) xs where "v = VArr xs" | (b) kvs where "v = VObj kvs"
      by (cases v) auto
    then show ?thesis
    proof cases
      case a
      have "\<exists>y. sort_keys_from (Suc d) x = Inr y" if "x \<in> set xs" for x
        by (rule Suc.IH) (use Suc.prems that in \<open>auto simp: a list_all_iff\<close>)
      then have "\<exists>ys. rmapM (sort_keys_from (Suc d)) xs = Inr ys" by (rule rmapM_total)
      then show ?thesis unfolding a sort_keys_Arr by blast
    next
      case b
      have "\<exists>y. rbind (sort_keys_from (Suc d) (snd kv)) (\<lambda>y. Inr (fst kv, y)) = Inr y" if "kv \<in> set (key_order kvs)" for kv
      proof -
        have "kv \<in> set kvs" using that set_key_order by blast
        then have "\<exists>y. sort_keys_from (Suc d) (snd kv) = Inr y"
          by (intro Suc.IH) (use Suc.prems in \<open>auto simp: b list_all_iff\<close>)
        then show ?thesis by auto
      qed
      then have "\<exists>ys. rmapM (\<lambda>kv. rbind (sort_keys_from (Suc d) (snd kv)) (\<lambda>y. Inr (fst kv, y))) (key_order kvs) = Inr ys"
        by (rule rmapM_total)
      then show ?thesis unfolding b sort_keys_Obj by blast
    qed
  qed
qed

lemma contentId_total:
  assumes "json_ok (VObj kvs)" "depth_le MAX_DEPTH (VObj kvs)"
  shows "\<exists>i. contentId C (VObj kvs) = Inr i"
proof -
  have ok: "json_ok (pickContent (VObj kvs))" by (rule pickContent_json_ok [OF assms(1)])
  obtain e where e: "MAX_DEPTH = Suc e" by (simp add: MAX_DEPTH_def)
  have "depth_le MAX_DEPTH (pickContent (VObj kvs))"
    using assms(2) unfolding e by (simp add: pickContent_def list_all_iff)
  from sort_keys_total [OF ok this] obtain w where "sortKeysDeep (pickContent (VObj kvs)) = Inr w"
    unfolding sortKeysDeep_def by blast
  then have "canonicalize (pickContent (VObj kvs)) = Inr (Some (jtext w))"
    by (simp add: canonicalize_jtext [OF ok])
  then show ?thesis unfolding contentId_def by simp
qed

lemma signRecord_total: "json_ok (VObj kvs) \<Longrightarrow> depth_le MAX_DEPTH (VObj kvs) \<Longrightarrow> \<exists>r. signRecord C kp (VObj kvs) = Inr r"
  using contentId_total [of kvs C] by (auto simp: signRecord_def)

section \<open>One record\<close>

lemma js_String_str [simp]: "js_String (VStr s) = s"
  by simp

lemma pickContent_own_props: "pickContent (VObj (own_props v)) = pickContent v"
  by (simp add: pickContent_def)

lemma pickContent_set_field: "k \<in> set credential_fields \<Longrightarrow>
    pickContent (VObj (set_field k v kvs)) = pickContent (VObj kvs)"
  using filter_set_field [of "\<lambda>x. x \<notin> set credential_fields \<and> x \<noteq> proto_key" k v kvs]
  by (simp add: pickContent_def)

lemma contentId_0x: "contentId C v = Inr i \<Longrightarrow> toLowerCase i = i \<and> i \<noteq> []"
proof -
  have "toLowerCase (CHR ''0'' # CHR ''x'' # s) = CHR ''0'' # CHR ''x'' # toLowerCase s" for s
    by (simp add: toLowerCase_def lower_char_def)
  then show "contentId C v = Inr i \<Longrightarrow> toLowerCase i = i \<and> i \<noteq> []" by (auto simp: contentId_Inr)
qed

lemma to_base64_eq_Nil: "to_base64 bs = [] \<longleftrightarrow> bs = []"
  using to_base64_inj [of bs "[]"] by (simp add: to_base64_def b64_pad_def)

lemma signRecord_Inr: "signRecord C kp content = Inr r \<longleftrightarrow> (\<exists>i. contentId C content = Inr i \<and>
    r = VObj (set_field ''signerPub'' (VStr (pub kp))
           (set_field ''sig'' (VStr (signClaim C (priv kp) (VStr i)))
             (set_field ''claimId'' (VStr i) (own_props content)))))"
  by (auto simp: signRecord_def)

text \<open>Signing keeps the content fields and the content address.\<close>

lemma signRecord_field:
  assumes "signRecord C kp (VObj kvs) = Inr r"
  shows "k \<notin> set credential_fields \<Longrightarrow> field r k = field (VObj kvs) k"
    and "field r ''signerPub'' = VStr (pub kp)"
    and "contentId C r = contentId C (VObj kvs)"
    and "contentId C (VObj kvs) = Inr i \<Longrightarrow> field r ''claimId'' = VStr i \<and>
      field r ''sig'' = VStr (signClaim C (priv kp) (VStr i))"
proof -
  obtain i where i: "contentId C (VObj kvs) = Inr i" "r = VObj (set_field ''signerPub'' (VStr (pub kp))
           (set_field ''sig'' (VStr (signClaim C (priv kp) (VStr i))) (set_field ''claimId'' (VStr i) kvs)))"
    using assms by (auto simp: signRecord_Inr)
  show "k \<notin> set credential_fields \<Longrightarrow> field r k = field (VObj kvs) k"
    by (auto simp: i(2) credential_fields_def)
  show "field r ''signerPub'' = VStr (pub kp)" by (simp add: i(2))
  show "contentId C r = contentId C (VObj kvs)"
    unfolding i(2) contentId_def by (simp add: pickContent_set_field credential_fields_def)
  show "contentId C (VObj kvs) = Inr i \<Longrightarrow> field r ''claimId'' = VStr i \<and>
      field r ''sig'' = VStr (signClaim C (priv kp) (VStr i))" for i
    using i by auto
qed

lemma verifyRecord_signRecord:
  assumes "sig_correct C" and "keypair_ok C kp" and "signRecord C kp (VObj kvs) = Inr r"
  shows "verifyRecord C r = Inr (Accept (VStr (pub kp)))"
proof -
  note f = signRecord_field [OF assms(3)]
  obtain i where i: "contentId C (VObj kvs) = Inr i" using assms(3) by (auto simp: signRecord_Inr)
  note f4 = f(4) [OF i]
  have k: "pub kp = to_base64 (ed_pub C (priv kp))" using assms(2) by (simp add: keypair_ok_def)
  have "pub kp \<noteq> []" "signClaim C (priv kp) (VStr i) \<noteq> []"
    using sig_correctD [OF assms(1)] unfolding k signClaim_def to_base64_eq_Nil by simp_all
  moreover have "verifySig C (VStr (pub kp)) (VStr i) (VStr (signClaim C (priv kp) (VStr i)))"
    using sig_correctD [OF assms(1)]
    by (simp add: verifySig_def k signClaim_def buffer_from_base64_def)
  moreover have "is_object r" using assms(3) by (auto simp: signRecord_Inr)
  ultimately show ?thesis using f f4 i by (simp add: verifyRecord_def)
qed

lemma verifyRecord_Accept: "verifyRecord C r = Inr (Accept signer) \<longleftrightarrow>
    is_object r \<and> signer = field r ''signerPub'' \<and> truthy signer \<and> truthy (field r ''sig'') \<and>
    (\<exists>i. contentId C r = Inr i \<and> toLowerCase i = toLowerCase (js_String (field r ''claimId''))) \<and>
    verifySig C signer (field r ''claimId'') (field r ''sig'')"
  by (auto simp: verifyRecord_def)


section \<open>Custody chains\<close>

text \<open>What an accepted receipt at one hop means.\<close>

definition receipt_at :: "crypto \<Rightarrow> string \<Rightarrow> hop \<Rightarrow> jsval \<Rightarrow> bool" where
  "receipt_at C bundleId h r \<longleftrightarrow> verifyRecord C r = Inr (Accept (VStr (hop_pub h))) \<and>
     field r ''bundleId'' = VStr bundleId \<and> field r ''thisHop'' = VStr (eid h)"

fun linked :: "string option \<Rightarrow> (jsval \<times> hop) list \<Rightarrow> bool" where
  "linked p [] = True"
| "linked p ((r, h) # rest) = ((p = None \<or> field r ''prevHop'' = VStr (the p)) \<and> linked (Some (eid h)) rest)"

lemma chain_from_ok: "chain_from C b i p rhs = Inr (ChainOk n) \<longleftrightarrow>
    n = i + length rhs \<and> (\<forall>(r, h) \<in> set rhs. receipt_at C b h r) \<and> linked p rhs"
proof (induction rhs arbitrary: i p)
  case (Cons rh rhs)
  obtain r h where rh: "rh = (r, h)" by (cases rh)
  show ?case
  proof (cases "verifyRecord C r")
    case (Inr v)
    then show ?thesis by (cases v) (auto simp: rh Cons.IH receipt_at_def split: option.splits)
  qed (simp add: rh receipt_at_def)
qed auto

lemma linked_nth: "linked p rhs \<longleftrightarrow> (\<forall>i < length rhs. case (if i = 0 then p else Some (eid (snd (rhs ! (i - 1))))) of
    None \<Rightarrow> True | Some e \<Rightarrow> field (fst (rhs ! i)) ''prevHop'' = VStr e)"
proof (induction p rhs rule: linked.induct)
  case (2 p r h rest)
  have "(\<forall>i < length ((r, h) # rest). P i) \<longleftrightarrow> P 0 \<and> (\<forall>i < length rest. P (Suc i))" for P
    by (auto simp: less_Suc_eq_0_disj)
  then show ?case using 2
    by (auto simp: nth_Cons' split: option.splits)
qed simp

definition custody_spec :: "crypto \<Rightarrow> string \<Rightarrow> hop list \<Rightarrow> jsval list \<Rightarrow> bool" where
  "custody_spec C b hops rs \<longleftrightarrow> rs \<noteq> [] \<and> length rs = length hops \<and>
     (\<forall>i < length rs. receipt_at C b (hops ! i) (rs ! i)) \<and>
     (\<forall>i. Suc i < length rs \<longrightarrow> field (rs ! Suc i) ''prevHop'' = VStr (eid (hops ! i)))"

lemma verifyCustodyChain_iff:
  "verifyCustodyChain C rs b hops = Inr (ChainOk n) \<longleftrightarrow> n = length hops \<and> custody_spec C b hops rs"
proof (cases "rs \<noteq> [] \<and> length rs = length hops")
  case True
  then have len: "length rs = length hops" by simp
  have all: "(\<forall>(r, h) \<in> set (zip rs hops). receipt_at C b h r) \<longleftrightarrow>
      (\<forall>i < length rs. receipt_at C b (hops ! i) (rs ! i))"
    using len by (fastforce simp: set_zip)
  have "linked None (zip rs hops) \<longleftrightarrow>
      (\<forall>i. Suc i < length rs \<longrightarrow> field (rs ! Suc i) ''prevHop'' = VStr (eid (hops ! i)))"
    unfolding linked_nth using len
    by (auto split: if_splits) (metis Suc_pred diff_Suc_1 nat.distinct(1) not_gr_zero)+
  with True all show ?thesis by (auto simp: verifyCustodyChain_def chain_from_ok custody_spec_def)
qed (auto simp: verifyCustodyChain_def custody_spec_def)

text \<open>Where a chain is refused: the receipts before the named hop are all in order.\<close>

lemma chain_from_bad: "chain_from C b i p rhs = Inr (ChainBad reason h) \<Longrightarrow>
    \<exists>k < length rhs. h = Some (i + k) \<and> (\<forall>(r, h) \<in> set (take k rhs). receipt_at C b h r) \<and>
      linked p (take k rhs) \<and> \<not> ((\<forall>(r, h) \<in> set (take (Suc k) rhs). receipt_at C b h r) \<and> linked p (take (Suc k) rhs))"
proof (induction rhs arbitrary: i p)
  case (Cons rh rhs)
  obtain r hp where rh: "rh = (r, hp)" by (cases rh)
  show ?case
  proof (cases "receipt_at C b hp r \<and> (p = None \<or> field r ''prevHop'' = VStr (the p))")
    case True
    then have "chain_from C b (Suc i) (Some (eid hp)) rhs = Inr (ChainBad reason h)"
      using Cons.prems by (auto simp: rh receipt_at_def split: option.splits)
    from Cons.IH [OF this] obtain k where "k < length rhs" "h = Some (Suc i + k)"
      "\<forall>(r, h) \<in> set (take k rhs). receipt_at C b h r" "linked (Some (eid hp)) (take k rhs)"
      "\<not> ((\<forall>(r, h) \<in> set (take (Suc k) rhs). receipt_at C b h r) \<and> linked (Some (eid hp)) (take (Suc k) rhs))"
      by blast
    with True show ?thesis by (intro exI [of _ "Suc k"]) (auto simp: rh)
  next
    case False
    then have "h = Some i"
    proof -
      obtain v where v: "verifyRecord C r = Inr v" using Cons.prems by (cases "verifyRecord C r") (auto simp: rh)
      show "h = Some i"
        using Cons.prems False by (cases v) (auto simp: rh v receipt_at_def split: option.splits if_splits)
    qed
    with False show ?thesis by (intro exI [of _ 0]) (auto simp: rh)
  qed
qed simp

text \<open>
  A chain that the relays of the pinned route stamped themselves, each with its own key and
  with the previous relay as \<open>prevHop\<close>, is accepted.
\<close>

theorem honest_chain_accepted:
  assumes "sig_correct C" and "ks \<noteq> []" and "length rs = length ks" "length es = length ks"
    and "\<And>i. i < length ks \<Longrightarrow> keypair_ok C (ks ! i)"
    and "\<And>i. i < length ks \<Longrightarrow> \<exists>at fw. custodyReceipt C (ks ! i) (VStr pid) (VStr b)
      (if i = 0 then first else VStr (es ! (i - 1))) (es ! i) at fw = Inr (rs ! i)"
  shows "verifyCustodyChain C rs b (map2 (\<lambda>e k. \<lparr>eid = e, hop_pub = pub k\<rparr>) es ks) = Inr (ChainOk (length ks))"
proof -
  let ?hops = "map2 (\<lambda>e k. \<lparr>eid = e, hop_pub = pub k\<rparr>) es ks"
  have r: "verifyRecord C (rs ! i) = Inr (Accept (VStr (pub (ks ! i))))"
      "field (rs ! i) ''bundleId'' = VStr b" "field (rs ! i) ''thisHop'' = VStr (es ! i)"
      "field (rs ! i) ''prevHop'' = (if i = 0 then first else VStr (es ! (i - 1)))"
    if i: "i < length ks" for i
  proof -
    obtain at fw where sr: "signRecord C (ks ! i) (custody_content (VStr pid) (VStr b)
        (if i = 0 then first else VStr (es ! (i - 1))) (es ! i) at fw) = Inr (rs ! i)"
      using assms(6) [OF i] unfolding custodyReceipt_def by blast
    note sr = sr [unfolded custody_content_def]
    show "verifyRecord C (rs ! i) = Inr (Accept (VStr (pub (ks ! i))))"
      by (rule verifyRecord_signRecord [OF assms(1) assms(5) [OF i] sr])
    show "field (rs ! i) ''bundleId'' = VStr b" "field (rs ! i) ''thisHop'' = VStr (es ! i)"
      "field (rs ! i) ''prevHop'' = (if i = 0 then first else VStr (es ! (i - 1)))"
      using signRecord_field(1) [OF sr] by (simp_all add: credential_fields_def)
  qed
  have "custody_spec C b ?hops rs"
    using assms(2-4) r by (auto simp: custody_spec_def receipt_at_def)
  then show ?thesis using assms(4) by (simp add: verifyCustodyChain_iff)
qed

section \<open>The audit of a chain with gaps\<close>

definition audited :: "crypto \<Rightarrow> string \<Rightarrow> (string \<times> string) list \<Rightarrow> jsval \<Rightarrow> bool" where
  "audited C b keys r \<longleftrightarrow> (\<exists>p. verifyRecord C r = Inr (Accept (VStr p)) \<and>
     map_of keys (js_String (field r ''thisHop'')) = Some p \<and> p \<noteq> [] \<and> field r ''bundleId'' = VStr b)"

text \<open>The places where a receipt names another previous hop than the receipt before it.\<close>

fun link_gaps :: "jsval \<Rightarrow> jsval list \<Rightarrow> gap list" where
  "link_gaps p [] = []"
| "link_gaps p (r # rs) =
     (if p \<noteq> VNull \<and> \<not> strict_eq (field r ''prevHop'') p
      then [\<lparr>afterHop = p, beforeHop = field r ''thisHop'', lastUnsigned = field r ''prevHop''\<rparr>] else [])
     @ link_gaps (field r ''thisHop'') rs"

definition last_gap :: "jsval \<Rightarrow> jsval \<Rightarrow> gap list" where
  "last_gap p lastNode = (if lastNode \<noteq> VNull \<and> \<not> strict_eq lastNode p
     then [\<lparr>afterHop = p, beforeHop = VNull, lastUnsigned = lastNode\<rparr>] else [])"

lemma audit_from_ok: "audit_from C b keys i p gs rs = Inr (ChainOk (q, gs')) \<longleftrightarrow>
    (\<forall>r \<in> set rs. audited C b keys r) \<and> q = last (p # map (\<lambda>r. field r ''thisHop'') rs) \<and>
    gs' = gs @ link_gaps p rs"
proof (induction rs arbitrary: i p gs)
  case (Cons r rs)
  show ?case
  proof (cases "audited C b keys r")
    case True
    then obtain s where "verifyRecord C r = Inr (Accept (VStr s))" "s \<noteq> []"
      "map_of keys (js_String (field r ''thisHop'')) = Some s" "field r ''bundleId'' = VStr b"
      by (auto simp: audited_def)
    then show ?thesis using True by (auto simp: Cons.IH is_pinned_def signer_pinned_def)
  next
    case False
    then show ?thesis
      by (cases "verifyRecord C r")
        (auto simp: audited_def is_pinned_def signer_pinned_def split: verdict.splits option.splits)
  qed
qed auto

lemma auditCustodyChain_iff:
  "auditCustodyChain C rs b keys origin lastNode = Inr (ChainOk a) \<longleftrightarrow>
     rs \<noteq> [] \<and> (\<forall>r \<in> set rs. audited C b keys r) \<and>
     a = (let gs = link_gaps origin rs @ last_gap (field (last rs) ''thisHop'') lastNode
          in \<lparr>complete = (gs = []), custodied = length rs, gaps = gs\<rparr>)"
proof (cases "rs = []")
  case False
  show ?thesis
  proof (cases "\<forall>r \<in> set rs. audited C b keys r")
    case True
    then have "audit_from C b keys 0 origin [] rs =
        Inr (ChainOk (last (origin # map (\<lambda>r. field r ''thisHop'') rs), link_gaps origin rs))"
      by (simp add: audit_from_ok)
    with True False show ?thesis
      by (auto simp: auditCustodyChain_def last_gap_def Let_def last_map)
  next
    case b: False
    then have "audit_from C b keys 0 origin [] rs \<noteq> Inr (ChainOk x)" for x
      by (cases x) (simp add: audit_from_ok)
    with b False show ?thesis
      by (cases "audit_from C b keys 0 origin [] rs")
        (auto simp: auditCustodyChain_def split: chain_verdict.splits)
  qed
qed (simp add: auditCustodyChain_def)

text \<open>A chain accepted against the pinned route is complete for the audit with the same keys.\<close>

lemma link_gaps_Nil: "linked (Some e) rhs \<Longrightarrow> (\<forall>(r, h) \<in> set rhs. receipt_at C b h r) \<Longrightarrow>
    link_gaps (VStr e) (map fst rhs) = []"
proof (induction rhs arbitrary: e)
  case (Cons rh rhs)
  then show ?case by (cases rh) (auto simp: receipt_at_def)
qed simp

text \<open>
  The two checks agree: a chain accepted against the pinned route passes the audit under the
  same keys, complete and without gaps.
\<close>

theorem audit_of_pinned_chain:
  assumes "verifyCustodyChain C rs b hops = Inr (ChainOk n)"
    and "distinct (map eid hops)" and "\<forall>h \<in> set hops. hop_pub h \<noteq> []"
  shows "auditCustodyChain C rs b (map (\<lambda>h. (eid h, hop_pub h)) hops) VNull (VStr (eid (last hops))) =
    Inr (ChainOk \<lparr>complete = True, custodied = n, gaps = []\<rparr>)"
proof -
  let ?keys = "map (\<lambda>h. (eid h, hop_pub h)) hops"
  have spec: "custody_spec C b hops rs" and n: "n = length hops"
    using assms(1) by (simp_all add: verifyCustodyChain_iff)
  then have len: "length rs = length hops" "rs \<noteq> []" and at: "\<And>i. i < length rs \<Longrightarrow> receipt_at C b (hops ! i) (rs ! i)"
    by (simp_all add: custody_spec_def)
  have "audited C b ?keys (rs ! i)" if i: "i < length rs" for i
  proof -
    have "map_of ?keys (eid (hops ! i)) = Some (hop_pub (hops ! i))"
      using i len assms(2) by (intro map_of_is_SomeI) (auto simp: comp_def intro!: image_eqI)
    then show ?thesis
      using at [OF i] assms(3) i len by (auto simp: audited_def receipt_at_def)
  qed
  then have aud: "\<forall>r \<in> set rs. audited C b ?keys r" by (auto simp: in_set_conv_nth)
  obtain r rs' h hs where c: "rs = r # rs'" "hops = h # hs"
    using len by (cases rs; cases hops) auto
  have lk: "linked None (zip rs hops)" "\<forall>(r, h) \<in> set (zip rs hops). receipt_at C b h r"
    using assms(1) len unfolding verifyCustodyChain_def by (auto simp: chain_from_ok)
  then have "link_gaps (VStr (eid h)) (map fst (zip rs' hs)) = []"
    using link_gaps_Nil [of "eid h" "zip rs' hs" C b] by (simp add: c)
  then have g: "link_gaps VNull rs = []"
    using lk(2) len by (simp add: c receipt_at_def)
  have "hops \<noteq> []" using len by auto
  then have "last rs = rs ! (length rs - 1)" "last hops = hops ! (length rs - 1)"
    using len by (simp_all add: last_conv_nth)
  then have "field (last rs) ''thisHop'' = VStr (eid (last hops))"
    using at [of "length rs - 1"] len(2) by (auto simp: receipt_at_def)
  then show ?thesis
    using aud g len n by (simp add: auditCustodyChain_iff last_gap_def Let_def)
qed

section \<open>The binding of a delivery\<close>

text \<open>
  \<open>bindDelivery\<close> accepts only against the verifier's own payment: a settlement reference is
  required and must match up to letter case, the payee must match exactly and the amount as a
  number where the verifier gives them.
\<close>

theorem bindDelivery_iff:
  "bindDelivery rec expected = Accept () \<longleftrightarrow>
     is_object expected \<and> truthy (field expected ''settlementRef'') \<and>
     hexEq (field rec ''settlementRef'') (field expected ''settlementRef'') \<and>
     (field expected ''payTo'' = VUndef \<or>
        js_String (field rec ''payTo'') = js_String (field expected ''payTo'')) \<and>
     (field expected ''amountAtomic'' = VUndef \<or>
        (\<exists>n. js_Number (field rec ''amountAtomic'') = Some n \<and> js_Number (field expected ''amountAtomic'') = Some n))"
  by (auto simp: bindDelivery_def number_differs_def split: option.splits)

section \<open>Properties\<close>

text \<open>
  A record signed by \<open>signRecord\<close> passes \<open>verifyRecord\<close>, which recovers the signer's public key.
\<close>

theorem signed_record_verifies:
  assumes "sig_correct C" and "keypair_ok C kp" and "signRecord C kp (VObj kvs) = Inr r"
  shows "verifyRecord C r = Inr (Accept (VStr (pub kp)))"
  using assms by (rule verifyRecord_signRecord)

text \<open>
  \<open>verifyCustodyChain\<close> accepts exactly the chains with one receipt per pinned hop, in order, each
  signed by that hop's key over this bundle and naming the previous hop.
\<close>

theorem custody_chain_accepted_iff:
  "verifyCustodyChain C rs b hops = Inr (ChainOk n) \<longleftrightarrow> n = length hops \<and> custody_spec C b hops rs"
  by (rule verifyCustodyChain_iff)

text \<open>
  \<open>auditCustodyChain\<close> accepts exactly when every receipt present verifies, covers this bundle and
  is signed by the key pinned for the node it names; the gaps it reports are exactly the places
  where the route is not covered by receipts, and \<open>complete\<close> says there is none.
\<close>

theorem audit_accepted_iff:
  "auditCustodyChain C rs b keys origin lastNode = Inr (ChainOk a) \<longleftrightarrow>
     rs \<noteq> [] \<and> (\<forall>r \<in> set rs. audited C b keys r) \<and>
     a = (let gs = link_gaps origin rs @ last_gap (field (last rs) ''thisHop'') lastNode
          in \<lparr>complete = (gs = []), custodied = length rs, gaps = gs\<rparr>)"
  by (rule auditCustodyChain_iff)

section \<open>Witnesses\<close>

lemma custodyReceipt_total:
  "is_prim p \<and> (\<forall>n. p \<noteq> VBig n) \<Longrightarrow> is_prim a \<and> (\<forall>n. a \<noteq> VBig n) \<Longrightarrow> is_prim f \<and> (\<forall>n. f \<noteq> VBig n) \<Longrightarrow>
     \<exists>r. custodyReceipt C kp (VStr pid) (VStr b) p e a f = Inr r"
  unfolding custodyReceipt_def custody_content_def by (intro signRecord_flat) (simp add: flat_def)

lemma signed_record_verifies_witness:
  "\<exists>r. signRecord toy (toy_key ''k'') (VObj [(''kind'', VStr ''custody/1'')]) = Inr r \<and>
     verifyRecord toy r = Inr (Accept (VStr (pub (toy_key ''k''))))"
proof -
  have "flat [(''kind'', VStr ''custody/1'')]" by (simp add: flat_def)
  from signRecord_flat [OF this] obtain r where
    "signRecord toy (toy_key ''k'') (VObj [(''kind'', VStr ''custody/1'')]) = Inr r" by blast
  with signed_record_verifies [OF toy_sig_correct toy_key_ok this] show ?thesis by blast
qed

text \<open>A key that has signed one record verifies only its content address.\<close>

definition one_signer :: "bytes \<Rightarrow> crypto" where
  "one_signer m0 = toy\<lparr>ed_verify := (\<lambda>p m s. m = m0 \<and> s = p @ m)\<rparr>"

lemma one_signer_simps [simp]: "sha256 (one_signer m0) = sha256 toy" "ed_sign (one_signer m0) = ed_sign toy"
    "ed_verify (one_signer m0) p m s \<longleftrightarrow> m = m0 \<and> s = p @ m"
  by (simp_all add: one_signer_def)

lemma contentId_sha: "sha256 C = sha256 D \<Longrightarrow> contentId C v = contentId D v"
  unfolding contentId_def sha256hex_def by (erule subst) (rule refl)


lemma honest_chain_accepted_witness:
  "\<exists>r s. custodyReceipt toy (toy_key ''a'') (VStr ''p'') (VStr ''b'') (VStr ''src'') ''x'' (VNum 1) (VNum 2) = Inr r \<and>
     custodyReceipt toy (toy_key ''c'') (VStr ''p'') (VStr ''b'') (VStr ''x'') ''y'' (VNum 3) (VNum 4) = Inr s \<and>
     verifyCustodyChain toy [r, s] ''b''
       [\<lparr>eid = ''x'', hop_pub = pub (toy_key ''a'')\<rparr>, \<lparr>eid = ''y'', hop_pub = pub (toy_key ''c'')\<rparr>] = Inr (ChainOk 2)"
proof -
  obtain r where r: "custodyReceipt toy (toy_key ''a'') (VStr ''p'') (VStr ''b'') (VStr ''src'') ''x'' (VNum 1) (VNum 2) = Inr r"
    using custodyReceipt_total by fastforce
  obtain s where s: "custodyReceipt toy (toy_key ''c'') (VStr ''p'') (VStr ''b'') (VStr ''x'') ''y'' (VNum 3) (VNum 4) = Inr s"
    using custodyReceipt_total by fastforce
  have "verifyCustodyChain toy [r, s] ''b''
      (map2 (\<lambda>e k. \<lparr>eid = e, hop_pub = pub k\<rparr>) [''x'', ''y''] [toy_key ''a'', toy_key ''c'']) =
      Inr (ChainOk (length [toy_key ''a'', toy_key ''c'']))"
  proof (rule honest_chain_accepted [where pid = "''p''" and first = "VStr ''src''"])
    fix i assume "i < length [toy_key ''a'', toy_key ''c'']"
    then have "i = 0 \<or> i = 1" by auto
    then show "keypair_ok toy ([toy_key ''a'', toy_key ''c''] ! i)"
      "\<exists>at fw. custodyReceipt toy ([toy_key ''a'', toy_key ''c''] ! i) (VStr ''p'') (VStr ''b'')
        (if i = 0 then VStr ''src'' else VStr ([''x'', ''y''] ! (i - 1))) ([''x'', ''y''] ! i) at fw = Inr ([r, s] ! i)"
      using r s by (elim disjE; simp; blast)+
  qed simp_all
  with r s show ?thesis by simp
qed

lemma audit_of_pinned_chain_witness:
  "\<exists>r. custodyReceipt toy (toy_key ''a'') (VStr ''p'') (VStr ''b'') VNull ''x'' (VNum 1) (VNum 2) = Inr r \<and>
     auditCustodyChain toy [r] ''b'' [(''x'', pub (toy_key ''a''))] VNull (VStr ''x'') =
       Inr (ChainOk \<lparr>complete = True, custodied = 1, gaps = []\<rparr>)"
proof -
  obtain r where r: "custodyReceipt toy (toy_key ''a'') (VStr ''p'') (VStr ''b'') VNull ''x'' (VNum 1) (VNum 2) = Inr r"
    using custodyReceipt_total by fastforce
  note sr = r [unfolded custodyReceipt_def custody_content_def]
  have "custody_spec toy ''b'' [\<lparr>eid = ''x'', hop_pub = pub (toy_key ''a'')\<rparr>] [r]"
    using verifyRecord_signRecord [OF toy_sig_correct toy_key_ok sr] signRecord_field(1) [OF sr]
    by (simp add: custody_spec_def receipt_at_def credential_fields_def)
  then have ok: "verifyCustodyChain toy [r] ''b'' [\<lparr>eid = ''x'', hop_pub = pub (toy_key ''a'')\<rparr>] = Inr (ChainOk 1)"
    by (simp add: verifyCustodyChain_iff)
  have "pub (toy_key ''a'') \<noteq> []" by (simp add: toy_key_def to_base64_eq_Nil)
  with audit_of_pinned_chain [OF ok] r show ?thesis by simp
qed

lemma audit_accepted_iff_witness:
  "auditCustodyChain toy [] ''b'' [] VNull VNull \<noteq> Inr (ChainOk \<lparr>complete = True, custodied = 0, gaps = []\<rparr>) \<and>
   (\<exists>r. custodyReceipt toy (toy_key ''a'') (VStr ''p'') (VStr ''b'') (VStr ''u'') ''x'' (VNum 1) (VNum 2) = Inr r \<and>
     auditCustodyChain toy [r] ''b'' [(''x'', pub (toy_key ''a''))] (VStr ''src'') (VStr ''x'') =
       Inr (ChainOk \<lparr>complete = False, custodied = 1,
         gaps = [\<lparr>afterHop = VStr ''src'', beforeHop = VStr ''x'', lastUnsigned = VStr ''u''\<rparr>]\<rparr>))"
proof
  show "auditCustodyChain toy [] ''b'' [] VNull VNull \<noteq> Inr (ChainOk \<lparr>complete = True, custodied = 0, gaps = []\<rparr>)"
    by (simp add: audit_accepted_iff)
  obtain r where r: "custodyReceipt toy (toy_key ''a'') (VStr ''p'') (VStr ''b'') (VStr ''u'') ''x'' (VNum 1) (VNum 2) = Inr r"
    using custodyReceipt_total by fastforce
  note sr = r [unfolded custodyReceipt_def custody_content_def]
  have "pub (toy_key ''a'') \<noteq> []" by (simp add: toy_key_def to_base64_eq_Nil)
  then have "audited toy ''b'' [(''x'', pub (toy_key ''a''))] r"
    using verifyRecord_signRecord [OF toy_sig_correct toy_key_ok sr] signRecord_field(1) [OF sr]
    by (simp add: audited_def credential_fields_def)
  then have "auditCustodyChain toy [r] ''b'' [(''x'', pub (toy_key ''a''))] (VStr ''src'') (VStr ''x'') =
       Inr (ChainOk \<lparr>complete = False, custodied = 1,
         gaps = [\<lparr>afterHop = VStr ''src'', beforeHop = VStr ''x'', lastUnsigned = VStr ''u''\<rparr>]\<rparr>)"
    unfolding audit_accepted_iff using signRecord_field(1) [OF sr]
    by (simp add: last_gap_def credential_fields_def)
  with r show "\<exists>r. custodyReceipt toy (toy_key ''a'') (VStr ''p'') (VStr ''b'') (VStr ''u'') ''x'' (VNum 1) (VNum 2) = Inr r \<and>
     auditCustodyChain toy [r] ''b'' [(''x'', pub (toy_key ''a''))] (VStr ''src'') (VStr ''x'') =
       Inr (ChainOk \<lparr>complete = False, custodied = 1,
         gaps = [\<lparr>afterHop = VStr ''src'', beforeHop = VStr ''x'', lastUnsigned = VStr ''u''\<rparr>]\<rparr>)" by blast
qed

end
