(* ===== verification/Inclusion.thy ===== *)
theory Inclusion
  imports Prelude
begin

text \<open>
  The interface of an inclusion-proof scheme, as its clients use it: commit to a list of byte
  strings, prove that one of them stands at an index, check such a proof against the root alone.
  The providers are the Merkle tree of agent/lib/merkle.mjs and the streaming builder of
  agent/lib/stream-merkle.mjs; the clients are the custody batches (agent/lib/batch.mjs) and the
  destination's chunk store (agent/dest.mjs). \<open>broken\<close> is the event the provider does not rule out,
  a hash collision.
\<close>

locale inclusion =
  fixes build :: "bytes list \<Rightarrow> 't option"
    and root_of :: "'t \<Rightarrow> string"
    and prove :: "'t \<Rightarrow> nat \<Rightarrow> string list option"
    and accept :: "bytes \<Rightarrow> string list \<Rightarrow> int \<Rightarrow> string \<Rightarrow> bool"
    and broken :: "bytes list \<Rightarrow> bytes \<Rightarrow> int \<Rightarrow> string list \<Rightarrow> bool"
  assumes complete: "\<And>cs t i. build cs = Some t \<Longrightarrow> i < length cs \<Longrightarrow>
      \<exists>br. prove t i = Some br \<and> accept (cs ! i) br (int i) (root_of t)"
    and sound: "\<And>cs t b br i. build cs = Some t \<Longrightarrow> accept b br i (root_of t) \<Longrightarrow>
      0 \<le> i \<Longrightarrow> i < int (length cs) \<Longrightarrow> b = cs ! nat i \<or> broken cs b i br"
begin

text \<open>A set of items committed through an injective encoding: an accepted item is a member.\<close>

lemma member_sound:
  assumes "build (map enc xs) = Some t" and "accept b br i (root_of t)" "0 \<le> i" "i < int (length xs)"
    and "\<And>x. x \<in> set xs \<Longrightarrow> enc x = b \<Longrightarrow> P x"
  shows "P (xs ! nat i) \<or> broken (map enc xs) b i br"
proof -
  have n: "nat i < length xs" using assms(3,4) by linarith
  from sound [OF assms(1,2,3)] assms(4) have "b = enc (xs ! nat i) \<or> broken (map enc xs) b i br"
    using n by simp
  with n assms(5) show ?thesis using nth_mem by metis
qed

lemma member_complete:
  assumes "build (map enc xs) = Some t" and "i < length xs"
  shows "\<exists>br. prove t i = Some br \<and> accept (enc (xs ! i)) br (int i) (root_of t)"
  using complete [OF assms(1), of i] assms(2) by simp

text \<open>
  A store of accepted pieces. Each entry was accepted at its own index; when the indexes are all in
  range and there are as many entries as pieces, the store holds every piece at its place.
\<close>

definition stored_ok :: "bytes list \<Rightarrow> (int \<rightharpoonup> bytes) \<Rightarrow> bool" where
  "stored_ok cs m \<longleftrightarrow> (\<forall>i b. m i = Some b \<longrightarrow> 0 \<le> i \<and> i < int (length cs) \<and> b = cs ! nat i)"

lemma stored_okD: "stored_ok cs m \<Longrightarrow> m i = Some b \<Longrightarrow> 0 \<le> i \<and> i < int (length cs) \<and> b = cs ! nat i"
  by (auto simp: stored_ok_def)

lemma stored_ok_empty [simp]: "stored_ok cs Map.empty"
  by (simp add: stored_ok_def)

lemma stored_ok_insert:
  assumes "stored_ok cs m" "build cs = Some t" "accept b br i (root_of t)" "0 \<le> i" "i < int (length cs)"
    and "\<not> broken cs b i br"
  shows "stored_ok cs (m(i \<mapsto> b))"
  using sound [OF assms(2-5)] assms(1,4,5,6) by (auto simp: stored_ok_def)

lemma stored_complete:
  assumes "stored_ok cs m" and "card (dom m) = length cs" and "finite (dom m)"
  shows "map (\<lambda>i. m (int i)) [0..<length cs] = map Some cs"
proof -
  have sub: "dom m \<subseteq> int ` {0..<length cs}"
  proof
    fix i assume "i \<in> dom m"
    then have "0 \<le> i" "i < int (length cs)" using assms(1) by (auto simp: stored_ok_def)
    then show "i \<in> int ` {0..<length cs}" by (intro image_eqI [of _ _ "nat i"]) auto
  qed
  have "card (int ` {0..<length cs}) = length cs" by (simp add: card_image)
  then have all: "dom m = int ` {0..<length cs}" using card_subset_eq [OF _ sub] assms(2) by simp
  have "m (int i) = Some (cs ! i)" if "i < length cs" for i
  proof -
    have "int i \<in> dom m" using that unfolding all by simp
    then obtain b where "m (int i) = Some b" by auto
    then show ?thesis using stored_okD [OF assms(1)] by fastforce
  qed
  then show ?thesis by (intro nth_equalityI) simp_all
qed

end

end
