(* ===== verification/Merkle.thy ===== *)
theory Merkle
  imports Crypto Inclusion
begin

text \<open>
  agent/lib/merkle.mjs: the binary Merkle tree over payload chunks and bundle ids. Hashes are
  lowercase hex strings, as in the code. The theory proves that every branch the code produces
  verifies, that an accepted leaf is the leaf at the claimed index (or two inputs collide), and
  how far the claimed index is bound by the branch.
\<close>

section \<open>The code\<close>

definition leafHash :: "crypto \<Rightarrow> bytes \<Rightarrow> string" where
  "leafHash C bs = to_hex (sha256 C (0 # bs))"

definition nodeHash :: "crypto \<Rightarrow> string \<Rightarrow> string \<Rightarrow> string" where
  "nodeHash C l r = to_hex (sha256 C (1 # from_hex l @ from_hex r))"

text \<open>The inner loop of \<open>buildTree\<close>: an odd last node is paired with itself.\<close>

fun pair_layer :: "crypto \<Rightarrow> string list \<Rightarrow> string list" where
  "pair_layer C (x # y # zs) = nodeHash C x y # pair_layer C zs"
| "pair_layer C [x] = [nodeHash C x x]"
| "pair_layer C [] = []"

lemma length_pair_layer [simp]: "length (pair_layer C xs) = (length xs + 1) div 2"
  by (induction C xs rule: pair_layer.induct) auto

text \<open>The outer loop: layers are added until one has a single node.\<close>

function tree_layers :: "crypto \<Rightarrow> string list \<Rightarrow> string list list" where
  "tree_layers C xs = (if length xs > 1 then xs # tree_layers C (pair_layer C xs) else [xs])"
  by pat_completeness auto
termination
  by (relation "measure (\<lambda>(C, xs). length xs)") auto

declare tree_layers.simps [simp del]

record merkle_tree =
  root :: string
  layers :: "string list list"

definition buildTree :: "crypto \<Rightarrow> string list \<Rightarrow> merkle_tree res" where
  "buildTree C leafHexes =
     (if leafHexes = [] then Inl ''buildTree: need at least one leaf''
      else (let ls = tree_layers C leafHexes in Inr \<lparr>root = hd (last ls), layers = ls\<rparr>))"

text \<open>
  \<open>proof(tree, index)\<close>: the sibling at each level below the root. \<open>None\<close> where the JavaScript
  would push \<open>undefined\<close>, that is for an index outside the tree.
\<close>

definition sibling :: "string list \<Rightarrow> nat \<Rightarrow> string option" where
  "sibling layer idx =
     (let s = (if idx mod 2 = 1 then idx - 1 else idx + 1)
      in if s < length layer then Some (layer ! s)
         else if idx < length layer then Some (layer ! idx) else None)"

fun branch_from :: "string list list \<Rightarrow> nat \<Rightarrow> string list option" where
  "branch_from (l # l' # ls) idx =
     (case (sibling l idx, branch_from (l' # ls) (idx div 2)) of
        (Some s, Some b) \<Rightarrow> Some (s # b) | _ \<Rightarrow> None)"
| "branch_from _ idx = Some []"

definition merkle_proof :: "merkle_tree \<Rightarrow> nat \<Rightarrow> string list option" where
  "merkle_proof t idx = branch_from (layers t) idx"

text \<open>\<open>idx % 2 === 1\<close> on a JavaScript number: the remainder takes the sign of the dividend.\<close>

definition goes_right :: "int \<Rightarrow> bool" where
  "goes_right idx \<longleftrightarrow> 0 \<le> idx \<and> odd idx"

fun fold_branch :: "crypto \<Rightarrow> string \<Rightarrow> int \<Rightarrow> string list \<Rightarrow> string" where
  "fold_branch C acc idx [] = acc"
| "fold_branch C acc idx (s # br) =
     fold_branch C (if goes_right idx then nodeHash C s acc else nodeHash C acc s) (idx div 2) br"

definition verifyProof :: "crypto \<Rightarrow> string \<Rightarrow> string list \<Rightarrow> int \<Rightarrow> string \<Rightarrow> bool" where
  "verifyProof C leafHex branch index rt \<longleftrightarrow> fold_branch C leafHex index branch = rt"

section \<open>Shape of the layers\<close>

lemma tree_layers_nonempty [simp]: "tree_layers C xs \<noteq> []"
  by (subst tree_layers.simps) auto

lemma tree_layers_hd [simp]: "hd (tree_layers C xs) = xs"
  by (subst tree_layers.simps) auto

lemma tree_layers_rec: "length xs > 1 \<Longrightarrow> tree_layers C xs = xs # tree_layers C (pair_layer C xs)"
  by (subst tree_layers.simps) auto

lemma tree_layers_stop: "length xs \<le> 1 \<Longrightarrow> tree_layers C xs = [xs]"
  by (subst tree_layers.simps) auto

lemma pair_layer_nth:
  "j < (length xs + 1) div 2 \<Longrightarrow> pair_layer C xs ! j =
     nodeHash C (xs ! (2 * j)) (if 2 * j + 1 < length xs then xs ! (2 * j + 1) else xs ! (2 * j))"
proof (induction C xs arbitrary: j rule: pair_layer.induct)
  case (1 C x y zs)
  then show ?case by (cases j) auto
qed auto

lemma pair_layer_nonempty [simp]: "pair_layer C xs = [] \<longleftrightarrow> xs = []"
  by (cases "(C, xs)" rule: pair_layer.cases) auto

lemma last_layer_single: "xs \<noteq> [] \<Longrightarrow> length (last (tree_layers C xs)) = 1"
proof (induction C xs rule: tree_layers.induct)
  case (1 C xs)
  show ?case
  proof (cases "length xs > 1")
    case True
    with 1 show ?thesis by (simp add: tree_layers_rec)
  next
    case False
    with 1 show ?thesis by (cases xs) (auto simp: tree_layers_stop)
  qed
qed

lemma layers_Suc:
  "Suc k < length (tree_layers C xs) \<Longrightarrow>
   tree_layers C xs ! Suc k = pair_layer C (tree_layers C xs ! k) \<and> length (tree_layers C xs ! k) > 1"
proof (induction C xs arbitrary: k rule: tree_layers.induct)
  case (1 C xs)
  show ?case
  proof (cases "length xs > 1")
    case True
    have hd0: "tree_layers C (pair_layer C xs) ! 0 = pair_layer C xs"
      by (metis hd_conv_nth tree_layers_hd tree_layers_nonempty)
    show ?thesis
    proof (cases k)
      case 0
      with True hd0 show ?thesis by (simp add: tree_layers_rec)
    next
      case (Suc k')
      with 1 True show ?thesis by (simp add: tree_layers_rec)
    qed
  next
    case False
    with "1.prems" show ?thesis by (simp add: tree_layers_stop)
  qed
qed

lemma layers_0 [simp]: "tree_layers C xs ! 0 = xs"
  by (metis hd_conv_nth tree_layers_hd tree_layers_nonempty)

lemma layers_length: "k < length (tree_layers C xs) \<Longrightarrow>
    length (tree_layers C xs ! k) = (length xs + 2 ^ k - 1) div 2 ^ k"
proof (induction k)
  case (Suc k)
  have "length (tree_layers C xs ! Suc k) = (length (tree_layers C xs ! k) + 1) div 2"
    using Suc.prems by (simp add: layers_Suc)
  also have "\<dots> = ((length xs + 2 ^ k - 1) div 2 ^ k + 1) div 2"
    using Suc by simp
  also have "\<dots> = ((length xs + 2 ^ k - 1 + 2 ^ k) div 2 ^ k) div 2"
    using div_add_self2 [of "2 ^ k :: nat" "length xs + 2 ^ k - 1"] by simp
  also have "\<dots> = (length xs + 2 ^ k - 1 + 2 ^ k) div 2 ^ Suc k"
    by (simp only: div_mult2_eq [symmetric] power_Suc2)
  also have "length xs + 2 ^ k - 1 + 2 ^ k = length xs + 2 ^ Suc k - 1"
    using one_le_power [of "2 :: nat" k] by simp
  finally show ?case .
qed simp

lemma index_in_layer:
  assumes "i < length xs" and "k < length (tree_layers C xs)"
  shows "i div 2 ^ k < length (tree_layers C xs ! k)"
proof -
  have "i div 2 ^ k < (length xs + 2 ^ k - 1) div 2 ^ k"
  proof -
    have "(i + 2 ^ k) div 2 ^ k \<le> (length xs + 2 ^ k - 1) div 2 ^ k"
      using assms(1) by (intro div_le_mono) simp
    then show ?thesis using div_add_self2 [of "2 ^ k :: nat" i] by simp
  qed
  with assms(2) show ?thesis by (simp add: layers_length)
qed

lemma root_layer:
  assumes "xs \<noteq> []"
  shows "hd (last (tree_layers C xs)) = tree_layers C xs ! (length (tree_layers C xs) - 1) ! 0"
    and "length (tree_layers C xs ! (length (tree_layers C xs) - 1)) = 1"
proof -
  have l: "last (tree_layers C xs) = tree_layers C xs ! (length (tree_layers C xs) - 1)"
    by (simp add: last_conv_nth)
  show len: "length (tree_layers C xs ! (length (tree_layers C xs) - 1)) = 1"
    using last_layer_single [OF assms] l by metis
  then show "hd (last (tree_layers C xs)) = tree_layers C xs ! (length (tree_layers C xs) - 1) ! 0"
    unfolding l by (metis hd_conv_nth length_0_conv zero_neq_one)
qed

section \<open>Every proof the code produces verifies\<close>

lemma goes_right_of_nat [simp]: "goes_right (int i) \<longleftrightarrow> odd i"
  by (simp add: goes_right_def)

lemma sibling_step:
  assumes "i < length xs"
  obtains s where "sibling xs i = Some s"
    and "(if odd i then nodeHash C s (xs ! i) else nodeHash C (xs ! i) s) = pair_layer C xs ! (i div 2)"
proof -
  have j: "i div 2 < (length xs + 1) div 2" using assms by auto
  show ?thesis
  proof (cases "odd i")
    case True
    then obtain m where "i = 2 * m + 1" by (auto elim: oddE)
    with assms j show ?thesis
      by (intro that [of "xs ! (2 * m)"]) (simp_all add: sibling_def pair_layer_nth)
  next
    case False
    then obtain m where "i = 2 * m" by (auto elim: evenE)
    with assms j show ?thesis
      by (intro that [of "if 2 * m + 1 < length xs then xs ! (2 * m + 1) else xs ! (2 * m)"])
        (simp_all add: sibling_def pair_layer_nth)
  qed
qed

lemma branch_folds_to_root:
  "i < length xs \<Longrightarrow> \<exists>br. branch_from (tree_layers C xs) i = Some br \<and>
     length br = length (tree_layers C xs) - 1 \<and>
     fold_branch C (xs ! i) (int i) br = hd (last (tree_layers C xs))"
proof (induction C xs arbitrary: i rule: tree_layers.induct)
  case (1 C xs)
  show ?case
  proof (cases "length xs > 1")
    case True
    obtain ls where ls: "tree_layers C (pair_layer C xs) = pair_layer C xs # ls"
      by (metis list.exhaust_sel tree_layers_hd tree_layers_nonempty)
    have "i div 2 < length (pair_layer C xs)" using "1.prems" by auto
    then obtain br where br: "branch_from (tree_layers C (pair_layer C xs)) (i div 2) = Some br"
      "length br = length (tree_layers C (pair_layer C xs)) - 1"
      "fold_branch C (pair_layer C xs ! (i div 2)) (int (i div 2)) br =
         hd (last (tree_layers C (pair_layer C xs)))"
      using "1.IH" [OF True] by blast
    obtain s where s: "sibling xs i = Some s"
      "(if odd i then nodeHash C s (xs ! i) else nodeHash C (xs ! i) s) = pair_layer C xs ! (i div 2)"
      using sibling_step [OF "1.prems"] by blast
    have "branch_from (tree_layers C xs) i = Some (s # br)"
      using br(1) s(1) ls True by (simp add: tree_layers_rec)
    moreover have "fold_branch C (xs ! i) (int i) (s # br) = hd (last (tree_layers C xs))"
      using br(3) s(2) True by (simp add: tree_layers_rec zdiv_int)
    moreover have "length (s # br) = length (tree_layers C xs) - 1"
      using br(2) True by (simp add: tree_layers_rec ls)
    ultimately show ?thesis by blast
  next
    case False
    with "1.prems" show ?thesis by (cases xs) (auto simp: tree_layers_stop)
  qed
qed

lemma buildTree_Inr: "buildTree C xs = Inr t \<longleftrightarrow>
    xs \<noteq> [] \<and> t = \<lparr>root = hd (last (tree_layers C xs)), layers = tree_layers C xs\<rparr>"
  by (auto simp: buildTree_def Let_def)

lemma merkle_complete:
  assumes "buildTree C leaves = Inr t" and "i < length leaves"
  obtains br where "merkle_proof t i = Some br" and "length br = length (layers t) - 1"
    and "verifyProof C (leaves ! i) br (int i) (root t)"
  using branch_folds_to_root [OF assms(2), of C] assms(1)
  by (auto simp: buildTree_Inr merkle_proof_def verifyProof_def)

section \<open>An accepted leaf is the leaf at the claimed index\<close>

text \<open>
  The inputs hashed to build a tree and the inputs hashed to check a branch. Soundness says: an
  accepted branch either belongs to the chunk at that index, or these two explicit sets hold two
  different inputs with the same digest.
\<close>

definition node_input :: "string \<Rightarrow> string \<Rightarrow> bytes" where
  "node_input l r = 1 # from_hex l @ from_hex r"

definition leaf_inputs :: "bytes list \<Rightarrow> bytes set" where
  "leaf_inputs chunks = (\<lambda>b. 0 # b) ` set chunks"

definition layer_inputs :: "string list \<Rightarrow> bytes set" where
  "layer_inputs xs = {node_input (xs ! (2 * j)) (if 2 * j + 1 < length xs then xs ! (2 * j + 1)
     else xs ! (2 * j)) | j. 2 * j < length xs}"

definition tree_inputs :: "crypto \<Rightarrow> bytes list \<Rightarrow> bytes set" where
  "tree_inputs C chunks = leaf_inputs chunks \<union>
     (\<Union>l\<in>set (butlast (tree_layers C (map (leafHash C) chunks))). layer_inputs l)"

fun branch_inputs :: "crypto \<Rightarrow> string \<Rightarrow> int \<Rightarrow> string list \<Rightarrow> bytes list" where
  "branch_inputs C acc idx [] = []"
| "branch_inputs C acc idx (s # br) =
     (if goes_right idx then node_input s acc else node_input acc s)
     # branch_inputs C (if goes_right idx then nodeHash C s acc else nodeHash C acc s) (idx div 2) br"

definition check_inputs :: "crypto \<Rightarrow> bytes \<Rightarrow> int \<Rightarrow> string list \<Rightarrow> bytes set" where
  "check_inputs C b idx br = insert (0 # b) (set (branch_inputs C (leafHash C b) idx br))"

lemma nodeHash_input: "nodeHash C l r = to_hex (sha256 C (node_input l r))"
  by (simp add: nodeHash_def node_input_def)

lemma fold_branch_snoc: "fold_branch C acc idx (br @ [s]) =
    (let a = fold_branch C acc idx br in
     if goes_right (idx div 2 ^ length br) then nodeHash C s a else nodeHash C a s)"
  by (induction br arbitrary: acc idx) (auto simp: Let_def zdiv_zmult2_eq mult.commute)

lemma branch_inputs_snoc: "branch_inputs C acc idx (br @ [s]) = branch_inputs C acc idx br @
    [let a = fold_branch C acc idx br in
     if goes_right (idx div 2 ^ length br) then node_input s a else node_input a s]"
  by (induction br arbitrary: acc idx) (auto simp: Let_def zdiv_zmult2_eq mult.commute)

lemma fold_snoc_input: "fold_branch C acc idx (br @ [s]) = to_hex (sha256 C
    (if goes_right (idx div 2 ^ length br) then node_input s (fold_branch C acc idx br)
     else node_input (fold_branch C acc idx br) s))"
  by (simp add: fold_branch_snoc Let_def nodeHash_input)

definition is_hash :: "crypto \<Rightarrow> string \<Rightarrow> bool" where
  "is_hash C s \<longleftrightarrow> (\<exists>m. s = to_hex (sha256 C m))"

lemma is_hash_node [simp]: "is_hash C (nodeHash C l r)"
  by (auto simp: is_hash_def nodeHash_input)

lemma is_hash_leaf [simp]: "is_hash C (leafHash C b)"
  by (auto simp: is_hash_def leafHash_def)

lemma is_hash_fold: "is_hash C acc \<Longrightarrow> is_hash C (fold_branch C acc idx br)"
  by (induction br arbitrary: acc idx) auto

lemma is_hash_length: "is_hash C s \<Longrightarrow> hash32 C \<Longrightarrow> length (from_hex s) = 32"
  by (auto simp: is_hash_def len_simps)

lemma is_hash_eq: "is_hash C s \<Longrightarrow> is_hash C t \<Longrightarrow> from_hex s = from_hex t \<Longrightarrow> s = t"
  by (auto simp: is_hash_def)

lemma is_hash_layers:
  assumes "k < length (tree_layers C (map (leafHash C) chunks))"
    and "x \<in> set (tree_layers C (map (leafHash C) chunks) ! k)"
  shows "is_hash C x"
proof (cases k)
  case 0
  with assms show ?thesis by auto
next
  case (Suc k')
  with assms(1) have "tree_layers C (map (leafHash C) chunks) ! k =
      pair_layer C (tree_layers C (map (leafHash C) chunks) ! k')"
    by (simp add: layers_Suc)
  with assms(2) obtain j where "j < length (pair_layer C (tree_layers C (map (leafHash C) chunks) ! k'))"
    and "x = pair_layer C (tree_layers C (map (leafHash C) chunks) ! k') ! j"
    by (auto simp: in_set_conv_nth)
  then show ?thesis by (simp add: pair_layer_nth)
qed

lemma layer_input_in_tree:
  assumes "Suc k < length (tree_layers C (map (leafHash C) chunks))"
    and "j < length (tree_layers C (map (leafHash C) chunks) ! Suc k)"
  defines "l \<equiv> tree_layers C (map (leafHash C) chunks) ! k"
  defines "r \<equiv> (if 2 * j + 1 < length l then l ! (2 * j + 1) else l ! (2 * j))"
  shows "node_input (l ! (2 * j)) r \<in> tree_inputs C chunks"
    and "tree_layers C (map (leafHash C) chunks) ! Suc k ! j = nodeHash C (l ! (2 * j)) r"
    and "l ! (2 * j) \<in> set l" and "r \<in> set l" and "2 * j < length l"
proof -
  have S: "tree_layers C (map (leafHash C) chunks) ! Suc k = pair_layer C l"
    using layers_Suc [OF assms(1)] by (simp add: l_def)
  then have j: "j < (length l + 1) div 2" using assms(2) by simp
  then show "2 * j < length l" by linarith
  then show "l ! (2 * j) \<in> set l" and "r \<in> set l" by (simp_all add: r_def)
  show "tree_layers C (map (leafHash C) chunks) ! Suc k ! j = nodeHash C (l ! (2 * j)) r"
    using j by (simp add: S pair_layer_nth r_def)
  have "l \<in> set (butlast (tree_layers C (map (leafHash C) chunks)))"
    unfolding in_set_conv_nth l_def using assms(1) by (intro exI [of _ k]) (simp add: nth_butlast)
  moreover have "node_input (l ! (2 * j)) r \<in> layer_inputs l"
    using \<open>2 * j < length l\<close> by (auto simp: layer_inputs_def r_def)
  ultimately show "node_input (l ! (2 * j)) r \<in> tree_inputs C chunks"
    unfolding tree_inputs_def by blast
qed

text \<open>One step down: an accepted fold over one more sibling reaches a node of the layer below.\<close>

lemma fold_step_down:
  assumes "hash32 C" and nocol: "\<not> collision C (tree_inputs C chunks) (check_inputs C b idx (br @ [s]))"
    and k: "Suc k < length (tree_layers C (map (leafHash C) chunks))"
    and j: "j < length (tree_layers C (map (leafHash C) chunks) ! Suc k)"
    and fold: "fold_branch C (leafHash C b) idx (br @ [s]) = tree_layers C (map (leafHash C) chunks) ! Suc k ! j"
  defines "l \<equiv> tree_layers C (map (leafHash C) chunks) ! k"
  shows "fold_branch C (leafHash C b) idx br =
     l ! (if goes_right (idx div 2 ^ length br) \<and> 2 * j + 1 < length l then 2 * j + 1 else 2 * j)"
proof -
  let ?a = "fold_branch C (leafHash C b) idx br"
  let ?R = "goes_right (idx div 2 ^ length br)"
  let ?x = "l ! (2 * j)" let ?y = "if 2 * j + 1 < length l then l ! (2 * j + 1) else l ! (2 * j)"
  let ?in = "if ?R then node_input s ?a else node_input ?a s"
  note T = layer_input_in_tree [OF k j, folded l_def]
  have checked: "?in \<in> check_inputs C b idx (br @ [s])"
    by (simp add: check_inputs_def branch_inputs_snoc Let_def)
  have "sha256 C (node_input ?x ?y) = sha256 C ?in"
    using fold unfolding T(2) fold_snoc_input nodeHash_input to_hex_inj by (rule sym)
  from no_collisionD [OF nocol T(1) checked this]
  have same: "?in = node_input ?x ?y" by (rule sym)
  have k': "k < length (tree_layers C (map (leafHash C) chunks))" using k by simp
  have hash: "is_hash C ?a" "is_hash C ?x" "is_hash C ?y"
    using is_hash_fold [of C "leafHash C b"] is_hash_layers [OF k', folded l_def, OF T(3)]
      is_hash_layers [OF k', folded l_def, OF T(4)] by simp_all
  then have len: "length (from_hex ?a) = 32" "length (from_hex ?x) = 32" "length (from_hex ?y) = 32"
    using is_hash_length [OF _ assms(1)] by blast+
  show ?thesis
  proof (cases ?R)
    case True
    then have "from_hex s @ from_hex ?a = from_hex ?x @ from_hex ?y"
      using same by (simp add: node_input_def)
    then have "from_hex ?a = from_hex ?y" using len append_eq_append_conv [of "from_hex ?a" "from_hex ?y"] by auto
    with True hash show ?thesis by (auto dest: is_hash_eq split: if_splits)
  next
    case False
    then have "from_hex ?a @ from_hex s = from_hex ?x @ from_hex ?y"
      using same by (simp add: node_input_def)
    then have "from_hex ?a = from_hex ?x" using len by (simp add: append_eq_append_conv)
    with False hash show ?thesis by (auto dest: is_hash_eq)
  qed
qed

lemma check_inputs_snoc: "check_inputs C b idx br \<subseteq> check_inputs C b idx (br @ [s])"
  by (auto simp: check_inputs_def branch_inputs_snoc)

lemma nocol_butlast:
  "\<not> collision C A (check_inputs C b idx (br @ [s])) \<Longrightarrow> \<not> collision C A (check_inputs C b idx br)"
  using collision_mono [OF _ subset_refl check_inputs_snoc] by blast

text \<open>A leaf is never mistaken for an inner node: the domain-separation byte.\<close>

lemma leaf_at_upper_layer:
  assumes "\<not> collision C (tree_inputs C chunks) (check_inputs C b idx [])"
    and "Suc k < length (tree_layers C (map (leafHash C) chunks))"
    and "j < length (tree_layers C (map (leafHash C) chunks) ! Suc k)"
  shows "leafHash C b \<noteq> tree_layers C (map (leafHash C) chunks) ! Suc k ! j"
proof
  let ?l = "tree_layers C (map (leafHash C) chunks) ! k"
  let ?n = "node_input (?l ! (2 * j)) (if 2 * j + 1 < length ?l then ?l ! (2 * j + 1) else ?l ! (2 * j))"
  note T = layer_input_in_tree [OF assms(2,3)]
  assume "leafHash C b = tree_layers C (map (leafHash C) chunks) ! Suc k ! j"
  then have "sha256 C ?n = sha256 C (0 # b)"
    unfolding T(2) leafHash_def nodeHash_input to_hex_inj by (rule sym)
  moreover have "0 # b \<in> check_inputs C b idx []" by (simp add: check_inputs_def)
  ultimately have "?n = 0 # b" using no_collisionD [OF assms(1) T(1)] by blast
  then show False by (simp add: node_input_def)
qed

lemma node_at_leaf_layer:
  assumes "\<not> collision C (tree_inputs C chunks) (check_inputs C b idx (br @ [s]))" and "j < length chunks"
  shows "fold_branch C (leafHash C b) idx (br @ [s]) \<noteq> map (leafHash C) chunks ! j"
proof
  let ?a = "fold_branch C (leafHash C b) idx br"
  let ?in = "if goes_right (idx div 2 ^ length br) then node_input s ?a else node_input ?a s"
  assume "fold_branch C (leafHash C b) idx (br @ [s]) = map (leafHash C) chunks ! j"
  then have "sha256 C (0 # chunks ! j) = sha256 C ?in"
    using assms(2) unfolding fold_snoc_input by (simp add: leafHash_def)
  moreover have "?in \<in> check_inputs C b idx (br @ [s])"
    by (simp add: check_inputs_def branch_inputs_snoc Let_def)
  moreover have "0 # chunks ! j \<in> tree_inputs C chunks"
    using assms(2) by (simp add: tree_inputs_def leaf_inputs_def)
  ultimately have "0 # chunks ! j = ?in" using no_collisionD [OF assms(1)] by blast
  then show False by (simp add: node_input_def split: if_splits)
qed

lemma fold_depth:
  assumes "hash32 C" and "\<not> collision C (tree_inputs C chunks) (check_inputs C b idx br)"
    and "k < length (tree_layers C (map (leafHash C) chunks))"
    and "j < length (tree_layers C (map (leafHash C) chunks) ! k)"
    and "fold_branch C (leafHash C b) idx br = tree_layers C (map (leafHash C) chunks) ! k ! j"
  shows "length br = k"
  using assms(2-5)
proof (induction br arbitrary: k j rule: rev_induct)
  case Nil
  then show ?case using leaf_at_upper_layer by (cases k) auto
next
  case (snoc s br)
  show ?case
  proof (cases k)
    case 0
    with snoc.prems node_at_leaf_layer show ?thesis by (metis layers_0 length_map)
  next
    case (Suc k')
    let ?l = "tree_layers C (map (leafHash C) chunks) ! k'"
    let ?j = "if goes_right (idx div 2 ^ length br) \<and> 2 * j + 1 < length ?l then 2 * j + 1 else 2 * j"
    have k': "Suc k' < length (tree_layers C (map (leafHash C) chunks))"
      and j': "j < length (tree_layers C (map (leafHash C) chunks) ! Suc k')"
      using snoc.prems(2,3) Suc by simp_all
    have "fold_branch C (leafHash C b) idx br = ?l ! ?j"
      using fold_step_down [OF assms(1) snoc.prems(1) k' j'] snoc.prems(4) Suc by simp
    moreover have "?j < length ?l" using layer_input_in_tree(5) [OF k' j'] by simp
    ultimately have "length br = k'"
      using snoc.IH [of k' ?j] nocol_butlast [OF snoc.prems(1)] k' by simp
    with Suc show ?thesis by simp
  qed
qed

lemma fold_position:
  assumes "hash32 C" and "\<not> collision C (tree_inputs C chunks) (check_inputs C b idx br)"
    and "length br < length (tree_layers C (map (leafHash C) chunks))"
    and "0 \<le> idx" and "nat idx < length chunks"
    and "fold_branch C (leafHash C b) idx br =
      tree_layers C (map (leafHash C) chunks) ! length br ! (nat idx div 2 ^ length br)"
  shows "b = chunks ! nat idx"
  using assms(2,3,6)
proof (induction br rule: rev_induct)
  case Nil
  then have "sha256 C (0 # chunks ! nat idx) = sha256 C (0 # b)"
    using assms(5) by (simp add: leafHash_def)
  moreover have "0 # chunks ! nat idx \<in> tree_inputs C chunks" "0 # b \<in> check_inputs C b idx []"
    using assms(5) by (simp_all add: tree_inputs_def leaf_inputs_def check_inputs_def)
  ultimately have "0 # chunks ! nat idx = 0 # b" using no_collisionD [OF Nil.prems(1)] by blast
  then show ?case by simp
next
  case (snoc s br)
  let ?L = "tree_layers C (map (leafHash C) chunks)"
  let ?k = "length br" let ?j = "nat idx div 2 ^ Suc (length br)"
  have k: "Suc ?k < length ?L" using snoc.prems(2) by simp
  then have j: "?j < length (?L ! Suc ?k)"
    using index_in_layer [of "nat idx" "map (leafHash C) chunks" "Suc ?k" C] assms(5)
    by (simp del: power_Suc)
  have f: "fold_branch C (leafHash C b) idx (br @ [s]) = ?L ! Suc ?k ! ?j"
    using snoc.prems(3) by simp
  let ?i = "nat idx div 2 ^ ?k"
  have i: "?i < length (?L ! ?k)"
    using index_in_layer [of "nat idx" "map (leafHash C) chunks" ?k C] assms(5) k by simp
  have R: "goes_right (idx div 2 ^ ?k) \<longleftrightarrow> odd ?i"
    using goes_right_of_nat [of ?i] assms(4) by (simp add: zdiv_int)
  have ij: "?i = 2 * ?j + (if odd ?i then 1 else 0)"
  proof -
    have "?j = ?i div 2" by (simp only: div_mult2_eq [symmetric] power_Suc2)
    moreover have "i = 2 * (i div 2) + (if odd i then 1 else 0)" for i :: nat by presburger
    ultimately show ?thesis by metis
  qed
  have "(if goes_right (idx div 2 ^ ?k) \<and> 2 * ?j + 1 < length (?L ! ?k) then 2 * ?j + 1 else 2 * ?j) = ?i"
    using R ij i by auto
  then have "fold_branch C (leafHash C b) idx br = ?L ! ?k ! ?i"
    using fold_step_down [OF assms(1) snoc.prems(1) k j f] by simp
  then show ?case using snoc.IH nocol_butlast [OF snoc.prems(1)] k by simp
qed

theorem merkle_sound_lib:
  assumes "hash32 C" and "buildTree C (map (leafHash C) chunks) = Inr t"
    and "verifyProof C (leafHash C b) br idx (root t)"
    and "0 \<le> idx" and "nat idx < length chunks"
  shows "b = chunks ! nat idx \<or> collision C (tree_inputs C chunks) (check_inputs C b idx br)"
proof (rule disjCI)
  let ?L = "tree_layers C (map (leafHash C) chunks)"
  assume nc: "\<not> collision C (tree_inputs C chunks) (check_inputs C b idx br)"
  have ne: "map (leafHash C) chunks \<noteq> []" using assms(5) by auto
  note top = root_layer [OF ne, of C]
  have f: "fold_branch C (leafHash C b) idx br = ?L ! (length ?L - 1) ! 0"
    using assms(2,3) top(1) by (simp add: buildTree_Inr verifyProof_def)
  have lt: "length ?L - 1 < length ?L" by simp
  have "0 < length (?L ! (length ?L - 1))" using top(2) by simp
  then have d: "length br = length ?L - 1" using fold_depth [OF assms(1) nc lt _ f] by blast
  have "nat idx div 2 ^ (length ?L - 1) < 1"
    using index_in_layer [of "nat idx" "map (leafHash C) chunks", OF _ lt] assms(5) top(2) by simp
  then have "nat idx div 2 ^ length br = 0" using d by simp
  with f d show "b = chunks ! nat idx"
    using fold_position [OF assms(1) nc _ assms(4,5)] lt by simp
qed

section \<open>The tree is an inclusion-proof scheme\<close>

text \<open>
  The interface of theory Inclusion on the code's own functions, for pieces hashed with
  \<open>leafHash\<close>. The digests must have 32 bytes for the soundness law, so a malformed digest counts
  as broken, together with the collision.
\<close>

definition merkle_build :: "crypto \<Rightarrow> bytes list \<Rightarrow> merkle_tree option" where
  "merkle_build C cs = (case buildTree C (map (leafHash C) cs) of Inr t \<Rightarrow> Some t | Inl _ \<Rightarrow> None)"

definition merkle_accept :: "crypto \<Rightarrow> bytes \<Rightarrow> string list \<Rightarrow> int \<Rightarrow> string \<Rightarrow> bool" where
  "merkle_accept C b br i rt \<longleftrightarrow> verifyProof C (leafHash C b) br i rt"

definition merkle_broken :: "crypto \<Rightarrow> bytes list \<Rightarrow> bytes \<Rightarrow> int \<Rightarrow> string list \<Rightarrow> bool" where
  "merkle_broken C cs b i br \<longleftrightarrow> \<not> hash32 C \<or> collision C (tree_inputs C cs) (check_inputs C b i br)"

lemma merkle_build_Some: "merkle_build C cs = Some t \<longleftrightarrow> buildTree C (map (leafHash C) cs) = Inr t"
  by (auto simp: merkle_build_def split: sum.splits)

interpretation mk: inclusion "merkle_build C" root merkle_proof "merkle_accept C" "merkle_broken C" for C
proof
  fix cs t i assume "merkle_build C cs = Some t" "i < length cs"
  then show "\<exists>br. merkle_proof t i = Some br \<and> merkle_accept C (cs ! i) br (int i) (root t)"
    using merkle_complete [of C "map (leafHash C) cs" t i]
    by (fastforce simp: merkle_build_Some merkle_accept_def)
next
  fix cs t b br i
  assume "merkle_build C cs = Some t" "merkle_accept C b br i (root t)" "0 \<le> i" "i < int (length cs)"
  then show "b = cs ! nat i \<or> merkle_broken C cs b i br"
    using merkle_sound_lib [of C cs t b br i]
    by (auto simp: merkle_build_Some merkle_accept_def merkle_broken_def)
qed

end
