(* ===== verification/Batch.thy ===== *)
theory Batch
  imports Receipt Merkle
begin

text \<open>
  agent/lib/batch.mjs: one signed \<open>custody-batch/1\<close> record per contact, over the Merkle root of the
  sorted bundle ids, with an inclusion proof per bundle. The theory proves that every bundle of a
  batch has an accepted proof and that only the bundles of the batch have one, each at its own time.
\<close>

section \<open>Definitions\<close>

definition BATCH_KIND :: string where
  "BATCH_KIND = ''custody-batch/1''"

definition leafBytes :: "string \<Rightarrow> int option \<Rightarrow> bytes" where
  "leafBytes i t = utf8 (case t of None \<Rightarrow> i | Some t \<Rightarrow> i @ ''@'' @ show_int t)"

record batch =
  b_receipt :: jsval
  leaves :: "string list"
  leafTimes :: "int list option"
  tree :: merkle_tree

text \<open>The \<open>forEach\<close> that fills the map \<open>at\<close>, whose entries stay in insertion order.\<close>

fun fill_times :: "int \<Rightarrow> int \<Rightarrow> (string \<times> int) list \<Rightarrow> (string \<times> int) list \<Rightarrow> (string \<times> int) list res" where
  "fill_times from_t to_t acc [] = Inr acc"
| "fill_times from_t to_t acc ((i, t) # rest) =
     (if \<bar>t\<bar> > MAX_SAFE_INTEGER \<or> t < from_t \<or> t > to_t
        then Inl ''batchReceipt: each time must be an integer inside the window''
      else if i \<in> set (map fst acc)
        then Inl ''batchReceipt: a bundle may appear once per batch; start a new batch for a second pass''
      else fill_times from_t to_t (acc @ [(i, t)]) rest)"

definition batch_content :: "jsval \<Rightarrow> jsval \<Rightarrow> jsval \<Rightarrow> int \<Rightarrow> int \<Rightarrow> nat \<Rightarrow> string \<Rightarrow> bool \<Rightarrow> (string \<times> jsval) list" where
  "batch_content prevHop thisHop contactId from_t to_t n rt timed =
     [(''kind'', VStr BATCH_KIND), (''prevHop'', prevHop), (''thisHop'', thisHop), (''contactId'', contactId),
      (''from'', VNum from_t), (''to'', VNum to_t), (''count'', VNum (int n)), (''root'', VStr rt)]
     @ (if timed then [(''leafTimes'', VBool True)] else [])"

definition batchReceipt :: "crypto \<Rightarrow> keypair \<Rightarrow> jsval \<Rightarrow> jsval \<Rightarrow> jsval \<Rightarrow> int \<Rightarrow> int \<Rightarrow> string list \<Rightarrow>
    int list option \<Rightarrow> batch res" where
  "batchReceipt C kp prevHop thisHop contactId from_t to_t bundleIds leaf_times =
     (if \<not> to_t \<ge> from_t then Inl ''batchReceipt: window must end at or after it starts''
      else case leaf_times of
        None \<Rightarrow>
          let ls = sort (remdups bundleIds) in
          if ls = [] then Inl ''batchReceipt: no bundles''
          else rbind (buildTree C (map (\<lambda>i. leafHash C (leafBytes i None)) ls)) (\<lambda>t.
            rbind (signRecord C kp (VObj (batch_content prevHop thisHop contactId from_t to_t
                (length ls) (root t) False))) (\<lambda>r.
            Inr \<lparr>b_receipt = r, leaves = ls, leafTimes = None, tree = t\<rparr>))
      | Some ts \<Rightarrow>
          if length ts \<noteq> length bundleIds then Inl ''batchReceipt: one time per bundle id''
          else rbind (fill_times from_t to_t [] (zip bundleIds ts)) (\<lambda>at.
            let ls = sort (map fst at); lts = map (\<lambda>i. the (map_of at i)) ls in
            if ls = [] then Inl ''batchReceipt: no bundles''
            else rbind (buildTree C (map (\<lambda>(i, t). leafHash C (leafBytes i (Some t))) (zip ls lts))) (\<lambda>t.
              rbind (signRecord C kp (VObj (batch_content prevHop thisHop contactId from_t to_t
                  (length ls) (root t) True))) (\<lambda>r.
              Inr \<lparr>b_receipt = r, leaves = ls, leafTimes = Some lts, tree = t\<rparr>))))"

text \<open>An inclusion proof; \<open>p_t\<close> is \<open>undefined\<close> in a batch without times.\<close>

record inclusion_proof =
  p_index :: int
  p_branch :: "string list"
  p_t :: jsval

fun indexOf :: "'a list \<Rightarrow> 'a \<Rightarrow> nat option" where
  "indexOf [] x = None"
| "indexOf (y # ys) x = (if y = x then Some 0 else map_option Suc (indexOf ys x))"

definition batchProof :: "batch \<Rightarrow> string \<Rightarrow> inclusion_proof option" where
  "batchProof b bundleId =
     (case indexOf (leaves b) bundleId of
        None \<Rightarrow> None
      | Some i \<Rightarrow> map_option (\<lambda>br. \<lparr>p_index = int i, p_branch = br,
          p_t = (case leafTimes b of None \<Rightarrow> VUndef | Some ts \<Rightarrow> VNum (ts ! i))\<rparr>)
          (merkle_proof (tree b) i))"

text \<open>\<open>verifyProof(..., receipt.root)\<close>: the recomputed root is a string, compared with \<open>===\<close>.\<close>

definition root_matches :: "crypto \<Rightarrow> bytes \<Rightarrow> string list \<Rightarrow> int \<Rightarrow> jsval \<Rightarrow> bool" where
  "root_matches C leaf br i rt = (case rt of VStr s \<Rightarrow> verifyProof C (leafHash C leaf) br i s | _ \<Rightarrow> False)"

definition inBatch :: "crypto \<Rightarrow> jsval \<Rightarrow> string \<Rightarrow> inclusion_proof option \<Rightarrow> bool" where
  "inBatch C receipt bundleId p =
     (case p of
        None \<Rightarrow> False
      | Some p \<Rightarrow>
          if \<bar>p_index p\<bar> > MAX_SAFE_INTEGER \<or> p_index p < 0 \<or> num_ge (p_index p) (field receipt ''count'') then False
          else if truthy (field receipt ''leafTimes'') then
            (case p_t p of
               VNum t \<Rightarrow> \<not> (\<bar>t\<bar> > MAX_SAFE_INTEGER \<or> num_lt t (field receipt ''from'') \<or> num_gt t (field receipt ''to''))
                 \<and> root_matches C (leafBytes bundleId (Some t)) (p_branch p) (p_index p) (field receipt ''root'')
             | _ \<Rightarrow> False)
          else root_matches C (leafBytes bundleId None) (p_branch p) (p_index p) (field receipt ''root''))"

section \<open>Leaves\<close>

lemma show_int_digits: "\<forall>c \<in> set (show_int t). is_digit c \<or> c = CHR ''-''"
  using show_nat_digits by (auto simp: show_int_def list_all_iff)

lemma at_not_in_int: "CHR ''@'' \<notin> set (show_int t)"
  using show_int_digits [of t] by (force simp: is_digit_def digit_val_def)

lemma show_int_inj [simp]: "show_int a = show_int b \<longleftrightarrow> a = b"
proof
  have minus: "show_nat n \<noteq> CHR ''-'' # s" for n s
    using show_nat_digits [of n] by (auto simp: is_digit_def digit_val_def)
  assume "show_int a = show_int b"
  with minus minus [symmetric] show "a = b" by (auto simp: show_int_def split: if_splits)
qed simp

lemma append_split_last: "c \<notin> set ys \<Longrightarrow> c \<notin> set zs \<Longrightarrow> xs @ c # ys = ws @ c # zs \<Longrightarrow> xs = ws \<and> ys = zs"
  by (auto simp: append_eq_append_conv2 Cons_eq_append_conv append_eq_Cons_conv)

text \<open>The text \<open>id@time\<close> determines the id and the time, whatever the id contains.\<close>

lemma leafBytes_timed_inj: "leafBytes i (Some t) = leafBytes j (Some u) \<longleftrightarrow> i = j \<and> t = u"
proof
  assume "leafBytes i (Some t) = leafBytes j (Some u)"
  then have "i @ CHR ''@'' # show_int t = j @ CHR ''@'' # show_int u"
    by (simp only: leafBytes_def option.case utf8_inj append_Cons append_Nil)
  from append_split_last [OF at_not_in_int at_not_in_int this] show "i = j \<and> t = u" by simp
qed simp

lemma leafBytes_inj: "leafBytes i None = leafBytes j None \<longleftrightarrow> i = j"
  by (simp add: leafBytes_def)

lemma indexOf_Some: "indexOf xs x = Some i \<Longrightarrow> i < length xs \<and> xs ! i = x"
  by (induction xs arbitrary: i) (auto split: if_splits)

lemma indexOf_mem: "x \<in> set xs \<Longrightarrow> \<exists>i. indexOf xs x = Some i"
  by (induction xs) auto

lemma fill_times_Inr: "fill_times a b acc its = Inr at \<longleftrightarrow> at = acc @ its \<and>
    (\<forall>(i, t) \<in> set its. \<bar>t\<bar> \<le> MAX_SAFE_INTEGER \<and> a \<le> t \<and> t \<le> b) \<and>
    distinct (map fst its) \<and> set (map fst its) \<inter> set (map fst acc) = {}"
proof (induction its arbitrary: acc)
  case (Cons it its)
  obtain i t where it: "it = (i, t)" by (cases it)
  show ?case
  proof (cases "\<bar>t\<bar> > MAX_SAFE_INTEGER \<or> t < a \<or> t > b \<or> i \<in> set (map fst acc)")
    case True
    then show ?thesis by (auto simp: it)
  next
    case False
    then have "fill_times a b acc (it # its) = fill_times a b (acc @ [(i, t)]) its" by (simp add: it)
    with False show ?thesis by (auto simp: it Cons.IH image_iff)
  qed
qed auto

section \<open>What a batch is\<close>

text \<open>The items a batch commits to, in leaf order, and its receipt's fields.\<close>

definition batch_items :: "batch \<Rightarrow> (string \<times> int option) list" where
  "batch_items b = zip (leaves b) (case leafTimes b of None \<Rightarrow> replicate (length (leaves b)) None
     | Some ts \<Rightarrow> map Some ts)"

definition batch_enc :: "string \<times> int option \<Rightarrow> bytes" where
  "batch_enc it = leafBytes (fst it) (snd it)"

definition batch_wf :: "crypto \<Rightarrow> int \<Rightarrow> int \<Rightarrow> (string \<times> int option) set \<Rightarrow> batch \<Rightarrow> bool" where
  "batch_wf C a z S b \<longleftrightarrow>
     set (batch_items b) = S \<and> distinct (leaves b) \<and> map fst (batch_items b) = leaves b \<and>
     (\<forall>ts. leafTimes b = Some ts \<longrightarrow> ts = map (the \<circ> snd) (batch_items b)) \<and>
     (\<forall>(i, t) \<in> S. case t of None \<Rightarrow> leafTimes b = None
        | Some t \<Rightarrow> leafTimes b \<noteq> None \<and> \<bar>t\<bar> \<le> MAX_SAFE_INTEGER \<and> a \<le> t \<and> t \<le> z) \<and>
     merkle_build C (map batch_enc (batch_items b)) = Some (tree b) \<and>
     field (b_receipt b) ''count'' = VNum (int (length (leaves b))) \<and>
     field (b_receipt b) ''root'' = VStr (root (tree b)) \<and>
     field (b_receipt b) ''from'' = VNum a \<and> field (b_receipt b) ''to'' = VNum z \<and>
     truthy (field (b_receipt b) ''leafTimes'') = (leafTimes b \<noteq> None)"

definition batch_set :: "string list \<Rightarrow> int list option \<Rightarrow> (string \<times> int option) set" where
  "batch_set ids lt = (case lt of None \<Rightarrow> (\<lambda>i. (i, None)) ` set ids | Some ts \<Rightarrow> set (zip ids (map Some ts)))"

lemma batch_fields:
  assumes "signRecord C kp (VObj (batch_content p h c a z n rt timed)) = Inr r"
  shows "field r ''count'' = VNum (int n)" "field r ''root'' = VStr rt" "field r ''from'' = VNum a"
    "field r ''to'' = VNum z" "truthy (field r ''leafTimes'') = timed" "field r ''kind'' = VStr BATCH_KIND"
    "field r ''prevHop'' = p" "field r ''thisHop'' = h"
  using signRecord_field(1) [OF assms] by (simp_all add: credential_fields_def batch_content_def)

lemma batchReceipt_wf:
  assumes "batchReceipt C kp p h c a z ids lt = Inr b"
  shows "batch_wf C a z (batch_set ids lt) b"
proof (cases lt)
  case None
  then obtain t r where tr: "sort (remdups ids) \<noteq> []"
    "buildTree C (map (\<lambda>i. leafHash C (leafBytes i None)) (sort (remdups ids))) = Inr t"
    "signRecord C kp (VObj (batch_content p h c a z (length (sort (remdups ids))) (root t) False)) = Inr r"
    "b = \<lparr>b_receipt = r, leaves = sort (remdups ids), leafTimes = None, tree = t\<rparr>"
    using assms by (auto simp: batchReceipt_def Let_def split: if_splits)
  let ?ls = "sort (remdups ids)"
  have acc: "b_receipt b = r" "leaves b = ?ls" "leafTimes b = None" "tree b = t" by (simp_all add: tr(4))
  have items: "batch_items b = map (\<lambda>i. (i, None)) ?ls"
    by (simp add: batch_items_def acc zip_replicate2)
  have "map (\<lambda>i. leafHash C (leafBytes i None)) ?ls = map (leafHash C) (map batch_enc (map (\<lambda>i. (i, None)) ?ls))"
    by (simp add: batch_enc_def comp_def)
  then have "merkle_build C (map batch_enc (batch_items b)) = Some t"
    using tr(2) unfolding merkle_build_Some items by (simp only:)
  with batch_fields [OF tr(3)] show ?thesis
    by (auto simp: batch_wf_def items batch_set_def None acc comp_def)
next
  case (Some ts)
  obtain at t r where tr: "fill_times a z [] (zip ids ts) = Inr at" "length ts = length ids"
    "buildTree C (map (\<lambda>(i, t). leafHash C (leafBytes i (Some t)))
       (zip (sort (map fst at)) (map (\<lambda>i. the (map_of at i)) (sort (map fst at))))) = Inr t"
    "signRecord C kp (VObj (batch_content p h c a z (length (sort (map fst at))) (root t) True)) = Inr r"
    "b = \<lparr>b_receipt = r, leaves = sort (map fst at), leafTimes = Some (map (\<lambda>i. the (map_of at i)) (sort (map fst at))), tree = t\<rparr>"
    using assms by (auto simp: batchReceipt_def Let_def Some split: if_splits)
  let ?ls = "sort (map fst at)"
  have acc: "b_receipt b = r" "leaves b = ?ls" "leafTimes b = Some (map (\<lambda>i. the (map_of at i)) ?ls)" "tree b = t"
    by (simp_all add: tr(5))
  have at: "at = zip ids ts" "\<forall>(i, t) \<in> set at. \<bar>t\<bar> \<le> MAX_SAFE_INTEGER \<and> a \<le> t \<and> t \<le> z" "distinct (map fst at)"
    using tr(1) by (auto simp: fill_times_Inr)
  have items: "batch_items b = map (\<lambda>i. (i, Some (the (map_of at i)))) ?ls"
    by (simp add: batch_items_def acc zip_map2 zip_same_conv_map comp_def)
  have "set (batch_items b) = (\<lambda>(i, t). (i, Some t)) ` set at"
    unfolding items using at(3) by (force simp: image_iff)
  then have S: "set (batch_items b) = batch_set ids lt"
    by (simp add: batch_set_def Some at(1) zip_map2 image_image case_prod_unfold)
  have "map (\<lambda>(i, t). leafHash C (leafBytes i (Some t))) (zip ?ls (map (\<lambda>i. the (map_of at i)) ?ls))
      = map (leafHash C) (map batch_enc (batch_items b))"
    unfolding items by (simp add: batch_enc_def comp_def zip_map2 zip_same_conv_map)
  then have "merkle_build C (map batch_enc (batch_items b)) = Some t"
    using tr(3) unfolding merkle_build_Some by simp
  moreover have "\<forall>(i, t) \<in> batch_set ids lt. case t of None \<Rightarrow> leafTimes b = None
        | Some t \<Rightarrow> leafTimes b \<noteq> None \<and> \<bar>t\<bar> \<le> MAX_SAFE_INTEGER \<and> a \<le> t \<and> t \<le> z"
    using at(2) unfolding at(1) by (auto simp: batch_set_def Some acc zip_map2)
  ultimately show ?thesis using batch_fields [OF tr(4)] S at(3)
    by (auto simp: batch_wf_def items acc comp_def)
qed

section \<open>Proofs for exactly the bundles of the batch\<close>

text \<open>The time a proof claims, for a batch that carries times.\<close>

definition proof_time :: "batch \<Rightarrow> inclusion_proof \<Rightarrow> int option" where
  "proof_time b p = (if leafTimes b = None then None else case p_t p of VNum t \<Rightarrow> Some t | _ \<Rightarrow> None)"

lemma batch_itemsE:
  assumes "batch_wf C a z S b" "x \<in> set (batch_items b)" "batch_enc x = leafBytes i t"
    and "t = None \<longleftrightarrow> leafTimes b = None"
  shows "x = (i, t)"
proof -
  obtain j u where x: "x = (j, u)" by (cases x)
  then have "case u of None \<Rightarrow> leafTimes b = None | Some u \<Rightarrow> leafTimes b \<noteq> None"
    using assms(1,2) by (auto simp: batch_wf_def split: option.splits)
  then show ?thesis using assms(3,4) x
    by (cases u; cases t) (auto simp: batch_enc_def leafBytes_timed_inj leafBytes_inj)
qed

lemma batch_wf_length: "batch_wf C a z S b \<Longrightarrow> length (batch_items b) = length (leaves b)"
  unfolding batch_wf_def by (metis length_map)

lemma inBatch_iff:
  assumes "batch_wf C a z S b"
  shows "inBatch C (b_receipt b) i (Some p) \<longleftrightarrow>
     \<bar>p_index p\<bar> \<le> MAX_SAFE_INTEGER \<and> 0 \<le> p_index p \<and> p_index p < int (length (leaves b)) \<and>
     (leafTimes b = None \<or> (\<exists>t. p_t p = VNum t \<and> \<bar>t\<bar> \<le> MAX_SAFE_INTEGER \<and> a \<le> t \<and> t \<le> z)) \<and>
     merkle_accept C (leafBytes i (proof_time b p)) (p_branch p) (p_index p) (root (tree b))"
proof -
  have flds: "field (b_receipt b) ''count'' = VNum (int (length (leaves b)))"
      "field (b_receipt b) ''root'' = VStr (root (tree b))"
      "field (b_receipt b) ''from'' = VNum a" "field (b_receipt b) ''to'' = VNum z"
      "truthy (field (b_receipt b) ''leafTimes'') = (leafTimes b \<noteq> None)"
    using assms by (simp_all add: batch_wf_def)
  show ?thesis
  proof (cases "leafTimes b")
    case None
    then show ?thesis
      by (auto simp: inBatch_def flds proof_time_def root_matches_def merkle_accept_def)
  next
    case (Some ts)
    then show ?thesis
      by (cases "p_t p") (auto simp: inBatch_def flds proof_time_def root_matches_def merkle_accept_def)
  qed
qed

lemma inBatch_sound:
  assumes wf: "batch_wf C a z S b" and inb: "inBatch C (b_receipt b) i (Some p)"
  shows "(i, proof_time b p) \<in> S \<or>
    merkle_broken C (map batch_enc (batch_items b)) (leafBytes i (proof_time b p)) (p_index p) (p_branch p)"
proof -
  let ?t = "proof_time b p"
  note inb' = inb [unfolded inBatch_iff [OF wf]]
  note len = batch_wf_length [OF wf]
  have bld: "merkle_build C (map batch_enc (batch_items b)) = Some (tree b)"
    and S: "set (batch_items b) = S"
    using wf by (simp_all add: batch_wf_def)
  have idx: "0 \<le> p_index p" "p_index p < int (length (batch_items b))"
    using inb' by (simp_all add: len)
  have acc: "merkle_accept C (leafBytes i ?t) (p_branch p) (p_index p) (root (tree b))"
    and t: "?t = None \<longleftrightarrow> leafTimes b = None"
    using inb' by (auto simp: proof_time_def)
  have "batch_items b ! nat (p_index p) = (i, ?t) \<or>
      merkle_broken C (map batch_enc (batch_items b)) (leafBytes i ?t) (p_index p) (p_branch p)"
    using mk.member_sound [OF bld acc idx, where P = "\<lambda>x. x = (i, ?t)"] batch_itemsE [OF wf _ _ t] by blast
  moreover have "batch_items b ! nat (p_index p) \<in> S"
    using idx S nth_mem [of "nat (p_index p)" "batch_items b"] by simp
  ultimately show ?thesis by auto
qed

lemma inBatch_complete:
  assumes wf: "batch_wf C a z S b" and i: "i \<in> fst ` S" and len: "length (leaves b) \<le> 2 ^ 53"
  shows "\<exists>p. batchProof b i = Some p \<and> inBatch C (b_receipt b) i (Some p) \<and> (i, proof_time b p) \<in> S"
proof -
  have items: "set (batch_items b) = S" "map fst (batch_items b) = leaves b"
      "\<And>ts. leafTimes b = Some ts \<Longrightarrow> ts = map (the \<circ> snd) (batch_items b)"
    and bld: "merkle_build C (map batch_enc (batch_items b)) = Some (tree b)"
    using wf by (simp_all add: batch_wf_def)
  note len_items = batch_wf_length [OF wf]
  have "i \<in> set (leaves b)" using i unfolding items(1,2) [symmetric] by simp
  from indexOf_mem [OF this] obtain k where k: "indexOf (leaves b) i = Some k" by blast
  then have kl: "k < length (leaves b)" "leaves b ! k = i" by (auto dest: indexOf_Some)
  have "fst (batch_items b ! k) = i"
    using kl len_items nth_map [of k "batch_items b" fst] unfolding items(2) by simp
  then obtain t where it: "batch_items b ! k = (i, t)" by (cases "batch_items b ! k") auto
  have "(i, t) \<in> S" using nth_mem [of k "batch_items b"] it kl(1) len_items items(1) by simp
  then have ct: "case t of None \<Rightarrow> leafTimes b = None
        | Some t \<Rightarrow> leafTimes b \<noteq> None \<and> \<bar>t\<bar> \<le> MAX_SAFE_INTEGER \<and> a \<le> t \<and> t \<le> z"
    using wf by (auto simp: batch_wf_def)
  obtain br where br: "merkle_proof (tree b) k = Some br"
      "merkle_accept C (leafBytes i t) br (int k) (root (tree b))"
    using mk.member_complete [OF bld, of k] kl(1) len_items it by (auto simp: batch_enc_def)
  let ?p = "\<lparr>p_index = int k, p_branch = br, p_t = (case leafTimes b of None \<Rightarrow> VUndef | Some ts \<Rightarrow> VNum (ts ! k))\<rparr>"
  have "batchProof b i = Some ?p" by (simp add: batchProof_def k br(1))
  moreover have pt: "proof_time b ?p = t" and "leafTimes b = None \<or> (\<exists>u. p_t ?p = VNum u \<and> t = Some u)"
  proof -
    have "ts ! k = the t" if "leafTimes b = Some ts" for ts
      using items(3) [OF that] len_items it kl(1) by simp
    with ct show "proof_time b ?p = t" "leafTimes b = None \<or> (\<exists>u. p_t ?p = VNum u \<and> t = Some u)"
      by (cases t; cases "leafTimes b"; simp add: proof_time_def)+
  qed
  moreover from this(2) have "inBatch C (b_receipt b) i (Some ?p)"
    unfolding inBatch_iff [OF wf] pt using ct br(2) kl(1) len by auto
  ultimately show ?thesis using \<open>(i, t) \<in> S\<close> by blast
qed

text \<open>
  \<open>inBatch\<close> accepts a proof for a bundle only if the batch was built over that bundle (and, in a
  batch with times, over that bundle at the claimed time), or the digests are broken: a SHA-256
  collision between the batch's tree and the presented proof.
\<close>

theorem batch_membership_sound:
  assumes "batchReceipt C kp p h c a z ids lt = Inr b"
    and "inBatch C (b_receipt b) i (Some pr)"
  shows "(i, proof_time b pr) \<in> batch_set ids lt \<or>
    merkle_broken C (map batch_enc (batch_items b)) (leafBytes i (proof_time b pr)) (p_index pr) (p_branch pr)"
  by (rule inBatch_sound [OF batchReceipt_wf [OF assms(1)] assms(2)])

text \<open>
  Every bundle of a batch has a proof that \<open>batchProof\<close> finds and \<open>inBatch\<close> accepts.
\<close>

theorem batch_membership_complete:
  assumes "batchReceipt C kp p h c a z ids lt = Inr b" and "i \<in> set ids" and "length (leaves b) \<le> 2 ^ 53"
  shows "\<exists>pr. batchProof b i = Some pr \<and> inBatch C (b_receipt b) i (Some pr)"
proof -
  have "i \<in> fst ` batch_set ids lt"
  proof (cases lt)
    case None
    with assms(2) show ?thesis by (force simp: batch_set_def)
  next
    case (Some ts)
    then have "length ts = length ids" using assms(1) by (auto simp: batchReceipt_def split: if_splits)
    with Some assms(2) show ?thesis
      by (auto simp: batch_set_def in_set_conv_nth image_iff Bex_def set_zip)
  qed
  from inBatch_complete [OF batchReceipt_wf [OF assms(1)] this assms(3)] show ?thesis by blast
qed

section \<open>Witnesses\<close>

lemma batchReceipt_total:
  assumes "a \<le> z" "ids \<noteq> []"
  shows "\<exists>b. batchReceipt C kp (VStr p) (VStr h) (VStr c) a z ids None = Inr b \<and> leaves b = sort (remdups ids)"
proof -
  let ?ls = "sort (remdups ids)"
  have ne: "?ls \<noteq> []" using assms(2) by (metis set_empty set_remdups set_sort)
  then obtain t where t: "buildTree C (map (\<lambda>i. leafHash C (leafBytes i None)) ?ls) = Inr t"
    by (simp add: buildTree_def Let_def)
  have "flat (batch_content (VStr p) (VStr h) (VStr c) a z (length ?ls) (root t) False)"
    by (simp add: flat_def batch_content_def)
  from signRecord_flat [OF this] obtain r where
    "signRecord C kp (VObj (batch_content (VStr p) (VStr h) (VStr c) a z (length ?ls) (root t) False)) = Inr r"
    by blast
  with t ne assms(1) show ?thesis by (simp add: batchReceipt_def Let_def)
qed

lemma batch_membership_complete_witness:
  "\<exists>b pr. batchReceipt toy (toy_key ''k'') (VStr ''p'') (VStr ''h'') (VStr ''c'') 0 9 [''x'', ''y''] None = Inr b \<and>
     batchProof b ''y'' = Some pr \<and> inBatch toy (b_receipt b) ''y'' (Some pr)"
proof -
  obtain b where b: "batchReceipt toy (toy_key ''k'') (VStr ''p'') (VStr ''h'') (VStr ''c'') 0 9 [''x'', ''y''] None = Inr b"
      "leaves b = sort (remdups [''x'', ''y''])"
    using batchReceipt_total [of 0 9 "[''x'', ''y'']"] by fastforce
  have "length (leaves b) \<le> 2 ^ 53" unfolding b(2) by simp
  from batch_membership_complete [OF b(1) _ this, of "''y''"] b(1) show ?thesis by auto
qed

lemma batch_membership_sound_witness:
  "\<exists>b pr. batchReceipt toy (toy_key ''k'') (VStr ''p'') (VStr ''h'') (VStr ''c'') 0 9 [''x''] None = Inr b \<and>
     inBatch toy (b_receipt b) ''x'' (Some pr) \<and>
     ((''x'', proof_time b pr) \<in> batch_set [''x''] None \<or>
      merkle_broken toy (map batch_enc (batch_items b)) (leafBytes ''x'' (proof_time b pr)) (p_index pr) (p_branch pr))"
proof -
  obtain b where b: "batchReceipt toy (toy_key ''k'') (VStr ''p'') (VStr ''h'') (VStr ''c'') 0 9 [''x''] None = Inr b"
      "leaves b = sort (remdups [''x''])"
    using batchReceipt_total [of 0 9 "[''x'']"] by fastforce
  have "batch_wf toy 0 9 (batch_set [''x''] None) b" by (rule batchReceipt_wf [OF b(1)])
  from inBatch_complete [OF this, of "''x''"] obtain pr where
    "inBatch toy (b_receipt b) ''x'' (Some pr)" by (auto simp: batch_set_def b(2))
  with batch_membership_sound [OF b(1) this] b(1) show ?thesis by blast
qed

end
