(* ===== verification/Path.thy ===== *)
theory Path
  imports Batch
begin

text \<open>
  agent/lib/path.mjs: custody chains over routes nobody listed in advance. \<open>verifyPath\<close> keeps a cache
  of verdicts keyed by \<open>claimId\<close>, shared between calls, so the model threads it through. The theory
  proves what an accepted path means when no two records share a claimId, and that the cache breaks
  the guarantee otherwise; and that \<open>assemblePath\<close> returns a chain of distinct records.
\<close>

section \<open>Verifying a path\<close>

type_synonym path_link = "jsval \<times> inclusion_proof option"
type_synonym verdict_cache = "(jsval \<times> jsval verdict) list"
type_synonym authorizer = "jsval \<Rightarrow> jsval \<Rightarrow> jsval \<Rightarrow> unit verdict"

text \<open>\<open>cache.get(r?.claimId)\<close> and the \<open>cache.set\<close> of line 31. Keys that are objects never match another
  record's key.\<close>

definition cached_verdict :: "crypto \<Rightarrow> verdict_cache \<Rightarrow> jsval \<Rightarrow> (jsval verdict \<times> verdict_cache) res" where
  "cached_verdict C cache r =
     (let k = field r ''claimId'' in
      case (if is_prim k then map_of cache k else None) of
        Some v \<Rightarrow> Inr (v, cache)
      | None \<Rightarrow> rbind (verifyRecord C r) (\<lambda>v. Inr (v, if truthy k then (k, v) # cache else cache)))"

text \<open>Lines 33--42: does the record cover the bundle, and when (\<open>t0\<close>, \<open>t1\<close>)?\<close>

datatype window = Covers jsval jsval | NotCovered string

definition hop_window :: "crypto \<Rightarrow> string \<Rightarrow> path_link \<Rightarrow> window" where
  "hop_window C bundleId l =
     (let r = fst l in
      if strict_eq (field r ''kind'') (VStr BATCH_KIND) then
        (if \<not> inBatch C r bundleId (snd l) then NotCovered ''not_in_batch''
         else if truthy (field r ''leafTimes'') then Covers (p_t (the (snd l))) (p_t (the (snd l)))
         else Covers (field r ''from'') (field r ''to''))
      else if strict_eq (field r ''kind'') (VStr ''custody/1'') then
        (if \<not> strict_eq (field r ''bundleId'') (VStr bundleId) then NotCovered ''wrong_bundle''
         else Covers (field r ''receivedAt'') (field r ''forwardedAt''))
      else NotCovered ''unknown_record_kind'')"

text \<open>\<open>prev\<close>: the previous hop's node and entry time.\<close>

fun path_from :: "crypto \<Rightarrow> string \<Rightarrow> string \<Rightarrow> string \<Rightarrow> authorizer \<Rightarrow> int \<Rightarrow> nat \<Rightarrow> (jsval \<times> jsval) option \<Rightarrow>
    jsval list \<Rightarrow> nat \<Rightarrow> verdict_cache \<Rightarrow> path_link list \<Rightarrow> ((nat \<times> nat) chain_verdict \<times> verdict_cache) res" where
  "path_from C b source destination authorize skewMs i prev seen revisits cache [] =
     (if prev = None \<or> \<not> strict_eq (fst (the prev)) (VStr destination)
      then Inr (ChainBad ''wrong_destination'' (Some (i - 1)), cache)
      else Inr (ChainOk (i, revisits), cache))"
| "path_from C b source destination authorize skewMs i prev seen revisits cache (l # ls) =
     (let r = fst l in
      rbind (cached_verdict C cache r) (\<lambda>(v, cache').
        case v of
          Refuse reason \<Rightarrow> Inr (ChainBad reason (Some i), cache')
        | Accept signer \<Rightarrow>
        (case hop_window C b l of
          NotCovered reason \<Rightarrow> Inr (ChainBad reason (Some i), cache')
        | Covers t0 t1 \<Rightarrow>
        (case authorize signer (field r ''thisHop'') t0 of
          Refuse reason \<Rightarrow> Inr (ChainBad (if reason = [] then ''signer_not_authorized'' else reason) (Some i), cache')
        | Accept _ \<Rightarrow>
        (if \<not> strict_eq (field r ''prevHop'') (case prev of None \<Rightarrow> VStr source | Some p \<Rightarrow> fst p)
           then Inr (ChainBad (if prev = None then ''wrong_source'' else ''chain_break'') (Some i), cache')
         else rbind (case prev of None \<Rightarrow> Inr False
             | Some p \<Rightarrow> rbind (js_add t1 skewMs) (\<lambda>t. Inr (js_less t (snd p)))) (\<lambda>late.
           if late then Inr (ChainBad ''time_regression'' (Some i), cache')
           else path_from C b source destination authorize skewMs (Suc i) (Some (field r ''thisHop'', t0))
             (field r ''thisHop'' # seen)
             (if is_prim (field r ''thisHop'') \<and> field r ''thisHop'' \<in> set seen then Suc revisits else revisits)
             cache' ls))))))"

definition verifyPath :: "crypto \<Rightarrow> path_link list \<Rightarrow> string \<Rightarrow> string \<Rightarrow> string \<Rightarrow> authorizer option \<Rightarrow> nat \<Rightarrow> int \<Rightarrow>
    verdict_cache \<Rightarrow> ((nat \<times> nat) chain_verdict \<times> verdict_cache) res" where
  "verifyPath C links b source destination authorize maxHops skewMs cache =
     (if links = [] then Inr (ChainBad ''empty_path'' None, cache)
      else if length links > maxHops then Inr (ChainBad ''too_many_hops'' None, cache)
      else case authorize of
        None \<Rightarrow> Inr (ChainBad ''no_authorizer'' None, cache)
      | Some f \<Rightarrow> path_from C b source destination f skewMs 0 None [] 0 cache links)"

text \<open>The pinned directory: a Map, or an object literal with its inherited names. A value is a key or a
  list of keys.\<close>

definition directory_get :: "bool \<Rightarrow> (string \<times> jsval) list \<Rightarrow> jsval \<Rightarrow> jsval option" where
  "directory_get is_map m who =
     (if is_map then (case who of VStr s \<Rightarrow> map_of m s | _ \<Rightarrow> None) else map_of m (js_String who))"

definition pinnedDirectory :: "bool \<Rightarrow> (string \<times> jsval) list \<Rightarrow> authorizer" where
  "pinnedDirectory is_map m pubkey who t =
     (case directory_get is_map m who of
        None \<Rightarrow> Refuse (if \<not> is_map \<and> js_String who \<in> set inherited_keys then ''signer_not_authorized''
                  else ''unknown_node'')
      | Some k \<Rightarrow>
          if (case k of VArr ks \<Rightarrow> is_prim pubkey \<and> pubkey \<in> set ks | _ \<Rightarrow> strict_eq k pubkey) then Accept ()
          else Refuse (if k = VUndef then ''unknown_node'' else ''signer_not_authorized''))"

section \<open>What an accepted path means\<close>

definition hop_ok :: "crypto \<Rightarrow> string \<Rightarrow> authorizer \<Rightarrow> path_link \<Rightarrow> bool" where
  "hop_ok C b authorize l \<longleftrightarrow> (\<exists>signer t0 t1. verifyRecord C (fst l) = Inr (Accept signer) \<and>
     hop_window C b l = Covers t0 t1 \<and> authorize signer (field (fst l) ''thisHop'') t0 = Accept ())"

definition entry_time :: "crypto \<Rightarrow> string \<Rightarrow> path_link \<Rightarrow> jsval" where
  "entry_time C b l = (case hop_window C b l of Covers t0 t1 \<Rightarrow> t0 | _ \<Rightarrow> VUndef)"

definition exit_time :: "crypto \<Rightarrow> string \<Rightarrow> path_link \<Rightarrow> jsval" where
  "exit_time C b l = (case hop_window C b l of Covers t0 t1 \<Rightarrow> t1 | _ \<Rightarrow> VUndef)"

definition follows :: "crypto \<Rightarrow> string \<Rightarrow> int \<Rightarrow> path_link \<Rightarrow> path_link \<Rightarrow> bool" where
  "follows C b skewMs l l' \<longleftrightarrow> strict_eq (field (fst l') ''prevHop'') (field (fst l) ''thisHop'') \<and>
     (\<exists>t. js_add (exit_time C b l') skewMs = Inr t \<and> \<not> js_less t (entry_time C b l))"

definition path_spec :: "crypto \<Rightarrow> string \<Rightarrow> string \<Rightarrow> string \<Rightarrow> authorizer \<Rightarrow> int \<Rightarrow> path_link list \<Rightarrow> bool" where
  "path_spec C b source destination authorize skewMs links \<longleftrightarrow> links \<noteq> [] \<and>
     (\<forall>l \<in> set links. hop_ok C b authorize l) \<and>
     field (fst (hd links)) ''prevHop'' = VStr source \<and>
     field (fst (last links)) ''thisHop'' = VStr destination \<and>
     (\<forall>i. Suc i < length links \<longrightarrow> follows C b skewMs (links ! i) (links ! Suc i))"

text \<open>No two records share a claimId, and the cache holds true verdicts for the records of the path.\<close>

definition claims_distinct :: "path_link list \<Rightarrow> bool" where
  "claims_distinct links \<longleftrightarrow> (\<forall>l \<in> set links. \<forall>l' \<in> set links. field (fst l) ''claimId'' = field (fst l') ''claimId'' \<longrightarrow>
     is_prim (field (fst l) ''claimId'') \<longrightarrow> fst l = fst l')"

definition cache_true :: "crypto \<Rightarrow> verdict_cache \<Rightarrow> path_link list \<Rightarrow> bool" where
  "cache_true C cache links \<longleftrightarrow> (\<forall>l \<in> set links. \<forall>v. is_prim (field (fst l) ''claimId'') \<longrightarrow>
     map_of cache (field (fst l) ''claimId'') = Some v \<longrightarrow> verifyRecord C (fst l) = Inr v)"

lemma cached_verdict_true:
  assumes "cache_true C cache links" "claims_distinct links" "l \<in> set links"
    and "cached_verdict C cache (fst l) = Inr (v, cache')"
  shows "verifyRecord C (fst l) = Inr v" and "cache_true C cache' links"
proof -
  let ?k = "field (fst l) ''claimId''"
  show v: "verifyRecord C (fst l) = Inr v"
    using assms(1,3,4) by (auto simp: cached_verdict_def cache_true_def Let_def split: option.splits if_splits)
  have "cache' = cache \<or> cache' = (?k, v) # cache"
    using assms(4) by (auto simp: cached_verdict_def Let_def split: option.splits if_splits)
  then show "cache_true C cache' links"
  proof
    assume c: "cache' = (?k, v) # cache"
    show ?thesis unfolding cache_true_def
    proof (intro ballI allI impI)
      fix l' w
      assume l': "l' \<in> set links" "is_prim (field (fst l') ''claimId'')"
        and w: "map_of cache' (field (fst l') ''claimId'') = Some w"
      show "verifyRecord C (fst l') = Inr w"
      proof (cases "field (fst l') ''claimId'' = ?k")
        case True
        then have "fst l' = fst l" using assms(2,3) l' unfolding claims_distinct_def by blast
        with True v w c show ?thesis by simp
      next
        case False
        then show ?thesis using w c l' assms(1) by (simp add: cache_true_def)
      qed
    qed
  qed (use assms(1) in simp)
qed

fun steps_ok :: "crypto \<Rightarrow> string \<Rightarrow> string \<Rightarrow> int \<Rightarrow> (jsval \<times> jsval) option \<Rightarrow> path_link list \<Rightarrow> bool" where
  "steps_ok C b source skewMs prev [] = True"
| "steps_ok C b source skewMs prev (l # ls) =
     (strict_eq (field (fst l) ''prevHop'') (case prev of None \<Rightarrow> VStr source | Some p \<Rightarrow> fst p) \<and>
      (prev = None \<or> (\<exists>t. js_add (exit_time C b l) skewMs = Inr t \<and> \<not> js_less t (snd (the prev)))) \<and>
      steps_ok C b source skewMs (Some (field (fst l) ''thisHop'', entry_time C b l)) ls)"

lemma path_from_ok:
  assumes "path_from C b source destination authorize skewMs i prev seen rv cache ls = Inr (ChainOk (n, w), cache')"
    and "set ls \<subseteq> set links" "cache_true C cache links" "claims_distinct links"
  shows "n = i + length ls \<and> (\<forall>l \<in> set ls. hop_ok C b authorize l) \<and> steps_ok C b source skewMs prev ls \<and>
    (if ls = [] then prev \<noteq> None \<and> fst (the prev) = VStr destination
     else field (fst (last ls)) ''thisHop'' = VStr destination)"
  using assms
proof (induction ls arbitrary: i prev seen rv cache)
  case Nil
  then show ?case by (auto split: if_splits)
next
  case (Cons l ls)
  obtain v c where v: "cached_verdict C cache (fst l) = Inr (v, c)"
    using Cons.prems(1) by (auto simp: Let_def)
  have l: "l \<in> set links" using Cons.prems(2) by simp
  note tv = cached_verdict_true [OF Cons.prems(3,4) l v]
  obtain signer where s: "v = Accept signer"
    using Cons.prems(1) by (cases v) (auto simp: v Let_def)
  obtain t0 t1 where h: "hop_window C b l = Covers t0 t1"
    using Cons.prems(1) by (cases "hop_window C b l") (auto simp: v s Let_def)
  have a: "authorize signer (field (fst l) ''thisHop'') t0 = Accept ()"
    using Cons.prems(1) by (cases "authorize signer (field (fst l) ''thisHop'') t0") (auto simp: v s h Let_def)
  have p: "strict_eq (field (fst l) ''prevHop'') (case prev of None \<Rightarrow> VStr source | Some p \<Rightarrow> fst p)"
    using Cons.prems(1) by (auto simp: v s h a Let_def split: if_splits)
  have t: "prev = None \<or> (\<exists>t. js_add t1 skewMs = Inr t \<and> \<not> js_less t (snd (the prev)))"
    using Cons.prems(1) p by (cases prev) (auto simp: v s h a Let_def split: if_splits)
  have rest: "\<exists>seen' rv'. path_from C b source destination authorize skewMs (Suc i)
      (Some (field (fst l) ''thisHop'', t0)) seen' rv' c ls = Inr (ChainOk (n, w), cache')"
    using Cons.prems(1) p by (fastforce simp: v s h a Let_def split: if_splits)
  then have "n = Suc i + length ls \<and> (\<forall>l \<in> set ls. hop_ok C b authorize l) \<and>
      steps_ok C b source skewMs (Some (field (fst l) ''thisHop'', t0)) ls \<and>
      (if ls = [] then field (fst l) ''thisHop'' = VStr destination
       else field (fst (last ls)) ''thisHop'' = VStr destination)"
    using Cons.IH Cons.prems(2,4) tv(2) by fastforce
  moreover have "hop_ok C b authorize l" using tv(1) s h a by (auto simp: hop_ok_def)
  ultimately show ?case using p t by (auto simp: entry_time_def exit_time_def h)
qed

lemma steps_ok_follows: "steps_ok C b source skewMs (Some (field (fst l) ''thisHop'', entry_time C b l)) ls \<Longrightarrow>
    Suc i < length (l # ls) \<Longrightarrow> follows C b skewMs ((l # ls) ! i) ((l # ls) ! Suc i)"
proof (induction ls arbitrary: l i)
  case (Cons l' ls)
  then show ?case
  proof (cases i)
    case 0
    then show ?thesis using Cons.prems by (simp add: follows_def)
  next
    case (Suc j)
    then show ?thesis using Cons.IH [of l' j] Cons.prems by simp
  qed
qed simp

text \<open>
  Property C4. If no two records of the path share a claimId and the cache holds no other record's verdict,
  an accepted path is a real one: every hop's record verifies under a key authorized for that node
  and time and covers the bundle, the hops link from the source to the destination, and the times
  do not go back by more than the allowed skew.
\<close>

theorem verifyPath_sound:
  assumes "verifyPath C links b source destination (Some authorize) maxHops skewMs cache = Inr (ChainOk (n, w), cache')"
    and "claims_distinct links" and "cache_true C cache links"
  shows "n = length links \<and> length links \<le> maxHops \<and> path_spec C b source destination authorize skewMs links"
proof -
  have ne: "links \<noteq> []" and len: "length links \<le> maxHops"
    and run: "path_from C b source destination authorize skewMs 0 None [] 0 cache links = Inr (ChainOk (n, w), cache')"
    using assms(1) by (auto simp: verifyPath_def split: if_splits)
  note ok = path_from_ok [OF run subset_refl assms(3,2)]
  obtain l ls where l: "links = l # ls" using ne by (cases links) auto
  have "follows C b skewMs (links ! i) (links ! Suc i)" if "Suc i < length links" for i
    using steps_ok_follows [of C b source skewMs l ls i] ok that by (simp add: l)
  with ok ne len show ?thesis by (simp add: path_spec_def l)
qed

section \<open>What the cache gives away\<close>

text \<open>An unsigned record that carries the claimId of somebody else's record.\<close>

definition forged_hop :: "string \<Rightarrow> string \<Rightarrow> string \<Rightarrow> string \<Rightarrow> int \<Rightarrow> jsval" where
  "forged_hop claim b prevHop thisHop t =
     VObj [(''kind'', VStr ''custody/1''), (''bundleId'', VStr b), (''prevHop'', VStr prevHop),
           (''thisHop'', VStr thisHop), (''receivedAt'', VNum t), (''forwardedAt'', VNum t), (''claimId'', VStr claim)]"

lemma forged_hop_refused: "\<exists>reason. verifyRecord C (forged_hop claim b p h t) = Inr (Refuse reason)"
proof -
  obtain i where "contentId C (forged_hop claim b p h t) = Inr i"
    using contentId_flat [of _ C] unfolding forged_hop_def by (fastforce simp: flat_def)
  then show ?thesis by (simp add: verifyRecord_def) (simp add: forged_hop_def)
qed

text \<open>
  The cache of \<open>verifyPath\<close> defeats the record check: after any accepted one-hop path, an unsigned
  record that repeats the claimId of its receipt extends the path to any node the signer may speak for,
  although \<open>verifyRecord\<close> refuses that record. So the premise of the soundness theorem is needed.
\<close>

theorem cached_claim_accepts_forgery:
  assumes "verifyPath C [(r, p)] b source mid (Some authorize) maxHops skewMs [] = Inr (ChainOk (1, 0), cache)"
    and "field r ''claimId'' = VStr claim" "claim \<noteq> []" and "maxHops \<ge> 2" "skewMs \<ge> 0"
    and "entry_time C b (r, p) = VNum e" "e \<le> t"
    and "authorize (field r ''signerPub'') (VStr dst) (VNum t) = Accept ()"
  shows "(\<exists>w cache'. verifyPath C [(r, p), (forged_hop claim b mid dst t, None)] b source dst (Some authorize)
      maxHops skewMs [] = Inr (ChainOk (2, w), cache')) \<and>
    (\<exists>reason. verifyRecord C (forged_hop claim b mid dst t) = Inr (Refuse reason))"
proof
  have run: "path_from C b source mid authorize skewMs 0 None [] 0 [] [(r, p)] = Inr (ChainOk (1, 0), cache)"
    using assms(1,4) by (auto simp: verifyPath_def split: if_splits)
  let ?f = "forged_hop claim b mid dst t"
  have "cache_true C [] [(r, p)]" "claims_distinct [(r, p)]"
    by (simp_all add: cache_true_def claims_distinct_def)
  note ok = path_from_ok [OF run subset_refl this, simplified]
  then obtain signer t0 t1 where v: "verifyRecord C r = Inr (Accept signer)"
    and w: "hop_window C b (r, p) = Covers t0 t1" and a: "authorize signer (field r ''thisHop'') t0 = Accept ()"
    by (auto simp: hop_ok_def)
  have pr: "field r ''prevHop'' = VStr source" and th: "field r ''thisHop'' = VStr mid" using ok by simp_all
  have sg: "signer = field r ''signerPub''" using v by (simp add: verifyRecord_Accept)
  have cv: "cached_verdict C [] r = Inr (Accept signer, [(VStr claim, Accept signer)])"
    using assms(2,3) v by (simp add: cached_verdict_def)
  have cf: "cached_verdict C [(VStr claim, Accept signer)] ?f = Inr (Accept signer, [(VStr claim, Accept signer)])"
    by (simp add: cached_verdict_def forged_hop_def)
  have e: "t0 = VNum e" using assms(6) by (simp add: entry_time_def w)
  have wf: "hop_window C b (?f, None) = Covers (VNum t) (VNum t)"
    by (simp add: hop_window_def forged_hop_def BATCH_KIND_def)
  have f: "field ?f ''thisHop'' = VStr dst" "field ?f ''prevHop'' = VStr mid" by (simp_all add: forged_hop_def)
  have "\<exists>w cache'. path_from C b source dst authorize skewMs 0 None [] 0 [] [(r, p), (?f, None)] = Inr (ChainOk (2, w), cache')"
    using assms(5,7,8) by (simp add: cv cf w wf a [unfolded e th] e th f pr sg [symmetric] Let_def numeral_2_eq_2)
  then show "\<exists>w cache'. verifyPath C [(r, p), (?f, None)] b source dst (Some authorize)
      maxHops skewMs [] = Inr (ChainOk (2, w), cache')"
    using assms(4) by (simp add: verifyPath_def)
  show "\<exists>reason. verifyRecord C ?f = Inr (Refuse reason)" by (rule forged_hop_refused)
qed

section \<open>Putting records in route order\<close>

text \<open>
  One record of a bundle, with the fields \<open>assemblePath\<close> reads; the times are those the record carries
  (a batch has from/to, a per-bundle receipt receivedAt/forwardedAt).
\<close>

record hop_entry =
  e_prev :: string
  e_this :: string
  e_t :: "int option"
  e_from :: "int option"
  e_to :: "int option"
  e_received :: int
  e_forwarded :: "int option"

definition entry_start :: "hop_entry \<Rightarrow> int" where
  "entry_start e = (case e_t e of Some t \<Rightarrow> t | None \<Rightarrow> (case e_from e of Some t \<Rightarrow> t | None \<Rightarrow> e_received e))"

definition entry_end :: "hop_entry \<Rightarrow> int" where
  "entry_end e = (case e_t e of Some t \<Rightarrow> t | None \<Rightarrow> (case e_to e of Some t \<Rightarrow> t | None \<Rightarrow>
     (case e_forwarded e of Some t \<Rightarrow> t | None \<Rightarrow> entry_start e)))"

text \<open>
  Entries are compared by identity in the code, so the model works on their positions. \<open>by_start\<close> is
  the list of \<open>byPrev\<close> after the first sort, \<open>by_end\<close> after the second (both sorts are stable).
\<close>

definition by_start :: "hop_entry list \<Rightarrow> string \<Rightarrow> nat list" where
  "by_start es at = sort_key (\<lambda>j. entry_start (es ! j)) (filter (\<lambda>j. e_prev (es ! j) = at) [0..<length es])"

definition by_end :: "hop_entry list \<Rightarrow> string \<Rightarrow> nat list" where
  "by_end es at = sort_key (\<lambda>j. entry_end (es ! j)) (by_start es at)"

text \<open>The loop of lines 85--92; each turn uses a fresh entry, so \<open>length es\<close> turns are enough.\<close>

fun greedy_walk :: "hop_entry list \<Rightarrow> nat \<Rightarrow> string \<Rightarrow> nat list \<Rightarrow> nat list" where
  "greedy_walk es 0 at out = out"
| "greedy_walk es (Suc fuel) at out =
     (case find (\<lambda>j. j \<notin> set out) (by_start es at) of
        None \<Rightarrow> out
      | Some j \<Rightarrow> greedy_walk es fuel (e_this (es ! j)) (out @ [j]))"

definition later :: "int option \<Rightarrow> int \<Rightarrow> int" where
  "later cur t = (case cur of None \<Rightarrow> t | Some c \<Rightarrow> max c t)"

fun feasible :: "hop_entry list \<Rightarrow> int option \<Rightarrow> nat list \<Rightarrow> bool" where
  "feasible es cur [] = True"
| "feasible es cur (j # js) =
     (let t = later cur (entry_start (es ! j)) in t \<le> entry_end (es ! j) \<and> feasible es (Some t) js)"

text \<open>The bounded search: \<open>dfs\<close> and the \<open>for\<close> loop in its body. The budget is threaded through.\<close>

fun dfs :: "hop_entry list \<Rightarrow> nat \<Rightarrow> string \<Rightarrow> int option \<Rightarrow> nat list \<Rightarrow> int \<Rightarrow> nat list option \<times> int"
  and dfs_each :: "hop_entry list \<Rightarrow> nat \<Rightarrow> nat list \<Rightarrow> int option \<Rightarrow> nat list \<Rightarrow> int \<Rightarrow> nat list option \<times> int" where
  "dfs es fuel at cur walk budget =
     (if length walk = length es then (Some walk, budget)
      else case fuel of 0 \<Rightarrow> (None, budget) | Suc f \<Rightarrow> dfs_each es f (by_end es at) cur walk budget)"
| "dfs_each es f [] cur walk budget = (None, budget)"
| "dfs_each es f (j # js) cur walk budget =
     (let t = later cur (entry_start (es ! j)) in
      if j \<in> set walk \<or> t > entry_end (es ! j) then dfs_each es f js cur walk budget
      else if budget - 1 < 0 then (None, budget - 1)
      else (case dfs es f (e_this (es ! j)) (Some t) (walk @ [j]) (budget - 1) of
              (Some w, b) \<Rightarrow> (Some w, b)
            | (None, b) \<Rightarrow> dfs_each es f js cur walk b))"

definition assemblePath :: "hop_entry list \<Rightarrow> string \<Rightarrow> nat list" where
  "assemblePath es source =
     (let out = greedy_walk es (length es) source [] in
      if length out = length es \<and> feasible es None out then out
      else case fst (dfs es (length es) source None [] 200000) of Some w \<Rightarrow> w | None \<Rightarrow> out)"

text \<open>A chain of records from \<open>at\<close>, and the node it ends at.\<close>

fun route :: "hop_entry list \<Rightarrow> string \<Rightarrow> nat list \<Rightarrow> bool" where
  "route es at [] = True"
| "route es at (j # js) = (j < length es \<and> e_prev (es ! j) = at \<and> route es (e_this (es ! j)) js)"

fun route_end :: "hop_entry list \<Rightarrow> string \<Rightarrow> nat list \<Rightarrow> string" where
  "route_end es at [] = at"
| "route_end es at (j # js) = route_end es (e_this (es ! j)) js"

lemma route_append [simp]: "route es at (xs @ ys) \<longleftrightarrow> route es at xs \<and> route es (route_end es at xs) ys"
  by (induction xs arbitrary: at) auto

lemma route_end_append [simp]: "route_end es at (xs @ ys) = route_end es (route_end es at xs) ys"
  by (induction xs arbitrary: at) auto

lemma set_by [simp]: "set (by_start es at) = {j. j < length es \<and> e_prev (es ! j) = at}"
    "set (by_end es at) = {j. j < length es \<and> e_prev (es ! j) = at}"
  by (auto simp: by_start_def by_end_def)

lemma find_SomeD: "find P xs = Some x \<Longrightarrow> x \<in> set xs \<and> P x"
  by (induction xs) (auto split: if_splits)

lemma greedy_walk_route:
  "route es s out \<Longrightarrow> distinct out \<Longrightarrow> at = route_end es s out \<Longrightarrow>
   route es s (greedy_walk es fuel at out) \<and> distinct (greedy_walk es fuel at out)"
proof (induction fuel arbitrary: at out)
  case (Suc fuel)
  show ?case
  proof (cases "find (\<lambda>j. j \<notin> set out) (by_start es at)")
    case (Some j)
    note j = find_SomeD [OF this]
    with Some Suc show ?thesis by (simp add: Suc.IH)
  qed (use Suc.prems in simp)
qed simp

text \<open>The time the bundle has reached after a list of records.\<close>

fun reach_time :: "hop_entry list \<Rightarrow> int option \<Rightarrow> nat list \<Rightarrow> int option" where
  "reach_time es cur [] = cur"
| "reach_time es cur (j # js) = reach_time es (Some (later cur (entry_start (es ! j)))) js"

lemma feasible_append [simp]: "feasible es cur (xs @ ys) \<longleftrightarrow> feasible es cur xs \<and> feasible es (reach_time es cur xs) ys"
  by (induction xs arbitrary: cur) (auto simp: Let_def)

lemma reach_time_append [simp]: "reach_time es cur (xs @ ys) = reach_time es (reach_time es cur xs) ys"
  by (induction xs arbitrary: cur) auto

definition good_walk :: "hop_entry list \<Rightarrow> string \<Rightarrow> nat list \<Rightarrow> bool" where
  "good_walk es s w \<longleftrightarrow> route es s w \<and> distinct w \<and> feasible es None w"

declare dfs.simps [simp del]

lemma dfs_good:
  "good_walk es s walk \<Longrightarrow> at = route_end es s walk \<Longrightarrow> cur = reach_time es None walk \<Longrightarrow>
     fst (dfs es fuel at cur walk budget) = Some w \<Longrightarrow> good_walk es s w \<and> length w = length es"
  "good_walk es s walk \<Longrightarrow> set js \<subseteq> set (by_end es (route_end es s walk)) \<Longrightarrow> cur = reach_time es None walk \<Longrightarrow>
     fst (dfs_each es fuel js cur walk budget) = Some w \<Longrightarrow> good_walk es s w \<and> length w = length es"
proof (induction es fuel at cur walk budget and es fuel js cur walk budget
    arbitrary: w and w rule: dfs_dfs_each.induct)
  case (1 es fuel at cur walk budget)
  show ?case
  proof (cases "length walk = length es")
    case True
    with 1(2-) show ?thesis by (simp add: dfs.simps)
  next
    case False
    then obtain f where f: "fuel = Suc f" "fst (dfs_each es f (by_end es at) cur walk budget) = Some w"
      using 1(5) by (cases fuel) (simp_all add: dfs.simps)
    show ?thesis using 1(1) [OF False f(1) 1(2) _ 1(4) f(2)] 1(3) by simp
  qed
next
  case (3 es f j js cur walk budget)
  let ?t = "later cur (entry_start (es ! j))"
  have js: "set js \<subseteq> set (by_end es (route_end es s walk))" using 3(5) by simp
  show ?case
  proof (cases "j \<in> set walk \<or> entry_end (es ! j) < ?t")
    case True
    then have "fst (dfs_each es f js cur walk budget) = Some w" using 3(7) by (auto simp: Let_def)
    from 3(1) [OF refl True 3(4) js 3(6) this] show ?thesis .
  next
    case fresh: False
    then have b: "\<not> budget - 1 < 0" using 3(7) by (auto simp: Let_def)
    have j: "j < length es" "e_prev (es ! j) = route_end es s walk" using 3(5) by simp_all
    have good: "good_walk es s (walk @ [j])"
      using 3(4,6) j fresh by (auto simp: good_walk_def Let_def)
    obtain w' b' where d: "(w', b') = dfs es f (e_this (es ! j)) (Some ?t) (walk @ [j]) (budget - 1)"
      by (cases "dfs es f (e_this (es ! j)) (Some ?t) (walk @ [j]) (budget - 1)") simp
    show ?thesis
    proof (cases w')
      case None
      then have "fst (dfs_each es f js cur walk b') = Some w"
        using 3(7) fresh b d [symmetric] by (simp add: Let_def)
      from 3(3) [OF refl fresh b d None 3(4) js 3(6) this] show ?thesis .
    next
      case (Some w0)
      have "fst (dfs es f (e_this (es ! j)) (Some ?t) (walk @ [j]) (budget - 1)) = Some w"
        using 3(7) fresh b d [symmetric] Some by (simp add: Let_def)
      from 3(2) [OF refl fresh b good _ _ this] 3(6) show ?thesis by simp
    qed
  qed
qed simp_all

text \<open>
  \<open>assemblePath\<close> returns distinct records that link hop to hop from the source; and when it does
  not fall back to the greedy walk it uses every record, at times that rise within the records' windows.
\<close>

theorem assemblePath_route:
  "route es source (assemblePath es source) \<and> distinct (assemblePath es source) \<and>
   (assemblePath es source = greedy_walk es (length es) source [] \<or>
    length (assemblePath es source) = length es \<and> feasible es None (assemblePath es source))"
proof -
  have g: "route es source (greedy_walk es (length es) source [])" "distinct (greedy_walk es (length es) source [])"
    using greedy_walk_route [of es source "[]" source "length es"] by simp_all
  show ?thesis
  proof (cases "fst (dfs es (length es) source None [] 200000)")
    case None
    with g show ?thesis by (simp add: assemblePath_def Let_def)
  next
    case (Some w)
    have "good_walk es source w \<and> length w = length es"
      by (rule dfs_good(1) [OF _ _ _ Some]) (simp_all add: good_walk_def)
    with g Some show ?thesis by (auto simp: assemblePath_def Let_def good_walk_def)
  qed
qed

section \<open>Witnesses\<close>

lemma one_hop_path:
  assumes "custodyReceipt toy (toy_key k) (VStr pid) (VStr b) (VStr src) dst (VNum x) (VNum y) = Inr r"
  shows "\<exists>i c. field r ''claimId'' = VStr i \<and> i \<noteq> [] \<and> entry_time toy b (r, None) = VNum x \<and>
    verifyPath toy [(r, None)] b src dst (Some (\<lambda>_ _ _. Accept ())) 64 0 [] = Inr (ChainOk (1, 0), c)"
proof -
  note sr = assms [unfolded custodyReceipt_def custody_content_def]
  note f = signRecord_field(1) [OF sr]
  have v: "verifyRecord toy r = Inr (Accept (VStr (pub (toy_key k))))"
    by (rule verifyRecord_signRecord [OF toy_sig_correct toy_key_ok sr])
  obtain i where i: "contentId toy (VObj [(''kind'', VStr ''custody/1''), (''payloadId'', VStr pid),
      (''bundleId'', VStr b), (''prevHop'', VStr src), (''thisHop'', VStr dst), (''receivedAt'', VNum x),
      (''forwardedAt'', VNum y)]) = Inr i" using sr by (auto simp: signRecord_Inr)
  have claim: "field r ''claimId'' = VStr i" "i \<noteq> []"
    using signRecord_field(4) [OF sr i] contentId_0x [OF i] by simp_all
  have w: "hop_window toy b (r, None) = Covers (VNum x) (VNum y)"
    using f by (simp add: hop_window_def credential_fields_def BATCH_KIND_def)
  have "field r ''prevHop'' = VStr src" "field r ''thisHop'' = VStr dst"
    using f by (simp_all add: credential_fields_def)
  with v claim w show ?thesis
    by (simp add: verifyPath_def cached_verdict_def entry_time_def)
qed

lemma verifyPath_sound_witness:
  "\<exists>r. custodyReceipt toy (toy_key ''k'') (VStr ''p'') (VStr ''b'') (VStr ''s'') ''d'' (VNum 1) (VNum 2) = Inr r \<and>
     path_spec toy ''b'' ''s'' ''d'' (\<lambda>_ _ _. Accept ()) 0 [(r, None)]"
proof -
  obtain r where r: "custodyReceipt toy (toy_key ''k'') (VStr ''p'') (VStr ''b'') (VStr ''s'') ''d'' (VNum 1) (VNum 2) = Inr r"
    using custodyReceipt_total by fastforce
  from one_hop_path [OF r] obtain c where
    c: "verifyPath toy [(r, None)] ''b'' ''s'' ''d'' (Some (\<lambda>_ _ _. Accept ())) 64 0 [] = Inr (ChainOk (1, 0), c)"
    by blast
  have "path_spec toy ''b'' ''s'' ''d'' (\<lambda>_ _ _. Accept ()) 0 [(r, None)]"
    using verifyPath_sound [OF c] by (simp add: cache_true_def claims_distinct_def)
  with r show ?thesis by blast
qed

lemma cached_claim_accepts_forgery_witness:
  "\<exists>r i. custodyReceipt toy (toy_key ''k'') (VStr ''p'') (VStr ''b'') (VStr ''s'') ''d'' (VNum 1) (VNum 2) = Inr r \<and>
     (\<exists>w c. verifyPath toy [(r, None), (forged_hop i ''b'' ''d'' ''x'' 5, None)] ''b'' ''s'' ''x''
        (Some (\<lambda>_ _ _. Accept ())) 64 0 [] = Inr (ChainOk (2, w), c))"
proof -
  obtain r where r: "custodyReceipt toy (toy_key ''k'') (VStr ''p'') (VStr ''b'') (VStr ''s'') ''d'' (VNum 1) (VNum 2) = Inr r"
    using custodyReceipt_total by fastforce
  from one_hop_path [OF r] obtain i c where c: "field r ''claimId'' = VStr i" "i \<noteq> []"
    "entry_time toy ''b'' (r, None) = VNum 1"
    "verifyPath toy [(r, None)] ''b'' ''s'' ''d'' (Some (\<lambda>_ _ _. Accept ())) 64 0 [] = Inr (ChainOk (1, 0), c)"
    by blast
  from cached_claim_accepts_forgery [OF c(4,1,2) _ _ c(3), of 5 "''x''"] r show ?thesis by auto
qed

end
