(* ===== verification/StreamMerkle.thy ===== *)
theory StreamMerkle
  imports Merkle
begin

text \<open>
  agent/lib/stream-merkle.mjs: the Merkle tree built one leaf at a time, with one pending node per
  level and the inclusion proofs of the watched leaves collected on the way. The theory proves that
  it computes the root and the proofs of agent/lib/merkle.mjs, so that it provides the same
  inclusion-proof interface.
\<close>

section \<open>The class\<close>

record stream_node =
  n_h :: bytes
  n_w :: "nat list option"

record stream =
  pending :: "stream_node option list"
  s_count :: nat
  s_proofs :: "nat \<rightharpoonup> bytes list"
  s_done :: "bytes option"

definition h2 :: "crypto \<Rightarrow> bytes \<Rightarrow> bytes \<Rightarrow> bytes" where
  "h2 C l r = sha256 C (1 # l @ r)"

definition leafOf :: "crypto \<Rightarrow> bytes \<Rightarrow> bytes" where
  "leafOf C b = sha256 C (0 # b)"

definition stream_new :: stream where
  "stream_new = \<lparr>pending = [], s_count = 0, s_proofs = Map.empty, s_done = None\<rparr>"

text \<open>\<open>for (const i of ids) this.proofs.get(i).push(h)\<close>.\<close>

definition push_all :: "nat list option \<Rightarrow> bytes \<Rightarrow> (nat \<rightharpoonup> bytes list) \<Rightarrow> (nat \<rightharpoonup> bytes list)" where
  "push_all ids h m = (case ids of None \<Rightarrow> m
     | Some is \<Rightarrow> foldl (\<lambda>m i. m(i := map_option (\<lambda>p. p @ [h]) (m i))) m is)"

definition sm_join :: "crypto \<Rightarrow> stream_node \<Rightarrow> stream_node \<Rightarrow> (nat \<rightharpoonup> bytes list) \<Rightarrow>
    stream_node \<times> (nat \<rightharpoonup> bytes list)" where
  "sm_join C L R m =
     (\<lparr>n_h = h2 C (n_h L) (n_h R),
       n_w = (case (n_w L, n_w R) of (Some a, Some b) \<Rightarrow> Some (a @ b) | (Some a, None) \<Rightarrow> Some a | (None, r) \<Rightarrow> r)\<rparr>,
      push_all (n_w R) (n_h L) (push_all (n_w L) (n_h R) m))"

definition sm_dup :: "crypto \<Rightarrow> stream_node \<Rightarrow> (nat \<rightharpoonup> bytes list) \<Rightarrow> stream_node \<times> (nat \<rightharpoonup> bytes list)" where
  "sm_dup C P m = (\<lparr>n_h = h2 C (n_h P) (n_h P), n_w = n_w P\<rparr>, push_all (n_w P) (n_h P) m)"

text \<open>The \<open>while\<close> loop of \<open>add\<close>.\<close>

fun insert_node :: "crypto \<Rightarrow> stream_node option list \<Rightarrow> stream_node \<Rightarrow> (nat \<rightharpoonup> bytes list) \<Rightarrow>
    stream_node option list \<times> (nat \<rightharpoonup> bytes list)" where
  "insert_node C [] n m = ([Some n], m)"
| "insert_node C (None # ps) n m = (Some n # ps, m)"
| "insert_node C (Some p # ps) n m =
     (let (n', m') = sm_join C p n m; (ps', m'') = insert_node C ps n' m' in (None # ps', m''))"

definition sm_add :: "crypto \<Rightarrow> stream \<Rightarrow> bytes \<Rightarrow> bool \<Rightarrow> (stream \<times> nat) res" where
  "sm_add C st leaf watch =
     (if s_done st \<noteq> None then Inl ''StreamMerkle: closed''
      else if length leaf \<noteq> 32 then Inl ''StreamMerkle: leaf must be a 32-byte hash''
      else
        let index = s_count st;
            m = (if watch then (s_proofs st)(index \<mapsto> []) else s_proofs st);
            (ps, m') = insert_node C (pending st) \<lparr>n_h = leaf, n_w = (if watch then Some [index] else None)\<rparr> m
        in Inr (st\<lparr>pending := ps, s_count := Suc index, s_proofs := m'\<rparr>, index))"

text \<open>The \<open>for\<close> loop of \<open>root\<close> over the levels, from the lowest.\<close>

fun close_levels :: "crypto \<Rightarrow> stream_node option list \<Rightarrow> stream_node option \<Rightarrow> (nat \<rightharpoonup> bytes list) \<Rightarrow>
    stream_node option \<times> (nat \<rightharpoonup> bytes list)" where
  "close_levels C [] carry m = (carry, m)"
| "close_levels C (p # ps) carry m =
     (if \<not> list_ex (\<lambda>x. x \<noteq> None) ps \<and> (p \<noteq> None \<longleftrightarrow> carry = None) then (if p \<noteq> None then p else carry, m)
      else case (p, carry) of
        (Some a, Some c) \<Rightarrow> (let (n, m') = sm_join C a c m in close_levels C ps (Some n) m')
      | (Some a, None) \<Rightarrow> (let (n, m') = sm_dup C a m in close_levels C ps (Some n) m')
      | (None, Some c) \<Rightarrow> (let (n, m') = sm_dup C c m in close_levels C ps (Some n) m')
      | (None, None) \<Rightarrow> close_levels C ps None m)"

definition sm_root :: "crypto \<Rightarrow> stream \<Rightarrow> (bytes \<times> stream) res" where
  "sm_root C st =
     (case s_done st of
        Some r \<Rightarrow> Inr (r, st)
      | None \<Rightarrow>
          if s_count st = 0 then Inl ''StreamMerkle: no leaves''
          else (case close_levels C (pending st) None (s_proofs st) of
              (Some c, m) \<Rightarrow> Inr (n_h c, st\<lparr>s_proofs := m, s_done := Some (n_h c)\<rparr>)
            | (None, m) \<Rightarrow> Inl ''Cannot read properties of null''))"

definition sm_proof :: "stream \<Rightarrow> nat \<Rightarrow> (string list option) res" where
  "sm_proof st index =
     (if s_done st = None then Inl ''StreamMerkle: call root() first''
      else Inr (map_option (map to_hex) (s_proofs st index)))"

text \<open>A contact: leaves added one after the other, some of them watched.\<close>

fun feed :: "crypto \<Rightarrow> stream \<Rightarrow> (bytes \<times> bool) list \<Rightarrow> stream res" where
  "feed C st [] = Inr st"
| "feed C st ((leaf, watch) # rest) = rbind (sm_add C st leaf watch) (\<lambda>(st', i). feed C st' rest)"

section \<open>Nodes that carry their own proofs\<close>

text \<open>
  The code keeps the proofs in one map; here each node carries the proofs of the watched leaves
  below it, which makes both loops maps over layers.
\<close>

type_synonym anode = "bytes \<times> (nat \<times> bytes list) list"

definition extend :: "bytes \<Rightarrow> (nat \<times> bytes list) list \<Rightarrow> (nat \<times> bytes list) list" where
  "extend h ws = map (\<lambda>(i, p). (i, p @ [h])) ws"

definition ajoin :: "crypto \<Rightarrow> anode \<Rightarrow> anode \<Rightarrow> anode" where
  "ajoin C a b = (h2 C (fst a) (fst b), extend (fst b) (snd a) @ extend (fst a) (snd b))"

definition adup :: "crypto \<Rightarrow> anode \<Rightarrow> anode" where
  "adup C a = (h2 C (fst a) (fst a), extend (fst a) (snd a))"

fun apair :: "crypto \<Rightarrow> anode list \<Rightarrow> anode list" where
  "apair C (a # b # r) = ajoin C a b # apair C r"
| "apair C [a] = [adup C a]"
| "apair C [] = []"

fun ainsert :: "crypto \<Rightarrow> anode option list \<Rightarrow> anode \<Rightarrow> anode option list" where
  "ainsert C [] n = [Some n]"
| "ainsert C (None # ps) n = Some n # ps"
| "ainsert C (Some p # ps) n = None # ainsert C ps (ajoin C p n)"

fun aclose :: "crypto \<Rightarrow> anode option list \<Rightarrow> anode option \<Rightarrow> anode option" where
  "aclose C [] carry = carry"
| "aclose C (p # ps) carry =
     (if \<not> list_ex (\<lambda>x. x \<noteq> None) ps \<and> (p \<noteq> None \<longleftrightarrow> carry = None) then (if p \<noteq> None then p else carry)
      else case (p, carry) of
        (Some a, Some c) \<Rightarrow> aclose C ps (Some (ajoin C a c))
      | (Some a, None) \<Rightarrow> aclose C ps (Some (adup C a))
      | (None, Some c) \<Rightarrow> aclose C ps (Some (adup C c))
      | (None, None) \<Rightarrow> aclose C ps None)"

lemma length_apair [simp]: "length (apair C A) = (length A + 1) div 2"
  by (induction C A rule: apair.induct) auto

lemma apair_append: "even (length A) \<Longrightarrow> apair C (A @ B) = apair C A @ apair C B"
  by (induction C A rule: apair.induct) auto

lemma apair_eq_Nil [simp]: "apair C A = [] \<longleftrightarrow> A = []"
  by (cases "(C, A)" rule: apair.cases) auto

text \<open>The pending nodes of a layer and the layers above it.\<close>

fun stacked :: "crypto \<Rightarrow> anode option list \<Rightarrow> anode list \<Rightarrow> bool" where
  "stacked C [] A = (A = [])"
| "stacked C (None # ps) A = (even (length A) \<and> stacked C ps (apair C A))"
| "stacked C (Some h # ps) A = (\<exists>A'. A = A' @ [h] \<and> even (length A') \<and> stacked C ps (apair C A'))"

lemma stacked_insert: "stacked C ps A \<Longrightarrow> stacked C (ainsert C ps n) (A @ [n])"
proof (induction C ps n arbitrary: A rule: ainsert.induct)
  case (3 C p ps n)
  then obtain A' where A: "A = A' @ [p]" "even (length A')" "stacked C ps (apair C A')" by auto
  have "apair C (A @ [n]) = apair C A' @ [ajoin C p n]" using A by (simp add: apair_append)
  with 3 A show ?case by simp
qed auto

function atop :: "crypto \<Rightarrow> anode list \<Rightarrow> anode" where
  "atop C A = (if length A > 1 then atop C (apair C A) else hd A)"
  by pat_completeness auto
termination
  by (relation "measure (\<lambda>(C, A). length A)") auto

declare atop.simps [simp del]

lemma atop_rec: "length A > 1 \<Longrightarrow> atop C A = atop C (apair C A)"
  by (subst atop.simps) simp

lemma atop_single: "atop C [a] = a"
  by (subst atop.simps) simp

lemma stacked_empty: "stacked C ps A \<Longrightarrow> \<not> list_ex (\<lambda>x. x \<noteq> None) ps \<longleftrightarrow> A = []"
proof (induction C ps A rule: stacked.induct)
  case (3 C h ps A)
  then show ?case by auto
qed auto

lemma aclose_top:
  "stacked C ps A \<Longrightarrow> A \<noteq> [] \<or> carry \<noteq> None \<Longrightarrow>
   aclose C ps carry = Some (atop C (A @ (case carry of None \<Rightarrow> [] | Some c \<Rightarrow> [c])))"
proof (induction ps arbitrary: A carry)
  case Nil
  then show ?case by (auto simp: atop_single)
next
  case (Cons p ps)
  have two: "A' \<noteq> [] \<Longrightarrow> even (length A') \<Longrightarrow> length A' > 1" for A' :: "anode list"
    by (cases A' rule: remdups_adj.cases) auto
  show ?case
  proof (cases p)
    case None
    then have A: "even (length A)" "stacked C ps (apair C A)" using Cons.prems(1) by auto
    note above = stacked_empty [OF A(2)]
    show ?thesis
    proof (cases carry)
      case c: None
      then have "A \<noteq> []" using Cons.prems(2) by simp
      with above A None c two [OF this A(1)] Cons.IH [OF A(2), of None] show ?thesis
        by (simp add: atop_rec)
    next
      case (Some c)
      show ?thesis
      proof (cases "A = []")
        case True
        with above Some None show ?thesis by (simp add: atop_single)
      next
        case False
        with above A None Some Cons.IH [OF A(2), of "Some (adup C c)"] show ?thesis
          by (simp add: atop_rec apair_append)
      qed
    qed
  next
    case (Some h)
    then obtain A' where A: "A = A' @ [h]" "even (length A')" "stacked C ps (apair C A')"
      using Cons.prems(1) by auto
    note above = stacked_empty [OF A(3)]
    show ?thesis
    proof (cases carry)
      case None
      show ?thesis
      proof (cases "A' = []")
        case True
        with above A Some None show ?thesis by (simp add: atop_single)
      next
        case False
        with above A Some None Cons.IH [OF A(3), of "Some (adup C h)"] show ?thesis
          by (simp add: atop_rec apair_append)
      qed
    next
      case c: (Some c)
      with above A Some Cons.IH [OF A(3), of "Some (ajoin C h c)"] show ?thesis
        by (simp add: atop_rec apair_append)
    qed
  qed
qed

section \<open>The root and the proofs are those of the batch algorithm\<close>

definition hexes :: "anode list \<Rightarrow> string list" where
  "hexes A = map (\<lambda>a. to_hex (fst a)) A"

lemma nodeHash_hex: "nodeHash C (to_hex l) (to_hex r) = to_hex (h2 C l r)"
  by (simp add: nodeHash_def h2_def)

lemma pair_hexes: "pair_layer C (hexes A) = hexes (apair C A)"
  by (induction C A rule: apair.induct) (auto simp: hexes_def nodeHash_hex ajoin_def adup_def)

lemma length_hexes [simp]: "length (hexes A) = length A"
  by (simp add: hexes_def)

lemma atop_root: "A \<noteq> [] \<Longrightarrow> to_hex (fst (atop C A)) = hd (last (tree_layers C (hexes A)))"
proof (induction C A rule: atop.induct)
  case (1 C A)
  show ?case
  proof (cases "length A > 1")
    case True
    with 1 show ?thesis by (simp add: atop_rec tree_layers_rec pair_hexes)
  next
    case False
    with 1 obtain a where "A = [a]" by (cases A) auto
    then show ?thesis by (simp add: atop_single tree_layers_stop) (simp add: hexes_def)
  qed
qed

lemma apair_nth: "j < (length A + 1) div 2 \<Longrightarrow> apair C A ! j =
    (if 2 * j + 1 < length A then ajoin C (A ! (2 * j)) (A ! (2 * j + 1)) else adup C (A ! (2 * j)))"
proof (induction C A arbitrary: j rule: apair.induct)
  case (1 C a b r)
  then show ?case by (cases j) auto
qed auto

lemma apair_proof:
  assumes "j < length A"
  shows "\<exists>s. sibling (hexes A) j = Some (to_hex s) \<and>
    set (extend s (snd (A ! j))) \<subseteq> set (snd (apair C A ! (j div 2)))"
proof -
  have k: "j div 2 < (length A + 1) div 2" using assms by linarith
  show ?thesis
  proof (cases "even j")
    case True
    then have j: "2 * (j div 2) = j" "j mod 2 = 0" by presburger+
    show ?thesis
    proof (cases "j + 1 < length A")
      case True
      with j assms show ?thesis
        by (intro exI [of _ "fst (A ! (j + 1))"]) (simp add: sibling_def Let_def apair_nth [OF k] ajoin_def, simp add: hexes_def)
    next
      case False
      with j assms show ?thesis
        by (intro exI [of _ "fst (A ! j)"]) (simp add: sibling_def Let_def apair_nth [OF k] adup_def, simp add: hexes_def)
    qed
  next
    case False
    then have j: "2 * (j div 2) = j - 1" "j mod 2 = 1" "j - 1 + 1 = j" by presburger+
    moreover have "j - 1 < length A" using assms by linarith
    ultimately show ?thesis using assms
      by (intro exI [of _ "fst (A ! (j - 1))"]) (simp add: sibling_def Let_def apair_nth [OF k] ajoin_def, simp add: hexes_def)
  qed
qed

lemma atop_proof:
  "j < length A \<Longrightarrow> (i, p) \<in> set (snd (A ! j)) \<Longrightarrow>
   \<exists>q. branch_from (tree_layers C (hexes A)) j = Some (map to_hex q) \<and> (i, p @ q) \<in> set (snd (atop C A))"
proof (induction C A arbitrary: j p rule: atop.induct)
  case (1 C A)
  show ?case
  proof (cases "length A > 1")
    case True
    obtain s where s: "sibling (hexes A) j = Some (to_hex s)"
      "set (extend s (snd (A ! j))) \<subseteq> set (snd (apair C A ! (j div 2)))"
      using apair_proof [OF "1.prems"(1)] by blast
    have "(i, p @ [s]) \<in> set (extend s (snd (A ! j)))" using "1.prems"(2) by (force simp: extend_def)
    with s(2) have "(i, p @ [s]) \<in> set (snd (apair C A ! (j div 2)))" by blast
    moreover have "j div 2 < length (apair C A)" using "1.prems"(1) by simp
    ultimately obtain q where q: "branch_from (tree_layers C (hexes (apair C A))) (j div 2) = Some (map to_hex q)"
      "(i, (p @ [s]) @ q) \<in> set (snd (atop C (apair C A)))"
      using "1.IH" [OF True] by blast
    obtain l ls where l: "tree_layers C (hexes (apair C A)) = l # ls"
      by (cases "tree_layers C (hexes (apair C A))") auto
    have "branch_from (tree_layers C (hexes A)) j = Some (map to_hex (s # q))"
      using True q(1) s(1) by (simp add: tree_layers_rec pair_hexes l)
    with q(2) True show ?thesis by (intro exI [of _ "s # q"]) (simp add: atop_rec)
  next
    case False
    then obtain a where "A = [a]" using "1.prems"(1) by (cases A) auto
    with "1.prems" show ?thesis by (intro exI [of _ "[]"]) (simp add: atop_single tree_layers_stop)
  qed
qed

section \<open>The code's map and the nodes' own proofs agree\<close>

definition ids :: "anode \<Rightarrow> nat list" where
  "ids a = map fst (snd a)"

definition pend_ids :: "anode option list \<Rightarrow> nat list" where
  "pend_ids ps = concat (map (\<lambda>p. case p of None \<Rightarrow> [] | Some a \<Rightarrow> ids a) ps)"

lemma pend_ids_simps [simp]: "pend_ids [] = []" "pend_ids (None # ps) = pend_ids ps"
    "pend_ids (Some a # ps) = ids a @ pend_ids ps"
  by (simp_all add: pend_ids_def)

definition watch_list :: "nat list option \<Rightarrow> nat list" where
  "watch_list w = (case w of None \<Rightarrow> [] | Some is \<Rightarrow> is)"

definition node_rel :: "(nat \<rightharpoonup> bytes list) \<Rightarrow> stream_node \<Rightarrow> anode \<Rightarrow> bool" where
  "node_rel m n a \<longleftrightarrow> n_h n = fst a \<and> watch_list (n_w n) = ids a \<and> (\<forall>(i, p) \<in> set (snd a). m i = Some p)"

lemma ids_ops [simp]: "ids (ajoin C a b) = ids a @ ids b" "ids (adup C a) = ids a"
  by (auto simp: ids_def ajoin_def adup_def extend_def)

lemma push_all_other: "i \<notin> set (watch_list w) \<Longrightarrow> push_all w h m i = m i"
proof -
  have "i \<notin> set is \<Longrightarrow> foldl (\<lambda>m i. m(i := map_option (\<lambda>p. p @ [h]) (m i))) m is i = m i" for "is" m
    by (induction "is" arbitrary: m) auto
  then show "i \<notin> set (watch_list w) \<Longrightarrow> push_all w h m i = m i"
    by (auto simp: push_all_def watch_list_def split: option.splits)
qed

lemma push_all_same: "distinct (watch_list w) \<Longrightarrow> i \<in> set (watch_list w) \<Longrightarrow>
    push_all w h m i = map_option (\<lambda>p. p @ [h]) (m i)"
proof -
  have "distinct is \<Longrightarrow> i \<in> set is \<Longrightarrow> foldl (\<lambda>m i. m(i := map_option (\<lambda>p. p @ [h]) (m i))) m is i =
      map_option (\<lambda>p. p @ [h]) (m i)" for "is" m
  proof (induction "is" arbitrary: m)
    case (Cons j js)
    have other: "i \<notin> set js \<Longrightarrow> foldl (\<lambda>m i. m(i := map_option (\<lambda>p. p @ [h]) (m i))) m' js i = m' i" for m'
      by (induction js arbitrary: m') auto
    show ?case
    proof (cases "i = j")
      case True
      with Cons.prems have "i \<notin> set js" by simp
      from other [OF this] True show ?thesis by (simp del: fun_upd_apply) simp
    next
      case False
      with Cons show ?thesis by simp
    qed
  qed simp
  then show "distinct (watch_list w) \<Longrightarrow> i \<in> set (watch_list w) \<Longrightarrow>
      push_all w h m i = map_option (\<lambda>p. p @ [h]) (m i)"
    by (auto simp: push_all_def watch_list_def split: option.splits)
qed

lemma node_rel_frame: "node_rel m n a \<Longrightarrow> (\<And>i. i \<in> set (ids a) \<Longrightarrow> m' i = m i) \<Longrightarrow> node_rel m' n a"
  by (force simp: node_rel_def ids_def)

lemma sm_dup_rel:
  assumes "node_rel m P a" "distinct (ids a)" "sm_dup C P m = (n, m')"
  shows "node_rel m' n (adup C a) \<and> (\<forall>i. i \<notin> set (ids a) \<longrightarrow> m' i = m i)"
proof -
  have w: "watch_list (n_w P) = ids a" using assms(1) by (simp add: node_rel_def)
  have e: "n = \<lparr>n_h = h2 C (n_h P) (n_h P), n_w = n_w P\<rparr>" "m' = push_all (n_w P) (n_h P) m"
    using assms(3) by (simp_all add: sm_dup_def)
  have "m' i = Some (p @ [fst a])" if "(i, p) \<in> set (snd a)" for i p
  proof -
    have "i \<in> set (ids a)" using that by (force simp: ids_def)
    then show ?thesis using push_all_same [of "n_w P" i "n_h P" m] assms(1,2) that w e(2)
      by (auto simp: node_rel_def)
  qed
  then have "node_rel m' n (adup C a)"
    using assms(1) w unfolding node_rel_def ids_ops by (auto simp: e(1) adup_def extend_def)
  then show ?thesis using push_all_other w e(2) by simp
qed

lemma sm_join_rel:
  assumes "node_rel m L a" "node_rel m R b" "distinct (ids a @ ids b)" "sm_join C L R m = (n, m')"
  shows "node_rel m' n (ajoin C a b) \<and> (\<forall>i. i \<notin> set (ids a) \<union> set (ids b) \<longrightarrow> m' i = m i)"
proof -
  have w: "watch_list (n_w L) = ids a" "watch_list (n_w R) = ids b"
    using assms(1,2) by (simp_all add: node_rel_def)
  let ?m1 = "push_all (n_w L) (n_h R) m"
  have e: "n_h n = h2 C (n_h L) (n_h R)" "watch_list (n_w n) = ids a @ ids b" "m' = push_all (n_w R) (n_h L) ?m1"
    using assms(4) w by (auto simp: sm_join_def watch_list_def split: option.splits)
  have "m' i = Some (p @ [fst b])" if "(i, p) \<in> set (snd a)" for i p
  proof -
    have i: "i \<in> set (ids a)" using that by (force simp: ids_def)
    then have "i \<notin> set (ids b)" using assms(3) by auto
    with i show ?thesis using push_all_same [of "n_w L" i "n_h R" m] push_all_other [of i "n_w R" "n_h L" ?m1]
        assms(1-3) that w e(3) by (auto simp: node_rel_def)
  qed
  moreover have "m' i = Some (p @ [fst a])" if "(i, p) \<in> set (snd b)" for i p
  proof -
    have i: "i \<in> set (ids b)" using that by (force simp: ids_def)
    then have "i \<notin> set (ids a)" using assms(3) by auto
    with i show ?thesis using push_all_same [of "n_w R" i "n_h L" ?m1] push_all_other [of i "n_w L" "n_h R" m]
        assms(1-3) that w e(3) by (auto simp: node_rel_def)
  qed
  ultimately have "node_rel m' n (ajoin C a b)"
    using assms(1,2) e(1,2) unfolding node_rel_def ids_ops by (auto simp: ajoin_def extend_def)
  then show ?thesis using push_all_other w e(3) by simp
qed

definition pend_rel :: "(nat \<rightharpoonup> bytes list) \<Rightarrow> stream_node option list \<Rightarrow> anode option list \<Rightarrow> bool" where
  "pend_rel m ps aps \<longleftrightarrow> list_all2 (rel_option (node_rel m)) ps aps"

lemma pend_rel_frame: "pend_rel m ps aps \<Longrightarrow> (\<And>i. i \<in> set (pend_ids aps) \<Longrightarrow> m' i = m i) \<Longrightarrow> pend_rel m' ps aps"
  unfolding pend_rel_def
proof (induction ps aps rule: list_all2_induct)
  case (Cons p ps a aps)
  then show ?case by (cases p; cases a) (auto intro: node_rel_frame)
qed simp

lemma pend_rel_simps [simp]: "pend_rel m [] aps \<longleftrightarrow> aps = []" "pend_rel m (None # ps) (x # aps) \<longleftrightarrow> x = None \<and> pend_rel m ps aps"
    "pend_rel m (Some n # ps) (x # aps) \<longleftrightarrow> (\<exists>a. x = Some a \<and> node_rel m n a) \<and> pend_rel m ps aps"
    "pend_rel m (p # ps) [] \<longleftrightarrow> False"
  by (auto simp: pend_rel_def elim: option.rel_cases)

lemma insert_rel:
  "pend_rel m ps aps \<Longrightarrow> node_rel m n a \<Longrightarrow> distinct (ids a @ pend_ids aps) \<Longrightarrow> insert_node C ps n m = (ps', m') \<Longrightarrow>
   pend_rel m' ps' (ainsert C aps a) \<and> distinct (pend_ids (ainsert C aps a)) \<and>
   set (pend_ids (ainsert C aps a)) = set (ids a) \<union> set (pend_ids aps) \<and>
   (\<forall>i. i \<notin> set (ids a) \<union> set (pend_ids aps) \<longrightarrow> m' i = m i)"
proof (induction C ps n m arbitrary: aps a ps' m' rule: insert_node.induct)
  case (2 C ps n m)
  then show ?case by (cases aps) auto
next
  case (3 C p ps n m)
  obtain b bs where aps: "aps = Some b # bs" "node_rel m p b" "pend_rel m ps bs" using "3.prems"(1) by (cases aps) auto
  obtain n1 m1 where j: "sm_join C p n m = (n1, m1)" by fastforce
  obtain ps1 where i: "insert_node C ps n1 m1 = (ps1, m')" "ps' = None # ps1"
    using "3.prems"(4) j by (auto simp: Let_def split: prod.splits)
  have d: "distinct (ids b @ ids a)" "set (pend_ids bs) \<inter> (set (ids b) \<union> set (ids a)) = {}" "distinct (pend_ids bs)"
    using "3.prems"(3) by (auto simp: aps(1))
  note jr = sm_join_rel [OF aps(2) "3.prems"(2) d(1) j]
  have "pend_rel m1 ps bs" by (rule pend_rel_frame [OF aps(3)]) (use jr d(2) in blast)
  note ih = "3.IH" [OF j [symmetric] refl this _ _ i(1), of "ajoin C b a"]
  have "distinct (ids (ajoin C b a) @ pend_ids bs)" using d by auto
  with ih jr have ih': "pend_rel m' ps1 (ainsert C bs (ajoin C b a)) \<and> distinct (pend_ids (ainsert C bs (ajoin C b a))) \<and>
      set (pend_ids (ainsert C bs (ajoin C b a))) = set (ids (ajoin C b a)) \<union> set (pend_ids bs) \<and>
      (\<forall>i. i \<notin> set (ids (ajoin C b a)) \<union> set (pend_ids bs) \<longrightarrow> m' i = m1 i)" by blast
  with jr show ?case unfolding aps(1) i(2) by auto
qed auto

definition opt_rel :: "(nat \<rightharpoonup> bytes list) \<Rightarrow> stream_node option \<Rightarrow> anode option \<Rightarrow> bool" where
  "opt_rel m n a = rel_option (node_rel m) n a"

lemma opt_rel_simps [simp]: "opt_rel m None y \<longleftrightarrow> y = None" "opt_rel m x None \<longleftrightarrow> x = None"
    "opt_rel m (Some n) (Some a) \<longleftrightarrow> node_rel m n a"
  by (auto simp: opt_rel_def)

lemma pend_rel_ex: "pend_rel m ps aps \<Longrightarrow> list_ex (\<lambda>x. x \<noteq> None) ps \<longleftrightarrow> list_ex (\<lambda>x. x \<noteq> None) aps"
  unfolding pend_rel_def
proof (induction ps aps rule: list_all2_induct)
  case (Cons p ps a aps)
  then show ?case by (cases p; cases a) auto
qed simp

lemma close_rel:
  "pend_rel m ps aps \<Longrightarrow> opt_rel m carry ac \<Longrightarrow> distinct (pend_ids (ac # aps)) \<Longrightarrow>
   close_levels C ps carry m = (r, m') \<Longrightarrow>
   opt_rel m' r (aclose C aps ac) \<and> (\<forall>i. i \<notin> set (pend_ids (ac # aps)) \<longrightarrow> m' i = m i)"
proof (induction ps arbitrary: aps carry ac m)
  case (Cons p ps)
  obtain b bs where aps: "aps = b # bs" "opt_rel m p b" "pend_rel m ps bs"
    using Cons.prems(1) by (cases aps; cases p) auto
  have none: "(p \<noteq> None) = (b \<noteq> None)" "(carry = None) = (ac = None)"
    using aps(2) Cons.prems(2) by (cases p; cases b; cases carry; cases ac; auto)+
  show ?case
  proof (cases "\<not> list_ex (\<lambda>x. x \<noteq> None) ps \<and> (p \<noteq> None \<longleftrightarrow> carry = None)")
    case True
    then have "m' = m" "r = (if p \<noteq> None then p else carry)" using Cons.prems(4) by auto
    moreover have "\<not> list_ex (\<lambda>x. x \<noteq> None) bs \<and> (b \<noteq> None \<longleftrightarrow> ac = None)"
      using True pend_rel_ex [OF aps(3)] none by simp
    ultimately show ?thesis using aps(1,2) Cons.prems(2) none by auto
  next
    case go: False
    then have ago: "\<not> (\<not> list_ex (\<lambda>x. x \<noteq> None) bs \<and> (b \<noteq> None \<longleftrightarrow> ac = None))"
      using pend_rel_ex [OF aps(3)] none by simp
    have step: ?thesis if f: "pend_rel m1 ps bs" "node_rel m1 n1 a1" "distinct (ids a1 @ pend_ids bs)"
        "close_levels C ps (Some n1) m1 = (r, m')" "aclose C aps ac = aclose C bs (Some a1)"
        "set (ids a1) \<subseteq> set (pend_ids (ac # [b]))" "\<forall>i. i \<notin> set (pend_ids (ac # [b])) \<longrightarrow> m1 i = m i" for m1 n1 a1
    proof -
      have "opt_rel m1 (Some n1) (Some a1)" "distinct (pend_ids (Some a1 # bs))" using f(2,3) by simp_all
      from Cons.IH [OF f(1) this f(4)] f(5-7) show ?thesis
        unfolding aps(1) by (cases ac; cases b) auto
    qed
    show ?thesis
    proof (cases p)
      case None
      then have b: "b = None" using none(1) by (cases b) simp_all
      show ?thesis
      proof (cases carry)
        case c: None
        then have "ac = None" using none by simp
        then show ?thesis using Cons.IH [OF aps(3), of None None] Cons.prems(3,4) go ago None c b aps(1) by auto
      next
        case (Some c)
        then obtain a where a: "ac = Some a" "node_rel m c a" using Cons.prems(2) none by (cases ac) auto
        obtain n1 m1 where d: "sm_dup C c m = (n1, m1)" by fastforce
        have da: "distinct (ids a)" "set (ids a) \<inter> set (pend_ids bs) = {}" "distinct (pend_ids bs)"
          using Cons.prems(3) by (auto simp: a aps(1) b)
        note dr = sm_dup_rel [OF a(2) da(1) d]
        show ?thesis
        proof (rule step [of m1 n1 "adup C a"])
          show "pend_rel m1 ps bs" by (rule pend_rel_frame [OF aps(3)]) (use dr da(2) in blast)
        qed (use dr da d Cons.prems(4) go ago None Some a b aps(1) in auto)
      qed
    next
      case (Some q)
      then obtain e where e: "b = Some e" "node_rel m q e" using aps(2) none by (cases b) auto
      show ?thesis
      proof (cases carry)
        case c: None
        then have a: "ac = None" using none by simp
        obtain n1 m1 where d: "sm_dup C q m = (n1, m1)" by fastforce
        have da: "distinct (ids e)" "set (ids e) \<inter> set (pend_ids bs) = {}" "distinct (pend_ids bs)"
          using Cons.prems(3) by (auto simp: a aps(1) e)
        note dr = sm_dup_rel [OF e(2) da(1) d]
        show ?thesis
        proof (rule step [of m1 n1 "adup C e"])
          show "pend_rel m1 ps bs" by (rule pend_rel_frame [OF aps(3)]) (use dr da(2) in blast)
        qed (use dr da d Cons.prems(4) go ago c Some a e aps(1) in auto)
      next
        case c: (Some k)
        then obtain a where a: "ac = Some a" "node_rel m k a" using Cons.prems(2) none by (cases ac) auto
        obtain n1 m1 where d: "sm_join C q k m = (n1, m1)" by fastforce
        have da: "distinct (ids e @ ids a)" "(set (ids e) \<union> set (ids a)) \<inter> set (pend_ids bs) = {}" "distinct (pend_ids bs)"
          using Cons.prems(3) by (auto simp: a aps(1) e)
        note jr = sm_join_rel [OF e(2) a(2) da(1) d]
        show ?thesis
        proof (rule step [of m1 n1 "ajoin C e a"])
          show "pend_rel m1 ps bs" by (rule pend_rel_frame [OF aps(3)]) (use jr da(2) in blast)
        qed (use jr da d Cons.prems(4) go ago c Some a e aps(1) in auto)
      qed
    qed
  qed
qed auto

section \<open>A whole contact\<close>

definition annot :: "(bytes \<times> bool) list \<Rightarrow> anode list" where
  "annot fs = map (\<lambda>(i, (leaf, watch)). (leaf, if watch then [(i, [])] else [])) (enumerate 0 fs)"

lemma annot_snoc: "annot (fs @ [(leaf, watch)]) = annot fs @ [(leaf, if watch then [(length fs, [])] else [])]"
  by (simp add: annot_def enumerate_append_eq)

lemma annot_nth: "i < length fs \<Longrightarrow> annot fs ! i = (fst (fs ! i), if snd (fs ! i) then [(i, [])] else [])"
  by (simp add: annot_def nth_enumerate_eq case_prod_unfold)

lemma length_annot [simp]: "length (annot fs) = length fs"
  by (simp add: annot_def)

definition stream_inv :: "crypto \<Rightarrow> (bytes \<times> bool) list \<Rightarrow> stream \<Rightarrow> bool" where
  "stream_inv C fs st \<longleftrightarrow> s_done st = None \<and> s_count st = length fs \<and>
     (\<exists>aps. pend_rel (s_proofs st) (pending st) aps \<and> stacked C aps (annot fs) \<and> distinct (pend_ids aps) \<and>
        set (pend_ids aps) \<subseteq> {..< length fs}) \<and>
     (\<forall>i. s_proofs st i = None \<longleftrightarrow> \<not> (i < length fs \<and> snd (fs ! i)))"

lemma stream_inv_new: "stream_inv C [] stream_new"
  by (auto simp: stream_inv_def stream_new_def annot_def intro: exI [of _ "[]"])

lemma push_all_dom: "push_all w h m i = None \<longleftrightarrow> m i = None"
proof -
  have "foldl (\<lambda>m i. m(i := map_option (\<lambda>p. p @ [h]) (m i))) m is i = None \<longleftrightarrow> m i = None" for "is"
    by (induction "is" arbitrary: m) auto
  then show ?thesis by (auto simp: push_all_def split: option.splits)
qed

lemma sm_join_dom: "snd (sm_join C L R m) i = None \<longleftrightarrow> m i = None"
  by (simp add: sm_join_def push_all_dom)

lemma sm_dup_dom: "snd (sm_dup C P m) i = None \<longleftrightarrow> m i = None"
  by (simp add: sm_dup_def push_all_dom)

lemma insert_dom: "snd (insert_node C ps n m) i = None \<longleftrightarrow> m i = None"
proof (induction C ps n m rule: insert_node.induct)
  case (3 C p ps n m)
  obtain n1 m1 where j: "sm_join C p n m = (n1, m1)" by fastforce
  then show ?case using "3.IH" [OF j [symmetric] refl] sm_join_dom [of C p n m i]
    by (simp add: case_prod_unfold Let_def)
qed simp_all

lemma close_dom: "snd (close_levels C ps carry m) i = None \<longleftrightarrow> m i = None"
proof (induction ps arbitrary: carry m)
  case (Cons p ps)
  then show ?case
    using sm_join_dom [of C _ _ m i] sm_dup_dom [of C _ m i]
    by (auto simp: case_prod_unfold Let_def split: option.splits)
qed simp

lemma sm_add_inv:
  assumes inv: "stream_inv C fs st" and "length leaf = 32"
  shows "\<exists>st'. sm_add C st leaf watch = Inr (st', length fs) \<and> stream_inv C (fs @ [(leaf, watch)]) st'"
proof -
  obtain aps where aps: "pend_rel (s_proofs st) (pending st) aps" "stacked C aps (annot fs)" "distinct (pend_ids aps)"
      "set (pend_ids aps) \<subseteq> {..< length fs}"
    and dom: "\<And>i. s_proofs st i = None \<longleftrightarrow> \<not> (i < length fs \<and> snd (fs ! i))"
    and st: "s_done st = None" "s_count st = length fs"
    using inv by (auto simp: stream_inv_def)
  let ?m = "if watch then (s_proofs st)(length fs \<mapsto> []) else s_proofs st"
  let ?n = "\<lparr>n_h = leaf, n_w = (if watch then Some [length fs] else None)\<rparr>"
  let ?a = "(leaf, if watch then [(length fs, [])] else []) :: anode"
  obtain ps m' where i: "insert_node C (pending st) ?n ?m = (ps, m')" by fastforce
  have rel: "pend_rel ?m (pending st) aps" by (rule pend_rel_frame [OF aps(1)]) (use aps(4) in auto)
  have nr: "node_rel ?m ?n ?a" by (auto simp: node_rel_def watch_list_def ids_def)
  have new: "set (ids ?a) \<subseteq> {length fs}" "distinct (ids ?a)" by (auto simp: ids_def)
  then have "distinct (ids ?a @ pend_ids aps)" using aps(3,4) by auto
  note ir = insert_rel [OF rel nr this i]
  have add: "sm_add C st leaf watch = Inr (st\<lparr>pending := ps, s_count := Suc (length fs), s_proofs := m'\<rparr>, length fs)"
    using assms(2) st i by (simp add: sm_add_def Let_def)
  have dom': "m' j = None \<longleftrightarrow> \<not> (j < length (fs @ [(leaf, watch)]) \<and> snd ((fs @ [(leaf, watch)]) ! j))" for j
  proof -
    have "m' j = None \<longleftrightarrow> ?m j = None" using insert_dom [of C "pending st" ?n ?m j] i by simp
    then show ?thesis using dom [of j] by (cases "j < length fs"; cases "j = length fs") (auto simp: nth_append)
  qed
  have sub: "set (pend_ids (ainsert C aps ?a)) \<subseteq> {..< length (fs @ [(leaf, watch)])}"
    using ir aps(4) new(1) by auto
  have stk: "stacked C (ainsert C aps ?a) (annot (fs @ [(leaf, watch)]))"
    unfolding annot_snoc by (rule stacked_insert [OF aps(2)])
  have "pend_rel m' ps (ainsert C aps ?a) \<and> distinct (pend_ids (ainsert C aps ?a))" using ir by blast
  with dom' sub stk st(1) have "stream_inv C (fs @ [(leaf, watch)]) (st\<lparr>pending := ps, s_count := Suc (length fs), s_proofs := m'\<rparr>)"
    unfolding stream_inv_def by (intro conjI exI [of _ "ainsert C aps ?a"]) simp_all
  with add show ?thesis by blast
qed

lemma feed_inv:
  "stream_inv C fs st \<Longrightarrow> list_all (\<lambda>f. length (fst f) = 32) gs \<Longrightarrow>
   \<exists>st'. feed C st gs = Inr st' \<and> stream_inv C (fs @ gs) st'"
proof (induction gs arbitrary: fs st)
  case (Cons g gs)
  obtain leaf watch where g: "g = (leaf, watch)" by (cases g)
  from sm_add_inv [OF Cons.prems(1), of leaf watch] Cons.prems(2) obtain st1 where
    st1: "sm_add C st leaf watch = Inr (st1, length fs)" "stream_inv C (fs @ [g]) st1" by (auto simp: g)
  from Cons.IH [OF st1(2)] Cons.prems(2) st1(1) show ?case by (auto simp: g)
qed simp

lemma sm_root_correct:
  assumes inv: "stream_inv C fs st" and "fs \<noteq> []"
  shows "\<exists>rt st' t. sm_root C st = Inr (rt, st') \<and> buildTree C (map (to_hex \<circ> fst) fs) = Inr t \<and> to_hex rt = root t \<and>
    (\<forall>i. sm_proof st' i = Inr (if i < length fs \<and> snd (fs ! i) then merkle_proof t i else None))"
proof -
  obtain aps where aps: "pend_rel (s_proofs st) (pending st) aps" "stacked C aps (annot fs)" "distinct (pend_ids aps)"
    and dom: "\<And>i. s_proofs st i = None \<longleftrightarrow> \<not> (i < length fs \<and> snd (fs ! i))"
    and st: "s_done st = None" "s_count st = length fs"
    using inv by (auto simp: stream_inv_def)
  obtain r m' where c: "close_levels C (pending st) None (s_proofs st) = (r, m')" by fastforce
  have ne: "annot fs \<noteq> []" using assms(2) by (metis length_annot length_0_conv)
  have top: "aclose C aps None = Some (atop C (annot fs))" using aclose_top [OF aps(2), of None] ne by simp
  have "opt_rel m' r (Some (atop C (annot fs)))"
    using close_rel [OF aps(1) _ _ c, of None] aps(3) top by simp
  then obtain n where n: "r = Some n" "node_rel m' n (atop C (annot fs))" by (cases r) auto
  have hx: "map (to_hex \<circ> fst) fs = hexes (annot fs)"
    by (rule nth_equalityI) (auto simp: hexes_def annot_nth)
  let ?L = "tree_layers C (hexes (annot fs))"
  let ?t = "\<lparr>root = hd (last ?L), layers = ?L\<rparr>"
  have bt: "buildTree C (map (to_hex \<circ> fst) fs) = Inr ?t"
    using assms(2) ne unfolding hx by (simp add: buildTree_def Let_def hexes_def)
  have rt: "sm_root C st = Inr (n_h n, st\<lparr>s_proofs := m', s_done := Some (n_h n)\<rparr>)"
    using st assms(2) c n(1) by (simp add: sm_root_def)
  have "to_hex (n_h n) = root ?t" using n(2) atop_root [OF ne, of C] by (simp add: node_rel_def)
  moreover have "map_option (map to_hex) (m' i) = (if i < length fs \<and> snd (fs ! i) then merkle_proof ?t i else None)" for i
  proof (cases "i < length fs \<and> snd (fs ! i)")
    case True
    then have "(i, []) \<in> set (snd (annot fs ! i))" by (simp add: annot_nth)
    from atop_proof [OF _ this, of C] True obtain q where q: "branch_from ?L i = Some (map to_hex q)"
      "(i, q) \<in> set (snd (atop C (annot fs)))" by auto
    then have "m' i = Some q" using n(2) by (auto simp: node_rel_def)
    with True q(1) show ?thesis by (simp add: merkle_proof_def)
  next
    case False
    then have "m' i = None" using dom [of i] close_dom [of C "pending st" None "s_proofs st" i] c by simp
    with False show ?thesis by (simp only: option.map(1) if_False)
  qed
  ultimately show ?thesis using rt bt by (auto simp: sm_proof_def)
qed

text \<open>
  Property C5. The streaming builder is equivalent to the batch algorithm: fed any list of 32-byte leaves, some
  of them watched, it closes with the root that \<open>buildTree\<close> computes and, for exactly the watched
  leaves, with the inclusion proof that \<open>proof\<close> computes.
\<close>

theorem stream_equals_batch:
  assumes "fs \<noteq> []" and "list_all (\<lambda>f. length (fst f) = 32) fs"
  shows "\<exists>st rt st' t. feed C stream_new fs = Inr st \<and> sm_root C st = Inr (rt, st') \<and>
    buildTree C (map (to_hex \<circ> fst) fs) = Inr t \<and> to_hex rt = root t \<and>
    (\<forall>i. sm_proof st' i = Inr (if i < length fs \<and> snd (fs ! i) then merkle_proof t i else None))"
  using feed_inv [OF stream_inv_new assms(2), of C] sm_root_correct [OF _ assms(1), of C] by fastforce

section \<open>The streaming builder as an inclusion-proof scheme\<close>

definition stream_build :: "crypto \<Rightarrow> bytes list \<Rightarrow> (bytes \<times> stream) option" where
  "stream_build C cs = (case rbind (feed C stream_new (map (\<lambda>b. (leafOf C b, True)) cs)) (sm_root C) of
     Inr r \<Rightarrow> Some r | Inl _ \<Rightarrow> None)"

definition stream_prove :: "bytes \<times> stream \<Rightarrow> nat \<Rightarrow> string list option" where
  "stream_prove r i = (case sm_proof (snd r) i of Inr p \<Rightarrow> p | Inl _ \<Rightarrow> None)"

lemma feed_length: "feed C st gs = Inr st' \<Longrightarrow> list_all (\<lambda>f. length (fst f) = 32) gs"
proof (induction gs arbitrary: st)
  case (Cons g gs)
  obtain leaf watch where g: "g = (leaf, watch)" by (cases g)
  with Cons.prems obtain st1 i where "sm_add C st leaf watch = Inr (st1, i)" "feed C st1 gs = Inr st'" by auto
  with Cons.IH show ?case by (auto simp: g sm_add_def split: if_splits)
qed simp

lemma stream_build_merkle:
  assumes "stream_build C cs = Some r"
  shows "\<exists>t. merkle_build C cs = Some t \<and> to_hex (fst r) = root t \<and> (\<forall>i < length cs. stream_prove r i = merkle_proof t i)"
proof -
  let ?fs = "map (\<lambda>b. (leafOf C b, True)) cs"
  obtain st where st: "feed C stream_new ?fs = Inr st" "sm_root C st = Inr r"
    using assms by (auto simp: stream_build_def split: sum.splits)
  have inv: "stream_inv C ?fs st"
    using feed_inv [OF stream_inv_new feed_length [OF st(1)], of C] st(1) by auto
  have ne: "?fs \<noteq> []" using st by (auto simp: sm_root_def stream_new_def)
  have hx: "map (to_hex \<circ> fst) ?fs = map (leafHash C) cs" by (simp add: leafHash_def leafOf_def comp_def)
  obtain rt st' where rr: "r = (rt, st')" by (cases r)
  obtain t where r: "buildTree C (map (leafHash C) cs) = Inr t" "to_hex rt = root t"
    "\<forall>i. sm_proof st' i = Inr (if i < length ?fs \<and> snd (?fs ! i) then merkle_proof t i else None)"
    using sm_root_correct [OF inv ne] st(2) unfolding hx rr by auto
  have "stream_prove r i = merkle_proof t i" if "i < length cs" for i
    using r(3) that by (simp add: rr stream_prove_def)
  with r(1,2) show ?thesis by (auto simp: merkle_build_Some rr)
qed

interpretation sm: inclusion "stream_build C" "\<lambda>r. to_hex (fst r)" stream_prove "merkle_accept C" "merkle_broken C" for C
proof
  fix cs r i assume a: "stream_build C cs = Some r" "i < length cs"
  from stream_build_merkle [OF a(1)] obtain t where t: "merkle_build C cs = Some t" "to_hex (fst r) = root t"
    "stream_prove r i = merkle_proof t i" using a(2) by blast
  from mk.complete [OF t(1) a(2)] show "\<exists>br. stream_prove r i = Some br \<and> merkle_accept C (cs ! i) br (int i) (to_hex (fst r))"
    by (simp add: t(2,3))
next
  fix cs r b br i
  assume a: "stream_build C cs = Some r" "merkle_accept C b br i (to_hex (fst r))" "0 \<le> i" "i < int (length cs)"
  from stream_build_merkle [OF a(1)] obtain t where "merkle_build C cs = Some t" "to_hex (fst r) = root t" by blast
  with mk.sound [of C cs t b br i] a(2-4) show "b = cs ! nat i \<or> merkle_broken C cs b i br" by simp
qed

lemma stream_equals_batch_witness:
  "\<exists>st rt st' t. feed toy stream_new [(replicate 32 1, True), (replicate 32 2, False), (replicate 32 3, True)] = Inr st \<and>
    sm_root toy st = Inr (rt, st') \<and>
    buildTree toy (map to_hex [replicate 32 1, replicate 32 2, replicate 32 3]) = Inr t \<and> to_hex rt = root t \<and>
    sm_proof st' 2 = Inr (merkle_proof t 2) \<and> sm_proof st' 1 = Inr None"
proof -
  let ?fs = "[(replicate 32 1, True), (replicate 32 2, False), (replicate 32 3, True)] :: (bytes \<times> bool) list"
  have "\<exists>st rt st' t. feed toy stream_new ?fs = Inr st \<and> sm_root toy st = Inr (rt, st') \<and>
    buildTree toy (map (to_hex \<circ> fst) ?fs) = Inr t \<and> to_hex rt = root t \<and>
    (\<forall>i. sm_proof st' i = Inr (if i < length ?fs \<and> snd (?fs ! i) then merkle_proof t i else None))"
    by (rule stream_equals_batch) simp_all
  then obtain st rt st' t where *: "feed toy stream_new ?fs = Inr st" "sm_root toy st = Inr (rt, st')"
    "buildTree toy (map (to_hex \<circ> fst) ?fs) = Inr t" "to_hex rt = root t"
    "\<forall>i. sm_proof st' i = Inr (if i < length ?fs \<and> snd (?fs ! i) then merkle_proof t i else None)" by blast
  have "sm_proof st' 2 = Inr (merkle_proof t 2)" "sm_proof st' 1 = Inr None"
    using *(5) [rule_format, of 2] *(5) [rule_format, of 1] by simp_all
  with *(1-4) show ?thesis by (auto simp del: feed.simps)
qed

end
