(* ===== verification/Agent.thy ===== *)
theory Agent
  imports Receipt Merkle "HOL-Library.AList"
begin

text \<open>
  The three roles of the application layer: agent/source.mjs (chunk a payload and sign its Merkle
  root), agent/relay.mjs (stamp custody) and agent/dest.mjs (accept chunks out of order, reassemble,
  check the custody chain, settle). The theory proves that the payload arrives whatever the arrival
  order, what a hostile sender can and cannot make the destination store, and that the chain check
  does not depend on the order in which receipts arrive.
\<close>

section \<open>Source\<close>

text \<open>The \<open>for\<close> loop of \<open>chunk\<close>; it does not end for a chunk size of 0.\<close>

partial_function (option) chunk_loop :: "nat \<Rightarrow> bytes \<Rightarrow> bytes list option" where
  "chunk_loop n bs = (if bs = [] then Some []
     else Option.bind (chunk_loop n (drop n bs)) (\<lambda>cs. Some (take n bs # cs)))"

definition chunk :: "bytes \<Rightarrow> nat \<Rightarrow> bytes list option" where
  "chunk bs n = map_option (\<lambda>cs. if cs = [] then [[]] else cs) (chunk_loop n bs)"

record data_bundle =
  bd_payloadId :: string
  bd_index :: int
  bd_leafHex :: string
  bd_bytesB64 :: string
  bd_branch :: "string list"
  bd_bundleId :: string

definition bundle_body :: "string \<Rightarrow> nat \<Rightarrow> string \<Rightarrow> jsval" where
  "bundle_body pid i leafHex =
     VObj [(''payloadId'', VStr pid), (''index'', VNum (int i)), (''leafHex'', VStr leafHex)]"

definition make_bundle :: "crypto \<Rightarrow> merkle_tree \<Rightarrow> string \<Rightarrow> nat \<times> bytes \<Rightarrow> data_bundle res" where
  "make_bundle C t pid ic =
     (case merkle_proof t (fst ic) of
        None \<Rightarrow> Inl ''undefined''
      | Some br \<Rightarrow> rbind (contentId C (bundle_body pid (fst ic) (leafHash C (snd ic)))) (\<lambda>bid.
          Inr \<lparr>bd_payloadId = pid, bd_index = int (fst ic), bd_leafHex = leafHash C (snd ic),
               bd_bytesB64 = to_base64 (snd ic), bd_branch = br, bd_bundleId = bid\<rparr>))"

text \<open>\<open>payloadId || "0x" + contentId({ p }).slice(2, 18)\<close>.\<close>

definition payload_id :: "crypto \<Rightarrow> bytes \<Rightarrow> string \<Rightarrow> string res" where
  "payload_id C payload pid =
     (if pid \<noteq> [] then Inr pid
      else rbind (contentId C (VObj [(''p'', VStr (to_base64 payload))])) (\<lambda>i.
        Inr (''0x'' @ take 16 (drop 2 i))))"

definition prepare_chunks :: "crypto \<Rightarrow> keypair \<Rightarrow> string \<Rightarrow> (string \<times> jsval) list \<Rightarrow> nat \<Rightarrow> bytes list \<Rightarrow>
    (jsval \<times> data_bundle list) res" where
  "prepare_chunks C kp pid meta chunkSize cs =
     rbind (buildTree C (map (leafHash C) cs)) (\<lambda>t.
     rbind (signRecord C kp (buildManifest pid (length cs) (root t)
         (VObj (foldl (\<lambda>m kv. set_field (fst kv) (snd kv) m) [(''chunkSize'', VNum (int chunkSize))] meta)))) (\<lambda>m.
     rbind (rmapM (make_bundle C t pid) (enumerate 0 cs)) (\<lambda>bs. Inr (m, bs))))"

definition prepare :: "crypto \<Rightarrow> keypair \<Rightarrow> bytes \<Rightarrow> string \<Rightarrow> (string \<times> jsval) list \<Rightarrow> nat \<Rightarrow>
    (jsval \<times> data_bundle list) res option" where
  "prepare C kp payload pid0 meta chunkSize =
     map_option (\<lambda>cs. rbind (payload_id C payload pid0) (\<lambda>pid. prepare_chunks C kp pid meta chunkSize cs))
       (chunk payload chunkSize)"

section \<open>Relay\<close>

text \<open>\<open>makeRelay(kp, eid).stamp\<close>.\<close>

definition stamp :: "crypto \<Rightarrow> keypair \<Rightarrow> string \<Rightarrow> data_bundle \<Rightarrow> jsval \<Rightarrow> jsval \<Rightarrow> jsval \<Rightarrow> jsval res" where
  "stamp C kp e b prevHop receivedAt forwardedAt =
     custodyReceipt C kp (VStr (bd_payloadId b)) (VStr (bd_bundleId b)) prevHop e receivedAt forwardedAt"

section \<open>Destination\<close>

record dest =
  d_manifest :: jsval
  d_hops :: "hop list"
  chunks :: "(int \<times> bytes) list"
  custody :: "(string \<times> jsval list) list"

definition makeDest :: "crypto \<Rightarrow> jsval \<Rightarrow> hop list \<Rightarrow> string option \<Rightarrow> dest res" where
  "makeDest C manifest pinnedHops sourcePub =
     (if sourcePub = None \<or> sourcePub = Some [] then Inl ''unpinned''
      else rbind (verifyRecord C manifest) (\<lambda>mv.
        case mv of
          Refuse reason \<Rightarrow> Inl reason
        | Accept signer \<Rightarrow>
            if \<not> strict_eq signer (VStr (the sourcePub)) then Inl ''signer_not_pinned_source_key''
            else Inr \<lparr>d_manifest = manifest, d_hops = pinnedHops, chunks = [], custody = []\<rparr>))"

definition receiveBundle :: "crypto \<Rightarrow> dest \<Rightarrow> data_bundle \<Rightarrow> unit verdict \<times> dest" where
  "receiveBundle C d b =
     (let bs = from_base64 (bd_bytesB64 b) in
      if leafHash C bs \<noteq> bd_leafHex b then (Refuse ''leaf_hash_mismatch'', d)
      else if \<not> (case field (d_manifest d) ''root'' of
               VStr rt \<Rightarrow> verifyProof C (bd_leafHex b) (bd_branch b) (bd_index b) rt | _ \<Rightarrow> False)
        then (Refuse ''merkle_branch_invalid'', d)
      else (Accept (), d\<lparr>chunks := AList.update (bd_index b) bs (chunks d)\<rparr>))"

definition recordCustody :: "dest \<Rightarrow> string \<Rightarrow> jsval \<Rightarrow> dest" where
  "recordCustody d bundleId receipt =
     (let old = (case map_of (custody d) bundleId of None \<Rightarrow> [] | Some rs \<Rightarrow> rs)
      in d\<lparr>custody := AList.update bundleId (old @ [receipt]) (custody d)\<rparr>)"

definition isComplete :: "dest \<Rightarrow> bool" where
  "isComplete d = strict_eq (VNum (int (length (chunks d)))) (field (d_manifest d) ''chunkCount'')"

text \<open>\<open>Buffer.concat\<close> throws on the \<open>undefined\<close> of a missing index.\<close>

definition reassemble :: "dest \<Rightarrow> bytes res" where
  "reassemble d =
     (if \<not> isComplete d then Inl ''reassemble before complete''
      else rbind (rmapM (\<lambda>i. case map_of (chunks d) (int i) of
                          None \<Rightarrow> Inl ''list must be an Array of Buffers'' | Some b \<Rightarrow> Inr b)
                  [0..<(case field (d_manifest d) ''chunkCount'' of VNum n \<Rightarrow> nat n | _ \<Rightarrow> 0)])
             (\<lambda>parts. Inr (concat parts)))"

definition hop_order :: "hop list \<Rightarrow> jsval \<Rightarrow> nat" where
  "hop_order hops r =
     (case field r ''thisHop'' of
        VStr e \<Rightarrow> (case map_of (rev (zip (map eid hops) [0..<length hops])) e of None \<Rightarrow> 99 | Some i \<Rightarrow> i)
      | _ \<Rightarrow> 99)"

definition verifyChain :: "crypto \<Rightarrow> dest \<Rightarrow> string \<Rightarrow> nat chain_verdict res" where
  "verifyChain C d bundleId =
     verifyCustodyChain C
       (sort_key (hop_order (d_hops d)) (case map_of (custody d) bundleId of None \<Rightarrow> [] | Some rs \<Rightarrow> rs))
       bundleId (d_hops d)"

definition settle :: "crypto \<Rightarrow> keypair \<Rightarrow> delivery \<Rightarrow> jsval \<Rightarrow> (jsval \<times> unit verdict) res" where
  "settle C kp2 dl expected = rbind (deliveryReceipt C kp2 dl) (\<lambda>rec. Inr (rec, bindDelivery rec expected))"

text \<open>A run of the destination: bundles received one after the other.\<close>

fun receive_all :: "crypto \<Rightarrow> dest \<Rightarrow> data_bundle list \<Rightarrow> dest" where
  "receive_all C d [] = d"
| "receive_all C d (b # bs) = receive_all C (snd (receiveBundle C d b)) bs"

section \<open>Chunks\<close>

lemma chunk_loop_total:
  "n > 0 \<Longrightarrow> \<exists>cs. chunk_loop n bs = Some cs \<and> concat cs = bs \<and> (cs = [] \<longleftrightarrow> bs = []) \<and>
     (\<forall>c \<in> set cs. 0 < length c \<and> length c \<le> n) \<and> length cs = (length bs + n - 1) div n"
proof (induction "length bs" arbitrary: bs rule: less_induct)
  case less
  show ?case
  proof (cases "bs = []")
    case True
    with less.prems show ?thesis by (subst chunk_loop.simps) simp
  next
    case False
    then have "length (drop n bs) < length bs" using less.prems by simp
    from less.hyps [OF this less.prems] obtain cs where cs: "chunk_loop n (drop n bs) = Some cs"
      "concat cs = drop n bs" "\<forall>c \<in> set cs. 0 < length c \<and> length c \<le> n"
      "length cs = (length (drop n bs) + n - 1) div n" by auto
    have "Suc (length cs) = (length bs + n - 1) div n"
    proof (cases "length bs \<le> n")
      case True
      obtain x xs where bs: "bs = x # xs" using \<open>bs \<noteq> []\<close> by (cases bs) auto
      have "length cs = 0" unfolding cs(4) using True less.prems by simp
      moreover have "(length bs + n - 1) div n = 1"
        using True unfolding bs by (intro div_nat_eqI) simp_all
      ultimately show ?thesis by simp
    next
      case False
      let ?x = "length (drop n bs) + n - 1"
      have "length bs + n - 1 = ?x + n" using False by simp
      moreover have "(?x + n) div n = ?x div n + 1" by (rule div_add_self2) (use less.prems in simp)
      ultimately show ?thesis by (simp only: cs(4) Suc_eq_plus1)
    qed
    moreover have "chunk_loop n bs = Some (take n bs # cs)"
      using False by (subst chunk_loop.simps) (simp add: cs(1))
    moreover have "concat (take n bs # cs) = bs" by (simp add: cs(2))
    moreover have "\<forall>c \<in> set (take n bs # cs). 0 < length c \<and> length c \<le> n"
      using cs(3) False less.prems by simp
    ultimately show ?thesis using False by (intro exI [of _ "take n bs # cs"]) simp
  qed
qed

lemma chunk_total:
  assumes "n > 0"
  shows "\<exists>cs. chunk bs n = Some cs \<and> concat cs = bs \<and> cs \<noteq> [] \<and> (\<forall>c \<in> set cs. length c \<le> n)"
proof -
  from chunk_loop_total [OF assms, of bs] obtain cs where "chunk_loop n bs = Some cs" "concat cs = bs"
    "\<forall>c \<in> set cs. length c \<le> n" by auto
  then show ?thesis by (cases cs) (auto simp: chunk_def)
qed

text \<open>
  For every positive chunk size, \<open>chunk\<close> terminates and returns at least one piece, none longer
  than the chunk size, whose concatenation is the payload.
\<close>

theorem chunk_partition:
  assumes "n > 0"
  shows "\<exists>cs. chunk bs n = Some cs \<and> concat cs = bs \<and> cs \<noteq> [] \<and> (\<forall>c \<in> set cs. length c \<le> n)"
  using assms by (rule chunk_total)

lemma chunk_partition_witness: "\<exists>cs. chunk [1, 2, 3, 4, 5] 2 = Some cs \<and> concat cs = [1, 2, 3, 4, 5 :: byte]"
  using chunk_partition [of 2 "[1, 2, 3, 4, 5]"] by auto

section \<open>What the source emits\<close>

lemma set_fields_field:
  "map_of (foldl (\<lambda>m kv. set_field (fst kv) (snd kv) m) acc meta) k =
     (case map_of (rev meta) k of Some v \<Rightarrow> Some v | None \<Rightarrow> map_of acc k)"
  by (induction meta arbitrary: acc) (auto simp: map_add_def split: option.splits)

text \<open>One bundle of a prepared payload: its fields, and that the destination's two checks pass.\<close>

definition bundle_of :: "crypto \<Rightarrow> merkle_tree \<Rightarrow> bytes list \<Rightarrow> nat \<Rightarrow> data_bundle \<Rightarrow> bool" where
  "bundle_of C t cs i b \<longleftrightarrow> bd_index b = int i \<and> bd_bytesB64 b = to_base64 (cs ! i) \<and>
     bd_leafHex b = leafHash C (cs ! i) \<and> merkle_proof t i = Some (bd_branch b) \<and>
     merkle_accept C (cs ! i) (bd_branch b) (int i) (root t)"

lemma prepare_chunks_Inr:
  assumes "prepare_chunks C kp pid meta n cs = Inr (m, bs)"
  shows "\<exists>t. merkle_build C cs = Some t \<and> length bs = length cs \<and> (\<forall>i < length cs. bundle_of C t cs i (bs ! i)) \<and>
    field m ''root'' = VStr (root t) \<and> field m ''chunkCount'' = VNum (int (length cs)) \<and>
    (sig_correct C \<and> keypair_ok C kp \<longrightarrow> verifyRecord C m = Inr (Accept (VStr (pub kp))))"
proof -
  let ?meta = "VObj (foldl (\<lambda>m kv. set_field (fst kv) (snd kv) m) [(''chunkSize'', VNum (int n))] meta)"
  obtain t where t: "buildTree C (map (leafHash C) cs) = Inr t"
    and m: "signRecord C kp (buildManifest pid (length cs) (root t) ?meta) = Inr m"
    and bs: "rmapM (make_bundle C t pid) (enumerate 0 cs) = Inr bs"
    using assms by (auto simp: prepare_chunks_def)
  note f = signRecord_field(1) [OF m [unfolded buildManifest_def]]
  have "bundle_of C t cs i (bs ! i)" if i: "i < length cs" for i
  proof -
    have "make_bundle C t pid (i, cs ! i) = Inr (bs ! i)"
      using rmapM_nth [OF bs, of i] i by (simp add: nth_enumerate_eq)
    moreover obtain br where "merkle_proof t i = Some br" "merkle_accept C (cs ! i) br (int i) (root t)"
      using mk.complete [of C cs t i] t i by (auto simp: merkle_build_Some)
    ultimately obtain bid where "\<lparr>bd_payloadId = pid, bd_index = int i, bd_leafHex = leafHash C (cs ! i),
        bd_bytesB64 = to_base64 (cs ! i), bd_branch = br, bd_bundleId = bid\<rparr> = bs ! i"
      and "merkle_proof t i = Some br" "merkle_accept C (cs ! i) br (int i) (root t)"
      by (auto simp: make_bundle_def)
    then show ?thesis unfolding bundle_of_def by (simp flip: \<open>_ = bs ! i\<close>)
  qed
  moreover have "length bs = length cs" using rmapM_length [OF bs] by simp
  moreover have "field m ''root'' = VStr (root t)" "field m ''chunkCount'' = VNum (int (length cs))"
    using f by (simp_all add: credential_fields_def)
  moreover have "sig_correct C \<and> keypair_ok C kp \<longrightarrow> verifyRecord C m = Inr (Accept (VStr (pub kp)))"
    using verifyRecord_signRecord [OF _ _ m [unfolded buildManifest_def]] by blast
  ultimately show ?thesis using t by (auto simp: merkle_build_Some)
qed

section \<open>What the destination stores\<close>

text \<open>A destination for a manifest over the pieces \<open>cs\<close>.\<close>

definition dest_for :: "crypto \<Rightarrow> merkle_tree \<Rightarrow> bytes list \<Rightarrow> dest \<Rightarrow> bool" where
  "dest_for C t cs d \<longleftrightarrow> merkle_build C cs = Some t \<and> field (d_manifest d) ''root'' = VStr (root t) \<and>
     field (d_manifest d) ''chunkCount'' = VNum (int (length cs)) \<and> distinct (map fst (chunks d))"

lemma receiveBundle_cases:
  assumes "field (d_manifest d) ''root'' = VStr rt"
  shows "receiveBundle C d b =
    (let bs = from_base64 (bd_bytesB64 b) in
     if leafHash C bs = bd_leafHex b \<and> merkle_accept C bs (bd_branch b) (bd_index b) rt
     then (Accept (), d\<lparr>chunks := AList.update (bd_index b) bs (chunks d)\<rparr>)
     else (Refuse (if leafHash C bs \<noteq> bd_leafHex b then ''leaf_hash_mismatch'' else ''merkle_branch_invalid''), d))"
  by (simp add: receiveBundle_def assms merkle_accept_def Let_def)

lemma dest_for_receive: "dest_for C t cs d \<Longrightarrow> dest_for C t cs (snd (receiveBundle C d b))"
  by (auto simp: dest_for_def receiveBundle_cases Let_def distinct_update)

lemma dest_for_receive_all: "dest_for C t cs d \<Longrightarrow> dest_for C t cs (receive_all C d bs)"
  by (induction bs arbitrary: d) (auto intro: dest_for_receive)

lemma receive_all_append [simp]: "receive_all C d (bs @ bs') = receive_all C (receive_all C d bs) bs'"
  by (induction bs arbitrary: d) auto

text \<open>A store that holds only true pieces, once complete, reassembles to the payload.\<close>

lemma reassemble_stored:
  assumes "dest_for C t cs d" and "mk.stored_ok cs (map_of (chunks d))" and "isComplete d"
  shows "reassemble d = Inr (concat cs)"
proof -
  have "length (chunks d) = length cs" using assms(1,3) by (simp add: isComplete_def dest_for_def)
  moreover have "card (dom (map_of (chunks d))) = length (chunks d)"
    using assms(1) distinct_card [of "map fst (chunks d)"] by (simp add: dest_for_def dom_map_of_conv_image_fst)
  ultimately have all: "map (\<lambda>i. map_of (chunks d) (int i)) [0..<length cs] = map Some cs"
    using mk.stored_complete [OF assms(2)] by (simp add: finite_dom_map_of)
  have "map_of (chunks d) (int i) = Some (cs ! i)" if "i < length cs" for i
    using arg_cong [OF all, of "\<lambda>l. l ! i"] that by simp
  then have "rmapM (\<lambda>i. case map_of (chunks d) (int i) of None \<Rightarrow> Inl ''list must be an Array of Buffers'' | Some b \<Rightarrow> Inr b)
      [0..<length cs] = Inr (map (\<lambda>i. cs ! i) [0..<length cs])"
    by (intro rmapM_Inr) simp
  then show ?thesis using assms(1,3) by (simp add: reassemble_def dest_for_def map_nth)
qed

lemma receive_stored:
  assumes "dest_for C t cs d" "mk.stored_ok cs (map_of (chunks d))" and "0 \<le> bd_index b" "bd_index b < int (length cs)"
    and "\<not> merkle_broken C cs (from_base64 (bd_bytesB64 b)) (bd_index b) (bd_branch b)"
  shows "mk.stored_ok cs (map_of (chunks (snd (receiveBundle C d b))))"
proof (cases "fst (receiveBundle C d b) = Accept ()")
  case True
  then have acc: "merkle_accept C (from_base64 (bd_bytesB64 b)) (bd_branch b) (bd_index b) (root t)"
    and eq: "snd (receiveBundle C d b) = d\<lparr>chunks := AList.update (bd_index b) (from_base64 (bd_bytesB64 b)) (chunks d)\<rparr>"
    using assms(1) by (auto simp: dest_for_def receiveBundle_cases Let_def split: if_splits)
  have "merkle_build C cs = Some t" using assms(1) by (simp add: dest_for_def)
  from mk.stored_ok_insert [OF assms(2) this acc assms(3-5)] show ?thesis by (simp add: eq update_conv')
next
  case False
  then show ?thesis using assms(1,2) by (auto simp: dest_for_def receiveBundle_cases Let_def split: if_splits)
qed

lemma receive_all_stored:
  "dest_for C t cs d \<Longrightarrow> mk.stored_ok cs (map_of (chunks d)) \<Longrightarrow>
   (\<And>b. b \<in> set bs \<Longrightarrow> 0 \<le> bd_index b \<and> bd_index b < int (length cs) \<and>
      \<not> merkle_broken C cs (from_base64 (bd_bytesB64 b)) (bd_index b) (bd_branch b)) \<Longrightarrow>
   mk.stored_ok cs (map_of (chunks (receive_all C d bs)))"
proof (induction bs arbitrary: d)
  case (Cons b bs)
  then show ?case using Cons.IH [OF dest_for_receive] receive_stored by simp
qed simp

text \<open>
  Property C2. Integrity at the destination: whatever bundles a hostile network delivers, if their claimed
  indexes are below the manifest's chunk count, a completed destination reassembles exactly the
  payload the manifest's root commits to, unless the digests are broken.
\<close>

theorem hostile_bundles_reassemble:
  assumes "dest_for C t cs d" and "chunks d = []"
    and "\<forall>b \<in> set bs. 0 \<le> bd_index b \<and> bd_index b < int (length cs)"
    and "isComplete (receive_all C d bs)"
  shows "reassemble (receive_all C d bs) = Inr (concat cs) \<or>
    (\<exists>b \<in> set bs. merkle_broken C cs (from_base64 (bd_bytesB64 b)) (bd_index b) (bd_branch b))"
proof (rule disjCI)
  assume "\<not> (\<exists>b \<in> set bs. merkle_broken C cs (from_base64 (bd_bytesB64 b)) (bd_index b) (bd_branch b))"
  moreover have "mk.stored_ok cs (map_of (chunks d))" using assms(2) by (simp add: mk.stored_ok_def)
  ultimately have "mk.stored_ok cs (map_of (chunks (receive_all C d bs)))"
    using receive_all_stored [OF assms(1)] assms(3) by blast
  then show "reassemble (receive_all C d bs) = Inr (concat cs)"
    by (rule reassemble_stored [OF dest_for_receive_all [OF assms(1)] _ assms(4)])
qed

section \<open>Honest bundles in any order\<close>

lemma makeDest_Inr: "makeDest C m hops src = Inr d \<longleftrightarrow>
    (\<exists>p. src = Some p \<and> p \<noteq> [] \<and> verifyRecord C m = Inr (Accept (VStr p))) \<and>
    d = \<lparr>d_manifest = m, d_hops = hops, chunks = [], custody = []\<rparr>"
proof (cases "verifyRecord C m")
  case (Inr v)
  then show ?thesis by (cases v; cases src) (auto simp: makeDest_def)
qed (auto simp: makeDest_def)

lemma receive_true:
  assumes "dest_for C t cs d" "bundle_of C t cs i b"
  shows "receiveBundle C d b = (Accept (), d\<lparr>chunks := AList.update (int i) (cs ! i) (chunks d)\<rparr>)"
  using assms by (simp add: dest_for_def bundle_of_def receiveBundle_cases Let_def)

lemma receive_all_true:
  "dest_for C t cs d \<Longrightarrow> (\<forall>b \<in> set bs. \<exists>i < length cs. bundle_of C t cs i b) \<Longrightarrow>
   map_of (chunks (receive_all C d bs)) =
     (\<lambda>k. if k \<in> bd_index ` set bs then Some (cs ! nat k) else map_of (chunks d) k) \<and>
   d_manifest (receive_all C d bs) = d_manifest d"
proof (induction bs arbitrary: d)
  case (Cons b bs)
  then obtain i where i: "i < length cs" "bundle_of C t cs i b" by auto
  then have bi: "bd_index b = int i" by (simp add: bundle_of_def)
  note r = receive_true [OF Cons.prems(1) i(2)]
  have "dest_for C t cs (d\<lparr>chunks := AList.update (int i) (cs ! i) (chunks d)\<rparr>)"
    using dest_for_receive [OF Cons.prems(1), of b] r by simp
  from Cons.IH [OF this] Cons.prems(2) show ?case by (auto simp: r bi update_conv' fun_eq_iff)
qed auto

lemma prepared:
  assumes "prepare C kp payload pid meta n = Some (Inr (m, bs))"
    and "makeDest C m hops src = Inr d"
  obtains cs t where "chunk payload n = Some cs" "length bs = length cs" "\<And>i. i < length cs \<Longrightarrow> bundle_of C t cs i (bs ! i)"
    "dest_for C t cs d" "chunks d = []" "\<And>b. b \<in> set bs \<Longrightarrow> \<exists>i < length cs. bundle_of C t cs i b"
    "map bd_index bs = map int [0..<length cs]"
proof -
  from assms(1) obtain cs p where cs: "chunk payload n = Some cs" "prepare_chunks C kp p meta n cs = Inr (m, bs)"
    by (auto simp: prepare_def)
  from prepare_chunks_Inr [OF cs(2)] obtain t where t: "merkle_build C cs = Some t" "length bs = length cs"
    "\<forall>i < length cs. bundle_of C t cs i (bs ! i)" "field m ''root'' = VStr (root t)"
    "field m ''chunkCount'' = VNum (int (length cs))" by blast
  have "dest_for C t cs d" "chunks d = []"
    using assms(2) t by (auto simp: makeDest_Inr dest_for_def)
  moreover have "\<exists>i < length cs. bundle_of C t cs i b" if b: "b \<in> set bs" for b
  proof -
    obtain i where "i < length bs" "b = bs ! i" using b unfolding in_set_conv_nth by blast
    with t(2,3) show ?thesis by (intro exI [of _ i]) simp
  qed
  moreover have "map bd_index bs = map int [0..<length cs]"
    using t(2,3) by (intro nth_equalityI) (simp_all add: bundle_of_def)
  ultimately show ?thesis using that cs(1) t(2,3) by blast
qed

lemma size_chunks: "distinct (map fst al) \<Longrightarrow> length al = card (dom (map_of al))"
  using distinct_card [of "map fst al"] by (simp add: dom_map_of_conv_image_fst)

text \<open>
  Property C1. End to end: the bundles the source emits, received in any order and any number of times, complete
  the destination, and it reassembles the payload.
\<close>

theorem any_arrival_order:
  assumes "prepare C kp payload pid meta n = Some (Inr (m, bs))" and "n > 0"
    and "makeDest C m hops src = Inr d" and "set bs' = set bs"
  shows "isComplete (receive_all C d bs') \<and> reassemble (receive_all C d bs') = Inr payload"
proof -
  obtain cs t where cs: "chunk payload n = Some cs" "length bs = length cs"
    "\<And>i. i < length cs \<Longrightarrow> bundle_of C t cs i (bs ! i)" "dest_for C t cs d" "chunks d = []"
    "\<And>b. b \<in> set bs \<Longrightarrow> \<exists>i < length cs. bundle_of C t cs i b" "map bd_index bs = map int [0..<length cs]"
    using prepared [OF assms(1,3)] by blast
  have true: "\<forall>b \<in> set bs'. \<exists>i < length cs. bundle_of C t cs i b"
    unfolding assms(4) using cs(6) by blast
  let ?d = "receive_all C d bs'"
  note df = dest_for_receive_all [OF cs(4), of bs']
  have ix: "bd_index ` set bs' = int ` {0..<length cs}"
    using arg_cong [OF cs(7), of set] by (simp add: assms(4))
  have m: "map_of (chunks ?d) = (\<lambda>k. if k \<in> int ` {0..<length cs} then Some (cs ! nat k) else None)"
    using receive_all_true [OF cs(4) true] cs(5) ix by (auto simp: fun_eq_iff)
  then have "dom (map_of (chunks ?d)) = int ` {0..<length cs}" by (auto split: if_splits)
  then have "length (chunks ?d) = length cs"
    using df size_chunks [of "chunks ?d"] by (simp add: dest_for_def card_image)
  then have complete: "isComplete ?d" using df by (simp add: isComplete_def dest_for_def)
  have "mk.stored_ok cs (map_of (chunks ?d))" by (auto simp: mk.stored_ok_def m split: if_splits)
  from reassemble_stored [OF df this complete] complete show ?thesis
    using chunk_total [OF assms(2), of payload] cs(1) by auto
qed

section \<open>An index that is never bounded\<close>

lemma goes_right_shift: "0 \<le> idx \<Longrightarrow> 0 \<le> k \<Longrightarrow> goes_right (idx + k * 2) = goes_right idx"
  by (simp add: goes_right_def)

lemma fold_branch_shift: "0 \<le> idx \<Longrightarrow> 0 \<le> k \<Longrightarrow>
    fold_branch C acc (idx + k * 2 ^ length br) br = fold_branch C acc idx br"
proof (induction br arbitrary: acc idx)
  case (Cons s br)
  have e: "idx + k * 2 ^ length (s # br) = idx + (k * 2 ^ length br) * 2" by simp
  have d: "(idx + (k * 2 ^ length br) * 2) div 2 = idx div 2 + k * 2 ^ length br" by simp
  have g: "goes_right (idx + (k * 2 ^ length br) * 2) = goes_right idx"
    using Cons.prems by (intro goes_right_shift) simp_all
  have "0 \<le> idx div 2" using Cons.prems by simp
  then show ?case unfolding e fold_branch.simps d g using Cons.IH Cons.prems(2) by simp
qed simp

lemma leaves_le_height:
  assumes "buildTree C xs = Inr t"
  shows "length xs \<le> 2 ^ (length (layers t) - 1)"
proof -
  have ne: "xs \<noteq> []" and t: "layers t = tree_layers C xs" using assms by (auto simp: buildTree_Inr)
  let ?h = "length (layers t) - 1"
  have "(length xs + 2 ^ ?h - 1) div 2 ^ ?h = 1"
    using root_layer(2) [OF ne, of C] layers_length [of ?h C xs] t by simp
  then have "(length xs + 2 ^ ?h - 1) < 2 * 2 ^ ?h"
    by (metis div_less_iff_less_mult mult.commute one_less_numeral_iff semiring_norm(76) zero_less_numeral zero_less_power)
  then show ?thesis by simp
qed

text \<open>A chunk stored past the tree in place of the first one.\<close>

lemma misplaced_chunk:
  assumes "dest_for C t cs d2" and "chunks d2 = AList.update K (cs ! 0) (chunks d1)"
    and "map_of (chunks d1) = (\<lambda>k. if k \<in> int ` {1..<length cs} then Some (cs ! nat k) else None)"
    and "K \<noteq> 0" "K \<notin> int ` {1..<length cs}" and "cs \<noteq> []"
  shows "isComplete d2 \<and> reassemble d2 = Inl ''list must be an Array of Buffers''"
proof -
  have m2: "map_of (chunks d2) = (map_of (chunks d1))(K \<mapsto> cs ! 0)"
    unfolding assms(2) by (rule update_conv')
  have "dom (map_of (chunks d2)) = insert K (int ` {1..<length cs})"
    unfolding m2 assms(3) by (auto split: if_splits)
  then have "card (dom (map_of (chunks d2))) = length cs"
    using assms(5,6) by (simp add: card_image)
  then have "length (chunks d2) = length cs" using assms(1) size_chunks [of "chunks d2"] by (simp add: dest_for_def)
  then have complete: "isComplete d2" using assms(1) by (simp add: isComplete_def dest_for_def)
  have zero: "map_of (chunks d2) 0 = None" using assms(4) unfolding m2 assms(3) by auto
  obtain x where x: "length cs = Suc x" using assms(6) by (cases cs) auto
  have "[0..<length cs] = 0 # [Suc 0..<length cs]" unfolding x by (rule upt_rec [THEN trans]) simp
  then have "reassemble d2 = Inl ''list must be an Array of Buffers''"
    using complete assms(1) zero by (simp add: reassemble_def dest_for_def)
  with complete show ?thesis by blast
qed

text \<open>
  Property C40. The destination does not bound a chunk's index by the manifest's chunk count. A source's bundle
  replayed with its index moved past the tree passes both checks; with it in place of the first chunk the
  destination reports completion, and \<open>reassemble\<close> then throws.
\<close>

theorem replayed_index_fakes_completion:
  assumes "prepare C kp payload pid meta n = Some (Inr (m, bs))" and "n > 0"
    and "makeDest C m hops src = Inr d"
  shows "\<exists>k. isComplete (receive_all C d (tl bs @ [(hd bs)\<lparr>bd_index := k\<rparr>])) \<and>
    reassemble (receive_all C d (tl bs @ [(hd bs)\<lparr>bd_index := k\<rparr>])) = Inl ''list must be an Array of Buffers''"
proof -
  obtain cs t where cs: "chunk payload n = Some cs" "length bs = length cs"
    "\<And>i. i < length cs \<Longrightarrow> bundle_of C t cs i (bs ! i)" "dest_for C t cs d" "chunks d = []"
    "\<And>b. b \<in> set bs \<Longrightarrow> \<exists>i < length cs. bundle_of C t cs i b" "map bd_index bs = map int [0..<length cs]"
    using prepared [OF assms(1,3)] by blast
  have ne: "cs \<noteq> []" using cs(1) chunk_total [OF assms(2), of payload] by auto
  then have b0: "bundle_of C t cs 0 (hd bs)" using cs(2) cs(3) [of 0] by (cases bs) auto
  have t: "buildTree C (map (leafHash C) cs) = Inr t" using cs(4) by (simp add: dest_for_def merkle_build_Some)
  let ?h = "length (layers t) - 1"
  define K :: int where "K = 2 ^ ?h"
  let ?b = "(hd bs)\<lparr>bd_index := K\<rparr>"
  have le: "length cs \<le> 2 ^ ?h" using leaves_le_height [OF t] by simp
  have br: "length (bd_branch (hd bs)) = ?h"
    using merkle_complete [OF t, of 0] b0 ne by (auto simp: bundle_of_def)
  have "fold_branch C acc K (bd_branch (hd bs)) = fold_branch C acc 0 (bd_branch (hd bs))" for acc
    using fold_branch_shift [of 0 1 C acc "bd_branch (hd bs)"] br by (simp add: K_def)
  then have acc: "merkle_accept C (cs ! 0) (bd_branch (hd bs)) K (root t)"
    using b0 by (simp add: bundle_of_def merkle_accept_def verifyProof_def)
  let ?d1 = "receive_all C d (tl bs)"
  have true: "\<forall>b \<in> set (tl bs). \<exists>i < length cs. bundle_of C t cs i b"
    using cs(6) by (metis list.sel(2) list.set_sel(2))
  note df1 = dest_for_receive_all [OF cs(4), of "tl bs"]
  have r: "receiveBundle C ?d1 ?b = (Accept (), ?d1\<lparr>chunks := AList.update K (cs ! 0) (chunks ?d1)\<rparr>)"
    using df1 b0 acc by (simp add: dest_for_def bundle_of_def receiveBundle_cases Let_def)
  let ?d2 = "receive_all C d (tl bs @ [?b])"
  have d2: "?d2 = ?d1\<lparr>chunks := AList.update K (cs ! 0) (chunks ?d1)\<rparr>"
    by (simp only: receive_all_append receive_all.simps r snd_conv)
  have ix: "bd_index ` set (tl bs) = int ` {1..<length cs}"
    using arg_cong [OF cs(7), of "\<lambda>l. set (tl l)"] by (simp add: map_tl [symmetric] tl_upt)
  have m1: "map_of (chunks ?d1) = (\<lambda>k. if k \<in> int ` {1..<length cs} then Some (cs ! nat k) else None)"
    using receive_all_true [OF cs(4) true] cs(5) ix by (auto simp: fun_eq_iff)
  have k: "K \<noteq> 0" "K \<notin> int ` {1..<length cs}"
  proof -
    have "int (length cs) \<le> K" using le unfolding K_def by (metis of_nat_le_iff of_nat_numeral of_nat_power)
    then show "K \<notin> int ` {1..<length cs}" by auto
  qed (simp add: K_def)
  have "chunks ?d2 = AList.update K (cs ! 0) (chunks ?d1)" by (simp only: d2) simp
  from misplaced_chunk [OF dest_for_receive_all [OF cs(4)] this m1 k ne] show ?thesis by (intro exI)
qed

section \<open>Custody receipts in any order\<close>

lemma hop_order_nth:
  assumes "distinct (map eid hops)" "i < length hops" "field r ''thisHop'' = VStr (eid (hops ! i))"
  shows "hop_order hops r = i"
proof -
  let ?l = "zip (map eid hops) [0..<length hops]"
  have "distinct (map fst (rev ?l))" using assms(1) by (simp add: rev_map [symmetric])
  moreover have "(eid (hops ! i), i) \<in> set (rev ?l)"
    using assms(2) by (auto simp: in_set_zip intro: exI [of _ i])
  ultimately have "map_of (rev ?l) (eid (hops ! i)) = Some i" by (rule map_of_is_SomeI)
  then show ?thesis by (simp add: hop_order_def assms(3))
qed

lemma record_all: "map_of (custody (foldl (\<lambda>d r. recordCustody d b r) d rs)) b =
    (if rs = [] then map_of (custody d) b
     else Some ((case map_of (custody d) b of None \<Rightarrow> [] | Some os \<Rightarrow> os) @ rs)) \<and>
    d_hops (foldl (\<lambda>d r. recordCustody d b r) d rs) = d_hops d"
  by (induction rs arbitrary: d) (auto simp: recordCustody_def Let_def update_conv')

text \<open>
  \<open>verifyChain\<close> does not depend on the order in which receipts arrive: if some order of the recorded
  receipts passes \<open>verifyCustodyChain\<close> against the pinned hops, the destination accepts.
\<close>

theorem verifyChain_any_order:
  assumes "verifyCustodyChain C rs b (d_hops d) = Inr (ChainOk n)" and "distinct (map eid (d_hops d))"
    and "mset rs' = mset rs" and "map_of (custody d) b = None"
  shows "verifyChain C (foldl (\<lambda>d r. recordCustody d b r) d rs') b = Inr (ChainOk n)"
proof -
  have spec: "custody_spec C b (d_hops d) rs" using assms(1) by (simp add: verifyCustodyChain_iff)
  then have len: "rs \<noteq> []" "length rs = length (d_hops d)"
    and at: "\<And>i. i < length rs \<Longrightarrow> field (rs ! i) ''thisHop'' = VStr (eid (d_hops d ! i))"
    by (simp_all add: custody_spec_def receipt_at_def)
  let ?f = "hop_order (d_hops d)"
  have f: "map ?f rs = [0..<length rs]"
    using hop_order_nth [OF assms(2)] at len(2) by (intro nth_equalityI) simp_all
  have "inj_on ?f (set rs)" using f by (metis distinct_map distinct_upt)
  then have "inj_on ?f (set rs')" using assms(3) by (metis set_mset_mset)
  then have "sort_key ?f rs' = sort_key ?f rs" by (intro sort_key_eq_sort_key [OF assms(3)])
  also have "\<dots> = rs" by (rule sort_key_id_if_sorted) (simp add: f)
  finally have "sort_key ?f rs' = rs" .
  moreover have "rs' \<noteq> []" using assms(3) len(1) by auto
  ultimately show ?thesis using record_all [of b d rs'] assms(1,4) by (simp add: verifyChain_def)
qed

text \<open>
  A destination exists only for a manifest that verifies under the source key its own operator
  supplies; it starts with no chunks, and never skips the check when no key is given.
\<close>

theorem makeDest_pins_source:
  "makeDest C m hops src = Inr d \<longleftrightarrow>
    (\<exists>p. src = Some p \<and> p \<noteq> [] \<and> verifyRecord C m = Inr (Accept (VStr p))) \<and>
    d = \<lparr>d_manifest = m, d_hops = hops, chunks = [], custody = []\<rparr>"
  by (rule makeDest_Inr)

section \<open>Witnesses\<close>

lemma example_chunks: "chunk [1, 2, 3] 2 = Some [[1, 2], [3 :: byte]]"
  by (simp add: chunk_def chunk_loop.simps [of 2])

lemma make_bundle_total: "i < length cs \<Longrightarrow> merkle_build C cs = Some t \<Longrightarrow>
    \<exists>b. make_bundle C t pid (i, c) = Inr b"
proof -
  assume a: "i < length cs" "merkle_build C cs = Some t"
  from mk.complete [OF a(2,1)] obtain br where "merkle_proof t i = Some br" by blast
  moreover have "flat [(''payloadId'', VStr pid), (''index'', VNum (int i)), (''leafHex'', VStr (leafHash C c))]"
    by (simp add: flat_def)
  ultimately show ?thesis using contentId_flat by (fastforce simp: make_bundle_def bundle_body_def)
qed

lemma example_prepare: "\<exists>m bs. prepare toy (toy_key ''s'') [1, 2, 3] ''p'' [] 2 = Some (Inr (m, bs))"
proof -
  let ?cs = "[[1, 2], [3]] :: bytes list"
  obtain t where t: "buildTree toy (map (leafHash toy) ?cs) = Inr t" by (simp add: buildTree_def Let_def)
  have "\<exists>m. signRecord toy (toy_key ''s'') (buildManifest ''p'' (length ?cs) (root t) (VObj [(''chunkSize'', VNum 2)])) = Inr m"
    unfolding buildManifest_def by (intro signRecord_total) (simp_all add: MAX_DEPTH_def)
  moreover have "\<exists>bs. rmapM (make_bundle toy t ''p'') (enumerate 0 ?cs) = Inr bs"
    using make_bundle_total [of _ ?cs toy t "''p''"] t
    by (intro rmapM_total) (auto simp: merkle_build_Some in_set_enumerate_eq)
  ultimately show ?thesis using t
    by (auto simp: prepare_def example_chunks payload_id_def prepare_chunks_def)
qed

lemma example_dest:
  obtains m bs d where "prepare toy (toy_key ''s'') [1, 2, 3] ''p'' [] 2 = Some (Inr (m, bs))"
    "makeDest toy m [] (Some (pub (toy_key ''s''))) = Inr d"
proof -
  obtain m bs where p: "prepare toy (toy_key ''s'') [1, 2, 3] ''p'' [] 2 = Some (Inr (m, bs))"
    using example_prepare by blast
  then have "verifyRecord toy m = Inr (Accept (VStr (pub (toy_key ''s''))))"
    using prepare_chunks_Inr by (fastforce simp: prepare_def example_chunks)
  moreover have "pub (toy_key ''s'') \<noteq> []" by (simp add: toy_key_def to_base64_eq_Nil)
  ultimately show ?thesis using that p makeDest_Inr by blast
qed

lemma any_arrival_order_witness:
  "\<exists>m bs d. prepare toy (toy_key ''s'') [1, 2, 3] ''p'' [] 2 = Some (Inr (m, bs)) \<and>
     makeDest toy m [] (Some (pub (toy_key ''s''))) = Inr d \<and>
     reassemble (receive_all toy d (rev bs @ bs)) = Inr [1, 2, 3]"
proof -
  obtain m bs d where *: "prepare toy (toy_key ''s'') [1, 2, 3] ''p'' [] 2 = Some (Inr (m, bs))"
    "makeDest toy m [] (Some (pub (toy_key ''s''))) = Inr d" by (rule example_dest)
  from any_arrival_order [OF *(1) _ *(2), of "rev bs @ bs"] * show ?thesis by auto
qed

lemma replayed_index_fakes_completion_witness:
  "\<exists>m bs d k. prepare toy (toy_key ''s'') [1, 2, 3] ''p'' [] 2 = Some (Inr (m, bs)) \<and>
     makeDest toy m [] (Some (pub (toy_key ''s''))) = Inr d \<and>
     isComplete (receive_all toy d (tl bs @ [(hd bs)\<lparr>bd_index := k\<rparr>]))"
proof -
  obtain m bs d where *: "prepare toy (toy_key ''s'') [1, 2, 3] ''p'' [] 2 = Some (Inr (m, bs))"
    "makeDest toy m [] (Some (pub (toy_key ''s''))) = Inr d" by (rule example_dest)
  from replayed_index_fakes_completion [OF *(1) _ *(2)] * show ?thesis by auto
qed

lemma hostile_bundles_reassemble_witness:
  "\<exists>m bs d t. prepare toy (toy_key ''s'') [1, 2, 3] ''p'' [] 2 = Some (Inr (m, bs)) \<and>
     makeDest toy m [] (Some (pub (toy_key ''s''))) = Inr d \<and>
     (isComplete (receive_all toy d bs) \<and>
     (reassemble (receive_all toy d bs) = Inr [1, 2, 3] \<or>
      (\<exists>b \<in> set bs. merkle_broken toy [[1, 2], [3]] (from_base64 (bd_bytesB64 b)) (bd_index b) (bd_branch b))))"
proof -
  obtain m bs d where *: "prepare toy (toy_key ''s'') [1, 2, 3] ''p'' [] 2 = Some (Inr (m, bs))"
    "makeDest toy m [] (Some (pub (toy_key ''s''))) = Inr d" by (rule example_dest)
  obtain cs t where cs: "chunk [1, 2, 3] 2 = Some cs" "dest_for toy t cs d" "chunks d = []"
    "\<And>b. b \<in> set bs \<Longrightarrow> \<exists>i < length cs. bundle_of toy t cs i b" "map bd_index bs = map int [0..<length cs]"
    using prepared [OF *] by metis
  have csv: "cs = [[1, 2], [3]]" using cs(1) by (simp add: example_chunks)
  have ix: "\<forall>b \<in> set bs. 0 \<le> bd_index b \<and> bd_index b < int (length cs)"
    using cs(4) by (force simp: bundle_of_def)
  have "map_of (chunks (receive_all toy d bs)) = (\<lambda>k. if k \<in> bd_index ` set bs then Some (cs ! nat k) else map_of (chunks d) k)"
    using receive_all_true [OF cs(2)] cs(4) by blast
  then have "dom (map_of (chunks (receive_all toy d bs))) = int ` {0..<length cs}"
    using cs(3) arg_cong [OF cs(5), of set] by (auto split: if_splits)
  then have "length (chunks (receive_all toy d bs)) = length cs"
    using dest_for_receive_all [OF cs(2), of bs] size_chunks [of "chunks (receive_all toy d bs)"]
    by (simp add: dest_for_def card_image)
  then have comp: "isComplete (receive_all toy d bs)"
    using dest_for_receive_all [OF cs(2), of bs] by (simp add: isComplete_def dest_for_def)
  from hostile_bundles_reassemble [OF cs(2,3) ix comp] * comp show ?thesis unfolding csv by auto
qed

lemma verifyChain_any_order_witness:
  "\<exists>r. custodyReceipt toy (toy_key ''a'') (VStr ''p'') (VStr ''b'') VNull ''x'' (VNum 1) (VNum 2) = Inr r \<and>
     verifyChain toy (recordCustody \<lparr>d_manifest = VNull, d_hops = [\<lparr>eid = ''x'', hop_pub = pub (toy_key ''a'')\<rparr>],
       chunks = [], custody = []\<rparr> ''b'' r) ''b'' = Inr (ChainOk 1)"
proof -
  obtain r where r: "custodyReceipt toy (toy_key ''a'') (VStr ''p'') (VStr ''b'') VNull ''x'' (VNum 1) (VNum 2) = Inr r"
    using custodyReceipt_total by fastforce
  note sr = r [unfolded custodyReceipt_def custody_content_def]
  let ?d = "\<lparr>d_manifest = VNull, d_hops = [\<lparr>eid = ''x'', hop_pub = pub (toy_key ''a'')\<rparr>], chunks = [], custody = []\<rparr>"
  have "custody_spec toy ''b'' (d_hops ?d) [r]"
    using verifyRecord_signRecord [OF toy_sig_correct toy_key_ok sr] signRecord_field(1) [OF sr]
    by (simp add: custody_spec_def receipt_at_def credential_fields_def)
  then have "verifyCustodyChain toy [r] ''b'' (d_hops ?d) = Inr (ChainOk 1)" by (simp add: verifyCustodyChain_iff)
  from verifyChain_any_order [OF this, of "[r]"] r show ?thesis by simp
qed

end
