(* ===== verification/Sim.thy ===== *)
theory Sim
  imports Agent
begin

text \<open>
  transport/sim.mjs, the deterministic store-and-forward simulator that drives the three roles, and
  agent/lib/gap.mjs, the record of an outage. The generator is 32-bit; its quotients and the
  products with the plan's small integers are exact in doubles, so they are integer divisions here.
  The theory proves that without loss every bundle arrives once, in arrival order, with a custody
  chain that verifies against the relays' keys.
\<close>

section \<open>The generator\<close>

type_synonym seed = "32 word"

definition prng_init :: "seed \<Rightarrow> seed" where
  "prng_init s = (if s = 0 then 1 else s)"

definition prng_next :: "seed \<Rightarrow> seed" where
  "prng_next s = s * 1664525 + 1013904223"

text \<open>\<open>Math.floor(prng() * m)\<close> and \<open>prng() * 100 < p\<close>, given the generator's new state.\<close>

definition prng_scaled :: "seed \<Rightarrow> nat \<Rightarrow> int" where
  "prng_scaled s m = int (unat s * m div 2 ^ 32)"

definition prng_below :: "seed \<Rightarrow> nat \<Rightarrow> bool" where
  "prng_below s p \<longleftrightarrow> unat s * 100 < p * 2 ^ 32"

section \<open>The simulation\<close>

record plan =
  pl_seed :: seed
  pl_hops :: "string list"
  oneWayMs :: int
  staggerMs :: int
  processMs :: int
  jitterMs :: nat
  lossPct :: nat
  occ_link :: string
  downMs :: int
  upMs :: int
  linkDelayMs :: "(string \<times> int) list"

definition defaultSimPlan :: plan where
  "defaultSimPlan = \<lparr>pl_seed = 42, pl_hops = [''dtn://source/'', ''dtn://relaya/'', ''dtn://relayb/'', ''dtn://dest/''],
     oneWayMs = 300, staggerMs = 50, processMs = 50, jitterMs = 700, lossPct = 0,
     occ_link = ''L2'', downMs = 500, upMs = 2200, linkDelayMs = []\<rparr>"

definition held :: "plan \<Rightarrow> string \<Rightarrow> int \<Rightarrow> int" where
  "held p link departMs =
     (if link = occ_link p \<and> departMs \<ge> downMs p \<and> departMs < upMs p then upMs p else departMs)"

definition link_delay :: "plan \<Rightarrow> string \<Rightarrow> int" where
  "link_delay p link = (case map_of (linkDelayMs p) link of Some d \<Rightarrow> d | None \<Rightarrow> oneWayMs p)"

text \<open>What one bundle leaves behind: its arrivals, its receipts, whether it was held, whether it was lost.\<close>

record transit =
  tr_arrivals :: "int list"
  tr_receipts :: "jsval list"
  tr_delayed :: bool
  tr_dropped :: bool

text \<open>The loop over the three hops of one bundle. \<open>relays\<close> maps an eid to its key.\<close>

fun cross_hops :: "crypto \<Rightarrow> plan \<Rightarrow> (string \<times> keypair) list \<Rightarrow> data_bundle \<Rightarrow> (string \<times> string) list \<Rightarrow>
    int \<Rightarrow> string \<Rightarrow> seed \<Rightarrow> transit \<Rightarrow> (transit \<times> seed) res" where
  "cross_hops C p relays b [] t prevHop s tr = Inr (tr, s)"
| "cross_hops C p relays b ((link, thisEid) # rest) t prevHop s tr =
     (let crossAt = held p link t;
          tr1 = (if crossAt \<noteq> t then tr\<lparr>tr_delayed := True\<rparr> else tr);
          s1 = (if lossPct p > 0 then prng_next s else s) in
      if lossPct p > 0 \<and> prng_below s1 (lossPct p) then Inr (tr1\<lparr>tr_dropped := True\<rparr>, s1)
      else
        let s2 = prng_next s1;
            arrival = crossAt + link_delay p link + prng_scaled s2 (jitterMs p) in
        if thisEid = pl_hops p ! 1 \<or> thisEid = pl_hops p ! 2 then
          (case map_of relays thisEid of
             None \<Rightarrow> Inl ''Cannot read properties of undefined''
           | Some kp \<Rightarrow>
               rbind (stamp C kp thisEid b (VStr prevHop) (VNum arrival) (VNum (arrival + processMs p))) (\<lambda>r.
               cross_hops C p relays b rest (arrival + processMs p) thisEid s2
                 (tr1\<lparr>tr_receipts := tr_receipts tr1 @ [r]\<rparr>)))
        else cross_hops C p relays b rest t prevHop s2 (tr1\<lparr>tr_arrivals := tr_arrivals tr1 @ [arrival]\<rparr>))"

definition sim_bundle :: "crypto \<Rightarrow> plan \<Rightarrow> (string \<times> keypair) list \<Rightarrow> nat \<Rightarrow> data_bundle \<Rightarrow> seed \<Rightarrow> (transit \<times> seed) res" where
  "sim_bundle C p relays i b s =
     cross_hops C p relays b (zip [''L1'', ''L2'', ''L3''] (tl (pl_hops p))) (int i * staggerMs p) (hd (pl_hops p)) s
       \<lparr>tr_arrivals = [], tr_receipts = [], tr_delayed = False, tr_dropped = False\<rparr>"

record sim_state =
  ss_arrivals :: "(data_bundle \<times> int) list"
  ss_custody :: "(string \<times> jsval list) list"
  ss_delayed :: "string list"
  ss_lost :: "string list"

definition push_custody :: "string \<Rightarrow> jsval list \<Rightarrow> (string \<times> jsval list) list \<Rightarrow> (string \<times> jsval list) list" where
  "push_custody bid rs m = (if rs = [] then m
     else AList.update bid ((case map_of m bid of None \<Rightarrow> [] | Some os \<Rightarrow> os) @ rs) m)"

fun sim_all :: "crypto \<Rightarrow> plan \<Rightarrow> (string \<times> keypair) list \<Rightarrow> nat \<Rightarrow> data_bundle list \<Rightarrow> seed \<Rightarrow> sim_state \<Rightarrow> sim_state res" where
  "sim_all C p relays i [] s st = Inr st"
| "sim_all C p relays i (b # bs) s st = rbind (sim_bundle C p relays i b s) (\<lambda>(tr, s').
     sim_all C p relays (Suc i) bs s'
       \<lparr>ss_arrivals = ss_arrivals st @ map (\<lambda>a. (b, a)) (tr_arrivals tr),
        ss_custody = push_custody (bd_bundleId b) (tr_receipts tr) (ss_custody st),
        ss_delayed = (if tr_delayed tr \<and> bd_bundleId b \<notin> set (ss_delayed st)
                      then ss_delayed st @ [bd_bundleId b] else ss_delayed st),
        ss_lost = (if tr_dropped tr then ss_lost st @ [bd_bundleId b] else ss_lost st)\<rparr>)"

record link_event =
  le_link :: string
  le_event :: string
  le_t :: int

record sim_result =
  arrivalOrder :: "data_bundle list"
  custodyByBundle :: "(string \<times> jsval list) list"
  linkEvents :: "link_event list"
  delayed :: "string list"
  lost :: "string list"
  occultedLink :: string

text \<open>The final sort, by arrival time and then by index.\<close>

definition by_arrival :: "(data_bundle \<times> int) list \<Rightarrow> (data_bundle \<times> int) list" where
  "by_arrival as = sort_key snd (sort_key (\<lambda>a. bd_index (fst a)) as)"

definition simulate :: "crypto \<Rightarrow> plan \<Rightarrow> data_bundle list \<Rightarrow> (string \<times> keypair) list \<Rightarrow> sim_result res" where
  "simulate C p bundles relays =
     rbind (sim_all C p relays 0 bundles (prng_init (pl_seed p))
       \<lparr>ss_arrivals = [], ss_custody = [], ss_delayed = [], ss_lost = []\<rparr>) (\<lambda>st.
     Inr \<lparr>arrivalOrder = map fst (by_arrival (ss_arrivals st)), custodyByBundle = ss_custody st,
          linkEvents = [\<lparr>le_link = occ_link p, le_event = ''down'', le_t = downMs p\<rparr>,
                        \<lparr>le_link = occ_link p, le_event = ''up'', le_t = upMs p\<rparr>],
          delayed = ss_delayed st, lost = ss_lost st, occultedLink = occ_link p\<rparr>)"

section \<open>The gap record (agent/lib/gap.mjs)\<close>

record gap_object =
  g_link :: string
  g_downAt :: "int option"
  g_upAt :: "int option"
  g_durationMs :: "int option"
  g_delayed :: "string list"
  g_lost :: "string list"

definition gapObject :: "string \<Rightarrow> link_event list \<Rightarrow> string list \<Rightarrow> string list \<Rightarrow> gap_object" where
  "gapObject link evs del lst =
     (let es = sort_key le_t (filter (\<lambda>e. le_link e = link) evs);
          down = find (\<lambda>e. le_event e = ''down'') es;
          up = find (\<lambda>e. le_event e = ''up'' \<and> (case down of None \<Rightarrow> True | Some d \<Rightarrow> le_t e \<ge> le_t d)) es
      in \<lparr>g_link = link, g_downAt = map_option le_t down, g_upAt = map_option le_t up,
          g_durationMs = (case (down, up) of (Some d, Some u) \<Rightarrow> Some (le_t u - le_t d) | _ \<Rightarrow> None),
          g_delayed = sort del, g_lost = sort lst\<rparr>)"

section \<open>Without loss\<close>

text \<open>A plan over four different nodes whose relays have keys.\<close>

definition plan_ok :: "plan \<Rightarrow> (string \<times> keypair) list \<Rightarrow> string \<Rightarrow> string \<Rightarrow> string \<Rightarrow> string \<Rightarrow>
    keypair \<Rightarrow> keypair \<Rightarrow> bool" where
  "plan_ok p relays s a b d ka kb \<longleftrightarrow> pl_hops p = [s, a, b, d] \<and> distinct [s, a, b, d] \<and>
     map_of relays a = Some ka \<and> map_of relays b = Some kb \<and> lossPct p = 0"

lemma stamp_total: "\<exists>r. stamp C kp e bd (VStr h) (VNum x) (VNum y) = Inr r"
  using custodyReceipt_total by (simp add: stamp_def)

lemma sim_bundle_ok:
  assumes "plan_ok p relays s a b d ka kb"
  shows "\<exists>t s' ra rb x y z. sim_bundle C p relays i bd s0 =
      Inr (\<lparr>tr_arrivals = [z], tr_receipts = [ra, rb], tr_delayed = t, tr_dropped = False\<rparr>, s') \<and>
    stamp C ka a bd (VStr s) (VNum x) (VNum (x + processMs p)) = Inr ra \<and>
    stamp C kb b bd (VStr a) (VNum y) (VNum (y + processMs p)) = Inr rb"
proof -
  have p: "pl_hops p = [s, a, b, d]" "lossPct p = 0" "map_of relays a = Some ka" "map_of relays b = Some kb"
      "d \<noteq> a" "d \<noteq> b"
    using assms by (auto simp: plan_ok_def)
  let ?t0 = "int i * staggerMs p"
  obtain x where x: "x = held p ''L1'' ?t0 + link_delay p ''L1'' + prng_scaled (prng_next s0) (jitterMs p)" by simp
  obtain t1 where t1: "t1 = x + processMs p" by simp
  obtain y where y: "y = held p ''L2'' t1 + link_delay p ''L2'' + prng_scaled (prng_next (prng_next s0)) (jitterMs p)" by simp
  obtain t2 where t2: "t2 = y + processMs p" by simp
  obtain ra where ra: "stamp C ka a bd (VStr s) (VNum x) (VNum t1) = Inr ra" using stamp_total by blast
  obtain rb where rb: "stamp C kb b bd (VStr a) (VNum y) (VNum t2) = Inr rb" using stamp_total by blast
  let ?s3 = "prng_next (prng_next (prng_next s0))"
  have "sim_bundle C p relays i bd s0 = Inr (\<lparr>tr_arrivals = [held p ''L3'' t2 + link_delay p ''L3'' + prng_scaled ?s3 (jitterMs p)],
      tr_receipts = [ra, rb], tr_delayed = (held p ''L1'' ?t0 \<noteq> ?t0 \<or> held p ''L2'' t1 \<noteq> t1 \<or> held p ''L3'' t2 \<noteq> t2),
      tr_dropped = False\<rparr>, ?s3)"
    using ra rb p by (simp add: sim_bundle_def Let_def x [symmetric] t1 [symmetric] y [symmetric] t2 [symmetric])
  with ra rb show ?thesis unfolding t1 t2 by blast
qed

text \<open>The custody a bundle collects: two receipts, by the two relays, linked.\<close>

definition relayed :: "crypto \<Rightarrow> string \<Rightarrow> string \<Rightarrow> string \<Rightarrow> keypair \<Rightarrow> keypair \<Rightarrow> data_bundle \<Rightarrow> jsval list \<Rightarrow> bool" where
  "relayed C s a b ka kb bd rs \<longleftrightarrow> (\<exists>ra rb x y x' y'. rs = [ra, rb] \<and>
     stamp C ka a bd (VStr s) (VNum x) (VNum x') = Inr ra \<and> stamp C kb b bd (VStr a) (VNum y) (VNum y') = Inr rb)"

lemma sim_all_ok:
  assumes "plan_ok p relays s a b d ka kb"
  shows "distinct (map bd_bundleId bds) \<Longrightarrow> set (map bd_bundleId bds) \<inter> fst ` set (ss_custody st) = {} \<Longrightarrow>
    \<exists>st'. sim_all C p relays i bds s0 st = Inr st' \<and> map fst (ss_arrivals st') = map fst (ss_arrivals st) @ bds \<and>
      ss_lost st' = ss_lost st \<and>
      (\<forall>bd \<in> set bds. \<exists>rs. map_of (ss_custody st') (bd_bundleId bd) = Some rs \<and> relayed C s a b ka kb bd rs) \<and>
      (\<forall>k. k \<notin> set (map bd_bundleId bds) \<longrightarrow> map_of (ss_custody st') k = map_of (ss_custody st) k)"
proof (induction bds arbitrary: i s0 st)
  case (Cons bd bds)
  obtain t s1 ra rb x y z where sb: "sim_bundle C p relays i bd s0 =
      Inr (\<lparr>tr_arrivals = [z], tr_receipts = [ra, rb], tr_delayed = t, tr_dropped = False\<rparr>, s1)"
    and st: "stamp C ka a bd (VStr s) (VNum x) (VNum (x + processMs p)) = Inr ra"
      "stamp C kb b bd (VStr a) (VNum y) (VNum (y + processMs p)) = Inr rb"
    using sim_bundle_ok [OF assms, of C i bd s0] by blast
  let ?st = "\<lparr>ss_arrivals = ss_arrivals st @ [(bd, z)],
      ss_custody = AList.update (bd_bundleId bd) [ra, rb] (ss_custody st),
      ss_delayed = (if t \<and> bd_bundleId bd \<notin> set (ss_delayed st) then ss_delayed st @ [bd_bundleId bd] else ss_delayed st),
      ss_lost = ss_lost st\<rparr>"
  have none: "map_of (ss_custody st) (bd_bundleId bd) = None"
    using Cons.prems(2) by (auto simp: map_of_eq_None_iff)
  have "sim_all C p relays i (bd # bds) s0 st = sim_all C p relays (Suc i) bds s1 ?st"
    by (simp add: sb push_custody_def none)
  moreover have "set (map bd_bundleId bds) \<inter> fst ` set (ss_custody ?st) = {}"
    using Cons.prems by (auto simp: update_keys dom_update simp flip: set_map)
  ultimately obtain st' where *: "sim_all C p relays i (bd # bds) s0 st = Inr st'"
    "map fst (ss_arrivals st') = map fst (ss_arrivals st) @ bd # bds" "ss_lost st' = ss_lost st"
    "\<forall>bd \<in> set bds. \<exists>rs. map_of (ss_custody st') (bd_bundleId bd) = Some rs \<and> relayed C s a b ka kb bd rs"
    "\<forall>k. k \<notin> set (map bd_bundleId bds) \<longrightarrow> map_of (ss_custody st') k = map_of (AList.update (bd_bundleId bd) [ra, rb] (ss_custody st)) k"
    using Cons.IH [of ?st "Suc i" s1] Cons.prems(1) by auto
  have "bd_bundleId bd \<notin> set (map bd_bundleId bds)" using Cons.prems(1) by simp
  with *(5) have "map_of (ss_custody st') (bd_bundleId bd) = Some [ra, rb]" by (simp add: update_conv')
  moreover have "relayed C s a b ka kb bd [ra, rb]" using st by (auto simp: relayed_def)
  moreover have "\<forall>k. k \<notin> set (map bd_bundleId (bd # bds)) \<longrightarrow> map_of (ss_custody st') k = map_of (ss_custody st) k"
    using *(5) by (simp add: update_conv')
  ultimately show ?case using *(1-4) by (intro exI [of _ st']) (auto simp del: sim_all.simps)
qed simp

lemma relayed_chain:
  assumes "relayed C s a b ka kb bd rs" "sig_correct C" "keypair_ok C ka" "keypair_ok C kb"
  shows "verifyCustodyChain C rs (bd_bundleId bd) [\<lparr>eid = a, hop_pub = pub ka\<rparr>, \<lparr>eid = b, hop_pub = pub kb\<rparr>] = Inr (ChainOk 2)"
proof -
  obtain ra rb x y x' y' where rs: "rs = [ra, rb]"
    "stamp C ka a bd (VStr s) (VNum x) (VNum x') = Inr ra" "stamp C kb b bd (VStr a) (VNum y) (VNum y') = Inr rb"
    using assms(1) by (auto simp: relayed_def)
  note sa = rs(2) [unfolded stamp_def custodyReceipt_def custody_content_def]
    and sb = rs(3) [unfolded stamp_def custodyReceipt_def custody_content_def]
  show ?thesis unfolding verifyCustodyChain_iff
    using verifyRecord_signRecord [OF assms(2,3) sa] verifyRecord_signRecord [OF assms(2,4) sb]
      signRecord_field(1) [OF sa] signRecord_field(1) [OF sb]
    by (auto simp: custody_spec_def receipt_at_def rs(1) credential_fields_def less_Suc_eq numeral_2_eq_2)
qed

lemma by_arrival_sorted: "sorted (map snd (by_arrival as))" "mset (by_arrival as) = mset as"
  by (simp_all add: by_arrival_def)

text \<open>
  On a plan without loss, the simulator delivers every bundle exactly once and loses none, and
  the receipts it collects for each bundle form a custody chain that verifies against the two relays'
  keys.
\<close>

theorem lossless_simulation:
  assumes "plan_ok p relays s a b d ka kb" and "distinct (map bd_bundleId bds)"
    and "sig_correct C" "keypair_ok C ka" "keypair_ok C kb"
  shows "\<exists>r. simulate C p bds relays = Inr r \<and> mset (arrivalOrder r) = mset bds \<and> lost r = [] \<and>
    (\<forall>bd \<in> set bds. \<exists>rs. map_of (custodyByBundle r) (bd_bundleId bd) = Some rs \<and>
      verifyCustodyChain C rs (bd_bundleId bd) [\<lparr>eid = a, hop_pub = pub ka\<rparr>, \<lparr>eid = b, hop_pub = pub kb\<rparr>] = Inr (ChainOk 2))"
proof -
  let ?st = "\<lparr>ss_arrivals = [], ss_custody = [], ss_delayed = [], ss_lost = []\<rparr>"
  obtain st' where st': "sim_all C p relays 0 bds (prng_init (pl_seed p)) ?st = Inr st'"
    "map fst (ss_arrivals st') = bds" "ss_lost st' = []"
    "\<forall>bd \<in> set bds. \<exists>rs. map_of (ss_custody st') (bd_bundleId bd) = Some rs \<and> relayed C s a b ka kb bd rs"
    using sim_all_ok [OF assms(1,2), of ?st C 0 "prng_init (pl_seed p)"] by auto
  have "mset (map fst (by_arrival (ss_arrivals st'))) = mset bds"
    using by_arrival_sorted(2) [of "ss_arrivals st'"] st'(2) by (metis mset_map)
  with st' show ?thesis
    using relayed_chain [OF _ assms(3-5)] by (fastforce simp: simulate_def)
qed

lemma lossless_simulation_witness:
  "\<exists>r. simulate toy defaultSimPlan
      [\<lparr>bd_payloadId = ''p'', bd_index = 0, bd_leafHex = [], bd_bytesB64 = [], bd_branch = [], bd_bundleId = ''b''\<rparr>]
      [(''dtn://relaya/'', toy_key ''a''), (''dtn://relayb/'', toy_key ''b'')] = Inr r \<and> lost r = []"
proof -
  have "plan_ok defaultSimPlan [(''dtn://relaya/'', toy_key ''a''), (''dtn://relayb/'', toy_key ''b'')]
      ''dtn://source/'' ''dtn://relaya/'' ''dtn://relayb/'' ''dtn://dest/'' (toy_key ''a'') (toy_key ''b'')"
    by (simp add: plan_ok_def defaultSimPlan_def)
  from lossless_simulation [OF this _ toy_sig_correct toy_key_ok toy_key_ok,
      of "[\<lparr>bd_payloadId = ''p'', bd_index = 0, bd_leafHex = [], bd_bytesB64 = [], bd_branch = [], bd_bundleId = ''b''\<rparr>]"]
  show ?thesis by auto
qed

end
