(* ===== verification/FlatRecord.thy ===== *)
theory FlatRecord
  imports Receipt
begin

text \<open>
  The program's own records are flat objects of strings, numbers, booleans and nulls. For those, the
  canonical text is the printed object with its keys in order, it is well-formed UTF-8, parsing it
  gives the object with its keys in order, and that object verifies exactly as the original does.
\<close>

section \<open>Canonical text of a flat record\<close>

fun value_ok :: "jsval \<Rightarrow> bool" where
  "value_ok VNull = True"
| "value_ok (VBool _) = True"
| "value_ok (VNum n) = is_safe_int (VNum n)"
| "value_ok (VStr s) = text_ok s"
| "value_ok _ = False"

definition record_ok :: "(string \<times> jsval) list \<Rightarrow> bool" where
  "record_ok kvs \<longleftrightarrow> distinct (map fst kvs) \<and>
     list_all (\<lambda>kv. fst kv \<noteq> proto_key \<and> text_ok (fst kv) \<and> value_ok (snd kv)) kvs"

definition ordered :: "(string \<times> jsval) list \<Rightarrow> jsval" where
  "ordered kvs = VObj (key_order kvs)"

lemma value_ok_prim: "value_ok v \<Longrightarrow> is_prim v \<and> json_ok v \<and> (\<forall>n. v \<noteq> VBig n)"
  by (cases v) auto

lemma record_ok_json: "record_ok kvs \<Longrightarrow> json_ok (VObj kvs)"
  using value_ok_prim by (auto simp: record_ok_def list_all_iff)

lemma record_ok_mset:
  assumes "record_ok kvs" "mset kvs' = mset kvs"
  shows "record_ok kvs'"
proof -
  have "mset (map fst kvs') = mset (map fst kvs)" using assms(2) by (simp only: mset_map)
  then have "distinct (map fst kvs')" using assms(1) mset_eq_imp_distinct_iff record_ok_def by blast
  moreover have "set kvs' = set kvs" using assms(2) by (rule mset_eq_setD)
  ultimately show ?thesis using assms(1) by (simp add: record_ok_def list_all_iff)
qed

lemma record_ok_filter: "record_ok kvs \<Longrightarrow> record_ok (filter P kvs)"
  by (auto simp: record_ok_def list_all_iff distinct_map_filter)

lemma mset_ordered: "record_ok kvs \<Longrightarrow> mset (key_order kvs) = mset kvs"
  unfolding mset_key_order by (auto simp: record_ok_def list_all_iff filter_mset_eq_conv)

lemma record_ok_ordered: "record_ok kvs \<Longrightarrow> record_ok (key_order kvs)"
  by (rule record_ok_mset [OF _ mset_ordered])

lemma sortKeysDeep_record:
  assumes "record_ok kvs"
  shows "sortKeysDeep (VObj kvs) = Inr (ordered kvs)"
proof -
  obtain n where n: "MAX_DEPTH = Suc n" by (simp add: MAX_DEPTH_def)
  have prim: "is_prim (snd kv)" if "kv \<in> set (key_order kvs)" for kv
    using that assms value_ok_prim by (auto simp: set_key_order record_ok_def list_all_iff)
  have "rmapM (\<lambda>kv. rbind (sort_keys_from (Suc n) (snd kv)) (\<lambda>y. Inr (fst kv, y))) (key_order kvs) =
      Inr (map id (key_order kvs))"
    by (rule rmapM_Inr) (simp add: sort_keys_prim [OF prim] del: sort_keys_from.simps)
  then show ?thesis unfolding sortKeysDeep_def n sort_keys_Obj ordered_def by simp
qed

lemma canonicalize_record:
  "record_ok kvs \<Longrightarrow> canonicalize (VObj kvs) = Inr (Some (jtext (ordered kvs)))"
  using canonicalize_jtext [OF record_ok_json] sortKeysDeep_record by simp

lemma canonicalize_ordered:
  assumes "record_ok kvs"
  shows "canonicalize (ordered kvs) = canonicalize (VObj kvs)"
proof -
  have "distinct (map fst (key_order kvs))" using record_ok_ordered [OF assms] by (simp add: record_ok_def)
  from canonicalize_perm [OF mset_ordered [OF assms] this] show ?thesis by (simp add: ordered_def)
qed

lemma parse_record: "record_ok kvs \<Longrightarrow> json_parse (jtext (ordered kvs)) = Inr (ordered kvs)"
  unfolding ordered_def by (intro json_parse_jtext record_ok_json record_ok_ordered)

lemma field_ordered: "record_ok kvs \<Longrightarrow> k \<noteq> proto_key \<Longrightarrow> field (ordered kvs) k = field (VObj kvs) k"
  by (simp add: ordered_def map_of_key_order record_ok_def)

lemma contentId_ordered:
  assumes "record_ok kvs"
  shows "contentId C (ordered kvs) = contentId C (VObj kvs)"
proof -
  let ?P = "\<lambda>kv :: string \<times> jsval. fst kv \<notin> set credential_fields \<and> fst kv \<noteq> proto_key"
  have "mset (filter ?P (key_order kvs)) = mset (filter ?P kvs)"
    using mset_ordered [OF assms] by (simp only: mset_filter)
  moreover have "distinct (map fst (filter ?P (key_order kvs)))"
    using record_ok_filter [OF record_ok_ordered [OF assms]] by (simp add: record_ok_def)
  ultimately have "canonicalize (VObj (filter ?P (key_order kvs))) = canonicalize (VObj (filter ?P kvs))"
    by (rule canonicalize_perm)
  then show ?thesis by (simp only: contentId_def pickContent_def ordered_def own_props.simps)
qed

lemma verifyRecord_ordered:
  assumes "record_ok kvs"
  shows "verifyRecord C (ordered kvs) = verifyRecord C (VObj kvs)"
proof -
  have "''claimId'' \<noteq> proto_key" "''sig'' \<noteq> proto_key" "''signerPub'' \<noteq> proto_key"
    by (simp_all add: proto_key_def)
  note f = this [THEN field_ordered [OF assms]]
  have "is_object (ordered kvs)" "is_object (VObj kvs)" by (simp_all add: ordered_def)
  then show ?thesis unfolding verifyRecord_def contentId_ordered [OF assms] f by simp
qed

section \<open>Its text is text\<close>

lemma text_ok_join: "(\<And>s. s \<in> set ss \<Longrightarrow> text_ok s) \<Longrightarrow> text_ok (join_commas ss)"
proof (induction ss rule: join_commas.induct)
  case (3 s t r)
  then have "text_ok (join_commas (t # r))" "text_ok s" by simp_all
  then show ?case by (simp add: text_ok_append text_ok_Cons)
qed simp_all

lemma text_ok_quoted: "text_ok s \<Longrightarrow> text_ok (quoted s)"
proof -
  assume "text_ok s"
  moreover have "if of_char c < (128 :: nat) then esc_char c \<noteq> [] \<and> (\<forall>x \<in> set (esc_char c). of_char x < (128 :: nat))
      else esc_char c = [c]" for c
  proof -
    have "(of_char (hexdig n) :: nat) < 128" if "n < 16" for n using that by (simp add: hexdig_def)
    then show ?thesis by (auto simp: esc_char_def Let_def)
  qed
  ultimately have "text_ok (esc_string s)" unfolding esc_string_def by (rule text_ok_subst [rotated])
  then show ?thesis
    using text_ok_append [of "esc_string s" "[CHR 0x22]"] text_ok_ascii [of "[CHR 0x22]"]
    by (simp add: quoted_def text_ok_Cons)
qed

lemma text_ok_show_int: "text_ok (show_int n)"
proof -
  have "text_ok (show_nat m)" for m
    using show_nat_digits [of m] by (intro text_ok_ascii) (auto simp: list_all_iff is_digit_iff)
  then show ?thesis by (simp add: show_int_def text_ok_Cons)
qed

lemma text_ok_value: "value_ok v \<Longrightarrow> text_ok (jtext v)"
  by (cases v) (auto simp: text_ok_quoted text_ok_show_int text_ok_ascii)

lemma text_ok_jtext:
  assumes "record_ok kvs"
  shows "text_ok (jtext (VObj kvs))"
proof -
  have "text_ok (quoted (fst kv) @ CHR '':'' # jtext (snd kv))" if "kv \<in> set kvs" for kv
    using that assms by (auto simp: record_ok_def list_all_iff intro!: text_ok_append text_ok_Cons text_ok_quoted text_ok_value)
  then have "text_ok (join_commas (map (\<lambda>kv. quoted (fst kv) @ CHR '':'' # jtext (snd kv)) kvs))"
    by (intro text_ok_join) auto
  then show ?thesis
    using text_ok_append [of _ "''}''"] text_ok_ascii [of "''}''"] by (simp add: text_ok_Cons)
qed

lemma text_ok_ordered: "record_ok kvs \<Longrightarrow> text_ok (jtext (ordered kvs))"
  unfolding ordered_def by (intro text_ok_jtext record_ok_ordered)

section \<open>Signed records are such records\<close>

lemma text_ok_hex: "text_ok (to_hex bs)"
proof (rule text_ok_ascii, rule ballI)
  fix c assume "c \<in> set (to_hex bs)"
  then obtain n where n: "c = hexdig n" "n < 16"
  proof (induction bs)
    case (Cons b bs)
    have "unat b div 16 < 16" by (rule less_mult_imp_div_less) simp
    with Cons show ?case by (auto simp: to_hex_Cons)
  qed simp
  then show "of_char c < (128 :: nat)" by (simp add: hexdig_def)
qed

lemma text_ok_base64: "text_ok (to_base64 bs)"
proof (rule text_ok_ascii, rule ballI)
  fix c assume "c \<in> set (to_base64 bs)"
  moreover have "list_all (\<lambda>n. n < 64) (b64_split (map unat bs))"
    by (rule b64_split_less) (simp add: list_all_iff)
  ultimately have "c = CHR ''='' \<or> (\<exists>n < 64. c = b64_char n)"
    by (auto simp: to_base64_def b64_pad_def list_all_iff)
  then show "of_char c < (128 :: nat)" by (auto simp: b64_char_def)
qed

lemma record_ok_set_field:
  assumes "record_ok kvs" "k \<noteq> proto_key" "text_ok k" "value_ok v"
  shows "record_ok (set_field k v kvs)"
proof -
  have "fst e \<noteq> proto_key \<and> text_ok (fst e) \<and> value_ok (snd e)" if "e \<in> set (set_field k v kvs)" for e
    using that assms by (auto simp: set_field_def record_ok_def list_all_iff split: if_splits)
  moreover have "distinct (map fst (set_field k v kvs))" using assms(1) by (simp add: record_ok_def)
  ultimately show ?thesis by (simp add: record_ok_def list_all_iff)
qed

lemma signRecord_record:
  assumes "record_ok kvs" "text_ok (pub kp)"
  shows "\<exists>kvs'. signRecord C kp (VObj kvs) = Inr (VObj kvs') \<and> record_ok kvs'"
proof -
  have "flat kvs" using assms(1) value_ok_prim by (auto simp: flat_def record_ok_def list_all_iff)
  from contentId_flat [OF this] obtain i where i: "contentId C (VObj kvs) = Inr i" by blast
  then obtain t where "i = ''0x'' @ to_hex (sha256 C (utf8 t))" by (auto simp: contentId_Inr)
  then have "text_ok i" by (simp add: text_ok_Cons text_ok_hex)
  moreover have "''claimId'' \<noteq> proto_key" "''sig'' \<noteq> proto_key" "''signerPub'' \<noteq> proto_key"
    by (simp_all add: proto_key_def)
  moreover have "text_ok ''claimId''" "text_ok ''sig''" "text_ok ''signerPub''"
    by (simp_all add: text_ok_ascii)
  ultimately have "record_ok (set_field ''signerPub'' (VStr (pub kp)) (set_field ''sig''
      (VStr (signClaim C (priv kp) (VStr i))) (set_field ''claimId'' (VStr i) kvs)))"
    using assms by (intro record_ok_set_field) (simp_all add: signClaim_def text_ok_base64)
  with i show ?thesis by (simp add: signRecord_def)
qed

lemma custody_content_ok:
  assumes "value_ok pid" "value_ok bid" "value_ok prev" "text_ok e" "value_ok at" "value_ok fw"
  shows "\<exists>kvs. custody_content pid bid prev e at fw = VObj kvs \<and> record_ok kvs"
proof -
  have "text_ok ''kind''" "text_ok ''payloadId''" "text_ok ''bundleId''" "text_ok ''prevHop''" "text_ok ''thisHop''"
      "text_ok ''receivedAt''" "text_ok ''forwardedAt''" "text_ok ''custody/1''" by (simp_all add: text_ok_ascii)
  with assms show ?thesis by (simp add: custody_content_def record_ok_def proto_key_def)
qed

lemma custodyReceipt_record:
  assumes "value_ok pid" "value_ok bid" "value_ok prev" "text_ok e" "value_ok at" "value_ok fw" "text_ok (pub kp)"
  shows "\<exists>kvs. custodyReceipt C kp pid bid prev e at fw = Inr (VObj kvs) \<and> record_ok kvs"
  using custody_content_ok [OF assms(1-6)] signRecord_record [OF _ assms(7)]
  by (auto simp: custodyReceipt_def)

section \<open>Length of the text\<close>

fun value_size :: "jsval \<Rightarrow> nat" where
  "value_size (VStr s) = 2 + 6 * length s"
| "value_size v = length (jtext v)"

definition record_size :: "(string \<times> jsval) list \<Rightarrow> nat" where
  "record_size kvs = 2 + sum_list (map (\<lambda>kv. 4 + 6 * length (fst kv) + value_size (snd kv)) kvs)"

lemma length_quoted: "length (quoted s) \<le> 2 + 6 * length s"
proof -
  have c: "length (esc_char c) \<le> 6" for c by (simp add: esc_char_def Let_def)
  have "length (concat (map esc_char s)) \<le> 6 * length s"
  proof (induction s)
    case (Cons x s)
    then show ?case using c [of x] by simp
  qed simp
  then show ?thesis by (simp add: quoted_def esc_string_def)
qed

lemma length_value: "length (jtext v) \<le> value_size v"
  using length_quoted by (cases v) auto

lemma length_join: "length (join_commas ss) \<le> sum_list (map (\<lambda>s. Suc (length s)) ss)"
  by (induction ss rule: join_commas.induct) simp_all

lemma length_record: "length (jtext (VObj kvs)) \<le> record_size kvs"
proof -
  let ?m = "\<lambda>kv. quoted (fst kv) @ CHR '':'' # jtext (snd kv)"
  have "length (join_commas (map ?m kvs)) \<le> sum_list (map (\<lambda>s. Suc (length s)) (map ?m kvs))"
    by (rule length_join)
  also have "\<dots> = sum_list (map (\<lambda>kv. Suc (length (?m kv))) kvs)" by (simp add: comp_def)
  also have "\<dots> \<le> sum_list (map (\<lambda>kv. 4 + 6 * length (fst kv) + value_size (snd kv)) kvs)"
  proof (rule sum_list_mono)
    fix kv
    show "Suc (length (?m kv)) \<le> 4 + 6 * length (fst kv) + value_size (snd kv)"
      using length_quoted [of "fst kv"] length_value [of "snd kv"] by simp
  qed
  finally show ?thesis by (simp add: record_size_def)
qed

lemma length_ordered: "record_ok kvs \<Longrightarrow> length (jtext (ordered kvs)) \<le> record_size kvs"
proof -
  assume "record_ok kvs"
  then have "mset (key_order kvs) = mset kvs" by (rule mset_ordered)
  then have "record_size (key_order kvs) = record_size kvs"
    by (simp add: record_size_def flip: sum_mset_sum_list)
  with length_record [of "key_order kvs"] show ?thesis by (simp add: ordered_def)
qed

lemma length_contentId: "hash32 C \<Longrightarrow> contentId C v = Inr i \<Longrightarrow> length i = 66"
  by (auto simp: contentId_Inr len_simps)

end
