(* ===== verification/Crc.thy ===== *)
theory Crc
  imports Prelude
begin

unbundle bit_operations_syntax

text \<open>
  The block CRCs of transport/bpv7/bundle.mjs: CRC-16/X-25 and CRC-32C, computed byte by byte from a
  256-entry table. The program keeps the register in a JavaScript number below \<open>2 ^ 16\<close> or
  \<open>2 ^ 32\<close>; here it is a word of that width, and \<open>c >>> k\<close> is \<open>drop_bit k c\<close>. The definitions are
  polymorphic in the width, as \<open>crcTable(poly, bits)\<close> is.

  The lemmas: the table computes eight steps of the bit-serial register (\<open>crc_step_serial\<close>), a step
  is injective in the register and in the byte, so no change of a single byte keeps the CRC.
\<close>

section \<open>Definitions\<close>

definition crc_bit :: "'w::len word \<Rightarrow> 'w word \<Rightarrow> 'w word" where
  "crc_bit poly c = (if c AND 1 \<noteq> 0 then drop_bit 1 c XOR poly else drop_bit 1 c)"

definition crcTable :: "'w::len word \<Rightarrow> 'w word list" where
  "crcTable poly = map (\<lambda>i. (crc_bit poly ^^ 8) (word_of_nat i)) [0..<256]"

definition T16 :: "16 word list" where
  "T16 = crcTable 0x8408"

definition T32C :: "32 word list" where
  "T32C = crcTable 0x82f63b78"

definition crc_step :: "'w::len word list \<Rightarrow> 'w word \<Rightarrow> byte \<Rightarrow> 'w word" where
  "crc_step t c b = drop_bit 8 c XOR t ! unat ((c XOR ucast b) AND 0xff)"

definition crc16x25Update :: "16 word \<Rightarrow> bytes \<Rightarrow> 16 word" where
  "crc16x25Update c bs = foldl (crc_step T16) c bs"

definition crc32cUpdate :: "32 word \<Rightarrow> bytes \<Rightarrow> 32 word" where
  "crc32cUpdate c bs = foldl (crc_step T32C) c bs"

definition crc16x25 :: "bytes \<Rightarrow> 16 word" where
  "crc16x25 bs = foldl (crc_step T16) 0xffff bs XOR 0xffff"

definition crc32c :: "bytes \<Rightarrow> 32 word" where
  "crc32c bs = crc32cUpdate 0xffffffff bs XOR 0xffffffff"

section \<open>The table is the bit-serial register\<close>

lemma xor_cancel:
  fixes x :: "'w::len word"
  shows "x XOR z = y XOR z \<Longrightarrow> x = y" "z XOR x = z XOR y \<Longrightarrow> x = y"
  by (metis xor.assoc xor_self_eq xor.right_neutral, metis xor.assoc xor_self_eq xor.left_neutral)

lemma crc_bit_low: "crc_bit poly c = (if bit c 0 then drop_bit 1 c XOR poly else drop_bit 1 c)"
  by (simp add: crc_bit_def and_one_eq bit_0 odd_iff_mod_2_eq_one)

lemma crc_bit_xor: "crc_bit poly (x XOR y) = crc_bit poly x XOR crc_bit poly y"
proof -
  have "(x XOR y) AND 1 \<noteq> 0 \<longleftrightarrow> (x AND 1 \<noteq> 0) \<noteq> (y AND 1 \<noteq> 0)"
    by (simp add: and_one_eq odd_iff_mod_2_eq_one [symmetric] even_xor_iff)
  then show ?thesis
    by (auto simp: crc_bit_def bit_eq_iff bit_simps)
qed

lemma crc_bits_xor: "(crc_bit poly ^^ n) (x XOR y) = (crc_bit poly ^^ n) x XOR (crc_bit poly ^^ n) y"
  by (induction n) (simp_all add: crc_bit_xor)

lemma crc_bits_shift:
  fixes x :: "'w::len word"
  shows "take_bit n x = 0 \<Longrightarrow> (crc_bit poly ^^ n) x = drop_bit n x"
proof (induction n arbitrary: x)
  case (Suc n)
  have "\<not> bit x k" if "k < Suc n" for k
    using Suc.prems that by (metis bit_take_bit_iff bit_0_eq bot_apply bot_bool_def)
  note low = this
  from low [of 0] have x0: "x AND 1 = 0"
    by (simp add: and_one_eq bit_0 even_iff_mod_2_eq_zero)
  from low have sh: "take_bit n (drop_bit 1 x) = 0"
    by (auto simp: bit_eq_iff [of _ "0 :: 'w word"] bit_simps)
  have "(crc_bit poly ^^ Suc n) x = (crc_bit poly ^^ n) (drop_bit 1 x)"
    using x0 by (simp add: funpow_Suc_right crc_bit_def del: funpow.simps)
  also have "\<dots> = drop_bit n (drop_bit 1 x)" by (rule Suc.IH [OF sh])
  also have "\<dots> = drop_bit (Suc n) x" by (simp add: bit_eq_iff bit_simps)
  finally show ?case .
qed simp

lemma low_byte:
  fixes x :: "'w::len word"
  assumes "8 \<le> LENGTH('w)"
  shows "x AND 0xff = take_bit 8 x" "unat (x AND 0xff) < 256"
proof -
  have ff: "(0xff :: 'w word) = mask 8" by (simp add: mask_eq_exp_minus_1)
  show 1: "x AND 0xff = take_bit 8 x" unfolding ff by (simp add: take_bit_eq_mask)
  have "unat (take_bit 8 x) = take_bit 8 (unat x)" by (simp add: unsigned_take_bit_eq)
  also have "\<dots> < 2 ^ 8" by (rule take_bit_nat_less_exp)
  finally show "unat (x AND 0xff) < 256" unfolding 1 by simp
qed

lemma crc_step_serial:
  fixes c :: "'w::len word"
  assumes "8 \<le> LENGTH('w)"
  shows "crc_step (crcTable poly) c b = (crc_bit poly ^^ 8) (c XOR ucast b)"
proof -
  define x where "x = c XOR ucast b"
  have lo: "x AND 0xff = take_bit 8 x" "unat (x AND 0xff) < 256" by (rule low_byte [OF assms])+
  define hi where "hi = x AND NOT (mask 8)"
  have split: "x = take_bit 8 x XOR hi" and hi0: "take_bit 8 hi = 0"
    by (auto simp: hi_def bit_eq_iff bit_simps)
  have "drop_bit 8 (ucast b :: 'w word) = 0"
    by (auto simp: bit_eq_iff bit_simps dest: bit_imp_le_length)
  then have hi8: "drop_bit 8 hi = drop_bit 8 c"
    by (auto simp: hi_def x_def bit_eq_iff bit_simps dest: bit_imp_le_length)
  have "crcTable poly ! unat (x AND 0xff) = (crc_bit poly ^^ 8) (take_bit 8 x)"
    using lo by (simp add: crcTable_def)
  then have "crc_step (crcTable poly) c b = drop_bit 8 hi XOR (crc_bit poly ^^ 8) (take_bit 8 x)"
    by (simp add: crc_step_def x_def [symmetric] hi8)
  also have "\<dots> = (crc_bit poly ^^ 8) (take_bit 8 x XOR hi)"
    by (simp only: crc_bits_xor crc_bits_shift [OF hi0] xor.commute)
  finally show ?thesis using split by (simp add: x_def)
qed

lemma crc16_serial: "crc16x25 bs = foldl (\<lambda>c b. (crc_bit 0x8408 ^^ 8) (c XOR ucast b)) 0xffff bs XOR 0xffff"
proof -
  have "crc_step T16 = (\<lambda>c b. (crc_bit 0x8408 ^^ 8) (c XOR ucast b))"
    unfolding T16_def by (intro ext crc_step_serial) simp
  then show ?thesis by (simp only: crc16x25_def)
qed

lemma crc32_serial:
  "crc32c bs = foldl (\<lambda>c b. (crc_bit 0x82f63b78 ^^ 8) (c XOR ucast b)) 0xffffffff bs XOR 0xffffffff"
proof -
  have "crc_step T32C = (\<lambda>c b. (crc_bit 0x82f63b78 ^^ 8) (c XOR ucast b))"
    unfolding T32C_def by (intro ext crc_step_serial) simp
  then show ?thesis by (simp only: crc32c_def crc32cUpdate_def)
qed

section \<open>A step loses nothing\<close>

lemma crc_bit_inj:
  fixes poly :: "'w::len word"
  assumes "bit poly (LENGTH('w) - 1)" and eq: "crc_bit poly x = crc_bit poly y"
  shows "x = y"
proof -
  have low: "bit (crc_bit poly z) (LENGTH('w) - 1) = bit z 0" for z :: "'w word"
    using assms(1) by (auto simp: crc_bit_low bit_simps simp del: bit_0 dest: bit_imp_le_length)
  then have 0: "bit x 0 = bit y 0" using eq by metis
  then have "drop_bit 1 x = drop_bit 1 y"
    using eq by (cases "bit x 0") (auto simp only: crc_bit_low if_True if_False dest: xor_cancel)
  then have "bit (drop_bit 1 x) n = bit (drop_bit 1 y) n" for n by simp
  then have "bit x (Suc n) = bit y (Suc n)" for n by (simp add: bit_simps)
  with 0 show ?thesis by (intro bit_eqI) (metis not0_implies_Suc)
qed

lemma crc_bits_inj:
  fixes poly :: "'w::len word"
  assumes "bit poly (LENGTH('w) - 1)"
  shows "(crc_bit poly ^^ n) x = (crc_bit poly ^^ n) y \<Longrightarrow> x = y"
  by (induction n) (simp_all, metis crc_bit_inj [OF assms])

lemma crc_step_inj:
  fixes poly :: "'w::len word"
  assumes "8 \<le> LENGTH('w)" "bit poly (LENGTH('w) - 1)"
  shows "crc_step (crcTable poly) c b = crc_step (crcTable poly) d b \<Longrightarrow> c = d"
    "crc_step (crcTable poly) c b = crc_step (crcTable poly) c b' \<Longrightarrow> b = b'"
proof -
  show "crc_step (crcTable poly) c b = crc_step (crcTable poly) d b \<Longrightarrow> c = d"
    unfolding crc_step_serial [OF assms(1)] by (drule crc_bits_inj [OF assms(2)]) (rule xor_cancel)
  assume "crc_step (crcTable poly) c b = crc_step (crcTable poly) c b'"
  then have "c XOR ucast b = c XOR ucast b'"
    unfolding crc_step_serial [OF assms(1)] by (rule crc_bits_inj [OF assms(2)])
  then have "(ucast b :: 'w word) = ucast b'" by (rule xor_cancel)
  then have "unat (ucast b :: 'w word) = unat (ucast b' :: 'w word)" by simp
  moreover have "unat (ucast z :: 'w word) = unat z" for z :: byte
  proof -
    have "unat z < 2 ^ 8" using unat_byte_less [of z] by simp
    also have "(2 :: nat) ^ 8 \<le> 2 ^ LENGTH('w)" by (rule power_increasing [OF assms(1)]) simp
    finally show ?thesis by (simp add: unsigned_ucast_eq take_bit_nat_eq_self)
  qed
  ultimately show "b = b'" by (simp add: word_unat_eq_iff)
qed

lemma foldl_step_inj:
  assumes "\<And>c d b. f c b = f d b \<Longrightarrow> c = d"
  shows "foldl f c bs = foldl f d bs \<Longrightarrow> c = d"
proof (induction bs arbitrary: c d)
  case (Cons b bs)
  then have "f c b = f d b" by simp
  then show ?case by (rule assms)
qed simp

lemma foldl_change_detected:
  assumes inj: "\<And>c d b. f c b = f d b \<Longrightarrow> c = d" "\<And>c b b'. f c b = f c b' \<Longrightarrow> b = b'"
    and eq: "foldl f c (xs @ b # ys) = foldl f c (xs @ b' # ys)"
  shows "b = b'"
proof -
  have "foldl f (f (foldl f c xs) b) ys = foldl f (f (foldl f c xs) b') ys" using eq by simp
  then have "f (foldl f c xs) b = f (foldl f c xs) b'" by (rule foldl_step_inj [rotated]) (rule inj(1))
  then show ?thesis by (rule inj(2))
qed

lemma poly_top: "bit (0x8408 :: 16 word) (LENGTH(16) - 1)" "bit (0x82f63b78 :: 32 word) (LENGTH(32) - 1)"
  by simp_all

lemma crc16_byte_detected: "b \<noteq> b' \<Longrightarrow> crc16x25 (xs @ b # ys) \<noteq> crc16x25 (xs @ b' # ys)"
proof
  assume "b \<noteq> b'" "crc16x25 (xs @ b # ys) = crc16x25 (xs @ b' # ys)"
  from this(2) have "foldl (crc_step T16) 0xffff (xs @ b # ys) = foldl (crc_step T16) 0xffff (xs @ b' # ys)"
    unfolding crc16x25_def by (rule xor_cancel)
  then have "b = b'"
    by (rule foldl_change_detected [rotated 2])
      (use crc_step_inj [OF _ poly_top(1)] in \<open>auto simp: T16_def\<close>)
  with \<open>b \<noteq> b'\<close> show False by simp
qed

lemma crc32_byte_detected: "b \<noteq> b' \<Longrightarrow> crc32c (xs @ b # ys) \<noteq> crc32c (xs @ b' # ys)"
proof
  assume "b \<noteq> b'" "crc32c (xs @ b # ys) = crc32c (xs @ b' # ys)"
  from this(2) have "foldl (crc_step T32C) 0xffffffff (xs @ b # ys) = foldl (crc_step T32C) 0xffffffff (xs @ b' # ys)"
    unfolding crc32c_def crc32cUpdate_def by (rule xor_cancel)
  then have "b = b'"
    by (rule foldl_change_detected [rotated 2])
      (use crc_step_inj [OF _ poly_top(2)] in \<open>auto simp: T32C_def\<close>)
  with \<open>b \<noteq> b'\<close> show False by simp
qed

lemma crc_updates_append:
  "crc16x25Update c (xs @ ys) = crc16x25Update (crc16x25Update c xs) ys"
  "crc32cUpdate d (xs @ ys) = crc32cUpdate (crc32cUpdate d xs) ys"
  by (simp_all add: crc16x25Update_def crc32cUpdate_def)

lemma crc_whole:
  "crc16x25 bs = crc16x25Update 0xffff bs XOR 0xffff" "crc32c bs = crc32cUpdate 0xffffffff bs XOR 0xffffffff"
  by (simp_all add: crc16x25_def crc32c_def crc16x25Update_def)

end
