(* ===== verification/Cbor.thy ===== *)
theory Cbor
  imports JsValue
begin

text \<open>
  transport/bpv7/cbor.mjs: the CBOR subset of BPv7. \<open>encode\<close> writes shortest-form heads; \<open>decodeAt\<close>
  reads one item of a buffer. A position in a buffer is the suffix that starts there, so
  \<open>decodeAt(buf, off)\<close> is \<open>decode_at\<close> on that suffix and \<open>end\<close> is the suffix it returns. The first
  argument of \<open>decode_at\<close> is the number of nesting levels left: \<open>depth > 32\<close> throws, so the outermost
  call has 33.

  \<open>Bstr\<close>, Buffer and Uint8Array are all \<open>VBytes\<close>; an argument above \<open>MAX_SAFE_INTEGER\<close> is a BigInt.
\<close>

section \<open>Heads\<close>

definition head_bytes :: "nat \<Rightarrow> nat \<Rightarrow> bytes" where
  "head_bytes major n =
     (if n < 24 then [byte_of (major * 32 + n)]
      else if n < 0x100 then byte_of (major * 32 + 24) # be 1 n
      else if n < 0x10000 then byte_of (major * 32 + 25) # be 2 n
      else if n < 0x100000000 then byte_of (major * 32 + 26) # be 4 n
      else byte_of (major * 32 + 27) # be 8 n)"

text \<open>\<open>head\<close> on a number and on a BigInt; \<open>writeBigUInt64BE\<close> refuses what needs more than 64 bits.\<close>

definition head_num :: "nat \<Rightarrow> int \<Rightarrow> bytes res" where
  "head_num major n =
     (if n < 0 then Inl ''bad CBOR argument''
      else if n \<ge> 0x100000000 \<and> n > MAX_SAFE_INTEGER then Inl ''integer beyond 2^53, pass a BigInt''
      else Inr (head_bytes major (nat n)))"

definition head_big :: "nat \<Rightarrow> int \<Rightarrow> bytes res" where
  "head_big major n =
     (if n < 0 then Inl ''negative length''
      else if n \<ge> 2 ^ 64 then Inl ''out of range''
      else Inr (head_bytes major (nat n)))"

section \<open>\<open>encode\<close>\<close>

function (sequential) encode :: "jsval \<Rightarrow> bytes res" where
  "encode (VBool b) = Inr [if b then 0xF5 else 0xF4]"
| "encode VNull = Inr [0xF6]"
| "encode (VNum n) = (if n < 0 then head_num 1 (- 1 - n) else head_num 0 n)"
| "encode (VBig n) = (if n < 0 then head_big 1 (- 1 - n) else head_big 0 n)"
| "encode (VStr s) = Inr (head_bytes 3 (length (utf8 s)) @ utf8 s)"
| "encode (VBytes bs) = Inr (head_bytes 2 (length bs) @ bs)"
| "encode (VIndef vs) = rbind (rmapM encode vs) (\<lambda>ps. Inr (0x9F # concat ps @ [0xFF]))"
| "encode (VArr vs) = rbind (rmapM encode vs) (\<lambda>ps. Inr (head_bytes 4 (length vs) @ concat ps))"
| "encode (VMap kvs) =
     rbind (rmapM (\<lambda>e. rbind (encode (fst e)) (\<lambda>a. rbind (encode (snd e)) (\<lambda>b. Inr (a @ b)))) kvs)
       (\<lambda>ps. Inr (head_bytes 5 (length kvs) @ concat ps))"
| "encode VUndef = Inl ''cannot CBOR-encode''"
| "encode (VObj _) = Inl ''cannot CBOR-encode''"
  by pat_completeness auto
termination
  by (relation "measure size")
    (auto simp: less_Suc_eq_le elim!: size_list_estimation' simp: size_prod_simp
      dest!: split_list)

section \<open>\<open>decodeAt\<close>\<close>

text \<open>The argument of an item: \<open>None\<close> is the \<open>null\<close> of an indefinite length.\<close>

definition take_be :: "nat \<Rightarrow> bytes \<Rightarrow> (nat option \<times> bytes) res" where
  "take_be k bs = (if length bs < k then Inl ''CBOR truncated'' else Inr (Some (unbe (take k bs)), drop k bs))"

definition read_arg :: "nat \<Rightarrow> bytes \<Rightarrow> (nat option \<times> bytes) res" where
  "read_arg ai bs =
     (if ai < 24 then Inr (Some ai, bs)
      else if ai = 24 then take_be 1 bs
      else if ai = 25 then take_be 2 bs
      else if ai = 26 then take_be 4 bs
      else if ai = 27 then take_be 8 bs
      else if ai = 31 then Inr (None, bs)
      else Inl ''CBOR reserved additional info'')"

definition int_value :: "int \<Rightarrow> nat \<Rightarrow> jsval" where
  "int_value n arg = (if int arg \<le> MAX_SAFE_INTEGER then VNum n else VBig n)"

text \<open>\<open>m.set(k, v)\<close>: a primitive key keeps its first place, any other key is a new one.\<close>

definition map_set :: "jsval \<Rightarrow> jsval \<Rightarrow> (jsval \<times> jsval) list \<Rightarrow> (jsval \<times> jsval) list" where
  "map_set k v m =
     (if is_prim k \<and> k \<in> set (map fst m) then map (\<lambda>e. if fst e = k then (k, v) else e) m else m @ [(k, v)])"

type_synonym item_decoder = "bytes \<Rightarrow> (jsval \<times> bytes) res"

primrec dec_items :: "item_decoder \<Rightarrow> nat \<Rightarrow> bytes \<Rightarrow> (jsval list \<times> bytes) res" where
  "dec_items dec 0 bs = Inr ([], bs)"
| "dec_items dec (Suc n) bs =
     rbind (dec bs) (\<lambda>(v, r). rbind (dec_items dec n r) (\<lambda>(vs, r'). Inr (v # vs, r')))"

primrec dec_pairs :: "item_decoder \<Rightarrow> nat \<Rightarrow> (jsval \<times> jsval) list \<Rightarrow> bytes \<Rightarrow> ((jsval \<times> jsval) list \<times> bytes) res" where
  "dec_pairs dec 0 m bs = Inr (m, bs)"
| "dec_pairs dec (Suc n) m bs =
     rbind (dec bs) (\<lambda>(k, r). rbind (dec r) (\<lambda>(v, r'). dec_pairs dec n (map_set k v m) r'))"

text \<open>The loop to the \<open>0xFF\<close> of an indefinite array; every item takes a byte, so the bytes left bound it.\<close>

primrec dec_until :: "item_decoder \<Rightarrow> nat \<Rightarrow> bytes \<Rightarrow> (jsval list \<times> bytes) res" where
  "dec_until dec 0 bs = Inl ''CBOR truncated''"
| "dec_until dec (Suc n) bs =
     (case bs of
        [] \<Rightarrow> Inl ''CBOR truncated''
      | b # r \<Rightarrow> if b = 0xFF then Inr ([], r)
          else rbind (dec bs) (\<lambda>(v, r). rbind (dec_until dec n r) (\<lambda>(vs, r'). Inr (v # vs, r'))))"

definition dec_simple :: "nat \<Rightarrow> bytes \<Rightarrow> (jsval \<times> bytes) res" where
  "dec_simple ai bs =
     (if ai = 20 then Inr (VBool False, bs)
      else if ai = 21 then Inr (VBool True, bs)
      else if ai = 22 then Inr (VNull, bs)
      else Inl ''unsupported CBOR simple/float'')"

definition dec_string :: "nat \<Rightarrow> nat option \<Rightarrow> bytes \<Rightarrow> (jsval \<times> bytes) res" where
  "dec_string major arg bs =
     (case arg of
        None \<Rightarrow> Inl ''unsupported string length''
      | Some n \<Rightarrow>
          if int n > MAX_SAFE_INTEGER then Inl ''unsupported string length''
          else if length bs < n then Inl ''CBOR truncated''
          else Inr (if major = 2 then VBytes (take n bs) else VStr (utf8_text (take n bs)), drop n bs))"

definition decode_body :: "item_decoder \<Rightarrow> nat \<Rightarrow> nat \<Rightarrow> nat option \<Rightarrow> bytes \<Rightarrow> (jsval \<times> bytes) res" where
  "decode_body dec major ai arg bs =
     (if major = 0 then
        (case arg of None \<Rightarrow> Inl ''indefinite uint'' | Some n \<Rightarrow> Inr (int_value (int n) n, bs))
      else if major = 1 then
        (case arg of None \<Rightarrow> Inl ''indefinite nint'' | Some n \<Rightarrow> Inr (int_value (- 1 - int n) n, bs))
      else if major = 2 \<or> major = 3 then dec_string major arg bs
      else if major = 4 then
        (case arg of
           None \<Rightarrow> rbind (dec_until dec (length bs) bs) (\<lambda>(vs, r). Inr (VIndef vs, r))
         | Some n \<Rightarrow> rbind (dec_items dec n bs) (\<lambda>(vs, r). Inr (VArr vs, r)))
      else if major = 5 then
        (case arg of
           None \<Rightarrow> Inl ''indefinite map not supported''
         | Some n \<Rightarrow> rbind (dec_pairs dec n [] bs) (\<lambda>(m, r). Inr (VMap m, r)))
      else if major = 7 then dec_simple ai bs
      else Inl ''unsupported CBOR major type'')"

primrec decode_at :: "nat \<Rightarrow> bytes \<Rightarrow> (jsval \<times> bytes) res" where
  "decode_at 0 bs = Inl ''CBOR nesting too deep''"
| "decode_at (Suc d) bs =
     (case bs of
        [] \<Rightarrow> Inl ''CBOR truncated''
      | ib # r \<Rightarrow> rbind (read_arg (unat ib mod 32) r)
          (\<lambda>(arg, p). decode_body (decode_at d) (unat ib div 32) (unat ib mod 32) arg p))"

abbreviation max_levels :: nat where
  "max_levels \<equiv> 33"

definition decodeAt :: "bytes \<Rightarrow> (jsval \<times> bytes) res" where
  "decodeAt bs = decode_at max_levels bs"

definition decode :: "bytes \<Rightarrow> jsval res" where
  "decode bs = rbind (decodeAt bs) (\<lambda>(v, r). if r \<noteq> [] then Inl ''trailing bytes after CBOR item'' else Inr v)"

section \<open>Heads are read back\<close>

lemma length_head_bytes: "length (head_bytes major n) =
    (if n < 24 then 1 else if n < 0x100 then 2 else if n < 0x10000 then 3 else if n < 0x100000000 then 5 else 9)"
  by (simp add: head_bytes_def)

lemma head_byte_split:
  assumes "major < 8" "ai < 32"
  shows "unat (byte_of (major * 32 + ai)) div 32 = major" "unat (byte_of (major * 32 + ai)) mod 32 = ai"
proof -
  have "unat (byte_of (major * 32 + ai)) = major * 32 + ai"
    using assms by (simp only: unat_byte_of) simp
  then show "unat (byte_of (major * 32 + ai)) div 32 = major" "unat (byte_of (major * 32 + ai)) mod 32 = ai"
    using assms by simp_all
qed

lemma take_be_be: "n < 256 ^ k \<Longrightarrow> take_be k (be k n @ r) = Inr (Some n, r)"
  by (simp add: take_be_def unbe_be)

lemma head_bytes_split:
  assumes "n < 2 ^ 64"
  shows "\<exists>ai p. head_bytes major n = byte_of (major * 32 + ai) # p \<and> ai < 32 \<and>
    (\<forall>r. read_arg ai (p @ r) = Inr (Some n, r))"
proof -
  consider "n < 24" | "24 \<le> n" "n < 0x100" | "0x100 \<le> n" "n < 0x10000"
    | "0x10000 \<le> n" "n < 0x100000000" | "0x100000000 \<le> n" by linarith
  then show ?thesis
  proof cases
    case 1
    then show ?thesis by (intro exI [of _ n] exI [of _ "[]"]) (simp add: head_bytes_def read_arg_def)
  next
    case 2
    then show ?thesis using take_be_be [of n 1]
      by (intro exI [of _ 24] exI [of _ "be 1 n"]) (simp add: head_bytes_def read_arg_def del: be.simps)
  next
    case 3
    then show ?thesis using take_be_be [of n 2]
      by (intro exI [of _ 25] exI [of _ "be 2 n"]) (simp add: head_bytes_def read_arg_def)
  next
    case 4
    then show ?thesis using take_be_be [of n 4]
      by (intro exI [of _ 26] exI [of _ "be 4 n"]) (simp add: head_bytes_def read_arg_def)
  next
    case 5
    then show ?thesis using take_be_be [of n 8] assms
      by (intro exI [of _ 27] exI [of _ "be 8 n"]) (simp add: head_bytes_def read_arg_def)
  qed
qed

lemma decode_at_head:
  assumes "n < 2 ^ 64" "major < 7"
  shows "decode_at (Suc d) (head_bytes major n @ r) = decode_body (decode_at d) major 0 (Some n) r"
proof -
  obtain ai p where *: "head_bytes major n = byte_of (major * 32 + ai) # p" "ai < 32"
      "\<And>r. read_arg ai (p @ r) = Inr (Some n, r)"
    using head_bytes_split [OF assms(1)] by blast
  have "decode_at (Suc d) (head_bytes major n @ r) = decode_body (decode_at d) major ai (Some n) r"
    using head_byte_split [of major ai] assms(2) *
    by (simp only: decode_at.simps append_Cons list.case rbind_simps prod.case)
  also have "\<dots> = decode_body (decode_at d) major 0 (Some n) r"
    using assms(2) by (simp add: decode_body_def)
  finally show ?thesis .
qed

lemma head_bytes_not_break: "n < 2 ^ 64 \<Longrightarrow> major < 7 \<Longrightarrow> \<exists>b p. head_bytes major n = b # p \<and> b \<noteq> 0xFF"
proof -
  assume n: "n < 2 ^ 64" and m: "major < 7"
  obtain ai p where *: "head_bytes major n = byte_of (major * 32 + ai) # p" "ai < 32"
    using head_bytes_split [OF n] by blast
  have "unat (byte_of (major * 32 + ai)) \<noteq> unat (0xFF :: byte)"
  proof -
    have "unat (byte_of (major * 32 + ai)) = major * 32 + ai"
      using m *(2) by (simp only: unat_byte_of) simp
    then show ?thesis using m *(2) by simp
  qed
  then have "byte_of (major * 32 + ai) \<noteq> (0xFF :: byte)" by (metis (no_types))
  then show ?thesis using * by blast
qed

section \<open>Every item takes bytes\<close>

lemma rbind_case_Inr: "rbind r (\<lambda>(x, y). f x y) = Inr z \<longleftrightarrow> (\<exists>x y. r = Inr (x, y) \<and> f x y = Inr z)"
  by (cases r) auto

definition shrinks :: "(bytes \<Rightarrow> ('a \<times> bytes) res) \<Rightarrow> bool" where
  "shrinks dec \<longleftrightarrow> (\<forall>bs x r. dec bs = Inr (x, r) \<longrightarrow> length r < length bs)"

lemma shrinksD: "shrinks dec \<Longrightarrow> dec bs = Inr (x, r) \<Longrightarrow> length r < length bs"
  unfolding shrinks_def by blast

lemma dec_items_shrinks: "shrinks dec \<Longrightarrow> dec_items dec n bs = Inr (vs, r) \<Longrightarrow> length r \<le> length bs"
  by (induction n arbitrary: bs vs) (fastforce simp: rbind_case_Inr dest: shrinksD)+

lemma dec_pairs_shrinks: "shrinks dec \<Longrightarrow> dec_pairs dec n m bs = Inr (kvs, r) \<Longrightarrow> length r \<le> length bs"
proof (induction n arbitrary: bs m)
  case (Suc n)
  then obtain k r1 v r2 where *: "dec bs = Inr (k, r1)" "dec r1 = Inr (v, r2)"
      "dec_pairs dec n (map_set k v m) r2 = Inr (kvs, r)"
    by (auto simp: rbind_case_Inr)
  then have "length r1 < length bs" "length r2 < length r1" "length r \<le> length r2"
    using Suc by (auto dest: shrinksD)
  then show ?case by simp
qed simp

lemma dec_until_shrinks: "shrinks dec \<Longrightarrow> dec_until dec n bs = Inr (vs, r) \<Longrightarrow> length r \<le> length bs"
  by (induction n arbitrary: bs vs)
    (fastforce simp: rbind_case_Inr dest: shrinksD split: list.splits if_splits)+

lemma read_arg_shrinks: "read_arg ai bs = Inr (arg, r) \<Longrightarrow> length r \<le> length bs"
  by (auto simp: read_arg_def take_be_def split: if_splits)

lemma decode_body_shrinks:
  assumes "shrinks dec" "decode_body dec major ai arg bs = Inr (v, r)"
  shows "length r \<le> length bs"
  using assms dec_items_shrinks [OF assms(1)] dec_pairs_shrinks [OF assms(1)] dec_until_shrinks [OF assms(1)]
  by (auto simp: decode_body_def dec_string_def dec_simple_def rbind_case_Inr split: if_splits option.splits)

lemma decode_at_shrinks: "shrinks (decode_at d)"
proof (induction d)
  case 0
  then show ?case by (simp add: shrinks_def)
next
  case (Suc d)
  have "length r < length bs" if "decode_at (Suc d) bs = Inr (v, r)" for bs v r
  proof (cases bs)
    case (Cons ib p)
    with that obtain arg q where "read_arg (unat ib mod 32) p = Inr (arg, q)"
        "decode_body (decode_at d) (unat ib div 32) (unat ib mod 32) arg q = Inr (v, r)"
      by (auto simp: rbind_case_Inr)
    then have "length q \<le> length p" "length r \<le> length q"
      using read_arg_shrinks decode_body_shrinks [OF Suc] by blast+
    then show ?thesis using Cons by simp
  qed (use that in simp)
  then show ?case unfolding shrinks_def by blast
qed

section \<open>Round trip\<close>

text \<open>
  What \<open>decode\<close> can return, and what \<open>encode\<close> followed by \<open>decode\<close> gives back: numbers and BigInts in
  their own ranges, text that is text, maps that could be a \<open>Map\<close>.
\<close>

primrec cbor_ok :: "nat \<Rightarrow> jsval \<Rightarrow> bool" where
  "cbor_ok 0 v = False"
| "cbor_ok (Suc d) v =
     (case v of
        VNull \<Rightarrow> True
      | VBool _ \<Rightarrow> True
      | VNum n \<Rightarrow> - MAX_SAFE_INTEGER - 1 \<le> n \<and> n \<le> MAX_SAFE_INTEGER
      | VBig n \<Rightarrow> MAX_SAFE_INTEGER < n \<and> n < 2 ^ 64 \<or> - (2 ^ 64) \<le> n \<and> n < - MAX_SAFE_INTEGER - 1
      | VStr s \<Rightarrow> text_ok s \<and> int (length s) \<le> MAX_SAFE_INTEGER
      | VBytes bs \<Rightarrow> int (length bs) \<le> MAX_SAFE_INTEGER
      | VArr vs \<Rightarrow> length vs < 2 ^ 64 \<and> list_all (cbor_ok d) vs
      | VIndef vs \<Rightarrow> list_all (cbor_ok d) vs
      | VMap m \<Rightarrow> length m < 2 ^ 64 \<and> list_all (\<lambda>e. cbor_ok d (fst e) \<and> cbor_ok d (snd e)) m \<and>
          distinct (filter is_prim (map fst m))
      | _ \<Rightarrow> False)"

lemmas cbor_ok_numeral = cbor_ok.simps(2) [of "pred_numeral k" for k, folded numeral_eq_Suc]

definition cbor_bytes :: "jsval \<Rightarrow> bytes" where
  "cbor_bytes v = (case encode v of Inr bs \<Rightarrow> bs | Inl _ \<Rightarrow> [])"

lemma rmapM_all_total: "list_all (\<lambda>x. \<exists>y. f x = Inr y) xs \<Longrightarrow> \<exists>ys. rmapM f xs = Inr ys"
  by (induction xs) auto

lemma encode_total: "cbor_ok d v \<Longrightarrow> \<exists>bs. encode v = Inr bs"
proof (induction d arbitrary: v)
  case (Suc d)
  note IH = Suc.IH
  show ?case
  proof (cases v)
    case (VArr vs)
    with Suc.prems have "list_all (\<lambda>x. \<exists>y. encode x = Inr y) vs" using IH by (auto simp: list_all_iff)
    from rmapM_all_total [OF this] VArr show ?thesis by auto
  next
    case (VIndef vs)
    with Suc.prems have "list_all (\<lambda>x. \<exists>y. encode x = Inr y) vs" using IH by (auto simp: list_all_iff)
    from rmapM_all_total [OF this] VIndef show ?thesis by auto
  next
    case (VMap m)
    let ?f = "\<lambda>e. rbind (encode (fst e)) (\<lambda>a. rbind (encode (snd e)) (\<lambda>b. Inr (a @ b)))"
    have "\<exists>y. ?f e = Inr y" if "e \<in> set m" for e
    proof -
      have "cbor_ok d (fst e)" "cbor_ok d (snd e)" using that VMap Suc.prems by (auto simp: list_all_iff)
      then obtain a b where "encode (fst e) = Inr a" "encode (snd e) = Inr b" using IH by blast
      then show ?thesis by simp
    qed
    then have "list_all (\<lambda>e. \<exists>y. ?f e = Inr y) m" by (simp add: list_all_iff)
    from rmapM_all_total [OF this] VMap show ?thesis by auto
  qed (use Suc.prems in \<open>auto simp: head_num_def head_big_def\<close>)
qed simp

lemma encode_bytes: "cbor_ok d v \<Longrightarrow> encode v = Inr (cbor_bytes v)"
  using encode_total [of d v] by (auto simp: cbor_bytes_def)

lemma dec_items_concat:
  assumes "\<And>v r. v \<in> set vs \<Longrightarrow> dec (cbor_bytes v @ r) = Inr (v, r)"
  shows "dec_items dec (length vs) (concat (map cbor_bytes vs) @ r) = Inr (vs, r)"
  using assms by (induction vs) simp_all

lemma map_set_fresh: "distinct (filter is_prim (map fst (m @ (k, v) # m'))) \<Longrightarrow> map_set k v m = m @ [(k, v)]"
  by (auto simp: map_set_def)

lemma dec_pairs_concat:
  assumes "\<And>k v r. (k, v) \<in> set kvs \<Longrightarrow> dec (cbor_bytes k @ r) = Inr (k, r) \<and> dec (cbor_bytes v @ r) = Inr (v, r)"
    and "distinct (filter is_prim (map fst (m @ kvs)))"
  shows "dec_pairs dec (length kvs) m (concat (map (\<lambda>e. cbor_bytes (fst e) @ cbor_bytes (snd e)) kvs) @ r) =
    Inr (m @ kvs, r)"
  using assms
proof (induction kvs arbitrary: m)
  case (Cons e kvs)
  obtain k v where e: "e = (k, v)" by (cases e)
  have "dec (cbor_bytes k @ r) = Inr (k, r)" "dec (cbor_bytes v @ r) = Inr (v, r)" for r
    using Cons.prems(1) [of k v] e by simp_all
  moreover have "map_set k v m = m @ [(k, v)]"
    using Cons.prems(2) unfolding e by (rule map_set_fresh)
  moreover have "dec_pairs dec (length kvs) (m @ [(k, v)])
      (concat (map (\<lambda>e. cbor_bytes (fst e) @ cbor_bytes (snd e)) kvs) @ r) = Inr ((m @ [(k, v)]) @ kvs, r)"
    by (rule Cons.IH) (use Cons.prems e in auto)
  ultimately show ?case by (simp add: e)
qed simp

lemma dec_until_concat:
  assumes "\<And>v r. v \<in> set vs \<Longrightarrow> dec (cbor_bytes v @ r) = Inr (v, r)"
    and "\<And>v. v \<in> set vs \<Longrightarrow> \<exists>b p. cbor_bytes v = b # p \<and> b \<noteq> 0xFF"
    and "length vs < n"
  shows "dec_until dec n (concat (map cbor_bytes vs) @ 0xFF # r) = Inr (vs, r)"
  using assms
proof (induction vs arbitrary: n)
  case Nil
  then show ?case by (cases n) simp_all
next
  case (Cons v vs)
  then obtain m where n: "n = Suc m" "length vs < m" by (cases n) auto
  obtain b p where b: "cbor_bytes v = b # p" "b \<noteq> 0xFF" using Cons.prems(2) [of v] by auto
  have "dec (b # p @ concat (map cbor_bytes vs) @ 0xFF # r) = Inr (v, concat (map cbor_bytes vs) @ 0xFF # r)"
    using Cons.prems(1) [of v] b by simp
  with Cons.IH [of m] Cons.prems n b show ?case by simp
qed

lemma rmapM_encode: "list_all (cbor_ok d) vs \<Longrightarrow> rmapM encode vs = Inr (map cbor_bytes vs)"
  by (rule rmapM_Inr) (auto simp: list_all_iff intro: encode_bytes)

lemma rmapM_encode_pairs:
  assumes "list_all (\<lambda>e. cbor_ok d (fst e) \<and> cbor_ok d (snd e)) m"
  shows "rmapM (\<lambda>e. rbind (encode (fst e)) (\<lambda>a. rbind (encode (snd e)) (\<lambda>b. Inr (a @ b)))) m =
    Inr (map (\<lambda>e. cbor_bytes (fst e) @ cbor_bytes (snd e)) m)"
proof (rule rmapM_Inr)
  fix e assume "e \<in> set m"
  then have "cbor_ok d (fst e)" "cbor_ok d (snd e)" using assms by (auto simp: list_all_iff)
  from this [THEN encode_bytes]
  show "rbind (encode (fst e)) (\<lambda>a. rbind (encode (snd e)) (\<lambda>b. Inr (a @ b))) =
      Inr (cbor_bytes (fst e) @ cbor_bytes (snd e))" by simp
qed

lemma cbor_bytes_arrays:
  "list_all (cbor_ok d) vs \<Longrightarrow> cbor_bytes (VArr vs) = head_bytes 4 (length vs) @ concat (map cbor_bytes vs)"
  "list_all (cbor_ok d) vs \<Longrightarrow> cbor_bytes (VIndef vs) = 0x9F # concat (map cbor_bytes vs) @ [0xFF]"
  "list_all (\<lambda>e. cbor_ok d (fst e) \<and> cbor_ok d (snd e)) m \<Longrightarrow>
     cbor_bytes (VMap m) = head_bytes 5 (length m) @ concat (map (\<lambda>e. cbor_bytes (fst e) @ cbor_bytes (snd e)) m)"
  by (simp_all add: cbor_bytes_def rmapM_encode rmapM_encode_pairs)

lemma cbor_bytes_scalars:
  "cbor_bytes VNull = [0xF6]"
  "cbor_bytes (VBool b) = [if b then 0xF5 else 0xF4]"
  "cbor_bytes (VStr s) = head_bytes 3 (length s) @ utf8 s"
  "cbor_bytes (VBytes bs) = head_bytes 2 (length bs) @ bs"
  by (simp_all add: cbor_bytes_def)

lemma encode_ints:
  "0 \<le> n \<Longrightarrow> n \<le> MAX_SAFE_INTEGER \<Longrightarrow> encode (VNum n) = Inr (head_bytes 0 (nat n))"
  "n < 0 \<Longrightarrow> - MAX_SAFE_INTEGER - 1 \<le> n \<Longrightarrow> encode (VNum n) = Inr (head_bytes 1 (nat (- 1 - n)))"
  "0 \<le> n \<Longrightarrow> n < 2 ^ 64 \<Longrightarrow> encode (VBig n) = Inr (head_bytes 0 (nat n))"
  "n < 0 \<Longrightarrow> - (2 ^ 64) \<le> n \<Longrightarrow> encode (VBig n) = Inr (head_bytes 1 (nat (- 1 - n)))"
  by (simp_all add: head_num_def head_big_def)

lemma encode_cbor_num:
  "cbor_ok (Suc d) (VNum n) \<Longrightarrow>
     encode (VNum n) = Inr (if n < 0 then head_bytes 1 (nat (- 1 - n)) else head_bytes 0 (nat n))"
  "cbor_ok (Suc d) (VBig n) \<Longrightarrow>
     encode (VBig n) = Inr (if n < 0 then head_bytes 1 (nat (- 1 - n)) else head_bytes 0 (nat n))"
  by (auto simp: encode_ints simp del: encode.simps)

lemma decode_at_int:
  assumes "cbor_ok (Suc d) v" "v = VNum n \<or> v = VBig n"
  shows "decode_at (Suc d) (cbor_bytes v @ r) = Inr (v, r)"
proof -
  have enc: "cbor_bytes v = (if n < 0 then head_bytes 1 (nat (- 1 - n)) else head_bytes 0 (nat n))"
    using assms encode_cbor_num [of d n] by (auto simp: cbor_bytes_def simp del: encode.simps)
  have range: "nat (- 1 - n) < 2 ^ 64" "nat n < 2 ^ 64"
    using assms by (auto simp: nat_less_iff)
  show ?thesis
  proof (cases "n < 0")
    case True
    then have "int_value (- 1 - int (nat (- 1 - n))) (nat (- 1 - n)) = v"
      using assms by (auto simp: int_value_def)
    with True show ?thesis unfolding enc
      by (simp add: decode_at_head [OF range(1)] decode_body_def del: decode_at.simps)
  next
    case False
    then have "int_value (int (nat n)) (nat n) = v"
      using assms by (auto simp: int_value_def)
    with False show ?thesis unfolding enc
      by (simp add: decode_at_head [OF range(2)] decode_body_def del: decode_at.simps)
  qed
qed

lemma cbor_bytes_not_break: "cbor_ok d v \<Longrightarrow> \<exists>b p. cbor_bytes v = b # p \<and> b \<noteq> 0xFF"
proof (cases d)
  case (Suc d')
  assume ok: "cbor_ok d v"
  have hd: "\<exists>b p. head_bytes major n @ q = b # p \<and> b \<noteq> 0xFF" if "n < 2 ^ 64" "major < 7" for major n q
    using head_bytes_not_break [OF that] by auto
  show ?thesis
  proof (cases v)
    case (VNum n)
    with ok Suc encode_cbor_num(1) [of d' n] hd [of "nat (- 1 - n)" 1 "[]"] hd [of "nat n" 0 "[]"]
    show ?thesis by (auto simp: cbor_bytes_def nat_less_iff simp del: encode.simps)
  next
    case (VBig n)
    with ok Suc encode_cbor_num(2) [of d' n] hd [of "nat (- 1 - n)" 1 "[]"] hd [of "nat n" 0 "[]"]
    show ?thesis by (auto simp: cbor_bytes_def nat_less_iff simp del: encode.simps)
  next
    case (VStr s)
    with ok Suc hd [of "length s" 3 "utf8 s"] show ?thesis by (simp add: cbor_bytes_scalars)
  next
    case (VBytes bs)
    with ok Suc hd [of "length bs" 2 bs] show ?thesis by (simp add: cbor_bytes_scalars)
  next
    case (VArr vs)
    with ok Suc hd [of "length vs" 4] show ?thesis by (simp add: cbor_bytes_arrays [of d'])
  next
    case (VIndef vs)
    with ok Suc show ?thesis by (simp add: cbor_bytes_arrays [of d'])
  next
    case (VMap m)
    with ok Suc hd [of "length m" 5] show ?thesis by (simp add: cbor_bytes_arrays [of d'])
  qed (use ok Suc in \<open>auto simp: cbor_bytes_scalars\<close>)
qed simp

lemma concat_length_ge: "(\<And>x. x \<in> set xs \<Longrightarrow> x \<noteq> []) \<Longrightarrow> length xs \<le> length (concat xs)"
proof (induction xs)
  case (Cons x xs)
  then have "length xs \<le> length (concat xs)" "x \<noteq> []" by auto
  then show ?case by (cases x) auto
qed simp

lemma decode_at_encode: "cbor_ok d v \<Longrightarrow> decode_at d (cbor_bytes v @ r) = Inr (v, r)"
proof (induction d arbitrary: v r)
  case (Suc d)
  note IH = Suc.IH and ok = Suc.prems
  show ?case
  proof (cases v)
    case (VNum n)
    with ok decode_at_int show ?thesis by blast
  next
    case (VBig n)
    with ok decode_at_int show ?thesis by blast
  next
    case (VStr s)
    with ok have "length s < 2 ^ 64" by simp
    with VStr ok show ?thesis
      by (simp add: cbor_bytes_scalars decode_at_head decode_body_def dec_string_def del: decode_at.simps)
  next
    case (VBytes bs)
    with ok have "length bs < 2 ^ 64" by simp
    with VBytes ok show ?thesis
      by (simp add: cbor_bytes_scalars decode_at_head decode_body_def dec_string_def del: decode_at.simps)
  next
    case (VArr vs)
    with ok have vs: "length vs < 2 ^ 64" "list_all (cbor_ok d) vs" by simp_all
    then have "dec_items (decode_at d) (length vs) (concat (map cbor_bytes vs) @ r) = Inr (vs, r)"
      using IH by (intro dec_items_concat) (auto simp: list_all_iff)
    with vs VArr show ?thesis
      by (simp add: cbor_bytes_arrays [of d] decode_at_head decode_body_def del: decode_at.simps)
  next
    case (VIndef vs)
    with ok have vs: "list_all (cbor_ok d) vs" by simp
    let ?bs = "concat (map cbor_bytes vs) @ 0xFF # r"
    have "x \<noteq> []" if "x \<in> set (map cbor_bytes vs)" for x
      using that vs cbor_bytes_not_break [of d] by (fastforce simp: list_all_iff)
    then have "length (map cbor_bytes vs) \<le> length (concat (map cbor_bytes vs))" by (rule concat_length_ge)
    then have len: "length vs < length ?bs" by simp
    have "dec_until (decode_at d) (length ?bs) ?bs = Inr (vs, r)"
      by (rule dec_until_concat [OF _ _ len])
        (use vs IH cbor_bytes_not_break [of d] in \<open>auto simp: list_all_iff\<close>)
    with VIndef vs show ?thesis by (simp add: cbor_bytes_arrays [of d] read_arg_def decode_body_def)
  next
    case (VMap m)
    with ok have m: "length m < 2 ^ 64" "list_all (\<lambda>e. cbor_ok d (fst e) \<and> cbor_ok d (snd e)) m"
        "distinct (filter is_prim (map fst m))" by simp_all
    then have "dec_pairs (decode_at d) (length m) []
        (concat (map (\<lambda>e. cbor_bytes (fst e) @ cbor_bytes (snd e)) m) @ r) = Inr ([] @ m, r)"
      using IH by (intro dec_pairs_concat) (auto simp: list_all_iff)
    with m VMap show ?thesis
      by (simp add: cbor_bytes_arrays [of d] decode_at_head decode_body_def del: decode_at.simps)
  qed (use ok in \<open>auto simp: cbor_bytes_scalars decode_body_def read_arg_def dec_simple_def\<close>)
qed simp

section \<open>Whatever decodes can be encoded and decodes again\<close>

text \<open>Replacing an ill-formed part may triple a text, so the buffer is taken below \<open>2 ^ 50\<close> bytes.\<close>

abbreviation buffer_limit :: nat where
  "buffer_limit \<equiv> 2 ^ 50"

lemma length_utf8_run: "length (utf8_run pend n lo hi bs) \<le> 3 * length bs + (if n = 0 then 0 else max 3 (length pend))"
proof (induction pend n lo hi bs rule: utf8_run.induct)
  case (2 pend n lo hi)
  then show ?case by (simp add: replacement_def)
next
  case (3 pend lo hi b bs)
  show ?case
  proof (cases "b < 0x80")
    case True
    with 3(1) show ?thesis by simp
  next
    case False
    show ?thesis
    proof (cases "utf8_lead b")
      case None
      with False 3(2) show ?thesis by (simp add: replacement_def)
    next
      case (Some a)
      obtain n l h where a: "a = (n, l, h)" by (cases a)
      have "length (utf8_run [b] n l h bs) \<le> 3 + 3 * length bs"
        using 3(3) [OF False Some a [symmetric] refl] by (simp split: if_splits)
      with False Some a show ?thesis by simp
    qed
  qed
next
  case (4 pend n lo hi b bs)
  show ?case
  proof (cases "lo \<le> b \<and> b \<le> hi")
    case True
    with 4(1,2) show ?thesis by (cases "n = 0") auto
  next
    case False
    then have "utf8_run pend (Suc n) lo hi (b # bs) = replacement @ utf8_run [] 0 0 0 (b # bs)"
      by (simp only: utf8_run.simps(4)) simp
    with 4(3) [OF False] show ?thesis by (simp add: replacement_def del: utf8_run.simps)
  qed
qed simp

lemma length_utf8_text: "length (utf8_text bs) \<le> 3 * length bs"
  using length_utf8_run [of "[]" 0 0 0 bs] by (simp add: utf8_text_def utf8_string_def utf8_clean_def)

definition yields :: "(bytes \<Rightarrow> ('a \<times> bytes) res) \<Rightarrow> ('a \<Rightarrow> bool) \<Rightarrow> bool" where
  "yields dec P \<longleftrightarrow> (\<forall>bs x r. length bs < buffer_limit \<longrightarrow> dec bs = Inr (x, r) \<longrightarrow> P x)"

lemma yieldsD: "yields dec P \<Longrightarrow> length bs < buffer_limit \<Longrightarrow> dec bs = Inr (x, r) \<Longrightarrow> P x"
  unfolding yields_def by blast

lemma dec_items_yields:
  "\<lbrakk>yields dec P; shrinks dec; length bs < buffer_limit; dec_items dec n bs = Inr (vs, r)\<rbrakk>
    \<Longrightarrow> list_all P vs \<and> length vs = n \<and> n \<le> length bs"
proof (induction n arbitrary: bs vs)
  case (Suc n)
  then obtain v r1 ws where *: "dec bs = Inr (v, r1)" "dec_items dec n r1 = Inr (ws, r)" "vs = v # ws"
    by (auto simp: rbind_case_Inr)
  then have "length r1 < length bs" "P v" using Suc.prems by (auto dest: shrinksD yieldsD)
  with Suc.IH [of r1 ws] Suc.prems * show ?case by auto
qed simp

lemma dec_until_yields:
  "\<lbrakk>yields dec P; shrinks dec; length bs < buffer_limit; dec_until dec n bs = Inr (vs, r)\<rbrakk> \<Longrightarrow> list_all P vs"
proof (induction n arbitrary: bs vs)
  case (Suc n)
  show ?case
  proof (cases "vs = []")
    case False
    with Suc.prems obtain v r1 ws where *: "dec bs = Inr (v, r1)" "dec_until dec n r1 = Inr (ws, r)" "vs = v # ws"
      by (auto simp: rbind_case_Inr split: list.splits if_splits)
    then have "length r1 < length bs" "P v" using Suc.prems by (auto dest: shrinksD yieldsD)
    with Suc.IH [of r1 ws] Suc.prems * show ?thesis by auto
  qed simp
qed simp

definition map_ok :: "(jsval \<Rightarrow> bool) \<Rightarrow> (jsval \<times> jsval) list \<Rightarrow> bool" where
  "map_ok P m \<longleftrightarrow> list_all (\<lambda>e. P (fst e) \<and> P (snd e)) m \<and> distinct (filter is_prim (map fst m))"

lemma map_ok_set:
  assumes "map_ok P m" "P k" "P v"
  shows "map_ok P (map_set k v m) \<and> length (map_set k v m) \<le> Suc (length m)"
proof (cases "is_prim k \<and> k \<in> set (map fst m)")
  case True
  let ?m = "map (\<lambda>e. if fst e = k then (k, v) else e) m"
  have "map fst ?m = map fst m" by (induction m) auto
  moreover have "list_all (\<lambda>e. P (fst e) \<and> P (snd e)) ?m"
    using assms unfolding map_ok_def list_all_iff by auto
  ultimately have "map_ok P ?m" using assms(1) unfolding map_ok_def by (simp only:)
  moreover have "map_set k v m = ?m" using True by (simp only: map_set_def) simp
  ultimately show ?thesis by simp
next
  case False
  then have "map_set k v m = m @ [(k, v)]" by (simp only: map_set_def) simp
  with False assms show ?thesis by (auto simp: map_ok_def)
qed

lemma dec_pairs_yields:
  "\<lbrakk>yields dec P; shrinks dec; length bs < buffer_limit; map_ok P m; dec_pairs dec n m bs = Inr (kvs, r)\<rbrakk>
    \<Longrightarrow> map_ok P kvs \<and> length kvs \<le> length m + n \<and> n \<le> length bs"
proof (induction n arbitrary: bs m)
  case (Suc n)
  then obtain k r1 v r2 where *: "dec bs = Inr (k, r1)" "dec r1 = Inr (v, r2)"
      "dec_pairs dec n (map_set k v m) r2 = Inr (kvs, r)"
    by (auto simp: rbind_case_Inr)
  then have l: "length r1 < length bs" "length r2 < length r1" using Suc.prems by (auto dest: shrinksD)
  then have "length r1 < buffer_limit" using Suc.prems(3) by linarith
  with * Suc.prems have "P k" "P v" by (auto dest: yieldsD)
  with map_ok_set Suc.prems have "map_ok P (map_set k v m)" "length (map_set k v m) \<le> Suc (length m)" by blast+
  with Suc.IH [of r2 "map_set k v m"] Suc.prems * l show ?case by auto
qed simp

lemma read_arg_limit: "read_arg ai bs = Inr (Some n, r) \<Longrightarrow> n < 2 ^ 64"
proof -
  assume *: "read_arg ai bs = Inr (Some n, r)"
  have "unbe (take k bs) < 2 ^ 64" if "k \<le> 8" for k
  proof -
    have "unbe (take k bs) < 256 ^ length (take k bs)" by (rule unbe_less)
    also have "\<dots> \<le> 256 ^ 8" using that by (intro power_increasing) auto
    finally show ?thesis by simp
  qed
  with * show ?thesis by (auto simp: read_arg_def take_be_def split: if_splits)
qed

lemma int_value_ok:
  "n < 2 ^ 64 \<Longrightarrow> cbor_ok (Suc d) (int_value (int n) n)"
  "n < 2 ^ 64 \<Longrightarrow> cbor_ok (Suc d) (int_value (- 1 - int n) n)"
  by (auto simp: int_value_def)

lemma decode_body_ok:
  assumes "yields dec (cbor_ok d)" "shrinks dec" "length bs < buffer_limit" "\<forall>n. arg = Some n \<longrightarrow> n < 2 ^ 64"
    and dec: "decode_body dec major ai arg bs = Inr (v, r)"
  shows "cbor_ok (Suc d) v"
proof -
  consider "major = 0" | "major = 1" | "major = 2 \<or> major = 3" | "major = 4" | "major = 5" | "major = 7"
    using dec by (auto simp: decode_body_def split: if_splits)
  then show ?thesis
  proof cases
    case 3
    with dec obtain n where n: "arg = Some n" "int n \<le> MAX_SAFE_INTEGER" "n \<le> length bs"
        "v = (if major = 2 then VBytes (take n bs) else VStr (utf8_text (take n bs)))"
      by (auto simp: decode_body_def dec_string_def split: option.splits if_splits)
    have "length (utf8_text (take n bs)) \<le> 3 * n" using length_utf8_text [of "take n bs"] n(3) by simp
    with n assms(3) show ?thesis by auto
  next
    case 4
    show ?thesis
    proof (cases arg)
      case None
      with 4 dec obtain vs where "dec_until dec (length bs) bs = Inr (vs, r)" "v = VIndef vs"
        by (auto simp: decode_body_def rbind_case_Inr)
      with dec_until_yields assms show ?thesis by fastforce
    next
      case (Some n)
      with 4 dec obtain vs where "dec_items dec n bs = Inr (vs, r)" "v = VArr vs"
        by (auto simp: decode_body_def rbind_case_Inr)
      with dec_items_yields [OF assms(1-3)] assms(3) show ?thesis by fastforce
    qed
  next
    case 5
    with dec obtain n m where nm: "dec_pairs dec n [] bs = Inr (m, r)" "v = VMap m"
      by (auto simp: decode_body_def rbind_case_Inr split: option.splits)
    have "map_ok (cbor_ok d) []" by (simp add: map_ok_def)
    from dec_pairs_yields [OF assms(1-3) this nm(1)] assms(3) nm(2) show ?thesis by (auto simp: map_ok_def)
  qed (use assms int_value_ok in \<open>auto simp: decode_body_def dec_simple_def split: option.splits if_splits\<close>)
qed

lemma decode_at_yields: "yields (decode_at d) (cbor_ok d)"
proof (induction d)
  case 0
  then show ?case by (simp add: yields_def)
next
  case (Suc d)
  have "cbor_ok (Suc d) v" if l: "length bs < buffer_limit" and dec: "decode_at (Suc d) bs = Inr (v, r)" for bs v r
  proof -
    obtain ib p arg q where *: "bs = ib # p" "read_arg (unat ib mod 32) p = Inr (arg, q)"
        "decode_body (decode_at d) (unat ib div 32) (unat ib mod 32) arg q = Inr (v, r)"
      using dec by (auto simp: rbind_case_Inr split: list.splits)
    have "length q < buffer_limit" using read_arg_shrinks [OF *(2)] l *(1) by simp
    moreover have "\<forall>n. arg = Some n \<longrightarrow> n < 2 ^ 64" using read_arg_limit *(2) by blast
    ultimately show ?thesis using decode_body_ok [OF Suc decode_at_shrinks] *(3) by blast
  qed
  then show ?case unfolding yields_def by blast
qed

lemma decodeAt_encode: "cbor_ok max_levels v \<Longrightarrow> decodeAt (cbor_bytes v @ r) = Inr (v, r)"
  unfolding decodeAt_def by (rule decode_at_encode)

lemma decodeAt_shrinks: "decodeAt bs = Inr (v, r) \<Longrightarrow> length r < length bs"
  unfolding decodeAt_def by (rule shrinksD [OF decode_at_shrinks])

lemma decode_cbor_bytes: "cbor_ok max_levels v \<Longrightarrow> decode (cbor_bytes v) = Inr v"
  using decodeAt_encode [of v "[]"] by (simp add: decode_def)

lemma decode_decodeAt: "decode bs = Inr v \<longleftrightarrow> decodeAt bs = Inr (v, [])"
  by (auto simp: decode_def rbind_case_Inr split: if_splits)

lemma decode_ok: "length bs < buffer_limit \<Longrightarrow> decode bs = Inr v \<Longrightarrow> cbor_ok max_levels v"
  unfolding decode_decodeAt decodeAt_def by (rule yieldsD [OF decode_at_yields])

text \<open>Items written one after the other are read back one by one: the interface of \<^theory_text>\<open>prefix_codec\<close>.\<close>

definition decode_item :: "bytes \<Rightarrow> (jsval \<times> bytes) option" where
  "decode_item bs = (case decodeAt bs of Inr x \<Rightarrow> Some x | Inl _ \<Rightarrow> None)"

interpretation cbor: prefix_codec cbor_bytes decode_item "cbor_ok max_levels"
proof
  show "decode_item (cbor_bytes v @ r) = Some (v, r)" if "cbor_ok max_levels v" for v r
    by (simp only: decode_item_def decodeAt_encode [OF that] sum.case)
  show "length r < length bs" if "decode_item bs = Some (v, r)" for bs v r
    using that decodeAt_shrinks by (auto simp: decode_item_def split: sum.splits)
qed

section \<open>Properties\<close>

lemma read_arg_shortest:
  "read_arg ai p = Inr (Some n, r) \<Longrightarrow> length (head_bytes major n) + length r \<le> Suc (length p)"
proof -
  assume arg: "read_arg ai p = Inr (Some n, r)"
  have *: "k \<le> length p \<Longrightarrow> unbe (take k p) < 256 ^ k" for k
    using unbe_less [of "take k p"] by simp
  have small: "Suc 0 \<le> length p \<Longrightarrow> unbe (take (Suc 0) p) < 256"
      "2 \<le> length p \<Longrightarrow> unbe (take 2 p) < 65536" "4 \<le> length p \<Longrightarrow> unbe (take 4 p) < 4294967296"
    using * [of "Suc 0"] * [of 2] * [of 4] by simp_all
  have "Suc 0 \<le> length p" if "ai = 24" using arg that by (cases p) (auto simp: read_arg_def take_be_def)
  with arg show ?thesis using small
    by (auto simp: read_arg_def take_be_def length_head_bytes split: if_splits)
qed

lemma decode_body_num:
  assumes "decode_body dec major ai arg q = Inr (VNum n, r)"
  shows "\<exists>m. arg = Some m \<and> r = q \<and> int m \<le> MAX_SAFE_INTEGER \<and> (n = int m \<or> n = - 1 - int m)"
  using assms by (auto simp: decode_body_def int_value_def dec_string_def dec_simple_def rbind_case_Inr
      split: if_splits option.splits)

lemma decodeAt_num_length:
  assumes "decodeAt bs = Inr (VNum n, r)"
  shows "length (cbor_bytes (VNum n)) + length r \<le> length bs"
proof -
  have "max_levels = Suc 32" by simp
  then obtain ib p arg q where *: "bs = ib # p" "read_arg (unat ib mod 32) p = Inr (arg, q)"
      "decode_body (decode_at 32) (unat ib div 32) (unat ib mod 32) arg q = Inr (VNum n, r)"
    using assms by (auto simp only: decodeAt_def decode_at.simps rbind_case_Inr split: list.splits)
  from decode_body_num [OF *(3)] obtain m where m: "arg = Some m" "r = q" "int m \<le> MAX_SAFE_INTEGER"
      "n = int m \<or> n = - 1 - int m" by blast
  then have "cbor_bytes (VNum n) = head_bytes 0 m \<or> cbor_bytes (VNum n) = head_bytes 1 m"
    by (auto simp: cbor_bytes_def encode_ints simp del: encode.simps)
  with read_arg_shortest [of "unat ib mod 32" p m q] * m(1,2) show ?thesis by fastforce
qed

text \<open>
  Property C9. Every value of the CBOR subset, nested at most 32 deep, is encoded, and decoding its
  bytes gives the value back, with whatever follows it left untouched.
\<close>
theorem cbor_roundtrip:
  "cbor_ok max_levels v \<Longrightarrow> \<exists>bs. encode v = Inr bs \<and> decode bs = Inr v \<and> (\<forall>r. decodeAt (bs @ r) = Inr (v, r))"
  by (intro exI [of _ "cbor_bytes v"] conjI allI encode_bytes decode_cbor_bytes decodeAt_encode)

theorem cbor_roundtrip_witness:
  "\<exists>bs. encode (VArr [VNum 7, VNum (- 500), VStr ''dtn'', VMap [(VNum 1, VBytes [1, 2])], VIndef [VNull]]) = Inr bs \<and>
     decode bs = Inr (VArr [VNum 7, VNum (- 500), VStr ''dtn'', VMap [(VNum 1, VBytes [1, 2])], VIndef [VNull]])"
proof -
  have "cbor_ok max_levels (VArr [VNum 7, VNum (- 500), VStr ''dtn'', VMap [(VNum 1, VBytes [1, 2])], VIndef [VNull]])"
    by (simp add: text_ok_ascii cbor_ok_numeral)
  from cbor_roundtrip [OF this] show ?thesis by blast
qed

text \<open>
  Whatever a buffer decodes to is a value of the subset: in particular it can be encoded
  again, and the new bytes decode to the same value. So relaying a decoded item never changes it.
\<close>
theorem decoded_is_encodable:
  assumes "length bs < buffer_limit" and "decode bs = Inr v"
  shows "cbor_ok max_levels v \<and> (\<exists>bs'. encode v = Inr bs' \<and> decode bs' = Inr v)"
  using decode_ok [OF assms] encode_bytes decode_cbor_bytes by blast

theorem decoded_is_encodable_witness:
  "decode [0x82, 0x18, 0x05, 0x61, 0xFF] = Inr (VArr [VNum 5, VStr (utf8_text [0xFF])]) \<and>
   (\<exists>bs'. encode (VArr [VNum 5, VStr (utf8_text [0xFF])]) = Inr bs' \<and>
     decode bs' = Inr (VArr [VNum 5, VStr (utf8_text [0xFF])]))"
proof -
  have "decode [0x82, 0x18, 0x05, 0x61, 0xFF] = Inr (VArr [VNum 5, VStr (utf8_text [0xFF])])"
    by code_simp
  with decoded_is_encodable [OF _ this] show ?thesis by simp
qed

text \<open>
  Integers are written in the shortest form: no bytes that decode to the number \<open>n\<close>
  are fewer than those \<open>encode\<close> writes for it.
\<close>
theorem integers_shortest:
  "decodeAt bs = Inr (VNum n, r) \<Longrightarrow> length (cbor_bytes (VNum n)) + length r \<le> length bs"
  by (rule decodeAt_num_length)

theorem integers_shortest_witness:
  "decodeAt [0x19, 0, 5, 7] = Inr (VNum 5, [7]) \<and> length (cbor_bytes (VNum 5)) + 1 \<le> 4"
proof -
  have "decodeAt [0x19, 0, 5, 7] = Inr (VNum 5, [7])"
    by code_simp
  with integers_shortest [OF this] show ?thesis by simp
qed

end
