(* ===== verification/Bundle.thy ===== *)
theory Bundle
  imports Crc Cbor "HOL-Library.Multiset"
begin

text \<open>
  transport/bpv7/bundle.mjs: the BPv7 bundle codec. A decoded bundle keeps whatever CBOR values the
  wire carried in its fields, so flags, block types, numbers and times are \<open>jsval\<close>s; the endpoint ids
  are strings, because \<open>decodeEid\<close> always builds one, and block data is a Buffer.

  The suffix of the buffer at \<open>off\<close> stands for \<open>off\<close>, as in Cbor.
\<close>

section \<open>Reading values of unknown shape\<close>

text \<open>\<open>v[i]\<close>. A string is indexed by UTF-16 units; half of a surrogate pair prints as U+FFFD.\<close>

function (sequential) utf16_units :: "bytes \<Rightarrow> bytes list" where
  "utf16_units [] = []"
| "utf16_units (b # bs) =
     (if b < 0xC0 then [b] # utf16_units bs
      else if b < 0xE0 then (b # take 1 bs) # utf16_units (drop 1 bs)
      else if b < 0xF0 then (b # take 2 bs) # utf16_units (drop 2 bs)
      else replacement # replacement # utf16_units (drop 3 bs))"
  by pat_completeness auto
termination by (relation "measure length") auto

definition js_index :: "jsval \<Rightarrow> nat \<Rightarrow> jsval res" where
  "js_index v i =
     (case v of
        VUndef \<Rightarrow> Inl ''Cannot read properties of undefined''
      | VNull \<Rightarrow> Inl ''Cannot read properties of null''
      | VArr vs \<Rightarrow> Inr (if i < length vs then vs ! i else VUndef)
      | VBytes bs \<Rightarrow> Inr (if i < length bs then VNum (int (unat (bs ! i))) else VUndef)
      | VStr s \<Rightarrow> (let us = utf16_units (utf8 s) in
          Inr (if i < length us then VStr (utf8_string (us ! i)) else VUndef))
      | _ \<Rightarrow> Inr VUndef)"

text \<open>The elements of an array pattern \<open>const [a, b] = vs\<close>.\<close>

definition elem :: "jsval list \<Rightarrow> nat \<Rightarrow> jsval" where
  "elem vs i = (if i < length vs then vs ! i else VUndef)"

section \<open>CRCs of a block\<close>

definition CRC_NONE :: jsval where "CRC_NONE = VNum 0"
definition CRC16 :: jsval where "CRC16 = VNum 1"
definition CRC32C :: jsval where "CRC32C = VNum 2"

definition crcLen :: "jsval \<Rightarrow> nat" where
  "crcLen t = (if t = CRC16 then 2 else if t = CRC32C then 4 else 0)"

definition crcBytes :: "jsval \<Rightarrow> bytes \<Rightarrow> bytes" where
  "crcBytes t bs =
     (if t = CRC16 then be 2 (unat (crc16x25 bs))
      else if t = CRC32C then be 4 (unat (crc32c bs))
      else [])"

definition zeros :: "nat \<Rightarrow> bytes" where
  "zeros n = replicate n 0"

definition sealBlock :: "jsval list \<Rightarrow> jsval \<Rightarrow> bytes res" where
  "sealBlock fields t =
     (if t = CRC_NONE then encode (VArr fields)
      else rbind (encode (VArr (fields @ [VBytes (zeros (crcLen t))])))
        (\<lambda>zeroed. encode (VArr (fields @ [VBytes (crcBytes t zeroed)]))))"

definition checkCrc :: "bytes \<Rightarrow> jsval \<Rightarrow> jsval \<Rightarrow> bool" where
  "checkCrc raw t crcValue \<longleftrightarrow>
     t = CRC_NONE \<or>
     (case crcValue of
        VBytes c \<Rightarrow> length c = crcLen t \<and>
          crcBytes t (take (length raw - crcLen t) raw @ zeros (crcLen t)) = c
      | _ \<Rightarrow> False)"

section \<open>Endpoint ids\<close>

text \<open>\<open>.\<close> of a regular expression: anything but LF, CR, U+2028 and U+2029.\<close>

fun no_line_end :: "bytes \<Rightarrow> bool" where
  "no_line_end [] = True"
| "no_line_end (b # bs) =
     (b \<noteq> 10 \<and> b \<noteq> 13 \<and> \<not> (b = 0xE2 \<and> (take 2 bs = [0x80, 0xA8] \<or> take 2 bs = [0x80, 0xA9])) \<and> no_line_end bs)"

definition is_dtn_uri :: "string \<Rightarrow> bool" where
  "is_dtn_uri s \<longleftrightarrow> take 6 s = ''dtn://'' \<and> length s > 6 \<and> no_line_end (utf8 (drop 6 s))"

text \<open>\<open>/^ipn:(\d+)\.(\d+)$/\<close>.\<close>

definition ipn_match :: "string \<Rightarrow> (string \<times> string) option" where
  "ipn_match s =
     (let a = takeWhile is_digit (drop 4 s); r = dropWhile is_digit (drop 4 s); b = drop 1 r in
      if take 4 s = ''ipn:'' \<and> a \<noteq> [] \<and> take 1 r = ''.'' \<and> b \<noteq> [] \<and> list_all is_digit b
      then Some (a, b) else None)"

definition encodeEid :: "string \<Rightarrow> jsval res" where
  "encodeEid e =
     (if e = ''dtn:none'' then Inr (VArr [VNum 1, VNum 0])
      else if is_dtn_uri e then Inr (VArr [VNum 1, VStr (drop 4 e)])
      else case ipn_match e of
          Some (a, b) \<Rightarrow> Inr (VArr [VNum 2, VArr [VNum (int (read_nat a)), VNum (int (read_nat b))]])
        | None \<Rightarrow> Inl ''unsupported EID'')"

definition decodeEid :: "jsval \<Rightarrow> string res" where
  "decodeEid v =
     (case v of
        VArr [scheme, ssp] \<Rightarrow>
          if scheme = VNum 1 then Inr (if ssp = VNum 0 then ''dtn:none'' else ''dtn:'' @ js_String ssp)
          else (case ssp of
              VArr [a, b] \<Rightarrow> if scheme = VNum 2 then Inr (''ipn:'' @ js_String a @ ''.'' @ js_String b)
                else Inl ''unsupported EID scheme''
            | _ \<Rightarrow> Inl ''unsupported EID scheme'')
      | _ \<Rightarrow> Inl ''bad EID'')"

section \<open>Bundles\<close>

definition PAYLOAD :: jsval where "PAYLOAD = VNum 1"
definition PREVIOUS_NODE :: jsval where "PREVIOUS_NODE = VNum 6"
definition BUNDLE_AGE :: jsval where "BUNDLE_AGE = VNum 7"
definition HOP_COUNT :: jsval where "HOP_COUNT = VNum 10"
definition BIB :: jsval where "BIB = VNum 11"
definition REPLICATE_IN_FRAGMENTS :: jsval where "REPLICATE_IN_FRAGMENTS = VNum 1"

text \<open>\<open>created\<close> is the pair of the code's two-element array; \<open>VUndef\<close> is a field that is absent.\<close>

record primary =
  p_flags :: jsval
  p_crcType :: jsval
  p_dest :: string
  p_source :: string
  p_reportTo :: string
  p_created :: "jsval \<times> jsval"
  p_lifetime :: jsval
  p_fragmentOffset :: jsval
  p_totalAduLength :: jsval

record block =
  b_type :: jsval
  b_number :: jsval
  b_flags :: jsval
  b_crcType :: jsval
  b_data :: bytes

record bpv7 =
  bp_primary :: primary
  bp_blocks :: "block list"

text \<open>\<open>flags & BUNDLE_FLAG.IS_FRAGMENT\<close>, the low bit of the flags as a number.\<close>

definition fragment_bit :: "jsval \<Rightarrow> bool res" where
  "fragment_bit v =
     (case to_prim v of
        VBig _ \<Rightarrow> Inl ''Cannot mix BigInt and other types''
      | _ \<Rightarrow> Inr (case js_Number v of None \<Rightarrow> False | Some n \<Rightarrow> odd n))"

definition encode_block :: "block \<Rightarrow> bytes res" where
  "encode_block b =
     sealBlock [b_type b, b_number b, nullish (b_flags b) (VNum 0), nullish (b_crcType b) CRC_NONE, VBytes (b_data b)]
       (nullish (b_crcType b) CRC_NONE)"

definition encode_primary :: "primary \<Rightarrow> bytes res" where
  "encode_primary p =
     (let flags = nullish (p_flags p) (VNum 0); t = nullish (p_crcType p) CRC32C in
      rbind (encodeEid (p_dest p)) (\<lambda>d. rbind (encodeEid (p_source p)) (\<lambda>s. rbind (encodeEid (p_reportTo p)) (\<lambda>r.
      rbind (fragment_bit flags) (\<lambda>frag.
        sealBlock ([VNum 7, flags, t, d, s, r, VArr [fst (p_created p), snd (p_created p)], p_lifetime p] @
          (if frag then [p_fragmentOffset p, p_totalAduLength p] else [])) t)))))"

definition encodeBundle :: "bpv7 \<Rightarrow> bytes res" where
  "encodeBundle b = rbind (encode_primary (bp_primary b)) (\<lambda>p.
     if bp_blocks b = [] \<or> b_type (last (bp_blocks b)) \<noteq> PAYLOAD then Inl ''the payload block must be the last block''
     else rbind (rmapM encode_block (bp_blocks b)) (\<lambda>bs. Inr (0x9F # p @ concat bs @ [0xFF])))"

text \<open>The loop that cuts the outer array into its items; every item takes a byte of the buffer.\<close>

primrec dec_raws :: "nat \<Rightarrow> bytes \<Rightarrow> ((jsval \<times> bytes) list \<times> bytes) res" where
  "dec_raws 0 bs = Inl ''bundle truncated''"
| "dec_raws (Suc n) bs =
     (case bs of
        [] \<Rightarrow> Inl ''bundle truncated''
      | b # r \<Rightarrow> if b = 0xFF then Inr ([], r)
          else rbind (decodeAt bs) (\<lambda>(v, r). rbind (dec_raws n r)
            (\<lambda>(vs, r'). Inr ((v, take (length bs - length r) bs) # vs, r'))))"

definition decode_primary :: "jsval \<Rightarrow> bytes \<Rightarrow> primary res" where
  "decode_primary pv raw =
     (case pv of
        VArr vs \<Rightarrow>
          if elem vs 0 \<noteq> VNum 7 then Inl ''not a BPv7 primary block''
          else rbind (fragment_bit (elem vs 1)) (\<lambda>frag.
            if length vs \<noteq> 8 + (if frag then 2 else 0) + (if truthy (elem vs 2) then 1 else 0)
              then Inl ''primary block has the wrong number of fields''
            else if \<not> checkCrc raw (elem vs 2) (last vs) then Inl ''primary block CRC mismatch''
            else rbind (decodeEid (elem vs 3)) (\<lambda>d. rbind (decodeEid (elem vs 4)) (\<lambda>s. rbind (decodeEid (elem vs 5)) (\<lambda>r.
              rbind (js_index (elem vs 6) 0) (\<lambda>t. rbind (js_index (elem vs 6) 1) (\<lambda>q.
                Inr \<lparr>p_flags = elem vs 1, p_crcType = elem vs 2, p_dest = d, p_source = s, p_reportTo = r,
                  p_created = (t, q), p_lifetime = elem vs 7,
                  p_fragmentOffset = (if frag then elem vs 8 else VUndef),
                  p_totalAduLength = (if frag then elem vs 9 else VUndef)\<rparr>))))))
      | _ \<Rightarrow> Inl ''not a BPv7 primary block'')"

definition decode_block :: "jsval \<times> bytes \<Rightarrow> block res" where
  "decode_block vr =
     (case fst vr of
        VArr vs \<Rightarrow>
          if length vs \<noteq> 5 \<and> length vs \<noteq> 6 then Inl ''block malformed''
          else (case elem vs 4 of
              VBytes data \<Rightarrow>
                if (if truthy (elem vs 3) then 6 else 5) \<noteq> length vs then Inl ''block CRC field does not match its CRC type''
                else if \<not> checkCrc (snd vr) (elem vs 3) (elem vs 5) then Inl ''block CRC mismatch''
                else Inr \<lparr>b_type = elem vs 0, b_number = elem vs 1, b_flags = elem vs 2, b_crcType = elem vs 3, b_data = data\<rparr>
            | _ \<Rightarrow> Inl ''block data is not a byte string'')
      | _ \<Rightarrow> Inl ''block malformed'')"

text \<open>\<open>Set.has\<close>: objects of the decoder are never identical to one another.\<close>

fun dup_number :: "jsval list \<Rightarrow> jsval list \<Rightarrow> bool" where
  "dup_number seen [] = False"
| "dup_number seen (n # ns) = (is_prim n \<and> n \<in> set seen \<or> dup_number (n # seen) ns)"

definition decodeBundle :: "bytes \<Rightarrow> bpv7 res" where
  "decodeBundle buf =
     (case buf of
        [] \<Rightarrow> Inl ''a bundle is an indefinite-length CBOR array''
      | b # body \<Rightarrow>
          if b \<noteq> 0x9F then Inl ''a bundle is an indefinite-length CBOR array''
          else rbind (dec_raws (length body) body) (\<lambda>(raws, rest).
            if rest \<noteq> [] then Inl ''trailing bytes after bundle''
            else case raws of
                (pv, praw) # r # rs \<Rightarrow>
                  rbind (decode_primary pv praw) (\<lambda>p. rbind (rmapM decode_block (r # rs)) (\<lambda>blocks.
                    if b_type (last blocks) \<noteq> PAYLOAD then Inl ''the payload block must be last''
                    else if dup_number [] (map b_number blocks) then Inl ''duplicate block number''
                    else Inr \<lparr>bp_primary = p, bp_blocks = blocks\<rparr>))
              | _ \<Rightarrow> Inl ''a bundle needs a primary and a payload block''))"

definition payloadOf :: "bpv7 \<Rightarrow> bytes res" where
  "payloadOf b = (case find (\<lambda>x. b_type x = PAYLOAD) (bp_blocks b) of
     None \<Rightarrow> Inl ''Cannot read properties of undefined'' | Some x \<Rightarrow> Inr (b_data x))"

text \<open>\<open>while (used.has(n)) n++\<close>: one of the first \<open>length used + 1\<close> numbers is free.\<close>

primrec free_number :: "nat \<Rightarrow> jsval list \<Rightarrow> int \<Rightarrow> int" where
  "free_number 0 used n = n"
| "free_number (Suc k) used n = (if VNum n \<in> set used then free_number k used (n + 1) else n)"

definition nextBlockNumber :: "bpv7 \<Rightarrow> int" where
  "nextBlockNumber b = free_number (length (bp_blocks b)) (map b_number (bp_blocks b)) 2"

text \<open>\<open>blocks.pop()\<close> on an empty list gives \<open>undefined\<close>, which is then stored as the last block.\<close>

definition putBlock :: "bpv7 \<Rightarrow> block \<Rightarrow> bpv7 option" where
  "putBlock b x =
     (let others = filter (\<lambda>y. \<not> strict_eq (b_type y) (b_type x)) (bp_blocks b);
          number = (case find (\<lambda>y. strict_eq (b_type y) (b_type x)) (bp_blocks b) of
              Some y \<Rightarrow> b_number y | None \<Rightarrow> VNum (nextBlockNumber b))
      in if others = [] then None
         else Some (b\<lparr>bp_blocks := butlast others @ [x\<lparr>b_number := number\<rparr>, last others]\<rparr>))"

section \<open>Sealed blocks\<close>

text \<open>The array that \<open>sealBlock\<close> encodes: the fields, and the CRC of the block with a zeroed CRC field.\<close>

definition sealed :: "jsval list \<Rightarrow> jsval \<Rightarrow> jsval list" where
  "sealed fs t = fs @ (if t = CRC_NONE then [] else
     [VBytes (crcBytes t (cbor_bytes (VArr (fs @ [VBytes (zeros (crcLen t))]))))])"

definition crc_type_ok :: "jsval \<Rightarrow> bool" where
  "crc_type_ok t \<longleftrightarrow> t \<in> {CRC_NONE, CRC16, CRC32C}"

definition fields_ok :: "jsval list \<Rightarrow> bool" where
  "fields_ok fs \<longleftrightarrow> length fs < 16 \<and> list_all (cbor_ok 32) fs"

lemmas crc_types = CRC_NONE_def CRC16_def CRC32C_def

lemma length_crcBytes [simp]: "length (crcBytes t bs) = crcLen t"
  by (simp add: crcBytes_def crcLen_def)

lemma length_zeros [simp]: "length (zeros n) = n"
  by (simp add: zeros_def)

lemma crcLen_le: "crcLen t \<le> 4"
  by (simp add: crcLen_def)

lemma cbor_ok_bytes: "length bs \<le> 4 \<Longrightarrow> cbor_ok 32 (VBytes bs)"
  by (simp add: cbor_ok_numeral)

lemma fields_ok_array:
  assumes "fields_ok fs" "length x \<le> 4"
  shows "cbor_ok max_levels (VArr fs)" "cbor_ok max_levels (VArr (fs @ [VBytes x]))"
    "cbor_bytes (VArr (fs @ [VBytes x])) =
      head_bytes 4 (Suc (length fs)) @ concat (map cbor_bytes fs) @ head_bytes 2 (length x) @ x"
proof -
  have ok: "list_all (cbor_ok 32) fs" "length fs < 16" using assms(1) by (simp_all add: fields_ok_def)
  have x: "cbor_ok 32 (VBytes x)" using assms(2) by (rule cbor_ok_bytes)
  have l: "max_levels = Suc 32" by simp
  show "cbor_ok max_levels (VArr fs)" using ok unfolding l cbor_ok.simps by simp
  have all: "list_all (cbor_ok 32) (fs @ [VBytes x])" using ok x by simp
  then show "cbor_ok max_levels (VArr (fs @ [VBytes x]))" using ok unfolding l cbor_ok.simps by simp
  show "cbor_bytes (VArr (fs @ [VBytes x])) =
      head_bytes 4 (Suc (length fs)) @ concat (map cbor_bytes fs) @ head_bytes 2 (length x) @ x"
    unfolding cbor_bytes_arrays(1) [OF all] by (simp add: cbor_bytes_scalars)
qed

lemma sealed_ok:
  assumes "fields_ok fs"
  shows "cbor_ok max_levels (VArr (sealed fs t))"
proof (cases "t = CRC_NONE")
  case True
  with fields_ok_array(1) [OF assms, of "[]"] show ?thesis by (simp add: sealed_def)
next
  case False
  with fields_ok_array(2) [OF assms, of "crcBytes t x" for x] crcLen_le [of t] show ?thesis
    by (simp add: sealed_def)
qed

lemma sealBlock_sealed:
  assumes "fields_ok fs"
  shows "sealBlock fs t = Inr (cbor_bytes (VArr (sealed fs t)))"
proof -
  have "cbor_ok max_levels (VArr (fs @ [VBytes (zeros (crcLen t))]))"
      "\<And>x. cbor_ok max_levels (VArr (fs @ [VBytes (crcBytes t x)]))"
    using fields_ok_array(2) [OF assms] crcLen_le [of t] by simp_all
  with fields_ok_array(1) [OF assms, of "[]"] have "cbor_ok max_levels (VArr fs)"
      "cbor_ok max_levels (VArr (fs @ [VBytes (zeros (crcLen t))]))"
      "\<And>x. cbor_ok max_levels (VArr (fs @ [VBytes (crcBytes t x)]))" by simp_all
  from this [THEN encode_bytes] show ?thesis by (simp only: sealBlock_def sealed_def rbind_simps) simp
qed

lemma sealed_crc_ok:
  assumes "fields_ok fs" "t \<noteq> CRC_NONE"
  shows "checkCrc (cbor_bytes (VArr (sealed fs t))) t (last (sealed fs t))"
proof -
  have bs: "cbor_bytes (VArr (fs @ [VBytes x])) =
      (head_bytes 4 (Suc (length fs)) @ concat (map cbor_bytes fs) @ head_bytes 2 (crcLen t)) @ x"
    if "length x = crcLen t" for x
    using fields_ok_array(3) [OF assms(1), of x] that crcLen_le [of t] by simp
  show ?thesis unfolding checkCrc_def sealed_def
    using assms(2) by (simp add: bs del: append_assoc)
qed

lemma checkCrc_none [simp]: "checkCrc raw CRC_NONE c"
  by (simp add: checkCrc_def)

lemma length_sealed: "length (sealed fs t) = length fs + (if t = CRC_NONE then 0 else 1)"
  by (simp add: sealed_def)

lemma elem_sealed: "i < length fs \<Longrightarrow> elem (sealed fs t) i = fs ! i"
  by (simp add: elem_def sealed_def nth_append)

section \<open>The outer array\<close>

lemma dec_raws_items:
  assumes "list_all (cbor_ok max_levels) vs" "length vs < n"
  shows "dec_raws n (concat (map cbor_bytes vs) @ 0xFF # r) = Inr (map (\<lambda>v. (v, cbor_bytes v)) vs, r)"
  using assms
proof (induction vs arbitrary: n)
  case Nil
  then show ?case by (cases n) simp_all
next
  case (Cons v vs)
  then obtain m where n: "n = Suc m" "length vs < m" by (cases n) auto
  have v: "cbor_ok max_levels v" and vs: "list_all (cbor_ok max_levels) vs" using Cons.prems(1) by simp_all
  obtain b p where b: "cbor_bytes v = b # p" "b \<noteq> 0xFF" using cbor_bytes_not_break [OF v] by blast
  let ?rest = "concat (map cbor_bytes vs) @ 0xFF # r"
  have "decodeAt (b # p @ ?rest) = Inr (v, ?rest)" using decodeAt_encode [OF v, of ?rest] b by simp
  with Cons.IH [OF vs n(2)] b(2) show ?case
    by (simp add: n(1) b(1))
qed

section \<open>Endpoint ids\<close>

definition eid_ok :: "string \<Rightarrow> bool" where
  "eid_ok e \<longleftrightarrow> e = ''dtn:none'' \<or>
     is_dtn_uri e \<and> text_ok (drop 4 e) \<and> int (length e) \<le> MAX_SAFE_INTEGER \<or>
     (case ipn_match e of
        Some (a, b) \<Rightarrow> show_nat (read_nat a) = a \<and> show_nat (read_nat b) = b \<and>
          int (read_nat a) \<le> MAX_SAFE_INTEGER \<and> int (read_nat b) \<le> MAX_SAFE_INTEGER
      | None \<Rightarrow> False)"

lemma ipn_match_Some:
  assumes "ipn_match e = Some (a, b)"
  shows "e = ''ipn:'' @ a @ ''.'' @ b"
proof -
  define r where "r = dropWhile is_digit (drop 4 e)"
  have *: "take 4 e = ''ipn:''" "a = takeWhile is_digit (drop 4 e)" "take 1 r = ''.''" "b = drop 1 r"
    using assms by (auto simp: ipn_match_def Let_def r_def split: if_splits)
  have "r = ''.'' @ b" using *(3,4) by (metis append_take_drop_id)
  moreover have "drop 4 e = a @ r" by (simp add: *(2) r_def)
  ultimately show ?thesis using *(1) by (metis append_take_drop_id)
qed

lemma dtn_prefix: "is_dtn_uri e \<Longrightarrow> e = ''dtn:'' @ drop 4 e"
proof -
  assume "is_dtn_uri e"
  then have "take 6 e = ''dtn://''" by (simp add: is_dtn_uri_def)
  then have "take 4 (take 6 e) = ''dtn:''" by simp
  then have "take 4 e = ''dtn:''" by (simp only: take_take) simp
  then show ?thesis by (metis append_take_drop_id)
qed

lemma eid_roundtrip:
  assumes "eid_ok e"
  shows "\<exists>v. encodeEid e = Inr v \<and> decodeEid v = Inr e \<and> cbor_ok 32 v"
proof (cases "e = ''dtn:none''")
  case True
  then show ?thesis by (simp add: encodeEid_def decodeEid_def cbor_ok_numeral)
next
  case none: False
  show ?thesis
  proof (cases "is_dtn_uri e")
    case True
    have "\<not> is_digit (CHR ''d'')" by (simp add: is_digit_def digit_val_def)
    have "ipn_match e = None" using True by (auto simp: is_dtn_uri_def ipn_match_def Let_def take_eq_Nil
          dest!: arg_cong [where f = "take 4" and x = "take 6 e"])
    then have "text_ok (drop 4 e)" "int (length e) \<le> MAX_SAFE_INTEGER"
      using assms none by (simp_all add: eid_ok_def)
    moreover have "''dtn:'' @ drop 4 e = e" by (rule dtn_prefix [OF True, symmetric])
    ultimately show ?thesis using True none
      by (auto simp: encodeEid_def decodeEid_def cbor_ok_numeral)
  next
    case False
    with assms none obtain a b where ab: "ipn_match e = Some (a, b)" "show_nat (read_nat a) = a"
        "show_nat (read_nat b) = b" "int (read_nat a) \<le> MAX_SAFE_INTEGER" "int (read_nat b) \<le> MAX_SAFE_INTEGER"
      by (auto simp: eid_ok_def split: option.splits)
    with False none ipn_match_Some [OF ab(1)] show ?thesis
      by (simp add: encodeEid_def decodeEid_def show_int_def cbor_ok_numeral)
  qed
qed

section \<open>Round trip\<close>

definition primary_ok :: "primary \<Rightarrow> bool" where
  "primary_ok p \<longleftrightarrow>
     (case p_flags p of
        VNum n \<Rightarrow> if odd n then cbor_ok 32 (p_fragmentOffset p) \<and> cbor_ok 32 (p_totalAduLength p)
          else p_fragmentOffset p = VUndef \<and> p_totalAduLength p = VUndef
      | _ \<Rightarrow> False) \<and>
     cbor_ok 32 (p_flags p) \<and> crc_type_ok (p_crcType p) \<and>
     eid_ok (p_dest p) \<and> eid_ok (p_source p) \<and> eid_ok (p_reportTo p) \<and>
     cbor_ok 31 (fst (p_created p)) \<and> cbor_ok 31 (snd (p_created p)) \<and> cbor_ok 32 (p_lifetime p)"

definition content_ok :: "block \<Rightarrow> bool" where
  "content_ok b \<longleftrightarrow> cbor_ok 32 (b_type b) \<and> cbor_ok 32 (b_flags b) \<and>
     b_flags b \<noteq> VNull \<and> crc_type_ok (b_crcType b) \<and> int (length (b_data b)) \<le> MAX_SAFE_INTEGER"

definition block_ok :: "block \<Rightarrow> bool" where
  "block_ok b \<longleftrightarrow> content_ok b \<and> cbor_ok 32 (b_number b)"

definition bundle_ok :: "bpv7 \<Rightarrow> bool" where
  "bundle_ok b \<longleftrightarrow> primary_ok (bp_primary b) \<and> bp_blocks b \<noteq> [] \<and> list_all block_ok (bp_blocks b) \<and>
     b_type (last (bp_blocks b)) = PAYLOAD \<and> \<not> dup_number [] (map b_number (bp_blocks b))"

definition block_fields :: "block \<Rightarrow> jsval list" where
  "block_fields b = [b_type b, b_number b, b_flags b, b_crcType b, VBytes (b_data b)]"

definition block_value :: "block \<Rightarrow> jsval" where
  "block_value b = VArr (sealed (block_fields b) (b_crcType b))"

lemma cbor_ok_undef [simp]: "\<not> cbor_ok d VUndef"
  by (cases d) simp_all

lemma crc_type_cases: "crc_type_ok t \<Longrightarrow> t = VNum 0 \<or> t = VNum 1 \<or> t = VNum 2"
  by (auto simp: crc_type_ok_def crc_types)

lemma crc_type_cbor: "crc_type_ok t \<Longrightarrow> cbor_ok 32 t"
  by (auto dest!: crc_type_cases simp: cbor_ok_numeral)

lemma crc_type_nullish: "crc_type_ok t \<Longrightarrow> nullish t v = t"
  by (auto dest!: crc_type_cases simp: nullish_def)

lemma crc_type_truthy: "crc_type_ok t \<Longrightarrow> truthy t \<longleftrightarrow> t \<noteq> CRC_NONE"
  by (auto dest!: crc_type_cases simp: crc_types)

lemma block_fields_ok: "block_ok b \<Longrightarrow> fields_ok (block_fields b)"
  by (simp add: block_ok_def content_ok_def block_fields_def fields_ok_def crc_type_cbor cbor_ok_numeral [of _ "VBytes _"])

lemma encode_block_ok: "block_ok b \<Longrightarrow> encode_block b = Inr (cbor_bytes (block_value b))"
proof -
  assume ok: "block_ok b"
  then have "nullish (b_flags b) (VNum 0) = b_flags b" by (auto simp: block_ok_def content_ok_def nullish_def)
  moreover have "nullish (b_crcType b) CRC_NONE = b_crcType b" using ok by (simp add: block_ok_def content_ok_def crc_type_nullish)
  ultimately show ?thesis
    using sealBlock_sealed [OF block_fields_ok [OF ok], of "b_crcType b"]
    by (simp add: encode_block_def block_value_def block_fields_def)
qed

lemma block_value_ok: "block_ok b \<Longrightarrow> cbor_ok max_levels (block_value b)"
  unfolding block_value_def by (rule sealed_ok [OF block_fields_ok])

lemma decode_block_ok:
  assumes ok: "block_ok b"
  shows "decode_block (block_value b, cbor_bytes (block_value b)) = Inr b"
proof -
  let ?t = "b_crcType b" and ?vs = "sealed (block_fields b) (b_crcType b)"
  have len: "length (block_fields b) = 5" by (simp add: block_fields_def)
  have e: "elem ?vs 0 = b_type b" "elem ?vs (Suc 0) = b_number b" "elem ?vs 2 = b_flags b" "elem ?vs 3 = ?t"
      "elem ?vs 4 = VBytes (b_data b)"
    using len by (simp_all add: elem_sealed) (simp_all add: block_fields_def)
  have t: "truthy ?t \<longleftrightarrow> ?t \<noteq> CRC_NONE" using ok by (simp add: block_ok_def content_ok_def crc_type_truthy)
  have "checkCrc (cbor_bytes (block_value b)) ?t (elem ?vs 5)"
  proof (cases "?t = CRC_NONE")
    case False
    then have "elem ?vs 5 = last ?vs" using len by (simp add: sealed_def elem_def nth_append)
    then show ?thesis
      using sealed_crc_ok [OF block_fields_ok [OF ok] False] by (simp add: block_value_def)
  qed simp
  moreover define vs where "vs = ?vs"
  moreover have "length vs = 5 + (if ?t = CRC_NONE then 0 else 1)"
    unfolding vs_def length_sealed len ..
  ultimately show ?thesis
    using e t unfolding block_value_def vs_def [symmetric] by (cases "?t = CRC_NONE") (simp_all add: decode_block_def)
qed

lemma rmapM_blocks: "list_all block_ok bs \<Longrightarrow> rmapM encode_block bs = Inr (map (cbor_bytes \<circ> block_value) bs)"
  by (rule rmapM_Inr) (auto simp: list_all_iff encode_block_ok)

lemma rmapM_decode_blocks:
  "list_all block_ok bs \<Longrightarrow> rmapM decode_block (map (\<lambda>v. (v, cbor_bytes v)) (map block_value bs)) = Inr bs"
  by (induction bs) (simp_all add: decode_block_ok)

lemma js_index_pair [simp]: "js_index (VArr [x, y]) 0 = Inr x" "js_index (VArr [x, y]) (Suc 0) = Inr y"
  by (simp_all add: js_index_def)

lemma fragment_bit_num [simp]: "fragment_bit (VNum n) = Inr (odd n)"
  by (simp add: fragment_bit_def to_prim_def)

lemma primary_roundtrip:
  assumes ok: "primary_ok p"
  shows "\<exists>v. encode_primary p = Inr (cbor_bytes v) \<and> cbor_ok max_levels v \<and> decode_primary v (cbor_bytes v) = Inr p"
proof -
  obtain n where n: "p_flags p = VNum n"
      "if odd n then cbor_ok 32 (p_fragmentOffset p) \<and> cbor_ok 32 (p_totalAduLength p)
       else p_fragmentOffset p = VUndef \<and> p_totalAduLength p = VUndef"
    and flags: "cbor_ok 32 (p_flags p)" and t: "crc_type_ok (p_crcType p)"
    and rest: "cbor_ok 31 (fst (p_created p))" "cbor_ok 31 (snd (p_created p))" "cbor_ok 32 (p_lifetime p)"
    using ok by (auto simp: primary_ok_def split: jsval.splits)
  have eids: "eid_ok (p_dest p)" "eid_ok (p_source p)" "eid_ok (p_reportTo p)"
    using ok by (simp_all add: primary_ok_def)
  obtain d s r where e: "encodeEid (p_dest p) = Inr d" "decodeEid d = Inr (p_dest p)" "cbor_ok 32 d"
      "encodeEid (p_source p) = Inr s" "decodeEid s = Inr (p_source p)" "cbor_ok 32 s"
      "encodeEid (p_reportTo p) = Inr r" "decodeEid r = Inr (p_reportTo p)" "cbor_ok 32 r"
    using eid_roundtrip [OF eids(1)] eid_roundtrip [OF eids(2)] eid_roundtrip [OF eids(3)] by blast
  let ?fs = "[VNum 7, VNum n, p_crcType p, d, s, r, VArr [fst (p_created p), snd (p_created p)], p_lifetime p] @
      (if odd n then [p_fragmentOffset p, p_totalAduLength p] else [])"
  have created: "cbor_ok 32 (VArr [fst (p_created p), snd (p_created p)])" "cbor_ok 32 (VNum 7)"
    using rest by (simp_all add: cbor_ok_numeral [of _ "VArr _"] cbor_ok_numeral [of _ "VNum _"])
  have fs: "fields_ok ?fs"
    using created flags n crc_type_cbor [OF t] e(3,6,9) rest(3) by (auto simp: fields_ok_def)
  let ?vs = "sealed ?fs (p_crcType p)"
  have "encode_primary p = Inr (cbor_bytes (VArr ?vs))"
    using sealBlock_sealed [OF fs, of "p_crcType p"]
    by (simp add: encode_primary_def Let_def n(1) nullish_def [of "VNum n"] crc_type_nullish [OF t] e)
  moreover have "cbor_ok max_levels (VArr ?vs)" by (rule sealed_ok [OF fs])
  moreover have "decode_primary (VArr ?vs) (cbor_bytes (VArr ?vs)) = Inr p"
  proof -
    have el: "elem ?vs 0 = VNum 7" "elem ?vs (Suc 0) = VNum n" "elem ?vs 2 = p_crcType p" "elem ?vs 3 = d"
        "elem ?vs 4 = s" "elem ?vs 5 = r" "elem ?vs 6 = VArr [fst (p_created p), snd (p_created p)]"
        "elem ?vs 7 = p_lifetime p"
        "odd n \<Longrightarrow> elem ?vs 8 = p_fragmentOffset p" "odd n \<Longrightarrow> elem ?vs 9 = p_totalAduLength p"
      by (simp_all add: elem_sealed)
    have len: "length ?vs = 8 + (if odd n then 2 else 0) + (if truthy (p_crcType p) then 1 else 0)"
      by (simp add: length_sealed crc_type_truthy [OF t])
    have crc: "checkCrc (cbor_bytes (VArr ?vs)) (p_crcType p) (last ?vs)"
      using sealed_crc_ok [OF fs] by (cases "p_crcType p = CRC_NONE") simp_all
    have "decode_primary (VArr ?vs) (cbor_bytes (VArr ?vs)) = Inr \<lparr>p_flags = VNum n, p_crcType = p_crcType p,
        p_dest = p_dest p, p_source = p_source p, p_reportTo = p_reportTo p,
        p_created = (fst (p_created p), snd (p_created p)), p_lifetime = p_lifetime p,
        p_fragmentOffset = (if odd n then p_fragmentOffset p else VUndef),
        p_totalAduLength = (if odd n then p_totalAduLength p else VUndef)\<rparr>"
      unfolding decode_primary_def jsval.case One_nat_def el
      using len crc el(9,10) e by simp
    then show ?thesis using n by (cases p) (auto split: if_splits)
  qed
  ultimately show ?thesis by blast
qed

lemma encodeBundle_decodeBundle:
  assumes ok: "bundle_ok b"
  shows "\<exists>bs. encodeBundle b = Inr bs \<and> decodeBundle bs = Inr b"
proof -
  let ?bl = "bp_blocks b"
  have b: "primary_ok (bp_primary b)" "?bl \<noteq> []" "list_all block_ok ?bl"
      "b_type (last ?bl) = PAYLOAD" "\<not> dup_number [] (map b_number ?bl)"
    using ok by (simp_all add: bundle_ok_def)
  obtain v where v: "encode_primary (bp_primary b) = Inr (cbor_bytes v)" "cbor_ok max_levels v"
      "decode_primary v (cbor_bytes v) = Inr (bp_primary b)"
    using primary_roundtrip [OF b(1)] by blast
  let ?vs = "v # map block_value ?bl"
  have "list_all (cbor_ok max_levels) ?vs"
    using v(2) b(3) by (auto simp: list_all_iff block_value_ok)
  note raws = dec_raws_items [OF this]
  define body where "body = concat (map cbor_bytes ?vs) @ [0xFF]"
  have "length ?vs \<le> length (concat (map cbor_bytes ?vs))"
  proof -
    have "x \<noteq> []" if "x \<in> set (map cbor_bytes ?vs)" for x
      using that \<open>list_all (cbor_ok max_levels) ?vs\<close> cbor_bytes_not_break by (fastforce simp: list_all_iff)
    then have "length (map cbor_bytes ?vs) \<le> length (concat (map cbor_bytes ?vs))" by (rule concat_length_ge)
    then show ?thesis by (simp only: length_map)
  qed
  then have "length ?vs < length body" by (simp add: body_def)
  then have body: "dec_raws (length body) body = Inr (map (\<lambda>v. (v, cbor_bytes v)) ?vs, [])"
    unfolding body_def by (rule raws)
  have enc: "encodeBundle b = Inr (0x9F # body)"
    using b by (simp add: encodeBundle_def v(1) rmapM_blocks body_def comp_def)
  obtain x xs where x: "?bl = x # xs" using b(2) by (cases ?bl) auto
  have "decodeBundle (0x9F # body) = Inr b"
    using rmapM_decode_blocks [OF b(3)] b(4,5) v(3)
    by (simp add: decodeBundle_def body x)
  with enc show ?thesis by blast
qed

section \<open>A changed byte is noticed\<close>

lemma be_inj: "be k m = be k n \<Longrightarrow> m < 256 ^ k \<Longrightarrow> n < 256 ^ k \<Longrightarrow> m = n"
  by (metis unbe_be)

lemma crcBytes_byte_detected:
  assumes "t = CRC16 \<or> t = CRC32C" "x \<noteq> y"
  shows "crcBytes t (xs @ x # ys) \<noteq> crcBytes t (xs @ y # ys)"
proof
  assume eq: "crcBytes t (xs @ x # ys) = crcBytes t (xs @ y # ys)"
  from assms(1) show False
  proof
    assume t: "t = CRC16"
    have "unat w < 256 ^ 2" for w :: "16 word" using unsigned_less [of w] by simp
    then have "crc16x25 (xs @ x # ys) = crc16x25 (xs @ y # ys)"
      using be_inj [of 2] eq t by (simp add: crcBytes_def word_unat_eq_iff)
    with crc16_byte_detected [OF assms(2)] show False by blast
  next
    assume t: "t = CRC32C"
    have "unat w < 256 ^ 4" for w :: "32 word" using unsigned_less [of w] by simp
    then have "crc32c (xs @ x # ys) = crc32c (xs @ y # ys)"
      using be_inj [of 4] eq t by (simp add: crcBytes_def word_unat_eq_iff crc_types)
    with crc32_byte_detected [OF assms(2)] show False by blast
  qed
qed

definition crc_field :: "jsval \<Rightarrow> bytes \<Rightarrow> jsval" where
  "crc_field t raw = VBytes (drop (length raw - crcLen t) raw)"

lemma list_update_split: "i < length xs \<Longrightarrow> xs[i := x] = take i xs @ x # drop (Suc i) xs"
  by (rule upd_conv_take_nth_drop)

lemma checkCrc_byte_detected:
  assumes "t = CRC16 \<or> t = CRC32C" "crcLen t \<le> length raw" "checkCrc raw t (crc_field t raw)"
    and "i < length raw" "x \<noteq> raw ! i"
  shows "\<not> checkCrc (raw[i := x]) t (crc_field t (raw[i := x]))"
proof -
  define k where "k = length raw - crcLen t"
  have t0: "t \<noteq> CRC_NONE" using assms(1) by (auto simp: crc_types)
  have crc: "crcBytes t (take k raw @ zeros (crcLen t)) = drop k raw"
    using assms(3) t0 by (simp add: checkCrc_def crc_field_def k_def)
  have upd: "checkCrc (raw[i := x]) t (crc_field t (raw[i := x])) \<longleftrightarrow>
      crcBytes t (take k (raw[i := x]) @ zeros (crcLen t)) = drop k (raw[i := x])"
    using t0 assms(2) by (auto simp: checkCrc_def crc_field_def k_def)
  show ?thesis
  proof (cases "i < k")
    case True
    define a b where "a = take i (take k raw)" and "b = drop (Suc i) (take k raw) @ zeros (crcLen t)"
    have i: "i < length (take k raw)" using True assms(4) by simp
    have "take k raw = a @ raw ! i # drop (Suc i) (take k raw)"
      unfolding a_def using id_take_nth_drop [OF i] True by simp
    then have 1: "take k raw @ zeros (crcLen t) = a @ raw ! i # b" by (simp add: b_def)
    have "take k (raw[i := x]) = a @ x # drop (Suc i) (take k raw)"
      unfolding a_def using upd_conv_take_nth_drop [OF i, of x] True by (simp add: take_update_swap)
    then have 2: "take k (raw[i := x]) @ zeros (crcLen t) = a @ x # b" by (simp add: b_def)
    have "drop k (raw[i := x]) = drop k raw" using True by simp
    moreover have "crcBytes t (a @ raw ! i # b) = drop k raw" using crc by (simp only: 1)
    ultimately show ?thesis
      unfolding upd 2 using crcBytes_byte_detected [OF assms(1), of x "raw ! i" a b] assms(5) by simp
  next
    case False
    then have same: "take k (raw[i := x]) = take k raw" by simp
    have "drop k (raw[i := x]) ! (i - k) \<noteq> drop k raw ! (i - k)"
      using False assms(4,5) by (simp add: k_def)
    then show ?thesis unfolding upd same crc by metis
  qed
qed

section \<open>Adding a block\<close>

lemma dup_number_iff: "dup_number seen ns \<longleftrightarrow>
    \<not> distinct (filter is_prim ns) \<or> (\<exists>n \<in> set ns. is_prim n \<and> n \<in> set seen)"
  by (induction ns arbitrary: seen) auto

lemma dup_number_Nil: "dup_number [] ns \<longleftrightarrow> \<not> distinct (filter is_prim ns)"
  by (simp add: dup_number_iff)

lemma free_number_props:
  "n \<le> free_number k used n \<and> free_number k used n \<le> n + int k \<and>
   (\<forall>m. n \<le> m \<and> m < free_number k used n \<longrightarrow> VNum m \<in> set used) \<and>
   (free_number k used n < n + int k \<longrightarrow> VNum (free_number k used n) \<notin> set used)"
proof (induction k arbitrary: n)
  case (Suc k)
  show ?case
  proof (cases "VNum n \<in> set used")
    case True
    have "VNum m \<in> set used" if "n \<le> m" "m < free_number k used (n + 1)" for m
      using that True Suc.IH [of "n + 1"] by (cases "m = n") auto
    with True Suc.IH [of "n + 1"] show ?thesis by auto
  qed auto
qed auto

lemma free_number_free: "length used \<le> k \<Longrightarrow> VNum (free_number k used n) \<notin> set used"
proof
  assume k: "length used \<le> k" and used: "VNum (free_number k used n) \<in> set used"
  have "free_number k used n = n + int k"
    using free_number_props [where n = n and k = k and used = used] used by force
  then have "VNum ` {n..n + int k} \<subseteq> set used"
    using free_number_props [where n = n and k = k and used = used] used by (force simp: le_less)
  moreover have "card (VNum ` {n..n + int k}) = Suc k" by (subst card_image) (auto simp: inj_on_def)
  ultimately have "Suc k \<le> card (set used)" by (metis List.finite_set card_mono)
  with card_length [of used] k show False by simp
qed

lemma nextBlockNumber_free: "VNum (nextBlockNumber b) \<notin> b_number ` set (bp_blocks b)"
  using free_number_free [of "map b_number (bp_blocks b)" "length (bp_blocks b)" 2] by (simp add: nextBlockNumber_def)

lemma nextBlockNumber_bounds: "2 \<le> nextBlockNumber b \<and> nextBlockNumber b \<le> 2 + int (length (bp_blocks b))"
  using free_number_props [where n = 2] unfolding nextBlockNumber_def by blast

text \<open>The number of the block that \<open>putBlock\<close> stores, and the other blocks.\<close>

definition put_number :: "bpv7 \<Rightarrow> jsval \<Rightarrow> jsval" where
  "put_number b t = (case find (\<lambda>y. strict_eq (b_type y) t) (bp_blocks b) of
     Some y \<Rightarrow> b_number y | None \<Rightarrow> VNum (nextBlockNumber b))"

definition other_blocks :: "bpv7 \<Rightarrow> jsval \<Rightarrow> block list" where
  "other_blocks b t = filter (\<lambda>y. \<not> strict_eq (b_type y) t) (bp_blocks b)"

lemma putBlock_Some:
  "putBlock b x = (if other_blocks b (b_type x) = [] then None else
     Some (b\<lparr>bp_blocks := butlast (other_blocks b (b_type x)) @
       [x\<lparr>b_number := put_number b (b_type x)\<rparr>, last (other_blocks b (b_type x))]\<rparr>))"
  by (simp add: putBlock_def put_number_def other_blocks_def Let_def)

lemma distinct_filter_filter: "distinct (filter P (map f xs)) \<Longrightarrow> distinct (filter P (map f (filter Q xs)))"
  by (induction xs) auto

lemma put_number_fresh:
  assumes "distinct (filter is_prim (map b_number (bp_blocks b)))" "is_prim (put_number b t)"
  shows "put_number b t \<notin> b_number ` set (other_blocks b t)"
proof (cases "find (\<lambda>y. strict_eq (b_type y) t) (bp_blocks b)")
  case None
  then show ?thesis using nextBlockNumber_free [of b] by (auto simp: put_number_def other_blocks_def)
next
  case (Some y)
  then have y: "y \<in> set (bp_blocks b)" "strict_eq (b_type y) t" by (auto simp: find_Some_iff)
  have num: "put_number b t = b_number y" by (simp add: put_number_def Some)
  have "z = y" if z: "z \<in> set (bp_blocks b)" "b_number z = b_number y" for z
  proof (rule ccontr)
    assume ne: "z \<noteq> y"
    have p: "is_prim (b_number y)" using assms(2) num by simp
    have "distinct (filter is_prim (map b_number bs)) \<Longrightarrow> z \<in> set bs \<Longrightarrow> y \<in> set bs \<Longrightarrow> False" for bs
    proof (induction bs)
      case (Cons a bs)
      then have d: "distinct (filter is_prim (map b_number bs))" by (simp split: if_splits)
      have out: "b_number a \<notin> b_number ` set bs" if "is_prim (b_number a)"
        using that Cons.prems(1) by auto
      from d Cons.IH Cons.prems(2,3) have "z = a \<or> y = a" by auto
      with Cons.prems(2,3) ne have "a = z \<and> y \<in> set bs \<or> a = y \<and> z \<in> set bs" by auto
      then have "b_number a = b_number y" "b_number y \<in> b_number ` set bs"
        using z(2) by (auto intro: image_eqI [of _ _ y] image_eqI [of _ _ z])
      then show False using out p by simp
    qed simp
    with assms(1) z(1) y(1) show False by blast
  qed
  show ?thesis
  proof
    assume "put_number b t \<in> b_number ` set (other_blocks b t)"
    then obtain z where "z \<in> set (bp_blocks b)" "\<not> strict_eq (b_type z) t" "b_number z = b_number y"
      unfolding num other_blocks_def by force
    with \<open>\<And>z. z \<in> set (bp_blocks b) \<Longrightarrow> b_number z = b_number y \<Longrightarrow> z = y\<close> y(2) show False by metis
  qed
qed

lemma last_other: "blocks \<noteq> [] \<Longrightarrow> \<not> Q (last blocks) \<Longrightarrow>
    filter (\<lambda>y. \<not> Q y) blocks \<noteq> [] \<and> last (filter (\<lambda>y. \<not> Q y) blocks) = last blocks"
  by (induction blocks rule: rev_induct) auto

lemma putBlock_ok:
  assumes ok: "bundle_ok b" and x: "content_ok x" "is_prim (b_type x)" "b_type x \<noteq> PAYLOAD"
    and few: "length (bp_blocks b) < 2 ^ 32"
  shows "\<exists>b'. putBlock b x = Some b' \<and> bundle_ok b' \<and> bp_primary b' = bp_primary b \<and>
    filter (\<lambda>y. b_type y = b_type x) (bp_blocks b') = [x\<lparr>b_number := put_number b (b_type x)\<rparr>] \<and>
    filter (\<lambda>y. b_type y \<noteq> b_type x) (bp_blocks b') = filter (\<lambda>y. b_type y \<noteq> b_type x) (bp_blocks b)"
proof -
  let ?t = "b_type x" and ?bl = "bp_blocks b" and ?num = "put_number b (b_type x)"
  define others where "others = other_blocks b ?t"
  have bl: "?bl \<noteq> []" "list_all block_ok ?bl" "b_type (last ?bl) = PAYLOAD" "primary_ok (bp_primary b)"
      "distinct (filter is_prim (map b_number ?bl))"
    using ok by (simp_all add: bundle_ok_def dup_number_Nil)
  have same: "strict_eq y ?t \<longleftrightarrow> y = ?t" for y using x(2) by (auto simp: strict_eq_def)
  have o: "others = filter (\<lambda>y. b_type y \<noteq> ?t) ?bl" by (simp add: others_def other_blocks_def same)
  have lo: "others \<noteq> []" "last others = last ?bl"
    using last_other [OF bl(1), of "\<lambda>y. b_type y = ?t"] bl(3) x(3) by (auto simp: o)
  define nb where "nb = x\<lparr>b_number := ?num\<rparr>"
  define b' where "b' = b\<lparr>bp_blocks := butlast others @ [nb, last others]\<rparr>"
  have put: "putBlock b x = Some b'"
    using lo(1) by (simp add: putBlock_Some others_def [symmetric] nb_def [symmetric] b'_def)
  have num: "cbor_ok 32 ?num"
  proof (cases "find (\<lambda>y. strict_eq (b_type y) ?t) ?bl")
    case None
    then show ?thesis using nextBlockNumber_bounds [of b] few
      by (simp add: put_number_def cbor_ok_numeral)
  next
    case (Some y)
    then have "y \<in> set ?bl" by (auto simp: find_Some_iff)
    with Some bl(2) show ?thesis by (simp add: put_number_def list_all_iff block_ok_def)
  qed
  have nb_ok: "block_ok nb" using x(1) num by (simp add: nb_def block_ok_def content_ok_def)
  have perm: "mset (butlast others @ [nb, last others]) = add_mset nb (mset others)"
    using lo(1) by (metis (no_types, lifting) append_butlast_last_id mset_append mset.simps(2) add_mset_add_single
      union_mset_add_mset_right mset_single_iff_right append_Cons append_Nil append_assoc)
  have "distinct (filter is_prim (map b_number (butlast others @ [nb, last others])))"
  proof -
    have d: "distinct (filter is_prim (map b_number others))"
      unfolding o by (rule distinct_filter_filter [OF bl(5)])
    have "distinct (filter is_prim (map b_number (nb # others)))"
      using d put_number_fresh [OF bl(5), of ?t] by (auto simp: nb_def others_def)
    moreover have "mset (filter is_prim (map b_number (butlast others @ [nb, last others]))) =
        mset (filter is_prim (map b_number (nb # others)))"
      using arg_cong [OF perm, of "\<lambda>m. filter_mset is_prim (image_mset b_number m)"]
      by (simp only: mset_filter mset_map mset.simps)
    ultimately show ?thesis by (metis mset_eq_imp_distinct_iff)
  qed
  moreover have "list_all block_ok (butlast others @ [nb, last others])"
    using nb_ok bl(2) lo(1) by (auto simp: list_all_iff o dest: in_set_butlastD last_in_set)
  ultimately have "bundle_ok b'"
    using bl lo by (simp add: b'_def bundle_ok_def dup_number_Nil)
  moreover have ft: "b_type nb = ?t" by (simp add: nb_def)
  moreover have "filter (\<lambda>y. b_type y = ?t) (butlast others) = []" "b_type (last others) \<noteq> ?t"
    using lo x(3) bl(3) by (auto simp: filter_empty_conv o dest!: in_set_butlastD)
  moreover have "filter (\<lambda>y. b_type y \<noteq> ?t) (butlast others @ [last others]) = others"
  proof -
    have "butlast others @ [last others] = others" using lo(1) by simp
    moreover have "filter (\<lambda>y. b_type y \<noteq> ?t) others = others" by (simp add: o)
    ultimately show ?thesis by (simp only:)
  qed
  ultimately show ?thesis using put o by (auto simp: b'_def nb_def)
qed

lemma payloadOf_last:
  assumes "bundle_ok b"
  shows "\<exists>d. payloadOf b = Inr d"
proof -
  have "find (\<lambda>x. b_type x = PAYLOAD) (bp_blocks b) \<noteq> None"
    using assms by (auto simp: bundle_ok_def find_None_iff dest!: last_in_set)
  then show ?thesis by (auto simp: payloadOf_def)
qed

section \<open>Properties\<close>

text \<open>
  Property C7. A bundle written by \<open>encodeBundle\<close> is read back by \<open>decodeBundle\<close> field for field:
  every CRC verifies, fragments and endpoint ids of both schemes included.
\<close>
theorem bundle_roundtrip:
  "bundle_ok b \<Longrightarrow> \<exists>bs. encodeBundle b = Inr bs \<and> decodeBundle bs = Inr b"
  by (rule encodeBundle_decodeBundle)

definition sample_from :: "bytes \<Rightarrow> bytes \<Rightarrow> bpv7" where
  "sample_from prev payload = \<lparr>bp_primary = \<lparr>p_flags = VNum 1, p_crcType = CRC32C, p_dest = ''dtn://earth/in'',
       p_source = ''ipn:3.1'', p_reportTo = ''dtn:none'', p_created = (VNum 800, VNum 0), p_lifetime = VNum 3600,
       p_fragmentOffset = VNum 0, p_totalAduLength = VNum 9\<rparr>,
     bp_blocks = [\<lparr>b_type = PREVIOUS_NODE, b_number = VNum 2, b_flags = VNum 0, b_crcType = CRC16, b_data = prev\<rparr>,
       \<lparr>b_type = PAYLOAD, b_number = VNum 1, b_flags = VNum 0, b_crcType = CRC_NONE, b_data = payload\<rparr>]\<rparr>"

abbreviation sample_bundle :: "bytes \<Rightarrow> bpv7" where
  "sample_bundle \<equiv> sample_from [0x82, 1, 0]"

lemma sample_eids: "eid_ok ''dtn://earth/in''" "eid_ok ''ipn:3.1''" "eid_ok ''dtn:none''"
proof -
  have "text_ok ''//earth/in''" by (rule text_ok_ascii) simp
  then show "eid_ok ''dtn://earth/in''" by (simp add: eid_ok_def is_dtn_uri_def utf8_def)
  have "ipn_match ''ipn:3.1'' = Some (''3'', ''1'')" by code_simp
  moreover have "show_nat (read_nat ''3'') = ''3''" "show_nat (read_nat ''1'') = ''1''"
      "read_nat ''3'' = 3" "read_nat ''1'' = 1" by code_simp+
  ultimately show "eid_ok ''ipn:3.1''" by (simp add: eid_ok_def)
qed (simp add: eid_ok_def)

lemma sample_bundle_ok: "length prev < 100 \<Longrightarrow> int (length payload) \<le> MAX_SAFE_INTEGER \<Longrightarrow> bundle_ok (sample_from prev payload)"
  by (simp add: sample_from_def bundle_ok_def primary_ok_def block_ok_def content_ok_def sample_eids crc_type_ok_def crc_types
      PREVIOUS_NODE_def PAYLOAD_def cbor_ok_numeral)

lemma bundle_roundtrip_witness:
  "\<exists>bs. encodeBundle (sample_bundle [1, 2, 3]) = Inr bs \<and> decodeBundle bs = Inr (sample_bundle [1, 2, 3])"
  by (rule bundle_roundtrip) (simp add: sample_bundle_ok)

text \<open>
  Property C8. The CRC of a block covers every byte of it: if a block passes \<open>checkCrc\<close> under CRC-16 or
  CRC-32C, changing any one byte, in the block or in its CRC field, makes the check fail.
\<close>
theorem corrupted_byte_detected:
  assumes "t = CRC16 \<or> t = CRC32C" and "crcLen t \<le> length raw" and "checkCrc raw t (crc_field t raw)"
    and "i < length raw" and "x \<noteq> raw ! i"
  shows "\<not> checkCrc (raw[i := x]) t (crc_field t (raw[i := x]))"
  by (rule checkCrc_byte_detected [OF assms])

lemma corrupted_byte_detected_witness:
  "checkCrc [0xFF, 0xFF, 0xFF, 0xFF] CRC16 (crc_field CRC16 [0xFF, 0xFF, 0xFF, 0xFF]) \<and>
   \<not> checkCrc [0xFF, 3, 0xFF, 0xFF] CRC16 (crc_field CRC16 [0xFF, 3, 0xFF, 0xFF])"
proof -
  have "crc16x25 [0xFF, 0xFF, 0, 0] = 0xFFFF"
    unfolding crc16_serial by (simp add: crc_bits_shift del: funpow.simps)
  moreover have "replicate 2 (0 :: byte) = [0, 0]" by code_simp
  ultimately have "checkCrc [0xFF, 0xFF, 0xFF, 0xFF] CRC16 (crc_field CRC16 [0xFF, 0xFF, 0xFF, 0xFF])"
    by (simp add: checkCrc_def crc_field_def crcLen_def crcBytes_def zeros_def
        be.simps(2) [of "pred_numeral k" for k, folded numeral_eq_Suc])
  with corrupted_byte_detected [of CRC16 "[0xFF, 0xFF, 0xFF, 0xFF]" 1 3] show ?thesis
    by (simp add: crcLen_def)
qed

text \<open>
  The table-driven CRCs are the bit-serial CRC-16/X-25 and CRC-32C registers: eight
  shifts with the reflected polynomial for each byte.
\<close>
theorem crc_tables_are_serial:
  "crc16x25 bs = foldl (\<lambda>c b. (crc_bit 0x8408 ^^ 8) (c XOR ucast b)) 0xffff bs XOR 0xffff \<and>
   crc32c bs = foldl (\<lambda>c b. (crc_bit 0x82f63b78 ^^ 8) (c XOR ucast b)) 0xffffffff bs XOR 0xffffffff"
  by (rule conjI crc16_serial crc32_serial)+

text \<open>
  \<open>putBlock\<close> keeps a bundle well formed (payload last, block numbers distinct, every field
  encodable), stores exactly one block of the given type, and leaves the other blocks alone.
\<close>
theorem putBlock_keeps_bundle:
  assumes "bundle_ok b" and "content_ok x" and "is_prim (b_type x)" and "b_type x \<noteq> PAYLOAD"
    and "length (bp_blocks b) < 2 ^ 32"
  shows "\<exists>b'. putBlock b x = Some b' \<and> bundle_ok b' \<and> bp_primary b' = bp_primary b \<and>
    filter (\<lambda>y. b_type y = b_type x) (bp_blocks b') = [x\<lparr>b_number := put_number b (b_type x)\<rparr>] \<and>
    filter (\<lambda>y. b_type y \<noteq> b_type x) (bp_blocks b') = filter (\<lambda>y. b_type y \<noteq> b_type x) (bp_blocks b)"
  by (rule putBlock_ok [OF assms])

lemma putBlock_keeps_bundle_witness:
  "\<exists>b'. putBlock (sample_bundle [7]) \<lparr>b_type = VNum 224, b_number = VUndef, b_flags = VNum 1, b_crcType = CRC32C, b_data = [0x80]\<rparr> = Some b' \<and>
     bundle_ok b'"
proof -
  let ?x = "\<lparr>b_type = VNum 224, b_number = VUndef, b_flags = VNum 1, b_crcType = CRC32C, b_data = [0x80]\<rparr>"
  have "content_ok ?x" by (simp add: content_ok_def crc_type_ok_def crc_types cbor_ok_numeral)
  moreover have "length (bp_blocks (sample_bundle [7])) < 2 ^ 32" by (simp add: sample_from_def)
  ultimately have "\<exists>b'. putBlock (sample_bundle [7]) ?x = Some b' \<and> bundle_ok b' \<and>
      bp_primary b' = bp_primary (sample_bundle [7]) \<and>
      filter (\<lambda>y. b_type y = b_type ?x) (bp_blocks b') = [?x\<lparr>b_number := put_number (sample_bundle [7]) (b_type ?x)\<rparr>] \<and>
      filter (\<lambda>y. b_type y \<noteq> b_type ?x) (bp_blocks b') =
        filter (\<lambda>y. b_type y \<noteq> b_type ?x) (bp_blocks (sample_bundle [7]))"
    by (intro putBlock_keeps_bundle sample_bundle_ok) (simp_all add: PAYLOAD_def)
  then show ?thesis by blast
qed

text \<open>
  A block with an unassigned CRC type, such as 3, and an empty byte string in the CRC field
  passes the check whatever its bytes are: the receiver accepts it without any integrity check.
\<close>
theorem unknown_crc_type_unchecked:
  "decode_block (VArr [ty, num, fl, VNum 3, VBytes d, VBytes []], raw) =
     Inr \<lparr>b_type = ty, b_number = num, b_flags = fl, b_crcType = VNum 3, b_data = d\<rparr>"
  by (simp add: decode_block_def elem_def checkCrc_def crcLen_def crcBytes_def crc_types zeros_def)

end
