(* ===== verification/CustodyBlock.thy ===== *)
theory CustodyBlock
  imports FlatRecord Bundle
begin

text \<open>
  transport/bpv7/custody-block.mjs: custody receipts carried inside the bundle, in an extension block
  of type 224 whose data is a CBOR array of canonical JSON texts. A relay decodes the bundle, appends
  its own receipt and re-encodes; the destination checks the chain against its pinned hops, for the
  bundle id it derives from the payload itself.

  The main theorem is end to end: a bundle that passes through the relays of the pinned route, each
  running \<open>stampBundle\<close> on raw bytes, is accepted by \<open>verifyBundleCustody\<close>.
\<close>

section \<open>Definitions\<close>

definition CUSTODY_BLOCK_TYPE :: jsval where
  "CUSTODY_BLOCK_TYPE = VNum 224"

fun as_strings :: "jsval list \<Rightarrow> string list option" where
  "as_strings [] = Some []"
| "as_strings (VStr s # vs) = map_option ((#) s) (as_strings vs)"
| "as_strings (_ # vs) = None"

definition readCustody :: "bpv7 \<Rightarrow> jsval list res" where
  "readCustody b =
     (case filter (\<lambda>x. strict_eq (b_type x) CUSTODY_BLOCK_TYPE) (bp_blocks b) of
        [] \<Rightarrow> Inr []
      | [x] \<Rightarrow> rbind (decode (b_data x)) (\<lambda>v.
          case v of
            VArr vs \<Rightarrow> (case as_strings vs of
                Some ss \<Rightarrow> rmapM json_parse ss
              | None \<Rightarrow> Inl ''custody block malformed'')
          | _ \<Rightarrow> Inl ''custody block malformed'')
      | _ \<Rightarrow> Inl ''custody block malformed: more than one in the bundle'')"

text \<open>\<open>canonicalize\<close> of a receipt as CBOR text; \<open>undefined\<close> has no CBOR form.\<close>

definition receipt_text :: "jsval \<Rightarrow> jsval res" where
  "receipt_text r = rbind (canonicalize r) (\<lambda>t. Inr (case t of Some s \<Rightarrow> VStr s | None \<Rightarrow> VUndef))"

definition withCustody :: "bpv7 \<Rightarrow> jsval list \<Rightarrow> (bpv7 option) res" where
  "withCustody b receipts = rbind (rmapM receipt_text receipts) (\<lambda>ts. rbind (encode (VArr ts)) (\<lambda>data.
     Inr (putBlock b \<lparr>b_type = CUSTODY_BLOCK_TYPE, b_number = VUndef, b_flags = REPLICATE_IN_FRAGMENTS,
       b_crcType = CRC32C, b_data = data\<rparr>)))"

text \<open>\<open>v.k\<close>, where \<open>null\<close> has no properties.\<close>

definition get_prop :: "jsval \<Rightarrow> string \<Rightarrow> jsval res" where
  "get_prop v k = (if v = VNull \<or> v = VUndef then Inl ''Cannot read properties'' else Inr (field v k))"

text \<open>The payload id and the bundle id of the chunk that the payload carries.\<close>

definition chunkOf :: "crypto \<Rightarrow> bpv7 \<Rightarrow> (jsval \<times> string) res" where
  "chunkOf C b = rbind (payloadOf b) (\<lambda>p. rbind (json_parse (utf8_text p)) (\<lambda>body.
     rbind (get_prop body ''payloadId'') (\<lambda>pid. rbind (contentId C (VObj [(''payloadId'', pid),
       (''index'', field body ''index''), (''leafHex'', field body ''leafHex'')])) (\<lambda>i. Inr (pid, i)))))"

definition previousNode :: "bpv7 \<Rightarrow> jsval res" where
  "previousNode b =
     (case find (\<lambda>x. strict_eq (b_type x) PREVIOUS_NODE) (bp_blocks b) of
        None \<Rightarrow> Inr VNull
      | Some x \<Rightarrow> rbind (decode (b_data x)) (\<lambda>v. rbind (decodeEid v) (\<lambda>e. Inr (VStr e))))"

definition prev_hop :: "bpv7 \<Rightarrow> jsval \<Rightarrow> jsval res" where
  "prev_hop b prevHop = (if prevHop = VUndef \<or> prevHop = VNull then previousNode b else Inr prevHop)"

record relay =
  r_kp :: keypair
  r_eid :: string

definition stampBundle :: "crypto \<Rightarrow> bytes \<Rightarrow> relay \<Rightarrow> jsval \<Rightarrow> jsval \<Rightarrow> jsval \<Rightarrow> bytes res" where
  "stampBundle C bytes relay prevHop receivedAt forwardedAt =
     rbind (decodeBundle bytes) (\<lambda>b. rbind (readCustody b) (\<lambda>receipts.
     rbind (case receipts of
         r # _ \<Rightarrow> rbind (get_prop r ''payloadId'') (\<lambda>p. Inr (p, field r ''bundleId''))
       | [] \<Rightarrow> rbind (chunkOf C b) (\<lambda>(p, i). Inr (p, VStr i))) (\<lambda>(pid, bid).
     rbind (prev_hop b prevHop) (\<lambda>prev.
       if \<not> truthy prev then Inl ''previous hop unknown: no Previous Node block and none supplied''
       else rbind (custodyReceipt C (r_kp relay) pid bid prev (r_eid relay) receivedAt forwardedAt) (\<lambda>r.
         rbind (withCustody b (receipts @ [r])) (\<lambda>b'.
           case b' of Some b' \<Rightarrow> encodeBundle b' | None \<Rightarrow> Inl ''Cannot read properties of undefined''))))))"

text \<open>The verdict, and the bundle id where one was derived.\<close>

definition chain_subject :: "crypto \<Rightarrow> bytes \<Rightarrow> (string + bpv7 \<times> string \<times> jsval list)" where
  "chain_subject C bytes =
     (case decodeBundle bytes of
        Inl e \<Rightarrow> Inl ''bundle_malformed''
      | Inr b \<Rightarrow> (case chunkOf C b of
          Inl e \<Rightarrow> Inl ''payload_not_a_chunk''
        | Inr (pid, i) \<Rightarrow> (case readCustody b of
            Inl e \<Rightarrow> Inl ''custody_block_malformed''
          | Inr [] \<Rightarrow> Inl ''no_custody_block''
          | Inr receipts \<Rightarrow> Inr (b, i, receipts))))"

definition verifyBundleCustody :: "crypto \<Rightarrow> bytes \<Rightarrow> hop list \<Rightarrow> (nat chain_verdict \<times> string option) res" where
  "verifyBundleCustody C bytes hops =
     (case chain_subject C bytes of
        Inl reason \<Rightarrow> Inr (ChainBad reason None, None)
      | Inr (b, i, receipts) \<Rightarrow> rbind (verifyCustodyChain C receipts i hops) (\<lambda>v. Inr (v, Some i)))"

definition auditBundleCustody ::
    "crypto \<Rightarrow> bytes \<Rightarrow> (string \<times> string) list \<Rightarrow> jsval \<Rightarrow> jsval \<Rightarrow> (audit chain_verdict \<times> string option) res" where
  "auditBundleCustody C bytes keys origin lastNode =
     (case chain_subject C bytes of
        Inl reason \<Rightarrow> Inr (ChainBad reason None, None)
      | Inr (b, i, receipts) \<Rightarrow>
          rbind (if lastNode \<noteq> VUndef then Inr lastNode else previousNode b) (\<lambda>last.
          rbind (auditCustodyChain C receipts i keys origin last) (\<lambda>v. Inr (v, Some i))))"

section \<open>A bundle that carries receipts\<close>

abbreviation is_custody :: "block \<Rightarrow> bool" where
  "is_custody x \<equiv> b_type x = CUSTODY_BLOCK_TYPE"

definition texts :: "(string \<times> jsval) list list \<Rightarrow> jsval list" where
  "texts kvss = map (\<lambda>kvs. VStr (jtext (ordered kvs))) kvss"

text \<open>\<open>b\<close> is \<open>b0\<close> with the items \<open>vs\<close> in its custody block.\<close>

definition holds :: "bpv7 \<Rightarrow> bpv7 \<Rightarrow> jsval list \<Rightarrow> bool" where
  "holds b0 b vs \<longleftrightarrow> bundle_ok b \<and> bp_primary b = bp_primary b0 \<and>
     filter (\<lambda>x. \<not> is_custody x) (bp_blocks b) = filter (\<lambda>x. \<not> is_custody x) (bp_blocks b0) \<and>
     (if vs = [] then filter is_custody (bp_blocks b) = []
      else \<exists>x. filter is_custody (bp_blocks b) = [x] \<and> b_data x = cbor_bytes (VArr vs))"

text \<open>\<open>b\<close> is \<open>b0\<close> with the receipts \<open>kvss\<close> in its custody block.\<close>

definition carries :: "bpv7 \<Rightarrow> bpv7 \<Rightarrow> (string \<times> jsval) list list \<Rightarrow> bool" where
  "carries b0 b kvss \<longleftrightarrow> holds b0 b (texts kvss)"

lemma carries_iff: "carries b0 b kvss \<longleftrightarrow> bundle_ok b \<and> bp_primary b = bp_primary b0 \<and>
     filter (\<lambda>x. \<not> is_custody x) (bp_blocks b) = filter (\<lambda>x. \<not> is_custody x) (bp_blocks b0) \<and>
     (if kvss = [] then filter is_custody (bp_blocks b) = []
      else \<exists>x. filter is_custody (bp_blocks b) = [x] \<and> b_data x = cbor_bytes (VArr (texts kvss)))"
  by (simp add: carries_def holds_def texts_def)

definition receipts_fit :: "(string \<times> jsval) list list \<Rightarrow> bool" where
  "receipts_fit kvss \<longleftrightarrow> length kvss < 2 ^ 10 \<and>
     list_all (\<lambda>kvs. record_ok kvs \<and> length (jtext (ordered kvs)) < 2 ^ 40) kvss"

lemma strict_custody [simp]: "strict_eq v CUSTODY_BLOCK_TYPE \<longleftrightarrow> v = CUSTODY_BLOCK_TYPE"
    "strict_eq v PREVIOUS_NODE \<longleftrightarrow> v = PREVIOUS_NODE"
  by (auto simp: CUSTODY_BLOCK_TYPE_def PREVIOUS_NODE_def)

lemma length_head_le: "length (head_bytes major n) \<le> 9"
  by (simp add: length_head_bytes)

lemma texts_ok:
  assumes "receipts_fit kvss"
  shows "cbor_ok max_levels (VArr (texts kvss))" "int (length (cbor_bytes (VArr (texts kvss)))) \<le> MAX_SAFE_INTEGER"
proof -
  have ok: "list_all (cbor_ok 32) (texts kvss)"
    using assms text_ok_ordered by (auto simp: receipts_fit_def texts_def list_all_iff cbor_ok_numeral)
  have "max_levels = Suc 32" by simp
  with ok assms show "cbor_ok max_levels (VArr (texts kvss))"
    by (simp only: cbor_ok.simps) (simp add: receipts_fit_def texts_def)
  have "length (cbor_bytes t) \<le> 9 + 2 ^ 40" if t: "t \<in> set (texts kvss)" for t
  proof -
    obtain s where s: "t = VStr s" "length s < 2 ^ 40"
      using t assms by (auto simp: texts_def receipts_fit_def list_all_iff)
    then have "length (cbor_bytes t) = length (head_bytes 3 (length s)) + length s"
      by (simp only: cbor_bytes_scalars length_append length_utf8)
    with s(2) length_head_le [of 3 "length s"] show ?thesis by linarith
  qed
  then have "sum_list (map (length \<circ> cbor_bytes) (texts kvss)) \<le> sum_list (map (\<lambda>_. 9 + 2 ^ 40) (texts kvss))"
    by (intro sum_list_mono) simp
  also have "\<dots> = length kvss * (9 + 2 ^ 40)" by (simp add: texts_def sum_list_triv comp_def)
  also have "\<dots> \<le> 2 ^ 10 * (9 + 2 ^ 40)" using assms by (intro mult_right_mono) (simp_all add: receipts_fit_def)
  finally have "length (concat (map cbor_bytes (texts kvss))) \<le> 2 ^ 10 * (9 + 2 ^ 40)"
    by (simp add: length_concat comp_def)
  with length_head_le [of 4 "length (texts kvss)"] show "int (length (cbor_bytes (VArr (texts kvss)))) \<le> MAX_SAFE_INTEGER"
    unfolding cbor_bytes_arrays(1) [OF ok] by simp
qed

lemma as_strings_texts: "as_strings (texts kvss) = Some (map (jtext \<circ> ordered) kvss)"
  by (induction kvss) (simp_all add: texts_def)

lemma readCustody_carries:
  assumes "carries b0 b kvss" "receipts_fit kvss"
  shows "readCustody b = Inr (map ordered kvss)"
proof (cases "kvss = []")
  case True
  then show ?thesis using assms(1) by (simp add: carries_iff readCustody_def)
next
  case False
  then obtain x where x: "filter is_custody (bp_blocks b) = [x]" "b_data x = cbor_bytes (VArr (texts kvss))"
    using assms(1) by (auto simp: carries_iff)
  have "rmapM json_parse (map (jtext \<circ> ordered) kvss) = Inr (map ordered kvss)"
    using assms(2) by (induction kvss) (simp_all add: receipts_fit_def parse_record)
  then show ?thesis
    using x decode_cbor_bytes [OF texts_ok(1) [OF assms(2)]] by (simp add: readCustody_def as_strings_texts)
qed

lemma find_filter: "(\<And>x. P x \<Longrightarrow> Q x) \<Longrightarrow> find P (filter Q xs) = find P xs"
  by (induction xs) auto

lemma holds_find:
  assumes "holds b0 b vs" "\<And>x. P x \<Longrightarrow> \<not> is_custody x"
  shows "find P (bp_blocks b) = find P (bp_blocks b0)"
proof -
  have "find P (filter (\<lambda>x. \<not> is_custody x) xs) = find P xs" for xs by (rule find_filter [OF assms(2)])
  from this [of "bp_blocks b"] this [of "bp_blocks b0"] assms(1) show ?thesis by (simp add: holds_def)
qed

lemma payload_holds: "holds b0 b vs \<Longrightarrow> payloadOf b = payloadOf b0"
  unfolding payloadOf_def by (subst holds_find) (simp_all add: PAYLOAD_def CUSTODY_BLOCK_TYPE_def)

lemma chunk_carries: "carries b0 b kvss \<Longrightarrow> chunkOf C b = chunkOf C b0"
  unfolding carries_def by (simp add: chunkOf_def payload_holds)

lemma holds_length: "holds b0 b vs \<Longrightarrow> length (bp_blocks b) \<le> Suc (length (bp_blocks b0))"
proof -
  assume *: "holds b0 b vs"
  have "length (filter is_custody (bp_blocks b)) \<le> 1" using * by (auto simp: holds_def split: if_splits)
  moreover have "length (filter (\<lambda>x. \<not> is_custody x) (bp_blocks b)) \<le> length (bp_blocks b0)"
    using * by (simp add: holds_def)
  ultimately show ?thesis using sum_length_filter_compl [of is_custody "bp_blocks b"] by simp
qed

text \<open>Storing a new list of items in the block.\<close>

definition custody_block :: "bytes \<Rightarrow> block" where
  "custody_block data = \<lparr>b_type = CUSTODY_BLOCK_TYPE, b_number = VUndef, b_flags = REPLICATE_IN_FRAGMENTS,
     b_crcType = CRC32C, b_data = data\<rparr>"

lemma holds_put:
  assumes h: "holds b0 b vs" and few: "length (bp_blocks b0) < 2 ^ 31" and ne: "vs' \<noteq> []"
    and size: "int (length (cbor_bytes (VArr vs'))) \<le> MAX_SAFE_INTEGER"
  shows "\<exists>b'. putBlock b (custody_block (cbor_bytes (VArr vs'))) = Some b' \<and> holds b0 b' vs'"
proof -
  let ?x = "custody_block (cbor_bytes (VArr vs'))"
  have "content_ok ?x" using size
    by (simp add: content_ok_def custody_block_def crc_type_ok_def CUSTODY_BLOCK_TYPE_def REPLICATE_IN_FRAGMENTS_def
        cbor_ok_numeral)
  moreover have "length (bp_blocks b) < 2 ^ 32" using holds_length [OF h] few by simp
  moreover have "bundle_ok b" using h by (simp add: holds_def)
  ultimately obtain b' where b': "putBlock b ?x = Some b'" "bundle_ok b'" "bp_primary b' = bp_primary b"
      "filter (\<lambda>y. b_type y = b_type ?x) (bp_blocks b') = [?x\<lparr>b_number := put_number b (b_type ?x)\<rparr>]"
      "filter (\<lambda>y. b_type y \<noteq> b_type ?x) (bp_blocks b') = filter (\<lambda>y. b_type y \<noteq> b_type ?x) (bp_blocks b)"
    using putBlock_ok [of b ?x] by (auto simp: custody_block_def CUSTODY_BLOCK_TYPE_def PAYLOAD_def)
  then show ?thesis using h ne by (auto simp: holds_def custody_block_def)
qed

lemma receipt_texts:
  "list_all record_ok kvss \<Longrightarrow> rmapM receipt_text (map ordered kvss) = Inr (texts kvss)"
  by (induction kvss) (simp_all add: texts_def receipt_text_def canonicalize_ordered canonicalize_record)

lemma withCustody_carries:
  assumes c: "carries b0 b kvss" and fit: "receipts_fit (kvss @ [kvs])" and few: "length (bp_blocks b0) < 2 ^ 31"
  shows "\<exists>b'. withCustody b (map ordered kvss @ [VObj kvs]) = Inr (Some b') \<and> carries b0 b' (kvss @ [kvs])"
proof -
  define data where "data = cbor_bytes (VArr (texts (kvss @ [kvs])))"
  have rec: "list_all record_ok kvss" "record_ok kvs" using fit by (auto simp: receipts_fit_def list_all_iff)
  have "rmapM receipt_text (map ordered kvss @ [VObj kvs]) = Inr (texts (kvss @ [kvs]))"
  proof -
    have app: "rmapM f (xs @ [y]) = rbind (rmapM f xs) (\<lambda>us. rbind (f y) (\<lambda>v. Inr (us @ [v])))"
      for f :: "jsval \<Rightarrow> jsval res" and xs y
    proof (induction xs)
      case Nil
      show ?case by (cases "f y") simp_all
    next
      case (Cons x xs)
      show ?case
      proof (cases "f x")
        case (Inr a)
        show ?thesis
        proof (cases "rmapM f xs")
          case (Inr b)
          with \<open>f x = Inr a\<close> Cons show ?thesis by (cases "f y") simp_all
        qed (simp add: \<open>f x = Inr a\<close> Cons)
      qed simp
    qed
    show ?thesis unfolding app receipt_texts [OF rec(1)]
      using rec(2) by (simp add: texts_def receipt_text_def canonicalize_record)
  qed
  moreover have "encode (VArr (texts (kvss @ [kvs]))) = Inr data"
    unfolding data_def by (rule encode_bytes [OF texts_ok(1) [OF fit]])
  ultimately have wc: "withCustody b (map ordered kvss @ [VObj kvs]) = Inr (putBlock b (custody_block data))"
    by (simp only: withCustody_def rbind_simps custody_block_def)
  have "texts (kvss @ [kvs]) \<noteq> []" by (simp add: texts_def)
  from holds_put [OF c [unfolded carries_def] few this texts_ok(2) [OF fit]] show ?thesis
    unfolding wc carries_def data_def by auto
qed

section \<open>One relay\<close>

text \<open>A receipt over this payload and bundle, as it sits in the block.\<close>

definition receipt_for :: "jsval \<Rightarrow> string \<Rightarrow> (string \<times> jsval) list \<Rightarrow> bool" where
  "receipt_for pid bid kvs \<longleftrightarrow> field (ordered kvs) ''payloadId'' = pid \<and> field (ordered kvs) ''bundleId'' = VStr bid"

lemma custodyReceipt_fields:
  assumes "custodyReceipt C kp pid (VStr bid) prev e at fw = Inr (VObj kvs)" "record_ok kvs"
  shows "receipt_for pid bid kvs" "field (ordered kvs) ''thisHop'' = VStr e" "field (ordered kvs) ''prevHop'' = prev"
proof -
  note sr = assms(1) [unfolded custodyReceipt_def custody_content_def]
  have f: "field (ordered kvs) k = field (VObj [(''kind'', VStr ''custody/1''), (''payloadId'', pid), (''bundleId'', VStr bid),
           (''prevHop'', prev), (''thisHop'', VStr e), (''receivedAt'', at), (''forwardedAt'', fw)]) k"
    if "k \<notin> set credential_fields" "k \<noteq> proto_key" for k
    using field_ordered [OF assms(2) that(2)] signRecord_field(1) [OF sr that(1)] by simp
  show "receipt_for pid bid kvs" "field (ordered kvs) ''thisHop'' = VStr e" "field (ordered kvs) ''prevHop'' = prev"
    using f [of "''payloadId''"] f [of "''bundleId''"] f [of "''thisHop''"] f [of "''prevHop''"]
    by (simp_all add: receipt_for_def credential_fields_def proto_key_def)
qed

lemma stampBundle_carries:
  assumes dec: "decodeBundle bytes = Inr b" and c: "carries b0 b kvss" and few: "length (bp_blocks b0) < 2 ^ 31"
    and chunk: "chunkOf C b0 = Inr (pid, bid)" and ids: "list_all (receipt_for pid bid) kvss"
    and prev: "prev \<noteq> VNull" "prev \<noteq> VUndef" "truthy prev"
    and r: "custodyReceipt C (r_kp rl) pid (VStr bid) prev (r_eid rl) at fw = Inr (VObj kvs)"
    and fit: "receipts_fit (kvss @ [kvs])"
  shows "\<exists>bytes' b'. stampBundle C bytes rl prev at fw = Inr bytes' \<and> decodeBundle bytes' = Inr b' \<and>
    carries b0 b' (kvss @ [kvs])"
proof -
  have fit0: "receipts_fit kvss" using fit by (simp add: receipts_fit_def)
  have ids0: "(case map ordered kvss of
         r # _ \<Rightarrow> rbind (get_prop r ''payloadId'') (\<lambda>p. Inr (p, field r ''bundleId''))
       | [] \<Rightarrow> rbind (chunkOf C b) (\<lambda>(p, i). Inr (p, VStr i))) = Inr (pid, VStr bid)"
  proof (cases kvss)
    case Nil
    then show ?thesis using chunk_carries [OF c] chunk by simp
  next
    case (Cons k ks)
    then have "receipt_for pid bid k" using ids by simp
    then show ?thesis using Cons by (simp add: receipt_for_def get_prop_def ordered_def)
  qed
  obtain b' where b': "withCustody b (map ordered kvss @ [VObj kvs]) = Inr (Some b')" "carries b0 b' (kvss @ [kvs])"
    using withCustody_carries [OF c fit few] by blast
  then have "bundle_ok b'" by (simp add: carries_iff)
  then obtain bytes' where enc: "encodeBundle b' = Inr bytes'" "decodeBundle bytes' = Inr b'"
    using encodeBundle_decodeBundle by blast
  have "stampBundle C bytes rl prev at fw = Inr bytes'"
    using prev by (simp add: stampBundle_def dec readCustody_carries [OF c fit0] ids0 prev_hop_def r b'(1) enc(1))
  with enc(2) b'(2) show ?thesis by blast
qed

section \<open>The pinned route\<close>

type_synonym leg = "relay \<times> jsval \<times> jsval"

definition hop_of :: "leg \<Rightarrow> hop" where
  "hop_of l = \<lparr>eid = r_eid (fst l), hop_pub = pub (r_kp (fst l))\<rparr>"

text \<open>The bundle handed from relay to relay; each names the node it received the bundle from.\<close>

fun stamp_route :: "crypto \<Rightarrow> bytes \<Rightarrow> jsval \<Rightarrow> leg list \<Rightarrow> bytes res" where
  "stamp_route C bytes prev [] = Inr bytes"
| "stamp_route C bytes prev ((rl, at, fw) # ls) =
     rbind (stampBundle C bytes rl prev at fw) (\<lambda>bytes'. stamp_route C bytes' (VStr (r_eid rl)) ls)"

text \<open>Names and times of the route, and receipts of a size a text can have.\<close>

fun legs_ok :: "crypto \<Rightarrow> jsval \<Rightarrow> string \<Rightarrow> jsval \<Rightarrow> leg list \<Rightarrow> bool" where
  "legs_ok C pid bid prev [] = True"
| "legs_ok C pid bid prev ((rl, at, fw) # ls) =
     (keypair_ok C (r_kp rl) \<and> text_ok (r_eid rl) \<and> r_eid rl \<noteq> [] \<and> value_ok at \<and> value_ok fw \<and>
      (case custodyReceipt C (r_kp rl) pid (VStr bid) prev (r_eid rl) at fw of
         Inr (VObj kvs) \<Rightarrow> int (length (jtext (ordered kvs))) < 2 ^ 40 | _ \<Rightarrow> False) \<and>
      legs_ok C pid bid (VStr (r_eid rl)) ls)"

definition named :: "jsval \<Rightarrow> string option" where
  "named v = (case v of VStr s \<Rightarrow> Some s | _ \<Rightarrow> None)"

lemma linked_weaken: "linked p rhs \<Longrightarrow> linked None rhs"
  by (cases rhs) auto

lemma stamp_route_carries:
  assumes sig: "sig_correct C" and few: "length (bp_blocks b0) < 2 ^ 31"
    and chunk: "chunkOf C b0 = Inr (pid, bid)" and pid: "value_ok pid" and bid: "text_ok bid"
  shows "\<lbrakk>decodeBundle bytes = Inr b; carries b0 b kvss; receipts_fit kvss; list_all (receipt_for pid bid) kvss;
      value_ok prev; prev \<noteq> VNull; truthy prev; legs_ok C pid bid prev ls; length kvss + length ls < 2 ^ 10\<rbrakk>
    \<Longrightarrow> \<exists>bytes' b' new. stamp_route C bytes prev ls = Inr bytes' \<and> decodeBundle bytes' = Inr b' \<and>
      carries b0 b' (kvss @ new) \<and> receipts_fit (kvss @ new) \<and> length new = length ls \<and>
      (\<forall>(r, h) \<in> set (zip (map ordered new) (map hop_of ls)). receipt_at C bid h r) \<and>
      linked (named prev) (zip (map ordered new) (map hop_of ls))"
proof (induction ls arbitrary: bytes b kvss prev)
  case Nil
  then show ?case by (intro exI [of _ bytes] exI [of _ b] exI [of _ "[]"]) simp
next
  case (Cons l ls)
  obtain rl at fw where l: "l = (rl, at, fw)" by (cases l)
  have leg: "keypair_ok C (r_kp rl)" "text_ok (r_eid rl)" "r_eid rl \<noteq> []" "value_ok at" "value_ok fw"
      "legs_ok C pid bid (VStr (r_eid rl)) ls"
    using Cons.prems(8) by (simp_all add: l)
  have "text_ok (pub (r_kp rl))" using leg(1) by (simp add: keypair_ok_def text_ok_base64)
  moreover have "value_ok (VStr bid)" using bid by simp
  ultimately obtain kvs where kvs: "custodyReceipt C (r_kp rl) pid (VStr bid) prev (r_eid rl) at fw = Inr (VObj kvs)"
      "record_ok kvs"
    using custodyReceipt_record [of pid "VStr bid" prev "r_eid rl" at fw "r_kp rl" C] pid Cons.prems(5) leg by blast
  have "length (jtext (ordered kvs)) < 2 ^ 40" using Cons.prems(8) by (simp add: l kvs(1))
  then have fit: "receipts_fit (kvss @ [kvs])"
    using Cons.prems(3,9) kvs(2) by (simp add: receipts_fit_def)
  have undef: "prev \<noteq> VUndef" using Cons.prems(5) by auto
  obtain bytes1 b1 where one: "stampBundle C bytes rl prev at fw = Inr bytes1" "decodeBundle bytes1 = Inr b1"
      "carries b0 b1 (kvss @ [kvs])"
    using stampBundle_carries [OF Cons.prems(1,2) few chunk Cons.prems(4,6) undef Cons.prems(7) kvs(1) fit] by blast
  note f = custodyReceipt_fields [OF kvs]
  have "list_all (receipt_for pid bid) (kvss @ [kvs])" using Cons.prems(4) f(1) by simp
  moreover have "length (kvss @ [kvs]) + length ls < 2 ^ 10" using Cons.prems(9) by simp
  ultimately obtain bytes' b' new where new: "stamp_route C bytes1 (VStr (r_eid rl)) ls = Inr bytes'"
      "decodeBundle bytes' = Inr b'" "carries b0 b' ((kvss @ [kvs]) @ new)" "receipts_fit ((kvss @ [kvs]) @ new)"
      "length new = length ls"
      "\<forall>(r, h) \<in> set (zip (map ordered new) (map hop_of ls)). receipt_at C bid h r"
      "linked (named (VStr (r_eid rl))) (zip (map ordered new) (map hop_of ls))"
    using Cons.IH [OF one(2,3) fit _ _ _ _ leg(6)] leg(2,3) by auto
  have "verifyRecord C (ordered kvs) = Inr (Accept (VStr (pub (r_kp rl))))"
    unfolding verifyRecord_ordered [OF kvs(2)]
    using kvs(1) unfolding custodyReceipt_def custody_content_def by (rule verifyRecord_signRecord [OF sig leg(1)])
  then have "receipt_at C bid (hop_of l) (ordered kvs)"
    using f by (simp add: receipt_at_def receipt_for_def hop_of_def l)
  moreover have "linked (named prev) ((ordered kvs, hop_of l) # zip (map ordered new) (map hop_of ls))"
    using new(7) f(3) by (auto simp: hop_of_def l named_def split: jsval.splits)
  ultimately show ?case
    using new one(1) by (intro exI [of _ bytes'] exI [of _ b'] exI [of _ "kvs # new"]) (simp add: l)
qed

lemma chain_okI:
  assumes "rs \<noteq> []" "length rs = length hops" "\<forall>(r, h) \<in> set (zip rs hops). receipt_at C b h r" "linked None (zip rs hops)"
  shows "verifyCustodyChain C rs b hops = Inr (ChainOk (length hops))"
  using assms by (simp add: verifyCustodyChain_def chain_from_ok)

lemma route_accepted:
  assumes "sig_correct C" and ok: "decodeBundle bytes = Inr b0" "bundle_ok b0" "length (bp_blocks b0) < 2 ^ 31"
    and fresh: "filter is_custody (bp_blocks b0) = []"
    and chunk: "chunkOf C b0 = Inr (pid, bid)" "value_ok pid" "text_ok bid"
    and prev: "value_ok prev" "prev \<noteq> VNull" "truthy prev"
    and legs: "legs_ok C pid bid prev ls" "ls \<noteq> []" "length ls < 2 ^ 10"
  shows "\<exists>bytes'. stamp_route C bytes prev ls = Inr bytes' \<and>
    verifyBundleCustody C bytes' (map hop_of ls) = Inr (ChainOk (length ls), Some bid)"
proof -
  have start: "carries b0 b0 []" "receipts_fit []" using ok(2) fresh by (simp_all add: carries_iff receipts_fit_def)
  obtain bytes' b' new where new: "stamp_route C bytes prev ls = Inr bytes'"
      "decodeBundle bytes' = Inr b'" "carries b0 b' new" "receipts_fit new" "length new = length ls"
      "\<forall>(r, h) \<in> set (zip (map ordered new) (map hop_of ls)). receipt_at C bid h r"
      "linked (named prev) (zip (map ordered new) (map hop_of ls))"
    using stamp_route_carries [OF assms(1) ok(3) chunk ok(1) start _ prev legs(1)] legs(3) by auto
  have "new \<noteq> []" using new(5) legs(2) by auto
  then obtain x xs where x: "map ordered new = x # xs" by (cases new) auto
  have "verifyCustodyChain C (map ordered new) bid (map hop_of ls) = Inr (ChainOk (length (map hop_of ls)))"
    by (rule chain_okI) (use new \<open>new \<noteq> []\<close> linked_weaken in auto)
  moreover have "chain_subject C bytes' = Inr (b', bid, map ordered new)"
    using chunk_carries [OF new(3), of C] chunk(1) readCustody_carries [OF new(3,4)]
    by (simp add: chain_subject_def new(2) x)
  ultimately show ?thesis using new(1) by (simp add: verifyBundleCustody_def)
qed

section \<open>Properties\<close>

text \<open>
  Property C6. A bundle that starts without receipts and passes through the relays of the pinned route,
  each running \<open>stampBundle\<close> on the raw bytes it receives, is accepted by \<open>verifyBundleCustody\<close> for
  that route and for the bundle id its payload has: decoding, appending, re-encoding and CRCs at
  every hop keep the chain intact.
\<close>
theorem in_band_custody_accepted:
  assumes "sig_correct C" and "decodeBundle bytes = Inr b0" and "bundle_ok b0" and "length (bp_blocks b0) < 2 ^ 31"
    and "filter is_custody (bp_blocks b0) = []"
    and "chunkOf C b0 = Inr (pid, bid)" and "value_ok pid" and "text_ok bid"
    and "value_ok prev" and "prev \<noteq> VNull" and "truthy prev"
    and "legs_ok C pid bid prev ls" and "ls \<noteq> []" and "length ls < 2 ^ 10"
  shows "\<exists>bytes'. stamp_route C bytes prev ls = Inr bytes' \<and>
    verifyBundleCustody C bytes' (map hop_of ls) = Inr (ChainOk (length ls), Some bid)"
  by (rule route_accepted [OF assms])

definition sample_chunk :: bytes where
  "sample_chunk = utf8 (jtext (VObj [(''payloadId'', VStr ''p''), (''index'', VNum 0), (''leafHex'', VStr ''aa'')]))"

definition sample_legs :: "leg list" where
  "sample_legs = [(\<lparr>r_kp = toy_key ''k'', r_eid = ''dtn://x/''\<rparr>, VNum 1, VNum 2)]"

lemma toy_receipt_size:
  assumes "custodyReceipt toy (toy_key k) (VStr p) (VStr b) (VStr prev) e (VNum 1) (VNum 2) = Inr (VObj kvs)" "record_ok kvs"
    and "length k \<le> 100" "length p \<le> 100" "length b \<le> 100" "length prev \<le> 100" "length e \<le> 100"
  shows "length (jtext (ordered kvs)) < 2 ^ 30"
proof -
  have b64: "length (to_base64 bs) \<le> 4 * length bs + 4" for bs
  proof -
    have "length (b64_split ns) \<le> 4 * length ns" for ns by (induction ns rule: b64_split.induct) simp_all
    from this [of "map unat bs"] show ?thesis by (simp add: to_base64_def b64_pad_def)
  qed
  obtain i where i: "length i = 66" "kvs = set_field ''signerPub'' (VStr (pub (toy_key k)))
      (set_field ''sig'' (VStr (signClaim toy k (VStr i))) (set_field ''claimId'' (VStr i)
        [(''kind'', VStr ''custody/1''), (''payloadId'', VStr p), (''bundleId'', VStr b), (''prevHop'', VStr prev),
         (''thisHop'', VStr e), (''receivedAt'', VNum 1), (''forwardedAt'', VNum 2)]))"
    using assms(1) length_contentId [OF toy_hash32]
    by (auto simp: custodyReceipt_def custody_content_def signRecord_Inr toy_key_def)
  have "length (pub (toy_key k)) \<le> 500" using b64 [of "0 # utf8 k"] assms(3) by (simp add: toy_key_def)
  moreover have "length (signClaim toy k (VStr i)) \<le> 1000"
    using b64 [of "0 # utf8 k @ utf8 i"] assms(3) i(1) by (simp add: signClaim_def toy_def)
  ultimately have "record_size kvs < 2 ^ 30"
    using assms i(1) by (simp add: i(2) set_field_def record_size_def show_int_def show_nat_small)
  with length_ordered [OF assms(2)] show ?thesis by simp
qed

lemma sample_route:
  obtains bid where "chunkOf toy (sample_from prev sample_chunk) = Inr (VStr ''p'', bid)" "text_ok bid"
    "legs_ok toy (VStr ''p'') bid (VStr ''dtn://src/'') sample_legs" "int (length sample_chunk) \<le> MAX_SAFE_INTEGER"
proof -
  let ?kvs = "[(''payloadId'', VStr ''p''), (''index'', VNum 0), (''leafHex'', VStr ''aa'')]"
  have rec: "record_ok ?kvs" by (simp add: record_ok_def proto_key_def text_ok_ascii)
  have flat: "flat ?kvs" by (simp add: flat_def)
  from contentId_flat [OF flat] obtain bid where bid: "contentId toy (VObj ?kvs) = Inr bid" by blast
  then have len: "length bid = 66" by (rule length_contentId [OF toy_hash32])
  have tbid: "text_ok bid" using bid by (auto simp: contentId_Inr text_ok_Cons text_ok_hex)
  have "utf8_text sample_chunk = jtext (VObj ?kvs)"
    unfolding sample_chunk_def by (rule utf8_text_utf8 [OF text_ok_jtext [OF rec]])
  then have "json_parse (utf8_text sample_chunk) = Inr (VObj ?kvs)"
    using json_parse_jtext [OF record_ok_json [OF rec]] by simp
  moreover have "payloadOf (sample_from prev sample_chunk) = Inr sample_chunk"
    by (simp add: payloadOf_def sample_from_def PREVIOUS_NODE_def PAYLOAD_def)
  ultimately have chunk: "chunkOf toy (sample_from prev sample_chunk) = Inr (VStr ''p'', bid)"
    using bid by (simp add: chunkOf_def get_prop_def)
  have e: "text_ok ''dtn://x/''" "text_ok ''dtn://src/''" "text_ok ''p''" by (simp_all add: text_ok_ascii)
  then obtain kvs where kvs: "custodyReceipt toy (toy_key ''k'') (VStr ''p'') (VStr bid) (VStr ''dtn://src/'') ''dtn://x/''
      (VNum 1) (VNum 2) = Inr (VObj kvs)" "record_ok kvs"
    using custodyReceipt_record [of "VStr ''p''" "VStr bid" "VStr ''dtn://src/''" "''dtn://x/''" "VNum 1" "VNum 2" "toy_key ''k''" toy]
      tbid by (auto simp: toy_key_def text_ok_base64)
  have "length (jtext (ordered kvs)) < 2 ^ 30"
    by (rule toy_receipt_size [OF kvs]) (simp_all add: len)
  then have "legs_ok toy (VStr ''p'') bid (VStr ''dtn://src/'') sample_legs"
    using e kvs(1) by (simp add: sample_legs_def)
  moreover have "int (length sample_chunk) \<le> MAX_SAFE_INTEGER"
  proof -
    have "length sample_chunk \<le> record_size ?kvs" using length_record [of ?kvs] by (simp add: sample_chunk_def)
    also have "\<dots> \<le> 1000" by (simp add: record_size_def show_int_def show_nat_small)
    finally show ?thesis by simp
  qed
  ultimately show thesis using that chunk tbid by blast
qed

lemma in_band_custody_accepted_witness:
  "\<exists>bytes bytes' bid. encodeBundle (sample_bundle sample_chunk) = Inr bytes \<and>
     stamp_route toy bytes (VStr ''dtn://src/'') sample_legs = Inr bytes' \<and>
     verifyBundleCustody toy bytes' [\<lparr>eid = ''dtn://x/'', hop_pub = pub (toy_key ''k'')\<rparr>] = Inr (ChainOk 1, Some bid)"
proof -
  obtain bid where bid: "chunkOf toy (sample_bundle sample_chunk) = Inr (VStr ''p'', bid)" "text_ok bid"
    "legs_ok toy (VStr ''p'') bid (VStr ''dtn://src/'') sample_legs" "int (length sample_chunk) \<le> MAX_SAFE_INTEGER"
    by (rule sample_route)
  have ok: "bundle_ok (sample_bundle sample_chunk)" by (rule sample_bundle_ok [OF _ bid(4)]) simp
  obtain bytes where bytes: "encodeBundle (sample_bundle sample_chunk) = Inr bytes"
      "decodeBundle bytes = Inr (sample_bundle sample_chunk)"
    using encodeBundle_decodeBundle [OF ok] by blast
  have "length (bp_blocks (sample_bundle sample_chunk)) < 2 ^ 31"
      "filter is_custody (bp_blocks (sample_bundle sample_chunk)) = []" "value_ok (VStr ''p'')"
      "value_ok (VStr ''dtn://src/'')" "VStr ''dtn://src/'' \<noteq> VNull" "truthy (VStr ''dtn://src/'')"
      "sample_legs \<noteq> []" "length sample_legs < 2 ^ 10"
    by (simp_all add: sample_from_def sample_legs_def CUSTODY_BLOCK_TYPE_def PREVIOUS_NODE_def PAYLOAD_def text_ok_ascii)
  from in_band_custody_accepted [OF toy_sig_correct bytes(2) ok this(1,2) bid(1) this(3) bid(2) this(4-6) bid(3) this(7,8)]
  show ?thesis using bytes(1) by (auto simp: sample_legs_def hop_of_def)
qed

text \<open>The bundle after the sample route, with the given data in its Previous Node block.\<close>

lemma sample_stamped:
  assumes "length prev < 100"
  obtains bytes b bid r rs where "decodeBundle bytes = Inr b" "chain_subject toy bytes = Inr (b, bid, r # rs)"
    "verifyBundleCustody toy bytes (map hop_of sample_legs) = Inr (ChainOk 1, Some bid)"
    "previousNode b = previousNode (sample_from prev sample_chunk)"
proof -
  let ?b0 = "sample_from prev sample_chunk"
  obtain bid where bid: "chunkOf toy ?b0 = Inr (VStr ''p'', bid)" "text_ok bid"
    "legs_ok toy (VStr ''p'') bid (VStr ''dtn://src/'') sample_legs" "int (length sample_chunk) \<le> MAX_SAFE_INTEGER"
    by (rule sample_route)
  have ok: "bundle_ok ?b0" by (rule sample_bundle_ok [OF assms bid(4)])
  obtain bytes where bytes: "encodeBundle ?b0 = Inr bytes" "decodeBundle bytes = Inr ?b0"
    using encodeBundle_decodeBundle [OF ok] by blast
  have props: "length (bp_blocks ?b0) < 2 ^ 31" "filter is_custody (bp_blocks ?b0) = []" "value_ok (VStr ''p'')"
      "value_ok (VStr ''dtn://src/'')" "VStr ''dtn://src/'' \<noteq> VNull" "truthy (VStr ''dtn://src/'')"
    by (simp_all add: sample_from_def CUSTODY_BLOCK_TYPE_def PREVIOUS_NODE_def PAYLOAD_def text_ok_ascii)
  have start: "carries ?b0 ?b0 []" "receipts_fit []" using ok props(2) by (simp_all add: carries_iff receipts_fit_def)
  have few: "length [] + length sample_legs < 2 ^ 10" by (simp add: sample_legs_def)
  obtain bytes' b' new where new: "stamp_route toy bytes (VStr ''dtn://src/'') sample_legs = Inr bytes'"
      "decodeBundle bytes' = Inr b'" "carries ?b0 b' new" "receipts_fit new" "length new = length sample_legs"
      "\<forall>(r, h) \<in> set (zip (map ordered new) (map hop_of sample_legs)). receipt_at toy bid h r"
      "linked (named (VStr ''dtn://src/'')) (zip (map ordered new) (map hop_of sample_legs))"
    using stamp_route_carries [OF toy_sig_correct props(1) bid(1) props(3) bid(2) bytes(2) start _ props(4-6) bid(3) few]
    by auto
  have l1: "length sample_legs = 1" by (simp add: sample_legs_def)
  then obtain r where r: "map ordered new = [r]" using new(5) by (cases new) auto
  have cs: "chain_subject toy bytes' = Inr (b', bid, [r])"
    using chunk_carries [OF new(3), of toy] bid(1) readCustody_carries [OF new(3,4)]
    by (simp add: chain_subject_def new(2) r)
  have "verifyCustodyChain toy [r] bid (map hop_of sample_legs) = Inr (ChainOk (length (map hop_of sample_legs)))"
    by (rule chain_okI) (use new(6) linked_weaken [OF new(7)] l1 r in auto)
  then have v: "verifyBundleCustody toy bytes' (map hop_of sample_legs) = Inr (ChainOk 1, Some bid)"
    using cs l1 by (simp add: verifyBundleCustody_def)
  have "find (\<lambda>x. b_type x = PREVIOUS_NODE) (filter (\<lambda>x. \<not> is_custody x) xs) = find (\<lambda>x. b_type x = PREVIOUS_NODE) xs" for xs
    by (rule find_filter) (simp add: PREVIOUS_NODE_def CUSTODY_BLOCK_TYPE_def)
  from this [of "bp_blocks b'"] this [of "bp_blocks ?b0"] new(3)
  have "previousNode b' = previousNode ?b0" by (simp add: carries_iff previousNode_def)
  with that [OF new(2) cs v] show thesis by blast
qed

text \<open>
  What \<open>verifyBundleCustody\<close> accepts is a full custody chain for this bundle: the receipts in
  the block, one per pinned hop, each signed by that hop's key over the bundle id that the payload
  itself determines, and each naming the previous hop.
\<close>
theorem accepted_bundle_has_chain:
  assumes "verifyBundleCustody C bytes hops = Inr (ChainOk n, i)"
  shows "\<exists>b pid bid receipts. decodeBundle bytes = Inr b \<and> chunkOf C b = Inr (pid, bid) \<and> i = Some bid \<and>
    readCustody b = Inr receipts \<and> n = length hops \<and> custody_spec C bid hops receipts"
  using assms by (auto simp: verifyBundleCustody_def chain_subject_def verifyCustodyChain_iff split: sum.splits list.splits)

lemma accepted_bundle_has_chain_witness:
  "\<exists>bytes b pid bid receipts. decodeBundle bytes = Inr b \<and> chunkOf toy b = Inr (pid, bid) \<and>
     readCustody b = Inr receipts \<and> custody_spec toy bid (map hop_of sample_legs) receipts"
proof -
  obtain bytes bid where "verifyBundleCustody toy bytes (map hop_of sample_legs) = Inr (ChainOk 1, Some bid)"
    by (rule sample_stamped [of "[]"]) simp_all
  from accepted_bundle_has_chain [OF this] show ?thesis by blast
qed

text \<open>
  The audit reads the Previous Node block outside its error handling: a bundle whose receipts are
  all in order but whose Previous Node block does not decode makes \<open>auditBundleCustody\<close> throw instead
  of returning a verdict.
\<close>
theorem bad_previous_node_throws:
  assumes "chain_subject C bytes = Inr (b, i, rs)" and "previousNode b = Inl e"
  shows "auditBundleCustody C bytes keys origin VUndef = Inl e"
  using assms by (simp add: auditBundleCustody_def)

lemma bad_previous_node_throws_witness:
  "\<exists>bytes bid. verifyBundleCustody toy bytes (map hop_of sample_legs) = Inr (ChainOk 1, Some bid) \<and>
     auditBundleCustody toy bytes [] VNull VUndef = Inl ''bad EID''"
proof -
  have "decode [0] = Inr (VNum 0)" by code_simp
  then have bad: "previousNode (sample_from [0] sample_chunk) = Inl ''bad EID''"
    by (simp add: previousNode_def sample_from_def decodeEid_def)
  obtain bytes b bid r rs where *: "chain_subject toy bytes = Inr (b, bid, r # rs)"
    "verifyBundleCustody toy bytes (map hop_of sample_legs) = Inr (ChainOk 1, Some bid)"
    "previousNode b = previousNode (sample_from [0] sample_chunk)"
    by (rule sample_stamped [of "[0]"]) simp_all
  have "auditBundleCustody toy bytes [] VNull VUndef = Inl ''bad EID''"
    by (rule bad_previous_node_throws [OF *(1)]) (simp only: *(3) bad)
  with *(2) show ?thesis by blast
qed

end
