(* ===== verification/JsOps.thy ===== *)
theory JsOps
  imports JsValue
begin

text \<open>
  Operators on values of unknown type that the receipt and key code applies to decoded fields:
  subtraction, \<open><=\<close>, a bit of \<open>x & mask\<close>, \<open>Buffer.from(x)\<close>. NaN is \<open>VUndef\<close>; mixing a BigInt with a
  number in arithmetic throws.
\<close>

definition mixing_error :: string where
  "mixing_error = ''Cannot mix BigInt and other types''"

definition js_sub :: "jsval \<Rightarrow> jsval \<Rightarrow> jsval res" where
  "js_sub a b =
     (case (to_prim a, to_prim b) of
        (VBig m, VBig n) \<Rightarrow> Inr (VBig (m - n))
      | (VBig m, _) \<Rightarrow> Inl mixing_error
      | (_, VBig n) \<Rightarrow> Inl mixing_error
      | _ \<Rightarrow> Inr (case (js_Number a, js_Number b) of (Some m, Some n) \<Rightarrow> VNum (m - n) | _ \<Rightarrow> VUndef))"

definition js_le :: "jsval \<Rightarrow> jsval \<Rightarrow> bool" where
  "js_le a b =
     (case (to_prim a, to_prim b) of
        (VStr s, VStr t) \<Rightarrow> s \<le> t
      | _ \<Rightarrow> (case (js_Number a, js_Number b) of (Some m, Some n) \<Rightarrow> m \<le> n | _ \<Rightarrow> False))"

text \<open>\<open>v & 2^k\<close> as a condition.\<close>

definition js_bit :: "nat \<Rightarrow> jsval \<Rightarrow> bool res" where
  "js_bit k v =
     (case to_prim v of
        VBig _ \<Rightarrow> Inl mixing_error
      | _ \<Rightarrow> Inr (case js_Number v of None \<Rightarrow> False | Some n \<Rightarrow> odd (n div 2 ^ k)))"

definition buffer_of :: "jsval \<Rightarrow> bytes res" where
  "buffer_of v =
     (case v of
        VStr s \<Rightarrow> Inr (utf8 s)
      | _ \<Rightarrow> (case buffer_from_object v of Some bs \<Rightarrow> Inr bs | None \<Rightarrow> Inl ''ERR_INVALID_ARG_TYPE''))"

text \<open>\<open>xs.filter(p)\<close> for a predicate that may throw.\<close>

fun filterM :: "('a \<Rightarrow> bool res) \<Rightarrow> 'a list \<Rightarrow> 'a list res" where
  "filterM p [] = Inr []"
| "filterM p (x # xs) = rbind (p x) (\<lambda>b. rbind (filterM p xs) (\<lambda>ys. Inr (if b then x # ys else ys)))"

lemma js_sub_num [simp]: "js_sub (VNum m) (VNum n) = Inr (VNum (m - n))"
  by (simp add: js_sub_def to_prim_def)

lemma js_le_num [simp]: "js_le (VNum m) (VNum n) \<longleftrightarrow> m \<le> n"
  by (simp add: js_le_def to_prim_def)

lemma js_bit_num [simp]: "js_bit k (VNum n) = Inr (odd (n div 2 ^ k))"
  by (simp add: js_bit_def to_prim_def)

lemma buffer_of_bytes [simp]: "buffer_of (VBytes bs) = Inr bs"
  by (simp add: buffer_of_def buffer_from_object_def)

lemma filterM_Inr: "filterM p xs = Inr ys \<Longrightarrow> ys = filter (\<lambda>x. p x = Inr True) xs \<and> (\<forall>x \<in> set xs. \<exists>b. p x = Inr b)"
  by (induction xs arbitrary: ys) auto

lemma filterM_total: "(\<And>x. x \<in> set xs \<Longrightarrow> \<exists>b. p x = Inr b) \<Longrightarrow> filterM p xs = Inr (filter (\<lambda>x. p x = Inr True) xs)"
proof (induction xs)
  case (Cons x xs)
  then obtain b where "p x = Inr b" by auto
  with Cons show ?case by simp
qed simp

lemma filterM_throws: "x \<in> set xs \<Longrightarrow> p x = Inl e \<Longrightarrow> \<exists>e'. filterM p xs = Inl e'"
proof (induction xs)
  case (Cons y ys)
  show ?case
  proof (cases "p y")
    case (Inr b)
    with Cons.prems have "x \<in> set ys" by auto
    with Cons obtain e' where "filterM p ys = Inl e'" by blast
    with Inr show ?thesis by simp
  qed simp
qed simp

end
