(* ===== verification/Cose.thy ===== *)
theory Cose
  imports Receipt Bundle
begin

text \<open>
  transport/bpv7/cose.mjs: COSE_Sign1 with EdDSA. A signature covers the CBOR array
  \<open>["Signature1", protected, external_aad, payload]\<close>; the program builds it directly when the header is
  the usual one and there is no external data. The theory shows that the direct form is the
  generic one, that the array is determined by its three variable parts, and that a signed item
  verifies, attached or detached.

  A base64 public key is a \<open>jsval\<close>, because callers look it up with untrusted names: \<open>VUndef\<close> where
  nothing is pinned.
\<close>

section \<open>Definitions\<close>

definition ALG_EDDSA :: jsval where
  "ALG_EDDSA = VNum (- 8)"

definition PROTECTED :: bytes where
  "PROTECTED = cbor_bytes (VMap [(VNum 1, ALG_EDDSA)])"

definition bstr_bytes :: "bytes \<Rightarrow> bytes" where
  "bstr_bytes bs = head_bytes 2 (length bs) @ bs"

definition SIG1_PREFIX :: bytes where
  "SIG1_PREFIX = 0x84 # cbor_bytes (VStr ''Signature1'') @ bstr_bytes PROTECTED @ bstr_bytes []"

definition sig_structure :: "bytes \<Rightarrow> bytes \<Rightarrow> bytes \<Rightarrow> jsval" where
  "sig_structure prot payload aad = VArr [VStr ''Signature1'', VBytes prot, VBytes aad, VBytes payload]"

definition toBeSigned :: "bytes \<Rightarrow> bytes \<Rightarrow> bytes \<Rightarrow> bytes res" where
  "toBeSigned prot payload aad =
     (if aad = [] \<and> prot = PROTECTED then Inr (SIG1_PREFIX @ bstr_bytes payload)
      else encode (sig_structure prot payload aad))"

definition sign1 :: "crypto \<Rightarrow> string \<Rightarrow> bytes \<Rightarrow> bytes \<Rightarrow> bool \<Rightarrow> jsval res" where
  "sign1 C k payload aad detached = rbind (toBeSigned PROTECTED payload aad) (\<lambda>m.
     Inr (VArr [VBytes PROTECTED, VMap [], if detached then VNull else VBytes payload, VBytes (ed_sign C k m)]))"

definition SIGN1_HEAD :: bytes where
  "SIGN1_HEAD = 0x84 # bstr_bytes PROTECTED @ [0xA0]"

definition SIG_HEAD :: bytes where
  "SIG_HEAD = [0x58, 0x40]"

definition sign1Encoded :: "crypto \<Rightarrow> string \<Rightarrow> bytes \<Rightarrow> bytes res" where
  "sign1Encoded C k payload = rbind (toBeSigned PROTECTED payload []) (\<lambda>m.
     Inr (SIGN1_HEAD @ bstr_bytes payload @ SIG_HEAD @ ed_sign C k m))"

text \<open>\<open>Buffer.isBuffer\<close>.\<close>

fun is_bytes :: "jsval \<Rightarrow> bool" where
  "is_bytes (VBytes _) = True"
| "is_bytes _ = False"

text \<open>\<open>m.get(k)\<close> for a primitive key.\<close>

definition map_get :: "(jsval \<times> jsval) list \<Rightarrow> jsval \<Rightarrow> jsval" where
  "map_get m k = (case map_of m k of Some v \<Rightarrow> v | None \<Rightarrow> VUndef)"

definition check_sig :: "crypto \<Rightarrow> jsval \<Rightarrow> bytes \<Rightarrow> bytes \<Rightarrow> bytes \<Rightarrow> bytes \<Rightarrow> bool" where
  "check_sig C pubB64 prot payload aad sig =
     (case (buffer_from_base64 pubB64, toBeSigned prot payload aad) of
        (Some p, Inr m) \<Rightarrow> ed_verify C p m sig
      | _ \<Rightarrow> False)"

definition verify1 :: "crypto \<Rightarrow> jsval \<Rightarrow> jsval \<Rightarrow> bytes \<Rightarrow> bytes option \<Rightarrow> bytes verdict" where
  "verify1 C item pubB64 aad detachedPayload =
     (case item of
        VArr [VBytes prot, VMap unprot, carried, VBytes sig] \<Rightarrow>
          if carried \<noteq> VNull \<and> \<not> is_bytes carried then Refuse ''not_cose_sign1''
          else (case (case carried of VBytes p \<Rightarrow> Some p | _ \<Rightarrow> detachedPayload) of
              None \<Rightarrow> Refuse ''detached_payload_missing''
            | Some payload \<Rightarrow>
                (case decode prot of
                   Inl e \<Rightarrow> Refuse ''bad_protected_header''
                 | Inr headers \<Rightarrow>
                     if \<not> (case headers of VMap m \<Rightarrow> map_get m (VNum 1) = ALG_EDDSA | _ \<Rightarrow> False)
                       then Refuse ''unsupported_alg''
                     else if \<not> truthy pubB64 then Refuse ''custodian_not_pinned''
                     else if check_sig C pubB64 prot payload aad sig then Accept payload
                     else Refuse ''signature_invalid''))
      | _ \<Rightarrow> Refuse ''not_cose_sign1'')"

section \<open>The signed bytes\<close>

lemma bstr_bytes_cbor: "cbor_bytes (VBytes bs) = bstr_bytes bs"
  by (simp add: bstr_bytes_def cbor_bytes_scalars)

lemma encode_sig_structure: "encode (sig_structure prot payload aad) =
    Inr (0x84 # cbor_bytes (VStr ''Signature1'') @ bstr_bytes prot @ bstr_bytes aad @ bstr_bytes payload)"
  by (simp add: sig_structure_def bstr_bytes_def cbor_bytes_scalars) (simp add: head_bytes_def)

lemma toBeSigned_generic: "toBeSigned prot payload aad = encode (sig_structure prot payload aad)"
  by (simp add: toBeSigned_def encode_sig_structure SIG1_PREFIX_def del: encode.simps)

lemma toBeSigned_Inr: "toBeSigned prot payload aad =
    Inr (0x84 # cbor_bytes (VStr ''Signature1'') @ bstr_bytes prot @ bstr_bytes aad @ bstr_bytes payload)"
  by (simp only: toBeSigned_generic encode_sig_structure)

lemma bstr_prefix_free:
  assumes "bstr_bytes a @ r = bstr_bytes b @ s" "int (length a) \<le> MAX_SAFE_INTEGER" "int (length b) \<le> MAX_SAFE_INTEGER"
  shows "a = b \<and> r = s"
proof -
  have "cbor_ok max_levels (VBytes a)" "cbor_ok max_levels (VBytes b)"
    using assms(2,3) by (simp_all add: cbor_ok_numeral)
  from cbor.enc_prefix_free [OF this] assms(1) show ?thesis by (simp add: bstr_bytes_cbor)
qed

lemma toBeSigned_inj:
  assumes "toBeSigned prot payload aad = toBeSigned prot' payload' aad'"
    and "\<forall>x \<in> {prot, payload, aad, prot', payload', aad'}. int (length x) \<le> MAX_SAFE_INTEGER"
  shows "prot = prot' \<and> payload = payload' \<and> aad = aad'"
proof -
  have 1: "bstr_bytes prot @ bstr_bytes aad @ bstr_bytes payload = bstr_bytes prot' @ bstr_bytes aad' @ bstr_bytes payload'"
    using assms(1) by (simp add: toBeSigned_Inr)
  from bstr_prefix_free [OF 1] assms(2) have p: "prot = prot'"
    and 2: "bstr_bytes aad @ bstr_bytes payload = bstr_bytes aad' @ bstr_bytes payload'" by simp_all
  from bstr_prefix_free [OF 2] assms(2) have a: "aad = aad'"
    and 3: "bstr_bytes payload @ [] = bstr_bytes payload' @ []" by simp_all
  from bstr_prefix_free [OF 3] assms(2) show ?thesis using p a by simp
qed

lemma decode_PROTECTED: "decode PROTECTED = Inr (VMap [(VNum 1, ALG_EDDSA)])"
  unfolding PROTECTED_def by (rule decode_cbor_bytes) (simp add: ALG_EDDSA_def cbor_ok_numeral)

lemma verify1_sign1:
  assumes "sig_correct C" "sign1 C k payload aad detached = Inr item"
    and "detached \<Longrightarrow> held = Some payload"
  shows "verify1 C item (VStr (to_base64 (ed_pub C k))) aad held = Accept payload"
proof -
  have "to_base64 (ed_pub C k) \<noteq> []" using sig_correctD(2) [OF assms(1)] by (simp add: to_base64_eq_Nil)
  then show ?thesis using assms sig_correctD(1) [OF assms(1)]
    by (auto simp: sign1_def toBeSigned_Inr verify1_def decode_PROTECTED map_get_def check_sig_def buffer_from_base64_def)
qed

text \<open>What an accepted item is.\<close>

lemma verify1_Accept:
  "verify1 C item pubB64 aad held = Accept payload \<longleftrightarrow>
     (\<exists>prot unprot carried sig m.
        item = VArr [VBytes prot, VMap unprot, carried, VBytes sig] \<and>
        (carried = VBytes payload \<or> carried = VNull \<and> held = Some payload) \<and>
        decode prot = Inr (VMap m) \<and> map_get m (VNum 1) = ALG_EDDSA \<and>
        truthy pubB64 \<and> check_sig C pubB64 prot payload aad sig)"
  by (auto simp: verify1_def split: jsval.splits list.splits sum.splits option.splits if_splits)

text \<open>The one-pass encoder writes the encoding of the item, for 64-byte signatures.\<close>

lemma sign1Encoded_sign1:
  assumes "\<And>m. length (ed_sign C k m) = 64"
  shows "sign1Encoded C k payload = rbind (sign1 C k payload [] False) encode"
  by (simp add: sign1Encoded_def sign1_def toBeSigned_Inr SIGN1_HEAD_def SIG_HEAD_def bstr_bytes_def assms)
    (simp add: head_bytes_def)

section \<open>Properties\<close>

text \<open>
  A COSE_Sign1 made by \<open>sign1\<close>, with the payload inside or detached and with any external data,
  is accepted by \<open>verify1\<close> under the signer's public key with the same external data, and yields the
  payload.
\<close>
theorem cose_signature_verifies:
  assumes "sig_correct C" and "sign1 C k payload aad detached = Inr item" and "detached \<longrightarrow> held = Some payload"
  shows "verify1 C item (VStr (to_base64 (ed_pub C k))) aad held = Accept payload"
  using verify1_sign1 [OF assms(1,2)] assms(3) by blast

lemma cose_signature_verifies_witness:
  "\<exists>item. sign1 toy ''k'' [1, 2] [9] True = Inr item \<and>
     verify1 toy item (VStr (to_base64 (ed_pub toy ''k''))) [9] (Some [1, 2]) = Accept [1, 2]"
proof -
  obtain item where item: "sign1 toy ''k'' [1, 2] [9] True = Inr item" by (simp add: sign1_def toBeSigned_Inr)
  from cose_signature_verifies [OF toy_sig_correct this, of "Some [1, 2]"] item show ?thesis by blast
qed

text \<open>
  The signed bytes determine what is signed: the shortcut that starts from constant bytes
  writes the generic encoding, and two structures with the same bytes have the same header, payload
  and external data. So a signature can not be moved to another payload or another bundle.
\<close>
theorem signed_bytes_bind:
  assumes "int (length prot) \<le> MAX_SAFE_INTEGER" and "int (length payload) \<le> MAX_SAFE_INTEGER"
    and "int (length aad) \<le> MAX_SAFE_INTEGER" and "int (length prot') \<le> MAX_SAFE_INTEGER"
    and "int (length payload') \<le> MAX_SAFE_INTEGER" and "int (length aad') \<le> MAX_SAFE_INTEGER"
  shows "toBeSigned prot payload aad = encode (sig_structure prot payload aad) \<and>
    (toBeSigned prot payload aad = toBeSigned prot' payload' aad' \<longrightarrow>
       prot = prot' \<and> payload = payload' \<and> aad = aad')"
  using toBeSigned_inj [of prot payload aad prot' payload' aad'] assms by (simp add: toBeSigned_generic)

lemma signed_bytes_bind_witness: "toBeSigned [7] [1] [] \<noteq> toBeSigned [7] [2] []"
proof
  assume eq: "toBeSigned [7] [1] [] = toBeSigned [7] [2] []"
  have "toBeSigned [7] [1] [] = encode (sig_structure [7] [1] []) \<and>
    (toBeSigned [7] [1] [] = toBeSigned [7] [2] [] \<longrightarrow> ([7] :: bytes) = [7] \<and> ([1] :: bytes) = [2] \<and> ([] :: bytes) = [])"
    by (rule signed_bytes_bind) simp_all
  then have "([1] :: bytes) = [2]" using eq by blast
  then show False by simp
qed

end
