(* ===== verification/Keyring.thy ===== *)
theory Keyring
  imports JsOps Cose "HOL-Library.Multiset"
begin

text \<open>
  transport/bpv7/keyring.mjs: offline key management. A keyring holds the verifier's anchors and every
  signed record it has seen (keys issued, keys revoked), each with the earliest local time it was seen.
  A key is trusted if a chain of issuing records leads to an anchor; it is revoked from the earliest
  time among the authorized revocations.

  A record is kept as the CBOR map of its payload; a payload that is not a byte string is unreadable.
  \<open>chainOf\<close> and \<open>revokedFrom\<close> call each other with a growing \<open>depth\<close>; the model counts the levels left,
  \<open>6 - depth\<close>. What throws in the code (a field of the wrong type) is \<open>Inl\<close>.
\<close>

section \<open>Keys and ids\<close>

definition SPKI_PREFIX :: bytes where
  "SPKI_PREFIX = from_hex ''302a300506032b6570032100''"

definition rawPub :: "string \<Rightarrow> bytes" where
  "rawPub spki = drop (length SPKI_PREFIX) (from_base64 spki)"

definition spkiOf :: "jsval \<Rightarrow> string res" where
  "spkiOf v = (case v of VBytes raw \<Rightarrow> Inr (to_base64 (SPKI_PREFIX @ raw)) | _ \<Rightarrow> Inl ''ERR_INVALID_ARG_TYPE'')"

definition keyIdOf :: "crypto \<Rightarrow> string \<Rightarrow> bytes" where
  "keyIdOf C spki = take 16 (sha256 C (rawPub spki))"

definition key_id :: "crypto \<Rightarrow> string \<Rightarrow> string" where
  "key_id C spki = to_hex (keyIdOf C spki)"

definition hexOf :: "jsval \<Rightarrow> string res" where
  "hexOf v = rbind (buffer_of v) (\<lambda>bs. Inr (to_hex bs))"

definition recordHash :: "crypto \<Rightarrow> jsval \<Rightarrow> string res" where
  "recordHash C item = rbind (encode item) (\<lambda>bs. Inr (to_hex (sha256 C bs)))"

section \<open>Issuing records\<close>

definition KIND_KEY :: jsval where "KIND_KEY = VNum 1"
definition KIND_REVOKE :: jsval where "KIND_REVOKE = VNum 2"

definition asCarried :: "jsval \<Rightarrow> jsval res" where
  "asCarried item = rbind (encode item) decode"

definition issueKey :: "crypto \<Rightarrow> keypair \<Rightarrow> jsval \<Rightarrow> string \<Rightarrow> jsval \<Rightarrow> jsval \<Rightarrow> jsval \<Rightarrow> jsval \<Rightarrow> string \<Rightarrow> jsval res" where
  "issueKey C issuer subject pubKey roles notBefore notAfter issuedAt replaces =
     rbind (encode (VMap ([(VNum 1, KIND_KEY), (VNum 2, subject), (VNum 3, VBytes (rawPub pubKey)), (VNum 4, roles),
         (VNum 5, notBefore), (VNum 6, notAfter), (VNum 7, issuedAt), (VNum 8, VBytes (keyIdOf C (pub issuer)))] @
         (if replaces \<noteq> [] then [(VNum 9, VBytes (keyIdOf C replaces))] else [])))) (\<lambda>m.
     rbind (sign1 C (priv issuer) m [] False) asCarried)"

definition revokeKey :: "crypto \<Rightarrow> keypair \<Rightarrow> string \<Rightarrow> jsval \<Rightarrow> jsval \<Rightarrow> jsval \<Rightarrow> jsval res" where
  "revokeKey C signer target effectiveFrom reason issuedAt =
     rbind (encode (VMap [(VNum 1, KIND_REVOKE), (VNum 10, VBytes (keyIdOf C target)), (VNum 11, effectiveFrom),
         (VNum 12, reason), (VNum 7, issuedAt), (VNum 8, VBytes (keyIdOf C (pub signer)))])) (\<lambda>m.
     rbind (sign1 C (priv signer) m [] False) asCarried)"

type_synonym cmap = "(jsval \<times> jsval) list"

text \<open>\<open>recordFields\<close>: the payload map, from which the fields below are read.\<close>

definition payload_map :: "jsval \<Rightarrow> cmap res" where
  "payload_map item =
     (case item of
        VArr vs \<Rightarrow> (case elem vs 2 of
            VBytes bs \<Rightarrow> rbind (decode bs) (\<lambda>v. case v of VMap m \<Rightarrow> Inr m | _ \<Rightarrow> Inl ''record payload is not a map'')
          | _ \<Rightarrow> Inl ''unreadable'')
      | _ \<Rightarrow> Inl ''unreadable'')"

definition f_kind :: "cmap \<Rightarrow> jsval" where "f_kind m = map_get m (VNum 1)"
definition f_subject :: "cmap \<Rightarrow> jsval" where "f_subject m = map_get m (VNum 2)"
definition f_pub :: "cmap \<Rightarrow> jsval" where "f_pub m = map_get m (VNum 3)"
definition f_roles :: "cmap \<Rightarrow> jsval" where "f_roles m = nullish (map_get m (VNum 4)) (VNum 0)"
definition f_notBefore :: "cmap \<Rightarrow> jsval" where "f_notBefore m = map_get m (VNum 5)"
definition f_notAfter :: "cmap \<Rightarrow> jsval" where "f_notAfter m = map_get m (VNum 6)"
definition f_issuedAt :: "cmap \<Rightarrow> jsval" where "f_issuedAt m = map_get m (VNum 7)"
definition f_issuer :: "cmap \<Rightarrow> jsval" where "f_issuer m = map_get m (VNum 8)"
definition f_target :: "cmap \<Rightarrow> jsval" where "f_target m = map_get m (VNum 10)"
definition f_from :: "cmap \<Rightarrow> jsval" where "f_from m = map_get m (VNum 11)"

section \<open>The keyring\<close>

record anchor =
  a_eid :: jsval
  a_pub :: string

record kr_entry =
  k_item :: jsval
  k_map :: cmap
  k_seen :: int

record keyring =
  anchors :: "(string \<times> anchor) list"
  skewMs :: int
  records :: "(string \<times> kr_entry) list"

definition new_keyring :: "crypto \<Rightarrow> anchor list \<Rightarrow> int \<Rightarrow> keyring" where
  "new_keyring C as skew =
     \<lparr>anchors = foldl (\<lambda>m a. set_field (key_id C (a_pub a)) a m) [] as, skewMs = skew, records = []\<rparr>"

text \<open>\<open>add\<close> returns whether the record is new, with the keyring after it.\<close>

definition kr_add :: "crypto \<Rightarrow> keyring \<Rightarrow> jsval \<Rightarrow> int \<Rightarrow> (bool \<times> keyring) res" where
  "kr_add C K item seenAt =
     (case payload_map item of
        Inl e \<Rightarrow> Inr (False, K)
      | Inr m \<Rightarrow>
          if f_kind m \<noteq> KIND_KEY \<and> f_kind m \<noteq> KIND_REVOKE then Inr (False, K)
          else rbind (recordHash C item) (\<lambda>h.
            case map_of (records K) h of
              Some r \<Rightarrow> Inr (False, if seenAt < k_seen r
                then K\<lparr>records := set_field h (r\<lparr>k_seen := seenAt\<rparr>) (records K)\<rparr> else K)
            | None \<Rightarrow> Inr (True, K\<lparr>records := set_field h \<lparr>k_item = item, k_map = m, k_seen = seenAt\<rparr> (records K)\<rparr>)))"

definition entries :: "keyring \<Rightarrow> kr_entry list" where
  "entries K = map snd (records K)"

definition is_key_for :: "crypto \<Rightarrow> string \<Rightarrow> kr_entry \<Rightarrow> bool res" where
  "is_key_for C i r =
     (if f_kind (k_map r) = KIND_KEY \<and> truthy (f_pub (k_map r))
      then rbind (spkiOf (f_pub (k_map r))) (\<lambda>s. Inr (key_id C s = i)) else Inr False)"

definition keyRecords :: "crypto \<Rightarrow> keyring \<Rightarrow> string \<Rightarrow> kr_entry list res" where
  "keyRecords C K i = filterM (is_key_for C i) (entries K)"

definition revocations :: "keyring \<Rightarrow> string \<Rightarrow> kr_entry list res" where
  "revocations K i = filterM (\<lambda>r.
     if f_kind (k_map r) = KIND_REVOKE then rbind (hexOf (f_target (k_map r))) (\<lambda>h. Inr (h = i)) else Inr False) (entries K)"

text \<open>\<open>null\<close> is \<open>VNull\<close>.\<close>

definition pubOf :: "crypto \<Rightarrow> keyring \<Rightarrow> string \<Rightarrow> jsval res" where
  "pubOf C K i =
     (case map_of (anchors K) i of
        Some a \<Rightarrow> Inr (VStr (a_pub a))
      | None \<Rightarrow> rbind (keyRecords C K i) (\<lambda>rs.
          case rs of [] \<Rightarrow> Inr VNull | r # _ \<Rightarrow> rbind (spkiOf (f_pub (k_map r))) (\<lambda>s. Inr (VStr s))))"

definition inWindow :: "keyring \<Rightarrow> cmap \<Rightarrow> jsval \<Rightarrow> bool res" where
  "inWindow K m t = rbind (js_sub (f_notBefore m) (VNum (skewMs K))) (\<lambda>lo.
     if \<not> js_le lo t then Inr False
     else rbind (js_add (f_notAfter m) (skewMs K)) (\<lambda>hi. Inr (js_le t hi)))"

datatype chain =
    Chain (c_anchor: string) (c_ids: "string list") (c_roles: jsval) (c_rec: "kr_entry option")
  | NoChain string

definition accepted :: "'a verdict \<Rightarrow> bool" where
  "accepted v = (case v of Accept _ \<Rightarrow> True | Refuse _ \<Rightarrow> False)"

text \<open>The loop of \<open>chainOf\<close> over the records of a key; \<open>up\<close> and \<open>revk\<close> are the calls one level deeper.\<close>

fun chain_loop :: "crypto \<Rightarrow> keyring \<Rightarrow> string \<Rightarrow> (string \<Rightarrow> chain res) \<Rightarrow> (string \<Rightarrow> jsval res) \<Rightarrow>
    kr_entry list \<Rightarrow> chain \<Rightarrow> chain res" where
  "chain_loop C K i up revk [] latest = Inr latest"
| "chain_loop C K i up revk (r # rs) latest = rbind (hexOf (f_issuer (k_map r))) (\<lambda>issuer. rbind (up issuer) (\<lambda>u.
     case u of
       NoChain e \<Rightarrow> chain_loop C K i up revk rs (NoChain e)
     | Chain anc ids roles rec \<Rightarrow> rbind (js_bit 1 roles) (\<lambda>issue.
         if \<not> issue then chain_loop C K i up revk rs (NoChain ''issuer_lacks_issue_role'')
         else rbind (pubOf C K issuer) (\<lambda>p.
         if \<not> accepted (verify1 C (k_item r) p [] None)
           then chain_loop C K i up revk rs (NoChain ''record_signature_invalid'')
         else rbind (case rec of None \<Rightarrow> Inr True | Some ur \<Rightarrow> inWindow K (k_map ur) (f_issuedAt (k_map r))) (\<lambda>valid.
         if \<not> valid then chain_loop C K i up revk rs (NoChain ''issuer_not_valid_at_issuance'')
         else rbind (revk issuer) (\<lambda>T.
         if T \<noteq> VNull \<and> \<not> js_less (VNum (k_seen r)) T then chain_loop C K i up revk rs (NoChain ''issuer_revoked'')
         else Inr (Chain anc (i # ids) (f_roles (k_map r)) (Some r))))))))"

fun revoked_loop :: "crypto \<Rightarrow> keyring \<Rightarrow> string \<Rightarrow> chain \<Rightarrow> jsval \<Rightarrow> (string \<Rightarrow> chain res) \<Rightarrow> kr_entry list \<Rightarrow> jsval \<Rightarrow> jsval res" where
  "revoked_loop C K i target targetPub up [] T = Inr T"
| "revoked_loop C K i target targetPub up (r # rs) T = rbind (hexOf (f_issuer (k_map r))) (\<lambda>signer.
     rbind (pubOf C K signer) (\<lambda>p.
       if \<not> truthy p \<or> \<not> accepted (verify1 C (k_item r) p [] None) then revoked_loop C K i target targetPub up rs T
       else rbind
         (if signer = i then Inr (truthy targetPub)
          else if (case target of Chain a ids _ _ \<Rightarrow> signer \<in> set ids | NoChain _ \<Rightarrow> False) then Inr True
          else if map_of (anchors K) signer \<noteq> None then Inr True
          else rbind (up signer) (\<lambda>s. case s of
              NoChain _ \<Rightarrow> Inr False
            | Chain a _ roles _ \<Rightarrow> rbind (js_bit 2 roles) (\<lambda>revoke.
                Inr (revoke \<and> (case target of Chain b _ _ _ \<Rightarrow> a = b | NoChain _ \<Rightarrow> False)))))
         (\<lambda>allowed. revoked_loop C K i target targetPub up rs
            (if allowed \<and> (T = VNull \<or> js_less (f_from (k_map r)) T) then f_from (k_map r) else T))))"

definition MAX_LEVELS :: nat where
  "MAX_LEVELS = 6"

definition all_roles :: jsval where
  "all_roles = VNum 7"

fun chain_of :: "crypto \<Rightarrow> keyring \<Rightarrow> nat \<Rightarrow> string \<Rightarrow> chain res"
  and revoked_from :: "crypto \<Rightarrow> keyring \<Rightarrow> nat \<Rightarrow> string \<Rightarrow> jsval res" where
  "chain_of C K 0 i = (if map_of (anchors K) i \<noteq> None then Inr (Chain i [i] all_roles None)
     else Inr (NoChain ''chain_too_long''))"
| "chain_of C K (Suc n) i =
     (if map_of (anchors K) i \<noteq> None then Inr (Chain i [i] all_roles None)
      else rbind (keyRecords C K i) (\<lambda>rs.
        if rs = [] then Inr (NoChain (if Suc n = MAX_LEVELS then ''key_unknown'' else ''chain_not_anchored''))
        else chain_loop C K i (chain_of C K n) (revoked_from C K n) rs (NoChain ''issuer_unknown'')))"
| "revoked_from C K 0 i = Inr VNull"
| "revoked_from C K (Suc n) i = rbind (chain_of C K n i) (\<lambda>target. rbind (pubOf C K i) (\<lambda>targetPub.
     rbind (revocations K i) (\<lambda>rs. revoked_loop C K i target targetPub (chain_of C K n) rs VNull)))"

definition chainOf :: "crypto \<Rightarrow> keyring \<Rightarrow> string \<Rightarrow> chain res" where
  "chainOf C K i = chain_of C K MAX_LEVELS i"

definition revokedFrom :: "crypto \<Rightarrow> keyring \<Rightarrow> string \<Rightarrow> jsval res" where
  "revokedFrom C K i = revoked_from C K MAX_LEVELS i"

text \<open>\<open>[...new Set(out)]\<close> is \<open>remdups\<close> that keeps first occurrences.\<close>

definition dedupe :: "'a list \<Rightarrow> 'a list" where
  "dedupe xs = rev (remdups (rev xs))"

definition pubsFor :: "crypto \<Rightarrow> keyring \<Rightarrow> jsval \<Rightarrow> string list res" where
  "pubsFor C K e =
     rbind (rmapM (\<lambda>r. spkiOf (f_pub (k_map r)))
       (filter (\<lambda>r. f_kind (k_map r) = KIND_KEY \<and> strict_eq (f_subject (k_map r)) e \<and> truthy (f_pub (k_map r))) (entries K)))
     (\<lambda>ps. Inr (dedupe (map a_pub (filter (\<lambda>a. strict_eq (a_eid a) e) (map snd (anchors K))) @ ps)))"

record key_status =
  s_revokedFrom :: jsval
  s_anchor :: string
  s_keyId :: string

definition status :: "crypto \<Rightarrow> keyring \<Rightarrow> string \<Rightarrow> jsval \<Rightarrow> jsval \<Rightarrow> key_status verdict res" where
  "status C K pubKey e t =
     (let i = key_id C pubKey in rbind (chainOf C K i) (\<lambda>c.
      case c of
        NoChain reason \<Rightarrow> Inr (Refuse reason)
      | Chain anc ids roles rec \<Rightarrow> rbind
          (case rec of
             Some r \<Rightarrow>
               if \<not> strict_eq (f_subject (k_map r)) e then Inr (Some ''key_not_for_this_node'')
               else rbind (js_bit 0 roles) (\<lambda>custody.
                 if \<not> custody then Inr (Some ''key_lacks_role'')
                 else rbind (inWindow K (k_map r) t) (\<lambda>valid.
                   Inr (if valid then None
                     else Some (if js_less t (f_notBefore (k_map r)) then ''key_not_yet_valid'' else ''key_expired''))))
           | None \<Rightarrow> Inr (if (case map_of (anchors K) i of Some a \<Rightarrow> strict_eq (a_eid a) e | None \<Rightarrow> False)
               then None else Some ''key_not_for_this_node''))
          (\<lambda>bad. case bad of
             Some reason \<Rightarrow> Inr (Refuse reason)
           | None \<Rightarrow> rbind (revokedFrom C K i) (\<lambda>T. Inr (Accept \<lparr>s_revokedFrom = T, s_anchor = anc, s_keyId = i\<rparr>)))))"

definition forCarriage :: "crypto \<Rightarrow> keyring \<Rightarrow> string list \<Rightarrow> jsval list res" where
  "forCarriage C K chainIds =
     rbind (rmapM (\<lambda>i. rbind (chainOf C K i) (\<lambda>c.
         case c of
           NoChain _ \<Rightarrow> Inr []
         | Chain _ ids _ _ \<Rightarrow> rbind (rmapM (keyRecords C K) ids) (\<lambda>rss. Inr (map k_item (concat rss))))) chainIds)
       (\<lambda>itss. Inr (map k_item (filter (\<lambda>r. f_kind (k_map r) = KIND_REVOKE) (entries K)) @ concat itss))"

section \<open>The Key Record Block\<close>

definition KEY_BLOCK_TYPE :: jsval where
  "KEY_BLOCK_TYPE = VNum 225"

definition MAX_BLOCK_RECORDS :: nat where
  "MAX_BLOCK_RECORDS = 32"

fun is_arr4 :: "jsval \<Rightarrow> bool" where
  "is_arr4 (VArr vs) = (length vs = 4)"
| "is_arr4 _ = False"

definition readKeyBlock :: "bpv7 \<Rightarrow> jsval list res" where
  "readKeyBlock b =
     (case filter (\<lambda>x. strict_eq (b_type x) KEY_BLOCK_TYPE) (bp_blocks b) of
        [] \<Rightarrow> Inr []
      | [x] \<Rightarrow> rbind (decode (b_data x)) (\<lambda>v. case v of
            VArr vs \<Rightarrow> if list_all is_arr4 vs then Inr vs else Inl ''key record block malformed''
          | _ \<Rightarrow> Inl ''key record block malformed'')
      | _ \<Rightarrow> Inl ''key record block malformed: more than one in the bundle'')"

text \<open>\<open>kindOf(item) === KIND.REVOKE\<close>.\<close>

definition is_revocation :: "jsval \<Rightarrow> bool" where
  "is_revocation item = (case payload_map item of Inr m \<Rightarrow> f_kind m = KIND_REVOKE | Inl _ \<Rightarrow> False)"

definition carryRecords :: "crypto \<Rightarrow> bytes \<Rightarrow> jsval list \<Rightarrow> bytes res" where
  "carryRecords C bytes recs =
     rbind (decodeBundle bytes) (\<lambda>b. rbind (readKeyBlock b) (\<lambda>own.
     rbind (rmapM (\<lambda>it. rbind (recordHash C it) (\<lambda>h. Inr (h, it))) (own @ recs)) (\<lambda>hs.
       let all = map snd (foldl (\<lambda>m (h, it). set_field h it m) [] hs);
           sorted = filter is_revocation all @ filter (\<lambda>it. \<not> is_revocation it) all
       in if all = [] then Inr bytes
          else rbind (encode (VArr (take MAX_BLOCK_RECORDS sorted))) (\<lambda>data.
            case putBlock b \<lparr>b_type = KEY_BLOCK_TYPE, b_number = VUndef, b_flags = REPLICATE_IN_FRAGMENTS,
                b_crcType = CRC32C, b_data = data\<rparr> of
              Some b' \<Rightarrow> encodeBundle b' | None \<Rightarrow> Inl ''Cannot read properties of undefined''))))"

fun add_all :: "crypto \<Rightarrow> keyring \<Rightarrow> (jsval \<times> int) list \<Rightarrow> (nat \<times> keyring) res" where
  "add_all C K [] = Inr (0, K)"
| "add_all C K ((it, at) # its) = rbind (kr_add C K it at) (\<lambda>(new, K').
     rbind (add_all C K' its) (\<lambda>(n, K''). Inr (if new then Suc n else n, K'')))"

definition ingest :: "crypto \<Rightarrow> keyring \<Rightarrow> bytes \<Rightarrow> int \<Rightarrow> (nat \<times> keyring) res" where
  "ingest C K bytes at = rbind (decodeBundle bytes) (\<lambda>b. rbind (readKeyBlock b) (\<lambda>its.
     add_all C K (map (\<lambda>it. (it, at)) its)))"

section \<open>Chains end at an anchor\<close>

text \<open>What a chain of issuing records is, independently of the search that finds it.\<close>

inductive anchored :: "crypto \<Rightarrow> keyring \<Rightarrow> string \<Rightarrow> chain \<Rightarrow> bool" for C :: crypto and K :: keyring where
  anchor: "map_of (anchors K) i \<noteq> None \<Longrightarrow> anchored C K i (Chain i [i] all_roles None)"
| issued: "\<lbrakk>r \<in> set (entries K); is_key_for C i r = Inr True; hexOf (f_issuer (k_map r)) = Inr j;
     anchored C K j (Chain anc ids roles rec); js_bit 1 roles = Inr True;
     pubOf C K j = Inr p; accepted (verify1 C (k_item r) p [] None);
     case rec of None \<Rightarrow> True | Some ur \<Rightarrow> inWindow K (k_map ur) (f_issuedAt (k_map r)) = Inr True;
     revoked_from C K n j = Inr T; T = VNull \<or> js_less (VNum (k_seen r)) T\<rbrakk>
   \<Longrightarrow> anchored C K i (Chain anc (i # ids) (f_roles (k_map r)) (Some r))"

inductive_cases anchored_ChainE: "anchored C K i (Chain anc ids roles rec)"

lemma anchored_ends: "anchored C K i c \<Longrightarrow> \<exists>anc ids roles rec. c = Chain anc ids roles rec \<and> ids \<noteq> [] \<and> hd ids = i \<and>
    last ids = anc \<and> map_of (anchors K) anc \<noteq> None"
  by (induction rule: anchored.induct) auto

definition accepts_issuer :: "crypto \<Rightarrow> keyring \<Rightarrow> (string \<Rightarrow> chain res) \<Rightarrow> (string \<Rightarrow> jsval res) \<Rightarrow> kr_entry \<Rightarrow>
    string \<Rightarrow> string list \<Rightarrow> bool" where
  "accepts_issuer C K up revk r anc us \<longleftrightarrow> (\<exists>j uroles urec p T.
     hexOf (f_issuer (k_map r)) = Inr j \<and> up j = Inr (Chain anc us uroles urec) \<and>
     js_bit 1 uroles = Inr True \<and> pubOf C K j = Inr p \<and> accepted (verify1 C (k_item r) p [] None) \<and>
     (case urec of None \<Rightarrow> Inr True | Some ur \<Rightarrow> inWindow K (k_map ur) (f_issuedAt (k_map r))) = Inr True \<and>
     revk j = Inr T \<and> (T = VNull \<or> js_less (VNum (k_seen r)) T))"

lemma chain_loop_step:
  assumes "chain_loop C K i up revk (r # rs) latest = Inr c"
  shows "(\<exists>e. chain_loop C K i up revk rs (NoChain e) = Inr c) \<or>
    (\<exists>anc us. accepts_issuer C K up revk r anc us \<and> c = Chain anc (i # us) (f_roles (k_map r)) (Some r))"
proof -
  obtain j u where ju: "hexOf (f_issuer (k_map r)) = Inr j" "up j = Inr u" using assms by auto
  show ?thesis
  proof (cases u)
    case (NoChain e)
    with assms ju have "chain_loop C K i up revk rs (NoChain e) = Inr c" by simp
    then show ?thesis by blast
  next
    case (Chain a us uroles urec)
    define w where "w = (case urec of None \<Rightarrow> Inr True | Some ur \<Rightarrow> inWindow K (k_map ur) (f_issuedAt (k_map r)))"
    show ?thesis
    proof (rule disjCI)
      assume none: "\<not> (\<exists>anc us. accepts_issuer C K up revk r anc us \<and> c = Chain anc (i # us) (f_roles (k_map r)) (Some r))"
      have "\<not> (js_bit 1 uroles = Inr True \<and> pubOf C K j = Inr p \<and> accepted (verify1 C (k_item r) p [] None) \<and>
          w = Inr True \<and> revk j = Inr T \<and> (T = VNull \<or> js_less (VNum (k_seen r)) T) \<and>
          c = Chain a (i # us) (f_roles (k_map r)) (Some r))" for p T
        using none ju Chain unfolding accepts_issuer_def w_def by blast
      then show "\<exists>e. chain_loop C K i up revk rs (NoChain e) = Inr c"
        using assms by (auto simp: ju Chain w_def [symmetric] split: if_splits)
    qed
  qed
qed

lemma chain_loop_Chain:
  assumes "chain_loop C K i up revk rs latest = Inr (Chain anc ids roles rec)" "\<And>a b c d. latest \<noteq> Chain a b c d"
  shows "\<exists>r us. r \<in> set rs \<and> accepts_issuer C K up revk r anc us \<and> ids = i # us \<and> roles = f_roles (k_map r) \<and> rec = Some r"
  using assms
proof (induction rs arbitrary: latest)
  case (Cons r rs)
  from chain_loop_step [OF Cons.prems(1)] show ?case
  proof
    assume "\<exists>e. chain_loop C K i up revk rs (NoChain e) = Inr (Chain anc ids roles rec)"
    then obtain e where "chain_loop C K i up revk rs (NoChain e) = Inr (Chain anc ids roles rec)" by blast
    from Cons.IH [OF this] show ?thesis by auto
  qed auto
qed simp

lemma chain_of_anchored: "chain_of C K n i = Inr (Chain anc ids roles rec) \<Longrightarrow>
    anchored C K i (Chain anc ids roles rec) \<and> length ids \<le> Suc n"
proof (induction n arbitrary: i anc ids roles rec)
  case 0
  then show ?case by (auto split: if_splits intro: anchored.anchor)
next
  case (Suc n)
  show ?case
  proof (cases "map_of (anchors K) i")
    case (Some a)
    with Suc.prems show ?thesis by (auto intro: anchored.anchor)
  next
    case None
    with Suc.prems obtain rs where rs: "keyRecords C K i = Inr rs" "rs \<noteq> []"
        "chain_loop C K i (chain_of C K n) (revoked_from C K n) rs (NoChain ''issuer_unknown'') = Inr (Chain anc ids roles rec)"
      by (auto split: if_splits)
    from chain_loop_Chain [OF rs(3)] obtain r us where
      r: "r \<in> set rs" "accepts_issuer C K (chain_of C K n) (revoked_from C K n) r anc us" "ids = i # us"
        "roles = f_roles (k_map r)" "rec = Some r" by blast
    from r(2) obtain j uroles urec p T where
      *: "hexOf (f_issuer (k_map r)) = Inr j" "chain_of C K n j = Inr (Chain anc us uroles urec)"
        "js_bit 1 uroles = Inr True" "pubOf C K j = Inr p" "accepted (verify1 C (k_item r) p [] None)"
        "(case urec of None \<Rightarrow> Inr True | Some ur \<Rightarrow> inWindow K (k_map ur) (f_issuedAt (k_map r))) = Inr True"
        "revoked_from C K n j = Inr T" "T = VNull \<or> js_less (VNum (k_seen r)) T"
      unfolding accepts_issuer_def by blast
    have "r \<in> set (entries K)" "is_key_for C i r = Inr True"
      using filterM_Inr rs(1) r(1) unfolding keyRecords_def by fastforce+
    moreover have "case urec of None \<Rightarrow> True | Some ur \<Rightarrow> inWindow K (k_map ur) (f_issuedAt (k_map r)) = Inr True"
      using *(6) by (cases urec) auto
    moreover from Suc.IH [OF *(2)] have "anchored C K j (Chain anc us uroles urec)" "length us \<le> Suc n" by simp_all
    ultimately show ?thesis using anchored.issued [OF _ _ *(1) _ *(3-5) _ *(7,8)] r(3-5) by simp
  qed
qed

section \<open>The keyring as a map of earliest sightings\<close>

definition sightings :: "keyring \<Rightarrow> string \<Rightarrow> int option" where
  "sightings K h = map_option k_seen (map_of (records K) h)"

text \<open>The abstract operation: a readable record with hash \<open>h\<close> seen at time \<open>t\<close>.\<close>

definition see :: "string \<Rightarrow> int \<Rightarrow> (string \<Rightarrow> int option) \<Rightarrow> string \<Rightarrow> int option" where
  "see h t S = S(h := Some (case S h of None \<Rightarrow> t | Some s \<Rightarrow> min s t))"

definition readable :: "jsval \<Rightarrow> bool" where
  "readable item = (case payload_map item of Inr m \<Rightarrow> f_kind m = KIND_KEY \<or> f_kind m = KIND_REVOKE | Inl _ \<Rightarrow> False)"

definition observe :: "crypto \<Rightarrow> jsval \<times> int \<Rightarrow> (string \<Rightarrow> int option) \<Rightarrow> string \<Rightarrow> int option" where
  "observe C it S = (if readable (fst it) then (case recordHash C (fst it) of Inr h \<Rightarrow> see h (snd it) S | Inl _ \<Rightarrow> S) else S)"

lemma kr_add_sightings: "kr_add C K item t = Inr (new, K') \<Longrightarrow> sightings K' = observe C (item, t) (sightings K)"
proof -
  assume add: "kr_add C K item t = Inr (new, K')"
  show ?thesis
  proof (cases "readable item")
    case False
    then have "K' = K" using add by (auto simp: kr_add_def readable_def split: sum.splits if_splits)
    with False show ?thesis by (simp add: observe_def)
  next
    case True
    then obtain m where m: "payload_map item = Inr m" "f_kind m = KIND_KEY \<or> f_kind m = KIND_REVOKE"
      by (auto simp: readable_def split: sum.splits)
    with add obtain h where h: "recordHash C item = Inr h"
      by (auto simp: kr_add_def split: if_splits)
    show ?thesis
    proof (cases "map_of (records K) h")
      case None
      with add m h have "K' = K\<lparr>records := set_field h \<lparr>k_item = item, k_map = m, k_seen = t\<rparr> (records K)\<rparr>"
        by (auto simp: kr_add_def)
      with None True h show ?thesis by (auto simp: observe_def see_def sightings_def fun_eq_iff)
    next
      case (Some r)
      with add m h have "K' = (if t < k_seen r then K\<lparr>records := set_field h (r\<lparr>k_seen := t\<rparr>) (records K)\<rparr> else K)"
        by (auto simp: kr_add_def)
      with Some True h show ?thesis by (auto simp: observe_def see_def sightings_def fun_eq_iff)
    qed
  qed
qed

lemma add_all_sightings: "add_all C K its = Inr (n, K') \<Longrightarrow> sightings K' = fold (observe C) its (sightings K)"
proof (induction its arbitrary: K n)
  case (Cons it its)
  obtain item t where it: "it = (item, t)" by (cases it)
  with Cons.prems obtain new K1 n1 where *: "kr_add C K item t = Inr (new, K1)" "add_all C K1 its = Inr (n1, K')"
    by (auto simp: rbind_case_Inr)
  with Cons.IH [OF *(2)] kr_add_sightings [OF *(1)] it show ?case by simp
qed simp

lemma see_commute: "see g s (see h t S) = see h t (see g s S)"
  by (cases "g = h") (auto simp: see_def fun_eq_iff min.left_commute min.commute split: option.splits)

lemma observe_commute: "observe C x \<circ> observe C y = observe C y \<circ> observe C x"
  by (rule ext) (auto simp: observe_def see_commute split: sum.splits)

lemma fold_observe_perm: "mset its = mset its' \<Longrightarrow> fold (observe C) its S = fold (observe C) its' S"
  by (rule fold_multiset_equiv [THEN fun_cong]) (simp_all add: observe_commute)

section \<open>Revocations\<close>

definition authorized :: "crypto \<Rightarrow> keyring \<Rightarrow> string \<Rightarrow> kr_entry \<Rightarrow> bool" where
  "authorized C K i r \<longleftrightarrow> (\<exists>signer p. hexOf (f_issuer (k_map r)) = Inr signer \<and> pubOf C K signer = Inr p \<and> truthy p \<and>
     accepted (verify1 C (k_item r) p [] None) \<and> (signer = i \<or> map_of (anchors K) signer \<noteq> None))"

definition numeric_or_null :: "jsval \<Rightarrow> bool" where
  "numeric_or_null v \<longleftrightarrow> v = VNull \<or> (\<exists>n. v = VNum n)"

definition not_later :: "jsval \<Rightarrow> int \<Rightarrow> bool" where
  "not_later v x \<longleftrightarrow> (\<exists>n. v = VNum n \<and> n \<le> x)"

lemma not_later_step:
  "not_later T x \<Longrightarrow> not_later (if a \<and> (T = VNull \<or> js_less (VNum m) T) then VNum m else T) x"
  by (auto simp: not_later_def)

lemma numeric_step:
  "numeric_or_null T \<Longrightarrow> numeric_or_null (if a \<and> (T = VNull \<or> js_less (VNum m) T) then VNum m else T)"
  by (auto simp: numeric_or_null_def)

text \<open>One round of the loop: the revocation is skipped, or \<open>T\<close> is updated if it is allowed.\<close>

lemma revoked_loop_step:
  assumes "revoked_loop C K i target tp up (r # rs) T = Inr T'"
  shows "\<exists>allowed. revoked_loop C K i target tp up rs
      (if allowed \<and> (T = VNull \<or> js_less (f_from (k_map r)) T) then f_from (k_map r) else T) = Inr T' \<and>
    (authorized C K i r \<and> pubOf C K i = Inr tp \<longrightarrow> allowed)"
proof -
  obtain signer p where sp: "hexOf (f_issuer (k_map r)) = Inr signer" "pubOf C K signer = Inr p" using assms by auto
  show ?thesis
  proof (cases "\<not> truthy p \<or> \<not> accepted (verify1 C (k_item r) p [] None)")
    case True
    then have "\<not> authorized C K i r" using sp by (auto simp: authorized_def)
    with True assms sp show ?thesis by (intro exI [of _ False]) simp
  next
    case False
    obtain allowed where
      a: "(if signer = i then Inr (truthy tp)
          else if (case target of Chain a ids _ _ \<Rightarrow> signer \<in> set ids | NoChain _ \<Rightarrow> False) then Inr True
          else if map_of (anchors K) signer \<noteq> None then Inr True
          else rbind (up signer) (\<lambda>s. case s of
              NoChain _ \<Rightarrow> Inr False
            | Chain a _ roles _ \<Rightarrow> rbind (js_bit 2 roles) (\<lambda>revoke.
                Inr (revoke \<and> (case target of Chain b _ _ _ \<Rightarrow> a = b | NoChain _ \<Rightarrow> False))))) = Inr allowed"
      and loop: "revoked_loop C K i target tp up rs
        (if allowed \<and> (T = VNull \<or> js_less (f_from (k_map r)) T) then f_from (k_map r) else T) = Inr T'"
      using assms False by (auto simp: sp)
    have "allowed" if "authorized C K i r" "pubOf C K i = Inr tp"
    proof -
      have "signer = i \<or> map_of (anchors K) signer \<noteq> None" using that(1) sp by (auto simp: authorized_def)
      then show ?thesis using a that(2) sp False by (auto split: if_splits)
    qed
    with loop show ?thesis by blast
  qed
qed

lemma revoked_loop_min:
  assumes "revoked_loop C K i target tp up rs T = Inr T'" "numeric_or_null T"
    and "\<And>r. r \<in> set rs \<Longrightarrow> \<exists>n. f_from (k_map r) = VNum n" and "pubOf C K i = Inr tp"
  shows "(\<forall>x. not_later T x \<longrightarrow> not_later T' x) \<and>
    (\<forall>r \<in> set rs. authorized C K i r \<longrightarrow> (\<forall>x. f_from (k_map r) = VNum x \<longrightarrow> not_later T' x))"
  using assms(1-3)
proof (induction rs arbitrary: T)
  case (Cons r rs)
  obtain n where n: "f_from (k_map r) = VNum n" using Cons.prems(3) by auto
  from revoked_loop_step [OF Cons.prems(1)] obtain allowed where
    loop: "revoked_loop C K i target tp up rs (if allowed \<and> (T = VNull \<or> js_less (VNum n) T) then VNum n else T) = Inr T'"
    and allowed: "authorized C K i r \<longrightarrow> allowed" unfolding n using assms(4) by blast
  note IH = Cons.IH [OF loop numeric_step [OF Cons.prems(2)]]
  have rs: "\<And>r. r \<in> set rs \<Longrightarrow> \<exists>n. f_from (k_map r) = VNum n" using Cons.prems(3) by simp
  have "not_later T' x" if "authorized C K i r" "f_from (k_map r) = VNum x" for x
  proof -
    have "not_later (if allowed \<and> (T = VNull \<or> js_less (VNum n) T) then VNum n else T) x"
      using allowed that n Cons.prems(2) by (auto simp: not_later_def numeric_or_null_def)
    then show ?thesis using IH [OF rs] by blast
  qed
  moreover have "not_later T' x" if "not_later T x" for x
    using IH [OF rs] not_later_step [OF that, of allowed n] by blast
  ultimately show ?case using IH [OF rs] by auto
qed simp

lemma js_less_undef [simp]: "\<not> js_less v VUndef"
  by (auto simp: js_less_def to_prim_def split: jsval.splits option.splits)

lemma revoked_loop_undef: "revoked_loop C K i target tp up rs VUndef = Inr T' \<Longrightarrow> T' = VUndef"
proof (induction rs)
  case (Cons r rs)
  from revoked_loop_step [OF Cons.prems] show ?case using Cons.IH by auto
qed simp

section \<open>Properties\<close>


definition sample_issued :: "jsval \<Rightarrow> keyring" where
  "sample_issued item = \<lparr>anchors = [(to_hex (replicate 16 0), \<lparr>a_eid = VStr ''dtn://op/'', a_pub = pub (toy_key ''a'')\<rparr>)],
     skewMs = 0, records = [(''h'', \<lparr>k_item = item, k_map = [(VNum 1, VNum 1), (VNum 3, VBytes (replicate 32 1)),
       (VNum 4, VNum 1), (VNum 7, VNum 5), (VNum 8, VBytes (replicate 16 0))], k_seen = 9\<rparr>)]\<rparr>"

lemma length_SPKI_PREFIX: "length SPKI_PREFIX = 12"
  unfolding SPKI_PREFIX_def by code_simp

lemma rawPub_spki: "rawPub (to_base64 (SPKI_PREFIX @ raw)) = raw"
  by (simp add: rawPub_def)

lemma sample_issued_chain:
  assumes "sign1 toy ''a'' payload [] False = Inr item"
  shows "chainOf toy (sample_issued item) (to_hex (replicate 16 1)) =
    Inr (Chain (to_hex (replicate 16 0)) [to_hex (replicate 16 1), to_hex (replicate 16 0)] (VNum 1)
      (Some (hd (entries (sample_issued item)))))"
proof -
  let ?K = "sample_issued item" and ?i = "to_hex (replicate 16 1)" and ?a = "to_hex (replicate 16 0)"
  have ne: "?i \<noteq> ?a" by simp
  have "key_id toy (to_base64 (SPKI_PREFIX @ replicate 32 1)) = ?i"
    by (simp add: key_id_def keyIdOf_def rawPub_spki toy_def)
  then have key: "keyRecords toy ?K ?i = Inr (entries ?K)"
    by (simp add: keyRecords_def entries_def sample_issued_def is_key_for_def f_kind_def f_pub_def map_get_def KIND_KEY_def spkiOf_def)
  have anc: "chain_of toy ?K n ?a = Inr (Chain ?a [?a] all_roles None)" for n
    by (cases n) (simp_all add: sample_issued_def)
  have pub: "pubOf toy ?K ?a = Inr (VStr (pub (toy_key ''a'')))" by (simp add: pubOf_def sample_issued_def)
  have "revocations ?K ?a = Inr []"
    by (simp add: revocations_def entries_def sample_issued_def f_kind_def map_get_def KIND_REVOKE_def)
  then have rev: "revoked_from toy ?K n ?a = Inr VNull" for n
    by (cases n) (simp_all add: anc pub del: chain_of.simps)
  have "verify1 toy item (VStr (to_base64 (ed_pub toy ''a''))) [] None = Accept payload"
    by (rule verify1_sign1 [OF toy_sig_correct assms]) simp
  then have acc: "accepted (verify1 toy item (VStr (pub (toy_key ''a''))) [] None)"
    by (simp add: accepted_def toy_key_def toy_def)
  have "map_of (anchors ?K) ?i = None" using ne by (simp add: sample_issued_def)
  moreover have "entries ?K = [hd (entries ?K)]" "k_item (hd (entries ?K)) = item"
      "f_issuer (k_map (hd (entries ?K))) = VBytes (replicate 16 0)" "f_roles (k_map (hd (entries ?K))) = VNum 1"
    by (simp_all add: entries_def sample_issued_def f_issuer_def f_roles_def map_get_def nullish_def)
  moreover have "chain_loop toy ?K ?i (chain_of toy ?K 5) (revoked_from toy ?K 5) [hd (entries ?K)] (NoChain ''issuer_unknown'') =
      Inr (Chain ?a [?i, ?a] (VNum 1) (Some (hd (entries ?K))))"
    using calculation(3-) by (simp add: hexOf_def anc pub acc rev all_roles_def)
  moreover have "entries ?K \<noteq> []" by (simp add: entries_def sample_issued_def)
  moreover have six: "MAX_LEVELS = Suc 5" by (simp add: MAX_LEVELS_def)
  ultimately show ?thesis
    unfolding chainOf_def six chain_of.simps key by simp
qed


text \<open>
  Property C11. The keyring refines a map from records to the earliest time each was seen: adding any
  sequence of items has the effect of the abstract operation on that map, unreadable items have none,
  and the order of arrival does not matter.
\<close>
theorem keyring_refines_sightings:
  assumes "add_all C K its = Inr (n, K')"
  shows "sightings K' = fold (observe C) its (sightings K) \<and>
    (\<forall>its'. mset its' = mset its \<longrightarrow> fold (observe C) its' (sightings K) = sightings K')"
proof -
  have eq: "sightings K' = fold (observe C) its (sightings K)" by (rule add_all_sightings [OF assms])
  moreover have "fold (observe C) its' (sightings K) = sightings K'" if "mset its' = mset its" for its'
    unfolding eq by (rule fold_observe_perm [OF that])
  ultimately show ?thesis by blast
qed

lemma keyring_refines_sightings_witness:
  "\<exists>n K'. add_all toy (new_keyring toy [] 0) [(VNull, 3), (VArr [], 2)] = Inr (n, K') \<and>
     sightings K' = fold (observe toy) [(VNull, 3), (VArr [], 2)] (sightings (new_keyring toy [] 0))"
proof -
  have "payload_map VNull = Inl ''unreadable''" "payload_map (VArr []) = Inl ''unreadable''"
    by (simp_all add: payload_map_def elem_def)
  then have "kr_add C K VNull t = Inr (False, K)" "kr_add C K (VArr []) t = Inr (False, K)" for C K t
    unfolding kr_add_def by (simp_all only: sum.case prod.case)
  then have add: "add_all toy (new_keyring toy [] 0) [(VNull, 3), (VArr [], 2)] = Inr (0, new_keyring toy [] 0)"
    by simp
  from keyring_refines_sightings [OF add] have
    "sightings (new_keyring toy [] 0) = fold (observe toy) [(VNull, 3), (VArr [], 2)] (sightings (new_keyring toy [] 0))"
    by (rule conjunct1)
  with add show ?thesis by blast
qed


definition revoke_map :: "(jsval \<times> jsval) list \<Rightarrow> cmap" where
  "revoke_map extra = (VNum 1, VNum 2) # (VNum 10, VBytes (replicate 16 0)) # (VNum 8, VBytes (replicate 16 0)) # extra"

text \<open>An anchor that revokes itself in each of the given records.\<close>

definition sample_revoked :: "jsval \<Rightarrow> (jsval \<times> jsval) list list \<Rightarrow> keyring" where
  "sample_revoked item extras = \<lparr>anchors = [(to_hex (replicate 16 0), \<lparr>a_eid = VStr ''dtn://op/'', a_pub = pub (toy_key ''a'')\<rparr>)],
     skewMs = 0, records = map (\<lambda>e. (''h'', \<lparr>k_item = item, k_map = revoke_map e, k_seen = 9\<rparr>)) extras\<rparr>"

lemma sample_revoked_props:
  assumes "sign1 toy ''a'' payload [] False = Inr item"
  shows "revocations (sample_revoked item extras) (to_hex (replicate 16 0)) = Inr (entries (sample_revoked item extras))"
    "r \<in> set (entries (sample_revoked item extras)) \<Longrightarrow> authorized toy (sample_revoked item extras) (to_hex (replicate 16 0)) r"
    "\<exists>T. revokedFrom toy (sample_revoked item extras) (to_hex (replicate 16 0)) = Inr T"
proof -
  let ?K = "sample_revoked item extras" and ?a = "to_hex (replicate 16 0)"
  have mp: "f_kind (revoke_map e) = KIND_REVOKE" "f_target (revoke_map e) = VBytes (replicate 16 0)"
      "f_issuer (revoke_map e) = VBytes (replicate 16 0)" for e
    by (simp_all add: revoke_map_def f_kind_def f_target_def f_issuer_def map_get_def KIND_REVOKE_def)
  show revs: "revocations ?K ?a = Inr (entries ?K)"
    by (induction extras) (simp_all add: revocations_def entries_def sample_revoked_def mp hexOf_def)
  have "verify1 toy item (VStr (to_base64 (ed_pub toy ''a''))) [] None = Accept payload"
    by (rule verify1_sign1 [OF toy_sig_correct assms]) simp
  then have acc: "accepted (verify1 toy item (VStr (pub (toy_key ''a''))) [] None)"
    by (simp add: accepted_def toy_key_def toy_def)
  have pub: "pubOf toy ?K ?a = Inr (VStr (pub (toy_key ''a'')))" by (simp add: pubOf_def sample_revoked_def)
  have tr: "truthy (VStr (pub (toy_key ''a'')))" by (simp add: toy_key_def to_base64_eq_Nil)
  show "authorized toy ?K ?a r" if "r \<in> set (entries ?K)"
  proof -
    have "k_item r = item" "f_issuer (k_map r) = VBytes (replicate 16 0)"
      using that by (auto simp: entries_def sample_revoked_def mp)
    then show ?thesis using pub tr acc by (auto simp: authorized_def hexOf_def)
  qed
  have six: "MAX_LEVELS = Suc 5" by (simp add: MAX_LEVELS_def)
  have anc: "chain_of toy ?K n ?a = Inr (Chain ?a [?a] all_roles None)" for n
    by (cases n) (simp_all add: sample_revoked_def)
  have "\<exists>T'. revoked_loop toy ?K ?a target (VStr (pub (toy_key ''a''))) up rs T = Inr T'"
    if "\<And>r. r \<in> set rs \<Longrightarrow> k_item r = item \<and> f_issuer (k_map r) = VBytes (replicate 16 0)" for rs target up T
    using that by (induction rs arbitrary: T) (auto simp: hexOf_def pub acc simp del: truthy.simps simp add: tr)
  note loop = this
  have "k_item r = item \<and> f_issuer (k_map r) = VBytes (replicate 16 0)" if "r \<in> set (entries ?K)" for r
    using that by (auto simp: entries_def sample_revoked_def mp)
  from loop [OF this] show "\<exists>T. revokedFrom toy ?K ?a = Inr T"
    unfolding revokedFrom_def six revoked_from.simps anc pub revs rbind_simps .
qed


text \<open>
  A revocation without the field \<open>effectiveFrom\<close> masks every later one: if the first
  revocation held for a key is its own and has no such field, \<open>revokedFrom\<close> is \<open>undefined\<close>, which
  the receipt check takes for not revoked, whatever revocations follow it. Whoever stole a key can
  sign such a record with it.
\<close>
theorem blank_revocation_masks_later_ones:
  assumes "revokedFrom C K i = Inr T" and "revocations K i = Inr (r # rs)"
    and "authorized C K i r" and "f_from (k_map r) = VUndef"
  shows "T = VUndef"
proof -
  have six: "MAX_LEVELS = Suc 5" by (simp add: MAX_LEVELS_def)
  obtain target tp where "pubOf C K i = Inr tp"
      "revoked_loop C K i target tp (chain_of C K 5) (r # rs) VNull = Inr T"
    using assms(1,2) unfolding revokedFrom_def six revoked_from.simps by auto
  from revoked_loop_step [OF this(2)] this(1) assms(3,4)
  have "revoked_loop C K i target tp (chain_of C K 5) rs VUndef = Inr T" by auto
  then show ?thesis by (rule revoked_loop_undef)
qed

lemma blank_revocation_masks_later_ones_witness:
  "\<exists>item. revokedFrom toy (sample_revoked item [[], [(VNum 11, VNum 40)]]) (to_hex (replicate 16 0)) = Inr VUndef"
proof -
  obtain item where item: "sign1 toy ''a'' [1] [] False = Inr item" by (simp add: sign1_def toBeSigned_Inr)
  let ?K = "sample_revoked item [[], [(VNum 11, VNum 40)]]"
  note pr = sample_revoked_props [OF item, where extras = "[[], [(VNum 11, VNum 40)]]"]
  obtain T where T: "revokedFrom toy ?K (to_hex (replicate 16 0)) = Inr T" using pr(3) by blast
  let ?r = "\<lparr>k_item = item, k_map = revoke_map [], k_seen = 9\<rparr>"
  have e: "entries ?K = ?r # tl (entries ?K)" by (simp add: entries_def sample_revoked_def)
  have "f_from (k_map ?r) = VUndef" by (simp add: revoke_map_def f_from_def map_get_def)
  moreover have "authorized toy ?K (to_hex (replicate 16 0)) ?r" by (rule pr(2)) (simp add: entries_def sample_revoked_def)
  ultimately have "T = VUndef"
    by (intro blank_revocation_masks_later_ones [OF T, where r = ?r and rs = "tl (entries ?K)"]) (simp_all add: pr(1) e [symmetric])
  then show ?thesis using T by blast
qed

text \<open>
  One unsigned record disables the keyring: \<open>add\<close> keeps a key record whose public key is a
  text string, and from then on every status query for a key that is not an anchor throws. Records
  are taken from the bundles that arrive, before any signature is checked.
\<close>
theorem unsigned_record_disables_keyring:
  assumes "kr_add C K item t = Inr (True, K')" and "payload_map item = Inr m"
    and "f_kind m = KIND_KEY" and "f_pub m = VStr (c # s)" and "map_of (anchors K) (key_id C pubKey) = None"
  shows "\<exists>err. status C K' pubKey e now = Inl err"
proof -
  obtain h where h: "recordHash C item = Inr h" "map_of (records K) h = None"
      "K' = K\<lparr>records := set_field h \<lparr>k_item = item, k_map = m, k_seen = t\<rparr> (records K)\<rparr>"
    using assms(1-3) by (auto simp: kr_add_def split: option.splits)
  have "\<lparr>k_item = item, k_map = m, k_seen = t\<rparr> \<in> set (entries K')"
    using map_of_SomeD [of "records K'" h] h(3) by (force simp: entries_def)
  moreover have "is_key_for C i \<lparr>k_item = item, k_map = m, k_seen = t\<rparr> = Inl ''ERR_INVALID_ARG_TYPE''" for i
    using assms(3,4) by (simp add: is_key_for_def spkiOf_def)
  ultimately obtain err where "keyRecords C K' (key_id C pubKey) = Inl err"
    unfolding keyRecords_def using filterM_throws by metis
  moreover have "map_of (anchors K') (key_id C pubKey) = None" using assms(5) h(3) by simp
  moreover have six: "MAX_LEVELS = Suc 5" by (simp add: MAX_LEVELS_def)
  ultimately have "chainOf C K' (key_id C pubKey) = Inl err"
    unfolding chainOf_def six chain_of.simps by simp
  then show ?thesis by (simp add: status_def)
qed

lemma unsigned_record_disables_keyring_witness:
  "\<exists>item K' err. kr_add toy (new_keyring toy [] 0) item 5 = Inr (True, K') \<and>
     status toy K' (pub (toy_key ''k'')) (VStr ''dtn://n/'') (VNum 1) = Inl err"
proof -
  let ?m = "[(VNum 1, VNum 1), (VNum 3, VStr ''x'')]"
  let ?item = "VArr [VBytes [], VMap [], VBytes (cbor_bytes (VMap ?m)), VBytes []]"
  have ok: "cbor_ok max_levels (VMap ?m)" by (simp add: cbor_ok_numeral text_ok_ascii)
  then have p: "payload_map ?item = Inr ?m"
    using decode_cbor_bytes [OF ok] by (simp add: payload_map_def elem_def)
  have k: "f_kind ?m = KIND_KEY" "f_pub ?m = VStr (CHR ''x'' # [])"
    by (simp_all add: f_kind_def f_pub_def map_get_def KIND_KEY_def)
  have "\<exists>bs. encode ?item = Inr bs" by simp
  then obtain h where "recordHash toy ?item = Inr h" by (auto simp: recordHash_def simp del: encode.simps)
  then obtain K' where K': "kr_add toy (new_keyring toy [] 0) ?item 5 = Inr (True, K')"
    using p k by (simp add: kr_add_def new_keyring_def)
  moreover have "map_of (anchors (new_keyring toy [] 0)) (key_id toy (pub (toy_key ''k''))) = None"
    by (simp add: new_keyring_def)
  ultimately show ?thesis using unsigned_record_disables_keyring [OF K' p k] by blast
qed

end
