(* ===== verification/ReceiptV2.thy ===== *)
theory ReceiptV2
  imports CustodyBlock Keyring
begin

text \<open>
  transport/bpv7/receipt-v2.mjs: custody receipts as COSE_Sign1 items over the BPv7 bundle identity and
  a digest of the payload, carried in the same extension block (type 224). A custodian signs for the
  bytes it holds without reading them; a verifier checks the chain against pinned keys or a keyring,
  sizes the unsigned gaps and treats receipts of revoked keys.

  The bundle identity is a CBOR array of decoded values; \<open>sameId\<close> compares identities by their JSON
  text, which throws on a BigInt. The options that are absent are \<open>VUndef\<close> or \<open>None\<close>.
\<close>

section \<open>Identity and block\<close>

definition MAX_RECEIPTS :: nat where
  "MAX_RECEIPTS = 64"

definition chainDigest :: "crypto \<Rightarrow> jsval list \<Rightarrow> bytes res" where
  "chainDigest C items = rbind (encode (VArr items)) (\<lambda>bs. Inr (sha256 C bs))"

definition hopCountOf :: "bpv7 \<Rightarrow> int option res" where
  "hopCountOf b =
     (case find (\<lambda>x. strict_eq (b_type x) HOP_COUNT) (bp_blocks b) of
        None \<Rightarrow> Inr None
      | Some x \<Rightarrow> rbind (decode (b_data x)) (\<lambda>v. Inr (case v of
            VArr vs \<Rightarrow> (case elem vs 1 of VNum n \<Rightarrow> Some n | _ \<Rightarrow> None)
          | _ \<Rightarrow> None)))"

definition whole_id :: "primary \<Rightarrow> jsval list" where
  "whole_id p = [VStr (p_source p), VArr [fst (p_created p), snd (p_created p)]]"

definition bundleIdentity :: "bpv7 \<Rightarrow> jsval list res" where
  "bundleIdentity b = rbind (fragment_bit (nullish (p_flags (bp_primary b)) (VNum 0))) (\<lambda>frag.
     Inr (whole_id (bp_primary b) @
       (if frag then [p_fragmentOffset (bp_primary b), p_totalAduLength (bp_primary b)] else [])))"

definition sameId :: "jsval \<Rightarrow> jsval list \<Rightarrow> bool res" where
  "sameId a i = rbind (stringify a) (\<lambda>s. rbind (stringify (VArr i)) (\<lambda>t. Inr (s = t)))"

definition payloadHash :: "crypto \<Rightarrow> bpv7 \<Rightarrow> bytes res" where
  "payloadHash C b = rbind (payloadOf b) (\<lambda>p. Inr (sha256 C p))"

fun is_text :: "jsval \<Rightarrow> bool" where
  "is_text (VStr _) = True"
| "is_text _ = False"

fun is_array :: "jsval \<Rightarrow> bool" where
  "is_array (VArr _) = True"
| "is_array _ = False"

definition readBlockItems :: "bpv7 \<Rightarrow> (nat \<times> jsval list) res" where
  "readBlockItems b =
     (case filter (\<lambda>x. strict_eq (b_type x) CUSTODY_BLOCK_TYPE) (bp_blocks b) of
        [] \<Rightarrow> Inr (0, [])
      | [x] \<Rightarrow> rbind (decode (b_data x)) (\<lambda>v. case v of
            VArr (i # is) \<Rightarrow>
              if list_all is_text (i # is) then Inr (1, i # is)
              else if list_all is_array (i # is) then Inr (2, i # is)
              else Inl ''custody block malformed: receipt versions mixed in one block''
          | _ \<Rightarrow> Inl ''custody block malformed'')
      | _ \<Rightarrow> Inl ''custody block malformed: more than one in the bundle'')"

text \<open>The fields of a receipt's payload, signed or not.\<close>

record receipt2 =
  r2_prevHop :: jsval
  r2_thisHop :: jsval
  r2_bundle :: jsval
  r2_payloadHash :: jsval
  r2_receivedAt :: jsval
  r2_forwardedAt :: jsval
  r2_hopCount :: jsval
  r2_chain :: jsval

definition receiptFields :: "jsval \<Rightarrow> receipt2 res" where
  "receiptFields item = rbind (payload_map item) (\<lambda>m. Inr
     \<lparr>r2_prevHop = map_get m (VNum 1), r2_thisHop = map_get m (VNum 2), r2_bundle = map_get m (VNum 3),
      r2_payloadHash = map_get m (VNum 4), r2_receivedAt = map_get m (VNum 5), r2_forwardedAt = map_get m (VNum 6),
      r2_hopCount = map_get m (VNum 8), r2_chain = map_get m (VNum 9)\<rparr>)"

section \<open>Stamping\<close>

record stamp_options =
  o_prevHop :: jsval
  o_receivedAt :: jsval
  o_forwardedAt :: jsval
  o_subject :: jsval
  o_chain :: bool
  o_hops :: bool
  o_hopsReleased :: jsval

text \<open>The map a custodian signs; \<open>items\<close> are the receipts already in the block.\<close>

definition receipt_map :: "crypto \<Rightarrow> bpv7 \<Rightarrow> jsval list \<Rightarrow> string \<Rightarrow> jsval \<Rightarrow> stamp_options \<Rightarrow> cmap res" where
  "receipt_map C b items me prev op =
     rbind (bundleIdentity b) (\<lambda>i. rbind (payloadHash C b) (\<lambda>h.
     rbind (if o_hops op then hopCountOf b else Inr None) (\<lambda>hc.
     rbind (if o_chain op then rbind (chainDigest C items) (\<lambda>d. Inr [(VNum 9, VBytes d)]) else Inr []) (\<lambda>ch.
       Inr ([(VNum 1, prev), (VNum 2, VStr me), (VNum 3, VArr i), (VNum 4, VBytes h),
           (VNum 5, o_receivedAt op), (VNum 6, o_forwardedAt op)] @
         (if o_subject op \<noteq> VUndef then [(VNum 7, o_subject op)] else []) @
         (case hc of Some n \<Rightarrow> [(VNum 8, VArr [VNum n, nullish (o_hopsReleased op) (VNum n)])] | None \<Rightarrow> []) @ ch)))))"

definition v2_receipt :: "crypto \<Rightarrow> bpv7 \<Rightarrow> jsval list \<Rightarrow> relay \<Rightarrow> jsval \<Rightarrow> stamp_options \<Rightarrow> jsval res" where
  "v2_receipt C b items rl prev op = rbind (receipt_map C b items (r_eid rl) prev op) (\<lambda>m.
     rbind (encode (VMap m)) (\<lambda>payload. sign1 C (priv (r_kp rl)) payload [] False))"

definition stampBundleV2 :: "crypto \<Rightarrow> bytes \<Rightarrow> relay \<Rightarrow> stamp_options \<Rightarrow> bytes res" where
  "stampBundleV2 C bytes rl op =
     rbind (decodeBundle bytes) (\<lambda>b. rbind (readBlockItems b) (\<lambda>(version, items).
       if version = 1 then Inl ''block 224 holds version 1 receipts; a block holds one version''
       else if length items \<ge> MAX_RECEIPTS then Inl ''custody block full''
       else rbind (prev_hop b (o_prevHop op)) (\<lambda>prev.
         if \<not> truthy prev then Inl ''previous hop unknown: no Previous Node block and none supplied''
         else rbind (v2_receipt C b items rl prev op) (\<lambda>receipt.
           rbind (encode (VArr (items @ [receipt]))) (\<lambda>data.
             case putBlock b \<lparr>b_type = CUSTODY_BLOCK_TYPE, b_number = VUndef, b_flags = REPLICATE_IN_FRAGMENTS,
                 b_crcType = CRC32C, b_data = data\<rparr> of
               Some b' \<Rightarrow> encodeBundle b' | None \<Rightarrow> Inl ''Cannot read properties of undefined'')))))"

section \<open>Verification\<close>

text \<open>The verifier's own keys: pinned ones by EID, or a keyring.\<close>

datatype trust =
    Pinned "(string \<times> string) list"
  | Ring keyring

text \<open>
  \<open>keys[thisHop]\<close>; a name that every object inherits finds a value that is no key. \<open>VObj []\<close> stands
  for it: it is truthy and can not be read as base64.
\<close>

definition pinned_key :: "(string \<times> string) list \<Rightarrow> jsval \<Rightarrow> jsval" where
  "pinned_key keys who =
     (case map_of keys (js_String who) of
        Some p \<Rightarrow> VStr p
      | None \<Rightarrow> if js_String who \<in> set inherited_keys then VObj [] else VUndef)"

text \<open>The key that signed an item and its state in the keyring, or why it is refused.\<close>

definition custodian_key :: "crypto \<Rightarrow> trust \<Rightarrow> jsval \<Rightarrow> receipt2 \<Rightarrow> key_status option verdict res" where
  "custodian_key C tr item f =
     (case tr of
        Pinned keys \<Rightarrow> Inr (case verify1 C item (pinned_key keys (r2_thisHop f)) [] None of
            Accept _ \<Rightarrow> Accept None | Refuse reason \<Rightarrow> Refuse reason)
      | Ring K \<Rightarrow> rbind (pubsFor C K (r2_thisHop f)) (\<lambda>cands.
          if cands = [] then Inr (Refuse ''custodian_key_unknown'')
          else case find (\<lambda>p. accepted (verify1 C item (VStr p) [] None)) cands of
              None \<Rightarrow> Inr (Refuse ''signature_invalid'')
            | Some p \<Rightarrow> rbind (status C K p (r2_thisHop f) (nullish (r2_forwardedAt f) (r2_receivedAt f))) (\<lambda>st.
                Inr (case st of Accept s \<Rightarrow> Accept (Some s) | Refuse reason \<Rightarrow> Refuse reason))))"

record v2_gap =
  g_afterHop :: jsval
  g_beforeHop :: jsval
  g_lastUnsigned :: jsval
  g_unsignedNodes :: "jsval option"

definition cbind :: "'a chain_verdict res \<Rightarrow> ('a \<Rightarrow> 'b chain_verdict res) \<Rightarrow> 'b chain_verdict res" where
  "cbind r g = rbind r (\<lambda>v. case v of ChainOk x \<Rightarrow> g x | ChainBad reason hop \<Rightarrow> Inr (ChainBad reason hop))"

lemma cbind_simps [simp]: "cbind (Inl e) g = Inl e" "cbind (Inr (ChainOk x)) g = g x"
    "cbind (Inr (ChainBad reason hop)) g = Inr (ChainBad reason hop)"
  by (simp_all add: cbind_def)

lemma cbind_eq_ok [simp]: "cbind r g = Inr (ChainOk y) \<longleftrightarrow> (\<exists>x. r = Inr (ChainOk x) \<and> g x = Inr (ChainOk y))"
  by (cases r) (auto simp: cbind_def split: chain_verdict.splits)

text \<open>The receipt names the bundle received; True where it is for the whole bundle and a fragment came.\<close>

definition binding_of :: "nat \<Rightarrow> jsval list \<Rightarrow> bytes \<Rightarrow> receipt2 \<Rightarrow> bool chain_verdict res" where
  "binding_of i ident h f = rbind (sameId (r2_bundle f) ident) (\<lambda>same.
     if same then Inr (if r2_payloadHash f = VBytes h then ChainOk False else ChainBad ''payload_hash_mismatch'' (Some i))
     else rbind (if length ident = 4 then sameId (r2_bundle f) (take 2 ident) else Inr False) (\<lambda>covers.
       Inr (if covers then ChainOk True else ChainBad ''wrong_bundle'' (Some i))))"

text \<open>\<open>hopCount?.[0]\<close>, and the number of plain forwarders since the last receipt that carries counts.\<close>

definition count_in :: "jsval \<Rightarrow> jsval res" where
  "count_in hc = (if hc = VUndef \<or> hc = VNull then Inr VUndef else js_index hc 0)"

definition sized :: "jsval list option \<Rightarrow> jsval \<Rightarrow> jsval option res" where
  "sized prevHops n =
     (case prevHops of
        Some ph \<Rightarrow> if n \<noteq> VNull \<and> n \<noteq> VUndef then rbind (js_sub n (elem ph 1)) (\<lambda>d. Inr (Some d)) else Inr None
      | None \<Rightarrow> Inr None)"

definition gap_before :: "nat \<Rightarrow> bool \<Rightarrow> jsval \<Rightarrow> jsval list option \<Rightarrow> receipt2 \<Rightarrow> v2_gap list chain_verdict res" where
  "gap_before i pinnedRoute prevEid prevHops f =
     (if prevEid \<noteq> VNull \<and> \<not> strict_eq (r2_prevHop f) prevEid then
        if pinnedRoute then Inr (ChainBad ''custody_chain_break'' (Some i))
        else rbind (count_in (r2_hopCount f)) (\<lambda>n. rbind (sized prevHops n) (\<lambda>d.
          Inr (ChainOk [\<lparr>g_afterHop = prevEid, g_beforeHop = r2_thisHop f, g_lastUnsigned = r2_prevHop f, g_unsignedNodes = d\<rparr>])))
      else case prevHops of
          Some ph \<Rightarrow>
            if truthy (r2_hopCount f) then
              rbind (js_index (r2_hopCount f) 0) (\<lambda>n. rbind (js_sub n (elem ph 1)) (\<lambda>d.
                Inr (ChainOk (if js_less (VNum 0) d
                  then [\<lparr>g_afterHop = prevEid, g_beforeHop = r2_thisHop f, g_lastUnsigned = VNull, g_unsignedNodes = Some d\<rparr>]
                  else []))))
            else Inr (ChainOk [])
        | None \<Rightarrow> Inr (ChainOk []))"

definition chain_commits :: "crypto \<Rightarrow> jsval list \<Rightarrow> receipt2 \<Rightarrow> bool res" where
  "chain_commits C earlier f =
     (case r2_chain f of
        VUndef \<Rightarrow> Inr True
      | VBytes d \<Rightarrow> rbind (chainDigest C earlier) (\<lambda>e. Inr (d = e))
      | _ \<Rightarrow> Inr False)"

record v2_state =
  z_prevEid :: jsval
  z_prevHops :: "jsval list option"
  z_gaps :: "v2_gap list"
  z_unchecked :: "nat list"
  z_fields :: "receipt2 list"
  z_keys :: "key_status list"

record v2_context =
  x_trust :: trust
  x_hops :: "string list option"
  x_ident :: "jsval list"
  x_hash :: bytes

text \<open>The state after a receipt: what it adds to the gaps, the unchecked hashes and the key states.\<close>

definition advance :: "v2_state \<Rightarrow> nat \<Rightarrow> receipt2 \<Rightarrow> key_status option \<Rightarrow> bool \<Rightarrow> v2_gap list \<Rightarrow> v2_state" where
  "advance z i f st whole gs =
     \<lparr>z_prevEid = r2_thisHop f,
      z_prevHops = (case r2_hopCount f of VArr ph \<Rightarrow> Some ph | _ \<Rightarrow> None),
      z_gaps = z_gaps z @ gs,
      z_unchecked = z_unchecked z @ (if whole then [i] else []),
      z_fields = z_fields z @ [f],
      z_keys = z_keys z @ (case st of Some s \<Rightarrow> [s] | None \<Rightarrow> [])\<rparr>"

definition receipt_step :: "crypto \<Rightarrow> v2_context \<Rightarrow> jsval list \<Rightarrow> nat \<Rightarrow> v2_state \<Rightarrow> v2_state chain_verdict res" where
  "receipt_step C x items i z =
     (case receiptFields (items ! i) of
        Inl e \<Rightarrow> Inr (ChainBad ''receipt_malformed'' (Some i))
      | Inr f \<Rightarrow> rbind (chain_commits C (take i items) f) (\<lambda>ok.
          if \<not> ok then Inr (ChainBad ''chain_digest_mismatch'' (Some i))
          else rbind (custodian_key C (x_trust x) (items ! i) f) (\<lambda>v. case v of
            Refuse reason \<Rightarrow> Inr (ChainBad reason (Some i))
          | Accept st \<Rightarrow>
              if (case x_hops x of Some hs \<Rightarrow> \<not> strict_eq (r2_thisHop f) (VStr (hs ! i)) | None \<Rightarrow> False)
                then Inr (ChainBad ''unexpected_hop'' (Some i))
              else cbind (binding_of i (x_ident x) (x_hash x) f) (\<lambda>unchecked.
                cbind (gap_before i (x_hops x \<noteq> None) (z_prevEid z) (z_prevHops z) f) (\<lambda>gs.
                  Inr (ChainOk (advance z i f st unchecked gs)))))))"

text \<open>The receipts from \<open>i\<close> on; \<open>n\<close> counts those left.\<close>

primrec receipts_from :: "crypto \<Rightarrow> v2_context \<Rightarrow> jsval list \<Rightarrow> nat \<Rightarrow> nat \<Rightarrow> v2_state \<Rightarrow> v2_state chain_verdict res" where
  "receipts_from C x items 0 i z = Inr (ChainOk z)"
| "receipts_from C x items (Suc n) i z = cbind (receipt_step C x items i z) (receipts_from C x items n (Suc i))"

text \<open>The gap between the last custodian and the node that delivered the bundle.\<close>

definition last_gap :: "bpv7 \<Rightarrow> jsval \<Rightarrow> v2_state \<Rightarrow> v2_gap list res" where
  "last_gap b lastNode z = rbind (if lastNode \<noteq> VUndef then Inr lastNode else previousNode b) (\<lambda>latest.
     if truthy latest \<and> \<not> strict_eq latest (z_prevEid z) then
       rbind (hopCountOf b) (\<lambda>now. rbind
         (case (z_prevHops z, now) of (Some ph, Some n) \<Rightarrow> rbind (js_sub (VNum n) (elem ph 1)) (\<lambda>d. Inr (Some d)) | _ \<Rightarrow> Inr None)
         (\<lambda>d. Inr [\<lparr>g_afterHop = z_prevEid z, g_beforeHop = VNull, g_lastUnsigned = latest, g_unsignedNodes = d\<rparr>]))
     else Inr [])"

text \<open>Who witnessed that a signature existed before its key was revoked.\<close>

datatype witness =
    Later nat jsval
  | Arrival jsval

record witnessed =
  w_hop :: nat
  w_revokedFrom :: jsval
  w_by :: witness

definition signed_at :: "receipt2 \<Rightarrow> jsval" where
  "signed_at f = nullish (r2_forwardedAt f) (r2_receivedAt f)"

definition witness_of :: "receipt2 list \<Rightarrow> key_status list \<Rightarrow> jsval \<Rightarrow> nat \<Rightarrow> jsval \<Rightarrow> witness option" where
  "witness_of fs ks arrivedAt i T =
     (case find (\<lambda>j. r2_chain (fs ! j) \<noteq> VUndef \<and> s_revokedFrom (ks ! j) = VNull \<and> js_less (r2_receivedAt (fs ! j)) T)
         [Suc i..<length ks] of
        Some j \<Rightarrow> Some (Later j (r2_thisHop (fs ! j)))
      | None \<Rightarrow> if arrivedAt \<noteq> VUndef \<and> js_less arrivedAt T then Some (Arrival arrivedAt) else None)"

fun revoked_from_index :: "receipt2 list \<Rightarrow> key_status list \<Rightarrow> jsval \<Rightarrow> nat list \<Rightarrow> witnessed list chain_verdict" where
  "revoked_from_index fs ks arrivedAt [] = ChainOk []"
| "revoked_from_index fs ks arrivedAt (i # is) =
     (let T = s_revokedFrom (ks ! i) in
      if T = VNull \<or> T = VUndef then revoked_from_index fs ks arrivedAt is
      else if \<not> js_less (signed_at (fs ! i)) T then ChainBad ''signed_after_revocation'' (Some i)
      else case witness_of fs ks arrivedAt i T of
          None \<Rightarrow> ChainBad ''revoked_unwitnessed'' (Some i)
        | Some by \<Rightarrow> (case revoked_from_index fs ks arrivedAt is of
            ChainOk ws \<Rightarrow> ChainOk (\<lparr>w_hop = i, w_revokedFrom = T, w_by = by\<rparr> # ws)
          | ChainBad reason hop \<Rightarrow> ChainBad reason hop))"

record v2_report =
  v2_complete :: bool
  v2_custodied :: nat
  v2_gaps :: "v2_gap list"
  v2_hashUnchecked :: "nat list"
  v2_bundle :: "jsval list"
  v2_keys :: "key_status list"
  v2_witnessed :: "witnessed list"

record v2_options =
  vo_trust :: trust
  vo_arrivedAt :: jsval
  vo_origin :: jsval
  vo_lastNode :: jsval
  vo_hops :: "string list option"

definition start_state :: "jsval \<Rightarrow> v2_state" where
  "start_state origin = \<lparr>z_prevEid = (if origin = VUndef then VNull else origin), z_prevHops = None, z_gaps = [],
     z_unchecked = [], z_fields = [], z_keys = []\<rparr>"

definition report_of :: "jsval list \<Rightarrow> jsval list \<Rightarrow> v2_state \<Rightarrow> v2_gap list \<Rightarrow> witnessed list \<Rightarrow> v2_report" where
  "report_of items ident z g ws =
     \<lparr>v2_complete = (z_gaps z @ g = []), v2_custodied = length items, v2_gaps = z_gaps z @ g,
      v2_hashUnchecked = z_unchecked z, v2_bundle = ident, v2_keys = z_keys z, v2_witnessed = ws\<rparr>"

text \<open>The checks after the shape of the bundle and of the block.\<close>

definition check_items :: "crypto \<Rightarrow> v2_options \<Rightarrow> bpv7 \<Rightarrow> jsval list \<Rightarrow> jsval list \<Rightarrow> bytes \<Rightarrow> v2_report chain_verdict res" where
  "check_items C op b items ident h =
     (if (case vo_hops op of Some hs \<Rightarrow> length hs \<noteq> length items | None \<Rightarrow> False)
        then Inr (ChainBad ''wrong_hop_count'' None)
      else cbind (receipts_from C \<lparr>x_trust = vo_trust op, x_hops = vo_hops op, x_ident = ident, x_hash = h\<rparr>
          items (length items) 0 (start_state (vo_origin op))) (\<lambda>z.
        rbind (last_gap b (vo_lastNode op) z) (\<lambda>g. Inr
          (case revoked_from_index (z_fields z) (z_keys z) (vo_arrivedAt op) [0..<length (z_keys z)] of
             ChainBad reason hop \<Rightarrow> ChainBad reason hop
           | ChainOk ws \<Rightarrow> ChainOk (report_of items ident z g ws)))))"

definition verifyBundleV2 :: "crypto \<Rightarrow> bytes \<Rightarrow> v2_options \<Rightarrow> v2_report chain_verdict res" where
  "verifyBundleV2 C bytes op =
     (case decodeBundle bytes of
        Inl e \<Rightarrow> Inr (ChainBad ''bundle_malformed'' None)
      | Inr b \<Rightarrow> (case readBlockItems b of
          Inl e \<Rightarrow> Inr (ChainBad ''custody_block_malformed'' None)
        | Inr (version, items) \<Rightarrow>
            if version = 0 then Inr (ChainBad ''no_custody_block'' None)
            else if version \<noteq> 2 then Inr (ChainBad ''not_version_2'' None)
            else if length items > MAX_RECEIPTS then Inr (ChainBad ''too_many_receipts'' None)
            else rbind (bundleIdentity b) (\<lambda>ident. rbind (payloadHash C b) (check_items C op b items ident))))"

section \<open>What an accepted chain is\<close>

text \<open>Receipt \<open>i\<close> of the block passed every check of the loop; \<open>whole\<close> if its payload hash was not compared.\<close>

definition receipt_ok :: "crypto \<Rightarrow> v2_context \<Rightarrow> jsval list \<Rightarrow> nat \<Rightarrow> receipt2 \<Rightarrow> key_status option \<Rightarrow> bool \<Rightarrow> bool" where
  "receipt_ok C x items i f st whole \<longleftrightarrow> receiptFields (items ! i) = Inr f \<and>
     chain_commits C (take i items) f = Inr True \<and>
     custodian_key C (x_trust x) (items ! i) f = Inr (Accept st) \<and>
     (case x_hops x of Some hs \<Rightarrow> r2_thisHop f = VStr (hs ! i) | None \<Rightarrow> True) \<and>
     binding_of i (x_ident x) (x_hash x) f = Inr (ChainOk whole)"

text \<open>Each receipt names its predecessor as previous hop; nothing is asked of the first after \<open>null\<close>.\<close>

fun linked2 :: "jsval \<Rightarrow> receipt2 list \<Rightarrow> bool" where
  "linked2 p [] = True"
| "linked2 p (f # fs) = ((p = VNull \<or> strict_eq (r2_prevHop f) p) \<and> linked2 (r2_thisHop f) fs)"

lemma receipt_step_ok:
  assumes "receipt_step C x items i z = Inr (ChainOk z')"
  shows "\<exists>f st whole gs. receipt_ok C x items i f st whole \<and> z' = advance z i f st whole gs \<and>
    (x_hops x \<noteq> None \<longrightarrow> z_prevEid z = VNull \<or> strict_eq (r2_prevHop f) (z_prevEid z))"
proof -
  obtain f where f: "receiptFields (items ! i) = Inr f"
    using assms by (auto simp: receipt_step_def split: sum.splits)
  obtain v where com: "chain_commits C (take i items) f = Inr True"
      and v: "custodian_key C (x_trust x) (items ! i) f = Inr v"
    using assms unfolding receipt_step_def f by (auto split: if_splits)
  obtain st where st: "v = Accept st" using assms by (cases v) (simp_all add: receipt_step_def f com v)
  obtain whole gs where hop: "case x_hops x of Some hs \<Rightarrow> strict_eq (r2_thisHop f) (VStr (hs ! i)) | None \<Rightarrow> True"
      and b: "binding_of i (x_ident x) (x_hash x) f = Inr (ChainOk whole)"
      and g: "gap_before i (x_hops x \<noteq> None) (z_prevEid z) (z_prevHops z) f = Inr (ChainOk gs)"
      and z': "z' = advance z i f st whole gs"
    using assms by (auto simp: receipt_step_def f com v st split: if_splits option.splits)
  have "receipt_ok C x items i f st whole"
    using f v st com hop b by (auto simp: receipt_ok_def split: option.splits)
  moreover have "x_hops x \<noteq> None \<longrightarrow> z_prevEid z = VNull \<or> strict_eq (r2_prevHop f) (z_prevEid z)"
    using g by (auto simp: gap_before_def split: if_splits)
  ultimately show ?thesis using z' by (intro exI conjI)
qed

lemma receipts_from_ok:
  assumes "receipts_from C x items n i z = Inr (ChainOk z')"
  shows "\<exists>fs sts ws. z_fields z' = z_fields z @ fs \<and> length fs = n \<and> length sts = n \<and> length ws = n \<and>
    (\<forall>j < n. receipt_ok C x items (i + j) (fs ! j) (sts ! j) (ws ! j)) \<and>
    z_unchecked z' = z_unchecked z @ map (\<lambda>j. i + j) (filter (\<lambda>j. ws ! j) [0..<n]) \<and>
    z_keys z' = z_keys z @ concat (map (case_option [] (\<lambda>s. [s])) sts) \<and> (x_hops x \<noteq> None \<longrightarrow> linked2 (z_prevEid z) fs)"
  using assms
proof (induction n arbitrary: i z)
  case (Suc n)
  from Suc.prems obtain z1 where z1: "receipt_step C x items i z = Inr (ChainOk z1)"
      "receipts_from C x items n (Suc i) z1 = Inr (ChainOk z')" by auto
  from receipt_step_ok [OF z1(1)] obtain f st whole gs where f: "receipt_ok C x items i f st whole"
      "z1 = advance z i f st whole gs" "x_hops x \<noteq> None \<longrightarrow> z_prevEid z = VNull \<or> strict_eq (r2_prevHop f) (z_prevEid z)"
    by blast
  from Suc.IH [OF z1(2)] obtain fs sts ws where ih: "z_fields z' = z_fields z1 @ fs" "length fs = n" "length sts = n"
      "length ws = n" "\<forall>j < n. receipt_ok C x items (Suc i + j) (fs ! j) (sts ! j) (ws ! j)"
      "z_unchecked z' = z_unchecked z1 @ map (\<lambda>j. Suc i + j) (filter (\<lambda>j. ws ! j) [0..<n])"
      "z_keys z' = z_keys z1 @ concat (map (case_option [] (\<lambda>s. [s])) sts)" "x_hops x \<noteq> None \<longrightarrow> linked2 (z_prevEid z1) fs" by blast
  have "\<forall>j < Suc n. receipt_ok C x items (i + j) ((f # fs) ! j) ((st # sts) ! j) ((whole # ws) ! j)"
    using f(1) ih(5) by (auto simp: less_Suc_eq_0_disj)
  moreover have "map (\<lambda>j. i + j) (filter (\<lambda>j. (whole # ws) ! j) [0..<Suc n]) =
      (if whole then [i] else []) @ map (\<lambda>j. Suc i + j) (filter (\<lambda>j. ws ! j) [0..<n])"
    by (simp add: upt_conv_Cons map_Suc_upt [symmetric] filter_map comp_def del: upt_Suc map_Suc_upt)
  ultimately show ?case
    using f(2,3) ih by (intro exI [of _ "f # fs"] exI [of _ "st # sts"] exI [of _ "whole # ws"]) (simp add: advance_def del: upt_Suc)
qed simp

lemma check_items_ok:
  assumes "check_items C op b items ident h = Inr (ChainOk R)"
  shows "\<exists>z g ws. receipts_from C \<lparr>x_trust = vo_trust op, x_hops = vo_hops op, x_ident = ident, x_hash = h\<rparr>
      items (length items) 0 (start_state (vo_origin op)) = Inr (ChainOk z) \<and> last_gap b (vo_lastNode op) z = Inr g \<and>
    revoked_from_index (z_fields z) (z_keys z) (vo_arrivedAt op) [0..<length (z_keys z)] = ChainOk ws \<and>
    R = report_of items ident z g ws \<and> (case vo_hops op of Some hs \<Rightarrow> length hs = length items | None \<Rightarrow> True)"
proof -
  have hops: "case vo_hops op of Some hs \<Rightarrow> length hs = length items | None \<Rightarrow> True"
    using assms by (auto simp: check_items_def split: option.splits if_splits)
  then have "\<not> (case vo_hops op of Some hs \<Rightarrow> length hs \<noteq> length items | None \<Rightarrow> False)"
    by (auto split: option.splits)
  then obtain z g where "receipts_from C \<lparr>x_trust = vo_trust op, x_hops = vo_hops op, x_ident = ident, x_hash = h\<rparr>
      items (length items) 0 (start_state (vo_origin op)) = Inr (ChainOk z)" "last_gap b (vo_lastNode op) z = Inr g"
      "(case revoked_from_index (z_fields z) (z_keys z) (vo_arrivedAt op) [0..<length (z_keys z)] of
             ChainBad reason hop \<Rightarrow> ChainBad reason hop
           | ChainOk ws \<Rightarrow> ChainOk (report_of items ident z g ws)) = ChainOk R"
    using assms unfolding check_items_def by auto
  with hops show ?thesis by (cases "revoked_from_index (z_fields z) (z_keys z) (vo_arrivedAt op) [0..<length (z_keys z)]") auto
qed

lemma verifyBundleV2_ok:
  assumes "verifyBundleV2 C bytes op = Inr (ChainOk R)"
  shows "\<exists>b items ident h. decodeBundle bytes = Inr b \<and> readBlockItems b = Inr (2, items) \<and> length items \<le> MAX_RECEIPTS \<and>
    bundleIdentity b = Inr ident \<and> payloadHash C b = Inr h \<and> check_items C op b items ident h = Inr (ChainOk R)"
  using assms by (auto simp: verifyBundleV2_def split: sum.splits prod.splits if_splits)

section \<open>Soundness\<close>

lemma verify_pinned:
  assumes "verify1 C item (pinned_key keys who) aad held = Accept payload"
  shows "\<exists>p. map_of keys (js_String who) = Some p \<and> verify1 C item (VStr p) aad held = Accept payload"
proof (cases "map_of keys (js_String who)")
  case None
  have "check_sig C (VObj []) prot m a sig = False" for prot m a sig
    by (simp add: check_sig_def buffer_from_base64_def buffer_from_object_def)
  then show ?thesis using assms None
    by (auto simp: pinned_key_def verify1_def split: jsval.splits list.splits option.splits sum.splits if_splits)
qed (use assms in \<open>simp add: pinned_key_def\<close>)

lemma binding_of_ok:
  assumes "binding_of i ident h f = Inr (ChainOk whole)"
  shows "if whole then length ident = 4 \<and> sameId (r2_bundle f) (take 2 ident) = Inr True
    else sameId (r2_bundle f) ident = Inr True \<and> r2_payloadHash f = VBytes h"
  using assms by (auto simp: binding_of_def split: if_splits)

lemma chain_commits_ok:
  assumes "chain_commits C earlier f = Inr True" "r2_chain f \<noteq> VUndef"
  shows "\<exists>d. r2_chain f = VBytes d \<and> chainDigest C earlier = Inr d"
  using assms by (auto simp: chain_commits_def split: jsval.splits)

text \<open>A receipt that \<open>p\<close> signed, for the bundle \<open>ident\<close> with payload digest \<open>h\<close> or, if \<open>whole\<close>, for the bundle it is a fragment of.\<close>

definition receipt_signed :: "crypto \<Rightarrow> jsval \<Rightarrow> receipt2 \<Rightarrow> string \<Rightarrow> bool" where
  "receipt_signed C item f p \<longleftrightarrow> receiptFields item = Inr f \<and> (\<exists>payload. verify1 C item (VStr p) [] None = Accept payload)"

definition receipt_names :: "jsval list \<Rightarrow> bytes \<Rightarrow> receipt2 \<Rightarrow> bool \<Rightarrow> bool" where
  "receipt_names ident h f whole \<longleftrightarrow>
     (if whole then length ident = 4 \<and> sameId (r2_bundle f) (take 2 ident) = Inr True
      else sameId (r2_bundle f) ident = Inr True \<and> r2_payloadHash f = VBytes h)"

lemma checked_receipts:
  assumes "verifyBundleV2 C bytes op = Inr (ChainOk R)"
  shows "\<exists>b items h fs sts ws. decodeBundle bytes = Inr b \<and> readBlockItems b = Inr (2, items) \<and>
    bundleIdentity b = Inr (v2_bundle R) \<and> payloadHash C b = Inr h \<and> v2_custodied R = length items \<and>
    length items \<le> MAX_RECEIPTS \<and> length fs = length items \<and> length sts = length items \<and>
    (\<forall>i < length items. receipt_ok C \<lparr>x_trust = vo_trust op, x_hops = vo_hops op, x_ident = v2_bundle R, x_hash = h\<rparr>
       items i (fs ! i) (sts ! i) (ws ! i) \<and> (i \<in> set (v2_hashUnchecked R) \<longleftrightarrow> ws ! i)) \<and>
    (vo_hops op \<noteq> None \<longrightarrow> linked2 (if vo_origin op = VUndef then VNull else vo_origin op) fs) \<and>
    v2_keys R = concat (map (case_option [] (\<lambda>s. [s])) sts) \<and>
    revoked_from_index fs (v2_keys R) (vo_arrivedAt op) [0..<length (v2_keys R)] = ChainOk (v2_witnessed R)"
proof -
  obtain b items ident h where b: "decodeBundle bytes = Inr b" "readBlockItems b = Inr (2, items)" "length items \<le> MAX_RECEIPTS"
      "bundleIdentity b = Inr ident" "payloadHash C b = Inr h" "check_items C op b items ident h = Inr (ChainOk R)"
    using verifyBundleV2_ok [OF assms] by blast
  let ?x = "\<lparr>x_trust = vo_trust op, x_hops = vo_hops op, x_ident = ident, x_hash = h\<rparr>"
  obtain z g ws where z: "receipts_from C ?x items (length items) 0 (start_state (vo_origin op)) = Inr (ChainOk z)"
      "revoked_from_index (z_fields z) (z_keys z) (vo_arrivedAt op) [0..<length (z_keys z)] = ChainOk ws"
      "R = report_of items ident z g ws"
    using check_items_ok [OF b(6)] by blast
  from receipts_from_ok [OF z(1)] obtain fs sts us where fs: "z_fields z = fs" "length fs = length items"
      "length sts = length items" "\<forall>j < length items. receipt_ok C ?x items j (fs ! j) (sts ! j) (us ! j)"
      "z_unchecked z = filter (\<lambda>j. us ! j) [0..<length items]" "z_keys z = concat (map (case_option [] (\<lambda>s. [s])) sts)"
      "vo_hops op \<noteq> None \<longrightarrow> linked2 (if vo_origin op = VUndef then VNull else vo_origin op) fs"
    by (auto simp: start_state_def)
  have R: "v2_bundle R = ident" "v2_custodied R = length items" "v2_hashUnchecked R = filter (\<lambda>j. us ! j) [0..<length items]"
      "v2_keys R = concat (map (case_option [] (\<lambda>s. [s])) sts)" "v2_witnessed R = ws"
    by (simp_all add: z(3) report_of_def fs)
  show ?thesis
    using b fs z(2) by (intro exI [of _ b] exI [of _ items] exI [of _ h] exI [of _ fs] exI [of _ sts] exI [of _ us]) (simp add: R)
qed

text \<open>
  Property C13. What \<open>verifyBundleV2\<close> accepts with pinned keys: every receipt in the block is signed by the key
  pinned for the custodian it names, is about this bundle and has the digest of the payload received
  (or is for the whole bundle that a received fragment belongs to, and is listed as unchecked); under a
  pinned route the custodians are exactly those of the route, each naming its predecessor.
\<close>
theorem accepted_v2_receipts:
  assumes "verifyBundleV2 C bytes op = Inr (ChainOk R)" and "vo_trust op = Pinned keys"
  shows "\<exists>b items h fs. decodeBundle bytes = Inr b \<and> readBlockItems b = Inr (2, items) \<and>
    bundleIdentity b = Inr (v2_bundle R) \<and> payloadHash C b = Inr h \<and> v2_custodied R = length items \<and> length fs = length items \<and>
    (\<forall>i < length items.
       (\<exists>p. map_of keys (js_String (r2_thisHop (fs ! i))) = Some p \<and> receipt_signed C (items ! i) (fs ! i) p) \<and>
       receipt_names (v2_bundle R) h (fs ! i) (i \<in> set (v2_hashUnchecked R)) \<and>
       (case vo_hops op of Some hs \<Rightarrow> r2_thisHop (fs ! i) = VStr (hs ! i) | None \<Rightarrow> True)) \<and>
    (vo_hops op \<noteq> None \<longrightarrow> linked2 (if vo_origin op = VUndef then VNull else vo_origin op) fs)"
proof -
  obtain b items h fs sts ws where w: "decodeBundle bytes = Inr b" "readBlockItems b = Inr (2, items)"
      "bundleIdentity b = Inr (v2_bundle R)" "payloadHash C b = Inr h" "v2_custodied R = length items"
      "length fs = length items"
      "\<forall>i < length items. receipt_ok C \<lparr>x_trust = vo_trust op, x_hops = vo_hops op, x_ident = v2_bundle R, x_hash = h\<rparr>
         items i (fs ! i) (sts ! i) (ws ! i) \<and> (i \<in> set (v2_hashUnchecked R) \<longleftrightarrow> ws ! i)"
      "vo_hops op \<noteq> None \<longrightarrow> linked2 (if vo_origin op = VUndef then VNull else vo_origin op) fs"
    using checked_receipts [OF assms(1)] by blast
  have "\<exists>p. map_of keys (js_String (r2_thisHop (fs ! i))) = Some p \<and> receipt_signed C (items ! i) (fs ! i) p"
      "receipt_names (v2_bundle R) h (fs ! i) (i \<in> set (v2_hashUnchecked R))"
      "case vo_hops op of Some hs \<Rightarrow> r2_thisHop (fs ! i) = VStr (hs ! i) | None \<Rightarrow> True" if "i < length items" for i
  proof -
    note ok = w(7) [rule_format, OF that]
    from ok have "\<exists>payload. verify1 C (items ! i) (pinned_key keys (r2_thisHop (fs ! i))) [] None = Accept payload"
      by (auto simp: receipt_ok_def custodian_key_def assms(2) split: verdict.splits)
    with verify_pinned ok show "\<exists>p. map_of keys (js_String (r2_thisHop (fs ! i))) = Some p \<and> receipt_signed C (items ! i) (fs ! i) p"
      unfolding receipt_signed_def receipt_ok_def by blast
    show "receipt_names (v2_bundle R) h (fs ! i) (i \<in> set (v2_hashUnchecked R))"
      using ok binding_of_ok [of i "v2_bundle R" h "fs ! i" "ws ! i"] by (simp add: receipt_ok_def receipt_names_def)
    show "case vo_hops op of Some hs \<Rightarrow> r2_thisHop (fs ! i) = VStr (hs ! i) | None \<Rightarrow> True"
      using ok by (simp add: receipt_ok_def)
  qed
  then show ?thesis using w by (intro exI [of _ b] exI [of _ items] exI [of _ h] exI [of _ fs]) simp
qed

section \<open>Honest custodians\<close>

text \<open>A custodian on the route: its identity and what it stamps; the previous hop is the node before it.\<close>

type_synonym leg2 = "relay \<times> stamp_options"

fun stamp_route2 :: "crypto \<Rightarrow> bytes \<Rightarrow> jsval \<Rightarrow> leg2 list \<Rightarrow> bytes res" where
  "stamp_route2 C bytes prev [] = Inr bytes"
| "stamp_route2 C bytes prev ((rl, op) # ls) =
     rbind (stampBundleV2 C bytes rl (op\<lparr>o_prevHop := prev\<rparr>)) (\<lambda>bytes'. stamp_route2 C bytes' (VStr (r_eid rl)) ls)"

text \<open>The values stamped have a CBOR form and the receipts a size that a buffer can have.\<close>

fun legs2_ok :: "crypto \<Rightarrow> bpv7 \<Rightarrow> jsval list \<Rightarrow> jsval \<Rightarrow> leg2 list \<Rightarrow> bool" where
  "legs2_ok C b0 items prev [] = True"
| "legs2_ok C b0 items prev ((rl, op) # ls) =
     (keypair_ok C (r_kp rl) \<and> r_eid rl \<noteq> [] \<and> o_hopsReleased op = VUndef \<and>
      (case receipt_map C b0 items (r_eid rl) prev op of Inr m \<Rightarrow> cbor_ok max_levels (VMap m) | Inl _ \<Rightarrow> False) \<and>
      (case v2_receipt C b0 items rl prev op of
         Inr item \<Rightarrow> cbor_ok 32 item \<and> length (cbor_bytes item) < 2 ^ 40 \<and>
           legs2_ok C b0 (items @ [item]) (VStr (r_eid rl)) ls
       | Inl _ \<Rightarrow> False))"

lemma holds_identity: "holds b0 b vs \<Longrightarrow> bundleIdentity b = bundleIdentity b0"
proof -
  assume "holds b0 b vs"
  then have "bp_primary b = bp_primary b0" by (simp add: holds_def)
  then show ?thesis by (simp only: bundleIdentity_def)
qed

lemma holds_hash: "holds b0 b vs \<Longrightarrow> payloadHash C b = payloadHash C b0"
  by (simp add: payloadHash_def payload_holds)

lemma holds_hops: "holds b0 b vs \<Longrightarrow> hopCountOf b = hopCountOf b0"
  unfolding hopCountOf_def by (subst holds_find) (simp_all add: HOP_COUNT_def CUSTODY_BLOCK_TYPE_def)

lemma holds_receipt: "holds b0 b vs \<Longrightarrow> v2_receipt C b items rl prev op = v2_receipt C b0 items rl prev op"
  by (simp add: v2_receipt_def receipt_map_def holds_identity holds_hash holds_hops)

definition items_ok :: "jsval list \<Rightarrow> bool" where
  "items_ok items \<longleftrightarrow> length items \<le> MAX_RECEIPTS \<and>
     list_all (\<lambda>v. cbor_ok 32 v \<and> is_array v \<and> length (cbor_bytes v) < 2 ^ 40) items"

lemma items_ok_array:
  assumes "items_ok items"
  shows "cbor_ok max_levels (VArr items)" "int (length (cbor_bytes (VArr items))) \<le> MAX_SAFE_INTEGER"
proof -
  have ok: "list_all (cbor_ok 32) items" "length items \<le> 64"
    using assms by (auto simp: items_ok_def list_all_iff MAX_RECEIPTS_def)
  have "max_levels = Suc 32" by simp
  with ok show "cbor_ok max_levels (VArr items)" by (simp only: cbor_ok.simps) simp
  have "sum_list (map (length \<circ> cbor_bytes) items) \<le> sum_list (map (\<lambda>_. 2 ^ 40) items)"
    using assms by (intro sum_list_mono) (auto simp: items_ok_def list_all_iff less_imp_le)
  also have "\<dots> \<le> 64 * 2 ^ 40" using ok(2) by (simp add: sum_list_triv)
  finally have "length (concat (map cbor_bytes items)) \<le> 64 * 2 ^ 40" by (simp add: length_concat comp_def)
  with length_head_le [of 4 "length items"] show "int (length (cbor_bytes (VArr items))) \<le> MAX_SAFE_INTEGER"
    unfolding cbor_bytes_arrays(1) [OF ok(1)] by simp
qed

lemma readBlockItems_holds:
  assumes "holds b0 b items" "items_ok items"
  shows "readBlockItems b = Inr (if items = [] then 0 else 2, items)"
proof (cases items)
  case Nil
  with assms show ?thesis by (simp add: holds_def readBlockItems_def)
next
  case (Cons i its)
  then obtain x where "filter is_custody (bp_blocks b) = [x]" "b_data x = cbor_bytes (VArr (i # its))"
    using assms(1) by (auto simp: holds_def)
  moreover have "\<not> is_text i" "is_array i" "list_all is_array its"
    using assms(2) Cons by (cases i; auto simp: items_ok_def list_all_iff)+
  ultimately show ?thesis
    using decode_cbor_bytes [OF items_ok_array(1) [OF assms(2)]] Cons by (simp add: readBlockItems_def)
qed

lemma v2_receipt_prev [simp]: "v2_receipt C b items rl prev (op\<lparr>o_prevHop := p\<rparr>) = v2_receipt C b items rl prev op"
  by (simp add: v2_receipt_def receipt_map_def cong: option.case_cong)

lemma v2_receipt_array: "v2_receipt C b items rl prev op = Inr item \<Longrightarrow> is_array item"
  by (auto simp: v2_receipt_def sign1_def)

lemma stampBundleV2_holds:
  assumes dec: "decodeBundle bytes = Inr b" and h: "holds b0 b items" and few: "length (bp_blocks b0) < 2 ^ 31"
    and ok: "items_ok (items @ [item])"
    and prev: "prev \<noteq> VNull" "prev \<noteq> VUndef" "truthy prev"
    and r: "v2_receipt C b0 items rl prev op = Inr item"
  shows "\<exists>bytes' b'. stampBundleV2 C bytes rl (op\<lparr>o_prevHop := prev\<rparr>) = Inr bytes' \<and>
    decodeBundle bytes' = Inr b' \<and> holds b0 b' (items @ [item])"
proof -
  have ok0: "items_ok items" "length items < MAX_RECEIPTS" using ok by (simp_all add: items_ok_def)
  have "items @ [item] \<noteq> []" by simp
  from holds_put [OF h few this items_ok_array(2) [OF ok]] obtain b' where
    b': "putBlock b (custody_block (cbor_bytes (VArr (items @ [item])))) = Some b'" "holds b0 b' (items @ [item])" by blast
  then have "bundle_ok b'" by (simp add: holds_def)
  then obtain bytes' where enc: "encodeBundle b' = Inr bytes'" "decodeBundle bytes' = Inr b'"
    using encodeBundle_decodeBundle by blast
  have data: "encode (VArr (items @ [item])) = Inr (cbor_bytes (VArr (items @ [item])))"
    by (rule encode_bytes [OF items_ok_array(1) [OF ok]])
  have "v2_receipt C b items rl prev (op\<lparr>o_prevHop := prev\<rparr>) = Inr item"
    unfolding v2_receipt_prev holds_receipt [OF h] by (rule r)
  then have "stampBundleV2 C bytes rl (op\<lparr>o_prevHop := prev\<rparr>) = Inr bytes'"
    using prev ok0(2) b'(1) enc(1)
    by (simp add: stampBundleV2_def dec readBlockItems_holds [OF h ok0(1)] prev_hop_def data custody_block_def del: encode.simps)
  with enc(2) b'(2) show ?thesis by blast
qed

text \<open>What an honest item says, as the verifier reads it; \<open>hc\<close> is the count of the Hop Count block.\<close>

definition honest_item :: "crypto \<Rightarrow> jsval list \<Rightarrow> bytes \<Rightarrow> int option \<Rightarrow> jsval list \<Rightarrow> jsval \<Rightarrow> relay \<Rightarrow> jsval \<Rightarrow> bool" where
  "honest_item C ident h hc earlier item rl prev \<longleftrightarrow> (\<exists>f. receiptFields item = Inr f \<and>
     r2_prevHop f = prev \<and> r2_thisHop f = VStr (r_eid rl) \<and> r2_bundle f = VArr ident \<and> r2_payloadHash f = VBytes h \<and>
     (r2_hopCount f = VUndef \<or> (\<exists>n. hc = Some n \<and> r2_hopCount f = VArr [VNum n, VNum n])) \<and>
     chain_commits C earlier f = Inr True \<and>
     (\<exists>payload. verify1 C item (VStr (pub (r_kp rl))) [] None = Accept payload))"

lemma v2_receipt_honest:
  assumes sig: "sig_correct C" and key: "keypair_ok C (r_kp rl)" and rel: "o_hopsReleased op = VUndef"
    and m: "receipt_map C b items (r_eid rl) prev op = Inr m" "cbor_ok max_levels (VMap m)"
    and r: "v2_receipt C b items rl prev op = Inr item"
    and ids: "bundleIdentity b = Inr ident" "payloadHash C b = Inr h" "hopCountOf b = Inr hc"
  shows "honest_item C ident h hc items item rl prev"
proof -
  have s: "sign1 C (priv (r_kp rl)) (cbor_bytes (VMap m)) [] False = Inr item"
    using r m(1) encode_bytes [OF m(2)] by (simp add: v2_receipt_def del: encode.simps)
  then have item: "item = VArr [VBytes PROTECTED, VMap [], VBytes (cbor_bytes (VMap m)), elem (case item of VArr vs \<Rightarrow> vs | _ \<Rightarrow> []) 3]"
    by (auto simp: sign1_def elem_def)
  have pm: "payload_map item = Inr m"
    using decode_cbor_bytes [OF m(2)] by (subst item) (simp add: payload_map_def elem_def)
  obtain hc' ch where parts: "(if o_hops op then Inr hc else Inr None) = (Inr hc' :: int option res)"
      "(if o_chain op then rbind (chainDigest C items) (\<lambda>d. Inr [(VNum 9, VBytes d)]) else Inr []) = Inr ch"
      "m = [(VNum 1, prev), (VNum 2, VStr (r_eid rl)), (VNum 3, VArr ident), (VNum 4, VBytes h),
           (VNum 5, o_receivedAt op), (VNum 6, o_forwardedAt op)] @
         (if o_subject op \<noteq> VUndef then [(VNum 7, o_subject op)] else []) @
         (case hc' of Some n \<Rightarrow> [(VNum 8, VArr [VNum n, nullish (o_hopsReleased op) (VNum n)])] | None \<Rightarrow> []) @ ch"
    using m(1) unfolding receipt_map_def ids rbind_simps(2) by (auto simp only: rbind_eq_Inr sum.inject)
  define sub hps where "sub = (if o_subject op \<noteq> VUndef then [(VNum 7, o_subject op)] else [])"
    and "hps = (case hc' of Some n \<Rightarrow> [(VNum 8, VArr [VNum n, VNum n])] | None \<Rightarrow> [])"
  have mm: "m = [(VNum 1, prev), (VNum 2, VStr (r_eid rl)), (VNum 3, VArr ident), (VNum 4, VBytes h),
         (VNum 5, o_receivedAt op), (VNum 6, o_forwardedAt op)] @ sub @ hps @ ch"
    unfolding parts(3) sub_def hps_def rel by (simp add: nullish_def cong: option.case_cong)
  have hps: "hps = [] \<or> (\<exists>n. hc = Some n \<and> hps = [(VNum 8, VArr [VNum n, VNum n])])"
    using parts(1) by (auto simp: hps_def split: if_splits option.splits)
  have ch: "ch = [] \<or> (\<exists>d. chainDigest C items = Inr d \<and> ch = [(VNum 9, VBytes d)])"
    using parts(2) by (auto split: if_splits)
  have get: "map_get m (VNum 1) = prev" "map_get m (VNum 2) = VStr (r_eid rl)" "map_get m (VNum 3) = VArr ident"
      "map_get m (VNum 4) = VBytes h"
      "map_get m (VNum 8) = (case map_of hps (VNum 8) of Some v \<Rightarrow> v | None \<Rightarrow> VUndef)"
      "map_get m (VNum 9) = (case map_of ch (VNum 9) of Some v \<Rightarrow> v | None \<Rightarrow> VUndef)"
    using hps ch by (auto simp: mm sub_def map_get_def map_add_def split: option.splits)
  have "verify1 C item (VStr (pub (r_kp rl))) [] None = Accept (cbor_bytes (VMap m))"
    using verify1_sign1 [OF sig s, of None] key by (simp add: keypair_ok_def)
  then show ?thesis
    using hps ch by (auto simp: honest_item_def receiptFields_def pm get chain_commits_def)
qed

fun honest_items :: "crypto \<Rightarrow> jsval list \<Rightarrow> bytes \<Rightarrow> int option \<Rightarrow> jsval list \<Rightarrow> jsval \<Rightarrow> (jsval \<times> relay) list \<Rightarrow> bool" where
  "honest_items C ident h hc earlier prev [] = True"
| "honest_items C ident h hc earlier prev ((item, rl) # rest) =
     (honest_item C ident h hc earlier item rl prev \<and>
      honest_items C ident h hc (earlier @ [item]) (VStr (r_eid rl)) rest)"

lemma stamp_route2_holds:
  assumes sig: "sig_correct C" and few: "length (bp_blocks b0) < 2 ^ 31"
    and ids: "bundleIdentity b0 = Inr ident" "payloadHash C b0 = Inr h" "hopCountOf b0 = Inr hc"
  shows "\<lbrakk>decodeBundle bytes = Inr b; holds b0 b items; items_ok items; prev \<noteq> VNull; prev \<noteq> VUndef; truthy prev;
      legs2_ok C b0 items prev ls; length items + length ls \<le> MAX_RECEIPTS\<rbrakk>
    \<Longrightarrow> \<exists>bytes' b' new. stamp_route2 C bytes prev ls = Inr bytes' \<and> decodeBundle bytes' = Inr b' \<and>
      holds b0 b' (items @ new) \<and> items_ok (items @ new) \<and> length new = length ls \<and>
      honest_items C ident h hc items prev (zip new (map fst ls))"
proof (induction ls arbitrary: bytes b items prev)
  case Nil
  then show ?case by (intro exI [of _ bytes] exI [of _ b] exI [of _ "[]"]) simp
next
  case (Cons l ls)
  obtain rl op where l: "l = (rl, op)" by (cases l)
  obtain m item where leg: "keypair_ok C (r_kp rl)" "r_eid rl \<noteq> []" "o_hopsReleased op = VUndef"
      "receipt_map C b0 items (r_eid rl) prev op = Inr m" "cbor_ok max_levels (VMap m)"
      "v2_receipt C b0 items rl prev op = Inr item" "cbor_ok 32 item" "length (cbor_bytes item) < 2 ^ 40"
      "legs2_ok C b0 (items @ [item]) (VStr (r_eid rl)) ls"
    using Cons.prems(7) unfolding l legs2_ok.simps by (auto split: sum.splits)
  have ok: "items_ok (items @ [item])"
    using Cons.prems(3,8) leg v2_receipt_array [OF leg(6)] by (simp add: items_ok_def)
  obtain bytes1 b1 where one: "stampBundleV2 C bytes rl (op\<lparr>o_prevHop := prev\<rparr>) = Inr bytes1" "decodeBundle bytes1 = Inr b1"
      "holds b0 b1 (items @ [item])"
    using stampBundleV2_holds [OF Cons.prems(1,2) few ok Cons.prems(4,5,6) leg(6)] by blast
  have len: "length (items @ [item]) + length ls \<le> MAX_RECEIPTS" using Cons.prems(8) by simp
  obtain bytes' b' new where new: "stamp_route2 C bytes1 (VStr (r_eid rl)) ls = Inr bytes'"
      "decodeBundle bytes' = Inr b'" "holds b0 b' ((items @ [item]) @ new)" "items_ok ((items @ [item]) @ new)"
      "length new = length ls" "honest_items C ident h hc (items @ [item]) (VStr (r_eid rl)) (zip new (map fst ls))"
    using Cons.IH [OF one(2,3) ok _ _ _ leg(9) len] leg(2) by auto
  have "honest_item C ident h hc items item rl prev"
    by (rule v2_receipt_honest [OF sig leg(1,3,4,5,6) ids])
  then show ?case
    using new one(1) by (intro exI [of _ bytes'] exI [of _ b'] exI [of _ "item # new"]) (simp add: l)
qed

text \<open>A verifier that trusts the key of this custodian, and does not hold it revoked.\<close>

definition trusts :: "crypto \<Rightarrow> trust \<Rightarrow> relay \<Rightarrow> bool" where
  "trusts C tr rl \<longleftrightarrow> (\<forall>item f payload. verify1 C item (VStr (pub (r_kp rl))) [] None = Accept payload \<longrightarrow>
     r2_thisHop f = VStr (r_eid rl) \<longrightarrow>
     (\<exists>st. custodian_key C tr item f = Inr (Accept st) \<and> (\<forall>s. st = Some s \<longrightarrow> s_revokedFrom s = VNull)))"

lemma trusts_pinned: "map_of keys (r_eid rl) = Some (pub (r_kp rl)) \<Longrightarrow> trusts C (Pinned keys) rl"
  by (auto simp: trusts_def custodian_key_def pinned_key_def)

text \<open>The state of the loop after honest receipts.\<close>

definition honest_state :: "int option \<Rightarrow> jsval \<Rightarrow> v2_state \<Rightarrow> bool" where
  "honest_state hc prev z \<longleftrightarrow> (z_prevEid z = VNull \<or> z_prevEid z = prev \<and> is_prim prev) \<and>
     (z_prevHops z = None \<or> (\<exists>n. hc = Some n \<and> z_prevHops z = Some [VNum n, VNum n])) \<and>
     z_gaps z = [] \<and> z_unchecked z = [] \<and> (\<forall>s \<in> set (z_keys z). s_revokedFrom s = VNull)"

lemma honest_step:
  assumes z: "honest_state hc prev z" and same: "sameId (VArr (x_ident x)) (x_ident x) = Inr True"
    and item: "honest_item C (x_ident x) (x_hash x) hc (take i items) (items ! i) rl prev"
    and tr: "trusts C (x_trust x) rl" and hop: "\<forall>hs. x_hops x = Some hs \<longrightarrow> hs ! i = r_eid rl"
  shows "\<exists>z'. receipt_step C x items i z = Inr (ChainOk z') \<and> honest_state hc (VStr (r_eid rl)) z' \<and>
    z_prevEid z' = VStr (r_eid rl)"
proof -
  obtain f payload where f: "receiptFields (items ! i) = Inr f" "r2_prevHop f = prev" "r2_thisHop f = VStr (r_eid rl)"
      "r2_bundle f = VArr (x_ident x)" "r2_payloadHash f = VBytes (x_hash x)"
      "r2_hopCount f = VUndef \<or> (\<exists>n. hc = Some n \<and> r2_hopCount f = VArr [VNum n, VNum n])"
      "chain_commits C (take i items) f = Inr True" "verify1 C (items ! i) (VStr (pub (r_kp rl))) [] None = Accept payload"
    using item by (auto simp: honest_item_def)
  obtain st where st: "custodian_key C (x_trust x) (items ! i) f = Inr (Accept st)" "\<forall>s. st = Some s \<longrightarrow> s_revokedFrom s = VNull"
    using tr f(3,8) unfolding trusts_def by blast
  have "binding_of i (x_ident x) (x_hash x) f = Inr (ChainOk False)" by (simp add: binding_of_def f same)
  moreover have "z_prevEid z \<noteq> VNull \<Longrightarrow> strict_eq prev (z_prevEid z)" using z by (auto simp: honest_state_def strict_eq_def)
  then have fst: "(z_prevEid z \<noteq> VNull \<and> \<not> strict_eq (r2_prevHop f) (z_prevEid z)) = False" by (auto simp: f(2))
  have "gap_before i (x_hops x \<noteq> None) (z_prevEid z) (z_prevHops z) f = Inr (ChainOk [])"
  proof (cases "z_prevHops z")
    case (Some ph)
    then obtain n where n: "hc = Some n" "ph = [VNum n, VNum n]" using z by (auto simp: honest_state_def)
    from f(6) show ?thesis
    proof
      assume "\<exists>n. hc = Some n \<and> r2_hopCount f = VArr [VNum n, VNum n]"
      then have "r2_hopCount f = VArr [VNum n, VNum n]" using n(1) by simp
      then show ?thesis unfolding gap_before_def fst by (simp add: Some n(2) js_index_def elem_def)
    qed (unfold gap_before_def fst, simp add: Some)
  qed (unfold gap_before_def fst, simp)
  ultimately have "receipt_step C x items i z = Inr (ChainOk (advance z i f st False []))"
    using hop by (simp add: receipt_step_def f(1,3,7) st(1) split: option.splits)
  moreover have "honest_state hc (VStr (r_eid rl)) (advance z i f st False [])"
    using z st(2) f(3,6) by (auto simp: honest_state_def advance_def split: option.splits)
  ultimately show ?thesis using f(3) by (auto simp: advance_def)
qed

lemma honest_loop:
  assumes same: "sameId (VArr (x_ident x)) (x_ident x) = Inr True"
  shows "\<lbrakk>honest_items C (x_ident x) (x_hash x) hc (take i items) prev (zip (drop i items) (drop i rls)); i + n = length items;
      length rls = length items; honest_state hc prev z; z_prevEid z = VNull \<and> i = 0 \<or> z_prevEid z = prev;
      \<forall>rl \<in> set rls. trusts C (x_trust x) rl; \<forall>hs. x_hops x = Some hs \<longrightarrow> hs = map r_eid rls\<rbrakk>
    \<Longrightarrow> \<exists>z' p. receipts_from C x items n i z = Inr (ChainOk z') \<and> honest_state hc p z' \<and>
      (n > 0 \<longrightarrow> z_prevEid z' = VStr (r_eid (last rls)))"
proof (induction n arbitrary: i prev z)
  case (Suc n)
  have i: "i < length items" "i < length rls" using Suc.prems(2,3) by simp_all
  have di: "drop i items = items ! i # drop (Suc i) items" "drop i rls = rls ! i # drop (Suc i) rls"
    using i by (simp_all add: Cons_nth_drop_Suc)
  have h: "honest_item C (x_ident x) (x_hash x) hc (take i items) (items ! i) (rls ! i) prev"
      "honest_items C (x_ident x) (x_hash x) hc (take (Suc i) items) (VStr (r_eid (rls ! i)))
        (zip (drop (Suc i) items) (drop (Suc i) rls))"
    using Suc.prems(1) i(1) by (simp_all add: di take_Suc_conv_app_nth)
  have tr: "trusts C (x_trust x) (rls ! i)" "\<forall>hs. x_hops x = Some hs \<longrightarrow> hs ! i = r_eid (rls ! i)"
    using Suc.prems(6,7) i(2) by auto
  obtain z1 where z1: "receipt_step C x items i z = Inr (ChainOk z1)" "honest_state hc (VStr (r_eid (rls ! i))) z1"
      "z_prevEid z1 = VStr (r_eid (rls ! i))"
    using honest_step [OF Suc.prems(4) same h(1) tr] by blast
  have "Suc i + n = length items" using Suc.prems(2) by simp
  then obtain z' p where z': "receipts_from C x items n (Suc i) z1 = Inr (ChainOk z')" "honest_state hc p z'"
      "n > 0 \<longrightarrow> z_prevEid z' = VStr (r_eid (last rls))"
    using Suc.IH [OF h(2) _ Suc.prems(3) z1(2) _ Suc.prems(6,7)] z1(3) by blast
  have "z_prevEid z' = VStr (r_eid (last rls))"
  proof (cases n)
    case 0
    then have "rls ! i = last rls" using Suc.prems(2,3) by (metis add_diff_cancel_right' last_conv_nth list.size(3) nat.distinct(1) One_nat_def add_Suc_right add_0_right)
    then show ?thesis using z'(1) z1(3) 0 by simp
  qed (use z'(3) in simp)
  then show ?case using z1(1) z'(1,2) by auto
qed auto

lemma unrevoked_index: "\<forall>i \<in> set is'. s_revokedFrom (ks ! i) = VNull \<Longrightarrow> revoked_from_index fs ks at is' = ChainOk []"
  by (induction is') (simp_all add: Let_def)

lemma route2_accepted:
  assumes sig: "sig_correct C" and dec: "decodeBundle bytes = Inr b0" and ok: "bundle_ok b0" "length (bp_blocks b0) < 2 ^ 31"
    and fresh: "filter is_custody (bp_blocks b0) = []"
    and ids: "bundleIdentity b0 = Inr ident" "payloadHash C b0 = Inr h" "hopCountOf b0 = Inr hc"
    and same: "sameId (VArr ident) ident = Inr True"
    and prev: "is_prim prev" "truthy prev"
    and legs: "legs2_ok C b0 [] prev ls" "ls \<noteq> []" "length ls \<le> MAX_RECEIPTS"
    and op: "\<forall>l \<in> set ls. trusts C (vo_trust op) (fst l)" "\<forall>hs. vo_hops op = Some hs \<longrightarrow> hs = map (r_eid \<circ> fst) ls"
      "vo_origin op \<in> {VUndef, VNull, prev}" "vo_lastNode op \<in> {VNull, VStr (r_eid (fst (last ls)))}"
  shows "\<exists>bytes' R. stamp_route2 C bytes prev ls = Inr bytes' \<and> verifyBundleV2 C bytes' op = Inr (ChainOk R) \<and>
    v2_complete R \<and> v2_custodied R = length ls \<and> v2_hashUnchecked R = [] \<and> v2_bundle R = ident"
proof -
  have start: "holds b0 b0 []" "items_ok []" using ok(1) fresh by (simp_all add: holds_def items_ok_def)
  have nn: "prev \<noteq> VNull" "prev \<noteq> VUndef" using prev(2) by auto
  obtain bytes' b' items where new: "stamp_route2 C bytes prev ls = Inr bytes'" "decodeBundle bytes' = Inr b'"
      "holds b0 b' items" "items_ok items" "length items = length ls"
      "honest_items C ident h hc [] prev (zip items (map fst ls))"
    using stamp_route2_holds [OF sig ok(2) ids dec start nn prev(2) legs(1)] legs(3) by auto
  let ?x = "\<lparr>x_trust = vo_trust op, x_hops = vo_hops op, x_ident = ident, x_hash = h\<rparr>"
  have st: "honest_state hc prev (start_state (vo_origin op))"
    using op(3) prev(1) by (auto simp: honest_state_def start_state_def)
  have zp: "z_prevEid (start_state (vo_origin op)) = VNull \<and> (0 :: nat) = 0 \<or> z_prevEid (start_state (vo_origin op)) = prev"
    using op(3) by (auto simp: start_state_def)
  obtain z p where z: "receipts_from C ?x items (length items) 0 (start_state (vo_origin op)) = Inr (ChainOk z)"
      "honest_state hc p z" "z_prevEid z = VStr (r_eid (last (map fst ls)))"
  proof -
    have 1: "honest_items C (x_ident ?x) (x_hash ?x) hc (take 0 items) prev (zip (drop 0 items) (drop 0 (map fst ls)))"
        "0 + length items = length items" "length (map fst ls) = length items"
        "sameId (VArr (x_ident ?x)) (x_ident ?x) = Inr True"
      using new(5,6) same by simp_all
    have 2: "\<forall>rl \<in> set (map fst ls). trusts C (x_trust ?x) rl"
        "\<forall>hs. x_hops ?x = Some hs \<longrightarrow> hs = map r_eid (map fst ls)"
      using op(1,2) by simp_all
    have "length items > 0" using new(5) legs(2) by simp
    have "\<exists>z p. receipts_from C ?x items (length items) 0 (start_state (vo_origin op)) = Inr (ChainOk z) \<and> honest_state hc p z \<and>
        (length items > 0 \<longrightarrow> z_prevEid z = VStr (r_eid (last (map fst ls))))"
      by (rule honest_loop [where x = ?x, OF 1(4,1,2,3) st zp 2])
    then obtain z p where q: "receipts_from C ?x items (length items) 0 (start_state (vo_origin op)) = Inr (ChainOk z)"
        "honest_state hc p z" "length items > 0 \<longrightarrow> z_prevEid z = VStr (r_eid (last (map fst ls)))"
      by (elim exE conjE)
    show ?thesis by (rule that [OF q(1,2) mp [OF q(3) \<open>length items > 0\<close>]])
  qed
  have g: "last_gap b' (vo_lastNode op) z = Inr []"
  proof -
    have e: "z_prevEid z = VStr (r_eid (fst (last ls)))" using z(3) legs(2) by (simp add: last_map)
    from op(4) show ?thesis
    proof (elim insertE emptyE)
      assume "vo_lastNode op = VNull"
      then show ?thesis by (simp add: last_gap_def)
    next
      assume "vo_lastNode op = VStr (r_eid (fst (last ls)))"
      then show ?thesis by (simp add: last_gap_def e)
    qed
  qed
  have "revoked_from_index (z_fields z) (z_keys z) (vo_arrivedAt op) [0..<length (z_keys z)] = ChainOk []"
    using z(2) by (intro unrevoked_index) (auto simp: honest_state_def)
  then have "check_items C op b' items ident h = Inr (ChainOk (report_of items ident z [] []))"
    using z(1) g op(2) new(5) by (auto simp: check_items_def split: option.splits)
  moreover have "items \<noteq> []" using new(5) legs(2) by auto
  ultimately have "verifyBundleV2 C bytes' op = Inr (ChainOk (report_of items ident z [] []))"
    using new(4) readBlockItems_holds [OF new(3,4)] holds_identity [OF new(3)] holds_hash [OF new(3)] ids
    by (simp add: verifyBundleV2_def new(2) items_ok_def)
  with new(1,5) z(2) show ?thesis by (auto simp: report_of_def honest_state_def)
qed

text \<open>
  Property C14. A bundle that starts without receipts and passes through custodians each running
  \<open>stampBundleV2\<close> on the raw bytes (with or without the chain digest and the hop counts) is accepted by
  \<open>verifyBundleV2\<close> under their pinned keys, with a pinned route or without: the chain is complete, no
  payload hash is left unchecked and the bundle is the one that was sent.
\<close>
theorem v2_custody_accepted:
  assumes "sig_correct C" and "decodeBundle bytes = Inr b0" and "bundle_ok b0" and "length (bp_blocks b0) < 2 ^ 31"
    and "filter is_custody (bp_blocks b0) = []"
    and "bundleIdentity b0 = Inr ident" and "payloadHash C b0 = Inr h" and "hopCountOf b0 = Inr hc"
    and "sameId (VArr ident) ident = Inr True" and "is_prim prev" and "truthy prev"
    and "legs2_ok C b0 [] prev ls" and "ls \<noteq> []" and "length ls \<le> MAX_RECEIPTS"
    and "vo_trust op = Pinned keys" and "\<forall>l \<in> set ls. map_of keys (r_eid (fst l)) = Some (pub (r_kp (fst l)))"
    and "\<forall>hs. vo_hops op = Some hs \<longrightarrow> hs = map (r_eid \<circ> fst) ls"
    and "vo_origin op \<in> {VUndef, VNull, prev}" and "vo_lastNode op \<in> {VNull, VStr (r_eid (fst (last ls)))}"
  shows "\<exists>bytes' R. stamp_route2 C bytes prev ls = Inr bytes' \<and> verifyBundleV2 C bytes' op = Inr (ChainOk R) \<and>
    v2_complete R \<and> v2_custodied R = length ls \<and> v2_hashUnchecked R = [] \<and> v2_bundle R = ident"
proof -
  have "\<forall>l \<in> set ls. trusts C (vo_trust op) (fst l)" using assms(15,16) by (simp add: trusts_pinned)
  from route2_accepted [OF assms(1-14) this assms(17-19)] show ?thesis .
qed

section \<open>A concrete route\<close>

definition sample_op :: "bool \<Rightarrow> stamp_options" where
  "sample_op chain = \<lparr>o_prevHop = VUndef, o_receivedAt = VNum 1, o_forwardedAt = VNum 2, o_subject = VUndef,
     o_chain = chain, o_hops = True, o_hopsReleased = VUndef\<rparr>"

definition sample_relay :: relay where
  "sample_relay = \<lparr>r_kp = toy_key ''k'', r_eid = ''dtn://x/''\<rparr>"

text \<open>A fragment with sequence number \<open>q\<close>.\<close>

definition sample_seq :: "jsval \<Rightarrow> bpv7" where
  "sample_seq q = (sample_bundle [7])\<lparr>bp_primary := (bp_primary (sample_bundle [7]))\<lparr>p_created := (VNum 800, q)\<rparr>\<rparr>"

definition sample_ident :: "jsval \<Rightarrow> jsval list" where
  "sample_ident q = [VStr ''ipn:3.1'', VArr [VNum 800, q], VNum 0, VNum 9]"

definition big_seq :: jsval where
  "big_seq = VBig 9223372036854775808"

lemma toy_receipt2:
  assumes m: "receipt_map toy b items (r_eid rl) prev op = Inr m" "cbor_ok max_levels (VMap m)"
    and small: "length (cbor_bytes (VMap m)) \<le> 1000" "length (priv (r_kp rl)) \<le> 1000"
  shows "\<exists>item. v2_receipt toy b items rl prev op = Inr item \<and> cbor_ok 32 item \<and> length (cbor_bytes item) < 2 ^ 40"
proof -
  define p where "p = cbor_bytes (VMap m)"
  have small_p: "length p \<le> 1000" using small(1) by (simp add: p_def)
  have e: "cbor_bytes (VMap []) = [0xA0]" by code_simp
  obtain t where t: "toBeSigned PROTECTED p [] = Inr t" by (simp add: toBeSigned_Inr)
  have prot: "length PROTECTED \<le> 1000" by code_simp
  have tl: "length t \<le> 4000"
    using t small_p prot by (auto simp: toBeSigned_Inr bstr_bytes_def cbor_bytes_scalars length_head_bytes)
  define sg where "sg = ed_sign toy (priv (r_kp rl)) t"
  have sg: "length sg \<le> 6000" using tl small(2) by (simp add: sg_def toy_def)
  let ?item = "VArr [VBytes PROTECTED, VMap [], VBytes p, VBytes sg]"
  have "v2_receipt toy b items rl prev op = Inr ?item"
    using m(1) encode_bytes [OF m(2)] t by (simp add: v2_receipt_def sign1_def sg_def p_def del: encode.simps)
  moreover have el: "list_all (cbor_ok 31) [VBytes PROTECTED, VMap [], VBytes p, VBytes sg]"
    using prot small_p sg by (simp add: cbor_ok_numeral)
  then have "cbor_ok 32 ?item" by (simp add: cbor_ok_numeral)
  moreover have "length (cbor_bytes ?item) < 2 ^ 40"
    unfolding cbor_bytes_arrays(1) [OF el]
    using prot small_p sg by (simp add: cbor_bytes_scalars e length_head_bytes)
  ultimately show ?thesis by blast
qed

lemma sample_facts:
  "bundleIdentity (sample_seq q) = Inr (sample_ident q)" "payloadHash toy (sample_seq q) = Inr (sha256 toy [7])"
  "hopCountOf (sample_seq q) = Inr None" "sameId (VArr (sample_ident (VNum 0))) (sample_ident (VNum 0)) = Inr True"
  "length (bp_blocks (sample_seq q)) = 2" "filter is_custody (bp_blocks (sample_seq q)) = []"
  by (simp_all add: bundleIdentity_def sample_from_def sample_seq_def fragment_bit_def nullish_def to_prim_def whole_id_def
      sample_ident_def payloadHash_def payloadOf_def hopCountOf_def sameId_def HOP_COUNT_def PAYLOAD_def PREVIOUS_NODE_def
      CUSTODY_BLOCK_TYPE_def)

lemma sample_seq_ok: "cbor_ok 31 q \<Longrightarrow> bundle_ok (sample_seq q)"
  using sample_bundle_ok [of "[0x82, 1, 0]" "[7]"] by (simp add: sample_seq_def bundle_ok_def primary_ok_def sample_from_def)

lemma sample_legs2:
  assumes q: "q = VNum 0 \<or> q = big_seq"
  shows "legs2_ok toy (sample_seq q) [] (VStr ''dtn://src/'') [(sample_relay, sample_op chain)]"
proof -
  define m where "m = [(VNum 1, VStr ''dtn://src/''), (VNum 2, VStr ''dtn://x/''), (VNum 3, VArr (sample_ident q)),
    (VNum 4, VBytes (sha256 toy [7])), (VNum 5, VNum 1), (VNum 6, VNum 2)] @ (if chain then [(VNum 9, VBytes (sha256 toy [0x80]))] else [])"
  have rm: "receipt_map toy (sample_seq q) [] (r_eid sample_relay) (VStr ''dtn://src/'') (sample_op chain) = Inr m"
    by (simp add: receipt_map_def sample_facts sample_op_def sample_relay_def m_def chainDigest_def head_bytes_def)
  have texts: "text_ok ''dtn://src/''" "text_ok ''dtn://x/''" "text_ok ''ipn:3.1''" by (simp_all add: text_ok_ascii)
  have ok: "cbor_ok max_levels (VMap m)"
    using texts q by (auto simp: m_def sample_ident_def big_seq_def cbor_ok_numeral hash32D)
  have small: "length (cbor_bytes (VMap m)) \<le> 1000"
    using q by (auto simp: m_def sample_ident_def big_seq_def cbor_bytes_def head_num_def head_big_def length_head_bytes hash32D)
  from toy_receipt2 [OF rm ok small] rm ok show ?thesis
    by (auto simp: sample_relay_def toy_key_def sample_op_def keypair_ok_def toy_def)
qed

definition sample_verifier :: "trust \<Rightarrow> v2_options" where
  "sample_verifier tr = \<lparr>vo_trust = tr, vo_arrivedAt = VUndef, vo_origin = VNull, vo_lastNode = VNull,
     vo_hops = Some [''dtn://x/'']\<rparr>"

definition sample_keys :: "(string \<times> string) list" where
  "sample_keys = [(''dtn://x/'', pub (toy_key ''k''))]"

lemma sample_encoded:
  assumes "q = VNum 0 \<or> q = big_seq"
  obtains bytes where "encodeBundle (sample_seq q) = Inr bytes" "decodeBundle bytes = Inr (sample_seq q)" "bundle_ok (sample_seq q)"
proof -
  have "cbor_ok 31 q" using assms by (auto simp: big_seq_def cbor_ok_numeral)
  then have "bundle_ok (sample_seq q)" by (rule sample_seq_ok)
  with that encodeBundle_decodeBundle [OF this] show thesis by blast
qed

lemma v2_custody_accepted_witness:
  "\<exists>bytes bytes' R. encodeBundle (sample_seq (VNum 0)) = Inr bytes \<and>
     stamp_route2 toy bytes (VStr ''dtn://src/'') [(sample_relay, sample_op True)] = Inr bytes' \<and>
     verifyBundleV2 toy bytes' (sample_verifier (Pinned sample_keys)) = Inr (ChainOk R) \<and> v2_complete R \<and>
     v2_bundle R = sample_ident (VNum 0)"
proof -
  obtain bytes where b: "encodeBundle (sample_seq (VNum 0)) = Inr bytes" "decodeBundle bytes = Inr (sample_seq (VNum 0))"
      "bundle_ok (sample_seq (VNum 0))" by (rule sample_encoded [of "VNum 0"]) simp_all
  have "\<exists>bytes' R. stamp_route2 toy bytes (VStr ''dtn://src/'') [(sample_relay, sample_op True)] = Inr bytes' \<and>
      verifyBundleV2 toy bytes' (sample_verifier (Pinned sample_keys)) = Inr (ChainOk R) \<and> v2_complete R \<and>
      v2_custodied R = length [(sample_relay, sample_op True)] \<and> v2_hashUnchecked R = [] \<and> v2_bundle R = sample_ident (VNum 0)"
    by (rule v2_custody_accepted [OF toy_sig_correct b(2,3) _ sample_facts(6,1,2,3,4) _ _ sample_legs2, where keys = sample_keys])
      (simp_all add: sample_facts sample_verifier_def sample_relay_def sample_keys_def MAX_RECEIPTS_def)
  with b(1) show ?thesis by blast
qed

lemma sample_accepted:
  assumes "trusts toy tr sample_relay"
  obtains bytes R where "verifyBundleV2 toy bytes (sample_verifier tr) = Inr (ChainOk R)" "v2_custodied R = 1"
proof -
  obtain bytes where b: "encodeBundle (sample_seq (VNum 0)) = Inr bytes" "decodeBundle bytes = Inr (sample_seq (VNum 0))"
      "bundle_ok (sample_seq (VNum 0))" by (rule sample_encoded [of "VNum 0"]) simp_all
  have "\<exists>bytes' R. stamp_route2 toy bytes (VStr ''dtn://src/'') [(sample_relay, sample_op True)] = Inr bytes' \<and>
      verifyBundleV2 toy bytes' (sample_verifier tr) = Inr (ChainOk R) \<and> v2_complete R \<and>
      v2_custodied R = length [(sample_relay, sample_op True)] \<and> v2_hashUnchecked R = [] \<and> v2_bundle R = sample_ident (VNum 0)"
    by (rule route2_accepted [OF toy_sig_correct b(2,3) _ sample_facts(6,1,2,3,4) _ _ sample_legs2])
      (use assms in \<open>simp_all add: sample_facts sample_verifier_def MAX_RECEIPTS_def, simp add: sample_relay_def\<close>)
  with that show thesis by auto
qed

lemma accepted_v2_receipts_witness:
  "\<exists>bytes b items f. readBlockItems b = Inr (2, items) \<and> decodeBundle bytes = Inr b \<and>
     receipt_signed toy (items ! 0) f (pub (toy_key ''k'')) \<and> r2_thisHop f = VStr ''dtn://x/''"
proof -
  have "trusts toy (Pinned sample_keys) sample_relay"
    by (rule trusts_pinned) (simp add: sample_keys_def sample_relay_def)
  then obtain bytes R where R: "verifyBundleV2 toy bytes (sample_verifier (Pinned sample_keys)) = Inr (ChainOk R)"
      "v2_custodied R = 1" by (rule sample_accepted)
  have tr: "vo_trust (sample_verifier (Pinned sample_keys)) = Pinned sample_keys" by (simp add: sample_verifier_def)
  obtain b items h fs where *: "decodeBundle bytes = Inr b" "readBlockItems b = Inr (2, items)" "v2_custodied R = length items"
      "\<forall>i < length items.
       (\<exists>p. map_of sample_keys (js_String (r2_thisHop (fs ! i))) = Some p \<and> receipt_signed toy (items ! i) (fs ! i) p) \<and>
       receipt_names (v2_bundle R) h (fs ! i) (i \<in> set (v2_hashUnchecked R)) \<and>
       (case vo_hops (sample_verifier (Pinned sample_keys)) of Some hs \<Rightarrow> r2_thisHop (fs ! i) = VStr (hs ! i) | None \<Rightarrow> True)"
    using accepted_v2_receipts [OF R(1) tr] by (elim exE conjE)
  have "0 < length items" unfolding *(3) [symmetric] R(2) by simp
  from *(4) [rule_format, OF this]
  have "receipt_signed toy (items ! 0) (fs ! 0) (pub (toy_key ''k''))" "r2_thisHop (fs ! 0) = VStr ''dtn://x/''"
    by (auto simp: sample_keys_def sample_verifier_def split: if_splits)
  with *(1,2) show ?thesis by blast
qed

section \<open>Revoked keys\<close>

definition not_revoked :: "jsval \<Rightarrow> bool" where
  "not_revoked T \<longleftrightarrow> T = VNull \<or> T = VUndef"

text \<open>A later receipt whose chain digest covers receipt \<open>i\<close>, received before \<open>T\<close> and signed with a key not revoked.\<close>

definition later_witness :: "crypto \<Rightarrow> jsval list \<Rightarrow> receipt2 list \<Rightarrow> key_status list \<Rightarrow> nat \<Rightarrow> jsval \<Rightarrow> bool" where
  "later_witness C items fs ks i T \<longleftrightarrow> (\<exists>j d. i < j \<and> j < length items \<and> s_revokedFrom (ks ! j) = VNull \<and>
     js_less (r2_receivedAt (fs ! j)) T \<and> r2_chain (fs ! j) = VBytes d \<and> chainDigest C (take j items) = Inr d)"

lemma revoked_index_ok:
  assumes "revoked_from_index fs ks at its = ChainOk ws" "i \<in> set its" "\<not> not_revoked (s_revokedFrom (ks ! i))"
  shows "js_less (signed_at (fs ! i)) (s_revokedFrom (ks ! i)) \<and> witness_of fs ks at i (s_revokedFrom (ks ! i)) \<noteq> None"
  using assms(1,2)
proof (induction its arbitrary: ws)
  case (Cons k its)
  show ?case
  proof (cases "k = i")
    case True
    then show ?thesis using Cons.prems(1) assms(3)
      by (auto simp: Let_def not_revoked_def split: if_splits option.splits)
  next
    case False
    then have "i \<in> set its" using Cons.prems(2) by simp
    moreover obtain ws' where "revoked_from_index fs ks at its = ChainOk ws'"
      using Cons.prems(1) by (auto simp: Let_def split: if_splits option.splits chain_verdict.splits)
    ultimately show ?thesis using Cons.IH by blast
  qed
qed simp

lemma witness_of_ok:
  assumes "witness_of fs ks at i T \<noteq> None"
  shows "at \<noteq> VUndef \<and> js_less at T \<or> (\<exists>j. i < j \<and> j < length ks \<and> r2_chain (fs ! j) \<noteq> VUndef \<and>
    s_revokedFrom (ks ! j) = VNull \<and> js_less (r2_receivedAt (fs ! j)) T)"
proof (rule ccontr)
  assume no: "\<not> ?thesis"
  have "find (\<lambda>j. r2_chain (fs ! j) \<noteq> VUndef \<and> s_revokedFrom (ks ! j) = VNull \<and> js_less (r2_receivedAt (fs ! j)) T)
      [Suc i..<length ks] = None"
    unfolding find_None_iff using no by (metis Suc_le_lessD atLeastLessThan_iff atLeastLessThan_upt)
  with assms no show False by (auto simp: witness_of_def)
qed

lemma ring_status: "custodian_key C (Ring K) item f = Inr (Accept st) \<Longrightarrow> \<exists>s. st = Some s"
  by (auto simp: custodian_key_def split: if_splits option.splits)
    (metis verdict.exhaust verdict.simps(5,6) verdict.inject(1) verdict.distinct(1))

lemma all_known:
  assumes "\<forall>i < length sts. \<exists>s. sts ! i = Some s"
  shows "length (concat (map (case_option [] (\<lambda>s. [s])) sts)) = length sts"
proof -
  have "\<forall>st \<in> set sts. \<exists>s. st = Some s" using assms by (auto simp: in_set_conv_nth)
  then show ?thesis by (induction sts) auto
qed


definition sample_ring :: keyring where
  "sample_ring = new_keyring toy [\<lparr>a_eid = VStr ''dtn://x/'', a_pub = pub (toy_key ''k'')\<rparr>] 0"

lemma trusts_anchor: "trusts toy (Ring sample_ring) sample_relay"
proof -
  let ?p = "pub (toy_key ''k'')"
  have a: "anchors sample_ring = [(key_id toy ?p, \<lparr>a_eid = VStr ''dtn://x/'', a_pub = ?p\<rparr>)]" "records sample_ring = []"
    by (simp_all add: sample_ring_def new_keyring_def set_field_def)
  then have e: "entries sample_ring = []" by (simp add: entries_def)
  have six: "MAX_LEVELS = Suc 5" by (simp add: MAX_LEVELS_def)
  have chain: "chain_of toy sample_ring n (key_id toy ?p) = Inr (Chain (key_id toy ?p) [key_id toy ?p] all_roles None)" for n
    by (cases n) (simp_all add: a)
  have "revokedFrom toy sample_ring (key_id toy ?p) = Inr VNull"
    unfolding revokedFrom_def six revoked_from.simps chain by (simp add: pubOf_def a revocations_def e)
  then have "status toy sample_ring ?p (VStr ''dtn://x/'') t =
      Inr (Accept \<lparr>s_revokedFrom = VNull, s_anchor = key_id toy ?p, s_keyId = key_id toy ?p\<rparr>)" for t
    unfolding status_def Let_def chainOf_def chain by (simp add: a)
  moreover have "pubsFor toy sample_ring (VStr ''dtn://x/'') = Inr [?p]"
    by (simp add: pubsFor_def e a dedupe_def)
  ultimately show ?thesis
    by (auto simp: trusts_def custodian_key_def sample_relay_def accepted_def)
qed


section \<open>A sequence number of 64 bits\<close>

lemma sameId_bigint: "VBig n \<in> set (case i ! 1 of VArr vs \<Rightarrow> vs | _ \<Rightarrow> []) \<Longrightarrow> length i \<ge> 2 \<Longrightarrow> \<exists>e. sameId a i = Inl e"
proof -
  assume big: "VBig n \<in> set (case i ! 1 of VArr vs \<Rightarrow> vs | _ \<Rightarrow> [])" and l: "length i \<ge> 2"
  have throws: "\<exists>e. rmapM stringify vs = Inl e" if "v \<in> set vs" "\<exists>e. stringify v = Inl e" for v vs
    using that
  proof (induction vs)
    case (Cons w ws)
    then show ?case by (cases "stringify w") auto
  qed simp
  obtain vs where vs: "i ! 1 = VArr vs" "VBig n \<in> set vs" using big by (cases "i ! 1") simp_all
  from throws [OF vs(2)] have "\<exists>e. stringify (i ! 1) = Inl e" unfolding vs(1) by auto
  with throws [of "i ! 1" i] l have "\<exists>e. stringify (VArr i) = Inl e" by auto
  then show ?thesis by (cases "stringify a") (auto simp: sameId_def)
qed

text \<open>
  The identity of a bundle whose sequence number or creation time does not fit a double is compared
  with \<open>JSON.stringify\<close>, which throws on the BigInt the decoder returns: once the first receipt has passed the
  checks before, \<open>verifyBundleV2\<close> throws instead of returning a verdict.
\<close>
theorem bigint_identity_throws:
  assumes "decodeBundle bytes = Inr b" and "readBlockItems b = Inr (2, items)" and "length items \<le> MAX_RECEIPTS"
    and "items \<noteq> []" and "bundleIdentity b = Inr ident" and "payloadHash C b = Inr h"
    and "snd (p_created (bp_primary b)) = VBig n" and "vo_hops op = None"
    and "receiptFields (items ! 0) = Inr f" and "chain_commits C [] f = Inr True"
    and "custodian_key C (vo_trust op) (items ! 0) f = Inr (Accept st)"
  shows "\<exists>e. verifyBundleV2 C bytes op = Inl e"
proof -
  have "ident ! 1 = VArr [fst (p_created (bp_primary b)), VBig n]" "length ident \<ge> 2"
    using assms(5,7) by (auto simp: bundleIdentity_def whole_id_def)
  then obtain e where e: "sameId (r2_bundle f) ident = Inl e" using sameId_bigint [of n ident] by auto
  let ?x = "\<lparr>x_trust = vo_trust op, x_hops = None, x_ident = ident, x_hash = h\<rparr>"
  have "receipt_step C ?x items 0 z = Inl e" for z
    using assms(9-11) e by (simp add: receipt_step_def binding_of_def)
  moreover obtain k where "length items = Suc k" using assms(4) by (cases items) auto
  ultimately have "receipts_from C ?x items (length items) 0 z = Inl e" for z by simp
  then have "verifyBundleV2 C bytes op = Inl e"
    using assms(3,5,6,8) by (simp add: verifyBundleV2_def assms(1,2) check_items_def)
  then show ?thesis by blast
qed

lemma bigint_identity_throws_witness:
  "\<exists>bytes bytes' e. encodeBundle (sample_seq big_seq) = Inr bytes \<and>
     stamp_route2 toy bytes (VStr ''dtn://src/'') [(sample_relay, sample_op True)] = Inr bytes' \<and>
     verifyBundleV2 toy bytes' ((sample_verifier (Pinned sample_keys))\<lparr>vo_hops := None\<rparr>) = Inl e"
proof -
  let ?b0 = "sample_seq big_seq" and ?op = "(sample_verifier (Pinned sample_keys))\<lparr>vo_hops := None\<rparr>"
  obtain bytes where b: "encodeBundle ?b0 = Inr bytes" "decodeBundle bytes = Inr ?b0" "bundle_ok ?b0"
    by (rule sample_encoded [of big_seq]) simp_all
  have start: "holds ?b0 ?b0 []" "items_ok []" using b(3) sample_facts(6) by (simp_all add: holds_def items_ok_def)
  have "length (bp_blocks ?b0) < 2 ^ 31" by (simp add: sample_facts)
  from stamp_route2_holds [OF toy_sig_correct this sample_facts(1-3) b(2) start _ _ _ sample_legs2 [where chain = True]]
  obtain bytes' b' items where new: "stamp_route2 toy bytes (VStr ''dtn://src/'') [(sample_relay, sample_op True)] = Inr bytes'"
      "decodeBundle bytes' = Inr b'" "holds ?b0 b' items" "items_ok items" "length items = 1"
      "honest_items toy (sample_ident big_seq) (sha256 toy [7]) None [] (VStr ''dtn://src/'') (zip items [sample_relay])"
    by (auto simp: MAX_RECEIPTS_def)
  obtain item where item: "items = [item]" using new(5) by (cases items) auto
  then have rd: "readBlockItems b' = Inr (2, items)" using readBlockItems_holds [OF new(3,4)] by simp
  obtain f where f: "receiptFields item = Inr f" "r2_thisHop f = VStr (r_eid sample_relay)" "chain_commits toy [] f = Inr True"
      "\<exists>payload. verify1 toy item (VStr (pub (r_kp sample_relay))) [] None = Accept payload"
    using new(6) by (auto simp: item honest_item_def)
  have "trusts toy (Pinned sample_keys) sample_relay"
    by (rule trusts_pinned) (simp add: sample_keys_def sample_relay_def)
  then obtain st where st: "custodian_key toy (vo_trust ?op) item f = Inr (Accept st)"
    using f(2,4) unfolding trusts_def sample_verifier_def by fastforce
  have "snd (p_created (bp_primary b')) = VBig 9223372036854775808"
    using new(3) by (simp add: holds_def sample_seq_def big_seq_def)
  from bigint_identity_throws [OF new(2) rd _ _ _ _ this, of "sample_ident big_seq" toy "sha256 toy [7]" ?op f st]
  have "\<exists>e. verifyBundleV2 toy bytes' ?op = Inl e"
    using f st new(4) holds_identity [OF new(3)] holds_hash [OF new(3), of toy] sample_facts(1,2)
    by (simp add: item items_ok_def)
  with b(1) new(1) show ?thesis by blast
qed

end
