(* ===== verification/FastStamp.thy ===== *)
theory FastStamp
  imports ReceiptV2
begin

text \<open>
  transport/bpv7/fast-stamp.mjs: the custodian's fast path. A receiver is fed the bytes of one bundle as
  they arrive, computes the payload's CRC and SHA-256 on the way and never parses the payload; the
  stamp then splices a new block 224 before the payload, every other block being forwarded as received.

  The receiver is either scanning the blocks before the payload or filling a buffer of known size. The
  running SHA-256 is the bytes fed to it. Positions are offsets into the bundle, as in the code; the
  decoder works on the suffix at an offset. The main theorem: the result does not depend on how the
  bytes were cut into chunks.
\<close>

section \<open>Decoding a prefix\<close>

definition truncated :: string where
  "truncated = ''CBOR truncated''"

text \<open>\<open>readHead\<close>: major type, argument and what follows. An argument above \<open>2 ^ 53\<close> is rounded in the
  code; it exceeds every buffer either way.\<close>

definition read_head :: "bytes \<Rightarrow> ((nat \<times> nat) \<times> bytes) res" where
  "read_head bs =
     (case bs of
        [] \<Rightarrow> Inl truncated
      | ib # r \<Rightarrow>
          let ai = unat ib mod 32;
              n = (if ai < 24 then 0 else if ai = 24 then 1 else if ai = 25 then 2 else if ai = 26 then 4 else 8)
          in if ai > 27 then Inl ''unsupported CBOR head''
             else if length r < n then Inl truncated
             else Inr ((unat ib div 32, if n = 0 then ai else unbe (take n r)), drop n r))"

section \<open>The receiver\<close>

type_synonym raw_item = "nat \<times> nat \<times> jsval"

record payload_at =
  py_start :: nat
  py_dataStart :: nat
  py_dataEnd :: nat
  py_blockEnd :: nat
  py_crcType :: jsval
  py_number :: jsval
  py_flags :: jsval

text \<open>The CRC register, of the width of the block's CRC type.\<close>

datatype crc_reg =
    R16 "16 word"
  | R32 "32 word"

definition crc_start :: "jsval \<Rightarrow> crc_reg" where
  "crc_start t = (if t = CRC16 then R16 0xffff else R32 0xffffffff)"

fun crc_feed :: "crc_reg \<Rightarrow> bytes \<Rightarrow> crc_reg" where
  "crc_feed (R16 c) bs = R16 (crc16x25Update c bs)"
| "crc_feed (R32 c) bs = R32 (crc32cUpdate c bs)"

datatype rx =
    Scanning bytes nat "raw_item list"
  | Filling "raw_item list" payload_at bytes crc_reg bytes

definition rx_new :: rx where
  "rx_new = Scanning [] 1 []"

definition slice :: "nat \<Rightarrow> nat \<Rightarrow> bytes \<Rightarrow> bytes" where
  "slice i j bs = take (j - i) (drop i bs)"

text \<open>\<open>#body\<close>: copy bytes into place, hash the payload data and run the CRC over what arrived.\<close>

definition rx_fill :: "raw_item list \<Rightarrow> payload_at \<Rightarrow> bytes \<Rightarrow> crc_reg \<Rightarrow> bytes \<Rightarrow> bytes \<Rightarrow> rx res" where
  "rx_fill raws p got crc sha piece =
     (let w = length got; w' = w + length piece; got' = got @ piece;
          ce = py_blockEnd p - crcLen (py_crcType p)
      in if w' > py_blockEnd p + 1 then Inl ''trailing bytes after bundle''
         else Inr (Filling raws p got'
           (if py_crcType p = CRC_NONE then crc else crc_feed crc (slice (max w (py_start p)) (min w' ce) got'))
           (sha @ slice (max w (py_dataStart p)) (min w' (py_dataEnd p)) got')))"

text \<open>
  The fields of a block before its data: \<open>None\<close> if it is not a payload block, otherwise its number, flags,
  CRC type and the length of its data, which follows.
\<close>

definition payload_fields :: "nat \<Rightarrow> nat \<Rightarrow> bytes \<Rightarrow> ((jsval \<times> jsval \<times> jsval \<times> nat) option \<times> bytes) res" where
  "payload_fields major arg bs =
     (if major \<noteq> 4 \<or> arg \<noteq> 5 \<and> arg \<noteq> 6 then Inl ''block malformed''
      else rbind (decodeAt bs) (\<lambda>(ty, r).
        if ty \<noteq> PAYLOAD then Inr (None, r)
        else rbind (decodeAt r) (\<lambda>(number, r). rbind (decodeAt r) (\<lambda>(flags, r). rbind (decodeAt r) (\<lambda>(crc, r).
          rbind (read_head r) (\<lambda>(d, r).
            if fst d \<noteq> 2 then Inl ''payload block data is not a byte string''
            else if (if truthy crc then 6 else 5) \<noteq> arg then Inl ''payload block CRC field does not match its CRC type''
            else Inr (Some (number, flags, crc, snd d), r)))))))"

definition payload_scan :: "bytes \<Rightarrow> ((jsval \<times> jsval \<times> jsval \<times> nat) option \<times> bytes) res" where
  "payload_scan bs = rbind (read_head bs) (\<lambda>(a, r). payload_fields (fst a) (snd a) r)"

definition payload_head :: "bytes \<Rightarrow> nat \<Rightarrow> payload_at option res" where
  "payload_head h off =
     rbind (payload_scan (drop off h)) (\<lambda>(p, r). case p of
         None \<Rightarrow> Inr None
       | Some (number, flags, crc, len) \<Rightarrow>
           let dataStart = length h - length r; dataEnd = dataStart + len;
               blockEnd = dataEnd + (if crcLen crc = 0 then 0 else 1 + crcLen crc)
           in if blockEnd + 1 > buffer_limit then Inl ''ERR_OUT_OF_RANGE''
              else Inr (Some \<lparr>py_start = off, py_dataStart = dataStart, py_dataEnd = dataEnd,
                py_blockEnd = blockEnd, py_crcType = crc, py_number = number, py_flags = flags\<rparr>))"

text \<open>One round of \<open>#scan\<close>: the payload block, or the next item with its end.\<close>

definition scan_item :: "bytes \<Rightarrow> nat \<Rightarrow> bool \<Rightarrow> (payload_at + jsval \<times> nat) res" where
  "scan_item h off first =
     rbind (if first then Inr None else payload_head h off) (\<lambda>p. case p of
         Some p \<Rightarrow> Inr (Inl p)
       | None \<Rightarrow> rbind (decodeAt (drop off h)) (\<lambda>(v, r). Inr (Inr (v, length h - length r))))"

text \<open>The loop of \<open>#scan\<close>; each item takes a byte, so the length of \<open>h\<close> bounds the rounds.\<close>

primrec scan :: "nat \<Rightarrow> bytes \<Rightarrow> nat \<Rightarrow> raw_item list \<Rightarrow> rx res" where
  "scan 0 h off raws = Inr (Scanning h off raws)"
| "scan (Suc n) h off raws =
     (if off \<ge> length h then Inr (Scanning h off raws)
      else if h ! off = 0xFF then Inl ''bundle ends before a payload block''
      else case scan_item h off (raws = []) of
          Inl e \<Rightarrow> if e = truncated then Inr (Scanning h off raws) else Inl e
        | Inr (Inl p) \<Rightarrow> rx_fill raws p [] (crc_start (py_crcType p)) [] h
        | Inr (Inr (v, j)) \<Rightarrow> scan n h j (raws @ [(off, j, v)]))"

definition push :: "rx \<Rightarrow> bytes \<Rightarrow> rx res" where
  "push st piece =
     (case st of
        Filling raws p got crc sha \<Rightarrow> rx_fill raws p got crc sha piece
      | Scanning h off raws \<Rightarrow>
          let h' = h @ piece in
          if take 1 h' \<noteq> [0x9F] then Inl ''a bundle is an indefinite-length CBOR array''
          else scan (length h') h' off raws)"

fun push_all :: "rx \<Rightarrow> bytes list \<Rightarrow> rx res" where
  "push_all st [] = Inr st"
| "push_all st (c # cs) = rbind (push st c) (\<lambda>st'. push_all st' cs)"

section \<open>Validation\<close>

text \<open>\<open>checkCrc\<close> of this file: an unassigned CRC type reads past the end of the value.\<close>

definition fast_checkCrc :: "bytes \<Rightarrow> jsval \<Rightarrow> jsval \<Rightarrow> bool res" where
  "fast_checkCrc raw t val =
     (if t = CRC_NONE then Inr True
      else case val of
          VBytes c \<Rightarrow>
            if length c \<noteq> crcLen t then Inr False
            else let zeroed = take (length raw - crcLen t) raw @ zeros (crcLen t) in
              if t = CRC16 then Inr (unbe c = unat (crc16x25Update 0xffff zeroed XOR 0xffff))
              else if t = CRC32C then Inr (unbe c = unat (crc32cUpdate 0xffffffff zeroed XOR 0xffffffff))
              else Inl ''ERR_BUFFER_OUT_OF_BOUNDS''
        | _ \<Rightarrow> Inr False)"

record rx_block =
  rb_type :: jsval
  rb_number :: jsval
  rb_start :: nat
  rb_end :: nat
  rb_data :: bytes

record received =
  rc_bytes :: bytes
  rc_identity :: "jsval list"
  rc_primary :: "nat \<times> nat"
  rc_blocks :: "rx_block list"
  rc_payload :: "nat \<times> nat \<times> jsval"
  rc_hash :: bytes

text \<open>The payload block's CRC as received against the running one.\<close>

definition payload_crc_ok :: "payload_at \<Rightarrow> bytes \<Rightarrow> crc_reg \<Rightarrow> bool res" where
  "payload_crc_ok p b crc =
     (let n = crcLen (py_crcType p); field = slice (py_blockEnd p - n) (py_blockEnd p) b in
      if py_crcType p = CRC_NONE then Inr True
      else if b ! (py_blockEnd p - n - 1) \<noteq> byte_of (64 + n) then Inl ''payload block CRC field malformed''
      else if n = 0 then Inl ''ERR_OUT_OF_RANGE''
      else Inr (case crc_feed crc (zeros n) of
          R16 c \<Rightarrow> unbe field = unat (c XOR 0xffff)
        | R32 c \<Rightarrow> unbe field = unat (c XOR 0xffffffff)))"

text \<open>The extension blocks; \<open>seen\<close> are the block numbers used so far.\<close>

fun rx_blocks :: "bytes \<Rightarrow> jsval list \<Rightarrow> raw_item list \<Rightarrow> rx_block list res" where
  "rx_blocks b seen [] = Inr []"
| "rx_blocks b seen ((i, j, v) # raws) =
     (case v of
        VArr vs \<Rightarrow> (case elem vs 4 of
            VBytes data \<Rightarrow>
              if (if truthy (elem vs 3) then 6 else 5) \<noteq> length vs then Inl ''block CRC field does not match its CRC type''
              else rbind (fast_checkCrc (slice i j b) (elem vs 3) (elem vs 5)) (\<lambda>ok.
                if \<not> ok then Inl ''block CRC mismatch''
                else if is_prim (elem vs 1) \<and> elem vs 1 \<in> set seen then Inl ''duplicate block number''
                else rbind (rx_blocks b (elem vs 1 # seen) raws) (\<lambda>bs.
                  Inr (\<lparr>rb_type = elem vs 0, rb_number = elem vs 1, rb_start = i, rb_end = j, rb_data = data\<rparr> # bs)))
          | _ \<Rightarrow> Inl ''block data is not a byte string'')
      | _ \<Rightarrow> Inl ''block malformed'')"

definition rx_identity :: "bytes \<Rightarrow> raw_item \<Rightarrow> jsval list res" where
  "rx_identity b pr =
     (case pr of (i, j, v) \<Rightarrow> (case v of
        VArr vs \<Rightarrow>
          if elem vs 0 \<noteq> VNum 7 then Inl ''not a BPv7 primary block''
          else rbind (decodeEid (elem vs 3)) (\<lambda>_. rbind (decodeEid (elem vs 5)) (\<lambda>_.
            rbind (fragment_bit (elem vs 1)) (\<lambda>frag.
            if length vs \<noteq> 8 + (if frag then 2 else 0) + (if truthy (elem vs 2) then 1 else 0)
              then Inl ''primary block has the wrong number of fields''
            else rbind (fast_checkCrc (slice i j b) (elem vs 2) (last vs)) (\<lambda>ok.
              if \<not> ok then Inl ''primary block CRC mismatch''
              else rbind (decodeEid (elem vs 4)) (\<lambda>s. rbind (js_index (elem vs 6) 0) (\<lambda>t. rbind (js_index (elem vs 6) 1) (\<lambda>q.
                Inr ([VStr s, VArr [t, q]] @ (if frag then [elem vs 8, elem vs 9] else []))))))))) 
      | _ \<Rightarrow> Inl ''not a BPv7 primary block''))"

definition finish :: "crypto \<Rightarrow> rx \<Rightarrow> received res" where
  "finish C st =
     (case st of
        Scanning h off raws \<Rightarrow> Inl ''bundle truncated''
      | Filling raws p b crc sha \<Rightarrow>
          if length b \<noteq> py_blockEnd p + 1 then Inl ''bundle truncated''
          else if last b \<noteq> 0xFF then Inl ''trailing bytes after bundle''
          else rbind (payload_crc_ok p b crc) (\<lambda>ok.
            if \<not> ok then Inl ''block CRC mismatch''
            else case raws of
                [] \<Rightarrow> Inl ''not a BPv7 primary block''
              | pr # ext \<Rightarrow> rbind (rx_identity b pr) (\<lambda>ident. rbind (rx_blocks b [py_number p] ext) (\<lambda>bs.
                  Inr \<lparr>rc_bytes = b, rc_identity = ident, rc_primary = (fst pr, fst (snd pr)), rc_blocks = bs,
                    rc_payload = (py_start p, py_blockEnd p, py_number p), rc_hash = sha256 C sha\<rparr>))))"

text \<open>\<open>receiveBundle(bytes, chunk)\<close>: with a chunk of 0 the first piece pushed is empty.\<close>

function pieces :: "nat \<Rightarrow> bytes \<Rightarrow> bytes list" where
  "pieces k bs = (if bs = [] \<or> k = 0 then [] else take k bs # pieces k (drop k bs))"
  by pat_completeness auto
termination by (relation "measure (length \<circ> snd)") auto

declare pieces.simps [simp del]

definition receive_in_pieces :: "crypto \<Rightarrow> bytes \<Rightarrow> nat \<Rightarrow> received res" where
  "receive_in_pieces C bs k =
     (if bs \<noteq> [] \<and> k = 0 then Inl ''a bundle is an indefinite-length CBOR array''
      else rbind (push_all rx_new (pieces k bs)) (finish C))"

section \<open>Stamping what was received\<close>

text \<open>\<open>cached(key, value)\<close>: the cache only saves the encoding of a key and a string.\<close>

definition cached :: "int \<Rightarrow> jsval \<Rightarrow> bytes res" where
  "cached k v = rbind (encode (VNum k)) (\<lambda>a. rbind (encode v) (\<lambda>b. Inr (a @ b)))"

definition array_head :: "nat \<Rightarrow> bytes" where
  "array_head n = (if n < 24 then [byte_of (0x80 + n)] else [0x98, byte_of n])"

text \<open>The receipts in the block as bytes, and their number.\<close>

definition items_bytes :: "rx_block list \<Rightarrow> (nat \<times> bytes) res" where
  "items_bytes custody =
     (case custody of
        [] \<Rightarrow> Inr (0, [])
      | [x] \<Rightarrow> rbind (decode (rb_data x)) (\<lambda>v. case v of
            VArr (i # its) \<Rightarrow>
              if list_all is_text (i # its) then Inl ''block 224 holds version 1 receipts; a block holds one version''
              else if \<not> list_all is_array (i # its) then Inl ''custody block malformed: receipt versions mixed in one block''
              else if length (i # its) \<ge> MAX_RECEIPTS then Inl ''custody block full''
              else rbind (read_head (rb_data x)) (\<lambda>(_, r). Inr (length (i # its), r))
          | _ \<Rightarrow> Inl ''custody block malformed'')
      | _ \<Rightarrow> Inl ''custody block malformed: more than one in the bundle'')"

definition fast_prev :: "received \<Rightarrow> jsval \<Rightarrow> jsval res" where
  "fast_prev rc prevHop =
     (if truthy prevHop then Inr prevHop
      else case find (\<lambda>x. rb_type x = PREVIOUS_NODE) (rc_blocks rc) of
          None \<Rightarrow> Inr VNull
        | Some x \<Rightarrow> rbind (decode (rb_data x)) (\<lambda>v. rbind (decodeEid v) (\<lambda>e. Inr (VStr e))))"

text \<open>The receipt's payload, put together from encoded pieces.\<close>

definition fast_fields :: "received \<Rightarrow> string \<Rightarrow> jsval \<Rightarrow> stamp_options \<Rightarrow> bytes res" where
  "fast_fields rc me prev op =
     rbind (cached 1 prev) (\<lambda>p. rbind (cached 2 (VStr me)) (\<lambda>m.
     rbind (cached 3 (VArr (rc_identity rc))) (\<lambda>i. rbind (cached 4 (VBytes (rc_hash rc))) (\<lambda>h.
     rbind (cached 5 (o_receivedAt op)) (\<lambda>r. rbind (cached 6 (o_forwardedAt op)) (\<lambda>f.
     rbind (if o_subject op \<noteq> VUndef then cached 7 (o_subject op) else Inr []) (\<lambda>s.
       Inr ((if o_subject op \<noteq> VUndef then 0xA7 else 0xA6) # p @ m @ i @ h @ r @ f @ s))))))))"

definition stampReceivedParts :: "crypto \<Rightarrow> received \<Rightarrow> relay \<Rightarrow> stamp_options \<Rightarrow> bytes list res" where
  "stampReceivedParts C rc rl op =
     (let custody = filter (\<lambda>x. strict_eq (rb_type x) CUSTODY_BLOCK_TYPE) (rc_blocks rc);
          others = filter (\<lambda>x. \<not> strict_eq (rb_type x) CUSTODY_BLOCK_TYPE) (rc_blocks rc);
          used = snd (snd (rc_payload rc)) # map rb_number (rc_blocks rc)
      in rbind (items_bytes custody) (\<lambda>(count, items). rbind (fast_prev rc (o_prevHop op)) (\<lambda>prev.
        if \<not> truthy prev then Inl ''previous hop unknown: no Previous Node block and none supplied''
        else rbind (fast_fields rc (r_eid rl) prev op) (\<lambda>payload. rbind (sign1Encoded C (priv (r_kp rl)) payload) (\<lambda>receipt.
          let data = array_head (count + 1) @ items @ receipt;
              number = (case custody of x # _ \<Rightarrow> rb_number x | [] \<Rightarrow> VNum (free_number (length used) used 2))
          in rbind (sealBlock [CUSTODY_BLOCK_TYPE, number, REPLICATE_IN_FRAGMENTS, CRC32C, VBytes data] CRC32C) (\<lambda>block.
            Inr [0x9F # slice (fst (rc_primary rc)) (snd (rc_primary rc)) (rc_bytes rc) @
                   concat (map (\<lambda>x. slice (rb_start x) (rb_end x) (rc_bytes rc)) others),
                 block,
                 slice (fst (rc_payload rc)) (fst (snd (rc_payload rc))) (rc_bytes rc),
                 [0xFF]]))))))"

definition stampReceived :: "crypto \<Rightarrow> received \<Rightarrow> relay \<Rightarrow> stamp_options \<Rightarrow> bytes res" where
  "stampReceived C rc rl op = rbind (stampReceivedParts C rc rl op) (\<lambda>parts. Inr (concat parts))"

section \<open>More bytes do not change what has been decoded\<close>

text \<open>A decoder that has its answer, or an error other than \<open>truncated\<close>, keeps it when bytes are appended.\<close>

definition streams :: "(bytes \<Rightarrow> ('a \<times> bytes) res) \<Rightarrow> bool" where
  "streams dec \<longleftrightarrow> (\<forall>bs x. (\<forall>v r. dec bs = Inr (v, r) \<longrightarrow> dec (bs @ x) = Inr (v, r @ x)) \<and>
     (\<forall>e. dec bs = Inl e \<longrightarrow> e \<noteq> truncated \<longrightarrow> dec (bs @ x) = Inl e))"

lemma streamsD:
  assumes "streams dec"
  shows "dec bs = Inr (v, r) \<Longrightarrow> dec (bs @ x) = Inr (v, r @ x)"
    "dec bs = Inl e \<Longrightarrow> e \<noteq> truncated \<Longrightarrow> dec (bs @ x) = Inl e"
  using assms unfolding streams_def by blast+

lemma streamsI:
  assumes "\<And>bs x v r. dec bs = Inr (v, r) \<Longrightarrow> dec (bs @ x) = Inr (v, r @ x)"
    and "\<And>bs x e. dec bs = Inl e \<Longrightarrow> e \<noteq> truncated \<Longrightarrow> dec (bs @ x) = Inl e"
  shows "streams dec"
  unfolding streams_def using assms by blast

lemma streams_bind:
  assumes "streams dec" "\<And>v. streams (k v)"
  shows "streams (\<lambda>bs. rbind (dec bs) (\<lambda>(v, r). k v r))"
proof (rule streamsI)
  fix bs x v r
  assume "rbind (dec bs) (\<lambda>(v, r). k v r) = Inr (v, r)"
  then obtain a q where "dec bs = Inr (a, q)" "k a q = Inr (v, r)" by (auto simp: rbind_case_Inr)
  then show "rbind (dec (bs @ x)) (\<lambda>(v, r). k v r) = Inr (v, r @ x)"
    using streamsD(1) [OF assms(1)] streamsD(1) [OF assms(2)] by simp
next
  fix bs x e
  assume *: "rbind (dec bs) (\<lambda>(v, r). k v r) = Inl e" "e \<noteq> truncated"
  show "rbind (dec (bs @ x)) (\<lambda>(v, r). k v r) = Inl e"
  proof (cases "dec bs")
    case (Inl e')
    then show ?thesis using * streamsD(2) [OF assms(1)] by simp
  next
    case (Inr p)
    then obtain a q where a: "dec bs = Inr (a, q)" "k a q = Inl e" using *(1) by (cases p) auto
    then show ?thesis using * streamsD(1) [OF assms(1)] streamsD(2) [OF assms(2)] by simp
  qed
qed

lemma streams_const: "streams (\<lambda>bs. Inl e)" "streams (\<lambda>bs. Inr (v, bs))"
  by (simp_all add: streams_def)

lemma streams_if: "streams f \<Longrightarrow> streams g \<Longrightarrow> streams (\<lambda>bs. if c then f bs else g bs)"
  by (cases c) simp_all

lemma streams_take:
  "streams (\<lambda>bs. if length bs < n then Inl truncated else Inr (f (take n bs), drop n bs))"
  by (auto simp: streams_def split: if_splits)

lemma streams_take_be: "streams (take_be k)"
  unfolding take_be_def [abs_def] truncated_def [symmetric] by (rule streams_take)

lemma streams_read_arg: "streams (read_arg ai)"
  unfolding read_arg_def [abs_def] by (intro streams_if streams_const streams_take_be)

lemma streams_dec_items: "streams dec \<Longrightarrow> streams (dec_items dec n)"
proof (induction n)
  case (Suc n)
  have "streams (\<lambda>bs. rbind (dec bs) (\<lambda>(v, r). rbind (dec_items dec n r) (\<lambda>(vs, r'). Inr (v # vs, r'))))"
    by (intro streams_bind Suc streams_const)
  then show ?case by simp
qed (simp add: streams_def)

lemma streams_dec_pairs: "streams dec \<Longrightarrow> streams (dec_pairs dec n m)"
proof (induction n arbitrary: m)
  case (Suc n)
  have "streams (\<lambda>bs. rbind (dec bs) (\<lambda>(k, r). rbind (dec r) (\<lambda>(v, r'). dec_pairs dec n (map_set k v m) r')))"
    by (intro streams_bind Suc)
  then show ?case by simp
qed (simp add: streams_def)

lemma dec_until_streams:
  assumes "streams dec"
  shows "dec_until dec n bs = Inr (vs, r) \<Longrightarrow> dec_until dec (n + k) (bs @ x) = Inr (vs, r @ x)"
    "dec_until dec n bs = Inl e \<Longrightarrow> e \<noteq> truncated \<Longrightarrow> dec_until dec (n + k) (bs @ x) = Inl e"
proof (induction n arbitrary: bs vs)
  case (Suc n)
  { case 1
    show ?case
    proof (cases bs)
      case (Cons b p)
      show ?thesis
      proof (cases "b = 0xFF")
        case False
        with 1 Cons obtain v q ws where "dec bs = Inr (v, q)" "dec_until dec n q = Inr (ws, r)" "vs = v # ws"
          by (auto simp: rbind_case_Inr)
        with Cons False Suc.IH(1) [of q] streamsD(1) [OF assms, of bs v q x] show ?thesis by simp
      qed (use 1 Cons in simp)
    qed (use 1 in simp)
  next
    case 2
    show ?case
    proof (cases bs)
      case (Cons b p)
      show ?thesis
      proof (cases "dec bs")
        case (Inl e')
        then show ?thesis using 2 Cons streamsD(2) [OF assms, of bs e' x] by (auto split: if_splits)
      next
        case (Inr q)
        obtain v r where q: "dec bs = Inr (v, r)" using Inr by (cases q) auto
        then have "b \<noteq> 0xFF \<Longrightarrow> dec_until dec n r = Inl e"
          using 2 Cons by (cases "dec_until dec n r") auto
        then show ?thesis using 2 Cons q Suc.IH(2) [of r] streamsD(1) [OF assms q, of x] by (auto split: if_splits)
      qed
    qed (use 2 in \<open>simp add: truncated_def\<close>)
  }
qed (simp_all add: truncated_def)

lemma streams_dec_until: "streams dec \<Longrightarrow> streams (\<lambda>bs. dec_until dec (length bs) bs)"
  by (rule streamsI) (simp_all add: dec_until_streams)

lemma streams_dec_string: "streams (dec_string major arg)"
proof (cases arg)
  case (Some n)
  have "streams (\<lambda>bs. if length bs < n then Inl truncated else Inr
      ((if major = 2 then VBytes (take n bs) else VStr (utf8_text (take n bs))), drop n bs))"
    by (rule streams_take [of n "\<lambda>xs. if major = 2 then VBytes xs else VStr (utf8_text xs)"])
  then show ?thesis
    unfolding dec_string_def [abs_def] Some option.case truncated_def by (intro streams_if streams_const)
qed (simp add: dec_string_def [abs_def] streams_const)

lemma streams_decode_body:
  assumes "streams dec"
  shows "streams (decode_body dec major ai arg)"
proof (cases arg)
  case None
  show ?thesis unfolding decode_body_def [abs_def] None option.case dec_simple_def
    by (intro streams_if streams_const streams_dec_string streams_bind streams_dec_until assms)
next
  case (Some n)
  show ?thesis unfolding decode_body_def [abs_def] Some option.case dec_simple_def
    by (intro streams_if streams_const streams_dec_string streams_bind streams_dec_items streams_dec_pairs assms)
qed

lemma streams_decode_at: "streams (decode_at d)"
proof (induction d)
  case (Suc d)
  have step: "streams (\<lambda>r. rbind (read_arg (ib mod 32) r) (\<lambda>(arg, p). decode_body (decode_at d) (ib div 32) (ib mod 32) arg p))" for ib
    by (intro streams_bind streams_read_arg streams_decode_body Suc)
  show ?case
  proof (rule streamsI)
    fix bs x v r
    assume "decode_at (Suc d) bs = Inr (v, r)"
    then show "decode_at (Suc d) (bs @ x) = Inr (v, r @ x)"
      by (cases bs) (simp_all add: streamsD(1) [OF step])
  next
    fix bs x e
    assume "decode_at (Suc d) bs = Inl e" "e \<noteq> truncated"
    then show "decode_at (Suc d) (bs @ x) = Inl e"
      by (cases bs) (simp_all add: streamsD(2) [OF step] truncated_def)
  qed
qed (simp add: streams_const)

lemma streams_decodeAt: "streams decodeAt"
  unfolding decodeAt_def [abs_def] by (rule streams_decode_at)

lemma streams_read_head: "streams read_head"
proof (rule streamsI)
  fix bs x v r
  assume "read_head bs = Inr (v, r)"
  then show "read_head (bs @ x) = Inr (v, r @ x)"
    by (cases bs) (auto simp: read_head_def Let_def truncated_def Suc_le_eq neq_Nil_conv split: if_splits)
next
  fix bs x e
  assume "read_head bs = Inl e" "e \<noteq> truncated"
  then show "read_head (bs @ x) = Inl e"
    by (cases bs) (auto simp: read_head_def Let_def truncated_def split: if_splits)
qed

lemma streams_payload_scan: "streams payload_scan"
proof -
  have "streams (payload_fields major arg)" for major arg
    unfolding payload_fields_def [abs_def]
    by (intro streams_if streams_const streams_bind streams_decodeAt streams_read_head)
  then show ?thesis unfolding payload_scan_def [abs_def] by (intro streams_bind streams_read_head)
qed

lemma payload_head_append:
  assumes "off \<le> length h"
  shows "payload_head h off = Inr p \<Longrightarrow> payload_head (h @ x) off = Inr p"
    "payload_head h off = Inl e \<Longrightarrow> e \<noteq> truncated \<Longrightarrow> payload_head (h @ x) off = Inl e"
proof -
  have d: "drop off (h @ x) = drop off h @ x" using assms by simp
  have l: "length (h @ x) - length (r @ x) = length h - length r" for r :: bytes by simp
  note s = streamsD [OF streams_payload_scan, where bs = "drop off h" and x = x]
  { assume *: "payload_head h off = Inr p"
    then obtain q r where "payload_scan (drop off h) = Inr (q, r)" unfolding payload_head_def rbind_case_Inr by blast
    with * s(1) [OF this] show "payload_head (h @ x) off = Inr p"
      unfolding payload_head_def d by (simp only: rbind_simps prod.case l)
  next
    assume *: "payload_head h off = Inl e" "e \<noteq> truncated"
    show "payload_head (h @ x) off = Inl e"
    proof (cases "payload_scan (drop off h)")
      case (Inl e')
      then show ?thesis using * s(2) [OF Inl] unfolding payload_head_def d by simp
    next
      case (Inr qr)
      obtain q r where qr: "payload_scan (drop off h) = Inr (q, r)" using Inr by (cases qr) auto
      show ?thesis using * s(1) [OF qr] unfolding payload_head_def d qr by (simp only: rbind_simps prod.case l)
    qed
  }
qed

lemma scan_item_append:
  assumes "off \<le> length h"
  shows "scan_item h off first = Inr y \<Longrightarrow> scan_item (h @ x) off first = Inr y"
    "scan_item h off first = Inl e \<Longrightarrow> e \<noteq> truncated \<Longrightarrow> scan_item (h @ x) off first = Inl e"
proof -
  have d: "drop off (h @ x) = drop off h @ x" using assms by simp
  note s = streamsD [OF streams_decodeAt, where bs = "drop off h" and x = x]
  note p = payload_head_append [OF assms, where x = x]
  { assume *: "scan_item h off first = Inr y"
    then obtain q where q: "(if first then Inr None else payload_head h off) = Inr q" unfolding scan_item_def by auto
    then have q': "(if first then Inr None else payload_head (h @ x) off) = Inr q" using p(1) by (auto split: if_splits)
    show "scan_item (h @ x) off first = Inr y"
    proof (cases q)
      case None
      then obtain v r where "decodeAt (drop off h) = Inr (v, r)" using * unfolding scan_item_def q by (auto simp: rbind_case_Inr)
      with * s(1) [OF this] None show ?thesis unfolding scan_item_def q q' d by simp
    qed (use * in \<open>unfold scan_item_def q q', simp\<close>)
  next
    assume *: "scan_item h off first = Inl e" "e \<noteq> truncated"
    show "scan_item (h @ x) off first = Inl e"
    proof (cases "if first then Inr None else payload_head h off")
      case (Inl e')
      then show ?thesis using * p(2) [of e'] by (auto simp: scan_item_def split: if_splits)
    next
      case q: (Inr q)
      then have q': "(if first then Inr None else payload_head (h @ x) off) = Inr q" using p(1) by (auto split: if_splits)
      show ?thesis
      proof (cases q)
        case None
        then obtain "decodeAt (drop off h) = Inl e" using *(1) unfolding scan_item_def q
          by (cases "decodeAt (drop off h)") auto
        with *(2) s(2) [OF this] None show ?thesis unfolding scan_item_def q' d by simp
      qed (use *(1) in \<open>unfold scan_item_def q, simp\<close>)
    qed
  }
qed

lemma scan_item_forward: "off < length h \<Longrightarrow> scan_item h off first = Inr (Inr (v, j)) \<Longrightarrow> off < j \<and> j \<le> length h"
  by (auto simp: scan_item_def rbind_case_Inr split: option.splits dest!: decodeAt_shrinks)

section \<open>The pieces do not matter\<close>

lemma slice_empty [simp]: "j \<le> i \<Longrightarrow> slice i j xs = []"
  by (simp add: slice_def)

lemma slice_append_low: "j \<le> length xs \<Longrightarrow> slice i j (xs @ ys) = slice i j xs"
  by (cases "i \<le> j") (auto simp: slice_def)

lemma slice_glue: "i \<le> j \<Longrightarrow> j \<le> k \<Longrightarrow> slice i j xs @ slice j k xs = slice i k xs"
proof -
  assume "i \<le> j" "j \<le> k"
  then have "k - i = (j - i) + (k - j)" "i + (j - i) = j" by simp_all
  then show ?thesis by (simp only: slice_def take_add drop_drop add.commute)
qed

lemma slice_join:
  assumes "w \<le> u" "u \<le> t"
  shows "slice (max w s) (min u e) xs @ slice (max u s) (min t e) xs = slice (max w s) (min t e) xs"
proof -
  consider "u \<le> s" | "e \<le> u" "s < u" | "s < u" "u < e" by linarith
  then show ?thesis
  proof cases
    case 1
    then have "max w s = max u s" using assms by simp
    then show ?thesis using 1 assms by simp
  next
    case 2
    then show ?thesis using assms by (simp add: min_absorb2)
  next
    case 3
    show ?thesis
    proof (cases "max w s \<le> u")
      case True
      then have "slice (max w s) u xs @ slice u (min t e) xs = slice (max w s) (min t e) xs"
        using 3 assms by (intro slice_glue) simp_all
      then show ?thesis using 3 by simp
    qed (use 3 assms in simp)
  qed
qed

lemma crc_feed_append: "crc_feed c (xs @ ys) = crc_feed (crc_feed c xs) ys"
  by (cases c) (simp_all add: crc_updates_append)

lemma rx_fill_append:
  "rx_fill raws p got crc sha (a @ b) = rbind (rx_fill raws p got crc sha a) (\<lambda>st. push st b)"
proof (cases "length got + length a > py_blockEnd p + 1")
  case False
  have "slice (max (length got) i) (min (length got + length a) j) (got @ a) @
      slice (max (length got + length a) i) (min (length got + length a + length b) j) ((got @ a) @ b) =
      slice (max (length got) i) (min (length got + length a + length b) j) (got @ a @ b)" for i j
    using slice_join [of "length got" "length got + length a" "length got + length a + length b" i j "got @ a @ b"]
      slice_append_low [of "min (length got + length a) j" "got @ a" _ b] by simp
  from this [of "py_start p" "py_blockEnd p - crcLen (py_crcType p)"] this [of "py_dataStart p" "py_dataEnd p"] False
  show ?thesis by (simp add: rx_fill_def push_def Let_def crc_feed_append [symmetric] add.assoc)
qed (simp add: rx_fill_def)

lemma scan_fuel:
  assumes "length h - off \<le> n" "length h - off \<le> m"
  shows "scan n h off raws = scan m h off raws"
  using assms
proof (induction n arbitrary: m off raws)
  case 0
  then show ?case by (cases m) simp_all
next
  case (Suc n)
  show ?case
  proof (cases "length h \<le> off")
    case False
    then obtain k where m: "m = Suc k" using Suc.prems(2) by (cases m) auto
    have "scan n h j raws' = scan k h j raws'" if "scan_item h off (raws = []) = Inr (Inr (v, j))" for v j raws'
      using scan_item_forward [OF _ that] False Suc.prems m by (intro Suc.IH) auto
    then show ?thesis unfolding m scan.simps by (auto split: sum.splits)
  qed (cases m; simp)
qed

lemma push_scan: "take 1 (h @ a) = [0x9F] \<Longrightarrow> push (Scanning h off raws) a = scan (length (h @ a)) (h @ a) off raws"
  by (simp add: push_def Let_def)

lemma scan_append:
  assumes "off \<le> length h" "length h - off \<le> n" "take 1 h = [0x9F]"
  shows "scan (length (h @ x)) (h @ x) off raws = rbind (scan n h off raws) (\<lambda>st. push st x)"
  using assms
proof (induction n arbitrary: off raws)
  case 0
  moreover have "take 1 (h @ x) = [0x9F]" using 0(3) by (cases h) simp_all
  ultimately show ?case by (simp add: push_def Let_def)
next
  case (Suc n)
  have pre: "take 1 (h @ x) = [0x9F]" using Suc.prems(3) by (cases h) simp_all
  have again: "rbind (Inr (Scanning h off raws)) (\<lambda>st. push st x) = scan (length (h @ x)) (h @ x) off raws"
    using pre by (simp add: push_def Let_def)
  show ?case
  proof (cases "off < length h \<and> h ! off \<noteq> 0xFF")
    case True
    then obtain k where k: "length (h @ x) = Suc k" by (cases "length (h @ x)") auto
    have go: "(h @ x) ! off = h ! off" "\<not> length (h @ x) \<le> off" using True by (simp_all add: nth_append)
    note app = scan_item_append [OF Suc.prems(1), where x = x and first = "raws = []"]
    have step: "scan (length (h @ x)) (h @ x) off raws = (case scan_item (h @ x) off (raws = []) of
          Inl e \<Rightarrow> if e = truncated then Inr (Scanning (h @ x) off raws) else Inl e
        | Inr (Inl p) \<Rightarrow> rx_fill raws p [] (crc_start (py_crcType p)) [] (h @ x)
        | Inr (Inr (v, j)) \<Rightarrow> scan k (h @ x) j (raws @ [(off, j, v)]))"
      using True go unfolding k scan.simps by (simp only: if_False)
    show ?thesis
    proof (cases "scan_item h off (raws = [])")
      case (Inl e)
      show ?thesis
      proof (cases "e = truncated")
        case False
        then show ?thesis unfolding step app(2) [OF Inl False] using True Inl by simp
      qed (use True Inl again in simp)
    next
      case (Inr y)
      note y = app(1) [OF Inr]
      show ?thesis
      proof (cases y)
        case p: (Inl p)
        have "scan (length (h @ x)) (h @ x) off raws = rx_fill raws p [] (crc_start (py_crcType p)) [] (h @ x)"
          unfolding step y p by (simp only: sum.case)
        moreover have "scan (Suc n) h off raws = rx_fill raws p [] (crc_start (py_crcType p)) [] h"
          using True Inr p by simp
        ultimately show ?thesis by (simp only: rx_fill_append)
      next
        case (Inr vj)
        obtain v j where vj: "y = Inr (v, j)" using Inr by (cases vj) auto
        have j: "off < j" "j \<le> length h"
          using scan_item_forward [of off h "raws = []" v j] True \<open>scan_item h off (raws = []) = Inr y\<close> vj by auto
        have "scan (length (h @ x)) (h @ x) off raws = scan k (h @ x) j (raws @ [(off, j, v)])"
          unfolding step y vj by (simp only: sum.case prod.case)
        also have "\<dots> = scan (length (h @ x)) (h @ x) j (raws @ [(off, j, v)])"
          by (rule scan_fuel) (use k j in auto)
        also have "\<dots> = rbind (scan n h j (raws @ [(off, j, v)])) (\<lambda>st. push st x)"
          using j Suc.prems by (intro Suc.IH) auto
        finally show ?thesis using True \<open>scan_item h off (raws = []) = Inr y\<close> vj by simp
      qed
    qed
  next
    case False
    then consider "length h \<le> off" | "off < length h" "h ! off = 0xFF" by force
    then show ?thesis
    proof cases
      case 1
      then show ?thesis using again by simp
    next
      case 2
      then obtain k where k: "length (h @ x) = Suc k" by (cases "length (h @ x)") auto
      have "scan (length (h @ x)) (h @ x) off raws = Inl ''bundle ends before a payload block''"
        using 2 unfolding k by (simp add: nth_append)
      with 2 show ?thesis by simp
    qed
  qed
qed

text \<open>The states a receiver reaches.\<close>

definition rx_ok :: "rx \<Rightarrow> bool" where
  "rx_ok st \<longleftrightarrow> (case st of Scanning h off raws \<Rightarrow> off \<le> length h \<and> take 1 h = [0x9F] | Filling _ _ _ _ _ \<Rightarrow> True)"

lemma scan_ok: "scan n h off raws = Inr st \<Longrightarrow> off \<le> length h \<Longrightarrow> take 1 h = [0x9F] \<Longrightarrow> rx_ok st"
proof (induction n arbitrary: off raws)
  case (Suc n)
  show ?case
  proof (cases "off < length h")
    case True
    have "rx_ok st'" if "rx_fill raws p [] c [] h = Inr st'" for p c st'
      using that by (auto simp: rx_fill_def Let_def rx_ok_def split: if_splits)
    moreover have "rx_ok (Scanning h off raws)" using Suc.prems by (simp add: rx_ok_def)
    moreover have "scan n h j raws' = Inr st \<Longrightarrow> scan_item h off (raws = []) = Inr (Inr (v, j)) \<Longrightarrow> rx_ok st" for v j raws'
      using scan_item_forward [OF True] Suc.IH [of j raws'] Suc.prems(3) by blast
    ultimately show ?thesis
      using Suc.prems(1) True by (auto split: if_splits sum.splits prod.splits)
  next
    case False
    then have "st = Scanning h off raws" using Suc.prems(1) by simp
    then show ?thesis using Suc.prems by (simp add: rx_ok_def)
  qed
qed (auto simp: rx_ok_def)

lemma push_ok: "rx_ok st \<Longrightarrow> push st c = Inr st' \<Longrightarrow> rx_ok st'"
proof (cases st)
  case (Scanning h off raws)
  assume "rx_ok st" "push st c = Inr st'"
  with Scanning show ?thesis
    by (auto simp: push_def Let_def rx_ok_def [of "Scanning h off raws"] split: if_splits intro: scan_ok)
next
  case (Filling raws p got crc sha)
  assume "push st c = Inr st'"
  with Filling show ?thesis by (auto simp: push_def rx_fill_def Let_def rx_ok_def split: if_splits)
qed

lemma push_append:
  assumes "rx_ok st"
  shows "push st (a @ b) = rbind (push st a) (\<lambda>st'. push st' b)"
proof (cases st)
  case (Scanning h off raws)
  then have ok: "off \<le> length (h @ a)" "take 1 (h @ a) = [0x9F]" "take 1 (h @ a @ b) = [0x9F]"
    using assms by (auto simp: rx_ok_def take_Suc) (cases h; simp)+
  show ?thesis
    using scan_append [OF ok(1) diff_le_self ok(2), of b raws] push_scan [OF ok(2)] push_scan [OF ok(3)] Scanning
    by (simp only: append_assoc)
next
  case (Filling raws p got crc sha)
  then show ?thesis by (simp add: push_def [of _ "a @ b"] push_def [of _ a] rx_fill_append)
qed

lemma push_first: "a \<noteq> [] \<Longrightarrow> push rx_new (a @ b) = rbind (push rx_new a) (\<lambda>st'. push st' b)"
proof -
  assume a: "a \<noteq> []"
  then have t: "take 1 (a @ b) = take 1 a" by (cases a) simp_all
  show ?thesis
  proof (cases "take 1 a = [0x9F]")
    case True
    have "1 \<le> length a" using a by (cases a) simp_all
    have "take 1 (a @ b) = [0x9F]" using t True by simp
    then show ?thesis
      using scan_append [OF \<open>1 \<le> length a\<close> diff_le_self True, of b "[]"] True
        push_scan [of "[]" a 1 "[]"] push_scan [of "[]" "a @ b" 1 "[]"]
      by (simp only: rx_new_def append_Nil)
  next
    case False
    then have "take 1 (a @ b) \<noteq> [0x9F]" unfolding t .
    with False show ?thesis by (simp only: push_def rx_new_def rx.case Let_def append_Nil if_True rbind_simps not_False_eq_True)
  qed
qed

lemma push_new_ok: "a \<noteq> [] \<Longrightarrow> push rx_new a = Inr st \<Longrightarrow> rx_ok st"
proof -
  assume a: "a \<noteq> []" "push rx_new a = Inr st"
  then have t: "take 1 a = [0x9F]" by (auto simp: push_def rx_new_def Let_def split: if_splits)
  have "1 \<le> length a" using a(1) by (cases a) simp_all
  moreover have "scan (length a) a 1 [] = Inr st" using a(2) push_scan [of "[]" a 1 "[]"] t by (simp only: rx_new_def append_Nil)
  ultimately show ?thesis using scan_ok t by blast
qed

lemma push_all_concat: "rx_ok st \<Longrightarrow> cs \<noteq> [] \<Longrightarrow> push_all st cs = push st (concat cs)"
proof (induction cs arbitrary: st)
  case (Cons c cs)
  show ?case
  proof (cases "cs = []")
    case True
    then show ?thesis by (cases "push st c") simp_all
  next
    case False
    have "rbind (push st c) (\<lambda>st'. push_all st' cs) = rbind (push st c) (\<lambda>st'. push st' (concat cs))"
      by (rule rbind_cong) (use Cons push_ok False in blast)+
    then show ?thesis using push_append [OF Cons.prems(1)] by simp
  qed
qed simp

lemma push_all_pieces:
  assumes "cs \<noteq> []" "[] \<notin> set cs"
  shows "push_all rx_new cs = push rx_new (concat cs)"
proof -
  obtain c ds where c: "cs = c # ds" "c \<noteq> []" using assms by (cases cs) auto
  show ?thesis
  proof (cases "ds = []")
    case True
    then show ?thesis using c by (cases "push rx_new c") simp_all
  next
    case False
    have "rbind (push rx_new c) (\<lambda>st'. push_all st' ds) = rbind (push rx_new c) (\<lambda>st'. push st' (concat ds))"
      by (rule rbind_cong) (use push_new_ok [OF c(2)] push_all_concat False in blast)+
    then show ?thesis using push_first [OF c(2)] c(1) by simp
  qed
qed

lemma pieces_simps [simp]: "pieces k [] = []" "k > 0 \<Longrightarrow> bs \<noteq> [] \<Longrightarrow> pieces k bs = take k bs # pieces k (drop k bs)"
  by (simp_all add: pieces.simps [of k])

lemma pieces_cover: "k > 0 \<Longrightarrow> concat (pieces k bs) = bs \<and> [] \<notin> set (pieces k bs)"
proof (induction k bs rule: pieces.induct)
  case (1 k bs)
  then show ?case by (cases "bs = []") auto
qed

text \<open>
  Property C16. The receiver's result does not depend on how the convergence layer cuts the bundle: pushing any
  non-empty pieces, one after the other, leaves it in the state (or the error) of pushing them at once,
  so a bundle received in pieces of any size is the one received whole.
\<close>
theorem pieces_do_not_matter:
  assumes "cs \<noteq> []" and "[] \<notin> set cs" and "k > 0"
  shows "push_all rx_new cs = push_all rx_new [concat cs] \<and>
    receive_in_pieces C bs k = receive_in_pieces C bs (length bs)"
proof
  have "push_all rx_new [concat cs] = push rx_new (concat cs)" by (cases "push rx_new (concat cs)") simp_all
  then show "push_all rx_new cs = push_all rx_new [concat cs]" by (simp add: push_all_pieces [OF assms(1,2)])
  show "receive_in_pieces C bs k = receive_in_pieces C bs (length bs)"
  proof (cases "bs = []")
    case False
    have "push_all rx_new (pieces j bs) = push rx_new bs" if "j > 0" for j
      using push_all_pieces [of "pieces j bs"] pieces_cover [OF that, of bs] False that by auto
    from this [OF assms(3)] this [of "length bs"] False
    have "push_all rx_new (pieces k bs) = push_all rx_new (pieces (length bs) bs)"
      by (simp only: length_greater_0_conv simp_thms)
    then show ?thesis unfolding receive_in_pieces_def using False assms(3) by simp
  qed (simp add: receive_in_pieces_def)
qed

lemma pieces_do_not_matter_witness:
  "push_all rx_new [[0x9F], [0x82, 1], [0]] = push_all rx_new [[0x9F, 0x82, 1, 0]] \<and>
   receive_in_pieces toy [0x9F, 0xFF] 1 = receive_in_pieces toy [0x9F, 0xFF] 2"
proof -
  have two: "length [0x9F, 0xFF :: byte] = 2" "concat [[0x9F], [0x82, 1], [0 :: byte]] = [0x9F, 0x82, 1, 0]" by simp_all
  show ?thesis
    using pieces_do_not_matter [of "[[0x9F], [0x82, 1], [0]]" 1 toy "[0x9F, 0xFF]"] unfolding two by simp
qed

end
