(* ===== verification/Tcpcl4Wire.thy ===== *)
theory Tcpcl4Wire
  imports Utf8
begin

text \<open>
  The wire format of TCPCLv4 in \<open>gateway/tcpcl4.mjs\<close>: the encoders, the incremental \<open>Parser\<close>, and
  the reader of Node IDs in a certificate. A message that is not complete is \<open>None\<close> and takes
  nothing; \<open>parse4\<close> is one call of \<open>Parser.parse\<close> on the flag \<open>headerDone\<close> and the buffer.
\<close>

section \<open>Constants and encoders\<close>

definition magic4 :: bytes where
  "magic4 = utf8 ''dtn!''"

definition version4 :: byte where
  "version4 = 4"

text \<open>\<open>MSG\<close>\<close>

abbreviation (input) XFER_SEGMENT :: byte where "XFER_SEGMENT \<equiv> 1"
abbreviation (input) XFER_ACK :: byte where "XFER_ACK \<equiv> 2"
abbreviation (input) XFER_REFUSE :: byte where "XFER_REFUSE \<equiv> 3"
abbreviation (input) KEEPALIVE :: byte where "KEEPALIVE \<equiv> 4"
abbreviation (input) SESS_TERM :: byte where "SESS_TERM \<equiv> 5"
abbreviation (input) MSG_REJECT :: byte where "MSG_REJECT \<equiv> 6"
abbreviation (input) SESS_INIT :: byte where "SESS_INIT \<equiv> 7"

text \<open>\<open>SEG.END\<close>, \<open>SEG.START\<close>, \<open>CAN_TLS\<close> and \<open>REPLY\<close> are bits of a flag byte.\<close>

definition is_end :: "byte \<Rightarrow> bool" where
  "is_end f = bit f 0"

definition is_start :: "byte \<Rightarrow> bool" where
  "is_start f = bit f 1"

definition seg_flags :: "bool \<Rightarrow> bool \<Rightarrow> byte" where
  "seg_flags start fin = (if start then 2 else 0) + (if fin then 1 else 0)"

datatype term_reason = UNKNOWN | IDLE_TIMEOUT | VERSION_MISMATCH | BUSY | CONTACT_FAILURE | RESOURCE_EXHAUSTION

fun reason_byte :: "term_reason \<Rightarrow> byte" where
  "reason_byte UNKNOWN = 0"
| "reason_byte IDLE_TIMEOUT = 1"
| "reason_byte VERSION_MISMATCH = 2"
| "reason_byte BUSY = 3"
| "reason_byte CONTACT_FAILURE = 4"
| "reason_byte RESOURCE_EXHAUSTION = 5"

definition REPLY :: byte where
  "REPLY = 1"

definition range_error :: string where
  "range_error = ''The value is out of range''"

text \<open>\<open>writeUInt16BE\<close> and \<open>writeBigUInt64BE\<close> throw a \<open>RangeError\<close> above their width.\<close>

definition u16 :: "nat \<Rightarrow> bytes res" where
  "u16 n = (if n < 2 ^ 16 then Inr (be 2 n) else Inl range_error)"

definition u64 :: "nat \<Rightarrow> bytes res" where
  "u64 n = (if n < 2 ^ 64 then Inr (be 8 n) else Inl range_error)"

definition encodeContactHeader :: "bool \<Rightarrow> bytes" where
  "encodeContactHeader can_tls = magic4 @ [version4, if can_tls then 1 else 0]"

definition encodeSessInit :: "nat \<Rightarrow> nat \<Rightarrow> nat \<Rightarrow> string \<Rightarrow> bytes res" where
  "encodeSessInit ka seg_mru xfer_mru node =
     rbind (u16 ka) (\<lambda>k. rbind (u16 (length (utf8 node))) (\<lambda>len.
     rbind (u64 seg_mru) (\<lambda>sm. rbind (u64 xfer_mru) (\<lambda>tm.
       Inr ([SESS_INIT] @ k @ sm @ tm @ len @ utf8 node @ replicate 4 0)))))"

definition encodeSegment :: "byte \<Rightarrow> nat \<Rightarrow> bytes \<Rightarrow> bytes res" where
  "encodeSegment flags tid data =
     rbind (u64 tid) (\<lambda>i. rbind (u64 (length data)) (\<lambda>n.
       Inr ([XFER_SEGMENT, flags] @ i @ (if is_start flags then replicate 4 0 else []) @ n @ data)))"

definition encodeAck :: "byte \<Rightarrow> nat \<Rightarrow> nat \<Rightarrow> bytes res" where
  "encodeAck flags tid acked =
     rbind (u64 tid) (\<lambda>i. rbind (u64 acked) (\<lambda>n. Inr ([XFER_ACK, flags] @ i @ n)))"

definition encodeRefuse :: "nat \<Rightarrow> bytes res" where
  "encodeRefuse tid = rbind (u64 tid) (\<lambda>i. Inr ([XFER_REFUSE, 2] @ i))"

definition encodeTerm :: "byte \<Rightarrow> byte \<Rightarrow> bytes" where
  "encodeTerm flags reason = [SESS_TERM, flags, reason]"

definition encodeReject :: "byte \<Rightarrow> byte \<Rightarrow> bytes" where
  "encodeReject reason type = [MSG_REJECT, reason, type]"

section \<open>The parser\<close>

datatype msg4 =
    BadMagic
  | Contact (contact_version: byte) (contact_flags: byte)
  | SessInit (init_keepalive: nat) (init_segment_mru: nat) (init_transfer_mru: nat) (init_node: string)
  | Segment (seg_flags_of: byte) (seg_id: nat) (seg_data: bytes)
  | Ack (ack_flags: byte) (ack_id: nat) (ack_bytes: nat)
  | Refuse (refuse_reason: byte) (refuse_id: nat)
  | Keepalive
  | SessTerm (term_flags: byte) (term_reason: byte)
  | Reject (reject_reason: byte) (reject_header: byte)
  | Unknown (unknown_type: byte)
  | TooBig (big_len: nat)

text \<open>\<open>b.readUInt..BE(i)\<close> of \<open>n\<close> bytes.\<close>

definition field :: "nat \<Rightarrow> nat \<Rightarrow> bytes \<Rightarrow> nat" where
  "field i n b = unbe (take n (drop i b))"

definition slice :: "nat \<Rightarrow> nat \<Rightarrow> bytes \<Rightarrow> bytes" where
  "slice i n b = take n (drop i b)"

definition parse_header :: "bytes \<Rightarrow> (msg4 \<times> bytes) option" where
  "parse_header b =
     (if length b < 6 then None
      else Some (if take 4 b \<noteq> magic4 then BadMagic else Contact (b ! 4) (b ! 5), drop 6 b))"

definition parse_init :: "bytes \<Rightarrow> (msg4 \<times> bytes) option" where
  "parse_init b =
     (if length b < 21 then None else
      let idLen = field 19 2 b in
      if length b < 21 + idLen + 4 then None else
      let extLen = field (21 + idLen) 4 b; total = 21 + idLen + 4 + extLen in
      if length b < total then None
      else Some (SessInit (field 1 2 b) (field 3 8 b) (field 11 8 b) (utf8_text (slice 21 idLen b)), drop total b))"

text \<open>Where the length of a segment's data stands: after the extension items of a \<open>START\<close> segment.\<close>

definition seg_off :: "bytes \<Rightarrow> nat" where
  "seg_off b = (if is_start (b ! 1) then 14 + field 10 4 b else 10)"

definition parse_segment :: "nat \<Rightarrow> bytes \<Rightarrow> (msg4 \<times> bytes) option" where
  "parse_segment max_segment b =
     (if length b < 10 then None
      else if is_start (b ! 1) \<and> length b < 14 then None
      else if length b < seg_off b + 8 then None else
      let len = field (seg_off b) 8 b; off = seg_off b + 8 in
      if max_segment < len then Some (TooBig len, b)
      else if length b < off + len then None
      else Some (Segment (b ! 1) (field 2 8 b) (slice off len b), drop (off + len) b))"

definition parse_ack :: "bytes \<Rightarrow> (msg4 \<times> bytes) option" where
  "parse_ack b = (if length b < 18 then None else Some (Ack (b ! 1) (field 2 8 b) (field 10 8 b), drop 18 b))"

definition parse_refuse :: "bytes \<Rightarrow> (msg4 \<times> bytes) option" where
  "parse_refuse b = (if length b < 10 then None else Some (Refuse (b ! 1) (field 2 8 b), drop 10 b))"

definition parse_term :: "bytes \<Rightarrow> (msg4 \<times> bytes) option" where
  "parse_term b = (if length b < 3 then None else Some (SessTerm (b ! 1) (b ! 2), drop 3 b))"

definition parse_reject :: "bytes \<Rightarrow> (msg4 \<times> bytes) option" where
  "parse_reject b = (if length b < 3 then None else Some (Reject (b ! 1) (b ! 2), drop 3 b))"

definition parse_typed :: "nat \<Rightarrow> bytes \<Rightarrow> (msg4 \<times> bytes) option" where
  "parse_typed max_segment b =
     (if length b < 1 then None
      else let type = b ! 0 in
        if type = SESS_INIT then parse_init b
        else if type = XFER_SEGMENT then parse_segment max_segment b
        else if type = XFER_ACK then parse_ack b
        else if type = XFER_REFUSE then parse_refuse b
        else if type = KEEPALIVE then Some (Keepalive, drop 1 b)
        else if type = SESS_TERM then parse_term b
        else if type = MSG_REJECT then parse_reject b
        else Some (Unknown type, drop 1 b))"

definition parse4 :: "bool \<Rightarrow> nat \<Rightarrow> bytes \<Rightarrow> (msg4 \<times> bytes) option" where
  "parse4 header_done max_segment b = (if header_done then parse_typed max_segment b else parse_header b)"

section \<open>Node IDs in a certificate\<close>

definition bundle_eid_oid :: bytes where
  "bundle_eid_oid = [0x06, 0x08, 0x2b, 0x06, 0x01, 0x05, 0x05, 0x07, 0x08, 0x0b]"

text \<open>A byte past the end of a Buffer is \<open>undefined\<close>; as a number it is 0 under a bit mask and NaN
  (\<open>None\<close>) in a sum.\<close>

definition at :: "bytes \<Rightarrow> nat \<Rightarrow> byte option" where
  "at b i = (if i < length b then Some (b ! i) else None)"

definition derLen :: "bytes \<Rightarrow> nat \<Rightarrow> nat option \<times> nat" where
  "derLen b i =
     (case at b i of
        Some x \<Rightarrow>
          if x < 0x80 then (Some (unat x), i + 1)
          else (let n = unat x mod 128 in
            (if i + n < length b then Some (field (i + 1) n b) else None, i + 1 + n))
      | None \<Rightarrow> (Some 0, i + 1))"

text \<open>\<open>toString("latin1")\<close>: one character per byte, two bytes of UTF-8 from 0x80 on.\<close>

definition latin1 :: "bytes \<Rightarrow> string" where
  "latin1 bs = utf8_string (concat (map (\<lambda>b. if b < 0x80 then [b]
     else [byte_of (192 + unat b div 64), byte_of (128 + unat b mod 64)]) bs))"

text \<open>What one occurrence of the OID at \<open>i\<close> adds to the result.\<close>

definition eid_at :: "bytes \<Rightarrow> nat \<Rightarrow> string list" where
  "eid_at der i =
     (let j = i + length bundle_eid_oid in
      if at der j \<noteq> Some 0xa0 then []
      else let j = snd (derLen der (j + 1)) in
        if at der j \<noteq> Some 0x16 then []
        else (case derLen der (j + 1) of
          (None, e) \<Rightarrow> [[]]
        | (Some l, e) \<Rightarrow> [latin1 (slice e l der)]))"

text \<open>\<open>indexOf\<close> from a position.\<close>

fun index_from :: "nat \<Rightarrow> bytes \<Rightarrow> bytes \<Rightarrow> nat \<Rightarrow> nat option" where
  "index_from 0 pat b i = None"
| "index_from (Suc n) pat b i = (if take (length pat) (drop i b) = pat then Some i else index_from n pat b (i + 1))"

lemma index_from_bounds: "index_from n pat b i = Some k \<Longrightarrow> i \<le> k \<and> k < i + n"
proof (induction n arbitrary: i)
  case (Suc n)
  then show ?case by (cases "take (length pat) (drop i b) = pat") (auto dest: Suc.IH)
qed simp

definition index_of :: "bytes \<Rightarrow> bytes \<Rightarrow> nat \<Rightarrow> nat option" where
  "index_of pat b i = index_from (length b - i) pat b i"

function eids_from :: "bytes \<Rightarrow> nat \<Rightarrow> string list" where
  "eids_from der i =
     (case index_of bundle_eid_oid der i of
        None \<Rightarrow> []
      | Some k \<Rightarrow> eid_at der k @ eids_from der (k + 1))"
  by pat_completeness auto
termination
proof (relation "measure (\<lambda>(der, i). length der - i)")
  fix der i k
  assume "index_of bundle_eid_oid der i = Some k"
  from index_from_bounds [OF this [unfolded index_of_def]]
  show "((der, k + 1), der, i) \<in> measure (\<lambda>(der, i). length der - i)" by auto
qed simp

declare eids_from.simps [simp del]

definition bundleEidsFromCert :: "bytes \<Rightarrow> string list" where
  "bundleEidsFromCert der = eids_from der 0"

section \<open>What follows a message does not change it\<close>

lemma field_append [simp]: "i + n \<le> length b \<Longrightarrow> field i n (b @ x) = field i n b"
  by (simp add: field_def)

lemma slice_append [simp]: "i + n \<le> length b \<Longrightarrow> slice i n (b @ x) = slice i n b"
  by (simp add: slice_def)

lemma seg_off_append:
  "10 \<le> length b \<Longrightarrow> (is_start (b ! 1) \<Longrightarrow> 14 \<le> length b) \<Longrightarrow> seg_off (b @ x) = seg_off b"
  by (simp add: seg_off_def nth_append)

lemma parse_header_append: "parse_header b = Some (m, r) \<Longrightarrow> parse_header (b @ x) = Some (m, r @ x)"
  by (auto simp: parse_header_def nth_append split: if_splits)

lemma parse_init_append:
  assumes "parse_init b = Some (m, r)"
  shows "parse_init (b @ x) = Some (m, r @ x)"
proof -
  define n where "n = field 19 2 b"
  define e where "e = field (21 + n) 4 b"
  from assms have len: "21 \<le> length b" "21 + n + 4 \<le> length b" "21 + n + 4 + e \<le> length b"
    by (simp_all add: parse_init_def n_def e_def Let_def split: if_splits)
  from assms len have mr: "m = SessInit (field 1 2 b) (field 3 8 b) (field 11 8 b) (utf8_text (slice 21 n b))"
      "r = drop (21 + n + 4 + e) b"
    by (simp_all add: parse_init_def n_def e_def Let_def)
  have "field 19 2 (b @ x) = n" "field (21 + n) 4 (b @ x) = e" using len by (simp_all add: n_def e_def)
  then show ?thesis using len by (simp add: parse_init_def mr Let_def)
qed

lemma parse_segment_append:
  assumes "parse_segment mx b = Some (m, r)"
  shows "parse_segment mx (b @ x) = Some (m, r @ x)"
proof -
  define o' where "o' = seg_off b"
  define n where "n = field o' 8 b"
  from assms have len: "10 \<le> length b" "is_start (b ! 1) \<longrightarrow> 14 \<le> length b" "o' + 8 \<le> length b"
    by (auto simp: parse_segment_def o'_def split: if_splits)
  have o: "seg_off (b @ x) = o'" using seg_off_append [of b x] len by (simp add: o'_def)
  have b: "(b @ x) ! 1 = b ! 1" using len by (simp add: nth_append)
  have n: "field o' 8 (b @ x) = n" using len by (simp add: n_def)
  have guards: "\<not> length (b @ x) < 10" "\<not> (is_start (b ! 1) \<and> length (b @ x) < 14)" "\<not> length (b @ x) < o' + 8"
    using len by auto
  show ?thesis
  proof (cases "mx < n")
    case True
    then have "m = TooBig n" "r = b" using assms len by (auto simp: parse_segment_def Let_def o'_def n_def)
    with True show ?thesis unfolding parse_segment_def b o Let_def n using guards by simp
  next
    case False
    then have l: "o' + 8 + n \<le> length b" and
      m: "m = Segment (b ! 1) (field 2 8 b) (slice (o' + 8) n b)" and r: "r = drop (o' + 8 + n) b"
      using assms len by (auto simp: parse_segment_def Let_def o'_def n_def split: if_splits)
    have "\<not> length (b @ x) < o' + 8 + n" using l by simp
    with False show ?thesis unfolding parse_segment_def b o Let_def n using guards l len m r by simp
  qed
qed

lemma parse_small_append:
  "parse_ack b = Some (m, r) \<Longrightarrow> parse_ack (b @ x) = Some (m, r @ x)"
  "parse_refuse b = Some (m, r) \<Longrightarrow> parse_refuse (b @ x) = Some (m, r @ x)"
  "parse_term b = Some (m, r) \<Longrightarrow> parse_term (b @ x) = Some (m, r @ x)"
  "parse_reject b = Some (m, r) \<Longrightarrow> parse_reject (b @ x) = Some (m, r @ x)"
  by (auto simp: parse_ack_def parse_refuse_def parse_term_def parse_reject_def nth_append split: if_splits)

lemmas parse_appends = parse_init_append parse_segment_append parse_small_append

lemma parse_typed_append:
  assumes "parse_typed mx b = Some (m, r)"
  shows "parse_typed mx (b @ x) = Some (m, r @ x)"
proof -
  have "b \<noteq> []" using assms by (auto simp: parse_typed_def)
  then have "(b @ x) ! 0 = b ! 0" "\<not> length (b @ x) < 1" "\<not> length b < 1" "drop 1 (b @ x) = drop 1 b @ x"
    by (cases b; simp)+
  with assms show ?thesis
    unfolding parse_typed_def by (auto simp: Let_def parse_appends split: if_splits)
qed

lemma parse4_append: "parse4 h mx b = Some (m, r) \<Longrightarrow> parse4 h mx (b @ x) = Some (m, r @ x)"
  by (auto simp: parse4_def parse_typed_append parse_header_append split: if_splits)

text \<open>Every message but \<open>TooBig\<close>, which ends the session, takes at least a byte.\<close>

lemma parse_init_shrinks: "parse_init b = Some (m, r) \<Longrightarrow> length r < length b"
  by (auto simp: parse_init_def Let_def split: if_splits)

lemma parse_segment_shrinks: "parse_segment mx b = Some (m, r) \<Longrightarrow> (\<And>n. m \<noteq> TooBig n) \<Longrightarrow> length r < length b"
  by (auto simp: parse_segment_def Let_def split: if_splits)

lemma parse_small_shrinks:
  "parse_ack b = Some (m, r) \<Longrightarrow> length r < length b"
  "parse_refuse b = Some (m, r) \<Longrightarrow> length r < length b"
  "parse_term b = Some (m, r) \<Longrightarrow> length r < length b"
  "parse_reject b = Some (m, r) \<Longrightarrow> length r < length b"
  by (auto simp: parse_ack_def parse_refuse_def parse_term_def parse_reject_def split: if_splits)

lemma parse4_shrinks:
  assumes "parse4 h mx b = Some (m, r)" "\<And>n. m \<noteq> TooBig n"
  shows "length r < length b"
proof (cases h)
  case True
  then have p: "parse_typed mx b = Some (m, r)" using assms(1) by (simp add: parse4_def)
  then have "b \<noteq> []" by (auto simp: parse_typed_def)
  then have "length (drop 1 b) < length b" by (cases b) simp_all
  with p show ?thesis
    by (auto simp: parse_typed_def Let_def assms(2)
        dest: parse_init_shrinks parse_segment_shrinks parse_small_shrinks split: if_splits)
next
  case False
  with assms(1) show ?thesis by (auto simp: parse4_def parse_header_def split: if_splits)
qed

section \<open>The parser reads back what the encoders write\<close>

lemma u16_Inr: "u16 n = Inr bs \<longleftrightarrow> n < 2 ^ 16 \<and> bs = be 2 n"
  by (auto simp: u16_def)

lemma u64_Inr: "u64 n = Inr bs \<longleftrightarrow> n < 2 ^ 64 \<and> bs = be 8 n"
  by (auto simp: u64_def)

lemma unbe_be_u16: "n < 2 ^ 16 \<Longrightarrow> unbe (be 2 n) = n"
  by (rule unbe_be) simp

lemma unbe_be_u64: "n < 2 ^ 64 \<Longrightarrow> unbe (be 8 n) = n"
  by (rule unbe_be) simp

lemma field_at: "length a = i \<Longrightarrow> length f = n \<Longrightarrow> field i n (a @ f @ r) = unbe f"
  by (simp add: field_def)

lemma slice_at: "length a = i \<Longrightarrow> length f = n \<Longrightarrow> slice i n (a @ f @ r) = f"
  by (simp add: slice_def)

lemma drop_whole: "length w = n \<Longrightarrow> drop n (w @ r) = r"
  by simp

lemma unbe_zeros: "unbe (replicate n 0) = 0"
  by (induction n) (simp_all add: unbe_def)

lemma parse_contact: "parse4 False mx (encodeContactHeader t @ r) = Some (Contact version4 (if t then 1 else 0), r)"
  by (simp add: parse4_def parse_header_def encodeContactHeader_def magic4_def utf8_def nth_Cons')

lemma parse_sess_init:
  assumes "encodeSessInit ka sm tm node = Inr bs" and "text_ok node"
  shows "parse4 True mx (bs @ r) = Some (SessInit ka sm tm node, r)"
proof -
  from assms(1) have bs: "bs = [SESS_INIT] @ be 2 ka @ be 8 sm @ be 8 tm @ be 2 (length node) @ utf8 node @ replicate 4 0"
    and lt: "ka < 2 ^ 16" "length node < 2 ^ 16" "sm < 2 ^ 64" "tm < 2 ^ 64"
    by (auto simp: encodeSessInit_def u16_Inr u64_Inr)
  define b where "b = bs @ r"
  have f: "field 1 2 b = ka" "field 3 8 b = sm" "field 11 8 b = tm" "field 19 2 b = length node"
      "slice 21 (length node) b = utf8 node" "field (21 + length node) 4 b = 0"
    unfolding b_def bs
    using field_at [of "[SESS_INIT]" 1 "be 2 ka" 2 "be 8 sm @ be 8 tm @ be 2 (length node) @ utf8 node @ replicate 4 0 @ r"]
      field_at [of "[SESS_INIT] @ be 2 ka" 3 "be 8 sm" 8 "be 8 tm @ be 2 (length node) @ utf8 node @ replicate 4 0 @ r"]
      field_at [of "[SESS_INIT] @ be 2 ka @ be 8 sm" 11 "be 8 tm" 8 "be 2 (length node) @ utf8 node @ replicate 4 0 @ r"]
      field_at [of "[SESS_INIT] @ be 2 ka @ be 8 sm @ be 8 tm" 19 "be 2 (length node)" 2 "utf8 node @ replicate 4 0 @ r"]
      slice_at [of "[SESS_INIT] @ be 2 ka @ be 8 sm @ be 8 tm @ be 2 (length node)" 21 "utf8 node" "length node" "replicate 4 0 @ r"]
      field_at [of "[SESS_INIT] @ be 2 ka @ be 8 sm @ be 8 tm @ be 2 (length node) @ utf8 node" "21 + length node" "replicate 4 0" 4 r]
    by (simp_all only: append_assoc length_append length_be length_utf8 list.size length_replicate
        unbe_be_u16 unbe_be_u64 lt unbe_zeros)
  have len: "length b = 25 + length node + length r" by (simp add: b_def bs)
  have d: "drop (25 + length node) b = r" unfolding b_def by (rule drop_whole) (simp add: bs)
  have "parse_init b = Some (SessInit ka sm tm node, r)"
    unfolding parse_init_def f Let_def using len d assms(2) by (simp add: add.commute)
  moreover have "b ! 0 = SESS_INIT" by (simp add: b_def bs)
  ultimately show ?thesis using len by (simp add: parse4_def parse_typed_def b_def [symmetric])
qed

lemma parse_seg:
  assumes "encodeSegment flags tid data = Inr bs" and "length data \<le> mx"
  shows "parse4 True mx (bs @ r) = Some (Segment flags tid data, r)"
proof -
  define e where "e = (if is_start flags then replicate 4 0 else [] :: bytes)"
  define o' where "o' = 10 + length e"
  from assms(1) have bs: "bs = [XFER_SEGMENT, flags] @ be 8 tid @ e @ be 8 (length data) @ data"
    and lt: "tid < 2 ^ 64" "length data < 2 ^ 64"
    by (auto simp: encodeSegment_def u64_Inr e_def)
  define b where "b = bs @ r"
  have le: "length ([XFER_SEGMENT, flags] @ be 8 tid @ e) = o'" by (simp add: o'_def)
  have f: "field 2 8 b = tid" "field o' 8 b = length data" "slice (o' + 8) (length data) b = data"
    unfolding b_def bs
    using field_at [of "[XFER_SEGMENT, flags]" 2 "be 8 tid" 8 "e @ be 8 (length data) @ data @ r"]
      field_at [OF le, of "be 8 (length data)" 8 "data @ r"]
      slice_at [of "[XFER_SEGMENT, flags] @ be 8 tid @ e @ be 8 (length data)" "o' + 8" "data" "length data" r] le
    by (simp_all only: append_assoc length_append length_be list.size unbe_be_u64 lt)
  have b1: "b ! 1 = flags" by (simp add: b_def bs)
  have "field 10 4 b = 0" if "is_start flags"
    using field_at [of "[XFER_SEGMENT, flags] @ be 8 tid" 10 e 4 "be 8 (length data) @ data @ r"] that
    by (simp add: b_def bs e_def unbe_zeros)
  then have o: "seg_off b = o'" unfolding seg_off_def b1 by (simp add: o'_def e_def)
  have len: "length b = o' + 8 + length data + length r" by (simp add: b_def bs o'_def)
  have d: "drop (o' + 8 + length data) b = r" unfolding b_def by (rule drop_whole) (simp add: bs o'_def)
  have g: "is_start flags \<Longrightarrow> 14 \<le> o'" "10 \<le> o'" by (simp_all add: o'_def e_def)
  have "parse_segment mx b = Some (Segment flags tid data, r)"
    unfolding parse_segment_def b1 o f Let_def d using len g assms(2) by auto
  moreover have "b ! 0 = XFER_SEGMENT" by (simp add: b_def bs)
  ultimately show ?thesis using len by (simp add: parse4_def parse_typed_def b_def [symmetric])
qed

lemma parse_ack_enc:
  assumes "encodeAck flags tid n = Inr bs"
  shows "parse4 True mx (bs @ r) = Some (Ack flags tid n, r)"
proof -
  from assms have bs: "bs = [XFER_ACK, flags] @ be 8 tid @ be 8 n" and lt: "tid < 2 ^ 64" "n < 2 ^ 64"
    by (auto simp: encodeAck_def u64_Inr)
  have "field 2 8 (bs @ r) = tid" "field 10 8 (bs @ r) = n"
    using field_at [of "[XFER_ACK, flags]" 2 "be 8 tid" 8 "be 8 n @ r"]
      field_at [of "[XFER_ACK, flags] @ be 8 tid" 10 "be 8 n" 8 r] lt
    by (simp_all add: bs unbe_be_u64)
  moreover have "(bs @ r) ! 0 = XFER_ACK" "(bs @ r) ! 1 = flags" "drop 18 (bs @ r) = r" "length (bs @ r) = 18 + length r"
    by (simp_all add: bs)
  ultimately show ?thesis by (simp add: parse4_def parse_typed_def parse_ack_def)
qed

lemma parse_refuse_enc:
  assumes "encodeRefuse tid = Inr bs"
  shows "parse4 True mx (bs @ r) = Some (Refuse 2 tid, r)"
proof -
  from assms have bs: "bs = [XFER_REFUSE, 2] @ be 8 tid" and lt: "tid < 2 ^ 64"
    by (auto simp: encodeRefuse_def u64_Inr)
  have "field 2 8 (bs @ r) = tid"
    using field_at [of "[XFER_REFUSE, 2]" 2 "be 8 tid" 8 r] lt by (simp add: bs unbe_be_u64)
  moreover have "(bs @ r) ! 0 = XFER_REFUSE" "(bs @ r) ! 1 = 2" "drop 10 (bs @ r) = r" "length (bs @ r) = 10 + length r"
    by (simp_all add: bs)
  ultimately show ?thesis by (simp add: parse4_def parse_typed_def parse_refuse_def)
qed

lemma parse_bytes_enc:
  "parse4 True mx (encodeTerm f q @ r) = Some (SessTerm f q, r)"
  "parse4 True mx (encodeReject q t @ r) = Some (Reject q t, r)"
  "parse4 True mx (KEEPALIVE # r) = Some (Keepalive, r)"
  by (simp_all add: parse4_def parse_typed_def encodeTerm_def encodeReject_def parse_term_def parse_reject_def)

lemmas parse_encoded = parse_contact parse_sess_init parse_seg parse_ack_enc parse_refuse_enc parse_bytes_enc

end
