(* ===== verification/Incremental.thy ===== *)
theory Incremental
  imports Prelude
begin

text \<open>
  The interface of a protocol session over a byte stream: bytes arrive in pieces of any size, are
  appended to a buffer, and the session takes one message after the other from the front of it until
  none is complete. Both TCPCL sessions of the gateway work this way (\<open>_onData\<close>).

  What the locale asks of a session is that a message once complete is not changed by the bytes that
  follow it; what it gives is that the cut of the stream into pieces does not matter.
\<close>

fun drain :: "nat \<Rightarrow> ('s \<Rightarrow> bytes \<Rightarrow> ('s \<times> bytes) option) \<Rightarrow> 's \<Rightarrow> bytes \<Rightarrow> 's \<times> bytes" where
  "drain 0 step s bs = (s, bs)"
| "drain (Suc n) step s bs = (case step s bs of None \<Rightarrow> (s, bs) | Some (s', r) \<Rightarrow> drain n step s' r)"

text \<open>One \<open>data\<close> event: every step takes a byte or stops the session, so the length bounds the loop.\<close>

definition feed :: "('s \<Rightarrow> bytes \<Rightarrow> ('s \<times> bytes) option) \<Rightarrow> 's \<times> bytes \<Rightarrow> bytes \<Rightarrow> 's \<times> bytes" where
  "feed step sb piece = drain (length (snd sb @ piece) + 2) step (fst sb) (snd sb @ piece)"

fun feed_all :: "('s \<Rightarrow> bytes \<Rightarrow> ('s \<times> bytes) option) \<Rightarrow> 's \<times> bytes \<Rightarrow> bytes list \<Rightarrow> 's \<times> bytes" where
  "feed_all step sb [] = sb"
| "feed_all step sb (p # ps) = feed_all step (feed step sb p) ps"

lemma drain_invariant:
  assumes "\<And>s bs s' r. P s \<Longrightarrow> step s bs = Some (s', r) \<Longrightarrow> P s'"
  shows "P s \<Longrightarrow> P (fst (drain n step s bs))"
  by (induction n arbitrary: s bs) (auto split: option.splits dest: assms)

fun takes :: "('s \<Rightarrow> bytes \<Rightarrow> ('s \<times> bytes) option) \<Rightarrow> 's \<Rightarrow> bytes list \<Rightarrow> 's \<Rightarrow> bool" where
  "takes step s [] s' \<longleftrightarrow> s' = s"
| "takes step s (w # ws) s' \<longleftrightarrow> (\<exists>t. (\<forall>x. step s (w @ x) = Some (t, x)) \<and> takes step t ws s')"

locale incremental =
  fixes step :: "'s \<Rightarrow> bytes \<Rightarrow> ('s \<times> bytes) option"
    and ok :: "'s \<Rightarrow> bool"
    and stopped :: "'s \<Rightarrow> bool"
  assumes step_append: "ok s \<Longrightarrow> step s bs = Some (s', r) \<Longrightarrow> \<not> stopped s' \<Longrightarrow> step s (bs @ x) = Some (s', r @ x)"
    and step_stops: "ok s \<Longrightarrow> step s bs = Some (s', r) \<Longrightarrow> stopped s' \<Longrightarrow> \<exists>r'. step s (bs @ x) = Some (s', r')"
    and step_ok: "ok s \<Longrightarrow> step s bs = Some (s', r) \<Longrightarrow> ok s'"
    and step_shrinks: "ok s \<Longrightarrow> step s bs = Some (s', r) \<Longrightarrow> \<not> stopped s' \<Longrightarrow> length r < length bs"
    and stopped_step: "stopped s \<Longrightarrow> step s bs = None"
begin

lemma drain_stopped: "stopped s \<Longrightarrow> drain n step s bs = (s, bs)"
  by (cases n) (simp_all add: stopped_step)

lemma drain_ok: "ok s \<Longrightarrow> ok (fst (drain n step s bs))"
  by (induction n arbitrary: s bs) (auto split: option.splits dest: step_ok)

lemma drain_fuel: "ok s \<Longrightarrow> length bs < n \<Longrightarrow> length bs < m \<Longrightarrow> drain n step s bs = drain m step s bs"
proof (induction n arbitrary: m s bs)
  case (Suc n)
  then obtain k where m: "m = Suc k" by (cases m) auto
  show ?case
  proof (cases "step s bs")
    case (Some sr)
    obtain s' r where sr: "step s bs = Some (s', r)" using Some by (cases sr) auto
    show ?thesis
    proof (cases "stopped s'")
      case False
      then have "length r < length bs" using step_shrinks [OF Suc.prems(1) sr] by blast
      then have "length r < n" "length r < k" using Suc.prems(2,3) m by linarith+
      then have "drain n step s' r = drain k step s' r"
        by (rule Suc.IH [OF step_ok [OF Suc.prems(1) sr]])
      then show ?thesis using sr m by simp
    qed (simp add: sr m drain_stopped)
  qed (simp add: m)
qed simp

text \<open>When a session stops, what is left in its buffer no longer matters: only its state is compared.\<close>

lemma drain_append:
  assumes "ok s" "length a < n"
  shows "fst (drain (n + length b) step s (a @ b)) =
      fst (case drain n step s a of (s', r) \<Rightarrow> drain (length (r @ b) + 2) step s' (r @ b)) \<and>
    (\<not> stopped (fst (drain n step s a)) \<longrightarrow> drain (n + length b) step s (a @ b) =
      (case drain n step s a of (s', r) \<Rightarrow> drain (length (r @ b) + 2) step s' (r @ b)))"
  using assms
proof (induction n arbitrary: s a)
  case (Suc n)
  show ?case
  proof (cases "step s a")
    case None
    have "drain (Suc n + length b) step s (a @ b) = drain (length (a @ b) + 2) step s (a @ b)"
      by (rule drain_fuel [OF Suc.prems(1)]) (use Suc.prems(2) in simp_all)
    then show ?thesis using None by simp
  next
    case (Some sr)
    obtain s' r where sr: "step s a = Some (s', r)" using Some by (cases sr) auto
    note ok' = step_ok [OF Suc.prems(1) sr]
    show ?thesis
    proof (cases "stopped s'")
      case True
      obtain r' where "step s (a @ b) = Some (s', r')" using step_stops [OF Suc.prems(1) sr True] by blast
      moreover have "fst (drain (length (r @ b) + 2) step s' (r @ b)) = s'"
        by (simp only: drain_stopped [OF True] fst_conv)
      ultimately show ?thesis using True sr
        by (simp only: drain.simps add_Suc option.case prod.case drain_stopped [OF True] fst_conv simp_thms)
    next
      case False
      have "length r < n" using step_shrinks [OF Suc.prems(1) sr False] Suc.prems(2) by simp
      from Suc.IH [OF ok' this] show ?thesis using sr step_append [OF Suc.prems(1) sr False, of b] by simp
    qed
  qed
qed simp

lemma feed_append:
  assumes "ok (fst sb)"
  shows "fst (feed step sb (a @ b)) = fst (feed step (feed step sb a) b) \<and>
    (\<not> stopped (fst (feed step sb a)) \<longrightarrow> feed step sb (a @ b) = feed step (feed step sb a) b)"
proof -
  have "length (snd sb @ a) < length (snd sb @ a) + 2" by simp
  from drain_append [OF assms this, of b] show ?thesis
    by (simp add: feed_def add.assoc split_beta)
qed

lemma feed_ok: "ok (fst sb) \<Longrightarrow> ok (fst (feed step sb a))"
  by (simp only: feed_def drain_ok)

lemma feed_stopped: "stopped (fst sb) \<Longrightarrow> fst (feed step sb a) = fst sb"
  unfolding feed_def by (simp only: drain_stopped fst_conv)

lemma feed_all_stopped: "stopped (fst sb) \<Longrightarrow> fst (feed_all step sb ps) = fst sb"
proof (induction ps arbitrary: sb)
  case (Cons p ps)
  from feed_stopped [OF Cons.prems] Cons.prems have "stopped (fst (feed step sb p))" by simp
  from Cons.IH [OF this] feed_stopped [OF Cons.prems] show ?case by simp
qed simp

text \<open>One whole message at the front of the buffer is one step.\<close>

lemma drain_message:
  assumes "ok s" "step s (w @ r) = Some (s', r)"
  shows "drain (length (w @ r) + 2) step s (w @ r) = drain (length r + 2) step s' r"
proof -
  have "drain (length (w @ r) + 1) step s' r = drain (length r + 2) step s' r"
    by (rule drain_fuel [OF step_ok [OF assms]]) simp_all
  then show ?thesis using assms(2) by simp
qed

text \<open>The state after a stream does not depend on how it was cut.\<close>

theorem pieces:
  "ok (fst sb) \<Longrightarrow> fst (feed_all step sb (p # ps)) = fst (feed step sb (concat (p # ps)))"
proof (induction ps arbitrary: p sb)
  case (Cons q ps)
  show ?case
  proof (cases "stopped (fst (feed step sb p))")
    case True
    then have "fst (feed_all step sb (p # q # ps)) = fst (feed step sb p)"
      using feed_all_stopped [of "feed step sb p" "q # ps"] by (simp only: feed_all.simps)
    moreover have "fst (feed step sb (p @ concat (q # ps))) = fst (feed step (feed step sb p) (concat (q # ps)))"
      using feed_append [OF Cons.prems] by blast
    ultimately show ?thesis using feed_stopped [OF True] by simp
  next
    case False
    have "fst (feed_all step (feed step sb p) (q # ps)) = fst (feed step (feed step sb p) (concat (q # ps)))"
      by (rule Cons.IH [OF feed_ok [OF Cons.prems]])
    then show ?thesis using feed_append [OF Cons.prems, of p "concat (q # ps)"] by simp
  qed
qed simp

text \<open>Whole messages one after the other: what the stream comes to, however it is cut.\<close>

lemma drain_takes:
  "ok s \<Longrightarrow> takes step s ws s' \<Longrightarrow> drain (length (concat ws @ r) + 2) step s (concat ws @ r) = drain (length r + 2) step s' r"
proof (induction ws arbitrary: s)
  case (Cons w ws)
  then obtain t where t: "\<And>x. step s (w @ x) = Some (t, x)" "takes step t ws s'" by auto
  have "ok t" by (rule step_ok [OF Cons.prems(1) t(1) [of "[]"]])
  from Cons.IH [OF this t(2)] drain_message [OF Cons.prems(1) t(1) [of "concat ws @ r"]] show ?case by simp
qed simp

lemma feed_takes:
  assumes "ok s" "takes step s ws s'" "step s' [] = None" "concat ps = concat ws" "ps \<noteq> []"
  shows "fst (feed_all step (s, []) ps) = s'"
proof -
  obtain q qs where ps: "ps = q # qs" using assms(5) by (cases ps) simp_all
  have "fst (feed_all step (s, []) ps) = fst (feed step (s, []) (concat ws))"
    using pieces [of "(s, [])" q qs] assms(1,4) by (simp add: ps)
  moreover have "feed step (s, []) (concat ws) = drain 2 step s' []"
    using drain_takes [OF assms(1,2), of "[]"]
    by (simp only: feed_def append_Nil2 append_Nil fst_conv snd_conv list.size add_0)
  ultimately show ?thesis using assms(3) by (simp add: numeral_2_eq_2)
qed

end

end
