(* ===== verification/Tcpcl4.thy ===== *)
theory Tcpcl4
  imports Tcpcl4Wire Incremental
begin

text \<open>
  One TCPCLv4 session (\<open>class Session\<close> of \<open>gateway/tcpcl4.mjs\<close>): its state, the handler of every
  message, \<open>send\<close>, \<open>close\<close>, the keepalive timer and teardown. What the code hands to the socket, to
  promises and to event listeners is the list \<open>out\<close> of effects, in order. The clock, the TLS
  handshake and the peer's bytes are events.
\<close>

section \<open>State\<close>

record cert4 =
  san :: "string option"
  raw :: "bytes option"

record tls4 =
  has_key_cert :: bool
  tls_require :: bool
  tls_verify :: bool

record peer4 =
  peer_node :: string
  peer_segment_mru :: nat
  peer_transfer_mru :: nat
  peer_keepalive :: nat
  peer_tls :: bool

datatype phase4 = PContact | PInit | PEstablished | PEnding | PClosed

datatype eff4 =
    Wrote bytes
  | TlsStarted bytes
  | ReadyOk
  | ReadyFailed string
  | Established peer4
  | Delivered bytes peer4
  | Termed byte
  | SocketEnded
  | SocketDestroyed
  | ClosedEvent "string option"
  | Resolved nat
  | Rejected nat string
  | CloseDone

record opts4 =
  o_keepalive :: nat
  o_segment :: nat
  o_transfer :: nat

record config4 =
  c_active :: bool
  c_node :: string
  c_tls :: "tls4 option"
  c_allowed :: "string list option"
  c_opts :: opts4

record session4 =
  active :: bool
  node_id :: string
  tls_opts :: "tls4 option"
  require_tls :: bool
  allowed_peers :: "string list option"
  opts :: opts4
  secure :: bool
  tls_socket :: bool
  cert :: "cert4 option"
  header_done :: bool
  phase :: phase4
  peer :: "peer4 option"
  next_transfer :: nat
  pending :: "(nat \<times> nat) list"
  rx :: "nat \<Rightarrow> bytes list option"
  rx_bytes :: "nat \<Rightarrow> nat option"
  closed :: bool
  crashed :: "string option"
  closers :: nat
  clock :: nat
  last_rx :: nat
  last_tx :: nat
  ka_timer :: "nat option"
  out :: "eff4 list"

definition DEFAULTS4 :: opts4 where
  "DEFAULTS4 = \<lparr>o_keepalive = 15, o_segment = 200000, o_transfer = 16 * 1024 * 1024\<rparr>"

definition new_session4 :: "config4 \<Rightarrow> session4" where
  "new_session4 c =
     (let t = (case c_tls c of Some t \<Rightarrow> if has_key_cert t then Some t else None | None \<Rightarrow> None) in
      \<lparr>active = c_active c, node_id = c_node c, tls_opts = t,
       require_tls = (case c_tls c of Some t \<Rightarrow> tls_require t | None \<Rightarrow> False),
       allowed_peers = c_allowed c, opts = c_opts c, secure = False, tls_socket = False, cert = None,
       header_done = False, phase = PContact, peer = None, next_transfer = 0, pending = [],
       rx = Map.empty, rx_bytes = Map.empty, closed = False, crashed = None, closers = 0,
       clock = 0, last_rx = 0, last_tx = 0, ka_timer = None,
       out = (if c_active c then [Wrote (encodeContactHeader (t \<noteq> None))] else [])\<rparr>)"

section \<open>Node IDs of the peer's certificate\<close>

text \<open>What \<open>\s\<close> matches in a JavaScript regular expression, as UTF-8.\<close>

definition js_spaces :: "string list" where
  "js_spaces = map utf8_string
     ([[0x09], [0x0A], [0x0B], [0x0C], [0x0D], [0x20], [0xC2, 0xA0], [0xEF, 0xBB, 0xBF], [0xE1, 0x9A, 0x80],
       [0xE2, 0x80, 0xA8], [0xE2, 0x80, 0xA9], [0xE2, 0x80, 0xAF], [0xE2, 0x81, 0x9F], [0xE3, 0x80, 0x80]]
      @ map (\<lambda>k. [0xE2, 0x80, 0x80 + word_of_nat k]) [0..<11])"

fun skip_spaces :: "nat \<Rightarrow> string \<Rightarrow> string" where
  "skip_spaces 0 s = s"
| "skip_spaces (Suc n) s = (case find (\<lambda>w. take (length w) s = w) js_spaces of
     None \<Rightarrow> s
   | Some w \<Rightarrow> skip_spaces n (drop (length w) s))"

text \<open>\<open>split(/,\s*/)\<close>\<close>

fun split_san :: "nat \<Rightarrow> string \<Rightarrow> string \<Rightarrow> string list" where
  "split_san 0 acc s = [acc]"
| "split_san (Suc n) acc [] = [acc]"
| "split_san (Suc n) acc (c # s) =
     (if c = CHR '','' then acc # split_san n [] (skip_spaces (length s) s) else split_san n (acc @ [c]) s)"

definition peer_node_ids :: "session4 \<Rightarrow> string list" where
  "peer_node_ids s =
     (case (if tls_socket s then cert s else None) of
        None \<Rightarrow> []
      | Some c \<Rightarrow>
          (let names = (case san c of Some t \<Rightarrow> t | None \<Rightarrow> []);
               uris = map (drop 4) (filter (\<lambda>x. take 4 x = ''URI:'') (split_san (Suc (length names)) [] names))
           in (case raw c of Some der \<Rightarrow> bundleEidsFromCert der | None \<Rightarrow> []) @ uris))"

section \<open>Effects\<close>

definition emit :: "eff4 \<Rightarrow> session4 \<Rightarrow> session4" where
  "emit e s = s\<lparr>out := out s @ [e]\<rparr>"

definition write4 :: "bytes \<Rightarrow> session4 \<Rightarrow> session4" where
  "write4 bs s = (if closed s then s else s\<lparr>last_tx := clock s, out := out s @ [Wrote bs]\<rparr>)"

text \<open>An exception nobody catches: the process ends, nothing later runs.\<close>

definition crash4 :: "string \<Rightarrow> session4 \<Rightarrow> session4" where
  "crash4 e s = s\<lparr>crashed := Some e\<rparr>"

definition teardown4 :: "string option \<Rightarrow> session4 \<Rightarrow> session4" where
  "teardown4 err s =
     (if closed s then s else
      let e = (case err of Some e \<Rightarrow> e | None \<Rightarrow> ''session closed'') in
      s\<lparr>closed := True, phase := PClosed, ka_timer := None, pending := [],
        out := out s @ map (\<lambda>(i, t). Rejected i e) (pending s)
          @ [ReadyFailed e, SocketDestroyed, ClosedEvent err]\<rparr>)"

definition reject4 :: "byte \<Rightarrow> byte \<Rightarrow> session4 \<Rightarrow> session4" where
  "reject4 type reason s = write4 (encodeReject reason type) s"

definition fail4 :: "term_reason \<Rightarrow> string \<Rightarrow> session4 \<Rightarrow> session4" where
  "fail4 q err s = teardown4 (Some err) (write4 (encodeTerm 0 (reason_byte q)) s)"

definition send_init4 :: "session4 \<Rightarrow> session4" where
  "send_init4 s =
     (case encodeSessInit (o_keepalive (opts s)) (o_segment (opts s)) (o_transfer (opts s)) (node_id s) of
        Inl e \<Rightarrow> crash4 e s
      | Inr bs \<Rightarrow> write4 bs s)"

definition start_keepalive4 :: "nat \<Rightarrow> session4 \<Rightarrow> session4" where
  "start_keepalive4 seconds s =
     (if seconds = 0 then s else s\<lparr>last_rx := clock s, last_tx := clock s, ka_timer := Some seconds\<rparr>)"

section \<open>Messages\<close>

text \<open>\<open>_startTls\<close>: the bytes after the contact header go back to the socket, the buffer is emptied.\<close>

definition start_tls4 :: "session4 \<Rightarrow> bytes \<Rightarrow> session4 \<times> bytes" where
  "start_tls4 s left = (emit (TlsStarted left) (s\<lparr>tls_socket := True\<rparr>), [])"

definition on_contact4 :: "byte \<Rightarrow> byte \<Rightarrow> session4 \<Rightarrow> bytes \<Rightarrow> session4 \<times> bytes" where
  "on_contact4 version flags s left =
     (if version \<noteq> version4 then (fail4 VERSION_MISMATCH ''peer TCPCL version, need 4'' s, left)
      else
        let both = (tls_opts s \<noteq> None \<and> bit flags 0);
            hello = (if active s then s else write4 (encodeContactHeader (tls_opts s \<noteq> None)) s) in
        if \<not> both \<and> require_tls s then
          (fail4 CONTACT_FAILURE ''TLS is required and the peer did not offer it'' hello, left)
        else
          let s1 = hello\<lparr>phase := PInit\<rparr> in
          if both then start_tls4 s1 left
          else (if active s then send_init4 s1 else s1, left))"

definition names_peer :: "session4 \<Rightarrow> string \<Rightarrow> bool" where
  "names_peer s node \<longleftrightarrow>
     (case tls_opts s of
        Some t \<Rightarrow> tls_verify t \<longrightarrow> secure s \<and> node \<in> set (peer_node_ids s)
      | None \<Rightarrow> True)"

definition allows_peer :: "session4 \<Rightarrow> string \<Rightarrow> bool" where
  "allows_peer s node \<longleftrightarrow> (case allowed_peers s of Some l \<Rightarrow> node \<in> set l | None \<Rightarrow> True)"

definition establish4 :: "nat \<Rightarrow> nat \<Rightarrow> nat \<Rightarrow> string \<Rightarrow> session4 \<Rightarrow> session4" where
  "establish4 ka seg_mru xfer_mru node s =
     (let k = min (o_keepalive (opts s)) ka;
          p = \<lparr>peer_node = node, peer_segment_mru = seg_mru, peer_transfer_mru = xfer_mru,
               peer_keepalive = k, peer_tls = secure s\<rparr>
      in emit (Established p) (emit ReadyOk (start_keepalive4 k (s\<lparr>peer := Some p, phase := PEstablished\<rparr>))))"

definition on_sess_init4 :: "nat \<Rightarrow> nat \<Rightarrow> nat \<Rightarrow> string \<Rightarrow> session4 \<Rightarrow> session4" where
  "on_sess_init4 ka seg_mru xfer_mru node s =
     (if phase s \<noteq> PInit then reject4 SESS_INIT 3 s
      else if \<not> names_peer s node then
        fail4 CONTACT_FAILURE ''peer claims a Node ID but its certificate does not name it'' s
      else if \<not> allows_peer s node then fail4 CONTACT_FAILURE ''peer is not on the allowed list'' s
      else
        let s1 = (if active s then s else send_init4 s) in
        if crashed s1 \<noteq> None then s1 else establish4 ka seg_mru xfer_mru node s1)"

definition forget_rx :: "nat \<Rightarrow> session4 \<Rightarrow> session4" where
  "forget_rx tid s = s\<lparr>rx := (rx s)(tid := None), rx_bytes := (rx_bytes s)(tid := None)\<rparr>"

text \<open>A segment of a transfer that is known: stored, acknowledged, delivered when it is the last.\<close>

definition store_segment4 :: "byte \<Rightarrow> nat \<Rightarrow> bytes \<Rightarrow> bytes list \<Rightarrow> nat \<Rightarrow> session4 \<Rightarrow> session4" where
  "store_segment4 flags tid data parts got s =
     (let s1 = s\<lparr>rx := (rx s)(tid := Some parts), rx_bytes := (rx_bytes s)(tid := Some got)\<rparr> in
      case encodeAck flags tid got of
        Inl e \<Rightarrow> crash4 e s1
      | Inr a \<Rightarrow>
          let s2 = write4 a s1 in
          if is_end flags then
            (case peer s of
               Some p \<Rightarrow> emit (Delivered (concat parts) p) (forget_rx tid s2)
             | None \<Rightarrow> crash4 ''no peer'' s2)
          else s2)"

definition on_segment4 :: "byte \<Rightarrow> nat \<Rightarrow> bytes \<Rightarrow> session4 \<Rightarrow> session4" where
  "on_segment4 flags tid data s =
     (if phase s \<noteq> PEstablished then reject4 XFER_SEGMENT 3 s
      else
        let s0 = (if is_start flags
                  then s\<lparr>rx := (rx s)(tid := Some []), rx_bytes := (rx_bytes s)(tid := Some 0)\<rparr> else s) in
        case rx s0 tid of
          None \<Rightarrow> reject4 XFER_SEGMENT 3 s0
        | Some old \<Rightarrow>
            let parts = old @ [data]; got = (case rx_bytes s0 tid of Some n \<Rightarrow> n | None \<Rightarrow> 0) + length data in
            if o_transfer (opts s0) < got then
              (case encodeRefuse tid of
                 Inl e \<Rightarrow> crash4 e s0
               | Inr b \<Rightarrow> forget_rx tid (write4 b s0))
            else store_segment4 flags tid data parts got s0)"

definition drop_pending :: "nat \<Rightarrow> session4 \<Rightarrow> session4" where
  "drop_pending tid s = s\<lparr>pending := filter (\<lambda>p. fst p \<noteq> tid) (pending s)\<rparr>"

definition on_ack4 :: "byte \<Rightarrow> nat \<Rightarrow> nat \<Rightarrow> session4 \<Rightarrow> session4" where
  "on_ack4 flags tid acked s =
     (case map_of (pending s) tid of
        Some amount \<Rightarrow>
          if is_end flags \<and> acked = amount then emit (Resolved tid) (drop_pending tid s) else s
      | None \<Rightarrow> s)"

definition on_refuse4 :: "nat \<Rightarrow> session4 \<Rightarrow> session4" where
  "on_refuse4 tid s =
     (case map_of (pending s) tid of
        Some amount \<Rightarrow> emit (Rejected tid ''peer refused transfer'') (drop_pending tid s)
      | None \<Rightarrow> s)"

text \<open>A \<open>SESS_TERM\<close> also runs the \<open>once("term", done)\<close> listener of a \<open>close()\<close> under way.\<close>

definition on_term4 :: "byte \<Rightarrow> byte \<Rightarrow> session4 \<Rightarrow> session4" where
  "on_term4 flags reason s =
     (let s1 = (if bit flags 0 then s else write4 (encodeTerm REPLY reason) s);
          s2 = emit (Termed reason) (s1\<lparr>phase := PEnding\<rparr>);
          s3 = (if 0 < closers s2 then emit CloseDone (teardown4 None s2) else s2)
      in emit SocketEnded s3)"

definition on_message4 :: "msg4 \<Rightarrow> session4 \<Rightarrow> bytes \<Rightarrow> session4 \<times> bytes" where
  "on_message4 m s left =
     (case m of
        BadMagic \<Rightarrow> (teardown4 (Some ''peer is not speaking TCPCL (bad magic)'') s, left)
      | Contact v f \<Rightarrow> on_contact4 v f s left
      | SessInit ka sm tm node \<Rightarrow> (on_sess_init4 ka sm tm node s, left)
      | Segment f i d \<Rightarrow> (on_segment4 f i d s, left)
      | Ack f i n \<Rightarrow> (on_ack4 f i n s, left)
      | Refuse q i \<Rightarrow> (on_refuse4 i s, left)
      | Keepalive \<Rightarrow> (s, left)
      | SessTerm f q \<Rightarrow> (on_term4 f q s, left)
      | Reject q h \<Rightarrow> (s, left)
      | Unknown t \<Rightarrow> (reject4 t 1 s, left)
      | TooBig n \<Rightarrow> (fail4 RESOURCE_EXHAUSTION ''peer sent a segment above our MRU'' s, left))"

text \<open>One turn of the loop of \<open>_onData\<close>.\<close>

definition halted4 :: "session4 \<Rightarrow> bool" where
  "halted4 s \<longleftrightarrow> closed s \<or> crashed s \<noteq> None"

definition step4 :: "session4 \<Rightarrow> bytes \<Rightarrow> (session4 \<times> bytes) option" where
  "step4 s buf =
     (if halted4 s then None else
      case parse4 (header_done s) (o_segment (opts s)) buf of
        None \<Rightarrow> None
      | Some (m, left) \<Rightarrow> Some (on_message4 m (s\<lparr>header_done := True\<rparr>) left))"

definition on_data4 :: "nat \<Rightarrow> session4 \<times> bytes \<Rightarrow> bytes \<Rightarrow> session4 \<times> bytes" where
  "on_data4 now sb d = feed step4 ((fst sb)\<lparr>clock := now, last_rx := now\<rparr>, snd sb) d"

section \<open>send, close and the timers\<close>

primrec segment_loop :: "nat \<Rightarrow> nat \<Rightarrow> nat \<Rightarrow> bytes \<Rightarrow> nat \<Rightarrow> session4 \<Rightarrow> session4 \<times> string option" where
  "segment_loop 0 seg tid b off s = (s, None)"
| "segment_loop (Suc n) seg tid b off s =
     (if off < length b \<or> off = 0 then
        let fin = min (off + seg) (length b) in
        case encodeSegment (seg_flags (off = 0) (fin = length b)) tid (slice off (fin - off) b) of
          Inl e \<Rightarrow> (s, Some e)
        | Inr w \<Rightarrow>
            if fin = length b then (write4 w s, None) else segment_loop n seg tid b (off + seg) (write4 w s)
      else (s, None))"

definition send4 :: "bytes \<Rightarrow> session4 \<Rightarrow> session4 \<times> (string + nat)" where
  "send4 b s =
     (case peer s of
        Some p \<Rightarrow>
          if phase s \<noteq> PEstablished then (s, Inl ''session not established'')
          else if peer_transfer_mru p < length b then (s, Inl ''bundle exceeds the peer's transfer MRU'')
          else
            let tid = next_transfer s; seg = max 1 (peer_segment_mru p) in
            (case segment_loop (Suc (length b)) seg tid b 0
                (s\<lparr>next_transfer := tid + 1, pending := pending s @ [(tid, length b)]\<rparr>) of
               (s', Some e) \<Rightarrow> (s', Inl e)
             | (s', None) \<Rightarrow> (s', Inr tid))
      | None \<Rightarrow> (s, Inl ''session not established''))"

definition ack_timeout4 :: "nat \<Rightarrow> session4 \<Rightarrow> session4" where
  "ack_timeout4 tid s =
     (case map_of (pending s) tid of
        Some amount \<Rightarrow> emit (Rejected tid ''timed out waiting for the final XFER_ACK'') (drop_pending tid s)
      | None \<Rightarrow> s)"

definition close4 :: "byte \<Rightarrow> session4 \<Rightarrow> session4" where
  "close4 reason s =
     (if closed s then emit CloseDone s
      else (write4 (encodeTerm 0 reason) s)\<lparr>closers := closers s + 1\<rparr>)"

definition close_timeout4 :: "session4 \<Rightarrow> session4" where
  "close_timeout4 s = (if 0 < closers s then emit CloseDone (teardown4 None s) else s)"

definition tick4 :: "session4 \<Rightarrow> session4" where
  "tick4 s =
     (case ka_timer s of
        None \<Rightarrow> s
      | Some seconds \<Rightarrow>
          if 2 * seconds * 1000 + 1000 < clock s - last_rx s then
            fail4 IDLE_TIMEOUT ''peer silent for twice the keepalive interval'' s
          else if seconds * 1000 \<le> clock s - last_tx s then write4 [KEEPALIVE] s
          else s)"

text \<open>The handshake is over (\<open>secureConnect\<close>, \<open>secure\<close>, once); the peer's certificate is there.\<close>

definition tls_up4 :: "cert4 option \<Rightarrow> session4 \<Rightarrow> session4" where
  "tls_up4 c s =
     (if tls_socket s \<and> \<not> secure s then
        let s1 = s\<lparr>secure := True, cert := c\<rparr> in if active s then send_init4 s1 else s1
      else s)"

section \<open>Runs\<close>

datatype event4 =
    GotData bytes
  | TlsUp "cert4 option"
  | SendCall bytes
  | CloseCall byte
  | Tick
  | AckTimeout nat
  | CloseTimeout
  | SocketFailed string

fun event_step4 :: "event4 \<Rightarrow> session4 \<times> bytes \<Rightarrow> session4 \<times> bytes" where
  "event_step4 (GotData d) sb = on_data4 (clock (fst sb)) sb d"
| "event_step4 (TlsUp c) sb = (tls_up4 c (fst sb), snd sb)"
| "event_step4 (SendCall b) sb = (fst (send4 b (fst sb)), snd sb)"
| "event_step4 (CloseCall q) sb = (close4 q (fst sb), snd sb)"
| "event_step4 Tick sb = (tick4 (fst sb), snd sb)"
| "event_step4 (AckTimeout i) sb = (ack_timeout4 i (fst sb), snd sb)"
| "event_step4 CloseTimeout sb = (close_timeout4 (fst sb), snd sb)"
| "event_step4 (SocketFailed e) sb = (teardown4 (Some e) (fst sb), snd sb)"

text \<open>Every event comes at a time not before the last one; a crashed process handles none.\<close>

definition at_time :: "nat \<Rightarrow> session4 \<times> bytes \<Rightarrow> session4 \<times> bytes" where
  "at_time t sb = ((fst sb)\<lparr>clock := t\<rparr>, snd sb)"

inductive reach4 :: "config4 \<Rightarrow> session4 \<times> bytes \<Rightarrow> bool" for c where
  start: "reach4 c (new_session4 c, [])"
| event: "reach4 c sb \<Longrightarrow> crashed (fst sb) = None \<Longrightarrow> clock (fst sb) \<le> t \<Longrightarrow>
    reach4 c (event_step4 e (at_time t sb))"

section \<open>listen\<close>

definition listen_ip :: "string option \<Rightarrow> string" where
  "listen_ip remote =
     (let a = (case remote of Some a \<Rightarrow> a | None \<Rightarrow> []) in if take 7 a = ''::ffff:'' then drop 7 a else a)"

definition listen_accepts :: "string list option \<Rightarrow> string option \<Rightarrow> bool" where
  "listen_accepts allowed_ips remote \<longleftrightarrow>
     (case allowed_ips of Some ips \<Rightarrow> listen_ip remote \<in> set ips | None \<Rightarrow> True)"


section \<open>What no operation changes\<close>

text \<open>The configuration of a session, and whether its contact header has been read.\<close>

definition conf :: "session4 \<Rightarrow> bool \<times> string \<times> tls4 option \<times> bool \<times> string list option \<times> opts4 \<times> bool" where
  "conf s = (active s, node_id s, tls_opts s, require_tls s, allowed_peers s, opts s, header_done s)"

lemma conf_basic [simp]:
  "conf (emit e s) = conf s" "conf (write4 w s) = conf s" "conf (crash4 x s) = conf s" "conf (teardown4 z s) = conf s"
  "conf (start_keepalive4 k s) = conf s" "conf (forget_rx i s) = conf s" "conf (drop_pending i s) = conf s"
  by (simp_all add: conf_def emit_def write4_def crash4_def teardown4_def start_keepalive4_def forget_rx_def
      drop_pending_def Let_def)

lemma conf_update [simp]:
  "conf (s\<lparr>phase := p\<rparr>) = conf s" "conf (s\<lparr>peer := q\<rparr>) = conf s" "conf (s\<lparr>tls_socket := b\<rparr>) = conf s"
  "conf (s\<lparr>rx := f\<rparr>) = conf s" "conf (s\<lparr>rx_bytes := g\<rparr>) = conf s" "conf (s\<lparr>closers := n\<rparr>) = conf s"
  "conf (s\<lparr>secure := b\<rparr>) = conf s" "conf (s\<lparr>cert := c\<rparr>) = conf s" "conf (s\<lparr>next_transfer := n\<rparr>) = conf s"
  "conf (s\<lparr>pending := l\<rparr>) = conf s" "conf (s\<lparr>clock := n\<rparr>) = conf s" "conf (s\<lparr>last_rx := n\<rparr>) = conf s"
  by (simp_all add: conf_def)

lemma conf_ops [simp]:
  "conf (fail4 q e s) = conf s" "conf (reject4 t r s) = conf s" "conf (send_init4 s) = conf s"
  "conf (establish4 ka sm tm n s) = conf s"
  by (simp_all add: fail4_def reject4_def send_init4_def establish4_def Let_def split: sum.split)

lemma conf_handlers [simp]:
  "conf (fst (on_contact4 v f s r)) = conf s" "conf (on_sess_init4 ka sm tm n s) = conf s"
  "conf (store_segment4 f i d ps g s) = conf s" "conf (on_segment4 f i d s) = conf s"
  "conf (on_ack4 f i k s) = conf s" "conf (on_refuse4 i s) = conf s" "conf (on_term4 f b s) = conf s"
  by (simp_all add: on_contact4_def start_tls4_def on_sess_init4_def store_segment4_def on_segment4_def on_ack4_def
      on_refuse4_def on_term4_def Let_def split: sum.split option.split)

lemma conf_message [simp]: "conf (fst (on_message4 m s r)) = conf s"
  by (cases m) (simp_all add: on_message4_def)

lemma step4_conf: "step4 s b = Some (s', r) \<Longrightarrow> conf s' = conf (s\<lparr>header_done := True\<rparr>)"
  unfolding step4_def by (auto split: if_splits option.splits) (metis conf_message fst_conv)

section \<open>The stream may be cut anywhere\<close>

definition steady4 :: "session4 \<Rightarrow> bool" where
  "steady4 s \<longleftrightarrow> tls_opts s = None \<or> header_done s"

lemma on_message4_rest:
  "tls_opts s = None \<or> (\<forall>v f. m \<noteq> Contact v f) \<Longrightarrow> on_message4 m s r = (fst (on_message4 m s x), r)"
  by (cases m) (auto simp: on_message4_def on_contact4_def Let_def)

lemma parse_typed_not_contact: "parse_typed mx b = Some (m, r) \<Longrightarrow> m \<noteq> Contact v f"
  by (auto simp: parse_typed_def parse_init_def parse_segment_def parse_ack_def parse_refuse_def parse_term_def
      parse_reject_def Let_def split: if_splits)

lemma parse_typed_not_magic: "parse_typed mx b = Some (m, r) \<Longrightarrow> m \<noteq> BadMagic"
  by (auto simp: parse_typed_def parse_init_def parse_segment_def parse_ack_def parse_refuse_def parse_term_def
      parse_reject_def Let_def split: if_splits)

lemma step4_cases:
  assumes "step4 s b = Some (s', r)" "steady4 s"
  obtains m where "\<not> halted4 s" "parse4 (header_done s) (o_segment (opts s)) b = Some (m, r)"
    "\<And>q. on_message4 m (s\<lparr>header_done := True\<rparr>) q = (s', q)"
proof -
  from assms(1) have h: "\<not> halted4 s" by (auto simp: step4_def)
  from assms(1) h obtain m l where p: "parse4 (header_done s) (o_segment (opts s)) b = Some (m, l)"
    and o: "on_message4 m (s\<lparr>header_done := True\<rparr>) l = (s', r)"
    unfolding step4_def by (auto split: option.splits)
  have c: "tls_opts (s\<lparr>header_done := True\<rparr>) = None \<or> (\<forall>v f. m \<noteq> Contact v f)"
  proof (cases "header_done s")
    case True
    with p have "parse_typed (o_segment (opts s)) b = Some (m, l)" by (simp add: parse4_def)
    then show ?thesis using parse_typed_not_contact by blast
  qed (use assms(2) in \<open>simp add: steady4_def\<close>)
  note rest = on_message4_rest [OF c]
  have "l = r" using o rest [of l l] by (metis snd_conv)
  moreover have "on_message4 m (s\<lparr>header_done := True\<rparr>) q = (s', q)" for q
    using rest [of q l] o by simp
  ultimately show ?thesis using that h p by blast
qed

lemma step4_intro:
  "\<not> halted4 s \<Longrightarrow> parse4 (header_done s) (o_segment (opts s)) b = Some (m, l) \<Longrightarrow>
   on_message4 m (s\<lparr>header_done := True\<rparr>) l = (s', l) \<Longrightarrow> step4 s b = Some (s', l)"
  by (simp add: step4_def)

lemma teardown_closes: "closed (teardown4 e s)"
  by (simp add: teardown4_def Let_def)

interpretation tcpcl4: incremental step4 steady4 halted4
proof
  fix s :: session4 and bs x r :: bytes and s'
  assume a: "steady4 s" "step4 s bs = Some (s', r)"
  from step4_cases [OF a(2,1)] obtain m where
    m: "\<not> halted4 s" "parse4 (header_done s) (o_segment (opts s)) bs = Some (m, r)"
    "\<And>q. on_message4 m (s\<lparr>header_done := True\<rparr>) q = (s', q)" by blast
  show app: "step4 s (bs @ x) = Some (s', r @ x)"
    by (rule step4_intro [OF m(1) parse4_append [OF m(2)] m(3)])
  then show "\<exists>r'. step4 s (bs @ x) = Some (s', r')" by blast
  show "steady4 s'" using step4_conf [OF a(2)] by (simp add: steady4_def conf_def)
  show "length r < length bs" if "\<not> halted4 s'"
  proof (rule parse4_shrinks [OF m(2)])
    fix n
    show "m \<noteq> TooBig n"
    proof
      assume "m = TooBig n"
      then have "s' = fst (on_message4 (TooBig n) (s\<lparr>header_done := True\<rparr>) [])" using m(3) [of "[]"] by simp
      then show False using that teardown_closes by (simp add: on_message4_def fail4_def halted4_def)
    qed
  qed
next
  fix s :: session4 and bs
  show "halted4 s \<Longrightarrow> step4 s bs = None" by (simp add: step4_def)
qed


text \<open>Messages that follow each other in the buffer are handled one by one.\<close>

definition handle4 :: "session4 \<Rightarrow> msg4 \<Rightarrow> session4" where
  "handle4 s m = fst (on_message4 m (s\<lparr>header_done := True\<rparr>) [])"

fun all_run :: "session4 \<Rightarrow> msg4 list \<Rightarrow> bool" where
  "all_run s [] \<longleftrightarrow> True"
| "all_run s (m # ms) \<longleftrightarrow> \<not> halted4 s \<and> all_run (handle4 s m) ms"

lemma handle4_conf: "conf (handle4 s m) = conf (s\<lparr>header_done := True\<rparr>)"
  by (simp add: handle4_def)

lemma handle4_fields [simp]:
  "header_done (handle4 s m)" "opts (handle4 s m) = opts s" "tls_opts (handle4 s m) = tls_opts s"
  "active (handle4 s m) = active s"
  using handle4_conf [of s m] by (simp_all add: conf_def)

lemma step4_handle:
  assumes "\<not> halted4 s" "parse4 (header_done s) (o_segment (opts s)) b = Some (m, r)"
    and "tls_opts s = None \<or> (\<forall>v f. m \<noteq> Contact v f)"
  shows "step4 s b = Some (handle4 s m, r)"
proof -
  have "tls_opts (s\<lparr>header_done := True\<rparr>) = None \<or> (\<forall>v f. m \<noteq> Contact v f)" using assms(3) by simp
  from on_message4_rest [OF this, of r "[]"] show ?thesis
    by (intro step4_intro [OF assms(1,2)]) (simp add: handle4_def)
qed

lemma drain_messages:
  assumes "header_done s" "all_run s (map snd wms)"
    and "\<And>w m t. (w, m) \<in> set wms \<Longrightarrow> parse4 True (o_segment (opts s)) (w @ t) = Some (m, t)"
  shows "drain (length (concat (map fst wms) @ r) + 2) step4 s (concat (map fst wms) @ r) =
    drain (length r + 2) step4 (foldl handle4 s (map snd wms)) r"
  using assms
proof (induction wms arbitrary: s)
  case (Cons wm wms)
  obtain w m where wm: "wm = (w, m)" by (cases wm)
  define r' where "r' = concat (map fst wms) @ r"
  have p: "parse4 (header_done s) (o_segment (opts s)) (w @ r') = Some (m, r')"
    using Cons.prems(1) Cons.prems(3) [of w m r'] wm by simp
  then have "m \<noteq> Contact v f" for v f using Cons.prems(1) parse_typed_not_contact by (auto simp: parse4_def)
  with p have "step4 s (w @ r') = Some (handle4 s m, r')" using Cons.prems(2) wm by (intro step4_handle) simp_all
  moreover have "steady4 s" using Cons.prems(1) by (simp add: steady4_def)
  ultimately have "drain (length (w @ r') + 2) step4 s (w @ r') = drain (length r' + 2) step4 (handle4 s m) r'"
    by (intro tcpcl4.drain_message)
  also have "\<dots> = drain (length r + 2) step4 (foldl handle4 (handle4 s m) (map snd wms)) r"
    unfolding r'_def by (rule Cons.IH) (use Cons.prems wm in simp_all)
  finally show ?case by (simp add: wm r'_def)
qed simp

lemma feed_messages:
  assumes "header_done s" "all_run s (map snd wms)" "wms \<noteq> []"
    and "\<And>w m t. (w, m) \<in> set wms \<Longrightarrow> parse4 True (o_segment (opts s)) (w @ t) = Some (m, t)"
    and "concat ps = concat (map fst wms)" "ps \<noteq> []"
  shows "fst (feed_all step4 (s, []) ps) = foldl handle4 s (map snd wms)"
proof -
  obtain q qs where ps: "ps = q # qs" using assms(6) by (cases ps) simp_all
  have "steady4 (fst (s, [] :: bytes))" using assms(1) by (simp add: steady4_def)
  from tcpcl4.pieces [OF this, of q qs] have "fst (feed_all step4 (s, []) ps) = fst (feed step4 (s, []) (concat ps))"
    unfolding ps .
  moreover from drain_messages [OF assms(1,2,4), of "[]"]
  have "feed step4 (s, []) (concat ps) = drain 2 step4 (foldl handle4 s (map snd wms)) []"
    by (simp only: feed_def assms(5) append_Nil2 append_Nil fst_conv snd_conv list.size add_0)
  moreover have "parse4 True mx [] = None" for mx by (simp add: parse4_def parse_typed_def)
  moreover have "header_done (foldl handle4 s (map snd wms))"
    using assms(1,3) by (induction wms rule: rev_induct) simp_all
  ultimately show ?thesis by (simp add: numeral_2_eq_2 step4_def)
qed

lemma feed_whole:
  assumes "\<not> halted4 s" "parse4 (header_done s) (o_segment (opts s)) w = Some (m, [])"
    and "tls_opts s = None \<or> (\<forall>v f. m \<noteq> Contact v f)"
  shows "feed step4 (s, []) w = (handle4 s m, [])"
proof -
  have "step4 s w = Some (handle4 s m, [])" by (rule step4_handle [OF assms])
  moreover have "step4 (handle4 s m) [] = None" by (simp add: step4_def parse4_def parse_typed_def)
  ultimately show ?thesis by (simp add: feed_def)
qed

lemma feed_one:
  assumes "tls_opts s = None" "\<not> halted4 s"
    and "parse4 (header_done s) (o_segment (opts s)) w = Some (m, [])" "concat ps = w" "w \<noteq> []"
  shows "fst (feed_all step4 (s, []) ps) = handle4 s m"
proof -
  obtain q qs where ps: "ps = q # qs" using assms(4,5) by (cases ps) auto
  have st: "steady4 (fst (s, [] :: bytes))" using assms(1) by (simp add: steady4_def)
  have "fst (feed_all step4 (s, []) ps) = fst (feed step4 (s, []) w)"
    using tcpcl4.pieces [OF st, of q qs] unfolding ps assms(4) [unfolded ps] .
  moreover have "feed step4 (s, []) w = (handle4 s m, [])"
    by (rule feed_whole [OF assms(2,3)]) (use assms(1) in simp)
  ultimately show ?thesis by simp
qed

section \<open>One transfer, end to end\<close>

text \<open>The segments a bundle is cut into, and their bytes.\<close>

fun seg_list :: "nat \<Rightarrow> nat \<Rightarrow> bytes \<Rightarrow> nat \<Rightarrow> (byte \<times> bytes) list" where
  "seg_list 0 seg b off = []"
| "seg_list (Suc n) seg b off =
     (let fin = min (off + seg) (length b); x = (seg_flags (off = 0) (fin = length b), slice off (fin - off) b)
      in if fin = length b then [x] else x # seg_list n seg b (off + seg))"

definition seg_wire :: "nat \<Rightarrow> byte \<times> bytes \<Rightarrow> bytes" where
  "seg_wire tid x = [XFER_SEGMENT, fst x] @ be 8 tid @ (if is_start (fst x) then replicate 4 0 else [])
     @ be 8 (length (snd x)) @ snd x"

fun ack_list :: "nat \<Rightarrow> (byte \<times> bytes) list \<Rightarrow> (byte \<times> nat) list" where
  "ack_list got [] = []"
| "ack_list got (x # xs) = (fst x, got + length (snd x)) # ack_list (got + length (snd x)) xs"

definition ack_wire :: "nat \<Rightarrow> byte \<times> nat \<Rightarrow> bytes" where
  "ack_wire tid a = [XFER_ACK, fst a] @ be 8 tid @ be 8 (snd a)"

lemma encodeSegment_wire: "tid < 2 ^ 64 \<Longrightarrow> length d < 2 ^ 64 \<Longrightarrow> encodeSegment f tid d = Inr (seg_wire tid (f, d))"
  by (simp add: encodeSegment_def seg_wire_def u64_def)

lemma encodeAck_wire: "tid < 2 ^ 64 \<Longrightarrow> n < 2 ^ 64 \<Longrightarrow> encodeAck f tid n = Inr (ack_wire tid (f, n))"
  by (simp add: encodeAck_def ack_wire_def u64_def)

definition writes4 :: "bytes list \<Rightarrow> session4 \<Rightarrow> session4" where
  "writes4 ws s = foldl (\<lambda>s w. write4 w s) s ws"

lemma writes4_snoc: "writes4 (ws @ [w]) s = write4 w (writes4 ws s)"
  by (simp add: writes4_def)

lemma writes4_out:
  assumes "\<not> closed s" "ws \<noteq> []"
  shows "writes4 ws s = s\<lparr>last_tx := clock s, out := out s @ map Wrote ws\<rparr>"
  using assms(2)
proof (induction ws rule: rev_nonempty_induct)
  case (single w)
  then show ?case using assms(1) by (simp add: writes4_def write4_def)
next
  case (snoc w ws)
  show ?case unfolding writes4_snoc snoc.IH using assms(1) by (simp add: write4_def)
qed

lemma slice_length: "length (slice i n b) = min n (length b - i)"
  by (simp add: slice_def)

lemma segment_loop_writes:
  assumes "tid < 2 ^ 64" "length b < 2 ^ 64" "0 < seg" "off < length b \<or> off = 0" "length b < n + off"
  shows "segment_loop n seg tid b off s = (writes4 (map (seg_wire tid) (seg_list n seg b off)) s, None)"
  using assms(4,5)
proof (induction n arbitrary: off s)
  case (Suc n)
  define fin where "fin = min (off + seg) (length b)"
  have len: "length (slice off (fin - off) b) < 2 ^ 64" using assms(2) by (simp add: slice_length)
  have enc: "encodeSegment f tid (slice off (fin - off) b) = Inr (seg_wire tid (f, slice off (fin - off) b))" for f
    by (rule encodeSegment_wire [OF assms(1) len])
  have "segment_loop n seg tid b (off + seg) t =
      (writes4 (map (seg_wire tid) (seg_list n seg b (off + seg))) t, None)" if "fin \<noteq> length b" for t
    by (rule Suc.IH) (use that assms(3) Suc.prems in \<open>auto simp: fin_def\<close>)
  then show ?case using Suc.prems(1)
    by (simp add: Let_def fin_def [symmetric] enc writes4_def)
qed (use assms(4) in auto)

lemma seg_flags_bits [simp]: "is_end (seg_flags a e) = e" "is_start (seg_flags a e) = a"
  by (simp_all add: is_end_def is_start_def seg_flags_def bit_simps)


definition receiving :: "session4 \<Rightarrow> nat \<Rightarrow> nat \<Rightarrow> bytes list \<Rightarrow> bool" where
  "receiving s tid got parts \<longleftrightarrow> rx s tid = Some parts \<and> rx_bytes s tid = Some got \<and> length (concat parts) = got"

definition listening :: "session4 \<Rightarrow> peer4 \<Rightarrow> bool" where
  "listening s p \<longleftrightarrow> phase s = PEstablished \<and> peer s = Some p \<and> \<not> halted4 s \<and> header_done s"

lemma handle_segment:
  assumes "listening s p" "tid < 2 ^ 64" "is_start f \<and> parts = [] \<and> got = 0 \<or> \<not> is_start f \<and> receiving s tid got parts"
    and "got + length d \<le> o_transfer (opts s)" "got + length d < 2 ^ 64"
  shows "if is_end f
    then out (handle4 s (Segment f tid d)) = out s @ [Wrote (ack_wire tid (f, got + length d)), Delivered (concat (parts @ [d])) p]
    else out (handle4 s (Segment f tid d)) = out s @ [Wrote (ack_wire tid (f, got + length d))] \<and>
      listening (handle4 s (Segment f tid d)) p \<and>
      receiving (handle4 s (Segment f tid d)) tid (got + length d) (parts @ [d])"
proof -
  have s: "s\<lparr>header_done := True\<rparr> = s" "phase s = PEstablished" "peer s = Some p" "\<not> closed s" "crashed s = None"
    using assms(1) by (simp_all add: listening_def halted4_def)
  define s0 where "s0 = (if is_start f
    then s\<lparr>rx := (rx s)(tid := Some []), rx_bytes := (rx_bytes s)(tid := Some 0)\<rparr> else s)"
  have s0: "rx s0 tid = Some parts" "rx_bytes s0 tid = Some got" "out s0 = out s" "phase s0 = PEstablished"
      "peer s0 = Some p" "\<not> closed s0" "crashed s0 = None" "opts s0 = opts s" "header_done s0" "length (concat parts) = got"
    using assms(1,3) s by (auto simp: s0_def receiving_def listening_def)
  have "handle4 s (Segment f tid d) = store_segment4 f tid d (parts @ [d]) (got + length d) s0"
    using s assms(4) s0(1,2,8)
    by (simp add: handle4_def on_message4_def on_segment4_def s0_def [symmetric] Let_def)
  then show ?thesis using s0 encodeAck_wire [OF assms(2,5), of f]
    by (simp add: store_segment4_def Let_def write4_def emit_def forget_rx_def listening_def receiving_def halted4_def)
qed

lemma receive_list:
  assumes "listening s p" "tid < 2 ^ 64" "0 < seg" "length b \<le> o_transfer (opts s)" "length b < 2 ^ 64"
    and "off < length b \<or> off = 0" "length b < n + off"
    and "off = 0 \<and> parts = [] \<or> off \<noteq> 0 \<and> receiving s tid off parts" "concat parts = take off b"
  shows "all_run s (map (\<lambda>x. Segment (fst x) tid (snd x)) (seg_list n seg b off)) \<and>
    out (foldl handle4 s (map (\<lambda>x. Segment (fst x) tid (snd x)) (seg_list n seg b off))) =
      out s @ map (\<lambda>a. Wrote (ack_wire tid a)) (ack_list off (seg_list n seg b off)) @ [Delivered b p]"
  using assms
proof (induction n arbitrary: off s parts)
  case (Suc n)
  define fin where "fin = min (off + seg) (length b)"
  define d where "d = slice off (fin - off) b"
  define f where "f = seg_flags (off = 0) (fin = length b)"
  define m where "m = Segment f tid d"
  have le: "off \<le> length b" using Suc.prems(6) by auto
  have ld: "off + length d = fin" using le by (simp add: d_def slice_length fin_def)
  have cc: "concat (parts @ [d]) = take fin b"
  proof -
    have "take fin b = take off b @ take (fin - off) (drop off b)"
      using ld by (metis le_add1 le_add_diff_inverse take_add)
    then show ?thesis using Suc.prems(9) by (simp add: d_def slice_def)
  qed
  have run: "\<not> halted4 s" using Suc.prems(1) by (simp add: listening_def)
  have H: "if is_end f
    then out (handle4 s m) = out s @ [Wrote (ack_wire tid (f, off + length d)), Delivered (concat (parts @ [d])) p]
    else out (handle4 s m) = out s @ [Wrote (ack_wire tid (f, off + length d))] \<and> listening (handle4 s m) p \<and>
      receiving (handle4 s m) tid (off + length d) (parts @ [d])"
    unfolding m_def
  proof (rule handle_segment [OF Suc.prems(1,2)])
    show "is_start f \<and> parts = [] \<and> off = 0 \<or> \<not> is_start f \<and> receiving s tid off parts"
      using Suc.prems(8) by (auto simp: f_def)
    have "fin \<le> length b" by (simp add: fin_def)
    then show "off + length d \<le> o_transfer (opts s)" "off + length d < 2 ^ 64"
      using Suc.prems(4,5) unfolding ld by linarith+
  qed
  show ?case
  proof (cases "fin = length b")
    case True
    then have "seg_list (Suc n) seg b off = [(f, d)]" by (simp add: Let_def fin_def d_def f_def)
    moreover have "is_end f" using True by (simp add: f_def)
    moreover have "concat (parts @ [d]) = b" using cc True by simp
    ultimately show ?thesis using H run unfolding m_def by simp
  next
    case False
    then have fin: "fin = off + seg" "fin < length b" by (auto simp: fin_def)
    have sl: "seg_list (Suc n) seg b off = (f, d) # seg_list n seg b fin"
      using fin(2) unfolding fin(1) by (simp add: Let_def fin_def d_def f_def)
    have "\<not> is_end f" using False by (simp add: f_def)
    with H have h: "out (handle4 s m) = out s @ [Wrote (ack_wire tid (f, fin))]" "listening (handle4 s m) p"
        "receiving (handle4 s m) tid fin (parts @ [d])"
      by (simp_all add: ld)
    have "length b \<le> o_transfer (opts (handle4 s m))" "length b < n + fin" "fin < length b \<or> fin = 0"
        "fin = 0 \<and> parts @ [d] = [] \<or> fin \<noteq> 0 \<and> receiving (handle4 s m) tid fin (parts @ [d])"
      using Suc.prems(3,4,7) fin h(3) by simp_all
    from Suc.IH [OF h(2) Suc.prems(2,3) this(1) Suc.prems(5) this(3,2,4) cc]
    show ?thesis unfolding sl using run h(1) ld by (simp add: m_def)
  qed
qed (use assms(6) in auto)


lemma header_done_id: "header_done s \<Longrightarrow> s\<lparr>header_done := True\<rparr> = s"
  by simp

lemma handle_ack:
  assumes "header_done s" "map_of (pending s) tid = Some amount"
  shows "handle4 s (Ack f tid n) = (if is_end f \<and> n = amount then emit (Resolved tid) (drop_pending tid s) else s)"
  unfolding handle4_def header_done_id [OF assms(1)] by (simp add: on_message4_def on_ack4_def assms(2))

lemma seg_list_last:
  assumes "0 < seg" "off < length b \<or> off = 0" "length b < n + off" "\<not> halted4 s" "header_done s"
    and "map_of (pending s) tid = Some (length b)"
  defines "ms \<equiv> map (\<lambda>a. Ack (fst a) tid (snd a)) (ack_list off (seg_list n seg b off))"
  shows "all_run s ms \<and> foldl handle4 s ms = emit (Resolved tid) (drop_pending tid s)"
  using assms(2,3) unfolding ms_def
proof (induction n arbitrary: off)
  case (Suc n)
  define fin where "fin = min (off + seg) (length b)"
  define d where "d = slice off (fin - off) b"
  define f where "f = seg_flags (off = 0) (fin = length b)"
  have ld: "off + length d = fin" using Suc.prems(1) by (auto simp: d_def slice_length fin_def)
  note h = handle_ack [OF assms(5,6)]
  show ?case
  proof (cases "fin = length b")
    case True
    then have "seg_list (Suc n) seg b off = [(f, d)]" by (simp add: Let_def fin_def d_def f_def)
    then show ?thesis using assms(4) ld True by (simp add: h f_def)
  next
    case False
    then have fin: "fin = off + seg" "fin < length b" by (auto simp: fin_def)
    have sl: "seg_list (Suc n) seg b off = (f, d) # seg_list n seg b fin"
      using fin(2) unfolding fin(1) by (simp add: Let_def fin_def d_def f_def)
    have "\<not> is_end f" using False by (simp add: f_def)
    moreover have "fin < length b \<or> fin = 0" "length b < n + fin" using fin Suc.prems(2) assms(1) by simp_all
    ultimately show ?thesis using Suc.IH [of fin] assms(4) ld unfolding sl by (simp add: h)
  qed
qed (use assms(2) in auto)

lemma seg_list_bounds:
  "0 < seg \<Longrightarrow> x \<in> set (seg_list n seg b off) \<Longrightarrow> length (snd x) \<le> seg"
proof (induction n arbitrary: off)
  case (Suc n)
  then show ?case by (fastforce simp: Let_def slice_length split: if_splits)
qed simp

lemma seg_list_nonempty: "0 < n \<Longrightarrow> seg_list n seg b off \<noteq> []"
  by (cases n) (simp_all add: Let_def)

lemma ack_list_length [simp]: "length (ack_list got xs) = length xs"
  by (induction xs arbitrary: got) simp_all

lemma ack_list_bounds: "a \<in> set (ack_list got xs) \<Longrightarrow> snd a \<le> got + sum_list (map (\<lambda>x. length (snd x)) xs)"
proof (induction xs arbitrary: got)
  case (Cons x xs)
  show ?case
  proof (cases "a \<in> set (ack_list (got + length (snd x)) xs)")
    case True
    from Cons.IH [OF this] show ?thesis by simp
  qed (use Cons.prems in auto)
qed simp

lemma seg_list_sum: "off \<le> length b \<Longrightarrow> off + sum_list (map (\<lambda>x. length (snd x)) (seg_list n seg b off)) \<le> length b"
proof (induction n arbitrary: off)
  case (Suc n)
  define fin where "fin = min (off + seg) (length b)"
  have ld: "off + length (slice off (fin - off) b) = fin" using Suc.prems by (simp add: slice_length fin_def)
  show ?case
  proof (cases "fin = length b")
    case True
    then show ?thesis using ld by (simp add: Let_def fin_def [symmetric])
  next
    case False
    then have fin: "fin = off + seg" "fin < length b" by (auto simp: fin_def)
    have "fin + sum_list (map (\<lambda>x. length (snd x)) (seg_list n seg b fin)) \<le> length b"
      using Suc.IH [of fin] fin(2) by simp
    then show ?thesis using ld False by (simp add: Let_def fin_def [symmetric] fin(1) [symmetric])
  qed
qed simp

lemma concat_map_nonempty: "xs \<noteq> [] \<Longrightarrow> (\<And>x. f x \<noteq> []) \<Longrightarrow> concat (map f xs) \<noteq> []"
  by (cases xs) simp_all

text \<open>What \<open>send\<close> writes, and the state it leaves.\<close>

definition transfer_segs :: "peer4 \<Rightarrow> bytes \<Rightarrow> (byte \<times> bytes) list" where
  "transfer_segs p b = seg_list (Suc (length b)) (max 1 (peer_segment_mru p)) b 0"

lemma send4_sent:
  assumes "peer s = Some p" "phase s = PEstablished" "\<not> closed s" "length b \<le> peer_transfer_mru p"
    and "next_transfer s < 2 ^ 64" "length b < 2 ^ 64"
  shows "send4 b s = (s\<lparr>next_transfer := next_transfer s + 1, pending := pending s @ [(next_transfer s, length b)],
      last_tx := clock s, out := out s @ map (\<lambda>x. Wrote (seg_wire (next_transfer s) x)) (transfer_segs p b)\<rparr>,
    Inr (next_transfer s))"
proof -
  define s1 where "s1 = s\<lparr>next_transfer := next_transfer s + 1, pending := pending s @ [(next_transfer s, length b)]\<rparr>"
  have "segment_loop (Suc (length b)) (max 1 (peer_segment_mru p)) (next_transfer s) b 0 s1 =
      (writes4 (map (seg_wire (next_transfer s)) (transfer_segs p b)) s1, None)"
    unfolding transfer_segs_def by (rule segment_loop_writes [OF assms(5,6)]) simp_all
  moreover have ne: "map (seg_wire (next_transfer s)) (transfer_segs p b) \<noteq> []"
    using seg_list_nonempty by (simp add: transfer_segs_def del: seg_list.simps)
  moreover have op: "\<not> closed s1" using assms(3) by (simp add: s1_def)
  ultimately have "segment_loop (Suc (length b)) (max 1 (peer_segment_mru p)) (next_transfer s) b 0 s1 =
      (s1\<lparr>last_tx := clock s1, out := out s1 @ map Wrote (map (seg_wire (next_transfer s)) (transfer_segs p b))\<rparr>, None)"
    by (simp only: writes4_out [OF op ne])
  then show ?thesis using assms(1,2,4)
    by (simp add: send4_def Let_def s1_def [symmetric] del: segment_loop.simps) (simp add: s1_def comp_def)
qed

lemma seg_sizes:
  assumes "x \<in> set (seg_list n seg b 0)"
  shows "length (snd x) \<le> length b"
proof -
  have "length (snd x) \<le> sum_list (map (\<lambda>x. length (snd x)) (seg_list n seg b 0))"
    using assms by (intro member_le_sum_list) auto
  then show ?thesis using seg_list_sum [of 0 b n seg] by simp
qed

lemma ack_sizes: "a \<in> set (ack_list 0 (seg_list n seg b 0)) \<Longrightarrow> snd a \<le> length b"
  using ack_list_bounds [of a 0 "seg_list n seg b 0"] seg_list_sum [of 0 b n seg] by simp

text \<open>The receiver of a whole transfer, however the stream is cut.\<close>

lemma receive_transfer:
  assumes "listening r q" "tid < 2 ^ 64" "0 < seg" "seg \<le> o_segment (opts r)"
    and "length b \<le> o_transfer (opts r)" "length b < 2 ^ 64"
    and "concat pieces = concat (map (seg_wire tid) (seg_list (Suc (length b)) seg b 0))"
  shows "out (fst (feed_all step4 (r, []) pieces)) =
    out r @ map (\<lambda>a. Wrote (ack_wire tid a)) (ack_list 0 (seg_list (Suc (length b)) seg b 0)) @ [Delivered b q]"
proof -
  define segs where "segs = seg_list (Suc (length b)) seg b 0"
  let ?sm = "\<lambda>x. (seg_wire tid x, Segment (fst x) tid (snd x))"
  have ps: "parse4 True (o_segment (opts r)) (w @ t) = Some (m, t)" if "(w, m) \<in> set (map ?sm segs)" for w m t
  proof -
    from that obtain x where x: "x \<in> set segs" "w = seg_wire tid x" "m = Segment (fst x) tid (snd x)" by auto
    have "length (snd x) < 2 ^ 64" using seg_sizes [OF x(1) [unfolded segs_def]] assms(6) by simp
    then have "encodeSegment (fst x) tid (snd x) = Inr w" using encodeSegment_wire [OF assms(2)] x(2) by simp
    moreover have "length (snd x) \<le> o_segment (opts r)"
      using seg_list_bounds [OF assms(3) x(1) [unfolded segs_def]] assms(4) by simp
    ultimately show ?thesis using parse_seg x(3) by simp
  qed
  have R: "all_run r (map (\<lambda>x. Segment (fst x) tid (snd x)) segs) \<and>
    out (foldl handle4 r (map (\<lambda>x. Segment (fst x) tid (snd x)) segs)) =
      out r @ map (\<lambda>a. Wrote (ack_wire tid a)) (ack_list 0 segs) @ [Delivered b q]"
    unfolding segs_def
    by (rule receive_list [where parts = "[]", OF assms(1,2,3,5,6)]) simp_all
  have ne: "segs \<noteq> []" unfolding segs_def by (rule seg_list_nonempty) simp
  then have "concat (map (seg_wire tid) segs) \<noteq> []" by (rule concat_map_nonempty) (simp add: seg_wire_def)
  then have "pieces \<noteq> []" using assms(7) by (auto simp: segs_def)
  then have "fst (feed_all step4 (r, []) pieces) = foldl handle4 r (map snd (map ?sm segs))"
    by (intro feed_messages [OF _ _ _ ps])
      (use assms(1,7) R ne in \<open>simp_all add: comp_def listening_def segs_def del: seg_list.simps\<close>)
  then show ?thesis using R by (simp add: comp_def segs_def)
qed

text \<open>The sender of a whole transfer, fed its acknowledgements.\<close>

lemma acks_resolve:
  assumes "header_done s" "\<not> halted4 s" "map_of (pending s) tid = Some (length b)" "tid < 2 ^ 64" "0 < seg" "length b < 2 ^ 64"
    and "concat pieces = concat (map (ack_wire tid) (ack_list 0 (seg_list (Suc (length b)) seg b 0)))"
  shows "out (fst (feed_all step4 (s, []) pieces)) = out s @ [Resolved tid]"
proof -
  define acks where "acks = ack_list 0 (seg_list (Suc (length b)) seg b 0)"
  let ?am = "\<lambda>a. (ack_wire tid a, Ack (fst a) tid (snd a))"
  have pa: "parse4 True (o_segment (opts s)) (w @ t) = Some (m, t)" if "(w, m) \<in> set (map ?am acks)" for w m t
  proof -
    from that obtain a where a: "a \<in> set acks" "w = ack_wire tid a" "m = Ack (fst a) tid (snd a)" by auto
    have "snd a < 2 ^ 64" using ack_sizes [OF a(1) [unfolded acks_def]] assms(6) by simp
    then have "encodeAck (fst a) tid (snd a) = Inr w" using encodeAck_wire [OF assms(4)] a(2) by simp
    from parse_ack_enc [OF this] show ?thesis using a(3) by simp
  qed
  have S: "all_run s (map (\<lambda>a. Ack (fst a) tid (snd a)) acks) \<and>
    foldl handle4 s (map (\<lambda>a. Ack (fst a) tid (snd a)) acks) = emit (Resolved tid) (drop_pending tid s)"
    unfolding acks_def by (rule seg_list_last [OF assms(5) _ _ assms(2,1,3)]) simp_all
  have "acks \<noteq> []" unfolding acks_def using seg_list_nonempty by (metis ack_list_length length_0_conv zero_less_Suc)
  moreover from this have "concat (map (ack_wire tid) acks) \<noteq> []" by (rule concat_map_nonempty) (simp add: ack_wire_def)
  then have "pieces \<noteq> []" using assms(7) by (auto simp: acks_def)
  ultimately have "fst (feed_all step4 (s, []) pieces) = foldl handle4 s (map snd (map ?am acks))"
    by (intro feed_messages [OF assms(1) _ _ pa]) (use assms(7) S in \<open>simp_all add: comp_def acks_def\<close>)
  then show ?thesis using S by (simp add: comp_def emit_def drop_pending_def)
qed

text \<open>
  Property C18. A bundle handed to \<open>send\<close> on an established session is written as segments from which
  the peer's session, however the stream is cut, delivers exactly that bundle once, acknowledging every
  segment; and those acknowledgements, however cut, resolve the promise of \<open>send\<close>. The peer has room:
  its MRUs are the ones it announced.
\<close>

theorem transfer_delivered:
  assumes "phase s = PEstablished" "\<not> halted4 s" "header_done s" "peer s = Some p"
    and "next_transfer s < 2 ^ 64" "map_of (pending s) (next_transfer s) = None"
    and "length b < 2 ^ 64" "length b \<le> peer_transfer_mru p"
    and "listening r q" "0 < o_segment (opts r)"
    and "peer_segment_mru p = o_segment (opts r)" "peer_transfer_mru p = o_transfer (opts r)"
    and "send4 b s = (s', res)"
  shows "\<exists>ws acks. res = Inr (next_transfer s) \<and> out s' = out s @ map Wrote ws \<and>
    (\<forall>pieces. concat pieces = concat ws \<longrightarrow>
      out (fst (feed_all step4 (r, []) pieces)) = out r @ map Wrote acks @ [Delivered b q]) \<and>
    (\<forall>pieces. concat pieces = concat acks \<longrightarrow>
      out (fst (feed_all step4 (s', []) pieces)) = out s' @ [Resolved (next_transfer s)])"
proof -
  define tid where "tid = next_transfer s"
  define seg where "seg = o_segment (opts r)"
  define segs where "segs = seg_list (Suc (length b)) seg b 0"
  have tp: "transfer_segs p b = segs" using assms(10,11)
    by (simp add: transfer_segs_def segs_def seg_def max_def del: seg_list.simps)
  have "\<not> closed s" using assms(2) by (simp add: halted4_def)
  from send4_sent [OF assms(4,1) this assms(8,5,7)] assms(13)
  have res: "res = Inr tid" and s': "s' = s\<lparr>next_transfer := tid + 1, pending := pending s @ [(tid, length b)],
      last_tx := clock s, out := out s @ map (\<lambda>x. Wrote (seg_wire tid x)) segs\<rparr>"
    by (simp_all add: tid_def tp)
  have "map_of (pending s') tid = Some (length b)" using assms(6) by (simp add: s' tid_def map_add_def)
  moreover have "\<not> halted4 s'" "header_done s'" using assms(2,3) by (simp_all add: s' halted4_def)
  moreover have "tid < 2 ^ 64" "0 < seg" using assms(5,10) by (simp_all add: tid_def seg_def)
  moreover have "out s' = out s @ map Wrote (map (seg_wire tid) segs)" by (simp add: s' comp_def)
  ultimately show ?thesis unfolding tid_def [symmetric] using res
    receive_transfer [OF assms(9) _ _ _ _ assms(7), of tid seg] acks_resolve [of s' tid b seg] assms(7,8,12)
    by (intro exI [of _ "map (seg_wire tid) segs"] exI [of _ "map (ack_wire tid) (ack_list 0 segs)"])
      (simp add: comp_def segs_def seg_def del: seg_list.simps)
qed

section \<open>The handshake\<close>

definition wrote :: "eff4 list \<Rightarrow> bytes" where
  "wrote es = concat (map (\<lambda>e. case e of Wrote w \<Rightarrow> w | _ \<Rightarrow> []) es)"

text \<open>A configuration without TLS whose \<open>SESS_INIT\<close> can be encoded.\<close>

definition plain_config :: "config4 \<Rightarrow> bool" where
  "plain_config c \<longleftrightarrow> c_tls c = None \<and> o_keepalive (c_opts c) < 2 ^ 16 \<and> o_segment (c_opts c) < 2 ^ 64 \<and>
     o_transfer (c_opts c) < 2 ^ 64 \<and> length (c_node c) < 2 ^ 16 \<and> text_ok (c_node c)"

definition init_wire :: "config4 \<Rightarrow> bytes" where
  "init_wire c = [SESS_INIT] @ be 2 (o_keepalive (c_opts c)) @ be 8 (o_segment (c_opts c)) @ be 8 (o_transfer (c_opts c))
     @ be 2 (length (c_node c)) @ utf8 (c_node c) @ replicate 4 0"

abbreviation (input) init_msg :: "config4 \<Rightarrow> msg4" where
  "init_msg c \<equiv> SessInit (o_keepalive (c_opts c)) (o_segment (c_opts c)) (o_transfer (c_opts c)) (c_node c)"

lemma init_wire_encode:
  assumes "plain_config c"
  shows "encodeSessInit (o_keepalive (c_opts c)) (o_segment (c_opts c)) (o_transfer (c_opts c)) (c_node c) = Inr (init_wire c)"
  using assms by (simp add: plain_config_def encodeSessInit_def init_wire_def u16_def u64_def)

lemma parse_init_wire: "plain_config c \<Longrightarrow> parse4 True mx (init_wire c) = Some (init_msg c, [])"
  using parse_sess_init [OF init_wire_encode, of c mx "[]"] by (simp add: plain_config_def)

definition peer_of :: "config4 \<Rightarrow> config4 \<Rightarrow> peer4" where
  "peer_of c d = \<lparr>peer_node = c_node d, peer_segment_mru = o_segment (c_opts d), peer_transfer_mru = o_transfer (c_opts d),
     peer_keepalive = min (o_keepalive (c_opts c)) (o_keepalive (c_opts d)), peer_tls = False\<rparr>"

definition waiting4 :: "config4 \<Rightarrow> session4 \<Rightarrow> bool" where
  "waiting4 c s \<longleftrightarrow> header_done s \<and> phase s = PInit \<and> tls_opts s = None \<and> secure s = False \<and> \<not> halted4 s \<and>
     active s = c_active c \<and> node_id s = c_node c \<and> opts s = c_opts c \<and> allowed_peers s = c_allowed c \<and>
     next_transfer s = 0 \<and> pending s = []"

lemma handle_hello:
  assumes "plain_config c"
  shows "waiting4 c (handle4 (new_session4 c) (Contact version4 0)) \<and>
    wrote (out (handle4 (new_session4 c) (Contact version4 0))) =
      encodeContactHeader False @ (if c_active c then init_wire c else [])"
proof -
  have c: "c_tls c = None" using assms by (simp add: plain_config_def)
  note e = init_wire_encode [OF assms]
  show ?thesis
    by (simp add: handle4_def on_message4_def on_contact4_def new_session4_def c Let_def waiting4_def halted4_def
        send_init4_def e write4_def wrote_def version4_def)
qed

lemma handle_init:
  assumes "plain_config c" "waiting4 c s" "case c_allowed c of Some l \<Rightarrow> c_node d \<in> set l | None \<Rightarrow> True"
  shows "listening (handle4 s (init_msg d)) (peer_of c d) \<and> opts (handle4 s (init_msg d)) = c_opts c \<and>
    wrote (out (handle4 s (init_msg d))) = wrote (out s) @ (if c_active c then [] else init_wire c) \<and>
    next_transfer (handle4 s (init_msg d)) = 0 \<and> pending (handle4 s (init_msg d)) = []"
proof -
  have s: "header_done s" "phase s = PInit" "tls_opts s = None" "\<not> secure s" "\<not> closed s" "crashed s = None"
      "active s = c_active c" "node_id s = c_node c" "opts s = c_opts c" "allowed_peers s = c_allowed c"
      "next_transfer s = 0" "pending s = []"
    using assms(2) by (simp_all add: waiting4_def halted4_def)
  have g: "names_peer s n" "allows_peer s (c_node d)" for n
    using assms(3) s by (simp_all add: names_peer_def allows_peer_def)
  note e = init_wire_encode [OF assms(1)]
  show ?thesis unfolding handle4_def header_done_id [OF s(1)]
    by (cases "c_active c"; cases "min (o_keepalive (c_opts c)) (o_keepalive (c_opts d)) = 0")
      (simp_all add: on_message4_def on_sess_init4_def s g send_init4_def e write4_def establish4_def Let_def emit_def
        start_keepalive4_def listening_def halted4_def peer_of_def wrote_def)
qed

lemma handle_init_ready:
  assumes "plain_config c" "waiting4 c s" "case c_allowed c of Some l \<Rightarrow> c_node d \<in> set l | None \<Rightarrow> True"
  shows "ReadyOk \<in> set (out (handle4 s (init_msg d)))"
proof -
  have s: "header_done s" "phase s = PInit" "tls_opts s = None" "crashed s = None" "active s = c_active c"
      "node_id s = c_node c" "opts s = c_opts c" "allowed_peers s = c_allowed c"
    using assms(2) by (simp_all add: waiting4_def halted4_def)
  have g: "names_peer s n" "allows_peer s (c_node d)" for n
    using assms(3) s by (simp_all add: names_peer_def allows_peer_def)
  note e = init_wire_encode [OF assms(1)]
  show ?thesis unfolding handle4_def header_done_id [OF s(1)]
    by (simp add: on_message4_def on_sess_init4_def s g send_init4_def e write4_def establish4_def Let_def emit_def
        start_keepalive4_def)
qed

lemma hello_out: "plain_config c \<Longrightarrow> c_active c \<Longrightarrow> wrote (out (new_session4 c)) = encodeContactHeader False"
  by (simp add: new_session4_def wrote_def plain_config_def)

lemma flight_hello:
  assumes "plain_config c" "concat ps = encodeContactHeader False"
  shows "waiting4 c (fst (feed_all step4 (new_session4 c, []) ps)) \<and>
    wrote (out (fst (feed_all step4 (new_session4 c, []) ps))) =
      encodeContactHeader False @ (if c_active c then init_wire c else [])"
proof -
  have fresh: "tls_opts (new_session4 c) = None" "\<not> halted4 (new_session4 c)" "\<not> header_done (new_session4 c)"
    using assms(1) by (simp_all add: new_session4_def plain_config_def halted4_def)
  have contact: "parse4 (header_done (new_session4 c)) mx (encodeContactHeader False) = Some (Contact version4 0, [])" for mx
    using parse_contact [of mx False "[]"] fresh(3) by simp
  have "fst (feed_all step4 (new_session4 c, []) ps) = handle4 (new_session4 c) (Contact version4 0)"
    by (rule feed_one [OF fresh(1,2) contact assms(2)]) (simp add: encodeContactHeader_def)
  then show ?thesis using handle_hello [OF assms(1)] by simp
qed

lemma flight_init:
  assumes "plain_config c" "plain_config d" "waiting4 c s" "concat ps = init_wire d"
    and "case c_allowed c of Some l \<Rightarrow> c_node d \<in> set l | None \<Rightarrow> True"
  shows "listening (fst (feed_all step4 (s, []) ps)) (peer_of c d) \<and> opts (fst (feed_all step4 (s, []) ps)) = c_opts c \<and>
    wrote (out (fst (feed_all step4 (s, []) ps))) = wrote (out s) @ (if c_active c then [] else init_wire c) \<and>
    next_transfer (fst (feed_all step4 (s, []) ps)) = 0 \<and> pending (fst (feed_all step4 (s, []) ps)) = []"
proof -
  have w: "tls_opts s = None" "\<not> halted4 s" "header_done s" using assms(3) by (simp_all add: waiting4_def)
  have "fst (feed_all step4 (s, []) ps) = handle4 s (init_msg d)"
  proof (rule feed_one [OF w(1,2) _ assms(4)])
    show "parse4 (header_done s) (o_segment (opts s)) (init_wire d) = Some (init_msg d, [])"
      using w(3) by (simp add: parse_init_wire [OF assms(2)])
  qed (simp add: init_wire_def)
  then show ?thesis using handle_init [OF assms(1,3,5)] by simp
qed


text \<open>Two nodes that differ in every option.\<close>

definition ground4 :: config4 where
  "ground4 = \<lparr>c_active = True, c_node = ''ipn:1.0'', c_tls = None, c_allowed = Some [''ipn:2.0''],
     c_opts = \<lparr>o_keepalive = 15, o_segment = 3, o_transfer = 100\<rparr>\<rparr>"

definition relay4 :: config4 where
  "relay4 = \<lparr>c_active = False, c_node = ''ipn:2.0'', c_tls = None, c_allowed = None,
     c_opts = \<lparr>o_keepalive = 30, o_segment = 2, o_transfer = 40\<rparr>\<rparr>"

lemma demo_plain: "plain_config ground4" "plain_config relay4"
  by (simp_all add: plain_config_def ground4_def relay4_def text_ok_ascii)

definition relay_hello :: session4 where
  "relay_hello = fst (feed_all step4 (new_session4 relay4, []) [encodeContactHeader False])"

definition ground_hello :: session4 where
  "ground_hello = fst (feed_all step4 (new_session4 ground4, []) [encodeContactHeader False])"

definition relay_up :: session4 where
  "relay_up = fst (feed_all step4 (relay_hello, []) [take 5 (init_wire ground4), drop 5 (init_wire ground4)])"

definition ground_up :: session4 where
  "ground_up = fst (feed_all step4 (ground_hello, []) [init_wire relay4])"

lemma demo_hello:
  "waiting4 relay4 relay_hello" "wrote (out relay_hello) = encodeContactHeader False"
  "waiting4 ground4 ground_hello" "wrote (out ground_hello) = encodeContactHeader False @ init_wire ground4"
  using flight_hello [OF demo_plain(2), of "[encodeContactHeader False]"]
    flight_hello [OF demo_plain(1), of "[encodeContactHeader False]"]
  by (simp_all add: relay_hello_def ground_hello_def relay4_def ground4_def)

lemma demo_up:
  "listening relay_up (peer_of relay4 ground4)" "opts relay_up = c_opts relay4"
  "wrote (out relay_up) = encodeContactHeader False @ init_wire relay4"
  "listening ground_up (peer_of ground4 relay4)" "opts ground_up = c_opts ground4"
  "next_transfer ground_up = 0" "pending ground_up = []"
  using flight_init [OF demo_plain(2,1) demo_hello(1), of "[take 5 (init_wire ground4), drop 5 (init_wire ground4)]"]
    flight_init [OF demo_plain(1,2) demo_hello(3), of "[init_wire relay4]"] demo_hello(2)
  by (simp_all add: relay_up_def ground_up_def) (simp_all add: relay4_def ground4_def)

lemma demo_fields:
  "c_active ground4" "\<not> c_active relay4" "c_allowed ground4 = Some [c_node relay4]" "c_allowed relay4 = None"
  by (simp_all add: ground4_def relay4_def)


lemma transfer_delivered_witness:
  "\<exists>ws acks. snd (send4 (map word_of_nat [1..<7]) ground_up) = Inr 0 \<and>
    (\<forall>pieces. concat pieces = concat ws \<longrightarrow> out (fst (feed_all step4 (relay_up, []) pieces)) =
      out relay_up @ map Wrote acks @ [Delivered (map word_of_nat [1..<7]) (peer_of relay4 ground4)])"
proof -
  have l: "phase ground_up = PEstablished" "\<not> halted4 ground_up" "header_done ground_up"
      "peer ground_up = Some (peer_of ground4 relay4)"
    using demo_up(4) by (simp_all add: listening_def)
  have "\<exists>ws acks. snd (send4 (map word_of_nat [1..<7]) ground_up) = Inr (next_transfer ground_up) \<and>
      out (fst (send4 (map word_of_nat [1..<7]) ground_up)) = out ground_up @ map Wrote ws \<and>
      (\<forall>pieces. concat pieces = concat ws \<longrightarrow> out (fst (feed_all step4 (relay_up, []) pieces)) =
        out relay_up @ map Wrote acks @ [Delivered (map word_of_nat [1..<7]) (peer_of relay4 ground4)]) \<and>
      (\<forall>pieces. concat pieces = concat acks \<longrightarrow>
        out (fst (feed_all step4 (fst (send4 (map word_of_nat [1..<7]) ground_up), []) pieces)) =
          out (fst (send4 (map word_of_nat [1..<7]) ground_up)) @ [Resolved (next_transfer ground_up)])"
    by (rule transfer_delivered [OF l _ _ _ _ demo_up(1)])
      (simp_all add: demo_up demo_up peer_of_def relay4_def)
  then show ?thesis unfolding demo_up(6) by blast
qed

end
