(* ===== verification/Tcpcl4Safety.thy ===== *)
theory Tcpcl4Safety
  imports Tcpcl4
begin

text \<open>
  What holds in every state a TCPCLv4 session can reach, whatever the peer sends and in whatever order
  timers, calls and the TLS handshake interleave: bundles come only from admitted peers, and the data
  kept of an unfinished transfer stays below the transfer MRU.
\<close>

section \<open>The gate\<close>

definition guard4 where
  "guard4 s = (tls_opts s, require_tls s, allowed_peers s, secure s, cert s, tls_socket s, peer s)"

definition admitted4 :: "session4 \<Rightarrow> peer4 \<Rightarrow> bool" where
  "admitted4 s p \<longleftrightarrow> names_peer s (peer_node p) \<and> allows_peer s (peer_node p) \<and> (require_tls s \<longrightarrow> tls_socket s)"

definition gate4 :: "session4 \<Rightarrow> bool" where
  "gate4 s \<longleftrightarrow> (\<forall>p. peer s = Some p \<longrightarrow> admitted4 s p) \<and>
     (phase s = PInit \<longrightarrow> require_tls s \<longrightarrow> tls_socket s) \<and> (phase s = PEstablished \<longrightarrow> peer s \<noteq> None) \<and>
     (peer s \<noteq> None \<longrightarrow> phase s \<noteq> PContact \<and> phase s \<noteq> PInit) \<and>
     (\<forall>b p. Delivered b p \<in> set (out s) \<longrightarrow> peer s = Some p)"

text \<open>Operations that neither let a peer in nor deliver anything.\<close>

definition quiet4 :: "session4 \<Rightarrow> session4 \<Rightarrow> bool" where
  "quiet4 s t \<longleftrightarrow> guard4 t = guard4 s \<and> (phase t = phase s \<or> phase t = PEnding \<or> phase t = PClosed) \<and>
     (\<exists>es. out t = out s @ es \<and> (\<forall>b p. Delivered b p \<notin> set es))"

lemma guard_names:
  assumes "guard4 t = guard4 s"
  shows "names_peer t n = names_peer s n \<and> allows_peer t n = allows_peer s n"
proof -
  have "peer_node_ids t = peer_node_ids s" using assms by (simp add: guard4_def peer_node_ids_def)
  then show ?thesis using assms by (simp add: guard4_def names_peer_def allows_peer_def split: option.split)
qed

lemma gate_quiet:
  assumes "gate4 s" "quiet4 s t"
  shows "gate4 t"
proof -
  have g: "guard4 t = guard4 s" and ph: "phase t = phase s \<or> phase t = PEnding \<or> phase t = PClosed"
    using assms(2) by (simp_all add: quiet4_def)
  have f: "peer t = peer s" "require_tls t = require_tls s" "tls_socket t = tls_socket s"
    using g by (simp_all add: guard4_def)
  have adm: "admitted4 t p = admitted4 s p" for p using guard_names [OF g] f by (simp add: admitted4_def)
  obtain es where es: "out t = out s @ es" "\<forall>b p. Delivered b p \<notin> set es" using assms(2) by (auto simp: quiet4_def)
  show ?thesis unfolding gate4_def f adm
    using assms(1) [unfolded gate4_def] ph es by auto
qed

lemma quiet_refl [simp]: "quiet4 s s"
  by (simp add: quiet4_def)

lemma quiet_trans [trans]: "quiet4 s t \<Longrightarrow> quiet4 t u \<Longrightarrow> quiet4 s u"
  unfolding quiet4_def
proof (elim conjE exE, intro conjI)
  fix es es'
  assume "out t = out s @ es" "\<forall>b p. Delivered b p \<notin> set es" "out u = out t @ es'" "\<forall>b p. Delivered b p \<notin> set es'"
  then show "\<exists>es. out u = out s @ es \<and> (\<forall>b p. Delivered b p \<notin> set es)"
    by (intro exI [of _ "es @ es'"]) simp
qed auto

lemma quiet_effects:
  "(\<And>b p. e \<noteq> Delivered b p) \<Longrightarrow> quiet4 s (emit e s)" "quiet4 s (write4 w s)" "quiet4 s (crash4 x s)"
  "quiet4 s (teardown4 z s)"
  by (auto simp: quiet4_def guard4_def emit_def write4_def crash4_def teardown4_def Let_def)

lemma quiet_fields:
  "quiet4 s (s\<lparr>header_done := b\<rparr>)" "quiet4 s (s\<lparr>rx := f\<rparr>)" "quiet4 s (s\<lparr>rx_bytes := g\<rparr>)" "quiet4 s (s\<lparr>pending := l\<rparr>)"
  "quiet4 s (s\<lparr>closers := n\<rparr>)" "quiet4 s (s\<lparr>next_transfer := n\<rparr>)" "quiet4 s (s\<lparr>clock := n\<rparr>)" "quiet4 s (s\<lparr>last_rx := n\<rparr>)"
  "quiet4 s (s\<lparr>phase := PEnding\<rparr>)" "quiet4 s (s\<lparr>last_tx := n\<rparr>)" "quiet4 s (s\<lparr>ka_timer := k\<rparr>)"
  by (simp_all add: quiet4_def guard4_def)

lemma quiet_ops:
  "quiet4 s (reject4 t r s)" "quiet4 s (fail4 q e s)" "quiet4 s (send_init4 s)" "quiet4 s (forget_rx i s)"
  "quiet4 s (drop_pending i s)"
proof -
  show "quiet4 s (reject4 t r s)" by (simp add: reject4_def quiet_effects)
  show "quiet4 s (fail4 q e s)" unfolding fail4_def by (rule quiet_trans [OF quiet_effects(2,4)])
  show "quiet4 s (send_init4 s)" by (simp add: send_init4_def quiet_effects split: sum.split)
  show "quiet4 s (forget_rx i s)" "quiet4 s (drop_pending i s)"
    by (simp_all add: forget_rx_def drop_pending_def quiet4_def guard4_def)
qed

lemma quiet_term: "quiet4 s (on_term4 f b s)"
proof -
  define s1 where "s1 = (if bit f 0 then s else write4 (encodeTerm REPLY b) s)"
  define s2 where "s2 = emit (Termed b) (s1\<lparr>phase := PEnding\<rparr>)"
  define s3 where "s3 = (if 0 < closers s2 then emit CloseDone (teardown4 None s2) else s2)"
  have "quiet4 s s1" by (simp add: s1_def quiet_effects)
  also have "quiet4 s1 (s1\<lparr>phase := PEnding\<rparr>)" by (rule quiet_fields)
  also have "quiet4 (s1\<lparr>phase := PEnding\<rparr>) s2" unfolding s2_def by (rule quiet_effects) simp
  also have "quiet4 s2 s3" unfolding s3_def
    by (simp add: quiet_trans [OF quiet_effects(4) quiet_effects(1)])
  also have "quiet4 s3 (emit SocketEnded s3)" by (rule quiet_effects) simp
  finally show ?thesis unfolding on_term4_def Let_def s3_def s2_def s1_def .
qed

lemma quiet_pending: "quiet4 s (on_ack4 f i n s)" "quiet4 s (on_refuse4 i s)" "quiet4 s (ack_timeout4 i s)"
  by (simp_all add: on_ack4_def on_refuse4_def ack_timeout4_def quiet_trans [OF quiet_ops(5) quiet_effects(1)]
      split: option.split)

section \<open>Where a peer comes in, and where a bundle goes out\<close>

lemma gate_phase_contact: "gate4 s \<Longrightarrow> phase s = PContact \<Longrightarrow> peer s = None"
  unfolding gate4_def by blast

text \<open>The contact header is the first message, so no peer is known yet.\<close>

definition fresh4 :: "session4 \<Rightarrow> bool" where
  "fresh4 s \<longleftrightarrow> (\<not> header_done s \<longrightarrow> peer s = None \<and> (\<forall>b p. Delivered b p \<notin> set (out s)))"

lemma gate_init_phase:
  assumes "gate4 s" "peer s = None" "\<forall>b p. Delivered b p \<notin> set (out s)" "require_tls s \<longrightarrow> tls_socket t"
    and "guard4 t = guard4 (s\<lparr>tls_socket := tls_socket t\<rparr>)" "phase t = PInit" "\<forall>b p. Delivered b p \<notin> set (out t)"
  shows "gate4 t"
  using assms by (auto simp: gate4_def guard4_def)

lemma gate_contact:
  assumes "gate4 s" "peer s = None" "\<forall>b p. Delivered b p \<notin> set (out s)"
  shows "gate4 (fst (on_contact4 v f s left))"
proof -
  define both where "both = (tls_opts s \<noteq> None \<and> bit f 0)"
  define hello where "hello = (if active s then s else write4 (encodeContactHeader (tls_opts s \<noteq> None)) s)"
  have hq: "quiet4 s hello" by (simp add: hello_def quiet_effects)
  have ho: "peer hello = None" "\<forall>b p. Delivered b p \<notin> set (out hello)" "require_tls hello = require_tls s" "gate4 hello"
    using assms(2,3) gate_quiet [OF assms(1) hq] by (auto simp: hello_def write4_def)
  define s1 where "s1 = hello\<lparr>phase := PInit\<rparr>"
  consider (version) "v \<noteq> version4" | (refused) "v = version4" "\<not> both" "require_tls s"
    | (tls) "v = version4" "both" | (plain) "v = version4" "\<not> both" "\<not> require_tls s" by blast
  moreover have eq: "on_contact4 v f s left =
     (if v \<noteq> version4 then (fail4 VERSION_MISMATCH ''peer TCPCL version, need 4'' s, left)
      else if \<not> both \<and> require_tls s then
        (fail4 CONTACT_FAILURE ''TLS is required and the peer did not offer it'' hello, left)
      else if both then start_tls4 s1 left else (if active s then send_init4 s1 else s1, left))"
    by (simp only: on_contact4_def Let_def both_def hello_def s1_def)
  ultimately show ?thesis
  proof cases
    case version
    then show ?thesis unfolding eq using gate_quiet [OF assms(1) quiet_ops(2)] by simp
  next
    case refused
    then show ?thesis unfolding eq using gate_quiet [OF ho(4) quiet_ops(2)] by simp
  next
    case tls
    have "gate4 (emit (TlsStarted left) (s1\<lparr>tls_socket := True\<rparr>))"
      by (rule gate_init_phase [OF ho(4,1,2)]) (use ho in \<open>simp_all add: s1_def emit_def guard4_def\<close>)
    with tls show ?thesis unfolding eq by (simp add: start_tls4_def)
  next
    case plain
    have "gate4 s1"
      by (rule gate_init_phase [OF ho(4,1,2)]) (use ho plain in \<open>simp_all add: s1_def guard4_def\<close>)
    then have "gate4 (if active s then send_init4 s1 else s1)" using gate_quiet [OF _ quiet_ops(3)] by simp
    with plain show ?thesis unfolding eq by simp
  qed
qed

lemma gate_establish:
  assumes "gate4 s" "phase s = PInit" "names_peer s node" "allows_peer s node"
  shows "gate4 (establish4 ka sm tm node s)"
proof -
  have "\<forall>b p. Delivered b p \<notin> set (out s)" "peer s = None" "require_tls s \<longrightarrow> tls_socket s"
    using assms(1,2) unfolding gate4_def by auto
  then show ?thesis using assms(3,4)
    by (auto simp: gate4_def admitted4_def establish4_def Let_def emit_def start_keepalive4_def names_peer_def
        allows_peer_def peer_node_ids_def split: option.splits if_splits)
qed

lemma phase_send_init [simp]: "phase (send_init4 s) = phase s"
  by (simp add: send_init4_def write4_def crash4_def split: sum.split)

lemma gate_sess_init:
  assumes "gate4 s"
  shows "gate4 (on_sess_init4 ka sm tm node s)"
proof -
  define s1 where "s1 = (if active s then s else send_init4 s)"
  have q: "quiet4 s s1" by (simp add: s1_def quiet_ops)
  have "gate4 (establish4 ka sm tm node s1)" if "phase s = PInit" "names_peer s node" "allows_peer s node"
    by (rule gate_establish [OF gate_quiet [OF assms q]])
      (use that guard_names [of s1 s node] q in \<open>auto simp: s1_def quiet4_def\<close>)
  then show ?thesis using gate_quiet [OF assms quiet_ops(1)] gate_quiet [OF assms quiet_ops(2)] gate_quiet [OF assms q]
    by (simp add: on_sess_init4_def Let_def s1_def [symmetric])
qed

lemma gate_deliver: "gate4 s \<Longrightarrow> peer s = Some p \<Longrightarrow> gate4 (emit (Delivered b p) s)"
  by (auto simp: gate4_def emit_def admitted4_def names_peer_def allows_peer_def peer_node_ids_def split: option.splits)

lemma quiet_peer: "quiet4 s t \<Longrightarrow> peer t = peer s"
  by (simp add: quiet4_def guard4_def)

lemma gate_store:
  assumes "gate4 s"
  shows "gate4 (store_segment4 f i d ps g s)"
proof -
  define s1 where "s1 = s\<lparr>rx := (rx s)(i := Some ps), rx_bytes := (rx_bytes s)(i := Some g)\<rparr>"
  have q1: "quiet4 s s1" by (simp add: s1_def quiet4_def guard4_def)
  have q2: "quiet4 s (write4 a s1)" for a by (rule quiet_trans [OF q1 quiet_effects(2)])
  have q3: "quiet4 s (forget_rx i (write4 a s1))" for a by (rule quiet_trans [OF q2 quiet_ops(4)])
  note g = gate_quiet [OF assms]
  have "gate4 (emit (Delivered b p) (forget_rx i (write4 a s1)))" if "peer s = Some p" for a b p
    by (rule gate_deliver [OF g [OF q3]]) (use that quiet_peer [OF q3] in simp)
  then show ?thesis
    using g [OF q2] g [OF quiet_trans [OF q1 quiet_effects(3)]] g [OF quiet_trans [OF q2 quiet_effects(3)]]
    by (simp add: store_segment4_def Let_def s1_def [symmetric] split: sum.split option.split)
qed

lemma gate_segment:
  assumes "gate4 s"
  shows "gate4 (on_segment4 f i d s)"
proof -
  define s0 where "s0 = (if is_start f
    then s\<lparr>rx := (rx s)(i := Some []), rx_bytes := (rx_bytes s)(i := Some 0)\<rparr> else s)"
  have g0: "gate4 s0" by (rule gate_quiet [OF assms]) (simp add: s0_def quiet4_def guard4_def)
  note q = gate_quiet [OF g0]
  have "gate4 (forget_rx i (write4 w s0))" for w by (rule q [OF quiet_trans [OF quiet_effects(2) quiet_ops(4)]])
  then show ?thesis
    using gate_quiet [OF assms quiet_ops(1)] q [OF quiet_ops(1)] q [OF quiet_effects(3)] gate_store [OF g0]
    by (simp add: on_segment4_def Let_def s0_def [symmetric] split: sum.split option.split)
qed

lemma gate_message:
  assumes "gate4 s" "\<And>v f. m = Contact v f \<Longrightarrow> peer s = None \<and> (\<forall>b p. Delivered b p \<notin> set (out s))"
  shows "gate4 (fst (on_message4 m s left))"
  using assms gate_quiet [OF assms(1) quiet_effects(4)] gate_quiet [OF assms(1) quiet_term]
    gate_quiet [OF assms(1) quiet_pending(1)] gate_quiet [OF assms(1) quiet_pending(2)]
    gate_quiet [OF assms(1) quiet_ops(1)] gate_quiet [OF assms(1) quiet_ops(2)]
  by (cases m) (simp_all add: on_message4_def gate_contact gate_sess_init gate_segment)

lemma gate_step:
  assumes "gate4 s \<and> fresh4 s" "step4 s b = Some (t, r)"
  shows "gate4 t \<and> fresh4 t"
proof -
  from assms(2) obtain m l where p: "parse4 (header_done s) (o_segment (opts s)) b = Some (m, l)"
    and o: "on_message4 m (s\<lparr>header_done := True\<rparr>) l = (t, r)"
    unfolding step4_def by (auto split: option.splits if_splits)
  have "gate4 (s\<lparr>header_done := True\<rparr>)" using gate_quiet [OF _ quiet_fields(1)] assms(1) by blast
  then have "gate4 (fst (on_message4 m (s\<lparr>header_done := True\<rparr>) l))"
  proof (rule gate_message)
    fix v f
    assume "m = Contact v f"
    then have "\<not> header_done s" using p parse_typed_not_contact [of _ b "Contact v f" l v f]
      by (cases "header_done s") (simp_all add: parse4_def)
    then show "peer (s\<lparr>header_done := True\<rparr>) = None \<and> (\<forall>b p. Delivered b p \<notin> set (out (s\<lparr>header_done := True\<rparr>)))"
      using assms(1) by (simp add: fresh4_def)
  qed
  moreover have "header_done t" using step4_conf [OF assms(2)] by (simp add: conf_def)
  ultimately show ?thesis using o by (simp add: fresh4_def)
qed


section \<open>Every reachable state\<close>

lemma segment_loop_is_writes: "\<exists>ws. fst (segment_loop n seg i b off s) = writes4 ws s"
proof (induction n arbitrary: off s)
  case 0
  show ?case by (intro exI [of _ "[]"]) (simp add: writes4_def)
next
  case (Suc n)
  define fin where "fin = min (off + seg) (length b)"
  define r where "r = encodeSegment (seg_flags (off = 0) (fin = length b)) i (slice off (fin - off) b)"
  have eq: "fst (segment_loop (Suc n) seg i b off s) =
      (if off < length b \<or> off = 0 then
         (case r of Inl e \<Rightarrow> s
          | Inr w \<Rightarrow> if fin = length b then write4 w s else fst (segment_loop n seg i b (off + seg) (write4 w s)))
       else s)"
    unfolding segment_loop.simps Let_def fin_def [symmetric] r_def [symmetric] by (cases r) simp_all
  have w: "writes4 [] s = s" "writes4 (w # ws) s = writes4 ws (write4 w s)" for w ws by (simp_all add: writes4_def)
  show ?case
  proof (cases r)
    case (Inl e)
    then show ?thesis unfolding eq by (intro exI [of _ "[]"]) (simp add: w)
  next
    case (Inr v)
    obtain ws where "fst (segment_loop n seg i b (off + seg) (write4 v s)) = writes4 ws (write4 v s)"
      using Suc.IH by blast
    then have "fst (segment_loop n seg i b (off + seg) (write4 v s)) = writes4 (v # ws) s" by (simp only: w)
    moreover have "write4 v s = writes4 [v] s" "s = writes4 [] s" by (simp_all add: writes4_def)
    ultimately show ?thesis unfolding eq Inr sum.case by (simp only: split: if_split) blast
  qed
qed

lemma quiet_writes: "quiet4 s (writes4 ws s)"
proof (induction ws rule: rev_induct)
  case (snoc w ws)
  from quiet_trans [OF snoc.IH quiet_effects(2)] show ?case by (simp add: writes4_snoc)
qed (simp add: writes4_def)

lemma conf_writes [simp]: "conf (writes4 ws s) = conf s"
  by (induction ws rule: rev_induct) (simp_all add: writes4_snoc, simp add: writes4_def)

lemma send4_is_writes: "\<exists>t ws. fst (send4 b s) = writes4 ws t \<and> (t = s \<or> t = s\<lparr>next_transfer := next_transfer s + 1,
    pending := pending s @ [(next_transfer s, length b)]\<rparr>)"
proof -
  define t where "t = s\<lparr>next_transfer := next_transfer s + 1, pending := pending s @ [(next_transfer s, length b)]\<rparr>"
  have id: "s = writes4 [] s" by (simp add: writes4_def)
  have "fst (send4 b s) = s \<or>
    (\<exists>k. fst (send4 b s) = fst (segment_loop (Suc (length b)) k (next_transfer s) b 0 t))"
  proof (cases "\<exists>p. peer s = Some p \<and> phase s = PEstablished \<and> \<not> peer_transfer_mru p < length b")
    case True
    then obtain p where "peer s = Some p" "phase s = PEstablished" "\<not> peer_transfer_mru p < length b" by blast
    then have "fst (send4 b s) = fst (segment_loop (Suc (length b)) (max 1 (peer_segment_mru p)) (next_transfer s) b 0 t)"
      unfolding send4_def Let_def t_def by (simp add: split_beta del: segment_loop.simps split: option.split)
    then show ?thesis by (intro disjI2 exI)
  qed (auto simp: send4_def split: option.split)
  then show ?thesis unfolding t_def [symmetric] using id segment_loop_is_writes by metis
qed

lemma quiet_send: "quiet4 s (fst (send4 b s))"
proof -
  from send4_is_writes obtain t ws where t: "fst (send4 b s) = writes4 ws t" "t = s \<or> t = s\<lparr>next_transfer := next_transfer s + 1,
    pending := pending s @ [(next_transfer s, length b)]\<rparr>" by blast
  then have "quiet4 s t" by (auto simp: quiet4_def guard4_def)
  from quiet_trans [OF this quiet_writes] show ?thesis by (simp only: t(1))
qed

lemma quiet_calls: "quiet4 s (close4 q s)" "quiet4 s (close_timeout4 s)" "quiet4 s (tick4 s)"
proof -
  show "quiet4 s (close4 q s)"
    using quiet_trans [OF quiet_effects(2) quiet_fields(5)] by (simp add: close4_def quiet_effects)
  show "quiet4 s (close_timeout4 s)"
    using quiet_trans [OF quiet_effects(4) quiet_effects(1)] by (simp add: close_timeout4_def)
  show "quiet4 s (tick4 s)" by (simp add: tick4_def quiet_ops quiet_effects split: option.split)
qed

lemma gate_tls_up: "gate4 s \<Longrightarrow> gate4 (tls_up4 c s)"
proof -
  assume g: "gate4 s"
  define s1 where "s1 = s\<lparr>secure := True, cert := c\<rparr>"
  have "gate4 s1" if "\<not> secure s"
    using g that by (auto simp: s1_def gate4_def admitted4_def names_peer_def allows_peer_def split: option.splits)
  then show ?thesis using g gate_quiet [OF _ quiet_ops(3)]
    by (simp add: tls_up4_def s1_def [symmetric] Let_def)
qed

lemma fresh_quiet: "fresh4 s \<Longrightarrow> quiet4 s t \<Longrightarrow> header_done t = header_done s \<Longrightarrow> fresh4 t"
  by (auto simp: fresh4_def quiet4_def guard4_def)

lemma conf_calls:
  "conf (fst (send4 b s)) = conf s" "conf (close4 q s) = conf s" "conf (tick4 s) = conf s" "conf (ack_timeout4 i s) = conf s"
  "conf (close_timeout4 s) = conf s" "conf (tls_up4 c s) = conf s"
proof -
  have "conf (s\<lparr>next_transfer := k, pending := l\<rparr>) = conf s" for k l by (simp add: conf_def)
  then show "conf (fst (send4 b s)) = conf s" using send4_is_writes [of b s] by auto
  have "conf (s\<lparr>secure := True, cert := c\<rparr>) = conf s" by (simp add: conf_def)
  then show "conf (tls_up4 c s) = conf s" by (simp add: tls_up4_def Let_def)
qed (simp_all add: close4_def tick4_def ack_timeout4_def close_timeout4_def split: option.split)

lemma fresh_tls_up: "fresh4 s \<Longrightarrow> fresh4 (tls_up4 c s)"
  using fresh_quiet [of "s\<lparr>secure := True, cert := c\<rparr>", OF _ quiet_ops(3)]
    conf_ops(3) [of "s\<lparr>secure := True, cert := c\<rparr>"]
  by (simp add: tls_up4_def Let_def conf_def fresh4_def)

lemma gate_fresh_quiet:
  assumes "gate4 s \<and> fresh4 s" "quiet4 s t" "conf t = conf s"
  shows "gate4 t \<and> fresh4 t"
proof -
  have "header_done t = header_done s" using assms(3) by (simp add: conf_def)
  with assms(1,2) show ?thesis using gate_quiet fresh_quiet by blast
qed

lemma gate_event:
  assumes "gate4 s \<and> fresh4 s"
  shows "gate4 (fst (event_step4 e (s, buf))) \<and> fresh4 (fst (event_step4 e (s, buf)))"
proof -
  note q = gate_fresh_quiet [OF assms]
  show ?thesis
  proof (cases e)
    case (GotData d)
    define s1 where "s1 = s\<lparr>last_rx := clock s\<rparr>"
    have "gate4 s1 \<and> fresh4 s1" unfolding s1_def by (rule q [OF quiet_fields(8)]) simp
    from drain_invariant [where P = "\<lambda>s. gate4 s \<and> fresh4 s" and step = step4, OF _ this] gate_step
    have "gate4 (fst (drain n step4 s1 bs)) \<and> fresh4 (fst (drain n step4 s1 bs))" for n bs
      by metis
    then show ?thesis by (simp add: GotData on_data4_def feed_def s1_def del: drain.simps)
  next
    case (TlsUp c)
    then show ?thesis using assms by (simp add: gate_tls_up fresh_tls_up)
  next
    case (SendCall b)
    then show ?thesis using q [OF quiet_send conf_calls(1)] by simp
  next
    case (CloseCall r)
    then show ?thesis using q [OF quiet_calls(1) conf_calls(2)] by simp
  next
    case Tick
    then show ?thesis using q [OF quiet_calls(3) conf_calls(3)] by simp
  next
    case (AckTimeout i)
    then show ?thesis using q [OF quiet_pending(3) conf_calls(4)] by simp
  next
    case CloseTimeout
    then show ?thesis using q [OF quiet_calls(2) conf_calls(5)] by simp
  next
    case (SocketFailed x)
    then show ?thesis using q [OF quiet_effects(4) conf_basic(4)] by simp
  qed
qed

lemma reach_gate: "reach4 c sb \<Longrightarrow> gate4 (fst sb) \<and> fresh4 (fst sb)"
proof (induction rule: reach4.induct)
  case start
  show ?case by (simp add: new_session4_def gate4_def fresh4_def Let_def)
next
  case (event sb t e)
  have "quiet4 (fst sb) ((fst sb)\<lparr>clock := t\<rparr>)" by (rule quiet_fields)
  then have "gate4 ((fst sb)\<lparr>clock := t\<rparr>) \<and> fresh4 ((fst sb)\<lparr>clock := t\<rparr>)"
    using event.IH gate_quiet [of "fst sb"] fresh_quiet [of "fst sb"] by simp
  from gate_event [OF this, of e "snd sb"] show ?case by (simp add: at_time_def)
qed

text \<open>The configuration a session was made with stays.\<close>

definition setup4 where
  "setup4 s = (active s, node_id s, tls_opts s, require_tls s, allowed_peers s, opts s)"

lemma setup_conf: "conf t = conf s \<Longrightarrow> setup4 t = setup4 s"
  by (simp add: conf_def setup4_def)

lemma setup_event: "setup4 (fst (event_step4 e sb)) = setup4 (fst sb)"
proof (cases e)
  case (GotData d)
  define s1 where "s1 = (fst sb)\<lparr>last_rx := clock (fst sb)\<rparr>"
  have "setup4 t = setup4 s" if "step4 s b = Some (t, r)" for s b t r
    using step4_conf [OF that] by (simp add: conf_def setup4_def)
  then have "setup4 (fst (drain n step4 s1 bs)) = setup4 (fst sb)" for n bs
    by (intro drain_invariant [where P = "\<lambda>s. setup4 s = setup4 (fst sb)"]) (auto simp: s1_def setup4_def)
  then show ?thesis by (simp add: GotData on_data4_def feed_def s1_def del: drain.simps)
qed (simp_all add: setup_conf [OF conf_calls(1)] setup_conf [OF conf_calls(2)] setup_conf [OF conf_calls(3)]
  setup_conf [OF conf_calls(4)] setup_conf [OF conf_calls(5)] setup_conf [OF conf_calls(6)] setup_conf [OF conf_basic(4)])

lemma reach_setup: "reach4 c sb \<Longrightarrow> setup4 (fst sb) = setup4 (new_session4 c)"
proof (induction rule: reach4.induct)
  case (event sb t e)
  then show ?case using setup_event [of e "at_time t sb"] by (simp add: at_time_def setup4_def)
qed simp



section \<open>What is kept of unfinished transfers\<close>

definition held4 :: "session4 \<Rightarrow> bool" where
  "held4 s \<longleftrightarrow> (\<forall>i ps. rx s i = Some ps \<longrightarrow>
     rx_bytes s i = Some (length (concat ps)) \<and> length (concat ps) \<le> o_transfer (opts s))"

definition store4 where
  "store4 s = (rx s, rx_bytes s, opts s)"

lemma held_store: "held4 s \<Longrightarrow> store4 t = store4 s \<Longrightarrow> held4 t"
  by (simp add: held4_def store4_def)

lemma store_basic [simp]:
  "store4 (emit e s) = store4 s" "store4 (write4 w s) = store4 s" "store4 (crash4 x s) = store4 s"
  "store4 (teardown4 z s) = store4 s" "store4 (start_keepalive4 k s) = store4 s" "store4 (drop_pending i s) = store4 s"
  "store4 (s\<lparr>phase := p\<rparr>) = store4 s" "store4 (s\<lparr>peer := q\<rparr>) = store4 s" "store4 (s\<lparr>tls_socket := b\<rparr>) = store4 s"
  "store4 (s\<lparr>closers := n\<rparr>) = store4 s" "store4 (s\<lparr>header_done := b\<rparr>) = store4 s" "store4 (s\<lparr>clock := n\<rparr>) = store4 s"
  "store4 (s\<lparr>last_rx := n\<rparr>) = store4 s"
  by (simp_all add: store4_def emit_def write4_def crash4_def teardown4_def start_keepalive4_def drop_pending_def Let_def)

lemma store_ops [simp]:
  "store4 (fail4 q e s) = store4 s" "store4 (reject4 t r s) = store4 s" "store4 (send_init4 s) = store4 s"
  "store4 (establish4 ka sm tm n s) = store4 s" "store4 (writes4 ws s) = store4 s"
  by (simp_all add: fail4_def reject4_def send_init4_def establish4_def Let_def split: sum.split)
    (induction ws rule: rev_induct, simp add: writes4_def, simp add: writes4_snoc)

lemma store_handlers [simp]:
  "store4 (fst (on_contact4 v f s r)) = store4 s" "store4 (on_sess_init4 ka sm tm n s) = store4 s"
  "store4 (on_ack4 f i k s) = store4 s" "store4 (on_refuse4 i s) = store4 s" "store4 (on_term4 f b s) = store4 s"
  "store4 (ack_timeout4 i s) = store4 s" "store4 (close4 q s) = store4 s" "store4 (close_timeout4 s) = store4 s"
  "store4 (tick4 s) = store4 s"
  by (simp_all add: on_contact4_def start_tls4_def on_sess_init4_def on_ack4_def on_refuse4_def on_term4_def ack_timeout4_def
      close4_def close_timeout4_def tick4_def Let_def split: sum.split option.split)

lemma store_calls: "store4 (fst (send4 b s)) = store4 s" "store4 (tls_up4 c s) = store4 s"
proof -
  have "store4 (s\<lparr>next_transfer := k, pending := l\<rparr>) = store4 s" for k l by (simp add: store4_def)
  then show "store4 (fst (send4 b s)) = store4 s" using send4_is_writes [of b s] by auto
  have "store4 (s\<lparr>secure := True, cert := c\<rparr>) = store4 s" by (simp add: store4_def)
  then show "store4 (tls_up4 c s) = store4 s" by (simp add: tls_up4_def Let_def)
qed

lemma held_forget: "held4 s \<Longrightarrow> held4 (forget_rx i s)"
  by (simp add: held4_def forget_rx_def)

lemma held_put:
  "held4 s \<Longrightarrow> g = length (concat ps) \<Longrightarrow> g \<le> o_transfer (opts s) \<Longrightarrow>
   held4 (s\<lparr>rx := (rx s)(i := Some ps), rx_bytes := (rx_bytes s)(i := Some g)\<rparr>)"
  by (simp add: held4_def)

lemma held_segment:
  assumes "held4 s"
  shows "held4 (on_segment4 f i d s)"
proof -
  define s0 where "s0 = (if is_start f
    then s\<lparr>rx := (rx s)(i := Some []), rx_bytes := (rx_bytes s)(i := Some 0)\<rparr> else s)"
  have h0: "held4 s0" unfolding s0_def using assms held_put [OF assms, of 0 "[]" i] by simp
  have o0: "opts s0 = opts s" by (simp add: s0_def)
  note k = held_store [OF h0]
  have st: "held4 (store_segment4 f i d (ps @ [d]) (n + length d) s0)"
    if "rx s0 i = Some ps" "rx_bytes s0 i = Some n" "n + length d \<le> o_transfer (opts s0)" for ps n
  proof -
    define s1 where "s1 = s0\<lparr>rx := (rx s0)(i := Some (ps @ [d])), rx_bytes := (rx_bytes s0)(i := Some (n + length d))\<rparr>"
    have "n = length (concat ps)" using h0 that(1,2) by (simp add: held4_def)
    then have h1: "held4 s1" unfolding s1_def by (intro held_put [OF h0]) (use that in simp_all)
    have f: "held4 (forget_rx i (write4 a s1))" for a by (rule held_forget [OF held_store [OF h1]]) simp
    have "held4 (write4 a s1)" "held4 (emit e (forget_rx i (write4 a s1)))" "held4 (crash4 x s1)"
        "held4 (crash4 x (write4 a s1))" for a e x
      using held_store [OF h1] held_store [OF f] by simp_all
    then show ?thesis
      by (simp add: store_segment4_def Let_def s1_def [symmetric] split: sum.split option.split)
  qed
  have "rx_bytes s0 i \<noteq> None" if "rx s0 i = Some ps" for ps using h0 that by (auto simp: held4_def)
  then show ?thesis
    using held_store [OF assms] k held_forget [OF k] st
    by (auto simp: on_segment4_def Let_def s0_def [symmetric] o0 split: sum.split option.split)
qed

lemma held_message: "held4 s \<Longrightarrow> held4 (fst (on_message4 m s left))"
  by (cases m) (simp_all add: on_message4_def held_segment held_store)

lemma held_step: "held4 s \<Longrightarrow> step4 s b = Some (t, r) \<Longrightarrow> held4 t"
  unfolding step4_def using held_message [OF held_store, of s "s\<lparr>header_done := True\<rparr>"]
  by (auto split: option.splits if_splits) (metis fst_conv)

lemma held_event: "held4 (fst sb) \<Longrightarrow> held4 (fst (event_step4 e sb))"
proof (cases e)
  case (GotData d)
  assume h: "held4 (fst sb)"
  define s1 where "s1 = (fst sb)\<lparr>last_rx := clock (fst sb)\<rparr>"
  have "held4 s1" using held_store [OF h] by (simp add: s1_def)
  from drain_invariant [where P = held4 and step = step4, OF _ this] held_step
  have "held4 (fst (drain n step4 s1 bs))" for n bs by metis
  then show ?thesis by (simp add: GotData on_data4_def feed_def s1_def del: drain.simps)
qed (simp_all add: held_store store_calls)

text \<open>
  Property C34. In every reachable state of a session, whatever the peer sends, the count kept for an
  unfinished transfer is the number of bytes kept, and both stay within the transfer MRU.
\<close>

theorem transfer_memory_bounded:
  assumes "reach4 c (s, buf)" "rx s i = Some parts"
  shows "rx_bytes s i = Some (length (concat parts)) \<and> length (concat parts) \<le> o_transfer (c_opts c)"
proof -
  have "held4 (fst sb)" if "reach4 c sb" for sb
    using that
  proof (induction rule: reach4.induct)
    case start
    show ?case by (simp add: new_session4_def held4_def Let_def)
  next
    case (event sb t e)
    then show ?case using held_event [of "at_time t sb" e] held_store [of "fst sb"] by (simp add: at_time_def)
  qed
  from this [OF assms(1)] assms(2) have "rx_bytes s i = Some (length (concat parts)) \<and> length (concat parts) \<le> o_transfer (opts s)"
    by (simp add: held4_def)
  moreover have "opts s = c_opts c" using reach_setup [OF assms(1)] by (simp add: setup4_def new_session4_def Let_def)
  ultimately show ?thesis by simp
qed

section \<open>What is not bounded\<close>

lemma handle_segment_other:
  "header_done s \<Longrightarrow> i \<noteq> j \<Longrightarrow> rx (handle4 s (Segment f j d)) i = rx s i"
  unfolding handle4_def
  by (simp add: on_message4_def on_segment4_def store_segment4_def reject4_def write4_def crash4_def emit_def forget_rx_def
      Let_def split: sum.split option.split)

lemma open_transfers_run:
  assumes "listening s p" "n < 2 ^ 64" "length d \<le> o_transfer (opts s)" "length d < 2 ^ 64"
  shows "all_run s (map (\<lambda>i. Segment 2 i d) [0..<n]) \<and>
    listening (foldl handle4 s (map (\<lambda>i. Segment 2 i d) [0..<n])) p \<and>
    (\<forall>i<n. rx (foldl handle4 s (map (\<lambda>i. Segment 2 i d) [0..<n])) i = Some [d])"
  using assms(2)
proof (induction n)
  case 0
  then show ?case using assms(1) by simp
next
  case (Suc n)
  define t where "t = foldl handle4 s (map (\<lambda>i. Segment 2 i d) [0..<n])"
  have ih: "all_run s (map (\<lambda>i. Segment 2 i d) [0..<n])" "listening t p" "\<forall>i<n. rx t i = Some [d]"
    using Suc unfolding t_def by auto
  have "opts t = opts s" unfolding t_def by (induction n) simp_all
  moreover have "is_start 2" "\<not> is_end 2" by (simp_all add: is_start_def is_end_def bit_simps)
  ultimately have h: "listening (handle4 t (Segment 2 n d)) p" "receiving (handle4 t (Segment 2 n d)) n (length d) [d]"
    using handle_segment [OF ih(2), of n 2 "[]" 0 d] Suc.prems assms(3,4) by simp_all
  have run: "all_run s (ms @ [m]) \<longleftrightarrow> all_run s ms \<and> \<not> halted4 (foldl handle4 s ms)" for s ms m
    by (induction ms arbitrary: s) simp_all
  have "rx (handle4 t (Segment 2 n d)) i = Some [d]" if "i < Suc n" for i
  proof (cases "i = n")
    case True
    then show ?thesis using h(2) by (simp add: receiving_def)
  next
    case False
    have "header_done t" using ih(2) by (simp add: listening_def)
    from handle_segment_other [OF this False] show ?thesis using ih(3) False that by simp
  qed
  then show ?case using ih(1,2) h(1) run by (simp add: t_def [symmetric] listening_def)
qed

text \<open>
  The number of unfinished transfers is not bounded: an admitted peer that opens \<open>n\<close>
  transfers makes the session keep \<open>n\<close> times a segment, however many times the transfer MRU that is.
\<close>

theorem open_transfers_unbounded:
  assumes "listening s p" "n < 2 ^ 64" "length d \<le> o_transfer (opts s)" "length d \<le> o_segment (opts s)" "length d < 2 ^ 64"
    and "concat pieces = concat (map (\<lambda>i. seg_wire i (2, d)) [0..<n])" "0 < n"
  shows "\<forall>i<n. rx (fst (feed_all step4 (s, []) pieces)) i = Some [d]"
proof -
  let ?wm = "\<lambda>i. (seg_wire i (2, d), Segment 2 i d)"
  have ps: "parse4 True (o_segment (opts s)) (w @ t) = Some (m, t)" if "(w, m) \<in> set (map ?wm [0..<n])" for w m t
  proof -
    from that obtain i where i: "i < n" "w = seg_wire i (2, d)" "m = Segment 2 i d" by auto
    have "i < 2 ^ 64" using i(1) assms(2) by simp
    from encodeSegment_wire [OF this assms(5)] have "encodeSegment 2 i d = Inr w" using i(2) by simp
    from parse_seg [OF this assms(4)] show ?thesis using i(3) by simp
  qed
  have "concat (map (\<lambda>i. seg_wire i (2, d)) [0..<n]) \<noteq> []"
    using assms(7) by (intro concat_map_nonempty) (simp_all add: seg_wire_def)
  then have "pieces \<noteq> []" using assms(6) by auto
  then have "fst (feed_all step4 (s, []) pieces) = foldl handle4 s (map snd (map ?wm [0..<n]))"
    using open_transfers_run [OF assms(1,2,3,5)] assms(1,6,7)
    by (intro feed_messages [OF _ _ _ ps]) (simp_all add: comp_def listening_def)
  then show ?thesis using open_transfers_run [OF assms(1,2,3,5)] by (simp add: comp_def)
qed

section \<open>Who hears a bundle\<close>

text \<open>
  The bundles the application hears, data event by data event: its \<open>bundle\<close> listener is attached in the
  microtask after the event that resolved \<open>ready\<close> (\<open>listen\<close>, and \<open>await connect\<close> in the gateway), so an
  event emitted before that one has returned has no listener.
\<close>

fun heard4 :: "session4 \<times> bytes \<Rightarrow> bytes list \<Rightarrow> bytes list" where
  "heard4 sb [] = []"
| "heard4 sb (d # ds) =
     (let sb' = feed step4 sb d; es = drop (length (out (fst sb))) (out (fst sb')) in
      (if ReadyOk \<in> set (out (fst sb)) then concat (map (\<lambda>e. case e of Delivered b p \<Rightarrow> [b] | _ \<Rightarrow> []) es) else [])
      @ heard4 sb' ds)"


text \<open>
  A bundle that arrives in the same piece as the peer's \<open>SESS_INIT\<close> is acknowledged and
  emitted before anything listens, so it is lost; the same bytes in two pieces are heard.
\<close>

theorem piggybacked_bundle_unheard:
  assumes "plain_config c" "plain_config d" "waiting4 c s" "ReadyOk \<notin> set (out s)"
    and "case c_allowed c of Some l \<Rightarrow> c_node d \<in> set l | None \<Rightarrow> True"
    and "tid < 2 ^ 64" "0 < seg" "seg \<le> o_segment (c_opts c)" "length b \<le> o_transfer (c_opts c)" "length b < 2 ^ 64"
    and "ws = concat (map (seg_wire tid) (seg_list (Suc (length b)) seg b 0))"
  shows "Delivered b (peer_of c d) \<in> set (out (fst (feed step4 (s, []) (init_wire d @ ws)))) \<and>
    heard4 (s, []) [init_wire d @ ws] = [] \<and> heard4 (s, []) [init_wire d, ws] = [b]"
proof -
  define r where "r = handle4 s (init_msg d)"
  have w: "tls_opts s = None" "\<not> halted4 s" "header_done s" using assms(3) by (simp_all add: waiting4_def)
  have f: "feed step4 (s, []) (init_wire d) = (r, [])" unfolding r_def
    by (rule feed_whole [OF w(2)]) (simp_all add: w parse_init_wire [OF assms(2)])
  have l: "listening r (peer_of c d)" "opts r = c_opts c" "ReadyOk \<in> set (out r)"
    using handle_init [OF assms(1,3,5)] handle_init_ready [OF assms(1,3,5)] by (simp_all add: r_def)
  have st: "steady4 (fst (s, [] :: bytes))" using w by (simp add: steady4_def)
  define acks where "acks = map (\<lambda>a. Wrote (ack_wire tid a)) (ack_list 0 (seg_list (Suc (length b)) seg b 0))"
  have o: "out (fst (feed step4 (r, []) ws)) = out r @ acks @ [Delivered b (peer_of c d)]"
    using receive_transfer [OF l(1) assms(6,7), where b = b and pieces = "[ws]"] assms(8,9,10,11) l(2)
    by (simp add: acks_def)
  have "fst (feed step4 (s, []) (init_wire d @ ws)) = fst (feed step4 (r, []) ws)"
    using tcpcl4.pieces [OF st, of "init_wire d" "[ws]"] f by simp
  then have "Delivered b (peer_of c d) \<in> set (out (fst (feed step4 (s, []) (init_wire d @ ws))))" using o by simp
  moreover have "concat (map (\<lambda>e. case e of Delivered b p \<Rightarrow> [b] | _ \<Rightarrow> []) acks) = []"
    by (simp add: acks_def)
  ultimately show ?thesis using assms(4) f l(3) o by (simp add: Let_def)
qed

lemma relay_hello_not_ready: "ReadyOk \<notin> set (out relay_hello)"
proof -
  have "tls_opts (new_session4 relay4) = None" "\<not> halted4 (new_session4 relay4)" "\<not> header_done (new_session4 relay4)"
    by (simp_all add: new_session4_def relay4_def halted4_def)
  moreover from this have "parse4 (header_done (new_session4 relay4)) mx (encodeContactHeader False) = Some (Contact version4 0, [])" for mx
    using parse_contact [of mx False "[]"] by simp
  ultimately have eq: "relay_hello = handle4 (new_session4 relay4) (Contact version4 0)"
    unfolding relay_hello_def
    by (intro feed_one [where w = "encodeContactHeader False"]) (simp_all, simp add: encodeContactHeader_def)
  show ?thesis unfolding eq
    by (simp add: handle4_def on_message4_def on_contact4_def new_session4_def relay4_def write4_def Let_def)
qed

lemma piggybacked_bundle_unheard_witness:
  "\<exists>ws. Delivered [1, 2, 3] (peer_of relay4 ground4) \<in> set (out (fst (feed step4 (relay_hello, []) (init_wire ground4 @ ws)))) \<and>
    heard4 (relay_hello, []) [init_wire ground4 @ ws] = [] \<and> heard4 (relay_hello, []) [init_wire ground4, ws] = [[1, 2, 3]]"
  by (rule exI, rule piggybacked_bundle_unheard [OF demo_plain(2,1) demo_hello(1) relay_hello_not_ready, of 0 2])
    (simp_all add: relay4_def)

lemma open_transfers_unbounded_witness:
  "\<exists>w. \<forall>i<1000. rx (fst (feed_all step4 (relay_up, []) [w])) i = Some [[7]]"
  by (rule exI, rule open_transfers_unbounded [OF demo_up(1)]) (simp_all add: demo_up(2) relay4_def)

text \<open>A relay that requires TLS and a certificate for the one peer it allows, up to its first bundle.\<close>

definition secure4 :: config4 where
  "secure4 = \<lparr>c_active = False, c_node = ''ipn:2.0'', c_tls = Some \<lparr>has_key_cert = True, tls_require = True, tls_verify = True\<rparr>,
     c_allowed = Some [''ipn:1.0''], c_opts = \<lparr>o_keepalive = 0, o_segment = 8, o_transfer = 9\<rparr>\<rparr>"


definition ground_cert :: cert4 where
  "ground_cert = \<lparr>san = Some ''URI:ipn:1.0'', raw = None\<rparr>"

definition secure_hello :: session4 where
  "secure_hello = fst (on_message4 (Contact version4 1) ((new_session4 secure4)\<lparr>header_done := True\<rparr>) [])"

definition secure_ready :: session4 where
  "secure_ready = tls_up4 (Some ground_cert) secure_hello"

definition secure_up :: session4 where
  "secure_up = handle4 secure_ready (init_msg ground4)"

definition secure_got :: session4 where
  "secure_got = handle4 secure_up (Segment 3 0 [7, 8])"

lemma secure_states:
  "header_done secure_hello" "\<not> halted4 secure_hello" "clock secure_hello = 0" "last_rx secure_hello = 0"
  "opts secure_hello = c_opts secure4" "phase secure_hello = PInit"
  by (simp_all add: secure_hello_def on_message4_def on_contact4_def start_tls4_def new_session4_def secure4_def Let_def
      write4_def emit_def halted4_def)

lemma ground_cert_names:
  "split_san (Suc (length ''URI:ipn:1.0'')) [] ''URI:ipn:1.0'' = [''URI:ipn:1.0'']"
  by code_simp

lemma secure_states2:
  "header_done secure_ready" "\<not> halted4 secure_ready" "clock secure_ready = 0" "last_rx secure_ready = 0"
  "opts secure_ready = c_opts secure4" "phase secure_ready = PInit" "allows_peer secure_ready ''ipn:1.0''"
  "\<not> active secure_ready" "node_id secure_ready = ''ipn:2.0''" "secure secure_ready"
  "tls_socket secure_ready" "cert secure_ready = Some ground_cert"
  by (simp_all add: secure_ready_def secure_hello_def tls_up4_def on_message4_def on_contact4_def start_tls4_def
      new_session4_def secure4_def Let_def write4_def emit_def halted4_def allows_peer_def)

lemma secure_names: "names_peer secure_ready ''ipn:1.0''"
proof -
  have "''ipn:1.0'' \<in> set (peer_node_ids secure_ready)"
    using ground_cert_names by (simp add: peer_node_ids_def secure_states2 ground_cert_def)
  then show ?thesis using secure_states2(10) by (simp add: names_peer_def split: option.split)
qed

definition secure_peer :: peer4 where
  "secure_peer = \<lparr>peer_node = ''ipn:1.0'', peer_segment_mru = 3, peer_transfer_mru = 100, peer_keepalive = 0, peer_tls = True\<rparr>"

text \<open>A session at time 0 with an empty buffer, from which data events start.\<close>

definition idle4 :: "session4 \<Rightarrow> bool" where
  "idle4 s \<longleftrightarrow> reach4 secure4 (s, []) \<and> clock s = 0 \<and> last_rx s = 0 \<and> crashed s = None"

lemma secure_up_listening: "listening secure_up secure_peer" "clock secure_up = 0" "last_rx secure_up = 0"
  "opts secure_up = c_opts secure4"
proof -
  have e: "encodeSessInit 0 8 9 ''ipn:2.0'' \<noteq> Inl x" for x
    by (simp add: encodeSessInit_def u16_def u64_def)
  show "listening secure_up secure_peer" "clock secure_up = 0" "last_rx secure_up = 0" "opts secure_up = c_opts secure4"
    using secure_states2 secure_names e
    unfolding secure_up_def handle4_def header_done_id [OF secure_states2(1)]
    by (simp_all add: on_message4_def on_sess_init4_def ground4_def secure4_def send_init4_def write4_def establish4_def
        Let_def emit_def start_keepalive4_def listening_def halted4_def secure_peer_def split: sum.split)
qed

lemma clock_same:
  "clock s = 0 \<Longrightarrow> s\<lparr>clock := 0\<rparr> = s" "last_rx s = 0 \<Longrightarrow> s\<lparr>last_rx := 0\<rparr> = s"
  by (cases s; simp)+

lemma idle_feed:
  assumes "idle4 s" "feed step4 (s, []) w = (t, [])" "clock t = 0" "last_rx t = 0" "crashed t = None"
  shows "idle4 t"
proof -
  have s: "reach4 secure4 (s, [])" "clock s = 0" "last_rx s = 0" "crashed s = None"
    using assms(1) by (simp_all add: idle4_def)
  have "event_step4 (GotData w) (at_time 0 (s, [])) = (t, [])"
    by (simp only: event_step4.simps at_time_def on_data4_def fst_conv snd_conv clock_same s assms(2))
  with reach4.event [OF s(1), of 0 "GotData w"] s have "reach4 secure4 (t, [])" by simp
  then show ?thesis using assms(3,4,5) by (simp add: idle4_def)
qed

lemma idle_hello: "idle4 secure_hello"
proof (rule idle_feed)
  show "idle4 (new_session4 secure4)"
    using reach4.start [of secure4] by (simp add: idle4_def new_session4_def Let_def)
  have "parse4 False mx (encodeContactHeader True) = Some (Contact version4 1, [])" for mx
    using parse_contact [of mx True "[]"] by simp
  then have "step4 (new_session4 secure4) (encodeContactHeader True) = Some (secure_hello, [])"
    unfolding secure_hello_def
    by (simp add: step4_def new_session4_def secure4_def halted4_def on_message4_def on_contact4_def start_tls4_def
        Let_def write4_def emit_def)
  moreover have "step4 secure_hello [] = None" by (simp add: step4_def secure_states parse4_def parse_typed_def)
  ultimately show "feed step4 (new_session4 secure4, []) (encodeContactHeader True) = (secure_hello, [])"
    by (simp add: feed_def)
qed (use secure_states in \<open>simp_all add: halted4_def\<close>)

lemma idle_ready: "idle4 secure_ready"
proof -
  have "event_step4 (TlsUp (Some ground_cert)) (at_time 0 (secure_hello, [])) = (secure_ready, [])"
    by (simp only: event_step4.simps at_time_def fst_conv snd_conv clock_same secure_states secure_ready_def)
  with reach4.event [of secure4 "(secure_hello, [])" 0 "TlsUp (Some ground_cert)"] idle_hello
  show ?thesis using secure_states2 by (simp add: idle4_def halted4_def)
qed

lemma idle_up: "idle4 secure_up"
proof (rule idle_feed [OF idle_ready])
  show "feed step4 (secure_ready, []) (init_wire ground4) = (secure_up, [])" unfolding secure_up_def
    by (rule feed_whole [OF secure_states2(2)]) (simp_all add: secure_states2 parse_init_wire [OF demo_plain(1)])
qed (use secure_up_listening in \<open>simp_all add: listening_def halted4_def\<close>)

lemma handle_segment_clock: "header_done s \<Longrightarrow> clock (handle4 s (Segment f i d)) = clock s \<and> last_rx (handle4 s (Segment f i d)) = last_rx s"
  unfolding handle4_def
  by (simp add: on_message4_def on_segment4_def store_segment4_def reject4_def write4_def crash4_def emit_def forget_rx_def
      Let_def split: sum.split option.split)

lemma segment_reached:
  assumes "i < 2 ^ 64" "length d \<le> 8"
  shows "reach4 secure4 (handle4 secure_up (Segment f i d), [])"
proof -
  note l = secure_up_listening
  have "feed step4 (secure_up, []) (seg_wire i (f, d)) = (handle4 secure_up (Segment f i d), [])"
  proof (rule feed_whole)
    have "encodeSegment f i d = Inr (seg_wire i (f, d))" by (rule encodeSegment_wire) (use assms in simp_all)
    from parse_seg [OF this assms(2), of "[]"]
    show "parse4 (header_done secure_up) (o_segment (opts secure_up)) (seg_wire i (f, d)) = Some (Segment f i d, [])"
      using l by (simp add: listening_def secure4_def)
  qed (use l in \<open>simp_all add: listening_def\<close>)
  then have "event_step4 (GotData (seg_wire i (f, d))) (at_time 0 (secure_up, [])) = (handle4 secure_up (Segment f i d), [])"
    by (simp only: event_step4.simps at_time_def on_data4_def fst_conv snd_conv clock_same l)
  with reach4.event [of secure4 "(secure_up, [])" 0 "GotData (seg_wire i (f, d))"] idle_up
  show ?thesis by (simp add: idle4_def)
qed


lemma transfer_memory_bounded_witness:
  "\<exists>s :: session4. rx s 5 = Some [[1, 2]] \<and> rx_bytes s 5 = Some (length (concat [[1 :: byte, 2]])) \<and>
    length (concat [[1 :: byte, 2]]) \<le> o_transfer (c_opts secure4)"
proof -
  define s where "s = handle4 secure_up (Segment 2 5 [1, 2])"
  have b: "is_start 2" "\<not> is_end 2" by (simp_all add: is_start_def is_end_def bit_simps)
  have r: "rx s 5 = Some [[1, 2]]"
    using handle_segment [OF secure_up_listening(1), of 5 2 "[]" 0 "[1, 2]"] b secure_up_listening(4)
    by (simp add: s_def secure4_def receiving_def)
  have "reach4 secure4 (s, [])" unfolding s_def by (rule segment_reached) simp_all
  from transfer_memory_bounded [OF this r] r show ?thesis by (intro exI [of _ s] conjI) simp_all
qed

end
