(* ===== verification/Tcpcl3.thy ===== *)
theory Tcpcl3
  imports Utf8 Incremental
begin

text \<open>
  TCPCLv3 (\<open>gateway/tcpcl3.mjs\<close>): SDNVs, the contact header, the incremental parser and the session.
  Transfers go one at a time: \<open>send\<close> queues a bundle, \<open>Run\<close> is the microtask that starts the next one
  when the promise of the one before is settled. An exception in the parser or in a handler is caught
  by \<open>_onData\<close> and tears the session down.
\<close>

section \<open>SDNVs\<close>

function sdnv_high :: "nat \<Rightarrow> bytes" where
  "sdnv_high v = (if v = 0 then [] else sdnv_high (v div 128) @ [byte_of (v mod 128 + 128)])"
  by pat_completeness auto
termination
  by (relation "measure id") auto

declare sdnv_high.simps [simp del]

definition sdnv :: "nat \<Rightarrow> bytes" where
  "sdnv n = sdnv_high (n div 128) @ [byte_of (n mod 128)]"

fun read_sdnv_from :: "nat \<Rightarrow> nat \<Rightarrow> nat \<Rightarrow> bytes \<Rightarrow> (nat \<times> nat) option" where
  "read_sdnv_from 0 v i buf = None"
| "read_sdnv_from (Suc n) v i buf =
     (if length buf \<le> i then None
      else let v' = v * 128 + unat (buf ! i) mod 128 in
        if buf ! i < 128 then Some (v', i + 1) else read_sdnv_from n v' (i + 1) buf)"

definition readSdnv :: "bytes \<Rightarrow> nat \<Rightarrow> string + (nat \<times> nat) option" where
  "readSdnv buf off =
     (case read_sdnv_from 10 0 off buf of
        Some r \<Rightarrow> Inr (Some r)
      | None \<Rightarrow> if off + 10 \<le> length buf then Inl ''SDNV longer than 64 bits'' else Inr None)"

section \<open>Messages\<close>

definition magic3 :: bytes where
  "magic3 = utf8 ''dtn!''"

definition version3 :: byte where
  "version3 = 3"

definition encodeContactHeader3 :: "byte \<Rightarrow> nat \<Rightarrow> string \<Rightarrow> bytes res" where
  "encodeContactHeader3 flags ka eid =
     (if ka < 2 ^ 16 then Inr (magic3 @ [version3, flags] @ be 2 ka @ sdnv (length (utf8 eid)) @ utf8 eid)
      else Inl ''The value is out of range'')"

definition seg_head3 :: "bool \<Rightarrow> bool \<Rightarrow> byte" where
  "seg_head3 start fin = 16 + (if start then 2 else 0) + (if fin then 1 else 0)"

definition encodeSegment3 :: "bool \<Rightarrow> bool \<Rightarrow> bytes \<Rightarrow> bytes" where
  "encodeSegment3 start fin part = [seg_head3 start fin] @ sdnv (length part) @ part"

definition encodeAck3 :: "nat \<Rightarrow> bytes" where
  "encodeAck3 n = [32] @ sdnv n"

datatype msg3 =
    BadMagic3
  | BadHeader3
  | Contact3 (version_of3: byte) (flags_of3: byte) (keepalive_of3: nat) (eid_of3: string)
  | Segment3 (seg_flags3: nat) (seg_data3: bytes)
  | Ack3 (ack_value3: nat)
  | Length3 (length_value3: nat)
  | Refuse3 (refuse_reason3: nat)
  | Keepalive3
  | Shutdown3
  | Unknown3 (unknown_type3: nat)
  | TooBig3 (big_len3: nat)

type_synonym parsed3 = "string + (msg3 \<times> bytes) option"

definition parse_header3 :: "bytes \<Rightarrow> parsed3" where
  "parse_header3 b =
     (if length b < 8 then Inr None
      else if take 4 b \<noteq> magic3 then Inr (Some (BadMagic3, b))
      else rbind (readSdnv b 8) (\<lambda>len. case len of
          None \<Rightarrow> Inr None
        | Some (n, e) \<Rightarrow>
            if 1024 < n then Inr (Some (BadHeader3, b))
            else if length b < e + n then Inr None
            else Inr (Some (Contact3 (b ! 4) (b ! 5) (unbe (take 2 (drop 6 b))) (utf8_text (take n (drop e b))), drop (e + n) b))))"

definition parse_segment3 :: "nat \<Rightarrow> bytes \<Rightarrow> parsed3" where
  "parse_segment3 max_segment b =
     rbind (readSdnv b 1) (\<lambda>len. case len of
         None \<Rightarrow> Inr None
       | Some (n, e) \<Rightarrow>
           if max_segment < n then Inr (Some (TooBig3 n, b))
           else if length b < e + n then Inr None
           else Inr (Some (Segment3 (unat (b ! 0) mod 16) (take n (drop e b)), drop (e + n) b)))"

definition parse_value3 :: "bool \<Rightarrow> bytes \<Rightarrow> parsed3" where
  "parse_value3 is_ack b =
     rbind (readSdnv b 1) (\<lambda>len. case len of
         None \<Rightarrow> Inr None
       | Some (v, e) \<Rightarrow> Inr (Some (if is_ack then Ack3 v else Length3 v, drop e b)))"

definition shutdown_off3 :: "bytes \<Rightarrow> nat" where
  "shutdown_off3 b = (if bit (b ! 0) 1 then 2 else 1)"

definition parse_shutdown3 :: "bytes \<Rightarrow> parsed3" where
  "parse_shutdown3 b =
     (let off = shutdown_off3 b in
      if bit (b ! 0) 0 then
        (if length b < off + 1 then Inr None
         else rbind (readSdnv b off) (\<lambda>d. case d of
             None \<Rightarrow> Inr None
           | Some (v, e) \<Rightarrow> if length b < e then Inr None else Inr (Some (Shutdown3, drop e b))))
      else if length b < off then Inr None
      else Inr (Some (Shutdown3, drop off b)))"

definition parse3 :: "bool \<Rightarrow> nat \<Rightarrow> bytes \<Rightarrow> parsed3" where
  "parse3 header_done max_segment b =
     (if \<not> header_done then parse_header3 b
      else if b = [] then Inr None
      else let type = unat (b ! 0) div 16; flags = unat (b ! 0) mod 16 in
        if type = 1 then parse_segment3 max_segment b
        else if type = 2 then parse_value3 True b
        else if type = 6 then parse_value3 False b
        else if type = 3 then Inr (Some (Refuse3 flags, drop 1 b))
        else if type = 4 then Inr (Some (Keepalive3, drop 1 b))
        else if type = 5 then parse_shutdown3 b
        else Inr (Some (Unknown3 type, drop 1 b)))"

section \<open>Session state\<close>

record opts3 =
  o3_keepalive :: nat
  o3_segment :: nat
  o3_transfer :: nat
  o3_request_ack :: bool

record config3 =
  c3_active :: bool
  c3_node :: string
  c3_allowed :: "string list option"
  c3_opts :: opts3

record peer3 =
  p3_node :: string
  p3_keepalive :: nat
  p3_acks :: bool
  p3_segment_mru :: nat
  p3_transfer_mru :: nat

datatype eff3 =
    Wrote3 bytes
  | WroteLast3 nat bytes
  | Ready3
  | ReadyFailed3 string
  | Established3 peer3
  | Delivered3 bytes peer3
  | Termed3
  | SocketEnded3
  | SocketDestroyed3
  | ClosedEvent3 "string option"
  | Resolved3 nat
  | Rejected3 nat string
  | CloseDone3

record session3 =
  active3 :: bool
  node3 :: string
  allowed3 :: "string list option"
  opts3_of :: opts3
  header_done3 :: bool
  up3 :: bool
  peer3_of :: "peer3 option"
  acks3 :: bool
  peer_acks3 :: bool
  queue3 :: "(nat \<times> bytes) list"
  next3 :: nat
  running3 :: "nat option"
  cur3 :: "(nat \<times> nat) option"
  rx3 :: "bytes list option"
  rx_bytes3 :: nat
  closed3 :: bool
  closers3 :: nat
  clock3 :: nat
  last_rx3 :: nat
  last_tx3 :: nat
  ka_timer3 :: "nat option"
  out3 :: "eff3 list"

definition DEFAULTS3 :: opts3 where
  "DEFAULTS3 = \<lparr>o3_keepalive = 15, o3_segment = 200000, o3_transfer = 16 * 1024 * 1024, o3_request_ack = True\<rparr>"

definition emit3 :: "eff3 \<Rightarrow> session3 \<Rightarrow> session3" where
  "emit3 e s = s\<lparr>out3 := out3 s @ [e]\<rparr>"

definition write3 :: "bytes \<Rightarrow> session3 \<Rightarrow> session3" where
  "write3 w s = (if closed3 s then s else s\<lparr>last_tx3 := clock3 s, out3 := out3 s @ [Wrote3 w]\<rparr>)"

text \<open>\<open>_write\<close> with a callback: the write whose completion settles the promise of transfer \<open>i\<close>.\<close>

definition write_last3 :: "nat \<Rightarrow> bytes \<Rightarrow> session3 \<Rightarrow> session3" where
  "write_last3 i w s = (if closed3 s then s else s\<lparr>last_tx3 := clock3 s, out3 := out3 s @ [WroteLast3 i w]\<rparr>)"

definition settle3 :: "eff3 \<Rightarrow> session3 \<Rightarrow> session3" where
  "settle3 e s = s\<lparr>cur3 := None, running3 := None, out3 := out3 s @ [e]\<rparr>"

definition teardown3 :: "string option \<Rightarrow> session3 \<Rightarrow> session3" where
  "teardown3 err s =
     (if closed3 s then s else
      let e = (case err of Some e \<Rightarrow> e | None \<Rightarrow> ''session closed'');
          s1 = s\<lparr>closed3 := True, up3 := False, ka_timer3 := None\<rparr>;
          s2 = (case cur3 s1 of Some (i, n) \<Rightarrow> settle3 (Rejected3 i e) s1 | None \<Rightarrow> s1)
      in s2\<lparr>out3 := out3 s2 @ [ReadyFailed3 e, SocketDestroyed3, ClosedEvent3 err]\<rparr>)"

definition header_bytes3 :: "session3 \<Rightarrow> bytes res" where
  "header_bytes3 s = encodeContactHeader3 (if o3_request_ack (opts3_of s) then 1 else 0) (o3_keepalive (opts3_of s)) (node3 s)"

definition new_session3 :: "config3 \<Rightarrow> session3 res" where
  "new_session3 c =
     (let s = \<lparr>active3 = c3_active c, node3 = c3_node c, allowed3 = c3_allowed c, opts3_of = c3_opts c,
        header_done3 = False, up3 = False, peer3_of = None, acks3 = False, peer_acks3 = False,
        queue3 = [], next3 = 0, running3 = None, cur3 = None, rx3 = None, rx_bytes3 = 0, closed3 = False, closers3 = 0,
        clock3 = 0, last_rx3 = 0, last_tx3 = 0, ka_timer3 = None, out3 = []\<rparr>
      in if c3_active c then rbind (header_bytes3 s) (\<lambda>w. Inr (write3 w s)) else Inr s)"

definition start_keepalive3 :: "nat \<Rightarrow> session3 \<Rightarrow> session3" where
  "start_keepalive3 seconds s =
     (if seconds = 0 then s else s\<lparr>last_rx3 := clock3 s, last_tx3 := clock3 s, ka_timer3 := Some seconds\<rparr>)"

section \<open>Handlers\<close>

definition establish3 :: "byte \<Rightarrow> nat \<Rightarrow> string \<Rightarrow> session3 \<Rightarrow> session3" where
  "establish3 flags ka eid s =
     (let k = min (o3_keepalive (opts3_of s)) ka; a = (o3_request_ack (opts3_of s) \<and> bit flags 0);
          p = \<lparr>p3_node = eid, p3_keepalive = k, p3_acks = a, p3_segment_mru = o3_segment (opts3_of s),
               p3_transfer_mru = o3_transfer (opts3_of s)\<rparr>
      in emit3 (Established3 p) (emit3 Ready3 (start_keepalive3 k
           (s\<lparr>acks3 := a, peer_acks3 := bit flags 0, peer3_of := Some p, up3 := True\<rparr>))))"

definition on_contact3 :: "byte \<Rightarrow> byte \<Rightarrow> nat \<Rightarrow> string \<Rightarrow> session3 \<Rightarrow> session3" where
  "on_contact3 version flags ka eid s =
     (if version \<noteq> version3 then teardown3 (Some ''peer TCPCL version, need 3'') s
      else if (case allowed3 s of Some l \<Rightarrow> eid \<notin> set l | None \<Rightarrow> False) then
        teardown3 (Some ''peer is not on the allowed list'') s
      else if active3 s then establish3 flags ka eid s
      else (case header_bytes3 s of
          Inl e \<Rightarrow> teardown3 (Some e) s
        | Inr w \<Rightarrow> establish3 flags ka eid (write3 w s)))"

definition on_segment3 :: "nat \<Rightarrow> bytes \<Rightarrow> session3 \<Rightarrow> session3" where
  "on_segment3 flags data s =
     (if \<not> up3 s then s else
      let s0 = (if odd (flags div 2) then s\<lparr>rx3 := Some [], rx_bytes3 := 0\<rparr> else s) in
      case rx3 s0 of
        None \<Rightarrow> s0
      | Some old \<Rightarrow>
          let parts = old @ [data]; s1 = s0\<lparr>rx3 := Some parts, rx_bytes3 := rx_bytes3 s0 + length data\<rparr> in
          if o3_transfer (opts3_of s1) < rx_bytes3 s1 then (write3 [0x32] s1)\<lparr>rx3 := None\<rparr>
          else
            let s2 = (if peer_acks3 s1 then write3 (encodeAck3 (rx_bytes3 s1)) s1 else s1) in
            if odd flags then
              (case peer3_of s2 of
                 Some p \<Rightarrow> emit3 (Delivered3 (concat parts) p) (s2\<lparr>rx3 := None\<rparr>)
               | None \<Rightarrow> s2\<lparr>rx3 := None\<rparr>)
            else s2)"

definition on_ack3 :: "nat \<Rightarrow> session3 \<Rightarrow> session3" where
  "on_ack3 v s = (case cur3 s of Some (i, n) \<Rightarrow> if v = n then settle3 (Resolved3 i) s else s | None \<Rightarrow> s)"

definition on_refuse3 :: "session3 \<Rightarrow> session3" where
  "on_refuse3 s = (case cur3 s of Some (i, n) \<Rightarrow> settle3 (Rejected3 i ''peer refused the bundle'') s | None \<Rightarrow> s)"

definition on_message3 :: "msg3 \<Rightarrow> session3 \<Rightarrow> session3" where
  "on_message3 m s =
     (case m of
        BadMagic3 \<Rightarrow> teardown3 (Some ''peer is not speaking TCPCL'') s
      | BadHeader3 \<Rightarrow> teardown3 (Some ''peer is not speaking TCPCL'') s
      | Contact3 v f ka eid \<Rightarrow> on_contact3 v f ka eid s
      | Segment3 f d \<Rightarrow> on_segment3 f d s
      | Ack3 v \<Rightarrow> on_ack3 v s
      | Length3 v \<Rightarrow> s
      | Refuse3 q \<Rightarrow> on_refuse3 s
      | Keepalive3 \<Rightarrow> s
      | Shutdown3 \<Rightarrow> emit3 SocketEnded3 (emit3 Termed3 s)
      | Unknown3 t \<Rightarrow> s
      | TooBig3 n \<Rightarrow> teardown3 (Some ''peer sent a segment above our limit'') s)"

definition step3 :: "session3 \<Rightarrow> bytes \<Rightarrow> (session3 \<times> bytes) option" where
  "step3 s buf =
     (if closed3 s then None else
      case parse3 (header_done3 s) (o3_transfer (opts3_of s)) buf of
        Inl e \<Rightarrow> Some (teardown3 (Some e) s, buf)
      | Inr None \<Rightarrow> None
      | Inr (Some (m, left)) \<Rightarrow> Some (on_message3 m (s\<lparr>header_done3 := True\<rparr>), left))"

definition on_data3 :: "nat \<Rightarrow> session3 \<times> bytes \<Rightarrow> bytes \<Rightarrow> session3 \<times> bytes" where
  "on_data3 now sb d = feed step3 ((fst sb)\<lparr>clock3 := now, last_rx3 := now\<rparr>, snd sb) d"

section \<open>send, close and the timers\<close>

primrec segment_loop3 :: "nat \<Rightarrow> nat \<Rightarrow> nat \<Rightarrow> bytes \<Rightarrow> nat \<Rightarrow> session3 \<Rightarrow> session3" where
  "segment_loop3 0 seg i b off s = s"
| "segment_loop3 (Suc n) seg i b off s =
     (if off < length b then
        let fin = min (off + seg) (length b); part = take (fin - off) (drop off b);
            w = encodeSegment3 (off = 0) (fin = length b) part;
            s' = (if fin = length b \<and> \<not> acks3 s then write_last3 i w s else write3 w s)
        in segment_loop3 n seg i b (off + seg) s'
      else s)"

definition send3 :: "bytes \<Rightarrow> session3 \<Rightarrow> session3 \<times> (string + nat)" where
  "send3 b s =
     (if \<not> up3 s then (s, Inl ''session not established'')
      else (s\<lparr>queue3 := queue3 s @ [(next3 s, b)], next3 := next3 s + 1\<rparr>, Inr (next3 s)))"

text \<open>The transfer at the head of the queue starts once the one before is settled.\<close>

definition run3 :: "session3 \<Rightarrow> session3" where
  "run3 s =
     (case running3 s of
        Some i \<Rightarrow> s
      | None \<Rightarrow>
          (case queue3 s of
             [] \<Rightarrow> s
           | (i, b) # rest \<Rightarrow>
               let s1 = s\<lparr>queue3 := rest\<rparr> in
               if closed3 s then emit3 (Rejected3 i ''session closed'') s1
               else
                 let seg = max 1 (o3_segment (opts3_of s));
                     s2 = s1\<lparr>running3 := Some i, cur3 := (if acks3 s then Some (i, length b) else cur3 s1)\<rparr>
                 in segment_loop3 (length b) seg i b 0 s2))"

text \<open>The callback of the last write, when there are no acknowledgements.\<close>

definition write_done3 :: "nat \<Rightarrow> string option \<Rightarrow> session3 \<Rightarrow> session3" where
  "write_done3 i err s =
     (if running3 s = Some i \<and> \<not> acks3 s
      then settle3 (case err of Some e \<Rightarrow> Rejected3 i e | None \<Rightarrow> Resolved3 i) s else s)"

definition ack_timeout3 :: "session3 \<Rightarrow> session3" where
  "ack_timeout3 s =
     (case cur3 s of
        Some (i, n) \<Rightarrow> settle3 (Rejected3 i ''timed out waiting for the final ACK_SEGMENT'') s
      | None \<Rightarrow> s)"

definition close3 :: "session3 \<Rightarrow> session3" where
  "close3 s = (if closed3 s then emit3 CloseDone3 s else (write3 [0x50] s)\<lparr>closers3 := closers3 s + 1\<rparr>)"

definition close_timeout3 :: "session3 \<Rightarrow> session3" where
  "close_timeout3 s = (if 0 < closers3 s then emit3 CloseDone3 (teardown3 None s) else s)"

definition tick3 :: "session3 \<Rightarrow> session3" where
  "tick3 s =
     (case ka_timer3 s of
        None \<Rightarrow> s
      | Some seconds \<Rightarrow>
          if 2 * seconds * 1000 + 1000 < clock3 s - last_rx3 s then
            teardown3 (Some ''peer silent for twice the keepalive interval'') s
          else if seconds * 1000 \<le> clock3 s - last_tx3 s then write3 [0x40] s
          else s)"

datatype event3 =
    Got3 bytes
  | Send3 bytes
  | Run3
  | WriteDone3 nat "string option"
  | AckTimeout3
  | Close3
  | CloseTimeout3
  | Tick3
  | Failed3 string

fun event_step3 :: "event3 \<Rightarrow> session3 \<times> bytes \<Rightarrow> session3 \<times> bytes" where
  "event_step3 (Got3 d) sb = on_data3 (clock3 (fst sb)) sb d"
| "event_step3 (Send3 b) sb = (fst (send3 b (fst sb)), snd sb)"
| "event_step3 Run3 sb = (run3 (fst sb), snd sb)"
| "event_step3 (WriteDone3 i e) sb = (write_done3 i e (fst sb), snd sb)"
| "event_step3 AckTimeout3 sb = (ack_timeout3 (fst sb), snd sb)"
| "event_step3 Close3 sb = (close3 (fst sb), snd sb)"
| "event_step3 CloseTimeout3 sb = (close_timeout3 (fst sb), snd sb)"
| "event_step3 Tick3 sb = (tick3 (fst sb), snd sb)"
| "event_step3 (Failed3 e) sb = (teardown3 (Some e) (fst sb), snd sb)"

section \<open>SDNVs read back\<close>

lemma read_sdnv_high:
  assumes "length hi \<le> n" "\<forall>b \<in> set hi. 128 \<le> b"
  shows "read_sdnv_from n v (length pre) (pre @ hi @ rest) =
    read_sdnv_from (n - length hi) (foldl (\<lambda>v b. v * 128 + unat b mod 128) v hi) (length pre + length hi) (pre @ hi @ rest)"
  using assms
proof (induction hi arbitrary: n v pre)
  case (Cons b hi)
  then obtain m where n: "n = Suc m" by (cases n) auto
  have "\<not> b < 128" using Cons.prems(2) by (simp add: not_less)
  then show ?case using Cons.IH [of m "v * 128 + unat b mod 128" "pre @ [b]"] Cons.prems
    by (simp add: n nth_append)
qed simp

lemma high_byte: "unat (byte_of (v mod 128 + 128)) = v mod 128 + 128"
proof -
  have "v mod 128 + 128 < 256" using mod_less_divisor [of 128 v] by linarith
  then show ?thesis by (simp only: unat_byte_of mod_less)
qed

lemma sdnv_high_big: "b \<in> set (sdnv_high v) \<Longrightarrow> 128 \<le> b"
proof (induction v rule: sdnv_high.induct)
  case (1 v)
  have "128 \<le> (byte_of (v mod 128 + 128) :: byte)"
    unfolding word_le_nat_alt high_byte by simp
  then show ?case using 1 by (subst (asm) sdnv_high.simps) (auto split: if_splits)
qed

lemma sdnv_high_value: "foldl (\<lambda>v b. v * 128 + unat b mod 128) 0 (sdnv_high v) = v"
proof (induction v rule: sdnv_high.induct)
  case (1 v)
  show ?case
  proof (cases "v = 0")
    case False
    have "unat (byte_of (v mod 128 + 128) :: byte) mod 128 = v mod 128" unfolding high_byte by simp
    then show ?thesis using 1 [OF False] False by (subst sdnv_high.simps) simp
  qed (simp add: sdnv_high.simps)
qed

lemma sdnv_high_length: "v < 128 ^ n \<Longrightarrow> length (sdnv_high v) \<le> n"
proof (induction n arbitrary: v)
  case 0
  then show ?case by (simp add: sdnv_high.simps)
next
  case (Suc n)
  have "v div 128 < 128 ^ n" using Suc.prems by (simp add: div_less_iff_less_mult mult.commute)
  from Suc.IH [OF this] show ?case by (subst sdnv_high.simps) simp
qed

lemma readSdnv_sdnv:
  assumes "n < 2 ^ 70"
  shows "readSdnv (pre @ sdnv n @ rest) (length pre) = Inr (Some (n, length pre + length (sdnv n)))"
proof -
  define hi where "hi = sdnv_high (n div 128)"
  define lo where "lo = (byte_of (n mod 128) :: byte)"
  have "n div 128 < 128 ^ 9" using assms by (simp add: div_less_iff_less_mult)
  then have len: "length hi \<le> 9" unfolding hi_def by (rule sdnv_high_length)
  have lo: "lo < 128" "unat lo mod 128 = n mod 128" by (simp_all add: lo_def word_less_nat_alt unat_of_nat)
  have eq: "pre @ sdnv n @ rest = pre @ hi @ lo # rest" by (simp add: sdnv_def hi_def lo_def)
  have at: "(pre @ hi @ lo # rest) ! (length pre + length hi) = lo" by (simp add: nth_append)
  obtain k where k: "10 - length hi = Suc k" using len by (cases "10 - length hi") auto
  have "read_sdnv_from 10 0 (length pre) (pre @ hi @ lo # rest) =
      read_sdnv_from (Suc k) (n div 128) (length pre + length hi) (pre @ hi @ lo # rest)"
    unfolding k [symmetric] using read_sdnv_high [of hi 10 0 pre "lo # rest"] len sdnv_high_big
    by (simp add: hi_def sdnv_high_value)
  also have "\<dots> = Some (n, length pre + length hi + 1)" using at lo by (simp add: Let_def)
  finally show ?thesis unfolding eq by (simp add: readSdnv_def) (simp add: sdnv_def hi_def)
qed

lemma read_sdnv_append: "read_sdnv_from n v i b = Some r \<Longrightarrow> read_sdnv_from n v i (b @ x) = Some r"
  by (induction n v i b rule: read_sdnv_from.induct) (auto simp: Let_def nth_append split: if_splits)

lemma read_sdnv_none: "read_sdnv_from n v i b = None \<Longrightarrow> i + n \<le> length b \<Longrightarrow> read_sdnv_from n v i (b @ x) = None"
  by (induction n v i b rule: read_sdnv_from.induct) (auto simp: Let_def nth_append split: if_splits)

lemma read_sdnv_bounds: "read_sdnv_from n v i b = Some (w, e) \<Longrightarrow> i < e \<and> e \<le> length b"
  by (induction n v i b rule: read_sdnv_from.induct) (auto simp: Let_def split: if_splits)

lemma readSdnv_append: "readSdnv b off = Inr (Some r) \<Longrightarrow> readSdnv (b @ x) off = Inr (Some r)"
  by (auto simp: readSdnv_def read_sdnv_append split: option.splits if_splits)

lemma readSdnv_error: "readSdnv b off = Inl e \<Longrightarrow> readSdnv (b @ x) off = Inl e"
  using read_sdnv_none [of 10 0 off b x] by (auto simp: readSdnv_def split: option.splits if_splits)

lemma readSdnv_bounds: "readSdnv b off = Inr (Some (v, e)) \<Longrightarrow> off < e \<and> e \<le> length b"
  by (auto simp: readSdnv_def dest: read_sdnv_bounds split: option.splits if_splits)


section \<open>The stream may be cut anywhere\<close>

lemma parse_header3_append:
  assumes "parse_header3 b = Inr (Some (m, r))"
  shows "parse_header3 (b @ x) = Inr (Some (m, r @ x))"
proof (cases "take 4 b = magic3 \<and> 8 \<le> length b")
  case True
  then obtain y where y: "readSdnv b 8 = Inr y" using assms by (auto simp: parse_header3_def)
  with True assms obtain n e where l: "readSdnv b 8 = Inr (Some (n, e))"
    by (cases y) (auto simp: parse_header3_def)
  note l' = readSdnv_append [OF l, of x] readSdnv_bounds [OF l]
  have t: "take 4 (b @ x) = magic3" "(b @ x) ! 4 = b ! 4" "(b @ x) ! 5 = b ! 5" "take 2 (drop 6 (b @ x)) = take 2 (drop 6 b)"
    using True by (simp_all add: nth_append)
  show ?thesis using assms True l l' t by (auto simp: parse_header3_def split: if_splits)
next
  case False
  then show ?thesis using assms by (auto simp: parse_header3_def split: if_splits)
qed

lemma parse_sdnvE:
  assumes "rbind (readSdnv b off) (\<lambda>len. case len of None \<Rightarrow> Inr None | Some (n, e) \<Rightarrow> f n e) = Inr (Some y)"
  obtains n e where "readSdnv b off = Inr (Some (n, e))" "f n e = Inr (Some y)" "off < e" "e \<le> length b"
proof -
  from assms obtain n e where l: "readSdnv b off = Inr (Some (n, e))" "f n e = Inr (Some y)"
    by (auto split: option.splits)
  with readSdnv_bounds [OF l(1)] that show thesis by blast
qed

lemma parse_sdnv_append:
  assumes "rbind (readSdnv b 1) (\<lambda>len. case len of None \<Rightarrow> Inr None | Some (n, e) \<Rightarrow> f n e b) = Inr (Some y)"
    and "\<And>n e. e \<le> length b \<Longrightarrow> f n e b = Inr (Some y) \<Longrightarrow> f n e (b @ x) = Inr (Some z)"
  shows "rbind (readSdnv (b @ x) 1) (\<lambda>len. case len of None \<Rightarrow> Inr None | Some (n, e) \<Rightarrow> f n e (b @ x)) = Inr (Some z)"
proof -
  from parse_sdnvE [OF assms(1)] obtain n e where
    l: "readSdnv b 1 = Inr (Some (n, e))" "f n e b = Inr (Some y)" "e \<le> length b" by metis
  from readSdnv_append [OF l(1), of x] assms(2) [OF l(3,2)] show ?thesis by simp
qed

lemma parse_segment3_append:
  assumes "parse_segment3 mx b = Inr (Some (m, r))" "b \<noteq> []"
  shows "parse_segment3 mx (b @ x) = Inr (Some (m, r @ x))"
  using assms(1) unfolding parse_segment3_def
  by (rule parse_sdnv_append) (use assms(2) in \<open>auto simp: nth_append split: if_splits\<close>)

lemma parse_value3_append:
  "parse_value3 a b = Inr (Some (m, r)) \<Longrightarrow> parse_value3 a (b @ x) = Inr (Some (m, r @ x))"
  unfolding parse_value3_def by (rule parse_sdnv_append) auto

lemma shutdown_off3_append: "b \<noteq> [] \<Longrightarrow> shutdown_off3 (b @ x) = shutdown_off3 b"
  by (simp add: shutdown_off3_def nth_append)

lemma parse_shutdown3_append:
  assumes "parse_shutdown3 b = Inr (Some (m, r))" "b \<noteq> []"
  shows "parse_shutdown3 (b @ x) = Inr (Some (m, r @ x))"
proof -
  have h: "(b @ x) ! 0 = b ! 0" "shutdown_off3 (b @ x) = shutdown_off3 b"
    using assms(2) by (simp_all add: nth_append shutdown_off3_append)
  show ?thesis
  proof (cases "bit (b ! 0) 0")
    case True
    with assms(1) obtain v e where
      l: "readSdnv b (shutdown_off3 b) = Inr (Some (v, e))" "shutdown_off3 b < length b" "m = Shutdown3" "r = drop e b"
      unfolding parse_shutdown3_def Let_def by (auto split: if_splits option.splits)
    from readSdnv_append [OF l(1), of x] readSdnv_bounds [OF l(1)] l(2,3,4) True show ?thesis
      unfolding parse_shutdown3_def h Let_def by simp
  next
    case False
    with assms(1) show ?thesis
      unfolding parse_shutdown3_def h Let_def by (auto split: if_splits)
  qed
qed

lemma parse3_append:
  assumes "parse3 h mx b = Inr (Some (m, r))"
  shows "parse3 h mx (b @ x) = Inr (Some (m, r @ x))"
proof (cases h)
  case True
  then have b: "b \<noteq> []" using assms by (auto simp: parse3_def)
  then have "(b @ x) ! 0 = b ! 0" "drop 1 (b @ x) = drop 1 b @ x" by (cases b; simp)+
  with assms b True show ?thesis unfolding parse3_def
    by (auto simp: Let_def parse_segment3_append parse_value3_append parse_shutdown3_append split: if_splits)
qed (use assms in \<open>simp add: parse3_def parse_header3_append\<close>)

lemma parse_segment3_error: "parse_segment3 mx b = Inl e \<longleftrightarrow> readSdnv b 1 = Inl e"
  unfolding parse_segment3_def rbind_eq_Inl by (auto split: option.splits if_splits)

lemma parse_value3_error: "parse_value3 a b = Inl e \<longleftrightarrow> readSdnv b 1 = Inl e"
  unfolding parse_value3_def rbind_eq_Inl by (auto split: option.splits)

lemma parse_shutdown3_error:
  "parse_shutdown3 b = Inl e \<longleftrightarrow> bit (b ! 0) 0 \<and> shutdown_off3 b < length b \<and> readSdnv b (shutdown_off3 b) = Inl e"
  unfolding parse_shutdown3_def Let_def by (auto simp: rbind_eq_Inl split: if_splits option.splits)

lemma parse_header3_error:
  "parse_header3 b = Inl e \<longleftrightarrow> 8 \<le> length b \<and> take 4 b = magic3 \<and> readSdnv b 8 = Inl e"
  unfolding parse_header3_def by (auto simp: rbind_eq_Inl split: if_splits option.splits)

lemma parse3_error:
  assumes "parse3 h mx b = Inl e"
  shows "parse3 h mx (b @ x) = Inl e"
proof (cases h)
  case True
  then have b: "b \<noteq> []" using assms by (auto simp: parse3_def)
  then have "(b @ x) ! 0 = b ! 0" by (cases b; simp)
  with assms b True show ?thesis unfolding parse3_def
    by (auto simp: Let_def parse_segment3_error parse_value3_error parse_shutdown3_error shutdown_off3_append
        intro: readSdnv_error split: if_splits)
next
  case False
  with assms show ?thesis by (auto simp: parse3_def parse_header3_error intro: readSdnv_error)
qed

lemma parse3_shrinks:
  assumes "parse3 h mx b = Inr (Some (m, r))" "m \<noteq> BadMagic3" "m \<noteq> BadHeader3" "\<And>n. m \<noteq> TooBig3 n"
  shows "length r < length b"
proof -
  have s: "length r < length b" if "parse_shutdown3 b = Inr (Some (m, r))" "b \<noteq> []"
  proof (cases "bit (b ! 0) 0")
    case True
    with that(1) obtain v e where "readSdnv b (shutdown_off3 b) = Inr (Some (v, e))" "r = drop e b"
      unfolding parse_shutdown3_def Let_def by (auto split: if_splits option.splits)
    with readSdnv_bounds show ?thesis using that(2) by fastforce
  next
    case False
    with that(1) have "r = drop (shutdown_off3 b) b" unfolding parse_shutdown3_def Let_def by (auto split: if_splits)
    moreover have "0 < shutdown_off3 b" by (simp add: shutdown_off3_def)
    ultimately show ?thesis using that(2) by simp
  qed
  have g: "length r < length b" if "parse_segment3 mx b = Inr (Some (m, r))"
    using that unfolding parse_segment3_def
    by (rule parse_sdnvE) (use assms(4) in \<open>auto split: if_splits\<close>)
  have v: "length r < length b" if "parse_value3 a b = Inr (Some (m, r))" for a
    using that unfolding parse_value3_def by (rule parse_sdnvE) auto
  have hd: "length r < length b" if "parse_header3 b = Inr (Some (m, r))"
  proof -
    from that have "rbind (readSdnv b 8) (\<lambda>len. case len of None \<Rightarrow> Inr None | Some (n, e) \<Rightarrow>
        if 1024 < n then Inr (Some (BadHeader3, b)) else if length b < e + n then Inr None
        else Inr (Some (Contact3 (b ! 4) (b ! 5) (unbe (take 2 (drop 6 b))) (utf8_text (take n (drop e b))), drop (e + n) b))) =
        Inr (Some (m, r))"
      using assms(2) unfolding parse_header3_def by (auto split: if_split_asm)
    then show ?thesis by (rule parse_sdnvE) (use assms(3) in \<open>auto split: if_splits\<close>)
  qed
  show ?thesis
  proof (cases h)
    case True
    then have b: "b \<noteq> []" using assms(1) by (auto simp: parse3_def)
    then have "length (drop 1 b) < length b" by (cases b) simp_all
    with assms(1) True b s g v show ?thesis by (auto simp: parse3_def Let_def split: if_splits)
  qed (use assms(1) hd in \<open>simp add: parse3_def\<close>)
qed

lemma teardown3_closes: "closed3 (teardown3 e s)"
  by (simp add: teardown3_def Let_def settle3_def split: option.split)

interpretation tcpcl3: incremental step3 "\<lambda>s. True" closed3
proof
  fix s s' :: session3 and bs x r :: bytes
  assume st: "step3 s bs = Some (s', r)"
  then have o: "\<not> closed3 s" by (auto simp: step3_def)
  consider (err) e where "parse3 (header_done3 s) (o3_transfer (opts3_of s)) bs = Inl e" "s' = teardown3 (Some e) s"
    | (msg) m where "parse3 (header_done3 s) (o3_transfer (opts3_of s)) bs = Inr (Some (m, r))"
        "s' = on_message3 m (s\<lparr>header_done3 := True\<rparr>)"
    using st o by (auto simp: step3_def split: sum.splits option.splits)
  note c = this
  show "\<exists>r'. step3 s (bs @ x) = Some (s', r')"
    using c by cases (auto simp: step3_def o dest: parse3_error [where x = x] parse3_append [where x = x])
  assume ns: "\<not> closed3 s'"
  show "step3 s (bs @ x) = Some (s', r @ x)"
    using c
  proof cases
    case err
    then show ?thesis using ns teardown3_closes by simp
  next
    case msg
    then show ?thesis using parse3_append [OF msg(1)] o by (simp add: step3_def)
  qed
  show "length r < length bs"
    using c
  proof cases
    case err
    then show ?thesis using ns teardown3_closes by simp
  next
    case msg
    show ?thesis by (rule parse3_shrinks [OF msg(1)]) (use msg(2) ns teardown3_closes in \<open>auto simp: on_message3_def\<close>)
  qed
next
  show "closed3 s \<Longrightarrow> step3 s bs = None" for s bs by (simp add: step3_def)
qed simp


section \<open>One transfer, end to end\<close>

fun parts3 :: "nat \<Rightarrow> nat \<Rightarrow> bytes \<Rightarrow> nat \<Rightarrow> (bool \<times> bool \<times> bytes) list" where
  "parts3 0 seg b off = []"
| "parts3 (Suc n) seg b off =
     (if off < length b then
        let fin = min (off + seg) (length b)
        in (off = 0, fin = length b, take (fin - off) (drop off b)) # parts3 n seg b (off + seg)
      else [])"

definition part_wire3 :: "bool \<times> bool \<times> bytes \<Rightarrow> bytes" where
  "part_wire3 x = (case x of (a, e, d) \<Rightarrow> encodeSegment3 a e d)"

lemma seg_head3_bits:
  "unat (seg_head3 a e) = 16 + (if a then 2 else 0) + (if e then 1 else 0)"
  by (simp add: seg_head3_def)

lemma parse_segment_wire3:
  assumes "length d \<le> mx" "length d < 2 ^ 70"
  shows "parse3 True mx (encodeSegment3 a e d @ x) =
    Inr (Some (Segment3 ((if a then 2 else 0) + (if e then 1 else 0)) d, x))"
proof -
  define b where "b = encodeSegment3 a e d @ x"
  have b: "b = [seg_head3 a e] @ sdnv (length d) @ d @ x" by (simp add: b_def encodeSegment3_def)
  from readSdnv_sdnv [OF assms(2), of "[seg_head3 a e]" "d @ x"]
  have l: "readSdnv b 1 = Inr (Some (length d, 1 + length (sdnv (length d))))" by (simp add: b)
  have h: "unat (b ! 0) = 16 + (if a then 2 else 0) + (if e then 1 else 0)" by (simp add: b seg_head3_bits)
  then have "unat (b ! 0) div 16 = 1" "unat (b ! 0) mod 16 = (if a then 2 else 0) + (if e then 1 else 0)" by simp_all
  moreover have "b \<noteq> []" by (simp add: b)
  ultimately show ?thesis unfolding b_def [symmetric] using l assms(1)
    by (simp add: parse3_def parse_segment3_def Let_def) (simp add: b)
qed

lemma parse_ack_wire3: "n < 2 ^ 70 \<Longrightarrow> parse3 True mx (encodeAck3 n @ x) = Inr (Some (Ack3 n, x))"
  using readSdnv_sdnv [of n "[32]" x] by (simp add: parse3_def parse_value3_def encodeAck3_def Let_def)

definition listening3 :: "session3 \<Rightarrow> peer3 \<Rightarrow> bool" where
  "listening3 s p \<longleftrightarrow> up3 s \<and> \<not> closed3 s \<and> header_done3 s \<and> peer3_of s = Some p"

definition receiving3 :: "session3 \<Rightarrow> nat \<Rightarrow> bytes list \<Rightarrow> bool" where
  "receiving3 s got parts \<longleftrightarrow> rx3 s = Some parts \<and> rx_bytes3 s = got \<and> length (concat parts) = got"

lemma on_segment3_step:
  fixes e :: bool
  assumes "listening3 s p" "peer_acks3 s" "a \<and> parts = [] \<and> got = 0 \<or> \<not> a \<and> receiving3 s got parts"
    and "got + length d \<le> o3_transfer (opts3_of s)"
  defines "t \<equiv> on_segment3 ((if a then 2 else 0) + (if e then 1 else 0)) d s"
  shows "out3 t = out3 s @ [Wrote3 (encodeAck3 (got + length d))] @ (if e then [Delivered3 (concat (parts @ [d])) p] else [])
    \<and> listening3 t p \<and> peer_acks3 t \<and> opts3_of t = opts3_of s \<and> (\<not> e \<longrightarrow> receiving3 t (got + length d) (parts @ [d]))"
proof -
  define s0 where "s0 = (if a then s\<lparr>rx3 := Some [], rx_bytes3 := 0\<rparr> else s)"
  have s0: "rx3 s0 = Some parts" "rx_bytes3 s0 = got" "out3 s0 = out3 s" "listening3 s0 p" "peer_acks3 s0"
      "opts3_of s0 = opts3_of s" "length (concat parts) = got"
    using assms(1,2,3) by (auto simp: s0_def receiving3_def listening3_def)
  have up: "up3 s" using assms(1) by (simp add: listening3_def)
  have bits: "odd (((if a then 2 else 0) + (if e then 1 else 0) :: nat) div 2) = a"
    "odd ((if a then 2 else 0) + (if e then 1 else 0) :: nat) = e" by simp_all
  show ?thesis unfolding t_def on_segment3_def bits Let_def s0_def [symmetric] using up s0 assms(4)
    by (simp add: write3_def emit3_def listening3_def receiving3_def)
qed

lemma receive_parts3:
  assumes "listening3 s p" "peer_acks3 s" "0 < seg" "length b \<le> o3_transfer (opts3_of s)" "length b < 2 ^ 70"
    and "off < length b" "length b \<le> n + off"
    and "off = 0 \<and> parts = [] \<or> off \<noteq> 0 \<and> receiving3 s off parts" "concat parts = take off b"
  shows "\<exists>t acks. takes step3 s (map part_wire3 (parts3 n seg b off)) t \<and> \<not> closed3 t \<and> header_done3 t \<and>
    out3 t = out3 s @ map (\<lambda>k. Wrote3 (encodeAck3 k)) (acks @ [length b]) @ [Delivered3 b p] \<and> (\<forall>k \<in> set acks. k < length b)"
  using assms
proof (induction n arbitrary: off s parts)
  case (Suc n)
  define fin where "fin = min (off + seg) (length b)"
  define d where "d = take (fin - off) (drop off b)"
  define t where "t = on_segment3 ((if off = 0 then 2 else 0) + (if fin = length b then 1 else 0)) d s"
  have ld: "off + length d = fin" "fin \<le> length b" using Suc.prems(3,6) by (auto simp: d_def fin_def)
  have cc: "concat (parts @ [d]) = take fin b"
  proof -
    have "take fin b = take off b @ take (fin - off) (drop off b)"
      using ld(1) by (metis le_add1 le_add_diff_inverse take_add)
    then show ?thesis using Suc.prems(9) by (simp add: d_def)
  qed
  have H: "out3 t = out3 s @ [Wrote3 (encodeAck3 fin)] @ (if fin = length b then [Delivered3 (concat (parts @ [d])) p] else [])
    \<and> listening3 t p \<and> peer_acks3 t \<and> opts3_of t = opts3_of s \<and> (fin \<noteq> length b \<longrightarrow> receiving3 t fin (parts @ [d]))"
    unfolding t_def ld(1) [symmetric]
    by (rule on_segment3_step [OF Suc.prems(1,2)]) (use Suc.prems(4,8) ld in auto)
  have pl: "parts3 (Suc n) seg b off = (off = 0, fin = length b, d) # parts3 n seg b (off + seg)"
    using Suc.prems(6) by (simp add: Let_def fin_def d_def)
  have op: "\<not> closed3 s" "header_done3 s" using Suc.prems(1) by (simp_all add: listening3_def)
  have dl: "length d \<le> o3_transfer (opts3_of s)" "length d < 2 ^ 70" using ld Suc.prems(4,5) by linarith+
  have st: "step3 s (part_wire3 (off = 0, fin = length b, d) @ x) = Some (t, x)" for x
  proof -
    have "s\<lparr>header_done3 := True\<rparr> = s" using op(2) by simp
    then show ?thesis using op dl by (simp only: step3_def part_wire3_def parse_segment_wire3 on_message3_def t_def
        prod.case if_False sum.case option.case msg3.case)
  qed
  show ?case
  proof (cases "fin = length b")
    case True
    then have "off + seg \<ge> length b" by (simp add: fin_def)
    then have "parts3 n seg b (off + seg) = []" by (cases n) simp_all
    moreover have "concat (parts @ [d]) = b" using cc True by simp
    ultimately show ?thesis using H st True pl
      by (intro exI [of _ t] exI [of _ "[]"]) (simp add: listening3_def)
  next
    case False
    then have fin: "fin = off + seg" "fin < length b" using ld by (auto simp: fin_def)
    have "length b \<le> n + fin" "length b \<le> o3_transfer (opts3_of t)" "fin \<noteq> 0" using fin Suc.prems H by simp_all
    with Suc.IH [of t fin "parts @ [d]"] H False Suc.prems(3,5) fin(2) cc obtain t' acks where
      t': "takes step3 t (map part_wire3 (parts3 n seg b fin)) t'" "\<not> closed3 t'" "header_done3 t'"
        "out3 t' = out3 t @ map (\<lambda>k. Wrote3 (encodeAck3 k)) (acks @ [length b]) @ [Delivered3 b p]"
        "\<forall>k \<in> set acks. k < length b" by blast
    have "takes step3 s (map part_wire3 (parts3 (Suc n) seg b off)) t'" using st t'(1) fin(1) by (simp add: pl del: parts3.simps)
    moreover have "out3 t' = out3 s @ map (\<lambda>k. Wrote3 (encodeAck3 k)) ((fin # acks) @ [length b]) @ [Delivered3 b p]"
      using t'(4) H False by simp
    ultimately show ?thesis using t'(2,3,5) fin(2) by (intro exI [of _ t'] exI [of _ "fin # acks"]) simp
  qed
qed simp


lemma segment_loop3_writes:
  assumes "acks3 s" "\<not> closed3 s"
  shows "\<exists>k. segment_loop3 n seg i b off s =
    s\<lparr>last_tx3 := k, out3 := out3 s @ map (\<lambda>x. Wrote3 (part_wire3 x)) (parts3 n seg b off)\<rparr>"
  using assms
proof (induction n arbitrary: off s)
  case 0
  show ?case by (rule exI [of _ "last_tx3 s"]) simp
next
  case (Suc n)
  show ?case
  proof (cases "off < length b")
    case True
    define fin where "fin = min (off + seg) (length b)"
    define w where "w = encodeSegment3 (off = 0) (fin = length b) (take (fin - off) (drop off b))"
    have e: "segment_loop3 (Suc n) seg i b off s = segment_loop3 n seg i b (off + seg) (write3 w s)"
      using True Suc.prems(1) by (simp add: Let_def w_def fin_def)
    have "acks3 (write3 w s)" "\<not> closed3 (write3 w s)" using Suc.prems by (simp_all add: write3_def)
    from Suc.IH [OF this, of "off + seg"] obtain k where k: "segment_loop3 n seg i b (off + seg) (write3 w s) = (write3 w s)
      \<lparr>last_tx3 := k, out3 := out3 (write3 w s) @ map (\<lambda>x. Wrote3 (part_wire3 x)) (parts3 n seg b (off + seg))\<rparr>" by blast
    show ?thesis unfolding e k
      using True Suc.prems(2) by (intro exI [of _ k]) (simp add: write3_def Let_def part_wire3_def w_def fin_def)
  next
    case False
    then show ?thesis by (intro exI [of _ "last_tx3 s"]) simp
  qed
qed

lemma acks_resolve3:
  assumes "header_done3 s" "\<not> closed3 s" "cur3 s = Some (i, n)" "n < 2 ^ 70" "\<forall>k \<in> set ks. k < n"
  shows "\<exists>t. takes step3 s (map encodeAck3 (ks @ [n])) t \<and> out3 t = out3 s @ [Resolved3 i] \<and> header_done3 t \<and> \<not> closed3 t"
  using assms(5)
proof (induction ks)
  have st: "step3 s (encodeAck3 k @ x) = Some (on_ack3 k s, x)" if "k < 2 ^ 70" for k x
  proof -
    have "s\<lparr>header_done3 := True\<rparr> = s" using assms(1) by simp
    then show ?thesis using assms(1,2) parse_ack_wire3 [OF that]
      by (simp only: step3_def on_message3_def if_False sum.case option.case prod.case msg3.case)
  qed
  {
    case Nil
    show ?case using st [OF assms(4)] assms(1,2,3)
      by (intro exI [of _ "on_ack3 n s"]) (simp add: on_ack3_def settle3_def)
  next
    case (Cons k ks)
    have "on_ack3 k s = s" using Cons.prems assms(3) by (simp add: on_ack3_def)
    moreover have "k < 2 ^ 70" using Cons.prems assms(4) by simp
    ultimately show ?case using Cons st by auto
  }
qed

lemma parse3_nil: "step3 s [] = None" if "header_done3 s"
  using that by (simp add: step3_def parse3_def)

text \<open>
  With acknowledgements, the bundle at the head of the queue is written as segments from
  which the peer's session, however the stream is cut, delivers exactly that bundle once, acknowledging
  every segment; and those acknowledgements, however cut, resolve its promise.
\<close>

theorem transfer3_delivered:
  assumes "running3 s = None" "queue3 s = (i, b) # rest" "b \<noteq> []" "\<not> closed3 s" "acks3 s" "header_done3 s"
    and "listening3 r q" "peer_acks3 r" "length b \<le> o3_transfer (opts3_of r)" "length b < 2 ^ 70"
  shows "\<exists>ws ks. out3 (run3 s) = out3 s @ map Wrote3 ws \<and>
    (\<forall>pieces. concat pieces = concat ws \<longrightarrow> out3 (fst (feed_all step3 (r, []) pieces)) =
      out3 r @ map (\<lambda>k. Wrote3 (encodeAck3 k)) ks @ [Delivered3 b q]) \<and>
    (\<forall>pieces. concat pieces = concat (map encodeAck3 ks) \<longrightarrow>
      out3 (fst (feed_all step3 (run3 s, []) pieces)) = out3 (run3 s) @ [Resolved3 i])"
proof -
  define seg where "seg = max 1 (o3_segment (opts3_of s))"
  define ps where "ps = parts3 (length b) seg b 0"
  have seg: "0 < seg" by (simp add: seg_def)
  obtain n where n: "length b = Suc n" using assms(3) by (cases b) auto
  from receive_parts3 [OF assms(7,8) seg assms(9,10), of 0 "length b" "[]"] assms(3) obtain t ks where
    t: "takes step3 r (map part_wire3 ps) t" "header_done3 t"
      "out3 t = out3 r @ map (\<lambda>k. Wrote3 (encodeAck3 k)) (ks @ [length b]) @ [Delivered3 b q]" "\<forall>k \<in> set ks. k < length b"
    unfolding ps_def by auto
  define s2 where "s2 = s\<lparr>queue3 := rest, running3 := Some i, cur3 := Some (i, length b)\<rparr>"
  have "acks3 s2" "\<not> closed3 s2" using assms(4,5) by (simp_all add: s2_def)
  from segment_loop3_writes [OF this] obtain k where
    "segment_loop3 (length b) seg i b 0 s2 = s2\<lparr>last_tx3 := k, out3 := out3 s2 @ map (\<lambda>x. Wrote3 (part_wire3 x)) ps\<rparr>"
    unfolding ps_def by blast
  then have run: "run3 s = s2\<lparr>last_tx3 := k, out3 := out3 s2 @ map (\<lambda>x. Wrote3 (part_wire3 x)) ps\<rparr>"
    using assms(1,2,4,5) by (simp add: run3_def Let_def seg_def s2_def)
  have "header_done3 (run3 s)" "\<not> closed3 (run3 s)" "cur3 (run3 s) = Some (i, length b)"
    using assms(4,6) by (simp_all add: run s2_def)
  from acks_resolve3 [OF this assms(10) t(4)] obtain u where
    u: "takes step3 (run3 s) (map encodeAck3 (ks @ [length b])) u" "out3 u = out3 (run3 s) @ [Resolved3 i]" "header_done3 u" by blast
  have "ps \<noteq> []" using assms(3) by (simp add: ps_def n Let_def)
  then have ne: "concat (map part_wire3 ps) \<noteq> []" by (cases ps) (auto simp: part_wire3_def encodeSegment3_def split: prod.splits)
  have ne': "concat (map encodeAck3 (ks @ [length b])) \<noteq> []" by (simp add: encodeAck3_def)
  have "out3 (fst (feed_all step3 (r, []) pieces)) = out3 t" if "concat pieces = concat (map part_wire3 ps)" for pieces
    using tcpcl3.feed_takes [OF TrueI t(1) parse3_nil [OF t(2)] that] ne that by force
  moreover have "out3 (fst (feed_all step3 (run3 s, []) pieces)) = out3 u"
    if "concat pieces = concat (map encodeAck3 (ks @ [length b]))" for pieces
    using tcpcl3.feed_takes [OF TrueI u(1) parse3_nil [OF u(3)] that] ne' that by force
  moreover have "out3 (run3 s) = out3 s @ map Wrote3 (map part_wire3 ps)" by (simp add: run s2_def comp_def)
  ultimately show ?thesis using t(3) u(2)
    by (intro exI [of _ "map part_wire3 ps"] exI [of _ "ks @ [length b]"]) simp
qed

section \<open>What can go wrong\<close>

text \<open>A transfer that waits for a callback nothing will call.\<close>

definition stuck3 :: "nat \<Rightarrow> session3 \<Rightarrow> bool" where
  "stuck3 i s \<longleftrightarrow> running3 s = Some i \<and> cur3 s = None \<and> \<not> acks3 s \<and> header_done3 s"

lemma not_contact3:
  assumes "parse3 True mx b = Inr (Some (m, l))"
  shows "case m of Contact3 v f k e \<Rightarrow> False | _ \<Rightarrow> True"
proof -
  have s: ?thesis if "parse_segment3 mx b = Inr (Some (m, l))"
    using that unfolding parse_segment3_def by (rule parse_sdnvE) (auto split: if_splits)
  have v: ?thesis if "parse_value3 a b = Inr (Some (m, l))" for a
    using that unfolding parse_value3_def by (rule parse_sdnvE) auto
  have d: ?thesis if "parse_shutdown3 b = Inr (Some (m, l))"
  proof -
    have "m = Shutdown3"
      using that unfolding parse_shutdown3_def Let_def by (auto split: if_splits option.splits)
    then show ?thesis by simp
  qed
  show ?thesis using assms s v d by (auto simp: parse3_def Let_def split: if_splits)
qed

lemma stuck_step3:
  assumes "stuck3 i s" "step3 s b = Some (t, r)"
  shows "stuck3 i t"
proof -
  have td: "stuck3 i (teardown3 e s)" for e
    using assms(1) by (simp add: stuck3_def teardown3_def Let_def)
  have "stuck3 i (on_message3 m s)" if "case m of Contact3 v f k e \<Rightarrow> False | _ \<Rightarrow> True" for m
    using assms(1) td that
    by (cases m) (auto simp: on_message3_def on_segment3_def on_ack3_def on_refuse3_def emit3_def write3_def stuck3_def
        Let_def split: option.splits)
  moreover note not_contact3
  moreover have hd: "header_done3 s" using assms(1) by (simp add: stuck3_def)
  moreover have "on_message3 m (s\<lparr>header_done3 := True\<rparr>) = on_message3 m s" for m
    using hd by (intro arg_cong [where f = "on_message3 m"]) simp
  ultimately show ?thesis using assms(2) td by (auto simp: step3_def split: if_splits sum.splits option.splits)
qed

lemma stuck_event3:
  assumes "stuck3 i (fst sb)" "\<And>x. e \<noteq> WriteDone3 i x"
  shows "stuck3 i (fst (event_step3 e sb))"
proof (cases e)
  case (Got3 d)
  have "stuck3 i ((fst sb)\<lparr>last_rx3 := clock3 (fst sb)\<rparr>)" using assms(1) by (simp add: stuck3_def)
  from drain_invariant [where P = "stuck3 i" and step = step3, OF _ this] stuck_step3
  have "stuck3 i (fst (drain n step3 ((fst sb)\<lparr>last_rx3 := clock3 (fst sb)\<rparr>) bs))" for n bs by metis
  then show ?thesis by (simp add: Got3 on_data3_def feed_def del: drain.simps)
qed (use assms in \<open>auto simp: stuck3_def send3_def run3_def write_done3_def ack_timeout3_def close3_def close_timeout3_def
  tick3_def teardown3_def emit3_def write3_def Let_def split: option.splits\<close>)

text \<open>
  Without acknowledgements an empty bundle writes nothing, so no write ever completes for it:
  its promise is never settled, and no bundle queued behind it is ever sent, whatever happens later.
\<close>

theorem empty_bundle_blocks_queue:
  assumes "running3 s = None" "cur3 s = None" "queue3 s = (i, []) # rest" "\<not> closed3 s" "\<not> acks3 s" "header_done3 s"
    and "\<forall>e \<in> set es. \<forall>x. e \<noteq> WriteDone3 i x"
  shows "out3 (run3 s) = out3 s \<and> running3 (fst (foldl (\<lambda>sb e. event_step3 e sb) (run3 s, buf) es)) = Some i"
proof -
  have r: "run3 s = s\<lparr>queue3 := rest, running3 := Some i\<rparr>"
    using assms(1-5) by (simp add: run3_def)
  have "stuck3 i (fst (foldl (\<lambda>sb e. event_step3 e sb) (run3 s, buf) es))"
    using assms(7)
  proof (induction es rule: rev_induct)
    case Nil
    then show ?case using assms(2,5,6) by (simp add: r stuck3_def)
  next
    case (snoc e es)
    then show ?case using stuck_event3 by simp
  qed
  then show ?thesis by (simp add: r stuck3_def)
qed

text \<open>
  Acknowledgements carry no transfer: when a transfer times out and the next one has the same
  length, the late acknowledgement of the first resolves the second.
\<close>

theorem late_ack_resolves_next:
  assumes "header_done3 s" "\<not> closed3 s" "acks3 s" "cur3 s = Some (i, length b)" "queue3 s = (j, b) # rest"
    and "length b < 2 ^ 70"
  shows "Resolved3 j \<in> set (out3 (fst (foldl (\<lambda>sb e. event_step3 e sb) (s, []) [AckTimeout3, Run3, Got3 (encodeAck3 (length b))])))"
proof -
  define s1 where "s1 = ack_timeout3 s"
  define s2 where "s2 = s1\<lparr>queue3 := rest, running3 := Some j, cur3 := Some (j, length b)\<rparr>"
  have s1: "running3 s1 = None" "queue3 s1 = (j, b) # rest" "\<not> closed3 s1" "acks3 s1" "header_done3 s1"
    using assms(1-5) by (simp_all add: s1_def ack_timeout3_def settle3_def)
  have "acks3 s2" "\<not> closed3 s2" using s1 by (simp_all add: s2_def)
  from segment_loop3_writes [OF this] obtain k where
    "segment_loop3 (length b) (max 1 (o3_segment (opts3_of s1))) j b 0 s2 = s2\<lparr>last_tx3 := k, out3 := out3 s2 @
      map (\<lambda>x. Wrote3 (part_wire3 x)) (parts3 (length b) (max 1 (o3_segment (opts3_of s1))) b 0)\<rparr>" by blast
  then have run: "header_done3 (run3 s1)" "\<not> closed3 (run3 s1)" "cur3 (run3 s1) = Some (j, length b)"
    using s1 by (simp_all add: run3_def Let_def s2_def)
  define s3 where "s3 = (run3 s1)\<lparr>clock3 := clock3 (run3 s1), last_rx3 := clock3 (run3 s1)\<rparr>"
  have s3: "header_done3 s3" "\<not> closed3 s3" "cur3 s3 = Some (j, length b)" using run by (simp_all add: s3_def)
  from acks_resolve3 [OF s3 assms(6), of "[]"] obtain t where
    t: "takes step3 s3 [encodeAck3 (length b)] t" "out3 t = out3 s3 @ [Resolved3 j]" "header_done3 t" by auto
  have "fst (feed step3 (s3, []) (encodeAck3 (length b))) = t"
    using tcpcl3.feed_takes [OF TrueI t(1) parse3_nil [OF t(3)], of "[encodeAck3 (length b)]"] by simp
  moreover have "fst (foldl (\<lambda>sb e. event_step3 e sb) (s, []) [AckTimeout3, Run3, Got3 (encodeAck3 (length b))]) =
      fst (feed step3 (s3, []) (encodeAck3 (length b)))"
    by (simp add: on_data3_def s3_def s1_def)
  ultimately show ?thesis using t(2) by simp
qed


text \<open>Two sessions after their contact headers, with and without acknowledgements.\<close>

definition node_config3 :: "bool \<Rightarrow> config3" where
  "node_config3 acks = \<lparr>c3_active = False, c3_node = ''dtn:a'', c3_allowed = Some [''dtn:b''],
     c3_opts = \<lparr>o3_keepalive = 10, o3_segment = 2, o3_transfer = 64, o3_request_ack = acks\<rparr>\<rparr>"

definition met3 :: "bool \<Rightarrow> session3" where
  "met3 acks = (case new_session3 (node_config3 acks) of
     Inr s \<Rightarrow> on_message3 (Contact3 version3 1 20 ''dtn:b'') (s\<lparr>header_done3 := True\<rparr>))"

definition loaded3 :: "bool \<Rightarrow> bytes list \<Rightarrow> session3" where
  "loaded3 acks bs = foldl (\<lambda>s b. fst (send3 b s)) (met3 acks) bs"

lemma met3_state:
  "running3 (met3 a) = None" "cur3 (met3 a) = None" "queue3 (met3 a) = []" "\<not> closed3 (met3 a)" "acks3 (met3 a) = a"
  "header_done3 (met3 a)" "up3 (met3 a)" "next3 (met3 a) = 0" "o3_transfer (opts3_of (met3 a)) = 64" "peer_acks3 (met3 a)"
  "\<exists>p. peer3_of (met3 a) = Some p \<and> p3_node p = ''dtn:b''"
  by (simp_all add: met3_def new_session3_def node_config3_def on_message3_def on_contact3_def header_bytes3_def
      encodeContactHeader3_def establish3_def emit3_def start_keepalive3_def write3_def Let_def)

lemma transfer3_delivered_witness:
  "\<exists>ws q. out3 (run3 (loaded3 True [[1, 2, 3]])) = out3 (loaded3 True [[1, 2, 3]]) @ map Wrote3 ws \<and>
    (\<forall>pieces. concat pieces = concat ws \<longrightarrow>
      Delivered3 [1, 2, 3] q \<in> set (out3 (fst (feed_all step3 (met3 True, []) pieces))))"
proof -
  obtain q where q: "peer3_of (met3 True) = Some q" using met3_state(11) by blast
  have "\<exists>ws ks. out3 (run3 (loaded3 True [[1, 2, 3]])) = out3 (loaded3 True [[1, 2, 3]]) @ map Wrote3 ws \<and>
    (\<forall>pieces. concat pieces = concat ws \<longrightarrow> out3 (fst (feed_all step3 (met3 True, []) pieces)) =
      out3 (met3 True) @ map (\<lambda>k. Wrote3 (encodeAck3 k)) ks @ [Delivered3 [1, 2, 3] q]) \<and>
    (\<forall>pieces. concat pieces = concat (map encodeAck3 ks) \<longrightarrow>
      out3 (fst (feed_all step3 (run3 (loaded3 True [[1, 2, 3]]), []) pieces)) =
        out3 (run3 (loaded3 True [[1, 2, 3]])) @ [Resolved3 0])"
    by (rule transfer3_delivered [of _ 0 "[1, 2, 3]" "[]"])
      (use q in \<open>simp_all add: loaded3_def send3_def met3_state listening3_def\<close>)
  then show ?thesis by fastforce
qed

lemma empty_bundle_blocks_queue_witness:
  "running3 (fst (foldl (\<lambda>sb e. event_step3 e sb) (run3 (loaded3 False [[], [7]]), []) [Run3, Run3, Failed3 ''gone''])) = Some 0"
  by (rule empty_bundle_blocks_queue [of "loaded3 False [[], [7]]" 0 "[(1, [7])]" "[Run3, Run3, Failed3 ''gone'']" "[]", THEN conjunct2])
    (simp_all add: loaded3_def send3_def met3_state)

lemma late_ack_resolves_next_witness:
  "Resolved3 1 \<in> set (out3 (fst (foldl (\<lambda>sb e. event_step3 e sb) (run3 (loaded3 True [[5], [6]]), [])
     [AckTimeout3, Run3, Got3 (encodeAck3 (length [6 :: byte]))])))"
proof -
  have r: "header_done3 (run3 (loaded3 True [[5], [6]]))" "\<not> closed3 (run3 (loaded3 True [[5], [6]]))"
      "acks3 (run3 (loaded3 True [[5], [6]]))" "cur3 (run3 (loaded3 True [[5], [6]])) = Some (0, 1)"
      "queue3 (run3 (loaded3 True [[5], [6]])) = [(1, [6])]"
    by (simp_all add: loaded3_def send3_def met3_state run3_def write3_def Let_def)
  show ?thesis by (rule late_ack_resolves_next [OF r(1,2,3)]) (use r in simp_all)
qed

end
