(* ===== verification/JsDate.thy ===== *)
theory JsDate
  imports JsValue
begin

text \<open>
  \<open>new Date(ms).toISOString()\<close>: the date of a day number by the proleptic Gregorian calendar, and the
  time of the day. A time beyond 8.64e15 ms is an invalid date, on which \<open>toISOString\<close> throws.
\<close>

definition padStart :: "nat \<Rightarrow> string \<Rightarrow> string" where
  "padStart n s = replicate (n - length s) CHR ''0'' @ s"

text \<open>Year, month and day of a number of days since 1970-01-01, by eras of 146097 days from March 1.\<close>

definition civil :: "int \<Rightarrow> int \<times> int \<times> int" where
  "civil days =
     (let z = days + 719468; era = z div 146097; doe = z mod 146097;
          yoe = (doe - doe div 1460 + doe div 36524 - doe div 146096) div 365;
          doy = doe - (365 * yoe + yoe div 4 - yoe div 100); mp = (5 * doy + 2) div 153;
          d = doy - (153 * mp + 2) div 5 + 1; m = (if mp < 10 then mp + 3 else mp - 9);
          y = yoe + era * 400 + (if m \<le> 2 then 1 else 0)
      in (y, m, d))"

definition pad_int :: "nat \<Rightarrow> int \<Rightarrow> string" where
  "pad_int n i = padStart n (show_nat (nat i))"

definition show_year :: "int \<Rightarrow> string" where
  "show_year y = (if 0 \<le> y \<and> y \<le> 9999 then pad_int 4 y
     else (if y < 0 then ''-'' else ''+'') @ pad_int 6 \<bar>y\<bar>)"

definition toISOString :: "int \<Rightarrow> string res" where
  "toISOString ms =
     (if \<bar>ms\<bar> > 8640000000000000 then Inl ''Invalid time value'' else
      let (y, m, d) = civil (ms div 86400000); t = ms mod 86400000 in
      Inr (show_year y @ ''-'' @ pad_int 2 m @ ''-'' @ pad_int 2 d @ ''T'' @ pad_int 2 (t div 3600000) @ '':'' @
        pad_int 2 (t div 60000 mod 60) @ '':'' @ pad_int 2 (t div 1000 mod 60) @ ''.'' @ pad_int 3 (t mod 1000) @ ''Z''))"

lemma toISOString_total: "\<bar>ms\<bar> \<le> 8640000000000000 \<Longrightarrow> \<exists>s. toISOString ms = Inr s"
  by (simp add: toISOString_def Let_def split: prod.split)

end
