(* ===== verification/Outbox.thy ===== *)
theory Outbox
  imports Prelude
begin

text \<open>
  The interface of a durable queue of bundles, as the gateway's sender uses its disk spool: bundles are
  added, the names that wait are listed oldest first, a bundle is read by its name, and is removed once
  the peer has acknowledged it. The laws make the store a queue: what waits is exactly what was added
  and not removed, in the order of arrival, with the bytes that were added.
\<close>

locale outbox =
  fixes add :: "bytes \<Rightarrow> 's \<Rightarrow> 's \<times> string"
    and waiting :: "'s \<Rightarrow> string list"
    and fetch :: "'s \<Rightarrow> string \<Rightarrow> bytes option"
    and remove :: "string \<Rightarrow> 's \<Rightarrow> 's"
    and ok :: "'s \<Rightarrow> bool"
    and room :: "'s \<Rightarrow> bool"
  assumes add_ok: "ok s \<Longrightarrow> room s \<Longrightarrow> add b s = (s', n) \<Longrightarrow> ok s'"
    and add_waiting: "ok s \<Longrightarrow> room s \<Longrightarrow> add b s = (s', n) \<Longrightarrow> waiting s' = waiting s @ [n]"
    and add_new: "ok s \<Longrightarrow> room s \<Longrightarrow> add b s = (s', n) \<Longrightarrow> n \<notin> set (waiting s)"
    and add_fetch: "ok s \<Longrightarrow> room s \<Longrightarrow> add b s = (s', n) \<Longrightarrow> fetch s' n = Some b"
    and add_keeps: "ok s \<Longrightarrow> room s \<Longrightarrow> add b s = (s', n) \<Longrightarrow> m \<in> set (waiting s) \<Longrightarrow> fetch s' m = fetch s m"
    and remove_ok: "ok s \<Longrightarrow> ok (remove n s)"
    and remove_waiting: "ok s \<Longrightarrow> waiting (remove n s) = filter (\<lambda>m. m \<noteq> n) (waiting s)"
    and remove_fetch: "ok s \<Longrightarrow> m \<noteq> n \<Longrightarrow> fetch (remove n s) m = fetch s m"
    and waiting_fetch: "ok s \<Longrightarrow> n \<in> set (waiting s) \<Longrightarrow> \<exists>b. fetch s n = Some b"
    and waiting_distinct: "ok s \<Longrightarrow> distinct (waiting s)"
begin

text \<open>The abstract queue a store stands for.\<close>

definition contents :: "'s \<Rightarrow> bytes list" where
  "contents s = map (\<lambda>n. the (fetch s n)) (waiting s)"

lemma contents_add:
  assumes "ok s" "room s" "add b s = (s', n)"
  shows "contents s' = contents s @ [b]"
proof -
  have "the (fetch s' m) = the (fetch s m)" if "m \<in> set (waiting s)" for m
    using add_keeps [OF assms that] by simp
  then show ?thesis using add_waiting [OF assms] add_fetch [OF assms] by (simp add: contents_def)
qed

lemma contents_head:
  assumes "ok s" "waiting s = n # ns"
  shows "contents s = the (fetch s n) # contents (remove n s)"
proof -
  have d: "n \<notin> set ns" using waiting_distinct [OF assms(1)] assms(2) by simp
  then have "waiting (remove n s) = ns" using remove_waiting [OF assms(1), of n] assms(2) by (auto simp: filter_id_conv)
  moreover have "fetch (remove n s) m = fetch s m" if "m \<in> set ns" for m
    by (rule remove_fetch [OF assms(1)]) (use that d in auto)
  ultimately show ?thesis using assms(2) by (simp add: contents_def)
qed

lemma contents_empty: "waiting s = [] \<longleftrightarrow> contents s = []"
  by (simp add: contents_def)

end

end
