(* ===== verification/Spool.thy ===== *)
theory Spool
  imports JsDate Outbox "HOL-Library.Multiset" "HOL-Library.List_Lexorder" "HOL-Library.Char_ord"
begin

text \<open>
  The disk spool of \<open>gateway/spool.mjs\<close>. The directory is a list of named files without duplicates; a
  bundle is written to a temporary name and renamed. \<open>seq\<close> is \<open>None\<close> when it is NaN (a foreign file
  whose name does not start with a number). Names are compared by their bytes, which for these names is
  the order of \<open>Array.sort\<close>.
\<close>

section \<open>Model\<close>

record spool =
  files :: "(string \<times> bytes) list"
  sp_seq :: "int option"

definition put_file :: "string \<Rightarrow> bytes \<Rightarrow> (string \<times> bytes) list \<Rightarrow> (string \<times> bytes) list" where
  "put_file n b fs = filter (\<lambda>f. fst f \<noteq> n) fs @ [(n, b)]"

definition is_bundle_file :: "string \<Rightarrow> bool" where
  "is_bundle_file f \<longleftrightarrow> drop (length f - 7) f = ''.bundle'' \<and> 7 \<le> length f"

definition file_number :: "string \<Rightarrow> int option" where
  "file_number f = string_to_number (takeWhile (\<lambda>c. c \<noteq> CHR ''.'') f)"

text \<open>\<open>Math.max(...seqs) + 1\<close>: NaN as soon as one of them is.\<close>

fun max_plus_one :: "int option list \<Rightarrow> int option" where
  "max_plus_one [] = Some 1"
| "max_plus_one [n] = map_option (\<lambda>n. n + 1) n"
| "max_plus_one (n # m # ns) =
     (case (n, max_plus_one (m # ns)) of (Some n, Some k) \<Rightarrow> Some (max (n + 1) k) | _ \<Rightarrow> None)"

definition open_spool :: "(string \<times> bytes) list \<Rightarrow> spool" where
  "open_spool fs = \<lparr>files = fs, sp_seq = max_plus_one (map file_number (filter is_bundle_file (map fst fs)))\<rparr>"

definition bundle_name :: "int option \<Rightarrow> string" where
  "bundle_name seq = padStart 12 (case seq of Some n \<Rightarrow> show_int n | None \<Rightarrow> ''NaN'') @ ''.bundle''"

text \<open>The two file operations of \<open>add\<close>; a crash may fall between them.\<close>

definition spool_write :: "bytes \<Rightarrow> spool \<Rightarrow> spool" where
  "spool_write b s = s\<lparr>files := put_file (bundle_name (sp_seq s) @ ''.tmp'') b (files s), sp_seq := map_option (\<lambda>n. n + 1) (sp_seq s)\<rparr>"

definition spool_rename :: "string \<Rightarrow> bytes \<Rightarrow> spool \<Rightarrow> spool" where
  "spool_rename n b s = s\<lparr>files := put_file n b (filter (\<lambda>f. fst f \<noteq> n @ ''.tmp'') (files s))\<rparr>"

definition spool_add :: "bytes \<Rightarrow> spool \<Rightarrow> spool \<times> string" where
  "spool_add b s = (let n = bundle_name (sp_seq s) in (spool_rename n b (spool_write b s), n))"

definition spool_list :: "spool \<Rightarrow> string list" where
  "spool_list s = sort (filter is_bundle_file (map fst (files s)))"

definition spool_read :: "spool \<Rightarrow> string \<Rightarrow> bytes option" where
  "spool_read s n = map_of (files s) n"

definition spool_done :: "string \<Rightarrow> spool \<Rightarrow> spool" where
  "spool_done n s = s\<lparr>files := filter (\<lambda>f. fst f \<noteq> n) (files s)\<rparr>"

definition spool_size :: "spool \<Rightarrow> nat" where
  "spool_size s = length (spool_list s)"

section \<open>Padded numbers in order\<close>

fun dec :: "nat \<Rightarrow> nat \<Rightarrow> string" where
  "dec 0 n = []"
| "dec (Suc k) n = dec k (n div 10) @ [digit_char (n mod 10)]"

lemma dec_length [simp]: "length (dec k n) = k"
  by (induction k arbitrary: n) auto

lemma dec_zero: "dec k 0 = replicate k CHR ''0''"
proof (induction k)
  case (Suc k)
  have "digit_char 0 = CHR ''0''" by code_simp
  then show ?case using Suc by (simp add: replicate_append_same)
qed simp

lemma pad_dec: "n < 10 ^ Suc k \<Longrightarrow> padStart (Suc k) (show_nat n) = dec (Suc k) n"
proof (induction k arbitrary: n)
  case 0
  then show ?case by (subst show_nat.simps) (simp add: padStart_def)
next
  case (Suc k)
  show ?case
  proof (cases "n < 10")
    case True
    then show ?thesis by (subst show_nat.simps) (simp add: padStart_def dec_zero replicate_append_same)
  next
    case False
    have "n div 10 < 10 ^ Suc k" using Suc.prems by (simp add: div_less_iff_less_mult mult.commute)
    from Suc.IH [OF this] show ?thesis using False
      by (subst show_nat.simps) (simp add: padStart_def)
  qed
qed

lemma less_snoc:
  fixes xs ys :: string
  shows "length xs = length ys \<Longrightarrow> xs @ [a] < ys @ [b] \<longleftrightarrow> xs < ys \<or> xs = ys \<and> a < b"
  by (induction xs ys rule: list_induct2) auto

lemma less_suffix:
  fixes xs ys :: string
  shows "length xs = length ys \<Longrightarrow> xs @ zs < ys @ zs \<longleftrightarrow> xs < ys"
  by (induction xs ys rule: list_induct2) auto

lemma digit_less: "a < b \<Longrightarrow> b < 10 \<Longrightarrow> digit_char a < digit_char b"
  by (simp add: digit_char_def less_char_def)

lemma dec_less: "m < n \<Longrightarrow> n < 10 ^ k \<Longrightarrow> dec k m < dec k n"
proof (induction k arbitrary: m n)
  case (Suc k)
  have n: "n div 10 < 10 ^ k" using Suc.prems(2) by (simp add: div_less_iff_less_mult mult.commute)
  consider "m div 10 < n div 10" | "m div 10 = n div 10" "m mod 10 < n mod 10"
    using Suc.prems(1) by (metis div_le_mono div_mult_mod_eq le_neq_implies_less less_imp_le_nat nat_add_left_cancel_less)
  then show ?case
  proof cases
    case 1
    then show ?thesis using Suc.IH n by (simp add: less_snoc)
  next
    case 2
    then show ?thesis by (simp add: less_snoc digit_less)
  qed
qed simp

definition name_of :: "nat \<Rightarrow> string" where
  "name_of n = dec 12 n @ ''.bundle''"

lemma bundle_name_nat: "n < 10 ^ 12 \<Longrightarrow> bundle_name (Some (int n)) = name_of n"
  using pad_dec [of n 11] by (simp add: bundle_name_def name_of_def show_int_def del: dec.simps)

lemma name_less: "m < n \<Longrightarrow> n < 10 ^ 12 \<Longrightarrow> name_of m < name_of n"
  unfolding name_of_def by (subst less_suffix) (simp_all add: dec_less del: dec.simps)

lemma name_is_bundle: "is_bundle_file (name_of n)"
  by (simp add: is_bundle_file_def name_of_def del: dec.simps)

lemma tmp_not_bundle: "\<not> is_bundle_file (s @ ''.tmp'')"
proof
  assume "is_bundle_file (s @ ''.tmp'')"
  then have "drop (length (s @ ''.tmp'') - 7) (s @ ''.tmp'') = ''.bundle''" unfolding is_bundle_file_def by blast
  then have "last (drop (length (s @ ''.tmp'') - 7) (s @ ''.tmp'')) = last ''.bundle''" by (rule arg_cong)
  then have "last (s @ ''.tmp'') = last ''.bundle''" by (subst (asm) last_drop) simp_all
  then show False by simp
qed

lemma pad_digits: "\<forall>c \<in> set (dec k n). is_digit c"
proof (induction k arbitrary: n)
  case (Suc k)
  have "is_digit (digit_char d)" if "d < 10" for d
    using that by (simp add: is_digit_def digit_val_def digit_char_def)
  then show ?case using Suc by simp
qed simp

lemma read_dec: "n < 10 ^ k \<Longrightarrow> read_nat (dec k n) = n"
proof (induction k arbitrary: n)
  case (Suc k)
  have "n div 10 < 10 ^ k" using Suc.prems by (simp add: div_less_iff_less_mult mult.commute)
  moreover have "digit_val (digit_char (n mod 10)) = Some (n mod 10)"
    by (simp add: digit_val_def digit_char_def)
  ultimately show ?case using Suc.IH [of "n div 10"] by (simp add: read_nat_def)
qed (simp add: read_nat_def)

lemma trim_digits: "s \<noteq> [] \<Longrightarrow> \<forall>c \<in> set s. is_digit c \<Longrightarrow> trim s = s"
proof -
  assume s: "s \<noteq> []" "\<forall>c \<in> set s. is_digit c"
  have d: "\<not> is_space c" if "is_digit c" for c
    using that by (auto simp: is_space_def is_digit_def digit_val_def Let_def split: if_splits)
  have dw: "dropWhile is_space t = t" if "\<forall>c \<in> set t. is_digit c" for t
    using that d by (cases t) auto
  show ?thesis using dw [OF s(2)] dw [of "rev s"] s(2) by (simp add: trim_def)
qed

lemma string_to_number_digits:
  assumes "s \<noteq> []" "\<forall>c \<in> set s. is_digit c"
  shows "string_to_number s = Some (int (read_nat s))"
proof -
  obtain c r where s: "s = c # r" using assms(1) by (cases s) auto
  have "c \<noteq> CHR ''-''" "c \<noteq> CHR ''+''" using assms(2) s by (auto simp: is_digit_def digit_val_def)
  moreover have "digits_value s = Some (read_nat s)" using assms by (simp add: digits_value_def list_all_iff)
  ultimately show ?thesis unfolding string_to_number_def trim_digits [OF assms] by (simp add: s)
qed

lemma file_number_name:
  assumes "n < 10 ^ 12"
  shows "file_number (name_of n) = Some (int n)"
proof -
  have "c \<noteq> CHR ''.''" if "is_digit c" for c using that by (auto simp: is_digit_def digit_val_def)
  then have "takeWhile (\<lambda>c. c \<noteq> CHR ''.'') (name_of n) = dec 12 n"
    unfolding name_of_def using pad_digits [of 12 n] by (subst takeWhile_append2) (auto simp del: dec.simps)
  moreover have "dec 12 n \<noteq> []" using dec_length [of 12 n] by (metis length_0_conv zero_neq_numeral)
  ultimately show ?thesis
    using string_to_number_digits [of "dec 12 n"] pad_digits [of 12 n] read_dec [OF assms] by (simp add: file_number_def)
qed

section \<open>The spool is a queue on disk\<close>

text \<open>The invariant: the bundle files are numbered below \<open>seq\<close>.\<close>

definition spool_ok :: "spool \<Rightarrow> bool" where
  "spool_ok s \<longleftrightarrow> distinct (map fst (files s)) \<and>
     (\<exists>k. sp_seq s = Some (int k) \<and>
       (\<forall>f \<in> set (files s). is_bundle_file (fst f) \<longrightarrow> (\<exists>m<k. m < 10 ^ 12 \<and> fst f = name_of m)))"

definition spool_room :: "spool \<Rightarrow> bool" where
  "spool_room s \<longleftrightarrow> (\<exists>k < 10 ^ 12. sp_seq s = Some (int k))"

lemma names_put: "map fst (put_file n b fs) = filter (\<lambda>m. m \<noteq> n) (map fst fs) @ [n]"
  by (simp add: put_file_def filter_map comp_def)

lemma names_filter: "map fst (filter (\<lambda>f. fst f \<noteq> n) fs) = filter (\<lambda>m. m \<noteq> n) (map fst fs)"
  by (simp add: filter_map comp_def)

lemma map_of_filter_other: "m \<noteq> n \<Longrightarrow> map_of (filter (\<lambda>f. fst f \<noteq> n) fs) m = map_of fs m"
  by (induction fs) auto

lemma map_of_put: "map_of (put_file n b fs) m = (if m = n then Some b else map_of fs m)"
proof (cases "m = n")
  case True
  have "map_of (filter (\<lambda>f. fst f \<noteq> n) fs) n = None" by (auto simp: map_of_eq_None_iff)
  then show ?thesis using True by (simp add: put_file_def map_add_def)
next
  case False
  then show ?thesis using map_of_filter_other [OF False, of fs] by (simp add: put_file_def map_add_def split: option.split)
qed

lemma sort_snoc: "(\<And>x. x \<in> set xs \<Longrightarrow> x < n) \<Longrightarrow> sort (xs @ [n]) = sort xs @ [n]" for n :: string
  by (rule properties_for_sort) (auto simp: sorted_append less_imp_le)

definition listed :: "(string \<times> bytes) list \<Rightarrow> string list" where
  "listed fs = filter is_bundle_file (map fst fs)"

lemma listed_write: "listed (put_file (n @ ''.tmp'') b fs) = listed fs"
  using tmp_not_bundle [of n] by (auto simp: listed_def names_put intro: filter_cong)

lemma listed_rename:
  assumes "is_bundle_file n" "n \<notin> set (listed fs)"
  shows "listed (put_file n b (filter (\<lambda>f. fst f \<noteq> n @ ''.tmp'') fs)) = listed fs @ [n]"
proof -
  have "filter is_bundle_file (filter (\<lambda>m. m \<noteq> n) (filter (\<lambda>m. m \<noteq> n @ ''.tmp'') ns)) = filter is_bundle_file ns"
    if "n \<notin> set (filter is_bundle_file ns)" for ns
    unfolding filter_filter using that tmp_not_bundle [of n] by (intro filter_cong) auto
  from this [of "map fst fs"] assms show ?thesis by (simp add: listed_def names_put names_filter)
qed

lemma spool_list_listed: "spool_list s = sort (listed (files s))"
  by (simp add: spool_list_def listed_def)

lemma listed_set: "f \<in> set (listed fs) \<longleftrightarrow> is_bundle_file f \<and> f \<in> fst ` set fs"
  by (auto simp: listed_def)

lemma spool_add_eq:
  assumes "spool_ok s" "spool_room s" "spool_add b s = (s', n)"
  obtains k where "sp_seq s = Some (int k)" "k < 10 ^ 12" "n = name_of k" "sp_seq s' = Some (int (Suc k))"
    "files s' = put_file n b (filter (\<lambda>f. fst f \<noteq> n @ ''.tmp'') (put_file (n @ ''.tmp'') b (files s)))"
    "\<And>m. m \<in> set (listed (files s)) \<Longrightarrow> m < n" "\<And>m. m \<in> set (listed (files s)) \<Longrightarrow> \<exists>j<k. j < 10 ^ 12 \<and> m = name_of j"
proof -
  from assms(2) obtain k where k: "sp_seq s = Some (int k)" "k < 10 ^ 12" by (auto simp: spool_room_def)
  have n: "n = name_of k" and s': "s' = spool_rename n b (spool_write b s)"
    using assms(3) k bundle_name_nat [OF k(2)] by (auto simp: spool_add_def Let_def)
  have old: "\<exists>j<k. j < 10 ^ 12 \<and> m = name_of j" if "m \<in> set (listed (files s))" for m
    using assms(1) k(1) that by (auto simp: spool_ok_def listed_set)
  have "m < n" if "m \<in> set (listed (files s))" for m
    using old [OF that] name_less k(2) n by auto
  moreover have "sp_seq s' = Some (int (Suc k))"
    "files s' = put_file n b (filter (\<lambda>f. fst f \<noteq> n @ ''.tmp'') (put_file (n @ ''.tmp'') b (files s)))"
    using k bundle_name_nat [OF k(2)] n by (simp_all add: s' spool_rename_def spool_write_def)
  ultimately show thesis using that k n old by blast
qed

lemma distinct_put: "distinct (map fst fs) \<Longrightarrow> distinct (map fst (put_file n b fs))"
  by (simp add: names_put)

interpretation disk: outbox spool_add spool_list spool_read spool_done spool_ok spool_room
proof
  fix s s' :: spool and b n
  assume a: "spool_ok s" "spool_room s" "spool_add b s = (s', n)"
  from spool_add_eq [OF a] obtain k where k: "n = name_of k" "k < 10 ^ 12" "sp_seq s' = Some (int (Suc k))"
    "files s' = put_file n b (filter (\<lambda>f. fst f \<noteq> n @ ''.tmp'') (put_file (n @ ''.tmp'') b (files s)))"
    "\<And>m. m \<in> set (listed (files s)) \<Longrightarrow> m < n" "\<And>m. m \<in> set (listed (files s)) \<Longrightarrow> \<exists>j<k. j < 10 ^ 12 \<and> m = name_of j" by blast
  have new: "n \<notin> set (listed (files s))" using k(5) by blast
  have l: "listed (files s') = listed (files s) @ [n]"
    unfolding k(4) using listed_rename [of n "put_file (n @ ''.tmp'') b (files s)" b] new listed_write name_is_bundle k(1) by simp
  show w: "spool_list s' = spool_list s @ [n]"
    unfolding spool_list_listed l using k(5) by (rule sort_snoc)
  show "n \<notin> set (spool_list s)" using new by (simp add: spool_list_listed)
  show "spool_read s' n = Some b"
    by (simp add: spool_read_def k(4) map_of_put)
  have d: "distinct (map fst (files s'))"
    using a(1) unfolding k(4) by (intro distinct_put) (simp add: names_filter names_put spool_ok_def)
  have "\<exists>j<Suc k. j < 10 ^ 12 \<and> f = name_of j" if "f \<in> set (listed (files s'))" for f
    using that k(6) [of f] k(1,2) unfolding l by (cases "f = n") (auto intro: less_SucI)
  then show "spool_ok s'" using d k(3) unfolding spool_ok_def
    by (intro conjI exI [of _ "Suc k"]) (auto simp: listed_set)
  show "spool_read s' m = spool_read s m" if "m \<in> set (spool_list s)" for m
  proof -
    have m: "m \<noteq> n" "m \<noteq> n @ ''.tmp''" using that new tmp_not_bundle [of n] by (auto simp: spool_list_listed listed_set)
    then show ?thesis
      by (simp only: spool_read_def k(4) map_of_put if_False map_of_filter_other [OF m(2)])
  qed
next
  fix s :: spool and n m
  have ls: "listed (filter (\<lambda>f. fst f \<noteq> n) fs) = filter (\<lambda>m. m \<noteq> n) (listed fs)" for fs
    by (simp add: listed_def names_filter conj_commute)
  show "spool_list (spool_done n s) = filter (\<lambda>m. m \<noteq> n) (spool_list s)"
    by (simp add: spool_list_listed spool_done_def ls filter_sort)
  show "spool_read (spool_done n s) m = spool_read s m" if "m \<noteq> n"
    using that by (simp add: spool_read_def spool_done_def map_of_filter_other)
  assume a: "spool_ok s"
  then show "spool_ok (spool_done n s)"
    unfolding spool_ok_def spool_done_def
  proof (elim conjE exE, intro conjI exI)
    fix k
    assume "\<forall>f \<in> set (files s). is_bundle_file (fst f) \<longrightarrow> (\<exists>m<k. m < 10 ^ 12 \<and> fst f = name_of m)" "sp_seq s = Some (int k)"
    then show "sp_seq (s\<lparr>files := filter (\<lambda>f. fst f \<noteq> n) (files s)\<rparr>) = Some (int k)"
      "\<forall>f \<in> set (files (s\<lparr>files := filter (\<lambda>f. fst f \<noteq> n) (files s)\<rparr>)). is_bundle_file (fst f) \<longrightarrow>
        (\<exists>m<k. m < 10 ^ 12 \<and> fst f = name_of m)" by simp_all
  qed (simp add: names_filter)
  show "distinct (spool_list s)" using a by (simp add: spool_list_listed listed_def spool_ok_def)
  show "\<exists>b. spool_read s m = Some b" if "m \<in> set (spool_list s)"
    using that by (auto simp: spool_list_listed listed_set spool_read_def) (metis image_eqI map_of_eq_None_iff option.exhaust fst_conv)
qed


section \<open>Bundles waiting on disk\<close>

definition spool_contents :: "spool \<Rightarrow> bytes list" where
  "spool_contents s = map (\<lambda>n. the (spool_read s n)) (spool_list s)"

lemma disk_contents: "disk.contents s = spool_contents s"
  by (simp add: disk.contents_def spool_contents_def)

lemma max_plus_one_bound:
  "ns \<noteq> [] \<Longrightarrow> list_all (\<lambda>n. n \<noteq> None) ns \<Longrightarrow> max_plus_one ns = Some (Max (set (map the ns)) + 1)"
proof (induction ns rule: max_plus_one.induct)
  case (3 n m ns)
  then show ?case by (auto simp: max_def)
qed auto

lemma open_spool_seq:
  assumes "\<And>f. f \<in> set (listed fs) \<Longrightarrow> \<exists>m<k. m < 10 ^ 12 \<and> f = name_of m"
  obtains j where "sp_seq (open_spool fs) = Some (int j)" "j \<le> max k 1"
    "\<And>f. f \<in> set (listed fs) \<Longrightarrow> \<exists>m<j. m < 10 ^ 12 \<and> f = name_of m"
proof -
  define ns where "ns = map file_number (listed fs)"
  have seq: "sp_seq (open_spool fs) = max_plus_one ns" by (simp add: open_spool_def ns_def listed_def)
  have num: "\<exists>m<k. m < 10 ^ 12 \<and> f = name_of m \<and> file_number f = Some (int m)" if "f \<in> set (listed fs)" for f
    using assms [OF that] file_number_name by auto
  show thesis
  proof (cases "listed fs")
    case Nil
    then show thesis using that [of 1] by (simp add: seq ns_def)
  next
    case (Cons f0 r)
    define M where "M = Max (set (map the ns))"
    have ne: "ns \<noteq> []" using Cons by (simp add: ns_def)
    have "list_all (\<lambda>n. n \<noteq> None) ns" using num by (fastforce simp: ns_def list_all_iff)
    then have s: "sp_seq (open_spool fs) = Some (M + 1)" unfolding seq M_def using max_plus_one_bound [OF ne] by simp
    have fin: "finite (set (map the ns))" "set (map the ns) \<noteq> {}" using ne by auto
    obtain f where f: "f \<in> set (listed fs)" "M = the (file_number f)"
      using Max_in [OF fin] by (auto simp: M_def ns_def)
    then obtain m where m: "m < k" "M = int m" using num by fastforce
    have "\<exists>i<Suc m. i < 10 ^ 12 \<and> f = name_of i" if g: "f \<in> set (listed fs)" for f
    proof -
      obtain i where i: "i < 10 ^ 12" "f = name_of i" "file_number f = Some (int i)" using num [OF g] by auto
      have "int i \<in> set (map the ns)" using g i(3) by (force simp: ns_def)
      then have "int i \<le> M" unfolding M_def using fin(1) by simp
      then show ?thesis using i m(2) by (intro exI [of _ i]) simp
    qed
    then show thesis using that [of "Suc m"] s m by simp
  qed
qed

text \<open>A gateway that starts again finds the same queue.\<close>

lemma restart_ok:
  assumes "spool_ok s" "set (listed fs) \<subseteq> set (listed (files s))" "distinct (map fst fs)"
  shows "spool_ok (open_spool fs)"
proof -
  obtain k where "\<forall>f \<in> set (listed (files s)). \<exists>m<k. m < 10 ^ 12 \<and> f = name_of m"
    using assms(1) by (force simp: spool_ok_def listed_set)
  then have "\<exists>m<k. m < 10 ^ 12 \<and> f = name_of m" if "f \<in> set (listed fs)" for f
    using that assms(2) by blast
  from open_spool_seq [OF this] obtain j where "sp_seq (open_spool fs) = Some (int j)"
    "\<And>f. f \<in> set (listed fs) \<Longrightarrow> \<exists>m<j. m < 10 ^ 12 \<and> f = name_of m" by metis
  then show ?thesis unfolding spool_ok_def using assms(3)
    by (intro conjI exI [of _ j]) (auto simp: listed_set open_spool_def)
qed

lemma contents_files: "files t = files s \<Longrightarrow> spool_contents t = spool_contents s"
  by (simp add: spool_contents_def spool_list_def spool_read_def)

text \<open>
  Property C37. The spool is a first-in first-out queue kept on disk: \<open>add\<close> puts a bundle at the end,
  removing the oldest name leaves the rest, a restart finds the same bundles in the same order, and a
  crash between writing the temporary file and renaming it leaves the queue as it was.
\<close>

theorem spool_is_durable_queue:
  assumes "spool_ok s" "spool_room s" "spool_add b s = (s', n)"
  shows "spool_contents s' = spool_contents s @ [b] \<and> spool_ok s' \<and>
    (\<forall>m ms. spool_list s = m # ms \<longrightarrow> spool_contents s = the (spool_read s m) # spool_contents (spool_done m s)) \<and>
    (\<forall>t \<in> {s, s'}. spool_ok (open_spool (files t)) \<and> spool_contents (open_spool (files t)) = spool_contents t) \<and>
    spool_contents (open_spool (files (spool_write b s))) = spool_contents s"
proof -
  have ok': "spool_ok s'" by (rule disk.add_ok [OF assms])
  have d: "distinct (map fst (files t))" if "spool_ok t" for t using that by (simp add: spool_ok_def)
  have re: "spool_ok (open_spool (files t)) \<and> spool_contents (open_spool (files t)) = spool_contents t" if "spool_ok t" for t
    using restart_ok [OF that _ d [OF that]] contents_files [of "open_spool (files t)" t] by (simp add: open_spool_def)
  have l: "listed (files (spool_write b s)) = listed (files s)" by (simp add: spool_write_def listed_write)
  have "spool_read (spool_write b s) m = spool_read s m" if "m \<in> set (listed (files s))" for m
  proof -
    have "m \<noteq> bundle_name (sp_seq s) @ ''.tmp''" using that tmp_not_bundle by (auto simp: listed_set)
    then show ?thesis by (simp add: spool_read_def spool_write_def map_of_put)
  qed
  then have "spool_contents (spool_write b s) = spool_contents s"
    by (simp add: spool_contents_def spool_list_listed l)
  moreover have "spool_contents (open_spool (files (spool_write b s))) = spool_contents (spool_write b s)"
    by (rule contents_files) (simp add: open_spool_def)
  ultimately show ?thesis
    using disk.contents_add [OF assms] disk.contents_head [OF assms(1)] ok' re [OF assms(1)] re [OF ok']
    by (simp add: disk_contents)
qed

definition empty_spool :: spool where
  "empty_spool = open_spool []"

lemma empty_spool_ok: "spool_ok empty_spool \<and> spool_room empty_spool"
  by (auto simp: empty_spool_def open_spool_def spool_ok_def spool_room_def intro: exI [of _ 1])

lemma spool_is_durable_queue_witness:
  "spool_contents (fst (spool_add [1, 2] empty_spool)) = spool_contents empty_spool @ [[1, 2]] \<and>
   spool_contents (open_spool (files (spool_write [1, 2] empty_spool))) = spool_contents empty_spool"
  using spool_is_durable_queue [of empty_spool "[1, 2]" "fst (spool_add [1, 2] empty_spool)" "snd (spool_add [1, 2] empty_spool)"]
    empty_spool_ok by simp

end
