(* ===== verification/Gateway.thy ===== *)
theory Gateway
  imports Spool CustodyBlock
begin

text \<open>
  The IP-DTN gateway of \<open>gateway/gateway.mjs\<close>: endpoint ids, the bundles it makes of one IP payload,
  the signed ingress receipt, the delivery of bundles with reassembly of fragments, and the sender
  that drains the spool through one session. Sockets, timers and listeners are effects and events.

  A fragment offset or total length that is not a CBOR integer is refused here; the code computes with
  whatever JavaScript value it is.
\<close>

section \<open>Endpoint ids\<close>

datatype scheme = Ipn | Dtn

definition dtn_match :: "string \<Rightarrow> (string \<times> string) option" where
  "dtn_match s =
     (let a = takeWhile (\<lambda>c. c \<noteq> CHR ''/'') (drop 6 s); r = dropWhile (\<lambda>c. c \<noteq> CHR ''/'') (drop 6 s) in
      if take 6 s = ''dtn://'' \<and> a \<noteq> [] \<and> r \<noteq> [] \<and> no_line_end (utf8 (drop 1 r)) then Some (a, drop 1 r) else None)"

definition parseEid :: "string \<Rightarrow> (scheme \<times> string \<times> string) res" where
  "parseEid e0 =
     (case ipn_match e0 of
        Some (n, s) \<Rightarrow> Inr (Ipn, n, s)
      | None \<Rightarrow> (case dtn_match e0 of
          Some (n, s) \<Rightarrow> Inr (Dtn, n, s)
        | None \<Rightarrow> Inl (''need an EID like ipn:2.1 or dtn://ground/telemetry, got '' @ e0)))"

definition parseIpn :: "string \<Rightarrow> (nat \<times> nat) res" where
  "parseIpn e0 = rbind (parseEid e0) (\<lambda>(sch, n, s).
     if sch \<noteq> Ipn then Inl (''need an ipn EID like ipn:2.1, got '' @ e0) else Inr (read_nat n, read_nat s))"

section \<open>Bundles of one IP payload\<close>

definition INGRESS_BLOCK_TYPE :: jsval where
  "INGRESS_BLOCK_TYPE = VNum 226"

definition DTN_EPOCH_MS :: int where
  "DTN_EPOCH_MS = 946684800000"

record ingress =
  i_payload :: bytes
  i_source :: string
  i_dest :: string
  i_lifetime :: jsval
  i_seq :: nat
  i_keypair :: "keypair option"
  i_gateway :: string
  i_from :: string
  i_now :: int
  i_max :: "nat option"

definition ingress_content :: "crypto \<Rightarrow> ingress \<Rightarrow> string \<Rightarrow> jsval" where
  "ingress_content C a at = VObj
     [(''kind'', VStr ''gateway-ingress/1''), (''gateway'', VStr (i_gateway a)), (''from'', VStr (i_from a)),
      (''source'', VStr (i_source a)), (''dest'', VStr (i_dest a)),
      (''payloadHash'', VStr (to_hex (sha256 C (i_payload a)))), (''payloadBytes'', VNum (int (length (i_payload a)))),
      (''receivedAt'', VStr at)]"

definition ingress_blocks :: "crypto \<Rightarrow> ingress \<Rightarrow> block list res" where
  "ingress_blocks C a =
     (case i_keypair a of
        None \<Rightarrow> Inr []
      | Some kp \<Rightarrow> rbind (toISOString (i_now a)) (\<lambda>at. rbind (signRecord C kp (ingress_content C a at)) (\<lambda>r.
          rbind (receipt_text r) (\<lambda>t. rbind (encode (VArr [t])) (\<lambda>data.
            Inr [\<lparr>b_type = INGRESS_BLOCK_TYPE, b_number = VNum 2, b_flags = REPLICATE_IN_FRAGMENTS, b_crcType = CRC32C,
                  b_data = data\<rparr>])))))"

definition bundle_of :: "ingress \<Rightarrow> block list \<Rightarrow> (nat \<times> nat) option \<Rightarrow> bytes \<Rightarrow> bpv7" where
  "bundle_of a extra frag part =
     \<lparr>bp_primary =
       \<lparr>p_flags = VNum (if frag = None then 0 else 1), p_crcType = CRC32C, p_dest = i_dest a, p_source = i_source a,
        p_reportTo = ''dtn:none'', p_created = (VNum (i_now a - DTN_EPOCH_MS), VNum (int (i_seq a))),
        p_lifetime = i_lifetime a,
        p_fragmentOffset = (case frag of Some (off, t) \<Rightarrow> VNum (int off) | None \<Rightarrow> VUndef),
        p_totalAduLength = (case frag of Some (off, t) \<Rightarrow> VNum (int t) | None \<Rightarrow> VUndef)\<rparr>,
      bp_blocks = extra @ [\<lparr>b_type = PAYLOAD, b_number = VNum 1, b_flags = VNum 0, b_crcType = CRC32C, b_data = part\<rparr>]\<rparr>"

text \<open>
  The loop over the fragments. It returns when the offset passes the end or when \<open>encodeBundle\<close> throws;
  \<open>None\<close> where it does neither, which is a maximum of 0 (the offset stays 0). The offset grows by at
  least 1 otherwise, so that a fuel of two more than the length is enough.
\<close>

fun fragment_loop :: "nat \<Rightarrow> (nat \<Rightarrow> bytes \<Rightarrow> bytes res) \<Rightarrow> nat \<Rightarrow> bytes \<Rightarrow> nat \<Rightarrow> bytes list res option" where
  "fragment_loop 0 enc mx p off = None"
| "fragment_loop (Suc n) enc mx p off =
     (if off = 0 \<or> off < length p then
        (case enc off (take mx (drop off p)) of
           Inl e \<Rightarrow> Some (Inl e)
         | Inr b \<Rightarrow> map_option (\<lambda>r. rbind r (\<lambda>bs. Inr (b # bs))) (fragment_loop n enc mx p (off + mx)))
      else Some (Inr []))"

definition makeBundles :: "crypto \<Rightarrow> ingress \<Rightarrow> bytes list res option" where
  "makeBundles C a =
     (case ingress_blocks C a of
        Inl e \<Rightarrow> Some (Inl e)
      | Inr extra \<Rightarrow>
          let p = i_payload a; whole = Some (rbind (encodeBundle (bundle_of a extra None p)) (\<lambda>b. Inr [b])) in
          (case i_max a of
             None \<Rightarrow> whole
           | Some mx \<Rightarrow>
               if \<not> mx < length p then whole
               else fragment_loop (length p + 2) (\<lambda>off part. encodeBundle (bundle_of a extra (Some (off, length p)) part)) mx p 0))"

definition makeBundle :: "crypto \<Rightarrow> ingress \<Rightarrow> bytes res" where
  "makeBundle C a = (case makeBundles C (a\<lparr>i_max := None\<rparr>) of Some (Inr (b # _)) \<Rightarrow> Inr b | Some (Inl e) \<Rightarrow> Inl e | _ \<Rightarrow> Inl ''undefined'')"

section \<open>The ingress receipt\<close>

datatype ingress_verdict = IngressOk jsval | IngressBad string

text \<open>\<open>JSON.parse(decode(data)[0])\<close>: the argument is turned into a string first.\<close>

definition ingress_receipt :: "bytes \<Rightarrow> jsval res" where
  "ingress_receipt data = rbind (decode data) (\<lambda>v. rbind (js_index v 0) (\<lambda>t. json_parse (js_String t)))"

definition verifyIngress :: "crypto \<Rightarrow> bpv7 \<Rightarrow> (string \<times> string) list option \<Rightarrow> ingress_verdict res" where
  "verifyIngress C b pinned =
     (case find (\<lambda>x. strict_eq (b_type x) INGRESS_BLOCK_TYPE) (bp_blocks b) of
        None \<Rightarrow> Inr (IngressBad ''no_ingress_receipt'')
      | Some x \<Rightarrow> (case ingress_receipt (b_data x) of
          Inl e \<Rightarrow> Inr (IngressBad ''ingress_block_malformed'')
        | Inr r \<Rightarrow> rbind (verifyRecord C r) (\<lambda>v. case v of
            Refuse reason \<Rightarrow> Inr (IngressBad reason)
          | Accept signer \<Rightarrow>
              if (case pinned of Some keys \<Rightarrow> \<not> signer_pinned keys (field r ''gateway'') signer | None \<Rightarrow> False)
                then Inr (IngressBad ''gateway_key_not_pinned'')
              else rbind (payloadOf b) (\<lambda>p.
                if \<not> strict_eq (field r ''payloadHash'') (VStr (to_hex (sha256 C p))) then Inr (IngressBad ''payload_changed'')
                else Inr (IngressOk r)))))"

section \<open>State of the gateway\<close>

record partial =
  e_total :: int
  e_parts :: "(int \<times> bytes) list"
  e_first :: "bpv7 option"
  e_bytes :: nat
  e_at :: int

record stats =
  st_fromIp :: nat
  st_toDtn :: nat
  st_fromDtn :: nat
  st_toIp :: nat
  st_rejected :: nat
  st_fragmentsIn :: nat
  st_reassembled :: nat

datatype cl = Cl4 | Cl3

datatype geffect =
    Log string
  | DeliveredTo string string bytes "ingress_verdict option"
  | UdpSend bytes nat string
  | Queued string
  | Connected
  | Disconnected
  | SentName string
  | Connect cl
  | SendBundle bytes
  | SessionTeardown string
  | SessionClose
  | Timer nat

datatype pump = POff | PConnecting | PSending string | PWaiting | PBackoff | PStopped

record gconfig =
  g_nodeId :: "string option"
  g_node :: string
  g_lifetimeMs :: int
  g_retryMs :: nat
  g_maxRetryMs :: nat
  g_maxBundlePayload :: "nat option"
  g_maxReassemblyBytes :: nat
  g_keypair :: "keypair option"
  g_pinned :: "(string \<times> string) list option"
  g_requireIngress :: bool
  g_egress :: "(string \<times> string option) list"
  g_hasPeer :: bool
  g_peerCl :: string
  g_requireTls :: bool

record gateway =
  gw_cfg :: gconfig
  gw_scheme :: scheme
  gw_name :: string
  gw_id :: string
  gw_partial :: "(string \<times> partial) list"
  gw_partialBytes :: nat
  gw_spool :: spool
  gw_seq :: nat
  gw_session :: bool
  gw_backoff :: nat
  gw_pump :: pump
  gw_stopped :: bool
  gw_stats :: stats
  gw_out :: "geffect list"

definition node_id_of :: "scheme \<Rightarrow> string \<Rightarrow> string" where
  "node_id_of sch n = (if sch = Ipn then ''ipn:'' @ n @ ''.0'' else ''dtn://'' @ n @ ''/'')"

definition new_gateway :: "gconfig \<Rightarrow> (string \<times> bytes) list \<Rightarrow> gateway res" where
  "new_gateway cfg dir =
     rbind (case g_nodeId cfg of
         Some e \<Rightarrow> rbind (parseEid e) (\<lambda>(sch, n, s). Inr (sch, n))
       | None \<Rightarrow> Inr (Ipn, g_node cfg)) (\<lambda>(sch, n).
     Inr \<lparr>gw_cfg = cfg, gw_scheme = sch, gw_name = n, gw_id = node_id_of sch n, gw_partial = [], gw_partialBytes = 0,
       gw_spool = open_spool dir, gw_seq = 0, gw_session = False, gw_backoff = g_retryMs cfg, gw_pump = POff,
       gw_stopped = False, gw_stats = \<lparr>st_fromIp = 0, st_toDtn = 0, st_fromDtn = 0, st_toIp = 0, st_rejected = 0,
       st_fragmentsIn = 0, st_reassembled = 0\<rparr>, gw_out = []\<rparr>)"

definition gemit :: "geffect \<Rightarrow> gateway \<Rightarrow> gateway" where
  "gemit e g = g\<lparr>gw_out := gw_out g @ [e]\<rparr>"

definition upd_stats :: "(stats \<Rightarrow> stats) \<Rightarrow> gateway \<Rightarrow> gateway" where
  "upd_stats f g = g\<lparr>gw_stats := f (gw_stats g)\<rparr>"

definition count_rejected :: "gateway \<Rightarrow> gateway" where
  "count_rejected = upd_stats (\<lambda>s. s\<lparr>st_rejected := st_rejected s + 1\<rparr>)"

definition sourceEid :: "gateway \<Rightarrow> string option \<Rightarrow> string" where
  "sourceEid g service =
     (if gw_scheme g = Ipn then ''ipn:'' @ gw_name g @ ''.'' @ (case service of Some s \<Rightarrow> s | None \<Rightarrow> ''1'')
      else ''dtn://'' @ gw_name g @ ''/'' @ (case service of Some s \<Rightarrow> s | None \<Rightarrow> ''gateway''))"

definition localService :: "gateway \<Rightarrow> string \<Rightarrow> string option" where
  "localService g dest =
     (case parseEid dest of
        Inl e \<Rightarrow> None
      | Inr (sch, n, s) \<Rightarrow> if sch = gw_scheme g \<and> n = gw_name g then Some s else None)"

section \<open>Reassembly\<close>

definition cbor_int :: "jsval \<Rightarrow> int option" where
  "cbor_int v = (case v of VNum n \<Rightarrow> Some n | VBig n \<Rightarrow> Some n | _ \<Rightarrow> None)"

text \<open>Offset and total length of a fragment, checked; a BigInt offset cannot be added to a number.\<close>

definition fragment_range :: "primary \<Rightarrow> bytes \<Rightarrow> (int \<times> int) res" where
  "fragment_range p part =
     (case cbor_int (p_totalAduLength p) of
        None \<Rightarrow> Inl ''fragment outside its total length''
      | Some t \<Rightarrow>
          if \<not> 0 < t then Inl ''fragment outside its total length''
          else (case p_fragmentOffset p of
              VNum off \<Rightarrow> if t < off + int (length part) then Inl ''fragment outside its total length'' else Inr (off, t)
            | VBig off \<Rightarrow> Inl ''Cannot mix BigInt and other types''
            | _ \<Rightarrow> Inl ''fragment outside its total length''))"

definition fragment_key :: "primary \<Rightarrow> string" where
  "fragment_key p = p_source p @ ''|'' @ js_String (fst (p_created p)) @ ''|'' @ js_String (snd (p_created p))"

definition expire :: "int \<Rightarrow> gateway \<Rightarrow> gateway" where
  "expire now g =
     (let stale = (\<lambda>e. g_lifetimeMs (gw_cfg g) < now - e_at e) in
      g\<lparr>gw_partial := filter (\<lambda>ke. \<not> stale (snd ke)) (gw_partial g),
        gw_partialBytes := gw_partialBytes g - sum_list (map (\<lambda>ke. e_bytes (snd ke)) (filter (\<lambda>ke. stale (snd ke)) (gw_partial g)))\<rparr>)"

definition put_partial :: "string \<Rightarrow> partial \<Rightarrow> gateway \<Rightarrow> gateway" where
  "put_partial k e g = g\<lparr>gw_partial := set_field k e (gw_partial g)\<rparr>"

fun covered :: "int \<Rightarrow> (int \<times> bytes) list \<Rightarrow> int option" where
  "covered end [] = Some end"
| "covered end ((off, p) # r) = (if end < off then None else covered (max end (off + int (length p))) r)"

text \<open>\<open>part.copy(whole, o)\<close>, which throws at a negative target.\<close>

definition blit :: "bytes \<Rightarrow> int \<Rightarrow> bytes \<Rightarrow> bytes res" where
  "blit part off whole =
     (if off < 0 then Inl ''The value of targetStart is out of range''
      else let n = nat off; k = min (length part) (length whole - n) in
        Inr (take n whole @ take k part @ drop (n + k) whole))"

fun blit_all :: "(int \<times> bytes) list \<Rightarrow> bytes \<Rightarrow> bytes res" where
  "blit_all [] whole = Inr whole"
| "blit_all ((off, p) # r) whole = rbind (blit p off whole) (blit_all r)"

definition clear_fragment :: "jsval \<Rightarrow> jsval" where
  "clear_fragment v = (case v of VNum n \<Rightarrow> VNum (n - n mod 2) | v \<Rightarrow> v)"

definition whole_bundle :: "bpv7 \<Rightarrow> bytes \<Rightarrow> bpv7" where
  "whole_bundle first whole =
     \<lparr>bp_primary = (bp_primary first)\<lparr>p_flags := clear_fragment (p_flags (bp_primary first)),
        p_fragmentOffset := VUndef, p_totalAduLength := VUndef\<rparr>,
      bp_blocks = map (\<lambda>b. if strict_eq (b_type b) PAYLOAD then b\<lparr>b_data := whole\<rparr> else b) (bp_blocks first)\<rparr>"

text \<open>What follows once the fragment is stored in its set.\<close>

definition try_complete :: "string \<Rightarrow> partial \<Rightarrow> gateway \<Rightarrow> gateway \<times> (bpv7 option) res" where
  "try_complete k e g =
     (let offs = sort_key fst (e_parts e) in
      case (covered 0 offs, e_first e) of
        (Some end, Some first) \<Rightarrow>
          if end < e_total e then (g, Inr None)
          else (case blit_all offs (replicate (nat (e_total e)) 0) of
              Inl err \<Rightarrow> (g, Inl err)
            | Inr whole \<Rightarrow>
                (upd_stats (\<lambda>s. s\<lparr>st_reassembled := st_reassembled s + 1\<rparr>)
                   (g\<lparr>gw_partial := filter (\<lambda>ke. fst ke \<noteq> k) (gw_partial g), gw_partialBytes := gw_partialBytes g - e_bytes e\<rparr>),
                 Inr (Some (whole_bundle first whole))))
      | _ \<Rightarrow> (g, Inr None))"

definition store_part :: "int \<Rightarrow> bytes \<Rightarrow> partial \<Rightarrow> partial" where
  "store_part off part e = (if off \<in> fst ` set (e_parts e) then e
     else e\<lparr>e_parts := e_parts e @ [(off, part)], e_bytes := e_bytes e + length part\<rparr>)"

definition add_fragment :: "int \<Rightarrow> bpv7 \<Rightarrow> bytes \<Rightarrow> int \<Rightarrow> int \<Rightarrow> gateway \<Rightarrow> gateway \<times> (bpv7 option) res" where
  "add_fragment now b part off t g =
     (let k = fragment_key (bp_primary b);
          e = (case map_of (gw_partial g) k of Some e \<Rightarrow> e
               | None \<Rightarrow> \<lparr>e_total = t, e_parts = [], e_first = None, e_bytes = 0, e_at = now\<rparr>);
          g1 = put_partial k e g in
      if e_total e \<noteq> t then (g1, Inl ''fragments disagree on the total length'')
      else if off \<notin> fst ` set (e_parts e) \<and> g_maxReassemblyBytes (gw_cfg g) < gw_partialBytes g1 + length part then
        (g1, Inl ''reassembly buffer full'')
      else
        let e1 = store_part off part e; e2 = (if off = 0 then e1\<lparr>e_first := Some b\<rparr> else e1);
            g2 = put_partial k e2 (g1\<lparr>gw_partialBytes := gw_partialBytes g1 + (e_bytes e1 - e_bytes e)\<rparr>);
            g3 = upd_stats (\<lambda>s. s\<lparr>st_fragmentsIn := st_fragmentsIn s + 1\<rparr>) g2
        in try_complete k e2 g3)"

definition reassemble_bundle :: "int \<Rightarrow> bpv7 \<Rightarrow> gateway \<Rightarrow> gateway \<times> (bpv7 option) res" where
  "reassemble_bundle now b g =
     (case fragment_bit (p_flags (bp_primary b)) of
        Inl e \<Rightarrow> (g, Inl e)
      | Inr False \<Rightarrow> (g, Inr (Some b))
      | Inr True \<Rightarrow> (case payloadOf b of
          Inl e \<Rightarrow> (g, Inl e)
        | Inr part \<Rightarrow> (case fragment_range (bp_primary b) part of
            Inl e \<Rightarrow> (g, Inl e)
          | Inr (off, t) \<Rightarrow> add_fragment now b part off t (expire now g))))"

section \<open>DTN to IP\<close>

primrec split_colon :: "string \<Rightarrow> string list" where
  "split_colon [] = [[]]"
| "split_colon (c # s) =
     (if c = CHR '':'' then [] # split_colon s
      else (case split_colon s of a # r \<Rightarrow> (c # a) # r | [] \<Rightarrow> [[c]]))"

text \<open>\<open>this._egress.send(payload, Number(p), h)\<close>, which throws on a port that is not in 1 .. 65535.\<close>

definition udp_send :: "bytes \<Rightarrow> string \<Rightarrow> gateway \<Rightarrow> gateway res" where
  "udp_send payload target g =
     (let hp = split_colon target; port = (case drop 1 hp of p # _ \<Rightarrow> string_to_number p | [] \<Rightarrow> None) in
      case port of
        None \<Rightarrow> Inl ''Port should be > 0 and < 65536''
      | Some n \<Rightarrow> if n < 1 \<or> 65535 < n then Inl ''Port should be > 0 and < 65536''
          else Inr (upd_stats (\<lambda>s. s\<lparr>st_toIp := st_toIp s + 1\<rparr>) (gemit (UdpSend payload (nat n) (hd hp)) g)))"

definition ingress_reason :: "ingress_verdict option \<Rightarrow> string" where
  "ingress_reason v = (case v of Some (IngressBad r) \<Rightarrow> r | Some (IngressOk r) \<Rightarrow> ''undefined'' | None \<Rightarrow> ''missing'')"

definition hand_over :: "string \<Rightarrow> bpv7 \<Rightarrow> ingress_verdict option \<Rightarrow> bytes \<Rightarrow> gateway \<Rightarrow> gateway res" where
  "hand_over service b ingress payload g =
     (let g1 = gemit (DeliveredTo (p_source (bp_primary b)) (p_dest (bp_primary b)) payload ingress) g in
      case map_of (g_egress (gw_cfg g)) service of
        Some (Some target) \<Rightarrow> if target = [] then Inr g1 else udp_send payload target g1
      | _ \<Rightarrow> Inr g1)"

definition deliver :: "crypto \<Rightarrow> string \<Rightarrow> bpv7 \<Rightarrow> gateway \<Rightarrow> gateway res" where
  "deliver C service b g0 =
     (let g = upd_stats (\<lambda>s. s\<lparr>st_fromDtn := st_fromDtn s + 1\<rparr>) g0 in
      rbind (if \<exists>x \<in> set (bp_blocks b). strict_eq (b_type x) INGRESS_BLOCK_TYPE
             then rbind (verifyIngress C b (g_pinned (gw_cfg g))) (\<lambda>v. Inr (Some v)) else Inr None) (\<lambda>ingress.
      if g_requireIngress (gw_cfg g) \<and> \<not> (case ingress of Some (IngressOk r) \<Rightarrow> True | _ \<Rightarrow> False)
        then Inr (gemit (Log (''dropped bundle from '' @ p_source (bp_primary b) @ '': ingress receipt '' @ ingress_reason ingress)) (count_rejected g))
      else rbind (payloadOf b) (\<lambda>payload. hand_over service b ingress payload g)))"

definition fromDtn :: "crypto \<Rightarrow> int \<Rightarrow> bytes \<Rightarrow> string \<Rightarrow> gateway \<Rightarrow> gateway res" where
  "fromDtn C now bytes peer g =
     (case decodeBundle bytes of
        Inl e \<Rightarrow> Inr (gemit (Log (''dropped malformed bundle from '' @ peer @ '': '' @ e)) (count_rejected g))
      | Inr b \<Rightarrow> (case localService g (p_dest (bp_primary b)) of
          None \<Rightarrow> Inr (gemit (Log (''dropped bundle for '' @ p_dest (bp_primary b) @ '': not this node'')) (count_rejected g))
        | Some service \<Rightarrow> (case reassemble_bundle now b g of
            (g1, Inl e) \<Rightarrow> Inr (gemit (Log (''dropped fragment from '' @ p_source (bp_primary b) @ '': '' @ e)) (count_rejected g1))
          | (g1, Inr None) \<Rightarrow> Inr g1
          | (g1, Inr (Some whole)) \<Rightarrow> deliver C service whole g1)))"

section \<open>The sender\<close>

text \<open>
  \<open>_pump\<close> as a state machine: each state is an \<open>await\<close> of the loop. An empty or absent layer name is
  the default. What the exported layers do with the socket is the sessions' own model.
\<close>

definition clFor :: "string \<Rightarrow> bool \<Rightarrow> cl res" where
  "clFor name requireTls =
     (let v = (if name = [] then ''tcpclv4'' else name) in
      if v = ''tcpclv4'' then Inr Cl4
      else if v = ''tcpclv3'' then
        (if requireTls then Inl ''TLS is required but TCPCLv3 has no TLS: use tcpclv4 for this link, or a VPN'' else Inr Cl3)
      else Inl (''unknown convergence layer '' @ name))"

definition pump_catch :: "string \<Rightarrow> gateway \<Rightarrow> gateway" where
  "pump_catch e g =
     (if gw_stopped g then g\<lparr>gw_pump := PStopped\<rparr>
      else
        let g1 = gemit (Log (''DTN link: '' @ e @ ''; retry in '' @ show_nat (gw_backoff g) @ '' ms'')) g;
            g2 = (if gw_session g1 then gemit (SessionTeardown e) g1 else g1)
        in gemit (Timer (gw_backoff g)) (g2\<lparr>gw_session := False, gw_pump := PBackoff\<rparr>))"

definition pump_next :: "gateway \<Rightarrow> gateway" where
  "pump_next g =
     (case spool_list (gw_spool g) of
        [] \<Rightarrow> g\<lparr>gw_pump := PWaiting\<rparr>
      | name # _ \<Rightarrow> (case spool_read (gw_spool g) name of
          Some b \<Rightarrow> gemit (SendBundle b) (g\<lparr>gw_pump := PSending name\<rparr>)
        | None \<Rightarrow> pump_catch ''ENOENT'' g))"

definition pump_top :: "gateway \<Rightarrow> gateway" where
  "pump_top g =
     (if gw_stopped g then g\<lparr>gw_pump := PStopped\<rparr>
      else if gw_session g then pump_next g
      else (case clFor (g_peerCl (gw_cfg g)) (g_requireTls (gw_cfg g)) of
          Inl e \<Rightarrow> pump_catch e g
        | Inr c \<Rightarrow> gemit (Connect c) (g\<lparr>gw_pump := PConnecting\<rparr>)))"

definition kick :: "gateway \<Rightarrow> gateway" where
  "kick g = (if gw_pump g = PWaiting then pump_top g else g)"

definition pump_connected :: "string \<Rightarrow> gateway \<Rightarrow> gateway" where
  "pump_connected peer g =
     (if gw_pump g = PConnecting then
        pump_next (gemit Connected (gemit (Log (''DTN session up with '' @ peer)) (g\<lparr>gw_session := True, gw_backoff := g_retryMs (gw_cfg g)\<rparr>)))
      else g)"

definition pump_sent :: "gateway \<Rightarrow> gateway" where
  "pump_sent g =
     (case gw_pump g of
        PSending name \<Rightarrow>
          pump_top (gemit (SentName name) (upd_stats (\<lambda>s. s\<lparr>st_toDtn := st_toDtn s + 1\<rparr>)
            (g\<lparr>gw_spool := spool_done name (gw_spool g)\<rparr>)))
      | _ \<Rightarrow> g)"

definition pump_failed :: "string \<Rightarrow> gateway \<Rightarrow> gateway" where
  "pump_failed e g = (case gw_pump g of PSending name \<Rightarrow> pump_catch e g | PConnecting \<Rightarrow> pump_catch e g | _ \<Rightarrow> g)"

definition pump_timer :: "gateway \<Rightarrow> gateway" where
  "pump_timer g =
     (if gw_pump g = PBackoff then pump_top (g\<lparr>gw_backoff := min (gw_backoff g * 2) (g_maxRetryMs (gw_cfg g))\<rparr>) else g)"

definition session_closed :: "gateway \<Rightarrow> gateway" where
  "session_closed g = kick (gemit Disconnected (g\<lparr>gw_session := False\<rparr>))"

definition start_pump :: "gateway \<Rightarrow> gateway" where
  "start_pump g = (if g_hasPeer (gw_cfg g) \<and> gw_pump g = POff then pump_top (g\<lparr>gw_backoff := g_retryMs (gw_cfg g)\<rparr>) else g)"

definition stop_gateway :: "gateway \<Rightarrow> gateway" where
  "stop_gateway g = (let g1 = kick (g\<lparr>gw_stopped := True\<rparr>) in if gw_session g1 then gemit SessionClose g1 else g1)"

section \<open>IP to DTN\<close>

definition spool_add_all :: "bytes list \<Rightarrow> spool \<Rightarrow> spool \<times> string list" where
  "spool_add_all bs s = fold (\<lambda>b (s, ids). let (s', n) = spool_add b s in (s', ids @ [n])) bs (s, [])"

definition ingress_of :: "int \<Rightarrow> bytes \<Rightarrow> string \<Rightarrow> string \<Rightarrow> string option \<Rightarrow> gateway \<Rightarrow> ingress" where
  "ingress_of now payload dest from_ip service g =
     \<lparr>i_payload = payload, i_source = sourceEid g service, i_dest = dest, i_lifetime = VNum (g_lifetimeMs (gw_cfg g)),
      i_seq = gw_seq g, i_keypair = g_keypair (gw_cfg g), i_gateway = gw_id g, i_from = from_ip, i_now = now,
      i_max = g_maxBundlePayload (gw_cfg g)\<rparr>"

text \<open>The new state with the names, or the exception; \<open>None\<close> when \<open>makeBundles\<close> does not return.\<close>

definition fromIp :: "crypto \<Rightarrow> int \<Rightarrow> bytes \<Rightarrow> string \<Rightarrow> string \<Rightarrow> string option \<Rightarrow> gateway \<Rightarrow> (gateway \<times> string list res) option" where
  "fromIp C now payload dest from_ip service g =
     (let a = ingress_of now payload dest from_ip service g; g1 = g\<lparr>gw_seq := gw_seq g + 1\<rparr> in
      case makeBundles C a of
        None \<Rightarrow> None
      | Some (Inl e) \<Rightarrow> Some (g1, Inl e)
      | Some (Inr bs) \<Rightarrow>
          let (s, ids) = spool_add_all bs (gw_spool g1) in
          Some (kick (gemit (Queued (hd ids)) (upd_stats (\<lambda>st. st\<lparr>st_fromIp := st_fromIp st + 1\<rparr>) (g1\<lparr>gw_spool := s\<rparr>))), Inr ids))"

text \<open>A UDP ingress: its allowed sources, its destination, and the service or source it stands for.\<close>

record udp_in =
  u_allowed :: "string list option"
  u_dest :: string
  u_service :: "string option"
  u_source :: "string option"

definition udp_message :: "crypto \<Rightarrow> int \<Rightarrow> udp_in \<Rightarrow> bytes \<Rightarrow> string \<Rightarrow> nat \<Rightarrow> gateway \<Rightarrow> (gateway \<times> string list res) option" where
  "udp_message C now u msg address port g =
     (if (case u_allowed u of Some as \<Rightarrow> address \<notin> set as | None \<Rightarrow> False) then Some (count_rejected g, Inr [])
      else fromIp C now msg (u_dest u) (''udp:'' @ address @ '':'' @ show_nat port)
        (case u_service u of Some s \<Rightarrow> Some s | None \<Rightarrow> u_source u) g)"

section \<open>The HTTP ingress\<close>

text \<open>A request as node's parser and \<open>URL\<close> give it; the body is the list of its pieces.\<close>

record http_request =
  h_method :: string
  h_path :: string
  h_auth :: "string option"
  h_dest :: "string option"
  h_service :: "string option"
  h_body :: "bytes list"
  h_remote :: string

record http_config =
  h_token :: string
  h_maxBytes :: nat

datatype http_reply = Reply nat string

definition stats_json :: "stats \<Rightarrow> jsval" where
  "stats_json s = VObj [(''fromIp'', VNum (int (st_fromIp s))), (''toDtn'', VNum (int (st_toDtn s))),
     (''fromDtn'', VNum (int (st_fromDtn s))), (''toIp'', VNum (int (st_toIp s))), (''rejected'', VNum (int (st_rejected s))),
     (''fragmentsIn'', VNum (int (st_fragmentsIn s))), (''reassembled'', VNum (int (st_reassembled s)))]"

definition status_json :: "gateway \<Rightarrow> jsval" where
  "status_json g = VObj [(''node'', VStr (gw_id g)), (''connected'', VBool (gw_session g)),
     (''waiting'', VNum (int (spool_size (gw_spool g)))), (''stats'', stats_json (gw_stats g))]"

definition reply_json :: "nat \<Rightarrow> jsval \<Rightarrow> http_reply" where
  "reply_json code v = (case stringify v of Inr (Some s) \<Rightarrow> Reply code s | _ \<Rightarrow> Reply 0 [])"

text \<open>\<open>None\<close> as soon as the running size is over the limit; later pieces never come.\<close>

fun http_body :: "nat \<Rightarrow> nat \<Rightarrow> bytes \<Rightarrow> bytes list \<Rightarrow> bytes option" where
  "http_body mx sz acc [] = Some acc"
| "http_body mx sz acc (c # cs) = (if mx < sz + length c then None else http_body mx (sz + length c) (acc @ c) cs)"

definition ids_json :: "string list \<Rightarrow> jsval" where
  "ids_json ids = (case ids of [i] \<Rightarrow> VStr i | _ \<Rightarrow> VArr (map VStr ids))"

definition http_post :: "crypto \<Rightarrow> int \<Rightarrow> http_config \<Rightarrow> http_request \<Rightarrow> gateway \<Rightarrow> (gateway \<times> http_reply res) option" where
  "http_post C now h r g =
     (let dest = (case h_dest r of Some d \<Rightarrow> d | None \<Rightarrow> ''null''); mx = (if h_maxBytes h = 0 then 64 * 1024 * 1024 else h_maxBytes h) in
      case parseEid dest of
        Inl e \<Rightarrow> Some (g, Inr (Reply 400 e))
      | Inr _ \<Rightarrow> (case http_body mx 0 [] (h_body r) of
          None \<Rightarrow> Some (g, Inr (Reply 413 (''body over '' @ show_nat mx @ '' bytes'')))
        | Some body \<Rightarrow>
            map_option (\<lambda>(g1, res). (g1, rbind res (\<lambda>ids. Inr (reply_json 202 (VObj [(''queued'', ids_json ids), (''dest'', VStr dest)])))))
              (fromIp C now body dest (''http:'' @ h_remote r) (h_service r) g)))"

definition http_handler :: "crypto \<Rightarrow> int \<Rightarrow> http_config \<Rightarrow> http_request \<Rightarrow> gateway \<Rightarrow> (gateway \<times> http_reply res) option" where
  "http_handler C now h r g =
     (if h_token h \<noteq> [] \<and> h_auth r \<noteq> Some (''Bearer '' @ h_token h) then Some (g, Inr (Reply 401 ''bearer token required''))
      else if h_method r = ''GET'' \<and> h_path r = ''/status'' then Some (g, Inr (reply_json 200 (status_json g)))
      else if h_method r = ''POST'' \<and> h_path r = ''/bundles'' then http_post C now h r g
      else Some (g, Inr (Reply 404 [])))"

end
