(* ===== verification/GatewayQueue.thy ===== *)
theory GatewayQueue
  imports Gateway
begin

text \<open>
  The gateway's sender over a whole run: what \<open>fromIp\<close> accepts goes to the spool, and what the peer has
  acknowledged leaves it, in the same order. A run is a sequence of events; it ends when an event handler
  throws outside any \<open>try\<close> or does not return.
\<close>

datatype gevent =
    EvIp int bytes string string "string option"
  | EvDtn int bytes string
  | EvConnected string
  | EvFailed string
  | EvSent
  | EvTimer
  | EvClosed
  | EvStart
  | EvStop

fun gstep :: "crypto \<Rightarrow> gevent \<Rightarrow> gateway \<Rightarrow> gateway option" where
  "gstep C (EvIp now payload dest from_ip service) g =
     (case fromIp C now payload dest from_ip service g of Some (g', Inr ids) \<Rightarrow> Some g' | _ \<Rightarrow> None)"
| "gstep C (EvDtn now bytes peer) g = (case fromDtn C now bytes peer g of Inr g' \<Rightarrow> Some g' | Inl e \<Rightarrow> None)"
| "gstep C (EvConnected peer) g = Some (pump_connected peer g)"
| "gstep C (EvFailed e) g = Some (pump_failed e g)"
| "gstep C EvSent g = Some (pump_sent g)"
| "gstep C EvTimer g = Some (pump_timer g)"
| "gstep C EvClosed g = Some (session_closed g)"
| "gstep C EvStart g = Some (start_pump g)"
| "gstep C EvStop g = Some (stop_gateway g)"

text \<open>The bundles handed to a session so far, and what an event accepts and acknowledges.\<close>

definition sent_bundles :: "geffect list \<Rightarrow> bytes list" where
  "sent_bundles es = concat (map (\<lambda>e. case e of SendBundle b \<Rightarrow> [b] | _ \<Rightarrow> []) es)"

fun accepted :: "crypto \<Rightarrow> gevent \<Rightarrow> gateway \<Rightarrow> bytes list" where
  "accepted C (EvIp now payload dest from_ip service) g =
     (case makeBundles C (ingress_of now payload dest from_ip service g) of Some (Inr bs) \<Rightarrow> bs | _ \<Rightarrow> [])"
| "accepted C _ g = []"

fun acked :: "gevent \<Rightarrow> gateway \<Rightarrow> bytes list" where
  "acked EvSent g = (case gw_pump g of PSending name \<Rightarrow> [last (sent_bundles (gw_out g))] | _ \<Rightarrow> [])"
| "acked _ g = []"

inductive run :: "crypto \<Rightarrow> gateway \<Rightarrow> bytes list \<Rightarrow> bytes list \<Rightarrow> gateway \<Rightarrow> bool" for C g0 where
  run_start: "run C g0 [] [] g0"
| run_step: "run C g0 acc ack g \<Longrightarrow> gstep C e g = Some g' \<Longrightarrow> run C g0 (acc @ accepted C e g) (ack @ acked e g) g'"

inductive_cases run_stepE: "run C g0 acc ack g"

section \<open>The sender holds the head of the queue\<close>

definition head_held :: "gateway \<Rightarrow> bool" where
  "head_held g \<longleftrightarrow> (\<forall>name. gw_pump g = PSending name \<longrightarrow>
     (\<exists>ns b. spool_list (gw_spool g) = name # ns \<and> spool_read (gw_spool g) name = Some b \<and>
       sent_bundles (gw_out g) \<noteq> [] \<and> last (sent_bundles (gw_out g)) = b))"

definition sender_ok :: "gateway \<Rightarrow> bool" where
  "sender_ok g \<longleftrightarrow> spool_ok (gw_spool g) \<and> head_held g"

lemma sent_bundles_simps [simp]:
  "sent_bundles [] = []" "sent_bundles (xs @ ys) = sent_bundles xs @ sent_bundles ys"
  "sent_bundles (SendBundle b # es) = b # sent_bundles es" "sent_bundles (Log m # es) = sent_bundles es"
  "sent_bundles (DeliveredTo a c p v # es) = sent_bundles es" "sent_bundles (UdpSend p port host # es) = sent_bundles es"
  "sent_bundles (Queued n # es) = sent_bundles es" "sent_bundles (Connected # es) = sent_bundles es"
  "sent_bundles (Disconnected # es) = sent_bundles es" "sent_bundles (SentName n # es) = sent_bundles es"
  "sent_bundles (Connect layer # es) = sent_bundles es" "sent_bundles (SessionTeardown m # es) = sent_bundles es"
  "sent_bundles (SessionClose # es) = sent_bundles es" "sent_bundles (Timer k # es) = sent_bundles es"
  by (simp_all add: sent_bundles_def)

named_theorems gw

lemmas gw_updates [gw] = gemit_def upd_stats_def count_rejected_def

lemma not_sending: "\<forall>n. gw_pump g \<noteq> PSending n \<Longrightarrow> head_held g"
  by (simp add: head_held_def)

lemma pump_catch_frame [simp]:
  "gw_spool (pump_catch e g) = gw_spool g" "head_held (pump_catch e g)" "gw_cfg (pump_catch e g) = gw_cfg g"
  by (simp_all add: pump_catch_def Let_def head_held_def gw)

lemma pump_next_spool [simp]: "gw_spool (pump_next g) = gw_spool g"
  by (simp add: pump_next_def gw split: list.split option.split)

lemma pump_next_held: "head_held (pump_next g)"
  by (auto simp: pump_next_def gw head_held_def pump_catch_def Let_def split: list.splits option.splits if_splits)

lemma pump_top_spool [simp]: "gw_spool (pump_top g) = gw_spool g"
  by (simp add: pump_top_def gw split: sum.split)

lemma pump_top_held: "head_held (pump_top g)"
  by (simp add: pump_top_def pump_next_held split: sum.split) (simp add: head_held_def gw)

lemma kick_spool [simp]: "gw_spool (kick g) = gw_spool g"
  by (simp add: kick_def)

lemma kick_held: "head_held g \<Longrightarrow> head_held (kick g)"
  by (simp add: kick_def pump_top_held)

text \<open>An update that touches neither the sender's state nor the spool, and sends no bundle.\<close>

definition same_sender :: "gateway \<Rightarrow> gateway \<Rightarrow> bool" where
  "same_sender g g' \<longleftrightarrow> gw_pump g' = gw_pump g \<and> gw_spool g' = gw_spool g \<and>
     sent_bundles (gw_out g') = sent_bundles (gw_out g)"

lemma same_sender_held: "same_sender g g' \<Longrightarrow> head_held g \<Longrightarrow> head_held g'"
  by (simp add: same_sender_def head_held_def)

lemma held_updates [simp]:
  "head_held (g\<lparr>gw_session := v, gw_out := gw_out g @ [Disconnected]\<rparr>) = head_held g"
  "head_held (g\<lparr>gw_stopped := v\<rparr>) = head_held g" "head_held (g\<lparr>gw_out := gw_out g @ [SessionClose]\<rparr>) = head_held g"
  by (simp_all add: head_held_def)

lemma same_sender_refl [simp]: "same_sender g g"
  by (simp add: same_sender_def)

lemma same_sender_trans: "same_sender g g' \<Longrightarrow> same_sender g' g'' \<Longrightarrow> same_sender g g''"
  by (simp add: same_sender_def)

section \<open>Delivery leaves the sender alone\<close>

lemma try_complete_sender: "same_sender g (fst (try_complete k e g))"
  by (auto simp: try_complete_def same_sender_def Let_def gw split: option.split sum.split)

lemma add_fragment_sender: "same_sender g (fst (add_fragment now b part off t g))"
proof -
  have "same_sender g (put_partial k e g)" for k e g by (simp add: same_sender_def put_partial_def)
  moreover have "same_sender g (upd_stats f (put_partial k e (g1\<lparr>gw_partialBytes := n\<rparr>)))" if "same_sender g g1" for f k e g g1 n
    using that by (simp add: same_sender_def put_partial_def gw)
  ultimately show ?thesis unfolding add_fragment_def Let_def
    by (auto intro: same_sender_trans [OF _ try_complete_sender])
qed

lemma reassemble_sender: "same_sender g (fst (reassemble_bundle now b g))"
proof -
  have "same_sender g (expire now g)" by (simp add: same_sender_def expire_def Let_def)
  then show ?thesis
    by (auto simp: reassemble_bundle_def intro: same_sender_trans [OF _ add_fragment_sender] split: sum.split bool.split)
qed

lemma udp_send_sender: "udp_send payload target g = Inr g' \<Longrightarrow> same_sender g g'"
  by (auto simp: udp_send_def same_sender_def Let_def gw split: option.splits if_splits)

lemma hand_over_sender: "hand_over service b ingress payload g = Inr g' \<Longrightarrow> same_sender g g'"
proof -
  assume a: "hand_over service b ingress payload g = Inr g'"
  have d: "same_sender g (gemit (DeliveredTo s d p i) g)" for s d p i by (simp add: same_sender_def gw)
  from d have "udp_send payload target (gemit (DeliveredTo s c p i) g) = Inr g' \<Longrightarrow> same_sender g g'" for target s c p i
    by (blast intro: same_sender_trans udp_send_sender)
  with a d show ?thesis
    by (auto simp: hand_over_def Let_def split: option.splits if_splits)
qed

lemma deliver_sender: "deliver C service b g = Inr g' \<Longrightarrow> same_sender g g'"
proof -
  assume a: "deliver C service b g = Inr g'"
  have s: "same_sender g (upd_stats f g)" "same_sender g (gemit (Log m) (count_rejected (upd_stats f g)))" for f m
    by (simp_all add: same_sender_def gw)
  show ?thesis using a s(2)
    by (auto simp: deliver_def Let_def split: if_splits dest!: hand_over_sender intro: same_sender_trans [OF s(1)])
qed

lemma fromDtn_sender: "fromDtn C now bytes peer g = Inr g' \<Longrightarrow> same_sender g g'"
proof -
  assume a: "fromDtn C now bytes peer g = Inr g'"
  have l: "same_sender g (gemit (Log m) (count_rejected g))" for g m by (simp add: same_sender_def gw)
  show ?thesis
  proof (cases "decodeBundle bytes")
    case (Inl e)
    then show ?thesis using a l by (auto simp: fromDtn_def)
  next
    case (Inr b)
    obtain g1 r where r: "reassemble_bundle now b g = (g1, r)" by (cases "reassemble_bundle now b g")
    have s: "same_sender g g1" using reassemble_sender [of g now b] by (simp add: r)
    show ?thesis using a Inr r l s
      by (auto simp: fromDtn_def dest: deliver_sender intro: same_sender_trans split: option.splits sum.splits)
  qed
qed

section \<open>What \<open>fromIp\<close> accepts goes to the end of the queue\<close>

definition has_room :: "nat \<Rightarrow> spool \<Rightarrow> bool" where
  "has_room n s \<longleftrightarrow> (\<exists>k. sp_seq s = Some (int k) \<and> k + n \<le> 10 ^ 12)"

lemma has_room_Suc: "has_room (Suc n) s \<Longrightarrow> spool_room s"
  by (auto simp: has_room_def spool_room_def)

lemma spool_add_step:
  assumes "spool_ok s" "has_room (Suc n) s" "spool_add b s = (s', name)"
  shows "spool_ok s' \<and> has_room n s' \<and> spool_contents s' = spool_contents s @ [b] \<and>
    (\<forall>m ms. spool_list s = m # ms \<longrightarrow> (\<exists>ms'. spool_list s' = m # ms') \<and> spool_read s' m = spool_read s m)"
proof -
  note a = assms(1) has_room_Suc [OF assms(2)] assms(3)
  obtain k where "sp_seq s = Some (int k)" "sp_seq s' = Some (int (Suc k))"
    using spool_add_eq [OF a] by metis
  then have "has_room n s'" using assms(2) by (auto simp: has_room_def intro!: exI [of _ "Suc k"])
  then show ?thesis
    using disk.add_ok [OF a] disk.contents_add [OF a] disk.add_waiting [OF a] disk.add_keeps [OF a]
    by (auto simp: disk_contents)
qed

lemma spool_add_all_step:
  assumes "spool_ok s" "has_room (n + length bs) s" "spool_add_all bs s = (s', names)"
  shows "spool_ok s' \<and> has_room n s' \<and> spool_contents s' = spool_contents s @ bs \<and>
    (\<forall>m ms. spool_list s = m # ms \<longrightarrow> (\<exists>ms'. spool_list s' = m # ms') \<and> spool_read s' m = spool_read s m)"
proof -
  have "spool_ok s' \<and> has_room n s' \<and> spool_contents s' = spool_contents s @ bs \<and>
    (\<forall>m ms. spool_list s = m # ms \<longrightarrow> (\<exists>ms'. spool_list s' = m # ms') \<and> spool_read s' m = spool_read s m)"
    if "spool_ok s" "has_room (n + length bs) s" "fold (\<lambda>b (s, ids). let (s', n) = spool_add b s in (s', ids @ [n])) bs (s, ids) = (s', names)"
    for ids
    using that
  proof (induction bs arbitrary: s ids)
    case (Cons b bs)
    obtain s1 m where a: "spool_add b s = (s1, m)" by (cases "spool_add b s")
    have f: "fold (\<lambda>b (s, ids). let (s', n) = spool_add b s in (s', ids @ [n])) bs (s1, ids @ [m]) = (s', names)"
      using Cons.prems(3) a by simp
    have "has_room (Suc (n + length bs)) s" using Cons.prems(2) by simp
    from spool_add_step [OF Cons.prems(1) this a] Cons.IH [OF _ _ f] show ?case by fastforce
  qed simp
  then show ?thesis using assms by (simp add: spool_add_all_def)
qed

lemma fromIp_sender:
  assumes "sender_ok g" "has_room (n + length (accepted C (EvIp now payload dest from_ip service) g)) (gw_spool g)"
    "gstep C (EvIp now payload dest from_ip service) g = Some g'"
  shows "sender_ok g' \<and> has_room n (gw_spool g') \<and> spool_contents (gw_spool g') =
    spool_contents (gw_spool g) @ accepted C (EvIp now payload dest from_ip service) g"
proof -
  let ?a = "ingress_of now payload dest from_ip service g"
  obtain bs where bs: "makeBundles C ?a = Some (Inr bs)"
    using assms(3) by (auto simp: fromIp_def Let_def split: option.splits sum.splits)
  obtain s names where s: "spool_add_all bs (gw_spool g) = (s, names)" by (cases "spool_add_all bs (gw_spool g)")
  define g1 where "g1 = gemit (Queued (hd names)) (upd_stats (\<lambda>st. st\<lparr>st_fromIp := st_fromIp st + 1\<rparr>)
    (g\<lparr>gw_seq := gw_seq g + 1, gw_spool := s\<rparr>))"
  have g': "g' = kick g1" using assms(3) bs s by (simp add: fromIp_def Let_def g1_def)
  have acc: "accepted C (EvIp now payload dest from_ip service) g = bs" using bs by simp
  have st: "spool_ok s \<and> has_room n s \<and> spool_contents s = spool_contents (gw_spool g) @ bs \<and>
    (\<forall>m ms. spool_list (gw_spool g) = m # ms \<longrightarrow> (\<exists>ms'. spool_list s = m # ms') \<and> spool_read s m = spool_read (gw_spool g) m)"
    using spool_add_all_step [OF _ _ s] assms(1,2) unfolding acc sender_ok_def by blast
  have p: "gw_pump g1 = gw_pump g" "sent_bundles (gw_out g1) = sent_bundles (gw_out g)" "gw_spool g1 = s"
    by (simp_all add: g1_def gw)
  have "head_held g1" using assms(1) st p by (force simp: head_held_def sender_ok_def)
  then show ?thesis using st unfolding acc by (simp add: g' sender_ok_def kick_held p)
qed

section \<open>Every event\<close>

lemma pump_sent_step:
  assumes "sender_ok g"
  shows "sender_ok (pump_sent g) \<and> sp_seq (gw_spool (pump_sent g)) = sp_seq (gw_spool g) \<and>
    acked EvSent g @ spool_contents (gw_spool (pump_sent g)) = spool_contents (gw_spool g)"
proof (cases "\<exists>name. gw_pump g = PSending name")
  case True
  then obtain name ns b where n: "gw_pump g = PSending name" "spool_list (gw_spool g) = name # ns"
      "spool_read (gw_spool g) name = Some b" "last (sent_bundles (gw_out g)) = b"
    using assms by (auto simp: sender_ok_def head_held_def)
  have "spool_ok (gw_spool g)" using assms by (simp add: sender_ok_def)
  then have "spool_ok (spool_done name (gw_spool g))"
    "spool_contents (gw_spool g) = b # spool_contents (spool_done name (gw_spool g))"
    using disk.remove_ok disk.contents_head [OF _ n(2)] n(3) by (simp_all add: disk_contents)
  then show ?thesis using n by (simp add: pump_sent_def sender_ok_def pump_top_held) (simp add: gw spool_done_def)
next
  case False
  then show ?thesis using assms by (simp add: pump_sent_def split: pump.split)
qed

lemma sender_step:
  assumes "sender_ok g" "has_room (n + length (accepted C e g)) (gw_spool g)" "gstep C e g = Some g'"
  shows "sender_ok g' \<and> has_room n (gw_spool g') \<and>
    acked e g @ spool_contents (gw_spool g') = spool_contents (gw_spool g) @ accepted C e g"
proof (cases e)
  case (EvIp now payload dest from_ip service)
  then show ?thesis using fromIp_sender assms by (metis acked.simps(2) append_Nil)
next
  case (EvDtn now bytes peer)
  then have "same_sender g g'" using assms(3) by (auto split: sum.splits dest: fromDtn_sender)
  then show ?thesis using assms(1,2) EvDtn same_sender_held by (auto simp: sender_ok_def same_sender_def)
next
  case EvSent
  then show ?thesis using pump_sent_step [OF assms(1)] assms(2,3) by (auto simp: has_room_def)
qed (use assms in \<open>auto simp: sender_ok_def pump_connected_def pump_next_held pump_failed_def pump_timer_def pump_top_held
   session_closed_def start_pump_def stop_gateway_def Let_def gw intro!: kick_held split: pump.split\<close>)

lemma run_sender:
  assumes "run C g0 acc ack g" "sender_ok g0" "has_room (n + length acc) (gw_spool g0)"
  shows "sender_ok g \<and> has_room n (gw_spool g) \<and> ack @ spool_contents (gw_spool g) = spool_contents (gw_spool g0) @ acc"
  using assms
proof (induction arbitrary: n rule: run.induct)
  case (run_step acc ack g e g')
  have "has_room ((n + length (accepted C e g)) + length acc) (gw_spool g0)" using run_step.prems(2) by (simp add: ac_simps)
  from run_step.IH [OF run_step.prems(1) this]
  have g: "sender_ok g" "has_room (n + length (accepted C e g)) (gw_spool g)"
    "ack @ spool_contents (gw_spool g) = spool_contents (gw_spool g0) @ acc" by blast+
  from sender_step [OF g(1,2) run_step.hyps(2)]
  have g': "sender_ok g'" "has_room n (gw_spool g')"
    "acked e g @ spool_contents (gw_spool g') = spool_contents (gw_spool g) @ accepted C e g" by blast+
  have "(ack @ acked e g) @ spool_contents (gw_spool g') = ack @ spool_contents (gw_spool g) @ accepted C e g"
    by (simp only: append_assoc g'(3))
  also have "\<dots> = spool_contents (gw_spool g0) @ acc @ accepted C e g" by (simp only: g(3) flip: append_assoc)
  finally show ?case using g'(1,2) by blast
qed simp

text \<open>
  Property C36. However sends, acknowledgements, failures, lost sessions, timers and deliveries interleave,
  what the peer has acknowledged followed by what waits in the spool is exactly what was waiting at the
  start followed by everything \<open>fromIp\<close> accepted: no bundle is lost, repeated after its acknowledgement,
  or overtaken. A gateway that starts on the same directory finds the same queue.
\<close>

theorem sender_is_fifo:
  assumes "run C g0 acc ack g" "spool_ok (gw_spool g0)" "gw_pump g0 = POff" "has_room (length acc) (gw_spool g0)"
  shows "ack @ spool_contents (gw_spool g) = spool_contents (gw_spool g0) @ acc \<and>
    spool_contents (open_spool (files (gw_spool g))) = spool_contents (gw_spool g)"
proof -
  have "sender_ok g0" using assms(2,3) by (simp add: sender_ok_def head_held_def)
  from run_sender [OF assms(1) this, of 0] assms(4)
  have "ack @ spool_contents (gw_spool g) = spool_contents (gw_spool g0) @ acc" by (simp only: add_0)
  moreover have "spool_contents (open_spool (files (gw_spool g))) = spool_contents (gw_spool g)"
    by (rule contents_files) (simp add: open_spool_def)
  ultimately show ?thesis by (rule conjI)
qed

definition demo_config :: gconfig where
  "demo_config = \<lparr>g_nodeId = None, g_node = ''7'', g_lifetimeMs = 86400000, g_retryMs = 2000, g_maxRetryMs = 30000,
     g_maxBundlePayload = Some 4, g_maxReassemblyBytes = 67108864, g_keypair = None, g_pinned = None, g_requireIngress = False,
     g_egress = [], g_hasPeer = True, g_peerCl = [], g_requireTls = False\<rparr>"

definition demo_gateway :: "spool \<Rightarrow> gateway" where
  "demo_gateway s = \<lparr>gw_cfg = demo_config, gw_scheme = Ipn, gw_name = ''7'', gw_id = ''ipn:7.0'', gw_partial = [],
     gw_partialBytes = 0, gw_spool = s, gw_seq = 0, gw_session = False, gw_backoff = 2000, gw_pump = POff, gw_stopped = False,
     gw_stats = \<lparr>st_fromIp = 0, st_toDtn = 0, st_fromDtn = 0, st_toIp = 0, st_rejected = 0, st_fragmentsIn = 0, st_reassembled = 0\<rparr>,
     gw_out = []\<rparr>"

definition demo_spool :: spool where
  "demo_spool = fst (spool_add [1, 2] empty_spool)"

lemma demo_spool_head:
  obtains n where "spool_list demo_spool = [n]" "spool_read demo_spool n = Some [1, 2]" "spool_ok demo_spool" "has_room 0 demo_spool"
proof -
  obtain n where n: "spool_add [1, 2] empty_spool = (demo_spool, n)" by (metis demo_spool_def surjective_pairing)
  note a = conjunct1 [OF empty_spool_ok] conjunct2 [OF empty_spool_ok] n
  have "has_room (Suc 0) empty_spool" by (auto simp: has_room_def empty_spool_def open_spool_def intro!: exI [of _ 1])
  from spool_add_step [OF a(1) this n] have "has_room 0 demo_spool" by blast
  moreover have "spool_list empty_spool = []" by (simp add: empty_spool_def open_spool_def spool_list_def)
  ultimately show thesis using that disk.add_waiting [OF a] disk.add_fetch [OF a] disk.add_ok [OF a] by simp
qed

text \<open>A bundle found at the start is sent on the first session and acknowledged.\<close>

lemma sender_is_fifo_witness:
  "\<exists>g. run toy (demo_gateway demo_spool) [] [[1, 2]] g \<and> [[1, 2]] @ spool_contents (gw_spool g) = spool_contents demo_spool"
proof -
  obtain n where n: "spool_list demo_spool = [n]" "spool_read demo_spool n = Some [1, 2]" "spool_ok demo_spool" "has_room 0 demo_spool"
    by (rule demo_spool_head)
  let ?g0 = "demo_gateway demo_spool"
  have g: "gstep toy EvStart ?g0 = Some (start_pump ?g0)" "gstep toy (EvConnected ''x'') (start_pump ?g0) = Some (pump_connected ''x'' (start_pump ?g0))"
    "gstep toy EvSent (pump_connected ''x'' (start_pump ?g0)) = Some (pump_sent (pump_connected ''x'' (start_pump ?g0)))" by simp_all
  have p: "gw_pump (start_pump ?g0) = PConnecting" "gw_spool (start_pump ?g0) = demo_spool"
    by (simp_all add: start_pump_def pump_top_def demo_gateway_def demo_config_def clFor_def gw)
  have q: "gw_pump (pump_connected ''x'' (start_pump ?g0)) = PSending n"
    "last (sent_bundles (gw_out (pump_connected ''x'' (start_pump ?g0)))) = [1, 2]"
    using n(1,2) by (simp_all add: pump_connected_def p pump_next_def) (simp_all add: p gw)
  have "run toy ?g0 [] [[1, 2]] (pump_sent (pump_connected ''x'' (start_pump ?g0)))"
    using run_step [OF run_step [OF run_step [OF run_start g(1)] g(2)] g(3)] q by simp
  moreover from sender_is_fifo [OF this] n(3,4) have
    "[[1, 2]] @ spool_contents (gw_spool (pump_sent (pump_connected ''x'' (start_pump ?g0)))) = spool_contents demo_spool"
    by (simp add: demo_gateway_def)
  ultimately show ?thesis by blast
qed

end
