(* ===== verification/GatewayReassembly.thy ===== *)
theory GatewayReassembly
  imports Gateway
begin

text \<open>
  Reassembly in the gateway: its memory is accounted for and bounded, and the fragments \<open>makeBundles\<close>
  cuts a payload into give the bundle back in whatever order they arrive.
\<close>

section \<open>Accounting\<close>

definition part_bytes :: "(int \<times> bytes) list \<Rightarrow> nat" where
  "part_bytes ps = sum_list (map (\<lambda>x. length (snd x)) ps)"

definition stored_bytes :: "(string \<times> partial) list \<Rightarrow> nat" where
  "stored_bytes ps = sum_list (map (\<lambda>ke. e_bytes (snd ke)) ps)"

definition partial_ok :: "partial \<Rightarrow> bool" where
  "partial_ok e \<longleftrightarrow> e_bytes e = part_bytes (e_parts e) \<and> distinct (map fst (e_parts e)) \<and>
     (\<forall>x \<in> set (e_parts e). fst x + int (length (snd x)) \<le> e_total e)"

definition memory_ok :: "gateway \<Rightarrow> bool" where
  "memory_ok g \<longleftrightarrow> distinct (map fst (gw_partial g)) \<and> gw_partialBytes g = stored_bytes (gw_partial g) \<and>
     stored_bytes (gw_partial g) \<le> g_maxReassemblyBytes (gw_cfg g) \<and> (\<forall>ke \<in> set (gw_partial g). partial_ok (snd ke))"

lemma sum_split: "sum_list (map f (filter P xs)) + sum_list (map f (filter (\<lambda>x. \<not> P x) xs)) = (sum_list (map f xs) :: nat)"
  by (induction xs) auto

lemma stored_split: "distinct (map fst ps) \<Longrightarrow>
  stored_bytes ps = stored_bytes (filter (\<lambda>ke. fst ke \<noteq> k) ps) + (case map_of ps k of Some e \<Rightarrow> e_bytes e | None \<Rightarrow> 0)"
proof (induction ps)
  case (Cons x ps)
  have "filter (\<lambda>ke. fst ke \<noteq> fst x) ps = ps" using Cons.prems by (intro filter_True) (auto simp: rev_image_eqI)
  moreover have "map_of ps (fst x) = None" using Cons.prems by (simp add: map_of_eq_None_iff)
  ultimately show ?case using Cons by (cases "fst x = k") (auto simp: stored_bytes_def)
qed (simp add: stored_bytes_def)

lemma stored_set:
  assumes "distinct (map fst ps)"
  shows "stored_bytes (set_field k e ps) = stored_bytes (filter (\<lambda>ke. fst ke \<noteq> k) ps) + e_bytes e"
  using stored_split [of "set_field k e ps" k] assms filter_set_field [of "\<lambda>x. x \<noteq> k" k e ps] by simp

lemma set_set_field: "ke \<in> set (set_field k e ps) \<Longrightarrow> ke = (k, e) \<or> ke \<in> set ps"
  by (auto simp: set_field_def split: if_splits)

lemma memory_expire: "memory_ok g \<Longrightarrow> memory_ok (expire now g)"
proof -
  assume a: "memory_ok g"
  let ?P = "\<lambda>ke. g_lifetimeMs (gw_cfg g) < now - e_at (snd ke)"
  have "stored_bytes (filter ?P (gw_partial g)) + stored_bytes (filter (\<lambda>ke. \<not> ?P ke) (gw_partial g)) = stored_bytes (gw_partial g)"
    unfolding stored_bytes_def by (rule sum_split)
  then show ?thesis using a
    by (auto simp: memory_ok_def expire_def Let_def stored_bytes_def intro: distinct_map_filter)
qed

lemma partial_store: "partial_ok e \<Longrightarrow> off + int (length part) \<le> e_total e \<Longrightarrow> partial_ok (store_part off part e)"
  by (auto simp: partial_ok_def store_part_def part_bytes_def)

lemma partial_first: "partial_ok (e\<lparr>e_first := b\<rparr>) = partial_ok e"
  by (simp add: partial_ok_def)

lemma memory_put:
  assumes "memory_ok g" "partial_ok e" "distinct (map fst (gw_partial g))"
    "e_bytes e + stored_bytes (filter (\<lambda>ke. fst ke \<noteq> k) (gw_partial g)) = n" "n \<le> g_maxReassemblyBytes (gw_cfg g)"
  shows "memory_ok (put_partial k e (g\<lparr>gw_partialBytes := n\<rparr>))"
  using assms stored_set [OF assms(3)] by (auto simp: memory_ok_def put_partial_def dest: set_set_field)

lemma memory_upd_stats [simp]: "memory_ok (upd_stats f g) = memory_ok g"
  by (simp add: memory_ok_def upd_stats_def)

lemma memory_gemit [simp]: "memory_ok (gemit x g) = memory_ok g"
  by (simp add: memory_ok_def gemit_def)

lemma memory_rejected [simp]: "memory_ok (count_rejected g) = memory_ok g"
  by (simp add: count_rejected_def)

lemma memory_complete:
  assumes "memory_ok g" "map_of (gw_partial g) k = Some e"
  shows "memory_ok (fst (try_complete k e g))"
proof -
  have d: "distinct (map fst (gw_partial g))" using assms(1) by (simp add: memory_ok_def)
  have "memory_ok (g\<lparr>gw_partial := filter (\<lambda>ke. fst ke \<noteq> k) (gw_partial g), gw_partialBytes := gw_partialBytes g - e_bytes e\<rparr>)"
    using assms stored_split [OF d, of k] by (auto simp: memory_ok_def distinct_map_filter)
  then show ?thesis using assms(1) by (simp add: try_complete_def Let_def split: option.split sum.split)
qed

lemma memory_add_fragment:
  assumes "memory_ok g" "off + int (length part) \<le> t"
  shows "memory_ok (fst (add_fragment now b part off t g))"
proof -
  define k where "k = fragment_key (bp_primary b)"
  define e where "e = (case map_of (gw_partial g) k of Some e \<Rightarrow> e
     | None \<Rightarrow> \<lparr>e_total = t, e_parts = [], e_first = None, e_bytes = 0, e_at = now\<rparr>)"
  have d: "distinct (map fst (gw_partial g))" using assms(1) by (simp add: memory_ok_def)
  have e: "partial_ok e"
  proof (cases "map_of (gw_partial g) k")
    case (Some e')
    then have "(k, e') \<in> set (gw_partial g)" by (rule map_of_SomeD)
    then show ?thesis using assms(1) Some by (force simp: e_def memory_ok_def)
  qed (simp add: e_def partial_ok_def part_bytes_def)
  have s: "stored_bytes (gw_partial g) = stored_bytes (filter (\<lambda>ke. fst ke \<noteq> k) (gw_partial g)) + e_bytes e"
    using stored_split [OF d, of k] by (simp add: e_def split: option.split)
  have "put_partial k e g = put_partial k e (g\<lparr>gw_partialBytes := gw_partialBytes g\<rparr>)" by simp
  then have g1: "memory_ok (put_partial k e g)"
    using memory_put [OF assms(1) e d, of k "gw_partialBytes g"] s assms(1) by (simp add: memory_ok_def)
  define e2 where "e2 = (if off = 0 then store_part off part e\<lparr>e_first := Some b\<rparr> else store_part off part e)"
  define g2 where "g2 = put_partial k e2 (put_partial k e g\<lparr>gw_partialBytes := gw_partialBytes g + (e_bytes (store_part off part e) - e_bytes e)\<rparr>)"
  have p: "gw_partialBytes (put_partial k e g) = gw_partialBytes g" "gw_partial (put_partial k e g) = set_field k e (gw_partial g)"
    "gw_cfg (put_partial k e g) = gw_cfg g" by (simp_all add: put_partial_def)
  have fit: "memory_ok g2"
    if "e_total e = t" "\<not> (off \<notin> fst ` set (e_parts e) \<and> g_maxReassemblyBytes (gw_cfg g) < gw_partialBytes g + length part)"
  proof -
    have pe: "partial_ok e2" using partial_store [OF e, of off part] assms(2) that(1) by (cases "off = 0") (simp_all add: e2_def partial_first)
    have bytes: "e_bytes e2 + stored_bytes (filter (\<lambda>ke. fst ke \<noteq> k) (set_field k e (gw_partial g)))
        = gw_partialBytes g + (e_bytes (store_part off part e) - e_bytes e)"
      using s assms(1) filter_set_field [of "\<lambda>x. x \<noteq> k" k e "gw_partial g"]
      by (auto simp: e2_def store_part_def memory_ok_def)
    show ?thesis unfolding g2_def
      by (rule memory_put [OF g1 pe], unfold p) (use d that(2) assms(1) bytes in \<open>auto simp: store_part_def memory_ok_def\<close>)
  qed
  have "map_of (gw_partial (upd_stats f g2)) k = Some e2" for f by (simp add: g2_def put_partial_def upd_stats_def)
  from memory_complete [OF _ this] fit show ?thesis
    unfolding add_fragment_def Let_def k_def [symmetric] e_def [symmetric]
    using g1 by (simp add: p e2_def g2_def)
qed

lemma fragment_range_bound: "fragment_range p part = Inr (off, t) \<Longrightarrow> off + int (length part) \<le> t"
  by (auto simp: fragment_range_def split: option.splits if_splits jsval.splits)

lemma memory_reassemble: "memory_ok g \<Longrightarrow> memory_ok (fst (reassemble_bundle now b g))"
  by (auto simp: reassemble_bundle_def split: sum.split bool.split
      intro!: memory_add_fragment memory_expire dest: fragment_range_bound)

lemma memory_udp: "memory_ok g \<Longrightarrow> udp_send p t g = Inr g' \<Longrightarrow> memory_ok g'"
  by (auto simp: udp_send_def Let_def split: option.splits if_splits)

lemma memory_hand_over: "memory_ok g \<Longrightarrow> hand_over s b i p g = Inr g' \<Longrightarrow> memory_ok g'"
  by (auto simp: hand_over_def Let_def split: option.splits if_splits intro: memory_udp [rotated])

lemma memory_deliver: "memory_ok g \<Longrightarrow> deliver C s b g = Inr g' \<Longrightarrow> memory_ok g'"
  by (auto simp: deliver_def Let_def split: if_splits intro: memory_hand_over [rotated])

lemma memory_fromDtn: "memory_ok g \<Longrightarrow> fromDtn C now bytes peer g = Inr g' \<Longrightarrow> memory_ok g'"
proof -
  assume a: "memory_ok g" "fromDtn C now bytes peer g = Inr g'"
  show ?thesis
  proof (cases "decodeBundle bytes")
    case (Inr b)
    obtain g1 r where r: "reassemble_bundle now b g = (g1, r)" by (cases "reassemble_bundle now b g")
    have "memory_ok g1" using memory_reassemble [OF a(1), of now b] r by simp
    then show ?thesis using a Inr r
      by (auto simp: fromDtn_def split: option.splits sum.splits intro: memory_deliver [rotated])
  qed (use a in \<open>auto simp: fromDtn_def\<close>)
qed

section \<open>Tilings\<close>

text \<open>A payload cut into non-empty pieces, each at its offset.\<close>

fun tiles :: "bytes \<Rightarrow> nat \<Rightarrow> (int \<times> bytes) list \<Rightarrow> bool" where
  "tiles p off [] \<longleftrightarrow> length p \<le> off"
| "tiles p off ((i, part) # r) \<longleftrightarrow> i = int off \<and> part \<noteq> [] \<and> off + length part \<le> length p \<and>
     part = take (length part) (drop off p) \<and> tiles p (off + length part) r"

lemma tiles_keys: "tiles p off ts \<Longrightarrow> x \<in> set ts \<Longrightarrow> int off \<le> fst x"
  by (induction p off ts rule: tiles.induct) fastforce+

lemma tiles_bounds: "tiles p off ts \<Longrightarrow> x \<in> set ts \<Longrightarrow> fst x + int (length (snd x)) \<le> int (length p) \<and> snd x \<noteq> []"
  by (induction p off ts rule: tiles.induct) auto

lemma tiles_sorted: "tiles p off ts \<Longrightarrow> sorted_wrt (<) (map fst ts)"
proof (induction p off ts rule: tiles.induct)
  case (2 p off i part r)
  then have "tiles p (off + length part) r" "part \<noteq> []" by simp_all
  then have "int off < fst x" if "x \<in> set r" for x
    using tiles_keys [OF _ that] by (metis add_strict_increasing2 length_greater_0_conv less_le_trans of_nat_0_le_iff
      of_nat_add of_nat_0_less_iff add.commute less_add_same_cancel2)
  then show ?case using 2 by auto
qed simp

lemma tiles_distinct: "tiles p off ts \<Longrightarrow> distinct (map fst ts)"
  using tiles_sorted strict_sorted_iff by blast

lemma tiles_covered: "tiles p off ts \<Longrightarrow> off \<le> length p \<Longrightarrow> covered (int off) ts = Some (int (length p))"
proof (induction p off ts rule: tiles.induct)
  case (2 p off i part r)
  then show ?case by (simp add: max_def)
qed simp

lemma blit_tile:
  assumes "off + length part \<le> length p" "part = take (length part) (drop off p)"
  shows "blit part (int off) (take off p @ replicate (length p - off) 0) =
    Inr (take (off + length part) p @ replicate (length p - (off + length part)) 0)"
proof -
  have "take off p @ part = take (off + length part) p" using assms(2) by (metis take_add)
  then show ?thesis using assms(1) by (simp add: blit_def Let_def min_def, arith)
qed

lemma tiles_blit: "tiles p off ts \<Longrightarrow> off \<le> length p \<Longrightarrow>
  blit_all ts (take off p @ replicate (length p - off) 0) = Inr p"
proof (induction p off ts rule: tiles.induct)
  case (2 p off i part r)
  then show ?case using blit_tile [of off part p] by simp
qed simp

lemma sort_tiles:
  assumes "tiles p 0 ts" "mset xs = mset ts"
  shows "sort_key fst xs = ts"
proof -
  have d: "distinct (map fst ts)" by (rule tiles_distinct [OF assms(1)])
  have dx: "distinct (map fst xs)" using d assms(2) by (metis mset_map mset_eq_imp_distinct_iff)
  show ?thesis
  proof (rule properties_for_sort_key)
    show "mset ts = mset xs" using assms(2) by simp
    show "sorted (map fst ts)" using tiles_sorted [OF assms(1)] strict_sorted_iff by blast
    fix k assume "k \<in> set ts"
    have single: "filter (\<lambda>x. fst k = fst x) ys = [k]" if "distinct (map fst ys)" "k \<in> set ys" for ys
      using that by (induction ys) (auto simp: filter_empty_conv intro: rev_image_eqI)
    have "k \<in> set xs" using \<open>k \<in> set ts\<close> assms(2) by (metis set_mset_mset)
    then show "filter (\<lambda>x. fst k = fst x) ts = filter (\<lambda>x. fst k = fst x) xs"
      using single [OF d \<open>k \<in> set ts\<close>] single [OF dx] by simp
  qed
qed

lemma covered_points: "covered fin xs = Some e \<Longrightarrow> fin \<le> x \<Longrightarrow> x < e \<Longrightarrow>
  \<exists>(i, part) \<in> set xs. i \<le> x \<and> x < i + int (length part)"
proof (induction fin xs rule: covered.induct)
  case (2 fin i part r)
  show ?case
  proof (cases "x < i + int (length part)")
    case True
    then show ?thesis using 2 by (auto split: if_splits)
  next
    case False
    then show ?thesis using 2 by (auto split: if_splits)
  qed
qed auto

lemma tiles_disjoint: "tiles p off ts \<Longrightarrow> (i, part) \<in> set ts \<Longrightarrow> (j, q) \<in> set ts \<Longrightarrow> i \<le> j \<Longrightarrow>
  j < i + int (length part) \<Longrightarrow> j = i"
proof (induction p off ts rule: tiles.induct)
  case (2 p off i' part' r)
  then show ?case using tiles_keys [of p "off + length part'" r] by fastforce
qed simp

text \<open>As long as a piece is missing, the pieces do not cover the payload.\<close>

lemma tiles_missing:
  assumes "tiles p 0 ts" "set xs \<subseteq> set ts" "(j, q) \<in> set ts" "(j, q) \<notin> set xs"
    "covered 0 (sort_key fst xs) = Some e"
  shows "e < int (length p)"
proof (rule ccontr)
  assume "\<not> e < int (length p)"
  have j: "0 \<le> j" "j < int (length p)"
  proof -
    show "0 \<le> j" using tiles_keys [OF assms(1,3)] by simp
    have "j + int (length q) \<le> int (length p) \<and> q \<noteq> []" using tiles_bounds [OF assms(1,3)] by simp
    then show "j < int (length p)" by (cases q) auto
  qed
  then obtain i part where ip: "(i, part) \<in> set xs" "i \<le> j" "j < i + int (length part)"
    using covered_points [OF assms(5), of j] \<open>\<not> e < int (length p)\<close> by auto
  then have "j = i" using tiles_disjoint [OF assms(1) _ assms(3)] assms(2) by blast
  moreover have "part = q" using tiles_distinct [OF assms(1)] ip(1) assms(2,3) \<open>j = i\<close>
    by (metis eq_key_imp_eq_value subsetD)
  ultimately show False using ip(1) assms(4) by simp
qed

section \<open>Fragments in any order\<close>

definition entry :: "bytes \<Rightarrow> bpv7 \<Rightarrow> int \<Rightarrow> (int \<times> bytes) list \<Rightarrow> partial" where
  "entry p first t0 xs = \<lparr>e_total = int (length p), e_parts = xs, e_first = (if 0 \<in> fst ` set xs then Some first else None),
     e_bytes = part_bytes xs, e_at = t0\<rparr>"

definition counted :: "nat \<Rightarrow> nat \<Rightarrow> gateway \<Rightarrow> gateway" where
  "counted n m = upd_stats (\<lambda>s. s\<lparr>st_fragmentsIn := st_fragmentsIn s + n, st_reassembled := st_reassembled s + m\<rparr>)"

text \<open>The gateway with the fragments \<open>xs\<close> of one bundle in its buffer.\<close>

definition holding :: "string \<Rightarrow> bytes \<Rightarrow> bpv7 \<Rightarrow> int \<Rightarrow> (int \<times> bytes) list \<Rightarrow> gateway \<Rightarrow> gateway" where
  "holding k p first t0 xs g =
     (if xs = [] then g
      else counted (length xs) 0 (g\<lparr>gw_partial := set_field k (entry p first t0 xs) (gw_partial g),
        gw_partialBytes := gw_partialBytes g + part_bytes xs\<rparr>))"

lemma set_field_twice [simp]: "set_field k e2 (set_field k e1 xs) = set_field k e2 xs"
proof -
  have k: "k \<in> set (map fst (set_field k e1 xs))" by (simp add: keys_set_field)
  have t: "set_field k e2 (set_field k e1 xs) = map (\<lambda>e. if fst e = k then (k, e2) else e) (set_field k e1 xs)"
    using k by (simp only: set_field_def [of k e2 "set_field k e1 xs"] if_True)
  show ?thesis
  proof (cases "k \<in> set (map fst xs)")
    case True
    then show ?thesis unfolding t by (auto simp: set_field_def)
  next
    case False
    then have "map (\<lambda>e. if fst e = k then (k, e2) else e) xs = xs" by (intro map_idI) (auto intro: rev_image_eqI)
    with False show ?thesis unfolding t by (simp add: set_field_def)
  qed
qed

lemma filter_set_field_new: "k \<notin> fst ` set xs \<Longrightarrow> filter (\<lambda>ke. fst ke \<noteq> k) (set_field k e xs) = xs"
  using filter_set_field [of "\<lambda>x. x \<noteq> k" k e xs] by (auto simp: filter_id_conv intro: rev_image_eqI)

lemma missing_tile:
  assumes "distinct xs" "set xs \<subseteq> set ts" "distinct ts" "mset xs \<noteq> mset ts"
  obtains y where "y \<in> set ts" "y \<notin> set xs"
  using assms by (metis set_eq_iff_mset_eq_distinct subsetI subset_antisym)

lemma try_complete_all:
  assumes t: "tiles p 0 ts" "ts \<noteq> []" "mset xs = mset ts"
    and g: "k \<notin> fst ` set (gw_partial g)"
  shows "try_complete k (entry p first t0 xs) (holding k p first t0 xs g) = (counted (length ts) 1 g, Inr (Some (whole_bundle first p)))"
proof -
  have s: "sort_key fst xs = ts" by (rule sort_tiles [OF t(1,3)])
  have zero: "0 \<in> fst ` set xs"
  proof -
    have "0 \<in> fst ` set ts" using t(1,2) by (cases ts) auto
    then show ?thesis using t(3) by (metis set_mset_mset)
  qed
  have c: "covered 0 ts = Some (int (length p))" "blit_all ts (replicate (length p) 0) = Inr p"
    using tiles_covered [OF t(1)] tiles_blit [OF t(1)] by simp_all
  have len: "length xs = length ts" using t(3) by (metis size_mset)
  have "xs \<noteq> []" using t(2) len by auto
  then show ?thesis using zero g
    by (simp add: try_complete_def s c entry_def holding_def counted_def upd_stats_def filter_set_field_new len)
qed

lemma try_complete_missing:
  assumes "tiles p 0 ts" "set xs \<subseteq> set ts" "distinct xs" "mset xs \<noteq> mset ts"
  shows "try_complete k (entry p first t0 xs) g = (g, Inr None)"
proof -
  obtain y where y: "y \<in> set ts" "y \<notin> set xs"
    using missing_tile [OF assms(3,2) distinct_map [THEN iffD1, THEN conjunct1, OF tiles_distinct [OF assms(1)]] assms(4)] by blast
  have "e < int (length p)" if "covered 0 (sort_key fst xs) = Some e" for e
    using tiles_missing [OF assms(1,2) _ _ that, of "fst y" "snd y"] y by simp
  then show ?thesis by (auto simp: try_complete_def entry_def Let_def split: option.split)
qed

lemma part_bytes_append [simp]: "part_bytes (xs @ ys) = part_bytes xs + part_bytes ys" "part_bytes [x] = length (snd x)" "part_bytes [] = 0"
  by (simp_all add: part_bytes_def)

lemma part_bytes_tiles: "tiles p off ts \<Longrightarrow> off \<le> length p \<Longrightarrow> off + part_bytes ts = length p"
  by (induction p off ts rule: tiles.induct) (auto simp: part_bytes_def)

lemma part_bytes_mono:
  assumes "distinct xs" "set xs \<subseteq> set ts"
  shows "part_bytes xs \<le> part_bytes ts"
proof -
  have "mset xs \<subseteq># mset ts" using assms by (metis mset_set_set mset_subset_eqI count_mset_0_iff distinct_count_atmost_1
    count_greater_zero_iff set_mset_mset subsetD Suc_leI One_nat_def not_gr_zero le0)
  then obtain M where "mset ts = mset xs + M" by (metis subset_mset.le_iff_add)
  moreover have "part_bytes zs = sum_mset (image_mset (\<lambda>x. length (snd x)) (mset zs))" for zs
    by (simp add: part_bytes_def flip: sum_mset_sum_list)
  ultimately show ?thesis by simp
qed

lemma add_fragment_holding:
  assumes t: "tiles p 0 ts" "distinct (xs @ [(off, part)])" "set (xs @ [(off, part)]) \<subseteq> set ts"
    and b: "fragment_key (bp_primary b) = k" "off = 0 \<Longrightarrow> b = first" "xs = [] \<Longrightarrow> t0 = now"
    and g: "k \<notin> fst ` set (gw_partial g)" "gw_partialBytes g + length p \<le> g_maxReassemblyBytes (gw_cfg g)"
  shows "add_fragment now b part off (int (length p)) (holding k p first t0 xs g) =
    (if mset (xs @ [(off, part)]) = mset ts then (counted (length ts) 1 g, Inr (Some (whole_bundle first p)))
     else (holding k p first t0 (xs @ [(off, part)]) g, Inr None))"
proof -
  let ?h = "holding k p first t0 xs g" and ?ys = "xs @ [(off, part)]"
  have e: "(case map_of (gw_partial ?h) k of Some e \<Rightarrow> e
      | None \<Rightarrow> \<lparr>e_total = int (length p), e_parts = [], e_first = None, e_bytes = 0, e_at = now\<rparr>) = entry p first t0 xs"
  proof (cases "xs = []")
    case True
    then have "map_of (gw_partial ?h) k = None" using g(1) by (simp add: holding_def map_of_eq_None_iff)
    then show ?thesis using True b(3) by (simp add: entry_def part_bytes_def)
  qed (simp add: holding_def counted_def upd_stats_def)
  have new: "off \<notin> fst ` set xs"
  proof
    assume "off \<in> fst ` set xs"
    then obtain q where q: "(off, q) \<in> set xs" by auto
    then have "(off, q) \<in> set ts" "(off, part) \<in> set ts" using t(3) by auto
    then have "q = part" by (rule eq_key_imp_eq_value [OF tiles_distinct [OF t(1)]])
    then show False using q t(2) by simp
  qed
  have "part_bytes ?ys \<le> length p"
    using part_bytes_mono [OF t(2,3)] part_bytes_tiles [OF t(1)] by simp
  then have fit: "\<not> g_maxReassemblyBytes (gw_cfg g) < gw_partialBytes ?h + length part"
    using g(2) by (simp add: holding_def counted_def upd_stats_def)
  have e1: "store_part off part (entry p first t0 xs) = (entry p first t0 xs)\<lparr>e_parts := ?ys, e_bytes := part_bytes ?ys\<rparr>"
    using new by (simp add: store_part_def entry_def)
  have e2: "(if off = 0 then (store_part off part (entry p first t0 xs))\<lparr>e_first := Some b\<rparr> else store_part off part (entry p first t0 xs))
      = entry p first t0 ?ys"
    using b(2) new by (cases "off = 0") (simp_all add: store_part_def entry_def)
  have eb: "e_bytes (store_part off part (entry p first t0 xs)) = part_bytes xs + length part" "e_bytes (entry p first t0 xs) = part_bytes xs"
    by (simp_all add: e1) (simp add: entry_def)
  have cfg: "gw_cfg ?h = gw_cfg g" by (simp add: holding_def counted_def upd_stats_def)
  have g3: "upd_stats (\<lambda>s. s\<lparr>st_fragmentsIn := st_fragmentsIn s + 1\<rparr>) (put_partial k (entry p first t0 ?ys)
      (put_partial k (entry p first t0 xs) ?h\<lparr>gw_partialBytes := gw_partialBytes (put_partial k (entry p first t0 xs) ?h)
         + (e_bytes (store_part off part (entry p first t0 xs)) - e_bytes (entry p first t0 xs))\<rparr>)) = holding k p first t0 ?ys g"
    by (cases "xs = []") (use eb in \<open>simp_all add: holding_def counted_def upd_stats_def put_partial_def\<close>)
  have "add_fragment now b part off (int (length p)) ?h = try_complete k (entry p first t0 ?ys) (holding k p first t0 ?ys g)"
    unfolding add_fragment_def Let_def b(1) e e2 g3
    using fit by (simp add: cfg put_partial_def) (simp add: entry_def)
  moreover have "ts \<noteq> []" using t(3) by auto
  ultimately show ?thesis
    using try_complete_all [OF t(1) _ _ g(1), of ?ys first t0] try_complete_missing [OF t(1,3,2), of k first t0] by (cases "mset ?ys = mset ts") simp_all
qed

section \<open>Receiving\<close>

text \<open>\<open>(time, bundle)\<close> pairs received one after the other.\<close>

primrec receive_all :: "crypto \<Rightarrow> string \<Rightarrow> (int \<times> bytes) list \<Rightarrow> gateway \<Rightarrow> gateway res" where
  "receive_all C peer [] g = Inr g"
| "receive_all C peer (x # xs) g = rbind (fromDtn C (fst x) (snd x) peer g) (receive_all C peer xs)"

text \<open>Nothing that waits in the buffer is stale at this time.\<close>

definition unexpired :: "gateway \<Rightarrow> int \<Rightarrow> bool" where
  "unexpired g now \<longleftrightarrow> (\<forall>ke \<in> set (gw_partial g). now - e_at (snd ke) \<le> g_lifetimeMs (gw_cfg g))"

lemma expire_id: "unexpired g now \<Longrightarrow> expire now g = g"
proof -
  assume "unexpired g now"
  then have u: "\<not> g_lifetimeMs (gw_cfg g) < now - e_at (snd ke)" if "ke \<in> set (gw_partial g)" for ke
    using that by (force simp: unexpired_def)
  have "filter (\<lambda>ke. \<not> g_lifetimeMs (gw_cfg g) < now - e_at (snd ke)) (gw_partial g) = gw_partial g"
    "filter (\<lambda>ke. g_lifetimeMs (gw_cfg g) < now - e_at (snd ke)) (gw_partial g) = []"
    using u by (auto simp: filter_id_conv filter_empty_conv)
  then show ?thesis by (simp add: expire_def Let_def)
qed

lemma unexpired_holding:
  "unexpired g now \<Longrightarrow> now - t0 \<le> g_lifetimeMs (gw_cfg g) \<Longrightarrow> unexpired (holding k p first t0 xs g) now"
  by (auto simp: unexpired_def holding_def counted_def upd_stats_def entry_def dest!: set_set_field)

text \<open>What the gateway needs of a fragment to know where it belongs.\<close>

definition fragment_of :: "gateway \<Rightarrow> string \<Rightarrow> string \<Rightarrow> bytes \<Rightarrow> bpv7 \<Rightarrow> bytes \<Rightarrow> int \<times> bytes \<Rightarrow> bool" where
  "fragment_of g svc k p first x tile \<longleftrightarrow> (\<exists>b. decodeBundle x = Inr b \<and> localService g (p_dest (bp_primary b)) = Some svc \<and>
     fragment_bit (p_flags (bp_primary b)) = Inr True \<and> payloadOf b = Inr (snd tile) \<and>
     fragment_range (bp_primary b) (snd tile) = Inr (fst tile, int (length p)) \<and>
     fragment_key (bp_primary b) = k \<and> (fst tile = 0 \<longrightarrow> b = first))"

lemma holding_name [simp]: "gw_scheme (holding k p first t0 xs g) = gw_scheme g" "gw_name (holding k p first t0 xs g) = gw_name g"
  by (simp_all add: holding_def counted_def upd_stats_def)

lemma localService_holding [simp]: "localService (holding k p first t0 xs g) d = localService g d"
  by (simp add: localService_def split: sum.split)

lemma fragment_of_holding [simp]: "fragment_of (holding k p first t0 xs g) = fragment_of g"
  by (simp add: fragment_of_def fun_eq_iff)

lemma fromDtn_fragment:
  assumes "fragment_of g svc k p first x (off, part)"
    and t: "tiles p 0 ts" "distinct (xs @ [(off, part)])" "set (xs @ [(off, part)]) \<subseteq> set ts"
    and g: "k \<notin> fst ` set (gw_partial g)" "gw_partialBytes g + length p \<le> g_maxReassemblyBytes (gw_cfg g)"
    and u: "unexpired g now" "now - t0 \<le> g_lifetimeMs (gw_cfg g)" "xs = [] \<Longrightarrow> t0 = now"
  shows "fromDtn C now x peer (holding k p first t0 xs g) =
    (if mset (xs @ [(off, part)]) = mset ts then deliver C svc (whole_bundle first p) (counted (length ts) 1 g)
     else Inr (holding k p first t0 (xs @ [(off, part)]) g))"
proof -
  obtain b where b: "decodeBundle x = Inr b" "localService g (p_dest (bp_primary b)) = Some svc"
     "fragment_bit (p_flags (bp_primary b)) = Inr True" "payloadOf b = Inr part"
     "fragment_range (bp_primary b) part = Inr (off, int (length p))" "fragment_key (bp_primary b) = k" "off = 0 \<longrightarrow> b = first"
    using assms(1) by (auto simp: fragment_of_def)
  have "reassemble_bundle now b (holding k p first t0 xs g) = add_fragment now b part off (int (length p)) (holding k p first t0 xs g)"
    using b expire_id [OF unexpired_holding [OF u(1,2)]] by (simp add: reassemble_bundle_def)
  with add_fragment_holding [OF t b(6) _ u(3) g, of first] b(7)
  have "reassemble_bundle now b (holding k p first t0 xs g) =
    (if mset (xs @ [(off, part)]) = mset ts then (counted (length ts) 1 g, Inr (Some (whole_bundle first p)))
     else (holding k p first t0 (xs @ [(off, part)]) g, Inr None))" by simp
  then show ?thesis by (simp add: fromDtn_def b(1,2) split del: if_split) simp
qed

lemma receive_rest:
  assumes t: "tiles p 0 ts" "mset (xs @ ys) = mset ts" "ys \<noteq> []"
    and f: "list_all2 (\<lambda>x y. fragment_of g svc k p first (snd x) y \<and> unexpired g (fst x) \<and> fst x - t0 \<le> g_lifetimeMs (gw_cfg g)) ms ys"
    and g: "k \<notin> fst ` set (gw_partial g)" "gw_partialBytes g + length p \<le> g_maxReassemblyBytes (gw_cfg g)"
    and u: "xs = [] \<Longrightarrow> t0 = fst (hd ms)"
  shows "receive_all C peer ms (holding k p first t0 xs g) = deliver C svc (whole_bundle first p) (counted (length ts) 1 g)"
  using f t(2,3) u
proof (induction ms ys arbitrary: xs rule: list_all2_induct)
  case (Cons m ms y ys)
  obtain off part where y: "y = (off, part)" by fastforce
  have d: "distinct (xs @ y # ys)" "set (xs @ y # ys) \<subseteq> set ts"
    using tiles_distinct [OF t(1)] Cons.prems(1)
    by (metis distinct_map mset_eq_imp_distinct_iff) (metis Cons.prems(1) mset_eq_setD order_refl)
  have d': "distinct (xs @ [(off, part)])" "set (xs @ [(off, part)]) \<subseteq> set ts" using d y by auto
  have "mset (xs @ [(off, part)]) = mset ts \<longleftrightarrow> ys = []"
    using Cons.prems(1) [symmetric] y by auto
  then have step: "fromDtn C (fst m) (snd m) peer (holding k p first t0 xs g) =
    (if ys = [] then deliver C svc (whole_bundle first p) (counted (length ts) 1 g)
     else Inr (holding k p first t0 (xs @ [(off, part)]) g))"
    using fromDtn_fragment [OF _ t(1) d' g, of svc first "snd m" "fst m" t0 C peer] Cons.hyps(1) Cons.prems(3) y by auto
  show ?case
  proof (cases "ys = []")
    case True
    then have "ms = []" using Cons.hyps(2) by simp
    have "rbind r (receive_all C peer []) = r" for r by (cases r) simp_all
    then show ?thesis using step True \<open>ms = []\<close> by simp
  next
    case False
    then show ?thesis using step Cons.IH [of "xs @ [(off, part)]"] Cons.prems(1) y by simp
  qed
qed simp

section \<open>The fragments the gateway makes\<close>

lemma fragment_loop_tiles:
  assumes "fragment_loop n enc mx p off = Some (Inr bs)" "0 < mx" "off = 0 \<Longrightarrow> p \<noteq> []"
  shows "\<exists>ts. tiles p off ts \<and> list_all2 (\<lambda>b t. enc (nat (fst t)) (snd t) = Inr b) bs ts"
  using assms
proof (induction n enc mx p off arbitrary: bs rule: fragment_loop.induct)
  case (2 n enc mx p off)
  show ?case
  proof (cases "off = 0 \<or> off < length p")
    case True
    then have lt: "off < length p" using 2(4) by auto
    let ?part = "take mx (drop off p)"
    obtain b r where b: "enc off ?part = Inr b" "fragment_loop n enc mx p (off + mx) = Some r" "rbind r (\<lambda>bs. Inr (b # bs)) = Inr bs"
      using 2(2) True by (auto split: sum.splits)
    then obtain bs' where bs': "r = Inr bs'" "bs = b # bs'" by (cases r) auto
    obtain ts where ts: "tiles p (off + mx) ts" "list_all2 (\<lambda>b t. enc (nat (fst t)) (snd t) = Inr b) bs' ts"
      using 2(1) [OF True b(1)] b(2) bs' 2(3) by auto
    have rest: "tiles p (off + length ?part) ts"
    proof (cases "off + mx \<le> length p")
      case False
      then have "ts = []" using ts(1) by (cases ts) auto
      then show ?thesis using False by (simp add: min_def)
    qed (use ts(1) in simp)
    have "?part = take (length ?part) (drop off p)" by (cases "mx \<le> length p - off") simp_all
    then have "tiles p off ((int off, ?part) # ts)" using rest lt 2(3) by auto
    moreover have "list_all2 (\<lambda>b t. enc (nat (fst t)) (snd t) = Inr b) bs ((int off, ?part) # ts)" using b(1) bs' ts(2) by simp
    ultimately show ?thesis by blast
  next
    case False
    then show ?thesis using 2(2) by auto
  qed
qed simp

lemma fragment_loop_returns:
  "0 < mx \<Longrightarrow> length p - off + (if off = 0 then 2 else 1) \<le> n \<Longrightarrow> fragment_loop n enc mx p off \<noteq> None"
proof (induction n enc mx p off rule: fragment_loop.induct)
  case (1 enc mx p off)
  then show ?case by (simp split: if_splits)
next
  case (2 n enc mx p off)
  have "length p - (off + mx) + (if off + mx = 0 then 2 else 1) \<le> n" if "off = 0 \<or> off < length p"
    using 2(2,3) that by (auto split: if_splits)
  then show ?case using 2(1,2) by (auto split: sum.split)
qed

lemma fragment_loop_stuck: "p \<noteq> [] \<Longrightarrow> enc 0 [] = Inr b \<Longrightarrow> fragment_loop n enc 0 p 0 = None"
  by (induction n) auto

lemma fragment_loop_throws: "enc 0 [] = Inl e \<Longrightarrow> fragment_loop (Suc n) enc 0 p 0 = Some (Inl e)"
  by simp


end
