(* ===== verification/GatewayDelivery.thy ===== *)
theory GatewayDelivery
  imports GatewayQueue GatewayReassembly
begin

text \<open>
  From one IP link to the other: what a gateway makes of a payload, the far gateway delivers once, with a
  valid ingress receipt, in whatever order the bundles arrive; and what the reassembly buffer holds over
  a whole run.
\<close>

section \<open>The buffer over a run\<close>

definition same_buffer :: "gateway \<Rightarrow> gateway \<Rightarrow> bool" where
  "same_buffer g g' \<longleftrightarrow> gw_partial g' = gw_partial g \<and> gw_partialBytes g' = gw_partialBytes g \<and> gw_cfg g' = gw_cfg g"

lemma same_buffer_memory: "same_buffer g g' \<Longrightarrow> memory_ok g \<Longrightarrow> memory_ok g'"
  by (simp add: same_buffer_def memory_ok_def)

lemma pump_catch_buffer [simp]: "gw_partial (pump_catch e g) = gw_partial g" "gw_partialBytes (pump_catch e g) = gw_partialBytes g"
  by (simp_all add: pump_catch_def Let_def gw)

lemma pump_next_buffer [simp]: "gw_partial (pump_next g) = gw_partial g" "gw_partialBytes (pump_next g) = gw_partialBytes g"
    "gw_cfg (pump_next g) = gw_cfg g"
  by (simp_all add: pump_next_def gw split: list.split option.split)

lemma pump_top_buffer [simp]: "gw_partial (pump_top g) = gw_partial g" "gw_partialBytes (pump_top g) = gw_partialBytes g"
    "gw_cfg (pump_top g) = gw_cfg g"
  by (simp_all add: pump_top_def gw split: sum.split)

lemma kick_buffer [simp]: "gw_partial (kick g) = gw_partial g" "gw_partialBytes (kick g) = gw_partialBytes g" "gw_cfg (kick g) = gw_cfg g"
  by (simp_all add: kick_def)

lemma fromIp_buffer: "fromIp C now p d f s g = Some (g', Inr ids) \<Longrightarrow> same_buffer g g'"
  by (auto simp: fromIp_def Let_def same_buffer_def gw split: option.splits sum.splits prod.splits)

lemma gstep_memory: "memory_ok g \<Longrightarrow> gstep C e g = Some g' \<Longrightarrow> memory_ok g'"
proof (cases e)
  case (EvDtn now bytes peer)
  moreover assume "memory_ok g" "gstep C e g = Some g'"
  ultimately show ?thesis by (auto split: sum.splits intro: memory_fromDtn)
next
  case (EvIp now p d f s)
  moreover assume "memory_ok g" "gstep C e g = Some g'"
  ultimately show ?thesis using same_buffer_memory [OF fromIp_buffer] by (fastforce split: option.splits sum.splits)
qed (auto simp: pump_connected_def pump_failed_def pump_sent_def pump_timer_def session_closed_def start_pump_def
    stop_gateway_def Let_def gw same_buffer_def intro!: same_buffer_memory [of g] split: pump.split)

lemma run_memory: "run C g0 acc ack g \<Longrightarrow> memory_ok g0 \<Longrightarrow> memory_ok g"
  by (induction rule: run.induct) (auto intro: gstep_memory)

lemma new_gateway_memory: "new_gateway cfg dir = Inr g0 \<Longrightarrow> memory_ok g0"
  by (auto simp: new_gateway_def memory_ok_def stored_bytes_def split: option.splits)

text \<open>
  Property C38. From its start on, whatever the gateway receives and sends in whatever order, what its
  reassembly buffer holds is what it counted, it stays within \<open>maxReassemblyBytes\<close>, and every fragment it
  keeps ends within the total length of its set.
\<close>

theorem reassembly_memory_bounded:
  assumes "new_gateway cfg dir = Inr g0" "run C g0 acc ack g"
  shows "gw_partialBytes g = stored_bytes (gw_partial g) \<and> gw_partialBytes g \<le> g_maxReassemblyBytes (gw_cfg g) \<and>
    (\<forall>ke \<in> set (gw_partial g). e_bytes (snd ke) = part_bytes (e_parts (snd ke)) \<and>
      (\<forall>x \<in> set (e_parts (snd ke)). fst x + int (length (snd x)) \<le> e_total (snd ke)))"
  using run_memory [OF assms(2) new_gateway_memory [OF assms(1)]] by (simp add: memory_ok_def partial_ok_def)

lemma reassembly_memory_bounded_witness:
  "\<exists>g0 g. new_gateway demo_config [] = Inr g0 \<and> run toy g0 [] [] g \<and> gw_pump g = PConnecting \<and> gw_partialBytes g \<le> 67108864"
proof -
  let ?g0 = "demo_gateway (open_spool [])"
  have n: "new_gateway demo_config [] = Inr ?g0"
    by (simp add: new_gateway_def demo_gateway_def demo_config_def node_id_of_def)
  have s: "gstep toy EvStart ?g0 = Some (start_pump ?g0)" by simp
  have r: "run toy ?g0 [] [] (start_pump ?g0)" using run_step [OF run_start s] by simp
  have p: "gw_pump (start_pump ?g0) = PConnecting" "g_maxReassemblyBytes (gw_cfg (start_pump ?g0)) = 67108864"
    by (simp_all add: start_pump_def pump_top_def demo_gateway_def demo_config_def clFor_def gw)
  from reassembly_memory_bounded [OF n r] p n r show ?thesis by auto
qed

section \<open>The fragments are understood\<close>

lemma ingress_block_types: "ingress_blocks C a = Inr extra \<Longrightarrow> x \<in> set extra \<Longrightarrow> b_type x = INGRESS_BLOCK_TYPE"
  by (auto simp: ingress_blocks_def split: option.splits)

lemma fragment_bundle_ok:
  assumes "bundle_ok (bundle_of a extra None p)" "off + length part \<le> length p"
  shows "bundle_ok (bundle_of a extra (Some (off, length p)) part)"
proof -
  have "int (length p) \<le> MAX_SAFE_INTEGER" using assms(1)
    by (simp add: bundle_ok_def bundle_of_def block_ok_def content_ok_def)
  then have "cbor_ok 32 (VNum (int off))" "cbor_ok 32 (VNum (int (length p)))" "int (length part) \<le> MAX_SAFE_INTEGER"
    using assms(2) by (simp_all add: cbor_ok_numeral)
  then show ?thesis using assms(1)
    by (simp add: bundle_ok_def bundle_of_def primary_ok_def block_ok_def content_ok_def)
qed

lemma whole_of_fragments:
  assumes "ingress_blocks C a = Inr extra"
  shows "whole_bundle (bundle_of a extra (Some (off, t)) part) p = bundle_of a extra None p"
proof -
  have "map (\<lambda>b. if strict_eq (b_type b) PAYLOAD then b\<lparr>b_data := p\<rparr> else b) extra = extra"
    using ingress_block_types [OF assms] by (intro map_idI) (auto simp: INGRESS_BLOCK_TYPE_def PAYLOAD_def)
  then show ?thesis by (simp add: whole_bundle_def bundle_of_def clear_fragment_def PAYLOAD_def)
qed

lemma payload_of_bundle:
  assumes "ingress_blocks C a = Inr extra"
  shows "payloadOf (bundle_of a extra frag part) = Inr part"
proof -
  have "find (\<lambda>x. b_type x = PAYLOAD) (extra @ [y]) = find (\<lambda>x. b_type x = PAYLOAD) [y]" for y
    using ingress_block_types [OF assms] by (induction extra) (auto simp: INGRESS_BLOCK_TYPE_def PAYLOAD_def)
  then show ?thesis by (simp add: payloadOf_def bundle_of_def)
qed

lemma made_fragment:
  assumes e: "ingress_blocks C a = Inr extra" and ok: "bundle_ok (bundle_of a extra None (i_payload a))"
    and t: "tiles (i_payload a) 0 ts" "tile \<in> set ts"
    and b: "encodeBundle (bundle_of a extra (Some (nat (fst tile), length (i_payload a))) (snd tile)) = Inr x"
    and l: "localService g (i_dest a) = Some svc"
    and first: "first = bundle_of a extra (Some (0, length (i_payload a))) part0" "\<And>q. (0, q) \<in> set ts \<Longrightarrow> q = part0"
  shows "fragment_of g svc (fragment_key (bp_primary first)) (i_payload a) first x tile"
proof -
  let ?b = "bundle_of a extra (Some (nat (fst tile), length (i_payload a))) (snd tile)"
  have off: "0 \<le> fst tile" using tiles_keys [OF t] by simp
  have fit: "fst tile + int (length (snd tile)) \<le> int (length (i_payload a))" "snd tile \<noteq> []"
    using tiles_bounds [OF t] by auto
  have "bundle_ok ?b" using fit off by (intro fragment_bundle_ok [OF ok]) simp
  then have "decodeBundle x = Inr ?b" using encodeBundle_decodeBundle b by fastforce
  moreover have "fragment_bit (p_flags (bp_primary ?b)) = Inr True" by (simp add: bundle_of_def fragment_bit_def to_prim_def)
  moreover have "fragment_range (bp_primary ?b) (snd tile) = Inr (fst tile, int (length (i_payload a)))"
  proof -
    have "i_payload a \<noteq> []" using off fit by (cases "snd tile") auto
    then show ?thesis using off fit by (simp add: bundle_of_def fragment_range_def cbor_int_def)
  qed
  moreover have "fragment_key (bp_primary ?b) = fragment_key (bp_primary first)"
    by (simp add: fragment_key_def first(1) bundle_of_def)
  moreover have "fst tile = 0 \<longrightarrow> ?b = first" using first t(2) by (cases tile) auto
  ultimately show ?thesis using l payload_of_bundle [OF e] by (simp add: fragment_of_def) (simp add: bundle_of_def)
qed

section \<open>The receipt is accepted\<close>

text \<open>The receipt a gateway signs, with texts that are texts and of a length that fits in a block.\<close>

definition receipt_fits :: "crypto \<Rightarrow> ingress \<Rightarrow> keypair \<Rightarrow> bool" where
  "receipt_fits C a kp \<longleftrightarrow> text_ok (i_gateway a) \<and> text_ok (i_from a) \<and> text_ok (i_source a) \<and> text_ok (i_dest a) \<and>
     text_ok (pub kp) \<and> int (length (i_payload a)) \<le> MAX_SAFE_INTEGER \<and>
     (\<forall>at kvs. toISOString (i_now a) = Inr at \<and> signRecord C kp (ingress_content C a at) = Inr (VObj kvs) \<longrightarrow>
        length (jtext (ordered kvs)) < 2 ^ 40)"

lemma text_ok_iso: "toISOString ms = Inr at \<Longrightarrow> text_ok at"
proof -
  have z: "text_ok (replicate n CHR ''0'')" for n by (rule text_ok_ascii) simp
  have "text_ok (show_nat k)" for k using text_ok_show_int [of "int k"] by (simp add: show_int_def)
  then have i: "text_ok (pad_int n i)" for n i using text_ok_append [OF z] by (simp add: pad_int_def padStart_def)
  have "text_ok (show_year y)" for y
    using i text_ok_append [OF text_ok_ascii i] by (auto simp: show_year_def text_ok_Cons)
  then show "toISOString ms = Inr at \<Longrightarrow> text_ok at"
    using i text_ok_ascii [of "''Z''"]
    by (auto simp: toISOString_def Let_def text_ok_append text_ok_Cons split: if_splits prod.splits)
qed

lemma ingress_receipt_record:
  assumes "ingress_blocks C a = Inr extra" "i_keypair a = Some kp" "receipt_fits C a kp"
  obtains at kvs where "signRecord C kp (ingress_content C a at) = Inr (VObj kvs)" "record_ok kvs"
    "extra = [\<lparr>b_type = INGRESS_BLOCK_TYPE, b_number = VNum 2, b_flags = REPLICATE_IN_FRAGMENTS, b_crcType = CRC32C,
       b_data = cbor_bytes (VArr (texts [kvs]))\<rparr>]"
    "receipts_fit [kvs]"
proof -
  obtain at where at: "toISOString (i_now a) = Inr at" using assms(1,2) by (auto simp: ingress_blocks_def)
  have "text_ok at" by (rule text_ok_iso [OF at])
  then have "\<exists>kvs0. ingress_content C a at = VObj kvs0 \<and> record_ok kvs0"
    using assms(3) text_ok_hex text_ok_ascii
    by (simp add: ingress_content_def record_ok_def receipt_fits_def proto_key_def)
  then obtain kvs where kvs: "signRecord C kp (ingress_content C a at) = Inr (VObj kvs)" "record_ok kvs"
    using signRecord_record assms(3) unfolding receipt_fits_def by metis
  have fit: "receipts_fit [kvs]" using kvs at assms(3) by (simp add: receipts_fit_def receipt_fits_def)
  have "encode (VArr (texts [kvs])) = Inr (cbor_bytes (VArr (texts [kvs])))" by (rule encode_bytes [OF texts_ok(1) [OF fit]])
  then show thesis
    using that [OF kvs _ fit] assms(1,2) at
    by (simp add: ingress_blocks_def kvs(1) receipt_text_def canonicalize_record [OF kvs(2)] texts_def)
qed

lemma honest_ingress:
  assumes "sig_correct C" "keypair_ok C kp" "ingress_blocks C a = Inr extra" "i_keypair a = Some kp" "receipt_fits C a kp"
    "\<And>keys. pinned = Some keys \<Longrightarrow> map_of keys (i_gateway a) = Some (pub kp)"
  shows "\<exists>r. verifyIngress C (bundle_of a extra None (i_payload a)) pinned = Inr (IngressOk r)"
proof -
  obtain at kvs where r: "signRecord C kp (ingress_content C a at) = Inr (VObj kvs)" "record_ok kvs" "receipts_fit [kvs]"
    "extra = [\<lparr>b_type = INGRESS_BLOCK_TYPE, b_number = VNum 2, b_flags = REPLICATE_IN_FRAGMENTS, b_crcType = CRC32C,
       b_data = cbor_bytes (VArr (texts [kvs]))\<rparr>]"
    using ingress_receipt_record [OF assms(3-5)] by metis
  have d: "ingress_receipt (cbor_bytes (VArr (texts [kvs]))) = Inr (ordered kvs)"
    using decode_cbor_bytes [OF texts_ok(1) [OF r(3)]] parse_record [OF r(2)]
    by (simp add: ingress_receipt_def texts_def js_index_def)
  have v: "verifyRecord C (ordered kvs) = Inr (Accept (VStr (pub kp)))"
    using verifyRecord_signRecord [OF assms(1,2)] r(1) verifyRecord_ordered [OF r(2)] by (simp add: ingress_content_def)
  have f: "field (ordered kvs) ''gateway'' = VStr (i_gateway a)"
    "field (ordered kvs) ''payloadHash'' = VStr (to_hex (sha256 C (i_payload a)))"
    using field_ordered [OF r(2)] signRecord_field(1) [OF r(1) [unfolded ingress_content_def]]
    by (simp_all add: credential_fields_def proto_key_def)
  have "find (\<lambda>x. strict_eq (b_type x) INGRESS_BLOCK_TYPE) (bp_blocks (bundle_of a extra None (i_payload a))) = Some (hd extra)"
    by (simp add: bundle_of_def r(4) INGRESS_BLOCK_TYPE_def)
  then show ?thesis
    using assms(6) payload_of_bundle [OF assms(3)]
    by (auto simp: verifyIngress_def r(4) d v f signer_pinned_def split: option.split)
qed

section \<open>From IP to IP\<close>

definition ingress_ok :: "ingress \<Rightarrow> bool" where
  "ingress_ok a \<longleftrightarrow> eid_ok (i_source a) \<and> eid_ok (i_dest a) \<and> cbor_ok 32 (i_lifetime a) \<and> int (i_seq a) \<le> MAX_SAFE_INTEGER"

text \<open>The far gateway can take the bundles of \<open>a\<close> at these times, for this service.\<close>

definition can_receive :: "ingress \<Rightarrow> string \<Rightarrow> keypair \<Rightarrow> int list \<Rightarrow> gateway \<Rightarrow> bool" where
  "can_receive a svc kp ats g \<longleftrightarrow> localService g (i_dest a) = Some svc \<and>
     (\<forall>ke \<in> set (gw_partial g). fst ke \<noteq> fragment_key (bp_primary (bundle_of a [] None []))) \<and>
     gw_partialBytes g + length (i_payload a) \<le> g_maxReassemblyBytes (gw_cfg g) \<and>
     (\<forall>t \<in> set ats. unexpired g t \<and> t - hd ats \<le> g_lifetimeMs (gw_cfg g)) \<and>
     (\<forall>keys. g_pinned (gw_cfg g) = Some keys \<longrightarrow> map_of keys (i_gateway a) = Some (pub kp))"

lemma whole_bundle_ok:
  assumes "ingress_ok a" "receipt_fits C a kp" "ingress_blocks C a = Inr extra" "i_keypair a = Some kp"
  shows "bundle_ok (bundle_of a extra None (i_payload a))"
proof -
  obtain at kvs where r: "receipts_fit [kvs]"
    "extra = [\<lparr>b_type = INGRESS_BLOCK_TYPE, b_number = VNum 2, b_flags = REPLICATE_IN_FRAGMENTS, b_crcType = CRC32C,
       b_data = cbor_bytes (VArr (texts [kvs]))\<rparr>]"
    using ingress_receipt_record [OF assms(3,4,2)] by metis
  have "\<bar>i_now a\<bar> \<le> 8640000000000000" using assms(3,4)
    by (auto simp: ingress_blocks_def toISOString_def split: if_splits)
  then have "cbor_ok 31 (VNum (i_now a - DTN_EPOCH_MS))" by (simp add: cbor_ok_numeral DTN_EPOCH_MS_def abs_le_iff)
  moreover have "cbor_ok 31 (VNum (int (i_seq a)))" using assms(1) by (simp add: ingress_ok_def cbor_ok_numeral)
  moreover have "cbor_ok 32 (VNum 0)" "cbor_ok 32 (VNum 1)" "cbor_ok 32 (VNum 2)" "cbor_ok 32 (VNum 226)"
    by (simp_all add: cbor_ok_numeral)
  ultimately show ?thesis using assms(1,2) texts_ok(2) [OF r(1)]
    by (simp add: bundle_ok_def bundle_of_def primary_ok_def block_ok_def content_ok_def r(2) ingress_ok_def receipt_fits_def
        crc_type_ok_def crc_types INGRESS_BLOCK_TYPE_def REPLICATE_IN_FRAGMENTS_def PAYLOAD_def sample_eids)
qed

lemma deliver_honest:
  assumes "sig_correct C" "keypair_ok C kp" "ingress_blocks C a = Inr extra" "i_keypair a = Some kp" "receipt_fits C a kp"
    "\<And>keys. g_pinned (gw_cfg g) = Some keys \<Longrightarrow> map_of keys (i_gateway a) = Some (pub kp)"
  shows "\<exists>r. deliver C svc (bundle_of a extra None (i_payload a)) g = hand_over svc (bundle_of a extra None (i_payload a))
    (Some (IngressOk r)) (i_payload a) (upd_stats (\<lambda>s. s\<lparr>st_fromDtn := st_fromDtn s + 1\<rparr>) g)"
proof -
  obtain r where r: "verifyIngress C (bundle_of a extra None (i_payload a)) (g_pinned (gw_cfg g)) = Inr (IngressOk r)"
    using honest_ingress [OF assms(1-5), of "g_pinned (gw_cfg g)"] assms(6) by blast
  have "\<exists>x \<in> set (bp_blocks (bundle_of a extra None (i_payload a))). strict_eq (b_type x) INGRESS_BLOCK_TYPE"
    using r by (cases "find (\<lambda>x. strict_eq (b_type x) INGRESS_BLOCK_TYPE) (bp_blocks (bundle_of a extra None (i_payload a)))")
      (auto simp: verifyIngress_def find_Some_iff)
  moreover have "gw_cfg (upd_stats f g) = gw_cfg g" for f by (simp add: upd_stats_def)
  ultimately show ?thesis using r payload_of_bundle [OF assms(3)] by (intro exI [of _ r]) (simp add: deliver_def Let_def)
qed

lemma receive_fragments:
  assumes a: "sig_correct C" "keypair_ok C kp" "i_keypair a = Some kp" "receipt_fits C a kp" "ingress_ok a"
    and m: "makeBundles C a = Some (Inr bs)" "i_max a = Some mx" "0 < mx" "mx < length (i_payload a)"
    and p: "mset (map snd ms) = mset bs"
    and g: "can_receive a svc kp (map fst ms) g"
  shows "\<exists>b r. p_source (bp_primary b) = i_source a \<and> p_dest (bp_primary b) = i_dest a \<and> receive_all C peer ms g =
    hand_over svc b (Some (IngressOk r)) (i_payload a) (upd_stats (\<lambda>s. s\<lparr>st_fromDtn := st_fromDtn s + 1\<rparr>) (counted (length bs) 1 g))"
proof -
  let ?p = "i_payload a"
  obtain extra where e: "ingress_blocks C a = Inr extra" using m(1) by (cases "ingress_blocks C a") (auto simp: makeBundles_def)
  let ?enc = "\<lambda>off part. encodeBundle (bundle_of a extra (Some (off, length ?p)) part)"
  have "fragment_loop (length ?p + 2) ?enc mx ?p 0 = Some (Inr bs)"
    using m e by (simp add: makeBundles_def Let_def del: fragment_loop.simps)
  from fragment_loop_tiles [OF this m(3)] m(4)
  obtain ts where ts: "tiles ?p 0 ts" "list_all2 (\<lambda>b t. ?enc (nat (fst t)) (snd t) = Inr b) bs ts" by fastforce
  obtain ys where ys: "list_all2 (\<lambda>b t. ?enc (nat (fst t)) (snd t) = Inr b) (map snd ms) ys" "mset ys = mset ts"
    using list_all2_reorder_left_invariance [OF ts(2) p] by blast
  have ne: "ts \<noteq> []" using ts(1) m(4) by (cases ts) auto
  then obtain part0 rest where h: "ts = (0, part0) # rest" using ts(1) by (cases ts) auto
  define first where "first = bundle_of a extra (Some (0, length ?p)) part0"
  have head: "q = part0" if "(0, q) \<in> set ts" for q
    using that h tiles_distinct [OF ts(1)] by (auto simp: rev_image_eqI)
  have ok: "bundle_ok (bundle_of a extra None ?p)" by (rule whole_bundle_ok [OF a(5,4) e a(3)])
  have key: "fragment_key (bp_primary first) = fragment_key (bp_primary (bundle_of a [] None []))"
    by (simp add: first_def fragment_key_def bundle_of_def)
  have l: "localService g (i_dest a) = Some svc" using g by (simp add: can_receive_def)
  have frag: "fragment_of g svc (fragment_key (bp_primary first)) ?p first x y"
    if "?enc (nat (fst y)) (snd y) = Inr x" "y \<in> set ts" for x y
    by (rule made_fragment [OF e ok ts(1) that(2,1) l first_def head])
  have "ys \<noteq> []" using ys(2) ne by auto
  then have "ms \<noteq> []" using ys(1) by auto
  have all: "list_all2 (\<lambda>x y. fragment_of g svc (fragment_key (bp_primary first)) ?p first (snd x) y \<and> unexpired g (fst x) \<and>
      fst x - fst (hd ms) \<le> g_lifetimeMs (gw_cfg g)) ms ys"
  proof (rule list_all2_all_nthI)
    show "length ms = length ys" using list_all2_lengthD [OF ys(1)] by simp
    fix n assume n: "n < length ms"
    have "?enc (nat (fst (ys ! n))) (snd (ys ! n)) = Inr (snd (ms ! n))" using list_all2_nthD [OF ys(1), of n] n by simp
    moreover have "ys ! n \<in> set ts" using ys(2) n \<open>length ms = length ys\<close> by (metis nth_mem set_mset_mset)
    moreover have "fst (ms ! n) \<in> set (map fst ms)" using n by simp
    then have "unexpired g (fst (ms ! n)) \<and> fst (ms ! n) - hd (map fst ms) \<le> g_lifetimeMs (gw_cfg g)"
      using g unfolding can_receive_def by blast
    ultimately show "fragment_of g svc (fragment_key (bp_primary first)) ?p first (snd (ms ! n)) (ys ! n) \<and> unexpired g (fst (ms ! n)) \<and>
      fst (ms ! n) - fst (hd ms) \<le> g_lifetimeMs (gw_cfg g)"
      using frag \<open>ms \<noteq> []\<close> by (simp add: hd_map)
  qed
  have "fragment_key (bp_primary first) \<notin> fst ` set (gw_partial g)" "gw_partialBytes g + length ?p \<le> g_maxReassemblyBytes (gw_cfg g)"
    using g by (auto simp: can_receive_def key)
  from receive_rest [OF ts(1) _ \<open>ys \<noteq> []\<close> all this, of "[]" C peer] ys(2)
  have "receive_all C peer ms g = deliver C svc (whole_bundle first ?p) (counted (length ts) 1 g)"
    by (simp add: holding_def)
  moreover have "length ts = length bs" using list_all2_lengthD [OF ts(2)] by simp
  moreover have "whole_bundle first ?p = bundle_of a extra None ?p" unfolding first_def by (rule whole_of_fragments [OF e])
  moreover have "gw_cfg (counted n k g) = gw_cfg g" for n k by (simp add: counted_def upd_stats_def)
  ultimately show ?thesis
    using deliver_honest [OF a(1,2) e a(3,4), of "counted (length bs) 1 g" svc] g
    by (auto simp: can_receive_def intro!: exI [of _ "bundle_of a extra None ?p"]) (simp_all add: bundle_of_def)
qed

text \<open>
  Property C35. A payload over the maximum is cut into bundles; when they reach the far gateway in any order,
  it delivers once, to the UDP endpoint configured for the service, exactly the payload that entered, with
  an ingress receipt it accepts under the pinned key; its reassembly buffer is as before.
\<close>

theorem ip_to_ip:
  assumes "sig_correct C" "keypair_ok C kp" "i_keypair a = Some kp" "receipt_fits C a kp" "ingress_ok a"
    and "makeBundles C a = Some (Inr bs)" "i_max a = Some mx" "0 < mx" "mx < length (i_payload a)"
    and "mset (map snd ms) = mset bs" "can_receive a svc kp (map fst ms) g"
    and "map_of (g_egress (gw_cfg g)) svc = Some (Some target)" "split_colon target = [host, port]"
    "string_to_number port = Some n" "1 \<le> n" "n \<le> 65535"
  shows "\<exists>g' r. receive_all C peer ms g = Inr g' \<and>
    gw_out g' = gw_out g @ [DeliveredTo (i_source a) (i_dest a) (i_payload a) (Some (IngressOk r)), UdpSend (i_payload a) (nat n) host] \<and>
    gw_partial g' = gw_partial g \<and> gw_partialBytes g' = gw_partialBytes g"
proof -
  have "target \<noteq> []" using assms(13) by auto
  then show ?thesis
    using receive_fragments [OF assms(1-11), of peer] assms(12-16)
    by (auto simp: hand_over_def udp_send_def Let_def gw counted_def)
qed

section \<open>A sample\<close>

lemma fragment_loop_total:
  "0 < mx \<Longrightarrow> length p - off + (if off = 0 then 2 else 1) \<le> n \<Longrightarrow>
   (\<And>off part. off + length part \<le> length p \<Longrightarrow> \<exists>b. enc off part = Inr b) \<Longrightarrow> \<exists>bs. fragment_loop n enc mx p off = Some (Inr bs)"
proof (induction n enc mx p off rule: fragment_loop.induct)
  case (1 enc mx p off)
  then show ?case by (simp split: if_splits)
next
  case (2 n enc mx p off)
  show ?case
  proof (cases "off = 0 \<or> off < length p")
    case True
    then obtain b where b: "enc off (take mx (drop off p)) = Inr b" using 2(4) [of off "take mx (drop off p)"] by fastforce
    have "length p - (off + mx) + (if off + mx = 0 then 2 else 1) \<le> n" using 2(2,3) True by (auto split: if_splits)
    from 2(1) [OF True b 2(2) this 2(4)] show ?thesis using True b by auto
  qed simp
qed

lemma makeBundles_total:
  assumes "ingress_ok a" "receipt_fits C a kp" "ingress_blocks C a = Inr extra" "i_keypair a = Some kp"
    "i_max a = Some mx" "0 < mx" "mx < length (i_payload a)"
  shows "\<exists>bs. makeBundles C a = Some (Inr bs)"
proof -
  have "\<exists>b. encodeBundle (bundle_of a extra (Some (off, length (i_payload a))) part) = Inr b"
    if "off + length part \<le> length (i_payload a)" for off part
    using encodeBundle_decodeBundle [OF fragment_bundle_ok [OF whole_bundle_ok [OF assms(1-4)] that]] by blast
  with fragment_loop_total [OF assms(6), of "i_payload a" 0 "length (i_payload a) + 2"] show ?thesis
    using assms(3,5,7) by (simp add: makeBundles_def Let_def del: fragment_loop.simps)
qed

definition sample_ingress :: ingress where
  "sample_ingress = \<lparr>i_payload = [1, 2, 3, 4, 5], i_source = ''ipn:3.1'', i_dest = ''dtn://earth/in'', i_lifetime = VNum 60000,
     i_seq = 0, i_keypair = Some (toy_key ''k''), i_gateway = ''ipn:3.0'', i_from = ''udp:x'', i_now = 0, i_max = Some 2\<rparr>"

definition earth :: gateway where
  "earth = (demo_gateway (open_spool []))\<lparr>gw_scheme := Dtn, gw_name := ''earth'', gw_cfg := demo_config\<lparr>g_egress := [(''in'', Some ''h:99'')],
     g_pinned := Some [(''ipn:3.0'', pub (toy_key ''k''))], g_requireIngress := True\<rparr>\<rparr>"

lemma b64_length: "length (to_base64 bs) \<le> 4 * length bs + 4"
proof -
  have "length (b64_split ns) \<le> 4 * length ns" for ns by (induction ns rule: b64_split.induct) simp_all
  from this [of "map unat bs"] show ?thesis by (simp add: to_base64_def b64_pad_def)
qed

lemma iso_epoch: "toISOString 0 = Inr ''1970-01-01T00:00:00.000Z''"
  by code_simp

lemma sample_receipt_fits: "receipt_fits toy sample_ingress (toy_key ''k'')"
proof -
  have "length (jtext (ordered kvs)) < 2 ^ 40"
    if sr: "signRecord toy (toy_key ''k'') (ingress_content toy sample_ingress ''1970-01-01T00:00:00.000Z'') = Inr (VObj kvs)" for kvs
  proof -
    let ?kvs0 = "[(''kind'', VStr ''gateway-ingress/1''), (''gateway'', VStr ''ipn:3.0''), (''from'', VStr ''udp:x''),
      (''source'', VStr ''ipn:3.1''), (''dest'', VStr ''dtn://earth/in''), (''payloadHash'', VStr (to_hex (sha256 toy [1, 2, 3, 4, 5]))),
      (''payloadBytes'', VNum 5), (''receivedAt'', VStr ''1970-01-01T00:00:00.000Z'')]"
    have c: "ingress_content toy sample_ingress ''1970-01-01T00:00:00.000Z'' = VObj ?kvs0"
      by (simp add: ingress_content_def sample_ingress_def)
    obtain i where i: "length i = 66" "kvs = set_field ''signerPub'' (VStr (pub (toy_key ''k'')))
      (set_field ''sig'' (VStr (signClaim toy ''k'' (VStr i))) (set_field ''claimId'' (VStr i) ?kvs0))"
      using sr length_contentId [OF toy_hash32] unfolding c by (auto simp: signRecord_Inr toy_key_def)
    have rec: "record_ok ?kvs0" by (simp add: record_ok_def proto_key_def text_ok_ascii text_ok_hex)
    have "text_ok (pub (toy_key ''k''))" by (simp add: toy_key_def text_ok_base64)
    then have ok: "record_ok kvs" using signRecord_record [OF rec, of "toy_key ''k''" toy] sr unfolding c by auto
    have "length (pub (toy_key ''k'')) \<le> 500" using b64_length [of "0 # utf8 ''k''"] by (simp add: toy_key_def)
    moreover have "length (signClaim toy ''k'' (VStr i)) \<le> 1000"
      using b64_length [of "0 # utf8 ''k'' @ utf8 i"] i(1) by (simp add: signClaim_def toy_def)
    moreover have "length (to_hex (sha256 toy [1, 2, 3, 4, 5])) = 64" by (simp add: len_simps)
    ultimately have "record_size kvs < 2 ^ 40"
      using i(1) by (simp add: i(2) set_field_def record_size_def show_int_def show_nat_small)
    with length_ordered [OF ok] show ?thesis by simp
  qed
  moreover have "toISOString (i_now sample_ingress) = Inr ''1970-01-01T00:00:00.000Z''" by (simp add: iso_epoch sample_ingress_def)
  moreover have "text_ok (i_gateway sample_ingress)" "text_ok (i_from sample_ingress)" "text_ok (i_source sample_ingress)"
    "text_ok (i_dest sample_ingress)" "text_ok (pub (toy_key ''k''))" "int (length (i_payload sample_ingress)) \<le> MAX_SAFE_INTEGER"
    by (simp_all add: sample_ingress_def text_ok_ascii toy_key_def text_ok_base64)
  ultimately show ?thesis by (simp add: receipt_fits_def)
qed

lemma sample_blocks: "\<exists>extra. ingress_blocks toy sample_ingress = Inr extra"
proof -
  have "\<exists>kvs0. ingress_content toy sample_ingress ''1970-01-01T00:00:00.000Z'' = VObj kvs0 \<and> record_ok kvs0"
    by (simp add: ingress_content_def record_ok_def proto_key_def text_ok_hex text_ok_ascii sample_ingress_def)
  then obtain kvs where kvs: "signRecord toy (toy_key ''k'') (ingress_content toy sample_ingress ''1970-01-01T00:00:00.000Z'') = Inr (VObj kvs)"
      "record_ok kvs"
    using signRecord_record [of _ "toy_key ''k''" toy] by (metis text_ok_base64 toy_key_def keypair.select_convs(2))
  have n: "toISOString (i_now sample_ingress) = Inr ''1970-01-01T00:00:00.000Z''" "i_keypair sample_ingress = Some (toy_key ''k'')"
    by (simp_all add: iso_epoch sample_ingress_def)
  then have "receipts_fit [kvs]" using sample_receipt_fits kvs by (simp add: receipts_fit_def receipt_fits_def)
  from encode_bytes [OF texts_ok(1) [OF this]] show ?thesis
    using kvs by (simp add: ingress_blocks_def n receipt_text_def canonicalize_record texts_def)
qed

lemma sample_ingress_ok: "ingress_ok sample_ingress"
  by (simp add: ingress_ok_def sample_ingress_def sample_eids cbor_ok_numeral)

lemma earth_service: "localService earth ''dtn://earth/in'' = Some ''in''"
  by (simp add: localService_def parseEid_def ipn_match_def dtn_match_def Let_def earth_def utf8_def)

lemma earth_receives: "can_receive sample_ingress ''in'' (toy_key ''k'') [0, 7, 3] earth"
  unfolding can_receive_def
  by (simp add: sample_ingress_def earth_service unexpired_def)
    (simp add: earth_def demo_gateway_def demo_config_def)

lemma three_fragments:
  "fragment_loop (length p + 2) enc 2 p 0 = Some (Inr bs) \<Longrightarrow> length p = 5 \<Longrightarrow> length bs = 3"
  by (auto simp: eval_nat_numeral split: sum.splits)

text \<open>Three fragments, the last one first.\<close>

lemma ip_to_ip_witness:
  "\<exists>b1 b2 b3 g' r. makeBundles toy sample_ingress = Some (Inr [b1, b2, b3]) \<and>
     receive_all toy ''peer'' [(0, b3), (7, b1), (3, b2)] earth = Inr g' \<and>
     gw_out g' = [DeliveredTo ''ipn:3.1'' ''dtn://earth/in'' [1, 2, 3, 4, 5] (Some (IngressOk r)), UdpSend [1, 2, 3, 4, 5] 99 ''h'']"
proof -
  obtain extra where e: "ingress_blocks toy sample_ingress = Inr extra" using sample_blocks by blast
  have s: "i_keypair sample_ingress = Some (toy_key ''k'')" "i_max sample_ingress = Some 2" "i_payload sample_ingress = [1, 2, 3, 4, 5]"
    "i_source sample_ingress = ''ipn:3.1''" "i_dest sample_ingress = ''dtn://earth/in''"
    by (simp_all add: sample_ingress_def)
  obtain bs where bs: "makeBundles toy sample_ingress = Some (Inr bs)"
    using makeBundles_total [OF sample_ingress_ok sample_receipt_fits e s(1,2)] s(3) by auto
  have "length bs = 3"
  proof (rule three_fragments)
    show "fragment_loop (length (i_payload sample_ingress) + 2) (\<lambda>off part. encodeBundle (bundle_of sample_ingress extra
      (Some (off, length (i_payload sample_ingress))) part)) 2 (i_payload sample_ingress) 0 = Some (Inr bs)"
      using bs e s(2) by (simp add: makeBundles_def Let_def s(3) del: fragment_loop.simps)
  qed (simp add: s(3))
  then obtain b1 b2 b3 where b: "bs = [b1, b2, b3]" by (auto simp: numeral_eq_Suc length_Suc_conv)
  have m: "mset (map snd [(0 :: int, b3), (7, b1), (3, b2)]) = mset bs" by (simp add: b)
  have eg: "map_of (g_egress (gw_cfg earth)) ''in'' = Some (Some ''h:99'')" "gw_out earth = []"
    by (simp_all add: earth_def demo_gateway_def)
  have port: "split_colon ''h:99'' = [''h'', ''99'']" "string_to_number ''99'' = Some 99" by code_simp+
  have "map fst [(0 :: int, b3), (7, b1), (3, b2)] = [0, 7, 3]" by simp
  then have cr: "can_receive sample_ingress ''in'' (toy_key ''k'') (map fst [(0 :: int, b3), (7, b1), (3, b2)]) earth"
    using earth_receives by simp
  from ip_to_ip [OF toy_sig_correct toy_key_ok s(1) sample_receipt_fits sample_ingress_ok bs s(2) _ _ m cr eg(1) port(1,2), of "''peer''"] s
  obtain g' r where "receive_all toy ''peer'' [(0, b3), (7, b1), (3, b2)] earth = Inr g'"
    "gw_out g' = gw_out earth @ [DeliveredTo (i_source sample_ingress) (i_dest sample_ingress) (i_payload sample_ingress) (Some (IngressOk r)),
       UdpSend (i_payload sample_ingress) (nat 99) ''h'']" by auto
  then show ?thesis using bs b eg(2) s by (intro exI [of _ b1] exI [of _ b2] exI [of _ b3] exI [of _ g'] exI [of _ r]) simp
qed

end
