(* ===== verification/GatewayFaults.thy ===== *)
theory GatewayFaults
  imports GatewayDelivery
begin

text \<open>Inputs on which the gateway does not do what it means to.\<close>

section \<open>A deep receipt\<close>

primrec nest :: "nat \<Rightarrow> jsval" where
  "nest 0 = VNull"
| "nest (Suc n) = VArr [nest n]"

lemma nest_json: "json_ok (nest n)"
  by (induction n) simp_all

lemma nest_deep: "d \<le> n \<Longrightarrow> \<exists>e. sort_keys_from d (nest n) = Inl e"
proof (induction d arbitrary: n)
  case (Suc d)
  then obtain m where "n = Suc m" "d \<le> m" by (cases n) auto
  with Suc.IH [of m] show ?case by auto
qed simp

lemma nest_text: "text_ok (jtext (nest n)) \<and> length (jtext (nest n)) = 4 + 2 * n"
proof (induction n)
  case 0
  show ?case by (simp add: text_ok_ascii)
next
  case (Suc n)
  have "text_ok (CHR ''['' # jtext (nest n) @ '']'')"
    using Suc text_ok_append [of "jtext (nest n)" "'']''"] by (simp add: text_ok_Cons text_ok_ascii)
  then show ?case using Suc by simp
qed

definition deep_text :: string where
  "deep_text = jtext (nest 40)"

lemma deep_throws: "\<exists>e. rbind (json_parse deep_text) (verifyRecord C) = Inl e"
proof -
  obtain e where e: "sort_keys_from 32 (nest 39) = Inl e" using nest_deep [of 32 39] by auto
  have n: "nest 40 = VArr [nest 39]" by (simp add: eval_nat_numeral)
  have zero: "show_nat 0 = ''0''" by code_simp
  have "pickContent (nest 40) = VObj [(show_nat 0, nest 39)]"
    using zero by (simp add: n pickContent_def credential_fields_def proto_key_def)
  moreover have "key_order [(show_nat 0, nest 39)] = [(show_nat 0, nest 39)]"
    by (simp add: key_order_def proto_key_def zero)
  moreover have "key_order [(show_nat 0, nest 39)] = [(show_nat 0, nest 39)] \<Longrightarrow>
      sort_keys_from (Suc 32) (VObj [(show_nat 0, nest 39)]) = Inl e"
    by (subst sort_keys_from.simps(2)) (simp add: e)
  ultimately have "canonicalize (pickContent (nest 40)) = Inl e"
    unfolding canonicalize_def sortKeysDeep_def MAX_DEPTH_def by (simp only: rbind_simps)
  then have "verifyRecord C (nest 40) = Inl e"
    by (simp add: verifyRecord_def contentId_def n)
  then show ?thesis by (simp add: deep_text_def json_parse_jtext [OF nest_json])
qed

definition deep_bundle :: "string \<Rightarrow> bpv7" where
  "deep_bundle dest =
     \<lparr>bp_primary = \<lparr>p_flags = VNum 0, p_crcType = CRC32C, p_dest = dest, p_source = ''ipn:3.1'', p_reportTo = ''dtn:none'',
        p_created = (VNum 0, VNum 0), p_lifetime = VNum 0, p_fragmentOffset = VUndef, p_totalAduLength = VUndef\<rparr>,
      bp_blocks = [\<lparr>b_type = INGRESS_BLOCK_TYPE, b_number = VNum 2, b_flags = VNum 0, b_crcType = CRC32C,
          b_data = cbor_bytes (VArr [VStr deep_text])\<rparr>,
        \<lparr>b_type = PAYLOAD, b_number = VNum 1, b_flags = VNum 0, b_crcType = CRC32C, b_data = []\<rparr>]\<rparr>"

lemma deep_item: "cbor_ok max_levels (VArr [VStr deep_text])" "length (cbor_bytes (VArr [VStr deep_text])) \<le> 200"
proof -
  have t: "text_ok deep_text" "length deep_text = 84" using nest_text [of 40] by (simp_all add: deep_text_def)
  then have ok: "cbor_ok 32 (VStr deep_text)" by (simp add: cbor_ok_numeral)
  have "max_levels = Suc 32" by simp
  with ok show "cbor_ok max_levels (VArr [VStr deep_text])" by (simp only: cbor_ok.simps) simp
  have "length (cbor_bytes (VStr deep_text)) \<le> 9 + 84"
    using t(2) length_head_le [of 3 84] by (simp only: cbor_bytes_scalars length_append length_utf8)
  then show "length (cbor_bytes (VArr [VStr deep_text])) \<le> 200"
    using ok length_head_le [of 4 1] by (subst cbor_bytes_arrays(1) [of 32]) simp_all
qed

lemma deep_bundle_ok: "eid_ok dest \<Longrightarrow> bundle_ok (deep_bundle dest)"
  using deep_item(2)
  by (simp add: deep_bundle_def bundle_ok_def primary_ok_def block_ok_def content_ok_def sample_eids crc_type_ok_def crc_types
      cbor_ok_numeral INGRESS_BLOCK_TYPE_def PAYLOAD_def)

text \<open>
  A well-formed bundle for this gateway whose ingress block holds a text nested 40 deep makes
  \<open>fromDtn\<close> throw, whatever keys are pinned and whether or not a receipt is required: \<open>verifyIngress\<close>
  calls \<open>verifyRecord\<close> outside its \<open>try\<close>, and nothing above catches the exception.
\<close>

theorem deep_receipt_throws:
  assumes "eid_ok dest" "localService g dest = Some svc"
  shows "\<exists>bytes b e. decodeBundle bytes = Inr b \<and> fromDtn C now bytes peer g = Inl e \<and>
    gstep C (EvDtn now bytes peer) g = None"
proof -
  obtain bytes where b: "decodeBundle bytes = Inr (deep_bundle dest)"
    using encodeBundle_decodeBundle [OF deep_bundle_ok [OF assms(1)]] by blast
  obtain e where e: "rbind (json_parse deep_text) (verifyRecord C) = Inl e" using deep_throws by blast
  have j: "json_parse deep_text = Inr (nest 40)" by (simp add: deep_text_def json_parse_jtext [OF nest_json])
  then have v: "verifyRecord C (nest 40) = Inl e" using e by simp
  have "ingress_receipt (cbor_bytes (VArr [VStr deep_text])) = Inr (nest 40)"
    using decode_cbor_bytes [OF deep_item(1)] j by (simp add: ingress_receipt_def js_index_def)
  then have "verifyIngress C (deep_bundle dest) pinned = Inl e" for pinned
    using v by (simp add: verifyIngress_def deep_bundle_def INGRESS_BLOCK_TYPE_def)
  moreover have "\<exists>x \<in> set (bp_blocks (deep_bundle dest)). strict_eq (b_type x) INGRESS_BLOCK_TYPE"
    by (simp add: deep_bundle_def INGRESS_BLOCK_TYPE_def)
  ultimately have "deliver C svc (deep_bundle dest) g' = Inl e" for g' by (simp add: deliver_def Let_def)
  moreover have "reassemble_bundle now (deep_bundle dest) g = (g, Inr (Some (deep_bundle dest)))"
    by (simp add: reassemble_bundle_def deep_bundle_def fragment_bit_def to_prim_def)
  moreover have "p_dest (bp_primary (deep_bundle dest)) = dest" by (simp add: deep_bundle_def)
  ultimately have "fromDtn C now bytes peer g = Inl e" by (simp add: fromDtn_def b assms(2))
  then show ?thesis using b by auto
qed

lemma deep_receipt_throws_witness:
  "\<exists>bytes b e. decodeBundle bytes = Inr b \<and> fromDtn toy 0 bytes ''peer'' earth = Inl e"
  using deep_receipt_throws [OF _ earth_service, of toy 0 "''peer''"] sample_eids(1) by blast

section \<open>Stopping while connecting\<close>

text \<open>
  A gateway stopped while it connects does not stop: when the connection comes up, it keeps the
  session open, and either waits for ever for a bundle or sends the head of the queue; \<open>stop\<close> closed
  nothing, since there was no session yet.
\<close>

theorem stop_while_connecting:
  assumes "gw_pump g = PConnecting" "\<not> gw_session g" "spool_ok (gw_spool g)"
  shows "gw_stopped (pump_connected peer (stop_gateway g)) \<and> gw_session (pump_connected peer (stop_gateway g)) \<and>
    (case spool_list (gw_spool g) of
       [] \<Rightarrow> gw_pump (pump_connected peer (stop_gateway g)) = PWaiting
     | n # _ \<Rightarrow> gw_pump (pump_connected peer (stop_gateway g)) = PSending n) \<and>
    SessionClose \<notin> set (drop (length (gw_out g)) (gw_out (pump_connected peer (stop_gateway g))))"
proof (cases "spool_list (gw_spool g)")
  case Nil
  then show ?thesis using assms
    by (simp add: stop_gateway_def kick_def pump_connected_def pump_next_def gw Let_def)
next
  case (Cons n ns)
  then obtain b where "spool_read (gw_spool g) n = Some b" using disk.waiting_fetch [OF assms(3), of n] by auto
  then show ?thesis using assms Cons
    by (simp add: stop_gateway_def kick_def pump_connected_def pump_next_def gw Let_def)
qed

lemma stop_while_connecting_witness:
  "gw_session (pump_connected ''peer'' (stop_gateway (start_pump (demo_gateway demo_spool)))) \<and>
   gw_stopped (pump_connected ''peer'' (stop_gateway (start_pump (demo_gateway demo_spool))))"
proof -
  obtain n where n: "spool_ok demo_spool" by (rule demo_spool_head)
  have p: "gw_pump (start_pump (demo_gateway demo_spool)) = PConnecting" "\<not> gw_session (start_pump (demo_gateway demo_spool))"
    "gw_spool (start_pump (demo_gateway demo_spool)) = demo_spool"
    by (simp_all add: start_pump_def pump_top_def demo_gateway_def demo_config_def clFor_def gw)
  from stop_while_connecting [OF p(1,2), unfolded p(3), OF n, of "''peer''"] show ?thesis by simp
qed

end
