(* ===== verification/Relief.thy ===== *)
theory Relief
  imports Agent FlatRecord
begin

text \<open>
  The relief network of \<open>relief/kit/lib\<close>: end-to-end sealing (\<open>seal.mjs\<close>) and, of \<open>roles.mjs\<close>, the frames,
  the clinic and the relay. Sending is an effect: each operation returns the \<open>(next hop, frame)\<close> pairs it
  hands to the transport. The ephemeral key and the IV of a sealing are arguments.
\<close>

section \<open>Sealing\<close>

text \<open>
  X25519 with HKDF as \<open>derive private public\<close> (None where the key does not import), AES-256-GCM as a pair
  of functions, all of \<open>node:crypto\<close>.
\<close>

record sealing =
  x_pub :: "string \<Rightarrow> bytes"
  x_derive :: "string \<Rightarrow> bytes \<Rightarrow> bytes option"
  gcm_seal :: "bytes \<Rightarrow> bytes \<Rightarrow> bytes \<Rightarrow> bytes \<Rightarrow> bytes \<times> bytes"
  gcm_open :: "bytes \<Rightarrow> bytes \<Rightarrow> bytes \<Rightarrow> bytes \<Rightarrow> bytes \<Rightarrow> bytes option"

text \<open>What the algorithms promise: key agreement, decryption of what was encrypted, and the sizes.\<close>

definition sealing_ok :: "sealing \<Rightarrow> bool" where
  "sealing_ok X \<longleftrightarrow>
     (\<forall>a b. x_derive X a (x_pub X b) = x_derive X b (x_pub X a) \<and> x_derive X a (x_pub X b) \<noteq> None) \<and>
     (\<forall>a. length (x_pub X a) < 256) \<and>
     (\<forall>k iv aad pt. length (snd (gcm_seal X k iv aad pt)) = 16 \<and>
        gcm_open X k iv aad (snd (gcm_seal X k iv aad pt)) (fst (gcm_seal X k iv aad pt)) = Some pt)"

definition sealTo :: "sealing \<Rightarrow> string \<Rightarrow> bytes \<Rightarrow> bytes \<Rightarrow> bytes \<Rightarrow> string \<Rightarrow> bytes res" where
  "sealTo X eph iv hubPub plaintext aad =
     (case x_derive X eph hubPub of
        None \<Rightarrow> Inl ''invalid key''
      | Some k \<Rightarrow>
          let (ct, tag) = gcm_seal X k iv (utf8 aad) plaintext; epk = x_pub X eph in
          Inr ([byte_of (length epk)] @ epk @ iv @ tag @ ct))"

definition openAt :: "sealing \<Rightarrow> string \<Rightarrow> bytes \<Rightarrow> string \<Rightarrow> bytes res" where
  "openAt X hubPriv sealed aad =
     (if sealed = [] then Inl ''invalid key'' else
      let n = unat (hd sealed); epk = take n (drop 1 sealed); iv = take 12 (drop (1 + n) sealed);
          tag = take 16 (drop (13 + n) sealed); ct = drop (29 + n) sealed in
      case x_derive X hubPriv epk of
        None \<Rightarrow> Inl ''invalid key''
      | Some k \<Rightarrow> (case gcm_open X k iv (utf8 aad) tag ct of
          None \<Rightarrow> Inl ''unable to authenticate data''
        | Some pt \<Rightarrow> Inr pt))"

section \<open>Frames\<close>

definition FRAME_V :: jsval where
  "FRAME_V = VNum 1"

text \<open>\<open>enc(o)\<close>: \<open>Buffer.from(undefined)\<close> throws.\<close>

definition enc :: "jsval \<Rightarrow> bytes res" where
  "enc v = rbind (stringify v) (\<lambda>t. case t of Some s \<Rightarrow> Inr (utf8 s) | None \<Rightarrow> Inl ''The first argument must be of type string'')"

definition dec :: "bytes \<Rightarrow> jsval option" where
  "dec b = (case json_parse (utf8_text b) of
      Inr f \<Rightarrow> if truthy f \<and> strict_eq (field f ''v'') FRAME_V then Some f else None
    | Inl e \<Rightarrow> None)"

definition frame_id :: "jsval \<Rightarrow> jsval" where
  "frame_id f = nullish (field (field f ''manifest'') ''payloadId'')
     (nullish (field (field f ''bundle'') ''payloadId'') (nullish (field (field f ''request'') ''payloadId'') VNull))"

definition bundle_json :: "data_bundle \<Rightarrow> jsval" where
  "bundle_json b = VObj [(''payloadId'', VStr (bd_payloadId b)), (''index'', VNum (bd_index b)), (''leafHex'', VStr (bd_leafHex b)),
     (''bytesB64'', VStr (bd_bytesB64 b)), (''branch'', VArr (map VStr (bd_branch b))), (''bundleId'', VStr (bd_bundleId b))]"

definition manifest_frame :: "jsval \<Rightarrow> string \<Rightarrow> jsval" where
  "manifest_frame m last_hop = VObj [(''v'', FRAME_V), (''kind'', VStr ''manifest''), (''manifest'', m), (''lastHop'', VStr last_hop)]"

definition chunk_frame :: "jsval \<Rightarrow> jsval list \<Rightarrow> string \<Rightarrow> jsval" where
  "chunk_frame b cs last_hop = VObj [(''v'', FRAME_V), (''kind'', VStr ''chunk''), (''bundle'', b), (''custody'', VArr cs),
     (''lastHop'', VStr last_hop)]"

definition resend_frame :: "jsval \<Rightarrow> jsval" where
  "resend_frame q = VObj [(''v'', FRAME_V), (''kind'', VStr ''resend''), (''request'', q)]"

section \<open>Files\<close>

definition packFile :: "jsval \<Rightarrow> bytes \<Rightarrow> bytes res" where
  "packFile header bs = rbind (enc header) (\<lambda>h.
     if 2 ^ 32 \<le> length h then Inl ''The value is out of range'' else Inr (be 4 (length h) @ h @ bs))"

definition unpackFile :: "bytes \<Rightarrow> (jsval \<times> bytes) res" where
  "unpackFile buf =
     (if length buf < 4 then Inl ''Attempt to access memory outside buffer bounds''
      else let n = unbe (take 4 buf) in
        if length buf - 4 < n then Inl ''bad file header''
        else rbind (json_parse (utf8_text (take n (drop 4 buf)))) (\<lambda>h. Inr (h, drop (4 + n) buf)))"

section \<open>Keys by time\<close>

record revocation =
  rv_eid :: string
  rv_pub :: string
  rv_at :: int

definition keyAt :: "(string \<times> string) list \<Rightarrow> revocation list \<Rightarrow> jsval \<Rightarrow> int \<Rightarrow> string option" where
  "keyAt current revoked who at =
     (case sort_key rv_at (filter (\<lambda>r. strict_eq (VStr (rv_eid r)) who \<and> at < rv_at r) revoked) of
        r # _ \<Rightarrow> Some (rv_pub r)
      | [] \<Rightarrow> map_of current (js_String who))"

text \<open>\<open>out[eid] = keyAt(...)\<close>, where an undefined value is as good as no key.\<close>

definition keysAt :: "(string \<times> string) list \<Rightarrow> revocation list \<Rightarrow> int \<Rightarrow> (string \<times> string) list" where
  "keysAt current revoked at =
     fold (\<lambda>e out. case keyAt current revoked (VStr e) at of
         Some p \<Rightarrow> set_field e p out | None \<Rightarrow> filter (\<lambda>kv. fst kv \<noteq> e) out)
       (remdups (map rv_eid revoked)) current"

definition isRevoked :: "revocation list \<Rightarrow> jsval \<Rightarrow> int \<Rightarrow> bool" where
  "isRevoked revoked p at = (\<exists>r \<in> set revoked. strict_eq (VStr (rv_pub r)) p \<and> rv_at r \<le> at)"

section \<open>Clinic\<close>

record clinic =
  cn_kp :: keypair
  cn_eid :: string
  cn_next :: string
  cn_hubEnc :: bytes
  cn_hubSign :: "string option"
  cn_chunkSize :: nat
  cn_maxResends :: nat
  cn_store :: "(string \<times> (jsval \<times> data_bundle list)) list option"
  cn_seq :: nat
  cn_sent :: "(string \<times> (jsval \<times> data_bundle list)) list"
  cn_resent :: "(string \<times> nat) list"
  cn_seen :: "jsval list"

definition strip_dtn :: "string \<Rightarrow> string" where
  "strip_dtn e = (if take 6 e = ''dtn://'' then drop 6 e else e)"

definition strip_slash :: "string \<Rightarrow> string" where
  "strip_slash e = (if e \<noteq> [] \<and> last e = CHR ''/'' then butlast e else e)"

definition clinic_payload_id :: "clinic \<Rightarrow> int \<Rightarrow> string" where
  "clinic_payload_id c createdAt = strip_slash (strip_dtn (cn_eid c)) @ ''/'' @ show_int createdAt @ ''-'' @ show_nat (cn_seq c)"

definition file_header :: "string \<Rightarrow> jsval \<Rightarrow> int \<Rightarrow> jsval" where
  "file_header name type createdAt =
     VObj [(''name'', VStr name), (''type'', if truthy type then type else VNull), (''createdAt'', VNum createdAt)]"

definition report_meta :: "clinic \<Rightarrow> int \<Rightarrow> (string \<times> jsval) list" where
  "report_meta c createdAt = [(''clinic'', VStr (cn_eid c)), (''createdAt'', VNum createdAt)]"

text \<open>
  \<open>sendFile\<close>: the new state and the frames for \<open>next\<close>; \<open>None\<close> when \<open>prepare\<close> does not end (a chunk size
  of 0). The sequence number advances before anything can throw.
\<close>

definition sendFile :: "crypto \<Rightarrow> sealing \<Rightarrow> string \<Rightarrow> bytes \<Rightarrow> int \<Rightarrow> string \<Rightarrow> jsval \<Rightarrow> bytes \<Rightarrow> clinic \<Rightarrow>
    (clinic \<times> (string \<times> bytes) list res) option" where
  "sendFile C X eph iv createdAt name type bs c =
     (let pid = clinic_payload_id c createdAt; c1 = c\<lparr>cn_seq := cn_seq c + 1\<rparr> in
      case rbind (packFile (file_header name type createdAt) bs) (\<lambda>inner. sealTo X eph iv (cn_hubEnc c) inner pid) of
        Inl e \<Rightarrow> Some (c1, Inl e)
      | Inr sealed \<Rightarrow> (case prepare C (cn_kp c) sealed pid (report_meta c createdAt) (cn_chunkSize c) of
          None \<Rightarrow> None
        | Some (Inl e) \<Rightarrow> Some (c1, Inl e)
        | Some (Inr (m, bundles)) \<Rightarrow>
            Some (c1\<lparr>cn_sent := set_field pid (m, bundles) (cn_sent c),
                cn_store := map_option (set_field pid (m, bundles)) (cn_store c)\<rparr>,
              rmapM (\<lambda>f. rbind (enc f) (\<lambda>b. Inr (cn_next c, b)))
                (manifest_frame m (cn_eid c) # map (\<lambda>b. chunk_frame (bundle_json b) [] (cn_eid c)) bundles))))"

definition clinic_load :: "clinic \<Rightarrow> jsval \<Rightarrow> (jsval \<times> data_bundle list) option" where
  "clinic_load c pid =
     (case pid of
        VStr s \<Rightarrow> (case map_of (cn_sent c) s of
          Some p \<Rightarrow> Some p
        | None \<Rightarrow> (case cn_store c of Some st \<Rightarrow> map_of st s | None \<Rightarrow> None))
      | _ \<Rightarrow> None)"

text \<open>\<open>p.bundles[index]\<close> for a number.\<close>

definition bundle_at :: "data_bundle list \<Rightarrow> jsval \<Rightarrow> data_bundle option" where
  "bundle_at bs i = (case i of VNum n \<Rightarrow> if 0 \<le> n \<and> n < int (length bs) then Some (bs ! nat n) else None | _ \<Rightarrow> None)"

definition resend_key :: "jsval \<Rightarrow> jsval \<Rightarrow> string" where
  "resend_key pid index = js_String pid @ '' '' @ js_String index"

definition times_resent :: "clinic \<Rightarrow> string \<Rightarrow> nat" where
  "times_resent c k = (case map_of (cn_resent c) k of Some n \<Rightarrow> n | None \<Rightarrow> 0)"

fun resend_loop :: "jsval \<Rightarrow> data_bundle list \<Rightarrow> jsval list \<Rightarrow> clinic \<times> jsval list \<Rightarrow> clinic \<times> jsval list" where
  "resend_loop pid bs [] acc = acc"
| "resend_loop pid bs (index # rest) (c, out) =
     (let k = resend_key pid index in
      case bundle_at bs index of
        None \<Rightarrow> resend_loop pid bs rest (c, out)
      | Some b \<Rightarrow>
          if cn_maxResends c \<le> times_resent c k then resend_loop pid bs rest (c, out)
          else resend_loop pid bs rest (c\<lparr>cn_resent := set_field k (times_resent c k + 1) (cn_resent c)\<rparr>,
            out @ [chunk_frame (bundle_json b) [] (cn_eid c)]))"

datatype resend_verdict = Resent nat | ResendDuplicate | ResendRefused string

definition resend_indexes :: "jsval \<Rightarrow> jsval list res" where
  "resend_indexes q = (case field q ''indexes'' of
      VArr xs \<Rightarrow> Inr xs | v \<Rightarrow> if truthy v then Inl ''not iterable'' else Inr [])"

definition clinic_resend :: "jsval \<Rightarrow> jsval \<times> data_bundle list \<Rightarrow> clinic \<Rightarrow> clinic \<times> (resend_verdict \<times> jsval list) res" where
  "clinic_resend q p c =
     (let m = (if truthy (field q ''manifest'') then [manifest_frame (fst p) (cn_eid c)] else []) in
      case resend_indexes q of
        Inl e \<Rightarrow> (c, Inl e)
      | Inr xs \<Rightarrow> let (c1, fs) = resend_loop (field q ''payloadId'') (snd p) xs (c, []) in (c1, Inr (Resent (length (m @ fs)), m @ fs)))"

definition clinic_onFrame :: "crypto \<Rightarrow> bytes \<Rightarrow> clinic \<Rightarrow> clinic \<times> (resend_verdict \<times> jsval list) res" where
  "clinic_onFrame C buf c =
     (case dec buf of
        None \<Rightarrow> (c, Inr (ResendRefused ''not_a_resend_request'', []))
      | Some f \<Rightarrow>
          if \<not> strict_eq (field f ''kind'') (VStr ''resend'') then (c, Inr (ResendRefused ''not_a_resend_request'', []))
          else let q = field f ''request'' in
            (case verifyRecord C (if truthy q then q else VObj []) of
               Inl e \<Rightarrow> (c, Inl e)
             | Inr (Refuse reason) \<Rightarrow> (c, Inr (ResendRefused reason, []))
             | Inr (Accept signer) \<Rightarrow>
                 if (case cn_hubSign c of None \<Rightarrow> True | Some h \<Rightarrow> h = [] \<or> \<not> strict_eq signer (VStr h))
                   then (c, Inr (ResendRefused ''not_signed_by_hub'', []))
                 else if \<not> strict_eq (field q ''kind'') (VStr ''resend/1'') \<or> \<not> strict_eq (field q ''clinic'') (VStr (cn_eid c))
                   then (c, Inr (ResendRefused ''not_for_this_clinic'', []))
                 else if field q ''claimId'' \<in> set (cn_seen c) then (c, Inr (ResendDuplicate, []))
                 else let c1 = c\<lparr>cn_seen := cn_seen c @ [field q ''claimId'']\<rparr> in
                   (case clinic_load c1 (field q ''payloadId'') of
                      None \<Rightarrow> (c1, Inr (ResendRefused ''unknown_payload'', []))
                    | Some p \<Rightarrow> clinic_resend q p c1)))"

section \<open>Relay\<close>

record relay_node =
  rl_kp :: keypair
  rl_eid :: string
  rl_next :: string
  rl_back :: "(jsval \<times> jsval) list"
  rl_forwarded :: nat
  rl_returned :: nat

text \<open>A map keyed by a value, updated in place.\<close>

definition map_put :: "'k \<Rightarrow> 'v \<Rightarrow> ('k \<times> 'v) list \<Rightarrow> ('k \<times> 'v) list" where
  "map_put k v m = (if k \<in> set (map fst m) then map (\<lambda>e. if fst e = k then (k, v) else e) m else m @ [(k, v)])"

text \<open>\<open>route.indexOf\<close> is no method of a route that is no array (a route that is a string counts as one).\<close>

definition resend_target :: "relay_node \<Rightarrow> jsval \<Rightarrow> jsval res" where
  "resend_target r q =
     rbind (case field q ''route'' of VArr xs \<Rightarrow> Inr xs | v \<Rightarrow> if truthy v then Inl ''route.indexOf is not a function'' else Inr [])
     (\<lambda>route.
     let before = takeWhile (\<lambda>x. \<not> strict_eq x (VStr (rl_eid r))) route in
     Inr (nullish (case map_of (rl_back r) (field q ''payloadId'') of Some b \<Rightarrow> b | None \<Rightarrow> VUndef)
           (if length before < length route \<and> before \<noteq> [] then last before else VNull)))"

text \<open>The custody of one chunk frame; receipts are added at the end of its list.\<close>

definition relay_stamp :: "crypto \<Rightarrow> int \<Rightarrow> relay_node \<Rightarrow> jsval \<Rightarrow> jsval res" where
  "relay_stamp C t r f =
     (case field f ''custody'' of
        VArr cs \<Rightarrow>
          if strict_eq (field f ''kind'') (VStr ''chunk'') \<and> truthy (field f ''bundle'') then
            rbind (custodyReceipt C (rl_kp r) (field (field f ''bundle'') ''payloadId'') (field (field f ''bundle'') ''bundleId'')
                (field f ''lastHop'') (rl_eid r) (VNum t) (VNum t)) (\<lambda>rec.
            Inr (VObj (set_field ''custody'' (VArr (cs @ [rec])) (own_props f))))
          else Inr f
      | _ \<Rightarrow> Inr f)"

definition relay_onFrame :: "crypto \<Rightarrow> int \<Rightarrow> bytes \<Rightarrow> relay_node \<Rightarrow> relay_node \<times> (jsval \<times> bytes) list res" where
  "relay_onFrame C t buf r =
     (case dec buf of
        None \<Rightarrow> (r, Inr [])
      | Some f \<Rightarrow>
          if strict_eq (field f ''kind'') (VStr ''resend'') then
            (case resend_target r (field f ''request'') of
               Inl e \<Rightarrow> (r, Inl e)
             | Inr to \<Rightarrow> if truthy to then (r\<lparr>rl_returned := rl_returned r + 1\<rparr>, Inr [(to, buf)]) else (r, Inr []))
          else
            let pid = frame_id f;
                r1 = (if truthy pid \<and> truthy (field f ''lastHop'') then r\<lparr>rl_back := map_put pid (field f ''lastHop'') (rl_back r)\<rparr> else r) in
            (case rbind (relay_stamp C t r1 f) (\<lambda>g. enc (VObj (set_field ''lastHop'' (VStr (rl_eid r1)) (own_props g)))) of
               Inl e \<Rightarrow> (r1, Inl e)
             | Inr b \<Rightarrow> (r1\<lparr>rl_forwarded := rl_forwarded r1 + 1\<rparr>, Inr [(VStr (rl_next r1), b)])))"

end
