(* ===== verification/ReliefHub.thy ===== *)
theory ReliefHub
  imports Relief CustodyBlock
begin

text \<open>
  The hub of \<open>relief/kit/lib/roles.mjs\<close>. JavaScript mutates its maps in place, so an operation that throws
  keeps what it had done: every operation returns the state beside its result. A bundle is kept as the
  JSON value that arrived and read when it is checked.

  Of the shapes an unchecked bundle can have, an index that is not a number, bytes that are neither a
  string nor an array, and a branch that is not an array of strings count as exceptions; the code
  computes on with some of them. Payload ids and indexes that are objects or arrays are compared by value
  here and by identity in the code; custody that is an object counts as an exception before it is stored.
\<close>

section \<open>State\<close>

record directory =
  dir_clinics :: "(string \<times> string) list"
  dir_relays :: "(string \<times> string) list"
  dir_revoked :: "revocation list"

record stored_chunk =
  ck_bundle :: jsval
  ck_custody :: "jsval list"
  ck_at :: int
  ck_ok :: bool

record hop_transit =
  tr_from :: jsval
  tr_to :: jsval
  tr_ms :: "int option"

record report =
  rp_clinic :: jsval
  rp_root :: jsval
  rp_chunkCount :: jsval
  rp_createdAt :: jsval
  rp_verifiedAt :: int
  rp_name :: jsval
  rp_type :: jsval
  rp_bytes :: bytes
  rp_summary :: jsval
  rp_route :: "jsval list"
  rp_hops :: "hop_transit list"
  rp_resends :: nat
  rp_holds :: "hop_transit list"

datatype outcome = Verified report | RefusedReport string

record payload_entry =
  en_manifest :: "jsval option"
  en_manifestAt :: int
  en_dest :: "dest option"
  en_clinic :: jsval
  en_chunks :: "(jsval \<times> stored_chunk) list"
  en_report :: "outcome option"
  en_lastAt :: int
  en_via :: jsval
  en_origin :: jsval
  en_route :: "jsval list option"
  en_resends :: nat
  en_nextResendAt :: "int option"

record refusal =
  rf_at :: int
  rf_payload :: jsval
  rf_index :: jsval
  rf_reason :: string
  rf_hop :: "nat option"
  rf_by :: jsval
  rf_gaps :: "gap list"

record hub =
  hb_kp :: keypair
  hb_eid :: string
  hb_encPriv :: string
  hb_dir :: directory
  hb_rate :: nat
  hb_hold :: int
  hb_resendAfter :: int
  hb_maxResends :: nat
  hb_payloads :: "(jsval \<times> payload_entry) list"
  hb_refusals :: "refusal list"
  hb_paid :: "(jsval \<times> string list) list"
  hb_duplicates :: nat
  hb_resendSeq :: nat
  hb_requests :: nat

definition no_refusal :: "int \<Rightarrow> jsval \<Rightarrow> string \<Rightarrow> refusal" where
  "no_refusal now pid reason = \<lparr>rf_at = now, rf_payload = pid, rf_index = VUndef, rf_reason = reason, rf_hop = None, rf_by = VUndef,
     rf_gaps = []\<rparr>"

definition refuse :: "refusal \<Rightarrow> hub \<Rightarrow> hub" where
  "refuse r h = h\<lparr>hb_refusals := hb_refusals h @ [r]\<rparr>"

definition empty_entry :: payload_entry where
  "empty_entry = \<lparr>en_manifest = None, en_manifestAt = 0, en_dest = None, en_clinic = VUndef, en_chunks = [], en_report = None,
     en_lastAt = 0, en_via = VUndef, en_origin = VUndef, en_route = None, en_resends = 0, en_nextResendAt = None\<rparr>"

definition entry_of :: "hub \<Rightarrow> jsval \<Rightarrow> payload_entry" where
  "entry_of h pid = (case map_of (hb_payloads h) pid of Some p \<Rightarrow> p | None \<Rightarrow> empty_entry)"

definition put_entry :: "jsval \<Rightarrow> payload_entry \<Rightarrow> hub \<Rightarrow> hub" where
  "put_entry pid p h = h\<lparr>hb_payloads := map_put pid p (hb_payloads h)\<rparr>"

section \<open>A chunk\<close>

definition buffer_from :: "jsval \<Rightarrow> string res" where
  "buffer_from v = (case v of
      VStr s \<Rightarrow> Inr s
    | VArr xs \<Rightarrow> Inr (to_base64 (map (\<lambda>x. word_of_int (case js_Number x of Some n \<Rightarrow> n | None \<Rightarrow> 0)) xs))
    | _ \<Rightarrow> Inl ''The first argument must be of type string or an instance of Buffer'')"

definition string_list :: "jsval \<Rightarrow> string list res" where
  "string_list v = (case v of
      VArr xs \<Rightarrow> rmapM (\<lambda>x. case x of VStr s \<Rightarrow> Inr s | _ \<Rightarrow> Inl ''The first argument must be of type string'') xs
    | _ \<Rightarrow> Inl ''branch is not iterable'')"

text \<open>The bundle as \<open>receiveBundle\<close> reads it; \<open>leafHex\<close> and \<open>bundleId\<close> are compared as they are.\<close>

definition bundle_of_json :: "jsval \<Rightarrow> data_bundle res" where
  "bundle_of_json b =
     rbind (buffer_from (field b ''bytesB64'')) (\<lambda>bytes. rbind (string_list (field b ''branch'')) (\<lambda>br.
     case field b ''index'' of
       VNum n \<Rightarrow> Inr \<lparr>bd_payloadId = js_String (field b ''payloadId''), bd_index = n, bd_leafHex = js_String (field b ''leafHex''),
         bd_bytesB64 = bytes, bd_branch = br, bd_bundleId = js_String (field b ''bundleId'')\<rparr>
     | _ \<Rightarrow> Inl ''index''))"

definition revoked_hop :: "revocation list \<Rightarrow> int \<Rightarrow> jsval list \<Rightarrow> nat option" where
  "revoked_hop rvs at cs = (let before = takeWhile (\<lambda>r. \<not> isRevoked rvs (field r ''signerPub'') at) cs in
     if length before < length cs then Some (length before) else None)"

definition pay_one :: "jsval \<Rightarrow> string \<Rightarrow> (jsval \<times> string list) list \<Rightarrow> (jsval \<times> string list) list" where
  "pay_one who bid paid = map_put who (case map_of paid who of
      Some ids \<Rightarrow> if bid \<in> set ids then ids else ids @ [bid] | None \<Rightarrow> [bid]) paid"

text \<open>
  \<open>check(id, p, index)\<close> on the entry, without the bookkeeping of a refusal: the new destination, and either
  the refusal or the acceptance.
\<close>

datatype checked = CheckOk | CheckBad string "nat option" jsval "gap list"

definition check_chunk :: "crypto \<Rightarrow> directory \<Rightarrow> jsval \<Rightarrow> dest \<Rightarrow> stored_chunk \<Rightarrow> dest \<times> checked res" where
  "check_chunk C dir clinic d c =
     (case bundle_of_json (ck_bundle c) of
        Inl e \<Rightarrow> (d, Inl e)
      | Inr b \<Rightarrow> (case receiveBundle C d b of
          (Refuse reason, d1) \<Rightarrow> (d1, Inr (CheckBad reason None VUndef []))
        | (Accept _, d1) \<Rightarrow> (d1,
            case revoked_hop (dir_revoked dir) (ck_at c) (ck_custody c) of
              Some i \<Rightarrow> Inr (CheckBad ''key_revoked'' (Some i) (field (ck_custody c ! i) ''thisHop'') [])
            | None \<Rightarrow>
                rbind (auditCustodyChain C (ck_custody c) (bd_bundleId b) (keysAt (dir_relays dir) (dir_revoked dir) (ck_at c)) clinic VNull)
                  (\<lambda>v. case v of
                     ChainBad reason i \<Rightarrow> Inr (CheckBad reason i (case i of Some j \<Rightarrow> if j < length (ck_custody c)
                         then field (ck_custody c ! j) ''thisHop'' else VUndef | None \<Rightarrow> VUndef) [])
                   | ChainOk a \<Rightarrow> Inr (if complete a then CheckOk else CheckBad ''uncustodied_gap'' None VUndef (gaps a))))))"

definition pay_chunk :: "stored_chunk \<Rightarrow> (jsval \<times> string list) list \<Rightarrow> (jsval \<times> string list) list" where
  "pay_chunk c paid = fold (\<lambda>r. pay_one (field r ''thisHop'') (js_String (field (ck_bundle c) ''bundleId''))) (ck_custody c) paid"

definition hub_check :: "crypto \<Rightarrow> int \<Rightarrow> jsval \<Rightarrow> jsval \<Rightarrow> hub \<Rightarrow> hub \<times> unit res" where
  "hub_check C now pid index h =
     (let p = entry_of h pid in
      case (map_of (en_chunks p) index, en_dest p) of
        (Some c, Some d) \<Rightarrow>
          (case check_chunk C (hb_dir h) (en_clinic p) d c of
             (d1, Inl e) \<Rightarrow> (put_entry pid (p\<lparr>en_dest := Some d1\<rparr>) h, Inl e)
           | (d1, Inr CheckOk) \<Rightarrow>
               ((put_entry pid (p\<lparr>en_dest := Some d1, en_chunks := map_put index (c\<lparr>ck_ok := True\<rparr>) (en_chunks p)\<rparr>) h)
                  \<lparr>hb_paid := pay_chunk c (hb_paid h)\<rparr>, Inr ())
           | (d1, Inr (CheckBad reason i who gs)) \<Rightarrow>
               (refuse \<lparr>rf_at = now, rf_payload = pid, rf_index = index, rf_reason = reason, rf_hop = i, rf_by = who, rf_gaps = gs\<rparr>
                  (put_entry pid (p\<lparr>en_dest := Some d1, en_chunks := filter (\<lambda>x. fst x \<noteq> index) (en_chunks p)\<rparr>) h), Inr ()))
      | _ \<Rightarrow> (h, Inr ()))"

fun check_all :: "crypto \<Rightarrow> int \<Rightarrow> jsval \<Rightarrow> jsval list \<Rightarrow> hub \<Rightarrow> hub \<times> unit res" where
  "check_all C now pid [] h = (h, Inr ())"
| "check_all C now pid (i # ixs) h =
     (if (case map_of (en_chunks (entry_of h pid)) i of Some c \<Rightarrow> ck_ok c | None \<Rightarrow> True) then check_all C now pid ixs h
      else (case hub_check C now pid i h of
          (h1, Inl e) \<Rightarrow> (h1, Inl e)
        | (h1, Inr _) \<Rightarrow> check_all C now pid ixs h1))"

section \<open>A complete report\<close>

fun chunk_transits :: "jsval \<Rightarrow> jsval \<Rightarrow> jsval list \<Rightarrow> hop_transit list \<times> jsval \<times> jsval" where
  "chunk_transits node at [] = ([], node, at)"
| "chunk_transits node at (r # rs) =
     (let (ts, n, a) = chunk_transits (field r ''thisHop'') (field r ''forwardedAt'') rs in
      (\<lparr>tr_from = node, tr_to = field r ''thisHop'',
        tr_ms = (case (js_Number (field r ''receivedAt''), js_Number at) of (Some x, Some y) \<Rightarrow> Some (x - y) | _ \<Rightarrow> None)\<rparr> # ts, n, a))"

definition all_transits :: "jsval \<Rightarrow> jsval \<Rightarrow> string \<Rightarrow> stored_chunk \<Rightarrow> hop_transit list" where
  "all_transits clinic createdAt hub_eid c =
     (let (ts, n, a) = chunk_transits clinic createdAt (ck_custody c) in
      ts @ [\<lparr>tr_from = n, tr_to = VStr hub_eid, tr_ms = (case js_Number a of Some y \<Rightarrow> Some (ck_at c - y) | None \<Rightarrow> None)\<rparr>])"

definition is_json_name :: "jsval \<Rightarrow> bool" where
  "is_json_name name = (let s = js_String name in 5 \<le> length s \<and> toLowerCase (drop (length s - 5) s) = ''.json'')"

definition summary_of :: "jsval \<Rightarrow> bytes \<Rightarrow> jsval" where
  "summary_of name bs = (if is_json_name name then (case json_parse (utf8_text bs) of Inr v \<Rightarrow> v | Inl e \<Rightarrow> VNull) else VNull)"

definition make_report :: "int \<Rightarrow> string \<Rightarrow> int \<Rightarrow> payload_entry \<Rightarrow> jsval \<Rightarrow> jsval \<Rightarrow> bytes \<Rightarrow> stored_chunk \<Rightarrow> report" where
  "make_report now hub_eid hold p m header bs first =
     (let created = field (field m ''meta'') ''createdAt''; ts = all_transits (en_clinic p) created hub_eid first in
      \<lparr>rp_clinic = en_clinic p, rp_root = field m ''root'', rp_chunkCount = field m ''chunkCount'', rp_createdAt = created,
       rp_verifiedAt = now, rp_name = field header ''name'', rp_type = field header ''type'', rp_bytes = bs,
       rp_summary = summary_of (field header ''name'') bs,
       rp_route = en_clinic p # map (\<lambda>r. field r ''thisHop'') (ck_custody first) @ [VStr hub_eid],
       rp_hops = ts, rp_resends = en_resends p,
       rp_holds = filter (\<lambda>t. case tr_ms t of Some n \<Rightarrow> hold \<le> n | None \<Rightarrow> False) ts\<rparr>)"

definition open_report :: "sealing \<Rightarrow> string \<Rightarrow> jsval \<Rightarrow> dest \<Rightarrow> (jsval \<times> bytes) res" where
  "open_report X encPriv pid d = rbind (reassemble d) (\<lambda>sealed.
     (case pid of VStr s \<Rightarrow> rbind (openAt X encPriv sealed s) unpackFile | _ \<Rightarrow> Inl ''The first argument must be of type string''))"

text \<open>The part of \<open>finalize\<close> after the chunks are checked.\<close>

definition complete_report :: "sealing \<Rightarrow> int \<Rightarrow> jsval \<Rightarrow> jsval \<Rightarrow> hub \<Rightarrow> hub \<times> unit res" where
  "complete_report X now pid m h =
     (let p = entry_of h pid in
      if (case js_Number (field m ''chunkCount'') of Some n \<Rightarrow> int (length (en_chunks p)) < n | None \<Rightarrow> False) then (h, Inr ())
      else (case en_dest p of
          None \<Rightarrow> (h, Inr ())
        | Some d \<Rightarrow> (case open_report X (hb_encPriv h) pid d of
            Inl e \<Rightarrow> (refuse (no_refusal now pid ''decrypt_failed'') (put_entry pid (p\<lparr>en_report := Some (RefusedReport ''decrypt_failed'')\<rparr>) h), Inr ())
          | Inr (header, bs) \<Rightarrow>
              (case rbind (get_prop header ''name'') (\<lambda>n. case map_of (en_chunks p) (VNum 0) of
                  None \<Rightarrow> Inl ''Cannot read properties of undefined'' | Some first \<Rightarrow> Inr first) of
                 Inl e \<Rightarrow> (h, Inl e)
               | Inr first \<Rightarrow>
                   (put_entry pid (p\<lparr>en_report := Some (Verified (make_report now (hb_eid h) (hb_hold h) p m header bs first))\<rparr>) h, Inr ())))))"

text \<open>The manifest is checked under the key of the clinic it names at the time it arrived.\<close>

definition open_manifest :: "crypto \<Rightarrow> directory \<Rightarrow> int \<Rightarrow> jsval \<Rightarrow> dest res" where
  "open_manifest C dir at m =
     (let clinic = field (field m ''meta'') ''clinic'' in
      if isRevoked (dir_revoked dir) (field m ''signerPub'') at then Inl ''key_revoked''
      else (case keyAt (dir_clinics dir) (dir_revoked dir) clinic at of
          None \<Rightarrow> Inl ''unknown_clinic''
        | Some p \<Rightarrow> if p = [] then Inl ''unknown_clinic'' else makeDest C m [] (Some p)))"

definition pin_manifest :: "crypto \<Rightarrow> int \<Rightarrow> jsval \<Rightarrow> jsval \<Rightarrow> hub \<Rightarrow> hub \<times> bool" where
  "pin_manifest C now pid m h =
     (let p = entry_of h pid; clinic = field (field m ''meta'') ''clinic'' in
      if en_dest p \<noteq> None then (h, True)
      else (case open_manifest C (hb_dir h) (en_manifestAt p) m of
          Inl reason \<Rightarrow> (refuse (no_refusal now pid reason\<lparr>rf_by := clinic\<rparr>) (put_entry pid (p\<lparr>en_manifest := None\<rparr>) h), False)
        | Inr d \<Rightarrow> (put_entry pid (p\<lparr>en_clinic := clinic, en_dest := Some d\<rparr>) h, True)))"

definition finalize :: "crypto \<Rightarrow> sealing \<Rightarrow> int \<Rightarrow> jsval \<Rightarrow> hub \<Rightarrow> hub \<times> unit res" where
  "finalize C X now pid h =
     (let p = entry_of h pid in
      case en_manifest p of
        None \<Rightarrow> (h, Inr ())
      | Some m \<Rightarrow>
          if en_report p \<noteq> None then (h, Inr ())
          else (case pin_manifest C now pid m h of
              (h1, False) \<Rightarrow> (h1, Inr ())
            | (h1, True) \<Rightarrow> (case check_all C now pid (map fst (en_chunks (entry_of h1 pid))) h1 of
                (h2, Inl e) \<Rightarrow> (h2, Inl e)
              | (h2, Inr _) \<Rightarrow> complete_report X now pid m h2)))"

section \<open>Frames\<close>

definition seen_from :: "int \<Rightarrow> jsval \<Rightarrow> payload_entry \<Rightarrow> payload_entry" where
  "seen_from at last_hop p = p\<lparr>en_lastAt := at, en_via := (if truthy last_hop then last_hop else en_via p)\<rparr>"

text \<open>\<open>f.custody\<close> as the handler walks it: an entry that is null, or custody that is no array, throws.\<close>

definition custody_list :: "jsval \<Rightarrow> jsval list res" where
  "custody_list c =
     (case c of
        VArr cs \<Rightarrow> if VNull \<in> set cs then Inl ''Cannot read properties of null'' else Inr cs
      | _ \<Rightarrow> if truthy c then Inl ''f.custody.map is not a function'' else Inr [])"

definition note_route :: "jsval list \<Rightarrow> payload_entry \<Rightarrow> payload_entry" where
  "note_route cs p =
     (case cs of
        [] \<Rightarrow> p
      | c # _ \<Rightarrow> p\<lparr>en_origin := (if \<not> truthy (en_clinic p) \<and> truthy (field c ''prevHop'') then field c ''prevHop'' else en_origin p),
          en_route := Some (field c ''prevHop'' # map (\<lambda>r. field r ''thisHop'') cs)\<rparr>)"

definition is_verified :: "payload_entry \<Rightarrow> bool" where
  "is_verified p = (case en_report p of Some (Verified r) \<Rightarrow> True | _ \<Rightarrow> False)"

definition ingest_manifest :: "crypto \<Rightarrow> sealing \<Rightarrow> int \<Rightarrow> int \<Rightarrow> jsval \<Rightarrow> jsval \<Rightarrow> hub \<Rightarrow> hub \<times> unit res" where
  "ingest_manifest C X now at pid f h =
     (let p = seen_from at (field f ''lastHop'') (entry_of h pid) in
      finalize C X now pid
        (case en_manifest p of
           None \<Rightarrow> put_entry pid (if truthy (field f ''manifest'') then p\<lparr>en_manifest := Some (field f ''manifest''), en_manifestAt := at\<rparr>
             else p\<lparr>en_manifestAt := at\<rparr>) h
         | Some m \<Rightarrow> (put_entry pid p h)\<lparr>hb_duplicates := hb_duplicates h + 1\<rparr>))"

definition ingest_chunk :: "crypto \<Rightarrow> sealing \<Rightarrow> int \<Rightarrow> int \<Rightarrow> jsval \<Rightarrow> jsval \<Rightarrow> hub \<Rightarrow> hub \<times> unit res" where
  "ingest_chunk C X now at pid f h =
     (let p0 = seen_from at (field f ''lastHop'') (entry_of h pid) in
      case custody_list (field f ''custody'') of
        Inl e \<Rightarrow> (put_entry pid p0 h, Inl e)
      | Inr cs \<Rightarrow>
          let p = note_route cs p0; h1 = put_entry pid p h in
          (case get_prop (field f ''bundle'') ''index'' of
             Inl e \<Rightarrow> (h1, Inl e)
           | Inr index \<Rightarrow>
               if index \<in> set (map fst (en_chunks p)) \<or> is_verified p
                 then (h1\<lparr>hb_duplicates := hb_duplicates h1 + 1\<rparr>, Inr ())
               else finalize C X now pid (put_entry pid (p\<lparr>en_chunks :=
                 en_chunks p @ [(index, \<lparr>ck_bundle = field f ''bundle'', ck_custody = cs, ck_at = at, ck_ok = False\<rparr>)]\<rparr>) h1)))"

definition hub_ingest :: "crypto \<Rightarrow> sealing \<Rightarrow> int \<Rightarrow> int \<Rightarrow> bytes \<Rightarrow> hub \<Rightarrow> hub \<times> jsval res" where
  "hub_ingest C X now at buf h =
     (case dec buf of
        None \<Rightarrow> (refuse (no_refusal now VUndef ''unreadable_frame'') h, Inr VNull)
      | Some f \<Rightarrow>
          let pid = frame_id f in
          if strict_eq (field f ''kind'') (VStr ''manifest'') \<and> truthy pid then
            (let (h1, r) = ingest_manifest C X now at pid f h in (h1, rbind r (\<lambda>_. Inr pid)))
          else if strict_eq (field f ''kind'') (VStr ''chunk'') \<and> truthy pid then
            (let (h1, r) = ingest_chunk C X now at pid f h in (h1, rbind r (\<lambda>_. Inr pid)))
          else (refuse (no_refusal now VUndef ''unknown_frame_kind'') h, Inr VNull))"

section \<open>Resend requests\<close>

definition missing_indexes :: "payload_entry \<Rightarrow> jsval list" where
  "missing_indexes p =
     (case en_manifest p of
        None \<Rightarrow> []
      | Some m \<Rightarrow> filter (\<lambda>i. i \<notin> set (map fst (en_chunks p)))
          (map (\<lambda>i. VNum (int i)) [0..<(case field m ''chunkCount'' of VNum n \<Rightarrow> nat n | _ \<Rightarrow> 0)]))"

definition entry_clinic :: "payload_entry \<Rightarrow> jsval" where
  "entry_clinic p = nullish (en_clinic p)
     (nullish (case en_manifest p of Some m \<Rightarrow> field (field m ''meta'') ''clinic'' | None \<Rightarrow> VUndef) (en_origin p))"

definition resend_due :: "hub \<Rightarrow> int \<Rightarrow> payload_entry \<Rightarrow> bool" where
  "resend_due h t p \<longleftrightarrow> en_report p = None \<and> truthy (en_via p) \<and> en_resends p < hb_maxResends h \<and>
     truthy (entry_clinic p) \<and> is_pinned (dir_clinics (hb_dir h)) (entry_clinic p) \<and>
     max (en_lastAt p + hb_resendAfter h) (case en_nextResendAt p of Some n \<Rightarrow> n | None \<Rightarrow> 0) \<le> t"

definition resend_request :: "crypto \<Rightarrow> hub \<Rightarrow> int \<Rightarrow> jsval \<Rightarrow> payload_entry \<Rightarrow> jsval res" where
  "resend_request C h t pid p = signRecord C (hb_kp h) (VObj
     [(''kind'', VStr ''resend/1''), (''payloadId'', pid), (''clinic'', entry_clinic p), (''manifest'', VBool (en_manifest p = None)),
      (''indexes'', VArr (missing_indexes p)),
      (''route'', VArr (case en_route p of Some r \<Rightarrow> r | None \<Rightarrow> [entry_clinic p, en_via p])),
      (''seq'', VNum (int (hb_resendSeq h))), (''at'', VNum t)])"

fun tick_loop :: "crypto \<Rightarrow> int \<Rightarrow> jsval list \<Rightarrow> hub \<times> (jsval \<times> bytes) list \<Rightarrow> hub \<times> (jsval \<times> bytes) list res" where
  "tick_loop C t [] (h, out) = (h, Inr out)"
| "tick_loop C t (pid # rest) (h, out) =
     (let p = entry_of h pid in
      if \<not> resend_due h t p then tick_loop C t rest (h, out)
      else let h1 = h\<lparr>hb_resendSeq := hb_resendSeq h + 1\<rparr> in
        (case resend_request C h t pid p of
           Inl e \<Rightarrow> (h1, Inl e)
         | Inr q \<Rightarrow>
             let h2 = (put_entry pid (p\<lparr>en_resends := en_resends p + 1,
                   en_nextResendAt := Some (t + hb_resendAfter h * 2 ^ (en_resends p + 1))\<rparr>) h1)\<lparr>hb_requests := hb_requests h + 1\<rparr>
             in (case enc (resend_frame q) of
                   Inl e \<Rightarrow> (h2, Inl e)
                 | Inr b \<Rightarrow> tick_loop C t rest (h2, out @ [(en_via p, b)]))))"

definition hub_tick :: "crypto \<Rightarrow> int \<Rightarrow> hub \<Rightarrow> hub \<times> (jsval \<times> bytes) list res" where
  "hub_tick C t h = tick_loop C t (map fst (hb_payloads h)) (h, [])"

section \<open>What the hub reports\<close>

definition setDirectory :: "directory \<Rightarrow> hub \<Rightarrow> hub" where
  "setDirectory d h = h\<lparr>hb_dir := d\<rparr>"

definition hub_report :: "hub \<Rightarrow> jsval \<Rightarrow> outcome option" where
  "hub_report h pid = (case map_of (hb_payloads h) pid of Some p \<Rightarrow> en_report p | None \<Rightarrow> None)"

definition paidIds :: "hub \<Rightarrow> (jsval \<times> string list) list" where
  "paidIds h = map (\<lambda>(who, ids). (who, sort ids)) (hb_paid h)"

definition payouts :: "hub \<Rightarrow> (jsval \<times> nat \<times> nat) list" where
  "payouts h = map (\<lambda>(who, ids). (who, length ids, length ids * hb_rate h)) (hb_paid h)"

definition new_hub :: "keypair \<Rightarrow> string \<Rightarrow> string \<Rightarrow> directory \<Rightarrow> nat \<Rightarrow> int \<Rightarrow> int \<Rightarrow> nat \<Rightarrow> hub" where
  "new_hub kp e encPriv dir rate hold after maxr =
     \<lparr>hb_kp = kp, hb_eid = e, hb_encPriv = encPriv, hb_dir = dir, hb_rate = rate, hb_hold = hold, hb_resendAfter = after,
      hb_maxResends = maxr, hb_payloads = [], hb_refusals = [], hb_paid = [], hb_duplicates = 0, hb_resendSeq = 0, hb_requests = 0\<rparr>"

end
