(* ===== verification/Bpsec.thy ===== *)
theory Bpsec
  imports CustodyBlock
begin

text \<open>
  transport/bpv7/bpsec.mjs: Block Integrity Blocks with the BIB-HMAC-SHA2 context. HMAC and the AES key
  wrap are those of \<open>node:crypto\<close>, parameters here. What the wire chooses (the parsed security block) is
  a \<open>jsval\<close> of any shape, and an exception outside the code's own try is an \<open>Inl\<close>.
\<close>

section \<open>Constants and the primitives\<close>

definition SC_BIB_HMAC_SHA2 :: jsval where "SC_BIB_HMAC_SHA2 = VNum 1"
definition HMAC256 :: jsval where "HMAC256 = VNum 5"
definition HMAC384 :: jsval where "HMAC384 = VNum 6"
definition SHA_VARIANT :: jsval where "SHA_VARIANT = VNum 1"
definition WRAPPED_KEY :: jsval where "WRAPPED_KEY = VNum 2"
definition SCOPE_FLAGS :: jsval where "SCOPE_FLAGS = VNum 3"
definition RESULT_MAC :: jsval where "RESULT_MAC = VNum 1"
definition BCB :: jsval where "BCB = VNum 12"

record macs =
  m_hmac :: "string \<Rightarrow> bytes \<Rightarrow> bytes \<Rightarrow> bytes"
  m_unwrap :: "bytes \<Rightarrow> bytes \<Rightarrow> bytes option"

definition HASH :: "jsval \<Rightarrow> string option" where
  "HASH v = map_of [(''5'', ''sha256''), (''6'', ''sha384''), (''7'', ''sha512'')] (js_String v)"

definition mac :: "macs \<Rightarrow> jsval \<Rightarrow> bytes \<Rightarrow> bytes \<Rightarrow> bytes res" where
  "mac M variant key data =
     (case HASH variant of None \<Rightarrow> Inl ''The \"hmac\" argument must be of type string'' | Some h \<Rightarrow> Inr (m_hmac M h key data))"

section \<open>What the MAC covers\<close>

definition primaryBytes :: "bpv7 \<Rightarrow> bytes res" where
  "primaryBytes b = rbind (encodeBundle b) (\<lambda>all. rbind (decodeAt (drop 1 all)) (\<lambda>(v, r).
     Inr (take (length (drop 1 all) - length r) (drop 1 all))))"

definition uints :: "jsval list \<Rightarrow> bytes res" where
  "uints ns = rbind (rmapM encode ns) (\<lambda>bs. Inr (concat bs))"

text \<open>\<open>scope & 7\<close>: the three flag bits.\<close>

definition scope_bits :: "jsval \<Rightarrow> nat res" where
  "scope_bits v =
     (case to_prim v of
        VBig _ \<Rightarrow> Inl ''Cannot mix BigInt and other types''
      | _ \<Rightarrow> Inr (case js_Number v of None \<Rightarrow> 0 | Some n \<Rightarrow> nat (n mod 8)))"

datatype ippt_mode = RFC9173 | ION

text \<open>A target is the primary block (\<open>None\<close>, the code's \<open>{ number: 0 }\<close>) or a block of the bundle.\<close>

definition on_flag :: "bool \<Rightarrow> bytes res \<Rightarrow> bytes res" where
  "on_flag c r = (if c then r else Inr [])"

definition target_part :: "bpv7 \<Rightarrow> block option \<Rightarrow> ippt_mode \<Rightarrow> bool \<Rightarrow> bytes res" where
  "target_part b target mode a3Primary =
     (case target of
        None \<Rightarrow> rbind (primaryBytes b) (\<lambda>p. if a3Primary then encode (VBytes p) else Inr p)
      | Some t \<Rightarrow>
          if mode = ION then sealBlock [b_type t, b_number t, VNum 0, nullish (b_crcType t) CRC_NONE, VBytes (b_data t)]
            (nullish (b_crcType t) CRC_NONE)
          else encode (VBytes (b_data t)))"

definition target_header :: "block option \<Rightarrow> bytes res" where
  "target_header target =
     (case target of None \<Rightarrow> Inr [] | Some t \<Rightarrow> uints [b_type t, b_number t, nullish (b_flags t) (VNum 0)])"

definition ippt :: "bpv7 \<Rightarrow> block option \<Rightarrow> jsval \<Rightarrow> jsval \<Rightarrow> jsval \<Rightarrow> ippt_mode \<Rightarrow> bool \<Rightarrow> bytes res" where
  "ippt b target bib_number bib_flags scope mode a3Primary =
     rbind (scope_bits scope) (\<lambda>s. rbind (encode (VNum (int s))) (\<lambda>p0.
     rbind (on_flag (target \<noteq> None \<and> odd s) (primaryBytes b)) (\<lambda>p1.
     rbind (on_flag (odd (s div 2)) (target_header target)) (\<lambda>p2.
     rbind (on_flag (odd (s div 4)) (uints [BIB, bib_number, nullish bib_flags (VNum 0)])) (\<lambda>p3.
     rbind (target_part b target mode a3Primary) (\<lambda>p4. Inr (p0 @ p1 @ p2 @ p3 @ p4)))))))"

section \<open>Adding a block\<close>

definition target_of :: "bpv7 \<Rightarrow> jsval \<Rightarrow> block option option" where
  "target_of b n = (if strict_eq n (VNum 0) then Some None
     else map_option Some (find (\<lambda>x. strict_eq (b_number x) n) (bp_blocks b)))"

definition strip_crcs :: "bpv7 \<Rightarrow> jsval list \<Rightarrow> bpv7" where
  "strip_crcs b targets =
     b\<lparr>bp_primary := (if VNum 0 \<in> set targets then (bp_primary b)\<lparr>p_crcType := CRC_NONE\<rparr> else bp_primary b),
       bp_blocks := map (\<lambda>x. if \<exists>t \<in> set targets. strict_eq t (b_number x) then x\<lparr>b_crcType := CRC_NONE\<rparr> else x) (bp_blocks b)\<rparr>"

definition bib_result :: "macs \<Rightarrow> bpv7 \<Rightarrow> jsval \<Rightarrow> jsval \<Rightarrow> bytes \<Rightarrow> jsval \<Rightarrow> jsval \<Rightarrow> ippt_mode \<Rightarrow> jsval \<Rightarrow> jsval res" where
  "bib_result M b number flags key variant scope mode n =
     (case target_of b n of
        None \<Rightarrow> Inl ''no block to target''
      | Some t \<Rightarrow>
          if (case t of Some x \<Rightarrow> strict_eq (b_type x) BIB \<or> strict_eq (b_type x) BCB | None \<Rightarrow> False)
            then Inl ''a BIB must not target a security block''
          else rbind (ippt b t number flags scope mode False) (\<lambda>p. rbind (mac M variant key p) (\<lambda>h.
            Inr (VArr [VArr [RESULT_MAC, VBytes h]]))))"

definition bib_params :: "jsval \<Rightarrow> jsval \<Rightarrow> jsval" where
  "bib_params variant scope = VArr [VArr [SHA_VARIANT, variant], VArr [SCOPE_FLAGS, scope]]"

definition asb_bytes :: "jsval list \<Rightarrow> jsval \<Rightarrow> jsval \<Rightarrow> jsval \<Rightarrow> jsval list \<Rightarrow> bytes res" where
  "asb_bytes targets source variant scope results =
     uints [VArr targets, SC_BIB_HMAC_SHA2, VNum 1, source, bib_params variant scope, VArr results]"

text \<open>\<open>None\<close>: \<open>blocks.pop()\<close> of a bundle without blocks, whose \<open>undefined\<close> becomes the last block.\<close>

definition addBib :: "macs \<Rightarrow> bpv7 \<Rightarrow> jsval list \<Rightarrow> bytes \<Rightarrow> string \<Rightarrow> jsval \<Rightarrow> jsval \<Rightarrow> jsval \<Rightarrow> jsval \<Rightarrow> jsval \<Rightarrow> ippt_mode \<Rightarrow>
    (bpv7 option) res" where
  "addBib M b0 targets key source variant scope flags crcType number mode =
     (if HASH variant = None then Inl ''unknown SHA variant'' else
      let b = strip_crcs b0 targets; num = nullish number (VNum (nextBlockNumber b)) in
      rbind (rmapM (bib_result M b num flags key variant scope mode) targets) (\<lambda>results.
      rbind (encodeEid source) (\<lambda>src. rbind (asb_bytes targets src variant scope results) (\<lambda>asb.
      Inr (if bp_blocks b = [] then None else Some (b\<lparr>bp_blocks := butlast (bp_blocks b) @
        [\<lparr>b_type = BIB, b_number = num, b_flags = flags, b_crcType = crcType, b_data = asb\<rparr>, last (bp_blocks b)]\<rparr>))))))"

section \<open>Parsing a security block\<close>

record asb =
  a_targets :: jsval
  a_context :: jsval
  a_flags :: jsval
  a_source :: string
  a_params :: "(jsval \<times> jsval) list"
  a_results :: jsval

text \<open>
  An element of an array pattern \<open>[k, v]\<close>: what is not iterable throws. A string or a map is iterable too;
  its elements are never the numbers that are looked up.
\<close>

definition pair_of :: "jsval \<Rightarrow> (jsval \<times> jsval) res" where
  "pair_of v =
     (case v of
        VArr vs \<Rightarrow> Inr (elem vs 0, elem vs 1)
      | VBytes bs \<Rightarrow> rbind (js_index v 0) (\<lambda>a. rbind (js_index v 1) (\<lambda>b. Inr (a, b)))
      | VStr _ \<Rightarrow> Inr (VUndef, VUndef)
      | VMap _ \<Rightarrow> Inr (VUndef, VUndef)
      | _ \<Rightarrow> Inl ''is not iterable'')"

text \<open>\<open>new Map(pairs)\<close>: the last of two equal keys wins, so the pairs are kept latest first.\<close>

definition param_map :: "jsval \<Rightarrow> (jsval \<times> jsval) list res" where
  "param_map v =
     (case v of
        VArr vs \<Rightarrow> rbind (rmapM pair_of vs) (\<lambda>kvs. Inr (rev kvs))
      | _ \<Rightarrow> Inl ''map is not a function'')"

definition param :: "asb \<Rightarrow> jsval \<Rightarrow> jsval" where
  "param a k = (case map_of (a_params a) k of Some v \<Rightarrow> v | None \<Rightarrow> VUndef)"

definition parseAsb :: "bytes \<Rightarrow> asb res" where
  "parseAsb data =
     rbind (decodeAt data) (\<lambda>(targets, r1). rbind (decodeAt r1) (\<lambda>(ctx, r2). rbind (decodeAt r2) (\<lambda>(fl, r3).
     rbind (decodeAt r3) (\<lambda>(src, r4). rbind (decodeEid src) (\<lambda>source. rbind (fragment_bit fl) (\<lambda>has.
     rbind (if has then rbind (decodeAt r4) (\<lambda>(ps, r). rbind (param_map ps) (\<lambda>m. Inr (m, r))) else Inr ([], r4)) (\<lambda>(params, r5).
     rbind (decodeAt r5) (\<lambda>(results, r6).
       if r6 \<noteq> [] then Inl ''trailing bytes in security block''
       else Inr \<lparr>a_targets = targets, a_context = ctx, a_flags = fl, a_source = source, a_params = params, a_results = results\<rparr>))))))))"

section \<open>Verifying\<close>

text \<open>\<open>v.length\<close>, which is \<open>undefined\<close> (no iteration) where the value has none.\<close>

definition js_length :: "jsval \<Rightarrow> nat res" where
  "js_length v =
     (case v of
        VUndef \<Rightarrow> Inl ''Cannot read properties of undefined''
      | VNull \<Rightarrow> Inl ''Cannot read properties of null''
      | VArr vs \<Rightarrow> Inr (length vs)
      | VBytes bs \<Rightarrow> Inr (length bs)
      | VStr s \<Rightarrow> Inr (length (utf16_units (utf8 s)))
      | _ \<Rightarrow> Inr 0)"

fun find_mac :: "jsval list \<Rightarrow> jsval res" where
  "find_mac [] = Inr VUndef"
| "find_mac (r # rs) = rbind (pair_of r) (\<lambda>(i, v). if strict_eq i RESULT_MAC then Inr r else find_mac rs)"

text \<open>\<open>(x || []).find(([id]) => id === RESULT_MAC)\<close>; the elements of a byte string are numbers.\<close>

definition mac_result :: "jsval \<Rightarrow> jsval res" where
  "mac_result x =
     (case x of
        VArr rs \<Rightarrow> find_mac rs
      | VBytes bs \<Rightarrow> if bs = [] then Inr VUndef else Inl ''number is not iterable''
      | _ \<Rightarrow> if truthy x then Inl ''find is not a function'' else Inr VUndef)"

text \<open>\<open>Buffer.from(v)\<close>.\<close>

definition buffer_from_value :: "jsval \<Rightarrow> bytes res" where
  "buffer_from_value v =
     (case v of
        VBytes bs \<Rightarrow> Inr bs
      | VStr s \<Rightarrow> Inr (utf8 s)
      | VArr xs \<Rightarrow> Inr (map to_uint8 xs)
      | _ \<Rightarrow> Inl ''The first argument must be of type string or an instance of Buffer'')"

definition unwrapKey :: "macs \<Rightarrow> bytes \<Rightarrow> jsval \<Rightarrow> bytes res" where
  "unwrapKey M kek wrapped =
     (if length kek \<notin> {16, 24, 32} then Inl ''no AES key wrap for this key''
      else rbind (buffer_from_value wrapped) (\<lambda>w. case m_unwrap M kek w of Some k \<Rightarrow> Inr k | None \<Rightarrow> Inl ''unable to authenticate data''))"

datatype bib_verdict = BibsOk "(jsval \<times> string \<times> jsval) list" nat | BibsBad string jsval jsval

definition mac_matches :: "macs \<Rightarrow> jsval \<Rightarrow> bytes \<Rightarrow> bytes res \<Rightarrow> bytes \<Rightarrow> bool res" where
  "mac_matches M variant key input got = rbind input (\<lambda>p. rbind (mac M variant key p) (\<lambda>h. Inr (got = h)))"

text \<open>One target: \<open>Inr (Some n)\<close> when its MAC holds (\<open>n = 1\<close> in the older form), \<open>Inr None\<close> on a mismatch.\<close>

definition target_mac :: "macs \<Rightarrow> bpv7 \<Rightarrow> block \<Rightarrow> jsval \<Rightarrow> jsval \<Rightarrow> bytes \<Rightarrow> ippt_mode \<Rightarrow> bool \<Rightarrow> block option \<Rightarrow> bytes \<Rightarrow> (nat option) res" where
  "target_mac M b x variant scope key mode a3Primary t got =
     rbind (mac_matches M variant key (ippt b t (b_number x) (b_flags x) scope mode False) got) (\<lambda>ok.
       if ok then Inr (Some 0)
       else if t = None \<and> a3Primary then
         rbind (mac_matches M variant key (ippt b t (b_number x) (b_flags x) scope mode True) got) (\<lambda>ok3.
           Inr (if ok3 then Some 1 else None))
       else Inr None)"

definition check_target :: "macs \<Rightarrow> bpv7 \<Rightarrow> block \<Rightarrow> asb \<Rightarrow> jsval \<Rightarrow> jsval \<Rightarrow> bytes \<Rightarrow> ippt_mode \<Rightarrow> bool \<Rightarrow> nat \<Rightarrow> (string + nat) res" where
  "check_target M b x a variant scope key mode a3Primary i =
     rbind (js_index (a_targets a) i) (\<lambda>n.
     case target_of b n of
       None \<Rightarrow> Inr (Inl ''target_missing'')
     | Some t \<Rightarrow>
         if mode \<noteq> ION \<and> (case t of None \<Rightarrow> p_crcType (bp_primary b) | Some y \<Rightarrow> b_crcType y) \<noteq> CRC_NONE
           then Inr (Inl ''target_has_crc'')
         else rbind (js_index (a_results a) i) (\<lambda>rs. rbind (mac_result rs) (\<lambda>r.
           if \<not> truthy r then Inr (Inl ''no_mac_result'')
           else rbind (js_index r 1) (\<lambda>v. rbind (buffer_from_value v) (\<lambda>got.
             rbind (target_mac M b x variant scope key mode a3Primary t got) (\<lambda>res.
               Inr (case res of None \<Rightarrow> Inl ''mac_mismatch'' | Some k \<Rightarrow> Inr k)))))))"

fun check_targets :: "(nat \<Rightarrow> (string + nat) res) \<Rightarrow> nat list \<Rightarrow> ((string \<times> nat) + nat) res" where
  "check_targets f [] = Inr (Inr 0)"
| "check_targets f (i # ixs) = rbind (f i) (\<lambda>v.
     case v of Inl reason \<Rightarrow> Inr (Inl (reason, i))
     | Inr k \<Rightarrow> rbind (check_targets f ixs) (\<lambda>w. Inr (case w of Inl e \<Rightarrow> Inl e | Inr m \<Rightarrow> Inr (k + m))))"

definition default_variant :: "ippt_mode \<Rightarrow> jsval" where
  "default_variant mode = (if mode = ION then HMAC256 else HMAC384)"

definition mac_key :: "macs \<Rightarrow> bytes \<Rightarrow> asb \<Rightarrow> bytes res" where
  "mac_key M key a = (case map_of (a_params a) WRAPPED_KEY of None \<Rightarrow> Inr key | Some w \<Rightarrow> unwrapKey M key w)"

text \<open>One BIB: the reason it is refused for with its target, or its entry and the fallbacks it took.\<close>

definition verify_bib :: "macs \<Rightarrow> bpv7 \<Rightarrow> bytes \<Rightarrow> ippt_mode \<Rightarrow> bool \<Rightarrow> block \<Rightarrow> ((string \<times> jsval) + ((jsval \<times> string \<times> jsval) \<times> nat)) res" where
  "verify_bib M b key mode a3Primary x =
     (case parseAsb (b_data x) of
        Inl e \<Rightarrow> Inr (Inl (''bib_malformed'', VUndef))
      | Inr a \<Rightarrow>
          if \<not> strict_eq (a_context a) SC_BIB_HMAC_SHA2 then Inr (Inl (''unsupported_security_context'', VUndef))
          else (case mac_key M key a of
              Inl e \<Rightarrow> Inr (Inl (''key_unwrap_failed'', VUndef))
            | Inr k \<Rightarrow>
                let variant = nullish (param a SHA_VARIANT) (default_variant mode); scope = nullish (param a SCOPE_FLAGS) (VNum 7) in
                rbind (js_length (a_targets a)) (\<lambda>n.
                rbind (check_targets (check_target M b x a variant scope k mode a3Primary) [0..<n]) (\<lambda>v.
                case v of
                  Inl (reason, i) \<Rightarrow> rbind (js_index (a_targets a) i) (\<lambda>t. Inr (Inl (reason, t)))
                | Inr m \<Rightarrow> Inr (Inr ((b_number x, a_source a, a_targets a), m))))))"

fun verify_each :: "(block \<Rightarrow> ((string \<times> jsval) + ((jsval \<times> string \<times> jsval) \<times> nat)) res) \<Rightarrow> block list \<Rightarrow> bib_verdict res" where
  "verify_each f [] = Inr (BibsOk [] 0)"
| "verify_each f (x # xs) = rbind (f x) (\<lambda>v.
     case v of
       Inl (reason, t) \<Rightarrow> Inr (BibsBad reason (b_number x) t)
     | Inr (e, m) \<Rightarrow> rbind (verify_each f xs) (\<lambda>w.
         Inr (case w of BibsOk es k \<Rightarrow> BibsOk (e # es) (m + k) | BibsBad r n t \<Rightarrow> BibsBad r n t)))"

definition bibs_of :: "bpv7 \<Rightarrow> block list" where
  "bibs_of b = filter (\<lambda>x. strict_eq (b_type x) BIB) (bp_blocks b)"

definition verifyBibs :: "macs \<Rightarrow> bpv7 \<Rightarrow> bytes \<Rightarrow> ippt_mode \<Rightarrow> bool \<Rightarrow> bib_verdict res" where
  "verifyBibs M b key mode a3Primary =
     (if bibs_of b = [] then Inr (BibsBad ''no_bib'' VUndef VUndef)
      else verify_each (verify_bib M b key mode a3Primary) (bibs_of b))"

end
