(* ===== verification/BpsecProps.thy ===== *)
theory BpsecProps
  imports Bpsec
begin

text \<open>
  What an integrity block promises: one that \<open>addBib\<close> writes verifies, a custodian that appends its receipt
  to the custody block leaves every verdict as it was, and a changed target needs an HMAC collision. A block
  that names no target is accepted under any key.
\<close>

section \<open>The primary block on the wire\<close>

lemma primaryBytes_ok:
  assumes ok: "bundle_ok b"
  shows "primaryBytes b = encode_primary (bp_primary b)" "\<exists>p. primaryBytes b = Inr p"
proof -
  have p: "primary_ok (bp_primary b)" and bl: "bp_blocks b \<noteq> []" "list_all block_ok (bp_blocks b)" "b_type (last (bp_blocks b)) = PAYLOAD"
    using ok by (simp_all add: bundle_ok_def)
  obtain v where v: "encode_primary (bp_primary b) = Inr (cbor_bytes v)" "cbor_ok max_levels v"
    using primary_roundtrip [OF p] by blast
  obtain rest where "encodeBundle b = Inr (0x9F # cbor_bytes v @ rest)"
    using bl by (auto simp: encodeBundle_def v(1) rmapM_blocks)
  then have "primaryBytes b = Inr (cbor_bytes v)"
    by (simp add: primaryBytes_def decodeAt_encode [OF v(2)] del: decodeAt_def)
  then show "primaryBytes b = encode_primary (bp_primary b)" "\<exists>p. primaryBytes b = Inr p" using v(1) by simp_all
qed

lemma ippt_primary:
  assumes "bundle_ok b" "bundle_ok b'" "bp_primary b' = bp_primary b"
  shows "ippt b' = ippt b"
proof -
  have "primaryBytes b' = primaryBytes b" using assms by (simp add: primaryBytes_ok)
  then show ?thesis by (intro ext) (simp only: ippt_def target_part_def)
qed

lemma find_insert: "\<not> P y \<Longrightarrow> xs \<noteq> [] \<Longrightarrow> find P (butlast xs @ [y, last xs]) = find P xs"
proof -
  assume *: "\<not> P y" "xs \<noteq> []"
  have "find P (us @ vs) = (case find P us of None \<Rightarrow> find P vs | Some x \<Rightarrow> Some x)" for us vs :: "'a list"
    by (induction us) simp_all
  from this [of "butlast xs" "[y, last xs]"] this [of "butlast xs" "[last xs]"] show ?thesis
    using * by (simp split: option.split)
qed

section \<open>Custodians leave the verdict alone\<close>

text \<open>The numbers that the integrity blocks of a bundle name.\<close>

definition asb_targets :: "asb \<Rightarrow> jsval list" where
  "asb_targets a = (case js_length (a_targets a) of Inl e \<Rightarrow> []
     | Inr n \<Rightarrow> concat (map (\<lambda>i. case js_index (a_targets a) i of Inl e \<Rightarrow> [] | Inr v \<Rightarrow> [v]) [0..<n]))"

definition bib_targets :: "bpv7 \<Rightarrow> jsval list" where
  "bib_targets b = concat (map (\<lambda>x. case parseAsb (b_data x) of Inl e \<Rightarrow> [] | Inr a \<Rightarrow> asb_targets a) (bibs_of b))"

lemma asb_targets_mem: "js_length (a_targets a) = Inr n \<Longrightarrow> i < n \<Longrightarrow> js_index (a_targets a) i = Inr v \<Longrightarrow> v \<in> set (asb_targets a)"
  by (force simp: asb_targets_def)

lemma prim_unique:
  "distinct (filter is_prim (map f xs)) \<Longrightarrow> x \<in> set xs \<Longrightarrow> y \<in> set xs \<Longrightarrow> f x = f y \<Longrightarrow> is_prim (f x) \<Longrightarrow> x = y"
proof (induction xs)
  case (Cons a xs)
  have out: "f z \<noteq> f a" if "is_prim (f a)" "z \<in> set xs" for z
  proof
    assume "f z = f a"
    with that have "f a \<in> set (filter is_prim (map f xs))" by (force simp: image_iff intro: bexI [of _ z])
    then show False using Cons.prems(1) that(1) by simp
  qed
  have "distinct (filter is_prim (map f xs))" using Cons.prems(1) by (simp split: if_splits)
  then have IH: "x \<in> set xs \<Longrightarrow> y \<in> set xs \<Longrightarrow> x = y" using Cons.IH Cons.prems(4,5) by blast
  show ?case
  proof (cases "x = a")
    case True
    then show ?thesis using out [of y] Cons.prems(3,4,5) by fastforce
  next
    case False
    then have x: "x \<in> set xs" using Cons.prems(2) by simp
    then have "y \<noteq> a" using out [of x] Cons.prems(4,5) by fastforce
    then show ?thesis using IH [OF x] Cons.prems(3) by simp
  qed
qed simp

lemma number_unique:
  assumes "bundle_ok b" "x \<in> set (bp_blocks b)" "y \<in> set (bp_blocks b)" "b_number x = b_number y" "is_prim (b_number x)"
  shows "x = y"
  using prim_unique [of b_number "bp_blocks b" x y] assms by (simp add: bundle_ok_def dup_number_Nil)

lemma target_of_held:
  assumes ok: "bundle_ok b" "bundle_ok b'"
    and same: "filter (\<lambda>x. \<not> is_custody x) (bp_blocks b') = filter (\<lambda>x. \<not> is_custody x) (bp_blocks b)"
    and t: "target_of b n = Some t" and out: "\<forall>x \<in> set (bp_blocks b). is_custody x \<longrightarrow> \<not> strict_eq (b_number x) n"
  shows "target_of b' n = Some t"
proof (cases "strict_eq n (VNum 0)")
  case True
  then show ?thesis using t by (simp add: target_of_def)
next
  case False
  then obtain y where y: "find (\<lambda>x. strict_eq (b_number x) n) (bp_blocks b) = Some y" "t = Some y"
    using t by (auto simp: target_of_def)
  then have yb: "y \<in> set (bp_blocks b)" "strict_eq (b_number y) n" by (auto simp: find_Some_iff)
  then have "y \<in> set (filter (\<lambda>x. \<not> is_custody x) (bp_blocks b'))" unfolding same using out by auto
  then have yb': "y \<in> set (bp_blocks b')" by simp
  from yb(2) have n: "is_prim (b_number y)" "b_number y = n" unfolding strict_eq_def by blast+
  have "find (\<lambda>x. strict_eq (b_number x) n) (bp_blocks b') = Some y"
  proof -
    obtain z where z: "find (\<lambda>x. strict_eq (b_number x) n) (bp_blocks b') = Some z"
      using yb' yb(2) by (cases "find (\<lambda>x. strict_eq (b_number x) n) (bp_blocks b')") (auto simp: find_None_iff)
    then have "z \<in> set (bp_blocks b')" "b_number z = n" by (auto simp: find_Some_iff strict_eq_def)
    with number_unique [OF ok(2) this(1) yb'] n z show ?thesis by auto
  qed
  then show ?thesis using False y(2) by (simp add: target_of_def)
qed

lemma check_targets_Cons: "check_targets f (i # ixs) = Inr (Inr k) \<longleftrightarrow>
    (\<exists>m j. f i = Inr (Inr m) \<and> check_targets f ixs = Inr (Inr j) \<and> k = m + j)"
proof (cases "f i")
  case (Inr v)
  then show ?thesis
    by (cases v; cases "check_targets f ixs") (auto split: sum.splits)
qed simp

lemma check_targets_Inr: "check_targets f ixs = Inr (Inr k) \<Longrightarrow> (\<And>i m. i \<in> set ixs \<Longrightarrow> f i = Inr (Inr m) \<Longrightarrow> g i = Inr (Inr m)) \<Longrightarrow>
    check_targets g ixs = Inr (Inr k)"
  by (induction ixs arbitrary: k) (simp_all add: check_targets_Cons del: check_targets.simps(2), fastforce)

lemma check_target_held:
  assumes ok: "bundle_ok b" "bundle_ok b'" "bp_primary b' = bp_primary b"
    and same: "filter (\<lambda>x. \<not> is_custody x) (bp_blocks b') = filter (\<lambda>x. \<not> is_custody x) (bp_blocks b)"
    and out: "\<And>v. js_index (a_targets a) i = Inr v \<Longrightarrow> \<forall>x \<in> set (bp_blocks b). is_custody x \<longrightarrow> \<not> strict_eq (b_number x) v"
    and m: "check_target M b x a variant scope k mode a3 i = Inr (Inr m)"
  shows "check_target M b' x a variant scope k mode a3 i = Inr (Inr m)"
proof -
  obtain v where v: "js_index (a_targets a) i = Inr v" using m by (auto simp: check_target_def rbind_eq_Inr)
  obtain t where t: "target_of b v = Some t" using m v by (auto simp: check_target_def split: option.splits)
  have "target_mac M b' = target_mac M b" by (intro ext) (simp only: target_mac_def ippt_primary [OF ok])
  then have "check_target M b' x a variant scope k mode a3 i = check_target M b x a variant scope k mode a3 i"
    by (simp only: check_target_def v rbind_simps t target_of_held [OF ok(1,2) same t out [OF v]] option.case ok(3))
  then show ?thesis using m by simp
qed

lemma verify_bib_held:
  assumes ok: "bundle_ok b" "bundle_ok b'" "bp_primary b' = bp_primary b"
    and same: "filter (\<lambda>x. \<not> is_custody x) (bp_blocks b') = filter (\<lambda>x. \<not> is_custody x) (bp_blocks b)"
    and x: "x \<in> set (bibs_of b)"
    and out: "\<forall>x \<in> set (bp_blocks b). is_custody x \<longrightarrow> b_number x \<notin> set (bib_targets b)"
    and m: "verify_bib M b key mode a3 x = Inr (Inr e)"
  shows "verify_bib M b' key mode a3 x = Inr (Inr e)"
proof -
  obtain a where a: "parseAsb (b_data x) = Inr a" using m by (auto simp: verify_bib_def split: sum.splits)
  obtain k where k: "mac_key M key a = Inr k" "strict_eq (a_context a) SC_BIB_HMAC_SHA2"
    using m by (auto simp: verify_bib_def a split: sum.splits if_splits)
  obtain n where n: "js_length (a_targets a) = Inr n" using m by (auto simp: verify_bib_def a k Let_def rbind_eq_Inr)
  let ?f = "\<lambda>b. check_target M b x a (nullish (param a SHA_VARIANT) (default_variant mode)) (nullish (param a SCOPE_FLAGS) (VNum 7)) k mode a3"
  obtain j where j: "check_targets (?f b) [0..<n] = Inr (Inr j)" "e = ((b_number x, a_source a, a_targets a), j)"
    using m by (cases "check_targets (?f b) [0..<n]") (auto simp: verify_bib_def a k Let_def n rbind_eq_Inr split: sum.splits)
  have "v \<in> set (bib_targets b)" if "i < n" "js_index (a_targets a) i = Inr v" for i v
    using x asb_targets_mem [OF n that] a unfolding bib_targets_def by force
  then have "check_targets (?f b') [0..<n] = Inr (Inr j)"
    using out by (intro check_targets_Inr [OF j(1)] check_target_held [OF ok same]) (auto simp: strict_eq_def)
  then show ?thesis by (simp add: verify_bib_def a k Let_def n j(2))
qed

lemma verify_each_Cons: "verify_each f (x # xs) = Inr (BibsOk es n) \<longleftrightarrow>
    (\<exists>e m es' k. f x = Inr (Inr (e, m)) \<and> verify_each f xs = Inr (BibsOk es' k) \<and> es = e # es' \<and> n = m + k)"
proof (cases "f x")
  case (Inr v)
  then show ?thesis
    by (cases v; cases "verify_each f xs") (auto split: bib_verdict.splits)
qed simp

lemma verify_each_held:
  assumes "\<And>x e. x \<in> set xs \<Longrightarrow> f x = Inr (Inr e) \<Longrightarrow> g x = Inr (Inr e)"
  shows "verify_each f xs = Inr (BibsOk es n) \<Longrightarrow> verify_each g xs = Inr (BibsOk es n)"
  using assms
proof (induction xs arbitrary: es n)
  case (Cons x xs)
  from Cons.prems(1) obtain e m es' k where s: "f x = Inr (Inr (e, m))" "verify_each f xs = Inr (BibsOk es' k)" "es = e # es'" "n = m + k"
    unfolding verify_each_Cons by blast
  with Cons.IH [OF s(2)] Cons.prems(2) show ?case by simp
qed simp

lemma verifyBibs_held:
  assumes ok: "bundle_ok b" "bundle_ok b'" "bp_primary b' = bp_primary b"
    and same: "filter (\<lambda>x. \<not> is_custody x) (bp_blocks b') = filter (\<lambda>x. \<not> is_custody x) (bp_blocks b)"
    and out: "\<forall>x \<in> set (bp_blocks b). is_custody x \<longrightarrow> b_number x \<notin> set (bib_targets b)"
    and v: "verifyBibs M b key mode a3 = Inr (BibsOk es n)"
  shows "verifyBibs M b' key mode a3 = Inr (BibsOk es n)"
proof -
  have "filter (\<lambda>x. strict_eq (b_type x) BIB) (filter (\<lambda>x. \<not> is_custody x) xs) = filter (\<lambda>x. strict_eq (b_type x) BIB) xs" for xs
    by (induction xs) (auto simp: BIB_def CUSTODY_BLOCK_TYPE_def)
  from this [of "bp_blocks b"] this [of "bp_blocks b'"] have bibs: "bibs_of b' = bibs_of b" by (simp add: bibs_of_def same)
  show ?thesis using v unfolding verifyBibs_def bibs
    by (auto split: if_splits intro!: verify_each_held [where f = "verify_bib M b key mode a3"] verify_bib_held [OF ok same _ out])
qed


section \<open>A block that was added verifies\<close>

text \<open>Targets a block may have: the primary block, or a block that is no security block.\<close>

definition may_target :: "bpv7 \<Rightarrow> int \<Rightarrow> bool" where
  "may_target b n \<longleftrightarrow> n = 0 \<or> (\<exists>x \<in> set (bp_blocks b). b_number x = VNum n \<and> b_type x \<noteq> BIB \<and> b_type x \<noteq> BCB)"

lemma strip_ok: "bundle_ok b \<Longrightarrow> bundle_ok (strip_crcs b ts)"
proof -
  assume ok: "bundle_ok b"
  define g where "g = (\<lambda>x :: block. if \<exists>t \<in> set ts. strict_eq t (b_number x) then x\<lparr>b_crcType := CRC_NONE\<rparr> else x)"
  have g: "block_ok x \<Longrightarrow> block_ok (g x)" "b_number (g x) = b_number x" "b_type (g x) = b_type x" for x
    by (simp_all add: g_def block_ok_def content_ok_def crc_type_ok_def)
  have "map b_number (map g xs) = map b_number xs" for xs by (induction xs) (simp_all add: g)
  moreover have p: "primary_ok (p\<lparr>p_crcType := CRC_NONE\<rparr>)" if "primary_ok p" for p
    using that by (cases "p_flags p") (simp_all add: primary_ok_def crc_type_ok_def)
  moreover have "list_all block_ok (map g xs)" if "list_all block_ok xs" for xs using that g(1) by (simp add: list_all_iff)
  moreover have "bp_blocks (strip_crcs b ts) = map g (bp_blocks b)" by (simp add: strip_crcs_def g_def)
  ultimately show ?thesis using ok g(3) unfolding bundle_ok_def
    by (simp add: last_map del: map_map) (simp add: strip_crcs_def)
qed

lemma target_strip:
  assumes ok: "bundle_ok b" and n: "may_target b n" and nt: "VNum n \<in> set ts"
  shows "\<exists>t. target_of (strip_crcs b ts) (VNum n) = Some t \<and>
    (case t of None \<Rightarrow> n = 0 \<and> p_crcType (bp_primary (strip_crcs b ts)) = CRC_NONE
     | Some y \<Rightarrow> n \<noteq> 0 \<and> y \<in> set (bp_blocks (strip_crcs b ts)) \<and> b_number y = VNum n \<and> b_crcType y = CRC_NONE \<and> b_type y \<noteq> BIB \<and> b_type y \<noteq> BCB)"
proof (cases "n = 0")
  case True
  then show ?thesis using nt by (simp add: target_of_def strip_crcs_def)
next
  case False
  let ?b = "strip_crcs b ts" and ?f = "\<lambda>x. if \<exists>t \<in> set ts. strict_eq t (b_number x) then x\<lparr>b_crcType := CRC_NONE\<rparr> else x"
  obtain x where x: "x \<in> set (bp_blocks b)" "b_number x = VNum n" "b_type x \<noteq> BIB" "b_type x \<noteq> BCB"
    using n False by (auto simp: may_target_def)
  have f: "?f x = x\<lparr>b_crcType := CRC_NONE\<rparr>" using nt x(2) by auto
  have xb: "x\<lparr>b_crcType := CRC_NONE\<rparr> \<in> set (bp_blocks ?b)" 
  proof -
    have "bp_blocks ?b = map ?f (bp_blocks b)" by (simp add: strip_crcs_def)
    moreover have "?f x \<in> set (map ?f (bp_blocks b))" using x(1) by (simp only: set_map) (rule imageI)
    ultimately show ?thesis by (simp only: f)
  qed
  then obtain z where z: "find (\<lambda>x. strict_eq (b_number x) (VNum n)) (bp_blocks ?b) = Some z"
    using x(2) by (cases "find (\<lambda>x. strict_eq (b_number x) (VNum n)) (bp_blocks ?b)") (auto simp: find_None_iff)
  then have "z \<in> set (bp_blocks ?b)" "b_number z = VNum n" by (auto simp: find_Some_iff)
  then have "z = x\<lparr>b_crcType := CRC_NONE\<rparr>"
    using number_unique [OF strip_ok [OF ok] _ xb] x(2) by simp
  then show ?thesis using z False x xb by (auto simp: target_of_def)
qed

lemma uints_ok: "list_all (cbor_ok d) vs \<Longrightarrow> uints vs = Inr (concat (map cbor_bytes vs))"
  by (simp add: uints_def rmapM_encode)

lemma ippt_total:
  assumes ok: "bundle_ok b" and t: "\<And>y. t = Some y \<Longrightarrow> y \<in> set (bp_blocks b)"
    and bib: "cbor_ok 32 num" "cbor_ok 32 flags"
  shows "\<exists>p. ippt b t num flags (VNum s) mode a3 = Inr p"
proof -
  obtain pb where pb: "primaryBytes b = Inr pb" using primaryBytes_ok(2) [OF ok] by blast
  have ev: "\<exists>e. encode (VBytes x) = Inr e" for x by simp
  have nf: "cbor_ok 32 (nullish v (VNum 0))" if "cbor_ok 32 v" for v
    using that by (auto simp: nullish_def cbor_ok_numeral)
  have th: "\<exists>h. target_header t = Inr h"
  proof (cases t)
    case (Some y)
    then have "block_ok y" using t ok by (auto simp: bundle_ok_def list_all_iff)
    then have "list_all (cbor_ok 32) [b_type y, b_number y, nullish (b_flags y) (VNum 0)]" using nf by (simp add: block_ok_def content_ok_def)
    from uints_ok [OF this] show ?thesis by (simp add: target_header_def Some)
  qed (simp add: target_header_def)
  have tp: "\<exists>h. target_part b t mode a3 = Inr h"
  proof (cases t)
    case None
    then show ?thesis using pb ev by (simp add: target_part_def)
  next
    case (Some y)
    then have y: "block_ok y" using t ok by (auto simp: bundle_ok_def list_all_iff)
    then have "crc_type_ok (b_crcType y)" by (simp add: block_ok_def content_ok_def)
    moreover have "fields_ok [b_type y, b_number y, VNum 0, b_crcType y, VBytes (b_data y)]"
      using y block_fields_ok [OF y] by (simp add: block_fields_def fields_ok_def cbor_ok_numeral [of _ "VNum 0"])
    ultimately show ?thesis using sealBlock_sealed ev by (auto simp: target_part_def Some crc_type_nullish)
  qed
  have "list_all (cbor_ok 32) [BIB, num, nullish flags (VNum 0)]" using bib nf by (simp add: BIB_def cbor_ok_numeral [of _ "VNum 11"])
  from uints_ok [OF this] have ub: "\<exists>h. uints [BIB, num, nullish flags (VNum 0)] = Inr h" by blast
  have s: "\<exists>k. scope_bits (VNum s) = Inr k \<and> k < 8" by (simp add: scope_bits_def to_prim_def)
  then obtain k where k: "scope_bits (VNum s) = Inr k" "k < 8" by blast
  have "\<exists>e. encode (VNum (int k)) = Inr e" using k(2) by (simp add: head_num_def)
  moreover have on: "\<exists>h. on_flag c r = Inr h" if "\<exists>h. r = Inr h" for c r using that by (simp add: on_flag_def)
  ultimately obtain e p1 p2 p3 p4 where "encode (VNum (int k)) = Inr e" "on_flag (t \<noteq> None \<and> odd k) (primaryBytes b) = Inr p1"
      "on_flag (odd (k div 2)) (target_header t) = Inr p2" "on_flag (odd (k div 4)) (uints [BIB, num, nullish flags (VNum 0)]) = Inr p3"
      "target_part b t mode a3 = Inr p4"
    using on [of "primaryBytes b"] on [of "target_header t"] on [of "uints [BIB, num, nullish flags (VNum 0)]"] pb th ub tp by meson
  then show ?thesis by (simp only: ippt_def k(1) rbind_simps) blast
qed

text \<open>A security block and its parse.\<close>

definition asb_items :: "int list \<Rightarrow> jsval \<Rightarrow> jsval \<Rightarrow> int \<Rightarrow> bytes list \<Rightarrow> jsval list" where
  "asb_items ns src variant s hs = [VArr (map VNum ns), SC_BIB_HMAC_SHA2, VNum 1, src, bib_params variant (VNum s),
     VArr (map (\<lambda>h. VArr [VArr [RESULT_MAC, VBytes h]]) hs)]"

lemma cbor_ok_Suc: "cbor_ok d v \<Longrightarrow> cbor_ok (Suc d) v"
proof (induction d arbitrary: v)
  case (Suc d)
  have l: "list_all (cbor_ok d) vs \<Longrightarrow> list_all (cbor_ok (Suc d)) vs" for vs using Suc.IH by (simp add: list_all_iff)
  have m: "list_all (\<lambda>e. cbor_ok d (fst e) \<and> cbor_ok d (snd e)) m \<Longrightarrow> list_all (\<lambda>e. cbor_ok (Suc d) (fst e) \<and> cbor_ok (Suc d) (snd e)) m" for m
    using Suc.IH by (simp add: list_all_iff del: cbor_ok.simps)
  show ?case
    using Suc.prems l m unfolding cbor_ok.simps(2) [of "Suc d"] by (cases v) (simp_all del: cbor_ok.simps, simp_all)
qed simp

lemma asb_items_ok:
  assumes "list_all (\<lambda>n. 0 \<le> n \<and> n \<le> MAX_SAFE_INTEGER) ns" "length ns < 2 ^ 16" "cbor_ok 32 src" "cbor_ok 30 variant"
    "0 \<le> s" "s < 8" "list_all (\<lambda>h. length h < 256) hs" "length hs < 2 ^ 16"
  shows "list_all (cbor_ok max_levels) (asb_items ns src variant s hs)"
proof -
  have max: "max_levels = Suc 32" "(32 :: nat) = Suc 31" "(31 :: nat) = Suc 30" "(30 :: nat) = Suc 29" by simp_all
  have v: "cbor_ok 31 variant" "cbor_ok 33 src" using cbor_ok_Suc [OF assms(4)] cbor_ok_Suc [OF assms(3)] by simp_all
  have n: "cbor_ok (Suc d) (VNum k)" if "0 \<le> k" "k \<le> MAX_SAFE_INTEGER" for d k using that by simp
  have ns: "list_all (cbor_ok 32) (map VNum ns)" using assms(1) n [of _ 31] by (auto simp: list_all_iff)
  have hs: "cbor_ok 32 (VArr [VArr [RESULT_MAC, VBytes h]])" if "length h < 256" for h
    using that by (simp add: cbor_ok_numeral RESULT_MAC_def)
  have "cbor_ok 33 (bib_params variant (VNum s))"
    using v(1) assms(5,6) by (simp add: bib_params_def cbor_ok_numeral [of _ "VArr _"] cbor_ok_numeral [of _ "VNum _"] SHA_VARIANT_def SCOPE_FLAGS_def)
  moreover have arr: "cbor_ok 33 (VArr vs)" if "list_all (cbor_ok 32) vs" "length vs < 2 ^ 64" for vs
    using that by (simp add: cbor_ok_numeral [of _ "VArr vs"])
  have "length (map VNum ns) < 2 ^ 64" using assms(2) by simp
  then have "cbor_ok 33 (VArr (map VNum ns))" by (rule arr [OF ns])
  moreover have "list_all (cbor_ok 32) (map (\<lambda>h. VArr [VArr [RESULT_MAC, VBytes h]]) hs)"
    using assms(7) hs by (simp add: list_all_iff)
  then have "cbor_ok 33 (VArr (map (\<lambda>h. VArr [VArr [RESULT_MAC, VBytes h]]) hs))" by (rule arr) (use assms(8) in simp)
  moreover have "cbor_ok 33 SC_BIB_HMAC_SHA2" "cbor_ok 33 (VNum 1)" by (simp_all add: SC_BIB_HMAC_SHA2_def cbor_ok_numeral)
  ultimately show ?thesis using v(2) by (simp add: asb_items_def)
qed


lemma parseAsb_items:
  assumes ok: "list_all (cbor_ok max_levels) (asb_items ns src variant s hs)" and src: "decodeEid src = Inr source"
  shows "parseAsb (concat (map cbor_bytes (asb_items ns src variant s hs))) =
    Inr \<lparr>a_targets = VArr (map VNum ns), a_context = SC_BIB_HMAC_SHA2, a_flags = VNum 1, a_source = source,
      a_params = [(SCOPE_FLAGS, VNum s), (SHA_VARIANT, variant)], a_results = VArr (map (\<lambda>h. VArr [VArr [RESULT_MAC, VBytes h]]) hs)\<rparr>"
proof -
  have c: "cbor_ok max_levels (VArr (map VNum ns))" "cbor_ok max_levels SC_BIB_HMAC_SHA2" "cbor_ok max_levels (VNum 1)"
    "cbor_ok max_levels src" "cbor_ok max_levels (bib_params variant (VNum s))"
    "cbor_ok max_levels (VArr (map (\<lambda>h. VArr [VArr [RESULT_MAC, VBytes h]]) hs))"
    using ok by (simp_all only: asb_items_def list.pred_inject)
  have p: "param_map (bib_params variant (VNum s)) = Inr [(SCOPE_FLAGS, VNum s), (SHA_VARIANT, variant)]"
    by (simp add: param_map_def bib_params_def pair_of_def elem_def)
  have l: "concat (map cbor_bytes (asb_items ns src variant s hs)) = cbor_bytes (VArr (map VNum ns)) @ cbor_bytes SC_BIB_HMAC_SHA2 @
      cbor_bytes (VNum 1) @ cbor_bytes src @ cbor_bytes (bib_params variant (VNum s)) @
      cbor_bytes (VArr (map (\<lambda>h. VArr [VArr [RESULT_MAC, VBytes h]]) hs)) @ []"
    by (simp only: asb_items_def list.map concat.simps)
  show ?thesis
    unfolding parseAsb_def l
    by (simp only: decodeAt_encode [OF c(1)] decodeAt_encode [OF c(2)] decodeAt_encode [OF c(3)] decodeAt_encode [OF c(4)]
        decodeAt_encode [OF c(5)] decodeAt_encode [OF c(6)] rbind_simps prod.case src fragment_bit_num p if_True if_False)
      (simp add: p rbind_simps decodeAt_encode [OF c(6), of "[]", unfolded append_Nil2] del: decodeAt_def)
qed

lemma check_targets_zero: "(\<And>i. i \<in> set ixs \<Longrightarrow> f i = Inr (Inr 0)) \<Longrightarrow> check_targets f ixs = Inr (Inr 0)"
  by (induction ixs) simp_all

text \<open>The checks of \<open>verifyBibs\<close> on the block of the given MACs.\<close>

lemma built_bib_verifies:
  assumes ok: "bundle_ok b" "bundle_ok b'" "bp_primary b' = bp_primary b"
    and bib: "bibs_of b' = [x]" "b_data x = concat (map cbor_bytes (asb_items ns src variant s hs))"
    and items: "list_all (cbor_ok max_levels) (asb_items ns src variant s hs)" and src: "decodeEid src = Inr source"
    and variant: "variant \<in> {VNum 5, VNum 6, VNum 7}"
    and hs: "length hs = length ns"
    and t: "\<And>i. i < length ns \<Longrightarrow> \<exists>t p. target_of b' (VNum (ns ! i)) = Some t \<and>
      (case t of None \<Rightarrow> p_crcType (bp_primary b) = CRC_NONE | Some y \<Rightarrow> b_crcType y = CRC_NONE) \<and>
      ippt b t (b_number x) (b_flags x) (VNum s) mode False = Inr p \<and> mac M variant key p = Inr (hs ! i)"
  shows "verifyBibs M b' key mode a3 = Inr (BibsOk [(b_number x, source, VArr (map VNum ns))] 0)"
proof -
  define a where "a = \<lparr>a_targets = VArr (map VNum ns), a_context = SC_BIB_HMAC_SHA2, a_flags = VNum 1, a_source = source,
      a_params = [(SCOPE_FLAGS, VNum s), (SHA_VARIANT, variant)], a_results = VArr (map (\<lambda>h. VArr [VArr [RESULT_MAC, VBytes h]]) hs)\<rparr>"
  have parse: "parseAsb (b_data x) = Inr a" unfolding bib(2) a_def by (rule parseAsb_items [OF items src])
  have pv: "nullish (param a SHA_VARIANT) (default_variant mode) = variant" "nullish (param a SCOPE_FLAGS) (VNum 7) = VNum s"
    using variant by (auto simp: a_def param_def SCOPE_FLAGS_def SHA_VARIANT_def nullish_def)
  have key: "mac_key M key a = Inr key" by (simp add: mac_key_def a_def SCOPE_FLAGS_def SHA_VARIANT_def WRAPPED_KEY_def)
  have one: "check_target M b' x a variant (VNum s) key mode a3 i = Inr (Inr 0)" if i: "i < length ns" for i
  proof -
    obtain t p where tp: "target_of b' (VNum (ns ! i)) = Some t" "case t of None \<Rightarrow> p_crcType (bp_primary b) = CRC_NONE | Some y \<Rightarrow> b_crcType y = CRC_NONE"
        "ippt b t (b_number x) (b_flags x) (VNum s) mode False = Inr p" "mac M variant key p = Inr (hs ! i)"
      using t [OF i] by blast
    have crc: "(case t of None \<Rightarrow> p_crcType (bp_primary b') | Some y \<Rightarrow> b_crcType y) = CRC_NONE" using tp(2) ok(3) by (simp split: option.splits)
    have ix: "js_index (a_targets a) i = Inr (VNum (ns ! i))" "js_index (a_results a) i = Inr (VArr [VArr [RESULT_MAC, VBytes (hs ! i)]])"
      using i hs by (simp_all add: a_def js_index_def)
    have m: "mac_result (VArr [VArr [RESULT_MAC, VBytes (hs ! i)]]) = Inr (VArr [RESULT_MAC, VBytes (hs ! i)])"
      by (simp add: mac_result_def pair_of_def elem_def RESULT_MAC_def)
    have "target_mac M b' x variant (VNum s) key mode a3 t (hs ! i) = Inr (Some 0)"
      unfolding target_mac_def ippt_primary [OF ok] by (simp add: mac_matches_def tp(3,4))
    then show ?thesis by (simp add: check_target_def ix tp(1) crc m buffer_from_value_def)
  qed
  have "js_length (a_targets a) = Inr (length ns)" by (simp add: a_def js_length_def)
  moreover have "check_targets (check_target M b' x a variant (VNum s) key mode a3) [0..<length ns] = Inr (Inr 0)"
    by (rule check_targets_zero) (use one in simp)
  moreover have "strict_eq (a_context a) SC_BIB_HMAC_SHA2" by (simp add: a_def SC_BIB_HMAC_SHA2_def)
  ultimately have "verify_bib M b' key mode a3 x = Inr (Inr ((b_number x, source, VArr (map VNum ns)), 0))"
    by (simp add: verify_bib_def parse key pv Let_def) (simp add: a_def)
  then show ?thesis by (simp add: verifyBibs_def bib(1))
qed


text \<open>Sizes, for the bound a byte string has.\<close>

lemma length_cbor_num: "cbor_ok (Suc d) (VNum n) \<Longrightarrow> length (cbor_bytes (VNum n)) \<le> 9"
  using encode_cbor_num(1) [of d n] length_head_le by (simp add: cbor_bytes_def del: encode.simps cbor_ok.simps split: if_splits)

lemma length_cbor_arr: "list_all (cbor_ok d) vs \<Longrightarrow> (\<And>v. v \<in> set vs \<Longrightarrow> length (cbor_bytes v) \<le> k) \<Longrightarrow> length (cbor_bytes (VArr vs)) \<le> 9 + k * length vs"
proof -
  assume *: "list_all (cbor_ok d) vs" "\<And>v. v \<in> set vs \<Longrightarrow> length (cbor_bytes v) \<le> k"
  have "length (concat (map cbor_bytes vs)) \<le> k * length vs" using *(2) by (induction vs) (simp_all add: le_Suc_eq add_mono)
  with length_head_le [of 4 "length vs"] show ?thesis unfolding cbor_bytes_arrays(1) [OF *(1)] by simp
qed

lemma length_eid_bytes:
  assumes "eid_ok e" "encodeEid e = Inr v" shows "length (cbor_bytes v) \<le> length e + 70"
proof (cases "e = ''dtn:none''")
  case True
  then have v: "v = VArr [VNum 1, VNum 0]" using assms(2) by (simp add: encodeEid_def)
  have "length (cbor_bytes v) \<le> 9 + 9 * length [VNum 1, VNum 0]" unfolding v
    by (rule length_cbor_arr [where d = 1]) (auto intro!: length_cbor_num [where d = 0] simp: cbor_ok_numeral)
  then show ?thesis by simp
next
  case none: False
  show ?thesis
  proof (cases "is_dtn_uri e")
    case True
    then have v: "v = VArr [VNum 1, VStr (drop 4 e)]" using assms(2) none by (simp add: encodeEid_def)
    have ok: "list_all (cbor_ok 32) [VNum 1, VStr (drop 4 e)]"
      using eid_roundtrip [OF assms(1)] assms(2) by (auto simp: v cbor_ok_numeral)
    have "length (cbor_bytes v) \<le> 9 + (length e + 18) * 1 + 9"
      unfolding v cbor_bytes_arrays(1) [OF ok] using length_head_le [of 4 2] length_head_le [of 3 "length e - 4"] length_cbor_num [of 0 1]
      by (simp add: cbor_bytes_scalars numeral_2_eq_2 cbor_bytes_def)
    then show ?thesis by simp
  next
    case False
    then obtain a b where v: "v = VArr [VNum 2, VArr [VNum a, VNum b]]" using assms(2) none by (auto simp: encodeEid_def split: option.splits)
    then have ok: "cbor_ok 32 (VArr [VNum 2, VArr [VNum a, VNum b]])" using eid_roundtrip [OF assms(1)] assms(2) by auto
    then have ok2: "list_all (cbor_ok 30) [VNum a, VNum b]" "list_all (cbor_ok 31) [VNum 2, VArr [VNum a, VNum b]]"
      by (simp_all add: cbor_ok_numeral)
    have "length (cbor_bytes (VArr [VNum a, VNum b])) \<le> 9 + 9 * length [VNum a, VNum b]"
      by (rule length_cbor_arr [OF ok2(1)]) (use ok2(1) length_cbor_num [of 29] in auto)
    moreover have "length (cbor_bytes (VNum 2)) \<le> 9" by (rule length_cbor_num [where d = 0]) simp
    ultimately have "length (cbor_bytes v) \<le> 9 + 27 * length [VNum 2, VArr [VNum a, VNum b]]"
      unfolding v by (intro length_cbor_arr [OF ok2(2)]) auto
    then show ?thesis by simp
  qed
qed

lemma asb_size:
  assumes "list_all (\<lambda>n. 0 \<le> n \<and> n \<le> MAX_SAFE_INTEGER) ns" "length ns < 2 ^ 16" "eid_ok source" "encodeEid source = Inr src"
    "length source < 2 ^ 20" "variant \<in> {VNum 5, VNum 6, VNum 7}" "0 \<le> s" "s < 8" "list_all (\<lambda>h. length h < 256) hs" "length hs < 2 ^ 16"
  shows "list_all (cbor_ok max_levels) (asb_items ns src variant s hs)"
    "length (concat (map cbor_bytes (asb_items ns src variant s hs))) < 2 ^ 40"
proof -
  have src: "cbor_ok 32 src" using eid_roundtrip [OF assms(3)] assms(4) by auto
  have variant: "cbor_ok 30 variant" using assms(6) by (auto simp: cbor_ok_numeral)
  show items: "list_all (cbor_ok max_levels) (asb_items ns src variant s hs)"
    by (rule asb_items_ok [OF assms(1,2) src variant assms(7-10)])
  have n: "cbor_ok 32 (VNum k)" if "0 \<le> k" "k \<le> MAX_SAFE_INTEGER" for k using that by (simp add: cbor_ok_numeral)
  have l9: "length (cbor_bytes (VNum k)) \<le> 9" if "0 \<le> k" "k \<le> MAX_SAFE_INTEGER" for k
    using that by (intro length_cbor_num [where d = 0]) simp
  have "list_all (cbor_ok 32) (map VNum ns)" using assms(1) n by (simp add: list_all_iff)
  then have "length (cbor_bytes (VArr (map VNum ns))) \<le> 9 + 9 * length (map VNum ns)"
    by (rule length_cbor_arr) (use assms(1) l9 in \<open>auto simp: list_all_iff\<close>)
  moreover have "length (cbor_bytes SC_BIB_HMAC_SHA2) \<le> 9" "length (cbor_bytes (VNum 1)) \<le> 9"
    by (simp_all add: SC_BIB_HMAC_SHA2_def l9)
  moreover have "length (cbor_bytes src) < 2 ^ 21" using length_eid_bytes [OF assms(3,4)] assms(5) by simp
  moreover have "length (cbor_bytes (bib_params variant (VNum s))) \<le> 9 + 27 * 2"
  proof -
    have p: "length (cbor_bytes (VArr [VNum i, v])) \<le> 27 \<and> cbor_ok 32 (VArr [VNum i, v])"
      if v: "v = VNum j" "0 \<le> j" "j < 100" "0 \<le> i" "i < 100" for i v j
    proof -
      have o: "list_all (cbor_ok 31) [VNum i, v]" using v by (simp add: cbor_ok_numeral)
      have "length (cbor_bytes (VArr [VNum i, v])) \<le> 9 + 9 * length [VNum i, v]"
        by (rule length_cbor_arr [OF o]) (use v l9 in auto)
      then show ?thesis using o by (simp add: cbor_ok_numeral [of _ "VArr _"])
    qed
    obtain j where j: "variant = VNum j" "0 \<le> j" "j < 100" using assms(6) by auto
    have "length (cbor_bytes (VArr [VArr [SHA_VARIANT, variant], VArr [SCOPE_FLAGS, VNum s]])) \<le> 9 + 27 * length [VArr [SHA_VARIANT, variant], VArr [SCOPE_FLAGS, VNum s]]"
      by (rule length_cbor_arr [where d = 32])
        (use p [OF j, of 1] p [of "VNum s" s 3] assms(7,8) in \<open>auto simp: SHA_VARIANT_def SCOPE_FLAGS_def simp del: cbor_ok.simps\<close>)
    then show ?thesis by (simp add: bib_params_def)
  qed
  moreover have "length (cbor_bytes (VArr (map (\<lambda>h. VArr [VArr [RESULT_MAC, VBytes h]]) hs))) \<le> 9 + 300 * length hs"
  proof -
    let ?r = "\<lambda>h. VArr [VArr [RESULT_MAC, VBytes h]]"
    have p: "length (cbor_bytes (?r h)) \<le> 300 \<and> cbor_ok 32 (?r h)" if h: "length h < 256" for h
    proof -
      have o: "list_all (cbor_ok 30) [RESULT_MAC, VBytes h]" using h by (simp add: cbor_ok_numeral RESULT_MAC_def)
      then have o2: "list_all (cbor_ok 31) [VArr [RESULT_MAC, VBytes h]]" by (simp add: cbor_ok_numeral [of _ "VArr _"])
      have "length (cbor_bytes (VBytes h)) \<le> 264" using h length_head_le [of 2 "length h"] by (simp add: cbor_bytes_scalars)
      moreover have "length (cbor_bytes RESULT_MAC) \<le> 9" by (simp add: RESULT_MAC_def l9)
      ultimately have "length (cbor_bytes (VArr [RESULT_MAC, VBytes h])) \<le> 282"
        unfolding cbor_bytes_arrays(1) [OF o] using length_head_le [of 4 2] by (simp add: numeral_2_eq_2)
      then have "length (cbor_bytes (?r h)) \<le> 9 + 282 * length [VArr [RESULT_MAC, VBytes h]]"
        by (intro length_cbor_arr [OF o2]) simp
      then show ?thesis using o2 by (simp add: cbor_ok_numeral [of _ "VArr _"])
    qed
    have "length (cbor_bytes (VArr (map ?r hs))) \<le> 9 + 300 * length (map ?r hs)"
      by (rule length_cbor_arr [where d = 32]) (use p assms(9) in \<open>auto simp: list_all_iff simp del: cbor_ok.simps\<close>)
    then show ?thesis by simp
  qed
  ultimately have "length (concat (map cbor_bytes (asb_items ns src variant s hs))) \<le>
      (9 + 9 * length ns) + (9 + (9 + (2 ^ 21 + ((9 + 27 * 2) + (9 + 300 * length hs)))))"
    unfolding asb_items_def list.map concat.simps length_append by simp
  then show "length (concat (map cbor_bytes (asb_items ns src variant s hs))) < 2 ^ 40" using assms(2,10) by simp
qed


lemma HASH_known: "variant \<in> {VNum 5, VNum 6, VNum 7} \<Longrightarrow> \<exists>h. HASH variant = Some h"
proof -
  have "HASH (VNum 5) = Some ''sha256''" "HASH (VNum 6) = Some ''sha384''" "HASH (VNum 7) = Some ''sha512''" by code_simp+
  then show "variant \<in> {VNum 5, VNum 6, VNum 7} \<Longrightarrow> \<exists>h. HASH variant = Some h" by auto
qed

lemma addBib_verifies:
  assumes ok: "bundle_ok b0" and none: "bibs_of b0 = []" and few: "length (bp_blocks b0) < 2 ^ 16"
    and ns: "list_all (\<lambda>n. 0 \<le> n \<and> n \<le> MAX_SAFE_INTEGER \<and> may_target b0 n) ns" "length ns < 2 ^ 16"
    and src: "eid_ok source" "length source < 2 ^ 20" and variant: "variant \<in> {VNum 5, VNum 6, VNum 7}" and s: "0 \<le> s" "s < 8"
    and flags: "cbor_ok 32 flags" "flags \<noteq> VNull" and crc: "crc_type_ok crcType"
    and hmac: "\<And>h k d. length (m_hmac M h k d) < 256"
  shows "\<exists>b number. addBib M b0 (map VNum ns) key source variant (VNum s) flags crcType VUndef mode = Inr (Some b) \<and> bundle_ok b \<and>
    length (bp_blocks b) = Suc (length (bp_blocks b0)) \<and> filter (\<lambda>x. b_type x \<noteq> BIB) (bp_blocks b) = bp_blocks (strip_crcs b0 (map VNum ns)) \<and>
    verifyBibs M b key mode a3 = Inr (BibsOk [(number, source, VArr (map VNum ns))] 0)"
proof -
  define ts b1 num where "ts = map VNum ns" and "b1 = strip_crcs b0 ts" and "num = VNum (nextBlockNumber b1)"
  have ok1: "bundle_ok b1" unfolding b1_def by (rule strip_ok [OF ok])
  have bl1: "map b_number (bp_blocks b1) = map b_number (bp_blocks b0)" "length (bp_blocks b1) = length (bp_blocks b0)" "bp_blocks b1 \<noteq> []"
    using ok by (auto simp: b1_def strip_crcs_def bundle_ok_def)
  have num_ok: "cbor_ok 32 num" using nextBlockNumber_bounds [of b1] few bl1(2) by (simp add: num_def cbor_ok_numeral)
  have fresh: "num \<notin> b_number ` set (bp_blocks b1)" unfolding num_def by (rule nextBlockNumber_free)
  define good where "good = (\<lambda>n t. target_of b1 (VNum n) = Some t \<and> (case t of None \<Rightarrow> n = 0 \<and> p_crcType (bp_primary b1) = CRC_NONE
      | Some y \<Rightarrow> n \<noteq> 0 \<and> y \<in> set (bp_blocks b1) \<and> b_number y = VNum n \<and> b_crcType y = CRC_NONE \<and> b_type y \<noteq> BIB \<and> b_type y \<noteq> BCB))"
  obtain hash where hash: "HASH variant = Some hash" using HASH_known [OF variant] by blast
  have one: "\<exists>t p. good n t \<and> ippt b1 t num flags (VNum s) mode False = Inr p \<and>
      bib_result M b1 num flags key variant (VNum s) mode (VNum n) = Inr (VArr [VArr [RESULT_MAC, VBytes (m_hmac M hash key p)]])"
    if n: "n \<in> set ns" for n
  proof -
    have "may_target b0 n" "VNum n \<in> set ts" using n ns(1) by (auto simp: list_all_iff ts_def)
    then obtain t where t: "good n t" using target_strip [OF ok] unfolding good_def b1_def by blast
    then have "\<And>y. t = Some y \<Longrightarrow> y \<in> set (bp_blocks b1)" by (simp add: good_def)
    then obtain p where p: "ippt b1 t num flags (VNum s) mode False = Inr p" using ippt_total [OF ok1 _ num_ok flags(1)] by blast
    have sec: "\<not> (case t of Some x \<Rightarrow> strict_eq (b_type x) BIB \<or> strict_eq (b_type x) BCB | None \<Rightarrow> False)"
      using t by (auto simp: good_def strict_eq_def split: option.splits)
    have "target_of b1 (VNum n) = Some t" using t by (simp add: good_def)
    then show ?thesis using t p sec hash by (intro exI [of _ t] exI [of _ p]) (simp add: bib_result_def mac_def)
  qed
  then obtain tf pf where tp: "\<And>n. n \<in> set ns \<Longrightarrow> good n (tf n) \<and> ippt b1 (tf n) num flags (VNum s) mode False = Inr (pf n) \<and>
      bib_result M b1 num flags key variant (VNum s) mode (VNum n) = Inr (VArr [VArr [RESULT_MAC, VBytes (m_hmac M hash key (pf n))]])" by metis
  define hs where "hs = map (\<lambda>n. m_hmac M hash key (pf n)) ns"
  have res: "rmapM (bib_result M b1 num flags key variant (VNum s) mode) ts = Inr (map (\<lambda>h. VArr [VArr [RESULT_MAC, VBytes h]]) hs)"
  proof -
    have "rmapM (bib_result M b1 num flags key variant (VNum s) mode) (map VNum xs) =
        Inr (map (\<lambda>h. VArr [VArr [RESULT_MAC, VBytes h]]) (map (\<lambda>n. m_hmac M hash key (pf n)) xs))" if "set xs \<subseteq> set ns" for xs
      using that by (induction xs) (simp_all add: tp)
    then show ?thesis by (simp add: ts_def hs_def)
  qed
  obtain sv where sv: "encodeEid source = Inr sv" "decodeEid sv = Inr source" using eid_roundtrip [OF src(1)] by blast
  have nums: "list_all (\<lambda>n. 0 \<le> n \<and> n \<le> MAX_SAFE_INTEGER) ns" using ns(1) by (simp add: list_all_iff)
  have hl: "list_all (\<lambda>h. length h < 256) hs" "length hs < 2 ^ 16" using hmac ns(2) by (simp_all add: hs_def list_all_iff)
  note size = asb_size [OF nums ns(2) src(1) sv(1) src(2) variant s hl]
  define asb where "asb = concat (map cbor_bytes (asb_items ns sv variant s hs))"
  have asb: "asb_bytes ts sv variant (VNum s) (map (\<lambda>h. VArr [VArr [RESULT_MAC, VBytes h]]) hs) = Inr asb"
    using uints_ok [OF size(1)] by (simp add: asb_bytes_def asb_def asb_items_def ts_def)
  define x where "x = \<lparr>b_type = BIB, b_number = num, b_flags = flags, b_crcType = crcType, b_data = asb\<rparr>"
  define b where "b = b1\<lparr>bp_blocks := butlast (bp_blocks b1) @ [x, last (bp_blocks b1)]\<rparr>"
  have nn: "nullish VUndef num = num" by (simp add: nullish_def)
  have add: "addBib M b0 ts key source variant (VNum s) flags crcType VUndef mode = Inr (Some b)"
    using bl1(3) by (simp add: addBib_def hash b1_def [symmetric] num_def [symmetric] nn res sv(1) asb x_def [symmetric] b_def)
  have xok: "block_ok x" using flags crc num_ok size(2)
    by (simp add: x_def block_ok_def content_ok_def asb_def BIB_def cbor_ok_numeral [of _ "VNum 11"])
  have dn: "\<not> dup_number [] (map b_number (bp_blocks b))"
  proof -
    have "distinct (filter is_prim (map b_number (butlast (bp_blocks b1) @ [last (bp_blocks b1)])))"
      using ok1 bl1(3) by (simp add: bundle_ok_def dup_number_Nil)
    moreover have "num \<notin> set (map b_number (butlast (bp_blocks b1) @ [last (bp_blocks b1)]))"
      using fresh bl1(3) by simp
    ultimately show ?thesis by (simp add: dup_number_Nil b_def x_def num_def)
  qed
  have "list_all block_ok (butlast (bp_blocks b1))" "block_ok (last (bp_blocks b1))"
    using ok1 bl1(3) by (auto simp: bundle_ok_def list_all_iff dest: in_set_butlastD)
  then have okb: "bundle_ok b" using ok1 xok dn bl1(3) by (simp add: bundle_ok_def b_def)
  have no1: "filter (\<lambda>x. b_type x \<noteq> BIB) (bp_blocks b1) = bp_blocks b1" "filter (\<lambda>x. strict_eq (b_type x) BIB) (bp_blocks b1) = []"
    using none by (auto simp: bibs_of_def b1_def strip_crcs_def filter_empty_conv filter_id_conv BIB_def)
  have split1: "bp_blocks b1 = butlast (bp_blocks b1) @ [last (bp_blocks b1)]" using bl1(3) by simp
  have fb: "filter P (bp_blocks b) = filter P (butlast (bp_blocks b1)) @ (if P x then [x] else []) @ filter P [last (bp_blocks b1)]" for P
    by (simp add: b_def)
  have f1: "filter P (bp_blocks b1) = filter P (butlast (bp_blocks b1)) @ filter P [last (bp_blocks b1)]" for P
    by (subst split1) simp
  have bibs: "bibs_of b = [x]" unfolding bibs_of_def fb using no1(2) unfolding f1 by (simp add: x_def BIB_def)
  have rest: "filter (\<lambda>x. b_type x \<noteq> BIB) (bp_blocks b) = bp_blocks b1" unfolding fb using no1(1) unfolding f1 by (simp add: x_def)
  have "verifyBibs M b key mode a3 = Inr (BibsOk [(b_number x, source, VArr (map VNum ns))] 0)"
  proof (rule built_bib_verifies [where hs = hs, OF ok1 okb _ bibs _ size(1) sv(2) variant])
    fix i assume i: "i < length ns"
    then have g: "good (ns ! i) (tf (ns ! i))" "ippt b1 (tf (ns ! i)) num flags (VNum s) mode False = Inr (pf (ns ! i))" using tp by simp_all
    have "find (\<lambda>y. strict_eq (b_number y) (VNum (ns ! i))) (bp_blocks b) = find (\<lambda>y. strict_eq (b_number y) (VNum (ns ! i))) (bp_blocks b1)"
      if "ns ! i \<noteq> 0"
    proof -
      have "VNum (ns ! i) \<in> b_number ` set (bp_blocks b1)" using g(1) that by (force simp: good_def split: option.splits)
      then have "\<not> strict_eq (b_number x) (VNum (ns ! i))" using fresh by (auto simp: x_def)
      with bl1(3) show ?thesis by (simp add: b_def find_insert)
    qed
    then have "target_of b (VNum (ns ! i)) = target_of b1 (VNum (ns ! i))" by (simp add: target_of_def)
    then show "\<exists>t p. target_of b (VNum (ns ! i)) = Some t \<and>
      (case t of None \<Rightarrow> p_crcType (bp_primary b1) = CRC_NONE | Some y \<Rightarrow> b_crcType y = CRC_NONE) \<and>
      ippt b1 t (b_number x) (b_flags x) (VNum s) mode False = Inr p \<and> mac M variant key p = Inr (hs ! i)"
      using g i by (intro exI [of _ "tf (ns ! i)"] exI [of _ "pf (ns ! i)"])
        (auto simp: good_def x_def mac_def hash hs_def split: option.splits)
  qed (simp_all add: b_def x_def asb_def hs_def)
  moreover have "length (bp_blocks b) = Suc (length (bp_blocks b0))" using bl1(2,3) by (cases "bp_blocks b1" rule: rev_cases) (simp_all add: b_def)
  ultimately show ?thesis using add okb rest unfolding ts_def b1_def by blast
qed


section \<open>Stamping a bundle\<close>



definition toy_macs :: macs where
  "toy_macs = \<lparr>m_hmac = (\<lambda>h k d. take 32 (utf8 h @ k @ d)), m_unwrap = (\<lambda>k w. None)\<rparr>"

lemma sample_hyps:
  "bundle_ok (sample_bundle sample_chunk)" "bibs_of (sample_bundle sample_chunk) = []" "length (bp_blocks (sample_bundle sample_chunk)) < 2 ^ 16"
  "list_all (\<lambda>n. 0 \<le> n \<and> n \<le> MAX_SAFE_INTEGER \<and> may_target (sample_bundle sample_chunk) n) [0, 1]" "length [0 :: int, 1] < 2 ^ 16"
  "length ''ipn:3.1'' < 2 ^ 20" "VNum 6 \<in> {VNum 5, VNum 6, VNum 7}" "(0 :: int) \<le> 7" "(7 :: int) < 8"
  "cbor_ok 32 (VNum 0)" "VNum 0 \<noteq> VNull" "crc_type_ok CRC_NONE" "\<And>h k d. length (m_hmac toy_macs h k d) < 256"
proof -
  have "int (length sample_chunk) \<le> MAX_SAFE_INTEGER" by (rule sample_route)
  then show "bundle_ok (sample_bundle sample_chunk)" by (intro sample_bundle_ok) simp_all
  show "length (m_hmac toy_macs h k d) < 256" for h k d by (simp add: toy_macs_def del: take_append)
qed (simp_all add: bibs_of_def may_target_def sample_from_def PAYLOAD_def PREVIOUS_NODE_def BIB_def BCB_def cbor_ok_numeral crc_type_ok_def)




section \<open>What a MAC pins\<close>

lemma concat_cbor_inj:
  "list_all (cbor_ok max_levels) vs \<Longrightarrow> list_all (cbor_ok max_levels) ws \<Longrightarrow> length vs = length ws \<Longrightarrow>
    concat (map cbor_bytes vs) = concat (map cbor_bytes ws) \<Longrightarrow> vs = ws"
proof (induction vs arbitrary: ws)
  case (Cons v vs)
  then obtain w ws' where w: "ws = w # ws'" by (cases ws) auto
  have "decodeAt (cbor_bytes v @ concat (map cbor_bytes vs)) = Inr (v, concat (map cbor_bytes vs))"
      "decodeAt (cbor_bytes w @ concat (map cbor_bytes ws')) = Inr (w, concat (map cbor_bytes ws'))"
    using Cons.prems(1,2) w by (simp_all add: decodeAt_encode del: decodeAt_def)
  moreover have "cbor_bytes v @ concat (map cbor_bytes vs) = cbor_bytes w @ concat (map cbor_bytes ws')" using Cons.prems(4) w by simp
  ultimately have "(v, concat (map cbor_bytes vs)) = (w, concat (map cbor_bytes ws'))" by (metis sum.inject(2))
  then have "v = w" "vs = ws'" using Cons.IH [of ws'] Cons.prems(1-3) w by simp_all
  then show ?case by (simp only: w)
qed simp

text \<open>The input of the MAC over a block that is not the primary block, as a sequence of CBOR items.\<close>

lemma ippt_items:
  assumes ok: "bundle_ok b" and y: "y \<in> set (bp_blocks b)" and bib: "cbor_ok 32 num" "cbor_ok 32 flags" and s: "0 \<le> s" "s < 8"
  shows "\<exists>vs pv. ippt b (Some y) num flags (VNum s) RFC9173 a3 = Inr (concat (map cbor_bytes (vs @ [VBytes (b_data y)]))) \<and>
    list_all (cbor_ok max_levels) (vs @ [VBytes (b_data y)]) \<and> encode_primary (bp_primary b) = Inr (cbor_bytes pv) \<and>
    decode_primary pv (cbor_bytes pv) = Inr (bp_primary b) \<and> (odd s \<longrightarrow> 1 < length vs \<and> vs ! 1 = pv) \<and>
    length vs = 1 + (if odd s then 1 else 0) + (if odd (s div 2) then 3 else 0) + (if odd (s div 4) then 3 else 0)"
proof -
  obtain pv where pv: "encode_primary (bp_primary b) = Inr (cbor_bytes pv)" "cbor_ok max_levels pv" "decode_primary pv (cbor_bytes pv) = Inr (bp_primary b)"
    using primary_roundtrip ok by (auto simp: bundle_ok_def)
  have yok: "block_ok y" using y ok by (auto simp: bundle_ok_def list_all_iff)
  have up: "cbor_ok 32 v \<Longrightarrow> cbor_ok 33 v" for v using cbor_ok_Suc [of 32 v] by simp
  have nf: "cbor_ok 32 (nullish v (VNum 0))" if "cbor_ok 32 v" for v using that by (auto simp: nullish_def cbor_ok_numeral)
  define hs where "hs = [b_type y, b_number y, nullish (b_flags y) (VNum 0)]"
  define bs where "bs = [BIB, num, nullish flags (VNum 0)]"
  have hok: "list_all (cbor_ok 32) hs" using yok nf by (simp add: hs_def block_ok_def content_ok_def)
  have bok: "list_all (cbor_ok 32) bs" using bib nf by (simp add: bs_def BIB_def cbor_ok_numeral [of _ "VNum 11"])
  define vs where "vs = [VNum s] @ (if odd s then [pv] else []) @ (if odd (s div 2) then hs else []) @ (if odd (s div 4) then bs else [])"
  have sb: "scope_bits (VNum s) = Inr (nat s)" using s by (simp add: scope_bits_def to_prim_def)
  have odds: "odd (nat s) = odd s" "odd (nat s div 2) = odd (s div 2)" "odd (nat s div 4) = odd (s div 4)"
  proof -
    have "s \<in> {0, 1, 2, 3, 4, 5, 6, 7}" using s by auto
    then show "odd (nat s) = odd s" "odd (nat s div 2) = odd (s div 2)" "odd (nat s div 4) = odd (s div 4)" by auto
  qed
  have e0: "encode (VNum (int (nat s))) = Inr (cbor_bytes (VNum s))" using s encode_bytes [of 1 "VNum s"] by (simp del: encode.simps)
  have ed: "encode (VBytes (b_data y)) = Inr (cbor_bytes (VBytes (b_data y)))" by (simp add: cbor_bytes_scalars)
  have pb: "primaryBytes b = Inr (cbor_bytes pv)" by (simp add: primaryBytes_ok(1) [OF ok] pv(1))
  have "ippt b (Some y) num flags (VNum s) RFC9173 a3 = Inr (concat (map cbor_bytes (vs @ [VBytes (b_data y)])))"
    unfolding ippt_def sb rbind_simps e0 odds pb target_header_def option.case
      hs_def [symmetric] bs_def [symmetric] uints_ok [OF hok] uints_ok [OF bok] target_part_def
    by (cases "odd s"; cases "odd (s div 2)"; cases "odd (s div 4)") (simp_all add: on_flag_def ed vs_def del: encode.simps)
  moreover have "list_all (cbor_ok 33) (vs @ [VBytes (b_data y)])"
  proof -
    have "cbor_ok 33 (VNum s)" "cbor_ok 33 (VBytes (b_data y))" using s yok by (simp_all add: cbor_ok_numeral block_ok_def content_ok_def)
    moreover have "list_all (cbor_ok 33) hs" "list_all (cbor_ok 33) bs" using hok bok up by (auto simp: list_all_iff)
    ultimately show ?thesis using pv(2) by (simp add: vs_def)
  qed
  ultimately show ?thesis using pv(1,3)
    by (intro exI [of _ vs] exI [of _ pv]) (auto simp: vs_def hs_def bs_def)
qed

text \<open>
  A MAC pins what it covers (transport/bpv7/bpsec.mjs): if the same BIB value is the HMAC of the input over a block in two
  well-formed bundles, then the block's data, and with the scope flag also the primary block, are the same in
  both, or the two inputs are a collision of the HMAC under that key.
\<close>
theorem mac_pins_target:
  assumes "bundle_ok b" and "y \<in> set (bp_blocks b)" and "bundle_ok b'" and "y' \<in> set (bp_blocks b')"
    and "cbor_ok 32 num" and "cbor_ok 32 flags" and "0 \<le> s" and "s < 8"
    and "mac_matches M variant key (ippt b (Some y) num flags (VNum s) RFC9173 a3) got = Inr True"
    and "mac_matches M variant key (ippt b' (Some y') num flags (VNum s) RFC9173 a3') got = Inr True"
  shows "b_data y = b_data y' \<and> (odd s \<longrightarrow> bp_primary b = bp_primary b') \<or>
    (\<exists>h p p'. HASH variant = Some h \<and> p \<noteq> p' \<and> m_hmac M h key p = m_hmac M h key p')"
proof -
  obtain vs pv where v: "ippt b (Some y) num flags (VNum s) RFC9173 a3 = Inr (concat (map cbor_bytes (vs @ [VBytes (b_data y)])))"
    "list_all (cbor_ok max_levels) (vs @ [VBytes (b_data y)])" "encode_primary (bp_primary b) = Inr (cbor_bytes pv)"
    "decode_primary pv (cbor_bytes pv) = Inr (bp_primary b)" "odd s \<longrightarrow> 1 < length vs \<and> vs ! 1 = pv"
    "length vs = 1 + (if odd s then 1 else 0) + (if odd (s div 2) then 3 else 0) + (if odd (s div 4) then 3 else 0)"
    using ippt_items [OF assms(1,2,5-8), of a3] by blast
  obtain ws pw where w: "ippt b' (Some y') num flags (VNum s) RFC9173 a3' = Inr (concat (map cbor_bytes (ws @ [VBytes (b_data y')])))"
    "list_all (cbor_ok max_levels) (ws @ [VBytes (b_data y')])" "encode_primary (bp_primary b') = Inr (cbor_bytes pw)"
    "decode_primary pw (cbor_bytes pw) = Inr (bp_primary b')" "odd s \<longrightarrow> 1 < length ws \<and> ws ! 1 = pw"
    "length ws = 1 + (if odd s then 1 else 0) + (if odd (s div 2) then 3 else 0) + (if odd (s div 4) then 3 else 0)"
    using ippt_items [OF assms(3,4,5-8), of a3'] by blast
  let ?p = "concat (map cbor_bytes (vs @ [VBytes (b_data y)]))" and ?p' = "concat (map cbor_bytes (ws @ [VBytes (b_data y')]))"
  obtain h where h: "HASH variant = Some h" "got = m_hmac M h key ?p" "got = m_hmac M h key ?p'"
    using assms(9,10) by (auto simp: mac_matches_def v(1) w(1) mac_def rbind_eq_Inr split: option.splits)
  show ?thesis
  proof (cases "?p = ?p'")
    case True
    then have "vs @ [VBytes (b_data y)] = ws @ [VBytes (b_data y')]"
      by (intro concat_cbor_inj [OF v(2) w(2)]) (simp_all only: length_append v(6) w(6) list.size)
    then have "vs = ws" "b_data y = b_data y'" by simp_all
    moreover have "bp_primary b = bp_primary b'" if "odd s"
    proof -
      have "pv = pw" using v(5) w(5) that \<open>vs = ws\<close> by simp
      then show ?thesis using v(4) w(4) by simp
    qed
    ultimately show ?thesis by blast
  qed (use h in metis)
qed

lemma mac_pins_target_witness:
  "\<exists>y got. y \<in> set (bp_blocks (sample_bundle sample_chunk)) \<and>
     mac_matches toy_macs (VNum 5) [1] (ippt (sample_bundle sample_chunk) (Some y) (VNum 3) (VNum 0) (VNum 7) RFC9173 False) got = Inr True \<and>
     (b_data y = b_data y \<and> bp_primary (sample_bundle sample_chunk) = bp_primary (sample_bundle sample_chunk) \<or>
       (\<exists>h p p'. HASH (VNum 5) = Some h \<and> p \<noteq> p' \<and> m_hmac toy_macs h [1] p = m_hmac toy_macs h [1] p'))"
proof -
  let ?b = "sample_bundle sample_chunk" and ?y = "last (bp_blocks (sample_bundle sample_chunk))"
  have y: "?y \<in> set (bp_blocks ?b)" by (simp add: sample_from_def)
  have n: "cbor_ok 32 (VNum 3)" "cbor_ok 32 (VNum 0)" "(0 :: int) \<le> 7" "(7 :: int) < 8" by (simp_all add: cbor_ok_numeral)
  obtain p where p: "ippt ?b (Some ?y) (VNum 3) (VNum 0) (VNum 7) RFC9173 False = Inr p"
    using ippt_total [OF sample_hyps(1) _ n(1,2), of "Some ?y" 7 RFC9173 False] y by blast
  obtain h where h: "HASH (VNum 5) = Some h" using HASH_known [of "VNum 5"] by blast
  have m: "mac_matches toy_macs (VNum 5) [1] (ippt ?b (Some ?y) (VNum 3) (VNum 0) (VNum 7) RFC9173 False) (m_hmac toy_macs h [1] p) = Inr True"
    by (simp add: mac_matches_def p mac_def h)
  from mac_pins_target [OF sample_hyps(1) y sample_hyps(1) y n m m] m y show ?thesis by blast
qed

section \<open>A block that names no target\<close>

definition forged_asb :: bytes where
  "forged_asb = [0x80, 0x01, 0x00, 0x82, 0x01, 0x00, 0x80]"

definition forge_bib :: "bpv7 \<Rightarrow> bpv7" where
  "forge_bib b = b\<lparr>bp_blocks := \<lparr>b_type = BIB, b_number = VNum (nextBlockNumber b), b_flags = VNum 0, b_crcType = CRC_NONE, b_data = forged_asb\<rparr> # bp_blocks b\<rparr>"

lemma parse_forged: "parseAsb forged_asb = Inr \<lparr>a_targets = VArr [], a_context = VNum 1, a_flags = VNum 0, a_source = ''dtn:none'', a_params = [], a_results = VArr []\<rparr>"
  by code_simp

text \<open>
  \<open>verifyBibs\<close> (transport/bpv7/bpsec.mjs) does not ask for a target: anyone can put a BIB with an empty target list, signed
  with nothing, into a bundle that has none, and the bundle then verifies under every key.
\<close>
theorem forged_bib_accepted:
  assumes "bibs_of b = []"
  shows "verifyBibs M (forge_bib b) key mode a3 = Inr (BibsOk [(VNum (nextBlockNumber b), ''dtn:none'', VArr [])] 0)"
  using assms by (simp add: verifyBibs_def bibs_of_def forge_bib_def verify_bib_def parse_forged SC_BIB_HMAC_SHA2_def BIB_def mac_key_def Let_def js_length_def)

lemma forged_bib_accepted_witness:
  "verifyBibs toy_macs (forge_bib (sample_bundle sample_chunk)) [1, 2, 3] RFC9173 True =
    Inr (BibsOk [(VNum (nextBlockNumber (sample_bundle sample_chunk)), ''dtn:none'', VArr [])] 0)"
  by (rule forged_bib_accepted [OF sample_hyps(2)])

end
