(* ===== verification/Treb.thy ===== *)
theory Treb
  imports ReceiptV2
begin

text \<open>
  Signed hop-records for the Traceroute Extension Block (transport/bpv7/treb-signed.mjs). A hop-record is
  an array of seven fields; the proposed profile appends a detached COSE signature over them, bound to the
  bundle by its identity and the hash of its payload. A record read from the wire is the list of its
  elements, whatever they are.
\<close>

section \<open>Hop-records\<close>

record treb_link =
  li_type :: jsval
  li_speed :: jsval
  li_distance :: jsval
  li_cl :: jsval
  li_congestion :: jsval

definition no_link :: treb_link where
  "no_link = \<lparr>li_type = VNum 0, li_speed = VNum 0, li_distance = VNum 0, li_cl = VNum 0, li_congestion = VNum 0\<rparr>"

definition link_array :: "treb_link \<Rightarrow> jsval" where
  "link_array l = VArr [li_type l, li_speed l, li_distance l, li_cl l, li_congestion l]"

definition hopRecord :: "string \<Rightarrow> string \<Rightarrow> string \<Rightarrow> jsval \<Rightarrow> jsval \<Rightarrow> jsval \<Rightarrow> treb_link \<Rightarrow> jsval list res" where
  "hopRecord self prev next eventType eventTime radiateTime l =
     rbind (encodeEid self) (\<lambda>s. rbind (encodeEid prev) (\<lambda>p. rbind (encodeEid next) (\<lambda>n.
       Inr [s, p, n, eventType, eventTime, radiateTime, link_array l])))"

record hop_record =
  hr_self :: string
  hr_prev :: string
  hr_next :: string
  hr_eventType :: jsval
  hr_eventTime :: jsval
  hr_radiateTime :: jsval
  hr_link :: treb_link
  hr_signed :: bool

definition read_link :: "jsval \<Rightarrow> treb_link res" where
  "read_link v = rbind (js_index v 0) (\<lambda>a. rbind (js_index v 1) (\<lambda>b. rbind (js_index v 2) (\<lambda>c.
     rbind (js_index v 3) (\<lambda>d. rbind (js_index v 4) (\<lambda>e.
       Inr \<lparr>li_type = a, li_speed = b, li_distance = c, li_cl = d, li_congestion = e\<rparr>)))))"

definition readHopRecord :: "jsval list \<Rightarrow> hop_record res" where
  "readHopRecord r =
     rbind (decodeEid (elem r 0)) (\<lambda>s. rbind (decodeEid (elem r 1)) (\<lambda>p. rbind (decodeEid (elem r 2)) (\<lambda>n.
       rbind (read_link (elem r 6)) (\<lambda>l.
         Inr \<lparr>hr_self = s, hr_prev = p, hr_next = n, hr_eventType = elem r 3, hr_eventTime = elem r 4,
              hr_radiateTime = elem r 5, hr_link = l, hr_signed = (length r = 8)\<rparr>))))"

section \<open>Signing and verifying\<close>

definition aadFor :: "crypto \<Rightarrow> bpv7 \<Rightarrow> bytes res" where
  "aadFor C b = rbind (bundleIdentity b) (\<lambda>i. rbind (payloadHash C b) (\<lambda>h. encode (VArr [VArr i, VBytes h])))"

definition signHopRecord :: "crypto \<Rightarrow> string \<Rightarrow> jsval list \<Rightarrow> bpv7 \<Rightarrow> jsval list res" where
  "signHopRecord C k record b =
     (if length record \<noteq> 7 then Inl ''expected an unsigned 7-field TREB hop-record''
      else rbind (encode (VArr record)) (\<lambda>payload. rbind (aadFor C b) (\<lambda>aad.
        rbind (sign1 C k payload aad True) (\<lambda>sig. Inr (record @ [sig])))))"

definition verifyHopRecord :: "crypto \<Rightarrow> jsval list \<Rightarrow> jsval \<Rightarrow> bpv7 \<Rightarrow> bytes verdict res" where
  "verifyHopRecord C record pubB64 b =
     (if length record = 7 then Inr (Refuse ''unsigned'')
      else if length record \<noteq> 8 then Inr (Refuse ''not_a_hop_record'')
      else rbind (encode (VArr record)) (\<lambda>w. rbind (decode w) (\<lambda>wire.
        (case wire of
           VArr vs \<Rightarrow> rbind (aadFor C b) (\<lambda>aad. rbind (encode (VArr (take 7 vs))) (\<lambda>payload.
             Inr (verify1 C (elem vs 7) pubB64 aad (Some payload))))
         | _ \<Rightarrow> Inl ''wire.slice is not a function''))))"

definition decodeHopRecords :: "bytes \<Rightarrow> jsval res" where
  "decodeHopRecords bs = decode bs"

section \<open>The audit of a path\<close>

record treb_failure =
  tf_index :: nat
  tf_node :: string
  tf_reason :: string

record treb_gap =
  tg_after :: string
  tg_before :: string
  tg_expectedNext :: string
  tg_observedPrev :: string

record treb_audit =
  ta_signed :: nat
  ta_unsigned :: nat
  ta_failed :: "treb_failure list"
  ta_gaps :: "treb_gap list"

definition treb_unlinked :: "hop_record \<Rightarrow> hop_record \<Rightarrow> bool" where
  "treb_unlinked p h \<longleftrightarrow> hr_next p \<noteq> hr_self h \<or> hr_prev h \<noteq> ''dtn:none'' \<and> hr_prev h \<noteq> hr_self p"

definition treb_count :: "crypto \<Rightarrow> (string \<times> string) list \<Rightarrow> bpv7 \<Rightarrow> nat \<Rightarrow> jsval list \<Rightarrow> hop_record \<Rightarrow> treb_audit \<Rightarrow> treb_audit res" where
  "treb_count C keys b i r h out =
     (if \<not> hr_signed h then Inr (out\<lparr>ta_unsigned := ta_unsigned out + 1\<rparr>)
      else rbind (verifyHopRecord C r (pinned_key keys (VStr (hr_self h))) b) (\<lambda>v.
        Inr (case v of
            Accept _ \<Rightarrow> out\<lparr>ta_signed := ta_signed out + 1\<rparr>
          | Refuse reason \<Rightarrow> out\<lparr>ta_failed := ta_failed out @ [\<lparr>tf_index = i, tf_node = hr_self h, tf_reason = reason\<rparr>]\<rparr>)))"

definition treb_link_check :: "hop_record option \<Rightarrow> hop_record \<Rightarrow> treb_audit \<Rightarrow> treb_audit" where
  "treb_link_check prev h out =
     (case prev of
        None \<Rightarrow> out
      | Some p \<Rightarrow> if treb_unlinked p h
          then out\<lparr>ta_gaps := ta_gaps out @
            [\<lparr>tg_after = hr_self p, tg_before = hr_self h, tg_expectedNext = hr_next p, tg_observedPrev = hr_prev h\<rparr>]\<rparr>
          else out)"

fun treb_walk :: "crypto \<Rightarrow> (string \<times> string) list \<Rightarrow> bpv7 \<Rightarrow> nat \<Rightarrow> hop_record option \<Rightarrow> jsval list list \<Rightarrow> treb_audit \<Rightarrow> treb_audit res" where
  "treb_walk C keys b i prev [] out = Inr out"
| "treb_walk C keys b i prev (r # rs) out =
     rbind (readHopRecord r) (\<lambda>h. rbind (treb_count C keys b i r h out) (\<lambda>o1.
       treb_walk C keys b (i + 1) (Some h) rs (treb_link_check prev h o1)))"

text \<open>The verdict \<open>ok\<close> and the counts.\<close>

definition auditHopRecords :: "crypto \<Rightarrow> jsval list list \<Rightarrow> (string \<times> string) list \<Rightarrow> bpv7 \<Rightarrow> (bool \<times> treb_audit) res" where
  "auditHopRecords C recs keys b =
     rbind (treb_walk C keys b 0 None recs \<lparr>ta_signed = 0, ta_unsigned = 0, ta_failed = [], ta_gaps = []\<rparr>)
       (\<lambda>out. Inr (ta_failed out = [], out))"

section \<open>What the signature is good for\<close>

definition fits :: "jsval list \<Rightarrow> bool" where
  "fits record \<longleftrightarrow> length record = 7 \<and> list_all (cbor_ok 32) record"

definition link_ok :: "treb_link \<Rightarrow> bool" where
  "link_ok l \<longleftrightarrow> list_all (cbor_ok 31) [li_type l, li_speed l, li_distance l, li_cl l, li_congestion l]"

lemma hopRecord_read:
  assumes "eid_ok self" "eid_ok prev" "eid_ok next" "list_all (cbor_ok 32) [ty, et, rt]" "link_ok l"
  shows "\<exists>r. hopRecord self prev next ty et rt l = Inr r \<and> fits r \<and>
    readHopRecord (r @ xs) = Inr \<lparr>hr_self = self, hr_prev = prev, hr_next = next, hr_eventType = ty, hr_eventTime = et,
      hr_radiateTime = rt, hr_link = l, hr_signed = (length xs = 1)\<rparr>"
proof -
  obtain s p n where e: "encodeEid self = Inr s" "decodeEid s = Inr self" "cbor_ok 32 s"
    "encodeEid prev = Inr p" "decodeEid p = Inr prev" "cbor_ok 32 p"
    "encodeEid next = Inr n" "decodeEid n = Inr next" "cbor_ok 32 n"
    using eid_roundtrip assms(1-3) by meson
  have l: "cbor_ok 32 (link_array l)" using assms(5) by (simp add: link_array_def link_ok_def cbor_ok_numeral)
  have "hopRecord self prev next ty et rt l = Inr [s, p, n, ty, et, rt, link_array l]"
    by (simp add: hopRecord_def e)
  moreover have "fits [s, p, n, ty, et, rt, link_array l]"
    using e assms(4) l by (simp add: fits_def)
  moreover have "read_link (link_array l) = Inr l" by (simp add: read_link_def js_index_def link_array_def)
  ultimately show ?thesis by (simp add: readHopRecord_def elem_def nth_append e)
qed


lemma fits_cbor:
  assumes "fits r" shows "cbor_ok max_levels (VArr r)" and "encode (VArr r) = Inr (cbor_bytes (VArr r))"
proof -
  show ok: "cbor_ok max_levels (VArr r)"
    using assms by (simp add: fits_def cbor_ok_numeral [of _ "VArr r"])
  then show "encode (VArr r) = Inr (cbor_bytes (VArr r))" by (rule encode_bytes)
qed

lemma verify_signed:
  assumes "sig_correct C" "fits r" "aadFor C b = Inr aad" "\<And>m. int (length (ed_sign C k m)) \<le> MAX_SAFE_INTEGER"
  shows "\<exists>sig. signHopRecord C k r b = Inr (r @ [sig]) \<and>
    verifyHopRecord C (r @ [sig]) (VStr (to_base64 (ed_pub C k))) b = Inr (Accept (cbor_bytes (VArr r)))"
proof -
  obtain sig where sig: "sign1 C k (cbor_bytes (VArr r)) aad True = Inr sig"
    by (simp add: sign1_def toBeSigned_Inr)
  have len: "length r = 7" using assms(2) by (simp add: fits_def)
  have "cbor_ok 32 sig"
  proof -
    have "sig = VArr [VBytes PROTECTED, VMap [], VNull, VBytes (ed_sign C k (case toBeSigned PROTECTED (cbor_bytes (VArr r)) aad of Inr m \<Rightarrow> m))]"
      using sig by (auto simp: sign1_def toBeSigned_Inr)
    moreover have "length PROTECTED < 10" unfolding PROTECTED_def ALG_EDDSA_def
      by (simp add: cbor_bytes_def head_bytes_def head_num_def)
    ultimately show ?thesis using assms(4) by (simp add: cbor_ok_numeral)
  qed
  then have ok: "cbor_ok max_levels (VArr (r @ [sig]))"
    using assms(2) by (simp add: fits_def cbor_ok_numeral [of _ "VArr (r @ [sig])"])
  have "verify1 C sig (VStr (to_base64 (ed_pub C k))) aad (Some (cbor_bytes (VArr r))) = Accept (cbor_bytes (VArr r))"
    by (rule verify1_sign1 [OF assms(1) sig]) simp
  then have "verifyHopRecord C (r @ [sig]) (VStr (to_base64 (ed_pub C k))) b = Inr (Accept (cbor_bytes (VArr r)))"
    using len encode_bytes [OF ok] decode_cbor_bytes [OF ok] fits_cbor(2) [OF assms(2)] assms(3)
    by (simp add: verifyHopRecord_def elem_def nth_append del: encode.simps)
  moreover have "signHopRecord C k r b = Inr (r @ [sig])"
    using len fits_cbor(2) [OF assms(2)] assms(3) sig by (simp add: signHopRecord_def del: encode.simps)
  ultimately show ?thesis by blast
qed

text \<open>A path of signing nodes: each names the one before and the one after.\<close>

record treb_hop =
  th_key :: string
  th_self :: string
  th_type :: jsval
  th_time :: jsval
  th_radiate :: jsval
  th_link :: treb_link

definition next_node :: "treb_hop list \<Rightarrow> string \<Rightarrow> string" where
  "next_node hs final = (case hs of [] \<Rightarrow> final | h # _ \<Rightarrow> th_self h)"

fun treb_path :: "crypto \<Rightarrow> bpv7 \<Rightarrow> string \<Rightarrow> treb_hop list \<Rightarrow> string \<Rightarrow> jsval list list res" where
  "treb_path C b prev [] final = Inr []"
| "treb_path C b prev (h # hs) final =
     rbind (hopRecord (th_self h) prev (next_node hs final) (th_type h) (th_time h) (th_radiate h) (th_link h)) (\<lambda>r.
     rbind (signHopRecord C (th_key h) r b) (\<lambda>s.
     rbind (treb_path C b (th_self h) hs final) (\<lambda>rs. Inr (s # rs))))"

definition treb_hop_ok :: "crypto \<Rightarrow> (string \<times> string) list \<Rightarrow> treb_hop \<Rightarrow> bool" where
  "treb_hop_ok C keys h \<longleftrightarrow> eid_ok (th_self h) \<and> list_all (cbor_ok 32) [th_type h, th_time h, th_radiate h] \<and>
     link_ok (th_link h) \<and> map_of keys (th_self h) = Some (to_base64 (ed_pub C (th_key h))) \<and>
     (\<forall>m. int (length (ed_sign C (th_key h) m)) \<le> MAX_SAFE_INTEGER)"

lemma treb_walk_path:
  assumes "sig_correct C" "aadFor C b = Inr aad" "eid_ok final"
  shows "\<forall>h\<in>set hs. treb_hop_ok C keys h \<Longrightarrow> eid_ok prev \<Longrightarrow>
      (case p of None \<Rightarrow> True | Some h \<Rightarrow> hr_self h = prev \<and> hr_next h = next_node hs final) \<Longrightarrow>
    \<exists>rs. treb_path C b prev hs final = Inr rs \<and>
      treb_walk C keys b i p rs out = Inr (out\<lparr>ta_signed := ta_signed out + length hs\<rparr>)"
proof (induction hs arbitrary: prev p i out)
  case (Cons h hs)
  have h: "treb_hop_ok C keys h" using Cons.prems(1) by simp
  have next_ok: "eid_ok (next_node hs final)"
    using Cons.prems(1) assms(3) by (cases hs) (simp_all add: next_node_def treb_hop_ok_def)
  have h_ok: "eid_ok (th_self h)" "list_all (cbor_ok 32) [th_type h, th_time h, th_radiate h]" "link_ok (th_link h)"
    "map_of keys (th_self h) = Some (to_base64 (ed_pub C (th_key h)))" "\<And>m. int (length (ed_sign C (th_key h) m)) \<le> MAX_SAFE_INTEGER"
    using h unfolding treb_hop_ok_def by blast+
  define rd where "rd = \<lparr>hr_self = th_self h, hr_prev = prev, hr_next = next_node hs final, hr_eventType = th_type h,
    hr_eventTime = th_time h, hr_radiateTime = th_radiate h, hr_link = th_link h, hr_signed = True\<rparr>"
  obtain r where r: "hopRecord (th_self h) prev (next_node hs final) (th_type h) (th_time h) (th_radiate h) (th_link h) = Inr r"
    "fits r"
    using hopRecord_read [OF h_ok(1) Cons.prems(2) next_ok h_ok(2,3), of "[]"] by blast
  have read: "readHopRecord (r @ [sig]) = Inr rd" for sig
    using hopRecord_read [OF h_ok(1) Cons.prems(2) next_ok h_ok(2,3), of "[sig]"] r(1) by (auto simp: rd_def)
  obtain sig where sig: "signHopRecord C (th_key h) r b = Inr (r @ [sig])"
    "verifyHopRecord C (r @ [sig]) (VStr (to_base64 (ed_pub C (th_key h)))) b = Inr (Accept (cbor_bytes (VArr r)))"
    using verify_signed [OF assms(1) r(2) assms(2) h_ok(5)] by blast
  have count: "treb_count C keys b i (r @ [sig]) rd out = Inr (out\<lparr>ta_signed := ta_signed out + 1\<rparr>)"
    using sig(2) h_ok(4) by (simp add: treb_count_def rd_def pinned_key_def)
  have chain: "treb_link_check p rd o1 = o1" for o1
    using Cons.prems(3) by (auto simp: treb_link_check_def treb_unlinked_def rd_def next_node_def split: option.splits)
  have "\<forall>h\<in>set hs. treb_hop_ok C keys h" "case Some rd of None \<Rightarrow> True | Some g \<Rightarrow> hr_self g = th_self h \<and> hr_next g = next_node hs final"
    using Cons.prems(1) by (simp_all add: rd_def)
  from Cons.IH [OF this(1) h_ok(1) this(2), of "i + 1" "out\<lparr>ta_signed := ta_signed out + 1\<rparr>"]
  obtain rs where rs: "treb_path C b (th_self h) hs final = Inr rs"
    "treb_walk C keys b (i + 1) (Some rd) rs (out\<lparr>ta_signed := ta_signed out + 1\<rparr>) =
      Inr (out\<lparr>ta_signed := ta_signed out + 1 + length hs\<rparr>)" by auto
  have "treb_path C b prev (h # hs) final = Inr ((r @ [sig]) # rs)" by (simp add: r(1) sig(1) rs(1))
  moreover have "treb_walk C keys b i p ((r @ [sig]) # rs) out = Inr (out\<lparr>ta_signed := ta_signed out + length (h # hs)\<rparr>)"
    using read rs(2) by (simp add: count chain)
  ultimately show ?case by blast
qed simp

text \<open>Property C24. A recorded path on which every node signs its hop-record for the bundle
  (transport/bpv7/treb-signed.mjs) is audited as sound under the pinned keys of those nodes: every record counts
  as signed, none fails and no gap between neighbours is reported. What a hop-record says is what was recorded.\<close>

theorem signed_path_audited:
  assumes "sig_correct C" "aadFor C b = Inr aad" "\<forall>h\<in>set hs. treb_hop_ok C keys h" "eid_ok origin" "eid_ok final"
  shows "\<exists>rs. treb_path C b origin hs final = Inr rs \<and>
    auditHopRecords C rs keys b = Inr (True, \<lparr>ta_signed = length hs, ta_unsigned = 0, ta_failed = [], ta_gaps = []\<rparr>)"
  using treb_walk_path [OF assms(1,2,5,3,4), of None 0 "\<lparr>ta_signed = 0, ta_unsigned = 0, ta_failed = [], ta_gaps = []\<rparr>"]
  by (auto simp: auditHopRecords_def)

text \<open>Signatures that are short: the signer's key alone.\<close>

definition key_signer :: crypto where
  "key_signer = toy\<lparr>ed_sign := (\<lambda>k m. 0 # utf8 k), ed_verify := (\<lambda>spki m s. s = spki)\<rparr>"

lemma signed_path_audited_witness:
  "let hs = [\<lparr>th_key = ''k'', th_self = ''ipn:2.0'', th_type = VNum 0, th_time = VNum 7, th_radiate = VNum 9, th_link = no_link\<rparr>,
             \<lparr>th_key = ''l'', th_self = ''ipn:3.0'', th_type = VNum 0, th_time = VNum 8, th_radiate = VNum 9, th_link = no_link\<rparr>];
       keys = [(''ipn:2.0'', to_base64 (0 # utf8 ''k'')), (''ipn:3.0'', to_base64 (0 # utf8 ''l''))] in
    \<exists>rs. treb_path key_signer (sample_bundle [7]) ''ipn:1.0'' hs ''ipn:4.0'' = Inr rs \<and>
      auditHopRecords key_signer rs keys (sample_bundle [7]) =
        Inr (True, \<lparr>ta_signed = 2, ta_unsigned = 0, ta_failed = [], ta_gaps = []\<rparr>)"
proof -
  define hs where "hs = [\<lparr>th_key = ''k'', th_self = ''ipn:2.0'', th_type = VNum 0, th_time = VNum 7, th_radiate = VNum 9, th_link = no_link\<rparr>,
             \<lparr>th_key = ''l'', th_self = ''ipn:3.0'', th_type = VNum 0, th_time = VNum 8, th_radiate = VNum 9, th_link = no_link\<rparr>]"
  define keys where "keys = [(''ipn:2.0'', to_base64 (0 # utf8 ''k'')), (''ipn:3.0'', to_base64 (0 # utf8 ''l''))]"
  have C: "sig_correct key_signer" by (simp add: sig_correct_def key_signer_def toy_def)
  have "bundleIdentity (sample_bundle [7]) = Inr (sample_ident (VNum 0))"
    by (simp add: bundleIdentity_def sample_from_def fragment_bit_def nullish_def whole_id_def sample_ident_def to_prim_def js_Number_def)
  moreover have "\<exists>h. payloadHash key_signer (sample_bundle [7]) = Inr h \<and> length h = 32"
    by (simp add: payloadHash_def payloadOf_def sample_from_def key_signer_def toy_def PAYLOAD_def PREVIOUS_NODE_def)
  moreover have "cbor_ok max_levels (VArr [VArr (sample_ident (VNum 0)), VBytes h])" if "length h = 32" for h
    using that by (simp add: cbor_ok_numeral sample_ident_def text_ok_ascii)
  ultimately obtain aad where aad: "aadFor key_signer (sample_bundle [7]) = Inr aad"
    using encode_total by (fastforce simp: aadFor_def simp del: encode.simps)
  have eids: "eid_ok ''ipn:1.0''" "eid_ok ''ipn:2.0''" "eid_ok ''ipn:3.0''" "eid_ok ''ipn:4.0''"
  proof -
    have "ipn_match ''ipn:1.0'' = Some (''1'', ''0'')" "ipn_match ''ipn:2.0'' = Some (''2'', ''0'')"
      "ipn_match ''ipn:3.0'' = Some (''3'', ''0'')" "ipn_match ''ipn:4.0'' = Some (''4'', ''0'')" by code_simp+
    moreover have "read_nat ''0'' = 0" "read_nat ''1'' = 1" "read_nat ''2'' = 2" "read_nat ''3'' = 3" "read_nat ''4'' = 4" by code_simp+
    moreover have "show_nat 0 = ''0''" "show_nat 1 = ''1''" "show_nat 2 = ''2''" "show_nat 3 = ''3''" "show_nat 4 = ''4''" by code_simp+
    ultimately show "eid_ok ''ipn:1.0''" "eid_ok ''ipn:2.0''" "eid_ok ''ipn:3.0''" "eid_ok ''ipn:4.0''"
      by (simp_all add: eid_ok_def)
  qed
  have l: "link_ok no_link" by (simp add: link_ok_def no_link_def cbor_ok_numeral)
  have "\<forall>h\<in>set hs. treb_hop_ok key_signer keys h"
    using eids l by (simp add: hs_def keys_def treb_hop_ok_def cbor_ok_numeral key_signer_def toy_def)
  moreover have "length hs = 2" by (simp add: hs_def)
  ultimately show ?thesis
    using signed_path_audited [OF C aad _ eids(1,4), of hs keys]
    unfolding hs_def [symmetric] keys_def [symmetric] Let_def by simp
qed

end
