(* ===== verification/Ground.thy ===== *)
theory Ground
  imports Sim CustodyBlock "HOL-Library.Product_Lexorder"
begin

text \<open>
  ground/lib.mjs: the ledger a ground station builds from what it received, its verification under the pinned
  station key, and the comparison of two stations' ledgers.

  Pass times are milliseconds (the ISO dates of a schedule go through \<open>ms\<close> first; a date that does not parse is
  outside the model). The order of file names is \<open>localeCompare\<close>, given by the collation key of a name. An
  operation that does not end for a chunk size of 0 is \<open>None\<close>.
\<close>

section \<open>Dates\<close>

definition days_of :: "int \<Rightarrow> int \<Rightarrow> int \<Rightarrow> int" where
  "days_of y m d =
     (let y' = (if m \<le> 2 then y - 1 else y); era = y' div 400; yoe = y' mod 400;
          doy = (153 * (if m > 2 then m - 3 else m + 9) + 2) div 5 + d - 1; doe = yoe * 365 + yoe div 4 - yoe div 100 + doy
      in era * 146097 + doe - 719468)"

definition number_at :: "nat \<Rightarrow> nat \<Rightarrow> string \<Rightarrow> int option" where
  "number_at i n s = map_option int (digits_value (take n (drop i s)))"

text \<open>\<open>Date.parse\<close> of \<open>YYYY-MM-DDTHH:MM:SS[.mmm]Z\<close>.\<close>

definition date_parse :: "string \<Rightarrow> int option" where
  "date_parse s =
     (case (number_at 0 4 s, number_at 5 2 s, number_at 8 2 s, number_at 11 2 s, number_at 14 2 s, number_at 17 2 s) of
        (Some y, Some mo, Some d, Some h, Some mi, Some sec) \<Rightarrow>
          let millis = (if length s = 20 \<and> s ! 19 = CHR ''Z'' then Some 0
            else if length s = 24 \<and> s ! 19 = CHR ''.'' \<and> s ! 23 = CHR ''Z'' then number_at 20 3 s else None) in
          if s ! 4 = CHR ''-'' \<and> s ! 7 = CHR ''-'' \<and> s ! 10 = CHR ''T'' \<and> s ! 13 = CHR '':'' \<and> s ! 16 = CHR '':'' \<and>
             1 \<le> mo \<and> mo \<le> 12 \<and> 1 \<le> d \<and> d \<le> 31 \<and> h \<le> 23 \<and> mi \<le> 59 \<and> sec \<le> 59
          then map_option (\<lambda>ms. days_of y mo d * 86400000 + h * 3600000 + mi * 60000 + sec * 1000 + ms) millis
          else None
      | _ \<Rightarrow> None)"

definition ms :: "jsval \<Rightarrow> int option" where
  "ms t = (case t of VNum n \<Rightarrow> Some n | VStr s \<Rightarrow> date_parse s | _ \<Rightarrow> None)"

section \<open>One product\<close>

record file_print =
  fp_root :: string
  fp_chunkCount :: nat
  fp_sha256 :: string
  fp_bytes :: nat
  fp_chunkSize :: nat

definition sha256_of :: "crypto \<Rightarrow> bytes \<Rightarrow> string" where
  "sha256_of C b = to_hex (sha256 C b)"

definition fingerprint :: "crypto \<Rightarrow> bytes \<Rightarrow> nat \<Rightarrow> file_print option" where
  "fingerprint C b chunkSize = map_option (\<lambda>cs.
     \<lparr>fp_root = (case buildTree C (map (leafHash C) cs) of Inr t \<Rightarrow> root t | Inl e \<Rightarrow> []), fp_chunkCount = length cs,
      fp_sha256 = sha256_of C b, fp_bytes = length b, fp_chunkSize = chunkSize\<rparr>) (chunk b chunkSize)"

record gfile =
  f_name :: string
  f_bytes :: bytes
  f_receivedAt :: int

record gpass =
  ps_id :: jsval
  ps_start :: int
  ps_end :: int

definition passFor :: "gpass list \<Rightarrow> int \<Rightarrow> gpass option" where
  "passFor passes t = find (\<lambda>p. t \<ge> ps_start p \<and> t \<le> ps_end p) passes"

section \<open>Building the ledger\<close>

record product =
  pr_name :: string
  pr_receivedAt :: int
  pr_payloadId :: string

record ledger =
  lg_station :: jsval
  lg_spacecraft :: jsval
  lg_stationPub :: string
  lg_records :: "jsval list"
  lg_seal :: jsval

record building =
  bu_records :: "jsval list"
  bu_byPass :: "(jsval \<times> product list) list"
  bu_unscheduled :: "product list"

type_synonym collation = "string \<Rightarrow> string"

definition sorted_files :: "collation \<Rightarrow> gfile list \<Rightarrow> gfile list" where
  "sorted_files coll = sort_key (\<lambda>f. (f_receivedAt f, coll (f_name f)))"

definition product_meta :: "string \<Rightarrow> gfile \<Rightarrow> file_print \<Rightarrow> gpass option \<Rightarrow> jsval" where
  "product_meta station f fp pass =
     VObj [(''observedBy'', VStr station), (''name'', VStr (f_name f)), (''bytes'', VNum (int (fp_bytes fp))),
       (''sha256'', VStr (fp_sha256 fp)), (''chunkSize'', VNum (int (fp_chunkSize fp))),
       (''passId'', case pass of Some p \<Rightarrow> ps_id p | None \<Rightarrow> VNull)]"

definition product_records :: "crypto \<Rightarrow> keypair \<Rightarrow> string \<Rightarrow> string \<Rightarrow> gfile \<Rightarrow> file_print \<Rightarrow> gpass option \<Rightarrow> (string \<times> jsval \<times> jsval) res" where
  "product_records C kp station spacecraft f fp pass =
     rbind (contentId C (VObj [(''station'', VStr station), (''sha256'', VStr (fp_sha256 fp)), (''name'', VStr (f_name f))])) (\<lambda>pid.
     rbind (signRecord C kp (buildManifest pid (fp_chunkCount fp) (fp_root fp) (product_meta station f fp pass))) (\<lambda>m.
     rbind (custodyReceipt C kp (VStr pid) (field m ''claimId'') (VStr spacecraft) station (VNum (f_receivedAt f)) (VNum (f_receivedAt f))) (\<lambda>r.
     Inr (pid, m, r))))"

definition push_product :: "gpass option \<Rightarrow> product \<Rightarrow> building \<Rightarrow> building" where
  "push_product pass x st =
     (case pass of
        Some p \<Rightarrow> st\<lparr>bu_byPass := map (\<lambda>(k, xs). (k, if k = ps_id p then xs @ [x] else xs)) (bu_byPass st)\<rparr>
      | None \<Rightarrow> st\<lparr>bu_unscheduled := bu_unscheduled st @ [x]\<rparr>)"

fun add_files :: "crypto \<Rightarrow> keypair \<Rightarrow> string \<Rightarrow> string \<Rightarrow> gpass list \<Rightarrow> nat \<Rightarrow> gfile list \<Rightarrow> building \<Rightarrow> building res option" where
  "add_files C kp station spacecraft passes chunkSize [] st = Some (Inr st)"
| "add_files C kp station spacecraft passes chunkSize (f # fs) st =
     (case fingerprint C (f_bytes f) chunkSize of
        None \<Rightarrow> None
      | Some fp \<Rightarrow>
          let pass = passFor passes (f_receivedAt f) in
          (case product_records C kp station spacecraft f fp pass of
             Inl e \<Rightarrow> Some (Inl e)
           | Inr (pid, m, r) \<Rightarrow> add_files C kp station spacecraft passes chunkSize fs
               (push_product pass \<lparr>pr_name = f_name f, pr_receivedAt = f_receivedAt f, pr_payloadId = pid\<rparr>
                 (st\<lparr>bu_records := bu_records st @ [m, r]\<rparr>))))"

definition opt_num :: "int option \<Rightarrow> jsval" where
  "opt_num v = (case v of Some n \<Rightarrow> VNum n | None \<Rightarrow> VNull)"

definition silent_gap :: "string \<Rightarrow> string \<Rightarrow> gfile list \<Rightarrow> gpass \<Rightarrow> jsval" where
  "silent_gap station spacecraft fs p =
     (let link = spacecraft @ ''>'' @ station;
          events = \<lparr>le_link = link, le_event = ''down'', le_t = ps_start p\<rparr> #
            (case find (\<lambda>f. f_receivedAt f > ps_end p) fs of
               Some f \<Rightarrow> [\<lparr>le_link = link, le_event = ''up'', le_t = f_receivedAt f\<rparr>] | None \<Rightarrow> []);
          g = gapObject link events [] []
      in VObj [(''kind'', VStr ''gap/1''), (''link'', VStr (g_link g)), (''downAt'', opt_num (g_downAt g)), (''upAt'', opt_num (g_upAt g)),
        (''durationMs'', opt_num (g_durationMs g)), (''bundlesDelayed'', VArr (map VStr (g_delayed g))),
        (''bundlesLostConfirmed'', VArr (map VStr (g_lost g))),
        (''note'', VStr ''scheduled pass produced no data at this station; gap runs until data next arrived.'')])"

definition products_of :: "building \<Rightarrow> jsval \<Rightarrow> product list" where
  "products_of st i = (case map_of (bu_byPass st) i of Some xs \<Rightarrow> xs | None \<Rightarrow> [])"

definition pass_report :: "string \<Rightarrow> string \<Rightarrow> gfile list \<Rightarrow> building \<Rightarrow> gpass \<Rightarrow> jsval" where
  "pass_report station spacecraft fs st p =
     (let got = products_of st (ps_id p) in
      VObj ([(''kind'', VStr ''station.pass/1''), (''station'', VStr station), (''spacecraft'', VStr spacecraft), (''passId'', ps_id p),
        (''scheduledStart'', VNum (ps_start p)), (''scheduledEnd'', VNum (ps_end p)), (''products'', VNum (int (length got))),
        (''firstAt'', if got = [] then VNull else VNum (pr_receivedAt (hd got))),
        (''lastAt'', if got = [] then VNull else VNum (pr_receivedAt (last got))),
        (''payloadIds'', VArr (map (\<lambda>x. VStr (pr_payloadId x)) got)), (''status'', VStr (if got = [] then ''no-data'' else ''received''))]
        @ (if got = [] then [(''gap'', silent_gap station spacecraft fs p)] else [])))"

definition unscheduled_record :: "string \<Rightarrow> string \<Rightarrow> product list \<Rightarrow> jsval" where
  "unscheduled_record station spacecraft us =
     VObj [(''kind'', VStr ''station.unscheduled/1''), (''station'', VStr station), (''spacecraft'', VStr spacecraft),
       (''products'', VArr (map (\<lambda>u. VObj [(''name'', VStr (pr_name u)), (''receivedAt'', VNum (pr_receivedAt u)),
         (''payloadId'', VStr (pr_payloadId u))]) us))]"

text \<open>\<open>r.claimId.slice(2)\<close>; a claim id that is no string counts as an exception.\<close>

definition claim_hex :: "jsval \<Rightarrow> string res" where
  "claim_hex r = (case field r ''claimId'' of VStr s \<Rightarrow> Inr (drop 2 s) | _ \<Rightarrow> Inl ''r.claimId.slice is not a function'')"

definition records_root :: "crypto \<Rightarrow> jsval list \<Rightarrow> string res" where
  "records_root C rs = rbind (rmapM claim_hex rs) (\<lambda>hs. rbind (buildTree C hs) (\<lambda>t. Inr (root t)))"

definition seal_ledger :: "crypto \<Rightarrow> keypair \<Rightarrow> string \<Rightarrow> string \<Rightarrow> jsval list \<Rightarrow> ledger res" where
  "seal_ledger C kp station spacecraft rs =
     rbind (records_root C rs) (\<lambda>rt.
     rbind (signRecord C kp (VObj [(''kind'', VStr ''station.ledger/1''), (''station'', VStr station), (''spacecraft'', VStr spacecraft),
       (''recordCount'', VNum (int (length rs))), (''root'', VStr rt)])) (\<lambda>s.
     Inr \<lparr>lg_station = VStr station, lg_spacecraft = VStr spacecraft, lg_stationPub = pub kp, lg_records = rs, lg_seal = s\<rparr>))"

definition close_ledger :: "crypto \<Rightarrow> keypair \<Rightarrow> string \<Rightarrow> string \<Rightarrow> gpass list \<Rightarrow> gfile list \<Rightarrow> building \<Rightarrow> ledger res" where
  "close_ledger C kp station spacecraft passes fs st =
     rbind (rmapM (signRecord C kp) (map (pass_report station spacecraft fs st) (sort_key ps_start passes) @
       (if bu_unscheduled st = [] then [] else [unscheduled_record station spacecraft (bu_unscheduled st)])))
       (\<lambda>rs. seal_ledger C kp station spacecraft (bu_records st @ rs))"

definition buildLedger :: "crypto \<Rightarrow> collation \<Rightarrow> keypair \<Rightarrow> string \<Rightarrow> string \<Rightarrow> gfile list \<Rightarrow> gpass list \<Rightarrow> nat \<Rightarrow> ledger res option" where
  "buildLedger C coll kp station spacecraft files passes chunkSize =
     (let fs = sorted_files coll files in
      map_option (\<lambda>r. rbind r (close_ledger C kp station spacecraft passes fs))
        (add_files C kp station spacecraft passes chunkSize fs
           \<lparr>bu_records = [], bu_byPass = map (\<lambda>i. (i, [])) (remdups (map ps_id passes)), bu_unscheduled = []\<rparr>))"

section \<open>Verifying a ledger\<close>

datatype ledger_verdict =
  LedgerOk nat nat nat nat nat jsval
| LedgerBad string jsval

fun check_records :: "crypto \<Rightarrow> string \<Rightarrow> jsval list \<Rightarrow> (string \<times> jsval) option res" where
  "check_records C stationPub [] = Inr None"
| "check_records C stationPub (r # rs) = rbind (verifyRecord C r) (\<lambda>v.
     case v of
       Refuse reason \<Rightarrow> Inr (Some (reason, field r ''claimId''))
     | Accept signer \<Rightarrow> if \<not> strict_eq signer (VStr stationPub) then Inr (Some (''signer_not_pinned_station_key'', field r ''claimId''))
         else check_records C stationPub rs)"

definition is_kind :: "string \<Rightarrow> jsval \<Rightarrow> bool" where
  "is_kind k r = strict_eq (field r ''kind'') (VStr k)"

text \<open>
  The chunk size a manifest names, as \<open>fingerprint\<close> steps by it: absent it is the default, and a step that is
  not positive never ends. One that is no number counts as an exception.
\<close>

definition fingerprint_js :: "crypto \<Rightarrow> bytes \<Rightarrow> jsval \<Rightarrow> file_print res option" where
  "fingerprint_js C b stepsize =
     (case stepsize of
        VUndef \<Rightarrow> map_option Inr (fingerprint C b 65536)
      | VNum n \<Rightarrow> if n < 0 \<and> b \<noteq> [] then None else map_option Inr (fingerprint C b (nat n))
      | _ \<Rightarrow> Some (Inl ''chunk size''))"

fun rehash :: "crypto \<Rightarrow> (string \<times> bytes) list \<Rightarrow> jsval list \<Rightarrow> nat \<Rightarrow> ((string \<times> jsval) + nat) res option" where
  "rehash C files [] n = Some (Inr (Inr n))"
| "rehash C files (m # rest) n =
     (case get_prop (field m ''meta'') ''name'' of
        Inl e \<Rightarrow> Some (Inl e)
      | Inr name \<Rightarrow>
          (case (case name of VStr s \<Rightarrow> map_of files s | _ \<Rightarrow> None) of
             None \<Rightarrow> Some (Inr (Inl (''product_missing'', name)))
           | Some b \<Rightarrow>
               (case fingerprint_js C b (field (field m ''meta'') ''chunkSize'') of
                  None \<Rightarrow> None
                | Some (Inl e) \<Rightarrow> Some (Inl e)
                | Some (Inr fp) \<Rightarrow>
                    if \<not> strict_eq (VStr (fp_root fp)) (field m ''root'') \<or> \<not> strict_eq (VStr (fp_sha256 fp)) (field (field m ''meta'') ''sha256'')
                    then Some (Inr (Inl (''product_altered'', name)))
                    else rehash C files rest (n + 1))))"

definition silent :: "jsval \<Rightarrow> bool" where
  "silent p = strict_eq (field p ''status'') (VStr ''no-data'')"

definition ledger_summary :: "ledger \<Rightarrow> nat \<Rightarrow> ledger_verdict" where
  "ledger_summary l checked =
     (let passes = filter (is_kind ''station.pass/1'') (lg_records l) in
      LedgerOk (length (lg_records l)) (length (filter (is_kind ''manifest/1'') (lg_records l))) checked (length passes)
        (length (filter silent passes)) (field (lg_seal l) ''root''))"

definition seal_matches :: "string \<Rightarrow> ledger \<Rightarrow> bool" where
  "seal_matches rt l \<longleftrightarrow> strict_eq (VStr rt) (field (lg_seal l) ''root'') \<and>
     strict_eq (field (lg_seal l) ''recordCount'') (VNum (int (length (lg_records l))))"

definition verifyLedger :: "crypto \<Rightarrow> ledger \<Rightarrow> string \<Rightarrow> (string \<times> bytes) list option \<Rightarrow> ledger_verdict res option" where
  "verifyLedger C l stationPub files =
     (if stationPub = [] then Some (Inr (LedgerBad ''unpinned: verifier must supply the station public key'' VUndef))
      else (case check_records C stationPub (lg_records l @ [lg_seal l]) of
          Inl e \<Rightarrow> Some (Inl e)
        | Inr (Some (reason, i)) \<Rightarrow> Some (Inr (LedgerBad reason i))
        | Inr None \<Rightarrow> (case records_root C (lg_records l) of
            Inl e \<Rightarrow> Some (Inl e)
          | Inr rt \<Rightarrow>
              if \<not> seal_matches rt l then Some (Inr (LedgerBad ''seal_mismatch'' VUndef))
              else (case files of
                  None \<Rightarrow> Some (Inr (ledger_summary l 0))
                | Some fs \<Rightarrow> map_option (\<lambda>r. rbind r (\<lambda>v. Inr (case v of
                      Inl (reason, name) \<Rightarrow> LedgerBad reason name | Inr n \<Rightarrow> ledger_summary l n)))
                    (rehash C fs (filter (is_kind ''manifest/1'') (lg_records l)) 0)))))"

section \<open>Two stations\<close>

definition product_key :: "jsval \<Rightarrow> string res" where
  "product_key m = rbind (get_prop (field m ''meta'') ''sha256'') (\<lambda>s. Inr (js_String s @ '':'' @ js_String (field m ''root'')))"

text \<open>\<open>new Map(manifests.map((m) => [key(m), m]))\<close>.\<close>

definition product_map :: "ledger \<Rightarrow> (string \<times> jsval) list res" where
  "product_map l = rbind (rmapM (\<lambda>m. rbind (product_key m) (\<lambda>k. Inr (k, m))) (filter (is_kind ''manifest/1'') (lg_records l)))
     (\<lambda>kms. Inr (fold (\<lambda>(k, m). set_field k m) kms []))"

record pass_finding =
  pf_overlap :: "int option \<times> int option"
  pf_passA :: jsval
  pf_passB :: jsval
  pf_productsA :: jsval
  pf_productsB :: jsval
  pf_finding :: string
  pf_reportA :: jsval
  pf_reportB :: jsval

definition js_max :: "jsval \<Rightarrow> jsval \<Rightarrow> int option" where
  "js_max a b = (case (js_Number a, js_Number b) of (Some m, Some n) \<Rightarrow> Some (max m n) | _ \<Rightarrow> None)"

definition js_min :: "jsval \<Rightarrow> jsval \<Rightarrow> int option" where
  "js_min a b = (case (js_Number a, js_Number b) of (Some m, Some n) \<Rightarrow> Some (min m n) | _ \<Rightarrow> None)"

definition finding :: "bool \<Rightarrow> bool \<Rightarrow> string" where
  "finding sa sb = (if sa \<and> sb then ''shared_silence'' else if sa then ''gap_at_a'' else if sb then ''gap_at_b'' else ''both_received'')"

definition compare_pair :: "jsval \<Rightarrow> jsval \<Rightarrow> pass_finding list" where
  "compare_pair pa pb =
     (let lo = js_max (field pa ''scheduledStart'') (field pb ''scheduledStart''); hi = js_min (field pa ''scheduledEnd'') (field pb ''scheduledEnd'') in
      if (case (lo, hi) of (Some a, Some b) \<Rightarrow> b \<le> a | _ \<Rightarrow> False) then []
      else [\<lparr>pf_overlap = (lo, hi), pf_passA = field pa ''passId'', pf_passB = field pb ''passId'', pf_productsA = field pa ''products'',
        pf_productsB = field pb ''products'', pf_finding = finding (silent pa) (silent pb), pf_reportA = field pa ''claimId'',
        pf_reportB = field pb ''claimId''\<rparr>])"

definition comparePasses :: "ledger \<Rightarrow> ledger \<Rightarrow> pass_finding list" where
  "comparePasses a b =
     (if \<not> strict_eq (lg_spacecraft a) (lg_spacecraft b) then []
      else concat (map (\<lambda>pa. concat (map (compare_pair pa) (filter (is_kind ''station.pass/1'') (lg_records b))))
        (filter (is_kind ''station.pass/1'') (lg_records a))))"

record corroboration =
  co_both :: "(string \<times> jsval) list"
  co_onlyA :: "jsval list"
  co_onlyB :: "jsval list"
  co_passes :: "pass_finding list"

definition names_not_in :: "(string \<times> jsval) list \<Rightarrow> (string \<times> jsval) list \<Rightarrow> jsval list" where
  "names_not_in x y = map (\<lambda>e. field (field (snd e) ''meta'') ''name'') (filter (\<lambda>e. fst e \<notin> set (map fst y)) x)"

definition corroborate :: "ledger \<Rightarrow> ledger \<Rightarrow> corroboration res" where
  "corroborate a b = rbind (product_map a) (\<lambda>mA. rbind (product_map b) (\<lambda>mB.
     Inr \<lparr>co_both = map (\<lambda>e. (takeWhile (\<lambda>c. c \<noteq> CHR '':'') (fst e), field (field (snd e) ''meta'') ''name''))
           (filter (\<lambda>e. fst e \<in> set (map fst mB)) mA),
         co_onlyA = names_not_in mA mB, co_onlyB = names_not_in mB mA, co_passes = comparePasses a b\<rparr>))"

end
