(* ===== verification/GroundProps.thy ===== *)
theory GroundProps
  imports Ground
begin

text \<open>
  The ledger of a ground station (ground/lib.mjs): what an honest station builds verifies, and says exactly which
  scheduled passes were silent; a sealed ledger cannot be changed without notice.
\<close>

section \<open>Records of a station\<close>

definition by_station :: "crypto \<Rightarrow> keypair \<Rightarrow> jsval \<Rightarrow> bool" where
  "by_station C kp r \<longleftrightarrow> (\<exists>kvs. signRecord C kp (VObj kvs) = Inr r)"

lemma check_records_honest:
  assumes "sig_correct C" "keypair_ok C kp" "\<forall>r\<in>set rs. by_station C kp r"
  shows "check_records C (pub kp) rs = Inr None"
  using assms(3)
proof (induction rs)
  case (Cons r rs)
  then show ?case using verifyRecord_signRecord [OF assms(1,2)] by (auto simp: by_station_def)
qed simp

definition file_pair :: "crypto \<Rightarrow> keypair \<Rightarrow> nat \<Rightarrow> gfile \<Rightarrow> jsval \<times> jsval \<Rightarrow> bool" where
  "file_pair C kp n f mr \<longleftrightarrow> by_station C kp (fst mr) \<and> by_station C kp (snd mr) \<and> is_kind ''manifest/1'' (fst mr) \<and>
     \<not> is_kind ''manifest/1'' (snd mr) \<and> \<not> is_kind ''station.pass/1'' (fst mr) \<and> \<not> is_kind ''station.pass/1'' (snd mr) \<and>
     (\<exists>fp meta. fingerprint C (f_bytes f) n = Some fp \<and> field (fst mr) ''root'' = VStr (fp_root fp) \<and> field (fst mr) ''meta'' = VObj meta \<and>
        field (VObj meta) ''name'' = VStr (f_name f) \<and> field (VObj meta) ''sha256'' = VStr (fp_sha256 fp) \<and> field (VObj meta) ''chunkSize'' = VNum (int n))"

lemma product_records_pair:
  assumes "fingerprint C (f_bytes f) n = Some fp" "product_records C kp station spacecraft f fp pass = Inr (pid, m, r)"
  shows "file_pair C kp n f (m, r)"
proof -
  have m: "signRecord C kp (buildManifest pid (fp_chunkCount fp) (fp_root fp) (product_meta station f fp pass)) = Inr m"
    and r: "\<exists>c. signRecord C kp (custody_content (VStr pid) c (VStr spacecraft) station (VNum (f_receivedAt f)) (VNum (f_receivedAt f))) = Inr r"
    using assms(2) by (auto simp: product_records_def custodyReceipt_def)
  have n: "fp_chunkSize fp = n" using assms(1) by (auto simp: fingerprint_def)
  note fm = signRecord_field(1) [OF m [unfolded buildManifest_def]]
  obtain c where c: "signRecord C kp (custody_content (VStr pid) c (VStr spacecraft) station (VNum (f_receivedAt f)) (VNum (f_receivedAt f))) = Inr r"
    using r by blast
  note fr = signRecord_field(1) [OF c [unfolded custody_content_def]]
  have "by_station C kp m" "by_station C kp r" using m c by (auto simp: by_station_def buildManifest_def custody_content_def)
  then show ?thesis using assms(1) n by (simp add: file_pair_def is_kind_def fm fr credential_fields_def product_meta_def)
qed

section \<open>Which passes get which products\<close>

definition files_in :: "gpass list \<Rightarrow> gfile list \<Rightarrow> jsval \<Rightarrow> gfile list" where
  "files_in passes fs i = filter (\<lambda>f. \<exists>p. passFor passes (f_receivedAt f) = Some p \<and> ps_id p = i) fs"

lemma push_product_of:
  assumes "i \<in> set (map fst (bu_byPass st))"
  shows "products_of (push_product pass x st) i = products_of st i @ (if \<exists>p. pass = Some p \<and> ps_id p = i then [x] else [])"
    and "map fst (bu_byPass (push_product pass x st)) = map fst (bu_byPass st)" "bu_records (push_product pass x st) = bu_records st"
proof -
  have "map_of (map (\<lambda>(k, xs). (k, if k = j then xs @ [x] else xs)) m) i = (case map_of m i of None \<Rightarrow> None | Some xs \<Rightarrow> Some (if i = j then xs @ [x] else xs))"
    for m :: "(jsval \<times> product list) list" and j
    by (induction m) auto
  then show "products_of (push_product pass x st) i = products_of st i @ (if \<exists>p. pass = Some p \<and> ps_id p = i then [x] else [])"
    using assms by (auto simp: products_of_def push_product_def split: option.splits dest: map_of_eq_None_iff [THEN iffD1])
  show "map fst (bu_byPass (push_product pass x st)) = map fst (bu_byPass st)" "bu_records (push_product pass x st) = bu_records st"
    by (auto simp: push_product_def split: option.splits)
qed

lemma add_files_ok:
  assumes "add_files C kp station spacecraft passes n fs st = Some (Inr st')"
  shows "\<exists>mrs. list_all2 (file_pair C kp n) fs mrs \<and> bu_records st' = bu_records st @ concat (map (\<lambda>(m, r). [m, r]) mrs) \<and>
    map fst (bu_byPass st') = map fst (bu_byPass st) \<and>
    (\<forall>i\<in>set (map fst (bu_byPass st)). length (products_of st' i) = length (products_of st i) + length (files_in passes fs i))"
  using assms
proof (induction fs arbitrary: st)
  case Nil
  then show ?case by (simp add: files_in_def)
next
  case (Cons f fs)
  obtain fp where fp: "fingerprint C (f_bytes f) n = Some fp" using Cons.prems by (cases "fingerprint C (f_bytes f) n") auto
  define pass where "pass = passFor passes (f_receivedAt f)"
  obtain pid m r where pmr: "product_records C kp station spacecraft f fp pass = Inr (pid, m, r)"
    using Cons.prems fp by (cases "product_records C kp station spacecraft f fp pass") (auto simp: pass_def)
  define x where "x = \<lparr>pr_name = f_name f, pr_receivedAt = f_receivedAt f, pr_payloadId = pid\<rparr>"
  define st1 where "st1 = push_product pass x (st\<lparr>bu_records := bu_records st @ [m, r]\<rparr>)"
  have "add_files C kp station spacecraft passes n fs st1 = Some (Inr st')" using Cons.prems fp pmr by (simp add: pass_def x_def st1_def)
  from Cons.IH [OF this] obtain mrs where mrs: "list_all2 (file_pair C kp n) fs mrs" "bu_records st' = bu_records st1 @ concat (map (\<lambda>(m, r). [m, r]) mrs)"
    "map fst (bu_byPass st') = map fst (bu_byPass st1)"
    "\<forall>i\<in>set (map fst (bu_byPass st1)). length (products_of st' i) = length (products_of st1 i) + length (files_in passes fs i)" by blast
  have keys: "map fst (bu_byPass st1) = map fst (bu_byPass st)" and recs: "bu_records st1 = bu_records st @ [m, r]"
    by (auto simp: st1_def push_product_def split: option.splits)
  have "length (products_of st1 i) = length (products_of st i) + (if \<exists>p. pass = Some p \<and> ps_id p = i then 1 else 0)" if "i \<in> set (map fst (bu_byPass st))" for i
    using push_product_of(1) [of i "st\<lparr>bu_records := bu_records st @ [m, r]\<rparr>" pass x] that by (simp add: st1_def products_of_def)
  then show ?case
    using mrs keys recs product_records_pair [OF fp pmr] by (intro exI [of _ "(m, r) # mrs"]) (auto simp: files_in_def pass_def)
qed


section \<open>An honest ledger verifies\<close>

lemma signed_report:
  assumes "signRecord C kp (pass_report station spacecraft fs st p) = Inr r"
  shows "by_station C kp r" "\<not> is_kind ''manifest/1'' r" "is_kind ''station.pass/1'' r" "silent r \<longleftrightarrow> products_of st (ps_id p) = []"
proof -
  note f = signRecord_field(1) [OF assms [unfolded pass_report_def Let_def]]
  show "by_station C kp r" using assms by (auto simp: by_station_def pass_report_def Let_def)
  show "\<not> is_kind ''manifest/1'' r" "is_kind ''station.pass/1'' r" "silent r \<longleftrightarrow> products_of st (ps_id p) = []"
    by (simp_all add: is_kind_def silent_def f credential_fields_def)
qed

lemma signed_unscheduled:
  assumes "signRecord C kp (unscheduled_record station spacecraft us) = Inr r"
  shows "by_station C kp r" "\<not> is_kind ''manifest/1'' r" "\<not> is_kind ''station.pass/1'' r"
proof -
  note f = signRecord_field(1) [OF assms [unfolded unscheduled_record_def]]
  show "by_station C kp r" using assms by (auto simp: by_station_def unscheduled_record_def)
  show "\<not> is_kind ''manifest/1'' r" "\<not> is_kind ''station.pass/1'' r" by (simp_all add: is_kind_def f credential_fields_def)
qed

lemma rmapM_list_all2: "rmapM f xs = Inr ys \<Longrightarrow> list_all2 (\<lambda>x y. f x = Inr y) xs ys"
  by (induction xs arbitrary: ys) (auto simp: rbind_eq_Inr)

lemma reports_ok:
  assumes "list_all2 (\<lambda>p r. signRecord C kp (pass_report station spacecraft fs st p) = Inr r) ps rs"
  shows "(\<forall>r\<in>set rs. by_station C kp r) \<and> filter (is_kind ''manifest/1'') rs = [] \<and> filter (is_kind ''station.pass/1'') rs = rs \<and>
    length (filter silent rs) = length (filter (\<lambda>p. products_of st (ps_id p) = []) ps)"
  using assms by (induction ps rs rule: list_all2_induct) (auto simp: signed_report)

lemma pairs_ok:
  assumes "list_all2 (file_pair C kp n) fs mrs"
  shows "(\<forall>r\<in>set (concat (map (\<lambda>(m, r). [m, r]) mrs)). by_station C kp r) \<and>
    filter (is_kind ''manifest/1'') (concat (map (\<lambda>(m, r). [m, r]) mrs)) = map fst mrs \<and>
    filter (is_kind ''station.pass/1'') (concat (map (\<lambda>(m, r). [m, r]) mrs)) = []"
  using assms by (induction fs mrs rule: list_all2_induct) (auto simp: file_pair_def)

lemma rehash_ok:
  assumes "list_all2 (file_pair C kp n) fs mrs" "\<forall>f\<in>set fs. map_of files (f_name f) = Some (f_bytes f)"
  shows "rehash C files (map fst mrs) k = Some (Inr (Inr (k + length fs)))"
  using assms
proof (induction fs mrs arbitrary: k rule: list_all2_induct)
  case (Cons f fs mr mrs)
  obtain fp meta where fp: "fingerprint C (f_bytes f) n = Some fp" "field (fst mr) ''root'' = VStr (fp_root fp)" "field (fst mr) ''meta'' = VObj meta"
     "field (VObj meta) ''name'' = VStr (f_name f)" "field (VObj meta) ''sha256'' = VStr (fp_sha256 fp)" "field (VObj meta) ''chunkSize'' = VNum (int n)"
    using Cons.hyps(1) by (auto simp: file_pair_def)
  have "get_prop (VObj meta) ''name'' = Inr (VStr (f_name f))" using fp(4) by (simp add: get_prop_def)
  then show ?case using Cons.IH Cons.prems fp by (simp add: fingerprint_js_def)
qed simp

lemma records_root_in_seal:
  assumes "seal_ledger C kp station spacecraft rs = Inr l"
  shows "lg_records l = rs" "\<exists>rt. records_root C rs = Inr rt \<and> seal_matches rt l" "by_station C kp (lg_seal l)"
proof -
  obtain rt s where rt: "records_root C rs = Inr rt" and s: "signRecord C kp (VObj [(''kind'', VStr ''station.ledger/1''), (''station'', VStr station), (''spacecraft'', VStr spacecraft),
       (''recordCount'', VNum (int (length rs))), (''root'', VStr rt)]) = Inr s"
    and l: "l = \<lparr>lg_station = VStr station, lg_spacecraft = VStr spacecraft, lg_stationPub = pub kp, lg_records = rs, lg_seal = s\<rparr>"
    using assms by (auto simp: seal_ledger_def)
  note f = signRecord_field(1) [OF s]
  show "lg_records l = rs" by (simp add: l)
  show "\<exists>rt. records_root C rs = Inr rt \<and> seal_matches rt l" using rt by (simp add: seal_matches_def l f credential_fields_def)
  show "by_station C kp (lg_seal l)" using s by (auto simp: by_station_def l)
qed

lemma length_filter_sort: "length (filter P (sort_key f xs)) = length (filter P xs)"
  by (metis mset_filter mset_sort size_mset)

text \<open>Property C31. The ledger an honest station builds (ground/lib.mjs) verifies under the station's pinned key with the files it
  received: every product is re-hashed and none differs, and the summary counts exactly the files, the passes of the schedule,
  and as silent the passes in which no file was received.\<close>

theorem honest_ledger_verifies:
  assumes "sig_correct C" "keypair_ok C kp" "pub kp \<noteq> []" "distinct (map f_name files)" "distinct (map ps_id passes)"
    and "buildLedger C coll kp station spacecraft files passes n = Some (Inr l)"
  shows "verifyLedger C l (pub kp) (Some (map (\<lambda>f. (f_name f, f_bytes f)) files)) =
    Some (Inr (LedgerOk (length (lg_records l)) (length files) (length files) (length passes)
      (length (filter (\<lambda>p. \<forall>f\<in>set files. passFor passes (f_receivedAt f) \<noteq> Some p) passes)) (field (lg_seal l) ''root'')))"
proof -
  define fs where "fs = sorted_files coll files"
  define st0 where "st0 = \<lparr>bu_records = [], bu_byPass = map (\<lambda>i. (i, [])) (remdups (map ps_id passes)), bu_unscheduled = []\<rparr>"
  have fs: "mset fs = mset files" "set fs = set files" "length fs = length files" by (simp_all add: fs_def sorted_files_def)
  obtain st where st: "add_files C kp station spacecraft passes n fs st0 = Some (Inr st)" "close_ledger C kp station spacecraft passes fs st = Inr l"
    using assms(6) by (auto simp: buildLedger_def Let_def fs_def st0_def)
  have st0: "map fst (bu_byPass st0) = map ps_id passes" "bu_records st0 = []" "i \<in> set (map ps_id passes) \<Longrightarrow> products_of st0 i = []" for i
    using assms(5) by (auto simp: st0_def products_of_def distinct_remdups_id map_of_map_restrict o_def split: option.splits dest!: map_of_SomeD)
  obtain mrs where mrs: "list_all2 (file_pair C kp n) fs mrs" "bu_records st = concat (map (\<lambda>(m, r). [m, r]) mrs)"
    "\<forall>i\<in>set (map ps_id passes). length (products_of st i) = length (files_in passes fs i)"
    using add_files_ok [OF st(1)] st0 by auto
  define us where "us = (if bu_unscheduled st = [] then [] else [unscheduled_record station spacecraft (bu_unscheduled st)])"
  obtain rs where rs: "rmapM (signRecord C kp) (map (pass_report station spacecraft fs st) (sort_key ps_start passes) @ us) = Inr rs"
    "seal_ledger C kp station spacecraft (bu_records st @ rs) = Inr l"
    using st(2) by (auto simp: close_ledger_def us_def)
  obtain r1 r2 where r12: "rs = r1 @ r2"
    "list_all2 (\<lambda>p r. signRecord C kp (pass_report station spacecraft fs st p) = Inr r) (sort_key ps_start passes) r1"
    "list_all2 (\<lambda>c r. signRecord C kp c = Inr r) us r2"
    using rmapM_list_all2 [OF rs(1)] by (auto simp: list_all2_append1 list_all2_map1)
  have r2: "(\<forall>r\<in>set r2. by_station C kp r) \<and> filter (is_kind ''manifest/1'') r2 = [] \<and> filter (is_kind ''station.pass/1'') r2 = []"
    using r12(3) by (auto simp: us_def list_all2_Cons1 signed_unscheduled split: if_splits)
  note r1 = reports_ok [OF r12(2)]
  note ps = pairs_ok [OF mrs(1)]
  note root = records_root_in_seal [OF rs(2)]
  have "length r1 = length passes" using list_all2_lengthD [OF r12(2)] by simp
  moreover have "length (filter silent r1) = length (filter (\<lambda>p. \<forall>f\<in>set files. passFor passes (f_receivedAt f) \<noteq> Some p) passes)"
  proof -
    have "products_of st (ps_id p) = [] \<longleftrightarrow> (\<forall>f\<in>set files. passFor passes (f_receivedAt f) \<noteq> Some p)" if "p \<in> set passes" for p
    proof -
      have "products_of st (ps_id p) = [] \<longleftrightarrow> files_in passes fs (ps_id p) = []" using mrs(3) that by (metis image_eqI length_0_conv set_map)
      also have "\<dots> \<longleftrightarrow> (\<forall>f\<in>set files. passFor passes (f_receivedAt f) \<noteq> Some p)"
      proof -
        have "q = p" if "passFor passes t = Some q" "ps_id q = ps_id p" for t q
          using that \<open>p \<in> set passes\<close> assms(5) by (auto simp: passFor_def distinct_map inj_on_def find_Some_iff)
        then show ?thesis using fs(2) by (auto simp: files_in_def filter_empty_conv)
      qed
      finally show ?thesis .
    qed
    then show ?thesis using conjunct2 [OF conjunct2 [OF conjunct2 [OF r1]]] by (simp add: length_filter_sort cong: filter_cong)
  qed
  moreover have "length mrs = length files" using list_all2_lengthD [OF mrs(1)] fs(3) by simp
  moreover have "check_records C (pub kp) (lg_records l @ [lg_seal l]) = Inr None"
    by (rule check_records_honest [OF assms(1,2)]) (use root(1,3) r1 r2 ps mrs(2) r12(1) in auto)
  moreover have "filter (is_kind ''manifest/1'') (lg_records l) = map fst mrs" "filter (is_kind ''station.pass/1'') (lg_records l) = r1"
    using root(1) r1 r2 ps mrs(2) r12(1) by simp_all
  moreover have "rehash C (map (\<lambda>f. (f_name f, f_bytes f)) files) (map fst mrs) 0 = Some (Inr (Inr (length files)))"
  proof -
    have "map_of (map (\<lambda>f. (f_name f, f_bytes f)) files) (f_name f) = Some (f_bytes f)" if "f \<in> set files" for f
      using assms(4) that by (intro map_of_is_SomeI) (auto simp: o_def)
    then show ?thesis using rehash_ok [OF mrs(1), of "map (\<lambda>f. (f_name f, f_bytes f)) files" 0] fs by simp
  qed
  ultimately show ?thesis using root(1,2) assms(3) by (auto simp: verifyLedger_def ledger_summary_def Let_def)
qed


section \<open>A seal pins the records\<close>

lemma hexval_lower: "hexval (lower_char c) = hexval c"
  by (auto simp: hexval_def lower_char_def Let_def)

lemma from_hex_lower: "from_hex (toLowerCase s) = from_hex s"
  by (induction s rule: from_hex.induct) (auto simp: toLowerCase_def hexval_lower split: option.splits)

text \<open>What a Merkle tree over these hex strings hashes.\<close>

definition node_inputs :: "crypto \<Rightarrow> string list \<Rightarrow> bytes set" where
  "node_inputs C xs = (\<Union>l\<in>set (butlast (tree_layers C xs)). layer_inputs l)"

lemma node_inputs_rec: "1 < length xs \<Longrightarrow> node_inputs C xs = layer_inputs xs \<union> node_inputs C (pair_layer C xs)"
  by (simp add: node_inputs_def tree_layers_rec)

definition digests :: "string list \<Rightarrow> bool" where
  "digests xs \<longleftrightarrow> (\<forall>x\<in>set xs. length (from_hex x) = 32)"

lemma digests_pair: "hash32 C \<Longrightarrow> digests (pair_layer C xs)"
  by (induction C xs rule: pair_layer.induct) (auto simp: digests_def nodeHash_def hash32_def)

lemma pair_layer_inj:
  assumes "length xs = length ys" "digests xs" "digests ys" "map from_hex (pair_layer C xs) = map from_hex (pair_layer C ys)"
    "\<not> collision C (layer_inputs xs) (layer_inputs ys)"
  shows "map from_hex xs = map from_hex ys"
proof (rule nth_equalityI)
  show "length (map from_hex xs) = length (map from_hex ys)" using assms(1) by simp
  fix k assume k: "k < length (map from_hex xs)"
  define j where "j = k div 2"
  have j: "j < (length xs + 1) div 2" "2 * j < length xs" using k by (simp_all add: j_def)
  let ?r = "\<lambda>zs. if 2 * j + 1 < length zs then zs ! (2 * j + 1) else zs ! (2 * j)"
  have "from_hex (pair_layer C xs ! j) = from_hex (pair_layer C ys ! j)"
    using assms(1,4) j by (metis length_map length_pair_layer nth_map)
  then have "sha256 C (node_input (xs ! (2 * j)) (?r xs)) = sha256 C (node_input (ys ! (2 * j)) (?r ys))"
    using j assms(1) by (simp add: pair_layer_nth nodeHash_def node_input_def)
  moreover have "node_input (xs ! (2 * j)) (?r xs) \<in> layer_inputs xs" "node_input (ys ! (2 * j)) (?r ys) \<in> layer_inputs ys"
    using j assms(1) by (auto simp: layer_inputs_def)
  ultimately have n: "node_input (xs ! (2 * j)) (?r xs) = node_input (ys ! (2 * j)) (?r ys)" using no_collisionD [OF assms(5)] by blast
  have "length (from_hex (xs ! (2 * j))) = length (from_hex (ys ! (2 * j)))" using assms(1-3) j(2) by (simp add: digests_def)
  then have "from_hex (xs ! (2 * j)) = from_hex (ys ! (2 * j))" "from_hex (?r xs) = from_hex (?r ys)" using n by (auto simp: node_input_def)
  then show "map from_hex xs ! k = map from_hex ys ! k" using k assms(1) by (cases "even k") (auto simp: j_def elim!: evenE oddE)
qed

lemma tree_root_inj:
  assumes "hash32 C" "xs \<noteq> []" "length xs = length ys" "digests xs" "digests ys" "hd (last (tree_layers C xs)) = hd (last (tree_layers C ys))"
  shows "map from_hex xs = map from_hex ys \<or> collision C (node_inputs C xs) (node_inputs C ys)"
  using assms
proof (induction C xs arbitrary: ys rule: tree_layers.induct)
  case (1 C xs)
  show ?case
  proof (cases "1 < length xs")
    case False
    then obtain x y where "xs = [x]" "ys = [y]" using "1.prems" by (cases xs; cases ys) auto
    then show ?thesis using "1.prems"(6) by (simp add: tree_layers_stop)
  next
    case True
    have "map from_hex (pair_layer C xs) = map from_hex (pair_layer C ys) \<or> collision C (node_inputs C (pair_layer C xs)) (node_inputs C (pair_layer C ys))"
      using "1.IH" [OF True, of "pair_layer C ys"] "1.prems" True digests_pair by (simp add: tree_layers_rec)
    then show ?thesis
      using pair_layer_inj [OF "1.prems"(3-5)] True "1.prems"(3) node_inputs_rec [of xs C] node_inputs_rec [of ys C] by (auto simp: collision_def)
  qed
qed

text \<open>A record of an accepted ledger.\<close>

lemma check_records_None: "check_records C p rs = Inr None \<Longrightarrow> r \<in> set rs \<Longrightarrow> \<exists>signer. verifyRecord C r = Inr (Accept signer)"
proof (induction rs)
  case (Cons a rs)
  then obtain v where v: "verifyRecord C a = Inr v" by (auto simp: rbind_eq_Inr)
  then show ?case using Cons by (cases v) (auto split: if_splits)
qed simp

lemma accepted_ledger:
  assumes "verifyLedger C l p fs = Some (Inr (LedgerOk a b c d e rt))"
  shows "(\<forall>r\<in>set (lg_records l). \<exists>signer. verifyRecord C r = Inr (Accept signer)) \<and> (\<exists>h. records_root C (lg_records l) = Inr h \<and> rt = VStr h) \<and>
    a = length (lg_records l)"
proof -
  obtain h where h: "check_records C p (lg_records l @ [lg_seal l]) = Inr None" "records_root C (lg_records l) = Inr h" "seal_matches h l"
    using assms by (auto simp: verifyLedger_def split: if_splits sum.splits option.splits)
  have "\<exists>k. ledger_summary l k = LedgerOk a b c d e rt"
  proof (cases fs)
    case None
    then show ?thesis using assms h by (auto simp: verifyLedger_def split: if_splits)
  next
    case (Some files)
    then obtain v where v: "rehash C files (filter (is_kind ''manifest/1'') (lg_records l)) 0 = Some (Inr v)"
      "(case v of Inl (reason, name) \<Rightarrow> LedgerBad reason name | Inr n \<Rightarrow> ledger_summary l n) = LedgerOk a b c d e rt"
      using assms h by (auto simp: verifyLedger_def rbind_eq_Inr split: if_splits)
    then show ?thesis by (cases v) auto
  qed
  then have "rt = field (lg_seal l) ''root''" "a = length (lg_records l)" by (auto simp: ledger_summary_def Let_def)
  then show ?thesis using check_records_None [OF h(1)] h(2,3) by (auto simp: seal_matches_def)
qed

lemma record_claim:
  assumes "verifyRecord C r = Inr (Accept signer)" "claim_hex r = Inr x" "hash32 C"
  shows "\<exists>i. contentId C r = Inr i \<and> from_hex x = from_hex (drop 2 i) \<and> length (from_hex x) = 32 \<and> toLowerCase x = drop 2 i"
proof -
  obtain s where s: "field r ''claimId'' = VStr s" "x = drop 2 s" using assms(2) by (auto simp: claim_hex_def split: jsval.splits)
  obtain i where i: "contentId C r = Inr i" "toLowerCase i = toLowerCase s" using assms(1) s(1) by (auto simp: verifyRecord_Accept)
  obtain m where m: "i = ''0x'' @ to_hex (sha256 C m)" using i(1) by (auto simp: contentId_Inr sha256hex_def)
  have "toLowerCase s = i" using i contentId_0x [OF i(1)] by simp
  then have "toLowerCase x = drop 2 i" using s(2) by (auto simp: toLowerCase_def drop_map)
  then show ?thesis using i(1) assms(3) from_hex_lower [of x] by (simp add: m hash32_def) (metis from_hex_to_hex)
qed

lemma claims_of:
  assumes "rmapM claim_hex rs = Inr xs" "\<forall>r\<in>set rs. \<exists>signer. verifyRecord C r = Inr (Accept signer)" "hash32 C"
  shows "length xs = length rs \<and> digests xs \<and>
    (\<forall>k<length rs. \<exists>i. contentId C (rs ! k) = Inr i \<and> toLowerCase (xs ! k) = drop 2 i \<and> from_hex (xs ! k) = from_hex (drop 2 i))"
proof -
  have l: "length xs = length rs" by (rule rmapM_length [OF assms(1)])
  have "\<exists>i. contentId C (rs ! k) = Inr i \<and> from_hex (xs ! k) = from_hex (drop 2 i) \<and> length (from_hex (xs ! k)) = 32 \<and> toLowerCase (xs ! k) = drop 2 i"
    if "k < length rs" for k
    using record_claim [OF _ rmapM_nth [OF assms(1) that] assms(3)] assms(2) nth_mem [OF that] by blast
  then show ?thesis using l by (fastforce simp: digests_def in_set_conv_nth)
qed

lemma same_content_id:
  assumes "contentId C r = Inr i" "contentId C r' = Inr i'" "from_hex (drop 2 i) = from_hex (drop 2 i')"
  shows "i = i'"
  using assms by (auto simp: contentId_Inr sha256hex_def)

definition ledger_inputs :: "crypto \<Rightarrow> ledger \<Rightarrow> bytes set" where
  "ledger_inputs C l = (\<Union>r\<in>set (lg_records l). content_input r) \<union>
     (case rmapM claim_hex (lg_records l) of Inr xs \<Rightarrow> node_inputs C xs | Inl e \<Rightarrow> {})"



section \<open>Witnesses\<close>

definition sample_files :: "gfile list" where
  "sample_files = [\<lparr>f_name = ''a'', f_bytes = [1, 2, 3], f_receivedAt = 5\<rparr>]"

definition sample_passes :: "gpass list" where
  "sample_passes = [\<lparr>ps_id = VStr ''p2'', ps_start = 20, ps_end = 30\<rparr>, \<lparr>ps_id = VStr ''p1'', ps_start = 0, ps_end = 10\<rparr>]"

lemma signed_claim:
  assumes "json_ok (VObj kvs)" "depth_le MAX_DEPTH (VObj kvs)"
  shows "\<exists>r x. signRecord C kp (VObj kvs) = Inr r \<and> claim_hex r = Inr x \<and> json_ok r"
proof -
  obtain r where r: "signRecord C kp (VObj kvs) = Inr r" using signRecord_total [OF assms] by blast
  then obtain i where i: "contentId C (VObj kvs) = Inr i" "r = VObj (set_field ''signerPub'' (VStr (pub kp))
           (set_field ''sig'' (VStr (signClaim C (priv kp) (VStr i))) (set_field ''claimId'' (VStr i) kvs)))"
    by (auto simp: signRecord_Inr)
  have "claim_hex r = Inr (drop 2 i)" using signRecord_field(4) [OF r i(1)] by (simp add: claim_hex_def)
  moreover have "json_ok r" using assms(1) by (simp add: i(2) list_all_set_field distinct_set_field)
  ultimately show ?thesis using r by blast
qed

lemma sample_ledger:
  "\<exists>l. buildLedger toy id (toy_key ''k'') ''s'' ''c'' sample_files sample_passes 2 = Some (Inr l) \<and> (\<forall>r\<in>set (lg_records l). json_ok r) \<and> 3 < length (lg_records l) \<and> is_prim (field (lg_records l ! 3) ''status'')"
proof -
  let ?kp = "toy_key ''k''" and ?f = "\<lparr>f_name = ''a'', f_bytes = [1, 2, 3], f_receivedAt = 5\<rparr>"
  let ?p1 = "\<lparr>ps_id = VStr ''p1'', ps_start = 0, ps_end = 10\<rparr>" and ?p2 = "\<lparr>ps_id = VStr ''p2'', ps_start = 20, ps_end = 30\<rparr>"
  obtain fp where fp: "fingerprint toy [1, 2, 3] 2 = Some fp" "fp_chunkCount fp = 2" "fp_bytes fp = 3" "fp_chunkSize fp = 2"
    by (simp add: fingerprint_def example_chunks)
  have pass: "passFor sample_passes 5 = Some ?p1" by (simp add: passFor_def sample_passes_def)
  obtain pid where pid: "contentId toy (VObj [(''station'', VStr ''s''), (''sha256'', VStr (fp_sha256 fp)), (''name'', VStr ''a'')]) = Inr pid"
    using contentId_total [of "[(''station'', VStr ''s''), (''sha256'', VStr (fp_sha256 fp)), (''name'', VStr ''a'')]" toy] by (auto simp: MAX_DEPTH_def)
  obtain m xm where m: "signRecord toy ?kp (buildManifest pid 2 (fp_root fp) (product_meta ''s'' ?f fp (Some ?p1))) = Inr m" "claim_hex m = Inr xm" "json_ok m"
    using signed_claim [of "[(''kind'', VStr ''manifest/1''), (''payloadId'', VStr pid), (''chunkCount'', VNum (int 2)), (''root'', VStr (fp_root fp)),
           (''meta'', product_meta ''s'' ?f fp (Some ?p1))]" toy ?kp] fp
    by (auto simp: buildManifest_def product_meta_def MAX_DEPTH_def)
  obtain r xr where r: "custodyReceipt toy ?kp (VStr pid) (field m ''claimId'') (VStr ''c'') ''s'' (VNum 5) (VNum 5) = Inr r" "claim_hex r = Inr xr" "json_ok r"
  proof -
    obtain i where "field m ''claimId'' = VStr i" using m(2) by (auto simp: claim_hex_def split: jsval.splits)
    then show thesis
      using signed_claim [of "[(''kind'', VStr ''custody/1''), (''payloadId'', VStr pid), (''bundleId'', VStr i),
           (''prevHop'', VStr ''c''), (''thisHop'', VStr ''s''), (''receivedAt'', VNum 5), (''forwardedAt'', VNum 5)]" toy ?kp] that
      by (auto simp: custodyReceipt_def custody_content_def MAX_DEPTH_def)
  qed
  define st0 where "st0 = \<lparr>bu_records = [], bu_byPass = [(VStr ''p2'', []), (VStr ''p1'', [])], bu_unscheduled = []\<rparr>"
  define st where "st = \<lparr>bu_records = [m, r], bu_byPass = [(VStr ''p2'', []), (VStr ''p1'', [\<lparr>pr_name = ''a'', pr_receivedAt = 5, pr_payloadId = pid\<rparr>])],
    bu_unscheduled = []\<rparr>"
  have "product_records toy ?kp ''s'' ''c'' ?f fp (Some ?p1) = Inr (pid, m, r)" using pid m(1) r(1) fp(2) by (simp add: product_records_def)
  then have st: "add_files toy ?kp ''s'' ''c'' sample_passes 2 [?f] st0 = Some (Inr st)"
    using fp(1) pass by (simp add: st0_def st_def push_product_def)
  obtain r1 x1 where r1: "signRecord toy ?kp (pass_report ''s'' ''c'' [?f] st ?p1) = Inr r1" "claim_hex r1 = Inr x1" "json_ok r1"
  proof -
    obtain kvs where "pass_report ''s'' ''c'' [?f] st ?p1 = VObj kvs" "json_ok (VObj kvs)" "depth_le MAX_DEPTH (VObj kvs)"
      by (simp add: pass_report_def st_def products_of_def MAX_DEPTH_def)
    then show thesis using signed_claim [of kvs toy ?kp] that by auto
  qed
  obtain r2 x2 where r2: "signRecord toy ?kp (pass_report ''s'' ''c'' [?f] st ?p2) = Inr r2" "claim_hex r2 = Inr x2" "json_ok r2"
  proof -
    obtain kvs where "pass_report ''s'' ''c'' [?f] st ?p2 = VObj kvs" "json_ok (VObj kvs)" "depth_le MAX_DEPTH (VObj kvs)"
      by (simp add: pass_report_def st_def products_of_def MAX_DEPTH_def silent_gap_def gapObject_def opt_num_def)
    then show thesis using signed_claim [of kvs toy ?kp] that by auto
  qed
  have status: "is_prim (field r2 ''status'')"
    using signRecord_field(1) [OF r2(1) [unfolded pass_report_def Let_def]] by (simp add: credential_fields_def)
  have root: "\<exists>rt. records_root toy [m, r, r1, r2] = Inr rt" by (simp add: records_root_def m r r1 r2 buildTree_def Let_def)
  then obtain rt where rt: "records_root toy [m, r, r1, r2] = Inr rt" by blast
  obtain s where "signRecord toy ?kp (VObj [(''kind'', VStr ''station.ledger/1''), (''station'', VStr ''s''), (''spacecraft'', VStr ''c''), (''recordCount'', VNum 4),
      (''root'', VStr rt)]) = Inr s"
    using signed_claim [of "[(''kind'', VStr ''station.ledger/1''), (''station'', VStr ''s''), (''spacecraft'', VStr ''c''), (''recordCount'', VNum 4), (''root'', VStr rt)]" toy ?kp]
    by (auto simp: MAX_DEPTH_def)
  then have "\<exists>l. seal_ledger toy ?kp ''s'' ''c'' [m, r, r1, r2] = Inr l \<and> lg_records l = [m, r, r1, r2]" by (simp add: seal_ledger_def rt)
  then obtain l where l: "seal_ledger toy ?kp ''s'' ''c'' [m, r, r1, r2] = Inr l" "lg_records l = [m, r, r1, r2]" by blast
  have "sort_key ps_start sample_passes = [?p1, ?p2]" by (simp add: sample_passes_def)
  then have "close_ledger toy ?kp ''s'' ''c'' sample_passes [?f] st = Inr l" using r1 r2 l by (simp add: close_ledger_def st_def [symmetric]) (simp add: st_def)
  moreover have "sorted_files id sample_files = [?f]" by (simp add: sorted_files_def sample_files_def)
  moreover have "\<lparr>bu_records = [], bu_byPass = map (\<lambda>i. (i, [])) (remdups (map ps_id sample_passes)), bu_unscheduled = []\<rparr> = st0"
    by (simp add: sample_passes_def st0_def)
  ultimately have "buildLedger toy id ?kp ''s'' ''c'' sample_files sample_passes 2 = Some (Inr l)" using st by (simp add: buildLedger_def)
  then show ?thesis using l(2) m r r1 r2 status by (auto simp: numeral_3_eq_3)
qed

lemma honest_ledger_verifies_witness:
  "\<exists>l. buildLedger toy id (toy_key ''k'') ''s'' ''c'' sample_files sample_passes 2 = Some (Inr l) \<and>
    verifyLedger toy l (pub (toy_key ''k'')) (Some [(''a'', [1, 2, 3])]) =
      Some (Inr (LedgerOk (length (lg_records l)) 1 1 2 1 (field (lg_seal l) ''root'')))"
proof -
  obtain l where l: "buildLedger toy id (toy_key ''k'') ''s'' ''c'' sample_files sample_passes 2 = Some (Inr l)" using sample_ledger by blast
  have p: "pub (toy_key ''k'') \<noteq> []" by (simp add: toy_key_def to_base64_eq_Nil)
  have d: "distinct (map f_name sample_files)" "distinct (map ps_id sample_passes)" by (simp_all add: sample_files_def sample_passes_def)
  from honest_ledger_verifies [OF toy_sig_correct toy_key_ok p d l] show ?thesis using l by (simp add: sample_files_def sample_passes_def passFor_def)
qed

text \<open>The header fields of a ledger are outside the seal.\<close>

lemma verifyLedger_station: "verifyLedger C (l\<lparr>lg_station := v\<rparr>) p fs = verifyLedger C l p fs"
proof -
  have h: "ledger_summary (l\<lparr>lg_station := v\<rparr>) = ledger_summary l" "\<And>rt. seal_matches rt (l\<lparr>lg_station := v\<rparr>) = seal_matches rt l"
    "lg_records (l\<lparr>lg_station := v\<rparr>) = lg_records l" "lg_seal (l\<lparr>lg_station := v\<rparr>) = lg_seal l"
    by (simp_all add: ledger_summary_def seal_matches_def fun_eq_iff)
  show ?thesis unfolding verifyLedger_def h ..
qed


end
