(* ===== verification/Radio.thy ===== *)
theory Radio
  imports JsonParse Crypto "HOL-Library.AList"
begin

text \<open>
  Payments over low-rate radio: the frames of radio/lib/frame.mjs (split, parse, reassembler), the receipts and
  the offline check of radio/lib/payment.mjs, and agent/lib/arc.mjs. A JavaScript Map is an association list
  in insertion order. Transactions, scripts and secp256k1 keys are those of \<open>@bsv/sdk\<close>, a parameter \<open>sdk\<close>.
\<close>

section \<open>Frames\<close>

definition MAGIC :: byte where "MAGIC = 0x52"
definition VERSION :: byte where "VERSION = 1"
definition HEADER :: nat where "HEADER = 13"
definition PAY_EF :: nat where "PAY_EF = 1"
definition PAY_BEEF :: nat where "PAY_BEEF = 2"
definition NACK :: nat where "NACK = 3"
definition RECEIPT :: nat where "RECEIPT = 4"

definition frame_types :: "nat list" where
  "frame_types = [PAY_EF, PAY_BEEF, NACK, RECEIPT]"

definition messageId :: "crypto \<Rightarrow> bytes \<Rightarrow> bytes" where
  "messageId C msg = take 8 (sha256 C msg)"

text \<open>\<open>source.copy(target, at)\<close>.\<close>

definition copy_at :: "bytes \<Rightarrow> nat \<Rightarrow> bytes \<Rightarrow> bytes" where
  "copy_at source at target = take at target @ take (length target - at) source @ drop (at + length source) target"

definition frame_head :: "nat \<Rightarrow> bytes \<Rightarrow> nat \<Rightarrow> nat \<Rightarrow> bytes" where
  "frame_head t ident i frames = [MAGIC, VERSION, byte_of t] @ take 8 (ident @ replicate 8 0) @ [byte_of i, byte_of frames]"

definition frame_count :: "nat \<Rightarrow> nat \<Rightarrow> nat" where
  "frame_count len room = max 1 ((len + room - 1) div room)"

definition split_frames :: "nat \<Rightarrow> bytes \<Rightarrow> int \<Rightarrow> bytes \<Rightarrow> bytes list res" where
  "split_frames t msg mtu ident =
     (if mtu - int HEADER < 1 then Inl ''mtu leaves no room for data''
      else let room = nat (mtu - int HEADER); frames = frame_count (length msg) room in
        if frames > 255 then Inl ''message needs too many frames; the limit is 255''
        else Inr (map (\<lambda>i. frame_head t ident i frames @ take room (drop (i * room) msg)) [0..<frames]))"

record pframe =
  fr_type :: nat
  fr_id :: string
  fr_index :: nat
  fr_total :: nat
  fr_data :: bytes

definition parse_frame :: "bytes \<Rightarrow> pframe option" where
  "parse_frame f =
     (if length f < HEADER \<or> f ! 0 \<noteq> MAGIC \<or> f ! 1 \<noteq> VERSION then None
      else let frames = unat (f ! 12); index = unat (f ! 11) in
        if frames = 0 \<or> index \<ge> frames \<or> unat (f ! 2) \<notin> set frame_types then None
        else Some \<lparr>fr_type = unat (f ! 2), fr_id = to_hex (take 8 (drop 3 f)), fr_index = index, fr_total = frames, fr_data = drop HEADER f\<rparr>)"

record part =
  pt_type :: nat
  pt_total :: nat
  pt_got :: "(nat \<times> bytes) list"
  pt_last :: int

type_synonym parts = "(string \<times> part) list"

datatype added = Partial | Corrupt nat string | Whole nat string bytes

definition part_of :: "int \<Rightarrow> parts \<Rightarrow> pframe \<Rightarrow> part" where
  "part_of now ps p = (case map_of ps (fr_id p) of Some m \<Rightarrow> m
     | None \<Rightarrow> \<lparr>pt_type = fr_type p, pt_total = fr_total p, pt_got = [], pt_last = now\<rparr>)"

definition joined :: "part \<Rightarrow> bytes" where
  "joined m = concat (map (\<lambda>i. case map_of (pt_got m) i of Some d \<Rightarrow> d | None \<Rightarrow> []) [0..<pt_total m])"

definition whole_message :: "crypto \<Rightarrow> bool \<Rightarrow> string \<Rightarrow> part \<Rightarrow> added" where
  "whole_message C verifyHash ident m =
     (if verifyHash \<and> to_hex (messageId C (joined m)) \<noteq> ident then Corrupt (pt_type m) ident else Whole (pt_type m) ident (joined m))"

definition add_frame :: "crypto \<Rightarrow> bool \<Rightarrow> int \<Rightarrow> pframe \<Rightarrow> parts \<Rightarrow> parts \<times> added" where
  "add_frame C verifyHash now p ps =
     (let m = part_of now ps p; ps1 = (if map_of ps (fr_id p) = None then ps @ [(fr_id p, m)] else ps) in
      if pt_total m \<noteq> fr_total p \<or> pt_type m \<noteq> fr_type p then (ps1, Partial)
      else let m1 = m\<lparr>pt_got := AList.update (fr_index p) (fr_data p) (pt_got m), pt_last := now\<rparr> in
        if length (pt_got m1) < pt_total m1 then (AList.update (fr_id p) m1 ps1, Partial)
        else (AList.delete (fr_id p) ps1, whole_message C verifyHash (fr_id p) m1))"

definition missing_frames :: "parts \<Rightarrow> string \<Rightarrow> nat list" where
  "missing_frames ps ident =
     (case map_of ps ident of None \<Rightarrow> [] | Some m \<Rightarrow> filter (\<lambda>i. i \<notin> set (map fst (pt_got m))) [0..<pt_total m])"

definition pending_parts :: "parts \<Rightarrow> (string \<times> nat \<times> nat \<times> nat \<times> int) list" where
  "pending_parts ps = map (\<lambda>(i, m). (i, pt_type m, pt_total m, length (pt_got m), pt_last m)) ps"

definition drop_part :: "string \<Rightarrow> parts \<Rightarrow> parts" where
  "drop_part ident ps = AList.delete ident ps"

section \<open>Receipts\<close>

record rinput =
  ri_source :: "(int \<times> string) option"

record routput =
  ro_sats :: int
  ro_script :: string

record rtx =
  rt_id :: string
  rt_inputs :: "rinput list"
  rt_outputs :: "routput list"

text \<open>
  Decoding of a payment, validation of the script of one input, and ECDSA over a digest; a key that does not
  import or a signature that does not parse verifies nothing, because the only caller catches.
\<close>

record sdk =
  s_ef :: "bytes \<Rightarrow> rtx res"
  s_beef :: "bytes \<Rightarrow> rtx res"
  s_validate :: "rtx \<Rightarrow> nat \<Rightarrow> bool res"
  s_pub :: "string \<Rightarrow> bytes"
  s_sign :: "string \<Rightarrow> bytes \<Rightarrow> bytes"
  s_verify :: "bytes \<Rightarrow> bytes \<Rightarrow> bytes \<Rightarrow> bool"

definition decodePayment :: "sdk \<Rightarrow> nat \<Rightarrow> bytes \<Rightarrow> rtx res" where
  "decodePayment S t msg =
     (if t = PAY_EF then s_ef S msg else if t = PAY_BEEF then s_beef S msg else Inl (''not a payment frame type: '' @ show_nat t))"

record offline_check =
  oc_ok :: bool
  oc_txid :: string
  oc_reason :: string
  oc_fee :: int
  oc_outputs :: "routput list"

definition check_failed :: "string \<Rightarrow> string \<Rightarrow> offline_check" where
  "check_failed txid reason = \<lparr>oc_ok = False, oc_txid = txid, oc_reason = reason, oc_fee = 0, oc_outputs = []\<rparr>"

text \<open>The loop over the inputs: the sum of what they spend, or the reason the payment is refused for.\<close>

fun check_spends :: "sdk \<Rightarrow> rtx \<Rightarrow> nat \<Rightarrow> rinput list \<Rightarrow> int \<Rightarrow> string + int" where
  "check_spends S tx i [] sats = Inr sats"
| "check_spends S tx i (x # xs) sats =
     (case ri_source x of
        None \<Rightarrow> Inl (''input '' @ show_nat i @ '': amount and locking script are missing'')
      | Some (n, script) \<Rightarrow> (case s_validate S tx i of
          Inl e \<Rightarrow> Inl (takeWhile (\<lambda>c. c \<noteq> CHR 10) e)
        | Inr ok \<Rightarrow> if ok then check_spends S tx (Suc i) xs (sats + n)
            else Inl (''input '' @ show_nat i @ '': script did not validate'')))"

definition checkOffline :: "sdk \<Rightarrow> rtx \<Rightarrow> offline_check" where
  "checkOffline S tx =
     (if rt_inputs tx = [] \<or> rt_outputs tx = [] then check_failed (rt_id tx) ''no inputs or no outputs''
      else (case check_spends S tx 0 (rt_inputs tx) 0 of
          Inl reason \<Rightarrow> check_failed (rt_id tx) reason
        | Inr inSats \<Rightarrow>
            let outSats = sum_list (map ro_sats (rt_outputs tx)) in
            if inSats < outSats then check_failed (rt_id tx)
              (''outputs '' @ show_int outSats @ '' sat exceed inputs '' @ show_int inSats @ '' sat'')
            else \<lparr>oc_ok = True, oc_txid = rt_id tx, oc_reason = [], oc_fee = inSats - outSats, oc_outputs = rt_outputs tx\<rparr>))"

text \<open>\<open>paysAddress\<close>, with the locking script of the address in hex.\<close>

definition paysAddress :: "rtx \<Rightarrow> string \<Rightarrow> int \<Rightarrow> bool \<times> int" where
  "paysAddress tx want minSats =
     (let got = sum_list (map ro_sats (filter (\<lambda>x. ro_script x = want) (rt_outputs tx))) in (got \<ge> minSats, got))"

definition ACCEPTED :: nat where "ACCEPTED = 1"
definition VALID_NOT_SENT :: nat where "VALID_NOT_SENT = 2"
definition REJECTED :: nat where "REJECTED = 3"
definition BROADCAST_FAILED :: nat where "BROADCAST_FAILED = 4"

definition STATUS_NAME :: "nat \<Rightarrow> string" where
  "STATUS_NAME n = (if n = ACCEPTED then ''ACCEPTED'' else if n = VALID_NOT_SENT then ''VALID_NOT_SENT'' else if n = REJECTED then ''REJECTED''
     else if n = BROADCAST_FAILED then ''BROADCAST_FAILED'' else ''UNKNOWN('' @ show_nat n @ '')'')"

definition receipt_digest :: "crypto \<Rightarrow> bytes \<Rightarrow> bytes" where
  "receipt_digest C body = sha256 C (utf8 ''bsvkey-radio-receipt/1'' @ body)"

definition receipt_body :: "string \<Rightarrow> nat \<Rightarrow> nat \<Rightarrow> string \<Rightarrow> bytes" where
  "receipt_body txid status time ident =
     copy_at (from_hex ident) 37 (copy_at (be 4 time) 33 (copy_at [byte_of status] 32 (copy_at (from_hex txid) 0 (replicate 45 0))))"

definition signReceipt :: "crypto \<Rightarrow> sdk \<Rightarrow> string \<Rightarrow> nat \<Rightarrow> nat \<Rightarrow> string \<Rightarrow> string \<Rightarrow> bytes res" where
  "signReceipt C S txid status time ident key =
     (if time \<ge> 2 ^ 32 then Inl ''The value of time is out of range''
      else let body = receipt_body txid status time ident; p = s_pub S key in
        Inr (body @ p @ s_sign S key (receipt_digest C (body @ p))))"

record receipt =
  rc_txid :: string
  rc_status :: string
  rc_time :: nat
  rc_id :: string
  rc_gateway :: string

text \<open>\<open>pinnedPub\<close>, or an empty string for none.\<close>

definition readReceipt :: "crypto \<Rightarrow> sdk \<Rightarrow> bytes \<Rightarrow> string \<Rightarrow> receipt option" where
  "readReceipt C S b pinnedPub =
     (if length b < 45 + 33 + 8 then None
      else let body = take 45 b; p = take 33 (drop 45 b); sig = drop 78 b in
        if pinnedPub \<noteq> [] \<and> to_hex p \<noteq> toLowerCase pinnedPub then None
        else if \<not> s_verify S p (receipt_digest C (body @ p)) sig then None
        else Some \<lparr>rc_txid = to_hex (take 32 body), rc_status = STATUS_NAME (unat (body ! 32)), rc_time = unbe (take 4 (drop 33 body)),
          rc_id = to_hex (drop 37 body), rc_gateway = to_hex p\<rparr>)"

section \<open>The answer of a broadcaster\<close>

record arc_verdict =
  av_ok :: bool
  av_txStatus :: jsval
  av_why :: string

definition arc_good :: "string list" where
  "arc_good = [''STORED'', ''ANNOUNCED_TO_NETWORK'', ''REQUESTED_BY_NETWORK'', ''SENT_TO_NETWORK'', ''ACCEPTED_BY_NETWORK'', ''SEEN_ON_NETWORK'', ''MINED'']"

definition arc_why :: "jsval \<Rightarrow> string" where
  "arc_why v =
     (case map_of [(''SEEN_IN_ORPHAN_MEMPOOL'', ''the network has never seen the coins it spends, so it cannot be mined (a demo payment, or its funding was never broadcast)''),
         (''DOUBLE_SPEND_ATTEMPTED'', ''the coins it spends were already spent by another payment''), (''REJECTED'', ''the network refused it'')] (js_String v) of
        Some w \<Rightarrow> w | None \<Rightarrow> ''status '' @ js_String v)"

fun contains :: "string \<Rightarrow> string \<Rightarrow> bool" where
  "contains pat [] = (pat = [])"
| "contains pat (c # cs) = (take (length pat) (c # cs) = pat \<or> contains pat cs)"

text \<open>\<open>/already (known|in the mempool|mined)|txn-already-known/i\<close>.\<close>

definition already_known :: "string \<Rightarrow> bool" where
  "already_known body = (\<exists>p \<in> set [''already known'', ''already in the mempool'', ''already mined'', ''txn-already-known'']. contains p (toLowerCase body))"

definition arcVerdict :: "nat \<Rightarrow> string \<Rightarrow> arc_verdict" where
  "arcVerdict httpStatus bodyText =
     (let j = (case json_parse bodyText of Inr v \<Rightarrow> v | Inl e \<Rightarrow> VNull); txStatus = nullish (field j ''txStatus'') VNull in
      if truthy txStatus then
        if \<exists>s \<in> set arc_good. strict_eq txStatus (VStr s) then \<lparr>av_ok = True, av_txStatus = txStatus, av_why = []\<rparr>
        else \<lparr>av_ok = False, av_txStatus = txStatus, av_why = arc_why txStatus @
          (if truthy (field j ''extraInfo'') then '' ('' @ take 120 (js_String (field j ''extraInfo'')) @ '')'' else [])\<rparr>
      else if already_known bodyText then \<lparr>av_ok = True, av_txStatus = VStr ''ALREADY_KNOWN'', av_why = []\<rparr>
      else let detail = (if truthy (field j ''detail'') then js_String (field j ''detail'')
          else if truthy (field j ''title'') then js_String (field j ''title'') else take 160 bodyText) in
        \<lparr>av_ok = False, av_txStatus = VNull, av_why = ''refused ('' @ show_nat httpStatus @ ''): '' @ detail\<rparr>)"

end
