(* ===== verification/RadioText.thy ===== *)
theory RadioText
  imports Radio
begin

text \<open>
  Payments as text and as sound: radio/sms/text.mjs (texts, their parser and the assembler of parts, receipts in
  a reply) and the chunks of radio/lib/sound.mjs. A text is matched by walking over it the way the regular
  expression does; white space is that of ASCII.
\<close>

section \<open>Texts\<close>

definition SINGLE_MAX :: nat where "SINGLE_MAX = 1530"

definition letter_of :: "nat \<Rightarrow> string option" where
  "letter_of t = (if t = PAY_EF then Some ''E'' else if t = PAY_BEEF then Some ''B'' else None)"

definition from_letter :: "string \<Rightarrow> nat option" where
  "from_letter s = (if toLowerCase s = ''e'' then Some PAY_EF else if toLowerCase s = ''b'' then Some PAY_BEEF else None)"

definition message_hex :: "crypto \<Rightarrow> bytes \<Rightarrow> string" where
  "message_hex C msg = to_hex (messageId C msg)"

definition part_text :: "string \<Rightarrow> string \<Rightarrow> string \<Rightarrow> nat \<Rightarrow> nat \<Rightarrow> nat \<Rightarrow> string" where
  "part_text L ident b64 room n i = ''BSV1 '' @ L @ '' '' @ show_nat (i + 1) @ ''/'' @ show_nat n @ '' '' @ ident @ '' '' @ take room (drop (i * room) b64)"

definition part_room :: "int \<Rightarrow> int" where
  "part_room maxChars = (maxChars - 29) div 4 * 4"

definition paymentTexts :: "crypto \<Rightarrow> nat \<Rightarrow> bytes \<Rightarrow> int \<Rightarrow> string list res" where
  "paymentTexts C t msg maxChars =
     (let b64 = to_base64 msg in
      case letter_of t of
        None \<Rightarrow> Inl (''not a payment type: '' @ show_nat t)
      | Some L \<Rightarrow>
          let one = ''BSV1 '' @ L @ '' '' @ b64 in
          if int (length one) \<le> maxChars then Inr [one]
          else if part_room maxChars < 4 then Inl ''maxChars is too short''
          else let room = nat (part_room maxChars); n = (length b64 + room - 1) div room in
            if n > 99 then Inl ''payment needs too many texts; the limit is 99''
            else Inr (map (part_text L (message_hex C msg) b64 room n) [0..<n]))"

text \<open>\<open>String(body).trim().replace(/\s+/g, " ")\<close>.\<close>

fun squeeze :: "string \<Rightarrow> string" where
  "squeeze [] = []"
| "squeeze (c # cs) = (if is_space c then (case squeeze cs of [] \<Rightarrow> '' '' | d # ds \<Rightarrow> if d = CHR '' '' then d # ds else CHR '' '' # d # ds)
     else c # squeeze cs)"

definition one_line :: "string \<Rightarrow> string" where
  "one_line s = squeeze (trim s)"

fun split_on :: "char \<Rightarrow> string \<Rightarrow> string list" where
  "split_on c [] = [[]]"
| "split_on c (d # ds) = (if d = c then [] # split_on c ds else (case split_on c ds of w # ws \<Rightarrow> (d # w) # ws | [] \<Rightarrow> [[d]]))"

definition is_b64 :: "char \<Rightarrow> bool" where
  "is_b64 c \<longleftrightarrow> b64_val c \<noteq> None \<and> c \<noteq> CHR ''-'' \<and> c \<noteq> CHR ''_'' \<or> c = CHR ''=''"

definition is_hex :: "char \<Rightarrow> bool" where
  "is_hex c \<longleftrightarrow> hexval c \<noteq> None"

definition small_number :: "string \<Rightarrow> nat option" where
  "small_number s = (if 1 \<le> length s \<and> length s \<le> 2 then digits_value s else None)"

datatype sms = WholeText nat bytes | PartText nat nat nat string string

definition part_fields :: "string \<Rightarrow> string \<Rightarrow> string \<Rightarrow> string \<Rightarrow> (nat \<times> nat \<times> nat \<times> string \<times> string) option" where
  "part_fields L num ident data =
     (case (from_letter L, split_on CHR ''/'' num) of
        (Some t, [a, b]) \<Rightarrow> (case (small_number a, small_number b) of
            (Some part, Some parts) \<Rightarrow> if length ident = 16 \<and> list_all is_hex ident \<and> data \<noteq> [] \<and> list_all is_b64 data
              then Some (t, part, parts, toLowerCase ident, data) else None
          | _ \<Rightarrow> None)
      | _ \<Rightarrow> None)"

definition whole_text :: "string \<Rightarrow> sms option" where
  "whole_text t =
     (if toLowerCase (take 5 t) = ''bsv1 '' \<and> drop 6 t \<noteq> [] \<and> t ! 6 = CHR '' '' \<and> drop 7 t \<noteq> [] \<and> list_all (\<lambda>c. is_b64 c \<or> c = CHR '' '') (drop 7 t)
      then map_option (\<lambda>ty. WholeText ty (from_base64 (filter (\<lambda>c. c \<noteq> CHR '' '') (drop 7 t)))) (from_letter [t ! 5])
      else None)"

definition parseText :: "string \<Rightarrow> sms option" where
  "parseText body =
     (let t = one_line body in
      case split_on CHR '' '' t of
        [w, L, num, ident, data] \<Rightarrow>
          (case (if toLowerCase w = ''bsv1'' then part_fields L num ident data else None) of
             Some (ty, part, parts, i, d) \<Rightarrow> if part = 0 \<or> part > parts then None else Some (PartText ty part parts i d)
           | None \<Rightarrow> whole_text t)
      | _ \<Rightarrow> whole_text t)"

section \<open>Parts of a payment\<close>

record tpart =
  tp_of :: nat
  tp_type :: nat
  tp_got :: "(nat \<times> string) list"
  tp_at :: int

datatype text_added = TextPartial | TextCorrupt string | TextWhole nat bytes string

definition text_key :: "string \<Rightarrow> string \<Rightarrow> string" where
  "text_key sender ident = sender @ '' '' @ ident"

definition joined_texts :: "tpart \<Rightarrow> bytes" where
  "joined_texts e = from_base64 (concat (map (\<lambda>i. case map_of (tp_got e) (i + 1) of Some d \<Rightarrow> d | None \<Rightarrow> []) [0..<tp_of e]))"

definition fresh_parts :: "int \<Rightarrow> int \<Rightarrow> (string \<times> tpart) list \<Rightarrow> (string \<times> tpart) list" where
  "fresh_parts now maxAge ps = filter (\<lambda>kv. \<not> now - tp_at (snd kv) > maxAge) ps"

definition add_text :: "crypto \<Rightarrow> int \<Rightarrow> int \<Rightarrow> string \<Rightarrow> sms \<Rightarrow> (string \<times> tpart) list \<Rightarrow> (string \<times> tpart) list \<times> text_added" where
  "add_text C now maxAge sender p ps0 =
     (case p of
        WholeText t msg \<Rightarrow> (ps0, TextWhole t msg (message_hex C msg))
      | PartText t part parts ident data \<Rightarrow>
          let ps = fresh_parts now maxAge ps0; k = text_key sender ident;
              e = (case map_of ps k of Some e \<Rightarrow> e | None \<Rightarrow> \<lparr>tp_of = parts, tp_type = t, tp_got = [], tp_at = now\<rparr>);
              ps1 = (if map_of ps k = None then ps @ [(k, e)] else ps) in
          if tp_of e \<noteq> parts \<or> tp_type e \<noteq> t then (ps1, TextPartial)
          else let e1 = e\<lparr>tp_got := AList.update part data (tp_got e)\<rparr> in
            if length (tp_got e1) < tp_of e1 then (AList.update k e1 ps1, TextPartial)
            else (AList.delete k ps1, if message_hex C (joined_texts e1) \<noteq> ident then TextCorrupt ident
              else TextWhole t (joined_texts e1) ident))"

definition missing_texts :: "string \<Rightarrow> string \<Rightarrow> (string \<times> tpart) list \<Rightarrow> nat list" where
  "missing_texts sender ident ps =
     (case map_of ps (text_key sender ident) of None \<Rightarrow> []
      | Some e \<Rightarrow> filter (\<lambda>i. i \<notin> set (map fst (tp_got e))) (map Suc [0..<tp_of e]))"

definition receiptText :: "string \<Rightarrow> string \<Rightarrow> bytes \<Rightarrow> string" where
  "receiptText status txid rcpt = ''BSV RECEIPT '' @ status @ '' '' @ txid @ [CHR 10] @ ''R1 '' @ to_base64 rcpt"

text \<open>\<open>/R1\s+([A-Za-z0-9+/=]+)/\<close>: the first place where it matches.\<close>

fun find_r1 :: "string \<Rightarrow> string option" where
  "find_r1 [] = None"
| "find_r1 (c # cs) =
     (let r = dropWhile is_space (drop 1 cs); data = takeWhile is_b64 r in
      if c = CHR ''R'' \<and> take 1 cs = ''1'' \<and> length r < length (drop 1 cs) \<and> data \<noteq> [] then Some data else find_r1 cs)"

definition readReceiptText :: "crypto \<Rightarrow> sdk \<Rightarrow> string \<Rightarrow> string \<Rightarrow> receipt option" where
  "readReceiptText C S text0 pinned = (case find_r1 text0 of Some data \<Rightarrow> readReceipt C S (from_base64 data) pinned | None \<Rightarrow> None)"

section \<open>Sound\<close>

definition DIGITS :: string where
  "DIGITS = ''123456789abcdefghijklmnopqrstuvwxyz''"

definition CHUNK :: nat where "CHUNK = 128"

definition sound_chunk :: "string \<Rightarrow> string \<Rightarrow> string \<Rightarrow> nat \<Rightarrow> nat \<Rightarrow> string" where
  "sound_chunk t ident b64 n i = ''S'' @ [DIGITS ! i, DIGITS ! (n - 1)] @ t @ take 8 ident @ take CHUNK (drop (i * CHUNK) b64)"

definition soundChunks :: "crypto \<Rightarrow> nat \<Rightarrow> bytes \<Rightarrow> string list res" where
  "soundChunks C ty msg =
     (let b64 = to_base64 msg; n = (length b64 + CHUNK - 1) div CHUNK in
      if n > length DIGITS then Inl ''payment needs too many sound chunks''
      else Inr (map (sound_chunk (if ty = PAY_BEEF then ''B'' else ''E'') (message_hex C msg) b64 n) [0..<n]))"

record schunk =
  sc_part :: nat
  sc_of :: nat
  sc_type :: nat
  sc_id :: string
  sc_data :: string

definition digit_index :: "char \<Rightarrow> nat option" where
  "digit_index c = (let before = takeWhile (\<lambda>d. d \<noteq> c) DIGITS in if length before < length DIGITS then Some (length before + 1) else None)"

definition is_lower_hex :: "char \<Rightarrow> bool" where
  "is_lower_hex c \<longleftrightarrow> is_hex c \<and> lower_char c = c"

definition parseChunk :: "string \<Rightarrow> schunk option" where
  "parseChunk s =
     (case s of
        c # d # e # t # r \<Rightarrow>
          (case (digit_index d, digit_index e) of
             (Some part, Some n) \<Rightarrow>
               if c = CHR ''S'' \<and> (t = CHR ''E'' \<or> t = CHR ''B'') \<and> 8 < length r \<and> length r \<le> 8 + 128 \<and> list_all is_lower_hex (take 8 r) \<and>
                  list_all is_b64 (drop 8 r) \<and> part \<le> n
               then Some \<lparr>sc_part = part, sc_of = n, sc_type = (if t = CHR ''B'' then PAY_BEEF else PAY_EF), sc_id = take 8 r, sc_data = drop 8 r\<rparr>
               else None
           | _ \<Rightarrow> None)
      | _ \<Rightarrow> None)"

datatype sound_added = SoundHave nat nat | SoundCorrupt | SoundWhole nat bytes

definition sound_key :: "schunk \<Rightarrow> string" where
  "sound_key c = sc_id c @ show_nat (sc_of c) @ show_nat (sc_type c)"

definition add_chunk :: "crypto \<Rightarrow> schunk \<Rightarrow> (string \<times> (nat \<times> string) list) list \<Rightarrow> (string \<times> (nat \<times> string) list) list \<times> sound_added" where
  "add_chunk C c ms =
     (let k = sound_key c; got = AList.update (sc_part c) (sc_data c) (case map_of ms k of Some g \<Rightarrow> g | None \<Rightarrow> []) in
      if length got < sc_of c then (AList.update k got ms, SoundHave (length got) (sc_of c))
      else let msg = from_base64 (concat (map (\<lambda>i. case map_of got (i + 1) of Some d \<Rightarrow> d | None \<Rightarrow> []) [0..<sc_of c])) in
        (AList.delete k ms, if take 8 (message_hex C msg) \<noteq> sc_id c then SoundCorrupt else SoundWhole (sc_type c) msg))"

end
