(* ===== verification/RadioGateway.thy ===== *)
theory RadioGateway
  imports RadioText
begin

text \<open>
  The gateway and the sender of a radio payment (radio/lib/gateway.mjs, radio/lib/sender.mjs) and the SMS gateway
  (radio/sms/gateway.mjs). A payment is settled across an \<open>await\<close> of the broadcaster: what is being settled is
  part of the state, and its end is an event of its own. Sending a frame is an effect, returned as a list.
\<close>

section \<open>Settling a payment\<close>

record broadcast =
  bc_ok :: bool
  bc_sent :: bool
  bc_detail :: string

definition dryRun :: broadcast where
  "dryRun = \<lparr>bc_ok = True, bc_sent = False, bc_detail = ''dry run: checked, not broadcast''\<rparr>"

text \<open>A broadcaster that throws.\<close>

definition broadcast_threw :: "string \<Rightarrow> broadcast" where
  "broadcast_threw e = \<lparr>bc_ok = False, bc_sent = True, bc_detail = e\<rparr>"

text \<open>The answer of \<open>arcBroadcaster\<close> to an HTTP status and body.\<close>

definition arc_broadcast :: "string \<Rightarrow> nat \<Rightarrow> string \<Rightarrow> broadcast" where
  "arc_broadcast url httpStatus bodyText =
     (let v = arcVerdict httpStatus bodyText in
      \<lparr>bc_ok = av_ok v, bc_sent = True, bc_detail = url @ '': '' @ (if av_ok v then js_String (av_txStatus v) else av_why v)\<rparr>)"

definition zero_txid :: string where
  "zero_txid = concat (replicate 32 ''00'')"

definition judge_payment :: "sdk \<Rightarrow> nat \<Rightarrow> bytes \<Rightarrow> offline_check" where
  "judge_payment S t msg = (case decodePayment S t msg of Inl e \<Rightarrow> check_failed zero_txid e | Inr tx \<Rightarrow> checkOffline S tx)"

definition payment_status :: "offline_check \<Rightarrow> broadcast \<Rightarrow> nat \<times> string" where
  "payment_status c b =
     (if \<not> oc_ok c then (REJECTED, oc_reason c)
      else (if \<not> bc_ok b then BROADCAST_FAILED else if bc_sent b then ACCEPTED else VALID_NOT_SENT, bc_detail b))"

record settled =
  st_check :: offline_check
  st_status :: nat
  st_detail :: string
  st_receipt :: bytes

definition settlePayment :: "crypto \<Rightarrow> sdk \<Rightarrow> nat \<Rightarrow> string \<Rightarrow> bytes \<Rightarrow> string \<Rightarrow> nat \<Rightarrow> broadcast \<Rightarrow> settled res" where
  "settlePayment C S t ident msg key time b =
     (let c = judge_payment S t msg; (status, detail) = payment_status c b in
      rbind (signReceipt C S (oc_txid c) status time ident key) (\<lambda>r.
      Inr \<lparr>st_check = c, st_status = status, st_detail = detail, st_receipt = r\<rparr>))"

section \<open>The radio gateway\<close>

datatype gw_event =
  EvCorrupt string
| EvPayment string offline_check nat string
| EvGaveUp string
| EvNack string "nat list"

record radio_gateway =
  gw_key :: string
  gw_mtu :: int
  gw_nackAfter :: int
  gw_maxNacks :: nat
  gw_parts :: parts
  gw_done :: "(string \<times> (bytes list \<times> int)) list"
  gw_nacks :: "(string \<times> (nat \<times> int)) list"
  gw_settling :: "(nat \<times> string \<times> bytes) list"
  gw_events :: "gw_event list"

text \<open>The payments that were handed to the broadcaster, in order, are those that pass the offline check.\<close>

definition gw_frame :: "crypto \<Rightarrow> int \<Rightarrow> bytes \<Rightarrow> radio_gateway \<Rightarrow> radio_gateway \<times> bytes list" where
  "gw_frame C now raw g =
     (case parse_frame raw of
        None \<Rightarrow> (g, [])
      | Some p \<Rightarrow>
          if fr_type p \<noteq> PAY_EF \<and> fr_type p \<noteq> PAY_BEEF then (g, [])
          else (case map_of (gw_done g) (fr_id p) of
              Some (frames, at) \<Rightarrow>
                if 2 * (now - at) < gw_nackAfter g then (g, [])
                else (g\<lparr>gw_done := AList.update (fr_id p) (frames, now) (gw_done g)\<rparr>, frames)
            | None \<Rightarrow>
                (case add_frame C True now p (gw_parts g) of
                   (ps, Partial) \<Rightarrow> (g\<lparr>gw_parts := ps\<rparr>, [])
                 | (ps, Corrupt t i) \<Rightarrow> (g\<lparr>gw_parts := ps, gw_events := gw_events g @ [EvCorrupt i]\<rparr>, [])
                 | (ps, Whole t i msg) \<Rightarrow> (g\<lparr>gw_parts := ps, gw_settling := gw_settling g @ [(t, i, msg)]\<rparr>, []))))"

text \<open>The broadcaster answers for the payment at the given place; a receipt that cannot be built is an unhandled rejection.\<close>

definition gw_settled :: "crypto \<Rightarrow> sdk \<Rightarrow> int \<Rightarrow> nat \<Rightarrow> nat \<Rightarrow> broadcast \<Rightarrow> radio_gateway \<Rightarrow> radio_gateway \<times> bytes list res" where
  "gw_settled C S now time k b g =
     (if length (gw_settling g) \<le> k then (g, Inr [])
      else let (t, i, msg) = gw_settling g ! k; g1 = g\<lparr>gw_settling := take k (gw_settling g) @ drop (Suc k) (gw_settling g)\<rparr> in
        (case rbind (settlePayment C S t i msg (gw_key g) time b) (\<lambda>s.
              rbind (split_frames RECEIPT (st_receipt s) (gw_mtu g) (from_hex i)) (\<lambda>frames. Inr (s, frames))) of
           Inl e \<Rightarrow> (g1, Inl e)
         | Inr (s, frames) \<Rightarrow> (g1\<lparr>gw_done := AList.update i (frames, now) (gw_done g1),
             gw_events := gw_events g1 @ [EvPayment i (st_check s) (st_status s) (st_detail s)]\<rparr>, Inr frames)))"

fun gw_tick_loop :: "int \<Rightarrow> (string \<times> int) list \<Rightarrow> radio_gateway \<times> bytes list \<Rightarrow> radio_gateway \<times> bytes list res" where
  "gw_tick_loop now [] (g, out) = (g, Inr out)"
| "gw_tick_loop now ((i, lastAt) # rest) (g, out) =
     (let (n0, at) = (case map_of (gw_nacks g) i of Some p \<Rightarrow> p | None \<Rightarrow> (0, 0)) in
      if now - max lastAt at < gw_nackAfter g then gw_tick_loop now rest (g, out)
      else if n0 + 1 > gw_maxNacks g then
        gw_tick_loop now rest (g\<lparr>gw_parts := drop_part i (gw_parts g), gw_nacks := AList.delete i (gw_nacks g),
          gw_events := gw_events g @ [EvGaveUp i]\<rparr>, out)
      else let ms = missing_frames (gw_parts g) i;
               g1 = g\<lparr>gw_nacks := AList.update i (n0 + 1, now) (gw_nacks g), gw_events := gw_events g @ [EvNack i ms]\<rparr> in
        (case split_frames NACK (map byte_of ms) (gw_mtu g) (from_hex i) of
           Inl e \<Rightarrow> (g1, Inl e)
         | Inr fs \<Rightarrow> gw_tick_loop now rest (g1, out @ fs)))"

definition gw_tick :: "int \<Rightarrow> radio_gateway \<Rightarrow> radio_gateway \<times> bytes list res" where
  "gw_tick now g = gw_tick_loop now (map (\<lambda>(i, t, n, have, lastAt). (i, lastAt)) (pending_parts (gw_parts g))) (g, [])"

section \<open>The sender\<close>

record sender =
  sd_frames :: "bytes list"
  sd_id :: string
  sd_txid :: string
  sd_pub :: string
  sd_tries :: nat
  sd_parts :: parts
  sd_receipt :: "receipt option"
  sd_resend :: "nat list option"
  sd_toSend :: "nat list"
  sd_attempt :: nat

definition new_sender :: "crypto \<Rightarrow> nat \<Rightarrow> bytes \<Rightarrow> int \<Rightarrow> string \<Rightarrow> string \<Rightarrow> nat \<Rightarrow> sender res" where
  "new_sender C t msg mtu txid pinned tries =
     rbind (split_frames t msg mtu (messageId C msg)) (\<lambda>fs.
     case fs of
       f # _ \<Rightarrow> (case parse_frame f of
           Some p \<Rightarrow> Inr \<lparr>sd_frames = fs, sd_id = fr_id p, sd_txid = txid, sd_pub = pinned, sd_tries = tries, sd_parts = [], sd_receipt = None,
             sd_resend = None, sd_toSend = [0..<length fs], sd_attempt = 0\<rparr>
         | None \<Rightarrow> Inl ''Cannot read properties of null'')
     | [] \<Rightarrow> Inl ''Cannot read properties of null'')"

definition sender_whole :: "crypto \<Rightarrow> sdk \<Rightarrow> nat \<Rightarrow> bytes \<Rightarrow> sender \<Rightarrow> sender" where
  "sender_whole C S t msg s =
     (if t = NACK then s\<lparr>sd_resend := Some (filter (\<lambda>i. i < length (sd_frames s)) (map unat msg))\<rparr>
      else if t = RECEIPT then
        (case readReceipt C S msg (sd_pub s) of
           Some r \<Rightarrow> if rc_txid r = sd_txid s then s\<lparr>sd_receipt := Some r\<rparr> else s
         | None \<Rightarrow> s)
      else s)"

definition sender_frame :: "crypto \<Rightarrow> sdk \<Rightarrow> int \<Rightarrow> bytes \<Rightarrow> sender \<Rightarrow> sender" where
  "sender_frame C S now raw s =
     (case parse_frame raw of
        None \<Rightarrow> s
      | Some p \<Rightarrow> if fr_id p \<noteq> sd_id s then s else
          (case add_frame C False now p (sd_parts s) of
             (ps, Whole t i msg) \<Rightarrow> sender_whole C S t msg (s\<lparr>sd_parts := ps\<rparr>)
           | (ps, _) \<Rightarrow> s\<lparr>sd_parts := ps\<rparr>))"

text \<open>The head of the loop: the frames of the next round, or None when it is over.\<close>

definition sender_round :: "sender \<Rightarrow> (sender \<times> bytes list) option" where
  "sender_round s =
     (if sd_receipt s \<noteq> None \<or> sd_attempt s \<ge> sd_tries s then None
      else Some (s\<lparr>sd_attempt := sd_attempt s + 1, sd_resend := None\<rparr>, map (\<lambda>i. sd_frames s ! i) (sd_toSend s)))"

text \<open>The end of the body, after the wait.\<close>

definition sender_awake :: "sender \<Rightarrow> sender" where
  "sender_awake s =
     (if sd_receipt s \<noteq> None then s
      else (case sd_resend s of
          Some is \<Rightarrow> s\<lparr>sd_toSend := is, sd_attempt := sd_attempt s - 1\<rparr>
        | None \<Rightarrow> s\<lparr>sd_toSend := [0..<length (sd_frames s)]\<rparr>))"

section \<open>The SMS gateway\<close>

datatype sms_event = SmsIgnored string | SmsPart string string | SmsCorrupt string string | SmsRepeat string string | SmsPayment string string nat string

record sms_gateway =
  sg_key :: string
  sg_maxAge :: int
  sg_parts :: "(string \<times> tpart) list"
  sg_done :: "(string \<times> string) list"
  sg_settling :: "(string \<times> nat \<times> string \<times> bytes) list"
  sg_events :: "sms_event list"

datatype sms_reply = NoReply | Reply string | Settling

definition sms_handle :: "crypto \<Rightarrow> int \<Rightarrow> string \<Rightarrow> string \<Rightarrow> sms_gateway \<Rightarrow> sms_gateway \<times> sms_reply" where
  "sms_handle C now sender body g =
     (case parseText body of
        None \<Rightarrow> (g\<lparr>sg_events := sg_events g @ [SmsIgnored sender]\<rparr>, NoReply)
      | Some p \<Rightarrow>
          let (ps, a) = add_text C now (sg_maxAge g) sender p (sg_parts g); g1 = g\<lparr>sg_parts := ps\<rparr> in
          (case a of
             TextPartial \<Rightarrow> (g1\<lparr>sg_events := sg_events g @ [SmsPart sender (case p of PartText _ _ _ i _ \<Rightarrow> i | _ \<Rightarrow> [])]\<rparr>, NoReply)
           | TextCorrupt i \<Rightarrow> (g1\<lparr>sg_events := sg_events g @ [SmsCorrupt sender i]\<rparr>,
               Reply (''BSV ERROR parts of '' @ i @ '' do not match; send the payment again''))
           | TextWhole t msg i \<Rightarrow> (case map_of (sg_done g) i of
               Some reply \<Rightarrow> (g1\<lparr>sg_events := sg_events g @ [SmsRepeat sender i]\<rparr>, Reply reply)
             | None \<Rightarrow> (g1\<lparr>sg_settling := sg_settling g @ [(sender, t, i, msg)]\<rparr>, Settling))))"

definition sms_reply_text :: "settled \<Rightarrow> string" where
  "sms_reply_text s = receiptText (STATUS_NAME (st_status s)) (oc_txid (st_check s)) (st_receipt s) @
     (if st_status s = REJECTED then CHR 10 # ''why: '' @ take 80 (st_detail s) else [])"

definition sms_settled :: "crypto \<Rightarrow> sdk \<Rightarrow> nat \<Rightarrow> nat \<Rightarrow> broadcast \<Rightarrow> sms_gateway \<Rightarrow> sms_gateway \<times> string res" where
  "sms_settled C S time k b g =
     (if length (sg_settling g) \<le> k then (g, Inl ''nothing to settle'')
      else let (sender, t, i, msg) = sg_settling g ! k; g1 = g\<lparr>sg_settling := take k (sg_settling g) @ drop (Suc k) (sg_settling g)\<rparr> in
        (case settlePayment C S t i msg (sg_key g) time b of
           Inl e \<Rightarrow> (g1, Inl e)
         | Inr s \<Rightarrow> (g1\<lparr>sg_done := AList.update i (sms_reply_text s) (sg_done g1),
             sg_events := sg_events g1 @ [SmsPayment sender i (st_status s) (st_detail s)]\<rparr>, Inr (sms_reply_text s))))"

end
