(* ===== verification/Faucet.thy ===== *)
theory Faucet
  imports RadioGateway
begin

text \<open>
  radio/faucet/faucet.mjs and radio/faucet/claims.mjs: the plan of a faucet, its coin lines and announcements,
  claims, and the gateway that pays them. Claims are handled one at a time (the code chains them on a promise), so
  a claim is one step that takes the broadcaster's answer. Addresses, keys and the transaction that spends a coin are
  those of \<open>@bsv/sdk\<close>, parameters here. Amounts are whole numbers.
\<close>

section \<open>The plan\<close>

definition SWEEP_BYTES :: int where "SWEEP_BYTES = 191"
definition MAX_COINS :: int where "MAX_COINS = 1296"

definition faucet_domain :: string where "faucet_domain = ''bsvkey-faucet/1''"

definition feeFor :: "int \<Rightarrow> int \<Rightarrow> int" where
  "feeFor n feeRate = - ((- (n * feeRate)) div 1000)"

definition sweepFee :: "int \<Rightarrow> int" where
  "sweepFee feeRate = feeFor SWEEP_BYTES feeRate"

definition fanoutBytes :: "int \<Rightarrow> int" where
  "fanoutBytes coins = 10 + 148 + coins * 34 + 60 + 34 + 9"

record faucet_plan =
  fp_coinSats :: int
  fp_count :: int
  fp_coinsTotal :: int
  fp_fanoutFee :: int
  fp_need :: int
  fp_claimFee :: int
  fp_received :: int
  fp_feeRate :: int
  fp_leftover :: int

definition planned_count :: "int \<Rightarrow> int option \<Rightarrow> int option \<Rightarrow> int option" where
  "planned_count coinSats coins sum_sats =
     (case coins of Some n \<Rightarrow> Some n | None \<Rightarrow> (case sum_sats of Some t \<Rightarrow> Some (t div coinSats) | None \<Rightarrow> None))"

definition make_plan :: "int \<Rightarrow> int \<Rightarrow> int option \<Rightarrow> int \<Rightarrow> faucet_plan" where
  "make_plan coinSats coins sum_sats feeRate =
     (let fanoutFee = feeFor (fanoutBytes coins) feeRate in
      \<lparr>fp_coinSats = coinSats, fp_count = coins, fp_coinsTotal = coins * coinSats, fp_fanoutFee = fanoutFee, fp_need = coins * coinSats + fanoutFee,
       fp_claimFee = sweepFee feeRate, fp_received = coinSats - sweepFee feeRate, fp_feeRate = feeRate,
       fp_leftover = (case sum_sats of Some t \<Rightarrow> t - coins * coinSats | None \<Rightarrow> 0)\<rparr>)"

definition planFaucet :: "int \<Rightarrow> int option \<Rightarrow> int option \<Rightarrow> int \<Rightarrow> int \<Rightarrow> int option \<Rightarrow> faucet_plan res" where
  "planFaucet coinSats coins sum_sats feeRate minCoin fundSats =
     (if \<not> coinSats > 0 then Inl ''give a coin size in satoshis''
      else if coinSats < max minCoin (sweepFee feeRate + 1) then Inl ''coins are too small''
      else (case planned_count coinSats coins sum_sats of
          None \<Rightarrow> Inl ''give a coin coins or a sum_sats''
        | Some n \<Rightarrow>
            if \<not> n \<ge> 1 then Inl ''the sum_sats does not make one coin''
            else if n > MAX_COINS then Inl ''too many coins per faucet''
            else let plan = make_plan coinSats n sum_sats feeRate in
              if (case fundSats of Some f \<Rightarrow> f < fp_need plan | None \<Rightarrow> False) then Inl ''the funding does not cover the coins and the fee''
              else Inr plan))"

section \<open>Keys of a faucet\<close>

record faucet_sdk =
  fk_master_pub :: "string \<Rightarrow> bytes"
  fk_master_raw :: "string \<Rightarrow> bytes"
  fk_from_hex :: "string \<Rightarrow> string"
  fk_address_ok :: "string \<Rightarrow> bool"
  fk_verify :: "string \<Rightarrow> string \<Rightarrow> bytes \<Rightarrow> bool"
  fk_spend :: "string \<Rightarrow> nat \<Rightarrow> string \<Rightarrow> (string \<times> int) res"

definition faucetId :: "crypto \<Rightarrow> faucet_sdk \<Rightarrow> string \<Rightarrow> string \<Rightarrow> string" where
  "faucetId C F master funding = take 8 (to_hex (sha256 C (utf8 (faucet_domain @ '' '' @ funding) @ fk_master_pub F master)))"

definition coinKey :: "crypto \<Rightarrow> faucet_sdk \<Rightarrow> string \<Rightarrow> string \<Rightarrow> nat \<Rightarrow> string" where
  "coinKey C F master funding i =
     fk_from_hex F (to_hex (sha256 C (utf8 (faucet_domain @ ''/coin '' @ funding) @ fk_master_raw F master @ be 4 i)))"

section \<open>Coin lines\<close>

definition digit36 :: "nat \<Rightarrow> char" where
  "digit36 n = (if n < 10 then char_of (48 + n) else char_of (87 + n))"

fun show_base :: "nat \<Rightarrow> nat \<Rightarrow> nat \<Rightarrow> string" where
  "show_base b 0 n = []"
| "show_base b (Suc k) n = (if n < b then [digit36 n] else show_base b k (n div b) @ [digit36 (n mod b)])"

text \<open>\<open>n.toString(b)\<close> for a number below \<open>2 ^ 64\<close> (64 digits are enough in any base).\<close>

definition to_base :: "nat \<Rightarrow> nat \<Rightarrow> string" where
  "to_base b n = show_base b 64 n"

definition pad_start :: "nat \<Rightarrow> string \<Rightarrow> string" where
  "pad_start n s = replicate (n - length s) CHR ''0'' @ s"

definition value36 :: "char \<Rightarrow> nat option" where
  "value36 c = (let n = of_char c :: nat in if 48 \<le> n \<and> n \<le> 57 then Some (n - 48) else if 97 \<le> n \<and> n \<le> 122 then Some (n - 87) else None)"

definition read_base :: "nat \<Rightarrow> string \<Rightarrow> nat" where
  "read_base b s = foldl (\<lambda>a c. a * b + (case value36 c of Some v \<Rightarrow> v | None \<Rightarrow> 0)) 0 s"

definition coinLine :: "nat \<Rightarrow> string \<Rightarrow> string \<Rightarrow> nat \<Rightarrow> nat \<Rightarrow> string res" where
  "coinLine i wif txid vout sats =
     (if length wif \<noteq> 52 then Inl ''expected a compressed WIF''
      else Inr (''F'' @ pad_start 2 (to_base 36 i) @ wif @ txid @ pad_start 4 (to_base 16 vout) @ pad_start 8 (to_base 16 sats)))"

record coin =
  co_i :: nat
  co_wif :: string
  co_txid :: string
  co_vout :: nat
  co_sats :: nat

definition is_base58 :: "char \<Rightarrow> bool" where
  "is_base58 c \<longleftrightarrow> b64_val c \<noteq> None \<and> c \<notin> set ''0OIl+/-_''"

text \<open>\<open>wif_ok\<close> is \<open>PrivateKey.fromWif\<close> not throwing.\<close>

definition parseCoinLine :: "(string \<Rightarrow> bool) \<Rightarrow> string \<Rightarrow> coin option" where
  "parseCoinLine wif_ok body =
     (let s = trim body; i = take 2 (drop 1 s); wif = take 52 (drop 3 s); txid = take 64 (drop 55 s); vout = take 4 (drop 119 s); sats = drop 123 s in
      if take 1 s = ''F'' \<and> length s = 131 \<and> list_all (\<lambda>c. value36 c \<noteq> None) i \<and> list_all is_base58 wif \<and> list_all is_lower_hex (txid @ vout @ sats) \<and> wif_ok wif
      then Some \<lparr>co_i = read_base 36 i, co_wif = wif, co_txid = txid, co_vout = read_base 16 vout, co_sats = read_base 16 sats\<rparr>
      else None)"

section \<open>Announcements\<close>

definition announcement :: "string \<Rightarrow> string \<Rightarrow> nat \<Rightarrow> nat \<Rightarrow> nat \<Rightarrow> string \<Rightarrow> string" where
  "announcement ident mode coinSats left coins claimTo =
     (if mode = ''bearer''
      then ''BSVF1 '' @ ident @ '' bearer coins of '' @ show_nat coinSats @ '' sat, '' @ show_nat left @ '' of '' @ show_nat coins @ ''. First to sweep each one keeps it.''
      else ''BSVF1 '' @ ident @ '' '' @ show_nat coinSats @ '' sat each, '' @ show_nat left @ '' of '' @ show_nat coins @
        '' left. Send BSV1 CLAIM <your address>'' @ (if claimTo = [] then [] else '' to '' @ claimTo))"

definition strip_prefix :: "string \<Rightarrow> string \<Rightarrow> string option" where
  "strip_prefix p s = (if take (length p) s = p then Some (drop (length p) s) else None)"

definition eat_number :: "string \<Rightarrow> (nat \<times> string) option" where
  "eat_number s = (let d = takeWhile is_digit s in if d = [] then None else Some (read_nat d, dropWhile is_digit s))"

record announced =
  an_id :: string
  an_mode :: string
  an_coinSats :: nat
  an_left :: nat
  an_count :: nat
  an_claimTo :: "string option"

definition announced_numbers :: "string \<Rightarrow> string \<Rightarrow> (nat \<times> nat \<times> nat \<times> string) option" where
  "announced_numbers sep s =
     Option.bind (eat_number s) (\<lambda>(a, r1). Option.bind (strip_prefix sep r1) (\<lambda>r2. Option.bind (eat_number r2) (\<lambda>(b, r3).
     Option.bind (strip_prefix '' of '' r3) (\<lambda>r4. Option.bind (eat_number r4) (\<lambda>(c, r5). Some (a, b, c, r5))))))"

definition parse_claims_line :: "string \<Rightarrow> string \<Rightarrow> announced option" where
  "parse_claims_line ident r =
     Option.bind (announced_numbers '' sat each, '' r) (\<lambda>(a, b, c, r5).
     Option.bind (strip_prefix '' left. Send BSV1 CLAIM <your address>'' r5) (\<lambda>r6.
       let mk = (\<lambda>to. \<lparr>an_id = ident, an_mode = ''claims'', an_coinSats = a, an_left = b, an_count = c, an_claimTo = to\<rparr>) in
       if r6 = [] then Some (mk None)
       else (case strip_prefix '' to '' r6 of
           Some to \<Rightarrow> if to \<noteq> [] \<and> list_all (\<lambda>c. \<not> is_space c) to then Some (mk (Some to)) else None
         | None \<Rightarrow> None)))"

definition parse_bearer_line :: "string \<Rightarrow> string \<Rightarrow> announced option" where
  "parse_bearer_line ident r =
     Option.bind (strip_prefix ''bearer coins of '' r) (\<lambda>r1. Option.bind (announced_numbers '' sat, '' r1) (\<lambda>(a, b, c, r5).
     if take 1 r5 = ''.'' then Some \<lparr>an_id = ident, an_mode = ''bearer'', an_coinSats = a, an_left = b, an_count = c, an_claimTo = None\<rparr> else None))"

definition parseAnnouncement :: "string \<Rightarrow> announced option" where
  "parseAnnouncement body =
     Option.bind (strip_prefix ''BSVF1 '' (trim body)) (\<lambda>s.
       let ident = take 8 s in
       if length ident = 8 \<and> list_all is_lower_hex ident then
         Option.bind (strip_prefix '' '' (drop 8 s)) (\<lambda>r.
           case parse_claims_line ident r of Some a \<Rightarrow> Some a | None \<Rightarrow> parse_bearer_line ident r)
       else None)"

section \<open>Claims\<close>

definition claimMessage :: "string \<Rightarrow> string \<Rightarrow> string" where
  "claimMessage ident address = faucet_domain @ '' claim '' @ ident @ '' '' @ address"

text \<open>\<open>claimText\<close>; the device's public key in hex and its signature.\<close>

definition claimText :: "string \<Rightarrow> (string \<times> bytes) option \<Rightarrow> string" where
  "claimText address device =
     (case device of None \<Rightarrow> ''BSV1 CLAIM '' @ address
      | Some (p, sig) \<Rightarrow> ''BSV1 CLAIM '' @ address @ '' '' @ p @ '' '' @ to_base64 sig)"

datatype claim = BadClaim string string | Claim string "string option"

definition device_fields_ok :: "string \<Rightarrow> string \<Rightarrow> bool" where
  "device_fields_ok dev sig \<longleftrightarrow> length dev = 66 \<and> list_all is_hex dev \<and> 60 \<le> length sig \<and> length sig \<le> 120 \<and> list_all is_b64 sig"

definition parseClaim :: "faucet_sdk \<Rightarrow> string \<Rightarrow> string \<Rightarrow> claim option" where
  "parseClaim F body ident =
     (let ws = split_on CHR '' '' (one_line body) in
      if \<not> (3 \<le> length ws \<and> toLowerCase (ws ! 0) = ''bsv1'' \<and> toLowerCase (ws ! 1) = ''claim'' \<and> 1 \<le> length (ws ! 2) \<and> length (ws ! 2) \<le> 100) then None
      else let address = ws ! 2 in
        if length ws = 3 then Some (if fk_address_ok F address then Claim address None else BadClaim address ''that is not a valid address'')
        else if length ws = 5 \<and> device_fields_ok (ws ! 3) (ws ! 4) then
          Some (if \<not> fk_address_ok F address then BadClaim address ''that is not a valid address''
            else if fk_verify F (ws ! 3) (claimMessage ident address) (from_base64 (ws ! 4)) then Claim address (Some (ws ! 3))
            else BadClaim address ''the device signature does not match'')
        else None)"

record claim_record =
  cr_coin :: nat
  cr_who :: string
  cr_to :: string
  cr_txid :: string
  cr_sats :: int
  cr_status :: string
  cr_ok :: bool
  cr_detail :: string

record faucet =
  fa_id :: string
  fa_master :: string
  fa_funding :: string
  fa_count :: nat
  fa_perSender :: nat
  fa_perAddress :: nat
  fa_records :: "claim_record list"

text \<open>Start or restart: the records are the lines of the ledger file.\<close>

definition faucetClaims :: "crypto \<Rightarrow> faucet_sdk \<Rightarrow> string \<Rightarrow> string \<Rightarrow> string \<Rightarrow> nat \<Rightarrow> nat \<Rightarrow> nat \<Rightarrow> claim_record list \<Rightarrow> faucet res" where
  "faucetClaims C F master funding configId coins perSender perAddress ledger =
     (let ident = faucetId C F master funding in
      if configId \<noteq> [] \<and> configId \<noteq> ident then Inl ''this key is not the key of this faucet''
      else Inr \<lparr>fa_id = ident, fa_master = master, fa_funding = funding, fa_count = coins, fa_perSender = perSender, fa_perAddress = perAddress,
        fa_records = ledger\<rparr>)"

definition used_coins :: "faucet \<Rightarrow> nat set" where
  "used_coins f = cr_coin ` set (fa_records f)"

definition claims_by :: "(claim_record \<Rightarrow> string) \<Rightarrow> string \<Rightarrow> faucet \<Rightarrow> nat" where
  "claims_by key v f = length (filter (\<lambda>r. cr_ok r \<and> key r = v) (fa_records f))"

text \<open>\<open>while (coin < config.count && used.has(coin)) coin++\<close>.\<close>

definition next_coin :: "faucet \<Rightarrow> nat option" where
  "next_coin f = find (\<lambda>c. c \<notin> used_coins f) [0..<fa_count f]"

definition claimant :: "string \<Rightarrow> string option \<Rightarrow> string" where
  "claimant sender device = (case device of Some d \<Rightarrow> ''key:'' @ d | None \<Rightarrow> ''from:'' @ sender)"

definition claim_reply :: "string \<Rightarrow> string \<Rightarrow> bytes \<Rightarrow> int \<Rightarrow> string \<Rightarrow> string" where
  "claim_reply status txid rcpt paid address = receiptText status txid rcpt @ CHR 10 # ''paid '' @ show_int paid @ '' sat to '' @ address"

definition pay_claim :: "crypto \<Rightarrow> sdk \<Rightarrow> faucet_sdk \<Rightarrow> nat \<Rightarrow> broadcast \<Rightarrow> string \<Rightarrow> string \<Rightarrow> nat \<Rightarrow> faucet \<Rightarrow> faucet \<times> string res" where
  "pay_claim C S F time b who address c f =
     (case fk_spend F (coinKey C F (fa_master f) (fa_funding f) c) c address of
        Inl e \<Rightarrow> (f, Inl e)
      | Inr (txid, paid) \<Rightarrow>
          let status = (if \<not> bc_ok b then BROADCAST_FAILED else if bc_sent b then ACCEPTED else VALID_NOT_SENT);
              f1 = f\<lparr>fa_records := fa_records f @ [\<lparr>cr_coin = c, cr_who = who, cr_to = address, cr_txid = txid, cr_sats = paid,
                cr_status = STATUS_NAME status, cr_ok = bc_ok b, cr_detail = bc_detail b\<rparr>]\<rparr> in
          if \<not> bc_ok b then (f1, Inr ''BSV FAUCET ERROR the payment could not be sent; try again later'')
          else (f1, rbind (signReceipt C S txid status time (fa_id f @ ''00000000'') (fa_master f)) (\<lambda>r.
            Inr (claim_reply (STATUS_NAME status) txid r paid address))))"

definition faucet_claim :: "crypto \<Rightarrow> sdk \<Rightarrow> faucet_sdk \<Rightarrow> nat \<Rightarrow> broadcast \<Rightarrow> string \<Rightarrow> string \<Rightarrow> faucet \<Rightarrow> faucet \<times> (string option) res" where
  "faucet_claim C S F time b sender body f =
     (case parseClaim F body (fa_id f) of
        None \<Rightarrow> (f, Inr None)
      | Some (BadClaim a why) \<Rightarrow> (f, Inr (Some (''BSV FAUCET REFUSED '' @ why)))
      | Some (Claim address device) \<Rightarrow>
          let who = claimant sender device in
          if claims_by cr_who who f \<ge> fa_perSender f then (f, Inr (Some (''BSV FAUCET REFUSED already claimed by this '' @ (if device = None then ''sender'' else ''device''))))
          else if claims_by cr_to address f \<ge> fa_perAddress f then (f, Inr (Some ''BSV FAUCET REFUSED this address already received a coin''))
          else (case next_coin f of
              None \<Rightarrow> (f, Inr (Some (''BSV FAUCET EMPTY all '' @ show_nat (fa_count f) @ '' coins are claimed'')))
            | Some c \<Rightarrow> (let (f1, r) = pay_claim C S F time b who address c f in (f1, rbind r (\<lambda>t. Inr (Some t))))))"

definition coins_left :: "faucet \<Rightarrow> int" where
  "coins_left f = int (fa_count f) - int (card (used_coins f))"

text \<open>Several handlers on one number: the first that answers wins.\<close>

fun combineHandlers :: "(string \<Rightarrow> string \<Rightarrow> string option) list \<Rightarrow> string \<Rightarrow> string \<Rightarrow> string option" where
  "combineHandlers [] sender body = None"
| "combineHandlers (h # hs) sender body = (case h sender body of Some r \<Rightarrow> Some r | None \<Rightarrow> combineHandlers hs sender body)"

end
