(* ===== verification/Collect.thy ===== *)
theory Collect
  imports Main "HOL-Library.AList"
begin

text \<open>
  The interface of an assembler: a message is cut into numbered pieces, the pieces come in one at a time, mixed
  with pieces of other messages, and the message is handed out when the last one is there. The radio
  frames, the texts and the sound chunks of radio/ are each put together this way.

  A client sees \<open>put\<close>, which takes what arrived and answers, and \<open>holds\<close>, what is collected of the one message it is
  interested in (\<open>None\<close> when the place of that message is taken by something else). \<open>index\<close> tells which piece of that
  message an arrival is, \<open>allowed\<close> what may arrive at all, \<open>I\<close> the indexes of the message \<open>whole\<close> the answer that hands it out and \<open>pending\<close> the answer before.
\<close>

locale collector =
  fixes put :: "'m \<Rightarrow> 's \<Rightarrow> 's \<times> 'r" and holds :: "'s \<Rightarrow> (nat \<times> 'd) list option" and index :: "'m \<Rightarrow> nat option"
    and allowed :: "'m \<Rightarrow> bool" and I :: "nat set" and piece :: "nat \<Rightarrow> 'd" and pending whole :: 'r
  assumes finite_I: "finite I"
    and in_range: "allowed m \<Longrightarrow> index m = Some i \<Longrightarrow> i \<in> I"
    and other: "allowed m \<Longrightarrow> index m = None \<Longrightarrow> holds (fst (put m s)) = holds s"
    and stores: "allowed m \<Longrightarrow> index m = Some i \<Longrightarrow> holds s = Some got \<Longrightarrow> length (AList.update i (piece i) got) < card I \<Longrightarrow>
      holds (fst (put m s)) = Some (AList.update i (piece i) got) \<and> snd (put m s) = pending"
    and finishes: "allowed m \<Longrightarrow> index m = Some i \<Longrightarrow> holds s = Some got \<Longrightarrow> length (AList.update i (piece i) got) = card I \<Longrightarrow>
      \<forall>j\<in>I. map_of (AList.update i (piece i) got) j = Some (piece j) \<Longrightarrow> holds (fst (put m s)) = Some [] \<and> snd (put m s) = whole"
begin

definition collected :: "nat set \<Rightarrow> 's \<Rightarrow> bool" where
  "collected K s \<longleftrightarrow> (\<exists>got. holds s = Some got \<and> distinct (map fst got) \<and> fst ` set got = K \<and> (\<forall>j\<in>K. map_of got j = Some (piece j)))"

definition indexes :: "'m list \<Rightarrow> nat set" where
  "indexes ms = {i. \<exists>m\<in>set ms. index m = Some i}"

lemma collected_none: "holds s = Some [] \<Longrightarrow> collected {} s"
  by (simp add: collected_def)

lemma update_collected:
  assumes "distinct (map fst got)" "fst ` set got = K" "\<forall>j\<in>K. map_of got j = Some (piece j)"
  shows "distinct (map fst (AList.update i (piece i) got))" "fst ` set (AList.update i (piece i) got) = insert i K"
    "\<forall>j\<in>insert i K. map_of (AList.update i (piece i) got) j = Some (piece j)" "length (AList.update i (piece i) got) = card (insert i K)"
proof -
  show d: "distinct (map fst (AList.update i (piece i) got))" using assms(1) by (rule distinct_update)
  show k: "fst ` set (AList.update i (piece i) got) = insert i K" using dom_update [of i "piece i" got] assms(2) by auto
  show "\<forall>j\<in>insert i K. map_of (AList.update i (piece i) got) j = Some (piece j)" using assms(3) by (auto simp: update_conv')
  show "length (AList.update i (piece i) got) = card (insert i K)"
    using distinct_card [OF d] k by simp
qed

lemma put_collected:
  assumes "collected K s" "allowed m" "index m = Some i" "insert i K \<subset> I"
  shows "collected (insert i K) (fst (put m s)) \<and> snd (put m s) = pending"
proof -
  obtain got where got: "holds s = Some got" "distinct (map fst got)" "fst ` set got = K" "\<forall>j\<in>K. map_of got j = Some (piece j)"
    using assms(1) unfolding collected_def by blast
  note u = update_collected [OF got(2-4), of i]
  have "card (insert i K) < card I" using assms(4) finite_I by (simp add: psubset_card_mono)
  then show ?thesis using stores [OF assms(2,3) got(1)] u unfolding collected_def by auto
qed

lemma put_finishes:
  assumes "collected K s" "allowed m" "index m = Some i" "insert i K = I"
  shows "holds (fst (put m s)) = Some [] \<and> snd (put m s) = whole"
proof -
  obtain got where got: "holds s = Some got" "distinct (map fst got)" "fst ` set got = K" "\<forall>j\<in>K. map_of got j = Some (piece j)"
    using assms(1) unfolding collected_def by blast
  show ?thesis using finishes [OF assms(2,3) got(1)] update_collected [OF got(2-4), of i] assms(4) by simp
qed

lemma put_other: "collected K s \<Longrightarrow> allowed m \<Longrightarrow> index m = None \<Longrightarrow> collected K (fst (put m s))"
  by (simp add: collected_def other)

lemma run_collected:
  assumes "collected K s" "\<forall>m\<in>set ms. allowed m" "K \<union> indexes ms \<subset> I"
  shows "collected (K \<union> indexes ms) (fold (\<lambda>m s. fst (put m s)) ms s)"
  using assms
proof (induction ms arbitrary: K s)
  case Nil
  then show ?case by (simp add: indexes_def)
next
  case (Cons m ms)
  show ?case
  proof (cases "index m")
    case None
    then have "indexes (m # ms) = indexes ms" by (auto simp: indexes_def)
    then show ?thesis using Cons.IH [OF put_other [OF Cons.prems(1)]] Cons.prems None by simp
  next
    case (Some i)
    then have i: "indexes (m # ms) = insert i (indexes ms)" by (auto simp: indexes_def)
    then have "collected (insert i K) (fst (put m s))" using put_collected [OF Cons.prems(1) _ Some] Cons.prems by auto
    from Cons.IH [OF this] show ?thesis using Cons.prems i by simp
  qed
qed

text \<open>Any order, any repetition, anything else in between: the piece that makes the message complete hands it out.\<close>

theorem assembles:
  assumes "holds s = Some []" "\<forall>m\<in>set ms. allowed m" "allowed m" "index m = Some i" "indexes ms \<subset> I" "insert i (indexes ms) = I"
  shows "snd (put m (fold (\<lambda>m s. fst (put m s)) ms s)) = whole \<and> holds (fst (put m (fold (\<lambda>m s. fst (put m s)) ms s))) = Some []"
  using put_finishes [OF run_collected [OF collected_none [OF assms(1)] assms(2)] assms(3,4)] assms(5,6) by simp

lemma not_yet:
  assumes "holds s = Some []" "\<forall>m\<in>set ms. allowed m" "indexes ms \<subset> I"
  shows "collected (indexes ms) (fold (\<lambda>m s. fst (put m s)) ms s)"
  using run_collected [OF collected_none [OF assms(1)] assms(2)] assms(3) by simp

end

end
