(* ===== verification/RadioProps.thy ===== *)
theory RadioProps
  imports RadioGateway Collect
begin

text \<open>
  A payment over the radio, end to end: frames that are split are put together again in any order
  (radio/lib/frame.mjs), a receipt that is signed is read back (radio/lib/payment.mjs), and a payment that the sender
  transmits, the gateway settles and confirms ends with its receipt at the sender (radio/lib/gateway.mjs, sender.mjs).
\<close>

section \<open>Frames are split and parsed back\<close>

definition the_frame :: "nat \<Rightarrow> string \<Rightarrow> nat \<Rightarrow> (nat \<Rightarrow> bytes) \<Rightarrow> nat \<Rightarrow> pframe" where
  "the_frame t ident n piece i = \<lparr>fr_type = t, fr_id = ident, fr_index = i, fr_total = n, fr_data = piece i\<rparr>"

lemma pieces_concat: "concat (map (\<lambda>i. take k (drop (i * k) xs)) [0..<n]) = take (n * k) xs"
proof (induction n)
  case (Suc n)
  then show ?case by (simp add: take_add add.commute [of k])
qed simp

lemma parse_frame_head:
  assumes "t \<in> set frame_types" "length b = 8" "i < n" "n \<le> 255"
  shows "parse_frame (frame_head t b i n @ d) = Some (the_frame t (to_hex b) n (\<lambda>_. d) i)"
proof -
  have t: "unat (byte_of t) = t" "unat (byte_of i) = i" "unat (byte_of n) = n"
    using assms by (auto simp: frame_types_def PAY_EF_def PAY_BEEF_def NACK_def RECEIPT_def)
  have h: "frame_head t b i n @ d = MAGIC # VERSION # byte_of t # b @ byte_of i # byte_of n # d"
    using assms(2) by (simp add: frame_head_def)
  have n: "(b @ byte_of i # byte_of n # d) ! 8 = byte_of i" "(b @ byte_of i # byte_of n # d) ! 9 = byte_of n"
    "take 8 (b @ byte_of i # byte_of n # d) = b" "drop 10 (b @ byte_of i # byte_of n # d) = d"
    using assms(2) by (simp_all add: nth_append)
  have "(frame_head t b i n @ d) ! 11 = byte_of i" "(frame_head t b i n @ d) ! 12 = byte_of n"
    "take 8 (drop 3 (frame_head t b i n @ d)) = b" "drop 13 (frame_head t b i n @ d) = d" "(frame_head t b i n @ d) ! 2 = byte_of t"
    "(frame_head t b i n @ d) ! 0 = MAGIC" "(frame_head t b i n @ d) ! 1 = VERSION" "13 \<le> length (frame_head t b i n @ d)"
    unfolding h using n assms(2) by (simp_all add: nth_Cons')
  then show ?thesis using assms t by (simp add: parse_frame_def HEADER_def the_frame_def Let_def del: append_Cons)
qed

lemma split_shape:
  assumes "split_frames t msg mtu b = Inr fs" "t \<in> set frame_types" "length b = 8"
  shows "\<exists>n piece. 0 < n \<and> length fs = n \<and> concat (map piece [0..<n]) = msg \<and>
    (\<forall>i<n. parse_frame (fs ! i) = Some (the_frame t (to_hex b) n piece i))"
proof -
  define room where "room = nat (mtu - int HEADER)"
  define n where "n = frame_count (length msg) room"
  define piece where "piece = (\<lambda>i. take room (drop (i * room) msg))"
  have fs: "fs = map (\<lambda>i. frame_head t b i n @ piece i) [0..<n]" "n \<le> 255" "0 < room"
    using assms(1) by (auto simp: split_frames_def Let_def room_def n_def piece_def split: if_splits)
  have "length msg \<le> n * room"
  proof -
    have "length msg + room - 1 < room * ((length msg + room - 1) div room) + room" using fs(3) dividend_less_times_div [of room "length msg + room - 1"] by (simp add: add.commute)
    moreover have "(length msg + room - 1) div room \<le> n" by (simp add: n_def frame_count_def)
    then have "room * ((length msg + room - 1) div room) \<le> n * room" by (simp add: mult.commute)
    ultimately show ?thesis by linarith
  qed
  then have "concat (map piece [0..<n]) = msg" by (simp add: piece_def pieces_concat)
  moreover have "0 < n" by (simp add: n_def frame_count_def)
  moreover have "parse_frame (fs ! i) = Some (the_frame t (to_hex b) n piece i)" if "i < n" for i
    using parse_frame_head [OF assms(2,3) that fs(2)] that by (simp add: fs(1) the_frame_def)
  ultimately show ?thesis using fs(1) by (intro exI [of _ n] exI [of _ piece]) simp
qed

section \<open>The reassembler\<close>

text \<open>What a radio does with a raw frame: frames that do not parse are dropped.\<close>

definition receive_frame :: "crypto \<Rightarrow> bool \<Rightarrow> int \<times> bytes \<Rightarrow> parts \<Rightarrow> parts \<times> added" where
  "receive_frame C vh m ps = (case parse_frame (snd m) of None \<Rightarrow> (ps, Partial) | Some p \<Rightarrow> add_frame C vh (fst m) p ps)"

definition frames_held :: "nat \<Rightarrow> string \<Rightarrow> nat \<Rightarrow> parts \<Rightarrow> (nat \<times> bytes) list option" where
  "frames_held t ident n ps = (case map_of ps ident of None \<Rightarrow> Some []
     | Some m \<Rightarrow> if pt_total m = n \<and> pt_type m = t then Some (pt_got m) else None)"

definition frame_index :: "string \<Rightarrow> int \<times> bytes \<Rightarrow> nat option" where
  "frame_index ident m = (case parse_frame (snd m) of None \<Rightarrow> None | Some p \<Rightarrow> if fr_id p = ident then Some (fr_index p) else None)"

definition frame_fits :: "nat \<Rightarrow> string \<Rightarrow> nat \<Rightarrow> (nat \<Rightarrow> bytes) \<Rightarrow> int \<times> bytes \<Rightarrow> bool" where
  "frame_fits t ident n piece m \<longleftrightarrow>
     (case parse_frame (snd m) of None \<Rightarrow> True | Some p \<Rightarrow> fr_id p = ident \<longrightarrow> fr_index p < n \<and> p = the_frame t ident n piece (fr_index p))"

definition frames_whole :: "crypto \<Rightarrow> bool \<Rightarrow> nat \<Rightarrow> string \<Rightarrow> nat \<Rightarrow> (nat \<Rightarrow> bytes) \<Rightarrow> added" where
  "frames_whole C vh t ident n piece =
     (let msg = concat (map piece [0..<n]) in if vh \<and> to_hex (messageId C msg) \<noteq> ident then Corrupt t ident else Whole t ident msg)"

lemma frames_other:
  assumes "frame_index ident m = None"
  shows "frames_held t ident n (fst (receive_frame C vh m ps)) = frames_held t ident n ps"
  using assms by (auto simp: frame_index_def receive_frame_def add_frame_def part_of_def Let_def frames_held_def update_conv' delete_conv'
      map_of_append map_add_def split: option.splits if_splits)

lemma frames_add:
  assumes "frame_fits t ident n piece m" "frame_index ident m = Some i" "frames_held t ident n ps = Some got"
  shows "length (AList.update i (piece i) got) < n \<Longrightarrow>
      frames_held t ident n (fst (receive_frame C vh m ps)) = Some (AList.update i (piece i) got) \<and> snd (receive_frame C vh m ps) = Partial"
    and "length (AList.update i (piece i) got) = n \<Longrightarrow> \<forall>j<n. map_of (AList.update i (piece i) got) j = Some (piece j) \<Longrightarrow>
      frames_held t ident n (fst (receive_frame C vh m ps)) = Some [] \<and> snd (receive_frame C vh m ps) = frames_whole C vh t ident n piece"
proof -
  obtain p where p: "parse_frame (snd m) = Some p" "fr_id p = ident" "fr_index p = i" "p = the_frame t ident n piece i"
    using assms(1,2) by (auto simp: frame_fits_def frame_index_def split: option.splits if_splits)
  define q where "q = part_of (fst m) ps p"
  have q: "pt_total q = n" "pt_type q = t" "pt_got q = got"
    using assms(3) p by (auto simp: q_def part_of_def frames_held_def the_frame_def split: option.splits if_splits)
  let ?u = "AList.update i (piece i) got"
  have r: "receive_frame C vh m ps =
      (let ps1 = (if map_of ps ident = None then ps @ [(ident, q)] else ps); m1 = q\<lparr>pt_got := ?u, pt_last := fst m\<rparr> in
       if length ?u < n then (AList.update ident m1 ps1, Partial) else (AList.delete ident ps1, whole_message C vh ident m1))"
  proof -
    have "receive_frame C vh m ps = add_frame C vh (fst m) p ps" using p(1) by (simp add: receive_frame_def)
    moreover have "fr_total p = n" "fr_type p = t" "fr_data p = piece i" by (simp_all add: p(4) the_frame_def)
    ultimately show ?thesis unfolding add_frame_def q_def [symmetric] Let_def using p(2,3) q by simp
  qed
  show "length ?u < n \<Longrightarrow> frames_held t ident n (fst (receive_frame C vh m ps)) = Some ?u \<and> snd (receive_frame C vh m ps) = Partial"
    by (simp add: r Let_def frames_held_def update_conv' q)
  assume l: "length ?u = n" and all: "\<forall>j<n. map_of ?u j = Some (piece j)"
  have all_map: "map (\<lambda>j. case map_of ?u j of Some d \<Rightarrow> d | None \<Rightarrow> []) [0..<n] = map piece [0..<n]"
    using all by (intro map_cong) auto
  have "joined (q\<lparr>pt_got := ?u, pt_last := fst m\<rparr>) = concat (map piece [0..<n])"
  proof -
    have "pt_got (q\<lparr>pt_got := ?u, pt_last := fst m\<rparr>) = ?u" "pt_total (q\<lparr>pt_got := ?u, pt_last := fst m\<rparr>) = n" using q(1) by simp_all
    then show ?thesis unfolding joined_def using all_map by (simp only:)
  qed
  then show "frames_held t ident n (fst (receive_frame C vh m ps)) = Some [] \<and> snd (receive_frame C vh m ps) = frames_whole C vh t ident n piece"
    using l by (simp add: r Let_def frames_held_def delete_conv' q whole_message_def frames_whole_def)
qed

interpretation frames: collector "receive_frame C vh" "frames_held t ident n" "frame_index ident" "frame_fits t ident n piece" "{..<n}" piece
  Partial "frames_whole C vh t ident n piece" for C vh t ident n piece
proof unfold_locales
  fix m s i and got :: "(nat \<times> bytes) list"
  show "frame_fits t ident n piece m \<Longrightarrow> frame_index ident m = Some i \<Longrightarrow> i \<in> {..<n}"
    by (auto simp: frame_fits_def frame_index_def split: option.splits if_splits)
qed (auto simp: frames_other frames_add)


text \<open>A message that is split, and what is received of it.\<close>

definition frames_of :: "nat \<Rightarrow> string \<Rightarrow> bytes \<Rightarrow> bytes list \<Rightarrow> (nat \<Rightarrow> bytes) \<Rightarrow> bool" where
  "frames_of t ident msg fs piece \<longleftrightarrow> fs \<noteq> [] \<and> concat (map piece [0..<length fs]) = msg \<and>
     (\<forall>i<length fs. parse_frame (fs ! i) = Some (the_frame t ident (length fs) piece i))"

lemma split_frames_of:
  "split_frames t msg mtu b = Inr fs \<Longrightarrow> t \<in> set frame_types \<Longrightarrow> length b = 8 \<Longrightarrow> \<exists>piece. frames_of t (to_hex b) msg fs piece"
  using split_shape [of t msg mtu b fs] by (auto simp: frames_of_def)

lemma frame_of_index:
  assumes "frames_of t ident msg fs piece" "snd m \<in> set fs"
  shows "\<exists>i<length fs. snd m = fs ! i \<and> frame_index ident m = Some i \<and> frame_fits t ident (length fs) piece m"
proof -
  obtain i where i: "i < length fs" "snd m = fs ! i" using assms(2) by (metis in_set_conv_nth)
  have "parse_frame (snd m) = Some (the_frame t ident (length fs) piece i)" using assms(1) i by (simp add: frames_of_def)
  then show ?thesis using i by (intro exI [of _ i]) (simp add: frame_index_def frame_fits_def the_frame_def)
qed

lemma frame_index_inj: "frames_of t ident msg fs piece \<Longrightarrow> i < length fs \<Longrightarrow> j < length fs \<Longrightarrow> fs ! i = fs ! j \<Longrightarrow> i = j"
  unfolding frames_of_def the_frame_def by (metis option.inject pframe.ext_inject)

text \<open>Traffic in which the frames of a message are its own.\<close>

definition traffic :: "string \<Rightarrow> bytes list \<Rightarrow> (int \<times> bytes) list \<Rightarrow> bool" where
  "traffic ident fs ms \<longleftrightarrow> (\<forall>m\<in>set ms. frame_index ident m = None \<or> snd m \<in> set fs)"

lemma traffic_fits: "frames_of t ident msg fs piece \<Longrightarrow> traffic ident fs ms \<Longrightarrow> \<forall>m\<in>set ms. frame_fits t ident (length fs) piece m"
  using frame_of_index by (fastforce simp: traffic_def frame_index_def frame_fits_def split: option.splits if_splits)

lemma traffic_indexes:
  assumes "frames_of t ident msg fs piece" "traffic ident fs ms"
  shows "frames.indexes ident ms = {i. i < length fs \<and> fs ! i \<in> snd ` set ms}"
proof (intro set_eqI iffI)
  fix i assume "i \<in> frames.indexes ident ms"
  then obtain m where m: "m \<in> set ms" "frame_index ident m = Some i" by (auto simp: frames.indexes_def)
  then have "snd m \<in> set fs" using assms(2) by (auto simp: traffic_def)
  then show "i \<in> {i. i < length fs \<and> fs ! i \<in> snd ` set ms}" using frame_of_index [OF assms(1), of m] m by (metis (mono_tags, lifting) image_eqI mem_Collect_eq option.inject)
next
  fix i assume "i \<in> {i. i < length fs \<and> fs ! i \<in> snd ` set ms}"
  then obtain m where m: "i < length fs" "m \<in> set ms" "fs ! i = snd m" by auto
  then have "snd m \<in> set fs" by (metis nth_mem)
  then obtain j where j: "j < length fs" "snd m = fs ! j" "frame_index ident m = Some j" using frame_of_index [OF assms(1)] by blast
  then show "i \<in> frames.indexes ident ms" using frame_index_inj [OF assms(1) m(1) j(1)] m by (auto simp: frames.indexes_def)
qed

definition receive_frames :: "crypto \<Rightarrow> bool \<Rightarrow> (int \<times> bytes) list \<Rightarrow> parts \<Rightarrow> parts" where
  "receive_frames C vh ms ps = fold (\<lambda>m ps. fst (receive_frame C vh m ps)) ms ps"

lemma incomplete:
  assumes "frames_of t ident msg fs piece" "traffic ident fs ms" "f \<in> set fs" "f \<notin> snd ` set ms"
  shows "frames.indexes ident ms \<subset> {..<length fs}"
proof -
  obtain i where "i < length fs" "f = fs ! i" using assms(3) by (metis in_set_conv_nth)
  then have "i \<in> {..<length fs}" "i \<notin> frames.indexes ident ms" using assms(4) traffic_indexes [OF assms(1,2)] by auto
  then show ?thesis using traffic_indexes [OF assms(1,2)] by blast
qed

lemma frames_collected:
  assumes "frames_of t ident msg fs piece" "traffic ident fs ms" "map_of ps ident = None" "f \<in> set fs" "f \<notin> snd ` set ms"
  shows "frames.collected t ident (length fs) piece (frames.indexes ident ms) (receive_frames C vh ms ps)"
  using frames.not_yet [of t ident "length fs" ps ms piece C vh, OF _ traffic_fits [OF assms(1,2)] incomplete [OF assms(1,2,4,5)]] assms(3)
  by (simp add: receive_frames_def frames_held_def)

lemma frames_pending:
  assumes "frames_of t ident msg fs piece" "traffic ident fs (ms @ [m])" "map_of ps ident = None" "f \<in> set fs" "f \<notin> snd ` set (ms @ [m])"
    "snd m \<in> set fs"
  shows "snd (receive_frame C vh m (receive_frames C vh ms ps)) = Partial"
proof -
  have t: "traffic ident fs ms" "f \<notin> snd ` set ms" using assms(2,5) by (auto simp: traffic_def)
  obtain i where i: "frame_index ident m = Some i" "frame_fits t ident (length fs) piece m" "i < length fs" using frame_of_index [OF assms(1,6)] by blast
  have "insert i (frames.indexes ident ms) = frames.indexes ident (ms @ [m])" using i(1) by (auto simp: frames.indexes_def)
  then have "insert i (frames.indexes ident ms) \<subset> {..<length fs}" using incomplete [OF assms(1,2,4,5)] by simp
  from frames.put_collected [OF frames_collected [OF assms(1) t(1) assms(3,4) t(2)] i(2,1) this] show ?thesis by blast
qed

lemma frames_complete:
  assumes "frames_of t ident msg fs piece" "traffic ident fs ms" "map_of ps ident = None" "snd m \<in> set fs" "snd m \<notin> snd ` set ms"
    "set fs \<subseteq> insert (snd m) (snd ` set ms)"
  shows "snd (receive_frame C vh m (receive_frames C vh ms ps)) = (if vh \<and> to_hex (messageId C msg) \<noteq> ident then Corrupt t ident else Whole t ident msg)"
proof -
  obtain i where i: "i < length fs" "snd m = fs ! i" "frame_index ident m = Some i" "frame_fits t ident (length fs) piece m"
    using frame_of_index [OF assms(1,4)] by blast
  have "insert i (frames.indexes ident ms) = {..<length fs}"
  proof (intro equalityI subsetI)
    fix j assume "j \<in> {..<length fs}"
    then have j: "j < length fs" by simp
    then have "fs ! j = fs ! i \<or> fs ! j \<in> snd ` set ms" using subsetD [OF assms(6) nth_mem [OF j]] i(2) by simp
    then show "j \<in> insert i (frames.indexes ident ms)"
      using frame_index_inj [OF assms(1) j i(1)] j traffic_indexes [OF assms(1,2)] by auto
  qed (use i(1) traffic_indexes [OF assms(1,2)] in auto)
  from frames.put_finishes [OF frames_collected [OF assms(1,2,3,4,5)] i(4,3) this]
  show ?thesis using assms(1) by (simp add: frames_whole_def frames_of_def Let_def)
qed

lemma missing_exactly:
  assumes "frames_of t ident msg fs piece" "traffic ident fs ms" "map_of ps ident = None" "f \<in> set fs" "f \<notin> snd ` set ms"
    "m \<in> set ms" "snd m \<in> set fs"
  shows "missing_frames (receive_frames C vh ms ps) ident = filter (\<lambda>i. fs ! i \<notin> snd ` set ms) [0..<length fs]"
proof -
  obtain got where got: "frames_held t ident (length fs) (receive_frames C vh ms ps) = Some got" "fst ` set got = frames.indexes ident ms"
    using frames_collected [OF assms(1-5), of C vh] unfolding frames.collected_def by blast
  have "frames.indexes ident ms \<noteq> {}" using frame_of_index [OF assms(1,7)] assms(6) by (fastforce simp: frames.indexes_def)
  then have "got \<noteq> []" using got(2) by auto
  then obtain q where "map_of (receive_frames C vh ms ps) ident = Some q" "pt_got q = got" "pt_total q = length fs"
    using got(1) by (auto simp: frames_held_def split: option.splits if_splits)
  then have "missing_frames (receive_frames C vh ms ps) ident = filter (\<lambda>i. i \<notin> frames.indexes ident ms) [0..<length fs]"
    using got(2) by (simp add: missing_frames_def)
  then show ?thesis by (auto simp: traffic_indexes [OF assms(1,2)] intro: filter_cong)
qed

text \<open>Property C29. What \<open>split\<close> cuts, the reassembler (radio/lib/frame.mjs) puts together: whatever the order of the frames, how
  often each comes and what other messages' frames come in between, it hands out nothing of the message before its last missing
  frame is there, says exactly which frames are missing, and with the last one hands out the message.\<close>

theorem frames_reassemble:
  assumes "split_frames t msg mtu (messageId C msg) = Inr fs" "t \<in> set frame_types" "8 \<le> length (sha256 C msg)"
    and "ident = to_hex (messageId C msg)" "map_of ps ident = None" "traffic ident fs ms"
    and "f \<in> set fs" "f \<notin> snd ` set ms" "set fs \<subseteq> insert f (snd ` set ms)"
  shows "snd (receive_frame C True (now, f) (receive_frames C True ms ps)) = Whole t ident msg \<and>
    (\<forall>xs m ys. ms = xs @ m # ys \<and> snd m \<in> set fs \<longrightarrow>
       snd (receive_frame C True m (receive_frames C True xs ps)) = Partial \<and>
       missing_frames (receive_frames C True (xs @ [m]) ps) ident = filter (\<lambda>i. fs ! i \<notin> snd ` set (xs @ [m])) [0..<length fs])"
proof -
  have "length (messageId C msg) = 8" using assms(3) by (simp add: messageId_def)
  then obtain piece where fo: "frames_of t ident msg fs piece" using split_frames_of [OF assms(1,2)] assms(4) by blast
  have "snd (receive_frame C True m (receive_frames C True xs ps)) = Partial \<and>
      missing_frames (receive_frames C True (xs @ [m]) ps) ident = filter (\<lambda>i. fs ! i \<notin> snd ` set (xs @ [m])) [0..<length fs]"
    if ms: "ms = xs @ m # ys" and m: "snd m \<in> set fs" for xs m ys
  proof -
    have t: "traffic ident fs (xs @ [m])" "f \<notin> snd ` set (xs @ [m])" using assms(6,8) ms by (auto simp: traffic_def)
    show ?thesis using frames_pending [OF fo t(1) assms(5,7) t(2) m] missing_exactly [OF fo t(1) assms(5,7) t(2) _ m] by simp
  qed
  then show ?thesis using frames_complete [OF fo assms(6,5), of "(now, f)" C True] assms(4,7-9) by simp
qed

end
