(* ===== verification/RadioDelivery.thy ===== *)
theory RadioDelivery
  imports RadioProps
begin

text \<open>
  A payment over the radio, end to end: a receipt that is signed is read back (radio/lib/payment.mjs), and a payment that
  the sender transmits and the gateway settles ends with its receipt at the sender (radio/lib/gateway.mjs, sender.mjs).
\<close>

section \<open>Receipts are read back\<close>

lemma copy_at_0: "length source \<le> length target \<Longrightarrow> copy_at source 0 target = source @ drop (length source) target"
  by (simp add: copy_at_def)

lemma receipt_body_parts:
  assumes "length (from_hex txid) = 32" "length (from_hex ident) = 8"
  shows "receipt_body txid status time ident = from_hex txid @ [byte_of status] @ be 4 time @ from_hex ident"
  using assms by (simp add: receipt_body_def copy_at_def)

definition sdk_signs :: "sdk \<Rightarrow> string \<Rightarrow> bool" where
  "sdk_signs S key \<longleftrightarrow> length (s_pub S key) = 33 \<and> (\<forall>d. s_verify S (s_pub S key) d (s_sign S key d) \<and> 8 \<le> length (s_sign S key d) \<and> length (s_sign S key d) \<le> 72)"

lemma status_name_byte: "status \<le> 4 \<Longrightarrow> STATUS_NAME (unat (byte_of status)) = STATUS_NAME status"
  by simp

lemma readReceipt_signReceipt:
  assumes "sdk_signs S key" "length x = 32" "length i = 8" "status \<le> 4" "signReceipt C S (to_hex x) status time (to_hex i) key = Inr r"
  shows "readReceipt C S r (to_hex (s_pub S key)) = Some \<lparr>rc_txid = to_hex x, rc_status = STATUS_NAME status, rc_time = time,
    rc_id = to_hex i, rc_gateway = to_hex (s_pub S key)\<rparr> \<and> length r \<le> 150 \<and> r \<noteq> []"
proof -
  define p where "p = s_pub S key"
  define body where "body = x @ [byte_of status] @ be 4 time @ i"
  define sig where "sig = s_sign S key (receipt_digest C (body @ p))"
  have t: "time < 2 ^ 32" and r: "r = body @ p @ sig"
    using assms(2,3,5) receipt_body_parts [of "to_hex x" "to_hex i" status time]
    by (auto simp: signReceipt_def Let_def body_def p_def sig_def split: if_splits)
  have l: "length body = 45" "length p = 33" "8 \<le> length sig" "length sig \<le> 72" "s_verify S p (receipt_digest C (body @ p)) sig"
    using assms(1-3) by (simp_all add: body_def p_def sig_def sdk_signs_def)
  have cuts: "take 45 r = body" "take 33 (drop 45 r) = p" "drop 78 r = sig" using l(1,2) by (simp_all add: r)
  have fields: "take 32 body = x" "body ! 32 = byte_of status" "take 4 (drop 33 body) = be 4 time" "drop 37 body = i"
    using assms(2,3) by (simp_all add: body_def nth_append)
  have "unbe (be 4 time) = time" using t by (simp add: unbe_be)
  then show ?thesis
    unfolding readReceipt_def cuts Let_def fields p_def [symmetric]
    using l assms(4) status_name_byte [OF assms(4)] by (auto simp: r)
qed

section \<open>The gateway collects a payment\<close>

lemma gw_frame_add:
  assumes "parse_frame raw = Some p" "fr_type p = PAY_EF \<or> fr_type p = PAY_BEEF" "map_of (gw_done g) (fr_id p) = None"
    and "receive_frame C True (now, raw) (gw_parts g) = (ps, r)"
  shows "gw_frame C now raw g = (case r of Partial \<Rightarrow> (g\<lparr>gw_parts := ps\<rparr>, [])
    | Corrupt t i \<Rightarrow> (g\<lparr>gw_parts := ps, gw_events := gw_events g @ [EvCorrupt i]\<rparr>, [])
    | Whole t i msg \<Rightarrow> (g\<lparr>gw_parts := ps, gw_settling := gw_settling g @ [(t, i, msg)]\<rparr>, []))"
  using assms by (auto simp: gw_frame_def receive_frame_def split: added.splits)

definition gw_receives :: "crypto \<Rightarrow> (int \<times> bytes) list \<Rightarrow> radio_gateway \<Rightarrow> radio_gateway" where
  "gw_receives C ms g = fold (\<lambda>m g. fst (gw_frame C (fst m) (snd m) g)) ms g"

lemma gw_collects:
  assumes "frames_of t ident msg fs piece" "t = PAY_EF \<or> t = PAY_BEEF" "map_of (gw_done g) ident = None" "map_of (gw_parts g) ident = None"
    and "snd ` set ms \<subset> set fs"
  shows "gw_receives C ms g = g\<lparr>gw_parts := receive_frames C True ms (gw_parts g)\<rparr>"
  using assms(5)
proof (induction ms rule: rev_induct)
  case Nil
  then show ?case by (simp add: gw_receives_def receive_frames_def)
next
  case (snoc m ms)
  have IH: "gw_receives C ms g = g\<lparr>gw_parts := receive_frames C True ms (gw_parts g)\<rparr>" using snoc by auto
  obtain f where f: "f \<in> set fs" "f \<notin> snd ` set (ms @ [m])" using snoc.prems by auto
  have t: "traffic ident fs (ms @ [m])" "snd m \<in> set fs" using snoc.prems by (auto simp: traffic_def)
  obtain i where "i < length fs" "snd m = fs ! i" using t(2) by (metis in_set_conv_nth)
  then have p: "parse_frame (snd m) = Some (the_frame t ident (length fs) piece i)" using assms(1) by (simp add: frames_of_def)
  obtain ps r where r: "receive_frame C True m (receive_frames C True ms (gw_parts g)) = (ps, r)" by fastforce
  have "r = Partial" using frames_pending [OF assms(1) t(1) assms(4) f t(2), of C True] r by simp
  then have "gw_frame C (fst m) (snd m) (gw_receives C ms g) = (g\<lparr>gw_parts := ps\<rparr>, [])"
    using gw_frame_add [OF p _ _, of "gw_receives C ms g" C "fst m" ps r] assms(2,3) r by (simp add: IH the_frame_def)
  then show ?case using r by (simp add: gw_receives_def receive_frames_def)
qed

lemma gw_gets_payment:
  assumes "frames_of t ident msg fs piece" "t = PAY_EF \<or> t = PAY_BEEF" "map_of (gw_done g) ident = None" "map_of (gw_parts g) ident = None"
    and "snd ` set ms \<subset> set fs" "f \<in> set fs" "f \<notin> snd ` set ms" "set fs \<subseteq> insert f (snd ` set ms)" "to_hex (messageId C msg) = ident"
  shows "\<exists>ps. gw_receives C (ms @ [(now, f)]) g = g\<lparr>gw_parts := ps, gw_settling := gw_settling g @ [(t, ident, msg)]\<rparr>"
proof -
  have t: "traffic ident fs ms" using assms(5) by (auto simp: traffic_def)
  obtain i where "i < length fs" "f = fs ! i" using assms(6) by (metis in_set_conv_nth)
  then have p: "parse_frame f = Some (the_frame t ident (length fs) piece i)" using assms(1) by (simp add: frames_of_def)
  obtain ps r where r: "receive_frame C True (now, f) (receive_frames C True ms (gw_parts g)) = (ps, r)" by fastforce
  have "r = Whole t ident msg" using frames_complete [OF assms(1) t assms(4), of "(now, f)" C True] assms(6-9) r by simp
  then show ?thesis
    using gw_frame_add [OF p _ _, of "gw_receives C ms g" C now ps r] assms(2,3) r gw_collects [OF assms(1-5), of C]
    by (auto simp: gw_receives_def the_frame_def)
qed

section \<open>The sender collects the receipt\<close>

definition sd_receives :: "crypto \<Rightarrow> sdk \<Rightarrow> (int \<times> bytes) list \<Rightarrow> sender \<Rightarrow> sender" where
  "sd_receives C S ms s = fold (\<lambda>m s. sender_frame C S (fst m) (snd m) s) ms s"

lemma sender_frame_add:
  assumes "parse_frame (snd m) = Some p" "fr_id p = sd_id s" "receive_frame C False m (sd_parts s) = (ps, r)"
  shows "sender_frame C S (fst m) (snd m) s = (case r of Whole t i msg \<Rightarrow> sender_whole C S t msg (s\<lparr>sd_parts := ps\<rparr>) | _ \<Rightarrow> s\<lparr>sd_parts := ps\<rparr>)"
  using assms by (auto simp: sender_frame_def receive_frame_def split: added.splits)

lemma sender_collects:
  assumes "frames_of t (sd_id s) msg fs piece" "map_of (sd_parts s) (sd_id s) = None" "snd ` set ms \<subset> set fs"
  shows "sd_receives C S ms s = s\<lparr>sd_parts := receive_frames C False ms (sd_parts s)\<rparr>"
  using assms(3)
proof (induction ms rule: rev_induct)
  case Nil
  then show ?case by (simp add: sd_receives_def receive_frames_def)
next
  case (snoc m ms)
  have IH: "sd_receives C S ms s = s\<lparr>sd_parts := receive_frames C False ms (sd_parts s)\<rparr>" using snoc by auto
  obtain f where f: "f \<in> set fs" "f \<notin> snd ` set (ms @ [m])" using snoc.prems by auto
  have t: "traffic (sd_id s) fs (ms @ [m])" "snd m \<in> set fs" using snoc.prems by (auto simp: traffic_def)
  obtain i where "i < length fs" "snd m = fs ! i" using t(2) by (metis in_set_conv_nth)
  then have p: "parse_frame (snd m) = Some (the_frame t (sd_id s) (length fs) piece i)" using assms(1) by (simp add: frames_of_def)
  obtain ps r where r: "receive_frame C False m (receive_frames C False ms (sd_parts s)) = (ps, r)" by fastforce
  have "r = Partial" using frames_pending [OF assms(1) t(1) assms(2) f t(2), of C False] r by simp
  then have "sender_frame C S (fst m) (snd m) (sd_receives C S ms s) = s\<lparr>sd_parts := ps\<rparr>"
    using sender_frame_add [OF p, of "sd_receives C S ms s" C ps r S] r by (simp add: IH the_frame_def)
  then show ?case using r by (simp add: sd_receives_def receive_frames_def)
qed

lemma sender_gets_whole:
  assumes "frames_of t (sd_id s) msg fs piece" "map_of (sd_parts s) (sd_id s) = None"
    and "snd ` set ms \<subset> set fs" "f \<in> set fs" "f \<notin> snd ` set ms" "set fs \<subseteq> insert f (snd ` set ms)"
  shows "\<exists>ps. sd_receives C S (ms @ [(now, f)]) s = sender_whole C S t msg (s\<lparr>sd_parts := ps\<rparr>)"
proof -
  have t: "traffic (sd_id s) fs ms" using assms(3) by (auto simp: traffic_def)
  obtain i where "i < length fs" "f = fs ! i" using assms(4) by (metis in_set_conv_nth)
  then have p: "parse_frame f = Some (the_frame t (sd_id s) (length fs) piece i)" using assms(1) by (simp add: frames_of_def)
  obtain ps r where r: "receive_frame C False (now, f) (receive_frames C False ms (sd_parts s)) = (ps, r)" by fastforce
  have "r = Whole t (sd_id s) msg" using frames_complete [OF assms(1) t assms(2), of "(now, f)" C False] assms(4-6) r by simp
  then show ?thesis
    using sender_frame_add [of "(now, f)", OF _ _, of "the_frame t (sd_id s) (length fs) piece i" "sd_receives C S ms s" C ps r S] p r
      sender_collects [OF assms(1-3), of C S]
    by (auto simp: sd_receives_def the_frame_def)
qed


section \<open>A payment and its receipt\<close>

text \<open>Every frame arrives, in any order and any number of times before the last of them comes for the first time.\<close>

definition burst :: "bytes list \<Rightarrow> (int \<times> bytes) list \<Rightarrow> bool" where
  "burst fs ms \<longleftrightarrow> (\<exists>xs now f. ms = xs @ [(now, f)] \<and> f \<notin> snd ` set xs \<and> snd ` set ms = set fs)"

lemma burst_parts:
  assumes "burst fs ms"
  shows "\<exists>xs now f. ms = xs @ [(now, f)] \<and> snd ` set xs \<subset> set fs \<and> f \<in> set fs \<and> f \<notin> snd ` set xs \<and> set fs \<subseteq> insert f (snd ` set xs)"
proof -
  obtain xs now f where x: "ms = xs @ [(now, f)]" "f \<notin> snd ` set xs" "snd ` set ms = set fs" using assms unfolding burst_def by blast
  then have "insert f (snd ` set xs) = set fs" by simp
  then show ?thesis using x(1,2) by blast
qed

lemma new_sender_frames:
  assumes "new_sender C t msg mtu txid pinned tries = Inr s" "t \<in> set frame_types" "8 \<le> length (sha256 C msg)"
  shows "\<exists>piece. frames_of t (sd_id s) msg (sd_frames s) piece \<and> sd_id s = to_hex (messageId C msg)" "sd_parts s = []" "sd_pub s = pinned"
    "sd_txid s = txid" "sd_tries s = tries" "sd_attempt s = 0" "sd_receipt s = None" "sd_toSend s = [0..<length (sd_frames s)]"
proof -
  obtain fs where fs: "split_frames t msg mtu (messageId C msg) = Inr fs" using assms(1) by (auto simp: new_sender_def rbind_eq_Inr)
  have "length (messageId C msg) = 8" using assms(3) by (simp add: messageId_def)
  from split_frames_of [OF fs assms(2) this] obtain piece where fo: "frames_of t (to_hex (messageId C msg)) msg fs piece" by blast
  obtain f r where f: "fs = f # r" using fo by (cases fs) (auto simp: frames_of_def)
  have "parse_frame f = Some (the_frame t (to_hex (messageId C msg)) (length fs) piece 0)" using fo by (auto simp: frames_of_def f)
  then have s: "s = \<lparr>sd_frames = fs, sd_id = to_hex (messageId C msg), sd_txid = txid, sd_pub = pinned, sd_tries = tries, sd_parts = [], sd_receipt = None,
             sd_resend = None, sd_toSend = [0..<length fs], sd_attempt = 0\<rparr>"
    using assms(1) by (simp add: new_sender_def fs f the_frame_def)
  show "\<exists>piece. frames_of t (sd_id s) msg (sd_frames s) piece \<and> sd_id s = to_hex (messageId C msg)" using fo by (auto simp: s)
  show "sd_parts s = []" "sd_pub s = pinned"
    "sd_txid s = txid" "sd_tries s = tries" "sd_attempt s = 0" "sd_receipt s = None" "sd_toSend s = [0..<length (sd_frames s)]" by (simp_all add: s)
qed

lemma split_small:
  assumes "13 < mtu" "length msg \<le> 150"
  shows "\<exists>fs. split_frames t msg mtu b = Inr fs"
proof -
  define room where "room = nat (mtu - 13)"
  have "0 < room" using assms(1) by (simp add: room_def)
  have "length msg * 1 \<le> length msg * room" using \<open>0 < room\<close> by (intro mult_le_mono2) simp
  then have "length msg + room - 1 < Suc (length msg) * room" using \<open>0 < room\<close> unfolding mult_Suc by linarith
  then have "(length msg + room - 1) div room < Suc (length msg)" using \<open>0 < room\<close> by (simp add: div_less_iff_less_mult)
  then have "frame_count (length msg) room \<le> 150" using assms(2) by (simp add: frame_count_def)
  then show ?thesis using assms(1) by (auto simp: split_frames_def HEADER_def Let_def room_def)
qed

lemma judged_txid: "decodePayment S t msg = Inr tx \<Longrightarrow> judge_payment S t msg = checkOffline S tx \<and> oc_txid (checkOffline S tx) = rt_id tx"
  by (auto simp: judge_payment_def checkOffline_def check_failed_def Let_def split: sum.splits)

lemma status_small: "fst (payment_status c b) \<le> 4"
  by (simp add: payment_status_def REJECTED_def BROADCAST_FAILED_def ACCEPTED_def VALID_NOT_SENT_def)

lemma settled_receipt:
  assumes "sdk_signs S key" "decodePayment S t msg = Inr tx" "rt_id tx = to_hex x" "length x = 32" "length i = 8" "time < 2 ^ 32"
  shows "\<exists>st. settlePayment C S t (to_hex i) msg key time b = Inr st \<and>
    readReceipt C S (st_receipt st) (to_hex (s_pub S key)) = Some \<lparr>rc_txid = to_hex x, rc_status = STATUS_NAME (fst (payment_status (checkOffline S tx) b)),
      rc_time = time, rc_id = to_hex i, rc_gateway = to_hex (s_pub S key)\<rparr> \<and> length (st_receipt st) \<le> 150"
proof -
  obtain status detail where p: "payment_status (checkOffline S tx) b = (status, detail)" by fastforce
  then have "status \<le> 4" using status_small [of "checkOffline S tx" b] by simp
  obtain r where r: "signReceipt C S (to_hex x) status time (to_hex i) key = Inr r" using assms(6) by (simp add: signReceipt_def Let_def)
  from readReceipt_signReceipt [OF assms(1,4,5) \<open>status \<le> 4\<close> r] show ?thesis
    using judged_txid [OF assms(2)] assms(3) r p by (simp add: settlePayment_def Let_def)
qed


end
