(* ===== verification/RadioFaults.thy ===== *)
theory RadioFaults
  imports RadioDelivery
begin

text \<open>One forged frame keeps a sender from ever seeing its receipt (radio/lib/sender.mjs); and the witnesses of the radio properties.\<close>

definition nack_waits :: "sender \<Rightarrow> bool" where
  "nack_waits s \<longleftrightarrow> (\<exists>q. map_of (sd_parts s) (sd_id s) = Some q \<and> pt_type q = NACK) \<and> sd_receipt s = None"

lemma nack_blocks:
  assumes "nack_waits s" "\<And>p. parse_frame raw = Some p \<Longrightarrow> fr_id p = sd_id s \<Longrightarrow> fr_type p \<noteq> NACK"
  shows "nack_waits (sender_frame C S now raw s) \<and> sd_id (sender_frame C S now raw s) = sd_id s"
proof (cases "parse_frame raw")
  case None
  then show ?thesis using assms(1) by (simp add: sender_frame_def)
next
  case (Some p)
  obtain q where q: "map_of (sd_parts s) (sd_id s) = Some q" "pt_type q = NACK" using assms(1) by (auto simp: nack_waits_def)
  show ?thesis
  proof (cases "fr_id p = sd_id s")
    case True
    then have "add_frame C False now p (sd_parts s) = (sd_parts s, Partial)"
      using q assms(2) [OF Some True] by (auto simp: add_frame_def part_of_def Let_def)
    then show ?thesis using Some True assms(1) by (simp add: sender_frame_def nack_waits_def)
  qed (use Some assms(1) in \<open>simp add: sender_frame_def\<close>)
qed

lemma nack_blocks_all:
  assumes "nack_waits s" "\<forall>m\<in>set ms. \<forall>p. parse_frame (snd m) = Some p \<and> fr_id p = sd_id s \<longrightarrow> fr_type p \<noteq> NACK"
  shows "nack_waits (sd_receives C S ms s)"
  using assms
proof (induction ms arbitrary: s)
  case (Cons m ms)
  have "nack_waits (sender_frame C S (fst m) (snd m) s) \<and> sd_id (sender_frame C S (fst m) (snd m) s) = sd_id s"
    using nack_blocks [OF Cons.prems(1)] Cons.prems(2) by auto
  then show ?case using Cons.IH [of "sender_frame C S (fst m) (snd m) s"] Cons.prems(2) by (simp add: sd_receives_def)
qed (simp add: sd_receives_def)

text \<open>Property C33. NACKs are not signed, and the sender's reassembler (radio/lib/sender.mjs, frame.mjs) keeps a half-received one
  for ever under the id its receipt needs: after a single frame of a NACK in several frames (forged, or real with the others lost), the
  sender never accepts a receipt, however often the gateway sends it, complete and signed by the right key.\<close>

theorem nack_fragment_blocks_receipt:
  assumes "parse_frame raw = Some p" "fr_id p = sd_id s" "fr_type p = NACK" "1 < fr_total p"
    and "map_of (sd_parts s) (sd_id s) = None" "sd_receipt s = None"
    and "frames_of RECEIPT (sd_id s) r fs piece" "snd ` set ms \<subseteq> set fs"
  shows "sd_receipt (sd_receives C S ms (sender_frame C S now raw s)) = None"
proof -
  have "nack_waits (sender_frame C S now raw s) \<and> sd_id (sender_frame C S now raw s) = sd_id s"
    using assms(1-6) by (simp add: sender_frame_def add_frame_def part_of_def Let_def nack_waits_def update_conv')
  moreover have "\<forall>m\<in>set ms. \<forall>p. parse_frame (snd m) = Some p \<and> fr_id p = sd_id s \<longrightarrow> fr_type p \<noteq> NACK"
  proof (intro ballI allI impI)
    fix m q assume m: "m \<in> set ms" "parse_frame (snd m) = Some q \<and> fr_id q = sd_id s"
    then obtain i where "i < length fs" "snd m = fs ! i" using assms(8) by (metis image_eqI in_set_conv_nth subsetD)
    then have "parse_frame (snd m) = Some (the_frame RECEIPT (sd_id s) (length fs) piece i)" using assms(7) by (simp add: frames_of_def)
    then show "fr_type q \<noteq> NACK" using m by (simp add: the_frame_def RECEIPT_def NACK_def)
  qed
  ultimately have "nack_waits (sd_receives C S ms (sender_frame C S now raw s))" using nack_blocks_all [of "sender_frame C S now raw s" ms C S] by simp
  then show ?thesis by (simp add: nack_waits_def)
qed

section \<open>Witnesses\<close>

definition toy_sdk :: sdk where
  "toy_sdk = \<lparr>s_ef = (\<lambda>m. Inr \<lparr>rt_id = to_hex (replicate 32 7), rt_inputs = [\<lparr>ri_source = Some (5, [])\<rparr>], rt_outputs = [\<lparr>ro_sats = 3, ro_script = []\<rparr>]\<rparr>),
    s_beef = (\<lambda>m. Inl ''no''), s_validate = (\<lambda>tx i. Inr True), s_pub = (\<lambda>k. replicate 33 2), s_sign = (\<lambda>k d. replicate 8 1), s_verify = (\<lambda>p d s. True)\<rparr>"

lemma toy_sdk_signs: "sdk_signs toy_sdk k"
  by (simp add: sdk_signs_def toy_sdk_def)

lemma toy_digest: "8 \<le> length (sha256 toy m)"
  using toy_hash32 by (simp add: hash32_def)

definition sample_gateway :: radio_gateway where
  "sample_gateway = \<lparr>gw_key = ''k'', gw_mtu = 60, gw_nackAfter = 1500, gw_maxNacks = 5, gw_parts = [], gw_done = [], gw_nacks = [],
    gw_settling = [], gw_events = []\<rparr>"

lemma burst_rev:
  assumes "frames_of t ident msg fs piece"
  shows "burst fs (map (Pair 0) (rev fs))"
proof -
  obtain f r where f: "fs = f # r" using assms by (cases fs) (auto simp: frames_of_def)
  have "f \<notin> set r"
  proof
    assume "f \<in> set r"
    then obtain i where i: "i < length r" "r ! i = f" by (metis in_set_conv_nth)
    then show False using frame_index_inj [OF assms, of 0 "Suc i"] by (simp add: f)
  qed
  then show ?thesis unfolding burst_def f by (intro exI [of _ "map (Pair 0) (rev r)"] exI [of _ 0] exI [of _ f]) (auto simp: image_iff)
qed

lemma frames_reassemble_witness:
  "\<exists>fs. split_frames 1 [1, 2, 3, 4, 5] 15 (messageId toy [1, 2, 3, 4, 5]) = Inr fs \<and> length fs = 3 \<and>
     snd (receive_frame toy True (9, fs ! 0) (receive_frames toy True [(1, fs ! 2), (2, fs ! 1), (3, fs ! 2)] [])) =
       Whole 1 (to_hex (messageId toy [1, 2, 3, 4, 5])) [1, 2, 3, 4, 5]"
proof -
  obtain fs where fs: "split_frames 1 [1, 2, 3, 4, 5] 15 (messageId toy [1, 2, 3, 4, 5]) = Inr fs" "length fs = 3"
    by (simp add: split_frames_def HEADER_def frame_count_def Let_def)
  have mid: "length (messageId toy [1, 2, 3, 4, 5]) = 8" using toy_digest by (simp add: messageId_def)
  have ty: "1 \<in> set frame_types" by (simp add: frame_types_def PAY_EF_def)
  obtain piece where fo: "frames_of 1 (to_hex (messageId toy [1, 2, 3, 4, 5])) [1, 2, 3, 4, 5] fs piece" using split_frames_of [OF fs(1) ty mid] by blast
  have d: "fs ! 0 \<noteq> fs ! 1" "fs ! 0 \<noteq> fs ! 2" using frame_index_inj [OF fo, of 0 1] frame_index_inj [OF fo, of 0 2] fs(2) by auto
  obtain a b c where abc: "fs = [a, b, c]" using fs(2) by (auto simp: length_Suc_conv numeral_3_eq_3)
  let ?ms = "[(1, fs ! 2), (2, fs ! 1), (3, fs ! 2)]"
  have "traffic (to_hex (messageId toy [1, 2, 3, 4, 5])) fs ?ms" by (simp add: traffic_def abc)
  from frames_reassemble [OF fs(1) ty toy_digest refl _ this, of "[]" "fs ! 0" 9] show ?thesis using fs d abc by auto
qed

lemma sample_sender:
  "\<exists>s. new_sender toy 1 [1, 2, 3, 4, 5] 15 (to_hex (replicate 32 7)) (to_hex (s_pub toy_sdk ''k'')) 3 = Inr s"
proof -
  obtain fs where fs: "split_frames 1 [1, 2, 3, 4, 5] 15 (messageId toy [1, 2, 3, 4, 5]) = Inr fs"
    by (simp add: split_frames_def HEADER_def frame_count_def Let_def)
  have mid: "length (messageId toy [1, 2, 3, 4, 5]) = 8" using toy_digest by (simp add: messageId_def)
  have ty: "1 \<in> set frame_types" by (simp add: frame_types_def PAY_EF_def)
  obtain piece where fo: "frames_of 1 (to_hex (messageId toy [1, 2, 3, 4, 5])) [1, 2, 3, 4, 5] fs piece" using split_frames_of [OF fs(1) ty mid] by blast
  obtain f r where f: "fs = f # r" using fo by (cases fs) (auto simp: frames_of_def)
  have "\<exists>p. parse_frame f = Some p" using fo by (auto simp: frames_of_def f)
  then show ?thesis using fs by (auto simp: new_sender_def f)
qed


lemma nack_fragment_blocks_receipt_witness:
  "\<exists>s r fs. new_sender toy 1 [1, 2, 3, 4, 5] 15 (to_hex (replicate 32 7)) (to_hex (s_pub toy_sdk ''k'')) 3 = Inr s \<and>
     split_frames RECEIPT r 60 (messageId toy [1, 2, 3, 4, 5]) = Inr fs \<and> readReceipt toy toy_sdk r (sd_pub s) \<noteq> None \<and>
     sd_receipt (sd_receives toy toy_sdk (map (Pair 0) (fs @ fs)) (sender_frame toy toy_sdk 0 (frame_head NACK (messageId toy [1, 2, 3, 4, 5]) 0 2 @ [1]) s)) = None"
proof -
  obtain s where s: "new_sender toy 1 [1, 2, 3, 4, 5] 15 (to_hex (replicate 32 7)) (to_hex (s_pub toy_sdk ''k'')) 3 = Inr s"
    using sample_sender by blast
  have ty: "1 \<in> set frame_types" "NACK \<in> set frame_types" "RECEIPT \<in> set frame_types" by (simp_all add: frame_types_def PAY_EF_def)
  have mid: "length (messageId toy [1, 2, 3, 4, 5]) = 8" using toy_digest by (simp add: messageId_def)
  note ns = new_sender_frames [OF s ty(1) toy_digest]
  obtain r where r: "signReceipt toy toy_sdk (to_hex (replicate 32 7)) 1 8 (to_hex (messageId toy [1, 2, 3, 4, 5])) ''k'' = Inr r"
    by (simp add: signReceipt_def Let_def)
  have rr: "readReceipt toy toy_sdk r (sd_pub s) \<noteq> None" "length r \<le> 150"
    using readReceipt_signReceipt [OF toy_sdk_signs _ mid _ r] ns(3) by auto
  obtain fs where fs: "split_frames RECEIPT r 60 (messageId toy [1, 2, 3, 4, 5]) = Inr fs" using split_small [of 60 r] rr(2) by auto
  obtain piece where fo: "frames_of RECEIPT (sd_id s) r fs piece" using split_frames_of [OF fs ty(3) mid] ns(1) by auto
  have p: "parse_frame (frame_head NACK (messageId toy [1, 2, 3, 4, 5]) 0 2 @ [1]) = Some (the_frame NACK (sd_id s) 2 (\<lambda>_. [1]) 0)"
    using parse_frame_head [OF ty(2) mid, of 0 2 "[1]"] ns(1) by auto
  have "sd_receipt (sd_receives toy toy_sdk (map (Pair 0) (fs @ fs)) (sender_frame toy toy_sdk 0 (frame_head NACK (messageId toy [1, 2, 3, 4, 5]) 0 2 @ [1]) s)) = None"
    by (rule nack_fragment_blocks_receipt [OF p _ _ _ _ ns(7) fo]) (auto simp: the_frame_def ns(2))
  then show ?thesis using s fs rr(1) by blast
qed

end
