(* ===== verification/FaucetProps.thy ===== *)
theory FaucetProps
  imports Faucet RadioFaults
begin

text \<open>
  What the claims ledger of a faucet (radio/faucet/claims.mjs) keeps true, whatever arrives: no coin is spent
  twice, nobody gets more than the limits allow, and every record is the payment it says it is.
\<close>

section \<open>The invariant\<close>

definition record_true :: "crypto \<Rightarrow> faucet_sdk \<Rightarrow> faucet \<Rightarrow> claim_record \<Rightarrow> bool" where
  "record_true C F f r \<longleftrightarrow> cr_coin r < fa_count f \<and> fk_address_ok F (cr_to r) \<and>
     fk_spend F (coinKey C F (fa_master f) (fa_funding f) (cr_coin r)) (cr_coin r) (cr_to r) = Inr (cr_txid r, cr_sats r) \<and>
     (\<forall>d. cr_who r = ''key:'' @ d \<longrightarrow> (\<exists>sig. fk_verify F d (claimMessage (fa_id f) (cr_to r)) sig))"

definition faucet_ok :: "crypto \<Rightarrow> faucet_sdk \<Rightarrow> faucet \<Rightarrow> bool" where
  "faucet_ok C F f \<longleftrightarrow> distinct (map cr_coin (fa_records f)) \<and> (\<forall>r\<in>set (fa_records f). record_true C F f r) \<and>
     (\<forall>v. claims_by cr_who v f \<le> fa_perSender f) \<and> (\<forall>v. claims_by cr_to v f \<le> fa_perAddress f)"

text \<open>What a claim leaves alone.\<close>

definition same_faucet :: "faucet \<Rightarrow> faucet \<Rightarrow> bool" where
  "same_faucet f g \<longleftrightarrow> f\<lparr>fa_records := []\<rparr> = g\<lparr>fa_records := []\<rparr>"

lemma same_faucet_fields:
  "same_faucet f g \<Longrightarrow> fa_id g = fa_id f \<and> fa_master g = fa_master f \<and> fa_funding g = fa_funding f \<and> fa_count g = fa_count f \<and>
     fa_perSender g = fa_perSender f \<and> fa_perAddress g = fa_perAddress f"
  by (cases f, cases g) (simp add: same_faucet_def)

lemma same_faucet_refl [simp]: "same_faucet f f" by (simp add: same_faucet_def)

lemma next_coin_Some: "next_coin f = Some c \<Longrightarrow> c < fa_count f \<and> c \<notin> cr_coin ` set (fa_records f)"
  by (auto simp: next_coin_def find_Some_iff used_coins_def)

lemma next_coin_None: "next_coin f = None \<longleftrightarrow> {0..<fa_count f} \<subseteq> used_coins f"
  by (auto simp: next_coin_def find_None_iff)

lemma parseClaim_signed:
  assumes "parseClaim F body ident = Some (Claim address device)"
  shows "fk_address_ok F address \<and> (\<forall>d. device = Some d \<longrightarrow> (\<exists>sig. fk_verify F d (claimMessage ident address) sig))"
  using assms by (auto simp: parseClaim_def Let_def split: if_splits)

lemma claims_by_add:
  "claims_by key v (f\<lparr>fa_records := fa_records f @ [r]\<rparr>) = claims_by key v f + (if cr_ok r \<and> key r = v then 1 else 0)"
  by (simp add: claims_by_def)

lemma pay_claim_ok:
  assumes "faucet_ok C F f" "next_coin f = Some c" "claims_by cr_who who f < fa_perSender f" "claims_by cr_to address f < fa_perAddress f"
    and "fk_address_ok F address" "\<And>d. who = ''key:'' @ d \<Longrightarrow> \<exists>sig. fk_verify F d (claimMessage (fa_id f) address) sig"
  shows "faucet_ok C F (fst (pay_claim C S F time b who address c f)) \<and> same_faucet f (fst (pay_claim C S F time b who address c f))"
proof (cases "fk_spend F (coinKey C F (fa_master f) (fa_funding f) c) c address")
  case (Inl e)
  then show ?thesis using assms(1) by (simp add: pay_claim_def)
next
  case (Inr x)
  obtain txid paid where x: "x = (txid, paid)" by (cases x)
  define st where "st = (if \<not> bc_ok b then BROADCAST_FAILED else if bc_sent b then ACCEPTED else VALID_NOT_SENT)"
  define r where "r = \<lparr>cr_coin = c, cr_who = who, cr_to = address, cr_txid = txid, cr_sats = paid, cr_status = STATUS_NAME st,
    cr_ok = bc_ok b, cr_detail = bc_detail b\<rparr>"
  have f: "fst (pay_claim C S F time b who address c f) = f\<lparr>fa_records := fa_records f @ [r]\<rparr>"
    using Inr x by (simp add: pay_claim_def r_def st_def Let_def)
  have true: "record_true C F f r" using Inr x assms(5,6) next_coin_Some [OF assms(2)] by (auto simp: record_true_def r_def)
  have same: "record_true C F (f\<lparr>fa_records := rs\<rparr>) q = record_true C F f q" for rs q by (simp add: record_true_def)
  show ?thesis unfolding f
    using assms(1,3,4) true next_coin_Some [OF assms(2)]
    by (auto simp: faucet_ok_def same claims_by_add same_faucet_def r_def image_iff)
qed

lemma fst_pay_claim:
  "fst (pay_claim C S F time b who address c f) =
     (case fk_spend F (coinKey C F (fa_master f) (fa_funding f) c) c address of
        Inl e \<Rightarrow> f
      | Inr (txid, paid) \<Rightarrow> f\<lparr>fa_records := fa_records f @ [\<lparr>cr_coin = c, cr_who = who, cr_to = address, cr_txid = txid, cr_sats = paid,
          cr_status = STATUS_NAME (if \<not> bc_ok b then BROADCAST_FAILED else if bc_sent b then ACCEPTED else VALID_NOT_SENT),
          cr_ok = bc_ok b, cr_detail = bc_detail b\<rparr>]\<rparr>)"
  by (simp add: pay_claim_def Let_def split: sum.splits prod.splits)

lemma faucet_claim_fst:
  "fst (faucet_claim C S F time b sender body f) =
     (case parseClaim F body (fa_id f) of
        Some (Claim address device) \<Rightarrow> let who = claimant sender device in
          if fa_perSender f \<le> claims_by cr_who who f then f
          else if fa_perAddress f \<le> claims_by cr_to address f then f
          else (case next_coin f of None \<Rightarrow> f | Some c \<Rightarrow> fst (pay_claim C S F time b who address c f))
      | _ \<Rightarrow> f)"
  by (simp add: faucet_claim_def Let_def split: option.splits claim.splits prod.splits)

lemma faucet_claim_ok:
  assumes "faucet_ok C F f"
  shows "faucet_ok C F (fst (faucet_claim C S F time b sender body f)) \<and> same_faucet f (fst (faucet_claim C S F time b sender body f))"
proof (cases "parseClaim F body (fa_id f)")
  case None
  then show ?thesis using assms by (simp add: faucet_claim_def)
next
  case (Some q)
  show ?thesis
  proof (cases q)
    case (BadClaim a why)
    then show ?thesis using Some assms by (simp add: faucet_claim_def)
  next
    case (Claim address device)
    note pq = parseClaim_signed [OF Some [unfolded Claim]]
    have who: "\<exists>sig. fk_verify F d (claimMessage (fa_id f) address) sig" if "claimant sender device = ''key:'' @ d" for d
      using that pq by (auto simp: claimant_def split: option.splits)
    define who where "who = claimant sender device"
    note pay = pay_claim_ok [of C F f _ who address S time b, OF assms _ _ _ conjunct1 [OF pq] who [folded who_def]]
    have "fst (faucet_claim C S F time b sender body f) = (if fa_perSender f \<le> claims_by cr_who who f then f
      else if fa_perAddress f \<le> claims_by cr_to address f then f
      else case next_coin f of None \<Rightarrow> f | Some c \<Rightarrow> fst (pay_claim C S F time b who address c f))"
      unfolding who_def using Some Claim by (simp add: faucet_claim_fst Let_def)
    then show ?thesis using assms pay by (auto split: option.splits)
  qed
qed

section \<open>Any run\<close>

fun run_claims :: "crypto \<Rightarrow> sdk \<Rightarrow> faucet_sdk \<Rightarrow> (nat \<times> broadcast \<times> string \<times> string) list \<Rightarrow> faucet \<Rightarrow> faucet" where
  "run_claims C S F [] f = f"
| "run_claims C S F ((time, b, sender, body) # es) f = run_claims C S F es (fst (faucet_claim C S F time b sender body f))"

lemma same_faucet_trans: "same_faucet f g \<Longrightarrow> same_faucet g h \<Longrightarrow> same_faucet f h"
  by (simp add: same_faucet_def)

lemma run_claims_ok: "faucet_ok C F f \<Longrightarrow> faucet_ok C F (run_claims C S F es f) \<and> same_faucet f (run_claims C S F es f)"
proof (induction es arbitrary: f)
  case (Cons e es)
  obtain time b sender body where e: "e = (time, b, sender, body)" by (metis prod_cases4)
  note step = faucet_claim_ok [OF Cons.prems, of S time b sender body]
  show ?case using Cons.IH [OF conjunct1 [OF step]] step same_faucet_trans by (auto simp: e)
qed simp

text \<open>Restarting from the ledger file gives the state back.\<close>

lemma restart_same:
  assumes "faucetClaims C F master funding cid coins perSender perAddress [] = Inr f" "same_faucet f g"
  shows "faucetClaims C F master funding cid coins perSender perAddress (fa_records g) = Inr g"
  using assms same_faucet_fields [OF assms(2)] by (cases f, cases g) (auto simp: faucetClaims_def Let_def same_faucet_def split: if_splits)



definition toy_faucet_sdk :: faucet_sdk where
  "toy_faucet_sdk = \<lparr>fk_master_pub = utf8, fk_master_raw = utf8, fk_from_hex = (\<lambda>h. h), fk_address_ok = (\<lambda>a. a \<noteq> ''bad''),
    fk_verify = (\<lambda>d m s. True), fk_spend = (\<lambda>k c a. Inr (''tx'', 5))\<rparr>"

definition sample_faucet :: faucet where
  "sample_faucet = \<lparr>fa_id = faucetId toy toy_faucet_sdk ''m'' ''f'', fa_master = ''m'', fa_funding = ''f'', fa_count = 2, fa_perSender = 1, fa_perAddress = 1,
     fa_records = []\<rparr>"

definition sample_claims :: "(nat \<times> broadcast \<times> string \<times> string) list" where
  "sample_claims = [(1, dryRun, ''s'', ''BSV1 CLAIM a''), (2, dryRun, ''s'', ''BSV1 CLAIM b''), (3, dryRun, ''t'', ''bsv1  claim a''), (4, dryRun, ''t'', ''BSV1 CLAIM bad''),
     (5, dryRun, ''t'', ''BSV1 CLAIM c''), (6, dryRun, ''u'', ''BSV1 CLAIM d'')]"

lemma sample_parses:
  "parseClaim toy_faucet_sdk ''BSV1 CLAIM a'' i = Some (Claim ''a'' None)" "parseClaim toy_faucet_sdk ''BSV1 CLAIM b'' i = Some (Claim ''b'' None)"
  "parseClaim toy_faucet_sdk ''bsv1  claim a'' i = Some (Claim ''a'' None)" "parseClaim toy_faucet_sdk ''BSV1 CLAIM c'' i = Some (Claim ''c'' None)"
  "parseClaim toy_faucet_sdk ''BSV1 CLAIM bad'' i = Some (BadClaim ''bad'' ''that is not a valid address'')"
  "parseClaim toy_faucet_sdk ''BSV1 CLAIM d'' i = Some (Claim ''d'' None)"
  by code_simp+

definition sample_paid :: "nat \<Rightarrow> string \<Rightarrow> string \<Rightarrow> claim_record" where
  "sample_paid c who a = \<lparr>cr_coin = c, cr_who = who, cr_to = a, cr_txid = ''tx'', cr_sats = 5, cr_status = ''VALID_NOT_SENT'', cr_ok = True,
     cr_detail = bc_detail dryRun\<rparr>"

lemma sample_pay:
  "fst (pay_claim C S toy_faucet_sdk time dryRun who a c f) = f\<lparr>fa_records := fa_records f @ [sample_paid c who a]\<rparr>"
proof -
  have "STATUS_NAME VALID_NOT_SENT = ''VALID_NOT_SENT''" by code_simp
  then show ?thesis by (simp add: fst_pay_claim toy_faucet_sdk_def dryRun_def sample_paid_def)
qed

lemma two_coins: "[0..<2] = [0, 1 :: nat]" by (simp add: upt_rec)

lemma sample_next:
  "fa_count f = 2 \<Longrightarrow> next_coin f = (if 0 \<notin> cr_coin ` set (fa_records f) then Some 0 else if 1 \<notin> cr_coin ` set (fa_records f) then Some 1 else None)"
  by (simp add: next_coin_def used_coins_def two_coins)

lemma sample_run:
  "run_claims toy toy_sdk toy_faucet_sdk sample_claims sample_faucet = sample_faucet\<lparr>fa_records := [sample_paid 0 ''from:s'' ''a'', sample_paid 1 ''from:t'' ''c'']\<rparr>"
  by (simp add: sample_claims_def faucet_claim_fst sample_parses sample_pay claims_by_def claimant_def sample_next sample_faucet_def sample_paid_def)


end
