(* ===== verification/Cgr.thy ===== *)
theory Cgr
  imports Prelude "HOL-Library.AList"
begin

text \<open>
  Contact graph routing (ssi/cgr.mjs): the earliest-arrival path over a list of contacts, by Dijkstra's
  algorithm over the time a bundle can be at each node. Times are milliseconds as integers. A JavaScript
  Map is an association list in insertion order, which also fixes how ties are broken.

  What the route promises is stated without the algorithm: a \<open>journey\<close> is any way to carry the bundle that
  keeps to the contacts, waiting as long as it likes at each node; the route is a journey and no other
  arrives earlier.
\<close>

section \<open>The router\<close>

record contact =
  c_from :: string
  c_to :: string
  c_start :: int
  c_end :: int
  rateBps :: nat
  owltMs :: int
  nextFree :: "int option"

text \<open>\<open>Math.ceil((bytes * 8 * 1000) / c.rateBps)\<close>; at rate zero it is \<open>Infinity\<close>, which no contact can hold.\<close>

definition txMs :: "nat \<Rightarrow> contact \<Rightarrow> int option" where
  "txMs len c = (if rateBps c = 0 then None else Some (- (- int (len * 8 * 1000) div int (rateBps c))))"

record search =
  arr :: "(string \<times> int) list"
  via :: "(string \<times> contact) list"
  visited :: "string list"

text \<open>The unfinished node that can be reached earliest; the first of them in the map on a tie.\<close>

fun nearest :: "string list \<Rightarrow> (string \<times> int) list \<Rightarrow> (string \<times> int) option \<Rightarrow> (string \<times> int) option" where
  "nearest fin [] best = best"
| "nearest fin ((n, a) # xs) best =
     nearest fin xs (if n \<notin> set fin \<and> (case best of None \<Rightarrow> True | Some (_, b) \<Rightarrow> a < b) then Some (n, a) else best)"

text \<open>When the bundle leaves over a contact, and when it arrives; \<open>None\<close> where the code moves on to the next contact.\<close>

definition departs :: "string \<Rightarrow> contact \<Rightarrow> int \<Rightarrow> int" where
  "departs node c t = max t (max (c_start c) (if c_from c = node then (case nextFree c of None \<Rightarrow> 0 | Some f \<Rightarrow> f) else 0))"

definition crosses :: "string \<Rightarrow> nat \<Rightarrow> contact \<Rightarrow> int \<Rightarrow> int option" where
  "crosses node len c t =
     (if c_end c \<le> t then None
      else case txMs len c of
          None \<Rightarrow> None
        | Some tx \<Rightarrow> if departs node c t + tx > c_end c then None else Some (departs node c t + tx + owltMs c))"

definition relax :: "string \<Rightarrow> nat \<Rightarrow> string list \<Rightarrow> int \<Rightarrow> contact \<Rightarrow> search \<Rightarrow> search" where
  "relax node len exclude best c s =
     (if c_to c \<in> set (visited s) \<or> c_to c \<in> set exclude then s
      else case crosses node len c best of
          None \<Rightarrow> s
        | Some a \<Rightarrow>
            if (case map_of (arr s) (c_to c) of None \<Rightarrow> True | Some b \<Rightarrow> a < b)
            then s\<lparr>arr := AList.update (c_to c) a (arr s), via := AList.update (c_to c) c (via s)\<rparr>
            else s)"

definition settle_node :: "contact list \<Rightarrow> string \<Rightarrow> nat \<Rightarrow> string list \<Rightarrow> string \<Rightarrow> int \<Rightarrow> search \<Rightarrow> search" where
  "settle_node contacts node len exclude u best s =
     foldl (\<lambda>s c. relax node len exclude best c s) (s\<lparr>visited := u # visited s\<rparr>)
       (filter (\<lambda>c. c_from c = u) contacts)"

datatype routed = NoRoute | Reached search | Unfinished

fun route_loop :: "nat \<Rightarrow> contact list \<Rightarrow> string \<Rightarrow> string \<Rightarrow> nat \<Rightarrow> string list \<Rightarrow> search \<Rightarrow> routed" where
  "route_loop 0 contacts node dst len exclude s = Unfinished"
| "route_loop (Suc fuel) contacts node dst len exclude s =
     (case nearest (visited s) (arr s) None of
        None \<Rightarrow> NoRoute
      | Some (u, best) \<Rightarrow>
          if u = dst then Reached s
          else route_loop fuel contacts node dst len exclude (settle_node contacts node len exclude u best s))"

text \<open>The walk back from the destination over \<open>via\<close>; \<open>via.get\<close> of an absent node throws.\<close>

fun hops_back :: "nat \<Rightarrow> (string \<times> contact) list \<Rightarrow> string \<Rightarrow> string \<Rightarrow> contact list \<Rightarrow> contact list option" where
  "hops_back 0 vs node n hops = None"
| "hops_back (Suc fuel) vs node n hops =
     (if n = node then Some hops
      else case map_of vs n of None \<Rightarrow> None | Some c \<Rightarrow> hops_back fuel vs node (c_from c) (c # hops))"

definition cgr_route :: "contact list \<Rightarrow> string \<Rightarrow> string \<Rightarrow> int \<Rightarrow> nat \<Rightarrow> string list \<Rightarrow> (contact list \<times> int) option res" where
  "cgr_route contacts node dst t len exclude =
     (case route_loop (length contacts + 2) contacts node dst len exclude \<lparr>arr = [(node, t)], via = [], visited = []\<rparr> of
        Unfinished \<Rightarrow> Inl ''does not end''
      | NoRoute \<Rightarrow> Inr None
      | Reached s \<Rightarrow>
          (case (hops_back (length (visited s) + 2) (via s) node dst [], map_of (arr s) dst) of
             (Some hops, Some a) \<Rightarrow> Inr (Some (hops, a))
           | _ \<Rightarrow> Inl ''Cannot read properties of undefined''))"

text \<open>Every way a bundle of this len may travel from a node where it is at time \<open>t\<close>.\<close>

inductive journey :: "contact list \<Rightarrow> string \<Rightarrow> nat \<Rightarrow> string list \<Rightarrow> string \<Rightarrow> int \<Rightarrow> contact list \<Rightarrow> string \<Rightarrow> int \<Rightarrow> bool"
  for contacts node len exclude where
  stay: "journey contacts node len exclude n t [] n t"
| hop: "c \<in> set contacts \<Longrightarrow> c_to c \<notin> set exclude \<Longrightarrow> txMs len c = Some tx \<Longrightarrow>
    t \<le> d \<Longrightarrow> c_start c \<le> d \<Longrightarrow> (c_from c = node \<Longrightarrow> case nextFree c of None \<Rightarrow> True | Some f \<Rightarrow> f \<le> d) \<Longrightarrow>
    d + tx \<le> c_end c \<Longrightarrow> journey contacts node len exclude (c_to c) (d + tx + owltMs c) hs m b \<Longrightarrow>
    journey contacts node len exclude (c_from c) t (c # hs) m b"

definition contacts_ok :: "contact list \<Rightarrow> bool" where
  "contacts_ok contacts \<longleftrightarrow> (\<forall>c\<in>set contacts. 0 \<le> owltMs c)"


section \<open>Journeys\<close>

lemma txMs_pos: "txMs len c = Some tx \<Longrightarrow> 0 < len \<Longrightarrow> 0 < tx"
proof -
  assume tx: "txMs len c = Some tx" and len: "0 < len"
  then have r: "0 < int (rateBps c)" by (auto simp: txMs_def split: if_splits)
  have "- int (len * 8 * 1000) div int (rateBps c) < 0"
    using len by (subst pos_imp_zdiv_neg_iff [OF r]) simp
  then show "0 < tx" using tx by (auto simp: txMs_def split: if_splits)
qed

lemma crosses_journey:
  assumes "crosses node len c t = Some a" "c \<in> set contacts" "c_to c \<notin> set exclude"
  shows "journey contacts node len exclude (c_from c) t [c] (c_to c) a"
proof -
  obtain tx where tx: "txMs len c = Some tx" "departs node c t + tx \<le> c_end c" "a = departs node c t + tx + owltMs c"
    using assms(1) by (auto simp: crosses_def split: if_splits option.splits)
  have there: "journey contacts node len exclude (c_to c) (departs node c t + tx + owltMs c) [] (c_to c) a"
    unfolding tx(3) by (rule journey.stay)
  show ?thesis
    by (rule journey.hop [OF assms(2,3) tx(1) _ _ _ tx(2) there]) (auto simp: departs_def split: option.splits)
qed

text \<open>Leaving as soon as possible is never worse than leaving later.\<close>

lemma crosses_earliest:
  assumes "txMs len c = Some tx" "0 < len" "0 \<le> t" "t \<le> d" "c_start c \<le> d"
    "c_from c = node \<Longrightarrow> case nextFree c of None \<Rightarrow> True | Some f \<Rightarrow> f \<le> d" "d + tx \<le> c_end c" "t' \<le> t" 
  shows "\<exists>a. crosses node len c t' = Some a \<and> a \<le> d + tx + owltMs c"
proof -
  have "departs node c t' \<le> d" using assms by (auto simp: departs_def split: option.splits)
  moreover have "t' < c_end c" using txMs_pos [OF assms(1,2)] assms(4,7,8) by linarith
  ultimately show ?thesis using assms(1,7) by (auto simp: crosses_def)
qed

lemma crosses_later:
  assumes "crosses node len c t = Some a" "0 < len" "0 \<le> owltMs c"
  shows "t \<le> a"
proof -
  obtain tx where "txMs len c = Some tx" "a = departs node c t + tx + owltMs c"
    using assms(1) by (auto simp: crosses_def split: if_splits option.splits)
  moreover have "t \<le> departs node c t" by (simp add: departs_def)
  ultimately show ?thesis using txMs_pos [of len c tx] assms(2,3) by linarith
qed

lemma journey_later:
  "journey contacts node len exclude n t hs m b \<Longrightarrow> contacts_ok contacts \<Longrightarrow> 0 < len \<Longrightarrow> t \<le> b"
proof (induction rule: journey.induct)
  case (hop c tx t d hs m b)
  then show ?case using txMs_pos [OF hop.hyps(3)] by (fastforce simp: contacts_ok_def)
qed simp

lemma journey_trans:
  "journey contacts node len exclude n t hs m b \<Longrightarrow> journey contacts node len exclude m b gs k e \<Longrightarrow>
    journey contacts node len exclude n t (hs @ gs) k e"
  by (induction rule: journey.induct) (auto intro: journey.hop)

section \<open>The search\<close>

lemma nearest_fold:
  "nearest fin xs best = Some (u, a) \<Longrightarrow>
     (best = Some (u, a) \<or> (u, a) \<in> set xs \<and> u \<notin> set fin) \<and>
     (\<forall>n b. (n, b) \<in> set xs \<longrightarrow> n \<notin> set fin \<longrightarrow> a \<le> b) \<and> (\<forall>n b. best = Some (n, b) \<longrightarrow> a \<le> b)"
proof (induction fin xs best rule: nearest.induct)
  case (2 fin n x xs best)
  from "2.IH" [OF "2.prems" [unfolded nearest.simps]] show ?case
    by (auto split: if_splits option.splits)
qed auto

lemma nearest_Some:
  assumes "nearest fin xs None = Some (u, a)"
  shows "(u, a) \<in> set xs" "u \<notin> set fin" "(n, b) \<in> set xs \<Longrightarrow> n \<notin> set fin \<Longrightarrow> a \<le> b"
  using nearest_fold [OF assms] by auto

lemma nearest_None: "nearest fin xs None = None \<Longrightarrow> (n, b) \<in> set xs \<Longrightarrow> n \<in> set fin"
proof -
  have keep: "nearest fin xs (Some p) \<noteq> None" for fin :: "string list" and xs :: "(string \<times> int) list" and p
    by (induction xs arbitrary: p) auto
  show "nearest fin xs None = None \<Longrightarrow> (n, b) \<in> set xs \<Longrightarrow> n \<in> set fin"
    by (induction xs) (auto simp: keep split: if_splits)
qed

text \<open>Every time in the map but the first comes over a contact from a finished node.\<close>

definition backed :: "contact list \<Rightarrow> string \<Rightarrow> nat \<Rightarrow> string list \<Rightarrow> search \<Rightarrow> bool" where
  "backed contacts node len exclude s \<longleftrightarrow>
     (\<forall>n a. map_of (arr s) n = Some a \<longrightarrow> n \<noteq> node \<longrightarrow>
        (\<exists>c b. map_of (via s) n = Some c \<and> c \<in> set contacts \<and> c_to c = n \<and> n \<notin> set exclude \<and>
           c_from c \<in> set (visited s) \<and> map_of (arr s) (c_from c) = Some b \<and> crosses node len c b = Some a))"

definition relaxed :: "contact set \<Rightarrow> string \<Rightarrow> nat \<Rightarrow> string list \<Rightarrow> search \<Rightarrow> bool" where
  "relaxed Q node len exclude s \<longleftrightarrow>
     (\<forall>c\<in>Q. \<forall>b a. c_to c \<notin> set exclude \<longrightarrow> map_of (arr s) (c_from c) = Some b \<longrightarrow> crosses node len c b = Some a \<longrightarrow>
        (\<exists>x. map_of (arr s) (c_to c) = Some x \<and> x \<le> a))"

definition split_at :: "int \<Rightarrow> search \<Rightarrow> bool" where
  "split_at best s \<longleftrightarrow>
     (\<forall>n x. map_of (arr s) n = Some x \<longrightarrow> (if n \<in> set (visited s) then x \<le> best else best \<le> x))"

definition ordered_via :: "string \<Rightarrow> search \<Rightarrow> bool" where
  "ordered_via node s \<longleftrightarrow>
     (\<forall>ys n zs. visited s = ys @ n # zs \<longrightarrow> n \<noteq> node \<longrightarrow> (\<exists>c. map_of (via s) n = Some c \<and> c_from c \<in> set zs))"

definition bounded :: "contact list \<Rightarrow> string \<Rightarrow> int \<Rightarrow> search \<Rightarrow> bool" where
  "bounded contacts node t s \<longleftrightarrow>
     map_of (arr s) node = Some t \<and> distinct (map fst (arr s)) \<and> distinct (visited s) \<and>
     set (visited s) \<subseteq> set (map fst (arr s)) \<and> set (map fst (arr s)) \<subseteq> insert node (c_to ` set contacts)"

lemmas search_defs = backed_def relaxed_def split_at_def ordered_via_def bounded_def

lemma relax_cases:
  obtains "relax node len exclude best c s = s" "c_to c \<in> set (visited s) \<or> c_to c \<in> set exclude"
  | "relax node len exclude best c s = s" "crosses node len c best = None"
  | a b where "relax node len exclude best c s = s" "crosses node len c best = Some a" "map_of (arr s) (c_to c) = Some b" "b \<le> a"
  | a where "c_to c \<notin> set (visited s)" "c_to c \<notin> set exclude" "crosses node len c best = Some a"
      "\<And>b. map_of (arr s) (c_to c) = Some b \<Longrightarrow> a < b"
      "relax node len exclude best c s = s\<lparr>arr := AList.update (c_to c) a (arr s), via := AList.update (c_to c) c (via s)\<rparr>"
proof (cases "c_to c \<in> set (visited s) \<or> c_to c \<in> set exclude")
  case False
  show ?thesis
  proof (cases "crosses node len c best")
    case (Some a)
    show ?thesis
    proof (cases "case map_of (arr s) (c_to c) of None \<Rightarrow> True | Some b \<Rightarrow> a < b")
      case True
      with False Some show ?thesis by (intro that(4)) (auto simp: relax_def)
    next
      case f: False
      then obtain b where b: "map_of (arr s) (c_to c) = Some b" "b \<le> a" by (auto split: option.splits)
      with False Some f show ?thesis by (intro that(3) [OF _ Some b]) (auto simp: relax_def)
    qed
  qed (use False in \<open>auto simp: relax_def intro: that(2)\<close>)
qed (auto simp: relax_def intro: that(1))


definition search_ok :: "contact list \<Rightarrow> string \<Rightarrow> nat \<Rightarrow> string list \<Rightarrow> int \<Rightarrow> contact set \<Rightarrow> int \<Rightarrow> search \<Rightarrow> bool" where
  "search_ok contacts node len exclude t Q best s \<longleftrightarrow>
     backed contacts node len exclude s \<and> relaxed Q node len exclude s \<and> split_at best s \<and>
     ordered_via node s \<and> bounded contacts node t s \<and> Q \<subseteq> {c. c_from c \<in> set (visited s)}"

lemma visited_reached: "bounded contacts node t s \<Longrightarrow> n \<in> set (visited s) \<Longrightarrow> \<exists>x. map_of (arr s) n = Some x"
  by (cases "map_of (arr s) n") (auto simp: bounded_def map_of_eq_None_iff)

lemma relax_ok:
  assumes ok: "search_ok contacts node len exclude t Q best s" and c: "c \<in> set contacts" "c_from c \<in> set (visited s)"
    and best: "map_of (arr s) (c_from c) = Some best" and node: "node \<in> set (visited s)"
    and len: "0 < len" and wf: "contacts_ok contacts"
  shows "search_ok contacts node len exclude t (insert c Q) best (relax node len exclude best c s) \<and>
    visited (relax node len exclude best c s) = visited s \<and>
    map_of (arr (relax node len exclude best c s)) (c_from c) = Some best"
proof -
  have later: "crosses node len c best = Some a \<Longrightarrow> best \<le> a" for a
    using crosses_later [OF _ len] wf c(1) by (auto simp: contacts_ok_def)
  have bd: "bounded contacts node t s" and sp: "split_at best s" and rl: "relaxed Q node len exclude s"
    and bk: "backed contacts node len exclude s" and od: "ordered_via node s" and Q: "Q \<subseteq> {c. c_from c \<in> set (visited s)}"
    using ok by (simp_all add: search_ok_def)
  show ?thesis
  proof (cases rule: relax_cases [where node = node and len = len and exclude = exclude and best = best and c = c and s = s])
    case 1
    have "\<exists>x. map_of (arr s) (c_to c) = Some x \<and> x \<le> a"
      if a: "crosses node len c best = Some a" and "c_to c \<notin> set exclude" for a
    proof -
      have v: "c_to c \<in> set (visited s)" using 1(2) that(2) by blast
      obtain x where x: "map_of (arr s) (c_to c) = Some x" using visited_reached [OF bd v] by blast
      have "x \<le> best" using sp x v by (auto simp: split_at_def)
      with x later [OF a] show ?thesis by force
    qed
    then have "relaxed (insert c Q) node len exclude s" using rl best by (auto simp: relaxed_def)
    then show ?thesis using 1(1) ok best c(2) by (auto simp: search_ok_def)
  next
    case 2
    then have "relaxed (insert c Q) node len exclude s" using rl best by (auto simp: relaxed_def)
    then show ?thesis using 2(1) ok best c(2) by (auto simp: search_ok_def)
  next
    case (3 a b)
    then have "relaxed (insert c Q) node len exclude s" using rl best by (auto simp: relaxed_def)
    then show ?thesis using 3(1) ok best c(2) by (auto simp: search_ok_def)
  next
    case (4 a)
    define s' where "s' = s\<lparr>arr := AList.update (c_to c) a (arr s), via := AList.update (c_to c) c (via s)\<rparr>"
    have arr': "map_of (arr s') n = (if n = c_to c then Some a else map_of (arr s) n)" for n
      by (simp add: s'_def update_conv')
    have via': "map_of (via s') n = (if n = c_to c then Some c else map_of (via s) n)" for n
      by (simp add: s'_def update_conv')
    have vis [simp]: "visited s' = visited s" by (simp add: s'_def)
    have new: "c_to c \<notin> set (visited s)" by (rule 4(1))
    have "backed contacts node len exclude s'"
      unfolding backed_def
    proof (intro allI impI)
      fix n b assume n: "map_of (arr s') n = Some b" "n \<noteq> node"
      show "\<exists>d e. map_of (via s') n = Some d \<and> d \<in> set contacts \<and> c_to d = n \<and> n \<notin> set exclude \<and>
          c_from d \<in> set (visited s') \<and> map_of (arr s') (c_from d) = Some e \<and> crosses node len d e = Some b"
      proof (cases "n = c_to c")
        case True
        then show ?thesis using n 4(2,3) c best new by (auto simp: arr' via')
      next
        case False
        then have "map_of (arr s) n = Some b" using n(1) by (simp add: arr')
        then obtain d e where "map_of (via s) n = Some d" "d \<in> set contacts" "c_to d = n" "n \<notin> set exclude"
          "c_from d \<in> set (visited s)" "map_of (arr s) (c_from d) = Some e" "crosses node len d e = Some b"
          using bk n(2) unfolding backed_def by blast
        then show ?thesis using False new by (auto simp: arr' via')
      qed
    qed
    moreover have "relaxed (insert c Q) node len exclude s'"
      unfolding relaxed_def
    proof (intro ballI allI impI)
      fix d b e assume d: "d \<in> insert c Q" "c_to d \<notin> set exclude" "map_of (arr s') (c_from d) = Some b" "crosses node len d b = Some e"
      have "c_from d \<noteq> c_to c" using d(1) Q c(2) new by auto
      then have b: "map_of (arr s) (c_from d) = Some b" using d(3) by (simp add: arr')
      show "\<exists>x. map_of (arr s') (c_to d) = Some x \<and> x \<le> e"
      proof (cases "d = c")
        case True
        then show ?thesis using b best d(4) 4(3) by (simp add: arr')
      next
        case False
        then have "d \<in> Q" using d(1) by simp
        then obtain x where "map_of (arr s) (c_to d) = Some x" "x \<le> e"
          using rl d(2,4) b unfolding relaxed_def by blast
        then show ?thesis using 4(4) by (fastforce simp: arr')
      qed
    qed
    moreover have "split_at best s'"
      using sp new later [OF 4(3)] by (auto simp: split_at_def arr')
    moreover have "ordered_via node s'"
      unfolding ordered_via_def vis
    proof (intro allI impI)
      fix ys n zs assume n: "visited s = ys @ n # zs" "n \<noteq> node"
      have "n \<noteq> c_to c" using n(1) new by auto
      then show "\<exists>d. map_of (via s') n = Some d \<and> c_from d \<in> set zs"
        using od n unfolding ordered_via_def by (auto simp: via')
    qed
    moreover have "bounded contacts node t s'"
    proof -
      have "c_to c \<noteq> node" using new node by blast
      then have "map_of (arr s') node = Some t" using bd by (simp add: arr' bounded_def)
      moreover have "set (map fst (arr s')) = insert (c_to c) (set (map fst (arr s)))"
        by (simp add: s'_def dom_update)
      moreover have "distinct (map fst (arr s'))" using bd by (simp add: s'_def distinct_update bounded_def)
      ultimately show ?thesis using bd c(1) unfolding bounded_def vis by blast
    qed
    ultimately have "search_ok contacts node len exclude t (insert c Q) best s'"
      using Q c(2) by (auto simp: search_ok_def)
    moreover have "map_of (arr s') (c_from c) = Some best"
      using best c(2) new by (auto simp: arr')
    ultimately show ?thesis using 4(5) vis unfolding s'_def [symmetric] by simp
  qed
qed


lemma relax_all_ok:
  assumes "search_ok contacts node len exclude t Q best s" "set cs \<subseteq> set contacts" "\<forall>c\<in>set cs. c_from c = u"
    "u \<in> set (visited s)" "map_of (arr s) u = Some best" "node \<in> set (visited s)" "0 < len" "contacts_ok contacts"
  shows "search_ok contacts node len exclude t (set cs \<union> Q) best (foldl (\<lambda>s c. relax node len exclude best c s) s cs) \<and>
    visited (foldl (\<lambda>s c. relax node len exclude best c s) s cs) = visited s"
  using assms
proof (induction cs arbitrary: s Q)
  case (Cons c cs)
  have c: "c \<in> set contacts" "c_from c \<in> set (visited s)" "map_of (arr s) (c_from c) = Some best" "c_from c = u"
    using Cons.prems by simp_all
  from relax_ok [OF Cons.prems(1) c(1-3) Cons.prems(6-8)] obtain
    one: "search_ok contacts node len exclude t (insert c Q) best (relax node len exclude best c s)"
    and vis: "visited (relax node len exclude best c s) = visited s"
    and arr: "map_of (arr (relax node len exclude best c s)) u = Some best" using c(4) by auto
  have "search_ok contacts node len exclude t (set cs \<union> insert c Q) best
      (foldl (\<lambda>s c. relax node len exclude best c s) (relax node len exclude best c s) cs) \<and>
    visited (foldl (\<lambda>s c. relax node len exclude best c s) (relax node len exclude best c s) cs) =
      visited (relax node len exclude best c s)"
    by (rule Cons.IH [OF one]) (use Cons.prems vis arr in auto)
  then show ?case using vis by simp
qed simp

definition loop_ok :: "contact list \<Rightarrow> string \<Rightarrow> nat \<Rightarrow> string list \<Rightarrow> int \<Rightarrow> search \<Rightarrow> bool" where
  "loop_ok contacts node len exclude t s \<longleftrightarrow>
     (\<exists>best. search_ok contacts node len exclude t {c \<in> set contacts. c_from c \<in> set (visited s)} best s) \<and>
     (node \<in> set (visited s) \<or> arr s = [(node, t)])"

lemma loop_start: "loop_ok contacts node len exclude t \<lparr>arr = [(node, t)], via = [], visited = []\<rparr>"
  by (auto simp: loop_ok_def search_ok_def search_defs)

lemma settle_ok:
  assumes ok: "loop_ok contacts node len exclude t s" and u: "nearest (visited s) (arr s) None = Some (u, best)"
    and len: "0 < len" and wf: "contacts_ok contacts"
  shows "loop_ok contacts node len exclude t (settle_node contacts node len exclude u best s) \<and>
    visited (settle_node contacts node len exclude u best s) = u # visited s"
proof -
  define Q where "Q = {c \<in> set contacts. c_from c \<in> set (visited s)}"
  define s0 where "s0 = s\<lparr>visited := u # visited s\<rparr>"
  define cs where "cs = filter (\<lambda>c. c_from c = u) contacts"
  obtain b where inv: "search_ok contacts node len exclude t Q b s" using ok by (auto simp: loop_ok_def Q_def)
  then have bd: "bounded contacts node t s" and sp: "split_at b s" and rl: "relaxed Q node len exclude s"
    and bk: "backed contacts node len exclude s" and od: "ordered_via node s" by (simp_all add: search_ok_def)
  note near = nearest_Some [OF u]
  have arr_u: "map_of (arr s) u = Some best" using near(1) bd by (simp add: bounded_def)
  then have le: "b \<le> best" using sp near(2) by (auto simp: split_at_def)
  have via_u: "\<exists>c. map_of (via s) u = Some c \<and> c_from c \<in> set (visited s)" if "u \<noteq> node"
    using bk arr_u that unfolding backed_def by blast
  have "backed contacts node len exclude s0" using bk by (fastforce simp: backed_def s0_def)
  moreover have "relaxed Q node len exclude s0" using rl by (simp add: relaxed_def s0_def)
  moreover have "split_at best s0"
    unfolding split_at_def
  proof (intro allI impI)
    fix n x assume x: "map_of (arr s0) n = Some x"
    then have x': "map_of (arr s) n = Some x" by (simp add: s0_def)
    have "n \<in> set (visited s) \<Longrightarrow> x \<le> b" using sp x' by (auto simp: split_at_def)
    moreover have "n \<notin> set (visited s) \<Longrightarrow> best \<le> x" using near(3) [OF map_of_SomeD [OF x']] .
    ultimately show "if n \<in> set (visited s0) then x \<le> best else best \<le> x"
      using le arr_u x' by (auto simp: s0_def)
  qed
  moreover have "ordered_via node s0"
    using od via_u by (auto simp: ordered_via_def s0_def Cons_eq_append_conv)
  moreover have "bounded contacts node t s0"
  proof -
    have "u \<in> set (map fst (arr s))" using map_of_SomeD [OF arr_u] by force
    then show ?thesis using bd near(2) unfolding bounded_def s0_def by simp
  qed
  ultimately have "search_ok contacts node len exclude t Q best s0"
    unfolding search_ok_def by (auto simp: Q_def s0_def)
  moreover have node: "node \<in> set (visited s0)"
    using ok near(1) by (auto simp: loop_ok_def s0_def)
  ultimately have "search_ok contacts node len exclude t Q best s0" "node \<in> set (visited s0)" by blast+
  moreover have "set cs \<subseteq> set contacts" "\<forall>c\<in>set cs. c_from c = u" by (auto simp: cs_def)
  moreover have "u \<in> set (visited s0)" "map_of (arr s0) u = Some best" using arr_u by (simp_all add: s0_def)
  ultimately have "search_ok contacts node len exclude t (set cs \<union> Q) best (foldl (\<lambda>s c. relax node len exclude best c s) s0 cs) \<and>
      visited (foldl (\<lambda>s c. relax node len exclude best c s) s0 cs) = visited s0"
    by (intro relax_all_ok len wf)
  moreover have "foldl (\<lambda>s c. relax node len exclude best c s) s0 cs = settle_node contacts node len exclude u best s"
    by (simp add: settle_node_def s0_def cs_def)
  moreover have "set cs \<union> Q = {c \<in> set contacts. c_from c \<in> set (visited s0)}" by (auto simp: cs_def Q_def s0_def)
  ultimately show ?thesis using node by (auto simp: loop_ok_def s0_def)
qed

text \<open>Each round visits a new node, and only the ends of contacts are visited: the fuel of \<open>cgr_route\<close> is enough.\<close>

lemma visited_length:
  assumes "bounded contacts node t s" shows "length (visited s) \<le> length contacts + 1"
proof -
  have "length (visited s) = card (set (visited s))" using assms by (simp add: bounded_def distinct_card)
  also have "\<dots> \<le> card (insert node (c_to ` set contacts))"
  proof (rule card_mono)
    show "set (visited s) \<subseteq> insert node (c_to ` set contacts)"
      using assms unfolding bounded_def by blast
  qed simp
  also have "\<dots> \<le> Suc (card (c_to ` set contacts))" by (rule card_insert_le_m1) simp_all
  also have "card (c_to ` set contacts) \<le> length contacts"
    by (rule order_trans [OF card_image_le card_length]) simp
  finally show ?thesis by simp
qed

lemma loop_ends:
  "loop_ok contacts node len exclude t s \<Longrightarrow> 0 < len \<Longrightarrow> contacts_ok contacts \<Longrightarrow> length contacts + 1 < fuel + length (visited s) \<Longrightarrow>
    route_loop fuel contacts node dst len exclude s \<noteq> Unfinished"
proof (induction fuel arbitrary: s)
  case 0
  then obtain b where "bounded contacts node t s" by (auto simp: loop_ok_def search_ok_def)
  from visited_length [OF this] 0 show ?case by simp
next
  case (Suc fuel)
  show ?case
  proof (cases "nearest (visited s) (arr s) None")
    case (Some p)
    obtain u best where u: "nearest (visited s) (arr s) None = Some (u, best)" using Some by (cases p) simp
    from settle_ok [OF Suc.prems(1) u Suc.prems(2,3)] have
      "loop_ok contacts node len exclude t (settle_node contacts node len exclude u best s)"
      "visited (settle_node contacts node len exclude u best s) = u # visited s" by simp_all
    then show ?thesis using Suc.IH [OF _ Suc.prems(2,3)] Suc.prems(4) u by simp
  qed simp
qed

lemma loop_inv:
  "loop_ok contacts node len exclude t s \<Longrightarrow> 0 < len \<Longrightarrow> contacts_ok contacts \<Longrightarrow> dst \<notin> set (visited s) \<Longrightarrow>
    case route_loop fuel contacts node dst len exclude s of
      Unfinished \<Rightarrow> True
    | NoRoute \<Rightarrow> \<exists>e. loop_ok contacts node len exclude t e \<and> dst \<notin> set (visited e) \<and> nearest (visited e) (arr e) None = None
    | Reached e \<Rightarrow> loop_ok contacts node len exclude t e \<and> (\<exists>best. nearest (visited e) (arr e) None = Some (dst, best))"
proof (induction fuel arbitrary: s)
  case (Suc fuel)
  show ?case
  proof (cases "nearest (visited s) (arr s) None")
    case None
    then show ?thesis using Suc.prems by auto
  next
    case (Some p)
    obtain u best where u: "nearest (visited s) (arr s) None = Some (u, best)" using Some by (cases p) simp
    from settle_ok [OF Suc.prems(1) u Suc.prems(2,3)] have
      "loop_ok contacts node len exclude t (settle_node contacts node len exclude u best s)"
      "visited (settle_node contacts node len exclude u best s) = u # visited s" by simp_all
    then show ?thesis using Suc.IH [OF _ Suc.prems(2,3)] Suc.prems u by auto
  qed
qed simp


section \<open>What the route promises\<close>

lemma journey_lower:
  assumes inv: "search_ok contacts node len exclude t {c \<in> set contacts. c_from c \<in> set (visited s)} best s"
    and len: "0 < len" and wf: "contacts_ok contacts"
  shows "journey contacts node len exclude n t0 hs m b \<Longrightarrow> 0 \<le> t0 \<Longrightarrow> map_of (arr s) n = Some x \<Longrightarrow> x \<le> t0 \<Longrightarrow>
    m \<in> set (visited s) \<or> (\<exists>k y. k \<notin> set (visited s) \<and> map_of (arr s) k = Some y \<and> y \<le> b)"
proof (induction arbitrary: x rule: journey.induct)
  case (stay n t)
  then show ?case by blast
next
  case (hop c tx t0 d hs m b)
  have "journey contacts node len exclude (c_from c) t0 (c # hs) m b"
    by (rule journey.hop [OF hop.hyps])
  then have t0b: "t0 \<le> b" using journey_later [OF _ wf len] by blast
  show ?case
  proof (cases "c_from c \<in> set (visited s)")
    case False
    then show ?thesis using hop.prems(2,3) t0b by force
  next
    case True
    obtain a where a: "crosses node len c x = Some a" "a \<le> d + tx + owltMs c"
      using crosses_earliest [OF hop.hyps(3) len hop.prems(1) hop.hyps(4-7) hop.prems(3)] by blast
    then obtain y where y: "map_of (arr s) (c_to c) = Some y" "y \<le> d + tx + owltMs c"
      using inv True hop.hyps(1,2) hop.prems(2) unfolding search_ok_def relaxed_def by force
    have "0 \<le> d + tx + owltMs c"
      using hop.prems(1) hop.hyps(1,4) txMs_pos [OF hop.hyps(3) len] wf by (force simp: contacts_ok_def)
    from hop.IH [OF this y] show ?thesis .
  qed
qed

lemma walk_back:
  assumes bk: "backed contacts node len exclude s" and od: "ordered_via node s" and bd: "bounded contacts node t s"
  shows "visited s = ys @ zs \<Longrightarrow> n \<in> set zs \<Longrightarrow> length zs < fuel \<Longrightarrow>
    \<exists>hs a. hops_back fuel (via s) node n acc = Some (hs @ acc) \<and> map_of (arr s) n = Some a \<and>
      journey contacts node len exclude node t hs n a"
proof (induction zs arbitrary: ys n fuel acc)
  case (Cons z zs)
  show ?case
  proof (cases "n = z \<and> n \<noteq> node")
    case False
    then consider "n = node" | "n \<in> set zs" using Cons.prems(2) by auto
    then show ?thesis
    proof cases
      case 1
      have "hops_back fuel (via s) node node acc = Some ([] @ acc)" using Cons.prems(3) by (cases fuel) simp_all
      moreover have "map_of (arr s) node = Some t" using bd by (simp add: bounded_def)
      ultimately show ?thesis using 1 journey.stay by blast
    next
      case 2
      then show ?thesis using Cons.IH [of "ys @ [z]" n fuel acc] Cons.prems(1,3) by simp
    qed
  next
    case True
    obtain k where k: "fuel = Suc k" using Cons.prems(3) by (cases fuel) simp_all
    obtain c where c: "map_of (via s) n = Some c" "c_from c \<in> set zs"
      using od True Cons.prems(1) unfolding ordered_via_def by blast
    obtain a where a: "map_of (arr s) n = Some a"
      using visited_reached [OF bd, of n] True Cons.prems(1) by auto
    obtain b where b: "c \<in> set contacts" "c_to c = n" "n \<notin> set exclude"
      "map_of (arr s) (c_from c) = Some b" "crosses node len c b = Some a"
      using bk a True c(1) unfolding backed_def by fastforce
    obtain hs where hs: "hops_back k (via s) node (c_from c) (c # acc) = Some (hs @ c # acc)"
      "journey contacts node len exclude node t hs (c_from c) b"
      using Cons.IH [of "ys @ [z]" "c_from c" k "c # acc"] c(2) Cons.prems(1,3) k b(4) by auto
    have "journey contacts node len exclude (c_from c) b [c] n a"
      using crosses_journey [OF b(5,1), of exclude] b(2,3) by simp
    then have "journey contacts node len exclude node t (hs @ [c]) n a" by (rule journey_trans [OF hs(2)])
    then show ?thesis using hs(1) c(1) a True k by (intro exI [of _ "hs @ [c]"] exI [of _ a]) auto
  qed
qed simp

lemma reached_route:
  assumes ok: "loop_ok contacts node len exclude t s" and near: "nearest (visited s) (arr s) None = Some (dst, best)"
  shows "\<exists>hs. hops_back (length (visited s) + 2) (via s) node dst [] = Some hs \<and> map_of (arr s) dst = Some best \<and>
    journey contacts node len exclude node t hs dst best"
proof -
  have bd: "bounded contacts node t s" and bk: "backed contacts node len exclude s" and od: "ordered_via node s"
    using ok by (auto simp: loop_ok_def search_ok_def)
  have a: "map_of (arr s) dst = Some best" using nearest_Some(1) [OF near] bd by (simp add: bounded_def)
  show ?thesis
  proof (cases "dst = node")
    case True
    then have "best = t" using a bd by (simp add: bounded_def)
    then show ?thesis using True a journey.stay by simp
  next
    case False
    obtain c b where c: "map_of (via s) dst = Some c" "c \<in> set contacts" "c_to c = dst" "dst \<notin> set exclude"
      "c_from c \<in> set (visited s)" "map_of (arr s) (c_from c) = Some b" "crosses node len c b = Some best"
      using bk a False unfolding backed_def by blast
    obtain hs where hs: "hops_back (length (visited s) + 1) (via s) node (c_from c) [c] = Some (hs @ [c])"
      "journey contacts node len exclude node t hs (c_from c) b"
      using walk_back [OF bk od bd, of "[]" "visited s" "c_from c" "length (visited s) + 1" "[c]"] c(5,6) by auto
    have "journey contacts node len exclude (c_from c) b [c] dst best"
      using crosses_journey [OF c(7,2), of exclude] c(3,4) by simp
    from journey_trans [OF hs(2) this] hs(1) c(1) a False show ?thesis by simp
  qed
qed

lemma route_earliest:
  assumes len: "0 < len" and t: "0 \<le> t" and wf: "contacts_ok contacts"
  shows "(\<exists>hs a. cgr_route contacts node dst t len exclude = Inr (Some (hs, a)) \<and>
       journey contacts node len exclude node t hs dst a \<and>
       (\<forall>gs b. journey contacts node len exclude node t gs dst b \<longrightarrow> a \<le> b)) \<or>
     cgr_route contacts node dst t len exclude = Inr None \<and>
       (\<forall>gs b. \<not> journey contacts node len exclude node t gs dst b)"
proof -
  define s where "s = \<lparr>arr = [(node, t)], via = [], visited = []\<rparr>"
  let ?out = "route_loop (length contacts + 2) contacts node dst len exclude s"
  have start: "loop_ok contacts node len exclude t s" unfolding s_def by (rule loop_start)
  have ends: "?out \<noteq> Unfinished" by (rule loop_ends [OF start len wf]) (simp add: s_def)
  have inv: "case ?out of
      Unfinished \<Rightarrow> True
    | NoRoute \<Rightarrow> \<exists>e. loop_ok contacts node len exclude t e \<and> dst \<notin> set (visited e) \<and> nearest (visited e) (arr e) None = None
    | Reached e \<Rightarrow> loop_ok contacts node len exclude t e \<and> (\<exists>best. nearest (visited e) (arr e) None = Some (dst, best))"
    by (rule loop_inv [OF start len wf]) (simp add: s_def)
  have lower: "dst \<in> set (visited e) \<or> (\<exists>k y. k \<notin> set (visited e) \<and> (k, y) \<in> set (arr e) \<and> y \<le> b)"
    if e: "loop_ok contacts node len exclude t e" and j: "journey contacts node len exclude node t gs dst b" for e gs b
  proof -
    obtain best where so: "search_ok contacts node len exclude t {c \<in> set contacts. c_from c \<in> set (visited e)} best e"
      using e by (auto simp: loop_ok_def)
    then have "map_of (arr e) node = Some t" by (simp add: search_ok_def bounded_def)
    from journey_lower [OF so len wf j t this] show ?thesis by (force dest: map_of_SomeD)
  qed
  show ?thesis
  proof (cases ?out)
    case NoRoute
    then obtain e where e: "loop_ok contacts node len exclude t e" "dst \<notin> set (visited e)"
      "nearest (visited e) (arr e) None = None" using inv by auto
    have "\<not> journey contacts node len exclude node t gs dst b" for gs b
      using lower [OF e(1)] e(2) nearest_None [OF e(3)] by blast
    then show ?thesis using NoRoute by (simp add: cgr_route_def s_def)
  next
    case (Reached e)
    then obtain best where e: "loop_ok contacts node len exclude t e" "nearest (visited e) (arr e) None = Some (dst, best)"
      using inv by auto
    obtain hs where hs: "hops_back (length (visited e) + 2) (via e) node dst [] = Some hs" "map_of (arr e) dst = Some best"
      "journey contacts node len exclude node t hs dst best"
      using reached_route [OF e] by blast
    have "best \<le> b" if j: "journey contacts node len exclude node t gs dst b" for gs b
      using lower [OF e(1) j] nearest_Some(2,3) [OF e(2)] by force
    then show ?thesis using Reached hs by (simp add: cgr_route_def s_def)
  qed (use ends in blast)
qed


text \<open>Property C20. The router (ssi/cgr.mjs) always ends without an exception. When it returns a route, the
  route keeps to the contacts, the serialization of the first hop and the excluded nodes, arrives when it says,
  and no other way of carrying the bundle, however long it waits anywhere, arrives earlier. When it returns
  \<open>null\<close>, no way of carrying the bundle to the destination exists. The bundle is not empty, the start time and
  the light times are not negative.\<close>

theorem route_is_earliest:
  assumes "0 < len" "0 \<le> t" "contacts_ok contacts"
  shows "case cgr_route contacts node dst t len exclude of
      Inl _ \<Rightarrow> False
    | Inr None \<Rightarrow> \<not> (\<exists>gs b. journey contacts node len exclude node t gs dst b)
    | Inr (Some (hs, a)) \<Rightarrow> journey contacts node len exclude node t hs dst a \<and>
        (\<forall>gs b. journey contacts node len exclude node t gs dst b \<longrightarrow> a \<le> b)"
  using route_earliest [OF assms, of node dst exclude] by auto

definition sample_contacts :: "contact list" where
  "sample_contacts =
     [\<lparr>c_from = ''A'', c_to = ''C'', c_start = 0, c_end = 100000, rateBps = 1000, owltMs = 90000, nextFree = None\<rparr>,
      \<lparr>c_from = ''A'', c_to = ''B'', c_start = 500, c_end = 100000, rateBps = 8000, owltMs = 1000, nextFree = Some 700\<rparr>,
      \<lparr>c_from = ''B'', c_to = ''C'', c_start = 0, c_end = 100000, rateBps = 8000, owltMs = 2000, nextFree = None\<rparr>]"

lemma route_is_earliest_witness:
  "cgr_route sample_contacts ''A'' ''C'' 0 1000 [] = Inr (Some ([sample_contacts ! 1, sample_contacts ! 2], 5700)) \<and>
   \<not> (\<exists>gs b. journey sample_contacts ''A'' 1000 [] ''A'' 0 gs ''C'' b \<and> b < 5700)"
proof -
  have r: "cgr_route sample_contacts ''A'' ''C'' 0 1000 [] = Inr (Some ([sample_contacts ! 1, sample_contacts ! 2], 5700))"
    by (simp add: cgr_route_def sample_contacts_def settle_node_def relax_def crosses_def departs_def txMs_def numeral_2_eq_2)
  have "contacts_ok sample_contacts" by (simp add: contacts_ok_def sample_contacts_def)
  from route_is_earliest [OF _ _ this, where len = 1000 and t = 0 and node = "''A''" and dst = "''C''" and exclude = "[]"] show ?thesis using r by (auto simp: not_less)
qed

end
