(* ===== verification/Aap.thy ===== *)
theory Aap
  imports Incremental
begin

text \<open>
  The client of the Application Agent Protocol of \<mu>D3TN (r2/aap.mjs): the frames, the parser over a byte
  stream and the queues that pair each reply with the request it answers. The promises of \<open>register\<close> and
  \<open>send\<close> are numbered by the caller; what happens is recorded as a list of events. The socket is an event.
\<close>

section \<open>Frames\<close>

definition T_ACK :: nat where "T_ACK = 0"
definition T_NACK :: nat where "T_NACK = 1"
definition T_REGISTER :: nat where "T_REGISTER = 2"
definition T_SENDBUNDLE :: nat where "T_SENDBUNDLE = 3"
definition T_RECVBUNDLE :: nat where "T_RECVBUNDLE = 4"
definition T_SENDCONFIRM :: nat where "T_SENDCONFIRM = 5"
definition T_CANCELBUNDLE :: nat where "T_CANCELBUNDLE = 6"
definition T_WELCOME :: nat where "T_WELCOME = 7"
definition T_PING :: nat where "T_PING = 8"

lemmas aap_types = T_ACK_def T_NACK_def T_REGISTER_def T_SENDBUNDLE_def T_RECVBUNDLE_def T_SENDCONFIRM_def
  T_CANCELBUNDLE_def T_WELCOME_def T_PING_def

definition NEED_EID :: "nat list" where "NEED_EID = [T_REGISTER, T_SENDBUNDLE, T_RECVBUNDLE, T_WELCOME]"
definition NEED_PL :: "nat list" where "NEED_PL = [T_SENDBUNDLE, T_RECVBUNDLE]"
definition NEED_BID :: "nat list" where "NEED_BID = [T_SENDCONFIRM, T_CANCELBUNDLE]"

lemmas aap_needs = NEED_EID_def NEED_PL_def NEED_BID_def

text \<open>\<open>writeUInt16BE\<close> throws above 65535. An identifier is text of one byte a character (\<open>"ascii"\<close>).\<close>

definition serialize :: "nat \<Rightarrow> string option \<Rightarrow> bytes option \<Rightarrow> bytes res" where
  "serialize t e payload =
     (if \<exists>s. e = Some s \<and> 65535 < length s then Inl ''The value of \"value\" is out of range''
      else Inr ([byte_of (16 + t mod 16)] @
        (case e of None \<Rightarrow> [] | Some s \<Rightarrow> be 2 (length s) @ utf8 s) @
        (case payload of None \<Rightarrow> [] | Some p \<Rightarrow> be 8 (length p) @ p)))"

text \<open>A field of \<open>k\<close> bytes of length and then as many bytes; \<open>None\<close> while not all of it is there.\<close>

definition sized_field :: "nat \<Rightarrow> bytes \<Rightarrow> (bytes \<times> bytes) option" where
  "sized_field k bs =
     (if length bs < k then None
      else if length bs < k + unbe (take k bs) then None
      else Some (take (unbe (take k bs)) (drop k bs), drop (k + unbe (take k bs)) bs))"

definition plain :: "nat \<Rightarrow> bytes \<Rightarrow> (bytes \<times> bytes) option" where
  "plain k bs = (if length bs < k then None else Some (take k bs, drop k bs))"

definition optional :: "bool \<Rightarrow> (bytes \<Rightarrow> (bytes \<times> bytes) option) \<Rightarrow> bytes \<Rightarrow> (bytes option \<times> bytes) option" where
  "optional b f bs = (if b then map_option (\<lambda>(x, r). (Some x, r)) (f bs) else Some (None, bs))"

text \<open>\<open>toString("ascii")\<close> drops the top bit of each byte.\<close>

definition from_ascii :: "bytes \<Rightarrow> string" where
  "from_ascii bs = utf8_string (map (\<lambda>b. byte_of (unat b mod 128)) bs)"

record aap_frame =
  fr_type :: nat
  fr_eid :: "string option"
  fr_payload :: "bytes option"
  fr_bundle :: "nat option"

definition aap_parse :: "bytes \<Rightarrow> (aap_frame \<times> bytes) option" where
  "aap_parse bs =
     (case bs of [] \<Rightarrow> None
      | b # r \<Rightarrow> let t = unat b mod 16 in
          Option.bind (optional (t \<in> set NEED_EID) (sized_field 2) r) (\<lambda>(e, r1).
          Option.bind (optional (t \<in> set NEED_PL) (sized_field 8) r1) (\<lambda>(p, r2).
          Option.bind (optional (t \<in> set NEED_BID) (plain 8) r2) (\<lambda>(i, r3).
            Some (\<lparr>fr_type = t, fr_eid = map_option from_ascii e, fr_payload = p, fr_bundle = map_option unbe i\<rparr>, r3)))))"

section \<open>The client\<close>

datatype aap_event =
    AapWrite bytes
  | AapWelcome string
  | AapNack
  | AapBundle string bytes
  | AckTo nat
  | ConfirmTo nat nat
  | Rejected nat

record aap_client =
  nodeEid :: "string option"
  ackQ :: "nat list"
  confirmQ :: "nat list"
  aap_log :: "aap_event list"

definition aap_note :: "aap_event list \<Rightarrow> aap_client \<Rightarrow> aap_client" where
  "aap_note es s = s\<lparr>aap_log := aap_log s @ es\<rparr>"

definition aap_dispatch :: "aap_frame \<Rightarrow> aap_client \<Rightarrow> aap_client" where
  "aap_dispatch f s =
     (if fr_type f = T_WELCOME then aap_note [AapWelcome ((case fr_eid f of None \<Rightarrow> [] | Some x \<Rightarrow> x))] (s\<lparr>nodeEid := fr_eid f\<rparr>)
      else if fr_type f = T_ACK then
        (case ackQ s of [] \<Rightarrow> s | r # rs \<Rightarrow> aap_note [AckTo r] (s\<lparr>ackQ := rs\<rparr>))
      else if fr_type f = T_NACK then aap_note [AapNack] s
      else if fr_type f = T_SENDCONFIRM then
        (case confirmQ s of [] \<Rightarrow> s | r # rs \<Rightarrow> aap_note [ConfirmTo r ((case fr_bundle f of None \<Rightarrow> 0 | Some x \<Rightarrow> x))] (s\<lparr>confirmQ := rs\<rparr>))
      else if fr_type f = T_RECVBUNDLE then
        aap_note [AapWrite [byte_of (16 + T_ACK)], AapBundle ((case fr_eid f of None \<Rightarrow> [] | Some x \<Rightarrow> x)) ((case fr_payload f of None \<Rightarrow> [] | Some x \<Rightarrow> x))] s
      else if fr_type f = T_PING then aap_note [AapWrite [byte_of (16 + T_ACK)]] s
      else s)"

definition aap_step :: "aap_client \<Rightarrow> bytes \<Rightarrow> (aap_client \<times> bytes) option" where
  "aap_step s bs = map_option (\<lambda>(f, r). (aap_dispatch f s, r)) (aap_parse bs)"

text \<open>\<open>register\<close> and \<open>send\<close>: the resolver is queued before the frame is built, and an exception there only
  rejects the promise.\<close>

definition aap_request :: "bytes res \<Rightarrow> nat \<Rightarrow> aap_client \<Rightarrow> aap_client" where
  "aap_request w i s = aap_note [case w of Inl _ \<Rightarrow> Rejected i | Inr bs \<Rightarrow> AapWrite bs] s"

definition aap_register :: "nat \<Rightarrow> string \<Rightarrow> aap_client \<Rightarrow> aap_client" where
  "aap_register i agent s = aap_request (serialize T_REGISTER (Some agent) None) i (s\<lparr>ackQ := ackQ s @ [i]\<rparr>)"

definition aap_send :: "nat \<Rightarrow> string \<Rightarrow> bytes \<Rightarrow> aap_client \<Rightarrow> aap_client" where
  "aap_send i dest payload s =
     aap_request (serialize T_SENDBUNDLE (Some dest) (Some payload)) i (s\<lparr>confirmQ := confirmQ s @ [i]\<rparr>)"


section \<open>The stream\<close>

lemma sized_append: "sized_field k bs = Some (x, r) \<Longrightarrow> sized_field k (bs @ y) = Some (x, r @ y)"
  by (auto simp: sized_field_def split: if_splits)

lemma plain_append: "plain k bs = Some (x, r) \<Longrightarrow> plain k (bs @ y) = Some (x, r @ y)"
  by (auto simp: plain_def split: if_splits)

lemma optional_append:
  "optional b f bs = Some (x, r) \<Longrightarrow> (\<And>x r. f bs = Some (x, r) \<Longrightarrow> f (bs @ y) = Some (x, r @ y)) \<Longrightarrow>
    optional b f (bs @ y) = Some (x, r @ y)"
  by (auto simp: optional_def split: if_splits)

lemma sized_shorter: "sized_field k bs = Some (x, r) \<Longrightarrow> length r \<le> length bs"
  by (auto simp: sized_field_def split: if_splits)

lemma plain_shorter: "plain k bs = Some (x, r) \<Longrightarrow> length r \<le> length bs"
  by (auto simp: plain_def split: if_splits)

lemma optional_shorter:
  "optional b f bs = Some (x, r) \<Longrightarrow> (\<And>x r. f bs = Some (x, r) \<Longrightarrow> length r \<le> length bs) \<Longrightarrow> length r \<le> length bs"
  by (auto simp: optional_def split: if_splits)

lemma aap_parse_Some:
  "aap_parse bs = Some (f, r) \<longleftrightarrow>
    (\<exists>b r0 e r1 p r2 i. bs = b # r0 \<and> optional (unat b mod 16 \<in> set NEED_EID) (sized_field 2) r0 = Some (e, r1) \<and>
      optional (unat b mod 16 \<in> set NEED_PL) (sized_field 8) r1 = Some (p, r2) \<and>
      optional (unat b mod 16 \<in> set NEED_BID) (plain 8) r2 = Some (i, r) \<and>
      f = \<lparr>fr_type = unat b mod 16, fr_eid = map_option from_ascii e, fr_payload = p, fr_bundle = map_option unbe i\<rparr>)"
  by (auto simp: aap_parse_def Let_def bind_eq_Some_conv split: list.splits)

lemma aap_parse_append: "aap_parse bs = Some (f, r) \<Longrightarrow> aap_parse (bs @ x) = Some (f, r @ x)"
proof -
  assume "aap_parse bs = Some (f, r)"
  then obtain b r0 e r1 p r2 i where *: "bs = b # r0"
    "optional (unat b mod 16 \<in> set NEED_EID) (sized_field 2) r0 = Some (e, r1)"
    "optional (unat b mod 16 \<in> set NEED_PL) (sized_field 8) r1 = Some (p, r2)"
    "optional (unat b mod 16 \<in> set NEED_BID) (plain 8) r2 = Some (i, r)"
    "f = \<lparr>fr_type = unat b mod 16, fr_eid = map_option from_ascii e, fr_payload = p, fr_bundle = map_option unbe i\<rparr>"
    unfolding aap_parse_Some by blast
  have "bs @ x = b # r0 @ x" using *(1) by simp
  with *(5) optional_append [OF *(2) sized_append, of x] optional_append [OF *(3) sized_append, of x]
    optional_append [OF *(4) plain_append, of x]
  show "aap_parse (bs @ x) = Some (f, r @ x)"
    unfolding aap_parse_Some by blast
qed

lemma aap_parse_shrinks: "aap_parse bs = Some (f, r) \<Longrightarrow> length r < length bs"
  unfolding aap_parse_Some
  by (auto dest!: optional_shorter sized_shorter plain_shorter)

interpretation aap: incremental aap_step "\<lambda>_. True" "\<lambda>_. False"
  by unfold_locales (auto simp: aap_step_def dest: aap_parse_append aap_parse_shrinks)

definition frame_ok :: "aap_frame \<Rightarrow> bool" where
  "frame_ok f \<longleftrightarrow> fr_type f < 16 \<and>
     (case fr_eid f of None \<Rightarrow> fr_type f \<notin> set NEED_EID
      | Some e \<Rightarrow> fr_type f \<in> set NEED_EID \<and> length e < 65536 \<and> (\<forall>c\<in>set e. of_char c < (128 :: nat))) \<and>
     (case fr_payload f of None \<Rightarrow> fr_type f \<notin> set NEED_PL | Some p \<Rightarrow> fr_type f \<in> set NEED_PL \<and> length p < 2 ^ 64) \<and>
     (case fr_bundle f of None \<Rightarrow> fr_type f \<notin> set NEED_BID | Some i \<Rightarrow> fr_type f \<in> set NEED_BID \<and> i < 2 ^ 64)"

text \<open>A frame as the node sends it.\<close>

definition aap_wire :: "aap_frame \<Rightarrow> bytes" where
  "aap_wire f = [byte_of (16 + fr_type f)] @
     (case fr_eid f of None \<Rightarrow> [] | Some e \<Rightarrow> be 2 (length e) @ utf8 e) @
     (case fr_payload f of None \<Rightarrow> [] | Some p \<Rightarrow> be 8 (length p) @ p) @
     (case fr_bundle f of None \<Rightarrow> [] | Some i \<Rightarrow> be 8 i)"

lemma from_ascii_utf8: "\<forall>c\<in>set e. of_char c < (128 :: nat) \<Longrightarrow> from_ascii (utf8 e) = e"
  by (simp add: from_ascii_def utf8_def utf8_string_def comp_def map_idI)

lemma sized_be: "length x < 256 ^ k \<Longrightarrow> sized_field k (be k (length x) @ x @ r) = Some (x, r)"
  by (simp add: sized_field_def unbe_be)

lemma aap_parse_wire:
  assumes "frame_ok f" shows "aap_parse (aap_wire f @ r) = Some (f, r)"
proof -
  have t: "unat (byte_of (16 + fr_type f)) mod 16 = fr_type f"
    using assms by (simp add: frame_ok_def mod_mod_cancel del: of_nat_add)
  have e: "optional (fr_type f \<in> set NEED_EID) (sized_field 2) ((case fr_eid f of None \<Rightarrow> [] | Some e \<Rightarrow> be 2 (length e) @ utf8 e) @ x) =
      Some (map_option utf8 (fr_eid f), x)" for x
    using assms sized_be [of "utf8 (the (fr_eid f))" 2 x] by (auto simp: frame_ok_def optional_def split: option.splits)
  have p: "optional (fr_type f \<in> set NEED_PL) (sized_field 8) ((case fr_payload f of None \<Rightarrow> [] | Some p \<Rightarrow> be 8 (length p) @ p) @ x) =
      Some (fr_payload f, x)" for x
    using assms sized_be [of "the (fr_payload f)" 8 x] by (auto simp: frame_ok_def optional_def split: option.splits)
  have i: "optional (fr_type f \<in> set NEED_BID) (plain 8) ((case fr_bundle f of None \<Rightarrow> [] | Some i \<Rightarrow> be 8 i) @ x) =
      Some (map_option (be 8) (fr_bundle f), x)" for x
    using assms by (auto simp: frame_ok_def optional_def plain_def split: option.splits)
  have "map_option from_ascii (map_option utf8 (fr_eid f)) = fr_eid f"
    using assms from_ascii_utf8 by (auto simp: frame_ok_def split: option.splits)
  moreover have "map_option unbe (map_option (be 8) (fr_bundle f)) = fr_bundle f"
    using assms unbe_be [of "the (fr_bundle f)" 8] by (auto simp: frame_ok_def split: option.splits)
  ultimately show ?thesis
    by (simp add: aap_wire_def aap_parse_def Let_def t e p i del: of_nat_add unat_byte_of)
qed

lemma aap_takes: "\<forall>f\<in>set fs. frame_ok f \<Longrightarrow> takes aap_step s (map aap_wire fs) (foldl (\<lambda>s f. aap_dispatch f s) s fs)"
  by (induction fs arbitrary: s) (auto simp: aap_step_def aap_parse_wire)

text \<open>Property C0. Whatever frames the node sends, and however TCP cuts them into pieces, the client (r2/aap.mjs)
  handles exactly those frames, each once and in order: the state it comes to is that of dispatching the frames.\<close>

theorem aap_stream:
  assumes "\<forall>f\<in>set fs. frame_ok f" "concat pieces = concat (map aap_wire fs)" "pieces \<noteq> []"
  shows "fst (feed_all aap_step (s, []) pieces) = foldl (\<lambda>s f. aap_dispatch f s) s fs"
  by (rule aap.feed_takes [OF TrueI aap_takes [OF assms(1)] _ assms(2,3)]) (simp add: aap_step_def aap_parse_def)

lemma aap_stream_witness:
  "let s = aap_send 8 ''ipn:2.1'' [2] (aap_send 7 ''ipn:2.1'' [1] \<lparr>nodeEid = None, ackQ = [], confirmQ = [], aap_log = []\<rparr>);
       w = be 8 900 @ [21] @ be 8 901 in
    aap_log (fst (feed_all aap_step (s, []) [[21], take 3 w, drop 3 w])) = aap_log s @ [ConfirmTo 7 900, ConfirmTo 8 901]"
proof -
  define s where "s = aap_send 8 ''ipn:2.1'' [2] (aap_send 7 ''ipn:2.1'' [1] \<lparr>nodeEid = None, ackQ = [], confirmQ = [], aap_log = []\<rparr>)"
  let ?f = "\<lambda>i. \<lparr>fr_type = 5, fr_eid = None, fr_payload = None, fr_bundle = Some i\<rparr>"
  let ?w = "be 8 900 @ [21] @ be 8 901"
  have "fst (feed_all aap_step (s, []) [[21], take 3 ?w, drop 3 ?w]) = foldl (\<lambda>s f. aap_dispatch f s) s [?f 900, ?f 901]"
    by (rule aap_stream) (simp_all add: frame_ok_def aap_needs aap_types aap_wire_def)
  moreover have "confirmQ s = [7, 8]" by (simp add: s_def aap_send_def aap_request_def aap_note_def)
  ultimately show ?thesis
    by (simp add: Let_def s_def [symmetric] aap_dispatch_def aap_note_def aap_types)
qed

text \<open>Property C0. A resolver is queued before its frame is built: \<open>send\<close> (r2/aap.mjs) to an identifier longer
  than 65535 bytes rejects its promise but leaves it in the queue, so the confirmation of the next bundle goes
  to it and the promise of that bundle is never resolved.\<close>

theorem long_eid_steals_confirmation:
  assumes "65535 < length bad" "length dest \<le> 65535" "confirmQ s = []" "fr_type f = T_SENDCONFIRM" "fr_bundle f = Some b"
  shows "let s' = aap_dispatch f (aap_send 2 dest payload (aap_send 1 bad other s)) in
    Rejected 1 \<in> set (aap_log s') \<and> last (aap_log s') = ConfirmTo 1 b \<and> confirmQ s' = [2]"
  using assms by (simp add: aap_send_def aap_request_def aap_note_def serialize_def aap_dispatch_def aap_types Let_def)

lemma long_eid_steals_confirmation_witness:
  "let s = \<lparr>nodeEid = None, ackQ = [], confirmQ = [], aap_log = []\<rparr>;
       f = \<lparr>fr_type = 5, fr_eid = None, fr_payload = None, fr_bundle = Some 9\<rparr>;
       s' = aap_dispatch f (aap_send 2 ''ipn:2.1'' [1] (aap_send 1 (replicate 65536 CHR ''x'') [1] s)) in
    Rejected 1 \<in> set (aap_log s') \<and> last (aap_log s') = ConfirmTo 1 9 \<and> confirmQ s' = [2]"
  using long_eid_steals_confirmation [of "replicate 65536 CHR ''x''" "''ipn:2.1''"
    "\<lparr>nodeEid = None, ackQ = [], confirmQ = [], aap_log = []\<rparr>"
    "\<lparr>fr_type = 5, fr_eid = None, fr_payload = None, fr_bundle = Some 9\<rparr>" 9 "[1]" "[1]"]
  by (simp add: T_SENDCONFIRM_def)

end
