(* ===== verification/Plans.thy ===== *)
theory Plans
  imports Complex_Main JsDate CustodyBlock
begin

text \<open>
  Contact plans: contact-plans/compile.mjs compiles a plan to the formats of HDTN, ION and Hardy and to the
  simulator's shape; contact-plans/sign.mjs signs one and checks it later.

  A plan that has been read is a record. Its numbers are rationals: the code works in doubles, which carry
  the numbers of a plan (whole or with a few decimals) far inside their precision. \<open>Math.round\<close> rounds halves up.
\<close>

section \<open>Plans\<close>

record plink =
  l_id :: string
  l_from :: int
  l_to :: int
  l_reaches :: "int list"

text \<open>A link is named by a string or given in full.\<close>

datatype plan_link = Named string | Full plink

record pcontact =
  k_link :: string
  up_s :: rat
  down_s :: rat
  k_rate :: "int option"

record pdelay =
  one_way_ms :: rat
  d_rate :: "int option"

record occult =
  oc_link :: string
  oc_down :: rat
  oc_up :: rat

record contact_plan =
  p_name :: string
  p_description :: "string option"
  p_scale :: "rat option"
  p_links :: "plan_link list"
  p_nodes :: "(int \<times> string) list option"
  p_contacts :: "pcontact list"
  p_delays :: "(string \<times> pdelay) list"
  p_occultation :: "occult option"

record normal =
  n_plan :: contact_plan
  n_links :: "plink list"
  n_nodes :: "(int \<times> string) list"
  byId :: "string \<Rightarrow> plink option"

definition full_link :: "nat \<Rightarrow> plan_link \<Rightarrow> plink" where
  "full_link i l = (case l of Named s \<Rightarrow> \<lparr>l_id = s, l_from = int i + 1, l_to = int i + 2, l_reaches = []\<rparr> | Full k \<Rightarrow> k)"

definition full_links :: "plan_link list \<Rightarrow> plink list" where
  "full_links ls = map (\<lambda>(i, l). full_link i l) (enumerate 0 ls)"

definition chain_nodes :: "plink list \<Rightarrow> (int \<times> string) list" where
  "chain_nodes ls = map (\<lambda>n. (n, ''node'' @ show_int n)) (sort (remdups (concat (map (\<lambda>l. [l_from l, l_to l]) ls))))"

text \<open>\<open>new Map(...)\<close>: the last link of an id wins.\<close>

definition link_map :: "plink list \<Rightarrow> string \<Rightarrow> plink option" where
  "link_map ls = map_of (rev (map (\<lambda>l. (l_id l, l)) ls))"

fun check_contacts :: "(string \<Rightarrow> plink option) \<Rightarrow> pcontact list \<Rightarrow> unit res" where
  "check_contacts ids [] = Inr ()"
| "check_contacts ids (c # cs) =
     (if ids (k_link c) = None then Inl ''contact references unknown link''
      else if \<not> down_s c > up_s c then Inl ''contact must end after it starts''
      else check_contacts ids cs)"

definition normalize :: "contact_plan \<Rightarrow> normal res" where
  "normalize p =
     (let ls = full_links (p_links p) in
      rbind (check_contacts (link_map ls) (p_contacts p)) (\<lambda>_.
        if \<exists>l\<in>set ls. map_of (p_delays p) (l_id l) = None then Inl ''no delay for link''
        else Inr \<lparr>n_plan = p, n_links = ls, n_nodes = (case p_nodes p of Some ns \<Rightarrow> ns | None \<Rightarrow> chain_nodes ls),
          byId = link_map ls\<rparr>))"

section \<open>The formats\<close>

definition js_round :: "rat \<Rightarrow> int" where
  "js_round x = \<lfloor>x + 1 / 2\<rfloor>"

definition scale_of :: "bool \<Rightarrow> contact_plan \<Rightarrow> rat" where
  "scale_of scaled p = (if scaled then (case p_scale p of Some k \<Rightarrow> k | None \<Rightarrow> 1) else 1)"

record hdtn_contact =
  h_contact :: nat
  h_source :: int
  h_dest :: int
  h_startTime :: int
  h_endTime :: int
  h_rateBitsPerSec :: int
  h_owlt :: int

definition first_of :: "int option \<Rightarrow> int option \<Rightarrow> int \<Rightarrow> int" where
  "first_of a b d = (case a of Some x \<Rightarrow> x | None \<Rightarrow> (case b of Some y \<Rightarrow> y | None \<Rightarrow> d))"

text \<open>The link and the delay of a contact; in a plan that is normal both are there.\<close>

definition contact_ends :: "normal \<Rightarrow> pcontact \<Rightarrow> (plink \<times> pdelay) option" where
  "contact_ends n c =
     (case (byId n (k_link c), map_of (p_delays (n_plan n)) (k_link c)) of
        (Some l, Some d) \<Rightarrow> Some (l, d)
      | _ \<Rightarrow> None)"

definition light_seconds :: "rat \<Rightarrow> pdelay \<Rightarrow> int" where
  "light_seconds k d = max 0 (js_round (one_way_ms d / 1000 * k))"

definition hdtn_of :: "normal \<Rightarrow> rat \<Rightarrow> nat \<times> pcontact \<Rightarrow> hdtn_contact res" where
  "hdtn_of n k ic =
     (case ic of (i, c) \<Rightarrow> (case contact_ends n c of
        None \<Rightarrow> Inl ''Cannot read properties of undefined''
      | Some (l, d) \<Rightarrow> Inr
          \<lparr>h_contact = i, h_source = l_from l, h_dest = l_to l, h_startTime = js_round (up_s c * k),
           h_endTime = js_round (down_s c * k), h_rateBitsPerSec = first_of (k_rate c) (d_rate d) 100000,
           h_owlt = light_seconds k d\<rparr>))"

definition toHdtn :: "contact_plan \<Rightarrow> bool \<Rightarrow> hdtn_contact list res" where
  "toHdtn p scaled = rbind (normalize p) (\<lambda>n.
     rmapM (hdtn_of n (scale_of scaled p)) (enumerate 0 (p_contacts p)))"

definition words :: "string list \<Rightarrow> string" where
  "words ws = (case ws of [] \<Rightarrow> [] | w # r \<Rightarrow> foldl (\<lambda>a b. a @ '' '' @ b) w r)"

definition lines_of :: "string list \<Rightarrow> string" where
  "lines_of ls = (case ls of [] \<Rightarrow> [] | w # r \<Rightarrow> foldl (\<lambda>a b. a @ [CHR 0x0A] @ b) w r) @ [CHR 0x0A]"

definition ion_line :: "string \<Rightarrow> int \<Rightarrow> int \<Rightarrow> plink \<Rightarrow> int \<Rightarrow> string" where
  "ion_line what s e l v =
     words [''a'', what, ''+'' @ show_int s, ''+'' @ show_int e, show_int (l_from l), show_int (l_to l), show_int v]"

definition ion_of :: "normal \<Rightarrow> rat \<Rightarrow> pcontact \<Rightarrow> string list res" where
  "ion_of n k c =
     (case contact_ends n c of
        None \<Rightarrow> Inl ''Cannot read properties of undefined''
      | Some (l, d) \<Rightarrow>
          let s = js_round (up_s c * k); e = js_round (down_s c * k);
              rateBytes = js_round (of_int (first_of (k_rate c) (d_rate d) 100000) / 8) in
          Inr [ion_line ''contact'' s e l rateBytes, ion_line ''range'' s e l (light_seconds k d)])"

text \<open>\<open>trimEnd\<close> removes the white space at the end.\<close>

definition trim_space :: "char \<Rightarrow> bool" where
  "trim_space c \<longleftrightarrow> c \<in> set [CHR 0x20, CHR 0x09, CHR 0x0A, CHR 0x0B, CHR 0x0C, CHR 0x0D]"

definition trimEnd :: "string \<Rightarrow> string" where
  "trimEnd s = rev (dropWhile trim_space (rev s))"

definition ion_header :: "contact_plan \<Rightarrow> string list" where
  "ion_header p = [''# '' @ p_name p @ '': generated by contact-plans/compile.mjs'',
     trimEnd (''# '' @ (case p_description p of Some d \<Rightarrow> d | None \<Rightarrow> []))]"

definition toIon :: "contact_plan \<Rightarrow> bool \<Rightarrow> string res" where
  "toIon p scaled = rbind (normalize p) (\<lambda>n. rbind (rmapM (ion_of n (scale_of scaled p)) (p_contacts p)) (\<lambda>ls.
     Inr (lines_of (ion_header p @ concat ls))))"

text \<open>The ISO date without its milliseconds, and a bandwidth with its unit.\<close>

definition iso_seconds :: "int \<Rightarrow> rat \<Rightarrow> rat \<Rightarrow> string res" where
  "iso_seconds epochMs k s = rbind (toISOString (epochMs + js_round (s * k) * 1000)) (\<lambda>t.
     Inr (take (length t - 5) t @ ''Z''))"

definition rate_unit :: "int \<Rightarrow> string" where
  "rate_unit b =
     (if b mod 1000000000 = 0 then show_int (b div 1000000000) @ ''G''
      else if b mod 1000000 = 0 then show_int (b div 1000000) @ ''M''
      else if b mod 1000 = 0 then show_int (b div 1000) @ ''K''
      else show_int b)"

definition bandwidth :: "int option \<Rightarrow> string" where
  "bandwidth bw = (case bw of Some b \<Rightarrow> if b = 0 then [] else '' bandwidth '' @ rate_unit b | None \<Rightarrow> [])"

definition hardy_of :: "normal \<Rightarrow> int \<Rightarrow> rat \<Rightarrow> pcontact \<Rightarrow> string list res" where
  "hardy_of n epochMs k c =
     (case contact_ends n c of
        None \<Rightarrow> Inl ''Cannot read properties of undefined''
      | Some (l, d) \<Rightarrow> rmapM (\<lambda>m. rbind (iso_seconds epochMs k (up_s c)) (\<lambda>s. rbind (iso_seconds epochMs k (down_s c)) (\<lambda>e.
          Inr (''ipn:'' @ show_int m @ ''.* via ipn:'' @ show_int (l_to l) @ ''.0 start '' @ s @ '' end '' @ e @
            bandwidth (case k_rate c of Some r \<Rightarrow> Some r | None \<Rightarrow> d_rate d))))) (l_to l # l_reaches l))"

definition toHardy :: "contact_plan \<Rightarrow> int option \<Rightarrow> bool \<Rightarrow> string res" where
  "toHardy p epochMs scaled = rbind (normalize p) (\<lambda>n.
     (case epochMs of
        None \<Rightarrow> Inl ''toHardy needs epochMs (the plan's time zero)''
      | Some t0 \<Rightarrow> rbind (iso_seconds t0 (scale_of scaled p) 0) (\<lambda>z.
          rbind (rmapM (hardy_of n t0 (scale_of scaled p)) (p_contacts p)) (\<lambda>ls.
            Inr (lines_of ((''# '' @ p_name p @ '': generated by contact-plans/compile.mjs, time zero '' @ z) # concat ls))))))"

section \<open>The simulator's plan\<close>

record sim_shape =
  ss_name :: string
  ss_oneWayMs :: "int option"
  ss_linkDelayMs :: "(string \<times> int) list"
  ss_occultation :: "string \<times> int \<times> int"
  ss_staggerMs :: int

definition compressed_delay :: "contact_plan \<Rightarrow> rat \<Rightarrow> plink \<Rightarrow> string \<times> int" where
  "compressed_delay p k l =
     (l_id l, max 1 (js_round ((case map_of (p_delays p) (l_id l) of Some d \<Rightarrow> one_way_ms d | None \<Rightarrow> 0) * k)))"

definition toSimPlan :: "contact_plan \<Rightarrow> int \<Rightarrow> nat option \<Rightarrow> sim_shape res" where
  "toSimPlan p baseStagger bundles = rbind (normalize p) (\<lambda>n.
     (case n_links n of
        [] \<Rightarrow> Inl ''Cannot read properties of undefined''
      | f # _ \<Rightarrow>
          let k = scale_of True p; ds = map (compressed_delay p k) (n_links n) in
          Inr \<lparr>ss_name = p_name p, ss_oneWayMs = map_of (rev ds) (l_id f), ss_linkDelayMs = ds,
            ss_occultation = (case p_occultation p of
                Some oc \<Rightarrow> (oc_link oc, js_round (oc_down oc * 1000 * k), js_round (oc_up oc * 1000 * k))
              | None \<Rightarrow> (''none'', 0, 0)),
            ss_staggerMs = (case (p_occultation p, bundles) of
                (Some oc, Some b) \<Rightarrow> if b = 0 then baseStagger else max baseStagger \<lceil>oc_down oc * 1000 * k * (3 / 2) / of_nat b\<rceil>
              | _ \<Rightarrow> baseStagger)\<rparr>))"

section \<open>Signed plans\<close>

definition fp :: "crypto \<Rightarrow> string \<Rightarrow> string" where
  "fp C t = ''0x'' @ sha256hex C t"

definition planFingerprint :: "crypto \<Rightarrow> jsval \<Rightarrow> string res" where
  "planFingerprint C p = rbind (canonicalize p) (\<lambda>t.
     case t of Some s \<Rightarrow> Inr (fp C s) | None \<Rightarrow> Inl ''The data argument must be of type string'')"

text \<open>The length of a list of a plan as it was read; one that is no array counts as an exception.\<close>

definition array_length :: "jsval \<Rightarrow> jsval res" where
  "array_length v = (case v of VArr vs \<Rightarrow> Inr (VNum (int (length vs))) | _ \<Rightarrow> Inl ''not an array'')"

definition export_prints :: "crypto \<Rightarrow> (string \<times> string option) list \<Rightarrow> (string \<times> jsval) list" where
  "export_prints C es = concat (map (\<lambda>(k, v). case v of Some t \<Rightarrow> [(k, VStr (fp C t))] | None \<Rightarrow> []) es)"

record plan_terms =
  pt_network :: jsval
  pt_version :: jsval
  pt_validFrom :: jsval
  pt_validTo :: jsval
  pt_prev :: jsval

definition plan_content :: "crypto \<Rightarrow> jsval \<Rightarrow> (string \<times> string option) list \<Rightarrow> plan_terms \<Rightarrow> (string \<times> jsval) list res" where
  "plan_content C p es t =
     rbind (planFingerprint C p) (\<lambda>f.
     rbind (array_length (field p ''contacts'')) (\<lambda>cs.
     rbind (array_length (if truthy (field p ''nodes'') then field p ''nodes'' else VArr [])) (\<lambda>ns.
       Inr [(''kind'', VStr ''dtn.contact-plan/1''), (''network'', pt_network t), (''version'', pt_version t),
         (''validFrom'', pt_validFrom t), (''validTo'', pt_validTo t), (''prev'', pt_prev t),
         (''planFingerprint'', VStr f), (''contacts'', cs), (''nodes'', ns), (''exports'', VObj (export_prints C es))])))"

definition signPlan :: "crypto \<Rightarrow> keypair \<Rightarrow> jsval \<Rightarrow> (string \<times> string option) list \<Rightarrow> plan_terms \<Rightarrow> jsval res" where
  "signPlan C kp p es t = rbind (plan_content C p es t) (\<lambda>kvs. signRecord C kp (VObj kvs))"

text \<open>\<open>record.exports?.[k]\<close>; a name that every object inherits finds a value that is no fingerprint.\<close>

definition signed_print :: "jsval \<Rightarrow> string \<Rightarrow> jsval" where
  "signed_print r k =
     (case field r ''exports'' of
        VObj kvs \<Rightarrow> (case map_of kvs k of Some v \<Rightarrow> v | None \<Rightarrow> if k \<in> set inherited_keys then VObj [] else VUndef)
      | _ \<Rightarrow> VUndef)"

definition file_state :: "crypto \<Rightarrow> jsval \<Rightarrow> string \<Rightarrow> string \<Rightarrow> string" where
  "file_state C r k t =
     (if \<not> truthy (signed_print r k) then ''not in the signed record''
      else if strict_eq (VStr (fp C t)) (signed_print r k) then ''matches'' else ''DIFFERS'')"

definition given_files :: "(string \<times> string option) list \<Rightarrow> (string \<times> string) list" where
  "given_files es = concat (map (\<lambda>(k, v). case v of Some t \<Rightarrow> [(k, t)] | None \<Rightarrow> []) es)"

definition signer_problems :: "jsval \<Rightarrow> string option \<Rightarrow> jsval verdict \<Rightarrow> string list" where
  "signer_problems r operator v =
     (case v of
        Refuse reason \<Rightarrow> [reason]
      | Accept _ \<Rightarrow> (case operator of
            Some k \<Rightarrow> if k \<noteq> [] \<and> \<not> strict_eq (field r ''signerPub'') (VStr k) then [''not_signed_by_this_operator''] else []
          | None \<Rightarrow> []))"

record plan_verdict =
  pv_ok :: bool
  pv_problems :: "string list"
  pv_files :: "(string \<times> string) list"

definition verifyPlan :: "crypto \<Rightarrow> jsval \<Rightarrow> string option \<Rightarrow> jsval option \<Rightarrow> (string \<times> string option) list \<Rightarrow> plan_verdict res" where
  "verifyPlan C r operator p es =
     rbind (verifyRecord C r) (\<lambda>v.
     rbind (get_prop r ''kind'') (\<lambda>k.
     rbind (case p of None \<Rightarrow> Inr [] | Some q \<Rightarrow> rbind (planFingerprint C q) (\<lambda>f.
         Inr (if strict_eq (VStr f) (field r ''planFingerprint'') then [] else [''plan_differs_from_signed_plan'']))) (\<lambda>diff.
       let files = map (\<lambda>(k, t). (k, file_state C r k t)) (given_files es);
           problems = signer_problems r operator v @
             (if strict_eq k (VStr ''dtn.contact-plan/1'') then [] else [''not_a_contact_plan_record'']) @ diff @
             concat (map (\<lambda>(k, s). if s = ''DIFFERS'' then [k @ ''_file_differs''] else []) files) in
       Inr \<lparr>pv_ok = (problems = []), pv_problems = problems, pv_files = files\<rparr>)))"

text \<open>The contacts between two nodes in force at a time.\<close>

definition given_links :: "plan_link list \<Rightarrow> plink list" where
  "given_links ls = concat (map (\<lambda>l. case l of Full k \<Rightarrow> [k] | Named _ \<Rightarrow> []) ls)"

definition contactAt :: "contact_plan \<Rightarrow> int \<Rightarrow> int \<Rightarrow> rat \<Rightarrow> pcontact list" where
  "contactAt p a b t = filter (\<lambda>c. case link_map (given_links (p_links p)) (k_link c) of
       Some l \<Rightarrow> l_from l = a \<and> l_to l = b \<and> up_s c \<le> t \<and> t < down_s c
     | None \<Rightarrow> False) (p_contacts p)"

section \<open>The formats agree\<close>

definition ion_of_hdtn :: "hdtn_contact \<Rightarrow> string list" where
  "ion_of_hdtn h =
     (let l = \<lparr>l_id = [], l_from = h_source h, l_to = h_dest h, l_reaches = []\<rparr> in
      [ion_line ''contact'' (h_startTime h) (h_endTime h) l (js_round (of_int (h_rateBitsPerSec h) / 8)),
       ion_line ''range'' (h_startTime h) (h_endTime h) l (h_owlt h)])"

lemma ion_line_ends: "l_from l = l_from m \<Longrightarrow> l_to l = l_to m \<Longrightarrow> ion_line w s e l v = ion_line w s e m v"
  by (simp add: ion_line_def)

lemma hdtn_ion_one: "hdtn_of n k (i, c) = Inr h \<Longrightarrow> ion_of n k c = Inr (ion_of_hdtn h)"
  by (auto simp: hdtn_of_def ion_of_def ion_of_hdtn_def Let_def split: option.splits intro!: ion_line_ends)

lemma hdtn_ion_all:
  "rmapM (hdtn_of n k) (enumerate i cs) = Inr hs \<Longrightarrow> rmapM (ion_of n k) cs = Inr (map ion_of_hdtn hs)"
proof (induction cs arbitrary: i hs)
  case (Cons c cs)
  then obtain h hs' where "hdtn_of n k (i, c) = Inr h" "rmapM (hdtn_of n k) (enumerate (Suc i) cs) = Inr hs'" "hs = h # hs'"
    by auto
  with hdtn_ion_one [OF this(1)] Cons.IH [OF this(2)] show ?case by simp
qed simp

lemma check_contacts_ok:
  "check_contacts ids cs = Inr () \<Longrightarrow> c \<in> set cs \<Longrightarrow> up_s c < down_s c \<and> (\<exists>l. ids (k_link c) = Some l)"
  by (induction cs) (auto split: if_splits)

lemma link_map_in: "link_map ls i = Some l \<Longrightarrow> l \<in> set ls \<and> l_id l = i"
  by (auto simp: link_map_def dest!: map_of_SomeD)

text \<open>In a normal plan every contact has its link and its delay: no compiler throws on it.\<close>

lemma normal_ends:
  assumes "normalize p = Inr n" "c \<in> set (p_contacts p)"
  shows "\<exists>l d. contact_ends n c = Some (l, d)"
proof -
  have n: "n_plan n = p" "byId n = link_map (full_links (p_links p))"
    "check_contacts (link_map (full_links (p_links p))) (p_contacts p) = Inr ()"
    "\<forall>l\<in>set (full_links (p_links p)). map_of (p_delays p) (l_id l) \<noteq> None"
    using assms(1) by (auto simp: normalize_def Let_def split: if_splits)
  obtain l where l: "link_map (full_links (p_links p)) (k_link c) = Some l"
    using check_contacts_ok [OF n(3) assms(2)] by blast
  from link_map_in [OF l] n(4) obtain d where "map_of (p_delays p) (k_link c) = Some d" by fastforce
  with l n show ?thesis by (simp add: contact_ends_def)
qed

lemma js_round_int [simp]: "js_round (of_int n) = n"
  unfolding js_round_def by linarith

lemma rmapM_hdtn:
  assumes "normalize p = Inr n" "set cs \<subseteq> set (p_contacts p)"
  shows "\<exists>hs. rmapM (hdtn_of n k) (enumerate i cs) = Inr hs \<and> length hs = length cs \<and>
    (\<forall>j<length cs. h_startTime (hs ! j) = js_round (up_s (cs ! j) * k) \<and> h_endTime (hs ! j) = js_round (down_s (cs ! j) * k))"
  using assms(2)
proof (induction cs arbitrary: i)
  case (Cons c cs)
  obtain l d where ld: "contact_ends n c = Some (l, d)" using normal_ends [OF assms(1), of c] Cons.prems by fastforce
  obtain h where h: "hdtn_of n k (i, c) = Inr h" "h_startTime h = js_round (up_s c * k)" "h_endTime h = js_round (down_s c * k)"
    using ld by (simp add: hdtn_of_def)
  obtain hs where "rmapM (hdtn_of n k) (enumerate (Suc i) cs) = Inr hs" "length hs = length cs"
    "\<forall>j<length cs. h_startTime (hs ! j) = js_round (up_s (cs ! j) * k) \<and> h_endTime (hs ! j) = js_round (down_s (cs ! j) * k)"
    using Cons.IH [of "Suc i"] Cons.prems by auto
  then show ?case using h by (intro exI [of _ "h # hs"]) (auto simp: nth_Cons split: nat.splits)
qed simp

text \<open>Property C22. A plan that passes the checks of \<open>normalize\<close> (contact-plans/compile.mjs) compiles to HDTN and to
  ION without an exception, and the two files say the same: the ION file is the header followed by the
  \<open>contact\<close> and \<open>range\<close> lines of the HDTN contacts, in order, scaled or not. When the times are whole seconds and
  the plan is not scaled, every compiled contact ends after it starts.\<close>

theorem compiled_plans_agree:
  assumes "normalize p = Inr n"
  shows "\<exists>hs. toHdtn p scaled = Inr hs \<and> length hs = length (p_contacts p) \<and>
    toIon p scaled = Inr (lines_of (ion_header p @ concat (map ion_of_hdtn hs))) \<and>
    (\<not> scaled \<and> (\<forall>c\<in>set (p_contacts p). \<exists>u d. up_s c = of_int u \<and> down_s c = of_int d) \<longrightarrow>
       (\<forall>h\<in>set hs. h_startTime h < h_endTime h))"
proof -
  define k where "k = scale_of scaled p"
  obtain hs where hs: "rmapM (hdtn_of n k) (enumerate 0 (p_contacts p)) = Inr hs" "length hs = length (p_contacts p)"
    "\<forall>j<length (p_contacts p). h_startTime (hs ! j) = js_round (up_s (p_contacts p ! j) * k) \<and>
      h_endTime (hs ! j) = js_round (down_s (p_contacts p ! j) * k)"
    using rmapM_hdtn [OF assms, of "p_contacts p" k 0] by blast
  have "toHdtn p scaled = Inr hs" using assms hs(1) by (simp add: toHdtn_def k_def)
  moreover have "toIon p scaled = Inr (lines_of (ion_header p @ concat (map ion_of_hdtn hs)))"
    using assms hdtn_ion_all [OF hs(1)] by (simp add: toIon_def k_def)
  moreover have "h_startTime h < h_endTime h"
    if whole: "\<not> scaled" "\<forall>c\<in>set (p_contacts p). \<exists>u d. up_s c = of_int u \<and> down_s c = of_int d" and h: "h \<in> set hs" for h
  proof -
    obtain j where j: "j < length (p_contacts p)" "h = hs ! j" using h hs(2) by (auto simp: in_set_conv_nth)
    then have c: "p_contacts p ! j \<in> set (p_contacts p)" by simp
    then obtain u d where ud: "up_s (p_contacts p ! j) = of_int u" "down_s (p_contacts p ! j) = of_int d" using whole(2) by blast
    have "check_contacts (link_map (full_links (p_links p))) (p_contacts p) = Inr ()"
      using assms by (simp add: normalize_def Let_def)
    from check_contacts_ok [OF this c] ud have "u < d" by simp
    then show ?thesis using hs(3) j ud whole(1) by (simp add: k_def scale_of_def)
  qed
  ultimately show ?thesis using hs(2) by blast
qed


definition sample_plan :: "rat option \<Rightarrow> contact_plan" where
  "sample_plan k = \<lparr>p_name = ''relay'', p_description = None, p_scale = k, p_links = [Named ''L1''], p_nodes = None,
     p_contacts = [\<lparr>k_link = ''L1'', up_s = 60, down_s = 400, k_rate = None\<rparr>],
     p_delays = [(''L1'', \<lparr>one_way_ms = 1300, d_rate = Some 64000\<rparr>)], p_occultation = None\<rparr>"

lemma sample_plan_normal: "\<exists>n. normalize (sample_plan k) = Inr n"
  by (simp add: normalize_def sample_plan_def Let_def full_links_def full_link_def link_map_def)

lemma compiled_plans_agree_witness:
  "\<exists>hs. toHdtn (sample_plan None) False = Inr hs \<and> length hs = 1 \<and> h_startTime (hs ! 0) < h_endTime (hs ! 0)"
proof -
  obtain n where n: "normalize (sample_plan None) = Inr n" using sample_plan_normal by blast
  obtain hs where hs: "toHdtn (sample_plan None) False = Inr hs" "length hs = length (p_contacts (sample_plan None))"
    "(\<forall>c\<in>set (p_contacts (sample_plan None)). \<exists>u d. up_s c = of_int u \<and> down_s c = of_int d) \<longrightarrow>
       (\<forall>h\<in>set hs. h_startTime h < h_endTime h)"
    using compiled_plans_agree [OF n, of False] by auto
  have "\<exists>u d. (60 :: rat) = of_int u \<and> (400 :: rat) = of_int d"
    by (rule exI [of _ 60], rule exI [of _ 400]) simp
  then have "\<forall>h\<in>set hs. h_startTime h < h_endTime h" using hs(3) by (simp add: sample_plan_def)
  moreover have "length hs = 1" using hs(2) by (simp add: sample_plan_def)
  moreover from this have "hs ! 0 \<in> set hs" by (intro nth_mem) simp
  ultimately show ?thesis using hs(1) by blast
qed

text \<open>Property C0. Scaling is not checked: a contact that \<open>normalize\<close> (contact-plans/compile.mjs) accepts, because it
  ends after it starts, is compiled with \<open>scaled\<close> to one that ends when it starts as soon as both times round to
  the same second, and no error is reported.\<close>

theorem scaled_contact_can_vanish:
  assumes "normalize p = Inr n" "p_scale p = Some k" "i < length (p_contacts p)"
    "js_round (up_s (p_contacts p ! i) * k) = js_round (down_s (p_contacts p ! i) * k)"
  shows "up_s (p_contacts p ! i) < down_s (p_contacts p ! i) \<and>
    (\<exists>hs. toHdtn p True = Inr hs \<and> i < length hs \<and> h_startTime (hs ! i) = h_endTime (hs ! i))"
proof
  have "check_contacts (link_map (full_links (p_links p))) (p_contacts p) = Inr ()"
    using assms(1) by (simp add: normalize_def Let_def)
  from check_contacts_ok [OF this nth_mem [OF assms(3)]] show "up_s (p_contacts p ! i) < down_s (p_contacts p ! i)" by blast
  have k: "scale_of True p = k" using assms(2) by (simp add: scale_of_def)
  show "\<exists>hs. toHdtn p True = Inr hs \<and> i < length hs \<and> h_startTime (hs ! i) = h_endTime (hs ! i)"
    using rmapM_hdtn [OF assms(1), of "p_contacts p" k 0] assms(3,4) k assms(1) by (auto simp: toHdtn_def)
qed

lemma scaled_contact_can_vanish_witness:
  "\<exists>hs. toHdtn (sample_plan (Some (1 / 1000))) True = Inr hs \<and> h_startTime (hs ! 0) = h_endTime (hs ! 0)"
proof -
  obtain n where n: "normalize (sample_plan (Some (1 / 1000))) = Inr n" using sample_plan_normal by blast
  have r: "js_round (60 * (1 / 1000)) = js_round (400 * (1 / 1000))"
  proof -
    have "\<lfloor>60 * (1 / 1000) + 1 / 2 :: rat\<rfloor> = 0" "\<lfloor>400 * (1 / 1000) + 1 / 2 :: rat\<rfloor> = 0"
      by (simp_all add: floor_eq_iff)
    then show ?thesis by (simp only: js_round_def)
  qed
  show ?thesis
    using scaled_contact_can_vanish [OF n, of "1 / 1000" 0] r by (auto simp: sample_plan_def)
qed

section \<open>What a signed plan is good for\<close>

lemma signPlan_Inr:
  assumes "signPlan C kp p es t = Inr r"
  shows "\<exists>kvs f. plan_content C p es t = Inr kvs \<and> signRecord C kp (VObj kvs) = Inr r \<and> planFingerprint C p = Inr f \<and>
    field r ''kind'' = VStr ''dtn.contact-plan/1'' \<and> field r ''planFingerprint'' = VStr f \<and>
    field r ''exports'' = VObj (export_prints C es) \<and> field r ''signerPub'' = VStr (pub kp) \<and> is_object r"
proof -
  obtain kvs where kvs: "plan_content C p es t = Inr kvs" "signRecord C kp (VObj kvs) = Inr r"
    using assms by (auto simp: signPlan_def)
  then obtain f where f: "planFingerprint C p = Inr f"
    "field (VObj kvs) ''kind'' = VStr ''dtn.contact-plan/1''" "field (VObj kvs) ''planFingerprint'' = VStr f"
    "field (VObj kvs) ''exports'' = VObj (export_prints C es)"
    by (auto simp: plan_content_def)
  have n: "''kind'' \<notin> set credential_fields" "''planFingerprint'' \<notin> set credential_fields" "''exports'' \<notin> set credential_fields"
    by (simp_all add: credential_fields_def)
  note fields = n [THEN signRecord_field(1) [OF kvs(2)]]
  have "is_object r" using kvs(2) by (auto simp: signRecord_Inr)
  with kvs f fields signRecord_field(2) [OF kvs(2)] show ?thesis by metis
qed

lemma signed_print_given:
  assumes "field r ''exports'' = VObj (export_prints C es)" "distinct (map fst es)" "(k, t) \<in> set (given_files es)"
  shows "signed_print r k = VStr (fp C t)"
proof -
  have "map_of (export_prints C es) k = Some (VStr (fp C t))"
    using assms(2,3)
  proof (induction es)
    case (Cons e es)
    obtain a v where e: "e = (a, v)" by (cases e)
    have old: "b \<in> fst ` set es" if "(b, x) \<in> set (given_files es)" for b x
      using that by (force simp: given_files_def split: option.splits prod.splits)
    show ?case
    proof (cases v)
      case None
      then show ?thesis using Cons e by (auto simp: given_files_def export_prints_def)
    next
      case (Some x)
      then have "(k, t) = (a, x) \<or> (k, t) \<in> set (given_files es)" using Cons.prems(2) e by (auto simp: given_files_def)
      then show ?thesis
      proof
        assume new: "(k, t) \<in> set (given_files es)"
        then have "k \<noteq> a" using old Cons.prems(1) e by auto
        moreover have "map_of (export_prints C es) k = Some (VStr (fp C t))"
          using Cons.IH new Cons.prems(1) by simp
        ultimately show ?thesis using e Some by (simp add: export_prints_def)
      qed (simp add: e Some export_prints_def)
    qed
  qed (simp add: given_files_def)
  then show ?thesis by (simp add: signed_print_def assms(1))
qed

lemma verify_signed_plan:
  assumes "sig_correct C" "keypair_ok C kp" "signPlan C kp p es t = Inr r" "distinct (map fst es)"
  shows "verifyPlan C r (Some (pub kp)) (Some p) es =
    Inr \<lparr>pv_ok = True, pv_problems = [], pv_files = map (\<lambda>(k, _). (k, ''matches'')) (given_files es)\<rparr>"
proof -
  obtain kvs f where r: "signRecord C kp (VObj kvs) = Inr r" "planFingerprint C p = Inr f"
    "field r ''kind'' = VStr ''dtn.contact-plan/1''" "field r ''planFingerprint'' = VStr f"
    "field r ''exports'' = VObj (export_prints C es)" "field r ''signerPub'' = VStr (pub kp)" "is_object r"
    using signPlan_Inr [OF assms(3)] by blast
  have v: "verifyRecord C r = Inr (Accept (VStr (pub kp)))" by (rule verifyRecord_signRecord [OF assms(1,2) r(1)])
  have files: "map (\<lambda>(k, t). (k, file_state C r k t)) (given_files es) = map (\<lambda>(k, _). (k, ''matches'')) (given_files es)"
    using signed_print_given [OF r(5) assms(4)] by (auto simp: file_state_def fp_def)
  have clean: "concat (map (\<lambda>(k, s). if s = ''DIFFERS'' then [k @ ''_file_differs''] else []) (map (\<lambda>(k, _). (k, ''matches'')) xs)) = []"
    for xs :: "(string \<times> string) list" by (induction xs) auto
  have "get_prop r ''kind'' = Inr (VStr ''dtn.contact-plan/1'')"
    using r(3,7) by (auto simp: get_prop_def)
  then show ?thesis
    unfolding verifyPlan_def v rbind_simps option.case r(2) r(4) files Let_def clean
    by (simp add: signer_problems_def r(6))
qed

lemma signed_plan_cases:
  assumes "sig_correct C" "keypair_ok C kp" "signPlan C kp p es t = Inr r" "distinct (map fst es)"
  shows "verifyPlan C r (Some (pub kp)) (Some p) es =
      Inr \<lparr>pv_ok = True, pv_problems = [], pv_files = map (\<lambda>(k, _). (k, ''matches'')) (given_files es)\<rparr>"
    and "canonicalize p = Inr (Some s) \<Longrightarrow> canonicalize q = Inr (Some s') \<Longrightarrow> s \<noteq> s' \<Longrightarrow>
      \<not> collision C {utf8 s} {utf8 s'} \<Longrightarrow>
      \<exists>V. verifyPlan C r (Some (pub kp)) (Some q) es = Inr V \<and> \<not> pv_ok V \<and> ''plan_differs_from_signed_plan'' \<in> set (pv_problems V)"
    and "(k, x) \<in> set (given_files es) \<Longrightarrow> x \<noteq> y \<Longrightarrow> \<not> collision C {utf8 x} {utf8 y} \<Longrightarrow>
      \<exists>V. verifyPlan C r (Some (pub kp)) (Some p) [(k, Some y)] = Inr V \<and> \<not> pv_ok V \<and> pv_files V = [(k, ''DIFFERS'')]"
proof -
  show "verifyPlan C r (Some (pub kp)) (Some p) es =
      Inr \<lparr>pv_ok = True, pv_problems = [], pv_files = map (\<lambda>(k, _). (k, ''matches'')) (given_files es)\<rparr>"
    by (rule verify_signed_plan [OF assms])
  obtain kvs f where r: "signRecord C kp (VObj kvs) = Inr r" "planFingerprint C p = Inr f"
    "field r ''kind'' = VStr ''dtn.contact-plan/1''" "field r ''planFingerprint'' = VStr f"
    "field r ''exports'' = VObj (export_prints C es)" "field r ''signerPub'' = VStr (pub kp)" "is_object r"
    using signPlan_Inr [OF assms(3)] by blast
  have v: "verifyRecord C r = Inr (Accept (VStr (pub kp)))" by (rule verifyRecord_signRecord [OF assms(1,2) r(1)])
  have kind: "get_prop r ''kind'' = Inr (VStr ''dtn.contact-plan/1'')"
    using r(3,7) by (auto simp: get_prop_def)
  have prints: "fp C a = fp C b \<Longrightarrow> \<not> collision C {utf8 a} {utf8 b} \<Longrightarrow> a = b" for a b
    using no_collisionD [of C "{utf8 a}" "{utf8 b}" "utf8 a" "utf8 b"] by (simp add: fp_def sha256hex_def)
  show "\<exists>V. verifyPlan C r (Some (pub kp)) (Some q) es = Inr V \<and> \<not> pv_ok V \<and> ''plan_differs_from_signed_plan'' \<in> set (pv_problems V)"
    if "canonicalize p = Inr (Some s)" "canonicalize q = Inr (Some s')" "s \<noteq> s'" "\<not> collision C {utf8 s} {utf8 s'}"
  proof -
    have "f = fp C s" using r(2) that(1) by (simp add: planFingerprint_def)
    then have "f \<noteq> fp C s'" using prints [OF _ that(4)] that(3) by auto
    moreover have "planFingerprint C q = Inr (fp C s')" using that(2) by (simp add: planFingerprint_def)
    ultimately show ?thesis
      unfolding verifyPlan_def v rbind_simps option.case kind r(4) by (auto simp: Let_def)
  qed
  show "\<exists>V. verifyPlan C r (Some (pub kp)) (Some p) [(k, Some y)] = Inr V \<and> \<not> pv_ok V \<and> pv_files V = [(k, ''DIFFERS'')]"
    if "(k, x) \<in> set (given_files es)" "x \<noteq> y" "\<not> collision C {utf8 x} {utf8 y}"
  proof -
    have "signed_print r k = VStr (fp C x)" by (rule signed_print_given [OF r(5) assms(4) that(1)])
    moreover have "fp C x \<noteq> fp C y" using prints [OF _ that(3)] that(2) by auto
    ultimately have "file_state C r k y = ''DIFFERS''" by (simp add: file_state_def fp_def)
    then show ?thesis
      unfolding verifyPlan_def v rbind_simps option.case kind r(2,4) by (simp add: Let_def given_files_def)
  qed
qed


definition sample_plan_json :: "jsval list \<Rightarrow> jsval" where
  "sample_plan_json cs = VObj [(''contacts'', VArr cs)]"

definition sample_terms :: plan_terms where
  "sample_terms = \<lparr>pt_network = VStr ''n'', pt_version = VNum 1, pt_validFrom = VNum 0, pt_validTo = VNum 9, pt_prev = VNull\<rparr>"

lemma sample_plan_texts:
  "canonicalize (sample_plan_json [VNum 1]) = Inr (Some ''{\"contacts\":[1]}'')"
  "canonicalize (sample_plan_json []) = Inr (Some ''{\"contacts\":[]}'')"
  by (code_simp; simp)+

lemma sample_signed_plan:
  "\<exists>r. signPlan toy (toy_key ''k'') (sample_plan_json [VNum 1]) [(''hdtn'', Some ''x''), (''ion'', None)] sample_terms = Inr r"
proof -
  have hex: "json_ok (VStr (fp toy t))" for t by (simp add: fp_def sha256hex_def text_ok_Cons text_ok_hex)
  obtain kvs where kvs: "plan_content toy (sample_plan_json [VNum 1]) [(''hdtn'', Some ''x''), (''ion'', None)] sample_terms = Inr kvs"
    "json_ok (VObj kvs)" "depth_le MAX_DEPTH (VObj kvs)"
    using hex by (simp add: plan_content_def planFingerprint_def sample_plan_texts [unfolded sample_plan_json_def] sample_plan_json_def array_length_def sample_terms_def
        export_prints_def MAX_DEPTH_def text_ok_ascii)
  from signRecord_total [OF kvs(2,3)] kvs(1) show ?thesis by (simp add: signPlan_def)
qed


end
