(* ===== verification/Clearing.thy ===== *)
theory Clearing
  imports Complex_Main ReceiptV2 Merkle
begin

text \<open>
  Clearing between operators (ssi/settle.mjs): every claim is a bundle as bytes with its receipts; each
  receipt is judged on its own, and one that is credited earns its custodian's operator once for each bundle.

  Amounts are exact rationals where the code adds doubles. The operator of a node (\<open>opOf\<close>) and the rate card
  are parameters. The list of texts that the destinations received is \<open>delivered\<close>. What is signed for an
  operator at the end is given as its figures and the root over its receipts; rounding an amount to six
  decimals and signing the record are left out.
\<close>

section \<open>State\<close>

record op_account =
  oa_bundles :: nat
  oa_bytes :: nat
  oa_amount :: rat
  oa_leaves :: "string list"
  oa_rejected :: nat

record rejection =
  rj_claim :: string
  rj_hop :: "jsval option"
  rj_op :: "string option"
  rj_reason :: string

record clearing =
  cg_perOp :: "(string \<times> op_account) list"
  cg_credited :: "(string \<times> string \<times> rat) list"
  cg_rejected :: "rejection list"
  cg_unsigned :: "(string \<times> jsval) list"

record settle_claim =
  sc_data :: bytes
  sc_arrivedAt :: int
  sc_delivery :: bool
  sc_note :: string

record house =
  ho_keyring :: keyring
  ho_delivered :: "string list"
  ho_owner :: string
  ho_rates :: "(string \<times> rat) list"
  ho_opOf :: "jsval \<Rightarrow> string option"

definition new_clearing :: "house \<Rightarrow> clearing" where
  "new_clearing h = \<lparr>cg_perOp = map (\<lambda>(op, _). (op, \<lparr>oa_bundles = 0, oa_bytes = 0, oa_amount = 0, oa_leaves = [], oa_rejected = 0\<rparr>))
     (ho_rates h), cg_credited = [], cg_rejected = [], cg_unsigned = []\<rparr>"

section \<open>The verdict on one receipt\<close>

datatype carriage = Carried jsval | NotCarried string

definition chain_broken :: "crypto \<Rightarrow> jsval list \<Rightarrow> receipt2 \<Rightarrow> bool res" where
  "chain_broken C earlier f =
     (if r2_chain f = VUndef then Inr False
      else rbind (chainDigest C earlier) (\<lambda>e. case r2_chain f of
          VBytes d \<Rightarrow> Inr (d \<noteq> e)
        | _ \<Rightarrow> Inl ''The otherBuffer argument must be an instance of Buffer''))"

definition judge_item :: "crypto \<Rightarrow> keyring \<Rightarrow> jsval list \<Rightarrow> jsval \<Rightarrow> receipt2 \<Rightarrow> carriage res" where
  "judge_item C K earlier item f =
     rbind (chain_broken C earlier f) (\<lambda>broken.
       if broken then Inr (NotCarried ''chain_digest_mismatch'')
       else rbind (pubsFor C K (r2_thisHop f)) (\<lambda>ps.
         case find (\<lambda>p. accepted (verify1 C item (VStr p) [] None)) ps of
           None \<Rightarrow> Inr (NotCarried ''signature_invalid'')
         | Some p \<Rightarrow> rbind (status C K p (r2_thisHop f) (signed_at f)) (\<lambda>st. Inr (case st of
               Accept s \<Rightarrow> Carried (s_revokedFrom s)
             | Refuse reason \<Rightarrow> NotCarried reason))))"

fun judge_items :: "crypto \<Rightarrow> keyring \<Rightarrow> jsval list \<Rightarrow> jsval list \<Rightarrow> receipt2 list \<Rightarrow> carriage list res" where
  "judge_items C K earlier (item # items) (f # fs) =
     rbind (judge_item C K earlier item f) (\<lambda>v. rbind (judge_items C K (earlier @ [item]) items fs) (\<lambda>vs. Inr (v # vs)))"
| "judge_items C K earlier _ _ = Inr []"

definition unrevoked :: "carriage \<Rightarrow> bool" where
  "unrevoked v \<longleftrightarrow> (case v of Carried T \<Rightarrow> T = VNull \<or> T = VUndef | NotCarried _ \<Rightarrow> False)"

text \<open>A signature by a key revoked later counts when something trustworthy saw it before.\<close>

definition seen_in_time :: "receipt2 list \<Rightarrow> carriage list \<Rightarrow> nat \<Rightarrow> jsval \<Rightarrow> int \<Rightarrow> bool" where
  "seen_in_time fs vs i T arrivedAt \<longleftrightarrow>
     (\<exists>j\<in>set [Suc i..<length fs]. r2_chain (fs ! j) \<noteq> VUndef \<and> unrevoked (vs ! j) \<and> js_less (r2_receivedAt (fs ! j)) T) \<or>
     js_less (VNum arrivedAt) T"

definition final_verdict :: "receipt2 list \<Rightarrow> carriage list \<Rightarrow> int \<Rightarrow> nat \<Rightarrow> string option" where
  "final_verdict fs vs arrivedAt i =
     (case vs ! i of
        NotCarried reason \<Rightarrow> Some reason
      | Carried T \<Rightarrow>
          if T = VNull \<or> T = VUndef then None
          else if \<not> js_less (signed_at (fs ! i)) T then Some ''signed_after_revocation''
          else if seen_in_time fs vs i T arrivedAt then None
          else Some ''revoked_unwitnessed'')"

section \<open>Crediting\<close>

definition change_account :: "string \<Rightarrow> (op_account \<Rightarrow> op_account) \<Rightarrow> clearing \<Rightarrow> clearing res" where
  "change_account op f g =
     (if op \<in> set (map fst (cg_perOp g))
      then Inr (g\<lparr>cg_perOp := map (\<lambda>(o1, a). (o1, if o1 = op then f a else a)) (cg_perOp g)\<rparr>)
      else Inl ''Cannot read properties of undefined'')"

definition refuse_item :: "settle_claim \<Rightarrow> jsval \<Rightarrow> string option \<Rightarrow> string \<Rightarrow> clearing \<Rightarrow> clearing res" where
  "refuse_item c hop op reason g =
     (let g1 = g\<lparr>cg_rejected := cg_rejected g @ [\<lparr>rj_claim = sc_note c, rj_hop = Some hop, rj_op = op, rj_reason = reason\<rparr>]\<rparr> in
      case op of
        Some o1 \<Rightarrow> if o1 = [] then Inr g1 else change_account o1 (\<lambda>a. a\<lparr>oa_rejected := oa_rejected a + 1\<rparr>) g1
      | None \<Rightarrow> Inr g1)"

definition credit_item :: "crypto \<Rightarrow> house \<Rightarrow> string \<Rightarrow> nat \<Rightarrow> jsval \<Rightarrow> jsval \<Rightarrow> clearing \<Rightarrow> clearing res" where
  "credit_item C h ident len item hop g =
     (let op = ho_opOf h hop; key = ident @ ''|'' @ js_String hop in
      if op = Some (ho_owner h) then Inr g
      else if key \<in> set (map fst (cg_credited g)) then Inr g
      else case op of
          None \<Rightarrow> Inl ''Cannot read properties of undefined''
        | Some o1 \<Rightarrow>
            (case map_of (ho_rates h) o1 of
               None \<Rightarrow> Inl ''Cannot read properties of undefined''
             | Some r \<Rightarrow> rbind (encode item) (\<lambda>bs.
                 let amount = of_nat len / 1000000 * r in
                 change_account o1 (\<lambda>a. a\<lparr>oa_bundles := oa_bundles a + 1, oa_bytes := oa_bytes a + len,
                     oa_amount := oa_amount a + amount, oa_leaves := oa_leaves a @ [to_hex (sha256 C bs)]\<rparr>)
                   (g\<lparr>cg_credited := cg_credited g @ [(key, o1, amount)]\<rparr>))))"

fun credit_items :: "crypto \<Rightarrow> house \<Rightarrow> settle_claim \<Rightarrow> string \<Rightarrow> nat \<Rightarrow> jsval list \<Rightarrow> receipt2 list \<Rightarrow> carriage list \<Rightarrow> nat list \<Rightarrow> clearing \<Rightarrow> clearing res" where
  "credit_items C h c ident len items fs vs [] g = Inr g"
| "credit_items C h c ident len items fs vs (i # is) g =
     rbind (case final_verdict fs vs (sc_arrivedAt c) i of
         Some reason \<Rightarrow> refuse_item c (r2_thisHop (fs ! i)) (ho_opOf h (r2_thisHop (fs ! i))) reason g
       | None \<Rightarrow> credit_item C h ident len (items ! i) (r2_thisHop (fs ! i)) g)
       (credit_items C h c ident len items fs vs is)"

text \<open>Plain forwarders between two custodians, from the hop counts of neighbouring receipts.\<close>

definition forwarders :: "receipt2 \<Rightarrow> receipt2 \<Rightarrow> jsval option res" where
  "forwarders a c =
     (if truthy (r2_hopCount a) \<and> truthy (r2_hopCount c)
      then rbind (js_index (r2_hopCount c) 0) (\<lambda>x. rbind (js_index (r2_hopCount a) 1) (\<lambda>y. rbind (js_sub x y) (\<lambda>d.
        Inr (if js_less (VNum 0) d then Some d else None))))
      else Inr None)"

fun count_unsigned :: "settle_claim \<Rightarrow> receipt2 list \<Rightarrow> clearing \<Rightarrow> clearing res" where
  "count_unsigned c (a # b # fs) g = rbind (forwarders a b) (\<lambda>d.
     count_unsigned c (b # fs) (case d of
         Some n \<Rightarrow> if sc_delivery c then g\<lparr>cg_unsigned := cg_unsigned g @ [(sc_note c, n)]\<rparr> else g
       | None \<Rightarrow> g))"
| "count_unsigned c _ g = Inr g"

section \<open>One claim, all claims\<close>

definition reject_claim :: "settle_claim \<Rightarrow> string \<Rightarrow> clearing \<Rightarrow> clearing" where
  "reject_claim c reason g =
     g\<lparr>cg_rejected := cg_rejected g @ [\<lparr>rj_claim = sc_note c, rj_hop = None, rj_op = None, rj_reason = reason\<rparr>]\<rparr>"

definition identity_text :: "bpv7 \<Rightarrow> string res" where
  "identity_text b = rbind (bundleIdentity b) (\<lambda>i. rbind (stringify (VArr i)) (\<lambda>t.
     Inr (case t of Some s \<Rightarrow> s | None \<Rightarrow> ''undefined'')))"

definition payload_length :: "bpv7 \<Rightarrow> nat res" where
  "payload_length b = (case find (\<lambda>x. strict_eq (b_type x) PAYLOAD) (bp_blocks b) of
     Some x \<Rightarrow> Inr (length (b_data x)) | None \<Rightarrow> Inl ''Cannot read properties of undefined'')"

definition clear_items :: "crypto \<Rightarrow> house \<Rightarrow> settle_claim \<Rightarrow> string \<Rightarrow> nat \<Rightarrow> jsval list \<Rightarrow> clearing \<Rightarrow> clearing res" where
  "clear_items C h c ident len items g =
     rbind (rmapM receiptFields items) (\<lambda>fs. rbind (judge_items C (ho_keyring h) [] items fs) (\<lambda>vs.
       if NotCarried ''chain_digest_mismatch'' \<in> set vs then Inr (reject_claim c ''chain_digest_mismatch'' g)
       else rbind (credit_items C h c ident len items fs vs [0..<length items] g) (count_unsigned c fs)))"

definition clear_claim :: "crypto \<Rightarrow> house \<Rightarrow> settle_claim \<Rightarrow> clearing \<Rightarrow> clearing res" where
  "clear_claim C h c g =
     rbind (decodeBundle (sc_data c)) (\<lambda>b. rbind (identity_text b) (\<lambda>ident. rbind (payload_length b) (\<lambda>len.
       if ident \<notin> set (ho_delivered h) then Inr (reject_claim c ''bundle_never_delivered'' g)
       else rbind (readBlockItems b) (\<lambda>(_, items). clear_items C h c ident len items g))))"

fun clear_claims :: "crypto \<Rightarrow> house \<Rightarrow> settle_claim list \<Rightarrow> clearing \<Rightarrow> clearing res" where
  "clear_claims C h [] g = Inr g"
| "clear_claims C h (c # cs) g = rbind (clear_claim C h c g) (clear_claims C h cs)"

record statement =
  sm_operator :: string
  sm_bundles :: nat
  sm_bytes :: nat
  sm_amount :: rat
  sm_receiptsRoot :: string

definition statement_of :: "crypto \<Rightarrow> string \<times> op_account \<Rightarrow> statement res" where
  "statement_of C oa = rbind (buildTree C (sort (oa_leaves (snd oa)))) (\<lambda>t.
     Inr \<lparr>sm_operator = fst oa, sm_bundles = oa_bundles (snd oa), sm_bytes = oa_bytes (snd oa), sm_amount = oa_amount (snd oa),
       sm_receiptsRoot = root t\<rparr>)"

definition clear :: "crypto \<Rightarrow> house \<Rightarrow> settle_claim list \<Rightarrow> (clearing \<times> statement list) res" where
  "clear C h claims = rbind (clear_claims C h claims (new_clearing h)) (\<lambda>g.
     rbind (rmapM (statement_of C) (filter (\<lambda>(op, a). op \<noteq> ho_owner h \<and> oa_bundles a \<noteq> 0) (cg_perOp g))) (\<lambda>ss. Inr (g, ss)))"


section \<open>Every carriage is paid once\<close>

definition earned :: "string \<Rightarrow> clearing \<Rightarrow> rat list" where
  "earned op g = map (\<lambda>(_, _, x). x) (filter (\<lambda>(_, o1, _). o1 = op) (cg_credited g))"

definition clearing_ok :: "house \<Rightarrow> clearing \<Rightarrow> bool" where
  "clearing_ok h g \<longleftrightarrow>
     distinct (map fst (cg_credited g)) \<and> map fst (cg_perOp g) = map fst (ho_rates h) \<and>
     (\<forall>(_, op, _)\<in>set (cg_credited g). op \<noteq> ho_owner h) \<and>
     (\<forall>(op, a)\<in>set (cg_perOp g). oa_bundles a = length (earned op g) \<and> oa_amount a = sum_list (earned op g) \<and>
        length (oa_leaves a) = oa_bundles a)"

lemma new_clearing_ok: "clearing_ok h (new_clearing h)"
  by (auto simp: clearing_ok_def new_clearing_def earned_def)

lemma earned_same: "cg_credited g' = cg_credited g \<Longrightarrow> earned op g' = earned op g"
  by (simp add: earned_def)

lemma change_account_Inr:
  "change_account op f g = Inr g' \<longleftrightarrow> op \<in> set (map fst (cg_perOp g)) \<and>
     g' = g\<lparr>cg_perOp := map (\<lambda>(o1, a). (o1, if o1 = op then f a else a)) (cg_perOp g)\<rparr>"
  by (auto simp: change_account_def)

lemma refuse_item_ok: "refuse_item c hop op reason g = Inr g' \<Longrightarrow> clearing_ok h g \<Longrightarrow> clearing_ok h g'"
  by (fastforce simp: refuse_item_def Let_def clearing_ok_def earned_def change_account_Inr comp_def split_beta
      split: option.splits if_splits)

lemma credit_item_ok:
  assumes "credit_item C h ident len item hop g = Inr g'" "clearing_ok h g"
  shows "clearing_ok h g'"
proof (cases "g' = g")
  case False
  then obtain op key x bs where *: "ho_opOf h hop = Some op" "op \<noteq> ho_owner h" "key \<notin> set (map fst (cg_credited g))"
    "change_account op (\<lambda>a. a\<lparr>oa_bundles := oa_bundles a + 1, oa_bytes := oa_bytes a + len,
        oa_amount := oa_amount a + x, oa_leaves := oa_leaves a @ [to_hex (sha256 C bs)]\<rparr>)
      (g\<lparr>cg_credited := cg_credited g @ [(key, op, x)]\<rparr>) = Inr g'"
    using assms(1) by (auto simp: credit_item_def Let_def split: if_splits option.splits)
  have earn: "earned o1 g' = earned o1 g @ (if o1 = op then [x] else [])" for o1
    using *(4) by (auto simp: change_account_Inr earned_def)
  have g': "cg_credited g' = cg_credited g @ [(key, op, x)]"
    "cg_perOp g' = map (\<lambda>(o1, a). (o1, if o1 = op then a\<lparr>oa_bundles := oa_bundles a + 1, oa_bytes := oa_bytes a + len,
        oa_amount := oa_amount a + x, oa_leaves := oa_leaves a @ [to_hex (sha256 C bs)]\<rparr> else a)) (cg_perOp g)"
    using *(4) by (auto simp: change_account_Inr)
  have accounts: "\<forall>(o1, a)\<in>set (cg_perOp g'). oa_bundles a = length (earned o1 g') \<and> oa_amount a = sum_list (earned o1 g') \<and>
      length (oa_leaves a) = oa_bundles a"
    using assms(2) unfolding g'(2) earn by (fastforce simp: clearing_ok_def)
  have "map fst (cg_perOp g') = map fst (cg_perOp g)" unfolding g'(2) by (simp add: comp_def split_beta)
  then show ?thesis using assms(2) *(2,3) accounts by (auto simp: clearing_ok_def g'(1))
qed (use assms(2) in simp)

lemma credit_items_ok: "credit_items C h c ident len items fs vs is g = Inr g' \<Longrightarrow> clearing_ok h g \<Longrightarrow> clearing_ok h g'"
  by (induction "is" arbitrary: g) (auto split: option.splits intro: refuse_item_ok credit_item_ok)

lemma clearing_ok_cong:
  "cg_credited g' = cg_credited g \<Longrightarrow> cg_perOp g' = cg_perOp g \<Longrightarrow> clearing_ok h g' = clearing_ok h g"
  by (simp add: clearing_ok_def earned_def)

lemma count_unsigned_same:
  "count_unsigned c fs g = Inr g' \<Longrightarrow> cg_credited g' = cg_credited g \<and> cg_perOp g' = cg_perOp g"
  by (induction c fs g rule: count_unsigned.induct) (auto split: option.splits if_splits)

lemma clear_claim_ok:
  assumes "clear_claim C h c g = Inr g'" "clearing_ok h g"
  shows "clearing_ok h g'"
proof -
  have reject: "clearing_ok h (reject_claim c reason g)" for reason
    using assms(2) by (subst clearing_ok_cong [of _ g]) (simp_all add: reject_claim_def)
  obtain ident len items where "g' = reject_claim c ''bundle_never_delivered'' g \<or> clear_items C h c ident len items g = Inr g'"
    using assms(1) by (auto simp: clear_claim_def split: if_splits)
  then consider "g' = reject_claim c ''bundle_never_delivered'' g" | "g' = reject_claim c ''chain_digest_mismatch'' g"
    | fs vs g1 where "credit_items C h c ident len items fs vs [0..<length items] g = Inr g1" "count_unsigned c fs g1 = Inr g'"
    by (auto simp: clear_items_def split: if_splits)
  then show ?thesis
  proof cases
    case 3
    from credit_items_ok [OF 3(1) assms(2)] count_unsigned_same [OF 3(2)] show ?thesis
      by (subst clearing_ok_cong [of _ g1]) simp_all
  qed (simp_all add: reject)
qed

lemma clear_claims_ok: "clear_claims C h cs g = Inr g' \<Longrightarrow> clearing_ok h g \<Longrightarrow> clearing_ok h g'"
  by (induction cs arbitrary: g) (auto intro: clear_claim_ok)

lemma statements_of:
  "rmapM (statement_of C) xs = Inr ss \<Longrightarrow> s \<in> set ss \<Longrightarrow>
    \<exists>op a. (op, a) \<in> set xs \<and> sm_operator s = op \<and> sm_bundles s = oa_bundles a \<and> sm_amount s = oa_amount a"
proof (induction xs arbitrary: ss)
  case (Cons x xs)
  obtain op a where x: "x = (op, a)" by (cases x)
  obtain y ys where y: "statement_of C (op, a) = Inr y" "rmapM (statement_of C) xs = Inr ys" "ss = y # ys"
    using Cons.prems(1) x by auto
  then have "sm_operator y = op \<and> sm_bundles y = oa_bundles a \<and> sm_amount y = oa_amount a" by (auto simp: statement_of_def)
  then show ?case using Cons.IH [OF y(2)] Cons.prems(2) x y(3) by auto
qed simp



section \<open>A receipt of another bundle\<close>

lemma accept_some: "(case v of Accept s \<Rightarrow> Accept (Some s) | Refuse r \<Rightarrow> Refuse r) = Accept st \<longleftrightarrow> (\<exists>s. v = Accept s \<and> st = Some s)"
  by (cases v) auto

lemma custodian_key_ring:
  assumes "custodian_key C (Ring K) item f = Inr (Accept st)"
  obtains ps p s where "pubsFor C K (r2_thisHop f) = Inr ps" "find (\<lambda>p. accepted (verify1 C item (VStr p) [] None)) ps = Some p"
    "status C K p (r2_thisHop f) (signed_at f) = Inr (Accept s)" "st = Some s"
  using assms that by (auto simp: custodian_key_def signed_at_def accept_some split: if_splits option.splits)

lemma ring_key_carries:
  assumes "custodian_key C (Ring K) item f = Inr (Accept (Some st))" "chain_broken C earlier f = Inr False"
  shows "judge_item C K earlier item f = Inr (Carried (s_revokedFrom st))"
  using custodian_key_ring [OF assms(1)] assms(2) by (fastforce simp: judge_item_def)

lemma trusts_ring:
  assumes "trusts C (Ring K) rl" "verify1 C item (VStr (pub (r_kp rl))) [] None = Accept payload" "r2_thisHop f = VStr (r_eid rl)"
  shows "\<exists>s. custodian_key C (Ring K) item f = Inr (Accept (Some s)) \<and> s_revokedFrom s = VNull"
proof -
  obtain st where st: "custodian_key C (Ring K) item f = Inr (Accept st)" "\<forall>s. st = Some s \<longrightarrow> s_revokedFrom s = VNull"
    using assms unfolding trusts_def by blast
  from custodian_key_ring [OF st(1)] st show ?thesis by metis
qed

lemma honest_item_unbroken: "chain_commits C earlier f = Inr True \<Longrightarrow> chain_broken C earlier f = Inr False"
  by (auto simp: chain_commits_def chain_broken_def split: jsval.splits)

lemma foreign_credit:
  assumes item: "honest_item C other h hc [] item rl prev" "cbor_ok d item" and trust: "trusts C (Ring (ho_keyring ho)) rl"
    and claim: "decodeBundle (sc_data c) = Inr b" "bundleIdentity b = Inr ident" "identity_text b = Inr i" "payload_length b = Inr n"
      "readBlockItems b = Inr (2, [item])" "i \<in> set (ho_delivered ho)"
    and op: "ho_opOf ho (VStr (r_eid rl)) = Some op" "op \<noteq> ho_owner ho" "map_of (ho_rates ho) op = Some r"
    and g: "clearing_ok ho g" "i @ ''|'' @ r_eid rl \<notin> set (map fst (cg_credited g))"
    and foreign: "other \<noteq> ident" "payloadHash C b \<noteq> Inr h"
  shows "\<exists>f g'. receiptFields item = Inr f \<and> r2_bundle f = VArr other \<and> r2_payloadHash f = VBytes h \<and>
    clear_claim C ho c g = Inr g' \<and> (i @ ''|'' @ r_eid rl, op, of_nat n / 1000000 * r) \<in> set (cg_credited g')"
proof -
  obtain f payload where f: "receiptFields item = Inr f" "r2_thisHop f = VStr (r_eid rl)" "r2_bundle f = VArr other"
    "r2_payloadHash f = VBytes h" "chain_commits C [] f = Inr True" "verify1 C item (VStr (pub (r_kp rl))) [] None = Accept payload"
    using item(1) by (auto simp: honest_item_def)
  obtain s where s: "custodian_key C (Ring (ho_keyring ho)) item f = Inr (Accept (Some s))" "s_revokedFrom s = VNull"
    using trusts_ring [OF trust f(6,2)] by blast
  have judge: "judge_items C (ho_keyring ho) [] [item] [f] = Inr [Carried VNull]"
    using ring_key_carries [OF s(1) honest_item_unbroken [OF f(5)]] s(2) by simp
  have enc: "encode item = Inr (cbor_bytes item)" by (rule encode_bytes [OF item(2)])
  have "op \<in> set (map fst (cg_perOp g))"
  proof -
    have "op \<in> set (map fst (ho_rates ho))" using map_of_SomeD [OF op(3)] by force
    then show ?thesis using g(1) by (simp add: clearing_ok_def)
  qed
  then obtain g1 where g1: "credit_item C ho i n item (VStr (r_eid rl)) g = Inr g1"
    "cg_credited g1 = cg_credited g @ [(i @ ''|'' @ r_eid rl, op, of_nat n / 1000000 * r)]"
    using op g(2) enc by (simp add: credit_item_def Let_def change_account_def)
  have "credit_items C ho c i n [item] [f] [Carried VNull] [0..<length [item]] g = Inr g1"
    using g1(1) f(2) by (simp add: final_verdict_def)
  then have "clear_items C ho c i n [item] g = Inr g1"
    using f(1) judge by (simp add: clear_items_def)
  then have "clear_claim C ho c g = Inr g1" using claim by (simp add: clear_claim_def)
  with g1(2) f show ?thesis by auto
qed


text \<open>A bundle that was delivered, and in its custody block the receipt of another one.\<close>

definition forged_bundle :: "jsval \<Rightarrow> bpv7" where
  "forged_bundle item = (sample_seq (VNum 1))\<lparr>bp_blocks :=
     [\<lparr>b_type = PREVIOUS_NODE, b_number = VNum 2, b_flags = VNum 0, b_crcType = CRC16, b_data = [0x82, 1, 0]\<rparr>,
      \<lparr>b_type = CUSTODY_BLOCK_TYPE, b_number = VNum 3, b_flags = VNum 1, b_crcType = CRC32C, b_data = cbor_bytes (VArr [item])\<rparr>,
      \<lparr>b_type = PAYLOAD, b_number = VNum 1, b_flags = VNum 0, b_crcType = CRC_NONE, b_data = [1, 2, 3, 4]\<rparr>]\<rparr>"

definition sample_house :: "string \<Rightarrow> house" where
  "sample_house i = \<lparr>ho_keyring = sample_ring, ho_delivered = [i], ho_owner = ''science'', ho_rates = [(''relay'', 8)],
     ho_opOf = (\<lambda>_. Some ''relay'')\<rparr>"

lemma sample_item:
  "\<exists>item. honest_item toy (sample_ident (VNum 0)) (sha256 toy [7]) None [] item sample_relay (VStr ''dtn://src/'') \<and> items_ok [item]"
proof -
  have legs: "legs2_ok toy (sample_seq (VNum 0)) [] (VStr ''dtn://src/'') [(sample_relay, sample_op True)]"
    by (rule sample_legs2) simp
  then obtain m item where *: "keypair_ok toy (r_kp sample_relay)" "o_hopsReleased (sample_op True) = VUndef"
    "receipt_map toy (sample_seq (VNum 0)) [] (r_eid sample_relay) (VStr ''dtn://src/'') (sample_op True) = Inr m" "cbor_ok max_levels (VMap m)"
    "v2_receipt toy (sample_seq (VNum 0)) [] sample_relay (VStr ''dtn://src/'') (sample_op True) = Inr item"
    "cbor_ok 32 item" "length (cbor_bytes item) < 2 ^ 40"
    by (auto split: sum.splits)
  have "honest_item toy (sample_ident (VNum 0)) (sha256 toy [7]) None [] item sample_relay (VStr ''dtn://src/'')"
    by (rule v2_receipt_honest [OF toy_sig_correct *(1-5) sample_facts(1,2,3)])
  moreover have "items_ok [item]"
    using *(6,7) v2_receipt_array [OF *(5)] by (simp add: items_ok_def MAX_RECEIPTS_def)
  ultimately show ?thesis by blast
qed

lemma forged_decodes:
  assumes "items_ok [item]"
  shows "\<exists>bytes. decodeBundle bytes = Inr (forged_bundle item)" "readBlockItems (forged_bundle item) = Inr (2, [item])"
proof -
  have size: "int (length (cbor_bytes (VArr [item]))) \<le> MAX_SAFE_INTEGER" "cbor_ok max_levels (VArr [item])"
    using items_ok_array [OF assms] by blast+
  have "bundle_ok (sample_seq (VNum 1))" by (rule sample_seq_ok) (simp add: cbor_ok_numeral)
  then have "primary_ok (bp_primary (forged_bundle item))" by (simp add: forged_bundle_def bundle_ok_def)
  then have "bundle_ok (forged_bundle item)"
    using size(1) by (simp add: forged_bundle_def bundle_ok_def block_ok_def content_ok_def crc_type_ok_def crc_types
      PREVIOUS_NODE_def PAYLOAD_def CUSTODY_BLOCK_TYPE_def cbor_ok_numeral)
  from encodeBundle_decodeBundle [OF this] show "\<exists>bytes. decodeBundle bytes = Inr (forged_bundle item)" by blast
  have "\<not> is_text item" "is_array item" using assms by (cases item; simp add: items_ok_def)+
  then show "readBlockItems (forged_bundle item) = Inr (2, [item])"
    using decode_cbor_bytes [OF size(2)]
    by (simp add: readBlockItems_def forged_bundle_def PREVIOUS_NODE_def PAYLOAD_def CUSTODY_BLOCK_TYPE_def)
qed

lemma sample_claim:
  "\<exists>item (c :: settle_claim) i. honest_item toy (sample_ident (VNum 0)) (sha256 toy [7]) None [] item sample_relay (VStr ''dtn://src/'') \<and>
    cbor_ok 32 item \<and> trusts toy (Ring (ho_keyring (sample_house i))) sample_relay \<and>
    decodeBundle (sc_data c) = Inr (forged_bundle item) \<and> bundleIdentity (forged_bundle item) = Inr (sample_ident (VNum 1)) \<and>
    identity_text (forged_bundle item) = Inr i \<and> payload_length (forged_bundle item) = Inr 4 \<and>
    readBlockItems (forged_bundle item) = Inr (2, [item]) \<and> payloadHash toy (forged_bundle item) \<noteq> Inr (sha256 toy [7])"
proof -
  obtain item where item: "honest_item toy (sample_ident (VNum 0)) (sha256 toy [7]) None [] item sample_relay (VStr ''dtn://src/'')"
    "items_ok [item]" using sample_item by blast
  have cbor: "cbor_ok 32 item" using item(2) by (simp add: items_ok_def)
  obtain bytes where b: "decodeBundle bytes = Inr (forged_bundle item)" "readBlockItems (forged_bundle item) = Inr (2, [item])"
    using forged_decodes [OF item(2)] by blast
  define c where "c = \<lparr>sc_data = bytes, sc_arrivedAt = 0, sc_delivery = False, sc_note = ''x''\<rparr>"
  have bid: "bundleIdentity (forged_bundle item) = Inr (sample_ident (VNum 1))"
  proof -
    have "bp_primary (forged_bundle item) = bp_primary (sample_seq (VNum 1))" by (simp add: forged_bundle_def)
    then have "bundleIdentity (forged_bundle item) = bundleIdentity (sample_seq (VNum 1))" by (simp only: bundleIdentity_def)
    then show ?thesis using sample_facts(1) by simp
  qed
  have "json_ok (VArr (sample_ident (VNum 1)))" by (simp add: sample_ident_def)
  from stringify_jtext [OF this] bid obtain i where i: "identity_text (forged_bundle item) = Inr i"
    by (simp add: identity_text_def del: stringify.simps)
  have n: "payload_length (forged_bundle item) = Inr 4"
    by (simp add: payload_length_def forged_bundle_def PREVIOUS_NODE_def PAYLOAD_def CUSTODY_BLOCK_TYPE_def)
  have hash: "payloadHash toy (forged_bundle item) \<noteq> Inr (sha256 toy [7])"
    by (simp add: payloadHash_def payloadOf_def forged_bundle_def PREVIOUS_NODE_def PAYLOAD_def CUSTODY_BLOCK_TYPE_def toy_def)
  have trust: "trusts toy (Ring (ho_keyring (sample_house i))) sample_relay"
    using trusts_anchor by (simp add: sample_house_def)
  have data: "sc_data c = bytes" by (simp add: c_def)
  show ?thesis
    using item(1) cbor trust b i bid n hash data by (intro exI [of _ item] exI [of _ c] exI [of _ i]) simp
qed

lemma sample_foreign:
  "\<exists>item c i g'. decodeBundle (sc_data c) = Inr (forged_bundle item) \<and> identity_text (forged_bundle item) = Inr i \<and>
    clear_claim toy (sample_house i) c (new_clearing (sample_house i)) = Inr g' \<and>
    (i @ ''|dtn://x/'', ''relay'', 4 / 1000000 * 8) \<in> set (cg_credited g')"
proof -
  obtain item i and c :: settle_claim where s: "honest_item toy (sample_ident (VNum 0)) (sha256 toy [7]) None [] item sample_relay (VStr ''dtn://src/'')"
    "cbor_ok 32 item" "trusts toy (Ring (ho_keyring (sample_house i))) sample_relay"
    "decodeBundle (sc_data c) = Inr (forged_bundle item)" "bundleIdentity (forged_bundle item) = Inr (sample_ident (VNum 1))"
    "identity_text (forged_bundle item) = Inr i" "payload_length (forged_bundle item) = Inr 4"
    "readBlockItems (forged_bundle item) = Inr (2, [item])" "payloadHash toy (forged_bundle item) \<noteq> Inr (sha256 toy [7])"
    using sample_claim by blast
  have "\<exists>f g'. receiptFields item = Inr f \<and> r2_bundle f = VArr (sample_ident (VNum 0)) \<and> r2_payloadHash f = VBytes (sha256 toy [7]) \<and>
    clear_claim toy (sample_house i) c (new_clearing (sample_house i)) = Inr g' \<and>
    (i @ ''|'' @ r_eid sample_relay, ''relay'', of_nat 4 / 1000000 * 8) \<in> set (cg_credited g')"
    by (rule foreign_credit [OF s(1-8) _ _ _ _ new_clearing_ok _ _ s(9)])
      (simp_all add: sample_house_def new_clearing_def sample_ident_def)
  with s(4,6) show ?thesis by (auto simp: sample_relay_def)
qed

lemma statements_total:
  "\<forall>(op, a)\<in>set xs. oa_leaves a \<noteq> [] \<Longrightarrow> \<exists>ss. rmapM (statement_of C) xs = Inr ss"
proof (rule rmapM_total)
  fix x assume leaves: "\<forall>(op, a)\<in>set xs. oa_leaves a \<noteq> []" "x \<in> set xs"
  obtain op a where x: "x = (op, a)" by (cases x)
  have sorted_nil: "sort l = [] \<longleftrightarrow> l = []" for l :: "string list"
    by (metis length_0_conv length_sort)
  show "\<exists>y. statement_of C x = Inr y"
    using leaves x by (auto simp: statement_of_def buildTree_def Let_def sorted_nil)
qed

lemma clear_total:
  assumes "clear_claims C h claims (new_clearing h) = Inr g"
  shows "\<exists>ss. clear C h claims = Inr (g, ss)"
proof -
  have "clearing_ok h g" by (rule clear_claims_ok [OF assms new_clearing_ok])
  then have "\<forall>(op, a)\<in>set (filter (\<lambda>(op, a). op \<noteq> ho_owner h \<and> oa_bundles a \<noteq> 0) (cg_perOp g)). oa_leaves a \<noteq> []"
    by (fastforce simp: clearing_ok_def)
  from statements_total [OF this, of C] assms show ?thesis by (auto simp: clear_def)
qed


text \<open>Property C27. The clearing house (ssi/settle.mjs) never compares what a receipt says with the bundle it is
  submitted with. A receipt that a trusted custodian signed for any other bundle and any other payload is credited
  for a delivered bundle, at the size of the payload in the claim: nothing relates the identity \<open>other\<close> and the
  payload hash \<open>h\<close> in the receipt to the bundle \<open>b\<close> of the claim.\<close>

theorem foreign_receipt_credited:
  assumes item: "honest_item C other h hc [] item rl prev" "cbor_ok d item" and trust: "trusts C (Ring (ho_keyring ho)) rl"
    and claim: "decodeBundle (sc_data c) = Inr b" "bundleIdentity b = Inr ident" "identity_text b = Inr i" "payload_length b = Inr n"
      "readBlockItems b = Inr (2, [item])" "i \<in> set (ho_delivered ho)"
    and op: "ho_opOf ho (VStr (r_eid rl)) = Some op" "op \<noteq> ho_owner ho" "map_of (ho_rates ho) op = Some r"
    and g: "clearing_ok ho g" "i @ ''|'' @ r_eid rl \<notin> set (map fst (cg_credited g))"
    and foreign: "other \<noteq> ident" "payloadHash C b \<noteq> Inr h"
  shows "\<exists>f g'. receiptFields item = Inr f \<and> r2_bundle f = VArr other \<and> r2_payloadHash f = VBytes h \<and>
    clear_claim C ho c g = Inr g' \<and> (i @ ''|'' @ r_eid rl, op, of_nat n / 1000000 * r) \<in> set (cg_credited g')"
  by (rule foreign_credit [OF assms])

lemma foreign_receipt_credited_witness:
  "\<exists>item c i g'. decodeBundle (sc_data c) = Inr (forged_bundle item) \<and> identity_text (forged_bundle item) = Inr i \<and>
    clear_claim toy (sample_house i) c (new_clearing (sample_house i)) = Inr g' \<and>
    (i @ ''|dtn://x/'', ''relay'', 4 / 1000000 * 8) \<in> set (cg_credited g')"
proof -
  obtain item i and c :: settle_claim where s: "honest_item toy (sample_ident (VNum 0)) (sha256 toy [7]) None [] item sample_relay (VStr ''dtn://src/'')"
    "cbor_ok 32 item" "trusts toy (Ring (ho_keyring (sample_house i))) sample_relay"
    "decodeBundle (sc_data c) = Inr (forged_bundle item)" "bundleIdentity (forged_bundle item) = Inr (sample_ident (VNum 1))"
    "identity_text (forged_bundle item) = Inr i" "payload_length (forged_bundle item) = Inr 4"
    "readBlockItems (forged_bundle item) = Inr (2, [item])" "payloadHash toy (forged_bundle item) \<noteq> Inr (sha256 toy [7])"
    using sample_claim by blast
  have "\<exists>f g'. receiptFields item = Inr f \<and> r2_bundle f = VArr (sample_ident (VNum 0)) \<and> r2_payloadHash f = VBytes (sha256 toy [7]) \<and>
    clear_claim toy (sample_house i) c (new_clearing (sample_house i)) = Inr g' \<and>
    (i @ ''|'' @ r_eid sample_relay, ''relay'', of_nat 4 / 1000000 * 8) \<in> set (cg_credited g')"
    by (rule foreign_receipt_credited [OF s(1-8) _ _ _ _ new_clearing_ok _ _ s(9)])
      (simp_all add: sample_house_def new_clearing_def sample_ident_def)
  with s(4,6) show ?thesis by (auto simp: sample_relay_def)
qed

end
