(* ===== verification/Spec2Isabelle.thy ===== *)
theory Spec2Isabelle
  imports Path StreamMerkle Sim FastStamp Tcpcl4Safety Tcpcl3 GatewayFaults ReliefHub BpsecProps Treb GroundProps FaucetProps Cgr Aap Plans Clearing
begin

text \<open>
  Custody of bundles in a delay-tolerant network: a verification development of dtn-custody-demo.

  The program moves payloads over links that are down most of the time, and leaves evidence of who held
  what and when. This library models its JavaScript in HOL, function by function under the names of
  the source, and proves what the parts promise and where they do not keep it. This theory only collects the
  others; each opens with a note on the file it models.

  \<^bold>\<open>How the program is put together.\<close>

    \<^item> The application layer (agent/). A source cuts a payload into chunks under a Merkle root and signs a
      manifest; relays sign one custody receipt each, linked by the claim id of the previous one; the destination
      checks every chunk against the root, reassembles, and checks the chain against its pinned hops.
      transport/sim.mjs runs these roles over lossy links with custody timers.
    \<^item> The bundle layer (transport/bpv7/). CBOR, BPv7 bundles with CRCs, a custody block that carries the
      receipts in the bundle, COSE signatures, a keyring with rotation and revocation, version 2 receipts
      judged with that keyring, a streaming receiver that stamps without parsing the payload, integrity blocks,
      and signed traceroute records.
    \<^item> The gateway (gateway/). IP payloads become bundles that wait in a spool on disk until the
      peer acknowledges them over TCPCL version 4 or 3; fragments that come in are reassembled in bounded memory.
    \<^item> The users of these layers: the relief network (relief/kit/lib), ground station ledgers (ground/lib.mjs),
      payments over radio, text messages and sound (radio/), contact plans (contact-plans/), contact graph
      routing and clearing between operators (ssi/), and the client of the \<mu>D3TN daemon (r2/aap.mjs).

  \<^bold>\<open>Conventions.\<close>

    \<^item> A thrown exception is \<open>Inl message\<close> of \<open>'a res\<close>, sequenced with \<open>rbind\<close>;
      a verdict object \<open>{ok, reason}\<close> is a datatype of its own, so that refusing and throwing stay apart.
    \<^item> Bytes are \<open>8 word\<close> lists. A JavaScript string is the list of its UTF-8 bytes. A value of
      unknown type (anything that came off a wire) is a \<open>jsval\<close>, with the operators the code applies to
      it (strict equality, truthiness, comparison, property reads, conversion) in JsValue and JsOps.
    \<^item> A Map or an object is an association list in insertion order wherever the order can be observed.
      Numbers of the code are integers, with the bound \<open>MAX_SAFE_INTEGER\<close> where the code tests it or where
      BigInt takes over; CRC registers and the simulator's generator keep their width.
    \<^item> SHA-256, Ed25519, HMAC, AES key wrap, X25519 and the payment library are parameters (\<open>crypto\<close>,
      \<open>macs\<close>, \<open>sealing\<close>, \<open>sdk\<close>). Hypotheses on them are documented behaviour: a signature made
      with a key verifies under its public key, a digest has 32 bytes. Security statements do not assume that
      SHA-256 is injective: they end in the alternative that two different inputs with one digest are exhibited.
    \<^item> Asynchronous code is a state and one function for each event. What the code does across an
      \<open>await\<close> is split there, and the state says what is pending.

  \<^bold>\<open>Foundations.\<close> Prelude: the error monad, bytes, hex, base64, and the locale \<open>prefix_codec\<close> of codecs
  that read an item from the front of a byte string. Utf8, JsValue, JsOps, JsDate: the language and its library.
  Crypto: the parameters. Canonical and JsonParse: canonical JSON, \<open>JSON.parse\<close>, and that parsing a printed value
  gives it back; FlatRecord: records of primitive fields survive the trip and verify as before.
  Four locales are the interfaces between components, each interpreted on the models of the code:
  Inclusion (inclusion proofs; by Merkle and by StreamMerkle), Incremental (a session over a byte stream;
  by Tcpcl4, Tcpcl3 and Aap), Outbox (a durable queue; by Spool) and Collect (a message assembled from numbered
  pieces; by RadioProps).

  \<^bold>\<open>The application layer.\<close> Merkle (merkle.mjs): every honest proof is accepted, and an accepted proof opens
  the committed leaf or exhibits a collision; StreamMerkle: the streaming builder closes with the same root and proofs.
  Receipt (receipt.mjs, keys.mjs): what a signature binds, and that a pinned chain is accepted exactly when
  it is linked and signed by the pinned hops. Batch and Path (batch.mjs, path.mjs): a batch receipt vouches for exactly its
  members; an accepted path is signed, authorized, linked and ordered in time. Agent (source.mjs, relay.mjs,
  dest.mjs): delivery in any order and with duplicates, what hostile bundles cannot change, and the index that
  is not checked. Sim (sim.mjs, gap.mjs): without loss every bundle arrives once with a valid chain.
  \<open>chunk\<close> does not end for a chunk size of 0, so its loop is a partial function, and what uses it says when it returns.

  \<^bold>\<open>The bundle layer.\<close> Cbor: decoding inverts encoding, and what decodes is encodable; nesting is limited to
  the 32 levels of the code. Crc and Bundle: encoding then decoding a bundle gives it back, the table-driven
  CRCs are the serial ones, and a change of one byte is detected. CustodyBlock: a bundle stamped by the relays of
  a pinned route is accepted. Cose, Keyring, ReceiptV2: a key that is found chains to an anchor; the keyring is the
  map of records to their first sighting whatever the order they come in; an accepted version 2 chain is about this bundle and
  signed by the right keys, and a revoked key counts only with a witness. \<open>chainOf\<close> and \<open>revokedFrom\<close> call
  each other with a depth the code bounds by 6; the model counts the levels that are left. FastStamp: the streaming receiver
  does not depend on how the bytes are cut. Bpsec and BpsecProps: added integrity blocks verify, stamping leaves them
  valid, and a MAC pins its target. Treb: signed hop records along a path pass the audit.

  \<^bold>\<open>The gateway.\<close> Tcpcl4Wire, Tcpcl4 and Tcpcl4Safety (tcpcl4.mjs): messages, the session as a state with a
  handler for each message and timer, handshake and transfer end to end however the streams are cut, who gets to deliver, and the
  memory a transfer may take. Tcpcl3 (tcpcl3.mjs) likewise. Spool (spool.mjs): a queue that survives restarts and a crash between write and rename.
  Gateway (gateway.mjs): bundles of a payload, ingress receipts, reassembly, delivery and the sender as a state machine;
  GatewayQueue: nothing that was accepted is lost or reordered before the peer has acknowledged it;
  GatewayReassembly and GatewayDelivery: the buffer stays bounded, and a payload crosses two gateways once with its receipt;
  GatewayFaults: inputs that stop it. Each \<open>data\<close> event runs a loop whose fuel is the length of the buffer plus two:
  every step but the last takes a byte, which Incremental proves enough.

  \<^bold>\<open>The users.\<close> Relief and ReliefHub (relief/kit/lib/roles.mjs, seal.mjs): clinic, relay and hub with the
  mutations that a throwing handler leaves behind. Ground and GroundProps (ground/lib.mjs): ledgers, their verification, and comparison of two stations; an honest
  ledger verifies with the right counts, and a seal pins every record.
  Radio, RadioText, RadioGateway, Faucet (radio/lib, radio/sms, radio/faucet, agent/lib/arc.mjs): frames, receipts,
  texts, sound chunks, gateway and sender as state machines, and the faucet's claims. RadioProps, RadioDelivery and RadioFaults:
  frames are put together in any order, a payment is settled and its receipt reaches the sender, and what keeps it
  from doing so; FaucetProps: no coin is paid twice and the limits hold.
  Plans (contact-plans/compile.mjs, sign.mjs): the compilers agree with each other; a signed plan and its files check.
  Cgr (ssi/cgr.mjs): the route is the earliest journey; the search visits each end of a contact
  at most once, so the number of contacts plus two bounds its rounds, which is proved. Clearing (ssi/settle.mjs): each
  carriage is paid once. Aap (r2/aap.mjs): the client's parser and its queues of requests.

  \<^bold>\<open>Idealizations.\<close> Plans and Clearing compute with exact rationals where the code has doubles; the statements
  of Clearing leave out the rounding to six digits and the signature. White space in texts is that of ASCII. Dates are read in the
  form the program writes. \<open>JSON.parse\<close> is modelled for texts without fractions and exponents.

  \<^bold>\<open>Not modelled.\<close> Command lines, process, file, serial, HTTP and socket glue (gateway/cli.mjs, relief/kit/node.mjs,
  radio/cli.mjs and the like), certificate generation, key generation; the drivers that run the library against other bundle nodes or print and measure
  (hardy/, ion/, hdtn/, bench/, demo/, live/, flight/, mars/, mix/, m0/); orbit and link models in floating point (constellation/, voyager/,
  lunar/, ssi/ephem.mjs, contact-plans/passes.mjs), where a theorem over the reals would not be about
  the doubles the code computes; audio signal processing and video rendering; the browser interface of radio/handoff,
  which wraps the modelled payment functions; relief/scale/sim.mjs, whose generator of random events drives the same modelled roles.
\<close>

end
